(* ===== verification/Prelude.thy ===== *)
theory Prelude
  imports Main "HOL-Library.Word" "HOL-Library.Monad_Syntax"
begin

text \<open>
  Shared vocabulary of the development: the fixed-width integer types of the C sources,
  the status codes of \<^verbatim>\<open>source/libraries/status/status.h\<close>, the \<^theory_text>\<open>named_theorems\<close>
  collections the component proofs use, and generic lemmas on lists, options and words.

  Conventions used everywhere:
  \<^item> a C object with static storage is a field of a state record; a pointer to it is a value
    of a small datatype (one constructor per static array), \<^typ>\<open>'a option\<close> when the C code
    also stores \<open>NULL\<close>;
  \<^item> a C function that changes state takes the state as its last argument and returns
    the new one, paired with its return value where it has one;
  \<^item> where the C code can spin forever or dereference \<open>NULL\<close>, the model returns an option
    and \<^const>\<open>None\<close> stands for \<open>does not return\<close>. Claims that an operation returns are stated
    as \<open>\<dots> = Some \<dots>\<close>.
\<close>

type_synonym u8 = "8 word"
type_synonym u16 = "16 word"
type_synonym u32 = "32 word"
type_synonym u64 = "64 word"

text \<open>\<open>StatusCode\<close>, in the order of the header; \<open>status_num\<close> is the value of the C enumerator.\<close>

datatype StatusCode =
    E_OK | E_INVALID_ARGS | E_OUT_OF_MEM | E_RESOURCE_EXHAUSTED | E_EMPTY | E_TIMED_OUT
  | E_CORRUPTED | E_ABORTED | E_CMD | E_DATA | E_CRC | E_NOTSUPP | E_NOT_INITIALIZED

fun status_num :: "StatusCode \<Rightarrow> nat" where
  "status_num E_OK = 0"
| "status_num E_INVALID_ARGS = 1"
| "status_num E_OUT_OF_MEM = 2"
| "status_num E_RESOURCE_EXHAUSTED = 3"
| "status_num E_EMPTY = 4"
| "status_num E_TIMED_OUT = 5"
| "status_num E_CORRUPTED = 6"
| "status_num E_ABORTED = 7"
| "status_num E_CMD = 8"
| "status_num E_DATA = 9"
| "status_num E_CRC = 10"
| "status_num E_NOTSUPP = 11"
| "status_num E_NOT_INITIALIZED = 12"

lemma status_num_inj: "status_num a = status_num b \<Longrightarrow> a = b"
  by (cases a; cases b) simp_all

text \<open>Status codes are compared by their enumerator value, as C does.\<close>

instantiation StatusCode :: linorder
begin

definition less_eq_StatusCode :: "StatusCode \<Rightarrow> StatusCode \<Rightarrow> bool" where
  "less_eq_StatusCode a b \<longleftrightarrow> status_num a \<le> status_num b"

definition less_StatusCode :: "StatusCode \<Rightarrow> StatusCode \<Rightarrow> bool" where
  "less_StatusCode a b \<longleftrightarrow> status_num a < status_num b"

instance
  by standard (auto simp: less_eq_StatusCode_def less_StatusCode_def intro: status_num_inj)

end

subsection \<open>Collections of rules\<close>

named_theorems frame_simps \<open>what an operation leaves unchanged\<close>
named_theorems wf_intros \<open>how an operation keeps well-formedness\<close>

subsection \<open>Lists, options, words\<close>

lemma remove1_middle [simp]: "x \<notin> set xs \<Longrightarrow> remove1 x (xs @ x # ys) = xs @ ys"
  by (simp add: remove1_append)

lemma distinct_set_remove1 [simp]: "distinct xs \<Longrightarrow> set (remove1 x xs) = set xs - {x}"
  by simp

lemma last_tl_Cons: "xs \<noteq> [] \<Longrightarrow> last (x # xs) = last xs"
  by simp

lemma word_gt_0_iff_nonempty:
  assumes "length xs < 2 ^ LENGTH('n::len)"
  shows "(of_nat (length xs) :: 'n word) = 0 \<longleftrightarrow> xs = []"
proof
  assume "(of_nat (length xs) :: 'n word) = 0"
  then have "unat (of_nat (length xs) :: 'n word) = 0" by simp
  moreover have "unat (of_nat (length xs) :: 'n word) = length xs"
    using assms by (simp add: unat_of_nat take_bit_nat_eq_self)
  ultimately show "xs = []" by simp
qed simp

lemma unat_lt2p: "unat (w :: 'a::len word) < 2 ^ LENGTH('a)"
  by (fact unsigned_less)

lemma ucast_ucast_u8: "ucast (ucast (b :: u8) :: u32) = b"
  by (rule bit_word_eqI) (auto simp: bit_simps)

lemma bind_Some_iff: "(Option.bind m f = Some y) = (\<exists>x. m = Some x \<and> f x = Some y)"
  by (cases m) auto

end
