(* ===== verification/Task_Types.thy ===== *)
theory Task_Types
  imports Prelude
begin

text \<open>
  The kernel's data, from \<^verbatim>\<open>kernel/task_types/task_types.h\<close> and the structs of
  \<^verbatim>\<open>mutex.h\<close>, \<^verbatim>\<open>semaphore.h\<close>, \<^verbatim>\<open>queue.h\<close>, \<^verbatim>\<open>software_timer.h\<close> and \<^verbatim>\<open>scheduler.c\<close>.

  All kernel objects have static storage, so a pointer is one of finitely many names: a task
  control block is a slot of \<^verbatim>\<open>tcb_pool\<close> or a core's \<^verbatim>\<open>idle_tcb\<close>; a list item is one of
  the two items embedded in a task control block; a list is a ready list, a blocked list, or the wait list of
  a mutex or semaphore. The record \<open>kernel\<close> is the store that maps these names to contents,
  so aliasing between the task control blocks and the lists is explicit.

  The spinlocks that guard these structures are not fields of the store: every
  operation below is one critical section (interrupts masked and the object's lock held), and
  \<open>Spinlock\<close> proves that such sections exclude each other.
\<close>

subsection \<open>Constants\<close>

definition COMPANION_CORE_MAX_CORES :: nat where
  "COMPANION_CORE_MAX_CORES = 4"

definition MAX_NUM_TASKS :: nat where
  "MAX_NUM_TASKS = 16"

definition NUM_TASK_PRIORITIES :: nat where
  "NUM_TASK_PRIORITIES = 6"

definition TASK_PRIORITY_IDLE :: nat where
  "TASK_PRIORITY_IDLE = 0"

definition TASK_WATERMARK :: u32 where
  "TASK_WATERMARK = 0x5A"

lemmas task_consts = COMPANION_CORE_MAX_CORES_def MAX_NUM_TASKS_def NUM_TASK_PRIORITIES_def
  TASK_PRIORITY_IDLE_def

text \<open>\<open>TaskPriorityLevel\<close> is a C enum whose range the code checks at run time
  (\<open>priority >= NUM_TASK_PRIORITIES\<close>), so it is a number here, not a closed datatype.\<close>

type_synonym core = nat
type_synonym TaskPriorityLevel = nat

datatype TaskState =
  TASK_STATE_READY | TASK_STATE_RUNNING | TASK_STATE_BLOCKED | TASK_STATE_SUSPENDED | TASK_STATE_DELETED

datatype TaskWakeupReason = WAKEUP_REASON_NONE | WAKEUP_REASON_RESOURCE_ACQUIRED

subsection \<open>Pointers\<close>

datatype tptr = TcbPool core nat | IdleTcb core

datatype iptr = StateItem tptr | EventItem tptr

type_synonym mptr = nat
type_synonym qptr = nat
type_synonym tmptr = nat

datatype sptr = Sem nat | SpaceAvailable qptr | DataAvailable qptr | SoftwareTimerSem

datatype lptr =
    ReadyList core TaskPriorityLevel
  | BlockedTaskList core
  | MutexBlockedList mptr
  | SemaphoreBlockedList sptr

text \<open>Stack words live in the kernel heap or in a core's \<^verbatim>\<open>idle_stack\<close>; a \<open>StackType_t *\<close> is a
  block with a word index, an integer because the code decrements it without a bound.\<close>

datatype stack_block = HeapWords | IdleStack core

type_synonym stackptr = "stack_block \<times> int"

subsection \<open>Structs\<close>

record ListItem =
  li_next :: "iptr option"
  li_prev :: "iptr option"
  li_owner :: tptr
  li_container :: "lptr option"

record List =
  l_num_items :: u16
  l_head :: "iptr option"
  l_index :: "iptr option"
  l_list_end :: "iptr option"

record TaskControlBlock =
  current_sp :: stackptr
  stack_high :: stackptr
  stack_base :: "stackptr option"
  stack_depth :: u16
  task_id :: u16
  core_id :: core
  current_state :: TaskState
  priority :: TaskPriorityLevel
  wakeup_time :: u64
  wakeup_reason :: TaskWakeupReason
  base_priority :: TaskPriorityLevel
  mutexes_held :: u32

datatype MutexState = MUTEX_STATE_LOCKED | MUTEX_STATE_UNLOCKED

record Mutex =
  m_state :: MutexState
  mutex_owner :: "tptr option"
  inheritance_enabled :: bool
  inherited_priority :: TaskPriorityLevel

record Semaphore =
  max_count :: u32
  sem_count :: u32

record Queue =
  q_buf :: "u8 list"
  q_head :: u32
  q_tail :: u32
  q_capacity :: u32
  q_item_size :: u32

datatype TimerMode = TIMER_MODE_ONE_SHOT | TIMER_MODE_PERIODIC

datatype TimerListId = TIMER_LIST_NONE | TIMER_LIST_BLOCKED | TIMER_LIST_ACTIVE

record SoftwareTimer =
  expiry_tick :: u64
  period :: u64
  timer_mode :: TimerMode
  tm_callback :: "nat option"
  list_id :: TimerListId
  tm_next :: "tmptr option"

text \<open>Console lines the kernel prints on its warning paths.\<close>

datatype kmsg = WarnOverrun u32 u32 | CouldNotCreateTask

record kernel =
  list_at :: "lptr \<Rightarrow> List"
  items :: "iptr \<Rightarrow> ListItem"
  tcb :: "tptr \<Rightarrow> TaskControlBlock"
  p_task_control_block :: "core \<Rightarrow> tptr option"
  tick_count :: "core \<Rightarrow> u64"
  clk_freq :: "core \<Rightarrow> u32"
  hz :: "core \<Rightarrow> u32"
  cntp_cval :: "core \<Rightarrow> u64"
  stack_mem :: "stackptr \<Rightarrow> u32"
  heap_offset :: u32
  task_counter :: "core \<Rightarrow> u16"
  mutexes :: "mptr \<Rightarrow> Mutex"
  semaphores :: "sptr \<Rightarrow> Semaphore"
  queues :: "qptr \<Rightarrow> Queue"
  timers :: "tmptr \<Rightarrow> SoftwareTimer"
  blocked_list_head :: "tmptr option"
  active_list_head :: "tmptr option"
  console :: "kmsg list"

subsection \<open>Assignments through a pointer\<close>

definition upd_item :: "iptr \<Rightarrow> (ListItem \<Rightarrow> ListItem) \<Rightarrow> kernel \<Rightarrow> kernel" where
  "upd_item x f s = s\<lparr>items := (items s)(x := f (items s x))\<rparr>"

definition upd_list :: "lptr \<Rightarrow> (List \<Rightarrow> List) \<Rightarrow> kernel \<Rightarrow> kernel" where
  "upd_list L f s = s\<lparr>list_at := (list_at s)(L := f (list_at s L))\<rparr>"

definition upd_tcb :: "tptr \<Rightarrow> (TaskControlBlock \<Rightarrow> TaskControlBlock) \<Rightarrow> kernel \<Rightarrow> kernel" where
  "upd_tcb t f s = s\<lparr>tcb := (tcb s)(t := f (tcb s t))\<rparr>"

definition upd_mutex :: "mptr \<Rightarrow> (Mutex \<Rightarrow> Mutex) \<Rightarrow> kernel \<Rightarrow> kernel" where
  "upd_mutex m f s = s\<lparr>mutexes := (mutexes s)(m := f (mutexes s m))\<rparr>"

definition upd_sem :: "sptr \<Rightarrow> (Semaphore \<Rightarrow> Semaphore) \<Rightarrow> kernel \<Rightarrow> kernel" where
  "upd_sem m f s = s\<lparr>semaphores := (semaphores s)(m := f (semaphores s m))\<rparr>"

definition upd_timer :: "tmptr \<Rightarrow> (SoftwareTimer \<Rightarrow> SoftwareTimer) \<Rightarrow> kernel \<Rightarrow> kernel" where
  "upd_timer m f s = s\<lparr>timers := (timers s)(m := f (timers s m))\<rparr>"

text \<open>The field an updater writes, and that it writes no other field.\<close>

lemma items_upd_item [simp]: "items (upd_item x f s) = (items s)(x := f (items s x))"
  by (simp add: upd_item_def)

lemma list_at_upd_list [simp]: "list_at (upd_list L f s) = (list_at s)(L := f (list_at s L))"
  by (simp add: upd_list_def)

lemma tcb_upd_tcb [simp]: "tcb (upd_tcb t f s) = (tcb s)(t := f (tcb s t))"
  by (simp add: upd_tcb_def)

lemma mutexes_upd_mutex [simp]:
  "mutexes (upd_mutex m f s) = (mutexes s)(m := f (mutexes s m))"
  by (simp add: upd_mutex_def)

lemma semaphores_upd_sem [simp]:
  "semaphores (upd_sem m f s) = (semaphores s)(m := f (semaphores s m))"
  by (simp add: upd_sem_def)

lemma timers_upd_timer [simp]:
  "timers (upd_timer m f s) = (timers s)(m := f (timers s m))"
  by (simp add: upd_timer_def)

lemma frame_upd_item [simp]:
  "list_at (upd_item x f s) = list_at s"
  "tcb (upd_item x f s) = tcb s"
  "p_task_control_block (upd_item x f s) = p_task_control_block s"
  "tick_count (upd_item x f s) = tick_count s"
  "clk_freq (upd_item x f s) = clk_freq s"
  "hz (upd_item x f s) = hz s"
  "cntp_cval (upd_item x f s) = cntp_cval s"
  "stack_mem (upd_item x f s) = stack_mem s"
  "heap_offset (upd_item x f s) = heap_offset s"
  "task_counter (upd_item x f s) = task_counter s"
  "mutexes (upd_item x f s) = mutexes s"
  "semaphores (upd_item x f s) = semaphores s"
  "queues (upd_item x f s) = queues s"
  "timers (upd_item x f s) = timers s"
  "blocked_list_head (upd_item x f s) = blocked_list_head s"
  "active_list_head (upd_item x f s) = active_list_head s"
  "console (upd_item x f s) = console s"
  by (simp_all add: upd_item_def)

lemma frame_upd_list [simp]:
  "items (upd_list L f s) = items s"
  "tcb (upd_list L f s) = tcb s"
  "p_task_control_block (upd_list L f s) = p_task_control_block s"
  "tick_count (upd_list L f s) = tick_count s"
  "clk_freq (upd_list L f s) = clk_freq s"
  "hz (upd_list L f s) = hz s"
  "cntp_cval (upd_list L f s) = cntp_cval s"
  "stack_mem (upd_list L f s) = stack_mem s"
  "heap_offset (upd_list L f s) = heap_offset s"
  "task_counter (upd_list L f s) = task_counter s"
  "mutexes (upd_list L f s) = mutexes s"
  "semaphores (upd_list L f s) = semaphores s"
  "queues (upd_list L f s) = queues s"
  "timers (upd_list L f s) = timers s"
  "blocked_list_head (upd_list L f s) = blocked_list_head s"
  "active_list_head (upd_list L f s) = active_list_head s"
  "console (upd_list L f s) = console s"
  by (simp_all add: upd_list_def)

lemma frame_upd_tcb [simp]:
  "list_at (upd_tcb t f s) = list_at s"
  "items (upd_tcb t f s) = items s"
  "p_task_control_block (upd_tcb t f s) = p_task_control_block s"
  "tick_count (upd_tcb t f s) = tick_count s"
  "clk_freq (upd_tcb t f s) = clk_freq s"
  "hz (upd_tcb t f s) = hz s"
  "cntp_cval (upd_tcb t f s) = cntp_cval s"
  "stack_mem (upd_tcb t f s) = stack_mem s"
  "heap_offset (upd_tcb t f s) = heap_offset s"
  "task_counter (upd_tcb t f s) = task_counter s"
  "mutexes (upd_tcb t f s) = mutexes s"
  "semaphores (upd_tcb t f s) = semaphores s"
  "queues (upd_tcb t f s) = queues s"
  "timers (upd_tcb t f s) = timers s"
  "blocked_list_head (upd_tcb t f s) = blocked_list_head s"
  "active_list_head (upd_tcb t f s) = active_list_head s"
  "console (upd_tcb t f s) = console s"
  by (simp_all add: upd_tcb_def)

lemma frame_upd_mutex [simp]:
  "list_at (upd_mutex m f s) = list_at s"
  "items (upd_mutex m f s) = items s"
  "tcb (upd_mutex m f s) = tcb s"
  "p_task_control_block (upd_mutex m f s) = p_task_control_block s"
  "tick_count (upd_mutex m f s) = tick_count s"
  "clk_freq (upd_mutex m f s) = clk_freq s"
  "hz (upd_mutex m f s) = hz s"
  "cntp_cval (upd_mutex m f s) = cntp_cval s"
  "stack_mem (upd_mutex m f s) = stack_mem s"
  "heap_offset (upd_mutex m f s) = heap_offset s"
  "task_counter (upd_mutex m f s) = task_counter s"
  "semaphores (upd_mutex m f s) = semaphores s"
  "queues (upd_mutex m f s) = queues s"
  "timers (upd_mutex m f s) = timers s"
  "blocked_list_head (upd_mutex m f s) = blocked_list_head s"
  "active_list_head (upd_mutex m f s) = active_list_head s"
  "console (upd_mutex m f s) = console s"
  by (simp_all add: upd_mutex_def)

lemma frame_upd_sem [simp]:
  "list_at (upd_sem m f s) = list_at s"
  "items (upd_sem m f s) = items s"
  "tcb (upd_sem m f s) = tcb s"
  "p_task_control_block (upd_sem m f s) = p_task_control_block s"
  "tick_count (upd_sem m f s) = tick_count s"
  "clk_freq (upd_sem m f s) = clk_freq s"
  "hz (upd_sem m f s) = hz s"
  "cntp_cval (upd_sem m f s) = cntp_cval s"
  "stack_mem (upd_sem m f s) = stack_mem s"
  "heap_offset (upd_sem m f s) = heap_offset s"
  "task_counter (upd_sem m f s) = task_counter s"
  "mutexes (upd_sem m f s) = mutexes s"
  "queues (upd_sem m f s) = queues s"
  "timers (upd_sem m f s) = timers s"
  "blocked_list_head (upd_sem m f s) = blocked_list_head s"
  "active_list_head (upd_sem m f s) = active_list_head s"
  "console (upd_sem m f s) = console s"
  by (simp_all add: upd_sem_def)

lemma frame_upd_timer [simp]:
  "list_at (upd_timer m f s) = list_at s"
  "items (upd_timer m f s) = items s"
  "tcb (upd_timer m f s) = tcb s"
  "p_task_control_block (upd_timer m f s) = p_task_control_block s"
  "tick_count (upd_timer m f s) = tick_count s"
  "clk_freq (upd_timer m f s) = clk_freq s"
  "hz (upd_timer m f s) = hz s"
  "cntp_cval (upd_timer m f s) = cntp_cval s"
  "stack_mem (upd_timer m f s) = stack_mem s"
  "heap_offset (upd_timer m f s) = heap_offset s"
  "task_counter (upd_timer m f s) = task_counter s"
  "mutexes (upd_timer m f s) = mutexes s"
  "semaphores (upd_timer m f s) = semaphores s"
  "queues (upd_timer m f s) = queues s"
  "blocked_list_head (upd_timer m f s) = blocked_list_head s"
  "active_list_head (upd_timer m f s) = active_list_head s"
  "console (upd_timer m f s) = console s"
  by (simp_all add: upd_timer_def)

subsection \<open>Which names denote objects\<close>

fun valid_tcb :: "tptr \<Rightarrow> bool" where
  "valid_tcb (TcbPool c i) = (c < COMPANION_CORE_MAX_CORES \<and> i < MAX_NUM_TASKS)"
| "valid_tcb (IdleTcb c) = (c < COMPANION_CORE_MAX_CORES)"

fun item_tcb :: "iptr \<Rightarrow> tptr" where
  "item_tcb (StateItem t) = t"
| "item_tcb (EventItem t) = t"

definition valid_item :: "iptr \<Rightarrow> bool" where
  "valid_item x \<longleftrightarrow> valid_tcb (item_tcb x)"

text \<open>There are finitely many task control blocks, which bounds every list.\<close>

lemma valid_tcb_set:
  "{t. valid_tcb t} = (\<lambda>(c, i). TcbPool c i) ` ({..<4} \<times> {..<16}) \<union> IdleTcb ` {..<4}"
proof (rule set_eqI)
  fix t
  show "t \<in> {t. valid_tcb t} \<longleftrightarrow> t \<in> (\<lambda>(c, i). TcbPool c i) ` ({..<4} \<times> {..<16}) \<union> IdleTcb ` {..<4}"
    by (cases t) (auto simp: task_consts)
qed

lemma finite_valid_tcb [simp]: "finite {t. valid_tcb t}"
  by (simp add: valid_tcb_set)

lemma card_valid_tcb: "card {t. valid_tcb t} \<le> 68"
proof -
  have "card ((\<lambda>(c, i). TcbPool c i) ` ({..<4::nat} \<times> {..<16::nat})) \<le> 64"
    by (rule order_trans [OF card_image_le]) simp_all
  moreover have "card (IdleTcb ` {..<4::nat}) \<le> 4"
    by (rule order_trans [OF card_image_le]) simp_all
  ultimately show ?thesis
    unfolding valid_tcb_set by (intro order_trans [OF card_Un_le]) linarith
qed

lemma valid_item_set: "{x. valid_item x} = StateItem ` {t. valid_tcb t} \<union> EventItem ` {t. valid_tcb t}"
proof (rule set_eqI)
  fix x
  show "x \<in> {x. valid_item x} \<longleftrightarrow> x \<in> StateItem ` {t. valid_tcb t} \<union> EventItem ` {t. valid_tcb t}"
    by (cases x) (auto simp: valid_item_def)
qed

lemma card_valid_item: "card {x. valid_item x} \<le> 136"
proof -
  have "card (StateItem ` {t. valid_tcb t}) \<le> 68" "card (EventItem ` {t. valid_tcb t}) \<le> 68"
    by (rule order_trans [OF card_image_le]; simp add: card_valid_tcb)+
  then show ?thesis
    unfolding valid_item_set by (intro order_trans [OF card_Un_le]) linarith
qed

lemma length_valid_items:
  assumes "distinct xs" and "\<forall>x\<in>set xs. valid_item x"
  shows "length xs \<le> 136"
proof -
  have "finite {x. valid_item x}" by (simp add: valid_item_set)
  then have "card (set xs) \<le> card {x. valid_item x}"
    using assms(2) by (intro card_mono) auto
  with assms(1) card_valid_item show ?thesis by (simp add: distinct_card)
qed

end
