(* ===== verification/Intrusive_List.thy ===== *)
theory Intrusive_List
  imports Task_Types
begin

text \<open>
  The doubly-linked intrusive lists that the scheduler, mutexes and semaphores share. The C
  code repeats the same pointer assignments at every use; they are named here once
  (\<open>link_tail\<close>, \<open>stitch\<close>, \<open>advance_index\<close>, \<open>detach\<close>, \<open>insert_after\<close>, \<open>link_head\<close>) and the
  component theories compose them exactly as the C functions do.

  \<open>dll s L xs\<close> says that in the store \<open>s\<close> the list \<open>L\<close> is a correctly linked list of the
  items \<open>xs\<close>; \<open>wfl s A\<close> says it for all lists at once, with \<open>A\<close> the abstract contents. Each
  pointer operation is shown to refine the matching operation on \<open>A\<close>.
\<close>

subsection \<open>Pointer operations\<close>

definition link_tail :: "lptr \<Rightarrow> iptr \<Rightarrow> tptr \<Rightarrow> kernel \<Rightarrow> kernel" where
  "link_tail L x t s =
     (let s1 = upd_item x (\<lambda>i. i\<lparr>li_owner := t, li_container := Some L, li_next := None,
                                 li_prev := l_list_end (list_at s L)\<rparr>) s;
          s2 = (case l_list_end (list_at s1 L) of
                  Some e \<Rightarrow> upd_item e (\<lambda>i. i\<lparr>li_next := Some x\<rparr>) s1
                | None \<Rightarrow> upd_list L (\<lambda>l. l\<lparr>l_head := Some x\<rparr>) s1)
      in upd_list L (\<lambda>l. l\<lparr>l_list_end := Some x, l_num_items := l_num_items l + 1\<rparr>) s2)"

definition stitch :: "lptr \<Rightarrow> iptr \<Rightarrow> kernel \<Rightarrow> kernel" where
  "stitch L x s =
     (let s1 = (case li_prev (items s x) of
                  Some p \<Rightarrow> upd_item p (\<lambda>i. i\<lparr>li_next := li_next (items s x)\<rparr>) s
                | None \<Rightarrow> upd_list L (\<lambda>l. l\<lparr>l_head := li_next (items s x)\<rparr>) s)
      in (case li_next (items s1 x) of
            Some n \<Rightarrow> upd_item n (\<lambda>i. i\<lparr>li_prev := li_prev (items s1 x)\<rparr>) s1
          | None \<Rightarrow> upd_list L (\<lambda>l. l\<lparr>l_list_end := li_prev (items s1 x)\<rparr>) s1))"

definition advance_index :: "lptr \<Rightarrow> iptr \<Rightarrow> kernel \<Rightarrow> kernel" where
  "advance_index L x s =
     (if l_index (list_at s L) = Some x
      then upd_list L (\<lambda>l. l\<lparr>l_index := (case li_next (items s x) of
                                           Some n \<Rightarrow> Some n | None \<Rightarrow> l_head l)\<rparr>) s
      else s)"

definition detach :: "lptr \<Rightarrow> iptr \<Rightarrow> kernel \<Rightarrow> kernel" where
  "detach L x s =
     upd_item x (\<lambda>i. i\<lparr>li_next := None, li_prev := None, li_container := None\<rparr>)
       (upd_list L (\<lambda>l. l\<lparr>l_num_items := l_num_items l - 1\<rparr>) s)"

definition link_first :: "lptr \<Rightarrow> iptr \<Rightarrow> kernel \<Rightarrow> kernel" where
  "link_first L x s = upd_list L (\<lambda>l. l\<lparr>l_head := Some x, l_list_end := Some x\<rparr>) s"

definition link_before_head :: "lptr \<Rightarrow> iptr \<Rightarrow> iptr \<Rightarrow> kernel \<Rightarrow> kernel" where
  "link_before_head L h x s =
     upd_list L (\<lambda>l. l\<lparr>l_head := Some x\<rparr>)
       (upd_item h (\<lambda>i. i\<lparr>li_prev := Some x\<rparr>)
         (upd_item x (\<lambda>i. i\<lparr>li_next := Some h\<rparr>) s))"

definition insert_after :: "lptr \<Rightarrow> iptr \<Rightarrow> iptr \<Rightarrow> kernel \<Rightarrow> kernel" where
  "insert_after L it x s =
     (let s1 = upd_item x (\<lambda>i. i\<lparr>li_next := li_next (items s it), li_prev := Some it\<rparr>) s;
          s2 = (case li_next (items s1 it) of
                  Some n \<Rightarrow> upd_item n (\<lambda>i. i\<lparr>li_prev := Some x\<rparr>) s1
                | None \<Rightarrow> upd_list L (\<lambda>l. l\<lparr>l_list_end := Some x\<rparr>) s1)
      in upd_item it (\<lambda>i. i\<lparr>li_next := Some x\<rparr>) s2)"

subsection \<open>Segments\<close>

text \<open>\<open>lseg h p f xs l n\<close>: starting at \<open>f\<close> the items \<open>xs\<close> are linked in both directions,
  the first one's predecessor is \<open>p\<close>, the last one is \<open>l\<close>, and its successor is \<open>n\<close>.\<close>

primrec lseg :: "(iptr \<Rightarrow> ListItem) \<Rightarrow> iptr option \<Rightarrow> iptr option \<Rightarrow> iptr list \<Rightarrow> iptr option \<Rightarrow> iptr option \<Rightarrow> bool" where
  "lseg h p f [] l n \<longleftrightarrow> f = n \<and> l = p"
| "lseg h p f (x # xs) l n \<longleftrightarrow> f = Some x \<and> li_prev (h x) = p \<and> lseg h (Some x) (li_next (h x)) xs l n"

lemma lseg_append:
  "lseg h p f (xs @ ys) l n \<longleftrightarrow> (\<exists>q m. lseg h p f xs q m \<and> lseg h q m ys l n)"
  by (induction xs arbitrary: p f) auto

lemma lseg_snoc:
  "lseg h p f (xs @ [x]) l n \<longleftrightarrow>
     (\<exists>q. lseg h p f xs q (Some x) \<and> li_prev (h x) = q \<and> l = Some x \<and> li_next (h x) = n)"
  by (auto simp: lseg_append)

lemma lseg_cong:
  assumes "\<And>x. x \<in> set xs \<Longrightarrow> li_next (h' x) = li_next (h x) \<and> li_prev (h' x) = li_prev (h x)"
  shows "lseg h' p f xs l n = lseg h p f xs l n"
  using assms by (induction xs arbitrary: p f) auto

lemma lseg_upd [simp]: "u \<notin> set xs \<Longrightarrow> lseg (h(u := v)) p f xs l n = lseg h p f xs l n"
  by (rule lseg_cong) auto

lemma lseg_first: "lseg h p f xs l n \<Longrightarrow> f = (case xs of [] \<Rightarrow> n | x # _ \<Rightarrow> Some x)"
  by (cases xs) auto

lemma lseg_last: "lseg h p f xs l n \<Longrightarrow> l = (if xs = [] then p else Some (last xs))"
  by (induction xs arbitrary: p f) auto

lemma lseg_next_nth:
  "lseg h p f xs l n \<Longrightarrow> i < length xs \<Longrightarrow>
     li_next (h (xs ! i)) = (if Suc i < length xs then Some (xs ! Suc i) else n)"
proof (induction xs arbitrary: p f i)
  case (Cons x xs)
  then show ?case by (cases i; cases xs) auto
qed simp

subsection \<open>Whole lists\<close>

definition dll :: "kernel \<Rightarrow> lptr \<Rightarrow> iptr list \<Rightarrow> bool" where
  "dll s L xs \<longleftrightarrow>
     lseg (items s) None (l_head (list_at s L)) xs (l_list_end (list_at s L)) None \<and>
     distinct xs \<and>
     (\<forall>x\<in>set xs. li_container (items s x) = Some L \<and> valid_item x \<and> li_owner (items s x) = item_tcb x) \<and>
     l_num_items (list_at s L) = of_nat (length xs)"

definition wfl :: "kernel \<Rightarrow> (lptr \<Rightarrow> iptr list) \<Rightarrow> bool" where
  "wfl s A \<longleftrightarrow>
     (\<forall>L. dll s L (A L)) \<and>
     (\<forall>L x. li_container (items s x) = Some L \<longrightarrow> x \<in> set (A L))"

lemma dll_unique: "dll s L xs \<Longrightarrow> dll s L ys \<Longrightarrow> xs = ys"
proof -
  have "lseg h p f xs l None \<Longrightarrow> lseg h p f ys l' None \<Longrightarrow> xs = ys" for h p f l l'
  proof (induction xs arbitrary: p f ys)
    case Nil
    then show ?case by (cases ys) auto
  next
    case (Cons x xs)
    then show ?case by (cases ys) auto
  qed
  then show "dll s L xs \<Longrightarrow> dll s L ys \<Longrightarrow> xs = ys" unfolding dll_def by blast
qed

lemma dll_lseg: "dll s L xs \<Longrightarrow> lseg (items s) None (l_head (list_at s L)) xs (l_list_end (list_at s L)) None"
  by (simp only: dll_def)

lemma dll_distinct: "dll s L xs \<Longrightarrow> distinct xs"
  by (simp only: dll_def)

lemma dll_item:
  "dll s L xs \<Longrightarrow> x \<in> set xs \<Longrightarrow>
     li_container (items s x) = Some L \<and> valid_item x \<and> li_owner (items s x) = item_tcb x"
  unfolding dll_def by blast

lemma dll_num: "dll s L xs \<Longrightarrow> l_num_items (list_at s L) = of_nat (length xs)"
  by (simp only: dll_def)

lemma dllI:
  assumes "lseg (items s) None (l_head (list_at s L)) xs (l_list_end (list_at s L)) None"
    and "distinct xs"
    and "\<And>x. x \<in> set xs \<Longrightarrow> li_container (items s x) = Some L"
    and "\<And>x. x \<in> set xs \<Longrightarrow> valid_item x"
    and "\<And>x. x \<in> set xs \<Longrightarrow> li_owner (items s x) = item_tcb x"
    and "l_num_items (list_at s L) = of_nat (length xs)"
  shows "dll s L xs"
  using assms unfolding dll_def by blast

lemma dll_cong:
  assumes d: "dll s L xs" and l: "list_at s' L = list_at s L"
    and i: "\<And>x. x \<in> set xs \<Longrightarrow> items s' x = items s x"
  shows "dll s' L xs"
proof (rule dllI)
  have "lseg (items s') p f xs e n = lseg (items s) p f xs e n" for p f e n
    by (rule lseg_cong) (simp add: i)
  then show "lseg (items s') None (l_head (list_at s' L)) xs (l_list_end (list_at s' L)) None"
    using dll_lseg [OF d] by (simp add: l)
qed (use d i l in \<open>auto dest: dll_distinct dll_item dll_num\<close>)

lemma wfl_dll: "wfl s A \<Longrightarrow> dll s L (A L)"
  unfolding wfl_def by blast

lemma wfl_cont: "wfl s A \<Longrightarrow> li_container (items s x) = Some L \<Longrightarrow> x \<in> set (A L)"
  unfolding wfl_def by blast

lemma wflI:
  "(\<And>L. dll s L (A L)) \<Longrightarrow> (\<And>L x. li_container (items s x) = Some L \<Longrightarrow> x \<in> set (A L)) \<Longrightarrow> wfl s A"
  unfolding wfl_def by blast

lemma wfl_cong:
  assumes "wfl s A" and "list_at s' = list_at s" and "items s' = items s"
  shows "wfl s' A"
proof (rule wflI)
  show "dll s' L (A L)" for L using wfl_dll [OF assms(1)] by (rule dll_cong) (simp_all add: assms)
qed (use assms in \<open>auto dest: wfl_cont\<close>)

lemma wfl_distinct: "wfl s A \<Longrightarrow> distinct (A L)"
  by (blast dest: wfl_dll dll_distinct)

lemma wfl_container: "wfl s A \<Longrightarrow> x \<in> set (A L) \<longleftrightarrow> li_container (items s x) = Some L"
  by (blast dest: wfl_dll dll_item wfl_cont)

lemma wfl_disjoint: "wfl s A \<Longrightarrow> x \<in> set (A L) \<Longrightarrow> x \<in> set (A L') \<Longrightarrow> L = L'"
  by (simp add: wfl_container)

lemma wfl_valid: "wfl s A \<Longrightarrow> x \<in> set (A L) \<Longrightarrow> valid_item x"
  by (blast dest: wfl_dll dll_item)

lemma wfl_owner: "wfl s A \<Longrightarrow> x \<in> set (A L) \<Longrightarrow> li_owner (items s x) = item_tcb x"
  by (blast dest: wfl_dll dll_item)

lemma wfl_length: "wfl s A \<Longrightarrow> length (A L) \<le> 136"
  by (rule length_valid_items) (blast intro: wfl_distinct wfl_valid)+

lemma wfl_num_items: "wfl s A \<Longrightarrow> l_num_items (list_at s L) = of_nat (length (A L))"
  by (blast dest: wfl_dll dll_num)

lemma wfl_num_items_0: "wfl s A \<Longrightarrow> l_num_items (list_at s L) = 0 \<longleftrightarrow> A L = []"
  using wfl_length [of s A L] by (simp add: wfl_num_items word_gt_0_iff_nonempty)

lemma wfl_head: "wfl s A \<Longrightarrow> l_head (list_at s L) = (case A L of [] \<Rightarrow> None | x # _ \<Rightarrow> Some x)"
  by (rule lseg_first [OF dll_lseg [OF wfl_dll]])

lemma wfl_list_end: "wfl s A \<Longrightarrow> l_list_end (list_at s L) = (if A L = [] then None else Some (last (A L)))"
  by (rule lseg_last [OF dll_lseg [OF wfl_dll]])

lemma wfl_next:
  assumes "wfl s A" and "A L = as @ x # bs"
  shows "li_next (items s x) = (case bs of [] \<Rightarrow> None | b # _ \<Rightarrow> Some b)"
proof -
  have "lseg (items s) None (l_head (list_at s L)) (as @ x # bs) (l_list_end (list_at s L)) None"
    using dll_lseg [OF wfl_dll [OF assms(1)], of L] assms(2) by simp
  then show ?thesis by (auto simp: lseg_append dest!: lseg_first)
qed

lemma wfl_prev:
  assumes "wfl s A" and "A L = as @ x # bs"
  shows "li_prev (items s x) = (if as = [] then None else Some (last as))"
proof -
  have "lseg (items s) None (l_head (list_at s L)) (as @ x # bs) (l_list_end (list_at s L)) None"
    using dll_lseg [OF wfl_dll [OF assms(1)], of L] assms(2) by simp
  then show ?thesis by (auto simp: lseg_append dest!: lseg_last)
qed


subsection \<open>The pointer operations refine list operations\<close>

text \<open>Removal: \<^const>\<open>stitch\<close> then \<^const>\<open>detach\<close> takes one item out; \<^const>\<open>advance_index\<close> in between
  touches only the index, which the links do not depend on.\<close>

lemma stitch_lseg:
  assumes seg: "lseg (items s) None (l_head (list_at s L)) (as @ x # bs) (l_list_end (list_at s L)) None"
    and dist: "distinct (as @ x # bs)"
  shows "lseg (items (stitch L x s)) None (l_head (list_at (stitch L x s) L)) (as @ bs)
           (l_list_end (list_at (stitch L x s) L)) None"
proof (cases as rule: rev_cases)
  case Nil
  with seg dist show ?thesis
    by (cases bs) (auto simp: stitch_def Let_def)
next
  case (snoc as' p)
  with seg dist show ?thesis
    by (cases bs) (auto simp: stitch_def Let_def lseg_append)
qed

lemma stitch_frame [frame_simps]:
  "L' \<noteq> L \<Longrightarrow> list_at (stitch L x s) L' = list_at s L'"
  "l_num_items (list_at (stitch L x s) L) = l_num_items (list_at s L)"
  "l_index (list_at (stitch L x s) L') = l_index (list_at s L')"
  "li_container (items (stitch L x s) y) = li_container (items s y)"
  "li_owner (items (stitch L x s) y) = li_owner (items s y)"
  by (auto simp: stitch_def Let_def split: option.splits)

lemma stitch_items_other:
  assumes "\<And>p. li_prev (items s x) = Some p \<Longrightarrow> y \<noteq> p" and "\<And>n. li_next (items s x) = Some n \<Longrightarrow> y \<noteq> n"
    and "li_prev (items s x) \<noteq> Some x"
  shows "items (stitch L x s) y = items s y"
  using assms by (auto simp: stitch_def Let_def split: option.splits)

definition unlink :: "lptr \<Rightarrow> iptr \<Rightarrow> kernel \<Rightarrow> kernel" where
  "unlink L x s = detach L x (stitch L x s)"

definition unlink_ready :: "lptr \<Rightarrow> iptr \<Rightarrow> kernel \<Rightarrow> kernel" where
  "unlink_ready L x s = detach L x (advance_index L x (stitch L x s))"


lemma frame_stitch [simp]:
  "tcb (stitch L x s) = tcb s"
  "p_task_control_block (stitch L x s) = p_task_control_block s"
  "tick_count (stitch L x s) = tick_count s"
  "clk_freq (stitch L x s) = clk_freq s"
  "hz (stitch L x s) = hz s"
  "cntp_cval (stitch L x s) = cntp_cval s"
  "stack_mem (stitch L x s) = stack_mem s"
  "heap_offset (stitch L x s) = heap_offset s"
  "task_counter (stitch L x s) = task_counter s"
  "mutexes (stitch L x s) = mutexes s"
  "semaphores (stitch L x s) = semaphores s"
  "queues (stitch L x s) = queues s"
  "timers (stitch L x s) = timers s"
  "blocked_list_head (stitch L x s) = blocked_list_head s"
  "active_list_head (stitch L x s) = active_list_head s"
  "console (stitch L x s) = console s"
  by (simp_all add: stitch_def Let_def split: option.splits)

lemma frame_advance_index [simp]:
  "tcb (advance_index L x s) = tcb s"
  "p_task_control_block (advance_index L x s) = p_task_control_block s"
  "tick_count (advance_index L x s) = tick_count s"
  "clk_freq (advance_index L x s) = clk_freq s"
  "hz (advance_index L x s) = hz s"
  "cntp_cval (advance_index L x s) = cntp_cval s"
  "stack_mem (advance_index L x s) = stack_mem s"
  "heap_offset (advance_index L x s) = heap_offset s"
  "task_counter (advance_index L x s) = task_counter s"
  "mutexes (advance_index L x s) = mutexes s"
  "semaphores (advance_index L x s) = semaphores s"
  "queues (advance_index L x s) = queues s"
  "timers (advance_index L x s) = timers s"
  "blocked_list_head (advance_index L x s) = blocked_list_head s"
  "active_list_head (advance_index L x s) = active_list_head s"
  "console (advance_index L x s) = console s"
  by (simp_all add: advance_index_def)

lemma frame_detach [simp]:
  "tcb (detach L x s) = tcb s"
  "p_task_control_block (detach L x s) = p_task_control_block s"
  "tick_count (detach L x s) = tick_count s"
  "clk_freq (detach L x s) = clk_freq s"
  "hz (detach L x s) = hz s"
  "cntp_cval (detach L x s) = cntp_cval s"
  "stack_mem (detach L x s) = stack_mem s"
  "heap_offset (detach L x s) = heap_offset s"
  "task_counter (detach L x s) = task_counter s"
  "mutexes (detach L x s) = mutexes s"
  "semaphores (detach L x s) = semaphores s"
  "queues (detach L x s) = queues s"
  "timers (detach L x s) = timers s"
  "blocked_list_head (detach L x s) = blocked_list_head s"
  "active_list_head (detach L x s) = active_list_head s"
  "console (detach L x s) = console s"
  by (simp_all add: detach_def)

lemma frame_link_tail [simp]:
  "tcb (link_tail L x t s) = tcb s"
  "p_task_control_block (link_tail L x t s) = p_task_control_block s"
  "tick_count (link_tail L x t s) = tick_count s"
  "clk_freq (link_tail L x t s) = clk_freq s"
  "hz (link_tail L x t s) = hz s"
  "cntp_cval (link_tail L x t s) = cntp_cval s"
  "stack_mem (link_tail L x t s) = stack_mem s"
  "heap_offset (link_tail L x t s) = heap_offset s"
  "task_counter (link_tail L x t s) = task_counter s"
  "mutexes (link_tail L x t s) = mutexes s"
  "semaphores (link_tail L x t s) = semaphores s"
  "queues (link_tail L x t s) = queues s"
  "timers (link_tail L x t s) = timers s"
  "blocked_list_head (link_tail L x t s) = blocked_list_head s"
  "active_list_head (link_tail L x t s) = active_list_head s"
  "console (link_tail L x t s) = console s"
  by (simp_all add: link_tail_def Let_def split: option.splits)

lemma frame_link_first [simp]:
  "tcb (link_first L x s) = tcb s"
  "p_task_control_block (link_first L x s) = p_task_control_block s"
  "tick_count (link_first L x s) = tick_count s"
  "clk_freq (link_first L x s) = clk_freq s"
  "hz (link_first L x s) = hz s"
  "cntp_cval (link_first L x s) = cntp_cval s"
  "stack_mem (link_first L x s) = stack_mem s"
  "heap_offset (link_first L x s) = heap_offset s"
  "task_counter (link_first L x s) = task_counter s"
  "mutexes (link_first L x s) = mutexes s"
  "semaphores (link_first L x s) = semaphores s"
  "queues (link_first L x s) = queues s"
  "timers (link_first L x s) = timers s"
  "blocked_list_head (link_first L x s) = blocked_list_head s"
  "active_list_head (link_first L x s) = active_list_head s"
  "console (link_first L x s) = console s"
  by (simp_all add: link_first_def)

lemma frame_link_before_head [simp]:
  "tcb (link_before_head L h x s) = tcb s"
  "p_task_control_block (link_before_head L h x s) = p_task_control_block s"
  "tick_count (link_before_head L h x s) = tick_count s"
  "clk_freq (link_before_head L h x s) = clk_freq s"
  "hz (link_before_head L h x s) = hz s"
  "cntp_cval (link_before_head L h x s) = cntp_cval s"
  "stack_mem (link_before_head L h x s) = stack_mem s"
  "heap_offset (link_before_head L h x s) = heap_offset s"
  "task_counter (link_before_head L h x s) = task_counter s"
  "mutexes (link_before_head L h x s) = mutexes s"
  "semaphores (link_before_head L h x s) = semaphores s"
  "queues (link_before_head L h x s) = queues s"
  "timers (link_before_head L h x s) = timers s"
  "blocked_list_head (link_before_head L h x s) = blocked_list_head s"
  "active_list_head (link_before_head L h x s) = active_list_head s"
  "console (link_before_head L h x s) = console s"
  by (simp_all add: link_before_head_def)

lemma frame_insert_after [simp]:
  "tcb (insert_after L y x s) = tcb s"
  "p_task_control_block (insert_after L y x s) = p_task_control_block s"
  "tick_count (insert_after L y x s) = tick_count s"
  "clk_freq (insert_after L y x s) = clk_freq s"
  "hz (insert_after L y x s) = hz s"
  "cntp_cval (insert_after L y x s) = cntp_cval s"
  "stack_mem (insert_after L y x s) = stack_mem s"
  "heap_offset (insert_after L y x s) = heap_offset s"
  "task_counter (insert_after L y x s) = task_counter s"
  "mutexes (insert_after L y x s) = mutexes s"
  "semaphores (insert_after L y x s) = semaphores s"
  "queues (insert_after L y x s) = queues s"
  "timers (insert_after L y x s) = timers s"
  "blocked_list_head (insert_after L y x s) = blocked_list_head s"
  "active_list_head (insert_after L y x s) = active_list_head s"
  "console (insert_after L y x s) = console s"
  by (simp_all add: insert_after_def Let_def split: option.splits)

lemma frame_unlink [simp]:
  "tcb (unlink L x s) = tcb s"
  "p_task_control_block (unlink L x s) = p_task_control_block s"
  "tick_count (unlink L x s) = tick_count s"
  "clk_freq (unlink L x s) = clk_freq s"
  "hz (unlink L x s) = hz s"
  "cntp_cval (unlink L x s) = cntp_cval s"
  "stack_mem (unlink L x s) = stack_mem s"
  "heap_offset (unlink L x s) = heap_offset s"
  "task_counter (unlink L x s) = task_counter s"
  "mutexes (unlink L x s) = mutexes s"
  "semaphores (unlink L x s) = semaphores s"
  "queues (unlink L x s) = queues s"
  "timers (unlink L x s) = timers s"
  "blocked_list_head (unlink L x s) = blocked_list_head s"
  "active_list_head (unlink L x s) = active_list_head s"
  "console (unlink L x s) = console s"
  by (simp_all add: unlink_def)

lemma frame_unlink_ready [simp]:
  "tcb (unlink_ready L x s) = tcb s"
  "p_task_control_block (unlink_ready L x s) = p_task_control_block s"
  "tick_count (unlink_ready L x s) = tick_count s"
  "clk_freq (unlink_ready L x s) = clk_freq s"
  "hz (unlink_ready L x s) = hz s"
  "cntp_cval (unlink_ready L x s) = cntp_cval s"
  "stack_mem (unlink_ready L x s) = stack_mem s"
  "heap_offset (unlink_ready L x s) = heap_offset s"
  "task_counter (unlink_ready L x s) = task_counter s"
  "mutexes (unlink_ready L x s) = mutexes s"
  "semaphores (unlink_ready L x s) = semaphores s"
  "queues (unlink_ready L x s) = queues s"
  "timers (unlink_ready L x s) = timers s"
  "blocked_list_head (unlink_ready L x s) = blocked_list_head s"
  "active_list_head (unlink_ready L x s) = active_list_head s"
  "console (unlink_ready L x s) = console s"
  by (simp_all add: unlink_ready_def)

lemma advance_index_lists:
  "items (advance_index L x s) = items s"
  "l_head (list_at (advance_index L x s) L') = l_head (list_at s L')"
  "l_list_end (list_at (advance_index L x s) L') = l_list_end (list_at s L')"
  "l_num_items (list_at (advance_index L x s) L') = l_num_items (list_at s L')"
  "L' \<noteq> L \<Longrightarrow> list_at (advance_index L x s) L' = list_at s L'"
  by (auto simp: advance_index_def)

text \<open>The links do not depend on the index, so changing it keeps the lists.\<close>

lemma dll_index_cong:
  assumes "dll s L xs" and "items s' = items s"
    and "l_head (list_at s' L) = l_head (list_at s L)" "l_list_end (list_at s' L) = l_list_end (list_at s L)"
    and "l_num_items (list_at s' L) = l_num_items (list_at s L)"
  shows "dll s' L xs"
  using assms unfolding dll_def by simp

lemma wfl_index_cong:
  assumes "wfl s A" and "items s' = items s"
    and "\<And>L. l_head (list_at s' L) = l_head (list_at s L)" "\<And>L. l_list_end (list_at s' L) = l_list_end (list_at s L)"
    and "\<And>L. l_num_items (list_at s' L) = l_num_items (list_at s L)"
  shows "wfl s' A"
proof (rule wflI)
  show "dll s' L (A L)" for L
    using wfl_dll [OF assms(1)] by (rule dll_index_cong) (simp_all add: assms)
qed (use assms(1,2) in \<open>auto dest: wfl_cont\<close>)

text \<open>What any code that takes one item out of a list, or puts one in, has to establish.\<close>

lemma wfl_removeI:
  assumes w: "wfl s A" and AL: "A L = as @ x # bs"
    and seg: "lseg (items s') None (l_head (list_at s' L)) (as @ bs) (l_list_end (list_at s' L)) None"
    and num: "l_num_items (list_at s' L) = l_num_items (list_at s L) - 1"
    and other: "\<And>L'. L' \<noteq> L \<Longrightarrow> list_at s' L' = list_at s L'"
    and out: "\<And>y. y \<notin> set (A L) \<Longrightarrow> items s' y = items s y"
    and cont: "\<And>y. y \<noteq> x \<Longrightarrow> li_container (items s' y) = li_container (items s y)"
    and own: "\<And>y. y \<noteq> x \<Longrightarrow> li_owner (items s' y) = li_owner (items s y)"
    and free: "li_container (items s' x) = None"
  shows "wfl s' (A(L := as @ bs))"
proof (rule wflI)
  have dist: "distinct (as @ x # bs)" using wfl_distinct [OF w, of L] AL by simp
  have mem: "li_container (items s y) = Some L \<and> valid_item y \<and> li_owner (items s y) = item_tcb y"
    if "y \<in> set (as @ x # bs)" for y
    using dll_item [OF wfl_dll [OF w]] that AL by metis
  have L: "dll s' L (as @ bs)"
  proof (rule dllI [OF seg])
    show "li_container (items s' y) = Some L" if "y \<in> set (as @ bs)" for y
      using that mem dist cont [of y] by auto
    show "li_owner (items s' y) = item_tcb y" if "y \<in> set (as @ bs)" for y
      using that mem dist own [of y] by auto
  qed (use dist mem in \<open>auto simp: num wfl_num_items [OF w] AL\<close>)
  show "dll s' L' ((A(L := as @ bs)) L')" for L'
  proof (cases "L' = L")
    case False
    have "dll s' L' (A L')"
      by (rule dll_cong [OF wfl_dll [OF w]])
        (use False in \<open>auto simp: other intro!: out dest: wfl_disjoint [OF w]\<close>)
    with False show ?thesis by simp
  qed (simp add: L)
  show "y \<in> set ((A(L := as @ bs)) L')" if "li_container (items s' y) = Some L'" for L' y
  proof -
    have ne: "y \<noteq> x" using that free by auto
    with that have "y \<in> set (A L')" by (auto simp: cont intro: wfl_cont [OF w])
    with ne AL show ?thesis by auto
  qed
qed

lemma wfl_insertI:
  assumes w: "wfl s A" and AL: "A L = as @ bs" and new: "li_container (items s x) = None"
    and valid: "valid_item x"
    and seg: "lseg (items s') None (l_head (list_at s' L)) (as @ x # bs) (l_list_end (list_at s' L)) None"
    and num: "l_num_items (list_at s' L) = l_num_items (list_at s L) + 1"
    and other: "\<And>L'. L' \<noteq> L \<Longrightarrow> list_at s' L' = list_at s L'"
    and out: "\<And>y. y \<noteq> x \<Longrightarrow> y \<notin> set (A L) \<Longrightarrow> items s' y = items s y"
    and cont: "\<And>y. y \<noteq> x \<Longrightarrow> li_container (items s' y) = li_container (items s y)"
    and own: "\<And>y. y \<noteq> x \<Longrightarrow> li_owner (items s' y) = li_owner (items s y)"
    and x: "li_container (items s' x) = Some L" "li_owner (items s' x) = item_tcb x"
  shows "wfl s' (A(L := as @ x # bs))"
proof (rule wflI)
  have nin: "x \<notin> set (A L')" for L' using new by (simp add: wfl_container [OF w])
  have dist: "distinct (as @ x # bs)" using wfl_distinct [OF w, of L] AL nin [of L] by auto
  have mem: "li_container (items s y) = Some L \<and> valid_item y \<and> li_owner (items s y) = item_tcb y"
    if "y \<in> set (as @ bs)" for y
    using dll_item [OF wfl_dll [OF w]] that AL by metis
  have L: "dll s' L (as @ x # bs)"
  proof (rule dllI [OF seg dist])
    show "li_container (items s' y) = Some L" if "y \<in> set (as @ x # bs)" for y
      using that mem x cont by (cases "y = x") auto
    show "li_owner (items s' y) = item_tcb y" if "y \<in> set (as @ x # bs)" for y
      using that mem x own by (cases "y = x") auto
  qed (use mem valid in \<open>auto simp: num wfl_num_items [OF w] AL\<close>)
  show "dll s' L' ((A(L := as @ x # bs)) L')" for L'
  proof (cases "L' = L")
    case False
    have "dll s' L' (A L')"
      by (rule dll_cong [OF wfl_dll [OF w]])
        (use False nin in \<open>auto simp: other intro!: out dest: wfl_disjoint [OF w]\<close>)
    with False show ?thesis by simp
  qed (simp add: L)
  show "y \<in> set ((A(L := as @ x # bs)) L')" if "li_container (items s' y) = Some L'" for L' y
  proof (cases "y = x")
    case True
    with that x show ?thesis by simp
  next
    case False
    with that have "y \<in> set (A L')" by (auto simp: cont intro: wfl_cont [OF w])
    with AL show ?thesis by auto
  qed
qed

lemma wfl_unlink [wf_intros]:
  assumes w: "wfl s A" and x: "x \<in> set (A L)"
  shows "wfl (unlink L x s) (A(L := remove1 x (A L)))"
proof -
  obtain as bs where AL: "A L = as @ x # bs" using x by (auto simp: in_set_conv_decomp)
  have dist: "distinct (as @ x # bs)" using wfl_distinct [OF w, of L] AL by simp
  have p: "li_prev (items s x) = (if as = [] then None else Some (last as))"
    by (rule wfl_prev [OF w AL])
  have n: "li_next (items s x) = (case bs of [] \<Rightarrow> None | b # _ \<Rightarrow> Some b)"
    by (rule wfl_next [OF w AL])
  have seg: "lseg (items s) None (l_head (list_at s L)) (as @ x # bs) (l_list_end (list_at s L)) None"
    using dll_lseg [OF wfl_dll [OF w], of L] AL by simp
  have "wfl (unlink L x s) (A(L := as @ bs))"
  proof (rule wfl_removeI [OF w AL])
    show "lseg (items (unlink L x s)) None (l_head (list_at (unlink L x s) L)) (as @ bs)
            (l_list_end (list_at (unlink L x s) L)) None"
      using stitch_lseg [OF seg dist] dist by (simp add: unlink_def detach_def)
    show "items (unlink L x s) y = items s y" if "y \<notin> set (A L)" for y
      using that AL x p n dist
      by (auto simp: unlink_def detach_def intro!: stitch_items_other split: if_splits list.splits)
  qed (simp_all add: unlink_def detach_def frame_simps)
  with dist AL show ?thesis by simp
qed

lemma unlink_ready_eq:
  "items (unlink_ready L x s) = items (unlink L x s)"
  "l_head (list_at (unlink_ready L x s) L') = l_head (list_at (unlink L x s) L')"
  "l_list_end (list_at (unlink_ready L x s) L') = l_list_end (list_at (unlink L x s) L')"
  "l_num_items (list_at (unlink_ready L x s) L') = l_num_items (list_at (unlink L x s) L')"
  by (simp_all add: unlink_ready_def unlink_def detach_def advance_index_lists)

lemma wfl_unlink_ready [wf_intros]:
  "wfl s A \<Longrightarrow> x \<in> set (A L) \<Longrightarrow> wfl (unlink_ready L x s) (A(L := remove1 x (A L)))"
  by (erule wfl_index_cong [OF wfl_unlink]) (simp_all add: unlink_ready_eq)

lemma wfl_link_tail [wf_intros]:
  assumes w: "wfl s A" and new: "li_container (items s x) = None"
    and valid: "valid_item x" and t: "item_tcb x = t"
  shows "wfl (link_tail L x t s) (A(L := A L @ [x]))"
proof -
  have nin: "x \<notin> set (A L)" using new by (simp add: wfl_container [OF w])
  have seg: "lseg (items s) None (l_head (list_at s L)) (A L) (l_list_end (list_at s L)) None"
    by (rule dll_lseg [OF wfl_dll [OF w]])
  have seg': "lseg (items (link_tail L x t s)) None (l_head (list_at (link_tail L x t s) L)) (A L @ [x])
      (l_list_end (list_at (link_tail L x t s) L)) None"
  proof (cases "A L" rule: rev_cases)
    case Nil
    with seg show ?thesis by (simp add: link_tail_def Let_def)
  next
    case (snoc as e)
    with seg nin wfl_distinct [OF w, of L] show ?thesis
      by (auto simp: link_tail_def Let_def lseg_append)
  qed
  have "wfl (link_tail L x t s) (A(L := A L @ x # []))"
    by (rule wfl_insertI [OF w _ new valid])
      (use seg' t wfl_list_end [OF w, of L] last_in_set [of "A L"] nin in
        \<open>auto simp: link_tail_def Let_def split: option.splits if_splits\<close>)
  then show ?thesis by simp
qed

text \<open>Insertion into a sorted list, as \<^verbatim>\<open>scheduler_add_to_blocked_list\<close> does it: the item is first
  initialised and then linked at the front, or after an item that is already there.\<close>

definition init_item :: "lptr \<Rightarrow> iptr \<Rightarrow> tptr \<Rightarrow> kernel \<Rightarrow> kernel" where
  "init_item L x t s =
     upd_item x (\<lambda>i. i\<lparr>li_owner := t, li_container := Some L, li_next := None, li_prev := None\<rparr>) s"

definition bump_num :: "lptr \<Rightarrow> kernel \<Rightarrow> kernel" where
  "bump_num L s = upd_list L (\<lambda>l. l\<lparr>l_num_items := l_num_items l + 1\<rparr>) s"

lemmas link_defs = init_item_def bump_num_def link_first_def link_before_head_def insert_after_def Let_def

lemma wfl_link_first [wf_intros]:
  assumes w: "wfl s A" and new: "li_container (items s x) = None"
    and valid: "valid_item x" and t: "item_tcb x = t" and emp: "A L = []"
  shows "wfl (bump_num L (link_first L x (init_item L x t s))) (A(L := [x]))"
proof -
  have "wfl (bump_num L (link_first L x (init_item L x t s))) (A(L := [] @ x # []))"
    by (rule wfl_insertI [OF w _ new valid]) (auto simp: link_defs emp t)
  then show ?thesis by simp
qed

lemma wfl_link_before_head [wf_intros]:
  assumes w: "wfl s A" and new: "li_container (items s x) = None"
    and valid: "valid_item x" and t: "item_tcb x = t" and AL: "A L = h # bs"
  shows "wfl (bump_num L (link_before_head L h x (init_item L x t s))) (A(L := x # h # bs))"
proof -
  have nin: "x \<notin> set (A L)" using new by (simp add: wfl_container [OF w])
  have seg: "lseg (items s) None (l_head (list_at s L)) (h # bs) (l_list_end (list_at s L)) None"
    using dll_lseg [OF wfl_dll [OF w], of L] AL by simp
  have "wfl (bump_num L (link_before_head L h x (init_item L x t s))) (A(L := [] @ x # h # bs))"
    by (rule wfl_insertI [OF w _ new valid])
      (use seg AL nin t wfl_distinct [OF w, of L] in \<open>auto simp: link_defs\<close>)
  then show ?thesis by simp
qed

lemma wfl_insert_after [wf_intros]:
  assumes w: "wfl s A" and new: "li_container (items s x) = None"
    and valid: "valid_item x" and t: "item_tcb x = t" and AL: "A L = as @ it # bs"
  shows "wfl (bump_num L (insert_after L it x (init_item L x t s))) (A(L := as @ it # x # bs))"
proof -
  have nin: "x \<notin> set (A L)" using new by (simp add: wfl_container [OF w])
  have seg: "lseg (items s) None (l_head (list_at s L)) (as @ it # bs) (l_list_end (list_at s L)) None"
    using dll_lseg [OF wfl_dll [OF w], of L] AL by simp
  let ?s = "bump_num L (insert_after L it x (init_item L x t s))"
  have dist: "distinct (as @ it # bs)" using wfl_distinct [OF w, of L] AL by simp
  have nx: "li_next (items s it) = (case bs of [] \<Rightarrow> None | b # _ \<Rightarrow> Some b)"
    by (rule wfl_next [OF w AL])
  have seg': "lseg (items ?s) None (l_head (list_at ?s L)) ((as @ [it]) @ x # bs) (l_list_end (list_at ?s L)) None"
    using seg dist nin AL by (cases bs) (auto simp: link_defs lseg_append)
  have "wfl ?s (A(L := (as @ [it]) @ x # bs))"
    by (rule wfl_insertI [OF w _ new valid])
      (use seg' AL nin t nx in \<open>auto simp: link_defs split: list.splits option.splits\<close>)
  then show ?thesis by simp
qed

lemma frame_init_item [simp]:
  "tcb (init_item L x t s) = tcb s"
  "p_task_control_block (init_item L x t s) = p_task_control_block s"
  "tick_count (init_item L x t s) = tick_count s"
  "clk_freq (init_item L x t s) = clk_freq s"
  "hz (init_item L x t s) = hz s"
  "cntp_cval (init_item L x t s) = cntp_cval s"
  "stack_mem (init_item L x t s) = stack_mem s"
  "heap_offset (init_item L x t s) = heap_offset s"
  "task_counter (init_item L x t s) = task_counter s"
  "mutexes (init_item L x t s) = mutexes s"
  "semaphores (init_item L x t s) = semaphores s"
  "queues (init_item L x t s) = queues s"
  "timers (init_item L x t s) = timers s"
  "blocked_list_head (init_item L x t s) = blocked_list_head s"
  "active_list_head (init_item L x t s) = active_list_head s"
  "console (init_item L x t s) = console s"
  by (simp_all add: init_item_def)

lemma frame_bump_num [simp]:
  "tcb (bump_num L s) = tcb s"
  "p_task_control_block (bump_num L s) = p_task_control_block s"
  "tick_count (bump_num L s) = tick_count s"
  "clk_freq (bump_num L s) = clk_freq s"
  "hz (bump_num L s) = hz s"
  "cntp_cval (bump_num L s) = cntp_cval s"
  "stack_mem (bump_num L s) = stack_mem s"
  "heap_offset (bump_num L s) = heap_offset s"
  "task_counter (bump_num L s) = task_counter s"
  "mutexes (bump_num L s) = mutexes s"
  "semaphores (bump_num L s) = semaphores s"
  "queues (bump_num L s) = queues s"
  "timers (bump_num L s) = timers s"
  "blocked_list_head (bump_num L s) = blocked_list_head s"
  "active_list_head (bump_num L s) = active_list_head s"
  "console (bump_num L s) = console s"
  by (simp_all add: bump_num_def)

subsection \<open>Containers and the index\<close>

lemma unlink_container [simp]:
  "li_container (items (unlink L x s) y) = (if y = x then None else li_container (items s y))"
  "li_container (items (unlink_ready L x s) y) = (if y = x then None else li_container (items s y))"
  by (simp_all add: unlink_ready_eq) (simp_all add: unlink_def detach_def frame_simps)

lemma link_tail_container [simp]:
  "li_container (items (link_tail L x t s) y) = (if y = x then Some L else li_container (items s y))"
  by (auto simp: link_tail_def Let_def split: option.splits)

lemma link_tail_index [simp]: "l_index (list_at (link_tail L x t s) L') = l_index (list_at s L')"
  by (auto simp: link_tail_def Let_def split: option.splits)

lemma unlink_index [simp]: "l_index (list_at (unlink L x s) L') = l_index (list_at s L')"
  by (simp add: unlink_def detach_def frame_simps)

lemma insert_container [simp]:
  "li_container (items (bump_num L (link_first L x (init_item L x t s))) y) =
     (if y = x then Some L else li_container (items s y))"
  "li_container (items (bump_num L (link_before_head L h x (init_item L x t s))) y) =
     (if y = x then Some L else li_container (items s y))"
  "li_container (items (bump_num L (insert_after L it x (init_item L x t s))) y) =
     (if y = x then Some L else li_container (items s y))"
  by (auto simp: link_defs split: option.splits)

lemma insert_index [simp]:
  "l_index (list_at (bump_num L (link_first L x (init_item L x t s))) L') = l_index (list_at s L')"
  "l_index (list_at (bump_num L (link_before_head L h x (init_item L x t s))) L') = l_index (list_at s L')"
  "l_index (list_at (bump_num L (insert_after L it x (init_item L x t s))) L') = l_index (list_at s L')"
  by (auto simp: link_defs split: option.splits)

text \<open>The round-robin index after a removal: unchanged unless it pointed at the removed
  item, and then its successor, or the new head when it was the last.\<close>

lemma unlink_ready_index:
  assumes w: "wfl s A" and AL: "A L = as @ x # bs"
  shows "l_index (list_at (unlink_ready L x s) L) =
     (if l_index (list_at s L) = Some x
      then (case bs @ as of [] \<Rightarrow> None | b # _ \<Rightarrow> Some b)
      else l_index (list_at s L))"
proof -
  have dist: "distinct (as @ x # bs)" using wfl_distinct [OF w, of L] AL by simp
  have seg: "lseg (items s) None (l_head (list_at s L)) (as @ x # bs) (l_list_end (list_at s L)) None"
    using dll_lseg [OF wfl_dll [OF w], of L] AL by simp
  have hd': "l_head (list_at (stitch L x s) L) = (case as @ bs of [] \<Rightarrow> None | b # _ \<Rightarrow> Some b)"
    using lseg_first [OF stitch_lseg [OF seg dist]] .
  have "li_prev (items s x) \<noteq> Some x" "li_next (items s x) \<noteq> Some x"
    using wfl_prev [OF w AL] wfl_next [OF w AL] dist by (auto split: if_splits list.splits)
  then have "items (stitch L x s) x = items s x" by (intro stitch_items_other) auto
  then have nx: "li_next (items (stitch L x s) x) = (case bs of [] \<Rightarrow> None | b # _ \<Rightarrow> Some b)"
    using wfl_next [OF w AL] by simp
  show ?thesis
    by (cases bs) (auto simp: unlink_ready_def detach_def advance_index_def frame_simps nx hd')
qed

lemma unlink_ready_index_other [simp]:
  "L' \<noteq> L \<Longrightarrow> l_index (list_at (unlink_ready L x s) L') = l_index (list_at s L')"
  by (simp add: unlink_ready_def detach_def advance_index_lists frame_simps)

end
