(* ===== verification/Scheduler.thy ===== *)
theory Scheduler
  imports Intrusive_List
begin

text \<open>
  \<^verbatim>\<open>kernel/scheduler/scheduler.c\<close>: the per-core ready lists and delay list, the context
  switch, the tick handler and the timed delays. A \<open>TaskControlBlock *\<close> argument that the
  C code compares with \<open>NULL\<close> is an option here. \<open>software_timer_tick\<close> and
  \<open>dfu_trigger_task_start\<close> are weak symbols in the C file, so they are parameters of the
  operations that call them.

  The invariant \<open>sinv X s A\<close> relates the store to the abstract list contents \<open>A\<close>; \<open>X\<close> is
  the set of tasks that the current critical section has taken out of one list and not yet put into the next, for
  which \<open>current_state\<close> need not agree with the lists.
\<close>

subsection \<open>Ready lists\<close>

definition scheduler_add_to_ready_list :: "tptr option \<Rightarrow> kernel \<Rightarrow> StatusCode \<times> kernel" where
  "scheduler_add_to_ready_list p s =
     (case p of None \<Rightarrow> (E_INVALID_ARGS, s)
      | Some t \<Rightarrow>
        if NUM_TASK_PRIORITIES \<le> priority (tcb s t) \<or> COMPANION_CORE_MAX_CORES \<le> core_id (tcb s t)
        then (E_INVALID_ARGS, s)
        else
          let L = ReadyList (core_id (tcb s t)) (priority (tcb s t));
              x = StateItem t;
              s1 = upd_item x (\<lambda>i. i\<lparr>li_owner := t, li_container := Some L, li_next := None,
                                     li_prev := l_list_end (list_at s L)\<rparr>) s;
              s2 = (case l_list_end (list_at s1 L) of
                      Some e \<Rightarrow> upd_item e (\<lambda>i. i\<lparr>li_next := Some x\<rparr>) s1
                    | None \<Rightarrow> upd_list L (\<lambda>l. l\<lparr>l_head := Some x, l_index := Some x\<rparr>) s1);
              s3 = upd_list L (\<lambda>l. l\<lparr>l_list_end := Some x, l_num_items := l_num_items l + 1\<rparr>) s2
          in (E_OK, upd_tcb t (\<lambda>b. b\<lparr>current_state := TASK_STATE_READY\<rparr>) s3))"

definition scheduler_remove_from_ready_list :: "tptr option \<Rightarrow> kernel \<Rightarrow> StatusCode \<times> kernel" where
  "scheduler_remove_from_ready_list p s =
     (case p of None \<Rightarrow> (E_INVALID_ARGS, s)
      | Some t \<Rightarrow>
        if NUM_TASK_PRIORITIES \<le> priority (tcb s t) \<or> COMPANION_CORE_MAX_CORES \<le> core_id (tcb s t)
        then (E_INVALID_ARGS, s)
        else
          let x = StateItem t;
              L = ReadyList (core_id (tcb s t)) (priority (tcb s t))
          in if li_container (items s x) \<noteq> Some L then (E_INVALID_ARGS, s)
             else (E_OK, detach L x (advance_index L x (stitch L x s))))"

definition scheduler_change_task_priority :: "tptr \<Rightarrow> TaskPriorityLevel \<Rightarrow> kernel \<Rightarrow> kernel" where
  "scheduler_change_task_priority t new_priority s =
     (let saved_state = current_state (tcb s t);
          in_ready = (saved_state = TASK_STATE_READY \<or> saved_state = TASK_STATE_RUNNING);
          x = StateItem t;
          s1 = (if in_ready
                then (case li_container (items s x) of
                        None \<Rightarrow> s
                      | Some L \<Rightarrow> detach L x (advance_index L x (stitch L x s)))
                else s);
          s2 = upd_tcb t (\<lambda>b. b\<lparr>priority := new_priority\<rparr>) s1
      in if in_ready
         then upd_tcb t (\<lambda>b. b\<lparr>current_state := saved_state\<rparr>)
                (snd (scheduler_add_to_ready_list (Some t) s2))
         else s2)"

subsection \<open>The delay list\<close>

text \<open>The loop of \<^verbatim>\<open>scheduler_add_to_blocked_list\<close> that walks to the insertion point.\<close>

partial_function (option) blocked_walk :: "u64 \<Rightarrow> kernel \<Rightarrow> iptr \<Rightarrow> iptr option" where
  "blocked_walk w s it =
     (case li_next (items s it) of
        None \<Rightarrow> Some it
      | Some n \<Rightarrow> if wakeup_time (tcb s (li_owner (items s n))) \<le> w then blocked_walk w s n else Some it)"

definition scheduler_add_to_blocked_list :: "tptr option \<Rightarrow> u64 \<Rightarrow> kernel \<Rightarrow> (StatusCode \<times> kernel) option" where
  "scheduler_add_to_blocked_list p w s =
     (case p of None \<Rightarrow> Some (E_INVALID_ARGS, s)
      | Some t \<Rightarrow>
        if COMPANION_CORE_MAX_CORES \<le> core_id (tcb s t) then Some (E_INVALID_ARGS, s)
        else
          let L = BlockedTaskList (core_id (tcb s t));
              x = StateItem t;
              s1 = init_item L x t (upd_tcb t (\<lambda>b. b\<lparr>wakeup_time := w\<rparr>) s)
          in case l_head (list_at s1 L) of
               None \<Rightarrow> Some (E_OK, bump_num L (link_first L x s1))
             | Some h \<Rightarrow>
                 if w \<le> wakeup_time (tcb s1 (li_owner (items s1 h)))
                 then Some (E_OK, bump_num L (link_before_head L h x s1))
                 else do {
                   it \<leftarrow> blocked_walk w s1 h;
                   Some (E_OK, bump_num L (insert_after L it x s1))
                 })"

definition scheduler_remove_from_blocked_list :: "tptr option \<Rightarrow> kernel \<Rightarrow> StatusCode \<times> kernel" where
  "scheduler_remove_from_blocked_list p s =
     (case p of None \<Rightarrow> (E_INVALID_ARGS, s)
      | Some t \<Rightarrow>
        if COMPANION_CORE_MAX_CORES \<le> core_id (tcb s t) then (E_INVALID_ARGS, s)
        else
          let L = BlockedTaskList (core_id (tcb s t)); x = StateItem t
          in if li_container (items s x) \<noteq> Some L then (E_OK, s)
             else (E_OK, detach L x (stitch L x s)))"

subsection \<open>Context switch\<close>

text \<open>The scan for the highest-priority non-empty ready list, from \<open>NUM_TASK_PRIORITIES - 1\<close> down.\<close>

fun pick_ready :: "core \<Rightarrow> nat \<Rightarrow> kernel \<Rightarrow> nat option" where
  "pick_ready c 0 s = None"
| "pick_ready c (Suc i) s =
     (if l_num_items (list_at s (ReadyList c i)) > 0 then Some i else pick_ready c i s)"

text \<open>The outgoing task used its quantum: mark it ready and advance the round-robin index. The
  index may be \<open>NULL\<close> here, and then it is left alone.\<close>

definition retire_current :: "core \<Rightarrow> tptr \<Rightarrow> kernel \<Rightarrow> kernel" where
  "retire_current c t s =
     (if current_state (tcb s t) = TASK_STATE_RUNNING \<and> priority (tcb s t) < NUM_TASK_PRIORITIES
      then
        let s1 = upd_tcb t (\<lambda>b. b\<lparr>current_state := TASK_STATE_READY\<rparr>) s;
            L = ReadyList c (priority (tcb s t))
        in case l_index (list_at s1 L) of
             None \<Rightarrow> s1
           | Some i \<Rightarrow>
               upd_list L (\<lambda>l. l\<lparr>l_index := (case li_next (items s1 i) of
                                               Some n \<Rightarrow> Some n | None \<Rightarrow> l_head l)\<rparr>) s1
      else s)"

definition stack_overflowed :: "tptr \<Rightarrow> kernel \<Rightarrow> bool" where
  "stack_overflowed t s =
     (case stack_base (tcb s t) of None \<Rightarrow> False | Some b \<Rightarrow> stack_mem s b \<noteq> TASK_WATERMARK)"

definition scheduler_switch_context :: "core \<Rightarrow> kernel \<Rightarrow> kernel option" where
  "scheduler_switch_context c s =
     (if (case p_task_control_block s c of None \<Rightarrow> False | Some t \<Rightarrow> stack_overflowed t s) then None
      else
        let s1 = (case p_task_control_block s c of None \<Rightarrow> s | Some t \<Rightarrow> retire_current c t s)
        in case pick_ready c NUM_TASK_PRIORITIES s1 of
             None \<Rightarrow> Some (s1\<lparr>p_task_control_block := (p_task_control_block s1)(c := None)\<rparr>)
           | Some i \<Rightarrow> do {
               x \<leftarrow> l_index (list_at s1 (ReadyList c i));
               let t = li_owner (items s1 x);
               let s2 = upd_tcb t (\<lambda>b. b\<lparr>current_state := TASK_STATE_RUNNING\<rparr>) s1;
               Some (s2\<lparr>p_task_control_block := (p_task_control_block s2)(c := Some t)\<rparr>)
             })"

text \<open>\<^verbatim>\<open>start_first_task\<close> does not return; \<open>E_OK\<close> stands for control having passed to the task.\<close>

definition scheduler_start :: "core \<Rightarrow> kernel \<Rightarrow> (StatusCode \<times> kernel) option" where
  "scheduler_start c s = do {
     s1 \<leftarrow> scheduler_switch_context c s;
     Some (if p_task_control_block s1 c = None then E_EMPTY else E_OK, s1)
   }"

definition scheduler_get_current_task :: "core \<Rightarrow> kernel \<Rightarrow> tptr option" where
  "scheduler_get_current_task c s = p_task_control_block s c"

definition scheduler_get_tick_count :: "core \<Rightarrow> kernel \<Rightarrow> u64" where
  "scheduler_get_tick_count c s = tick_count s c"

subsection \<open>Timed delays\<close>

text \<open>\<^verbatim>\<open>block_until\<close> up to its spin loop; the caller continues when another step has changed its
  \<open>current_state\<close>.\<close>

definition block_until :: "core \<Rightarrow> u64 \<Rightarrow> kernel \<Rightarrow> kernel option" where
  "block_until c w s = do {
     let s1 = snd (scheduler_remove_from_ready_list (p_task_control_block s c) s);
     (_, s2) \<leftarrow> scheduler_add_to_blocked_list (p_task_control_block s1 c) w s1;
     t \<leftarrow> p_task_control_block s2 c;
     Some (upd_tcb t (\<lambda>b. b\<lparr>current_state := TASK_STATE_BLOCKED\<rparr>) s2)
   }"

definition task_delay_ms :: "core \<Rightarrow> u64 \<Rightarrow> kernel \<Rightarrow> kernel option" where
  "task_delay_ms c ticks s = block_until c (scheduler_get_tick_count c s + ticks) s"

text \<open>The second component is what \<open>*last_wake_time\<close> holds after the call.\<close>

definition task_delay_until_ms :: "core \<Rightarrow> u64 \<Rightarrow> u64 \<Rightarrow> kernel \<Rightarrow> (kernel \<times> u64) option" where
  "task_delay_until_ms c last_wake_time per s = do {
     let next_wake = last_wake_time + per;
     let now = scheduler_get_tick_count c s;
     let s1 = (if next_wake < now
               then s\<lparr>console := console s @ [WarnOverrun (ucast (now - next_wake)) (ucast per)]\<rparr>
               else s);
     s2 \<leftarrow> block_until c next_wake s1;
     Some (s2, last_wake_time + per)
   }"

subsection \<open>The tick\<close>

text \<open>One iteration of the wake loop: off the delay list, off the wait list it may also be in, and
  to the back of its ready list.\<close>

definition tick_wake_one :: "tptr \<Rightarrow> kernel \<Rightarrow> kernel" where
  "tick_wake_one t s =
     (let s1 = snd (scheduler_remove_from_blocked_list (Some t) s);
          x = EventItem t;
          s2 = (case li_container (items s1 x) of
                  None \<Rightarrow> s1
                | Some E \<Rightarrow> detach E x (stitch E x s1))
      in snd (scheduler_add_to_ready_list (Some t) s2))"

partial_function (option) tick_wake_loop :: "core \<Rightarrow> kernel \<Rightarrow> kernel option" where
  "tick_wake_loop c s =
     (case l_head (list_at s (BlockedTaskList c)) of
        None \<Rightarrow> Some s
      | Some h \<Rightarrow>
          if wakeup_time (tcb s (li_owner (items s h))) \<le> tick_count s c
          then tick_wake_loop c (tick_wake_one (li_owner (items s h)) s)
          else Some s)"

text \<open>\<open>cntpct\<close> is the value read from the physical counter.\<close>

definition timer_tick_handler ::
    "(u64 \<Rightarrow> kernel \<Rightarrow> kernel option) \<Rightarrow> core \<Rightarrow> u64 \<Rightarrow> kernel \<Rightarrow> kernel option" where
  "timer_tick_handler software_timer_tick c cntpct s =
     (if hz s c = 0 then None
      else do {
        let s1 = s\<lparr>cntp_cval := (cntp_cval s)(c := cntpct + ucast (clk_freq s c div hz s c)),
                   tick_count := (tick_count s)(c := tick_count s c + 1)\<rparr>;
        s2 \<leftarrow> tick_wake_loop c s1;
        (if c = 0 then software_timer_tick (tick_count s2 c) s2 else Some s2)
      })"

subsection \<open>Initialisation\<close>

definition IDLE_STACK_DEPTH :: nat where
  "IDLE_STACK_DEPTH = 64"

definition fill_words :: "stackptr \<Rightarrow> nat \<Rightarrow> u32 \<Rightarrow> (stackptr \<Rightarrow> u32) \<Rightarrow> stackptr \<Rightarrow> u32" where
  "fill_words b n v m =
     (\<lambda>p. if fst p = fst b \<and> snd b \<le> snd p \<and> snd p < snd b + int n then v else m p)"

text \<open>\<open>*top-- = v\<close> for each word in turn.\<close>

fun write_down :: "stackptr \<Rightarrow> u32 list \<Rightarrow> (stackptr \<Rightarrow> u32) \<Rightarrow> stackptr \<Rightarrow> u32" where
  "write_down sp [] m = m"
| "write_down sp (v # vs) m = write_down (fst sp, snd sp - 1) vs (m(sp := v))"

definition empty_list :: List where
  "empty_list = \<lparr>l_num_items = 0, l_head = None, l_index = None, l_list_end = None\<rparr>"

fun is_sched_list :: "core \<Rightarrow> lptr \<Rightarrow> bool" where
  "is_sched_list c (ReadyList c' i) = (c' = c \<and> i < NUM_TASK_PRIORITIES)"
| "is_sched_list c (BlockedTaskList c') = (c' = c)"
| "is_sched_list c (MutexBlockedList m) = False"
| "is_sched_list c (SemaphoreBlockedList m) = False"

definition scheduler_init ::
    "u32 \<Rightarrow> (kernel \<Rightarrow> (StatusCode \<times> kernel) option) \<Rightarrow> core \<Rightarrow> u32 option \<Rightarrow> u32 \<Rightarrow> bool \<Rightarrow> kernel
      \<Rightarrow> (StatusCode \<times> kernel) option" where
  "scheduler_init idle_task_func dfu_trigger_task_start c p_clk_freq new_hz p_tick_count_ok s =
     (case p_clk_freq of None \<Rightarrow> Some (E_INVALID_ARGS, s)
      | Some clk \<Rightarrow>
        if \<not> p_tick_count_ok \<or> COMPANION_CORE_MAX_CORES \<le> c then Some (E_INVALID_ARGS, s)
        else
          let s1 = s\<lparr>clk_freq := (clk_freq s)(c := clk), hz := (hz s)(c := new_hz),
                     tick_count := (tick_count s)(c := 0)\<rparr>;
              s2 = s1\<lparr>list_at := (\<lambda>L. if is_sched_list c L then empty_list else list_at s L)\<rparr>;
              base = (IdleStack c, 0);
              sp = (IdleStack c, int IDLE_STACK_DEPTH - 1);
              frame = [0x00000013, idle_task_func, 0] @ replicate 12 0 @ [0];
              s3 = s2\<lparr>stack_mem := write_down sp frame (fill_words base IDLE_STACK_DEPTH TASK_WATERMARK (stack_mem s2))\<rparr>;
              t = IdleTcb c;
              s4 = s3\<lparr>tcb := (tcb s3)(t :=
                     \<lparr>current_sp = (IdleStack c, int IDLE_STACK_DEPTH - 16), stack_high = sp,
                      stack_base = Some base, stack_depth = of_nat IDLE_STACK_DEPTH, task_id = 0xFFFF,
                      core_id = c, current_state = TASK_STATE_READY, priority = TASK_PRIORITY_IDLE,
                      wakeup_time = 0, wakeup_reason = WAKEUP_REASON_NONE,
                      base_priority = TASK_PRIORITY_IDLE, mutexes_held = 0\<rparr>)\<rparr>;
              item = \<lparr>li_next = None, li_prev = None, li_owner = t, li_container = None\<rparr>;
              s5 = s4\<lparr>items := (items s4)(StateItem t := item, EventItem t := item)\<rparr>;
              s6 = snd (scheduler_add_to_ready_list (Some t) s5)
          in if c = 0
             then do {
               (dfu_ret, s7) \<leftarrow> dfu_trigger_task_start s6;
               Some (dfu_ret, s7)
             }
             else Some (E_OK, s6))"

end
