(* ===== verification/Scheduler_Inv.thy ===== *)
theory Scheduler_Inv
  imports Scheduler
begin

text \<open>
  The scheduler invariant and how every operation of \<^verbatim>\<open>scheduler.c\<close> keeps it. \<open>sinv X s A\<close> says
  that all lists are well linked with contents \<open>A\<close>, that every list holds only items that belong
  there, that each delay list is sorted by wake-up time, that each ready list's index points into it,
  that every created task's fields are in range, and that every created task outside \<open>X\<close> is
  on exactly the lists its \<open>current_state\<close> calls for.
\<close>

subsection \<open>The operations in terms of the list operations\<close>

definition set_index :: "lptr \<Rightarrow> iptr option \<Rightarrow> kernel \<Rightarrow> kernel" where
  "set_index L x s = upd_list L (\<lambda>l. l\<lparr>l_index := x\<rparr>) s"

lemma set_index_simps [simp]:
  "l_head (list_at (set_index L x s) L') = l_head (list_at s L')"
  "l_list_end (list_at (set_index L x s) L') = l_list_end (list_at s L')"
  "l_num_items (list_at (set_index L x s) L') = l_num_items (list_at s L')"
  "l_index (list_at (set_index L x s) L') = (if L' = L then x else l_index (list_at s L'))"
  "items (set_index L x s) = items s"
  "tcb (set_index L x s) = tcb s"
  "p_task_control_block (set_index L x s) = p_task_control_block s"
  by (simp_all add: set_index_def)

lemma wfl_set_index [wf_intros]: "wfl s A \<Longrightarrow> wfl (set_index L x s) A"
  by (erule wfl_index_cong) simp_all

lemma wfl_upd_tcb [wf_intros]: "wfl s A \<Longrightarrow> wfl (upd_tcb t f s) A"
  by (erule wfl_cong) simp_all

definition ready_list_of :: "kernel \<Rightarrow> tptr \<Rightarrow> lptr" where
  "ready_list_of s t = ReadyList (core_id (tcb s t)) (priority (tcb s t))"

lemma add_to_ready_eq:
  assumes "priority (tcb s t) < NUM_TASK_PRIORITIES" and "core_id (tcb s t) < COMPANION_CORE_MAX_CORES"
  shows "scheduler_add_to_ready_list (Some t) s =
    (E_OK, upd_tcb t (\<lambda>b. b\<lparr>current_state := TASK_STATE_READY\<rparr>)
       (set_index (ready_list_of s t)
          (if l_list_end (list_at s (ready_list_of s t)) = None then Some (StateItem t)
           else l_index (list_at s (ready_list_of s t)))
          (link_tail (ready_list_of s t) (StateItem t) t s)))"
  using assms
  by (auto simp: scheduler_add_to_ready_list_def ready_list_of_def link_tail_def Let_def set_index_def
      upd_tcb_def upd_list_def upd_item_def fun_eq_iff split: option.splits)

lemma remove_from_ready_eq:
  assumes "priority (tcb s t) < NUM_TASK_PRIORITIES" and "core_id (tcb s t) < COMPANION_CORE_MAX_CORES"
    and "li_container (items s (StateItem t)) = Some (ready_list_of s t)"
  shows "scheduler_remove_from_ready_list (Some t) s = (E_OK, unlink_ready (ready_list_of s t) (StateItem t) s)"
  using assms by (simp add: scheduler_remove_from_ready_list_def ready_list_of_def unlink_ready_def Let_def)


subsection \<open>The scheduler invariant\<close>

definition created :: "kernel \<Rightarrow> tptr \<Rightarrow> bool" where
  "created s t \<longleftrightarrow> stack_base (tcb s t) \<noteq> None"

fun tcb_core :: "tptr \<Rightarrow> core" where
  "tcb_core (TcbPool c i) = c"
| "tcb_core (IdleTcb c) = c"

fun fits :: "kernel \<Rightarrow> lptr \<Rightarrow> iptr \<Rightarrow> bool" where
  "fits s (ReadyList c p) (StateItem t) = (core_id (tcb s t) = c \<and> priority (tcb s t) = p)"
| "fits s (BlockedTaskList c) (StateItem t) = (core_id (tcb s t) = c)"
| "fits s (MutexBlockedList m) (EventItem t) = True"
| "fits s (SemaphoreBlockedList m) (EventItem t) = True"
| "fits s L x = False"

definition typed :: "kernel \<Rightarrow> (lptr \<Rightarrow> iptr list) \<Rightarrow> bool" where
  "typed s A \<longleftrightarrow> (\<forall>L. \<forall>x\<in>set (A L). fits s L x \<and> created s (item_tcb x))"

definition waketime :: "kernel \<Rightarrow> iptr \<Rightarrow> u64" where
  "waketime s x = wakeup_time (tcb s (item_tcb x))"

definition delay_sorted :: "kernel \<Rightarrow> (lptr \<Rightarrow> iptr list) \<Rightarrow> bool" where
  "delay_sorted s A \<longleftrightarrow> (\<forall>c. sorted (map (waketime s) (A (BlockedTaskList c))))"

definition index_ok :: "kernel \<Rightarrow> (lptr \<Rightarrow> iptr list) \<Rightarrow> bool" where
  "index_ok s A \<longleftrightarrow>
     (\<forall>c p. case l_index (list_at s (ReadyList c p)) of
              None \<Rightarrow> A (ReadyList c p) = []
            | Some x \<Rightarrow> x \<in> set (A (ReadyList c p)))"

definition tcbs_ok :: "kernel \<Rightarrow> bool" where
  "tcbs_ok s \<longleftrightarrow>
     (\<forall>t. created s t \<longrightarrow> valid_tcb t \<and> core_id (tcb s t) = tcb_core t \<and>
          priority (tcb s t) < NUM_TASK_PRIORITIES \<and> base_priority (tcb s t) < NUM_TASK_PRIORITIES) \<and>
     (\<forall>c t. p_task_control_block s c = Some t \<longrightarrow> created s t \<and> tcb_core t = c)"

definition synced :: "kernel \<Rightarrow> tptr \<Rightarrow> bool" where
  "synced s t \<longleftrightarrow>
     (case current_state (tcb s t) of
        TASK_STATE_READY \<Rightarrow>
          li_container (items s (StateItem t)) = Some (ready_list_of s t) \<and>
          li_container (items s (EventItem t)) = None
      | TASK_STATE_RUNNING \<Rightarrow>
          li_container (items s (StateItem t)) = Some (ready_list_of s t) \<and>
          li_container (items s (EventItem t)) = None \<and>
          p_task_control_block s (core_id (tcb s t)) = Some t
      | TASK_STATE_BLOCKED \<Rightarrow>
          li_container (items s (StateItem t)) = Some (BlockedTaskList (core_id (tcb s t))) \<or>
          li_container (items s (StateItem t)) = None \<and> li_container (items s (EventItem t)) \<noteq> None
      | _ \<Rightarrow> False)"

definition all_synced :: "tptr set \<Rightarrow> kernel \<Rightarrow> bool" where
  "all_synced X s \<longleftrightarrow> (\<forall>t. created s t \<and> t \<notin> X \<longrightarrow> synced s t)"

definition sinv :: "tptr set \<Rightarrow> kernel \<Rightarrow> (lptr \<Rightarrow> iptr list) \<Rightarrow> bool" where
  "sinv X s A \<longleftrightarrow> wfl s A \<and> typed s A \<and> delay_sorted s A \<and> index_ok s A \<and> tcbs_ok s \<and> all_synced X s"

lemma sinvD:
  assumes "sinv X s A"
  shows "wfl s A" "typed s A" "delay_sorted s A" "index_ok s A" "tcbs_ok s" "all_synced X s"
  using assms by (simp_all add: sinv_def)

lemma sinvI:
  "wfl s A \<Longrightarrow> typed s A \<Longrightarrow> delay_sorted s A \<Longrightarrow> index_ok s A \<Longrightarrow> tcbs_ok s \<Longrightarrow> all_synced X s \<Longrightarrow> sinv X s A"
  by (simp add: sinv_def)

lemma sinv_mono: "sinv X s A \<Longrightarrow> X \<subseteq> Y \<Longrightarrow> sinv Y s A"
  by (auto simp: sinv_def all_synced_def)

lemma tcbs_okD:
  assumes "tcbs_ok s" "created s t"
  shows "valid_tcb t" "core_id (tcb s t) = tcb_core t" "priority (tcb s t) < NUM_TASK_PRIORITIES"
    "base_priority (tcb s t) < NUM_TASK_PRIORITIES" "core_id (tcb s t) < COMPANION_CORE_MAX_CORES"
proof -
  show v: "valid_tcb t" and c: "core_id (tcb s t) = tcb_core t"
    and "priority (tcb s t) < NUM_TASK_PRIORITIES" "base_priority (tcb s t) < NUM_TASK_PRIORITIES"
    using assms unfolding tcbs_ok_def by blast+
  from v c show "core_id (tcb s t) < COMPANION_CORE_MAX_CORES" by (cases t) auto
qed

lemma tcbs_ok_cur: "tcbs_ok s \<Longrightarrow> p_task_control_block s c = Some t \<Longrightarrow> created s t \<and> tcb_core t = c"
  unfolding tcbs_ok_def by blast

lemma sinv_valid_item: "sinv X s A \<Longrightarrow> created s t \<Longrightarrow> valid_item (StateItem t) \<and> valid_item (EventItem t)"
  by (auto simp: valid_item_def dest: sinvD(5) tcbs_okD(1))

lemma typedD: "typed s A \<Longrightarrow> x \<in> set (A L) \<Longrightarrow> fits s L x \<and> created s (item_tcb x)"
  unfolding typed_def by blast

lemma typed_ready: "typed s A \<Longrightarrow> x \<in> set (A (ReadyList c p)) \<Longrightarrow>
    \<exists>t. x = StateItem t \<and> core_id (tcb s t) = c \<and> priority (tcb s t) = p \<and> created s t"
  by (cases x) (auto dest: typedD)

lemma typed_blocked: "typed s A \<Longrightarrow> x \<in> set (A (BlockedTaskList c)) \<Longrightarrow>
    \<exists>t. x = StateItem t \<and> core_id (tcb s t) = c \<and> created s t"
  by (cases x) (auto dest: typedD)

lemma typed_event:
  "typed s A \<Longrightarrow> x \<in> set (A (MutexBlockedList m)) \<Longrightarrow> \<exists>t. x = EventItem t \<and> created s t"
  "typed s A \<Longrightarrow> x \<in> set (A (SemaphoreBlockedList q)) \<Longrightarrow> \<exists>t. x = EventItem t \<and> created s t"
  by (cases x; auto dest: typedD)+

text \<open>How the parts of the invariant depend on the store.\<close>

lemma fits_cong: "core_id (tcb s' (item_tcb x)) = core_id (tcb s (item_tcb x)) \<Longrightarrow>
    priority (tcb s' (item_tcb x)) = priority (tcb s (item_tcb x)) \<Longrightarrow> fits s' L x = fits s L x"
  by (cases L; cases x) auto

lemma typed_upd:
  assumes "typed s A"
    and "\<And>t. core_id (tcb s' t) = core_id (tcb s t)" "\<And>t. priority (tcb s' t) = priority (tcb s t)"
    and "\<And>t. created s t \<Longrightarrow> created s' t"
    and "\<And>L' x. x \<in> set (A' L') \<Longrightarrow> x \<in> set (A L') \<or> fits s' L' x \<and> created s' (item_tcb x)"
  shows "typed s' A'"
  unfolding typed_def
proof (intro allI ballI)
  fix L x assume "x \<in> set (A' L)"
  then consider "x \<in> set (A L)" | "fits s' L x \<and> created s' (item_tcb x)" using assms(5) by blast
  then show "fits s' L x \<and> created s' (item_tcb x)"
    using typedD [OF assms(1), of x L] assms(2,3,4) fits_cong [of s' x s L] by cases auto
qed

lemma synced_cong:
  assumes "current_state (tcb s' t) = current_state (tcb s t)" "core_id (tcb s' t) = core_id (tcb s t)"
    "priority (tcb s' t) = priority (tcb s t)"
    "li_container (items s' (StateItem t)) = li_container (items s (StateItem t))"
    "li_container (items s' (EventItem t)) = li_container (items s (EventItem t))"
    "p_task_control_block s' = p_task_control_block s"
  shows "synced s' t = synced s t"
  using assms by (simp add: synced_def ready_list_of_def split: TaskState.splits)

lemma tcbs_ok_upd:
  assumes "tcbs_ok s" and "p_task_control_block s' = p_task_control_block s"
    and "\<And>t. created s' t = created s t" "\<And>t. core_id (tcb s' t) = core_id (tcb s t)"
    "\<And>t. base_priority (tcb s' t) = base_priority (tcb s t)"
    "\<And>t. created s t \<Longrightarrow> priority (tcb s' t) < NUM_TASK_PRIORITIES"
  shows "tcbs_ok s'"
  using assms by (simp add: tcbs_ok_def)

lemma delay_sorted_upd:
  assumes "delay_sorted s A" and "\<And>c. A' (BlockedTaskList c) = A (BlockedTaskList c)"
    and "\<And>c x. x \<in> set (A (BlockedTaskList c)) \<Longrightarrow> waketime s' x = waketime s x"
  shows "delay_sorted s' A'"
  unfolding delay_sorted_def
proof
  fix c
  have "map (waketime s') (A (BlockedTaskList c)) = map (waketime s) (A (BlockedTaskList c))"
    using assms(3) by simp
  then show "sorted (map (waketime s') (A' (BlockedTaskList c)))"
    using assms(1,2) unfolding delay_sorted_def by metis
qed

lemma index_ok_upd:
  assumes "index_ok s A" and "\<And>c p. l_index (list_at s' (ReadyList c p)) = l_index (list_at s (ReadyList c p))"
    and "\<And>c p. A' (ReadyList c p) = A (ReadyList c p)"
  shows "index_ok s' A'"
  using assms by (simp add: index_ok_def cong: option.case_cong)

lemma created_upd_tcb [simp]:
  "(\<And>b. stack_base (f b) = stack_base b) \<Longrightarrow> created (upd_tcb t f s) u = created s u"
  by (simp add: created_def)

subsection \<open>List operations keep the invariant\<close>


lemma tcbs_ok_same:
  assumes "tcbs_ok s" and "p_task_control_block s' = p_task_control_block s"
    and "\<And>t. stack_base (tcb s' t) = stack_base (tcb s t)" "\<And>t. core_id (tcb s' t) = core_id (tcb s t)"
    "\<And>t. base_priority (tcb s' t) = base_priority (tcb s t)" "\<And>t. priority (tcb s' t) = priority (tcb s t)"
  shows "tcbs_ok s'"
  using assms by (simp add: tcbs_ok_def created_def)

text \<open>A list operation that leaves the task control blocks alone and only moves items of \<open>t\<close>.\<close>

lemma sinv_list_opI:
  assumes i: "sinv X s A" and tcb: "tcb s' = tcb s" "p_task_control_block s' = p_task_control_block s"
    and w: "wfl s' A'"
    and new: "\<And>L x. x \<in> set (A' L) \<Longrightarrow> x \<in> set (A L) \<or> fits s L x \<and> created s (item_tcb x)"
    and del: "\<And>c. sorted (map (waketime s) (A' (BlockedTaskList c)))"
    and ix: "index_ok s' A'"
    and cont: "\<And>u. u \<noteq> t \<Longrightarrow> li_container (items s' (StateItem u)) = li_container (items s (StateItem u)) \<and>
        li_container (items s' (EventItem u)) = li_container (items s (EventItem u))"
  shows "sinv (insert t X) s' A'"
proof (rule sinvI [OF w _ _ ix])
  note D = sinvD [OF i]
  have cr: "created s' u = created s u" for u by (simp add: created_def tcb)
  show "typed s' A'"
    by (rule typed_upd [OF D(2)]) (use new fits_cong [of s' _ s] in \<open>auto simp: cr tcb\<close>)
  have "waketime s' = waketime s" by (simp add: fun_eq_iff waketime_def tcb)
  then show "delay_sorted s' A'" using del by (simp add: delay_sorted_def)
  show "tcbs_ok s'" by (rule tcbs_ok_same [OF D(5)]) (simp_all add: tcb)
  show "all_synced (insert t X) s'"
    using D(6) synced_cong [of s' _ s] cont by (auto simp: all_synced_def cr tcb)
qed

lemma sinv_delay_sorted: "sinv X s A \<Longrightarrow> sorted (map (waketime s) (A (BlockedTaskList c)))"
  by (simp add: sinv_def delay_sorted_def)

lemma index_okD: "index_ok s A \<Longrightarrow>
   (case l_index (list_at s (ReadyList c p)) of None \<Rightarrow> A (ReadyList c p) = []
    | Some x \<Rightarrow> x \<in> set (A (ReadyList c p)))"
  unfolding index_ok_def by blast

lemma index_ok_one:
  assumes "index_ok s A"
    and "\<And>L'. L' \<noteq> ReadyList c p \<Longrightarrow> l_index (list_at s' L') = l_index (list_at s L') \<and> A' L' = A L'"
    and "case l_index (list_at s' (ReadyList c p)) of None \<Rightarrow> A' (ReadyList c p) = []
         | Some x \<Rightarrow> x \<in> set (A' (ReadyList c p))"
  shows "index_ok s' A'"
  unfolding index_ok_def
proof (intro allI)
  fix d q
  show "case l_index (list_at s' (ReadyList d q)) of None \<Rightarrow> A' (ReadyList d q) = []
        | Some x \<Rightarrow> x \<in> set (A' (ReadyList d q))"
    using assms(2) [of "ReadyList d q"] assms(3) index_okD [OF assms(1), of d q]
    by (cases "ReadyList d q = ReadyList c p") (auto split: option.splits)
qed

lemma sinv_unlink_ready [wf_intros]:
  assumes i: "sinv X s A" and c: "li_container (items s (StateItem t)) = Some (ReadyList c p)"
  shows "sinv (insert t X) (unlink_ready (ReadyList c p) (StateItem t) s)
           (A(ReadyList c p := remove1 (StateItem t) (A (ReadyList c p))))"
    (is "sinv _ ?s (A(?L := _))")
proof (rule sinv_list_opI [OF i])
  note D = sinvD [OF i]
  have mem: "StateItem t \<in> set (A ?L)" using c by (simp add: wfl_container [OF D(1)])
  show "wfl ?s (A(?L := remove1 (StateItem t) (A ?L)))" by (rule wfl_unlink_ready [OF D(1) mem])
  obtain as bs where AL: "A ?L = as @ StateItem t # bs" using mem by (auto simp: in_set_conv_decomp)
  have dist: "distinct (as @ StateItem t # bs)" using wfl_distinct [OF D(1), of ?L] AL by simp
  have hd_mem: "y \<in> set as \<union> set bs" if "bs @ as = y # z" for y z
    using arg_cong [OF that, of set] by auto
  show "index_ok ?s (A(?L := remove1 (StateItem t) (A ?L)))"
    by (rule index_ok_one [OF D(4)])
      (use AL dist hd_mem index_okD [OF D(4), of c p] in
        \<open>auto simp: unlink_ready_index [OF D(1) AL] split: option.splits list.splits if_splits\<close>)
qed (auto intro: sinv_delay_sorted [OF i] dest: set_remove1_subset [THEN subsetD] split: if_splits)

lemma sinv_unlink_blocked [wf_intros]:
  assumes i: "sinv X s A" and c: "li_container (items s (StateItem t)) = Some (BlockedTaskList c)"
  shows "sinv (insert t X) (unlink (BlockedTaskList c) (StateItem t) s)
           (A(BlockedTaskList c := remove1 (StateItem t) (A (BlockedTaskList c))))"
    (is "sinv _ ?s (A(?L := _))")
proof (rule sinv_list_opI [OF i])
  note D = sinvD [OF i]
  have mem: "StateItem t \<in> set (A ?L)" using c by (simp add: wfl_container [OF D(1)])
  show "wfl ?s (A(?L := remove1 (StateItem t) (A ?L)))" by (rule wfl_unlink [OF D(1) mem])
  show "index_ok ?s (A(?L := remove1 (StateItem t) (A ?L)))"
    by (rule index_ok_upd [OF D(4)]) auto
  show "sorted (map (waketime s) ((A(?L := remove1 (StateItem t) (A ?L))) (BlockedTaskList d)))" for d
    using sinv_delay_sorted [OF i, of d]
    by (auto intro: sorted_map_remove1)
qed (auto dest: set_remove1_subset [THEN subsetD] split: if_splits)

text \<open>The wait list of a mutex or a semaphore.\<close>

fun event_list :: "lptr \<Rightarrow> bool" where
  "event_list (MutexBlockedList m) = True"
| "event_list (SemaphoreBlockedList q) = True"
| "event_list (ReadyList c p) = False"
| "event_list (BlockedTaskList c) = False"

lemma typed_event_list: "typed s A \<Longrightarrow> x \<in> set (A L) \<Longrightarrow> event_list L \<longleftrightarrow> (\<exists>t. x = EventItem t)"
  by (cases L; cases x) (auto dest: typedD)

lemma sinv_unlink_event [wf_intros]:
  assumes i: "sinv X s A" and c: "li_container (items s (EventItem t)) = Some E"
  shows "sinv (insert t X) (unlink E (EventItem t) s) (A(E := remove1 (EventItem t) (A E)))"
proof (rule sinv_list_opI [OF i])
  note D = sinvD [OF i]
  have mem: "EventItem t \<in> set (A E)" using c by (simp add: wfl_container [OF D(1)])
  then have ev: "event_list E" using typed_event_list [OF D(2)] by blast
  show "wfl (unlink E (EventItem t) s) (A(E := remove1 (EventItem t) (A E)))"
    by (rule wfl_unlink [OF D(1) mem])
  show "index_ok (unlink E (EventItem t) s) (A(E := remove1 (EventItem t) (A E)))"
    by (rule index_ok_upd [OF D(4)]) (use ev in auto)
  show "sorted (map (waketime s) ((A(E := remove1 (EventItem t) (A E))) (BlockedTaskList d)))" for d
    using sinv_delay_sorted [OF i, of d] ev by auto
qed (auto dest: set_remove1_subset [THEN subsetD] split: if_splits)

lemma sinv_link_event [wf_intros]:
  assumes i: "sinv X s A" and c: "li_container (items s (EventItem t)) = None" and ev: "event_list E"
    and cr: "created s t"
  shows "sinv (insert t X) (link_tail E (EventItem t) t s) (A(E := A E @ [EventItem t]))"
proof (rule sinv_list_opI [OF i])
  note D = sinvD [OF i]
  show "wfl (link_tail E (EventItem t) t s) (A(E := A E @ [EventItem t]))"
    by (rule wfl_link_tail [OF D(1) c]) (use sinv_valid_item [OF i cr] in auto)
  show "index_ok (link_tail E (EventItem t) t s) (A(E := A E @ [EventItem t]))"
    by (rule index_ok_upd [OF D(4)]) (use ev in auto)
  show "sorted (map (waketime s) ((A(E := A E @ [EventItem t])) (BlockedTaskList d)))" for d
    using sinv_delay_sorted [OF i, of d] ev by auto
  show "x \<in> set (A L) \<or> fits s L x \<and> created s (item_tcb x)"
    if "x \<in> set ((A(E := A E @ [EventItem t])) L)" for L x
    using that ev cr by (cases E) (auto split: if_splits)
qed auto

lemma sinv_link_ready [wf_intros]:
  assumes i: "sinv X s A" and c: "li_container (items s (StateItem t)) = None" and cr: "created s t"
  shows "sinv (insert t X)
     (set_index (ready_list_of s t)
       (if l_list_end (list_at s (ready_list_of s t)) = None then Some (StateItem t)
        else l_index (list_at s (ready_list_of s t)))
       (link_tail (ready_list_of s t) (StateItem t) t s))
     (A(ready_list_of s t := A (ready_list_of s t) @ [StateItem t]))"
    (is "sinv _ ?s (A(?L := _))")
proof (rule sinv_list_opI [OF i])
  note D = sinvD [OF i]
  have "wfl (link_tail ?L (StateItem t) t s) (A(?L := A ?L @ [StateItem t]))"
    by (rule wfl_link_tail [OF D(1) c]) (use sinv_valid_item [OF i cr] in auto)
  then show "wfl ?s (A(?L := A ?L @ [StateItem t]))" by (rule wfl_set_index)
  show "index_ok ?s (A(?L := A ?L @ [StateItem t]))"
    unfolding ready_list_of_def
    by (rule index_ok_one [OF D(4)])
      (use index_okD [OF D(4), of "core_id (tcb s t)" "priority (tcb s t)"] in
        \<open>auto simp: wfl_list_end [OF D(1)] split: option.splits if_splits\<close>)
  show "sorted (map (waketime s) ((A(?L := A ?L @ [StateItem t])) (BlockedTaskList d)))" for d
    using sinv_delay_sorted [OF i, of d] by (auto simp: ready_list_of_def)
  show "x \<in> set (A L) \<or> fits s L x \<and> created s (item_tcb x)"
    if "x \<in> set ((A(?L := A ?L @ [StateItem t])) L)" for L x
    using that cr by (auto simp: ready_list_of_def split: if_splits)
qed auto


lemma sinv_upd_state:
  assumes i: "sinv X s A" and f: "\<And>b. f b = b\<lparr>current_state := st\<rparr>"
    and ok: "created s t \<Longrightarrow> synced (upd_tcb t f s) t"
  shows "sinv (X - {t}) (upd_tcb t f s) A"
proof (rule sinvI)
  note D = sinvD [OF i]
  show "wfl (upd_tcb t f s) A" by (rule wfl_upd_tcb [OF D(1)])
  show "typed (upd_tcb t f s) A" by (rule typed_upd [OF D(2)]) (auto simp: created_def f)
  show "delay_sorted (upd_tcb t f s) A"
    by (rule delay_sorted_upd [OF D(3)]) (auto simp: waketime_def f)
  show "index_ok (upd_tcb t f s) A" by (rule index_ok_upd [OF D(4)]) auto
  show "tcbs_ok (upd_tcb t f s)" by (rule tcbs_ok_same [OF D(5)]) (auto simp: f)
  show "all_synced (X - {t}) (upd_tcb t f s)"
    unfolding all_synced_def
  proof (intro allI impI)
    fix u assume u: "created (upd_tcb t f s) u \<and> u \<notin> X - {t}"
    show "synced (upd_tcb t f s) u"
    proof (cases "u = t")
      case True
      with u ok show ?thesis by (simp add: f created_def)
    next
      case False
      with u D(6) have "synced s u" by (simp add: all_synced_def f created_def)
      with False show ?thesis using synced_cong [of "upd_tcb t f s" u s] by simp
    qed
  qed
qed

lemma sinv_add_ready [wf_intros]:
  assumes i: "sinv X s A" and cr: "created s t"
    and cs: "li_container (items s (StateItem t)) = None" and ce: "li_container (items s (EventItem t)) = None"
  shows "fst (scheduler_add_to_ready_list (Some t) s) = E_OK"
    and "sinv (X - {t}) (snd (scheduler_add_to_ready_list (Some t) s))
           (A(ready_list_of s t := A (ready_list_of s t) @ [StateItem t]))"
proof -
  note eq = add_to_ready_eq [OF tcbs_okD(3,5) [OF sinvD(5) [OF i] cr]]
  show "fst (scheduler_add_to_ready_list (Some t) s) = E_OK" by (simp add: eq)
  have "sinv (insert t X - {t}) (snd (scheduler_add_to_ready_list (Some t) s))
           (A(ready_list_of s t := A (ready_list_of s t) @ [StateItem t]))"
    unfolding eq snd_conv
    by (rule sinv_upd_state [OF sinv_link_ready [OF i cs cr]])
      (auto simp: synced_def ready_list_of_def ce)
  then show "sinv (X - {t}) (snd (scheduler_add_to_ready_list (Some t) s))
           (A(ready_list_of s t := A (ready_list_of s t) @ [StateItem t]))" by simp
qed

subsection \<open>Insertion into the delay list\<close>

definition delay_insert :: "(iptr \<Rightarrow> u64) \<Rightarrow> u64 \<Rightarrow> iptr \<Rightarrow> iptr list \<Rightarrow> iptr list" where
  "delay_insert f w x xs =
     (case xs of
        [] \<Rightarrow> [x]
      | h # ys \<Rightarrow> if w \<le> f h then x # h # ys
                 else h # takeWhile (\<lambda>z. f z \<le> w) ys @ x # dropWhile (\<lambda>z. f z \<le> w) ys)"

lemma set_delay_insert [simp]: "set (delay_insert f w x xs) = insert x (set xs)"
proof (cases xs)
  case (Cons h ys)
  have "set (takeWhile (\<lambda>z. f z \<le> w) ys) \<union> set (dropWhile (\<lambda>z. f z \<le> w) ys) = set ys"
    by (metis set_append takeWhile_dropWhile_id)
  with Cons show ?thesis by (auto simp: delay_insert_def)
qed (simp add: delay_insert_def)

lemma sorted_delay_insert:
  assumes "sorted (map f xs)" and "f x = w"
  shows "sorted (map f (delay_insert f w x xs))"
proof (cases xs)
  case (Cons h ys)
  show ?thesis
  proof (cases "w \<le> f h")
    case True
    with assms Cons show ?thesis by (auto simp: delay_insert_def intro: order_trans)
  next
    case False
    let ?T = "takeWhile (\<lambda>z. f z \<le> w) ys" and ?D = "dropWhile (\<lambda>z. f z \<le> w) ys"
    have split: "map f ys = map f ?T @ map f ?D" by (metis map_append takeWhile_dropWhile_id)
    have T: "f z \<le> w" if "z \<in> set ?T" for z using that set_takeWhileD by fast
    have D: "w \<le> f z" if "z \<in> set ?D" for z
    proof -
      from that have "?D \<noteq> []" by (metis empty_iff list.set(1))
      then obtain d ds where dd: "?D = d # ds" by (meson neq_Nil_conv)
      then have "\<not> f d \<le> w" by (metis (mono_tags, lifting) dropWhile_eq_Cons_conv)
      moreover have "sorted (map f ?D)" using assms(1) Cons split by (simp add: sorted_append)
      ultimately show ?thesis using that dd by (auto intro: order_trans less_imp_le simp: not_le)
    qed
    from assms Cons False split T D show ?thesis
      by (auto simp: delay_insert_def sorted_append)
  qed
qed (simp add: delay_insert_def)

lemma blocked_walk_seg:
  assumes "lseg (items s) p (Some it) (it # bs) l None"
    and "\<And>z. z \<in> set bs \<Longrightarrow> li_owner (items s z) = item_tcb z"
  shows "blocked_walk w s it = Some (last (it # takeWhile (\<lambda>z. waketime s z \<le> w) bs))"
  using assms
proof (induction bs arbitrary: p it)
  case Nil
  then show ?case by (subst blocked_walk.simps) simp
next
  case (Cons b bs)
  from Cons.prems have nx: "li_next (items s it) = Some b" and ow: "li_owner (items s b) = item_tcb b"
    and seg: "lseg (items s) (Some it) (Some b) (b # bs) l None" by auto
  have "blocked_walk w s b = Some (last (b # takeWhile (\<lambda>z. waketime s z \<le> w) bs))"
    using Cons.IH [OF seg] Cons.prems(2) by simp
  then show ?case by (subst blocked_walk.simps) (simp add: nx ow waketime_def)
qed


lemma ready_list_of_neq [simp]:
  "ready_list_of s t \<noteq> BlockedTaskList c" "BlockedTaskList c \<noteq> ready_list_of s t"
  "ready_list_of s t \<noteq> MutexBlockedList m" "ready_list_of s t \<noteq> SemaphoreBlockedList q"
  "MutexBlockedList m \<noteq> ready_list_of s t" "SemaphoreBlockedList q \<noteq> ready_list_of s t"
  by (simp_all add: ready_list_of_def)

lemma delay_insert_cong:
  assumes "\<And>z. z \<in> set xs \<Longrightarrow> f z = g z"
  shows "delay_insert f w x xs = delay_insert g w x xs"
proof (cases xs)
  case (Cons h ys)
  then have "takeWhile (\<lambda>z. f z \<le> w) ys = takeWhile (\<lambda>z. g z \<le> w) ys"
    "dropWhile (\<lambda>z. f z \<le> w) ys = dropWhile (\<lambda>z. g z \<le> w) ys"
    using assms by (auto intro: takeWhile_cong dropWhile_cong)
  then show ?thesis using Cons assms by (simp add: delay_insert_def)
qed (simp add: delay_insert_def)

definition set_wakeup :: "tptr \<Rightarrow> u64 \<Rightarrow> kernel \<Rightarrow> kernel" where
  "set_wakeup t k s = upd_tcb t (\<lambda>b. b\<lparr>wakeup_time := k\<rparr>) s"

lemma frame_set_wakeup [simp]:
  "list_at (set_wakeup t k s) = list_at s"
  "items (set_wakeup t k s) = items s"
  "p_task_control_block (set_wakeup t k s) = p_task_control_block s"
  "tick_count (set_wakeup t k s) = tick_count s"
  "stack_mem (set_wakeup t k s) = stack_mem s"
  "mutexes (set_wakeup t k s) = mutexes s"
  "semaphores (set_wakeup t k s) = semaphores s"
  "queues (set_wakeup t k s) = queues s"
  "current_state (tcb (set_wakeup t k s) u) = current_state (tcb s u)"
  "core_id (tcb (set_wakeup t k s) u) = core_id (tcb s u)"
  "priority (tcb (set_wakeup t k s) u) = priority (tcb s u)"
  "base_priority (tcb (set_wakeup t k s) u) = base_priority (tcb s u)"
  "stack_base (tcb (set_wakeup t k s) u) = stack_base (tcb s u)"
  "wakeup_time (tcb (set_wakeup t k s) u) = (if u = t then k else wakeup_time (tcb s u))"
  by (simp_all add: set_wakeup_def)

lemma sinv_set_wakeup [wf_intros]:
  assumes i: "sinv X s A" and new: "li_container (items s (StateItem t)) = None"
  shows "sinv X (set_wakeup t k s) A"
proof (rule sinvI)
  note D = sinvD [OF i]
  show "wfl (set_wakeup t k s) A" unfolding set_wakeup_def by (rule wfl_upd_tcb [OF D(1)])
  show "typed (set_wakeup t k s) A" by (rule typed_upd [OF D(2)]) (auto simp: created_def)
  show "delay_sorted (set_wakeup t k s) A"
  proof (rule delay_sorted_upd [OF D(3)])
    fix c x assume x: "x \<in> set (A (BlockedTaskList c))"
    then have "x \<noteq> StateItem t" using new by (auto simp: wfl_container [OF D(1)])
    with x typed_blocked [OF D(2) x] show "waketime (set_wakeup t k s) x = waketime s x"
      by (auto simp: waketime_def)
  qed simp
  show "index_ok (set_wakeup t k s) A" by (rule index_ok_upd [OF D(4)]) auto
  show "tcbs_ok (set_wakeup t k s)" by (rule tcbs_ok_same [OF D(5)]) auto
  show "all_synced X (set_wakeup t k s)"
    using D(6) synced_cong [of "set_wakeup t k s" _ s] by (auto simp: all_synced_def created_def)
qed

text \<open>What the three branches of the insertion do to the list, once the item's fields are set.\<close>

lemma add_to_blocked_link:
  assumes w: "wfl s A" and new: "li_container (items s (StateItem t)) = None" and v: "valid_tcb t"
    and c: "core_id (tcb s t) < COMPANION_CORE_MAX_CORES"
    and s: "s = set_wakeup t k s0" and L: "L = BlockedTaskList (core_id (tcb s t))"
  shows "\<exists>s'. scheduler_add_to_blocked_list (Some t) k s0 = Some (E_OK, s') \<and>
     wfl s' (A(L := delay_insert (waketime s) k (StateItem t) (A L))) \<and>
     tcb s' = tcb s \<and> p_task_control_block s' = p_task_control_block s \<and> tick_count s' = tick_count s \<and>
     stack_mem s' = stack_mem s \<and> mutexes s' = mutexes s \<and> semaphores s' = semaphores s \<and> queues s' = queues s \<and>
     (\<forall>L'. l_index (list_at s' L') = l_index (list_at s L')) \<and>
     (\<forall>y. li_container (items s' y) = (if y = StateItem t then Some L else li_container (items s y)))"
proof -
  let ?x = "StateItem t"
  let ?I = "init_item L ?x t s"
  have nin: "?x \<notin> set (A L)" using new by (simp add: wfl_container [OF w])
  have vi: "valid_item ?x" using v by (simp add: valid_item_def)
  have L': "L = BlockedTaskList (core_id (tcb s0 t))" by (simp add: L s)
  have eq: "scheduler_add_to_blocked_list (Some t) k s0 =
     (case l_head (list_at ?I L) of
        None \<Rightarrow> Some (E_OK, bump_num L (link_first L ?x ?I))
      | Some h \<Rightarrow> if k \<le> wakeup_time (tcb ?I (li_owner (items ?I h)))
                  then Some (E_OK, bump_num L (link_before_head L h ?x ?I))
                  else do { it \<leftarrow> blocked_walk k ?I h; Some (E_OK, bump_num L (insert_after L it ?x ?I)) })"
    using c unfolding scheduler_add_to_blocked_list_def L' s set_wakeup_def by (simp add: Let_def)
  have hd: "l_head (list_at ?I L) = (case A L of [] \<Rightarrow> None | h # _ \<Rightarrow> Some h)"
    using wfl_head [OF w, of L] by (simp add: init_item_def)
  have own: "li_owner (items ?I z) = item_tcb z" if "z \<in> set (A L)" for z
    using that nin wfl_owner [OF w that] by (auto simp: init_item_def)
  have wt: "waketime ?I = waketime s" by (simp add: fun_eq_iff waketime_def)
  show ?thesis
  proof (cases "A L")
    case Nil
    then show ?thesis
      using wfl_link_first [OF w new vi _ Nil] by (simp add: eq hd delay_insert_def)
  next
    case (Cons h ys)
    have kh: "wakeup_time (tcb s (li_owner (items ?I h))) = waketime s h"
      using own [of h] Cons by (simp add: waketime_def)
    show ?thesis
    proof (cases "k \<le> waketime s h")
      case True
      then show ?thesis
        using wfl_link_before_head [OF w new vi _ Cons] Cons by (simp add: eq hd kh delay_insert_def)
    next
      case False
      let ?T = "takeWhile (\<lambda>z. waketime s z \<le> k) ys" and ?D = "dropWhile (\<lambda>z. waketime s z \<le> k) ys"
      let ?it = "last (h # ?T)"
      have "lseg (items s) None (l_head (list_at s L)) (h # ys) (l_list_end (list_at s L)) None"
        using dll_lseg [OF wfl_dll [OF w], of L] Cons by simp
      then have seg: "lseg (items ?I) None (Some h) (h # ys) (l_list_end (list_at s L)) None"
        using nin Cons lseg_first [of "items s"] by (auto simp: init_item_def)
      have walk: "blocked_walk k ?I h = Some ?it"
        using blocked_walk_seg [OF seg] own Cons by (simp add: wt)
      have split: "A L = butlast (h # ?T) @ ?it # ?D"
        using Cons by (metis append_Cons append_butlast_last_id append.assoc append_Nil list.distinct(1) takeWhile_dropWhile_id)
      have new_list: "delay_insert (waketime s) k ?x (A L) = butlast (h # ?T) @ ?it # ?x # ?D"
        using Cons False by (simp add: delay_insert_def)
      have "wfl (bump_num L (insert_after L ?it ?x ?I)) (A(L := delay_insert (waketime s) k ?x (A L)))"
        unfolding new_list by (rule wfl_insert_after [OF w new vi _ split]) simp
      moreover have "scheduler_add_to_blocked_list (Some t) k s0 = Some (E_OK, bump_num L (insert_after L ?it ?x ?I))"
        using Cons False by (simp add: eq hd kh walk)
      ultimately show ?thesis by (simp del: last.simps)
    qed
  qed
qed

lemma sinv_add_blocked:
  assumes i: "sinv X s A" and cr: "created s t" and new: "li_container (items s (StateItem t)) = None"
    and L: "L = BlockedTaskList (core_id (tcb s t))"
  obtains s' where "scheduler_add_to_blocked_list (Some t) k s = Some (E_OK, s')"
    and "sinv (insert t X) s' (A(L := delay_insert (waketime s) k (StateItem t) (A L)))"
    and "tcb s' = tcb (set_wakeup t k s)" and "p_task_control_block s' = p_task_control_block s"
    and "tick_count s' = tick_count s" and "stack_mem s' = stack_mem s" and "mutexes s' = mutexes s"
    and "semaphores s' = semaphores s" and "queues s' = queues s"
    and "\<And>L'. l_index (list_at s' L') = l_index (list_at s L')"
    and "\<And>y. li_container (items s' y) = (if y = StateItem t then Some L else li_container (items s y))"
proof -
  let ?s = "set_wakeup t k s"
  have i1: "sinv X ?s A" by (rule sinv_set_wakeup [OF i new])
  note D = sinvD [OF i1]
  note T = tcbs_okD [OF sinvD(5) [OF i] cr]
  have wt: "waketime ?s z = waketime s z" if zL: "z \<in> set (A L)" for z
  proof -
    obtain u where u: "z = StateItem u" using typed_blocked [OF D(2), of z] zL L by blast
    with zL new have "u \<noteq> t" by (auto simp: wfl_container [OF sinvD(1) [OF i]])
    with u show ?thesis by (simp add: waketime_def)
  qed
  let ?A = "A(L := delay_insert (waketime s) k (StateItem t) (A L))"
  have ins: "delay_insert (waketime ?s) k (StateItem t) (A L) = delay_insert (waketime s) k (StateItem t) (A L)"
    by (rule delay_insert_cong [OF wt])
  obtain s' where s': "scheduler_add_to_blocked_list (Some t) k s = Some (E_OK, s')" "wfl s' ?A"
     "tcb s' = tcb ?s" "p_task_control_block s' = p_task_control_block s" "tick_count s' = tick_count s"
     "stack_mem s' = stack_mem s" "mutexes s' = mutexes s" "semaphores s' = semaphores s" "queues s' = queues s"
     and ix: "\<And>L'. l_index (list_at s' L') = l_index (list_at s L')"
     and ct: "\<And>y. li_container (items s' y) = (if y = StateItem t then Some L else li_container (items s y))"
    using add_to_blocked_link [OF D(1) _ T(1) _ refl, of L] new T(5) L ins by auto
  have "sinv (insert t X) s' ?A"
  proof (rule sinv_list_opI [OF i1 s'(3) _ s'(2)])
    show "index_ok s' ?A" by (rule index_ok_upd [OF D(4)]) (simp_all add: ix L)
    show "sorted (map (waketime ?s) (?A (BlockedTaskList d)))" for d
      using sorted_delay_insert [OF sinv_delay_sorted [OF i1, of d], of "StateItem t" k] sinv_delay_sorted [OF i1, of d] ins
      by (auto simp: waketime_def L)
    show "x \<in> set (A L') \<or> fits ?s L' x \<and> created ?s (item_tcb x)" if "x \<in> set (?A L')" for L' x
      using that cr by (auto simp: L created_def split: if_splits)
  qed (auto simp: ct s')
  with s' ix ct show ?thesis by (intro that [of s']) auto
qed

lemma remove_from_ready_sinv:
  assumes i: "sinv X s A" and cr: "created s t" and c: "li_container (items s (StateItem t)) = Some (ready_list_of s t)"
  shows "scheduler_remove_from_ready_list (Some t) s = (E_OK, unlink_ready (ready_list_of s t) (StateItem t) s)"
    and "sinv (insert t X) (unlink_ready (ready_list_of s t) (StateItem t) s)
      (A(ready_list_of s t := remove1 (StateItem t) (A (ready_list_of s t))))"
proof -
  note T = tcbs_okD [OF sinvD(5) [OF i] cr]
  show "scheduler_remove_from_ready_list (Some t) s = (E_OK, unlink_ready (ready_list_of s t) (StateItem t) s)"
    by (rule remove_from_ready_eq [OF T(3,5) c])
  show "sinv (insert t X) (unlink_ready (ready_list_of s t) (StateItem t) s)
      (A(ready_list_of s t := remove1 (StateItem t) (A (ready_list_of s t))))"
    using sinv_unlink_ready [OF i] c by (simp add: ready_list_of_def)
qed

lemma remove_from_blocked_eq:
  assumes "core_id (tcb s t) < COMPANION_CORE_MAX_CORES"
  shows "scheduler_remove_from_blocked_list (Some t) s =
    (E_OK, if li_container (items s (StateItem t)) = Some (BlockedTaskList (core_id (tcb s t)))
           then unlink (BlockedTaskList (core_id (tcb s t))) (StateItem t) s else s)"
  using assms by (simp add: scheduler_remove_from_blocked_list_def unlink_def Let_def)

text \<open>\<open>block_until\<close>: the running task leaves its ready list and enters the delay list.\<close>

lemma sinv_block_until:
  assumes i: "sinv X s A" and cur: "p_task_control_block s c = Some t"
    and st: "li_container (items s (StateItem t)) = Some (ready_list_of s t)"
  obtains s' where "block_until c w s = Some s'"
    and "sinv (X - {t}) s' (A(ready_list_of s t := remove1 (StateItem t) (A (ready_list_of s t)),
           BlockedTaskList c := delay_insert (waketime s) w (StateItem t) (A (BlockedTaskList c))))"
    and "tcb s' = (tcb s)(t := (tcb s t)\<lparr>wakeup_time := w, current_state := TASK_STATE_BLOCKED\<rparr>)"
    and "p_task_control_block s' = p_task_control_block s" and "tick_count s' = tick_count s"
proof -
  from tcbs_ok_cur [OF sinvD(5) [OF i] cur] have cr: "created s t" and cc: "tcb_core t = c" by auto
  note T = tcbs_okD [OF sinvD(5) [OF i] cr]
  let ?R = "ready_list_of s t" and ?B = "BlockedTaskList c"
  let ?s1 = "unlink_ready ?R (StateItem t) s" and ?A1 = "A(?R := remove1 (StateItem t) (A ?R))"
  have i1: "sinv (insert t X) ?s1 ?A1" by (rule remove_from_ready_sinv(2) [OF i cr st])
  have B: "?A1 ?B = A ?B" by (simp add: ready_list_of_def)
  have wt: "waketime ?s1 = waketime s" by (simp add: fun_eq_iff waketime_def)
  obtain s2 where s2: "scheduler_add_to_blocked_list (Some t) w ?s1 = Some (E_OK, s2)"
      "sinv (insert t X) s2 (?A1(?B := delay_insert (waketime s) w (StateItem t) (A ?B)))"
      "tcb s2 = tcb (set_wakeup t w ?s1)" "p_task_control_block s2 = p_task_control_block s" "tick_count s2 = tick_count s"
      and ct: "\<And>y. li_container (items s2 y) = (if y = StateItem t then Some ?B else li_container (items ?s1 y))"
    by (rule sinv_add_blocked [OF i1, of t ?B w]) (use cr T(2) cc in \<open>auto simp: created_def B wt\<close>)
  let ?f = "\<lambda>b. b\<lparr>current_state := TASK_STATE_BLOCKED\<rparr>"
  have "block_until c w s = Some (upd_tcb t ?f s2)"
    using s2(4) by (simp add: block_until_def Let_def cur remove_from_ready_sinv(1) [OF i cr st] s2(1))
  moreover have "sinv (insert t X - {t}) (upd_tcb t ?f s2)
      (?A1(?B := delay_insert (waketime s) w (StateItem t) (A ?B)))"
    by (rule sinv_upd_state [OF s2(2)]) (use T(2) cc in \<open>auto simp: synced_def ct s2(3)\<close>)
  ultimately show ?thesis
    by (intro that [of "upd_tcb t ?f s2"]) (simp_all add: s2 set_wakeup_def)
qed


subsection \<open>The tick\<close>

text \<open>\<open>woken s t A\<close>: task \<open>t\<close> is in no delay list and no wait list any more, and at the back of its ready list.\<close>

definition woken :: "kernel \<Rightarrow> tptr \<Rightarrow> (lptr \<Rightarrow> iptr list) \<Rightarrow> lptr \<Rightarrow> iptr list" where
  "woken s t A = (\<lambda>L. remove1 (EventItem t) (remove1 (StateItem t) (A L)) @
                      (if L = ready_list_of s t then [StateItem t] else []))"

lemma remove1_elsewhere:
  "wfl s A \<Longrightarrow> li_container (items s x) \<noteq> Some L \<Longrightarrow> remove1 x (A L) = A L"
  by (rule remove1_idem) (simp add: wfl_container)

lemma remove1_fun: "wfl s A \<Longrightarrow> li_container (items s x) = Some L \<Longrightarrow>
    A(L := remove1 x (A L)) = (\<lambda>L'. remove1 x (A L'))"
  by (auto simp: fun_eq_iff remove1_elsewhere)

lemma remove1_fun_None: "wfl s A \<Longrightarrow> li_container (items s x) = None \<Longrightarrow> A = (\<lambda>L'. remove1 x (A L'))"
  by (auto simp: fun_eq_iff remove1_elsewhere)

definition drop_event :: "tptr \<Rightarrow> kernel \<Rightarrow> kernel" where
  "drop_event t s = (case li_container (items s (EventItem t)) of None \<Rightarrow> s | Some E \<Rightarrow> unlink E (EventItem t) s)"

lemma frame_drop_event [simp]:
  "tcb (drop_event t s) = tcb s"
  "p_task_control_block (drop_event t s) = p_task_control_block s"
  "tick_count (drop_event t s) = tick_count s"
  "clk_freq (drop_event t s) = clk_freq s"
  "hz (drop_event t s) = hz s"
  "cntp_cval (drop_event t s) = cntp_cval s"
  "stack_mem (drop_event t s) = stack_mem s"
  "heap_offset (drop_event t s) = heap_offset s"
  "task_counter (drop_event t s) = task_counter s"
  "mutexes (drop_event t s) = mutexes s"
  "semaphores (drop_event t s) = semaphores s"
  "queues (drop_event t s) = queues s"
  "timers (drop_event t s) = timers s"
  "blocked_list_head (drop_event t s) = blocked_list_head s"
  "active_list_head (drop_event t s) = active_list_head s"
  "console (drop_event t s) = console s"
  "l_index (list_at (drop_event t s) L) = l_index (list_at s L)"
  "li_container (items (drop_event t s) y) = (if y = EventItem t then None else li_container (items s y))"
  by (auto simp: drop_event_def split: option.splits)

lemma sinv_drop_event [wf_intros]:
  assumes i: "sinv X s A"
  shows "sinv (insert t X) (drop_event t s) (\<lambda>L. remove1 (EventItem t) (A L))"
proof (cases "li_container (items s (EventItem t))")
  case None
  then have "A = (\<lambda>L. remove1 (EventItem t) (A L))" by (rule remove1_fun_None [OF sinvD(1) [OF i]])
  with i None show ?thesis by (auto simp: drop_event_def intro: sinv_mono)
next
  case (Some E)
  then show ?thesis
    using sinv_unlink_event [OF i Some] remove1_fun [OF sinvD(1) [OF i] Some] by (simp add: drop_event_def)
qed

lemma tick_wake_one_eq:
  "core_id (tcb s t) < COMPANION_CORE_MAX_CORES \<Longrightarrow>
   li_container (items s (StateItem t)) = Some (BlockedTaskList (core_id (tcb s t))) \<Longrightarrow>
   tick_wake_one t s = snd (scheduler_add_to_ready_list (Some t)
      (drop_event t (unlink (BlockedTaskList (core_id (tcb s t))) (StateItem t) s)))"
  by (simp add: tick_wake_one_def remove_from_blocked_eq drop_event_def Let_def)
    (simp add: unlink_def cong: option.case_cong)

text \<open>Fields \<open>scheduler_add_to_ready_list\<close> leaves alone.\<close>

lemma frame_add_ready [simp]:
  fixes s :: kernel and p :: "tptr option"
  defines "s' \<equiv> snd (scheduler_add_to_ready_list p s)"
  shows "p_task_control_block s' = p_task_control_block s" "tick_count s' = tick_count s" "clk_freq s' = clk_freq s"
    "hz s' = hz s" "cntp_cval s' = cntp_cval s" "stack_mem s' = stack_mem s" "heap_offset s' = heap_offset s"
    "task_counter s' = task_counter s" "mutexes s' = mutexes s" "semaphores s' = semaphores s" "queues s' = queues s"
    "timers s' = timers s" "blocked_list_head s' = blocked_list_head s" "active_list_head s' = active_list_head s"
    "console s' = console s"
  unfolding s'_def by (simp_all add: scheduler_add_to_ready_list_def Let_def split: option.splits)

lemma add_ready_tcb:
  assumes "priority (tcb s t) < NUM_TASK_PRIORITIES" and "core_id (tcb s t) < COMPANION_CORE_MAX_CORES"
  shows "tcb (snd (scheduler_add_to_ready_list (Some t) s)) = (tcb s)(t := (tcb s t)\<lparr>current_state := TASK_STATE_READY\<rparr>)"
  by (simp add: add_to_ready_eq [OF assms])

lemma sinv_tick_wake_one:
  assumes i: "sinv X s A" and mem: "StateItem t \<in> set (A (BlockedTaskList c))"
  shows "sinv (X - {t}) (tick_wake_one t s) (woken s t A)"
    and "tcb (tick_wake_one t s) = (tcb s)(t := (tcb s t)\<lparr>current_state := TASK_STATE_READY\<rparr>)"
    and "p_task_control_block (tick_wake_one t s) = p_task_control_block s"
    and "tick_count (tick_wake_one t s) = tick_count s"
proof -
  note D = sinvD [OF i]
  from typed_blocked [OF D(2) mem] have cr: "created s t" and cc: "core_id (tcb s t) = c" by auto
  note T = tcbs_okD [OF D(5) cr]
  let ?B = "BlockedTaskList c"
  have cont: "li_container (items s (StateItem t)) = Some ?B" using mem by (simp add: wfl_container [OF D(1)])
  let ?s2 = "drop_event t (unlink ?B (StateItem t) s)"
  have eq: "tick_wake_one t s = snd (scheduler_add_to_ready_list (Some t) ?s2)"
    using tick_wake_one_eq [of s t] T(5) cont cc by simp
  have R: "ready_list_of ?s2 t = ready_list_of s t" by (simp add: ready_list_of_def)
  have "sinv (insert t (insert t X)) ?s2 (\<lambda>L. remove1 (EventItem t) ((A(?B := remove1 (StateItem t) (A ?B))) L))"
    by (rule sinv_drop_event [OF sinv_unlink_blocked [OF i cont]])
  then have i2: "sinv (insert t X) ?s2 (\<lambda>L. remove1 (EventItem t) (remove1 (StateItem t) (A L)))"
    unfolding remove1_fun [OF D(1) cont] by simp
  have "sinv (insert t X - {t}) (snd (scheduler_add_to_ready_list (Some t) ?s2)) (woken s t A)"
    using sinv_add_ready(2) [OF i2, of t] cr
    by (simp add: created_def R woken_def fun_upd_def if_distrib cong: if_cong)
  then show "sinv (X - {t}) (tick_wake_one t s) (woken s t A)" by (simp add: eq)
  show "tcb (tick_wake_one t s) = (tcb s)(t := (tcb s t)\<lparr>current_state := TASK_STATE_READY\<rparr>)"
    using T(3,5) by (simp add: eq add_ready_tcb)
  show "p_task_control_block (tick_wake_one t s) = p_task_control_block s"
    and "tick_count (tick_wake_one t s) = tick_count s" by (simp_all add: eq)
qed

text \<open>The lists after the tick handler's wake loop.\<close>

definition expired :: "kernel \<Rightarrow> core \<Rightarrow> iptr \<Rightarrow> bool" where
  "expired s c x \<longleftrightarrow> waketime s x \<le> tick_count s c"

fun after_tick :: "kernel \<Rightarrow> core \<Rightarrow> (lptr \<Rightarrow> iptr list) \<Rightarrow> lptr \<Rightarrow> iptr list" where
  "after_tick s c A (ReadyList d p) = A (ReadyList d p) @
     (if d = c then filter (\<lambda>x. expired s c x \<and> priority (tcb s (item_tcb x)) = p) (A (BlockedTaskList c)) else [])"
| "after_tick s c A (BlockedTaskList d) = filter (\<lambda>x. \<not> (d = c \<and> expired s c x)) (A (BlockedTaskList d))"
| "after_tick s c A L =
     filter (\<lambda>x. \<not> (StateItem (item_tcb x) \<in> set (A (BlockedTaskList c)) \<and> expired s c x)) (A L)"

lemma expired_woken [simp]:
  "tcb s' = (tcb s)(t := (tcb s t)\<lparr>current_state := st\<rparr>) \<Longrightarrow> tick_count s' = tick_count s \<Longrightarrow> expired s' c x = expired s c x"
  by (simp add: expired_def waketime_def)

lemma after_tick_step:
  assumes i: "sinv X s A" and AB: "A (BlockedTaskList c) = StateItem t # ys" and ex: "expired s c (StateItem t)"
    and s': "tcb s' = (tcb s)(t := (tcb s t)\<lparr>current_state := st\<rparr>)" "tick_count s' = tick_count s"
  shows "after_tick s' c (woken s t A) = after_tick s c A"
proof
  fix L
  note D = sinvD [OF i]
  have cont: "li_container (items s (StateItem t)) = Some (BlockedTaskList c)"
    using AB by (simp add: wfl_container [OF D(1), symmetric])
  have cc: "core_id (tcb s t) = c" using typed_blocked [OF D(2), of "StateItem t" c] AB by auto
  have no_ev: "EventItem t \<notin> set (A (BlockedTaskList d))" "EventItem t \<notin> set (A (ReadyList d p))" for d p
    using typed_event_list [OF D(2), of "EventItem t" "BlockedTaskList d"]
      typed_event_list [OF D(2), of "EventItem t" "ReadyList d p"] by auto
  have off: "StateItem t \<notin> set (A L')" if "L' \<noteq> BlockedTaskList c" for L'
    using that cont by (simp add: wfl_container [OF D(1)])
  have dist: "StateItem t \<notin> set ys" using wfl_distinct [OF D(1), of "BlockedTaskList c"] AB by simp
  have B: "woken s t A (BlockedTaskList c) = ys" using AB no_ev(1) [of c] by (simp add: woken_def remove1_idem)
  have W: "woken s t A L' = remove1 (EventItem t) (A L') @ (if L' = ready_list_of s t then [StateItem t] else [])"
    if "L' \<noteq> BlockedTaskList c" for L'
    using off [OF that] by (simp add: woken_def remove1_idem)
  have pr: "priority (tcb s' u) = priority (tcb s u)" for u by (simp add: s')
  have evs: "filter (\<lambda>x. \<not> (StateItem (item_tcb x) \<in> set ys \<and> expired s c x)) (remove1 (EventItem t) (A L)) =
      filter (\<lambda>x. \<not> (StateItem (item_tcb x) \<in> set (A (BlockedTaskList c)) \<and> expired s c x)) (A L)"
    if "event_list L"
  proof -
    have e: "x = EventItem (item_tcb x)" if "x \<in> set (A L)" for x
      using typed_event_list [OF D(2) that] \<open>event_list L\<close> by auto
    have "remove1 (EventItem t) (A L) = filter (\<lambda>x. EventItem t \<noteq> x) (A L)"
      using distinct_remove1_removeAll [OF wfl_distinct [OF D(1)]] by (simp add: removeAll_filter_not_eq)
    then show ?thesis
      using e ex by (auto simp: AB expired_def waketime_def intro!: filter_cong)
  qed
  show "after_tick s' c (woken s t A) L = after_tick s c A L"
  proof (cases L)
    case (ReadyList d p)
    then show ?thesis
      using W [of L] ex AB no_ev(2) [of d p] cc
      by (auto simp: B pr remove1_idem ready_list_of_def expired_woken [OF s'])
  next
    case (BlockedTaskList d)
    then show ?thesis
      using W [of L] ex AB no_ev(1) [of d] by (cases "d = c") (auto simp: B remove1_idem expired_woken [OF s'])
  qed (use evs W [of L] in \<open>auto simp: B expired_woken [OF s']\<close>)
qed

lemma tick_wake_loop_sinv:
  assumes "sinv X s A"
  shows "\<exists>s'. tick_wake_loop c s = Some s' \<and> sinv X s' (after_tick s c A) \<and>
     p_task_control_block s' = p_task_control_block s \<and> tick_count s' = tick_count s \<and>
     (\<forall>u. tcb s' u = (if StateItem u \<in> set (A (BlockedTaskList c)) \<and> expired s c (StateItem u)
                      then (tcb s u)\<lparr>current_state := TASK_STATE_READY\<rparr> else tcb s u))"
  using assms
proof (induction "A (BlockedTaskList c)" arbitrary: s A)
  case Nil
  have "after_tick s c A = A"
  proof
    fix L show "after_tick s c A L = A L"
      by (cases L) (use Nil(1) [symmetric] in \<open>auto simp: expired_def intro: filter_True\<close>)
  qed
  with Nil show ?case
    by (subst tick_wake_loop.simps) (simp add: wfl_head [OF sinvD(1)] Nil(1) [symmetric])
next
  case (Cons h ys)
  note D = sinvD [OF Cons.prems]
  have AB: "A (BlockedTaskList c) = h # ys" using Cons(2) by simp
  obtain t where t: "h = StateItem t" using typed_blocked [OF D(2), of h c] AB by auto
  have hd: "l_head (list_at s (BlockedTaskList c)) = Some h" by (simp add: wfl_head [OF D(1)] AB)
  have ow: "li_owner (items s h) = t" using wfl_owner [OF D(1), of h "BlockedTaskList c"] by (simp add: AB t)
  show ?case
  proof (cases "expired s c h")
    case True
    have mem: "StateItem t \<in> set (A (BlockedTaskList c))" by (simp add: AB t)
    note W = sinv_tick_wake_one [OF Cons.prems mem]
    have i1: "sinv X (tick_wake_one t s) (woken s t A)" by (rule sinv_mono [OF W(1)]) blast
    have "EventItem t \<notin> set ys" using typed_event_list [OF D(2), of "EventItem t" "BlockedTaskList c"] AB by auto
    then have ys: "ys = woken s t A (BlockedTaskList c)" by (simp add: woken_def AB t remove1_idem)
    have st: "after_tick (tick_wake_one t s) c (woken s t A) = after_tick s c A"
      by (rule after_tick_step [OF Cons.prems AB [unfolded t] True [unfolded t] W(2,4)])
    have eq: "tick_wake_loop c s = tick_wake_loop c (tick_wake_one t s)"
      using True by (subst tick_wake_loop.simps) (simp add: hd ow [unfolded t] expired_def waketime_def t)
    have "distinct (h # ys)" using wfl_distinct [OF D(1), of "BlockedTaskList c"] AB by simp
    with Cons.hyps(1) [OF ys i1] True show ?thesis
      unfolding eq st by (auto simp: W AB t ys [symmetric] expired_woken [OF W(2,4)])
  next
    case False
    have none: "\<not> expired s c x" if "x \<in> set (A (BlockedTaskList c))" for x
      using that False sinv_delay_sorted [OF Cons.prems, of c] by (auto simp: AB expired_def)
    have "after_tick s c A = A"
    proof
      fix L show "after_tick s c A L = A L"
        by (cases L) (use none in \<open>fastforce simp: expired_def waketime_def intro!: filter_True filter_False\<close>)+
    qed
    then show ?thesis using False Cons.prems none
      by (subst tick_wake_loop.simps) (fastforce simp: hd ow [unfolded t] expired_def waketime_def t)
  qed
qed

subsection \<open>The context switch\<close>

lemma pick_ready_Some:
  assumes "wfl s A"
  shows "pick_ready c n s = Some i \<longleftrightarrow> i < n \<and> A (ReadyList c i) \<noteq> [] \<and> (\<forall>j. i < j \<and> j < n \<longrightarrow> A (ReadyList c j) = [])"
proof (induction n)
  case (Suc n)
  have ne: "0 < l_num_items (list_at s (ReadyList c n)) \<longleftrightarrow> A (ReadyList c n) \<noteq> []"
    using wfl_num_items_0 [OF assms, of "ReadyList c n"] by (simp add: word_neq_0_conv [symmetric])
  from Suc show ?case by (auto simp: ne less_Suc_eq)
qed simp

lemma pick_ready_None: "wfl s A \<Longrightarrow> pick_ready c n s = None \<longleftrightarrow> (\<forall>i<n. A (ReadyList c i) = [])"
proof (induction n)
  case (Suc n)
  have ne: "0 < l_num_items (list_at s (ReadyList c n)) \<longleftrightarrow> A (ReadyList c n) \<noteq> []"
    using wfl_num_items_0 [OF Suc.prems, of "ReadyList c n"] by (simp add: word_neq_0_conv [symmetric])
  from Suc show ?case by (auto simp: ne less_Suc_eq)
qed simp

text \<open>The element after \<open>x\<close>, cyclically.\<close>

definition cyc_next :: "iptr \<Rightarrow> iptr list \<Rightarrow> iptr option" where
  "cyc_next x xs = (case dropWhile (\<lambda>y. y \<noteq> x) xs of _ # n # _ \<Rightarrow> Some n | _ \<Rightarrow> if xs = [] then None else Some (hd xs))"

lemma cyc_next_split: "x \<notin> set as \<Longrightarrow> cyc_next x (as @ x # bs) = Some (hd (bs @ as @ [x]))"
  by (cases bs; cases as) (auto simp: cyc_next_def dropWhile_append)

lemma cyc_next_mem:
  assumes "x \<in> set xs" shows "\<exists>y\<in>set xs. cyc_next x xs = Some y"
proof -
  obtain as bs where xs: "xs = as @ x # bs" "x \<notin> set as" using assms by (meson split_list_first)
  then have "hd (bs @ as @ [x]) \<in> set xs" using hd_in_set [of "bs @ as @ [x]"] by auto
  then show ?thesis using xs cyc_next_split by blast
qed

lemma retire_index:
  assumes w: "wfl s A" and x: "x \<in> set (A L)"
  shows "(case li_next (items s x) of Some n \<Rightarrow> Some n | None \<Rightarrow> l_head (list_at s L)) = cyc_next x (A L)"
proof -
  obtain as bs where AL: "A L = as @ x # bs" using x by (auto simp: in_set_conv_decomp)
  then have "x \<notin> set as" using wfl_distinct [OF w, of L] by auto
  then have "cyc_next x (A L) = Some (hd (bs @ as @ [x]))" by (simp add: AL cyc_next_split)
  then show ?thesis
    using wfl_next [OF w AL] wfl_head [OF w, of L] AL by (cases bs; cases as) simp_all
qed

definition idx_after :: "kernel \<Rightarrow> (lptr \<Rightarrow> iptr list) \<Rightarrow> core \<Rightarrow> lptr \<Rightarrow> iptr option" where
  "idx_after s A c L =
     (case p_task_control_block s c of
        Some t \<Rightarrow> if current_state (tcb s t) = TASK_STATE_RUNNING \<and> L = ReadyList c (priority (tcb s t))
                  then Option.bind (l_index (list_at s L)) (\<lambda>x. cyc_next x (A L))
                  else l_index (list_at s L)
      | None \<Rightarrow> l_index (list_at s L))"

definition retired :: "core \<Rightarrow> kernel \<Rightarrow> kernel" where
  "retired c s = (case p_task_control_block s c of None \<Rightarrow> s | Some t \<Rightarrow> retire_current c t s)"

lemma idx_after_mem:
  assumes ix: "index_ok s A"
  shows "case idx_after s A c (ReadyList d p) of None \<Rightarrow> A (ReadyList d p) = [] | Some x \<Rightarrow> x \<in> set (A (ReadyList d p))"
  using index_okD [OF ix, of d p] cyc_next_mem [of _ "A (ReadyList d p)"]
  by (fastforce simp: idx_after_def split: option.splits if_splits)

lemma retired_frame:
  assumes i: "sinv X s A"
  shows "\<And>L. l_index (list_at (retired c s) L) = idx_after s A c L"
    and "\<And>L. l_head (list_at (retired c s) L) = l_head (list_at s L)"
    and "\<And>L. l_list_end (list_at (retired c s) L) = l_list_end (list_at s L)"
    and "\<And>L. l_num_items (list_at (retired c s) L) = l_num_items (list_at s L)"
    and "p_task_control_block (retired c s) = p_task_control_block s" and "items (retired c s) = items s"
    and "stack_mem (retired c s) = stack_mem s" and "tick_count (retired c s) = tick_count s"
    and "\<And>u. tcb (retired c s) u = (if p_task_control_block s c = Some u \<and> current_state (tcb s u) = TASK_STATE_RUNNING
          then (tcb s u)\<lparr>current_state := TASK_STATE_READY\<rparr> else tcb s u)"
proof -
  note D = sinvD [OF i]
  have "p_task_control_block s c = Some t \<Longrightarrow> priority (tcb s t) < NUM_TASK_PRIORITIES" for t
    using tcbs_okD(3) [OF D(5)] tcbs_ok_cur [OF D(5)] by blast
  note * = retired_def retire_current_def Let_def this
  show "l_index (list_at (retired c s) L) = idx_after s A c L" for L
    using retire_index [OF D(1)] index_okD [OF D(4)]
    by (fastforce simp: * idx_after_def split: option.splits)
  show "l_head (list_at (retired c s) L) = l_head (list_at s L)"
    "l_list_end (list_at (retired c s) L) = l_list_end (list_at s L)"
    "l_num_items (list_at (retired c s) L) = l_num_items (list_at s L)" for L
    by (auto simp: * split: option.splits)
  show "p_task_control_block (retired c s) = p_task_control_block s" "items (retired c s) = items s"
    "stack_mem (retired c s) = stack_mem s" "tick_count (retired c s) = tick_count s"
    by (auto simp: * split: option.splits)
  show "tcb (retired c s) u = (if p_task_control_block s c = Some u \<and> current_state (tcb s u) = TASK_STATE_RUNNING
          then (tcb s u)\<lparr>current_state := TASK_STATE_READY\<rparr> else tcb s u)" for u
    by (auto simp: * split: option.splits)
qed

lemma sinv_retired [wf_intros]:
  assumes i: "sinv {} s A"
  shows "sinv {} (retired c s) A"
proof (rule sinvI)
  note D = sinvD [OF i] and F = retired_frame [OF i, of c]
  show "wfl (retired c s) A" by (rule wfl_index_cong [OF D(1)]) (simp_all add: F)
  show "typed (retired c s) A" by (rule typed_upd [OF D(2)]) (auto simp: F created_def)
  show "delay_sorted (retired c s) A" by (rule delay_sorted_upd [OF D(3)]) (auto simp: F waketime_def)
  show "index_ok (retired c s) A" using idx_after_mem [OF D(4)] by (auto simp: index_ok_def F)
  show "tcbs_ok (retired c s)" by (rule tcbs_ok_same [OF D(5)]) (auto simp: F)
  show "all_synced {} (retired c s)"
    unfolding all_synced_def
  proof (intro allI impI)
    fix u assume "created (retired c s) u \<and> u \<notin> {}"
    then have "synced s u" using D(6) by (simp add: all_synced_def created_def F split: if_splits)
    then show "synced (retired c s) u"
      by (auto simp: synced_def F ready_list_of_def split: TaskState.splits)
  qed
qed

definition not_running :: "core \<Rightarrow> kernel \<Rightarrow> bool" where
  "not_running c s \<longleftrightarrow> (\<forall>u. created s u \<and> tcb_core u = c \<longrightarrow> current_state (tcb s u) \<noteq> TASK_STATE_RUNNING)"

lemma retired_not_running:
  assumes i: "sinv {} s A" shows "not_running c (retired c s)"
  unfolding not_running_def
proof (intro allI impI)
  fix u assume u: "created (retired c s) u \<and> tcb_core u = c"
  note D = sinvD [OF i] and F = retired_frame [OF i, of c]
  from u have cr: "created s u" by (simp add: created_def F split: if_splits)
  with D(6) have "synced s u" by (simp add: all_synced_def)
  with u tcbs_okD(2) [OF D(5) cr] show "current_state (tcb (retired c s) u) \<noteq> TASK_STATE_RUNNING"
    by (auto simp: synced_def F split: TaskState.splits)
qed

definition dispatch :: "core \<Rightarrow> tptr option \<Rightarrow> kernel \<Rightarrow> kernel" where
  "dispatch c r s =
     (let s1 = (case r of None \<Rightarrow> s | Some t \<Rightarrow> upd_tcb t (\<lambda>b. b\<lparr>current_state := TASK_STATE_RUNNING\<rparr>) s)
      in s1\<lparr>p_task_control_block := (p_task_control_block s1)(c := r)\<rparr>)"

lemma frame_dispatch [simp]:
  "list_at (dispatch c r s) = list_at s" "items (dispatch c r s) = items s"
  "stack_mem (dispatch c r s) = stack_mem s" "tick_count (dispatch c r s) = tick_count s"
  "p_task_control_block (dispatch c r s) = (p_task_control_block s)(c := r)"
  "tcb (dispatch c r s) u = (if r = Some u then (tcb s u)\<lparr>current_state := TASK_STATE_RUNNING\<rparr> else tcb s u)"
  by (auto simp: dispatch_def Let_def split: option.splits)

lemma sinv_dispatch [wf_intros]:
  assumes i: "sinv {} s A" and nr: "not_running c s"
    and r: "\<And>t. r = Some t \<Longrightarrow> \<exists>p. StateItem t \<in> set (A (ReadyList c p))"
  shows "sinv {} (dispatch c r s) A"
proof (rule sinvI)
  note D = sinvD [OF i]
  have rt: "created s t \<and> tcb_core t = c" if "r = Some t" for t
    using r [OF that] typed_ready [OF D(2)] tcbs_okD(2) [OF D(5), of t] by fastforce
  show "wfl (dispatch c r s) A" by (rule wfl_cong [OF D(1)]) simp_all
  show "typed (dispatch c r s) A" by (rule typed_upd [OF D(2)]) (auto simp: created_def)
  show "delay_sorted (dispatch c r s) A" by (rule delay_sorted_upd [OF D(3)]) (auto simp: waketime_def)
  show "index_ok (dispatch c r s) A" by (rule index_ok_upd [OF D(4)]) auto
  show "tcbs_ok (dispatch c r s)"
    using D(5) rt by (auto simp: tcbs_ok_def created_def)
  show "all_synced {} (dispatch c r s)"
    unfolding all_synced_def
  proof (intro allI impI)
    fix u assume "created (dispatch c r s) u \<and> u \<notin> {}"
    then have cr: "created s u" by (simp add: created_def split: if_splits)
    then have sy: "synced s u" using D(6) by (simp add: all_synced_def)
    have nr': "tcb_core u = c \<Longrightarrow> current_state (tcb s u) \<noteq> TASK_STATE_RUNNING"
      using nr cr by (simp add: not_running_def)
    have inr: "li_container (items s (StateItem u)) = Some (ReadyList c (priority (tcb s u)))" if "r = Some u"
      using r [OF that] typed_ready [OF D(2)] by (fastforce simp: wfl_container [OF D(1), symmetric])
    show "synced (dispatch c r s) u"
      using sy nr' inr rt [of u] tcbs_okD(2) [OF D(5) cr]
      by (auto simp: synced_def ready_list_of_def split: TaskState.splits)
  qed
qed

lemma switch_context_eq:
  "scheduler_switch_context c s =
     (if (case p_task_control_block s c of None \<Rightarrow> False | Some t \<Rightarrow> stack_overflowed t s) then None
      else case pick_ready c NUM_TASK_PRIORITIES (retired c s) of
             None \<Rightarrow> Some (dispatch c None (retired c s))
           | Some i \<Rightarrow> map_option (\<lambda>x. dispatch c (Some (li_owner (items (retired c s) x))) (retired c s))
                         (l_index (list_at (retired c s) (ReadyList c i))))"
  by (auto simp: scheduler_switch_context_def retired_def dispatch_def Let_def map_conv_bind_option comp_def
      split: option.splits)

text \<open>The switch, for a core whose outgoing task has not overrun its stack: it never faults, and the
  task that runs next is the one at the (advanced) index of the highest non-empty ready list.\<close>

definition watermark_ok :: "core \<Rightarrow> kernel \<Rightarrow> bool" where
  "watermark_ok c s \<longleftrightarrow> (case p_task_control_block s c of None \<Rightarrow> True | Some t \<Rightarrow> \<not> stack_overflowed t s)"

definition top_ready :: "(lptr \<Rightarrow> iptr list) \<Rightarrow> core \<Rightarrow> TaskPriorityLevel \<Rightarrow> bool" where
  "top_ready A c p \<longleftrightarrow> p < NUM_TASK_PRIORITIES \<and> A (ReadyList c p) \<noteq> [] \<and>
     (\<forall>q. p < q \<and> q < NUM_TASK_PRIORITIES \<longrightarrow> A (ReadyList c q) = [])"

lemma top_ready_unique: "top_ready A c p \<Longrightarrow> top_ready A c q \<Longrightarrow> p = q"
  unfolding top_ready_def by (metis linorder_neqE_nat)

lemma switch_context_sinv:
  assumes i: "sinv {} s A" and ok: "watermark_ok c s"
  obtains s' where "scheduler_switch_context c s = Some s'" and "sinv {} s' A"
    and "\<And>L. l_index (list_at s' L) = idx_after s A c L"
    and "\<And>d. d \<noteq> c \<Longrightarrow> p_task_control_block s' d = p_task_control_block s d"
    and "stack_mem s' = stack_mem s" and "tick_count s' = tick_count s"
    and "\<And>u. tcb s' u = (tcb s u)\<lparr>current_state := current_state (tcb s' u)\<rparr>"
    and "if \<forall>p<NUM_TASK_PRIORITIES. A (ReadyList c p) = [] then p_task_control_block s' c = None
         else \<exists>p t. top_ready A c p \<and>
                idx_after s A c (ReadyList c p) = Some (StateItem t) \<and> p_task_control_block s' c = Some t \<and>
                current_state (tcb s' t) = TASK_STATE_RUNNING"
proof -
  let ?s = "retired c s"
  have i1: "sinv {} ?s A" by (rule sinv_retired [OF i])
  note D = sinvD [OF i1] and F = retired_frame [OF i, of c]
  have nr: "not_running c ?s" by (rule retired_not_running [OF i])
  have sw: "scheduler_switch_context c s = (case pick_ready c NUM_TASK_PRIORITIES ?s of
             None \<Rightarrow> Some (dispatch c None ?s)
           | Some i \<Rightarrow> map_option (\<lambda>x. dispatch c (Some (li_owner (items ?s x))) ?s) (l_index (list_at ?s (ReadyList c i))))"
    using ok by (simp add: switch_context_eq watermark_ok_def split: option.splits)
  have st: "tcb (dispatch c r ?s) u = (tcb s u)\<lparr>current_state := current_state (tcb (dispatch c r ?s) u)\<rparr>" for r u
    by (auto simp: F)
  show ?thesis
  proof (cases "pick_ready c NUM_TASK_PRIORITIES ?s")
    case None
    then have "\<forall>p<NUM_TASK_PRIORITIES. A (ReadyList c p) = []" by (simp add: pick_ready_None [OF D(1)])
    then show ?thesis
      by (intro that [of "dispatch c None ?s"]) (use st in \<open>auto simp: sw None F intro: sinv_dispatch [OF i1 nr]\<close>)
  next
    case (Some p)
    then have top: "top_ready A c p" by (simp add: pick_ready_Some [OF D(1)] top_ready_def)
    then have p: "p < NUM_TASK_PRIORITIES" "A (ReadyList c p) \<noteq> []" by (simp_all add: top_ready_def)
    obtain x where x: "l_index (list_at ?s (ReadyList c p)) = Some x" "x \<in> set (A (ReadyList c p))"
      using index_okD [OF D(4), of c p] p(2) by (auto split: option.splits)
    obtain t where t: "x = StateItem t" using typed_ready [OF D(2) x(2)] by blast
    have ow: "li_owner (items ?s x) = t" using wfl_owner [OF D(1) x(2)] t by simp
    have sw': "scheduler_switch_context c s = Some (dispatch c (Some t) ?s)" by (simp add: sw Some x ow)
    have "sinv {} (dispatch c (Some t) ?s) A" by (rule sinv_dispatch [OF i1 nr]) (use x t in auto)
    moreover have "idx_after s A c (ReadyList c p) = Some (StateItem t)" using x t F(1) by simp
    ultimately show ?thesis
      using p top by (intro that [of "dispatch c (Some t) ?s"]) (use st in \<open>auto simp: sw' F\<close>)
  qed
qed


subsection \<open>Changing a priority\<close>

lemma add_ready_container:
  assumes "priority (tcb s t) < NUM_TASK_PRIORITIES" and "core_id (tcb s t) < COMPANION_CORE_MAX_CORES"
  shows "li_container (items (snd (scheduler_add_to_ready_list (Some t) s)) y) =
    (if y = StateItem t then Some (ready_list_of s t) else li_container (items s y))"
  by (simp add: add_to_ready_eq [OF assms])

lemma sinv_upd_priority:
  assumes i: "sinv X s A" and off: "\<And>c p. StateItem t \<notin> set (A (ReadyList c p))"
    and p: "p < NUM_TASK_PRIORITIES"
  shows "sinv (insert t X) (upd_tcb t (\<lambda>b. b\<lparr>priority := p\<rparr>) s) A" (is "sinv _ ?s A")
proof (rule sinvI)
  note D = sinvD [OF i]
  show "wfl ?s A" by (rule wfl_upd_tcb [OF D(1)])
  show "typed ?s A"
    unfolding typed_def
  proof (intro allI ballI)
    fix L x assume x: "x \<in> set (A L)"
    with typedD [OF D(2) x] off show "fits ?s L x \<and> created ?s (item_tcb x)"
      by (cases L; cases x) (auto simp: created_def)
  qed
  show "delay_sorted ?s A" by (rule delay_sorted_upd [OF D(3)]) (auto simp: waketime_def)
  show "index_ok ?s A" by (rule index_ok_upd [OF D(4)]) auto
  show "tcbs_ok ?s" by (rule tcbs_ok_upd [OF D(5)]) (use p tcbs_okD(3) [OF D(5)] in \<open>auto simp: created_def\<close>)
  show "all_synced (insert t X) ?s"
    using D(6) synced_cong [of ?s _ s] by (auto simp: all_synced_def created_def)
qed

text \<open>Where the tasks are after \<open>scheduler_change_task_priority\<close>.\<close>

definition reprioritised :: "kernel \<Rightarrow> tptr \<Rightarrow> TaskPriorityLevel \<Rightarrow> (lptr \<Rightarrow> iptr list) \<Rightarrow> lptr \<Rightarrow> iptr list" where
  "reprioritised s t p A =
     (if current_state (tcb s t) \<in> {TASK_STATE_READY, TASK_STATE_RUNNING}
      then (\<lambda>L. remove1 (StateItem t) (A L) @ (if L = ReadyList (core_id (tcb s t)) p then [StateItem t] else []))
      else A)"

lemma change_priority_sinv:
  assumes i: "sinv X s A" and cr: "created s t" and sy: "synced s t" and p: "p < NUM_TASK_PRIORITIES"
  shows "sinv (X - {t}) (scheduler_change_task_priority t p s) (reprioritised s t p A)"
    and "tcb (scheduler_change_task_priority t p s) = (tcb s)(t := (tcb s t)\<lparr>priority := p\<rparr>)"
    and "p_task_control_block (scheduler_change_task_priority t p s) = p_task_control_block s"
    and "mutexes (scheduler_change_task_priority t p s) = mutexes s"
    and "semaphores (scheduler_change_task_priority t p s) = semaphores s"
    and "queues (scheduler_change_task_priority t p s) = queues s"
    and "stack_mem (scheduler_change_task_priority t p s) = stack_mem s"
    and "tick_count (scheduler_change_task_priority t p s) = tick_count s"
    and "\<And>u. li_container (items (scheduler_change_task_priority t p s) (EventItem u)) = li_container (items s (EventItem u))"
    and "\<And>u. u \<noteq> t \<Longrightarrow>
      li_container (items (scheduler_change_task_priority t p s) (StateItem u)) = li_container (items s (StateItem u))"
proof -
  note D = sinvD [OF i] and T = tcbs_okD [OF sinvD(5) [OF i] cr]
  let ?s' = "scheduler_change_task_priority t p s"
  let ?pr = "\<lambda>b. b\<lparr>priority := p\<rparr>" and ?cs = "\<lambda>b. b\<lparr>current_state := current_state (tcb s t)\<rparr>"
  let ?P = "current_state (tcb s t) \<in> {TASK_STATE_READY, TASK_STATE_RUNNING}"
  let ?R = "ready_list_of s t"
  have r: "priority (tcb (upd_tcb t ?pr (unlink_ready ?R (StateItem t) s)) t) < NUM_TASK_PRIORITIES"
    "core_id (tcb (upd_tcb t ?pr (unlink_ready ?R (StateItem t) s)) t) < COMPANION_CORE_MAX_CORES"
    using p T by auto
  note add = add_ready_container [OF r] add_ready_tcb [OF r]
  have blocked: "sinv (X - {t}) ?s' (reprioritised s t p A) \<and> ?s' = upd_tcb t ?pr s" if nP: "\<not> ?P"
  proof -
    have eq: "?s' = upd_tcb t ?pr s" using nP by (simp add: scheduler_change_task_priority_def Let_def)
    have off: "StateItem t \<notin> set (A (ReadyList c q))" for c q
      using sy nP by (auto simp: synced_def wfl_container [OF D(1)] split: TaskState.splits)
    have "sinv (insert t X) (upd_tcb t ?pr s) A" by (rule sinv_upd_priority [OF i off p])
    moreover have "synced (upd_tcb t ?pr s) t" using sy nP by (auto simp: synced_def split: TaskState.splits)
    ultimately have "sinv (X - {t}) (upd_tcb t ?pr s) A"
      by (auto simp: sinv_def all_synced_def)
    with nP show ?thesis by (simp add: eq reprioritised_def)
  qed
  have ready: "sinv (X - {t}) ?s' (reprioritised s t p A) \<and>
      ?s' = upd_tcb t ?cs (snd (scheduler_add_to_ready_list (Some t) (upd_tcb t ?pr (unlink_ready ?R (StateItem t) s))))" if P: ?P
  proof -
    let ?s1 = "unlink_ready ?R (StateItem t) s" and ?A1 = "\<lambda>L. remove1 (StateItem t) (A L)"
    let ?s2 = "upd_tcb t ?pr ?s1"
    have c: "li_container (items s (StateItem t)) = Some ?R" "li_container (items s (EventItem t)) = None"
      using sy P by (auto simp: synced_def)
    have eq: "?s' = upd_tcb t ?cs (snd (scheduler_add_to_ready_list (Some t) ?s2))"
      using P by (auto simp: scheduler_change_task_priority_def Let_def c unlink_ready_def)
    have "sinv (insert t X) ?s1 ?A1"
      using remove_from_ready_sinv(2) [OF i cr c(1)] unfolding remove1_fun [OF D(1) c(1)] .
    then have i1: "sinv (insert t (insert t X)) ?s2 ?A1"
      by (rule sinv_upd_priority [OF _ _ p]) (simp add: wfl_distinct [OF D(1)])
    have R2: "ready_list_of ?s2 t = ReadyList (core_id (tcb s t)) p" by (simp add: ready_list_of_def)
    note A2 = sinv_add_ready [OF i1, of t]
    have i2: "sinv (insert t X - {t}) (snd (scheduler_add_to_ready_list (Some t) ?s2)) (reprioritised s t p A)"
      using A2(2) cr c P
      by (simp add: created_def R2 reprioritised_def fun_upd_def if_distrib cong: if_cong)
    have "sinv (insert t X - {t} - {t}) ?s' (reprioritised s t p A)"
      unfolding eq
    proof (rule sinv_upd_state [OF i2])
      show "synced (upd_tcb t ?cs (snd (scheduler_add_to_ready_list (Some t) ?s2))) t"
        using P sy c by (auto simp: synced_def ready_list_of_def add [unfolded ready_list_of_def])
    qed simp
    with eq show ?thesis by simp
  qed
  from blocked ready show "sinv (X - {t}) ?s' (reprioritised s t p A)" by blast
  show "tcb ?s' = (tcb s)(t := (tcb s t)\<lparr>priority := p\<rparr>)"
    using blocked ready by (cases ?P) (auto simp: add)
  show "p_task_control_block ?s' = p_task_control_block s" "mutexes ?s' = mutexes s" "semaphores ?s' = semaphores s"
    "queues ?s' = queues s" "stack_mem ?s' = stack_mem s" "tick_count ?s' = tick_count s"
    using blocked ready by (cases ?P; simp)+
  show "li_container (items ?s' (EventItem u)) = li_container (items s (EventItem u))" for u
    using blocked ready by (cases ?P) (auto simp: add)
  show "u \<noteq> t \<Longrightarrow> li_container (items ?s' (StateItem u)) = li_container (items s (StateItem u))" for u
    using blocked ready by (cases ?P) (auto simp: add)
qed


subsection \<open>New tasks and initialisation\<close>

lemma wfl_fresh_items:
  assumes w: "wfl s A" and i: "\<And>x. x \<in> Y \<Longrightarrow> li_container (items s x) = None \<and> li_container (items s' x) = None"
    and f: "\<And>x. x \<notin> Y \<Longrightarrow> items s' x = items s x"
    and l: "\<And>L. l_head (list_at s' L) = l_head (list_at s L)" "\<And>L. l_list_end (list_at s' L) = l_list_end (list_at s L)"
    "\<And>L. l_num_items (list_at s' L) = l_num_items (list_at s L)"
  shows "wfl s' A"
proof (rule wflI)
  fix L
  have mem: "x \<in> set (A L) \<Longrightarrow> items s' x = items s x" for x
    using i [of x] f [of x] by (auto simp: wfl_container [OF w])
  have "lseg (items s') p h (A L) e n = lseg (items s) p h (A L) e n" for p h e n
    by (rule lseg_cong) (simp add: mem)
  then show "dll s' L (A L)"
    using wfl_dll [OF w, of L] mem by (auto simp: dll_def l)
next
  fix L x assume "li_container (items s' x) = Some L"
  then show "x \<in> set (A L)" using i [of x] f [of x] wfl_cont [OF w, of x L] by (cases "x \<in> Y") auto
qed

lemma uncreated_free:
  assumes i: "sinv X s A" and "\<not> created s t"
  shows "li_container (items s (StateItem t)) = None" "li_container (items s (EventItem t)) = None"
proof -
  have "li_container (items s x) = None" if "item_tcb x = t" for x
  proof (rule ccontr)
    assume "li_container (items s x) \<noteq> None"
    then obtain L where "x \<in> set (A L)" using wfl_cont [OF sinvD(1) [OF i]] by auto
    then show False using typedD [OF sinvD(2) [OF i]] assms(2) that by auto
  qed
  then show "li_container (items s (StateItem t)) = None" "li_container (items s (EventItem t)) = None" by simp_all
qed

text \<open>A task control block that was not in use is filled in: the invariant holds again, with the new task
  still to be put on its ready list.\<close>

lemma sinv_new_tcb:
  assumes i: "sinv X s A" and new: "\<not> created s t"
    and tcb': "tcb s' = (tcb s)(t := b)" and p: "p_task_control_block s' = p_task_control_block s"
    and l: "\<And>L. l_head (list_at s' L) = l_head (list_at s L)" "\<And>L. l_list_end (list_at s' L) = l_list_end (list_at s L)"
    "\<And>L. l_num_items (list_at s' L) = l_num_items (list_at s L)"
    and ix: "\<And>c p. l_index (list_at s' (ReadyList c p)) = l_index (list_at s (ReadyList c p)) \<or>
        A (ReadyList c p) = [] \<and> l_index (list_at s' (ReadyList c p)) = None"
    and it: "\<And>x. item_tcb x \<noteq> t \<Longrightarrow> items s' x = items s x" "\<And>x. item_tcb x = t \<Longrightarrow> li_container (items s' x) = None"
    and b: "stack_base b \<noteq> None" "valid_tcb t" "core_id b = tcb_core t" "priority b < NUM_TASK_PRIORITIES"
      "base_priority b < NUM_TASK_PRIORITIES"
  shows "sinv (insert t X) s' A"
proof (rule sinvI)
  note D = sinvD [OF i]
  have cr: "created s' u \<longleftrightarrow> u = t \<or> created s u" for u using b(1) new by (auto simp: created_def tcb')
  have off: "item_tcb x \<noteq> t" if "x \<in> set (A L)" for x L using typedD [OF D(2) that] new by auto
  show "wfl s' A"
    by (rule wfl_fresh_items [OF D(1), of "{StateItem t, EventItem t}"])
      (use it l uncreated_free [OF i new] in \<open>auto elim: item_tcb.elims\<close>)
  show "typed s' A"
    unfolding typed_def
  proof (intro allI ballI)
    fix L x assume x: "x \<in> set (A L)"
    with off fits_cong [of s' x s L] typedD [OF D(2) x] cr show "fits s' L x \<and> created s' (item_tcb x)" by (auto simp: tcb')
  qed
  show "delay_sorted s' A" by (rule delay_sorted_upd [OF D(3)]) (use off in \<open>auto simp: waketime_def tcb'\<close>)
  show "index_ok s' A"
    unfolding index_ok_def
  proof (intro allI)
    fix c p show "case l_index (list_at s' (ReadyList c p)) of None \<Rightarrow> A (ReadyList c p) = [] | Some x \<Rightarrow> x \<in> set (A (ReadyList c p))"
      using ix [of c p] index_okD [OF D(4), of c p] by auto
  qed
  show "tcbs_ok s'" using D(5) b cr by (auto simp: tcbs_ok_def tcb' p)
  show "all_synced (insert t X) s'"
    unfolding all_synced_def
  proof (intro allI impI)
    fix u assume u: "created s' u \<and> u \<notin> insert t X"
    then have "synced s u" using D(6) cr by (auto simp: all_synced_def)
    with u show "synced s' u" using synced_cong [of s' u s] it by (auto simp: tcb' p)
  qed
qed

definition idle_core :: "core \<Rightarrow> kernel \<Rightarrow> bool" where
  "idle_core c s \<longleftrightarrow> (\<forall>t. tcb_core t = c \<longrightarrow> \<not> created s t)"

lemma idle_core_lists:
  assumes "sinv X s A" "idle_core c s"
  shows "A (ReadyList c p) = []" "A (BlockedTaskList c) = []"
proof -
  have no: "core_id (tcb s t) \<noteq> c" if "created s t" for t
    using tcbs_okD(2) [OF sinvD(5) [OF assms(1)] that] assms(2) that by (auto simp: idle_core_def)
  show "A (ReadyList c p) = []"
    using typed_ready [OF sinvD(2) [OF assms(1)], of _ c p] no by (cases "A (ReadyList c p)") auto
  show "A (BlockedTaskList c) = []"
    using typed_blocked [OF sinvD(2) [OF assms(1)], of _ c] no by (cases "A (BlockedTaskList c)") auto
qed

text \<open>\<open>scheduler_init\<close> up to the call of \<open>dfu_trigger_task_start\<close>: only the idle task is ready.\<close>

lemma scheduler_init_sinv:
  assumes i: "sinv {} s A" and c: "c < COMPANION_CORE_MAX_CORES" and idle: "idle_core c s"
  obtains s' where "scheduler_init f dfu c (Some clk) h True s = (if c = 0 then dfu s' else Some (E_OK, s'))"
    and "sinv {} s' (A(ReadyList c TASK_PRIORITY_IDLE := [StateItem (IdleTcb c)]))"
    and "\<And>t. created s' t \<longleftrightarrow> created s t \<or> t = IdleTcb c"
    and "hz s' c = h" and "clk_freq s' c = clk" and "tick_count s' c = 0"
    and "stack_mem s' (IdleStack c, 0) = TASK_WATERMARK"
    and "stack_base (tcb s' (IdleTcb c)) = Some (IdleStack c, 0)"
    and "p_task_control_block s' = p_task_control_block s" and "heap_offset s' = heap_offset s"
    and "task_counter s' = task_counter s" and "\<And>u. u \<noteq> IdleTcb c \<Longrightarrow> tcb s' u = tcb s u"
    and "mutexes s' = mutexes s" and "semaphores s' = semaphores s" and "queues s' = queues s"
    and "\<And>d. d \<noteq> c \<Longrightarrow> tick_count s' d = tick_count s d"
    and "\<And>q. fst q \<noteq> IdleStack c \<Longrightarrow> stack_mem s' q = stack_mem s q"
proof -
  let ?t = "IdleTcb c"
  let ?b = "\<lparr>current_sp = (IdleStack c, int IDLE_STACK_DEPTH - 16), stack_high = (IdleStack c, int IDLE_STACK_DEPTH - 1),
                      stack_base = Some (IdleStack c, 0), stack_depth = of_nat IDLE_STACK_DEPTH, task_id = 0xFFFF,
                      core_id = c, current_state = TASK_STATE_READY, priority = TASK_PRIORITY_IDLE,
                      wakeup_time = 0, wakeup_reason = WAKEUP_REASON_NONE,
                      base_priority = TASK_PRIORITY_IDLE, mutexes_held = 0\<rparr>"
  let ?it = "\<lparr>li_next = None, li_prev = None, li_owner = ?t, li_container = None\<rparr>"
  define s5 where "s5 = s\<lparr>clk_freq := (clk_freq s)(c := clk), hz := (hz s)(c := h), tick_count := (tick_count s)(c := 0),
     list_at := (\<lambda>L. if is_sched_list c L then empty_list else list_at s L),
     stack_mem := write_down (IdleStack c, int IDLE_STACK_DEPTH - 1) ([0x00000013, f, 0] @ replicate 12 0 @ [0])
        (fill_words (IdleStack c, 0) IDLE_STACK_DEPTH TASK_WATERMARK (stack_mem s)),
     tcb := (tcb s)(?t := ?b), items := (items s)(StateItem ?t := ?it, EventItem ?t := ?it)\<rparr>"
  let ?s6 = "snd (scheduler_add_to_ready_list (Some ?t) s5)"
  have init: "scheduler_init f dfu c (Some clk) h True s = (if c = 0 then dfu ?s6 else Some (E_OK, ?s6))"
    using c by (simp add: scheduler_init_def Let_def s5_def)
  have new: "\<not> created s ?t" using idle by (simp add: idle_core_def)
  have emp: "A L = []" if "is_sched_list c L" for L
    using that idle_core_lists [OF i idle] by (cases L) auto
  note w = sinvD(1) [OF i]
  have l: "l_head (list_at s5 L) = l_head (list_at s L)" "l_list_end (list_at s5 L) = l_list_end (list_at s L)"
    "l_num_items (list_at s5 L) = l_num_items (list_at s L)" for L
    using emp [of L] by (auto simp: s5_def empty_list_def wfl_head [OF w] wfl_list_end [OF w] wfl_num_items [OF w])
  have i5: "sinv (insert ?t {}) s5 A"
  proof (rule sinv_new_tcb [OF i new _ _ l])
    show "tcb s5 = (tcb s)(?t := ?b)" by (simp add: s5_def)
    show "l_index (list_at s5 (ReadyList d p)) = l_index (list_at s (ReadyList d p)) \<or>
        A (ReadyList d p) = [] \<and> l_index (list_at s5 (ReadyList d p)) = None" for d p
      using emp [of "ReadyList d p"] by (auto simp: s5_def empty_list_def)
    show "item_tcb x = ?t \<Longrightarrow> li_container (items s5 x) = None" for x by (cases x) (auto simp: s5_def)
  qed (use c in \<open>auto simp: s5_def task_consts\<close>)
  have R: "ready_list_of s5 ?t = ReadyList c TASK_PRIORITY_IDLE" by (simp add: ready_list_of_def s5_def)
  have fields: "created s5 ?t" "li_container (items s5 (StateItem ?t)) = None" "li_container (items s5 (EventItem ?t)) = None"
    by (simp_all add: s5_def created_def)
  have "sinv {} ?s6 (A(ReadyList c TASK_PRIORITY_IDLE := [StateItem ?t]))"
    using sinv_add_ready(2) [OF i5 fields] idle_core_lists [OF i idle] by (simp add: R)
  moreover have tcb6: "tcb ?s6 = (tcb s5)(?t := (tcb s5 ?t)\<lparr>current_state := TASK_STATE_READY\<rparr>)"
    by (rule add_ready_tcb) (use c in \<open>auto simp: s5_def task_consts\<close>)
  moreover have "stack_mem ?s6 (IdleStack c, 0) = TASK_WATERMARK"
    by (simp add: s5_def fill_words_def IDLE_STACK_DEPTH_def numeral_eq_Suc)
  moreover have "stack_mem ?s6 q = stack_mem s q" if "fst q \<noteq> IdleStack c" for q
    using that by (auto simp: s5_def fill_words_def numeral_eq_Suc)
  ultimately show ?thesis
    using init by (intro that [of ?s6]) (auto simp: tcb6 s5_def created_def)
qed

text \<open>Fields the invariant does not mention.\<close>

lemma sinv_cong:
  assumes i: "sinv X s A" and eq: "list_at s' = list_at s" "items s' = items s" "tcb s' = tcb s"
    "p_task_control_block s' = p_task_control_block s"
  shows "sinv X s' A"
proof (rule sinvI)
  note D = sinvD [OF i]
  show "wfl s' A" by (rule wfl_cong [OF D(1) eq(1,2)])
  show "typed s' A" by (rule typed_upd [OF D(2)]) (auto simp: eq created_def)
  show "delay_sorted s' A" by (rule delay_sorted_upd [OF D(3)]) (auto simp: eq waketime_def)
  show "index_ok s' A" by (rule index_ok_upd [OF D(4)]) (auto simp: eq)
  show "tcbs_ok s'" by (rule tcbs_ok_same [OF D(5)]) (auto simp: eq)
  show "all_synced X s'" using D(6) synced_cong [of s' _ s] by (auto simp: all_synced_def created_def eq)
qed

lemma after_tick_cong:
  assumes "tcb s' = tcb s" and "tick_count s' c = tick_count s c"
  shows "after_tick s' c A = after_tick s c A"
proof
  fix L show "after_tick s' c A L = after_tick s c A L"
    using assms by (cases L) (simp_all add: expired_def waketime_def)
qed

end
