(* ===== verification/Heap.thy ===== *)
theory Heap
  imports Task_Types
begin

unbundle bit_operations_syntax

text \<open>
  \<^verbatim>\<open>kernel/heap/heap.c\<close>: the bump allocator over the static array \<open>heap\<close>. A block is its byte
  offset in the array. All arithmetic is on \<open>uint32_t\<close>, so the rounding and the bound check can wrap;
  the lemmas below say for which requests they do not, and what happens when they do.
\<close>

definition HEAP_SIZE_BYTES :: u32 where
  "HEAP_SIZE_BYTES = 262144"

definition heap_malloc :: "u32 \<Rightarrow> kernel \<Rightarrow> u32 option \<times> kernel" where
  "heap_malloc size0 s =
     (let size = (size0 + 3) AND NOT 3
      in if heap_offset s + size > HEAP_SIZE_BYTES then (None, s)
         else (Some (heap_offset s), s\<lparr>heap_offset := heap_offset s + size\<rparr>))"

subsection \<open>Rounding\<close>

definition round4 :: "nat \<Rightarrow> nat" where
  "round4 n = (n + 3) div 4 * 4"

lemma round4_bounds: "n \<le> round4 n" "round4 n < n + 4" "4 dvd round4 n"
  unfolding round4_def by presburger+

lemma unat_mask4: "unat (w AND NOT 3 :: u32) = unat w div 4 * 4"
proof -
  have m: "NOT 3 = NOT (mask 2 :: u32)" by (simp add: mask_eq_exp_minus_1)
  have "w AND NOT 3 = push_bit 2 (drop_bit 2 w)"
    unfolding m by (rule bit_eqI) (auto simp: bit_simps not_less simp del: add_2_eq_Suc add_2_eq_Suc')
  moreover have "unat (push_bit 2 (drop_bit 2 w)) = unat w div 4 * 4"
  proof -
    have "unat w div 4 * 4 < 2 ^ 32" using unat_lt2p [of w] by simp
    then show ?thesis
      by (simp add: drop_bit_eq_div push_bit_eq_mult unat_word_ariths unat_div mult.commute)
  qed
  ultimately show ?thesis by simp
qed

lemma unat_round:
  fixes w :: u32
  assumes "unat w < 2 ^ 32 - 3"
  shows "unat ((w + 3) AND NOT 3) = round4 (unat w)"
proof -
  have "unat (w + 3) = unat w + 3" using assms by (simp add: unat_word_ariths)
  then show ?thesis using unat_mask4 [of "w + 3"] by (simp add: round4_def)
qed

subsection \<open>What the allocator guarantees\<close>

definition heap_inv :: "kernel \<Rightarrow> bool" where
  "heap_inv s \<longleftrightarrow> heap_offset s \<le> HEAP_SIZE_BYTES \<and> 4 dvd unat (heap_offset s)"

text \<open>A request is sane when neither the rounding nor the bound check wraps, whatever the offset.\<close>

definition sane :: "u32 \<Rightarrow> bool" where
  "sane n \<longleftrightarrow> unat n \<le> 2 ^ 32 - 4 - unat HEAP_SIZE_BYTES"

lemma heap_malloc_sane:
  assumes inv: "heap_inv s" and sane: "sane n"
  shows "heap_malloc n s =
     (if unat (heap_offset s) + round4 (unat n) \<le> unat HEAP_SIZE_BYTES
      then (Some (heap_offset s), s\<lparr>heap_offset := of_nat (unat (heap_offset s) + round4 (unat n))\<rparr>)
      else (None, s))"
proof -
  let ?m = "(n + 3) AND NOT 3"
  have off: "unat (heap_offset s) \<le> 262144" using inv by (simp add: heap_inv_def HEAP_SIZE_BYTES_def word_le_nat_alt)
  have sz: "unat n \<le> 2 ^ 32 - 4 - 262144" using sane by (simp add: sane_def HEAP_SIZE_BYTES_def)
  then have m: "unat ?m = round4 (unat n)" by (intro unat_round) simp
  have "round4 (unat n) \<le> 2 ^ 32 - 4 - 262144"
    using sz round4_bounds [of "unat n"] by (simp, presburger)
  with off m have sum: "unat (heap_offset s + ?m) = unat (heap_offset s) + round4 (unat n)"
    by (simp add: unat_word_ariths)
  then have "heap_offset s + ?m = of_nat (unat (heap_offset s) + round4 (unat n))"
    unfolding sum [symmetric] by simp
  with sum show ?thesis
    by (simp add: heap_malloc_def Let_def word_less_nat_alt not_less del: of_nat_add)
qed

lemma heap_malloc_inv:
  assumes "heap_inv s" "sane n" shows "heap_inv (snd (heap_malloc n s))"
proof -
  have "4 dvd unat (heap_offset s) + round4 (unat n)"
    using assms(1) round4_bounds(3) by (simp add: heap_inv_def)
  then show ?thesis
    using assms(1) unfolding heap_malloc_sane [OF assms]
    by (auto simp: heap_inv_def HEAP_SIZE_BYTES_def word_le_nat_alt unat_of_nat simp del: of_nat_add)
qed

text \<open>The blocks granted to a sequence of requests.\<close>

fun mallocs :: "u32 list \<Rightarrow> kernel \<Rightarrow> (u32 \<times> u32) list \<times> kernel" where
  "mallocs [] s = ([], s)"
| "mallocs (n # ns) s =
     (case heap_malloc n s of (r, s1) \<Rightarrow>
      case mallocs ns s1 of (bs, s2) \<Rightarrow> ((case r of None \<Rightarrow> bs | Some b \<Rightarrow> (b, n) # bs), s2))"

definition block_end :: "u32 \<times> u32 \<Rightarrow> nat" where
  "block_end b = unat (fst b) + round4 (unat (snd b))"

lemma mallocs_bounds:
  "heap_inv s \<Longrightarrow> \<forall>n\<in>set ns. sane n \<Longrightarrow> b \<in> set (fst (mallocs ns s)) \<Longrightarrow>
     4 dvd unat (fst b) \<and> unat (heap_offset s) \<le> unat (fst b) \<and> block_end b \<le> unat HEAP_SIZE_BYTES"
proof (induction ns arbitrary: s)
  case (Cons n ns)
  let ?r = "heap_malloc n s"
  have sane: "sane n" using Cons.prems by simp
  note M = heap_malloc_sane [OF Cons.prems(1) sane]
  have inv: "heap_inv (snd ?r)" by (rule heap_malloc_inv [OF Cons.prems(1) sane])
  have mono: "unat (heap_offset s) \<le> unat (heap_offset (snd ?r))"
    by (auto simp: M HEAP_SIZE_BYTES_def unat_of_nat simp del: of_nat_add)
  show ?case
  proof (cases "b \<in> set (fst (mallocs ns (snd ?r)))")
    case True
    then show ?thesis using Cons.IH [OF inv] Cons.prems(2) mono by auto
  next
    case False
    with Cons.prems(3) have "fst ?r = Some (fst b) \<and> snd b = n"
      by (auto split: prod.splits option.splits)
    then show ?thesis
      using Cons.prems(1) by (auto simp: M heap_inv_def block_end_def split: if_splits)
  qed
qed simp

lemma mallocs_disjoint:
  "heap_inv s \<Longrightarrow> \<forall>n\<in>set ns. sane n \<Longrightarrow>
     sorted_wrt (\<lambda>b b'. block_end b \<le> unat (fst b')) (fst (mallocs ns s))"
proof (induction ns arbitrary: s)
  case (Cons n ns)
  let ?r = "heap_malloc n s"
  have sane: "sane n" using Cons.prems by simp
  note M = heap_malloc_sane [OF Cons.prems(1) sane]
  have inv: "heap_inv (snd ?r)" by (rule heap_malloc_inv [OF Cons.prems(1) sane])
  have tail: "sorted_wrt (\<lambda>b b'. block_end b \<le> unat (fst b')) (fst (mallocs ns (snd ?r)))"
    using Cons.IH [OF inv] Cons.prems(2) by simp
  have "block_end (b, n) \<le> unat (fst b')" if "fst ?r = Some b" "b' \<in> set (fst (mallocs ns (snd ?r)))" for b b'
  proof -
    have "block_end (b, n) = unat (heap_offset (snd ?r))"
      using that(1) by (auto simp: M block_end_def HEAP_SIZE_BYTES_def unat_of_nat simp del: of_nat_add split: if_splits)
    then show ?thesis using mallocs_bounds [OF inv _ that(2)] Cons.prems(2) by auto
  qed
  with tail show ?case by (auto split: prod.splits option.splits)
qed simp

text \<open>Requests that are not sane: the rounding wraps to zero, and a large request moves the offset
  backwards, so that the next block overlaps earlier ones.\<close>

lemma heap_malloc_wraps:
  "heap_malloc 0xFFFFFFFD s = (if heap_offset s > HEAP_SIZE_BYTES then (None, s) else (Some (heap_offset s), s))"
  "heap_offset s = 8 \<Longrightarrow> heap_malloc 0xFFFFFFFC s = (Some 8, s\<lparr>heap_offset := 4\<rparr>)"
proof -
  have "(0xFFFFFFFD + 3) AND NOT 3 = (0 :: u32)" by simp
  then show "heap_malloc 0xFFFFFFFD s = (if heap_offset s > HEAP_SIZE_BYTES then (None, s) else (Some (heap_offset s), s))"
    by (simp only: heap_malloc_def Let_def) simp
qed (simp add: heap_malloc_def Let_def HEAP_SIZE_BYTES_def)

subsection \<open>The property\<close>

text \<open>Claim C9 (bounds). Whatever sequence of requests is made, each so small that adding it, rounded up, to an offset inside the heap does not wrap
  (\<open>sane\<close>: at most 2^32 - 4 less the heap size), the blocks \<open>heap_malloc\<close> grants are word aligned, lie inside the heap and do not overlap: each starts at or
  after the end of every block granted before it. For larger requests \<open>heap_malloc_wraps\<close> shows that this fails.\<close>

theorem heap_blocks_disjoint:
  assumes "heap_inv s" and "\<forall>n\<in>set ns. sane n"
  shows "sorted_wrt (\<lambda>b b'. block_end b \<le> unat (fst b')) (fst (mallocs ns s)) \<and>
    (\<forall>b\<in>set (fst (mallocs ns s)). 4 dvd unat (fst b) \<and> unat (snd b) \<le> block_end b - unat (fst b) \<and>
       block_end b \<le> unat HEAP_SIZE_BYTES)"
  using mallocs_disjoint [OF assms] mallocs_bounds [OF assms] round4_bounds(1) by (auto simp: block_end_def)

theorem heap_blocks_disjoint_witness:
  "\<exists>s. fst (mallocs [100, 0x80000, 6] s) = [(0, 100), (100, 6)] \<and>
     sorted_wrt (\<lambda>b b'. block_end b \<le> unat (fst b')) (fst (mallocs [100, 0x80000, 6] s))"
proof -
  let ?s = "(undefined :: kernel)\<lparr>heap_offset := 0\<rparr>"
  have "fst (mallocs [100, 0x80000, 6] ?s) = [(0, 100), (100, 6)]"
    by (simp add: heap_malloc_def HEAP_SIZE_BYTES_def Let_def)
  moreover have "sorted_wrt (\<lambda>b b'. block_end b \<le> unat (fst b')) (fst (mallocs [100, 0x80000, 6] ?s))"
    using heap_blocks_disjoint [of ?s "[100, 0x80000, 6]"]
    by (simp add: heap_inv_def sane_def HEAP_SIZE_BYTES_def)
  ultimately show ?thesis by blast
qed

end
