(* ===== verification/Task.thy ===== *)
theory Task
  imports Scheduler_Inv Heap
begin

text \<open>
  \<^verbatim>\<open>kernel/task/task.c\<close>: creating a task. \<open>task_exit_trap\<close>, the task function and its parameter are
  addresses, 32-bit words; the core that \<^verbatim>\<open>companion_core_id()\<close> returns is an argument. Built without
  \<^verbatim>\<open>RTOS_TELEMETRY\<close>, so \<open>name\<close> is unused.
\<close>

definition task_init_stack :: "u32 \<Rightarrow> stackptr \<Rightarrow> u32 \<Rightarrow> u32 \<Rightarrow> (stackptr \<Rightarrow> u32) \<Rightarrow> stackptr \<times> (stackptr \<Rightarrow> u32)" where
  "task_init_stack task_exit_trap top_of_stack task_function task_params m =
     ((fst top_of_stack, snd top_of_stack - 15),
      write_down top_of_stack ([0x00000013, task_function, task_exit_trap] @ replicate 12 0 @ [task_params]) m)"

text \<open>The result is the status, the pointer written to \<open>*p_task_control_block\<close> (\<^const>\<open>None\<close>: not written) and the state.\<close>

definition task_create ::
    "u32 \<Rightarrow> core \<Rightarrow> u32 \<Rightarrow> u16 \<Rightarrow> TaskPriorityLevel \<Rightarrow> u32 \<Rightarrow> kernel \<Rightarrow> StatusCode \<times> tptr option \<times> kernel" where
  "task_create task_exit_trap c task_function depth prio task_params s =
     (if unat (task_counter s c) = MAX_NUM_TASKS then (E_RESOURCE_EXHAUSTED, None, s)
      else
        let prio' = (if NUM_TASK_PRIORITIES \<le> prio then NUM_TASK_PRIORITIES - 1 else prio);
            t = TcbPool c (unat (task_counter s c))
        in case heap_malloc (4 * ucast depth) s of
             (None, s1) \<Rightarrow>
               (E_OUT_OF_MEM, Some t,
                (upd_tcb t (\<lambda>b. b\<lparr>stack_base := None\<rparr>) s1)\<lparr>console := console s1 @ [CouldNotCreateTask]\<rparr>)
           | (Some off, s1) \<Rightarrow>
               let base = (HeapWords, int (unat off) div 4);
                   high = (HeapWords, int (unat off) div 4 + int (unat depth) - 1);
                   m1 = fill_words base (unat depth) TASK_WATERMARK (stack_mem s1);
                   (sp, m2) = task_init_stack task_exit_trap high task_function task_params m1;
                   item = \<lparr>li_next = None, li_prev = None, li_owner = t, li_container = None\<rparr>;
                   s2 = s1\<lparr>stack_mem := m2,
                           task_counter := (task_counter s1)(c := task_counter s1 c + 1),
                           tcb := (tcb s1)(t := (tcb s1 t)\<lparr>stack_base := Some base, task_id := task_counter s1 c,
                              core_id := c, priority := prio', base_priority := prio', mutexes_held := 0,
                              stack_high := high, wakeup_time := 0,
                              wakeup_reason := WAKEUP_REASON_NONE, current_sp := sp,
                              current_state := TASK_STATE_READY\<rparr>),
                           items := (items s1)(StateItem t := item, EventItem t := item)\<rparr>
               in (E_OK, Some t, snd (scheduler_add_to_ready_list (Some t) s2)))"

subsection \<open>The initial stack frame\<close>

lemma write_down_other:
  "(\<And>i. i < length vs \<Longrightarrow> q \<noteq> (fst p, snd p - int i)) \<Longrightarrow> write_down p vs m q = m q"
proof (induction vs arbitrary: p m)
  case (Cons v vs)
  have "write_down (fst p, snd p - 1) vs (m(p := v)) q = (m(p := v)) q"
  proof (rule Cons.IH)
    fix i assume "i < length vs"
    then show "q \<noteq> (fst (fst p, snd p - 1), snd (fst p, snd p - 1) - int i)"
      using Cons.prems [of "Suc i"] by (simp add: algebra_simps)
  qed
  with Cons.prems [of 0] show ?case by simp
qed simp

lemma write_down_nth:
  "i < length vs \<Longrightarrow> write_down p vs m (fst p, snd p - int i) = vs ! i"
proof (induction vs arbitrary: p m i)
  case (Cons v vs)
  show ?case
  proof (cases i)
    case 0
    then show ?thesis
      using write_down_other [of vs p "(fst p, snd p - 1)" "m(p := v)"] by (simp add: prod_eq_iff)
  next
    case (Suc j)
    then show ?thesis using Cons.IH [of j "(fst p, snd p - 1)"] Cons.prems by (simp add: algebra_simps)
  qed
qed simp

text \<open>The frame is the 16 words that \<^verbatim>\<open>_irq_handler\<close> pops: r0-r12, lr, pc, spsr from \<open>current_sp\<close> upwards.\<close>

lemma task_init_stack_frame:
  assumes "task_init_stack trap top_of_stack f arg m = (sp, m')"
  shows "sp = (fst top_of_stack, snd top_of_stack - 15)"
    and "map (\<lambda>i. m' (fst sp, snd sp + int i)) [0..<16] = [arg] @ replicate 12 0 @ [trap, f, 0x13]"
    and "\<And>b i. b \<noteq> fst top_of_stack \<or> i < snd sp \<or> snd top_of_stack < i \<Longrightarrow> m' (b, i) = m (b, i)"
proof -
  let ?vs = "[0x00000013, f, trap] @ replicate 12 0 @ [arg]"
  from assms show sp: "sp = (fst top_of_stack, snd top_of_stack - 15)" by (simp add: task_init_stack_def)
  from assms have m': "m' = write_down top_of_stack ?vs m" by (simp add: task_init_stack_def)
  have "m' (fst sp, snd sp + int i) = ?vs ! (15 - i)" if "i < 16" for i
    using that write_down_nth [of "15 - i" ?vs top_of_stack m] by (simp add: m' sp algebra_simps of_nat_diff)
  then have "map (\<lambda>i. m' (fst sp, snd sp + int i)) [0..<16] = map (\<lambda>i. ?vs ! (15 - i)) [0..<16]"
    by (intro map_cong) auto
  also have "\<dots> = [arg] @ replicate 12 0 @ [trap, f, 0x13]"
    by (simp add: upt_rec numeral_eq_Suc)
  finally show "map (\<lambda>i. m' (fst sp, snd sp + int i)) [0..<16] = [arg] @ replicate 12 0 @ [trap, f, 0x13]" .
  show "m' (b, i) = m (b, i)" if "b \<noteq> fst top_of_stack \<or> i < snd sp \<or> snd top_of_stack < i" for b i
    unfolding m' by (rule write_down_other) (use that sp in auto)
qed

subsection \<open>The pool, the heap and the stacks\<close>

fun pool_tcb :: "tptr \<Rightarrow> bool" where
  "pool_tcb (TcbPool c i) = True"
| "pool_tcb (IdleTcb c) = False"

text \<open>The words of a task's stack, from \<open>stack_base\<close> to \<open>stack_high\<close>.\<close>

definition stack_words :: "TaskControlBlock \<Rightarrow> int set" where
  "stack_words b = (case stack_base b of None \<Rightarrow> {} | Some p \<Rightarrow> {snd p .. snd (stack_high b)})"

definition tinv :: "kernel \<Rightarrow> bool" where
  "tinv s \<longleftrightarrow> heap_inv s \<and>
     (\<forall>c. unat (task_counter s c) \<le> MAX_NUM_TASKS) \<and>
     (\<forall>c i. created s (TcbPool c i) \<longrightarrow> i < unat (task_counter s c)) \<and>
     (\<forall>t. pool_tcb t \<longrightarrow> stack_words (tcb s t) \<subseteq> {0 ..< int (unat (heap_offset s)) div 4}) \<and>
     (\<forall>t u. pool_tcb t \<and> pool_tcb u \<and> t \<noteq> u \<longrightarrow> stack_words (tcb s t) \<inter> stack_words (tcb s u) = {}) \<and>
     (\<forall>t b. stack_base (tcb s t) = Some b \<longrightarrow>
        (if pool_tcb t then fst b = HeapWords \<and> snd b \<le> int (unat (heap_offset s)) div 4 else fst b \<noteq> HeapWords))"

lemma tinvD:
  assumes "tinv s"
  shows "heap_inv s" "unat (task_counter s c) \<le> MAX_NUM_TASKS" "created s (TcbPool c i) \<Longrightarrow> i < unat (task_counter s c)"
    "pool_tcb t \<Longrightarrow> stack_words (tcb s t) \<subseteq> {0 ..< int (unat (heap_offset s)) div 4}"
    "pool_tcb t \<Longrightarrow> pool_tcb u \<Longrightarrow> t \<noteq> u \<Longrightarrow> stack_words (tcb s t) \<inter> stack_words (tcb s u) = {}"
    "stack_base (tcb s t) = Some b \<Longrightarrow>
       if pool_tcb t then fst b = HeapWords \<and> snd b \<le> int (unat (heap_offset s)) div 4 else fst b \<noteq> HeapWords"
  using assms unfolding tinv_def by blast+

lemma sane_stack: "sane (4 * ucast (d :: u16))" and unat_stack: "unat (4 * ucast (d :: u16) :: u32) = 4 * unat d"
proof -
  have d: "unat d < 65536" using unat_lt2p [of d] by simp
  show u: "unat (4 * ucast d :: u32) = 4 * unat d"
    using d by (simp add: unat_word_ariths unsigned_ucast_eq take_bit_eq_mod)
  show "sane (4 * ucast d)" using d by (simp add: sane_def u HEAP_SIZE_BYTES_def)
qed

lemma malloc_stack:
  assumes "heap_inv s"
  shows "heap_malloc (4 * ucast (d :: u16)) s =
    (if unat (heap_offset s) + 4 * unat d \<le> unat HEAP_SIZE_BYTES
     then (Some (heap_offset s), s\<lparr>heap_offset := of_nat (unat (heap_offset s) + 4 * unat d)\<rparr>)
     else (None, s))"
  using heap_malloc_sane [OF assms sane_stack] by (simp add: unat_stack round4_def)

text \<open>\<open>task_create\<close> on every branch.\<close>

definition clamp_prio :: "TaskPriorityLevel \<Rightarrow> TaskPriorityLevel" where
  "clamp_prio p = min p (NUM_TASK_PRIORITIES - 1)"

lemma task_create_full:
  "unat (task_counter s c) = MAX_NUM_TASKS \<Longrightarrow> task_create trap c f d p arg s = (E_RESOURCE_EXHAUSTED, None, s)"
  by (simp add: task_create_def)

lemma task_create_no_memory:
  assumes "heap_inv s" "unat (task_counter s c) \<noteq> MAX_NUM_TASKS" "unat HEAP_SIZE_BYTES < unat (heap_offset s) + 4 * unat d"
  shows "task_create trap c f d p arg s =
    (E_OUT_OF_MEM, Some (TcbPool c (unat (task_counter s c))),
     (upd_tcb (TcbPool c (unat (task_counter s c))) (\<lambda>b. b\<lparr>stack_base := None\<rparr>) s)
       \<lparr>console := console s @ [CouldNotCreateTask]\<rparr>)"
  using assms by (simp add: task_create_def malloc_stack Let_def)

lemma task_create_ok:
  fixes p :: TaskPriorityLevel and d :: u16
  assumes i: "sinv X s A" and ti: "tinv s" and c: "c < COMPANION_CORE_MAX_CORES"
    and n: "unat (task_counter s c) \<noteq> MAX_NUM_TASKS" and h: "unat (heap_offset s) + 4 * unat d \<le> unat HEAP_SIZE_BYTES"
  defines "t \<equiv> TcbPool c (unat (task_counter s c))" and "q \<equiv> clamp_prio p"
    and "base \<equiv> int (unat (heap_offset s)) div 4"
  obtains s' where "task_create trap c f d p arg s = (E_OK, Some t, s')" and "\<not> created s t"
    and "sinv (X - {t}) s' (A(ReadyList c q := A (ReadyList c q) @ [StateItem t]))"
    and "tinv s'" and "\<And>u. created s' u \<longleftrightarrow> created s u \<or> u = t"
    and "\<And>u. u \<noteq> t \<Longrightarrow> tcb s' u = tcb s u" and "priority (tcb s' t) = q" and "base_priority (tcb s' t) = q"
    and "mutexes_held (tcb s' t) = 0" and "current_state (tcb s' t) = TASK_STATE_READY"
    and "stack_base (tcb s' t) = Some (HeapWords, base)" and "stack_high (tcb s' t) = (HeapWords, base + int (unat d) - 1)"
    and "current_sp (tcb s' t) = (HeapWords, base + int (unat d) - 16)"
    and "stack_mem s' = snd (task_init_stack trap (HeapWords, base + int (unat d) - 1) f arg
                          (fill_words (HeapWords, base) (unat d) TASK_WATERMARK (stack_mem s)))"
    and "p_task_control_block s' = p_task_control_block s" and "mutexes s' = mutexes s" and "semaphores s' = semaphores s"
    and "task_counter s' = (task_counter s)(c := task_counter s c + 1)"
    and "heap_offset s' = of_nat (unat (heap_offset s) + 4 * unat d)"
    and "hz s' = hz s" and "tick_count s' = tick_count s"
    and "l_index (list_at s' (ReadyList c q)) =
           (if A (ReadyList c q) = [] then Some (StateItem t) else l_index (list_at s (ReadyList c q)))"
proof -
  note D = sinvD [OF i] and T = tinvD [OF ti]
  have new: "\<not> created s t" using T(3) [of c] unfolding t_def by blast
  have cnt: "unat (task_counter s c) < 16" using T(2) [of c] n by (simp add: task_consts)
  have vt: "valid_tcb t" using c cnt by (simp add: t_def task_consts)
  have q: "q < NUM_TASK_PRIORITIES" by (simp add: q_def clamp_prio_def task_consts)
  let ?off = "of_nat (unat (heap_offset s) + 4 * unat d) :: u32"
  have off: "unat ?off = unat (heap_offset s) + 4 * unat d"
    using h by (simp add: unat_of_nat HEAP_SIZE_BYTES_def del: of_nat_add)
  let ?it = "\<lparr>li_next = None, li_prev = None, li_owner = t, li_container = None\<rparr>"
  let ?m = "task_init_stack trap (HeapWords, base + int (unat d) - 1) f arg
              (fill_words (HeapWords, base) (unat d) TASK_WATERMARK (stack_mem s))"
  let ?b = "(tcb s t)\<lparr>stack_base := Some (HeapWords, base), task_id := task_counter s c,
                core_id := c, priority := q, base_priority := q, mutexes_held := 0,
                stack_high := (HeapWords, base + int (unat d) - 1), wakeup_time := 0,
                wakeup_reason := WAKEUP_REASON_NONE, current_sp := fst ?m, current_state := TASK_STATE_READY\<rparr>"
  define s2 where "s2 = s\<lparr>heap_offset := ?off, stack_mem := snd ?m,
      task_counter := (task_counter s)(c := task_counter s c + 1), tcb := (tcb s)(t := ?b),
      items := (items s)(StateItem t := ?it, EventItem t := ?it)\<rparr>"
  let ?s' = "snd (scheduler_add_to_ready_list (Some t) s2)"
  have clamp: "(if NUM_TASK_PRIORITIES \<le> p then NUM_TASK_PRIORITIES - 1 else p) = q"
    by (simp add: q_def clamp_prio_def task_consts)
  have eq: "task_create trap c f d p arg s = (E_OK, Some t, ?s')"
    using n h unfolding task_create_def clamp
    by (simp add: malloc_stack [OF T(1)] Let_def t_def [symmetric] base_def s2_def case_prod_beta)
  have i2: "sinv (insert t X) s2 A"
    by (rule sinv_new_tcb [OF i new, where b = ?b])
      (use vt q in \<open>auto simp: s2_def t_def elim: item_tcb.elims\<close>)
  have R: "ready_list_of s2 t = ReadyList c q" by (simp add: ready_list_of_def s2_def)
  have "sinv (insert t X - {t}) ?s' (A(ReadyList c q := A (ReadyList c q) @ [StateItem t]))"
    using sinv_add_ready(2) [OF i2, of t] by (simp add: R) (simp add: s2_def created_def)
  then have is': "sinv (X - {t}) ?s' (A(ReadyList c q := A (ReadyList c q) @ [StateItem t]))" by simp
  have tcb': "tcb ?s' = (tcb s)(t := ?b)"
    using q c by (subst add_ready_tcb) (simp_all add: s2_def)
  have sw: "stack_words (tcb ?s' u) = (if u = t then {base ..< base + int (unat d)} else stack_words (tcb s u))" for u
    by (auto simp: tcb' stack_words_def)
  have ho: "heap_offset ?s' = ?off" by (simp add: s2_def)
  have tc: "task_counter s2 = (task_counter s)(c := task_counter s c + 1)" by (simp add: s2_def)
  have cr: "created ?s' u \<longleftrightarrow> created s u \<or> u = t" for u by (auto simp: created_def tcb')
  have "4 dvd unat (heap_offset s)" using T(1) by (simp add: heap_inv_def)
  then obtain k where "unat (heap_offset s) = 4 * k" by (auto elim: dvdE)
  then have base: "int (unat ?off) div 4 = base + int (unat d)" "int (unat (heap_offset s)) div 4 = base" "0 \<le> base"
    unfolding off base_def by simp_all
  have cn: "unat (task_counter s c + 1) = unat (task_counter s c) + 1"
    using cnt by (simp add: unat_word_ariths)
  have "tinv ?s'"
    unfolding tinv_def ho
  proof (intro conjI allI impI)
    show "heap_inv ?s'"
      using h \<open>4 dvd unat (heap_offset s)\<close> off unfolding heap_inv_def ho word_le_nat_alt by simp
    show "unat (task_counter ?s' e) \<le> MAX_NUM_TASKS" for e
      using T(2) [of e] cnt cn by (auto simp: tc task_consts)
    show "j < unat (task_counter ?s' e)" if "created ?s' (TcbPool e j)" for e j
      using that [unfolded cr] T(3) [of e j] cn by (auto simp: tc t_def)
    show "stack_words (tcb ?s' u) \<subseteq> {0 ..< int (unat ?off) div 4}" if "pool_tcb u" for u
    proof (cases "u = t")
      case False
      have "{0 ..< base} \<subseteq> {0 ..< base + int (unat d)}" by simp
      with False T(4) [OF that] show ?thesis unfolding sw base by (simp only: if_False)
    qed (use base in \<open>simp only: sw, simp\<close>)
    show "stack_words (tcb ?s' u) \<inter> stack_words (tcb ?s' v) = {}" if "pool_tcb u \<and> pool_tcb v \<and> u \<noteq> v" for u v
    proof -
      have "stack_words (tcb s w) \<inter> {base ..< base + int (unat d)} = {}" if "pool_tcb w" for w
        using T(4) [OF that] unfolding base by force
      with that T(5) [of u v] show ?thesis unfolding sw by auto
    qed
    show "if pool_tcb u then fst b = HeapWords \<and> snd b \<le> int (unat ?off) div 4 else fst b \<noteq> HeapWords"
      if "stack_base (tcb ?s' u) = Some b" for u b
    proof (cases "u = t")
      case True
      moreover have "pool_tcb t" by (simp add: t_def)
      ultimately show ?thesis using that unfolding base by (auto simp: tcb')
    next
      case False
      then show ?thesis using that T(6) [of u b] unfolding base by (auto simp: tcb' simp del: of_nat_unat)
    qed
  qed
  moreover have "l_index (list_at ?s' (ReadyList c q)) =
      (if A (ReadyList c q) = [] then Some (StateItem t) else l_index (list_at s (ReadyList c q)))"
    using q c by (subst add_to_ready_eq) (simp_all add: R, simp_all add: s2_def wfl_list_end [OF D(1)])
  ultimately show ?thesis
    using eq new is' by (intro that [of ?s']) (simp_all add: tcb' cr ho tc, simp_all add: s2_def task_init_stack_def)
qed

text \<open>With a stack of more than 16 words the new task's watermark is in place, and no other task's
  watermark is touched.\<close>

definition intact :: "kernel \<Rightarrow> bool" where
  "intact s \<longleftrightarrow> (\<forall>t. created s t \<longrightarrow> \<not> stack_overflowed t s)"

lemma task_create_intact:
  assumes i: "sinv X s A" and ti: "tinv s" and c: "c < COMPANION_CORE_MAX_CORES" and ok: "intact s"
    and n: "unat (task_counter s c) \<noteq> MAX_NUM_TASKS" and h: "unat (heap_offset s) + 4 * unat d \<le> unat HEAP_SIZE_BYTES"
    and d: "16 < unat d"
  shows "intact (snd (snd (task_create trap c f d p arg s)))"
proof -
  let ?t = "TcbPool c (unat (task_counter s c))" and ?base = "int (unat (heap_offset s)) div 4"
  obtain s' where s': "task_create trap c f d p arg s = (E_OK, Some ?t, s')"
    "\<And>u. created s' u \<longleftrightarrow> created s u \<or> u = ?t" "\<And>u. u \<noteq> ?t \<Longrightarrow> tcb s' u = tcb s u"
    "stack_base (tcb s' ?t) = Some (HeapWords, ?base)"
    and m: "stack_mem s' = snd (task_init_stack trap (HeapWords, ?base + int (unat d) - 1) f arg
                          (fill_words (HeapWords, ?base) (unat d) TASK_WATERMARK (stack_mem s)))"
    by (rule task_create_ok [OF i ti c n h, of trap f p arg]) (rule that)
  have keep: "stack_mem s' (b, j) = fill_words (HeapWords, ?base) (unat d) TASK_WATERMARK (stack_mem s) (b, j)"
    if "b \<noteq> HeapWords \<or> j \<le> ?base" for b j
    unfolding m by (rule task_init_stack_frame(3) [OF surjective_pairing]) (use that d in \<open>auto simp: task_init_stack_def simp del: of_nat_unat\<close>)
  have "\<not> stack_overflowed u s'" if "created s' u" for u
  proof (cases "u = ?t")
    case True
    then show ?thesis using d s'(4) by (simp add: stack_overflowed_def keep fill_words_def del: of_nat_unat)
  next
    case False
    then have "created s u" using that s'(2) by simp
    then obtain b j where b: "stack_base (tcb s u) = Some (b, j)" by (auto simp: created_def)
    with \<open>created s u\<close> ok have "stack_mem s (b, j) = TASK_WATERMARK" by (auto simp: intact_def stack_overflowed_def)
    moreover have "b \<noteq> HeapWords \<or> j \<le> ?base" using tinvD(6) [OF ti b] by (auto split: if_splits)
    ultimately show ?thesis using b False by (simp add: stack_overflowed_def s'(3) keep fill_words_def del: of_nat_unat)
  qed
  then show ?thesis by (simp add: s'(1) intact_def)
qed

end
