(* ===== verification/Boot_Image.thy ===== *)
theory Boot_Image
  imports Task
begin

text \<open>
  The kernel's store at reset, and a small system built from it by the model's own \<open>scheduler_init\<close>,
  \<open>task_create\<close> and \<open>scheduler_switch_context\<close>: one core, the idle task and two tasks of equal priority. The
  witnesses of the kernel properties run on it.
\<close>

subsection \<open>The boot image and a small running system\<close>

text \<open>The store before any initialisation: everything in \<^verbatim>\<open>.bss\<close> is zero.\<close>

definition bss_tcb :: TaskControlBlock where
  "bss_tcb = \<lparr>current_sp = (HeapWords, 0), stack_high = (HeapWords, 0), stack_base = None, stack_depth = 0, task_id = 0,
     core_id = 0, current_state = TASK_STATE_READY, priority = 0, wakeup_time = 0, wakeup_reason = WAKEUP_REASON_NONE,
     base_priority = 0, mutexes_held = 0\<rparr>"

definition bss_kernel :: kernel where
  "bss_kernel = \<lparr>list_at = (\<lambda>_. empty_list),
     items = (\<lambda>x. \<lparr>li_next = None, li_prev = None, li_owner = item_tcb x, li_container = None\<rparr>),
     tcb = (\<lambda>_. bss_tcb), p_task_control_block = (\<lambda>_. None), tick_count = (\<lambda>_. 0), clk_freq = (\<lambda>_. 0),
     hz = (\<lambda>_. 0), cntp_cval = (\<lambda>_. 0), stack_mem = (\<lambda>_. 0), heap_offset = 0, task_counter = (\<lambda>_. 0),
     mutexes = (\<lambda>_. \<lparr>m_state = MUTEX_STATE_LOCKED, mutex_owner = None, inheritance_enabled = False, inherited_priority = 0\<rparr>),
     semaphores = (\<lambda>_. \<lparr>max_count = 0, sem_count = 0\<rparr>),
     queues = (\<lambda>_. \<lparr>q_buf = [], q_head = 0, q_tail = 0, q_capacity = 0, q_item_size = 0\<rparr>),
     timers = (\<lambda>_. \<lparr>expiry_tick = 0, period = 0, timer_mode = TIMER_MODE_ONE_SHOT, tm_callback = None,
                   list_id = TIMER_LIST_NONE, tm_next = None\<rparr>),
     blocked_list_head = None, active_list_head = None, console = []\<rparr>"

lemma sinv_bss: "sinv {} bss_kernel (\<lambda>_. [])"
  by (simp add: sinv_def wfl_def dll_def typed_def delay_sorted_def index_ok_def tcbs_ok_def all_synced_def
      created_def bss_kernel_def bss_tcb_def empty_list_def)

lemma tinv_bss: "tinv bss_kernel"
  by (simp add: tinv_def heap_inv_def created_def bss_kernel_def bss_tcb_def stack_words_def HEAP_SIZE_BYTES_def)

lemma idle_core_bss: "idle_core c bss_kernel"
  by (simp add: idle_core_def created_def bss_kernel_def bss_tcb_def)

text \<open>Core 2 after \<open>scheduler_init\<close> at 54 MHz and 1 kHz and two \<open>task_create\<close> calls at priority 2, and then after \<open>scheduler_start\<close>.\<close>

definition demo_init :: kernel where
  "demo_init = snd (the (scheduler_init 0x8000 (\<lambda>s. Some (E_OK, s)) 2 (Some 54000000) 1000 True bss_kernel))"

definition demo_ready :: kernel where
  "demo_ready = snd (snd (task_create 0x9000 2 0xB000 256 2 0
     (snd (snd (task_create 0x9000 2 0xA000 256 2 7 demo_init)))))"

definition demo_kernel :: kernel where
  "demo_kernel = the (scheduler_switch_context 2 demo_ready)"

definition demo_lists :: "lptr \<Rightarrow> iptr list" where
  "demo_lists = (\<lambda>_. [])(ReadyList 2 0 := [StateItem (IdleTcb 2)],
     ReadyList 2 2 := [StateItem (TcbPool 2 0), StateItem (TcbPool 2 (Suc 0))])"

lemma demo_init_facts:
  shows "sinv {} demo_init ((\<lambda>_. [])(ReadyList 2 0 := [StateItem (IdleTcb 2)]))"
    and "tinv demo_init" and "task_counter demo_init = (\<lambda>_. 0)" and "heap_offset demo_init = 0"
    and "hz demo_init 2 = 1000" and "clk_freq demo_init 2 = 54000000" and "tick_count demo_init 2 = 0"
    and "created demo_init t \<longleftrightarrow> t = IdleTcb 2"
    and "stack_mem demo_init (IdleStack 2, 0) = TASK_WATERMARK" and "stack_base (tcb demo_init (IdleTcb 2)) = Some (IdleStack 2, 0)"
    and "p_task_control_block demo_init = (\<lambda>_. None)"
proof -
  obtain s where s: "scheduler_init 0x8000 (\<lambda>s. Some (E_OK, s)) 2 (Some 54000000) 1000 True bss_kernel = Some (E_OK, s)"
    "sinv {} s ((\<lambda>_. [])(ReadyList 2 TASK_PRIORITY_IDLE := [StateItem (IdleTcb 2)]))"
    "\<And>t. created s t \<longleftrightarrow> created bss_kernel t \<or> t = IdleTcb 2"
    "hz s 2 = 1000" "clk_freq s 2 = 54000000" "tick_count s 2 = 0"
    "stack_mem s (IdleStack 2, 0) = TASK_WATERMARK" "stack_base (tcb s (IdleTcb 2)) = Some (IdleStack 2, 0)"
    "p_task_control_block s = p_task_control_block bss_kernel" "heap_offset s = heap_offset bss_kernel"
    "task_counter s = task_counter bss_kernel" "\<And>u. u \<noteq> IdleTcb 2 \<Longrightarrow> tcb s u = tcb bss_kernel u"
    by (rule scheduler_init_sinv [OF sinv_bss _ idle_core_bss, of 2 "0x8000" "\<lambda>s. Some (E_OK, s)" 54000000 1000])
      (auto simp: task_consts)
  then have d: "demo_init = s" by (simp add: demo_init_def)
  have pool: "pool_tcb t \<Longrightarrow> tcb s t = bss_tcb" for t using s(12) [of t] by (cases t) (auto simp: bss_kernel_def)
  show "sinv {} demo_init ((\<lambda>_. [])(ReadyList 2 0 := [StateItem (IdleTcb 2)]))"
    using s(2) by (simp add: d task_consts)
  show "created demo_init t \<longleftrightarrow> t = IdleTcb 2" using s(3) by (simp add: d created_def bss_kernel_def bss_tcb_def)
  have np: "fst b \<noteq> HeapWords" if "stack_base (tcb s t) = Some b" "\<not> pool_tcb t" for t b
    using that s(3) [of t] s(8) by (auto simp: created_def bss_kernel_def bss_tcb_def)
  show "tinv demo_init"
    using s(3,10,11) pool np by (fastforce simp: tinv_def heap_inv_def d created_def bss_kernel_def bss_tcb_def stack_words_def)
  show "task_counter demo_init = (\<lambda>_. 0)" "heap_offset demo_init = 0" "hz demo_init 2 = 1000"
    "clk_freq demo_init 2 = 54000000" "tick_count demo_init 2 = 0" "stack_mem demo_init (IdleStack 2, 0) = TASK_WATERMARK"
    "stack_base (tcb demo_init (IdleTcb 2)) = Some (IdleStack 2, 0)" "p_task_control_block demo_init = (\<lambda>_. None)"
    using s by (simp_all add: d bss_kernel_def)
qed


lemma demo_init_intact: "intact demo_init"
  using demo_init_facts(9,10) by (auto simp: intact_def demo_init_facts(8) stack_overflowed_def)

lemma demo_ready_facts:
  shows "sinv {} demo_ready demo_lists" and "tinv demo_ready" and "intact demo_ready"
    and "p_task_control_block demo_ready = (\<lambda>_. None)"
    and "created demo_ready t \<longleftrightarrow> t \<in> {IdleTcb 2, TcbPool 2 0, TcbPool 2 (Suc 0)}"
    and "task_counter demo_ready 2 = 2" and "heap_offset demo_ready = 2048"
    and "hz demo_ready 2 = 1000" and "tick_count demo_ready 2 = 0"
    and "priority (tcb demo_ready (TcbPool 2 0)) = 2" and "priority (tcb demo_ready (TcbPool 2 (Suc 0))) = 2"
    and "current_state (tcb demo_ready (TcbPool 2 0)) = TASK_STATE_READY"
    and "l_index (list_at demo_ready (ReadyList 2 2)) = Some (StateItem (TcbPool 2 0))"
proof -
  note I = demo_init_facts
  let ?t0 = "TcbPool 2 0" and ?t1 = "TcbPool 2 (Suc 0)"
  define s1 where "s1 = snd (snd (task_create 0x9000 2 0xA000 256 2 7 demo_init))"
  have h1: "unat (heap_offset demo_init) + 4 * unat (256 :: u16) \<le> unat HEAP_SIZE_BYTES"
    by (simp add: I HEAP_SIZE_BYTES_def)
  have n1: "unat (task_counter demo_init 2) \<noteq> MAX_NUM_TASKS" by (simp add: I task_consts)
  have c1: "2 < COMPANION_CORE_MAX_CORES" by (simp add: task_consts)
  have S1: "sinv {} s1 ((\<lambda>_. [])(ReadyList 2 0 := [StateItem (IdleTcb 2)], ReadyList 2 2 := [StateItem ?t0])) \<and>
      tinv s1 \<and> (\<forall>u. created s1 u \<longleftrightarrow> created demo_init u \<or> u = ?t0) \<and> priority (tcb s1 ?t0) = 2 \<and>
      current_state (tcb s1 ?t0) = TASK_STATE_READY \<and> p_task_control_block s1 = p_task_control_block demo_init \<and>
      task_counter s1 2 = 1 \<and> heap_offset s1 = 1024 \<and> hz s1 = hz demo_init \<and> tick_count s1 = tick_count demo_init \<and>
      l_index (list_at s1 (ReadyList 2 2)) = Some (StateItem ?t0)"
    by (rule task_create_ok [OF I(1,2) c1 n1 h1, of "0x9000" "0xA000" 2 7])
      (simp add: s1_def I clamp_prio_def task_consts)
  have in1: "intact s1" unfolding s1_def
    by (rule task_create_intact [OF I(1,2) c1 demo_init_intact n1 h1]) simp
  have dr: "demo_ready = snd (snd (task_create 0x9000 2 0xB000 256 2 0 s1))" by (simp add: demo_ready_def s1_def)
  have h2: "unat (heap_offset s1) + 4 * unat (256 :: u16) \<le> unat HEAP_SIZE_BYTES"
    using S1 by (simp add: HEAP_SIZE_BYTES_def)
  have n2: "unat (task_counter s1 2) \<noteq> MAX_NUM_TASKS" using S1 by (simp add: task_consts)
  have "sinv {} demo_ready demo_lists \<and> tinv demo_ready \<and>
      (\<forall>u. created demo_ready u \<longleftrightarrow> created s1 u \<or> u = ?t1) \<and> priority (tcb demo_ready ?t1) = 2 \<and>
      (\<forall>u. u \<noteq> ?t1 \<longrightarrow> tcb demo_ready u = tcb s1 u) \<and> p_task_control_block demo_ready = p_task_control_block s1 \<and>
      task_counter demo_ready 2 = 2 \<and> heap_offset demo_ready = 2048 \<and> hz demo_ready = hz s1 \<and> tick_count demo_ready = tick_count s1 \<and>
      l_index (list_at demo_ready (ReadyList 2 2)) = Some (StateItem ?t0)"
    by (rule task_create_ok [OF conjunct1 [OF S1] _ c1 n2 h2, of "0x9000" "0xB000" 2 0])
      (use S1 in \<open>simp_all add: dr clamp_prio_def task_consts demo_lists_def\<close>)
  with S1 I show "sinv {} demo_ready demo_lists" "tinv demo_ready" "p_task_control_block demo_ready = (\<lambda>_. None)"
    "created demo_ready t \<longleftrightarrow> t \<in> {IdleTcb 2, ?t0, ?t1}" "task_counter demo_ready 2 = 2" "heap_offset demo_ready = 2048"
    "hz demo_ready 2 = 1000" "tick_count demo_ready 2 = 0"
    "priority (tcb demo_ready ?t0) = 2" "priority (tcb demo_ready ?t1) = 2" "current_state (tcb demo_ready ?t0) = TASK_STATE_READY"
    "l_index (list_at demo_ready (ReadyList 2 2)) = Some (StateItem ?t0)"
    by auto
  show "intact demo_ready" unfolding dr
    by (rule task_create_intact [OF _ _ c1 in1 n2 h2]) (use S1 in auto)
qed

end
