(* ===== verification/Scheduler_Props.thy ===== *)
theory Scheduler_Props
  imports Boot_Image
begin

text \<open>
  What the scheduler and \<open>task_create\<close> guarantee, stated over the model's operations. Each theorem follows from the
  lemmas of \<open>Scheduler_Inv\<close> and \<open>Task\<close>; the witnesses run on the small system of \<open>Boot_Image\<close>.
\<close>

subsection \<open>Round robin\<close>

lemma intact_watermark: "sinv {} s A \<Longrightarrow> intact s \<Longrightarrow> watermark_ok c s"
  by (auto simp: watermark_ok_def intact_def dest: tcbs_ok_cur [OF sinvD(5)] split: option.splits)

lemma intact_cong:
  "intact s \<Longrightarrow> stack_mem s' = stack_mem s \<Longrightarrow> (\<And>u. stack_base (tcb s' u) = stack_base (tcb s u)) \<Longrightarrow> intact s'"
  by (auto simp: intact_def created_def stack_overflowed_def split: option.splits)

primrec switches :: "core \<Rightarrow> nat \<Rightarrow> kernel \<Rightarrow> kernel option" where
  "switches c 0 s = Some s"
| "switches c (Suc k) s = Option.bind (scheduler_switch_context c s) (switches c k)"

lemma cyc_next_nth:
  assumes "distinct xs" "i < length xs"
  shows "cyc_next (xs ! i) xs = Some (xs ! (Suc i mod length xs))"
proof -
  have split: "xs = take i xs @ xs ! i # drop (Suc i) xs" using assms(2) by (rule id_take_nth_drop)
  have "xs ! i \<notin> set (take i xs)" using split assms(1) by (metis disjoint_iff distinct_append list.set_intros(1))
  then have nx: "cyc_next (xs ! i) xs = Some (hd (drop (Suc i) xs @ take i xs @ [xs ! i]))"
    using cyc_next_split [of "xs ! i" "take i xs" "drop (Suc i) xs"] split by simp
  show ?thesis
  proof (cases "Suc i < length xs")
    case True
    then show ?thesis unfolding nx by (simp add: hd_drop_conv_nth)
  next
    case False
    then have "length xs = Suc i" using assms(2) by simp
    then show ?thesis unfolding nx by (cases i; cases xs) (simp_all add: hd_append take_eq_Nil hd_conv_nth)
  qed
qed

lemma round_robin_step:
  assumes i: "sinv {} s A" and ok: "intact s" and n: "i < length (A (ReadyList c p))"
    and top: "top_ready A c p"
    and cur: "p_task_control_block s c = Some t" "current_state (tcb s t) = TASK_STATE_RUNNING" "priority (tcb s t) = p"
    and ix: "l_index (list_at s (ReadyList c p)) = Some (A (ReadyList c p) ! i)"
  defines "j \<equiv> Suc i mod length (A (ReadyList c p))"
  obtains s' u where "scheduler_switch_context c s = Some s'" "sinv {} s' A" "intact s'"
    "p_task_control_block s' c = Some u" "StateItem u = A (ReadyList c p) ! j"
    "current_state (tcb s' u) = TASK_STATE_RUNNING" "priority (tcb s' u) = p"
    "l_index (list_at s' (ReadyList c p)) = Some (A (ReadyList c p) ! j)"
proof -
  let ?xs = "A (ReadyList c p)"
  have ov: "watermark_ok c s" by (rule intact_watermark [OF i ok])
  obtain s' where s': "scheduler_switch_context c s = Some s'" "sinv {} s' A"
    "\<And>L. l_index (list_at s' L) = idx_after s A c L" "stack_mem s' = stack_mem s"
    and frame: "\<And>u. tcb s' u = (tcb s u)\<lparr>current_state := current_state (tcb s' u)\<rparr>"
    and pick: "if \<forall>p<NUM_TASK_PRIORITIES. A (ReadyList c p) = [] then p_task_control_block s' c = None
         else \<exists>p t. top_ready A c p \<and> idx_after s A c (ReadyList c p) = Some (StateItem t) \<and>
                p_task_control_block s' c = Some t \<and> current_state (tcb s' t) = TASK_STATE_RUNNING"
    by (rule switch_context_sinv [OF i ov]) (rule that)
  have idx: "idx_after s A c (ReadyList c p) = Some (?xs ! j)"
    using cyc_next_nth [OF wfl_distinct [OF sinvD(1) [OF i]] n] by (simp add: idx_after_def cur ix j_def)
  from pick top obtain p' u where u: "top_ready A c p'" "idx_after s A c (ReadyList c p') = Some (StateItem u)"
    "p_task_control_block s' c = Some u" "current_state (tcb s' u) = TASK_STATE_RUNNING"
    by (auto simp: top_ready_def split: if_splits)
  have "p' = p" by (rule top_ready_unique [OF u(1) top])
  then have uj: "StateItem u = ?xs ! j" using u(2) idx by simp
  have "j < length ?xs" unfolding j_def by (rule mod_less_divisor) (use n in linarith)
  then have "StateItem u \<in> set (A (ReadyList c p))" by (simp add: uj)
  from typed_ready [OF sinvD(2) [OF s'(2)] this] have "priority (tcb s' u) = p" by auto
  moreover have "intact s'"
    by (rule intact_cong [OF ok s'(4)]) (subst frame, simp)
  ultimately show ?thesis using s' u(3,4) uj idx by (intro that [of s' u]) auto
qed

lemma round_robin_iter:
  assumes "sinv {} s A" "intact s" "i < length (A (ReadyList c p))"
    and top: "top_ready A c p"
    and "p_task_control_block s c = Some t" "current_state (tcb s t) = TASK_STATE_RUNNING" "priority (tcb s t) = p"
    and "StateItem t = A (ReadyList c p) ! i"
    and "l_index (list_at s (ReadyList c p)) = Some (A (ReadyList c p) ! i)"
  shows "\<exists>s' u. switches c k s = Some s' \<and> p_task_control_block s' c = Some u \<and>
    StateItem u = A (ReadyList c p) ! ((i + k) mod length (A (ReadyList c p)))"
  using assms
proof (induction k arbitrary: s i t)
  case (Suc k)
  let ?n = "length (A (ReadyList c p))"
  obtain s1 u where s1: "scheduler_switch_context c s = Some s1" "sinv {} s1 A" "intact s1"
    "p_task_control_block s1 c = Some u" "StateItem u = A (ReadyList c p) ! (Suc i mod ?n)"
    "current_state (tcb s1 u) = TASK_STATE_RUNNING" "priority (tcb s1 u) = p"
    "l_index (list_at s1 (ReadyList c p)) = Some (A (ReadyList c p) ! (Suc i mod ?n))"
    by (rule round_robin_step [OF Suc.prems(1-7) Suc.prems(9)]) (rule that)
  have lt: "Suc i mod ?n < ?n" by (rule mod_less_divisor) (use Suc.prems(3) in linarith)
  from Suc.IH [OF s1(2,3) lt top s1(4,6,7,5,8)] show ?case
    by (simp add: s1(1) mod_simps)
qed auto


lemma demo_kernel_facts:
  shows "scheduler_switch_context 2 demo_ready = Some demo_kernel"
    and "sinv {} demo_kernel demo_lists" and "intact demo_kernel"
    and "p_task_control_block demo_kernel 2 = Some (TcbPool 2 0)"
    and "current_state (tcb demo_kernel (TcbPool 2 0)) = TASK_STATE_RUNNING"
    and "l_index (list_at demo_kernel (ReadyList 2 2)) = Some (StateItem (TcbPool 2 0))"
    and "created demo_kernel t \<longleftrightarrow> t \<in> {IdleTcb 2, TcbPool 2 0, TcbPool 2 (Suc 0)}"
    and "tick_count demo_kernel 2 = 0"
    and "priority (tcb demo_kernel (TcbPool 2 0)) = 2" and "priority (tcb demo_kernel (TcbPool 2 (Suc 0))) = 2"
proof -
  note R = demo_ready_facts
  have top: "top_ready demo_lists 2 2" by (simp add: top_ready_def demo_lists_def task_consts)
  obtain s' where s': "scheduler_switch_context 2 demo_ready = Some s'" "sinv {} s' demo_lists"
    "\<And>L. l_index (list_at s' L) = idx_after demo_ready demo_lists 2 L" "stack_mem s' = stack_mem demo_ready"
    "tick_count s' = tick_count demo_ready"
    and frame: "\<And>u. tcb s' u = (tcb demo_ready u)\<lparr>current_state := current_state (tcb s' u)\<rparr>"
    and pick: "if \<forall>p<NUM_TASK_PRIORITIES. demo_lists (ReadyList 2 p) = [] then p_task_control_block s' 2 = None
         else \<exists>p t. top_ready demo_lists 2 p \<and> idx_after demo_ready demo_lists 2 (ReadyList 2 p) = Some (StateItem t) \<and>
                p_task_control_block s' 2 = Some t \<and> current_state (tcb s' t) = TASK_STATE_RUNNING"
    by (rule switch_context_sinv [OF R(1) intact_watermark [OF R(1,3), of 2]]) (rule that)
  have d: "demo_kernel = s'" by (simp add: demo_kernel_def s'(1))
  have ix: "idx_after demo_ready demo_lists 2 (ReadyList 2 2) = Some (StateItem (TcbPool 2 0))"
    by (simp only: idx_after_def R(4,13) option.case)
  from pick top obtain p t where pt: "top_ready demo_lists 2 p" "idx_after demo_ready demo_lists 2 (ReadyList 2 p) = Some (StateItem t)"
    "p_task_control_block s' 2 = Some t" "current_state (tcb s' t) = TASK_STATE_RUNNING"
    by (auto simp: top_ready_def split: if_splits)
  have "p = 2" by (rule top_ready_unique [OF pt(1) top])
  then have t: "t = TcbPool 2 0" using pt(2) ix by simp
  show "scheduler_switch_context 2 demo_ready = Some demo_kernel" "sinv {} demo_kernel demo_lists"
    "p_task_control_block demo_kernel 2 = Some (TcbPool 2 0)"
    "current_state (tcb demo_kernel (TcbPool 2 0)) = TASK_STATE_RUNNING"
    "l_index (list_at demo_kernel (ReadyList 2 2)) = Some (StateItem (TcbPool 2 0))" "tick_count demo_kernel 2 = 0"
    using s' pt t ix R(9) by (simp_all add: d)
  have sb: "stack_base (tcb s' u) = stack_base (tcb demo_ready u)" "priority (tcb s' u) = priority (tcb demo_ready u)" for u
    by (subst frame, simp)+
  show "intact demo_kernel" unfolding d by (rule intact_cong [OF R(3) s'(4) sb(1)])
  show "created demo_kernel t \<longleftrightarrow> t \<in> {IdleTcb 2, TcbPool 2 0, TcbPool 2 (Suc 0)}" for t
    using R(5) by (simp add: d created_def sb)
  show "priority (tcb demo_kernel (TcbPool 2 0)) = 2" "priority (tcb demo_kernel (TcbPool 2 (Suc 0))) = 2"
    using R by (simp_all add: d sb)
qed

subsection \<open>The properties\<close>

text \<open>Claim C1 (safety). In every state that satisfies the scheduler invariant and whose outgoing task has not
  overrun its stack, \<open>scheduler_switch_context\<close> returns (it dereferences no null pointer and does not hang), keeps
  the invariant and all list contents, and leaves the core running a ready task of the highest priority that has
  one; the core runs nothing only when no task at all is ready.\<close>

theorem switch_runs_highest:
  assumes "sinv {} s A" and "watermark_ok c s"
  shows "\<exists>s'. scheduler_switch_context c s = Some s' \<and> sinv {} s' A \<and>
    (case p_task_control_block s' c of
       None \<Rightarrow> \<forall>p<NUM_TASK_PRIORITIES. A (ReadyList c p) = []
     | Some t \<Rightarrow> current_state (tcb s' t) = TASK_STATE_RUNNING \<and> top_ready A c (priority (tcb s' t)) \<and>
                StateItem t \<in> set (A (ReadyList c (priority (tcb s' t)))))"
proof -
  obtain s' where s': "scheduler_switch_context c s = Some s'" "sinv {} s' A"
    "\<And>L. l_index (list_at s' L) = idx_after s A c L"
    and pick: "if \<forall>p<NUM_TASK_PRIORITIES. A (ReadyList c p) = [] then p_task_control_block s' c = None
         else \<exists>p t. top_ready A c p \<and> idx_after s A c (ReadyList c p) = Some (StateItem t) \<and>
                p_task_control_block s' c = Some t \<and> current_state (tcb s' t) = TASK_STATE_RUNNING"
    by (rule switch_context_sinv [OF assms]) (rule that)
  have mem: "StateItem t \<in> set (A (ReadyList c p)) \<and> priority (tcb s' t) = p"
    if "idx_after s A c (ReadyList c p) = Some (StateItem t)" for p t
    using that idx_after_mem [OF sinvD(4) [OF assms(1)], of c p c] typed_ready [OF sinvD(2) [OF s'(2)]] by fastforce
  from pick s' mem show ?thesis by (fastforce split: if_splits)
qed

theorem switch_runs_highest_witness:
  "\<exists>s'. scheduler_switch_context 2 demo_ready = Some s' \<and> sinv {} s' demo_lists \<and>
    (case p_task_control_block s' 2 of
       None \<Rightarrow> \<forall>p<NUM_TASK_PRIORITIES. demo_lists (ReadyList 2 p) = []
     | Some t \<Rightarrow> current_state (tcb s' t) = TASK_STATE_RUNNING \<and> top_ready demo_lists 2 (priority (tcb s' t)) \<and>
                StateItem t \<in> set (demo_lists (ReadyList 2 (priority (tcb s' t)))))"
  by (rule switch_runs_highest [OF demo_ready_facts(1) intact_watermark [OF demo_ready_facts(1,3)]])

text \<open>Claim C2 (liveness). Round-robin fairness. Take a state that satisfies the kernel invariant, with intact stacks, in which
  the core runs a task of its highest ready priority, the one that ready list's index names. Over consecutive context switches, with nothing
  that changes the ready lists in between, every task of that list runs, after fewer switches than the list has tasks.\<close>

theorem round_robin_fair:
  assumes "sinv {} s A" and "intact s" and "top_ready A c p"
    and "p_task_control_block s c = Some t" and "current_state (tcb s t) = TASK_STATE_RUNNING"
    and "l_index (list_at s (ReadyList c p)) = Some (StateItem t)"
    and "StateItem u \<in> set (A (ReadyList c p))"
  shows "\<exists>k<length (A (ReadyList c p)). \<exists>s'. switches c k s = Some s' \<and> p_task_control_block s' c = Some u"
proof -
  let ?xs = "A (ReadyList c p)"
  have "StateItem t \<in> set ?xs" using index_okD [OF sinvD(4) [OF assms(1)], of c p] assms(6) by simp
  then obtain i where i: "i < length ?xs" "StateItem t = ?xs ! i" by (metis in_set_conv_nth)
  have pr: "priority (tcb s t) = p" using typed_ready [OF sinvD(2) [OF assms(1)], of "StateItem t" c p] i by auto
  obtain j where j: "j < length ?xs" "StateItem u = ?xs ! j" using assms(7) by (metis in_set_conv_nth)
  let ?n = "length ?xs"
  let ?k = "(j + (?n - i)) mod ?n"
  have k: "?k < ?n" using j(1) by (intro mod_less_divisor) linarith
  have "(i + ?k) mod ?n = (i + (j + (?n - i))) mod ?n" by (rule mod_add_right_eq)
  also have "i + (j + (?n - i)) = j + ?n" using i(1) by simp
  finally have "(i + ?k) mod ?n = j" using j(1) by simp
  with round_robin_iter [OF assms(1,2) i(1) assms(3,4,5) pr i(2), of ?k] assms(6) i(2) j(2) k show ?thesis
    by (metis iptr.inject(1))
qed

theorem round_robin_fair_witness:
  "\<exists>k<length (demo_lists (ReadyList 2 2)). \<exists>s'. switches 2 k demo_kernel = Some s' \<and> p_task_control_block s' 2 = Some (TcbPool 2 (Suc 0))"
  using round_robin_fair [OF demo_kernel_facts(2,3) _ demo_kernel_facts(4,5,6), of "TcbPool 2 (Suc 0)"]
  by (simp add: top_ready_def demo_lists_def task_consts)

text \<open>\<open>task_delay_ms\<close> called by the running task returns, takes the task off its ready list,
  marks it blocked and inserts it into its core's delay list at the position its wake-up time calls for: the delay
  list stays sorted by wake-up time, whatever the 64-bit sum \<open>tick_count + ticks\<close> wraps to.\<close>

theorem task_delay_blocks:
  assumes "sinv {} s A" and "p_task_control_block s c = Some t"
    and "current_state (tcb s t) \<in> {TASK_STATE_READY, TASK_STATE_RUNNING}"
  shows "\<exists>s'. task_delay_ms c ticks s = Some s' \<and> current_state (tcb s' t) = TASK_STATE_BLOCKED \<and>
    wakeup_time (tcb s' t) = tick_count s c + ticks \<and>
    sinv {} s' (A(ready_list_of s t := remove1 (StateItem t) (A (ready_list_of s t)),
                  BlockedTaskList c := delay_insert (waketime s) (tick_count s c + ticks) (StateItem t) (A (BlockedTaskList c))))"
proof -
  have "created s t" using tcbs_ok_cur [OF sinvD(5) [OF assms(1)] assms(2)] by simp
  then have "synced s t" using sinvD(6) [OF assms(1)] by (simp add: all_synced_def)
  then have st: "li_container (items s (StateItem t)) = Some (ready_list_of s t)"
    using assms(3) by (auto simp: synced_def)
  show ?thesis
    unfolding task_delay_ms_def scheduler_get_tick_count_def
    by (rule sinv_block_until [OF assms(1,2) st, of "tick_count s c + ticks"]) auto
qed

theorem task_delay_blocks_witness:
  "\<exists>s'. task_delay_ms 2 10 demo_kernel = Some s' \<and> current_state (tcb s' (TcbPool 2 0)) = TASK_STATE_BLOCKED \<and>
    wakeup_time (tcb s' (TcbPool 2 0)) = 10"
  using task_delay_blocks [OF demo_kernel_facts(2,4), of 10] by (auto simp: demo_kernel_facts(5,8))

text \<open>Claim C3 (functional). The tick handler, when the tick rate is set, terminates and wakes exactly the tasks
  whose wake-up time has come: they move, in wake-up order, from the delay list to the back of the ready list of their
  priority, and out of the mutex or semaphore list they may also wait in; every other task stays where it is.\<close>

theorem tick_wakes_expired:
  fixes s :: kernel
  assumes "sinv {} s A" and "hz s c \<noteq> 0"
  defines "now \<equiv> tick_count s c + 1"
  defines "s1 \<equiv> s\<lparr>tick_count := (tick_count s)(c := now)\<rparr>"
  shows "\<exists>s2. timer_tick_handler software_timer_tick c cntpct s = (if c = 0 then software_timer_tick now s2 else Some s2) \<and>
    sinv {} s2 (after_tick s1 c A) \<and>
    (\<forall>u. tcb s2 u = (if StateItem u \<in> set (A (BlockedTaskList c)) \<and> wakeup_time (tcb s u) \<le> now
                      then (tcb s u)\<lparr>current_state := TASK_STATE_READY\<rparr> else tcb s u))"
proof -
  define s0 where "s0 = s\<lparr>cntp_cval := (cntp_cval s)(c := cntpct + ucast (clk_freq s c div hz s c)),
                   tick_count := (tick_count s)(c := now)\<rparr>"
  have i0: "sinv {} s0 A" by (rule sinv_cong [OF assms(1)]) (simp_all add: s0_def)
  have tcb0: "tcb s0 = tcb s" "tick_count s0 c = now" by (simp_all add: s0_def)
  have at: "after_tick s0 c A = after_tick s1 c A"
    by (rule after_tick_cong) (simp_all add: s0_def s1_def)
  obtain s2 where s2: "tick_wake_loop c s0 = Some s2" "sinv {} s2 (after_tick s0 c A)" "tick_count s2 = tick_count s0"
     "\<And>u. tcb s2 u = (if StateItem u \<in> set (A (BlockedTaskList c)) \<and> expired s0 c (StateItem u)
                      then (tcb s0 u)\<lparr>current_state := TASK_STATE_READY\<rparr> else tcb s0 u)"
    using tick_wake_loop_sinv [OF i0, of c] by blast
  have "timer_tick_handler software_timer_tick c cntpct s = (if c = 0 then software_timer_tick now s2 else Some s2)"
    using assms(2) s2(1,3) by (simp add: timer_tick_handler_def s0_def now_def Let_def)
  then show ?thesis
    using s2(2,4) by (intro exI [of _ s2]) (auto simp: at expired_def waketime_def tcb0)
qed

theorem tick_wakes_expired_witness:
  "\<exists>s2. timer_tick_handler (\<lambda>_ s. Some s) 2 7 demo_ready = Some s2 \<and> tcb s2 (TcbPool 2 0) = tcb demo_ready (TcbPool 2 0)"
  using tick_wakes_expired [OF demo_ready_facts(1), of 2 "\<lambda>_ s. Some s" 7] by (auto simp: demo_ready_facts(8) demo_lists_def)

text \<open>\<open>scheduler_change_task_priority\<close> moves a ready or running task to the back of the ready
  list of its new priority and leaves its state as it was; a blocked task stays in the lists it waits in. The
  invariant holds again afterwards, and no other field of any task changes.\<close>

theorem change_priority_moves:
  assumes "sinv {} s A" and "created s t" and "p < NUM_TASK_PRIORITIES"
  shows "sinv {} (scheduler_change_task_priority t p s) (reprioritised s t p A) \<and>
    tcb (scheduler_change_task_priority t p s) = (tcb s)(t := (tcb s t)\<lparr>priority := p\<rparr>)"
proof -
  have "synced s t" using sinvD(6) [OF assms(1)] assms(2) by (simp add: all_synced_def)
  then show ?thesis using change_priority_sinv(1,2) [OF assms(1,2) _ assms(3)] by simp
qed

theorem change_priority_moves_witness:
  "sinv {} (scheduler_change_task_priority (TcbPool 2 0) 4 demo_kernel) (reprioritised demo_kernel (TcbPool 2 0) 4 demo_lists) \<and>
   reprioritised demo_kernel (TcbPool 2 0) 4 demo_lists (ReadyList 2 4) = [StateItem (TcbPool 2 0)]"
proof -
  have c: "core_id (tcb demo_kernel (TcbPool 2 0)) = 2"
    using tcbs_okD(2) [OF sinvD(5) [OF demo_kernel_facts(2)], of "TcbPool 2 0"] demo_kernel_facts(7) by simp
  show ?thesis
    using change_priority_moves [OF demo_kernel_facts(2), of "TcbPool 2 0" 4] demo_kernel_facts(7)
    by (simp add: reprioritised_def demo_kernel_facts(5) task_consts demo_lists_def c)
qed

text \<open>\<open>task_create\<close>, when the pool and the heap have room, returns \<open>E_OK\<close> with a task control
  block that was not in use, clamps the priority, puts the task at the back of its ready list, and gives it a stack
  that overlaps no other task's; with more than 16 words of stack, the words above \<open>current_sp\<close> are the exception
  frame and no watermark, old or new, is overwritten.\<close>

theorem task_create_correct:
  fixes d :: u16
  assumes "sinv {} s A" and "tinv s" and "intact s" and "c < COMPANION_CORE_MAX_CORES"
    and "unat (task_counter s c) \<noteq> MAX_NUM_TASKS" and "unat (heap_offset s) + 4 * unat d \<le> unat HEAP_SIZE_BYTES"
    and "16 < unat d"
  shows "\<exists>t s'. task_create trap c f d p arg s = (E_OK, Some t, s') \<and> \<not> created s t \<and> tinv s' \<and> intact s' \<and>
    sinv {} s' (A(ReadyList c (clamp_prio p) := A (ReadyList c (clamp_prio p)) @ [StateItem t])) \<and>
    priority (tcb s' t) = clamp_prio p \<and>
    map (\<lambda>i. stack_mem s' (HeapWords, snd (current_sp (tcb s' t)) + int i)) [0..<16] = [arg] @ replicate 12 0 @ [trap, f, 0x13]"
proof -
  let ?t = "TcbPool c (unat (task_counter s c))" and ?base = "int (unat (heap_offset s)) div 4"
  obtain s' where s': "task_create trap c f d p arg s = (E_OK, Some ?t, s')" "\<not> created s ?t" "tinv s'"
    "sinv ({} - {?t}) s' (A(ReadyList c (clamp_prio p) := A (ReadyList c (clamp_prio p)) @ [StateItem ?t]))"
    "priority (tcb s' ?t) = clamp_prio p" "current_sp (tcb s' ?t) = (HeapWords, ?base + int (unat d) - 16)"
    and m: "stack_mem s' = snd (task_init_stack trap (HeapWords, ?base + int (unat d) - 1) f arg
                          (fill_words (HeapWords, ?base) (unat d) TASK_WATERMARK (stack_mem s)))"
    by (rule task_create_ok [OF assms(1,2,4,5,6), of trap f p arg]) (rule that)
  have "intact s'" using task_create_intact [OF assms(1,2,4,3,5,6,7), of trap f p arg] s'(1) by simp
  moreover have "map (\<lambda>i. stack_mem s' (HeapWords, snd (current_sp (tcb s' ?t)) + int i)) [0..<16] = [arg] @ replicate 12 0 @ [trap, f, 0x13]"
  proof -
    let ?I = "task_init_stack trap (HeapWords, ?base + int (unat d) - 1) f arg
                (fill_words (HeapWords, ?base) (unat d) TASK_WATERMARK (stack_mem s))"
    note F = task_init_stack_frame(1,2) [OF surjective_pairing [of ?I]]
    have "fst ?I = (HeapWords, ?base + int (unat d) - 16)" using F(1) by simp
    then show ?thesis using F(2) unfolding m s'(6) by (simp only: fst_conv snd_conv)
  qed
  ultimately show ?thesis using s' by auto
qed

theorem task_create_correct_witness:
  "\<exists>t s'. task_create 0x9000 2 0xC000 300 9 5 demo_ready = (E_OK, Some t, s') \<and> priority (tcb s' t) = 5"
  using task_create_correct [OF demo_ready_facts(1,2,3), of 2 300 "0x9000" "0xC000" 9 5]
  by (auto simp: demo_ready_facts task_consts HEAP_SIZE_BYTES_def clamp_prio_def)

end
