(* ===== verification/Spinlock.thy ===== *)
theory Spinlock
  imports Task_Types "HOL-Library.Product_Lexorder"
begin

text \<open>
  \<^verbatim>\<open>kernel/spinlock/spinlock.c\<close>: Lamport's bakery lock between the cores. The lock is a step
  relation over its two shared arrays and the cores' program counters. One step is one access to a
  shared word (the code puts a \<open>dmb\<close> between any two of them, so accesses are sequentially consistent); the
  re-reads of a spinning core that change nothing are not steps. Tickets are 32-bit and \<open>max_ticket + 1\<close>
  wraps; the exclusion theorem is about executions in which no draw wraps.
\<close>

datatype pc =
    Outside
  | Draw nat u32     \<comment> \<open>in the loop over all tickets: next index and \<open>max_ticket\<close> so far\<close>
  | Wrote            \<comment> \<open>own ticket written, \<open>choosing\<close> still set\<close>
  | WaitChoosing nat \<comment> \<open>at \<open>while (lock->choosing[i])\<close>\<close>
  | WaitTicket nat   \<comment> \<open>in the inner \<open>while (1)\<close> for core \<open>i\<close>\<close>
  | Inside

record Spinlock =
  choosing :: "nat \<Rightarrow> u32"
  ticket :: "nat \<Rightarrow> u32"

record bakery = Spinlock +
  pc :: "nat \<Rightarrow> pc"

definition spinlock_init :: "bakery \<Rightarrow> bakery" where
  "spinlock_init s =
     s\<lparr>choosing := (\<lambda>i. if i < COMPANION_CORE_MAX_CORES then 0 else choosing s i),
       ticket := (\<lambda>i. if i < COMPANION_CORE_MAX_CORES then 0 else ticket s i)\<rparr>"

text \<open>The three \<open>break\<close> conditions of the inner loop.\<close>

definition goes_first :: "nat \<Rightarrow> u32 \<Rightarrow> nat \<Rightarrow> u32 \<Rightarrow> bool" where
  "goes_first me my_ticket i their_ticket \<longleftrightarrow>
     their_ticket = 0 \<or> their_ticket > my_ticket \<or> their_ticket = my_ticket \<and> i > me"

definition goto :: "nat \<Rightarrow> pc \<Rightarrow> bakery \<Rightarrow> bakery" where
  "goto me p s = s\<lparr>pc := (pc s)(me := p)\<rparr>"

inductive spinlock_acquire :: "nat \<Rightarrow> bakery \<Rightarrow> bakery \<Rightarrow> bool" for me where
  announce: "pc s me = Outside \<Longrightarrow>
    spinlock_acquire me s (goto me (Draw 0 0) (s\<lparr>choosing := (choosing s)(me := 1)\<rparr>))"
| scan: "pc s me = Draw i m \<Longrightarrow> i < COMPANION_CORE_MAX_CORES \<Longrightarrow>
    spinlock_acquire me s (goto me (Draw (Suc i) (if ticket s i > m then ticket s i else m)) s)"
| draw: "pc s me = Draw COMPANION_CORE_MAX_CORES m \<Longrightarrow>
    spinlock_acquire me s (goto me Wrote (s\<lparr>ticket := (ticket s)(me := m + 1)\<rparr>))"
| publish: "pc s me = Wrote \<Longrightarrow>
    spinlock_acquire me s (goto me (WaitChoosing 0) (s\<lparr>choosing := (choosing s)(me := 0)\<rparr>))"
| skip_self: "pc s me = WaitChoosing me \<Longrightarrow> me < COMPANION_CORE_MAX_CORES \<Longrightarrow>
    spinlock_acquire me s (goto me (WaitChoosing (Suc me)) s)"
| chosen: "pc s me = WaitChoosing i \<Longrightarrow> i < COMPANION_CORE_MAX_CORES \<Longrightarrow> i \<noteq> me \<Longrightarrow> choosing s i = 0 \<Longrightarrow>
    spinlock_acquire me s (goto me (WaitTicket i) s)"
| passed: "pc s me = WaitTicket i \<Longrightarrow> goes_first me (ticket s me) i (ticket s i) \<Longrightarrow>
    spinlock_acquire me s (goto me (WaitChoosing (Suc i)) s)"
| enter: "pc s me = WaitChoosing COMPANION_CORE_MAX_CORES \<Longrightarrow>
    spinlock_acquire me s (goto me Inside s)"

inductive spinlock_release :: "nat \<Rightarrow> bakery \<Rightarrow> bakery \<Rightarrow> bool" for me where
  leave: "pc s me = Inside \<Longrightarrow>
    spinlock_release me s (goto me Outside (s\<lparr>ticket := (ticket s)(me := 0)\<rparr>))"

definition lock_step :: "nat \<Rightarrow> bakery \<Rightarrow> bakery \<Rightarrow> bool" where
  "lock_step me s s' \<longleftrightarrow> spinlock_acquire me s s' \<or> spinlock_release me s s'"

text \<open>A draw wraps when the largest ticket in sight is the largest 32-bit number.\<close>

definition wraps :: "nat \<Rightarrow> bakery \<Rightarrow> bool" where
  "wraps me s \<longleftrightarrow> pc s me = Draw COMPANION_CORE_MAX_CORES (- 1)"

inductive lock_reach :: "bakery \<Rightarrow> bool" where
  init: "(\<And>i. i < COMPANION_CORE_MAX_CORES \<Longrightarrow> pc s i = Outside) \<Longrightarrow> lock_reach (spinlock_init s)"
| step: "lock_reach s \<Longrightarrow> me < COMPANION_CORE_MAX_CORES \<Longrightarrow> lock_step me s s' \<Longrightarrow> \<not> wraps me s \<Longrightarrow> lock_reach s'"

lemma goto_simps [simp]:
  "pc (goto me p s) = (pc s)(me := p)" "choosing (goto me p s) = choosing s" "ticket (goto me p s) = ticket s"
  by (simp_all add: goto_def)

inductive_cases acquireE: "spinlock_acquire me s s'"
inductive_cases releaseE: "spinlock_release me s s'"

subsection \<open>The invariant\<close>

definition written :: "pc \<Rightarrow> bool" where
  "written p = (case p of Outside \<Rightarrow> False | Draw _ _ \<Rightarrow> False | _ \<Rightarrow> True)"

definition is_choosing :: "pc \<Rightarrow> bool" where
  "is_choosing p = (case p of Draw _ _ \<Rightarrow> True | Wrote \<Rightarrow> True | _ \<Rightarrow> False)"

definition pc_ok :: "nat \<Rightarrow> bakery \<Rightarrow> bool" where
  "pc_ok i s \<longleftrightarrow>
     (choosing s i \<noteq> 0 \<longleftrightarrow> is_choosing (pc s i)) \<and> (ticket s i \<noteq> 0 \<longleftrightarrow> written (pc s i)) \<and>
     (case pc s i of Draw k m \<Rightarrow> k \<le> COMPANION_CORE_MAX_CORES | WaitChoosing k \<Rightarrow> k \<le> COMPANION_CORE_MAX_CORES
      | WaitTicket k \<Rightarrow> k < COMPANION_CORE_MAX_CORES \<and> k \<noteq> i | _ \<Rightarrow> True)"

text \<open>Core \<open>i\<close> has got past core \<open>j\<close> in its waiting loop.\<close>

definition has_passed :: "nat \<Rightarrow> nat \<Rightarrow> bakery \<Rightarrow> bool" where
  "has_passed i j s = (case pc s i of Inside \<Rightarrow> True | WaitChoosing k \<Rightarrow> j < k | WaitTicket k \<Rightarrow> j < k | _ \<Rightarrow> False)"

text \<open>A core \<open>j\<close> that is drawing has either not read \<open>i\<close>'s ticket yet or will draw a larger one.\<close>

definition draws_after :: "nat \<Rightarrow> nat \<Rightarrow> bakery \<Rightarrow> bool" where
  "draws_after i j s = (case pc s j of Draw k m \<Rightarrow> i < k \<longrightarrow> ticket s i \<le> m | _ \<Rightarrow> True)"

definition behind :: "nat \<Rightarrow> nat \<Rightarrow> bakery \<Rightarrow> bool" where
  "behind i j s \<longleftrightarrow> draws_after i j s \<and> (written (pc s j) \<longrightarrow> (ticket s i, i) < (ticket s j, j))"

definition pair_ok :: "nat \<Rightarrow> nat \<Rightarrow> bakery \<Rightarrow> bool" where
  "pair_ok i j s \<longleftrightarrow> (has_passed i j s \<longrightarrow> behind i j s) \<and> (pc s i = WaitTicket j \<longrightarrow> draws_after i j s)"

definition lock_inv :: "bakery \<Rightarrow> bool" where
  "lock_inv s \<longleftrightarrow> (\<forall>i<COMPANION_CORE_MAX_CORES. pc_ok i s) \<and>
     (\<forall>i<COMPANION_CORE_MAX_CORES. \<forall>j<COMPANION_CORE_MAX_CORES. i \<noteq> j \<longrightarrow> pair_ok i j s)"

lemmas lock_defs = pc_ok_def has_passed_def draws_after_def behind_def pair_ok_def written_def is_choosing_def

lemma u32_plus1: "(m :: u32) \<noteq> - 1 \<Longrightarrow> m + 1 \<noteq> 0 \<and> m < m + 1"
proof -
  assume "m \<noteq> - 1"
  then have ne: "1 + m \<noteq> 0" by (metis add.commute eq_neg_iff_add_eq_0)
  then show ?thesis by (simp add: word_less_nat_alt unatSuc [OF ne] add.commute [of m])
qed

lemma pc_ok_step:
  assumes "pc_ok i s" "i < COMPANION_CORE_MAX_CORES" "lock_step me s s'" "\<not> wraps me s" "me < COMPANION_CORE_MAX_CORES"
  shows "pc_ok i s'"
  using assms(3) unfolding lock_step_def
proof
  assume "spinlock_acquire me s s'"
  then show ?thesis using assms(1,2,4,5) u32_plus1
    by cases (auto simp: lock_defs wraps_def Suc_le_eq split: pc.splits)
next
  assume "spinlock_release me s s'"
  then show ?thesis using assms(1) by cases (auto simp: lock_defs split: pc.splits)
qed

lemma pair_ok_step:
  assumes ok: "pair_ok i j s" "pc_ok i s" "pc_ok j s" and ij: "i \<noteq> j" "i < COMPANION_CORE_MAX_CORES" "j < COMPANION_CORE_MAX_CORES"
    and st: "lock_step me s s'" "\<not> wraps me s"
  shows "pair_ok i j s'"
  using st(1) unfolding lock_step_def
proof
  assume acq: "spinlock_acquire me s s'"
  consider "me = i" | "me = j" | "me \<noteq> i" "me \<noteq> j" by blast
  then show ?thesis
  proof cases
    case 1
    from acq show ?thesis
    proof cases
      case (passed k)
      then show ?thesis using ok ij 1 less_Suc_eq [of j k] by (auto simp: lock_defs goes_first_def split: pc.splits)
    next
      case (chosen k)
      then show ?thesis using ok ij 1 by (cases "k = j") (simp_all add: lock_defs split: pc.splits)
    qed (use ok ij 1 in \<open>simp_all add: lock_defs less_Suc_eq split: pc.splits\<close>)
  next
    case 2
    from acq show ?thesis
    proof cases
      case (scan k m)
      then show ?thesis using ok ij 2 by (auto simp: lock_defs less_Suc_eq not_less split: pc.splits)
    next
      case (draw m)
      then show ?thesis using ok ij 2 st(2) u32_plus1 [of m] by (auto simp: lock_defs wraps_def split: pc.splits)
    qed (use ok ij 2 in \<open>simp_all add: lock_defs split: pc.splits\<close>)
  next
    case 3
    from acq 3 have "pc s' i = pc s i" "pc s' j = pc s j" "ticket s' i = ticket s i" "ticket s' j = ticket s j"
      by (cases; simp)+
    with ok(1) show ?thesis by (simp add: lock_defs cong: pc.case_cong)
  qed
next
  assume "spinlock_release me s s'"
  then show ?thesis using ok by cases (auto simp: lock_defs split: pc.splits)
qed

lemma lock_inv_reach: "lock_reach s \<Longrightarrow> lock_inv s"
proof (induction rule: lock_reach.induct)
  case (init s)
  then show ?case by (auto simp: lock_inv_def spinlock_init_def lock_defs)
next
  case (step s me s')
  then show ?case unfolding lock_inv_def using pc_ok_step pair_ok_step by meson
qed

lemma lock_exclusion:
  assumes "lock_inv s" "i < COMPANION_CORE_MAX_CORES" "j < COMPANION_CORE_MAX_CORES" "pc s i = Inside" "pc s j = Inside"
  shows "i = j"
proof (rule ccontr)
  assume "i \<noteq> j"
  then have "pair_ok i j s" "pair_ok j i s" using assms(1-3) by (auto simp: lock_inv_def)
  then show False using assms(4,5) by (auto simp: lock_defs)
qed

text \<open>Progress: as long as some core competes, a core that competes can take a step.\<close>

lemma lock_can_step:
  assumes inv: "lock_inv s" and c: "c < COMPANION_CORE_MAX_CORES" "pc s c \<noteq> Outside"
  shows "\<exists>me<COMPANION_CORE_MAX_CORES. pc s me \<noteq> Outside \<and> (\<exists>s'. lock_step me s s')"
proof -
  let ?N = COMPANION_CORE_MAX_CORES
  have ok: "pc_ok i s" if "i < ?N" for i using inv that by (simp add: lock_inv_def)
  let ?go = "\<lambda>i. \<exists>s'. lock_step i s s'"
  have draw: "?go i" if "i < ?N" "is_choosing (pc s i)" for i
    using that ok [of i] by (cases "pc s i") (auto simp: lock_defs lock_step_def le_less intro: spinlock_acquire.intros)
  show ?thesis
  proof (cases "\<exists>i<?N. pc s i \<noteq> Outside \<and> \<not> (\<exists>k. pc s i = WaitTicket k)")
    case True
    then obtain i where i: "i < ?N" "pc s i \<noteq> Outside" "\<And>k. pc s i \<noteq> WaitTicket k" by blast
    show ?thesis
    proof (cases "pc s i")
      case (WaitChoosing k)
      show ?thesis
      proof (cases "k < ?N \<and> k \<noteq> i \<and> choosing s k \<noteq> 0")
        case True
        then show ?thesis using draw [of k] ok [of k] by (auto simp: pc_ok_def is_choosing_def split: pc.splits)
      next
        case False
        then consider "k = ?N" | "k = i" | "k < ?N" "k \<noteq> i" "choosing s k = 0"
          using WaitChoosing i(1) ok [OF i(1)] by (force simp: pc_ok_def)
        then have "?go i"
          by cases (use WaitChoosing i(1) in \<open>auto simp: lock_step_def intro: enter skip_self chosen\<close>)
        with i show ?thesis by blast
      qed
    next
      case Inside
      then have "?go i" by (auto simp: lock_step_def intro: spinlock_release.intros)
      with i show ?thesis by blast
    qed (use i draw [of i] in \<open>auto simp: is_choosing_def\<close>)
  next
    case False
    let ?C = "{i. i < ?N \<and> pc s i \<noteq> Outside}"
    have fin: "finite ((\<lambda>i. (ticket s i, i)) ` ?C)" and ne: "(\<lambda>i. (ticket s i, i)) ` ?C \<noteq> {}" using c by auto
    obtain i where i: "i \<in> ?C" "Min ((\<lambda>i. (ticket s i, i)) ` ?C) = (ticket s i, i)"
      using Min_in [OF fin ne] by auto
    obtain k where k: "pc s i = WaitTicket k" using False i(1) by blast
    have kN: "k < ?N" "k \<noteq> i" using ok [of i] i(1) k by (auto simp: pc_ok_def)
    have "goes_first i (ticket s i) k (ticket s k)"
    proof (cases "pc s k = Outside")
      case True
      then show ?thesis using ok [OF kN(1)] by (simp add: goes_first_def lock_defs)
    next
      case False
      then have "(ticket s i, i) \<le> (ticket s k, k)"
        using Min_le [OF fin, of "(ticket s k, k)"] kN(1) i(2) by auto
      then show ?thesis using kN(2) by (auto simp: goes_first_def)
    qed
    then have "?go i" using k by (auto simp: lock_step_def intro: spinlock_acquire.intros)
    with i(1) show ?thesis by blast
  qed
qed

subsection \<open>What a lock promises to the code it guards\<close>

text \<open>A lock is a reachable set, a step relation and who holds it. A guarded object is written only by a core
  that holds the lock. Then nothing that another core does changes the object while a core holds
  the lock: a critical section can be taken as one atomic operation on the object, which is how the kernel operations
  are modelled.\<close>

locale exclusive_lock =
  fixes reach :: "'s \<Rightarrow> bool" and step :: "nat \<Rightarrow> 's \<Rightarrow> 's \<Rightarrow> bool" and holds :: "'s \<Rightarrow> nat \<Rightarrow> bool"
    and cores :: nat and allowed :: "nat \<Rightarrow> 's \<Rightarrow> bool"
  assumes exclusion: "reach s \<Longrightarrow> i < cores \<Longrightarrow> j < cores \<Longrightarrow> holds s i \<Longrightarrow> holds s j \<Longrightarrow> i = j"
    and reach_step: "reach s \<Longrightarrow> i < cores \<Longrightarrow> step i s s' \<Longrightarrow> allowed i s \<Longrightarrow> reach s'"
    and others_keep: "step i s s' \<Longrightarrow> i \<noteq> j \<Longrightarrow> holds s' j = holds s j"
begin

inductive guarded :: "nat \<Rightarrow> 's \<times> 'o \<Rightarrow> 's \<times> 'o \<Rightarrow> bool" where
  lock: "i < cores \<Longrightarrow> step i s s' \<Longrightarrow> allowed i s \<Longrightarrow> guarded i (s, obj) (s', obj)"
| update: "i < cores \<Longrightarrow> holds s i \<Longrightarrow> guarded i (s, obj) (s, obj')"

inductive others :: "nat \<Rightarrow> 's \<times> 'o \<Rightarrow> 's \<times> 'o \<Rightarrow> bool" for me where
  none: "others me c c"
| more: "others me c c1 \<Longrightarrow> guarded i c1 c2 \<Longrightarrow> i \<noteq> me \<Longrightarrow> others me c c2"

lemma section_atomic:
  assumes "others me (s, obj) c'" and "reach s" "me < cores" "holds s me"
  shows "snd c' = obj \<and> reach (fst c') \<and> holds (fst c') me"
  using assms
proof (induction "(s, obj)" c' rule: others.induct)
  case none
  then show ?case by simp
next
  case (more c1 i c2)
  from \<open>guarded i c1 c2\<close> show ?case
  proof cases
    case (lock s1 s2 ob)
    then show ?thesis using more reach_step others_keep [of i s1 s2 me] by auto
  next
    case (update s1 ob ob')
    then show ?thesis using more exclusion [of s1 i me] by auto
  qed
qed

end

definition holds_lock :: "bakery \<Rightarrow> nat \<Rightarrow> bool" where
  "holds_lock s i \<longleftrightarrow> pc s i = Inside"

interpretation bakery_lock: exclusive_lock lock_reach lock_step holds_lock COMPANION_CORE_MAX_CORES "\<lambda>i s. \<not> wraps i s"
proof
  fix s i j
  show "lock_reach s \<Longrightarrow> i < COMPANION_CORE_MAX_CORES \<Longrightarrow> j < COMPANION_CORE_MAX_CORES \<Longrightarrow> holds_lock s i \<Longrightarrow> holds_lock s j \<Longrightarrow> i = j"
    using lock_exclusion [OF lock_inv_reach] by (simp add: holds_lock_def)
next
  show "lock_step i s s' \<Longrightarrow> i \<noteq> j \<Longrightarrow> holds_lock s' j = holds_lock s j" for i j s s'
    by (auto simp: lock_step_def holds_lock_def elim!: acquireE releaseE)
next
  show "lock_reach s \<Longrightarrow> i < COMPANION_CORE_MAX_CORES \<Longrightarrow> lock_step i s s' \<Longrightarrow> \<not> wraps i s \<Longrightarrow> lock_reach s'" for s i s'
    by (rule lock_reach.step)
qed

subsection \<open>Running one core\<close>

text \<open>The next step of a core as a function, for running the lock on concrete states.\<close>

definition next_acquire :: "nat \<Rightarrow> bakery \<Rightarrow> bakery option" where
  "next_acquire me s =
     (case pc s me of
        Outside \<Rightarrow> Some (goto me (Draw 0 0) (s\<lparr>choosing := (choosing s)(me := 1)\<rparr>))
      | Draw i m \<Rightarrow>
          if i < COMPANION_CORE_MAX_CORES then Some (goto me (Draw (Suc i) (if ticket s i > m then ticket s i else m)) s)
          else if i = COMPANION_CORE_MAX_CORES \<and> m \<noteq> - 1 then Some (goto me Wrote (s\<lparr>ticket := (ticket s)(me := m + 1)\<rparr>))
          else None
      | Wrote \<Rightarrow> Some (goto me (WaitChoosing 0) (s\<lparr>choosing := (choosing s)(me := 0)\<rparr>))
      | WaitChoosing i \<Rightarrow>
          if i = COMPANION_CORE_MAX_CORES then Some (goto me Inside s)
          else if i < COMPANION_CORE_MAX_CORES \<and> i = me then Some (goto me (WaitChoosing (Suc i)) s)
          else if i < COMPANION_CORE_MAX_CORES \<and> choosing s i = 0 then Some (goto me (WaitTicket i) s)
          else None
      | WaitTicket i \<Rightarrow> if goes_first me (ticket s me) i (ticket s i) then Some (goto me (WaitChoosing (Suc i)) s) else None
      | Inside \<Rightarrow> None)"

lemma next_acquire_step: "next_acquire me s = Some s' \<Longrightarrow> spinlock_acquire me s s' \<and> \<not> wraps me s"
proof (cases "pc s me")
  case (Draw i m)
  then show "next_acquire me s = Some s' \<Longrightarrow> spinlock_acquire me s s' \<and> \<not> wraps me s"
    using scan [of s me i m] draw [of s me m] by (auto simp: next_acquire_def wraps_def split: if_splits)
qed (auto simp: next_acquire_def wraps_def split: if_splits intro: spinlock_acquire.intros)

fun run_acquire :: "nat \<Rightarrow> nat \<Rightarrow> bakery \<Rightarrow> bakery option" where
  "run_acquire 0 me s = Some s"
| "run_acquire (Suc n) me s = Option.bind (next_acquire me s) (run_acquire n me)"

lemma run_acquire_reach:
  "lock_reach s \<Longrightarrow> me < COMPANION_CORE_MAX_CORES \<Longrightarrow> run_acquire n me s = Some s' \<Longrightarrow> lock_reach s'"
proof (induction n arbitrary: s)
  case (Suc n)
  then obtain s1 where s1: "next_acquire me s = Some s1" "run_acquire n me s1 = Some s'" by (auto simp: bind_Some_iff)
  then have "lock_reach s1" using next_acquire_step [OF s1(1)] Suc.prems(1,2) by (auto simp: lock_step_def intro: lock_reach.step)
  then show ?case using Suc s1 by blast
qed simp

definition free_lock :: bakery where
  "free_lock = spinlock_init \<lparr>choosing = (\<lambda>_. 7), ticket = (\<lambda>_. 9), pc = (\<lambda>_. Outside)\<rparr>"

lemma free_lock_reach: "lock_reach free_lock"
  unfolding free_lock_def by (rule lock_reach.init) simp

definition taken_lock :: bakery where
  "taken_lock = the (run_acquire 15 2 free_lock)"

lemma taken_lock_facts: "run_acquire 15 2 free_lock = Some taken_lock" "pc taken_lock 2 = Inside" "pc taken_lock 3 = Outside"
proof -
  have "\<exists>s. run_acquire 15 2 free_lock = Some s \<and> pc s 2 = Inside \<and> pc s 3 = Outside"
    by (simp add: numeral_eq_Suc next_acquire_def free_lock_def spinlock_init_def goes_first_def task_consts)
  then show "run_acquire 15 2 free_lock = Some taken_lock" "pc taken_lock 2 = Inside" "pc taken_lock 3 = Outside"
    by (auto simp: taken_lock_def)
qed

lemma taken_lock_reach: "lock_reach taken_lock"
  by (rule run_acquire_reach [OF free_lock_reach _ taken_lock_facts(1)]) (simp add: task_consts)

subsection \<open>The properties\<close>

text \<open>Claim C4 (safety). Mutual exclusion of the bakery lock: in every state reachable by any interleaving of the
  cores' accesses in which no ticket draw wraps around, at most one core is inside the critical section.\<close>

theorem bakery_mutual_exclusion:
  assumes "lock_reach s" and "i < COMPANION_CORE_MAX_CORES" and "j < COMPANION_CORE_MAX_CORES"
    and "pc s i = Inside" and "pc s j = Inside"
  shows "i = j"
  using lock_exclusion [OF lock_inv_reach] assms by blast

theorem bakery_mutual_exclusion_witness:
  "{i. i < COMPANION_CORE_MAX_CORES \<and> pc taken_lock i = Inside} = {2}"
  using bakery_mutual_exclusion [OF taken_lock_reach, of _ 2] taken_lock_facts(2) by (auto simp: task_consts)

text \<open>Claim C5 (liveness). The bakery lock does not deadlock: in every reachable state in which some core wants or holds
  the lock, some such core has a step that is not a mere re-read.\<close>

theorem bakery_deadlock_free:
  assumes "lock_reach s" and "c < COMPANION_CORE_MAX_CORES" and "pc s c \<noteq> Outside"
  shows "\<exists>me<COMPANION_CORE_MAX_CORES. pc s me \<noteq> Outside \<and> (\<exists>s'. lock_step me s s')"
  by (rule lock_can_step [OF lock_inv_reach [OF assms(1)] assms(2,3)])

theorem bakery_deadlock_free_witness:
  "\<exists>me<COMPANION_CORE_MAX_CORES. pc taken_lock me \<noteq> Outside \<and> (\<exists>s'. lock_step me taken_lock s')"
  by (rule bakery_deadlock_free [OF taken_lock_reach, of 2]) (simp_all add: taken_lock_facts task_consts)

text \<open>Critical sections are atomic: while a core is inside, no sequence of steps of the other cores, be
  they lock steps or writes to the guarded object made under the lock, changes the object or lets another core in.\<close>

theorem bakery_section_atomic:
  assumes "bakery_lock.others me (s, obj) c" and "lock_reach s" and "me < COMPANION_CORE_MAX_CORES" and "holds_lock s me"
  shows "snd c = obj \<and> lock_reach (fst c) \<and> holds_lock (fst c) me"
  by (rule bakery_lock.section_atomic [OF assms])

theorem bakery_section_atomic_witness:
  "\<exists>s'. lock_step 3 taken_lock s' \<and> lock_reach s' \<and> holds_lock s' 2"
proof -
  obtain s' where s': "next_acquire 3 taken_lock = Some s'"
    by (simp add: next_acquire_def taken_lock_facts(3))
  then have st: "lock_step 3 taken_lock s'" "\<not> wraps 3 taken_lock"
    using next_acquire_step [OF s'] by (simp_all add: lock_step_def)
  have "bakery_lock.guarded 3 (taken_lock, 41 :: nat) (s', 41)"
    by (rule bakery_lock.guarded.lock [OF _ st]) (simp add: task_consts)
  then have "bakery_lock.others 2 (taken_lock, 41 :: nat) (s', 41)"
    by (rule bakery_lock.others.more [OF bakery_lock.others.none]) simp
  from bakery_section_atomic [OF this taken_lock_reach] st show ?thesis
    by (auto simp: taken_lock_facts holds_lock_def task_consts)
qed

end
