(* ===== verification/Waiting.thy ===== *)
theory Waiting
  imports Scheduler_Inv
begin

text \<open>
  Waiting on a mutex or a semaphore. Both components do the same three things to a task: put its event item at
  the tail of the object's wait list and take it off its ready list (with or without a deadline), take a waiter out of
  the wait list, and make it ready again. They are named here, with what each does to the scheduler invariant.
\<close>

definition block_on :: "lptr \<Rightarrow> tptr \<Rightarrow> u64 option \<Rightarrow> kernel \<Rightarrow> kernel option" where
  "block_on E t deadline s = do {
     let s1 = link_tail E (EventItem t) t s;
     let s2 = snd (scheduler_remove_from_ready_list (Some t) s1);
     s3 \<leftarrow> (case deadline of
             None \<Rightarrow> Some s2
           | Some d \<Rightarrow> do { (_, s3) \<leftarrow> scheduler_add_to_blocked_list (Some t) d s2; Some s3 });
     Some (upd_tcb t (\<lambda>b. b\<lparr>current_state := TASK_STATE_BLOCKED\<rparr>) s3)
   }"

definition make_ready :: "tptr \<Rightarrow> kernel \<Rightarrow> kernel" where
  "make_ready t s = snd (scheduler_add_to_ready_list (Some t) (snd (scheduler_remove_from_blocked_list (Some t) s)))"

text \<open>Updates of fields the invariant does not depend on.\<close>

lemma sinv_upd_other [wf_intros]:
  assumes i: "sinv X s A"
    and f: "\<And>b. stack_base (f b) = stack_base b" "\<And>b. core_id (f b) = core_id b" "\<And>b. priority (f b) = priority b"
      "\<And>b. base_priority (f b) = base_priority b" "\<And>b. wakeup_time (f b) = wakeup_time b"
      "\<And>b. current_state (f b) = current_state b"
  shows "sinv X (upd_tcb t f s) A"
proof (rule sinvI)
  note D = sinvD [OF i]
  show "wfl (upd_tcb t f s) A" by (rule wfl_upd_tcb [OF D(1)])
  show "typed (upd_tcb t f s) A" by (rule typed_upd [OF D(2)]) (auto simp: created_def f)
  show "delay_sorted (upd_tcb t f s) A" by (rule delay_sorted_upd [OF D(3)]) (auto simp: waketime_def f)
  show "index_ok (upd_tcb t f s) A" by (rule index_ok_upd [OF D(4)]) auto
  show "tcbs_ok (upd_tcb t f s)" by (rule tcbs_ok_same [OF D(5)]) (auto simp: f)
  show "all_synced X (upd_tcb t f s)"
    using D(6) synced_cong [of "upd_tcb t f s" _ s] by (auto simp: all_synced_def created_def f)
qed

text \<open>The contents of the lists after a task has blocked.\<close>

definition blocked_on :: "kernel \<Rightarrow> lptr \<Rightarrow> tptr \<Rightarrow> u64 option \<Rightarrow> (lptr \<Rightarrow> iptr list) \<Rightarrow> lptr \<Rightarrow> iptr list" where
  "blocked_on s E t deadline A =
     (let A1 = A(E := A E @ [EventItem t], ready_list_of s t := remove1 (StateItem t) (A (ready_list_of s t)));
          B = BlockedTaskList (core_id (tcb s t))
      in case deadline of None \<Rightarrow> A1 | Some d \<Rightarrow> A1(B := delay_insert (waketime s) d (StateItem t) (A B)))"

lemma sinv_block_on:
  assumes i: "sinv X s A" and cr: "created s t" and ev: "event_list E"
    and st: "li_container (items s (StateItem t)) = Some (ready_list_of s t)" "li_container (items s (EventItem t)) = None"
  obtains s' where "block_on E t deadline s = Some s'" and "sinv (X - {t}) s' (blocked_on s E t deadline A)"
    and "tcb s' = (tcb s)(t := (tcb s t)\<lparr>wakeup_time := (case deadline of None \<Rightarrow> wakeup_time (tcb s t) | Some d \<Rightarrow> d),
                                         current_state := TASK_STATE_BLOCKED\<rparr>)"
    and "p_task_control_block s' = p_task_control_block s" and "tick_count s' = tick_count s"
    and "stack_mem s' = stack_mem s" and "mutexes s' = mutexes s" and "semaphores s' = semaphores s" and "queues s' = queues s"
    and "\<And>u. u \<noteq> t \<Longrightarrow> li_container (items s' (EventItem u)) = li_container (items s (EventItem u))"
    and "\<And>u. u \<noteq> t \<Longrightarrow> li_container (items s' (StateItem u)) = li_container (items s (StateItem u))"
proof -
  note T = tcbs_okD [OF sinvD(5) [OF i] cr]
  let ?R = "ready_list_of s t" and ?B = "BlockedTaskList (core_id (tcb s t))"
  let ?s1 = "link_tail E (EventItem t) t s" and ?A1 = "A(E := A E @ [EventItem t])"
  have i1: "sinv (insert t X) ?s1 ?A1" by (rule sinv_link_event [OF i st(2) ev cr])
  have R1: "ready_list_of ?s1 t = ?R" by (simp add: ready_list_of_def)
  have cr1: "created ?s1 t" using cr by (simp add: created_def)
  have c1: "li_container (items ?s1 (StateItem t)) = Some (ready_list_of ?s1 t)" by (simp add: st R1)
  have RE: "?R \<noteq> E" "?B \<noteq> E" using ev by (auto simp: ready_list_of_def)
  let ?s2 = "unlink_ready ?R (StateItem t) ?s1" and ?A2 = "?A1(?R := remove1 (StateItem t) (A ?R))"
  have rr: "scheduler_remove_from_ready_list (Some t) ?s1 = (E_OK, ?s2)"
    using remove_from_ready_sinv(1) [OF i1 cr1 c1] by (simp add: R1)
  have i2: "sinv (insert t X) ?s2 ?A2"
    using remove_from_ready_sinv(2) [OF i1 cr1 c1] RE by (simp add: R1)
  let ?f = "\<lambda>b. b\<lparr>current_state := TASK_STATE_BLOCKED\<rparr>"
  show ?thesis
  proof (cases deadline)
    case None
    have "sinv (insert t X - {t}) (upd_tcb t ?f ?s2) ?A2"
      by (rule sinv_upd_state [OF i2]) (auto simp: synced_def)
    moreover have "block_on E t deadline s = Some (upd_tcb t ?f ?s2)" by (simp add: block_on_def None rr Let_def)
    ultimately show ?thesis
      using RE by (intro that [of "upd_tcb t ?f ?s2"]) (simp_all add: None blocked_on_def Let_def)
  next
    case (Some d)
    have wt: "waketime ?s2 = waketime s" by (simp add: fun_eq_iff waketime_def)
    have AB: "?A2 ?B = A ?B" using RE by simp
    obtain s3 where s3: "scheduler_add_to_blocked_list (Some t) d ?s2 = Some (E_OK, s3)"
        "sinv (insert t (insert t X)) s3 (?A2(?B := delay_insert (waketime s) d (StateItem t) (A ?B)))"
        "tcb s3 = tcb (set_wakeup t d ?s2)" "p_task_control_block s3 = p_task_control_block ?s2" "tick_count s3 = tick_count ?s2"
        "stack_mem s3 = stack_mem ?s2" "mutexes s3 = mutexes ?s2" "semaphores s3 = semaphores ?s2" "queues s3 = queues ?s2"
      and ct: "\<And>y. li_container (items s3 y) = (if y = StateItem t then Some ?B else li_container (items ?s2 y))"
      by (rule sinv_add_blocked [OF i2, of t ?B d]) (use cr in \<open>simp_all add: created_def wt RE\<close>)
    have "sinv (insert t (insert t X) - {t}) (upd_tcb t ?f s3) (?A2(?B := delay_insert (waketime s) d (StateItem t) (A ?B)))"
      by (rule sinv_upd_state [OF s3(2)]) (auto simp: synced_def ct s3(3))
    moreover have "block_on E t deadline s = Some (upd_tcb t ?f s3)" by (simp add: block_on_def Some rr s3(1) Let_def)
    ultimately show ?thesis
      using RE by (intro that [of "upd_tcb t ?f s3"]) (simp_all add: Some s3 ct set_wakeup_def blocked_on_def Let_def)
  qed
qed

text \<open>A task that is in no wait list, and in its core's delay list or in none, becomes ready.\<close>

lemma sinv_make_ready:
  assumes i: "sinv X s A" and cr: "created s t" and ev: "li_container (items s (EventItem t)) = None"
    and st: "li_container (items s (StateItem t)) \<in> {None, Some (BlockedTaskList (core_id (tcb s t)))}"
  shows "sinv (X - {t}) (make_ready t s) (woken s t A)"
    and "tcb (make_ready t s) = (tcb s)(t := (tcb s t)\<lparr>current_state := TASK_STATE_READY\<rparr>)"
    and "p_task_control_block (make_ready t s) = p_task_control_block s" and "tick_count (make_ready t s) = tick_count s"
    and "mutexes (make_ready t s) = mutexes s" and "semaphores (make_ready t s) = semaphores s"
    and "queues (make_ready t s) = queues s" and "stack_mem (make_ready t s) = stack_mem s"
    and "\<And>u. li_container (items (make_ready t s) (EventItem u)) = li_container (items s (EventItem u))"
    and "\<And>u. u \<noteq> t \<Longrightarrow> li_container (items (make_ready t s) (StateItem u)) = li_container (items s (StateItem u))"
proof -
  note D = sinvD [OF i] and T = tcbs_okD [OF sinvD(5) [OF i] cr]
  let ?B = "BlockedTaskList (core_id (tcb s t))"
  define s1 where "s1 = (if li_container (items s (StateItem t)) = Some ?B then unlink ?B (StateItem t) s else s)"
  have eq: "make_ready t s = snd (scheduler_add_to_ready_list (Some t) s1)"
    using remove_from_blocked_eq [OF T(5)] by (simp add: make_ready_def s1_def)
  have fr: "tcb s1 = tcb s" "p_task_control_block s1 = p_task_control_block s" "tick_count s1 = tick_count s"
    "mutexes s1 = mutexes s" "semaphores s1 = semaphores s" "queues s1 = queues s" "stack_mem s1 = stack_mem s"
    by (simp_all add: s1_def)
  have ct: "li_container (items s1 y) = (if y = StateItem t then None else li_container (items s y))" for y
    using st by (auto simp: s1_def)
  have ne: "(\<lambda>L. remove1 (EventItem t) (A L)) = A" using remove1_fun_None [OF D(1) ev] by simp
  have i1: "sinv (insert t X) s1 (\<lambda>L. remove1 (StateItem t) (A L))"
  proof (cases "li_container (items s (StateItem t)) = Some ?B")
    case True
    then show ?thesis using sinv_unlink_blocked [OF i True] remove1_fun [OF D(1) True] by (simp add: s1_def)
  next
    case False
    with st have "li_container (items s (StateItem t)) = None" by simp
    from remove1_fun_None [OF D(1) this] i show ?thesis using False by (auto simp: s1_def intro: sinv_mono)
  qed
  have R: "ready_list_of s1 t = ready_list_of s t" by (simp add: ready_list_of_def fr)
  have w: "woken s t A = (\<lambda>L. remove1 (StateItem t) (A L) @ (if L = ready_list_of s t then [StateItem t] else []))"
    using ne by (auto simp: woken_def fun_eq_iff remove1_commute [of "EventItem t"])
  have "sinv (insert t X - {t}) (snd (scheduler_add_to_ready_list (Some t) s1)) (woken s t A)"
    using sinv_add_ready(2) [OF i1, of t] cr ev
    by (simp add: created_def R w fr ct fun_upd_def if_distrib cong: if_cong)
  then show "sinv (X - {t}) (make_ready t s) (woken s t A)" by (simp add: eq)
  have p: "priority (tcb s1 t) < NUM_TASK_PRIORITIES" "core_id (tcb s1 t) < COMPANION_CORE_MAX_CORES" using T by (simp_all add: fr)
  show "tcb (make_ready t s) = (tcb s)(t := (tcb s t)\<lparr>current_state := TASK_STATE_READY\<rparr>)"
    unfolding eq add_ready_tcb [OF p] by (simp add: fr)
  show "p_task_control_block (make_ready t s) = p_task_control_block s" "tick_count (make_ready t s) = tick_count s"
    "mutexes (make_ready t s) = mutexes s" "semaphores (make_ready t s) = semaphores s"
    "queues (make_ready t s) = queues s" "stack_mem (make_ready t s) = stack_mem s" by (simp_all add: eq fr)
  show "li_container (items (make_ready t s) (EventItem u)) = li_container (items s (EventItem u))" for u
    unfolding eq add_ready_container [OF p] by (simp add: ct)
  show "li_container (items (make_ready t s) (StateItem u)) = li_container (items s (StateItem u))" if "u \<noteq> t" for u
    using that unfolding eq add_ready_container [OF p] by (simp add: ct)
qed

text \<open>A waiter is blocked, so its state item is where \<open>make_ready\<close> expects it.\<close>

lemma waiter_blocked:
  assumes i: "sinv X s A" and mem: "EventItem t \<in> set (A E)" and nX: "t \<notin> X"
  shows "created s t" "current_state (tcb s t) = TASK_STATE_BLOCKED" "li_container (items s (EventItem t)) = Some E"
    "li_container (items s (StateItem t)) \<in> {None, Some (BlockedTaskList (core_id (tcb s t)))}"
proof -
  note D = sinvD [OF i]
  show cr: "created s t" using typedD [OF D(2) mem] by simp
  show c: "li_container (items s (EventItem t)) = Some E" using mem by (simp add: wfl_container [OF D(1)])
  have "synced s t" using D(6) cr nX by (simp add: all_synced_def)
  with c show "current_state (tcb s t) = TASK_STATE_BLOCKED"
    "li_container (items s (StateItem t)) \<in> {None, Some (BlockedTaskList (core_id (tcb s t)))}"
    by (auto simp: synced_def split: TaskState.splits)
qed

text \<open>Popping the head of a wait list, as \<open>semaphore_give\<close> does it: the unlinking of the event item is split
  around the removal from the delay list.\<close>

definition clear_item :: "iptr \<Rightarrow> kernel \<Rightarrow> kernel" where
  "clear_item x s = upd_item x (\<lambda>i. i\<lparr>li_next := None, li_prev := None, li_container := None\<rparr>) s"

lemma upd_item_commute: "x \<noteq> y \<Longrightarrow> upd_item x f (upd_item y g s) = upd_item y g (upd_item x f s)"
  by (simp add: upd_item_def fun_upd_twist)

lemma upd_item_list_commute: "upd_item x f (upd_list L g s) = upd_list L g (upd_item x f s)"
  by (simp add: upd_item_def upd_list_def)

lemma clear_stitch_commute:
  assumes "x \<noteq> y" "li_prev (items s y) \<noteq> Some x" "li_next (items s y) \<noteq> Some x"
  shows "upd_item x f (stitch L y s) = stitch L y (upd_item x f s)"
  using assms
  by (cases "li_prev (items s y)"; cases "li_next (items s y)")
    (auto simp: stitch_def upd_item_list_commute upd_item_commute [of x])

lemma clear_unlink_commute:
  assumes "x \<noteq> y" "li_prev (items s y) \<noteq> Some x" "li_next (items s y) \<noteq> Some x"
  shows "clear_item x (unlink L y s) = unlink L y (clear_item x s)"
  using assms
  by (simp add: clear_item_def unlink_def detach_def upd_item_commute [of x y] upd_item_list_commute clear_stitch_commute)

end
