(* ===== verification/Semaphore.thy ===== *)
theory Semaphore
  imports Waiting
begin

text \<open>
  \<^verbatim>\<open>kernel/semaphore/semaphore.c\<close>. \<open>semaphore_take\<close> is a loop of two critical sections with a spin on
  \<open>current_state\<close> between them, and its sections are separate operations here: \<open>semaphore_take_try\<close> runs from the
  top of the loop to the spin (or to a \<open>return\<close>), \<open>semaphore_take_wake\<close> is the section after the spin, which
  returns or goes back to the top. \<open>int64_t timeout_ms\<close> is a 64-bit word read with \<^const>\<open>sint\<close>.
\<close>

datatype take_result = TakeReturns StatusCode | TakeBlocked | TakeRetries

definition semaphore_add_to_blocked_list :: "sptr \<Rightarrow> tptr \<Rightarrow> kernel \<Rightarrow> kernel" where
  "semaphore_add_to_blocked_list smph t s = link_tail (SemaphoreBlockedList smph) (EventItem t) t s"

definition semaphore_init :: "sptr \<Rightarrow> u32 \<Rightarrow> u32 \<Rightarrow> kernel \<Rightarrow> kernel" where
  "semaphore_init smph max_cnt initial_count s =
     upd_list (SemaphoreBlockedList smph) (\<lambda>_. empty_list)
       (upd_sem smph (\<lambda>m. m\<lparr>max_count := max_cnt, sem_count := initial_count\<rparr>) s)"

text \<open>The deadline is computed once, before the loop.\<close>

definition take_deadline :: "core \<Rightarrow> u64 \<Rightarrow> kernel \<Rightarrow> u64" where
  "take_deadline c timeout_ms s = (if sint timeout_ms > 0 then scheduler_get_tick_count c s + timeout_ms else 0)"

definition semaphore_take_try :: "sptr \<Rightarrow> core \<Rightarrow> tptr \<Rightarrow> u64 \<Rightarrow> u64 \<Rightarrow> kernel \<Rightarrow> (take_result \<times> kernel) option" where
  "semaphore_take_try smph c cur_tcb timeout_ms deadline s =
     (if sem_count (semaphores s smph) > 0
      then Some (TakeReturns E_OK, upd_sem smph (\<lambda>m. m\<lparr>sem_count := sem_count m - 1\<rparr>) s)
      else if timeout_ms = 0 then Some (TakeReturns E_TIMED_OUT, s)
      else if sint timeout_ms > 0 \<and> scheduler_get_tick_count c s \<ge> deadline then Some (TakeReturns E_TIMED_OUT, s)
      else do {
        let s1 = semaphore_add_to_blocked_list smph cur_tcb s;
        let s2 = snd (scheduler_remove_from_ready_list (Some cur_tcb) s1);
        s3 \<leftarrow> (if sint timeout_ms > 0
               then do { (_, s3) \<leftarrow> scheduler_add_to_blocked_list (Some cur_tcb) deadline s2; Some s3 }
               else Some s2);
        Some (TakeBlocked, upd_tcb cur_tcb (\<lambda>b. b\<lparr>current_state := TASK_STATE_BLOCKED\<rparr>) s3)
      })"

definition semaphore_take_wake :: "tptr \<Rightarrow> kernel \<Rightarrow> take_result \<times> kernel" where
  "semaphore_take_wake cur_tcb s =
     (if wakeup_reason (tcb s cur_tcb) = WAKEUP_REASON_RESOURCE_ACQUIRED
      then (TakeReturns E_OK, upd_tcb cur_tcb (\<lambda>b. b\<lparr>wakeup_reason := WAKEUP_REASON_NONE\<rparr>) s)
      else (TakeRetries, s))"

definition semaphore_give :: "sptr \<Rightarrow> kernel \<Rightarrow> (StatusCode \<times> kernel) option" where
  "semaphore_give smph s =
     (let E = SemaphoreBlockedList smph
      in if l_num_items (list_at s E) > 0
         then do {
           h \<leftarrow> l_head (list_at s E);
           let t = li_owner (items s h);
           let s1 = upd_list E (\<lambda>l. l\<lparr>l_head := li_next (items s h)\<rparr>) s;
           let s2 = (case l_head (list_at s1 E) of
                       Some n \<Rightarrow> upd_item n (\<lambda>i. i\<lparr>li_prev := None\<rparr>) s1
                     | None \<Rightarrow> upd_list E (\<lambda>l. l\<lparr>l_list_end := None\<rparr>) s1);
           let s3 = upd_list E (\<lambda>l. l\<lparr>l_num_items := l_num_items l - 1\<rparr>) s2;
           let s4 = snd (scheduler_remove_from_blocked_list (Some t) s3);
           let s5 = upd_item (EventItem t) (\<lambda>i. i\<lparr>li_next := None, li_prev := None, li_container := None\<rparr>) s4;
           let s6 = upd_tcb t (\<lambda>b. b\<lparr>wakeup_reason := WAKEUP_REASON_RESOURCE_ACQUIRED\<rparr>) s5;
           Some (E_OK, snd (scheduler_add_to_ready_list (Some t) s6))
         }
         else if sem_count (semaphores s smph) < max_count (semaphores s smph)
         then Some (E_OK, upd_sem smph (\<lambda>m. m\<lparr>sem_count := sem_count m + 1\<rparr>) s)
         else Some (E_RESOURCE_EXHAUSTED, s))"

subsection \<open>The invariant\<close>

text \<open>Counts are in range, and nobody waits while the count is positive.\<close>

definition sem_ok :: "kernel \<Rightarrow> (lptr \<Rightarrow> iptr list) \<Rightarrow> sptr \<Rightarrow> bool" where
  "sem_ok s A m \<longleftrightarrow> sem_count (semaphores s m) \<le> max_count (semaphores s m) \<and>
     (A (SemaphoreBlockedList m) \<noteq> [] \<longrightarrow> sem_count (semaphores s m) = 0)"

text \<open>Popping the head is unlinking it.\<close>

lemma pop_head_unlink:
  assumes w: "wfl s A" and AE: "A E = h # ys"
  shows "clear_item h (upd_list E (\<lambda>l. l\<lparr>l_num_items := l_num_items l - 1\<rparr>)
      (case li_next (items s h) of
         Some n \<Rightarrow> upd_item n (\<lambda>i. i\<lparr>li_prev := None\<rparr>) (upd_list E (\<lambda>l. l\<lparr>l_head := li_next (items s h)\<rparr>) s)
       | None \<Rightarrow> upd_list E (\<lambda>l. l\<lparr>l_list_end := None\<rparr>) (upd_list E (\<lambda>l. l\<lparr>l_head := li_next (items s h)\<rparr>) s)))
     = unlink E h s"
proof -
  have "li_prev (items s h) = None" using wfl_prev [OF w, of E "[]" h ys] AE by simp
  then show ?thesis by (auto simp: unlink_def detach_def stitch_def clear_item_def Let_def split: option.splits)
qed

lemma state_neighbours:
  assumes i: "sinv X s A" and c: "li_container (items s (StateItem t)) = Some (BlockedTaskList c)"
  shows "li_prev (items s (StateItem t)) \<noteq> Some (EventItem u)" "li_next (items s (StateItem t)) \<noteq> Some (EventItem u)"
proof -
  note D = sinvD [OF i]
  let ?L = "BlockedTaskList c"
  have "StateItem t \<in> set (A ?L)" using c by (simp add: wfl_container [OF D(1)])
  then obtain as bs where AL: "A ?L = as @ StateItem t # bs" by (auto simp: in_set_conv_decomp)
  have no: "EventItem u \<notin> set (A ?L)" using typed_event_list [OF D(2), of "EventItem u" ?L] by auto
  show "li_prev (items s (StateItem t)) \<noteq> Some (EventItem u)"
    using wfl_prev [OF D(1) AL] no AL by (auto split: if_splits dest: last_in_set)
  show "li_next (items s (StateItem t)) \<noteq> Some (EventItem u)"
    using wfl_next [OF D(1) AL] no AL by (auto split: list.splits)
qed


lemma upd_tcb_commute:
  "upd_item x g (upd_tcb t f s) = upd_tcb t f (upd_item x g s)" "upd_list L h (upd_tcb t f s) = upd_tcb t f (upd_list L h s)"
  by (simp_all add: upd_item_def upd_list_def upd_tcb_def)

lemma unlink_upd_tcb: "unlink L x (upd_tcb t f s) = upd_tcb t f (unlink L x s)"
  by (cases "li_prev (items s x)"; cases "li_next (items s x)")
    (auto simp: unlink_def detach_def stitch_def Let_def upd_tcb_commute)

lemma semaphore_give_eq:
  assumes i: "sinv {} s A" and AE: "A (SemaphoreBlockedList m) = h # ys"
  obtains t where "h = EventItem t"
    and "semaphore_give m s = Some (E_OK, make_ready t (upd_tcb t (\<lambda>b. b\<lparr>wakeup_reason := WAKEUP_REASON_RESOURCE_ACQUIRED\<rparr>)
           (unlink (SemaphoreBlockedList m) (EventItem t) s)))"
proof -
  note D = sinvD [OF i]
  let ?E = "SemaphoreBlockedList m" and ?f = "\<lambda>b. b\<lparr>wakeup_reason := WAKEUP_REASON_RESOURCE_ACQUIRED\<rparr>"
  obtain t where t: "h = EventItem t" using typed_event(2) [OF D(2), of h m] AE by auto
  have mem: "EventItem t \<in> set (A ?E)" using AE t by simp
  note W = waiter_blocked [OF i mem, simplified]
  have core: "core_id (tcb s t) < COMPANION_CORE_MAX_CORES" by (rule tcbs_okD(5) [OF D(5) W(1)])
  let ?B = "BlockedTaskList (core_id (tcb s t))" and ?y = "StateItem t"
  have ow: "li_owner (items s h) = t" using wfl_owner [OF D(1) mem] t by simp
  define s3 where "s3 = upd_list ?E (\<lambda>l. l\<lparr>l_num_items := l_num_items l - 1\<rparr>)
      (case li_next (items s h) of
         Some n \<Rightarrow> upd_item n (\<lambda>i. i\<lparr>li_prev := None\<rparr>) (upd_list ?E (\<lambda>l. l\<lparr>l_head := li_next (items s h)\<rparr>) s)
       | None \<Rightarrow> upd_list ?E (\<lambda>l. l\<lparr>l_list_end := None\<rparr>) (upd_list ?E (\<lambda>l. l\<lparr>l_head := li_next (items s h)\<rparr>) s))"
  have cl: "clear_item h s3 = unlink ?E h s" unfolding s3_def by (rule pop_head_unlink [OF D(1) AE])
  have nxt: "li_next (items s h) \<noteq> Some ?y"
    using wfl_next [OF D(1), of ?E "[]" h ys] AE typed_event_list [OF D(2), of ?y ?E] by (auto split: list.splits)
  have y3: "items s3 ?y = items s ?y" "tcb s3 = tcb s" using nxt by (auto simp: s3_def split: option.splits)
  have num: "l_num_items (list_at s ?E) > 0" using wfl_num_items_0 [OF D(1), of ?E] AE by (simp add: word_neq_0_conv [symmetric])
  have hd: "l_head (list_at s ?E) = Some h" using wfl_head [OF D(1), of ?E] AE by simp
  have give: "semaphore_give m s = Some (E_OK, snd (scheduler_add_to_ready_list (Some t)
      (upd_tcb t ?f (clear_item h (snd (scheduler_remove_from_blocked_list (Some t) s3))))))"
    using num hd ow
    by (simp add: semaphore_give_def Let_def s3_def t clear_item_def cong: option.case_cong)
  have "clear_item h (snd (scheduler_remove_from_blocked_list (Some t) s3)) =
      (if li_container (items s ?y) = Some ?B then unlink ?B ?y (unlink ?E h s) else unlink ?E h s)"
    using core state_neighbours [OF i, of t _ t]
    by (auto simp: remove_from_blocked_eq y3 t cl [unfolded t] clear_unlink_commute)
  moreover have "snd (scheduler_remove_from_blocked_list (Some t) (upd_tcb t ?f (unlink ?E h s))) =
      upd_tcb t ?f (if li_container (items s ?y) = Some ?B then unlink ?B ?y (unlink ?E h s) else unlink ?E h s)"
    using core by (simp add: remove_from_blocked_eq unlink_upd_tcb t)
  ultimately show ?thesis using give t by (intro that [of t]) (simp_all add: make_ready_def)
qed

lemma semaphore_give_sinv:
  assumes i: "sinv {} s A" and AE: "A (SemaphoreBlockedList m) = EventItem t # ys"
  obtains s' where "semaphore_give m s = Some (E_OK, s')" and "sinv {} s' (woken s t A)"
    and "tcb s' = (tcb s)(t := (tcb s t)\<lparr>wakeup_reason := WAKEUP_REASON_RESOURCE_ACQUIRED, current_state := TASK_STATE_READY\<rparr>)"
    and "p_task_control_block s' = p_task_control_block s" and "tick_count s' = tick_count s"
    and "mutexes s' = mutexes s" and "semaphores s' = semaphores s" and "queues s' = queues s" and "stack_mem s' = stack_mem s"
proof -
  note D = sinvD [OF i]
  let ?E = "SemaphoreBlockedList m" and ?f = "\<lambda>b. b\<lparr>wakeup_reason := WAKEUP_REASON_RESOURCE_ACQUIRED\<rparr>"
  let ?s1 = "upd_tcb t ?f (unlink ?E (EventItem t) s)"
  have mem: "EventItem t \<in> set (A ?E)" using AE by simp
  note W = waiter_blocked [OF i mem, simplified]
  have A1: "A(?E := remove1 (EventItem t) (A ?E)) = (\<lambda>L. remove1 (EventItem t) (A L))" by (rule remove1_fun [OF D(1) W(3)])
  have i1: "sinv {t} ?s1 (\<lambda>L. remove1 (EventItem t) (A L))"
    by (rule sinv_upd_other) (use sinv_unlink_event [OF i W(3)] in \<open>simp_all add: A1\<close>)
  note M = sinv_make_ready [OF i1, of t]
  have w: "woken ?s1 t (\<lambda>L. remove1 (EventItem t) (A L)) = woken s t A"
  proof
    fix L
    have "remove1 (EventItem t) (remove1 (EventItem t) (remove1 (StateItem t) (A L))) = remove1 (EventItem t) (remove1 (StateItem t) (A L))"
      by (rule remove1_idem) (simp add: wfl_distinct [OF D(1)])
    then show "woken ?s1 t (\<lambda>L. remove1 (EventItem t) (A L)) L = woken s t A L"
      by (simp add: woken_def ready_list_of_def remove1_commute [of "StateItem t"])
  qed
  have pre: "created ?s1 t" "li_container (items ?s1 (EventItem t)) = None"
    "li_container (items ?s1 (StateItem t)) \<in> {None, Some (BlockedTaskList (core_id (tcb ?s1 t)))}"
    using W by (auto simp: created_def)
  obtain t' where t': "EventItem t = EventItem t'" and g: "semaphore_give m s = Some (E_OK, make_ready t' (upd_tcb t' ?f (unlink ?E (EventItem t') s)))"
    by (rule semaphore_give_eq [OF i AE])
  have i2: "sinv {} (make_ready t ?s1) (woken s t A)" using M(1) [OF pre] unfolding w by simp
  show ?thesis
    by (rule that [OF _ i2]) (use t' g M(2-8) [OF pre] in simp_all)
qed

end
