(* ===== verification/Semaphore_Props.thy ===== *)
theory Semaphore_Props
  imports Semaphore Scheduler_Props
begin

text \<open>
  What a counting semaphore promises: an abstract specification (a bound, a count, a queue of waiting tasks), the proof that
  the sections of \<open>semaphore_take\<close> and \<open>semaphore_give\<close> implement it, and that a hand-over reaches its task.
\<close>

subsection \<open>What creation and switching leave alone\<close>

lemma task_create_objects:
  "mutexes (snd (snd (task_create trap c f d p arg s))) = mutexes s"
  "semaphores (snd (snd (task_create trap c f d p arg s))) = semaphores s"
  "queues (snd (snd (task_create trap c f d p arg s))) = queues s"
  by (auto simp: task_create_def heap_malloc_def task_init_stack_def Let_def split: prod.splits option.splits)

lemma retire_current_objects [simp]:
  "mutexes (retire_current c t s) = mutexes s" "semaphores (retire_current c t s) = semaphores s"
  "queues (retire_current c t s) = queues s"
  by (auto simp: retire_current_def Let_def split: option.splits)

lemma switch_context_objects:
  "scheduler_switch_context c s = Some s' \<Longrightarrow> mutexes s' = mutexes s \<and> semaphores s' = semaphores s \<and> queues s' = queues s"
  by (auto simp: scheduler_switch_context_def Let_def bind_Some_iff split: if_splits option.splits)

lemma demo_kernel_sems:
  "semaphores demo_kernel m = \<lparr>max_count = 0, sem_count = 0\<rparr>"
  "mutexes demo_kernel x = \<lparr>m_state = MUTEX_STATE_LOCKED, mutex_owner = None, inheritance_enabled = False, inherited_priority = 0\<rparr>"
proof -
  have i: "semaphores demo_init = semaphores bss_kernel \<and> mutexes demo_init = mutexes bss_kernel"
    by (simp add: demo_init_def scheduler_init_def Let_def task_consts)
  have r: "semaphores demo_ready = semaphores bss_kernel" "mutexes demo_ready = mutexes bss_kernel"
    using i by (simp_all add: demo_ready_def task_create_objects)
  show "semaphores demo_kernel m = \<lparr>max_count = 0, sem_count = 0\<rparr>"
    "mutexes demo_kernel x = \<lparr>m_state = MUTEX_STATE_LOCKED, mutex_owner = None, inheritance_enabled = False, inherited_priority = 0\<rparr>"
    using switch_context_objects [OF demo_kernel_facts(1)] by (simp_all add: r bss_kernel_def)
qed

subsection \<open>Taking\<close>

definition take_wait :: "u64 \<Rightarrow> u64 \<Rightarrow> u64 option" where
  "take_wait timeout_ms deadline = (if sint timeout_ms > 0 then Some deadline else None)"

lemma take_try_blocks:
  assumes "sem_count (semaphores s m) = 0" "timeout_ms \<noteq> 0" "\<not> (sint timeout_ms > 0 \<and> tick_count s c \<ge> deadline)"
  shows "semaphore_take_try m c t timeout_ms deadline s =
    map_option (Pair TakeBlocked) (block_on (SemaphoreBlockedList m) t (take_wait timeout_ms deadline) s)"
  using assms
  by (auto simp: semaphore_take_try_def block_on_def semaphore_add_to_blocked_list_def take_wait_def
      scheduler_get_tick_count_def Let_def map_conv_bind_option comp_def split: option.splits)

text \<open>The running task is on its ready list and waits for nothing.\<close>

definition can_run :: "kernel \<Rightarrow> core \<Rightarrow> tptr \<Rightarrow> bool" where
  "can_run s c t \<longleftrightarrow> p_task_control_block s c = Some t \<and> current_state (tcb s t) \<in> {TASK_STATE_READY, TASK_STATE_RUNNING}"

lemma can_runD:
  assumes "sinv X s A" "can_run s c t" "t \<notin> X"
  shows "created s t" "core_id (tcb s t) = c" "li_container (items s (StateItem t)) = Some (ready_list_of s t)"
    "li_container (items s (EventItem t)) = None"
proof -
  have "tcb_core t = c" and cr: "created s t"
    using tcbs_ok_cur [OF sinvD(5) [OF assms(1)], of c t] assms(2) by (auto simp: can_run_def)
  then show "created s t" "core_id (tcb s t) = c" using tcbs_okD(2) [OF sinvD(5) [OF assms(1)] cr] by simp_all
  have "synced s t" using sinvD(6) [OF assms(1)] cr assms(3) by (simp add: all_synced_def)
  then show "li_container (items s (StateItem t)) = Some (ready_list_of s t)" "li_container (items s (EventItem t)) = None"
    using assms(2) by (auto simp: can_run_def synced_def)
qed

subsection \<open>The abstract semaphore\<close>

text \<open>What a counting semaphore is to its users: a bound, a count and the queue of waiting tasks.\<close>

record sem_spec =
  sp_max :: nat
  sp_count :: nat
  sp_waiters :: "tptr list"

definition sem_abs :: "kernel \<Rightarrow> (lptr \<Rightarrow> iptr list) \<Rightarrow> sptr \<Rightarrow> sem_spec" where
  "sem_abs s A m = \<lparr>sp_max = unat (max_count (semaphores s m)), sp_count = unat (sem_count (semaphores s m)),
     sp_waiters = map item_tcb (A (SemaphoreBlockedList m))\<rparr>"

definition give_spec :: "sem_spec \<Rightarrow> StatusCode \<times> tptr option \<times> sem_spec" where
  "give_spec a =
     (case sp_waiters a of
        w # ws \<Rightarrow> (E_OK, Some w, a\<lparr>sp_waiters := ws\<rparr>)
      | [] \<Rightarrow> if sp_count a < sp_max a then (E_OK, None, a\<lparr>sp_count := sp_count a + 1\<rparr>)
              else (E_RESOURCE_EXHAUSTED, None, a))"

definition take_spec :: "tptr \<Rightarrow> bool \<Rightarrow> sem_spec \<Rightarrow> take_result \<times> sem_spec" where
  "take_spec t may_wait a =
     (if sp_count a > 0 then (TakeReturns E_OK, a\<lparr>sp_count := sp_count a - 1\<rparr>)
      else if may_wait then (TakeBlocked, a\<lparr>sp_waiters := sp_waiters a @ [t]\<rparr>)
      else (TakeReturns E_TIMED_OUT, a))"

lemma woken_event: "wfl s A \<Longrightarrow> woken s t A (SemaphoreBlockedList m) = remove1 (EventItem t) (remove1 (StateItem t) (A (SemaphoreBlockedList m)))"
  by (simp add: woken_def)

lemma unat_inc: "(x :: u32) < y \<Longrightarrow> unat (x + 1) = unat x + 1"
  using unat_lt2p [of y] by (simp add: word_less_nat_alt unat_word_ariths)

lemma unat_dec: "(x :: u32) > 0 \<Longrightarrow> unat (x - 1) = unat x - 1"
  by (simp add: unat_minus_one word_gt_0)

lemma semaphore_give_abs:
  assumes "sinv {} s A"
  shows "\<exists>r s' A'. semaphore_give m s = Some (r, s') \<and> sinv {} s' A' \<and>
    (let (r', w, a') = give_spec (sem_abs s A m)
     in r = r' \<and> sem_abs s' A' m = a' \<and>
        (case w of
           None \<Rightarrow> A' = A \<and> tcb s' = tcb s
         | Some t \<Rightarrow> A' = woken s t A \<and>
             tcb s' = (tcb s)(t := (tcb s t)\<lparr>wakeup_reason := WAKEUP_REASON_RESOURCE_ACQUIRED, current_state := TASK_STATE_READY\<rparr>)))"
proof (cases "A (SemaphoreBlockedList m)")
  case Nil
  have n: "\<not> l_num_items (list_at s (SemaphoreBlockedList m)) > 0"
    using wfl_num_items_0 [OF sinvD(1) [OF assms], of "SemaphoreBlockedList m"] Nil by simp
  let ?up = "upd_sem m (\<lambda>m. m\<lparr>sem_count := sem_count m + 1\<rparr>) s"
  have "sinv {} ?up A" by (rule sinv_cong [OF assms]) simp_all
  then show ?thesis
    using n assms Nil
    by (cases "sem_count (semaphores s m) < max_count (semaphores s m)")
      (auto simp: semaphore_give_def give_spec_def sem_abs_def word_less_nat_alt [symmetric] unat_inc Let_def)
next
  case (Cons h ys)
  then obtain t where t: "h = EventItem t" using typed_event(2) [OF sinvD(2) [OF assms], of h m] by auto
  have ws: "woken s t A (SemaphoreBlockedList m) = ys"
    using Cons t wfl_distinct [OF sinvD(1) [OF assms], of "SemaphoreBlockedList m"] typed_event(2) [OF sinvD(2) [OF assms], of "StateItem t" m]
    by (auto simp: woken_def intro!: remove1_idem)
  obtain s' where s': "semaphore_give m s = Some (E_OK, s')" "sinv {} s' (woken s t A)"
    "tcb s' = (tcb s)(t := (tcb s t)\<lparr>wakeup_reason := WAKEUP_REASON_RESOURCE_ACQUIRED, current_state := TASK_STATE_READY\<rparr>)"
    "semaphores s' = semaphores s"
    by (rule semaphore_give_sinv [OF assms Cons [unfolded t]])
  then show ?thesis
    by (intro exI [of _ E_OK] exI [of _ s'] exI [of _ "woken s t A"]) (simp add: give_spec_def sem_abs_def Cons t ws)
qed

text \<open>Claim C6 (refinement). \<open>semaphore_give\<close> implements the abstract semaphore: with waiters it hands the token to the
  task that has waited longest, which becomes ready with \<open>WAKEUP_REASON_RESOURCE_ACQUIRED\<close>, leaves the delay list
  and goes to the back of its ready list, and the count does not change; with none it counts up to the maximum and
  refuses to exceed it.\<close>

theorem semaphore_give_refines:
  assumes "sinv {} s A"
  shows "\<exists>r s' A'. semaphore_give m s = Some (r, s') \<and> sinv {} s' A' \<and>
    (let (r', w, a') = give_spec (sem_abs s A m)
     in r = r' \<and> sem_abs s' A' m = a' \<and>
        (case w of
           None \<Rightarrow> A' = A \<and> tcb s' = tcb s
         | Some t \<Rightarrow> A' = woken s t A \<and>
             tcb s' = (tcb s)(t := (tcb s t)\<lparr>wakeup_reason := WAKEUP_REASON_RESOURCE_ACQUIRED, current_state := TASK_STATE_READY\<rparr>)))"
  by (rule semaphore_give_abs [OF assms])

lemma semaphore_take_try_ex:
  assumes "sinv {} s A" and "can_run s c t" and z: "sem_count (semaphores s m) = 0"
    and "timeout_ms \<noteq> 0" and "sint timeout_ms > 0 \<longrightarrow> tick_count s c < deadline"
  shows "\<exists>s'. semaphore_take_try m c t timeout_ms deadline s = Some (TakeBlocked, s') \<and>
    sinv {} s' (blocked_on s (SemaphoreBlockedList m) t (take_wait timeout_ms deadline) A) \<and>
    current_state (tcb s' t) = TASK_STATE_BLOCKED \<and> semaphores s' = semaphores s"
proof -
  note R = can_runD [OF assms(1,2), simplified]
  show ?thesis
    by (rule sinv_block_on [OF assms(1) R(1) _ R(3,4), of "SemaphoreBlockedList m" "take_wait timeout_ms deadline"])
      (use take_try_blocks [OF z assms(4), where c = c and deadline = deadline and t = t] assms(5) in \<open>auto simp: not_le\<close>)
qed

text \<open>Claim C7 (refinement). The first section of \<open>semaphore_take\<close>, run by the core's current task, implements the
  abstract semaphore: it takes a token if there is one, gives up if it may not wait any more, and otherwise queues the
  task behind all earlier waiters, off its ready list and, with a timeout, in the delay list.\<close>

theorem semaphore_take_refines:
  assumes "sinv {} s A" and "can_run s c t"
  shows "\<exists>r s' A'. semaphore_take_try m c t timeout_ms deadline s = Some (r, s') \<and> sinv {} s' A' \<and>
    (r, sem_abs s' A' m) = take_spec t (timeout_ms \<noteq> 0 \<and> \<not> (sint timeout_ms > 0 \<and> tick_count s c \<ge> deadline)) (sem_abs s A m) \<and>
    (if r = TakeBlocked
     then A' = blocked_on s (SemaphoreBlockedList m) t (take_wait timeout_ms deadline) A \<and> current_state (tcb s' t) = TASK_STATE_BLOCKED
     else A' = A \<and> tcb s' = tcb s)"
proof (cases "sem_count (semaphores s m) > 0")
  case True
  let ?dn = "upd_sem m (\<lambda>m. m\<lparr>sem_count := sem_count m - 1\<rparr>) s"
  have "sinv {} ?dn A" by (rule sinv_cong [OF assms(1)]) simp_all
  with True show ?thesis
    by (auto simp: semaphore_take_try_def take_spec_def sem_abs_def unat_dec word_less_nat_alt unat_gt_0)
next
  case False
  then have z: "sem_count (semaphores s m) = 0" by (simp add: word_gt_0)
  let ?wait = "timeout_ms \<noteq> 0 \<and> \<not> (sint timeout_ms > 0 \<and> tick_count s c \<ge> deadline)"
  show ?thesis
  proof (cases ?wait)
    case True
    obtain s' where s': "semaphore_take_try m c t timeout_ms deadline s = Some (TakeBlocked, s')"
      "sinv {} s' (blocked_on s (SemaphoreBlockedList m) t (take_wait timeout_ms deadline) A)"
      "current_state (tcb s' t) = TASK_STATE_BLOCKED" "semaphores s' = semaphores s"
      using semaphore_take_try_ex [OF assms z, of timeout_ms deadline] True by (auto simp: not_le)
    have q: "blocked_on s (SemaphoreBlockedList m) t w A (SemaphoreBlockedList m) = A (SemaphoreBlockedList m) @ [EventItem t]" for w
      by (simp add: blocked_on_def Let_def split: option.splits)
    show ?thesis
      using s' z True by (intro exI [of _ TakeBlocked] exI [of _ s']) (auto simp: take_spec_def sem_abs_def q)
  next
    case no: False
    then have "semaphore_take_try m c t timeout_ms deadline s = Some (TakeReturns E_TIMED_OUT, s)"
      using z by (auto simp: semaphore_take_try_def scheduler_get_tick_count_def)
    then show ?thesis using assms(1) z no by (auto simp: take_spec_def sem_abs_def)
  qed
qed

theorem semaphore_take_refines_witness:
  "\<exists>s'. semaphore_take_try (Sem 0) 2 (TcbPool 2 0) 5 5 demo_kernel = Some (TakeBlocked, s') \<and>
     current_state (tcb s' (TcbPool 2 0)) = TASK_STATE_BLOCKED"
proof -
  have "can_run demo_kernel 2 (TcbPool 2 0)" by (simp add: can_run_def demo_kernel_facts(4,5))
  from semaphore_take_refines [OF demo_kernel_facts(2) this, of "Sem 0" 5 5] demo_kernel_sems show ?thesis
    by (auto simp: take_spec_def sem_abs_def demo_kernel_facts(8))
qed

text \<open>No wake-up is lost: a task that blocks in \<open>semaphore_take\<close> and is then reached by a
  \<open>semaphore_give\<close> returns \<open>E_OK\<close> from its second section, with its wake-up reason consumed, and the token is not
  counted twice.\<close>

theorem semaphore_handoff:
  assumes "sinv {} s A" and "can_run s c t" and "sem_count (semaphores s m) = 0" and "A (SemaphoreBlockedList m) = []"
    and "timeout_ms \<noteq> 0" and "sint timeout_ms > 0 \<longrightarrow> tick_count s c < deadline"
  shows "\<exists>s1 s2 s3 A3. semaphore_take_try m c t timeout_ms deadline s = Some (TakeBlocked, s1) \<and>
    semaphore_give m s1 = Some (E_OK, s2) \<and> semaphore_take_wake t s2 = (TakeReturns E_OK, s3) \<and> sinv {} s3 A3 \<and>
    current_state (tcb s3 t) = TASK_STATE_READY \<and> wakeup_reason (tcb s3 t) = WAKEUP_REASON_NONE \<and> sem_abs s3 A3 m = sem_abs s A m"
proof -
  from semaphore_take_try_ex [OF assms(1,2,3,5,6)] obtain s1 where s1: "semaphore_take_try m c t timeout_ms deadline s = Some (TakeBlocked, s1)"
    "sinv {} s1 (blocked_on s (SemaphoreBlockedList m) t (take_wait timeout_ms deadline) A)" "semaphores s1 = semaphores s" by blast
  let ?A1 = "blocked_on s (SemaphoreBlockedList m) t (take_wait timeout_ms deadline) A"
  have q: "?A1 (SemaphoreBlockedList m) = [EventItem t]"
    using assms(4) by (simp add: blocked_on_def Let_def split: option.splits)
  obtain s2 where s2: "semaphore_give m s1 = Some (E_OK, s2)" "sinv {} s2 (woken s1 t ?A1)"
    "tcb s2 = (tcb s1)(t := (tcb s1 t)\<lparr>wakeup_reason := WAKEUP_REASON_RESOURCE_ACQUIRED, current_state := TASK_STATE_READY\<rparr>)"
    "semaphores s2 = semaphores s1"
    by (rule semaphore_give_sinv [OF s1(2) q])
  let ?s3 = "upd_tcb t (\<lambda>b. b\<lparr>wakeup_reason := WAKEUP_REASON_NONE\<rparr>) s2"
  have "sinv {} ?s3 (woken s1 t ?A1)" by (rule sinv_upd_other [OF s2(2)]) simp_all
  moreover have "woken s1 t ?A1 (SemaphoreBlockedList m) = []" by (simp add: woken_def q)
  ultimately show ?thesis
    using s1 s2 assms(4) by (intro exI [of _ s1] exI [of _ s2] exI [of _ ?s3] exI [of _ "woken s1 t ?A1"])
      (simp add: semaphore_take_wake_def sem_abs_def)
qed

theorem semaphore_handoff_witness:
  "\<exists>s1 s2 s3. semaphore_take_try (Sem 0) 2 (TcbPool 2 0) (- 1) 0 demo_kernel = Some (TakeBlocked, s1) \<and>
    semaphore_give (Sem 0) s1 = Some (E_OK, s2) \<and> semaphore_take_wake (TcbPool 2 0) s2 = (TakeReturns E_OK, s3)"
proof -
  have "can_run demo_kernel 2 (TcbPool 2 0)" by (simp add: can_run_def demo_kernel_facts(4,5))
  from semaphore_handoff [OF demo_kernel_facts(2) this, of "Sem 0" "- 1" 0] demo_kernel_sems show ?thesis
    by (auto simp: demo_lists_def)
qed

theorem semaphore_give_refines_witness:
  "\<exists>r s' A'. semaphore_give (Sem 0) demo_kernel = Some (r, s') \<and> sinv {} s' A' \<and> r = E_RESOURCE_EXHAUSTED"
  using semaphore_give_refines [OF demo_kernel_facts(2), of "Sem 0"] demo_kernel_sems
  by (simp add: give_spec_def sem_abs_def demo_lists_def Let_def) blast

end
