(* ===== verification/Mutex.thy ===== *)
theory Mutex
  imports Semaphore_Props
begin

text \<open>
  \<^verbatim>\<open>kernel/mutex/mutex.c\<close>: mutexes with optional priority inheritance. \<open>mutex_lock\<close> is one
  critical section up to the spin on \<open>current_state\<close> (\<open>mutex_lock_enter\<close>) and one after it
  (\<open>mutex_lock_wake\<close>). The loop of \<open>mutex_unlock\<close> over the wait list follows the \<open>next\<close> pointers, so it is a
  \<^theory_text>\<open>partial_function\<close>; that it ends is proved. A result \<^const>\<open>None\<close> is a null dereference.
\<close>

datatype lock_result = LockReturns StatusCode | LockBlocked

definition mutex_init :: "mptr \<Rightarrow> kernel \<Rightarrow> kernel" where
  "mutex_init mtx s =
     upd_list (MutexBlockedList mtx) (\<lambda>_. empty_list)
       (upd_mutex mtx (\<lambda>m. m\<lparr>mutex_owner := None, m_state := MUTEX_STATE_UNLOCKED, inheritance_enabled := False,
                             inherited_priority := TASK_PRIORITY_IDLE\<rparr>) s)"

definition mutex_set_inheritance :: "mptr \<Rightarrow> bool \<Rightarrow> kernel \<Rightarrow> StatusCode \<times> kernel" where
  "mutex_set_inheritance mtx enable s =
     (if m_state (mutexes s mtx) = MUTEX_STATE_LOCKED \<or> l_num_items (list_at s (MutexBlockedList mtx)) > 0
      then (E_INVALID_ARGS, s)
      else (E_OK, upd_mutex mtx (\<lambda>m. m\<lparr>inheritance_enabled := enable\<rparr>) s))"

definition mutex_add_to_blocked_list :: "mptr \<Rightarrow> tptr \<Rightarrow> kernel \<Rightarrow> kernel" where
  "mutex_add_to_blocked_list mtx t s = link_tail (MutexBlockedList mtx) (EventItem t) t s"

definition mutex_lock_enter :: "mptr \<Rightarrow> core \<Rightarrow> u64 \<Rightarrow> kernel \<Rightarrow> (lock_result \<times> kernel) option" where
  "mutex_lock_enter mtx c timeout_ms s = do {
     cur_tcb \<leftarrow> scheduler_get_current_task c s;
     (if m_state (mutexes s mtx) = MUTEX_STATE_UNLOCKED
      then
        let s1 = upd_mutex mtx (\<lambda>m. m\<lparr>m_state := MUTEX_STATE_LOCKED, mutex_owner := Some cur_tcb\<rparr>) s
        in Some (LockReturns E_OK,
                 if inheritance_enabled (mutexes s1 mtx)
                 then upd_tcb cur_tcb (\<lambda>b. b\<lparr>mutexes_held := mutexes_held b + 1\<rparr>) s1 else s1)
      else if timeout_ms = 0 then Some (LockReturns E_TIMED_OUT, s)
      else do {
        let s1 = mutex_add_to_blocked_list mtx cur_tcb s;
        let s2 = snd (scheduler_remove_from_ready_list (Some cur_tcb) s1);
        s3 \<leftarrow> (if sint timeout_ms > 0
               then do { (_, s3) \<leftarrow> scheduler_add_to_blocked_list (Some cur_tcb) (scheduler_get_tick_count c s2 + timeout_ms) s2; Some s3 }
               else Some s2);
        let s4 = upd_tcb cur_tcb (\<lambda>b. b\<lparr>current_state := TASK_STATE_BLOCKED\<rparr>) s3;
        s5 \<leftarrow> (if inheritance_enabled (mutexes s4 mtx)
               then do {
                 let p = priority (tcb s4 cur_tcb);
                 let s5 = (if p > inherited_priority (mutexes s4 mtx)
                           then upd_mutex mtx (\<lambda>m. m\<lparr>inherited_priority := p\<rparr>) s4 else s4);
                 owner \<leftarrow> mutex_owner (mutexes s5 mtx);
                 Some (if priority (tcb s5 owner) < inherited_priority (mutexes s5 mtx)
                       then scheduler_change_task_priority owner (inherited_priority (mutexes s5 mtx)) s5 else s5)
               }
               else Some s4);
        Some (LockBlocked, s5)
      })
   }"

definition mutex_lock_wake :: "mptr \<Rightarrow> tptr \<Rightarrow> kernel \<Rightarrow> StatusCode" where
  "mutex_lock_wake mtx cur_tcb s = (if mutex_owner (mutexes s mtx) = Some cur_tcb then E_OK else E_TIMED_OUT)"

text \<open>The scan for the highest-priority waiter and the second-highest priority.\<close>

partial_function (option) mutex_scan :: "kernel \<Rightarrow> iptr option \<Rightarrow> iptr \<Rightarrow> TaskPriorityLevel \<Rightarrow> (iptr \<times> TaskPriorityLevel) option" where
  "mutex_scan s iter best second_best =
     (case iter of
        None \<Rightarrow> Some (best, second_best)
      | Some it \<Rightarrow>
          let pi = priority (tcb s (li_owner (items s it)));
              pb = priority (tcb s (li_owner (items s best)))
          in if pi > pb
             then mutex_scan s (li_next (items s it)) it (if pb > second_best then pb else second_best)
             else mutex_scan s (li_next (items s it)) best (if pi > second_best then pi else second_best))"

text \<open>The holder gives up one inheritance mutex and, with the last one, its boosted priority.\<close>

definition release_holder :: "mptr \<Rightarrow> tptr option \<Rightarrow> kernel \<Rightarrow> kernel" where
  "release_holder mtx holder s =
     (case holder of
        None \<Rightarrow> s
      | Some h \<Rightarrow>
          if inheritance_enabled (mutexes s mtx)
          then
            let s1 = upd_tcb h (\<lambda>b. b\<lparr>mutexes_held := mutexes_held b - 1\<rparr>) s
            in if mutexes_held (tcb s1 h) = 0 \<and> priority (tcb s1 h) \<noteq> base_priority (tcb s1 h)
               then scheduler_change_task_priority h (base_priority (tcb s1 h)) s1
               else s1
          else s)"

definition mutex_unlock :: "mptr \<Rightarrow> kernel \<Rightarrow> kernel option" where
  "mutex_unlock mtx s =
     (if m_state (mutexes s mtx) \<noteq> MUTEX_STATE_LOCKED then Some s
      else
        let holder = mutex_owner (mutexes s mtx);
            E = MutexBlockedList mtx
        in if l_num_items (list_at s E) = 0
           then Some (release_holder mtx holder
                  (upd_mutex mtx (\<lambda>m. m\<lparr>mutex_owner := None, m_state := MUTEX_STATE_UNLOCKED,
                                        inherited_priority := TASK_PRIORITY_IDLE\<rparr>) s))
           else do {
             h \<leftarrow> l_head (list_at s E);
             (best, second_best) \<leftarrow> mutex_scan s (li_next (items s h)) h TASK_PRIORITY_IDLE;
             let next_owner = li_owner (items s best);
             let s1 = detach E best (stitch E best s);
             let s2 = upd_mutex mtx (\<lambda>m. m\<lparr>inherited_priority := second_best\<rparr>) s1;
             let s3 = release_holder mtx holder s2;
             let s4 = upd_mutex mtx (\<lambda>m. m\<lparr>mutex_owner := Some next_owner\<rparr>) s3;
             let s5 = (if inheritance_enabled (mutexes s4 mtx)
                       then
                         let s5 = upd_tcb next_owner (\<lambda>b. b\<lparr>mutexes_held := mutexes_held b + 1\<rparr>) s4
                         in if inherited_priority (mutexes s5 mtx) > priority (tcb s5 next_owner)
                            then scheduler_change_task_priority next_owner (inherited_priority (mutexes s5 mtx)) s5
                            else s5
                       else s4);
             let s6 = snd (scheduler_remove_from_blocked_list (Some next_owner) s5);
             Some (snd (scheduler_add_to_ready_list (Some next_owner) s6))
           })"

subsection \<open>The scan\<close>

fun scan_list :: "('a \<Rightarrow> nat) \<Rightarrow> 'a list \<Rightarrow> 'a \<Rightarrow> nat \<Rightarrow> 'a \<times> nat" where
  "scan_list f [] best second_best = (best, second_best)"
| "scan_list f (x # xs) best second_best =
     (if f x > f best then scan_list f xs x (max (f best) second_best) else scan_list f xs best (max (f x) second_best))"

lemma scan_list_mem: "fst (scan_list f xs b k) \<in> set (b # xs)"
proof (induction xs arbitrary: b k)
  case (Cons x xs)
  then show ?case using Cons.IH [of x "max (f b) k"] Cons.IH [of b "max (f x) k"] by auto
qed simp

lemma scan_list_first:
  "fst (scan_list f xs b k) = r \<Longrightarrow>
     \<exists>us vs. b # xs = us @ r # vs \<and> (\<forall>u\<in>set us. f u < f r) \<and> (\<forall>v\<in>set vs. f v \<le> f r)"
proof (induction xs arbitrary: b k)
  case (Cons x xs)
  show ?case
  proof (cases "f x > f b")
    case True
    then have "fst (scan_list f xs x (max (f b) k)) = r" using Cons.prems by simp
    from Cons.IH [OF this] obtain us vs where uv: "x # xs = us @ r # vs" "\<forall>u\<in>set us. f u < f r" "\<forall>v\<in>set vs. f v \<le> f r"
      by blast
    have "f x \<le> f r" using uv by (cases us) auto
    then have "b # x # xs = (b # us) @ r # vs" "\<forall>u\<in>set (b # us). f u < f r" using True uv by auto
    with uv(3) show ?thesis by blast
  next
    case False
    then have "fst (scan_list f xs b (max (f x) k)) = r" using Cons.prems by simp
    from Cons.IH [OF this] obtain us vs where uv: "b # xs = us @ r # vs" "\<forall>u\<in>set us. f u < f r" "\<forall>v\<in>set vs. f v \<le> f r"
      by blast
    show ?thesis
    proof (cases us)
      case Nil
      then have "b # x # xs = [] @ r # x # xs" "\<forall>v\<in>set (x # xs). f v \<le> f r" using uv False by auto
      then show ?thesis by (metis empty_iff list.set(1))
    next
      case (Cons u us')
      then have "b # x # xs = (b # x # us') @ r # vs" "\<forall>v\<in>set (b # x # us'). f v < f r" using uv False by auto
      with uv(3) show ?thesis by blast
    qed
  qed
qed (intro exI [of _ "[]"], simp)

lemma Max_insert_pull: "finite S \<Longrightarrow> Max (insert (max a k) S) = Max (insert k (insert (a :: nat) S))"
  by (cases "S = {}") (simp_all add: max.commute max.left_commute)

lemma scan_list_second:
  "distinct (b # xs) \<Longrightarrow> fst (scan_list f xs b k) = r \<Longrightarrow>
     snd (scan_list f xs b k) = Max (insert k (f ` (set (b # xs) - {r})))"
proof (induction xs arbitrary: b k)
  case (Cons x xs)
  show ?case
  proof (cases "f x > f b")
    case True
    then have r: "fst (scan_list f xs x (max (f b) k)) = r" using Cons.prems by simp
    then have "b \<noteq> r" using scan_list_mem [of f xs x "max (f b) k"] Cons.prems by auto
    then have "set (b # x # xs) - {r} = insert b (set (x # xs) - {r})" by auto
    then show ?thesis using True Cons.IH [OF _ r] Cons.prems by (simp add: Max_insert_pull)
  next
    case False
    then have r: "fst (scan_list f xs b (max (f x) k)) = r" using Cons.prems by simp
    then have "x \<noteq> r" using scan_list_mem [of f xs b "max (f x) k"] Cons.prems by auto
    then have "set (b # x # xs) - {r} = insert x (set (b # xs) - {r})" by auto
    then show ?thesis using False Cons.IH [OF _ r] Cons.prems by (simp add: Max_insert_pull)
  qed
qed simp

text \<open>The pointer loop computes the scan of the wait list, so it ends.\<close>

definition item_prio :: "kernel \<Rightarrow> iptr \<Rightarrow> nat" where
  "item_prio s x = priority (tcb s (item_tcb x))"

lemma mutex_scan_seg:
  assumes "lseg (items s) p n xs l None" and "\<And>z. z \<in> insert b (set xs) \<Longrightarrow> li_owner (items s z) = item_tcb z"
  shows "mutex_scan s n b k = Some (scan_list (item_prio s) xs b k)"
  using assms
proof (induction xs arbitrary: p n b k)
  case Nil
  then show ?case by (subst mutex_scan.simps) simp
next
  case (Cons x xs)
  from Cons.prems have n: "n = Some x" and seg: "lseg (items s) (Some x) (li_next (items s x)) xs l None" by auto
  have IH: "mutex_scan s (li_next (items s x)) b' k' = Some (scan_list (item_prio s) xs b' k')" if "b' \<in> {x, b}" for b' k'
    by (rule Cons.IH [OF seg]) (use Cons.prems(2) that in auto)
  show ?case
    using Cons.prems(2) [of x] Cons.prems(2) [of b]
    by (subst mutex_scan.simps) (auto simp: n IH item_prio_def Let_def max_def)
qed

lemma mutex_scan_ok:
  assumes w: "wfl s A" and AE: "A (MutexBlockedList m) = h # xs"
  shows "mutex_scan s (li_next (items s h)) h 0 = Some (scan_list (item_prio s) xs h 0)"
proof (rule mutex_scan_seg)
  have "lseg (items s) None (l_head (list_at s (MutexBlockedList m))) (h # xs) (l_list_end (list_at s (MutexBlockedList m))) None"
    using dll_lseg [OF wfl_dll [OF w], of "MutexBlockedList m"] AE by simp
  then show "lseg (items s) (Some h) (li_next (items s h)) xs (l_list_end (list_at s (MutexBlockedList m))) None" by auto
  show "li_owner (items s z) = item_tcb z" if "z \<in> insert h (set xs)" for z
    using that wfl_owner [OF w, of z "MutexBlockedList m"] AE by simp
qed


subsection \<open>The mutex invariant and the scheduler invariant\<close>

text \<open>An initialised mutex is free and nobody waits, or it has an owner.\<close>

definition mutex_ok :: "kernel \<Rightarrow> (lptr \<Rightarrow> iptr list) \<Rightarrow> mptr \<Rightarrow> bool" where
  "mutex_ok s A m \<longleftrightarrow> inherited_priority (mutexes s m) < NUM_TASK_PRIORITIES \<and>
     (case m_state (mutexes s m) of
        MUTEX_STATE_UNLOCKED \<Rightarrow> mutex_owner (mutexes s m) = None \<and> A (MutexBlockedList m) = []
      | MUTEX_STATE_LOCKED \<Rightarrow> \<exists>h. mutex_owner (mutexes s m) = Some h \<and> created s h)"

lemma sinv_upd_mutex [wf_intros]: "sinv X s A \<Longrightarrow> sinv X (upd_mutex m f s) A"
  by (erule sinv_cong) simp_all

text \<open>Whether releasing the mutex makes the holder fall back to its base priority.\<close>

definition falls_back :: "mptr \<Rightarrow> tptr \<Rightarrow> kernel \<Rightarrow> bool" where
  "falls_back m h s \<longleftrightarrow> inheritance_enabled (mutexes s m) \<and> mutexes_held (tcb s h) - 1 = 0 \<and>
     priority (tcb s h) \<noteq> base_priority (tcb s h)"

text \<open>What the mutex changes in a task control block: priority, base priority, and the number of inheritance mutexes held.\<close>

definition rank :: "TaskControlBlock \<Rightarrow> nat \<times> nat \<times> u32" where
  "rank b = (priority b, base_priority b, mutexes_held b)"

lemma synced_upd_other:
  "synced s t \<Longrightarrow> (\<And>b. current_state (f b) = current_state b) \<Longrightarrow> (\<And>b. core_id (f b) = core_id b) \<Longrightarrow>
   (\<And>b. priority (f b) = priority b) \<Longrightarrow> synced (upd_tcb u f s) t"
  using synced_cong [of "upd_tcb u f s" t s] by simp

lemma release_holder_sinv:
  assumes i: "sinv X s A" and cr: "created s h" and sy: "synced s h" and hX: "h \<notin> X"
  shows "sinv X (release_holder m (Some h) s)
      (if falls_back m h s then reprioritised s h (base_priority (tcb s h)) A else A)"
    and "\<And>u. u \<noteq> h \<Longrightarrow> tcb (release_holder m (Some h) s) u = tcb s u"
    and "tcb (release_holder m (Some h) s) h =
      (if inheritance_enabled (mutexes s m)
       then (tcb s h)\<lparr>mutexes_held := mutexes_held (tcb s h) - 1,
                      priority := (if falls_back m h s then base_priority (tcb s h) else priority (tcb s h))\<rparr>
       else tcb s h)"
    and "mutexes (release_holder m (Some h) s) = mutexes s"
    and "p_task_control_block (release_holder m (Some h) s) = p_task_control_block s"
    and "\<And>u. li_container (items (release_holder m (Some h) s) (EventItem u)) = li_container (items s (EventItem u))"
    and "\<And>u. u \<noteq> h \<Longrightarrow>
      li_container (items (release_holder m (Some h) s) (StateItem u)) = li_container (items s (StateItem u))"
proof -
  let ?f = "\<lambda>b. b\<lparr>mutexes_held := mutexes_held b - 1\<rparr>"
  let ?s1 = "upd_tcb h ?f s" and ?b = "base_priority (tcb s h)"
  have i1: "sinv X ?s1 A" by (rule sinv_upd_other [OF i]) simp_all
  have cr1: "created ?s1 h" using cr by (simp add: created_def)
  have sy1: "synced ?s1 h" by (rule synced_upd_other [OF sy]) simp_all
  have b: "?b < NUM_TASK_PRIORITIES" using tcbs_okD(4) [OF sinvD(5) [OF i] cr] .
  note C = change_priority_sinv [OF i1 cr1 sy1 b]
  have rp: "reprioritised ?s1 h ?b A = reprioritised s h ?b A" by (simp add: reprioritised_def)
  have eq: "release_holder m (Some h) s =
      (if inheritance_enabled (mutexes s m) then if falls_back m h s then scheduler_change_task_priority h ?b ?s1 else ?s1 else s)"
    by (simp add: release_holder_def falls_back_def Let_def)
  have fb: "falls_back m h s \<Longrightarrow> inheritance_enabled (mutexes s m)" by (simp add: falls_back_def)
  show "sinv X (release_holder m (Some h) s) (if falls_back m h s then reprioritised s h ?b A else A)"
    using C(1) i i1 hX fb by (auto simp: eq rp)
  show "\<And>u. u \<noteq> h \<Longrightarrow> tcb (release_holder m (Some h) s) u = tcb s u" by (simp add: eq C(2))
  show "tcb (release_holder m (Some h) s) h =
      (if inheritance_enabled (mutexes s m)
       then (tcb s h)\<lparr>mutexes_held := mutexes_held (tcb s h) - 1,
                      priority := (if falls_back m h s then ?b else priority (tcb s h))\<rparr>
       else tcb s h)" by (simp add: eq C(2))
  show "mutexes (release_holder m (Some h) s) = mutexes s"
    "p_task_control_block (release_holder m (Some h) s) = p_task_control_block s" by (simp_all add: eq C)
  show "\<And>u. li_container (items (release_holder m (Some h) s) (EventItem u)) = li_container (items s (EventItem u))"
    by (simp add: eq C)
  show "\<And>u. u \<noteq> h \<Longrightarrow>
      li_container (items (release_holder m (Some h) s) (StateItem u)) = li_container (items s (StateItem u))"
    by (simp add: eq C)
qed

lemma synced_cong_X: "sinv X s A \<Longrightarrow> created s t \<Longrightarrow> t \<notin> X \<Longrightarrow> synced s t"
  by (simp add: sinv_def all_synced_def)

subsection \<open>Unlocking\<close>

lemma mutex_unlock_free:
  assumes i: "sinv {} s A" and l: "m_state (mutexes s m) = MUTEX_STATE_LOCKED" and own: "mutex_owner (mutexes s m) = Some h"
    and cr: "created s h" and none: "A (MutexBlockedList m) = []"
  obtains s' where "mutex_unlock m s = Some s'"
    and "sinv {} s' (if falls_back m h s then reprioritised s h (base_priority (tcb s h)) A else A)"
    and "mutexes s' = (mutexes s)(m := (mutexes s m)\<lparr>mutex_owner := None, m_state := MUTEX_STATE_UNLOCKED, inherited_priority := TASK_PRIORITY_IDLE\<rparr>)"
    and "\<And>u. u \<noteq> h \<Longrightarrow> tcb s' u = tcb s u"
    and "priority (tcb s' h) = (if falls_back m h s then base_priority (tcb s h) else priority (tcb s h))"
    and "\<And>u. rank (tcb s' u) = (if u = h \<and> falls_back m h s then base_priority (tcb s u) else priority (tcb s u), base_priority (tcb s u),
           if u = h \<and> inheritance_enabled (mutexes s m) then mutexes_held (tcb s u) - 1 else mutexes_held (tcb s u))"
proof -
  let ?s1 = "upd_mutex m (\<lambda>m. m\<lparr>mutex_owner := None, m_state := MUTEX_STATE_UNLOCKED, inherited_priority := TASK_PRIORITY_IDLE\<rparr>) s"
  have i1: "sinv {} ?s1 A" by (rule sinv_upd_mutex [OF i])
  have cr1: "created ?s1 h" using cr by (simp add: created_def)
  note R = release_holder_sinv [OF i1 cr1 synced_cong_X [OF i1 cr1], where m = m, simplified]
  have fb: "falls_back m h ?s1 = falls_back m h s" "reprioritised ?s1 h p A = reprioritised s h p A" for p
    by (simp_all add: falls_back_def reprioritised_def)
  have eq: "mutex_unlock m s = Some (release_holder m (Some h) ?s1)"
    using l own none wfl_num_items_0 [OF sinvD(1) [OF i], of "MutexBlockedList m"] by (simp add: mutex_unlock_def)
  show ?thesis
  proof (rule that [OF eq])
    show "rank (tcb (release_holder m (Some h) ?s1) u) =
        (if u = h \<and> falls_back m h s then base_priority (tcb s u) else priority (tcb s u), base_priority (tcb s u),
         if u = h \<and> inheritance_enabled (mutexes s m) then mutexes_held (tcb s u) - 1 else mutexes_held (tcb s u))" for u
      by (cases "u = h") (auto simp: R rank_def fb falls_back_def)
  qed (use R in \<open>auto simp: fb falls_back_def\<close>)
qed


text \<open>The next owner: the first of the waiters with the highest priority.\<close>

definition is_next_owner :: "kernel \<Rightarrow> iptr list \<Rightarrow> tptr \<Rightarrow> bool" where
  "is_next_owner s W n \<longleftrightarrow>
     (\<exists>us vs. W = us @ EventItem n # vs \<and> (\<forall>u\<in>set us. item_prio s u < priority (tcb s n)) \<and>
              (\<forall>v\<in>set vs. item_prio s v \<le> priority (tcb s n)))"

lemma mutex_scan_next:
  assumes i: "sinv {} s A" and W: "A (MutexBlockedList m) = h # xs"
  obtains n k where "mutex_scan s (li_next (items s h)) h TASK_PRIORITY_IDLE = Some (EventItem n, k)"
    and "is_next_owner s (A (MutexBlockedList m)) n" and "EventItem n \<in> set (A (MutexBlockedList m))"
    and "k = Max (insert 0 (item_prio s ` (set (A (MutexBlockedList m)) - {EventItem n})))" and "k \<le> priority (tcb s n)"
proof -
  note D = sinvD [OF i]
  let ?r = "scan_list (item_prio s) xs h 0"
  have sc: "mutex_scan s (li_next (items s h)) h TASK_PRIORITY_IDLE = Some ?r"
    using mutex_scan_ok [OF D(1) W] by (simp add: task_consts)
  have mem: "fst ?r \<in> set (A (MutexBlockedList m))" using scan_list_mem [of "item_prio s" xs h 0] W by simp
  then obtain n where n: "fst ?r = EventItem n" using typed_event(1) [OF D(2)] by blast
  have dist: "distinct (h # xs)" using wfl_distinct [OF D(1), of "MutexBlockedList m"] W by simp
  have k: "snd ?r = Max (insert 0 (item_prio s ` (set (A (MutexBlockedList m)) - {EventItem n})))"
    using scan_list_second [OF dist n] W by simp
  obtain us vs where uv: "h # xs = us @ EventItem n # vs" "\<forall>u\<in>set us. item_prio s u < item_prio s (EventItem n)"
    "\<forall>v\<in>set vs. item_prio s v \<le> item_prio s (EventItem n)"
    using scan_list_first [OF n] by blast
  have "item_prio s z \<le> priority (tcb s n)" if "z \<in> set (h # xs)" for z
    using that uv unfolding uv(1) by (auto simp: item_prio_def intro: less_imp_le)
  then have "snd ?r \<le> priority (tcb s n)" unfolding k W by (subst Max_le_iff) auto
  then show ?thesis
    using sc n k mem uv W by (intro that [of n "snd ?r"]) (auto simp: is_next_owner_def item_prio_def prod_eq_iff)
qed

lemma woken_drop_event:
  assumes "\<And>L. distinct (B L)" shows "woken s n (\<lambda>L. remove1 (EventItem n) (B L)) = woken s n B"
proof
  fix L
  have "remove1 (EventItem n) (remove1 (EventItem n) (remove1 (StateItem n) (B L))) = remove1 (EventItem n) (remove1 (StateItem n) (B L))"
    by (rule remove1_idem) (simp add: assms)
  then show "woken s n (\<lambda>L. remove1 (EventItem n) (B L)) L = woken s n B L"
    by (simp add: woken_def remove1_commute [of "StateItem n"])
qed

lemma reprioritised_drop_event:
  "current_state (tcb s' h) = current_state (tcb s h) \<Longrightarrow> core_id (tcb s' h) = core_id (tcb s h) \<Longrightarrow>
   reprioritised s' h p (\<lambda>L. remove1 (EventItem n) (A L)) = (\<lambda>L. remove1 (EventItem n) (reprioritised s h p A L))"
  by (auto simp: reprioritised_def fun_eq_iff remove1_append remove1_commute [of "EventItem n"] remove1_idem)

lemma reprioritised_distinct: "(\<And>L. distinct (A L)) \<Longrightarrow> distinct (reprioritised s h p A L)"
  by (simp add: reprioritised_def)

lemma mutex_unlock_handoff:
  assumes i: "sinv {} s A" and l: "m_state (mutexes s m) = MUTEX_STATE_LOCKED" and own: "mutex_owner (mutexes s m) = Some h"
    and cr: "created s h" and hW: "EventItem h \<notin> set (A (MutexBlockedList m))" and W: "A (MutexBlockedList m) \<noteq> []"
  obtains n s' where "mutex_unlock m s = Some s'" and "is_next_owner s (A (MutexBlockedList m)) n"
    and "sinv {} s' (woken s n (if falls_back m h s then reprioritised s h (base_priority (tcb s h)) A else A))"
    and "mutexes s' = (mutexes s)(m := (mutexes s m)\<lparr>
           inherited_priority := Max (insert 0 (item_prio s ` (set (A (MutexBlockedList m)) - {EventItem n}))), mutex_owner := Some n\<rparr>)"
    and "current_state (tcb s' n) = TASK_STATE_READY" and "priority (tcb s' n) = priority (tcb s n)"
    and "priority (tcb s' h) = (if falls_back m h s then base_priority (tcb s h) else priority (tcb s h))"
    and "\<And>u. u \<noteq> h \<Longrightarrow> u \<noteq> n \<Longrightarrow> tcb s' u = tcb s u"
    and "\<And>u. rank (tcb s' u) = (if u = h \<and> falls_back m h s then base_priority (tcb s u) else priority (tcb s u), base_priority (tcb s u),
           if inheritance_enabled (mutexes s m)
           then if u = h then mutexes_held (tcb s u) - 1 else if u = n then mutexes_held (tcb s u) + 1 else mutexes_held (tcb s u)
           else mutexes_held (tcb s u))"
proof -
  note D = sinvD [OF i]
  let ?E = "MutexBlockedList m"
  obtain hd xs where WE: "A ?E = hd # xs" using W by (cases "A ?E") auto
  obtain n k where sc: "mutex_scan s (li_next (items s hd)) hd TASK_PRIORITY_IDLE = Some (EventItem n, k)"
    and nx: "is_next_owner s (A ?E) n" and mem: "EventItem n \<in> set (A ?E)"
    and k: "k = Max (insert 0 (item_prio s ` (set (A ?E) - {EventItem n})))" and kp: "k \<le> priority (tcb s n)"
    by (rule mutex_scan_next [OF i WE])
  have hn: "h \<noteq> n" using hW mem by auto
  note B = waiter_blocked [OF i mem, simplified]
  have ow: "li_owner (items s (EventItem n)) = n" using wfl_owner [OF D(1) mem] by simp
  have A1: "A(?E := remove1 (EventItem n) (A ?E)) = (\<lambda>L. remove1 (EventItem n) (A L))" by (rule remove1_fun [OF D(1) B(3)])
  define s2 where "s2 = upd_mutex m (\<lambda>m. m\<lparr>inherited_priority := k\<rparr>) (unlink ?E (EventItem n) s)"
  let ?A1 = "\<lambda>L. remove1 (EventItem n) (A L)"
  have i2: "sinv {n} s2 ?A1" unfolding s2_def
    by (rule sinv_upd_mutex) (use sinv_unlink_event [OF i B(3)] in \<open>simp add: A1\<close>)
  have t2: "tcb s2 = tcb s" "mutexes s2 = (mutexes s)(m := (mutexes s m)\<lparr>inherited_priority := k\<rparr>)" by (simp_all add: s2_def)
  have s2': "upd_mutex m (\<lambda>m. m\<lparr>inherited_priority := k\<rparr>) (detach ?E (EventItem n) (stitch ?E (EventItem n) s)) = s2"
    by (simp add: s2_def unlink_def)
  have cr2: "created s2 h" using cr by (simp add: created_def t2)
  have hX: "h \<notin> {n}" using hn by simp
  note R = release_holder_sinv [OF i2 cr2 synced_cong_X [OF i2 cr2 hX] hX, where m = m]
  let ?s3 = "release_holder m (Some h) s2"
  have fb: "falls_back m h s2 = falls_back m h s" by (simp add: falls_back_def t2)
  let ?f = "\<lambda>b. if inheritance_enabled (mutexes s m) then b\<lparr>mutexes_held := mutexes_held b + 1\<rparr> else b"
  define s4 where "s4 = upd_mutex m (\<lambda>m. m\<lparr>mutex_owner := Some n\<rparr>) ?s3"
  define s5 where "s5 = (if inheritance_enabled (mutexes s m) then upd_tcb n (\<lambda>b. b\<lparr>mutexes_held := mutexes_held b + 1\<rparr>) s4 else s4)"
  let ?A3 = "if falls_back m h s then reprioritised s2 h (base_priority (tcb s h)) ?A1 else ?A1"
  have i3: "sinv {n} ?s3 ?A3" using R(1) unfolding fb t2 .
  have i4: "sinv {n} s4 ?A3" unfolding s4_def by (rule sinv_upd_mutex [OF i3])
  have "sinv {n} (upd_tcb n (\<lambda>b. b\<lparr>mutexes_held := mutexes_held b + 1\<rparr>) s4) ?A3" by (rule sinv_upd_other [OF i4]) simp_all
  with i4 have i5: "sinv {n} s5 ?A3" unfolding s5_def by presburger
  have nt: "tcb ?s3 n = tcb s n" using R(2) [of n] hn by (simp add: t2)
  have eq: "mutex_unlock m s = Some (make_ready n s5)"
    using l own W sc ow wfl_num_items_0 [OF D(1), of ?E] wfl_head [OF D(1), of ?E] WE kp nt
    by (simp add: mutex_unlock_def Let_def make_ready_def s5_def s4_def s2' R(4) t2)
  have t5: "tcb s5 n = ?f (tcb s n)" "\<And>u. u \<noteq> n \<Longrightarrow> tcb s5 u = tcb ?s3 u" by (simp_all add: s5_def s4_def nt)
  have "items s5 = items ?s3" by (simp add: s5_def s4_def)
  then have c5: "li_container (items s5 (EventItem n)) = None" "li_container (items s5 (StateItem n)) = li_container (items s (StateItem n))"
    using hn by (simp_all add: R(6,7)) (simp_all add: s2_def)
  have pre: "created s5 n" "li_container (items s5 (EventItem n)) = None"
    "li_container (items s5 (StateItem n)) \<in> {None, Some (BlockedTaskList (core_id (tcb s5 n)))}"
    using B by (auto simp: created_def t5 c5)
  note M = sinv_make_ready [OF i5 pre]
  have dist: "distinct (A L)" for L by (rule wfl_distinct [OF D(1)])
  have A3: "?A3 = (\<lambda>L. remove1 (EventItem n) ((if falls_back m h s then reprioritised s h (base_priority (tcb s h)) A else A) L))"
    using reprioritised_drop_event [of s2 h s] by (simp add: t2)
  have rl: "ready_list_of s5 n = ready_list_of s n" by (simp add: ready_list_of_def t5)
  have wk: "woken s5 n ?A3 = woken s n (if falls_back m h s then reprioritised s h (base_priority (tcb s h)) A else A)"
    unfolding A3 by (subst woken_drop_event) (simp_all add: dist reprioritised_distinct, simp add: woken_def rl)
  show ?thesis
  proof (rule that [OF eq nx])
    show "sinv {} (make_ready n s5) (woken s n (if falls_back m h s then reprioritised s h (base_priority (tcb s h)) A else A))"
      using M(1) unfolding wk by simp
    show "mutexes (make_ready n s5) = (mutexes s)(m := (mutexes s m)\<lparr>
           inherited_priority := Max (insert 0 (item_prio s ` (set (A ?E) - {EventItem n}))), mutex_owner := Some n\<rparr>)"
      by (simp add: M(5) k) (simp add: s5_def s4_def R(4) t2 k)
    show "current_state (tcb (make_ready n s5) n) = TASK_STATE_READY" "priority (tcb (make_ready n s5) n) = priority (tcb s n)"
      by (simp_all add: M(2) t5)
    show "priority (tcb (make_ready n s5) h) = (if falls_back m h s then base_priority (tcb s h) else priority (tcb s h))"
      using hn by (auto simp: M(2) t5 R(3) fb t2 falls_back_def)
    show "tcb (make_ready n s5) u = tcb s u" if "u \<noteq> h" "u \<noteq> n" for u
      using that by (simp add: M(2) t5 R(2) t2)
    show "rank (tcb (make_ready n s5) u) =
        (if u = h \<and> falls_back m h s then base_priority (tcb s u) else priority (tcb s u), base_priority (tcb s u),
         if inheritance_enabled (mutexes s m)
         then if u = h then mutexes_held (tcb s u) - 1 else if u = n then mutexes_held (tcb s u) + 1 else mutexes_held (tcb s u)
         else mutexes_held (tcb s u))" for u
      using hn by (cases "u = n"; cases "u = h") (auto simp: rank_def M(2) t5 R(2,3) fb t2 falls_back_def)
  qed
qed


subsection \<open>Locking\<close>

definition lock_wait :: "core \<Rightarrow> u64 \<Rightarrow> kernel \<Rightarrow> u64 option" where
  "lock_wait c timeout_ms s = (if sint timeout_ms > 0 then Some (tick_count s c + timeout_ms) else None)"

text \<open>The priority an inheritance mutex passes on once \<open>t\<close> waits for it too.\<close>

definition passed_on :: "mptr \<Rightarrow> tptr \<Rightarrow> kernel \<Rightarrow> nat" where
  "passed_on m t s = max (inherited_priority (mutexes s m)) (priority (tcb s t))"

definition lock_boosts :: "mptr \<Rightarrow> tptr \<Rightarrow> tptr \<Rightarrow> kernel \<Rightarrow> bool" where
  "lock_boosts m t h s \<longleftrightarrow> inheritance_enabled (mutexes s m) \<and> priority (tcb s h) < passed_on m t s"

lemma mutex_lock_free:
  assumes i: "sinv {} s A" and cur: "p_task_control_block s c = Some t" and l: "m_state (mutexes s m) = MUTEX_STATE_UNLOCKED"
  obtains s' where "mutex_lock_enter m c timeout_ms s = Some (LockReturns E_OK, s')" and "sinv {} s' A"
    and "mutexes s' = (mutexes s)(m := (mutexes s m)\<lparr>m_state := MUTEX_STATE_LOCKED, mutex_owner := Some t\<rparr>)"
    and "\<And>u. tcb s' u = (if u = t \<and> inheritance_enabled (mutexes s m) then (tcb s u)\<lparr>mutexes_held := mutexes_held (tcb s u) + 1\<rparr> else tcb s u)"
proof -
  let ?s1 = "upd_mutex m (\<lambda>m. m\<lparr>m_state := MUTEX_STATE_LOCKED, mutex_owner := Some t\<rparr>) s"
  let ?s2 = "upd_tcb t (\<lambda>b. b\<lparr>mutexes_held := mutexes_held b + 1\<rparr>) ?s1"
  have i1: "sinv {} ?s1 A" by (rule sinv_upd_mutex [OF i])
  have i2: "sinv {} ?s2 A" by (rule sinv_upd_other [OF i1]) simp_all
  show ?thesis
    by (rule that [of "if inheritance_enabled (mutexes s m) then ?s2 else ?s1"])
      (use l cur i1 i2 in \<open>auto simp: mutex_lock_enter_def scheduler_get_current_task_def Let_def\<close>)
qed

lemma remove_ready_tick: "tick_count (snd (scheduler_remove_from_ready_list p s)) = tick_count s"
  by (auto simp: scheduler_remove_from_ready_list_def Let_def split: option.splits)

lemma mutex_lock_enter_eq:
  assumes "p_task_control_block s c = Some t" "m_state (mutexes s m) = MUTEX_STATE_LOCKED" "timeout_ms \<noteq> 0"
    and b: "block_on (MutexBlockedList m) t (lock_wait c timeout_ms s) s = Some s4"
  shows "mutex_lock_enter m c timeout_ms s = do {
      s5 \<leftarrow> (if inheritance_enabled (mutexes s4 m)
               then do {
                 let p = priority (tcb s4 t);
                 let s5 = (if p > inherited_priority (mutexes s4 m)
                           then upd_mutex m (\<lambda>m. m\<lparr>inherited_priority := p\<rparr>) s4 else s4);
                 owner \<leftarrow> mutex_owner (mutexes s5 m);
                 Some (if priority (tcb s5 owner) < inherited_priority (mutexes s5 m)
                       then scheduler_change_task_priority owner (inherited_priority (mutexes s5 m)) s5 else s5)
               }
               else Some s4);
      Some (LockBlocked, s5) }"
proof -
  let ?s2 = "snd (scheduler_remove_from_ready_list (Some t) (link_tail (MutexBlockedList m) (EventItem t) t s))"
  have tk: "scheduler_get_tick_count c ?s2 = tick_count s c" by (simp add: scheduler_get_tick_count_def remove_ready_tick)
  show ?thesis
  proof (cases "sint timeout_ms > 0")
    case True
    then obtain r s3 where s3: "scheduler_add_to_blocked_list (Some t) (tick_count s c + timeout_ms) ?s2 = Some (r, s3)"
      "s4 = upd_tcb t (\<lambda>b. b\<lparr>current_state := TASK_STATE_BLOCKED\<rparr>) s3"
      using b by (auto simp: block_on_def lock_wait_def Let_def bind_Some_iff)
    with True assms(1-3) show ?thesis unfolding s3(2)
      by (simp add: mutex_lock_enter_def scheduler_get_current_task_def mutex_add_to_blocked_list_def tk Let_def)
  next
    case False
    then have s4: "s4 = upd_tcb t (\<lambda>b. b\<lparr>current_state := TASK_STATE_BLOCKED\<rparr>) ?s2"
      using b by (simp add: block_on_def lock_wait_def Let_def)
    with False assms(1-3) show ?thesis unfolding s4
      by (simp add: mutex_lock_enter_def scheduler_get_current_task_def mutex_add_to_blocked_list_def Let_def)
  qed
qed

lemma mutex_lock_blocks:
  assumes i: "sinv {} s A" and cur: "can_run s c t" and l: "m_state (mutexes s m) = MUTEX_STATE_LOCKED"
    and own: "mutex_owner (mutexes s m) = Some h" and crh: "created s h"
    and inh: "inherited_priority (mutexes s m) < NUM_TASK_PRIORITIES" and w: "timeout_ms \<noteq> 0"
  defines "A1 \<equiv> blocked_on s (MutexBlockedList m) t (lock_wait c timeout_ms s) A"
  obtains s1 s' where "mutex_lock_enter m c timeout_ms s = Some (LockBlocked, s')"
    and "block_on (MutexBlockedList m) t (lock_wait c timeout_ms s) s = Some s1"
    and "sinv {} s' (if lock_boosts m t h s then reprioritised s1 h (passed_on m t s) A1 else A1)"
    and "current_state (tcb s' t) = TASK_STATE_BLOCKED"
    and "priority (tcb s' h) = (if lock_boosts m t h s then passed_on m t s else priority (tcb s h))"
    and "mutexes s' = (mutexes s)(m := (mutexes s m)\<lparr>inherited_priority :=
           (if inheritance_enabled (mutexes s m) then passed_on m t s else inherited_priority (mutexes s m))\<rparr>)"
    and "\<And>u. u \<noteq> t \<Longrightarrow> u \<noteq> h \<Longrightarrow> tcb s' u = tcb s u"
    and "\<And>u. rank (tcb s' u) = (if u = h \<and> lock_boosts m t h s then passed_on m t s else priority (tcb s u), base_priority (tcb s u), mutexes_held (tcb s u))"
proof -
  note R = can_runD [OF i cur, simplified]
  let ?d = "lock_wait c timeout_ms s"
  obtain s1 where s1: "block_on (MutexBlockedList m) t ?d s = Some s1" "sinv ({} - {t}) s1 A1"
    "tcb s1 = (tcb s)(t := (tcb s t)\<lparr>wakeup_time := (case ?d of None \<Rightarrow> wakeup_time (tcb s t) | Some d \<Rightarrow> d),
                                       current_state := TASK_STATE_BLOCKED\<rparr>)"
    "mutexes s1 = mutexes s"
    unfolding A1_def by (rule sinv_block_on [OF i R(1) _ R(3,4), of "MutexBlockedList m" ?d]) (simp_all add: that)
  let ?q = "passed_on m t s"
  define s2 where "s2 = (if inheritance_enabled (mutexes s m) \<and> priority (tcb s t) > inherited_priority (mutexes s m)
      then upd_mutex m (\<lambda>m. m\<lparr>inherited_priority := priority (tcb s t)\<rparr>) s1 else s1)"
  have t2: "tcb s2 = tcb s1" "items s2 = items s1" by (simp_all add: s2_def)
  have m2: "mutexes s2 = (mutexes s)(m := (mutexes s m)\<lparr>inherited_priority :=
      (if inheritance_enabled (mutexes s m) then ?q else inherited_priority (mutexes s m))\<rparr>)"
    by (auto simp: s2_def s1(4) passed_on_def max_def)
  have i2: "sinv {} s2 A1" using s1(2) sinv_upd_mutex [of "{}" s1 A1] by (simp add: s2_def)
  have cr2: "created s2 h" using crh by (auto simp: created_def t2 s1(3))
  have q: "?q < NUM_TASK_PRIORITIES"
    using inh tcbs_okD(3) [OF sinvD(5) [OF i] R(1)] by (simp add: passed_on_def)
  note C = change_priority_sinv [OF i2 cr2 synced_cong_X [OF i2 cr2, simplified] q]
  define s3 where "s3 = (if lock_boosts m t h s then scheduler_change_task_priority h ?q s2 else s2)"
  have ph: "priority (tcb s1 u) = priority (tcb s u)" for u by (simp add: s1(3))
  have rp: "reprioritised s2 h ?q A1 = reprioritised s1 h ?q A1" by (simp add: reprioritised_def t2)
  have curt: "p_task_control_block s c = Some t" using cur by (simp add: can_run_def)
  have eq: "mutex_lock_enter m c timeout_ms s = Some (LockBlocked, s3)"
    unfolding mutex_lock_enter_eq [OF curt l w s1(1)]
    by (auto simp: s3_def s2_def s1(4) ph own lock_boosts_def passed_on_def max_def Let_def)
  show ?thesis
  proof (rule that [OF eq s1(1)])
    show "sinv {} s3 (if lock_boosts m t h s then reprioritised s1 h ?q A1 else A1)"
      using C(1) i2 rp by (simp add: s3_def)
    show "current_state (tcb s3 t) = TASK_STATE_BLOCKED" by (simp add: s3_def C(2) t2 s1(3))
    show "priority (tcb s3 h) = (if lock_boosts m t h s then ?q else priority (tcb s h))"
      by (simp add: s3_def C(2) t2 ph)
    show "mutexes s3 = (mutexes s)(m := (mutexes s m)\<lparr>inherited_priority :=
           (if inheritance_enabled (mutexes s m) then ?q else inherited_priority (mutexes s m))\<rparr>)"
      using C(4) m2 by (simp add: s3_def)
    show "tcb s3 u = tcb s u" if "u \<noteq> t" "u \<noteq> h" for u using that by (simp add: s3_def C(2) t2 s1(3))
    show "rank (tcb s3 u) = (if u = h \<and> lock_boosts m t h s then ?q else priority (tcb s u), base_priority (tcb s u), mutexes_held (tcb s u))" for u
    proof -
      have "tcb s3 u = (if u = h \<and> lock_boosts m t h s then (tcb s1 u)\<lparr>priority := ?q\<rparr> else tcb s1 u)" by (simp add: s3_def C(2) t2)
      then show ?thesis by (simp add: rank_def s1(3))
    qed
  qed
qed


subsection \<open>Initialisation\<close>

lemma sinv_reset_list:
  assumes i: "sinv X s A" and ev: "event_list L" and emp: "A L = []"
  shows "sinv X (upd_list L (\<lambda>_. empty_list) s) A" (is "sinv X ?s A")
proof (rule sinvI)
  note D = sinvD [OF i]
  show "wfl ?s A"
    by (rule wfl_index_cong [OF D(1)])
      (use wfl_head [OF D(1), of L] wfl_list_end [OF D(1), of L] wfl_num_items [OF D(1), of L] emp in \<open>auto simp: empty_list_def\<close>)
  show "typed ?s A" by (rule typed_upd [OF D(2)]) (auto simp: created_def)
  show "delay_sorted ?s A" by (rule delay_sorted_upd [OF D(3)]) (auto simp: waketime_def)
  show "index_ok ?s A" by (rule index_ok_upd [OF D(4)]) (use ev in auto)
  show "tcbs_ok ?s" by (rule tcbs_ok_same [OF D(5)]) auto
  show "all_synced X ?s" using D(6) synced_cong [of ?s _ s] by (auto simp: all_synced_def created_def)
qed

lemma mutex_init_ok:
  assumes "sinv X s A" "A (MutexBlockedList m) = []"
  shows "sinv X (mutex_init m s) A" "mutex_ok (mutex_init m s) A m"
proof -
  show "sinv X (mutex_init m s) A"
    unfolding mutex_init_def by (rule sinv_reset_list [OF sinv_upd_mutex [OF assms(1)]]) (simp_all add: assms(2))
  show "mutex_ok (mutex_init m s) A m" using assms(2) by (simp add: mutex_ok_def mutex_init_def task_consts)
qed

subsection \<open>A contended mutex\<close>

definition demo_locked :: kernel where
  "demo_locked = the (scheduler_switch_context 2 (snd (the (mutex_lock_enter 0 2 0 (mutex_init 0 demo_kernel)))))"

lemma demo_locked_facts:
  shows "sinv {} demo_locked demo_lists" "can_run demo_locked 2 (TcbPool 2 (Suc 0))"
    "m_state (mutexes demo_locked 0) = MUTEX_STATE_LOCKED" "mutex_owner (mutexes demo_locked 0) = Some (TcbPool 2 0)"
    "inherited_priority (mutexes demo_locked 0) = 0" "created demo_locked (TcbPool 2 0)"
    "inheritance_enabled (mutexes demo_locked 0) = False"
    "scheduler_switch_context 2 (snd (the (mutex_lock_enter 0 2 0 (mutex_init 0 demo_kernel)))) = Some demo_locked"
    "intact demo_locked"
proof -
  let ?k = "mutex_init 0 demo_kernel"
  have k: "sinv {} ?k demo_lists" by (rule mutex_init_ok [OF demo_kernel_facts(2)]) (simp add: demo_lists_def)
  have kf: "p_task_control_block ?k 2 = Some (TcbPool 2 0)" "tcb ?k = tcb demo_kernel" "stack_mem ?k = stack_mem demo_kernel"
    "l_index (list_at ?k (ReadyList 2 2)) = Some (StateItem (TcbPool 2 0))"
    by (simp_all add: mutex_init_def demo_kernel_facts)
  obtain s1 where s1: "mutex_lock_enter 0 2 0 ?k = Some (LockReturns E_OK, s1)" "sinv {} s1 demo_lists"
    "mutexes s1 = (mutexes ?k)(0 := (mutexes ?k 0)\<lparr>m_state := MUTEX_STATE_LOCKED, mutex_owner := Some (TcbPool 2 0)\<rparr>)"
    "\<And>u. tcb s1 u = (if u = TcbPool 2 0 \<and> inheritance_enabled (mutexes ?k 0) then (tcb ?k u)\<lparr>mutexes_held := mutexes_held (tcb ?k u) + 1\<rparr> else tcb ?k u)"
    by (rule mutex_lock_free [OF k kf(1), of 0 0]) (simp_all add: mutex_init_def that)
  have f1: "p_task_control_block s1 2 = Some (TcbPool 2 0)" "stack_mem s1 = stack_mem ?k" "tcb s1 = tcb demo_kernel"
    "l_index (list_at s1 (ReadyList 2 2)) = Some (StateItem (TcbPool 2 0))"
    using s1(1) kf by (auto simp: mutex_lock_enter_def scheduler_get_current_task_def mutex_init_def Let_def)
  have in1: "intact s1" by (rule intact_cong [OF demo_kernel_facts(3)]) (simp_all add: f1 kf)
  obtain s' u where s': "scheduler_switch_context 2 s1 = Some s'" "sinv {} s' demo_lists"
    "p_task_control_block s' 2 = Some u" "StateItem u = demo_lists (ReadyList 2 2) ! (Suc 0 mod length (demo_lists (ReadyList 2 2)))"
    "current_state (tcb s' u) = TASK_STATE_RUNNING" "intact s'"
    by (rule round_robin_step [OF s1(2) in1, of 0 2 2 "TcbPool 2 0"])
      (simp_all add: f1 demo_kernel_facts top_ready_def demo_lists_def task_consts that)
  have d: "demo_locked = s'" using s1(1) s'(1) by (simp add: demo_locked_def)
  have u: "u = TcbPool 2 (Suc 0)" using s'(4) by (simp add: demo_lists_def)
  have m: "mutexes s' = mutexes s1" using switch_context_objects [OF s'(1)] by simp
  show "sinv {} demo_locked demo_lists" "can_run demo_locked 2 (TcbPool 2 (Suc 0))"
    "m_state (mutexes demo_locked 0) = MUTEX_STATE_LOCKED" "mutex_owner (mutexes demo_locked 0) = Some (TcbPool 2 0)"
    "inherited_priority (mutexes demo_locked 0) = 0" "inheritance_enabled (mutexes demo_locked 0) = False"
    "scheduler_switch_context 2 (snd (the (mutex_lock_enter 0 2 0 ?k))) = Some demo_locked" "intact demo_locked"
    using s' u m s1(1,3) by (simp_all add: d can_run_def mutex_init_def task_consts)
  show "created demo_locked (TcbPool 2 0)"
    using typed_ready [OF sinvD(2) [OF s'(2)], of "StateItem (TcbPool 2 0)" 2 2] by (simp add: d demo_lists_def)
qed

subsection \<open>The properties\<close>

text \<open>\<open>mutex_lock\<close> on a held mutex with a non-zero timeout queues the caller behind the earlier
  waiters and blocks it; if the mutex inherits priorities, the owner then runs at least at the caller's priority, and
  it is moved to the matching ready list when it is ready. The scheduler invariant holds again.\<close>

theorem mutex_lock_blocks_and_boosts:
  assumes "sinv {} s A" and "can_run s c t" and "m_state (mutexes s m) = MUTEX_STATE_LOCKED"
    and "mutex_owner (mutexes s m) = Some h" and "created s h"
    and "inherited_priority (mutexes s m) < NUM_TASK_PRIORITIES" and "timeout_ms \<noteq> 0"
  shows "\<exists>s' A'. mutex_lock_enter m c timeout_ms s = Some (LockBlocked, s') \<and> sinv {} s' A' \<and>
    A' (MutexBlockedList m) = A (MutexBlockedList m) @ [EventItem t] \<and> current_state (tcb s' t) = TASK_STATE_BLOCKED \<and>
    mutex_owner (mutexes s' m) = Some h \<and>
    (inheritance_enabled (mutexes s m) \<longrightarrow>
       priority (tcb s t) \<le> priority (tcb s' h) \<and> priority (tcb s h) \<le> priority (tcb s' h)) \<and>
    (\<not> inheritance_enabled (mutexes s m) \<longrightarrow> priority (tcb s' h) = priority (tcb s h))"
proof -
  let ?E = "MutexBlockedList m"
  have "blocked_on s ?E t w A ?E = A ?E @ [EventItem t]" for w
    by (simp add: blocked_on_def Let_def split: option.splits)
  moreover have "reprioritised s1 h p B ?E = remove1 (StateItem h) (B ?E) \<or> reprioritised s1 h p B ?E = B ?E" for s1 p B
    by (simp add: reprioritised_def)
  moreover have "StateItem h \<notin> set (A ?E)" using typed_event(1) [OF sinvD(2) [OF assms(1)], of "StateItem h" m] by auto
  ultimately have E: "reprioritised s1 h p (blocked_on s ?E t w A) ?E = A ?E @ [EventItem t]" for s1 p w
    by (metis iptr.distinct(1) list.set_intros(1) remove1_idem set_ConsD set_append Un_iff list.set(1) empty_iff)
  show ?thesis
    by (rule mutex_lock_blocks [OF assms])
      (use E \<open>\<And>w. blocked_on s ?E t w A ?E = A ?E @ [EventItem t]\<close> assms(4) in
        \<open>force simp: lock_boosts_def passed_on_def split: if_splits\<close>)
qed

theorem mutex_lock_blocks_and_boosts_witness:
  "\<exists>s'. mutex_lock_enter 0 2 (- 1) demo_locked = Some (LockBlocked, s') \<and>
     current_state (tcb s' (TcbPool 2 (Suc 0))) = TASK_STATE_BLOCKED"
  using mutex_lock_blocks_and_boosts [OF demo_locked_facts(1,2,3,4,6), of "- 1"] demo_locked_facts(5)
  by (auto simp: task_consts)

text \<open>Claim C8 (functional). \<open>mutex_unlock\<close> with waiters passes the mutex, still locked, to the first of the
  highest-priority waiters: that task becomes ready and its \<open>mutex_lock\<close> returns \<open>E_OK\<close>, the others keep their order in the wait
  list, the old owner falls back to its base priority if this was its last inheritance mutex, and the priority the
  mutex passes on becomes that of the best remaining waiter. The new owner is never boosted at this point.\<close>

theorem mutex_unlock_hands_over:
  assumes "sinv {} s A" and "m_state (mutexes s m) = MUTEX_STATE_LOCKED" and "mutex_owner (mutexes s m) = Some h"
    and "created s h" and "EventItem h \<notin> set (A (MutexBlockedList m))" and "A (MutexBlockedList m) \<noteq> []"
  shows "\<exists>n s' A'. mutex_unlock m s = Some s' \<and> is_next_owner s (A (MutexBlockedList m)) n \<and> sinv {} s' A' \<and>
    A' (MutexBlockedList m) = remove1 (EventItem n) (A (MutexBlockedList m)) \<and>
    m_state (mutexes s' m) = MUTEX_STATE_LOCKED \<and> mutex_lock_wake m n s' = E_OK \<and>
    inherited_priority (mutexes s' m) = Max (insert 0 (item_prio s ` (set (A (MutexBlockedList m)) - {EventItem n}))) \<and>
    current_state (tcb s' n) = TASK_STATE_READY \<and> priority (tcb s' n) = priority (tcb s n) \<and>
    priority (tcb s' h) = (if falls_back m h s then base_priority (tcb s h) else priority (tcb s h))"
proof -
  let ?E = "MutexBlockedList m"
  have no: "StateItem u \<notin> set (A ?E)" for u using typed_event(1) [OF sinvD(2) [OF assms(1)], of "StateItem u" m] by auto
  have E: "woken s n (if b then reprioritised s h p A else A) ?E = remove1 (EventItem n) (A ?E)" for b n p
    using no by (simp add: woken_def reprioritised_def remove1_idem)
  show ?thesis
    by (rule mutex_unlock_handoff [OF assms]) (use E assms(2) in \<open>auto simp: mutex_lock_wake_def\<close>)
qed

definition demo_contended :: kernel where
  "demo_contended = snd (the (mutex_lock_enter 0 2 (- 1) demo_locked))"

theorem mutex_unlock_hands_over_witness:
  "\<exists>n s'. mutex_unlock 0 demo_contended = Some s' \<and> mutex_lock_wake 0 n s' = E_OK \<and> current_state (tcb s' n) = TASK_STATE_READY"
proof -
  let ?w = "lock_wait 2 (- 1) demo_locked" and ?t1 = "TcbPool 2 (Suc 0)"
  let ?A1 = "blocked_on demo_locked (MutexBlockedList 0) ?t1 ?w demo_lists"
  have nb: "\<not> lock_boosts 0 ?t1 (TcbPool 2 0) demo_locked" by (simp add: lock_boosts_def demo_locked_facts)
  obtain s' where s': "mutex_lock_enter 0 2 (- 1) demo_locked = Some (LockBlocked, s')" "sinv {} s' ?A1"
    "mutexes s' = (mutexes demo_locked)(0 := (mutexes demo_locked 0)\<lparr>inherited_priority := 0\<rparr>)"
    by (rule mutex_lock_blocks [OF demo_locked_facts(1,2,3,4,6), of "- 1"])
      (use nb in \<open>simp_all add: demo_locked_facts task_consts that\<close>)
  have q: "?A1 (MutexBlockedList 0) = [EventItem ?t1]"
    by (simp add: blocked_on_def demo_lists_def Let_def split: option.splits)
  have d: "demo_contended = s'" by (simp add: demo_contended_def s'(1))
  have r: "StateItem (TcbPool 2 0) \<in> set (?A1 (ReadyList 2 2))"
    by (auto simp: blocked_on_def demo_lists_def Let_def ready_list_of_def lock_wait_def)
  then have "created s' (TcbPool 2 0)" using typed_ready [OF sinvD(2) [OF s'(2)] r] by auto
  from mutex_unlock_hands_over [OF s'(2), of 0 "TcbPool 2 0"] this s'(3) q show ?thesis
    by (auto simp: d demo_locked_facts)
qed

text \<open>\<open>mutex_unlock\<close> without waiters frees the mutex and undoes the owner's priority boost if this
  was its last inheritance mutex; unlocking a free mutex changes nothing.\<close>

theorem mutex_unlock_releases:
  assumes "sinv {} s A" and "mutex_ok s A m" and "A (MutexBlockedList m) = []"
  shows "\<exists>s' A'. mutex_unlock m s = Some s' \<and> sinv {} s' A' \<and> mutex_ok s' A' m \<and>
    m_state (mutexes s' m) = MUTEX_STATE_UNLOCKED \<and>
    (\<forall>h. mutex_owner (mutexes s m) = Some h \<longrightarrow>
       priority (tcb s' h) = (if falls_back m h s then base_priority (tcb s h) else priority (tcb s h)))"
proof (cases "m_state (mutexes s m)")
  case MUTEX_STATE_UNLOCKED
  then have "mutex_unlock m s = Some s" "mutex_owner (mutexes s m) = None" using assms(2) by (simp_all add: mutex_unlock_def mutex_ok_def)
  with assms MUTEX_STATE_UNLOCKED show ?thesis by auto
next
  case MUTEX_STATE_LOCKED
  then obtain h where h: "mutex_owner (mutexes s m) = Some h" "created s h" using assms(2) by (auto simp: mutex_ok_def)
  have E: "(if b then reprioritised s h p A else A) (MutexBlockedList m) = []" for b p using assms(3) by (simp add: reprioritised_def)
  show ?thesis
    by (rule mutex_unlock_free [OF assms(1) MUTEX_STATE_LOCKED h assms(3)])
      (use E h in \<open>auto simp: mutex_ok_def task_consts\<close>)
qed

theorem mutex_unlock_releases_witness:
  "\<exists>s'. mutex_unlock 0 demo_locked = Some s' \<and> m_state (mutexes s' 0) = MUTEX_STATE_UNLOCKED"
  using mutex_unlock_releases [OF demo_locked_facts(1), of 0] demo_locked_facts
  by (auto simp: mutex_ok_def demo_lists_def task_consts)

end
