(* ===== verification/Queue.thy ===== *)
theory Queue
  imports Semaphore_Props Heap
begin


text \<open>
  \<^verbatim>\<open>kernel/queue/queue.c\<close>: bounded queues of fixed-size items. A queue is a ring of slots in one heap block and two
  counting semaphores, \<open>space_available\<close> and \<open>data_available\<close>. The block is the list of its bytes (heap blocks are disjoint,
  see \<open>Heap\<close>); an access outside it, or \<open>% 0\<close>, is \<^const>\<open>None\<close>. \<open>queue_send\<close> and \<open>queue_recv\<close> are the sections of
  \<open>semaphore_take\<close>, one section under the queue's own lock (\<open>queue_put\<close>, \<open>queue_get\<close>), and \<open>semaphore_give\<close>.
\<close>

definition upd_queue :: "qptr \<Rightarrow> (Queue \<Rightarrow> Queue) \<Rightarrow> kernel \<Rightarrow> kernel" where
  "upd_queue q f s = s\<lparr>queues := (queues s)(q := f (queues s q))\<rparr>"

definition queue_init :: "qptr \<Rightarrow> u32 \<Rightarrow> u32 \<Rightarrow> kernel \<Rightarrow> StatusCode \<times> kernel" where
  "queue_init q capacity item_size s =
     (let s1 = upd_queue q (\<lambda>b. b\<lparr>q_capacity := capacity, q_item_size := item_size, q_head := 0, q_tail := 0\<rparr>) s
      in case heap_malloc (capacity * item_size) s1 of
           (None, s2) \<Rightarrow> (E_OUT_OF_MEM, upd_queue q (\<lambda>b. b\<lparr>q_buf := []\<rparr>) s2)
         | (Some _, s2) \<Rightarrow>
             let s3 = upd_queue q (\<lambda>b. b\<lparr>q_buf := replicate (unat (capacity * item_size)) 0\<rparr>) s2;
                 s4 = semaphore_init (DataAvailable q) capacity 0 s3
             in (E_OK, semaphore_init (SpaceAvailable q) capacity capacity s4))"

text \<open>The two copy loops, with \<open>n\<close> iterations to go. The index is computed in 32 bits.\<close>

fun copy_in :: "nat \<Rightarrow> u32 \<Rightarrow> u32 \<Rightarrow> u8 list \<Rightarrow> u8 list \<Rightarrow> u8 list option" where
  "copy_in 0 i base src buf = Some buf"
| "copy_in (Suc n) i base src buf =
     (if unat i < length src \<and> unat (base + i) < length buf
      then copy_in n (i + 1) base src (buf[unat (base + i) := src ! unat i])
      else None)"

fun copy_out :: "nat \<Rightarrow> u32 \<Rightarrow> u32 \<Rightarrow> u8 list \<Rightarrow> u8 list \<Rightarrow> u8 list option" where
  "copy_out 0 i base buf dst = Some dst"
| "copy_out (Suc n) i base buf dst =
     (if unat i < length dst \<and> unat (base + i) < length buf
      then copy_out n (i + 1) base buf (dst[unat i := buf ! unat (base + i)])
      else None)"

definition queue_put :: "u8 list \<Rightarrow> Queue \<Rightarrow> Queue option" where
  "queue_put src q =
     (case copy_in (unat (q_item_size q)) 0 (q_head q * q_item_size q) src (q_buf q) of
        None \<Rightarrow> None
      | Some buf \<Rightarrow>
          if q_capacity q = 0 then None
          else Some (q\<lparr>q_buf := buf, q_head := (q_head q + 1) mod q_capacity q\<rparr>))"

definition queue_get :: "u8 list \<Rightarrow> Queue \<Rightarrow> (u8 list \<times> Queue) option" where
  "queue_get dst q =
     (case copy_out (unat (q_item_size q)) 0 (q_tail q * q_item_size q) (q_buf q) dst of
        None \<Rightarrow> None
      | Some dst' \<Rightarrow>
          if q_capacity q = 0 then None
          else Some (dst', q\<lparr>q_tail := (q_tail q + 1) mod q_capacity q\<rparr>))"

datatype queue_result = QueueReturns StatusCode | QueueBlocked

definition queue_send_finish :: "qptr \<Rightarrow> u8 list \<Rightarrow> kernel \<Rightarrow> (queue_result \<times> kernel) option" where
  "queue_send_finish q src s = do {
     b \<leftarrow> queue_put src (queues s q);
     (_, s') \<leftarrow> semaphore_give (DataAvailable q) (upd_queue q (\<lambda>_. b) s);
     Some (QueueReturns E_OK, s') }"

definition queue_recv_finish :: "qptr \<Rightarrow> u8 list \<Rightarrow> kernel \<Rightarrow> (queue_result \<times> u8 list \<times> kernel) option" where
  "queue_recv_finish q dst s = do {
     (dst', b) \<leftarrow> queue_get dst (queues s q);
     (_, s') \<leftarrow> semaphore_give (SpaceAvailable q) (upd_queue q (\<lambda>_. b) s);
     Some (QueueReturns E_OK, dst', s') }"

text \<open>From the call to the return, or to the spin inside \<open>semaphore_take\<close>.\<close>

definition queue_send :: "qptr \<Rightarrow> core \<Rightarrow> tptr \<Rightarrow> u8 list \<Rightarrow> u64 \<Rightarrow> u64 \<Rightarrow> kernel \<Rightarrow> (queue_result \<times> kernel) option" where
  "queue_send q c t src timeout_ms deadline s = do {
     (r, s1) \<leftarrow> semaphore_take_try (SpaceAvailable q) c t timeout_ms deadline s;
     (case r of
        TakeReturns e \<Rightarrow> if e \<noteq> E_OK then Some (QueueReturns E_TIMED_OUT, s1) else queue_send_finish q src s1
      | _ \<Rightarrow> Some (QueueBlocked, s1)) }"

definition queue_recv :: "qptr \<Rightarrow> core \<Rightarrow> tptr \<Rightarrow> u8 list \<Rightarrow> u64 \<Rightarrow> u64 \<Rightarrow> kernel \<Rightarrow> (queue_result \<times> u8 list \<times> kernel) option" where
  "queue_recv q c t dst timeout_ms deadline s = do {
     (r, s1) \<leftarrow> semaphore_take_try (DataAvailable q) c t timeout_ms deadline s;
     (case r of
        TakeReturns e \<Rightarrow> if e \<noteq> E_OK then Some (QueueReturns E_TIMED_OUT, dst, s1) else queue_recv_finish q dst s1
      | _ \<Rightarrow> Some (QueueBlocked, dst, s1)) }"

subsection \<open>The ring\<close>

definition slot :: "Queue \<Rightarrow> nat \<Rightarrow> u8 list" where
  "slot q i = take (unat (q_item_size q)) (drop (i * unat (q_item_size q)) (q_buf q))"

text \<open>The buffer has the size the indices assume, and nothing wraps.\<close>

definition queue_wf :: "Queue \<Rightarrow> bool" where
  "queue_wf q \<longleftrightarrow> unat (q_capacity q) * unat (q_item_size q) < 2 ^ 32 \<and>
     length (q_buf q) = unat (q_capacity q) * unat (q_item_size q) \<and>
     q_head q < q_capacity q \<and> q_tail q < q_capacity q"

definition queue_holds :: "Queue \<Rightarrow> u8 list list \<Rightarrow> bool" where
  "queue_holds q xs \<longleftrightarrow> queue_wf q \<and> length xs \<le> unat (q_capacity q) \<and>
     unat (q_head q) = (unat (q_tail q) + length xs) mod unat (q_capacity q) \<and>
     (\<forall>i < length xs. slot q ((unat (q_tail q) + i) mod unat (q_capacity q)) = xs ! i)"

lemma copy_in_eq:
  assumes "unat i + n \<le> length src" "unat base + unat i + n \<le> length buf" "length buf < 2 ^ 32"
  shows "copy_in n i base src buf =
    Some (take (unat base + unat i) buf @ take n (drop (unat i) src) @ drop (unat base + unat i + n) buf)"
  using assms
proof (induction n arbitrary: i buf)
  case (Suc n)
  have "unat (i + 1) = unat i + 1" "unat (base + i) = unat base + unat i"
    using Suc.prems by (simp_all add: unat_word_ariths)
  then have "copy_in (Suc n) i base src buf = copy_in n (i + 1) base src (buf[unat base + unat i := src ! unat i])"
    using Suc.prems by simp
  also have "\<dots> = Some (take (unat base + unat (i + 1)) (buf[unat base + unat i := src ! unat i]) @
      take n (drop (unat (i + 1)) src) @ drop (unat base + unat (i + 1) + n) (buf[unat base + unat i := src ! unat i]))"
    by (rule Suc.IH) (use Suc.prems \<open>unat (i + 1) = unat i + 1\<close> in simp_all)
  also have "\<dots> = Some (take (unat base + unat i) buf @ take (Suc n) (drop (unat i) src) @ drop (unat base + unat i + Suc n) buf)"
  proof -
    have 1: "take (Suc (unat base + unat i)) (buf[unat base + unat i := x]) = take (unat base + unat i) buf @ [x]" for x
      using Suc.prems by (simp add: take_Suc_conv_app_nth)
    have 2: "take (Suc n) (drop (unat i) src) = src ! unat i # take n (drop (Suc (unat i)) src)"
      using Suc.prems by (simp add: Cons_nth_drop_Suc [symmetric])
    show ?thesis using 1 2 by (simp add: \<open>unat (i + 1) = unat i + 1\<close>)
  qed
  finally show ?case .
qed simp

lemma copy_out_eq:
  assumes "unat i + n \<le> length dst" "unat base + unat i + n \<le> length buf" "length buf < 2 ^ 32" "length dst < 2 ^ 32"
  shows "copy_out n i base buf dst =
    Some (take (unat i) dst @ take n (drop (unat base + unat i) buf) @ drop (unat i + n) dst)"
  using assms
proof (induction n arbitrary: i dst)
  case (Suc n)
  have "unat (i + 1) = unat i + 1" "unat (base + i) = unat base + unat i"
    using Suc.prems by (simp_all add: unat_word_ariths)
  then have "copy_out (Suc n) i base buf dst = copy_out n (i + 1) base buf (dst[unat i := buf ! (unat base + unat i)])"
    using Suc.prems by simp
  also have "\<dots> = Some (take (unat (i + 1)) (dst[unat i := buf ! (unat base + unat i)]) @
      take n (drop (unat base + unat (i + 1)) buf) @ drop (unat (i + 1) + n) (dst[unat i := buf ! (unat base + unat i)]))"
    by (rule Suc.IH) (use Suc.prems \<open>unat (i + 1) = unat i + 1\<close> in simp_all)
  also have "\<dots> = Some (take (unat i) dst @ take (Suc n) (drop (unat base + unat i) buf) @ drop (unat i + Suc n) dst)"
  proof -
    have 1: "take (Suc (unat i)) (dst[unat i := x]) = take (unat i) dst @ [x]" for x
      using Suc.prems by (simp add: take_Suc_conv_app_nth)
    have 2: "take (Suc n) (drop (unat base + unat i) buf) = buf ! (unat base + unat i) # take n (drop (Suc (unat base + unat i)) buf)"
      using Suc.prems by (simp add: Cons_nth_drop_Suc [symmetric])
    show ?thesis using 1 2 by (simp add: \<open>unat (i + 1) = unat i + 1\<close>)
  qed
  finally show ?case .
qed simp


lemma slot_splice:
  assumes "length x = n" "length buf = c * n" "h < c" "j < c"
  shows "take n (drop (j * n) (take (h * n) buf @ x @ drop (h * n + n) buf)) =
    (if j = h then x else take n (drop (j * n) buf))"
proof -
  have h: "h * n + n \<le> c * n" using assms(3) mult_le_mono1 [of "Suc h" c n] by simp
  consider "j < h" | "j = h" | "j > h" by linarith
  then show ?thesis
  proof cases
    case 1
    then have "j * n + n \<le> h * n" using mult_le_mono1 [of "Suc j" h n] by simp
    then obtain d where d: "h * n = j * n + n + d" using le_Suc_ex by blast
    have "drop (j * n) (take (h * n) buf @ ys) = take (n + d) (drop (j * n) buf) @ ys" for ys
      using d h assms(2) by (simp add: drop_take)
    moreover have "take n (take (n + d) (drop (j * n) buf) @ ys) = take n (drop (j * n) buf)" for ys
      using d h assms(2) by simp
    ultimately show ?thesis using 1 by (simp only: if_False less_imp_neq)
  next
    case 2
    with h assms show ?thesis by simp
  next
    case 3
    then have le: "h * n + n \<le> j * n" using mult_le_mono1 [of "Suc h" j n] by simp
    then obtain d where d: "j * n = h * n + n + d" using le_Suc_ex by blast
    have "min (c * n) (h * n) = h * n" using h by simp
    with 3 d h assms(1,2) show ?thesis by (simp add: algebra_simps)
  qed
qed

lemma unat_next: 
  assumes "(h :: u32) < c"
  shows "unat ((h + 1) mod c) = (unat h + 1) mod unat c"
  using assms unat_inc [OF assms] by (simp add: unat_mod_distrib)

lemma mod_add_ne:
  assumes "(k :: nat) < n" "n < c" shows "(t + n) mod c \<noteq> (t + k) mod c"
proof
  assume "(t + n) mod c = (t + k) mod c"
  then have "c dvd (t + n) - (t + k)" by (metis mod_eq_dvd_iff_nat add_le_cancel_left assms(1) less_imp_le)
  then have "c dvd n - k" by simp
  then show False using assms by (auto dest: dvd_imp_le)
qed

lemma unat_slot_base:
  assumes "queue_wf q" "h < q_capacity q"
  shows "unat (h * q_item_size q) = unat h * unat (q_item_size q)"
    "unat h * unat (q_item_size q) + unat (q_item_size q) \<le> length (q_buf q)"
proof -
  have b: "unat h * unat (q_item_size q) + unat (q_item_size q) \<le> unat (q_capacity q) * unat (q_item_size q)"
    using assms(2) mult_le_mono1 [of "Suc (unat h)" "unat (q_capacity q)" "unat (q_item_size q)"]
    by (simp add: word_less_nat_alt)
  then show "unat (h * q_item_size q) = unat h * unat (q_item_size q)"
    "unat h * unat (q_item_size q) + unat (q_item_size q) \<le> length (q_buf q)"
    using assms(1) by (simp_all add: queue_wf_def unat_word_ariths)
qed

lemma queue_put_holds:
  assumes h: "queue_holds q xs" and len: "length x = unat (q_item_size q)" and room: "length xs < unat (q_capacity q)"
  obtains q' where "queue_put x q = Some q'" "queue_holds q' (xs @ [x])"
    "q_capacity q' = q_capacity q" "q_item_size q' = q_item_size q"
proof -
  let ?n = "unat (q_item_size q)" and ?c = "unat (q_capacity q)" and ?h = "unat (q_head q)" and ?t = "unat (q_tail q)"
  have wf: "queue_wf q" using h by (simp add: queue_holds_def)
  then have hc: "q_head q < q_capacity q" and bl: "length (q_buf q) = ?c * ?n" "?c * ?n < 2 ^ 32" by (simp_all add: queue_wf_def)
  note B = unat_slot_base [OF wf hc]
  let ?buf = "take (?h * ?n) (q_buf q) @ x @ drop (?h * ?n + ?n) (q_buf q)"
  let ?q = "q\<lparr>q_buf := ?buf, q_head := (q_head q + 1) mod q_capacity q\<rparr>"
  have "copy_in ?n 0 (q_head q * q_item_size q) x (q_buf q) = Some ?buf"
    using copy_in_eq [of 0 ?n x "q_head q * q_item_size q" "q_buf q"] B len bl by simp
  moreover have c0: "q_capacity q \<noteq> 0" using hc by auto
  ultimately have put: "queue_put x q = Some ?q" by (simp add: queue_put_def)
  have sl: "slot ?q j = (if j = ?h then x else slot q j)" if "j < ?c" for j
    using slot_splice [OF len bl(1) _ that, of ?h] hc by (simp add: slot_def word_less_nat_alt)
  have hd: "unat ((q_head q + 1) mod q_capacity q) = (?t + Suc (length xs)) mod ?c"
    using h unat_next [OF hc] by (simp add: queue_holds_def mod_Suc_eq)
  have cpos: "?c > 0" using room by simp
  have "unat ((q_head q + 1) mod q_capacity q) < ?c" using hd cpos by simp
  then have lt: "(q_head q + 1) mod q_capacity q < q_capacity q" by (simp only: word_less_nat_alt)
  have wf': "queue_wf ?q"
    using wf B lt len by (simp add: queue_wf_def)
  have "slot ?q ((?t + i) mod ?c) = (xs @ [x]) ! i" if "i < Suc (length xs)" for i
  proof (cases "i < length xs")
    case True
    have "(?t + i) mod ?c \<noteq> ?h" using mod_add_ne [OF True room, of ?t] h by (simp add: queue_holds_def)
    then show ?thesis using True h cpos sl [of "(?t + i) mod ?c"] by (simp add: queue_holds_def nth_append)
  next
    case False
    with that have "i = length xs" by simp
    then show ?thesis using h cpos sl [of "(?t + i) mod ?c"] by (simp add: queue_holds_def)
  qed
  then have "queue_holds ?q (xs @ [x])" using wf' room hd by (simp add: queue_holds_def)
  then show ?thesis using put that by simp
qed

lemma queue_get_holds:
  assumes h: "queue_holds q (x # xs)" and len: "length dst = unat (q_item_size q)"
  obtains q' where "queue_get dst q = Some (x, q')" "queue_holds q' xs"
    "q_capacity q' = q_capacity q" "q_item_size q' = q_item_size q"
proof -
  let ?n = "unat (q_item_size q)" and ?c = "unat (q_capacity q)" and ?t = "unat (q_tail q)"
  have wf: "queue_wf q" using h by (simp add: queue_holds_def)
  then have tc: "q_tail q < q_capacity q" and bl: "length (q_buf q) = ?c * ?n" "?c * ?n < 2 ^ 32" by (simp_all add: queue_wf_def)
  note B = unat_slot_base [OF wf tc]
  let ?q = "q\<lparr>q_tail := (q_tail q + 1) mod q_capacity q\<rparr>"
  have tlt: "?t < ?c" using tc by (simp add: word_less_nat_alt)
  have x: "slot q ?t = x" using h tlt by (simp add: queue_holds_def split: nat.splits) (metis add.right_neutral mod_less nth_Cons_0 zero_less_Suc)
  have nb: "?n < 2 ^ 32" using unat_lt2p [of "q_item_size q"] by simp
  have "copy_out ?n 0 (q_tail q * q_item_size q) (q_buf q) dst = Some x"
    using copy_out_eq [of 0 ?n dst "q_tail q * q_item_size q" "q_buf q"] B len bl nb x by (simp add: slot_def)
  moreover have c0: "q_capacity q \<noteq> 0" using tc by auto
  ultimately have get: "queue_get dst q = Some (x, ?q)" by (simp add: queue_get_def)
  have tl: "unat ((q_tail q + 1) mod q_capacity q) = Suc ?t mod ?c" using unat_next [OF tc] by simp
  have "unat ((q_tail q + 1) mod q_capacity q) < ?c" using tl tlt by simp
  then have lt: "(q_tail q + 1) mod q_capacity q < q_capacity q" by (simp only: word_less_nat_alt)
  have sl: "slot ?q = slot q" by (simp add: slot_def fun_eq_iff)
  have m: "(Suc ?t mod ?c + i) mod ?c = (?t + Suc i) mod ?c" for i by (simp add: mod_add_left_eq)
  have nth: "slot q ((?t + Suc i) mod ?c) = xs ! i" if "i < length xs" for i
    using h that by (auto simp: queue_holds_def dest: spec [of _ "Suc i"])
  have hd: "unat (q_head q) = (?t + Suc (length xs)) mod ?c" using h by (simp add: queue_holds_def)
  have "queue_wf ?q" using wf lt by (simp add: queue_wf_def)
  then have "queue_holds ?q xs" using h nth hd by (simp add: queue_holds_def sl tl m)
  then show ?thesis using get that by simp
qed


subsection \<open>What the ring promises\<close>

text \<open>A bounded first-in first-out buffer: what a sender and a receiver rely on when they hold a token each.\<close>

locale bounded_fifo =
  fixes put :: "'x \<Rightarrow> 'b \<Rightarrow> 'b option" and get :: "'x \<Rightarrow> 'b \<Rightarrow> ('x \<times> 'b) option"
    and holds :: "'b \<Rightarrow> 'x list \<Rightarrow> bool" and room :: "'b \<Rightarrow> nat" and fits :: "'b \<Rightarrow> 'x \<Rightarrow> bool"
  assumes put_law: "holds b xs \<Longrightarrow> fits b x \<Longrightarrow> length xs < room b \<Longrightarrow>
      \<exists>b'. put x b = Some b' \<and> holds b' (xs @ [x]) \<and> room b' = room b \<and> fits b' = fits b"
    and get_law: "holds b (x # xs) \<Longrightarrow> fits b d \<Longrightarrow>
      \<exists>b'. get d b = Some (x, b') \<and> holds b' xs \<and> room b' = room b \<and> fits b' = fits b"
begin

text \<open>The buffer holds what was sent and not yet received.\<close>

definition tracks :: "'b \<Rightarrow> 'x list \<Rightarrow> 'x list \<Rightarrow> nat \<Rightarrow> bool" where
  "tracks b sent received n \<longleftrightarrow> (\<exists>xs. holds b xs \<and> sent = received @ xs \<and> length xs = n)"

lemma tracks_put:
  assumes "tracks b sent received n" "fits b x" "n < room b"
  shows "\<exists>b'. put x b = Some b' \<and> tracks b' (sent @ [x]) received (Suc n) \<and> room b' = room b \<and> fits b' = fits b"
proof -
  from assms(1) obtain xs where "holds b xs" "sent = received @ xs" "length xs = n" by (auto simp: tracks_def)
  moreover from this put_law [OF this(1) assms(2)] assms(3) obtain b' where
    "put x b = Some b'" "holds b' (xs @ [x])" "room b' = room b" "fits b' = fits b" by auto
  ultimately show ?thesis by (auto simp: tracks_def)
qed

lemma tracks_get:
  assumes "tracks b sent received (Suc n)" "fits b d"
  shows "\<exists>x b'. get d b = Some (x, b') \<and> tracks b' sent (received @ [x]) n \<and> room b' = room b \<and> fits b' = fits b"
proof -
  from assms(1) obtain x xs where xs: "holds b (x # xs)" "sent = received @ x # xs" "length xs = n"
    by (auto simp: tracks_def length_Suc_conv)
  from get_law [OF xs(1) assms(2)] obtain b' where
    "get d b = Some (x, b')" "holds b' xs" "room b' = room b" "fits b' = fits b" by auto
  with xs(2,3) show ?thesis by (auto simp: tracks_def)
qed

end

definition item_of :: "Queue \<Rightarrow> u8 list \<Rightarrow> bool" where
  "item_of q x \<longleftrightarrow> length x = unat (q_item_size q)"

definition queue_room :: "Queue \<Rightarrow> nat" where
  "queue_room q = unat (q_capacity q)"

interpretation ring: bounded_fifo queue_put queue_get queue_holds queue_room item_of
proof (unfold_locales, goal_cases)
  case (1 b xs x)
  obtain b' where "queue_put x b = Some b'" "queue_holds b' (xs @ [x])" "q_capacity b' = q_capacity b" "q_item_size b' = q_item_size b"
    by (rule queue_put_holds [OF 1(1)]) (use 1 in \<open>simp_all add: item_of_def queue_room_def\<close>)
  then show ?case by (simp add: item_of_def queue_room_def fun_eq_iff)
next
  case (2 b x xs d)
  obtain b' where "queue_get d b = Some (x, b')" "queue_holds b' xs" "q_capacity b' = q_capacity b" "q_item_size b' = q_item_size b"
    by (rule queue_get_holds [OF 2(1)]) (use 2 in \<open>simp_all add: item_of_def\<close>)
  then show ?case by (simp add: item_of_def queue_room_def fun_eq_iff)
qed

subsection \<open>Tasks using one queue\<close>

text \<open>Any number of tasks send to and receive from one queue. A task's position in \<open>queue_send\<close> or \<open>queue_recv\<close>, one per
  critical section; the semaphores are their abstract ones, which the kernel's implement. A waiter whose timeout runs out
  leaves the wait list and starts over with its first attempt.\<close>

datatype queue_pc =
    Elsewhere
  | AwaitSpace "u8 list" | HasSpace "u8 list" | HasPut
  | AwaitData "u8 list" | HasData "u8 list" | HasGot

record queue_sys =
  qs_queue :: Queue
  qs_space :: sem_spec
  qs_data :: sem_spec
  qs_pc :: "tptr \<Rightarrow> queue_pc"
  qs_sent :: "u8 list list"
  qs_received :: "u8 list list"

definition hand_to :: "tptr option \<Rightarrow> (queue_pc \<Rightarrow> queue_pc) \<Rightarrow> (tptr \<Rightarrow> queue_pc) \<Rightarrow> tptr \<Rightarrow> queue_pc" where
  "hand_to w f p = (case w of None \<Rightarrow> p | Some u \<Rightarrow> p(u := f (p u)))"

fun space_arrives :: "queue_pc \<Rightarrow> queue_pc" where
  "space_arrives (AwaitSpace src) = HasSpace src"
| "space_arrives p = p"

fun data_arrives :: "queue_pc \<Rightarrow> queue_pc" where
  "data_arrives (AwaitData dst) = HasData dst"
| "data_arrives p = p"

inductive queue_step :: "tptr \<Rightarrow> queue_sys \<Rightarrow> queue_sys \<Rightarrow> bool" for t where
  send_take: "qs_pc s t = Elsewhere \<Longrightarrow> item_of (qs_queue s) src \<Longrightarrow> take_spec t may_wait (qs_space s) = (TakeReturns E_OK, sp) \<Longrightarrow>
    queue_step t s (s\<lparr>qs_space := sp, qs_pc := (qs_pc s)(t := HasSpace src)\<rparr>)"
| send_wait: "qs_pc s t = Elsewhere \<Longrightarrow> item_of (qs_queue s) src \<Longrightarrow> take_spec t may_wait (qs_space s) = (TakeBlocked, sp) \<Longrightarrow>
    queue_step t s (s\<lparr>qs_space := sp, qs_pc := (qs_pc s)(t := AwaitSpace src)\<rparr>)"
| send_expire: "qs_pc s t = AwaitSpace src \<Longrightarrow>
    queue_step t s (s\<lparr>qs_space := (qs_space s)\<lparr>sp_waiters := remove1 t (sp_waiters (qs_space s))\<rparr>,
                     qs_pc := (qs_pc s)(t := Elsewhere)\<rparr>)"
| send_copy: "qs_pc s t = HasSpace src \<Longrightarrow> queue_put src (qs_queue s) = Some b \<Longrightarrow>
    queue_step t s (s\<lparr>qs_queue := b, qs_pc := (qs_pc s)(t := HasPut), qs_sent := qs_sent s @ [src]\<rparr>)"
| send_give: "qs_pc s t = HasPut \<Longrightarrow> give_spec (qs_data s) = (r, w, d) \<Longrightarrow>
    queue_step t s (s\<lparr>qs_data := d, qs_pc := hand_to w data_arrives ((qs_pc s)(t := Elsewhere))\<rparr>)"
| recv_take: "qs_pc s t = Elsewhere \<Longrightarrow> item_of (qs_queue s) dst \<Longrightarrow> take_spec t may_wait (qs_data s) = (TakeReturns E_OK, d) \<Longrightarrow>
    queue_step t s (s\<lparr>qs_data := d, qs_pc := (qs_pc s)(t := HasData dst)\<rparr>)"
| recv_wait: "qs_pc s t = Elsewhere \<Longrightarrow> item_of (qs_queue s) dst \<Longrightarrow> take_spec t may_wait (qs_data s) = (TakeBlocked, d) \<Longrightarrow>
    queue_step t s (s\<lparr>qs_data := d, qs_pc := (qs_pc s)(t := AwaitData dst)\<rparr>)"
| recv_expire: "qs_pc s t = AwaitData dst \<Longrightarrow>
    queue_step t s (s\<lparr>qs_data := (qs_data s)\<lparr>sp_waiters := remove1 t (sp_waiters (qs_data s))\<rparr>,
                     qs_pc := (qs_pc s)(t := Elsewhere)\<rparr>)"
| recv_copy: "qs_pc s t = HasData dst \<Longrightarrow> queue_get dst (qs_queue s) = Some (x, b) \<Longrightarrow>
    queue_step t s (s\<lparr>qs_queue := b, qs_pc := (qs_pc s)(t := HasGot), qs_received := qs_received s @ [x]\<rparr>)"
| recv_give: "qs_pc s t = HasGot \<Longrightarrow> give_spec (qs_space s) = (r, w, sp) \<Longrightarrow>
    queue_step t s (s\<lparr>qs_space := sp, qs_pc := hand_to w space_arrives ((qs_pc s)(t := Elsewhere))\<rparr>)"

inductive_cases queue_stepE: "queue_step t s s'"

text \<open>The state after \<open>queue_init\<close>, before any task uses the queue.\<close>

definition queue_fresh :: "Queue \<Rightarrow> queue_sys" where
  "queue_fresh q = \<lparr>qs_queue = q,
     qs_space = \<lparr>sp_max = unat (q_capacity q), sp_count = unat (q_capacity q), sp_waiters = []\<rparr>,
     qs_data = \<lparr>sp_max = unat (q_capacity q), sp_count = 0, sp_waiters = []\<rparr>,
     qs_pc = (\<lambda>_. Elsewhere), qs_sent = [], qs_received = []\<rparr>"

inductive queue_reach :: "Queue \<Rightarrow> queue_sys \<Rightarrow> bool" for q where
  fresh: "queue_reach q (queue_fresh q)"
| step: "queue_reach q s \<Longrightarrow> queue_step t s s' \<Longrightarrow> queue_reach q s'"

subsection \<open>Counting tasks\<close>

definition tally :: "('p \<Rightarrow> bool) \<Rightarrow> ('t \<Rightarrow> 'p) \<Rightarrow> nat" where
  "tally P f = card {t. P (f t)}"

lemma tally_upd:
  assumes "finite {t. P (f t)}"
  shows "tally P (f(t := v)) + (if P (f t) then 1 else 0) = tally P f + (if P v then 1 else 0)"
proof -
  have e: "{u. P ((f(t := v)) u)} = (if P v then insert t ({u. P (f u)} - {t}) else {u. P (f u)} - {t})" by auto
  show ?thesis
    unfolding tally_def e using assms card_Suc_Diff1 [OF assms, of t] by (auto simp: card_insert_if)
qed

lemma tally_none: "(\<And>t. \<not> P (f t)) \<Longrightarrow> tally P f = 0"
  by (simp add: tally_def)


subsection \<open>The token invariant\<close>

fun has_token :: "queue_pc \<Rightarrow> bool" where
  "has_token (HasSpace _) = True" | "has_token HasPut = True" | "has_token (HasData _) = True" | "has_token HasGot = True"
| "has_token _ = False"

fun counts_item :: "queue_pc \<Rightarrow> bool" where
  "counts_item HasPut = True" | "counts_item (HasData _) = True" | "counts_item _ = False"

fun awaits_space :: "queue_pc \<Rightarrow> bool" where
  "awaits_space (AwaitSpace _) = True" | "awaits_space _ = False"

fun awaits_data :: "queue_pc \<Rightarrow> bool" where
  "awaits_data (AwaitData _) = True" | "awaits_data _ = False"

fun pc_fits :: "(u8 list \<Rightarrow> bool) \<Rightarrow> queue_pc \<Rightarrow> bool" where
  "pc_fits P (AwaitSpace x) = P x" | "pc_fits P (HasSpace x) = P x"
| "pc_fits P (AwaitData x) = P x" | "pc_fits P (HasData x) = P x" | "pc_fits P _ = True"

text \<open>Every slot of the queue is accounted for by exactly one token: free, filled, or in the hands of a task.\<close>

definition waiters_ok :: "(queue_pc \<Rightarrow> bool) \<Rightarrow> (tptr \<Rightarrow> queue_pc) \<Rightarrow> sem_spec \<Rightarrow> bool" where
  "waiters_ok W p a \<longleftrightarrow> distinct (sp_waiters a) \<and> set (sp_waiters a) = {t. W (p t)} \<and> (sp_waiters a \<noteq> [] \<longrightarrow> sp_count a = 0)"

definition queue_inv :: "Queue \<Rightarrow> queue_sys \<Rightarrow> bool" where
  "queue_inv q s \<longleftrightarrow>
     (finite {t. qs_pc s t \<noteq> Elsewhere} \<and> (\<forall>t. pc_fits (item_of q) (qs_pc s t))) \<and>
     (sp_max (qs_space s) = queue_room q \<and> sp_max (qs_data s) = queue_room q \<and>
      queue_room (qs_queue s) = queue_room q \<and> item_of (qs_queue s) = item_of q) \<and>
     (waiters_ok awaits_space (qs_pc s) (qs_space s) \<and> waiters_ok awaits_data (qs_pc s) (qs_data s)) \<and>
     sp_count (qs_space s) + sp_count (qs_data s) + tally has_token (qs_pc s) = queue_room q \<and>
     ring.tracks (qs_queue s) (qs_sent s) (qs_received s) (sp_count (qs_data s) + tally counts_item (qs_pc s))"

lemma queue_inv_fresh: "queue_holds q [] \<Longrightarrow> queue_inv q (queue_fresh q)"
  by (simp add: queue_inv_def queue_fresh_def queue_room_def waiters_ok_def ring.tracks_def tally_none)

lemma tally_finite:
  assumes "finite {t. p t \<noteq> Elsewhere}"
  shows "finite {t. has_token (p t)}" "finite {t. counts_item (p t)}"
  by (rule finite_subset [OF _ assms], force)+

lemma tally_one: "finite {t. P (f t)} \<Longrightarrow> P (f t) \<Longrightarrow> tally P f > 0"
  by (auto simp: tally_def card_gt_0_iff)

lemma tally_counts_lt:
  assumes "finite {t. p t \<noteq> Elsewhere}" "has_token (p t)" "\<not> counts_item (p t)"
  shows "tally counts_item p < tally has_token p"
proof -
  have sub: "counts_item x \<Longrightarrow> has_token x" for x by (cases x) simp_all
  have "{t. counts_item (p t)} \<subset> {t. has_token (p t)}" using sub assms(2,3) by blast
  then show ?thesis unfolding tally_def by (rule psubset_card_mono [OF tally_finite(1) [OF assms(1)]])
qed

lemma waiters_ok_move:
  assumes "waiters_ok W p a" "W (p t) = W v" shows "waiters_ok W (p(t := v)) a"
proof -
  have "{u. W ((p(t := v)) u)} = {u. W (p u)}" using assms(2) by auto
  with assms(1) show ?thesis by (simp add: waiters_ok_def)
qed

lemma waiters_ok_count: "waiters_ok W p a \<Longrightarrow> sp_waiters a = [] \<or> n = 0 \<Longrightarrow> waiters_ok W p (a\<lparr>sp_count := n\<rparr>)"
  by (auto simp: waiters_ok_def)

lemma waiters_ok_push:
  "waiters_ok W p a \<Longrightarrow> \<not> W (p t) \<Longrightarrow> W v \<Longrightarrow> sp_count a = 0 \<Longrightarrow>
     waiters_ok W (p(t := v)) (a\<lparr>sp_waiters := sp_waiters a @ [t]\<rparr>)"
  by (auto simp: waiters_ok_def)

lemma waiters_ok_drop:
  "waiters_ok W p a \<Longrightarrow> W (p t) \<Longrightarrow> \<not> W v \<Longrightarrow> waiters_ok W (p(t := v)) (a\<lparr>sp_waiters := remove1 t (sp_waiters a)\<rparr>)"
  by (auto simp: waiters_ok_def)

lemma waiters_ok_pop:
  "waiters_ok W p a \<Longrightarrow> sp_waiters a = u # ws \<Longrightarrow> \<not> W v \<Longrightarrow> waiters_ok W (p(u := v)) (a\<lparr>sp_waiters := ws\<rparr>)"
  using waiters_ok_drop [of W p a u v] by (auto simp: waiters_ok_def)

lemma finite_move: "finite {t. p t \<noteq> Elsewhere} \<Longrightarrow> finite {t. (p(u := v)) t \<noteq> Elsewhere}"
  by (rule finite_subset [of _ "insert u {t. p t \<noteq> Elsewhere}"]) auto

lemma take_specE:
  assumes "take_spec t w a = (TakeReturns E_OK, b)"
  shows "sp_count a > 0" "b = a\<lparr>sp_count := sp_count a - 1\<rparr>"
  using assms by (auto simp: take_spec_def split: if_splits)

lemma take_spec_blockedE:
  assumes "take_spec t w a = (TakeBlocked, b)"
  shows "sp_count a = 0" "b = a\<lparr>sp_waiters := sp_waiters a @ [t]\<rparr>"
  using assms by (auto simp: take_spec_def split: if_splits)


lemma queue_invI:
  assumes i: "queue_inv q s" and fin: "finite {t. qs_pc s' t \<noteq> Elsewhere}" and fit: "\<And>t. pc_fits (item_of q) (qs_pc s' t)"
    and mx: "sp_max (qs_space s') = sp_max (qs_space s)" "sp_max (qs_data s') = sp_max (qs_data s)"
      "queue_room (qs_queue s') = queue_room (qs_queue s)" "item_of (qs_queue s') = item_of (qs_queue s)"
    and w: "waiters_ok awaits_space (qs_pc s') (qs_space s')" "waiters_ok awaits_data (qs_pc s') (qs_data s')"
    and tok: "sp_count (qs_space s') + sp_count (qs_data s') + tally has_token (qs_pc s') =
        sp_count (qs_space s) + sp_count (qs_data s) + tally has_token (qs_pc s)"
    and tr: "ring.tracks (qs_queue s') (qs_sent s') (qs_received s') (sp_count (qs_data s') + tally counts_item (qs_pc s'))"
  shows "queue_inv q s'"
  using assms unfolding queue_inv_def by simp

lemma queue_invD:
  assumes "queue_inv q s"
  shows "finite {t. qs_pc s t \<noteq> Elsewhere}" "pc_fits (item_of q) (qs_pc s t)"
    "waiters_ok awaits_space (qs_pc s) (qs_space s)" "waiters_ok awaits_data (qs_pc s) (qs_data s)"
    "sp_max (qs_space s) = queue_room q" "sp_max (qs_data s) = queue_room q"
    "queue_room (qs_queue s) = queue_room q" "item_of (qs_queue s) = item_of q"
    "sp_count (qs_space s) + sp_count (qs_data s) + tally has_token (qs_pc s) = queue_room q"
    "ring.tracks (qs_queue s) (qs_sent s) (qs_received s) (sp_count (qs_data s) + tally counts_item (qs_pc s))"
  using assms by (simp_all add: queue_inv_def)

text \<open>How a move changes the two tallies.\<close>

lemma tally_move:
  assumes "finite {t. p t \<noteq> Elsewhere}"
  shows "tally has_token (p(t := v)) + (if has_token (p t) then 1 else 0) = tally has_token p + (if has_token v then 1 else 0)"
    "tally counts_item (p(t := v)) + (if counts_item (p t) then 1 else 0) = tally counts_item p + (if counts_item v then 1 else 0)"
  using tally_upd [where P = has_token and f = p] tally_upd [where P = counts_item and f = p] tally_finite [OF assms] by blast+

lemma give_cases:
  assumes i: "queue_inv q s" and t: "has_token (qs_pc s t)" and fr: "waiters_ok W (qs_pc s) a"
    and W: "W = awaits_space \<and> a = qs_space s \<or> W = awaits_data \<and> a = qs_data s"
  shows "sp_waiters a = [] \<Longrightarrow> sp_count a < sp_max a"
    and "sp_waiters a = u # ws \<Longrightarrow> W (qs_pc s u) \<and> u \<noteq> t"
proof -
  note fin = queue_invD(1) [OF i]
  have "tally has_token (qs_pc s) > 0" using tally_one [where P = has_token and f = "qs_pc s"] tally_finite(1) [OF fin] t by blast
  then show "sp_count a < sp_max a" using W queue_invD(5-9) [OF i] by auto
  show "W (qs_pc s u) \<and> u \<noteq> t" if "sp_waiters a = u # ws"
  proof -
    have "W (qs_pc s u)" using fr that by (auto simp: waiters_ok_def)
    then show ?thesis using t W by (cases "qs_pc s u") auto
  qed
qed

lemma queue_inv_send_give:
  assumes i: "queue_inv q s" and c: "qs_pc s t = HasPut" and g: "give_spec (qs_data s) = (r, w, d)"
  shows "r = E_OK \<and> queue_inv q (s\<lparr>qs_data := d, qs_pc := hand_to w data_arrives ((qs_pc s)(t := Elsewhere))\<rparr>)"
proof -
  note D = queue_invD [OF i]
  have tok: "has_token (qs_pc s t)" using c by simp
  note G = give_cases [OF i tok D(4)] and T = tally_move [OF D(1), of t Elsewhere]
  note fin = finite_move [OF D(1), of t Elsewhere]
  show ?thesis
  proof (cases "sp_waiters (qs_data s)")
    case Nil
    then have gd: "r = E_OK" "w = None" "d = (qs_data s)\<lparr>sp_count := sp_count (qs_data s) + 1\<rparr>"
      using g G(1) by (auto simp: give_spec_def)
    have e: "Suc (sp_count (qs_data s) + tally counts_item ((qs_pc s)(t := Elsewhere))) = sp_count (qs_data s) + tally counts_item (qs_pc s)"
      using T(2) c by simp
    have "queue_inv q (s\<lparr>qs_data := d, qs_pc := (qs_pc s)(t := Elsewhere)\<rparr>)"
      by (rule queue_invI [OF i]) (use c gd Nil D T(1) fin in \<open>auto simp: e intro!: waiters_ok_move waiters_ok_count\<close>)
    with gd show ?thesis by (simp add: hand_to_def)
  next
    case (Cons u ws)
    then have gd: "r = E_OK" "w = Some u" "d = (qs_data s)\<lparr>sp_waiters := ws\<rparr>" using g by (auto simp: give_spec_def)
    from G(2) [OF _ Cons] obtain dst where u: "qs_pc s u = AwaitData dst" "u \<noteq> t" by (cases "qs_pc s u") auto
    let ?p = "(qs_pc s)(t := Elsewhere, u := HasData dst)"
    note T2 = tally_move [where p = "(qs_pc s)(t := Elsewhere)", OF fin, of u "HasData dst"]
    have e: "tally counts_item ?p = tally counts_item (qs_pc s)" "tally has_token ?p = tally has_token (qs_pc s)"
      using T T2 c u by simp_all
    have f2: "finite {x. ?p x \<noteq> Elsewhere}" by (intro finite_move D(1))
    have fit: "pc_fits (item_of q) (?p x)" for x using D(2) [of x] D(2) [of u] u by simp
    have w: "waiters_ok awaits_data ?p d" unfolding gd(3)
      by (rule waiters_ok_pop [OF waiters_ok_move [OF D(4)]]) (simp_all add: c Cons)
    have "waiters_ok awaits_space ?p (qs_space s)"
      by (rule waiters_ok_move [OF waiters_ok_move [OF D(3)]]) (simp_all add: c u)
    then have "queue_inv q (s\<lparr>qs_data := d, qs_pc := ?p\<rparr>)"
      by (intro queue_invI [OF i]) (use gd D w fit e f2 in simp_all)
    with gd u show ?thesis by (simp add: hand_to_def)
  qed
qed

lemma queue_inv_recv_give:
  assumes i: "queue_inv q s" and c: "qs_pc s t = HasGot" and g: "give_spec (qs_space s) = (r, w, d)"
  shows "r = E_OK \<and> queue_inv q (s\<lparr>qs_space := d, qs_pc := hand_to w space_arrives ((qs_pc s)(t := Elsewhere))\<rparr>)"
proof -
  note D = queue_invD [OF i]
  have tok: "has_token (qs_pc s t)" using c by simp
  note G = give_cases [OF i tok D(3)] and T = tally_move [OF D(1), of t Elsewhere]
  note fin = finite_move [OF D(1), of t Elsewhere]
  show ?thesis
  proof (cases "sp_waiters (qs_space s)")
    case Nil
    then have gd: "r = E_OK" "w = None" "d = (qs_space s)\<lparr>sp_count := sp_count (qs_space s) + 1\<rparr>"
      using g G(1) by (auto simp: give_spec_def)
    have e: "tally counts_item ((qs_pc s)(t := Elsewhere)) = tally counts_item (qs_pc s)" using T(2) c by simp
    have "queue_inv q (s\<lparr>qs_space := d, qs_pc := (qs_pc s)(t := Elsewhere)\<rparr>)"
      by (rule queue_invI [OF i]) (use c gd Nil D T(1) fin in \<open>auto simp: e intro!: waiters_ok_move waiters_ok_count\<close>)
    with gd show ?thesis by (simp add: hand_to_def)
  next
    case (Cons u ws)
    then have gd: "r = E_OK" "w = Some u" "d = (qs_space s)\<lparr>sp_waiters := ws\<rparr>" using g by (auto simp: give_spec_def)
    from G(2) [OF _ Cons] obtain src where u: "qs_pc s u = AwaitSpace src" "u \<noteq> t" by (cases "qs_pc s u") auto
    let ?p = "(qs_pc s)(t := Elsewhere, u := HasSpace src)"
    note T2 = tally_move [where p = "(qs_pc s)(t := Elsewhere)", OF fin, of u "HasSpace src"]
    have e: "tally counts_item ?p = tally counts_item (qs_pc s)" "tally has_token ?p = tally has_token (qs_pc s)"
      using T T2 c u by simp_all
    have f2: "finite {x. ?p x \<noteq> Elsewhere}" by (intro finite_move D(1))
    have fit: "pc_fits (item_of q) (?p x)" for x using D(2) [of x] D(2) [of u] u by simp
    have w: "waiters_ok awaits_space ?p d" unfolding gd(3)
      by (rule waiters_ok_pop [OF waiters_ok_move [OF D(3)]]) (simp_all add: c Cons)
    have "waiters_ok awaits_data ?p (qs_data s)"
      by (rule waiters_ok_move [OF waiters_ok_move [OF D(4)]]) (simp_all add: c u)
    then have "queue_inv q (s\<lparr>qs_space := d, qs_pc := ?p\<rparr>)"
      by (intro queue_invI [OF i]) (use gd D w fit e f2 in simp_all)
    with gd u show ?thesis by (simp add: hand_to_def)
  qed
qed

text \<open>The copy sections never leave the buffer: a task that holds a space token finds a free slot, one that holds a data token
  an item.\<close>

lemma queue_inv_send_copy:
  assumes i: "queue_inv q s" and c: "qs_pc s t = HasSpace src"
  obtains b where "queue_put src (qs_queue s) = Some b"
    and "queue_inv q (s\<lparr>qs_queue := b, qs_pc := (qs_pc s)(t := HasPut), qs_sent := qs_sent s @ [src]\<rparr>)"
proof -
  note D = queue_invD [OF i]
  note T = tally_move [OF D(1), of t HasPut]
  have "tally counts_item (qs_pc s) < tally has_token (qs_pc s)"
    by (rule tally_counts_lt [OF D(1), of t]) (simp_all add: c)
  then have "sp_count (qs_data s) + tally counts_item (qs_pc s) < queue_room (qs_queue s)" using D(7,9) by linarith
  moreover have "item_of (qs_queue s) src" using D(2) [of t] D(8) c by simp
  ultimately obtain b where b: "queue_put src (qs_queue s) = Some b"
    "ring.tracks b (qs_sent s @ [src]) (qs_received s) (Suc (sp_count (qs_data s) + tally counts_item (qs_pc s)))"
    "queue_room b = queue_room (qs_queue s)" "item_of b = item_of (qs_queue s)"
    using ring.tracks_put [OF D(10)] by blast
  have "queue_inv q (s\<lparr>qs_queue := b, qs_pc := (qs_pc s)(t := HasPut), qs_sent := qs_sent s @ [src]\<rparr>)"
    by (rule queue_invI [OF i]) (use c b D T finite_move [OF D(1), of t HasPut] in \<open>auto intro!: waiters_ok_move\<close>)
  with b that show ?thesis by blast
qed

lemma queue_inv_recv_copy:
  assumes i: "queue_inv q s" and c: "qs_pc s t = HasData dst"
  obtains x b where "queue_get dst (qs_queue s) = Some (x, b)"
    and "queue_inv q (s\<lparr>qs_queue := b, qs_pc := (qs_pc s)(t := HasGot), qs_received := qs_received s @ [x]\<rparr>)"
proof -
  note D = queue_invD [OF i]
  note T = tally_move [OF D(1), of t HasGot]
  have e: "sp_count (qs_data s) + tally counts_item (qs_pc s) =
      Suc (sp_count (qs_data s) + tally counts_item ((qs_pc s)(t := HasGot)))" using T(2) c by simp
  have "item_of (qs_queue s) dst" using D(2) [of t] D(8) c by simp
  then obtain x b where b: "queue_get dst (qs_queue s) = Some (x, b)"
    "ring.tracks b (qs_sent s) (qs_received s @ [x]) (sp_count (qs_data s) + tally counts_item ((qs_pc s)(t := HasGot)))"
    "queue_room b = queue_room (qs_queue s)" "item_of b = item_of (qs_queue s)"
    using ring.tracks_get [OF D(10) [unfolded e]] by blast
  have "queue_inv q (s\<lparr>qs_queue := b, qs_pc := (qs_pc s)(t := HasGot), qs_received := qs_received s @ [x]\<rparr>)"
    by (rule queue_invI [OF i]) (use c b D T finite_move [OF D(1), of t HasGot] in \<open>auto intro!: waiters_ok_move\<close>)
  with b that show ?thesis by blast
qed

lemma queue_inv_step:
  assumes i: "queue_inv q s" and st: "queue_step t s s'" shows "queue_inv q s'"
proof -
  note D = queue_invD [OF i]
  have simple: "queue_inv q (s\<lparr>qs_space := sp, qs_pc := (qs_pc s)(t := v)\<rparr>)"
    if "pc_fits (item_of q) v" "sp_max sp = sp_max (qs_space s)" "waiters_ok awaits_space ((qs_pc s)(t := v)) sp"
      "awaits_data v = awaits_data (qs_pc s t)" "counts_item v = counts_item (qs_pc s t)"
      "sp_count sp + (if has_token v then 1 else 0) = sp_count (qs_space s) + (if has_token (qs_pc s t) then 1 else 0)" for sp v
    by (rule queue_invI [OF i])
      (use that D tally_move [OF D(1), of t v] finite_move [OF D(1), of t v] in \<open>auto intro!: waiters_ok_move split: if_splits\<close>)
  have simple': "queue_inv q (s\<lparr>qs_data := d, qs_pc := (qs_pc s)(t := v)\<rparr>)"
    if "pc_fits (item_of q) v" "sp_max d = sp_max (qs_data s)" "waiters_ok awaits_data ((qs_pc s)(t := v)) d"
      "awaits_space v = awaits_space (qs_pc s t)" "has_token v = counts_item v" "has_token (qs_pc s t) = counts_item (qs_pc s t)"
      "sp_count d + (if has_token v then 1 else 0) = sp_count (qs_data s) + (if has_token (qs_pc s t) then 1 else 0)" for d v
  proof (rule queue_invI [OF i])
    have "sp_count d + tally counts_item ((qs_pc s)(t := v)) = sp_count (qs_data s) + tally counts_item (qs_pc s)"
      using that tally_move(2) [OF D(1), of t v] by (auto split: if_splits)
    then show "ring.tracks (qs_queue (s\<lparr>qs_data := d, qs_pc := (qs_pc s)(t := v)\<rparr>)) (qs_sent (s\<lparr>qs_data := d, qs_pc := (qs_pc s)(t := v)\<rparr>))
       (qs_received (s\<lparr>qs_data := d, qs_pc := (qs_pc s)(t := v)\<rparr>))
       (sp_count (qs_data (s\<lparr>qs_data := d, qs_pc := (qs_pc s)(t := v)\<rparr>)) + tally counts_item (qs_pc (s\<lparr>qs_data := d, qs_pc := (qs_pc s)(t := v)\<rparr>)))"
      using D(10) by simp
  qed (use that D tally_move(1) [OF D(1), of t v] finite_move [OF D(1), of t v] in \<open>auto intro!: waiters_ok_move split: if_splits\<close>)
  from st show ?thesis
  proof cases
    case (send_take src m sp)
    with take_specE [OF send_take(4)] D show ?thesis
      by (auto intro!: simple waiters_ok_move waiters_ok_count simp: waiters_ok_def [of _ _ "qs_space s"])
  next
    case (send_wait src m sp)
    with take_spec_blockedE [OF send_wait(4)] D show ?thesis by (auto intro!: simple waiters_ok_push)
  next
    case (send_expire src)
    with D show ?thesis by (auto intro!: simple waiters_ok_drop)
  next
    case (send_copy src b)
    with queue_inv_send_copy [OF i send_copy(2)] show ?thesis by auto
  next
    case (send_give r w d)
    with queue_inv_send_give [OF i send_give(2,3)] show ?thesis by simp
  next
    case (recv_take dst m d)
    with take_specE [OF recv_take(4)] D show ?thesis
      by (auto intro!: simple' waiters_ok_move waiters_ok_count simp: waiters_ok_def [of _ _ "qs_data s"])
  next
    case (recv_wait dst m d)
    with take_spec_blockedE [OF recv_wait(4)] D show ?thesis by (auto intro!: simple' waiters_ok_push)
  next
    case (recv_expire dst)
    with D show ?thesis by (auto intro!: simple' waiters_ok_drop)
  next
    case (recv_copy dst x b)
    with queue_inv_recv_copy [OF i recv_copy(2)] show ?thesis by auto
  next
    case (recv_give r w sp)
    with queue_inv_recv_give [OF i recv_give(2,3)] show ?thesis by simp
  qed
qed

lemma queue_reach_inv: "queue_reach q s \<Longrightarrow> queue_holds q [] \<Longrightarrow> queue_inv q s"
  by (induction rule: queue_reach.induct) (auto intro: queue_inv_fresh queue_inv_step)


subsection \<open>The operations on the kernel\<close>

lemma upd_queue_simps [simp]:
  "queues (upd_queue q f s) = (queues s)(q := f (queues s q))" "list_at (upd_queue q f s) = list_at s"
  "items (upd_queue q f s) = items s" "tcb (upd_queue q f s) = tcb s" "semaphores (upd_queue q f s) = semaphores s"
  "p_task_control_block (upd_queue q f s) = p_task_control_block s" "tick_count (upd_queue q f s) = tick_count s"
  "heap_offset (upd_queue q f s) = heap_offset s"
  by (simp_all add: upd_queue_def)

lemma sinv_upd_queue [wf_intros]: "sinv X s A \<Longrightarrow> sinv X (upd_queue q f s) A"
  by (erule sinv_cong) simp_all

lemma sinv_upd_sem [wf_intros]: "sinv X s A \<Longrightarrow> sinv X (upd_sem m f s) A"
  by (erule sinv_cong) simp_all

text \<open>What a \<open>semaphore_give\<close> means to the queue: one waiting task runs again, or the count goes up.\<close>

definition token_given :: "sptr \<Rightarrow> kernel \<Rightarrow> (lptr \<Rightarrow> iptr list) \<Rightarrow> kernel \<Rightarrow> bool" where
  "token_given m s A s' \<longleftrightarrow>
     (case A (SemaphoreBlockedList m) of
        x # _ \<Rightarrow> semaphores s' m = semaphores s m \<and> current_state (tcb s' (item_tcb x)) = TASK_STATE_READY \<and>
                wakeup_reason (tcb s' (item_tcb x)) = WAKEUP_REASON_RESOURCE_ACQUIRED
      | [] \<Rightarrow> tcb s' = tcb s \<and> (sem_count (semaphores s m) < max_count (semaphores s m) \<longrightarrow>
                sem_count (semaphores s' m) = sem_count (semaphores s m) + 1))"

lemma give_token_given:
  assumes i: "sinv {} s A"
  shows "\<exists>r s' A'. semaphore_give m s = Some (r, s') \<and> sinv {} s' A' \<and> token_given m s A s' \<and> queues s' = queues s \<and>
    (\<forall>m'. m' \<noteq> m \<longrightarrow> semaphores s' m' = semaphores s m')"
proof (cases "A (SemaphoreBlockedList m)")
  case Nil
  have n: "\<not> l_num_items (list_at s (SemaphoreBlockedList m)) > 0"
    using wfl_num_items_0 [OF sinvD(1) [OF i], of "SemaphoreBlockedList m"] Nil by simp
  show ?thesis
    using n i Nil sinv_upd_sem [OF i, of m "\<lambda>m. m\<lparr>sem_count := sem_count m + 1\<rparr>"]
    by (cases "sem_count (semaphores s m) < max_count (semaphores s m)")
      (auto simp: semaphore_give_def token_given_def Let_def)
next
  case (Cons h ys)
  then obtain t where t: "h = EventItem t" using typed_event(2) [OF sinvD(2) [OF i], of h m] by auto
  show ?thesis
    by (rule semaphore_give_sinv [OF i Cons [unfolded t]]) (simp add: token_given_def Cons t, blast)
qed

text \<open>\<open>queue_send\<close> on a queue with a space token stores the item behind all others, uses up the
  space token and passes a data token on: to the receiver that has waited longest, which becomes ready, or to the count.
  It returns \<open>E_OK\<close> and keeps the scheduler invariant.\<close>

theorem queue_send_stores:
  assumes "sinv {} s A" and "sem_count (semaphores s (SpaceAvailable q)) > 0"
    and "queue_holds (queues s q) xs" and "length xs < unat (q_capacity (queues s q))" and "item_of (queues s q) src"
  shows "\<exists>s' A'. queue_send q c t src timeout_ms deadline s = Some (QueueReturns E_OK, s') \<and> sinv {} s' A' \<and>
    queue_holds (queues s' q) (xs @ [src]) \<and> token_given (DataAvailable q) s A s' \<and>
    sem_count (semaphores s' (SpaceAvailable q)) = sem_count (semaphores s (SpaceAvailable q)) - 1"
proof -
  obtain b where b: "queue_put src (queues s q) = Some b" "queue_holds b (xs @ [src])"
    using ring.put_law [OF assms(3,5)] assms(4) by (auto simp: queue_room_def)
  let ?s1 = "upd_sem (SpaceAvailable q) (\<lambda>m. m\<lparr>sem_count := sem_count m - 1\<rparr>) s"
  let ?s2 = "upd_queue q (\<lambda>_. b) ?s1"
  have tk: "semaphore_take_try (SpaceAvailable q) c t timeout_ms deadline s = Some (TakeReturns E_OK, ?s1)"
    using assms(2) by (simp add: semaphore_take_try_def)
  have "sinv {} ?s2 A" by (intro wf_intros assms(1))
  from give_token_given [OF this, of "DataAvailable q"] obtain r s' A' where
    g: "semaphore_give (DataAvailable q) ?s2 = Some (r, s')" "sinv {} s' A'" "token_given (DataAvailable q) ?s2 A s'"
      "queues s' = queues ?s2" "semaphores s' (SpaceAvailable q) = semaphores ?s2 (SpaceAvailable q)" by blast
  have "queue_send q c t src timeout_ms deadline s = Some (QueueReturns E_OK, s')"
    by (simp add: queue_send_def tk queue_send_finish_def b(1) g(1))
  moreover have "token_given (DataAvailable q) s A s'" using g(3) by (simp add: token_given_def split: list.splits)
  ultimately show ?thesis using g b(2) by auto
qed

text \<open>\<open>queue_recv\<close> on a queue with a data token copies the oldest item out, frees its slot, and
  passes a space token on to the sender that has waited longest, or to the count. It returns \<open>E_OK\<close> and keeps the
  scheduler invariant.\<close>

theorem queue_recv_returns_oldest:
  assumes "sinv {} s A" and "sem_count (semaphores s (DataAvailable q)) > 0"
    and "queue_holds (queues s q) (x # xs)" and "item_of (queues s q) dst"
  shows "\<exists>s' A'. queue_recv q c t dst timeout_ms deadline s = Some (QueueReturns E_OK, x, s') \<and> sinv {} s' A' \<and>
    queue_holds (queues s' q) xs \<and> token_given (SpaceAvailable q) s A s' \<and>
    sem_count (semaphores s' (DataAvailable q)) = sem_count (semaphores s (DataAvailable q)) - 1"
proof -
  obtain b where b: "queue_get dst (queues s q) = Some (x, b)" "queue_holds b xs"
    using ring.get_law [OF assms(3,4)] by auto
  let ?s1 = "upd_sem (DataAvailable q) (\<lambda>m. m\<lparr>sem_count := sem_count m - 1\<rparr>) s"
  let ?s2 = "upd_queue q (\<lambda>_. b) ?s1"
  have tk: "semaphore_take_try (DataAvailable q) c t timeout_ms deadline s = Some (TakeReturns E_OK, ?s1)"
    using assms(2) by (simp add: semaphore_take_try_def)
  have "sinv {} ?s2 A" by (intro wf_intros assms(1))
  from give_token_given [OF this, of "SpaceAvailable q"] obtain r s' A' where
    g: "semaphore_give (SpaceAvailable q) ?s2 = Some (r, s')" "sinv {} s' A'" "token_given (SpaceAvailable q) ?s2 A s'"
      "queues s' = queues ?s2" "semaphores s' (DataAvailable q) = semaphores ?s2 (DataAvailable q)" by blast
  have "queue_recv q c t dst timeout_ms deadline s = Some (QueueReturns E_OK, x, s')"
    by (simp add: queue_recv_def tk queue_recv_finish_def b(1) g(1))
  moreover have "token_given (SpaceAvailable q) s A s'" using g(3) by (simp add: token_given_def split: list.splits)
  ultimately show ?thesis using g b(2) by auto
qed

text \<open>A queue of two two-byte items, empty and with one item, on the demonstration kernel.\<close>

definition demo_queue :: Queue where
  "demo_queue = \<lparr>q_buf = [7, 8, 0, 0], q_head = 0, q_tail = 0, q_capacity = 2, q_item_size = 2\<rparr>"

definition demo_queue1 :: Queue where
  "demo_queue1 = demo_queue\<lparr>q_head := 1\<rparr>"

lemma demo_queue_holds: "queue_holds demo_queue []" "queue_holds demo_queue1 [[7, 8]]"
  by (simp_all add: queue_holds_def queue_wf_def demo_queue_def demo_queue1_def slot_def)

theorem queue_send_stores_witness:
  "\<exists>s s'. queue_send 0 2 (TcbPool 2 0) [1, 2] 0 0 s = Some (QueueReturns E_OK, s') \<and> queue_holds (queues s' 0) [[1, 2]]"
proof -
  let ?s = "upd_queue 0 (\<lambda>_. demo_queue) (upd_sem (SpaceAvailable 0) (\<lambda>_. \<lparr>max_count = 2, sem_count = 2\<rparr>) demo_kernel)"
  have "sinv {} ?s demo_lists" by (intro wf_intros demo_kernel_facts(2))
  from queue_send_stores [OF this, of 0 "[]" "[1, 2]" 2 "TcbPool 2 0" 0 0] demo_queue_holds show ?thesis
    by (auto simp: item_of_def demo_queue_def)
qed

theorem queue_recv_returns_oldest_witness:
  "\<exists>s s'. queue_recv 0 2 (TcbPool 2 0) [0, 0] 0 0 s = Some (QueueReturns E_OK, [7, 8], s') \<and> queue_holds (queues s' 0) []"
proof -
  let ?s = "upd_queue 0 (\<lambda>_. demo_queue1) (upd_sem (DataAvailable 0) (\<lambda>_. \<lparr>max_count = 2, sem_count = 1\<rparr>) demo_kernel)"
  have "sinv {} ?s demo_lists" by (intro wf_intros demo_kernel_facts(2))
  from queue_recv_returns_oldest [OF this, of 0 "[7, 8]" "[]" "[0, 0]" 2 "TcbPool 2 0" 0 0] demo_queue_holds show ?thesis
    by (auto simp: item_of_def demo_queue1_def demo_queue_def)
qed

subsection \<open>Any number of senders and receivers\<close>

text \<open>Claim C10 (refinement). However the sections of \<open>queue_send\<close> and \<open>queue_recv\<close> of any number of tasks interleave, the
  queue is a bounded first-in first-out buffer: what was received, followed by what the ring holds, is what was sent,
  in order. A copy never leaves the buffer, and no token is refused.\<close>

theorem queue_fifo:
  assumes "queue_holds q []" and "queue_reach q s"
  shows "(\<exists>xs. queue_holds (qs_queue s) xs \<and> qs_sent s = qs_received s @ xs \<and> length xs \<le> unat (q_capacity q)) \<and>
    (\<forall>t src. qs_pc s t = HasSpace src \<longrightarrow> (\<exists>b. queue_put src (qs_queue s) = Some b)) \<and>
    (\<forall>t dst. qs_pc s t = HasData dst \<longrightarrow> (\<exists>x b. queue_get dst (qs_queue s) = Some (x, b))) \<and>
    (\<forall>t. qs_pc s t = HasPut \<longrightarrow> fst (give_spec (qs_data s)) = E_OK) \<and>
    (\<forall>t. qs_pc s t = HasGot \<longrightarrow> fst (give_spec (qs_space s)) = E_OK)"
proof -
  have i: "queue_inv q s" by (rule queue_reach_inv [OF assms(2,1)])
  have 1: "\<exists>xs. queue_holds (qs_queue s) xs \<and> qs_sent s = qs_received s @ xs \<and> length xs \<le> unat (q_capacity q)"
    using queue_invD(10) [OF i] queue_invD(7) [OF i] by (auto simp: ring.tracks_def queue_room_def queue_holds_def)
  have 2: "\<exists>b. queue_put src (qs_queue s) = Some b" if "qs_pc s t = HasSpace src" for t src
    by (rule queue_inv_send_copy [OF i that]) blast
  have 3: "\<exists>x b. queue_get dst (qs_queue s) = Some (x, b)" if "qs_pc s t = HasData dst" for t dst
    by (rule queue_inv_recv_copy [OF i that]) blast
  have 4: "fst (give_spec (qs_data s)) = E_OK" if "qs_pc s t = HasPut" for t
    using queue_inv_send_give [OF i that] by (cases "give_spec (qs_data s)") simp
  have 5: "fst (give_spec (qs_space s)) = E_OK" if "qs_pc s t = HasGot" for t
    using queue_inv_recv_give [OF i that] by (cases "give_spec (qs_space s)") simp
  show ?thesis using 1 2 3 4 5 by blast
qed

theorem queue_fifo_witness:
  "\<exists>(s :: queue_sys) xs. qs_sent s = [[1, 2]] \<and> queue_holds (qs_queue s) xs \<and> qs_sent s = qs_received s @ xs"
proof -
  let ?t = "TcbPool 2 0"
  let ?s1 = "(queue_fresh demo_queue)\<lparr>qs_space := (qs_space (queue_fresh demo_queue))\<lparr>sp_count := 1\<rparr>, qs_pc := (\<lambda>_. Elsewhere)(?t := HasSpace [1, 2])\<rparr>"
  have "queue_step ?t (queue_fresh demo_queue) ((queue_fresh demo_queue)\<lparr>qs_space := (qs_space (queue_fresh demo_queue))\<lparr>sp_count := 1\<rparr>,
      qs_pc := (qs_pc (queue_fresh demo_queue))(?t := HasSpace [1, 2])\<rparr>)"
    by (rule send_take [where may_wait = False]) (simp_all add: queue_fresh_def item_of_def demo_queue_def take_spec_def)
  then have r1: "queue_reach demo_queue ?s1" using queue_reach.step [OF fresh] by (simp add: queue_fresh_def)
  obtain b where b: "queue_put [1, 2] demo_queue = Some b" using ring.put_law [OF demo_queue_holds(1), of "[1, 2]"]
    by (auto simp: item_of_def queue_room_def demo_queue_def)
  let ?s2 = "?s1\<lparr>qs_queue := b, qs_pc := (qs_pc ?s1)(?t := HasPut), qs_sent := qs_sent ?s1 @ [[1, 2]]\<rparr>"
  have "queue_step ?t ?s1 ?s2" by (rule send_copy) (simp_all add: b queue_fresh_def)
  then have "queue_reach demo_queue ?s2" by (rule queue_reach.step [OF r1])
  from queue_fifo [OF demo_queue_holds(1) this] show ?thesis
    by - (rule exI [of _ ?s2], auto simp: queue_fresh_def)
qed

text \<open>Claim C11 (liveness). No task waits in vain: once no task is inside a section, a receiver waits only while the queue is
  empty and a sender only while it is full.\<close>

theorem queue_no_lost_wakeup:
  assumes "queue_holds q []" and "queue_reach q s" and "\<forall>t. \<not> has_token (qs_pc s t)"
  shows "\<exists>xs. queue_holds (qs_queue s) xs \<and> (awaits_data (qs_pc s t) \<longrightarrow> xs = []) \<and>
    (awaits_space (qs_pc s t) \<longrightarrow> length xs = unat (q_capacity q))"
proof -
  note D = queue_invD [OF queue_reach_inv [OF assms(2,1)]]
  have sub: "counts_item x \<Longrightarrow> has_token x" for x by (cases x) simp_all
  have z: "tally has_token (qs_pc s) = 0" "tally counts_item (qs_pc s) = 0"
    using assms(3) sub by (auto intro: tally_none)
  from D(10) obtain xs where xs: "queue_holds (qs_queue s) xs" "length xs = sp_count (qs_data s)"
    by (auto simp: ring.tracks_def z)
  have "sp_count (qs_data s) = 0" if "awaits_data (qs_pc s t)" using D(4) that by (auto simp: waiters_ok_def)
  moreover have "sp_count (qs_space s) = 0" if "awaits_space (qs_pc s t)" using D(3) that by (auto simp: waiters_ok_def)
  ultimately show ?thesis using xs D(9) z by (auto simp: queue_room_def)
qed

theorem queue_no_lost_wakeup_witness:
  "\<exists>(s :: queue_sys) xs. awaits_data (qs_pc s (TcbPool 2 0)) \<and> queue_holds (qs_queue s) xs \<and> xs = []"
proof -
  let ?t = "TcbPool 2 0" and ?f = "queue_fresh demo_queue"
  let ?s = "?f\<lparr>qs_data := (qs_data ?f)\<lparr>sp_waiters := [?t]\<rparr>, qs_pc := (qs_pc ?f)(?t := AwaitData [0, 0])\<rparr>"
  have "queue_step ?t ?f ?s"
    by (rule recv_wait [where may_wait = True]) (simp_all add: queue_fresh_def item_of_def demo_queue_def take_spec_def)
  then have r: "queue_reach demo_queue ?s" by (rule queue_reach.step [OF fresh])
  have "\<forall>t. \<not> has_token (qs_pc ?s t)" by (simp add: queue_fresh_def)
  from queue_no_lost_wakeup [OF demo_queue_holds(1) r this, of ?t] show ?thesis
    by - (rule exI [of _ ?s], auto simp: queue_fresh_def)
qed

text \<open>\<open>queue_init\<close> with a product that does not wrap gives an empty queue whose semaphores hold the tokens of the fresh
  system; a product that wraps gives a buffer that is too small.\<close>

lemma queue_init_fresh:
  assumes "unat capacity * unat item_size < 2 ^ 32" "capacity > 0" and r: "queue_init q capacity item_size s = (E_OK, s')"
  shows "queue_holds (queues s' q) []" "semaphores s' (SpaceAvailable q) = \<lparr>max_count = capacity, sem_count = capacity\<rparr>"
    "semaphores s' (DataAvailable q) = \<lparr>max_count = capacity, sem_count = 0\<rparr>"
proof -
  have "unat (capacity * item_size) = unat capacity * unat item_size" using assms(1) by (simp add: unat_word_ariths)
  moreover have "unat capacity > 0" using assms(2) by (simp add: word_less_nat_alt)
  ultimately show "queue_holds (queues s' q) []" "semaphores s' (SpaceAvailable q) = \<lparr>max_count = capacity, sem_count = capacity\<rparr>"
    "semaphores s' (DataAvailable q) = \<lparr>max_count = capacity, sem_count = 0\<rparr>"
    using r assms(1,2)
    by (auto simp: queue_init_def heap_malloc_def semaphore_init_def queue_holds_def queue_wf_def Let_def upd_queue_def upd_sem_def upd_list_def
        split: if_splits)
qed

end
