(* ===== verification/Software_Timer.thy ===== *)
theory Software_Timer
  imports Semaphore_Props
begin


text \<open>
  \<^verbatim>\<open>kernel/software_timer/software_timer.c\<close>. Timers are in one of two singly linked lists: the blocked list, sorted by
  \<open>expiry_tick\<close>, and the active list of expired timers. A loop that follows \<open>next\<close> pointers is a
  \<^theory_text>\<open>partial_function\<close>, so that a cyclic list is \<^const>\<open>None\<close>. The service task is split where it leaves its critical
  sections: \<open>service_pop\<close>, the callback (application code, a parameter), \<open>service_rearm\<close>.
\<close>

datatype timer_head = BlockedHead | ActiveHead

fun head_of :: "timer_head \<Rightarrow> kernel \<Rightarrow> tmptr option" where
  "head_of BlockedHead s = blocked_list_head s"
| "head_of ActiveHead s = active_list_head s"

fun set_head :: "timer_head \<Rightarrow> tmptr option \<Rightarrow> kernel \<Rightarrow> kernel" where
  "set_head BlockedHead v s = s\<lparr>blocked_list_head := v\<rparr>"
| "set_head ActiveHead v s = s\<lparr>active_list_head := v\<rparr>"

text \<open>\<open>while (iter != NULL && iter->next != timer)\<close>: the result is the final \<open>iter\<close>.\<close>

partial_function (option) unlink_walk :: "kernel \<Rightarrow> tmptr \<Rightarrow> tmptr option \<Rightarrow> tmptr option option" where
  "unlink_walk s timer iter =
     (case iter of
        None \<Rightarrow> Some None
      | Some i \<Rightarrow> if tm_next (timers s i) = Some timer then Some (Some i) else unlink_walk s timer (tm_next (timers s i)))"

definition software_timer_unlink :: "timer_head \<Rightarrow> tmptr \<Rightarrow> kernel \<Rightarrow> (bool \<times> kernel) option" where
  "software_timer_unlink h timer s =
     (if head_of h s = Some timer
      then Some (True, upd_timer timer (\<lambda>b. b\<lparr>tm_next := None\<rparr>) (set_head h (tm_next (timers s timer)) s))
      else
        case unlink_walk s timer (head_of h s) of
          None \<Rightarrow> None
        | Some None \<Rightarrow> Some (False, s)
        | Some (Some i) \<Rightarrow>
            Some (True, upd_timer timer (\<lambda>b. b\<lparr>tm_next := None\<rparr>)
                          (upd_timer i (\<lambda>b. b\<lparr>tm_next := tm_next (timers s timer)\<rparr>) s)))"

text \<open>\<open>while (iter->next != NULL && iter->next->expiry_tick <= software_timer->expiry_tick)\<close>.\<close>

partial_function (option) insert_walk :: "kernel \<Rightarrow> u64 \<Rightarrow> tmptr \<Rightarrow> tmptr option" where
  "insert_walk s e iter =
     (case tm_next (timers s iter) of
        None \<Rightarrow> Some iter
      | Some n \<Rightarrow> if expiry_tick (timers s n) \<le> e then insert_walk s e n else Some iter)"

definition software_timer_add_to_blocked_list :: "tmptr \<Rightarrow> kernel \<Rightarrow> kernel option" where
  "software_timer_add_to_blocked_list t s =
     (let s1 = upd_timer t (\<lambda>b. b\<lparr>list_id := TIMER_LIST_BLOCKED, tm_next := None\<rparr>) s;
          e = expiry_tick (timers s1 t)
      in case blocked_list_head s1 of
           None \<Rightarrow> Some ((upd_timer t (\<lambda>b. b\<lparr>tm_next := None\<rparr>) s1)\<lparr>blocked_list_head := Some t\<rparr>)
         | Some h \<Rightarrow>
             if e < expiry_tick (timers s1 h)
             then Some ((upd_timer t (\<lambda>b. b\<lparr>tm_next := Some h\<rparr>) s1)\<lparr>blocked_list_head := Some t\<rparr>)
             else do {
               i \<leftarrow> insert_walk s1 e h;
               let s2 = upd_timer t (\<lambda>b. b\<lparr>tm_next := tm_next (timers s1 i)\<rparr>) s1;
               Some (upd_timer i (\<lambda>b. b\<lparr>tm_next := Some t\<rparr>) s2)
             })"

definition software_timer_pop_to_active :: "tmptr \<Rightarrow> kernel \<Rightarrow> kernel option" where
  "software_timer_pop_to_active t s = do {
     (found, s1) \<leftarrow> software_timer_unlink BlockedHead t s;
     Some (if \<not> found then s1
           else
             let s2 = upd_timer t (\<lambda>b. b\<lparr>tm_next := active_list_head s1\<rparr>) s1
             in upd_timer t (\<lambda>b. b\<lparr>list_id := TIMER_LIST_ACTIVE\<rparr>) (s2\<lparr>active_list_head := Some t\<rparr>)) }"

definition service_pop :: "kernel \<Rightarrow> tmptr option \<times> kernel" where
  "service_pop s =
     (case active_list_head s of
        None \<Rightarrow> (None, s)
      | Some t \<Rightarrow>
          (Some t, upd_timer t (\<lambda>b. b\<lparr>tm_next := None, list_id := TIMER_LIST_NONE\<rparr>)
                     (s\<lparr>active_list_head := tm_next (timers s t)\<rparr>)))"

definition service_rearm :: "tmptr \<Rightarrow> kernel \<Rightarrow> kernel option" where
  "service_rearm t s =
     (if timer_mode (timers s t) = TIMER_MODE_PERIODIC
      then software_timer_add_to_blocked_list t (upd_timer t (\<lambda>b. b\<lparr>expiry_tick := expiry_tick b + period b\<rparr>) s)
      else Some s)"

text \<open>One round of the service task's loop, after \<open>semaphore_take\<close> has returned.\<close>

definition software_timer_service :: "(nat \<Rightarrow> tmptr \<Rightarrow> kernel \<Rightarrow> kernel option) \<Rightarrow> kernel \<Rightarrow> kernel option" where
  "software_timer_service callback s =
     (case service_pop s of
        (None, s1) \<Rightarrow> Some s1
      | (Some t, s1) \<Rightarrow> do {
          s2 \<leftarrow> (case tm_callback (timers s1 t) of None \<Rightarrow> Some s1 | Some f \<Rightarrow> callback f t s1);
          service_rearm t s2 })"

definition software_timer_init :: "kernel \<Rightarrow> StatusCode \<times> kernel" where
  "software_timer_init s =
     (E_OK, semaphore_init SoftwareTimerSem 0xFFFFFFFF 0 (s\<lparr>blocked_list_head := None, active_list_head := None\<rparr>))"

definition software_timer_start :: "u32 \<Rightarrow> u32 \<Rightarrow> core \<Rightarrow> kernel \<Rightarrow> StatusCode \<times> kernel" where
  "software_timer_start task_exit_trap software_timer_service_task c s =
     (case task_create task_exit_trap c software_timer_service_task 512 5 0 s of
        (ret, _, s1) \<Rightarrow> if ret \<noteq> E_OK then (ret, s1) else (E_OK, s1))"

definition software_timer_create ::
    "tmptr option \<Rightarrow> u64 \<Rightarrow> nat option \<Rightarrow> TimerMode \<Rightarrow> core \<Rightarrow> kernel \<Rightarrow> (StatusCode \<times> kernel) option" where
  "software_timer_create timer prd callback_function mode c s =
     (case timer of
        None \<Rightarrow> Some (E_INVALID_ARGS, s)
      | Some t \<Rightarrow>
          if prd = 0 then Some (E_INVALID_ARGS, s)
          else
            let s1 = upd_timer t (\<lambda>b. b\<lparr>period := prd, tm_callback := callback_function, timer_mode := mode,
                                      expiry_tick := 0, list_id := TIMER_LIST_NONE, tm_next := None\<rparr>) s
            in if scheduler_get_current_task c s1 \<noteq> None
               then do {
                 s2 \<leftarrow> software_timer_add_to_blocked_list t
                        (upd_timer t (\<lambda>b. b\<lparr>expiry_tick := scheduler_get_tick_count c s1 + prd\<rparr>) s1);
                 Some (E_OK, s2) }
               else Some (E_OK, s1))"

text \<open>Taking a timer out of the list its tag names, as \<open>stop\<close> and \<open>reset\<close> do.\<close>

definition unlink_by_id :: "tmptr \<Rightarrow> kernel \<Rightarrow> kernel option" where
  "unlink_by_id t s =
     (if list_id (timers s t) = TIMER_LIST_BLOCKED then map_option snd (software_timer_unlink BlockedHead t s)
      else if list_id (timers s t) = TIMER_LIST_ACTIVE then map_option snd (software_timer_unlink ActiveHead t s)
      else Some s)"

definition software_timer_stop :: "tmptr option \<Rightarrow> kernel \<Rightarrow> (StatusCode \<times> kernel) option" where
  "software_timer_stop timer s =
     (case timer of
        None \<Rightarrow> Some (E_INVALID_ARGS, s)
      | Some t \<Rightarrow> do {
          s1 \<leftarrow> unlink_by_id t s;
          Some (E_OK, upd_timer t (\<lambda>b. b\<lparr>list_id := TIMER_LIST_NONE\<rparr>) s1) })"

definition software_timer_reset :: "tmptr option \<Rightarrow> core \<Rightarrow> kernel \<Rightarrow> (StatusCode \<times> kernel) option" where
  "software_timer_reset timer c s =
     (case timer of
        None \<Rightarrow> Some (E_INVALID_ARGS, s)
      | Some t \<Rightarrow> do {
          s1 \<leftarrow> unlink_by_id t s;
          s2 \<leftarrow> software_timer_add_to_blocked_list t
                 (upd_timer t (\<lambda>b. b\<lparr>expiry_tick := scheduler_get_tick_count c s1 + period b\<rparr>) s1);
          Some (E_OK, s2) })"

partial_function (option) software_timer_tick :: "u64 \<Rightarrow> kernel \<Rightarrow> kernel option" where
  "software_timer_tick now_tick s =
     (case blocked_list_head s of
        None \<Rightarrow> Some s
      | Some t \<Rightarrow>
          if expiry_tick (timers s t) \<le> now_tick
          then Option.bind (software_timer_pop_to_active t s) (\<lambda>s1.
               Option.bind (semaphore_give SoftwareTimerSem s1) (\<lambda>r.
               software_timer_tick now_tick (snd r)))
          else Some s)"

subsection \<open>The lists\<close>

text \<open>\<open>seg m h xs k\<close>: from \<open>h\<close> the \<open>next\<close> pointers lead through \<open>xs\<close> to \<open>k\<close>.\<close>

fun seg :: "(tmptr \<Rightarrow> SoftwareTimer) \<Rightarrow> tmptr option \<Rightarrow> tmptr list \<Rightarrow> tmptr option \<Rightarrow> bool" where
  "seg m h [] k = (h = k)"
| "seg m h (x # xs) k = (h = Some x \<and> seg m (tm_next (m x)) xs k)"

text \<open>The blocked list is \<open>B\<close>, sorted by expiry; the active list is \<open>C\<close>; every timer's tag names the list it is in.\<close>

definition timers_ok :: "kernel \<Rightarrow> tmptr list \<Rightarrow> tmptr list \<Rightarrow> bool" where
  "timers_ok s B C \<longleftrightarrow> seg (timers s) (blocked_list_head s) B None \<and> seg (timers s) (active_list_head s) C None \<and>
     distinct (B @ C) \<and> sorted (map (\<lambda>x. expiry_tick (timers s x)) B) \<and>
     (\<forall>x. list_id (timers s x) =
        (if x \<in> set B then TIMER_LIST_BLOCKED else if x \<in> set C then TIMER_LIST_ACTIVE else TIMER_LIST_NONE))"

lemma seg_append: "seg m h (xs @ ys) k \<longleftrightarrow> (\<exists>p. seg m h xs p \<and> seg m p ys k)"
  by (induction xs arbitrary: h) auto

lemma seg_cong: "seg m h xs k \<Longrightarrow> (\<And>x. x \<in> set xs \<Longrightarrow> tm_next (m' x) = tm_next (m x)) \<Longrightarrow> seg m' h xs k"
  by (induction xs arbitrary: h) simp_all

lemma seg_hd: "seg m h xs k \<Longrightarrow> h = (case xs of [] \<Rightarrow> k | x # _ \<Rightarrow> Some x)"
  by (cases xs) auto

lemma unlink_walk_seg:
  "seg (timers s) h xs k \<Longrightarrow> Some t \<notin> Some ` set (tl xs) \<Longrightarrow> k = Some t \<Longrightarrow> xs \<noteq> [] \<Longrightarrow> unlink_walk s t h = Some (Some (last xs))"
proof (induction xs arbitrary: h)
  case (Cons x xs)
  then show ?case
    by (subst unlink_walk.simps) (cases xs; auto)
qed simp

lemma unlink_walk_none:
  "seg (timers s) h xs None \<Longrightarrow> t \<notin> set xs \<Longrightarrow> unlink_walk s t h = Some None"
proof (induction xs arbitrary: h)
  case Nil
  then show ?case by (subst unlink_walk.simps) simp
next
  case (Cons x xs)
  then show ?case by (subst unlink_walk.simps) (cases xs; auto)
qed

text \<open>An operation on the timers leaves the rest of the kernel alone.\<close>

definition only_timers :: "kernel \<Rightarrow> kernel \<Rightarrow> bool" where
  "only_timers s s' \<longleftrightarrow>
     list_at s' = list_at s \<and> items s' = items s \<and> tcb s' = tcb s \<and> p_task_control_block s' = p_task_control_block s \<and>
     tick_count s' = tick_count s \<and> clk_freq s' = clk_freq s \<and> hz s' = hz s \<and> cntp_cval s' = cntp_cval s \<and>
     stack_mem s' = stack_mem s \<and> heap_offset s' = heap_offset s \<and> task_counter s' = task_counter s \<and>
     mutexes s' = mutexes s \<and> semaphores s' = semaphores s \<and> queues s' = queues s \<and> console s' = console s"

lemma only_timers_simps [simp]:
  "only_timers s s" "only_timers s (upd_timer t f s') = only_timers s s'" "only_timers s (set_head h v s') = only_timers s s'"
  "only_timers s (s'\<lparr>blocked_list_head := b\<rparr>) = only_timers s s'" "only_timers s (s'\<lparr>active_list_head := c\<rparr>) = only_timers s s'"
  by (cases h; simp add: only_timers_def)+

lemma only_timers_trans: "only_timers a b \<Longrightarrow> only_timers b c \<Longrightarrow> only_timers a c"
  by (simp add: only_timers_def)

lemma sinv_only_timers: "sinv X s A \<Longrightarrow> only_timers s s' \<Longrightarrow> sinv X s' A"
  by (erule sinv_cong) (simp_all add: only_timers_def)

lemma head_simps [simp]:
  "head_of h (upd_timer t f s) = head_of h s" "head_of h (set_head h' v s) = (if h = h' then v else head_of h s)"
  "timers (set_head h v s) = timers s"
  by (cases h; cases h'; simp)+

text \<open>Unlinking a timer that is in the list.\<close>

lemma software_timer_unlink_seg:
  assumes sg: "seg (timers s) (head_of h s) (xs @ t # ys) None" and d: "distinct (xs @ t # ys)"
  obtains s' where "software_timer_unlink h t s = Some (True, s')" and "seg (timers s') (head_of h s') (xs @ ys) None"
    and "\<And>x. x \<notin> set xs \<Longrightarrow> tm_next (timers s' x) = (if x = t then None else tm_next (timers s x))"
    and "\<And>x. timers s' x = (timers s x)\<lparr>tm_next := tm_next (timers s' x)\<rparr>"
    and "\<And>h'. h' \<noteq> h \<Longrightarrow> head_of h' s' = head_of h' s" and "only_timers s s'"
proof (cases xs rule: rev_cases)
  case Nil
  let ?s = "upd_timer t (\<lambda>b. b\<lparr>tm_next := None\<rparr>) (set_head h (tm_next (timers s t)) s)"
  have "software_timer_unlink h t s = Some (True, ?s)" using sg Nil by (simp add: software_timer_unlink_def)
  moreover have "seg (timers ?s) (head_of h ?s) (xs @ ys) None"
    using sg Nil d by (auto intro: seg_cong)
  ultimately show ?thesis using Nil by (intro that [of ?s]) auto
next
  case (snoc zs z)
  from sg have z: "seg (timers s) (head_of h s) zs (Some z)" "tm_next (timers s z) = Some t" "seg (timers s) (tm_next (timers s t)) ys None"
    using snoc by (auto simp: seg_append)
  have hd: "head_of h s \<noteq> Some t" using z(1) d snoc by (cases zs) auto
  have "seg (timers s) (head_of h s) xs (Some t)" using z snoc by (auto simp: seg_append)
  then have w: "unlink_walk s t (head_of h s) = Some (Some z)"
    using unlink_walk_seg [of s "head_of h s" xs "Some t" t] d snoc by (cases zs) auto
  let ?s = "upd_timer t (\<lambda>b. b\<lparr>tm_next := None\<rparr>) (upd_timer z (\<lambda>b. b\<lparr>tm_next := tm_next (timers s t)\<rparr>) s)"
  have "software_timer_unlink h t s = Some (True, ?s)" using hd w by (simp add: software_timer_unlink_def)
  moreover have "seg (timers ?s) (head_of h ?s) (xs @ ys) None"
    using z d snoc by (auto simp: seg_append intro!: exI [of _ "Some z"] intro: seg_cong)
  ultimately show ?thesis using snoc d by (intro that [of ?s]) auto
qed


subsection \<open>Sorted insertion\<close>

definition timer_insert :: "(tmptr \<Rightarrow> u64) \<Rightarrow> tmptr \<Rightarrow> tmptr list \<Rightarrow> tmptr list" where
  "timer_insert f t B = takeWhile (\<lambda>x. f x \<le> f t) B @ t # dropWhile (\<lambda>x. f x \<le> f t) B"

lemma set_timer_insert [simp]: "set (timer_insert f t B) = insert t (set B)"
proof -
  have "set (takeWhile P B) \<union> set (dropWhile P B) = set B" for P
    by (metis set_append takeWhile_dropWhile_id)
  then show ?thesis by (auto simp: timer_insert_def)
qed

lemma sorted_timer_insert:
  assumes "sorted (map f B)" shows "sorted (map f (timer_insert f t B))"
proof -
  let ?P = "\<lambda>x. f x \<le> f t"
  let ?a = "takeWhile ?P B" and ?b = "dropWhile ?P B"
  have "sorted (map f ?a @ map f ?b)" using assms by (simp only: map_append [symmetric] takeWhile_dropWhile_id)
  then have B: "sorted (map f ?a)" "sorted (map f ?b)" "\<forall>x\<in>set ?a. \<forall>y\<in>set ?b. f x \<le> f y"
    unfolding sorted_append set_map ball_simps by blast+
  have lo: "\<forall>x\<in>set ?a. f x \<le> f t" by (blast dest: set_takeWhileD)
  have hi: "\<forall>x\<in>set ?b. f t \<le> f x"
  proof (cases ?b)
    case (Cons y ys)
    then have "f t \<le> f y" using hd_dropWhile [of ?P B] by (simp add: not_le less_imp_le)
    with B(2) Cons show ?thesis by auto
  next
    case Nil
    show ?thesis unfolding Nil by simp
  qed
  have "sorted (map f (a @ t # b))" if "sorted (map f a)" "sorted (map f b)" "\<forall>x\<in>set a. f x \<le> f t" "\<forall>x\<in>set b. f t \<le> f x" for a b
    using that by (fastforce simp: sorted_append)
  from this [OF B(1,2) lo hi] show ?thesis by (simp only: timer_insert_def)
qed

lemma insert_walk_seg:
  assumes "seg (timers s) (Some h) (h # us @ vs) None" "\<forall>u\<in>set us. expiry_tick (timers s u) \<le> e"
    "vs = [] \<or> \<not> expiry_tick (timers s (hd vs)) \<le> e"
  shows "insert_walk s e h = Some (last (h # us))"
  using assms
proof (induction us arbitrary: h)
  case Nil
  then show ?case by (subst insert_walk.simps) (cases vs; auto)
next
  case (Cons u us)
  then have n: "tm_next (timers s h) = Some u" by simp
  have "insert_walk s e u = Some (last (u # us))" using Cons by (intro Cons.IH) auto
  then show ?case using n Cons.prems(2) by (subst insert_walk.simps) simp
qed

lemma add_to_blocked_list_seg:
  assumes sg: "seg (timers s) (blocked_list_head s) B None" and d: "distinct B" "t \<notin> set B"
  obtains s' where "software_timer_add_to_blocked_list t s = Some s'"
    and "seg (timers s') (blocked_list_head s') (timer_insert (\<lambda>x. expiry_tick (timers s x)) t B) None"
    and "\<And>x. x \<notin> insert t (set B) \<Longrightarrow> timers s' x = timers s x"
    and "\<And>x. timers s' x = (timers s x)\<lparr>tm_next := tm_next (timers s' x), list_id := if x = t then TIMER_LIST_BLOCKED else list_id (timers s x)\<rparr>"
    and "active_list_head s' = active_list_head s" and "only_timers s s'"
proof -
  let ?f = "\<lambda>x. expiry_tick (timers s x)" and ?s1 = "upd_timer t (\<lambda>b. b\<lparr>list_id := TIMER_LIST_BLOCKED, tm_next := None\<rparr>) s"
  have sg1: "seg (timers ?s1) (blocked_list_head ?s1) B None" using sg d(2) by (auto intro: seg_cong)
  show ?thesis
  proof (cases B)
    case Nil
    let ?s = "(upd_timer t (\<lambda>b. b\<lparr>tm_next := None\<rparr>) ?s1)\<lparr>blocked_list_head := Some t\<rparr>"
    have "software_timer_add_to_blocked_list t s = Some ?s"
      using sg Nil by (simp add: software_timer_add_to_blocked_list_def)
    then show ?thesis by (rule that) (auto simp: timer_insert_def Nil)
  next
    case (Cons h hs)
    then have h: "blocked_list_head s = Some h" "h \<noteq> t" using sg d by auto
    show ?thesis
    proof (cases "?f t < ?f h")
      case True
      let ?s = "(upd_timer t (\<lambda>b. b\<lparr>tm_next := Some h\<rparr>) ?s1)\<lparr>blocked_list_head := Some t\<rparr>"
      have "software_timer_add_to_blocked_list t s = Some ?s"
        using h True by (simp add: software_timer_add_to_blocked_list_def)
      moreover have "timer_insert ?f t B = t # B" using True Cons by (simp add: timer_insert_def not_le [symmetric])
      ultimately show ?thesis using sg d h by (intro that [of ?s]) (auto intro: seg_cong)
    next
      case False
      define us vs where uv: "us = takeWhile (\<lambda>x. ?f x \<le> ?f t) hs" "vs = dropWhile (\<lambda>x. ?f x \<le> ?f t) hs"
      define i where "i = last (h # us)"
      have B: "B = h # us @ vs" by (simp add: uv Cons)
      have ti: "timer_insert ?f t B = h # us @ t # vs" using False by (simp add: timer_insert_def Cons uv not_less)
      have tn: "t \<notin> set us" "t \<notin> set vs" using d(2) B by auto
      have "insert_walk ?s1 (?f t) h = Some i" unfolding i_def
      proof (rule insert_walk_seg)
        show "seg (timers ?s1) (Some h) (h # us @ vs) None" using sg1 h B by simp
        show "\<forall>u\<in>set us. expiry_tick (timers ?s1 u) \<le> ?f t" using set_takeWhileD [of _ "\<lambda>x. ?f x \<le> ?f t" hs] by (auto simp: uv)
        show "vs = [] \<or> \<not> expiry_tick (timers ?s1 (hd vs)) \<le> ?f t"
        proof (cases vs)
          case (Cons v ws)
          then have "\<not> ?f v \<le> ?f t" using hd_dropWhile [of "\<lambda>x. ?f x \<le> ?f t" hs] by (simp add: uv)
          then show ?thesis using Cons tn by simp
        qed simp
      qed
      let ?s2 = "upd_timer t (\<lambda>b. b\<lparr>tm_next := tm_next (timers ?s1 i)\<rparr>) ?s1"
      let ?s = "upd_timer i (\<lambda>b. b\<lparr>tm_next := Some t\<rparr>) ?s2"
      have add: "software_timer_add_to_blocked_list t s = Some ?s"
        using h False \<open>insert_walk ?s1 (?f t) h = Some i\<close> by (simp add: software_timer_add_to_blocked_list_def Let_def)
      obtain ws where ws: "h # us = ws @ [i]" unfolding i_def by (metis append_butlast_last_id list.distinct(1))
      have iB: "i \<in> set B" "i \<noteq> t" using ws B d(2) by (metis in_set_conv_decomp append_Cons append_assoc append_Nil Un_iff set_append list.set_intros(1))+
      have "seg (timers s) (Some h) (ws @ i # vs) None" using sg h B ws by (metis append.assoc append_Cons append_Nil)
      then have w: "seg (timers s) (Some h) ws (Some i)" "seg (timers s) (tm_next (timers s i)) vs None" by (auto simp: seg_append)
      have dw: "distinct (ws @ i # vs)" "t \<notin> set ws" using d B ws by (metis append.assoc append_Cons append_Nil Un_iff set_append)+
      have "seg (timers ?s) (Some h) (ws @ i # t # vs) None"
        using w dw tn iB(2) by (auto simp: seg_append intro!: exI [of _ "Some i"] intro: seg_cong)
      then have "seg (timers ?s) (blocked_list_head ?s) (timer_insert ?f t B) None"
        using ti ws h by (metis append.assoc append_Cons append_Nil frame_upd_timer(15))
      then show ?thesis using add iB d by (intro that [of ?s]) auto
    qed
  qed
qed


subsection \<open>The invariant across operations\<close>

text \<open>A timer \<open>t\<close> that is in neither list, whatever its tag says.\<close>

definition timers_but :: "tmptr \<Rightarrow> kernel \<Rightarrow> tmptr list \<Rightarrow> tmptr list \<Rightarrow> bool" where
  "timers_but t s B C \<longleftrightarrow> t \<notin> set B \<and> t \<notin> set C \<and>
     timers_ok (upd_timer t (\<lambda>b. b\<lparr>list_id := TIMER_LIST_NONE\<rparr>) s) B C"

lemma timers_okD:
  assumes "timers_ok s B C"
  shows "seg (timers s) (blocked_list_head s) B None" "seg (timers s) (active_list_head s) C None" "distinct (B @ C)"
    "sorted (map (\<lambda>x. expiry_tick (timers s x)) B)"
    "list_id (timers s x) = (if x \<in> set B then TIMER_LIST_BLOCKED else if x \<in> set C then TIMER_LIST_ACTIVE else TIMER_LIST_NONE)"
  using assms by (simp_all add: timers_ok_def)

lemma sorted_map_cong: "sorted (map f xs) \<Longrightarrow> (\<And>x. x \<in> set xs \<Longrightarrow> g x = f x) \<Longrightarrow> sorted (map g xs)"
  by (metis map_cong)

lemma timers_butD:
  assumes "timers_but t s B C"
  shows "t \<notin> set B" "t \<notin> set C" "seg (timers s) (blocked_list_head s) B None" "seg (timers s) (active_list_head s) C None" "distinct (B @ C)"
    "sorted (map (\<lambda>x. expiry_tick (timers s x)) B)"
    "x \<noteq> t \<Longrightarrow> list_id (timers s x) = (if x \<in> set B then TIMER_LIST_BLOCKED else if x \<in> set C then TIMER_LIST_ACTIVE else TIMER_LIST_NONE)"
proof -
  let ?s = "upd_timer t (\<lambda>b. b\<lparr>list_id := TIMER_LIST_NONE\<rparr>) s"
  note A = assms [unfolded timers_but_def]
  note D = timers_okD [of ?s B C]
  show t: "t \<notin> set B" "t \<notin> set C" using A by simp_all
  show "seg (timers s) (blocked_list_head s) B None" by (rule seg_cong [of "timers ?s"]) (use A D(1) in auto)
  show "seg (timers s) (active_list_head s) C None" by (rule seg_cong [of "timers ?s"]) (use A D(2) in auto)
  show "distinct (B @ C)" using A D(3) by simp
  show "sorted (map (\<lambda>x. expiry_tick (timers s x)) B)" by (rule sorted_map_cong [OF D(4)]) (use A in auto)
  show "x \<noteq> t \<Longrightarrow> list_id (timers s x) = (if x \<in> set B then TIMER_LIST_BLOCKED else if x \<in> set C then TIMER_LIST_ACTIVE else TIMER_LIST_NONE)"
    using A D(5) [of x] by simp
qed

lemma timers_butI:
  assumes "t \<notin> set B" "t \<notin> set C" "seg (timers s) (blocked_list_head s) B None" "seg (timers s) (active_list_head s) C None" "distinct (B @ C)"
    "sorted (map (\<lambda>x. expiry_tick (timers s x)) B)"
    "\<And>x. x \<noteq> t \<Longrightarrow> list_id (timers s x) = (if x \<in> set B then TIMER_LIST_BLOCKED else if x \<in> set C then TIMER_LIST_ACTIVE else TIMER_LIST_NONE)"
  shows "timers_but t s B C"
  unfolding timers_but_def timers_ok_def
  using assms by (auto intro: seg_cong sorted_map_cong)

text \<open>A change of the absent timer itself, and putting it back as stopped.\<close>

lemma timers_but_upd:
  assumes "timers_but t s B C" shows "timers_but t (upd_timer t f s) B C"
proof -
  note D = timers_butD [OF assms]
  show ?thesis by (rule timers_butI) (use D in \<open>auto intro: seg_cong sorted_map_cong\<close>)
qed

lemma timers_but_stop: "timers_but t s B C \<Longrightarrow> timers_ok (upd_timer t (\<lambda>b. b\<lparr>list_id := TIMER_LIST_NONE\<rparr>) s) B C"
  by (simp add: timers_but_def)

lemma timers_ok_but:
  "timers_ok s B C \<Longrightarrow> t \<notin> set B \<Longrightarrow> t \<notin> set C \<Longrightarrow> timers_but t s B C"
  by (rule timers_butI) (simp_all add: timers_ok_def)

lemma add_to_blocked_list_ok:
  assumes b: "timers_but t s B C"
  obtains s' where "software_timer_add_to_blocked_list t s = Some s'"
    and "timers_ok s' (timer_insert (\<lambda>x. expiry_tick (timers s x)) t B) C"
    and "\<And>x. timers s' x = (timers s x)\<lparr>tm_next := tm_next (timers s' x), list_id := if x = t then TIMER_LIST_BLOCKED else list_id (timers s x)\<rparr>"
    and "only_timers s s'"
proof -
  note D = timers_butD [OF b]
  let ?f = "\<lambda>x. expiry_tick (timers s x)"
  have dB: "distinct B" using D(5) by simp
  obtain s' where s': "software_timer_add_to_blocked_list t s = Some s'"
    "seg (timers s') (blocked_list_head s') (timer_insert ?f t B) None"
    "\<And>x. x \<notin> insert t (set B) \<Longrightarrow> timers s' x = timers s x"
    "\<And>x. timers s' x = (timers s x)\<lparr>tm_next := tm_next (timers s' x), list_id := if x = t then TIMER_LIST_BLOCKED else list_id (timers s x)\<rparr>"
    "active_list_head s' = active_list_head s" "only_timers s s'"
    by (rule add_to_blocked_list_seg [OF D(3) dB D(1)]) (rule that)
  have e: "expiry_tick (timers s' x) = ?f x" for x by (subst s'(4)) simp
  have dis: "distinct (timer_insert ?f t B)"
  proof -
    have "distinct (takeWhile P B @ dropWhile P B)" for P using dB by simp
    then show ?thesis using D(1) set_takeWhileD [of t _ B] set_dropWhileD [of t _ B]
      unfolding timer_insert_def distinct_append by auto
  qed
  have "timers_ok s' (timer_insert ?f t B) C"
    unfolding timers_ok_def
  proof (intro conjI allI)
    show "seg (timers s') (active_list_head s') C None"
      unfolding s'(5)
    proof (rule seg_cong [OF D(4)])
      fix x assume "x \<in> set C"
      then have "x \<notin> insert t (set B)" using D(2,5) by auto
      from s'(3) [OF this] show "tm_next (timers s' x) = tm_next (timers s x)" by simp
    qed
    show "distinct (timer_insert ?f t B @ C)" using dis D(2,5) by auto
    show "sorted (map (\<lambda>x. expiry_tick (timers s' x)) (timer_insert ?f t B))"
      unfolding e by (rule sorted_timer_insert [OF D(6)])
    show "list_id (timers s' x) = (if x \<in> set (timer_insert ?f t B) then TIMER_LIST_BLOCKED
        else if x \<in> set C then TIMER_LIST_ACTIVE else TIMER_LIST_NONE)" for x
      by (subst s'(4)) (use D(7) [of x] in auto)
  qed (rule s'(2))
  then show ?thesis using s' that by blast
qed

lemma unlink_by_id_ok:
  assumes ok: "timers_ok s B C"
  obtains s' where "unlink_by_id t s = Some s'" and "timers_but t s' (remove1 t B) (remove1 t C)"
    and "\<And>x. timers s' x = (timers s x)\<lparr>tm_next := tm_next (timers s' x)\<rparr>" and "only_timers s s'"
proof -
  note D = timers_okD [OF ok]
  consider "t \<in> set B" | "t \<in> set C" "t \<notin> set B" | "t \<notin> set B" "t \<notin> set C" by blast
  then show ?thesis
  proof cases
    case 1
    then obtain xs ys where B: "B = xs @ t # ys" by (auto simp: in_set_conv_decomp)
    have sg: "seg (timers s) (head_of BlockedHead s) (xs @ t # ys) None" and dd: "distinct (xs @ t # ys)" using D(1,3) B by auto
    obtain s' where s': "software_timer_unlink BlockedHead t s = Some (True, s')" "seg (timers s') (head_of BlockedHead s') (xs @ ys) None"
      "\<And>x. x \<notin> set xs \<Longrightarrow> tm_next (timers s' x) = (if x = t then None else tm_next (timers s x))"
      "\<And>x. timers s' x = (timers s x)\<lparr>tm_next := tm_next (timers s' x)\<rparr>"
      "\<And>h'. h' \<noteq> BlockedHead \<Longrightarrow> head_of h' s' = head_of h' s" "only_timers s s'"
      by (rule software_timer_unlink_seg [OF sg dd]) (rule that)
    have e: "expiry_tick (timers s' x) = expiry_tick (timers s x)" "list_id (timers s' x) = list_id (timers s x)" for x
      by (subst s'(4), simp)+
    have r: "remove1 t B = xs @ ys" "remove1 t C = C" using B D(3) by (auto simp: remove1_append remove1_idem)
    have "active_list_head s' = active_list_head s" using s'(5) [of ActiveHead] by simp
    moreover have "seg (timers s') (active_list_head s) C None"
    proof (rule seg_cong [OF D(2)])
      fix x assume "x \<in> set C"
      then have "x \<notin> set xs \<and> x \<noteq> t" using D(3) B by auto
      then show "tm_next (timers s' x) = tm_next (timers s x)" by (simp add: s'(3))
    qed
    ultimately have "timers_but t s' (xs @ ys) C"
      by (intro timers_butI) (use s'(2) D(3-5) B in \<open>auto simp: e sorted_append\<close>)
    then show ?thesis using s' D(5) [of t] 1 by (intro that [of s']) (simp_all add: unlink_by_id_def r)
  next
    case 2
    then obtain xs ys where C: "C = xs @ t # ys" by (auto simp: in_set_conv_decomp)
    have sg: "seg (timers s) (head_of ActiveHead s) (xs @ t # ys) None" and dd: "distinct (xs @ t # ys)" using D(2,3) C by auto
    obtain s' where s': "software_timer_unlink ActiveHead t s = Some (True, s')" "seg (timers s') (head_of ActiveHead s') (xs @ ys) None"
      "\<And>x. x \<notin> set xs \<Longrightarrow> tm_next (timers s' x) = (if x = t then None else tm_next (timers s x))"
      "\<And>x. timers s' x = (timers s x)\<lparr>tm_next := tm_next (timers s' x)\<rparr>"
      "\<And>h'. h' \<noteq> ActiveHead \<Longrightarrow> head_of h' s' = head_of h' s" "only_timers s s'"
      by (rule software_timer_unlink_seg [OF sg dd]) (rule that)
    have e: "expiry_tick (timers s' x) = expiry_tick (timers s x)" "list_id (timers s' x) = list_id (timers s x)" for x
      by (subst s'(4), simp)+
    have r: "remove1 t C = xs @ ys" "remove1 t B = B" using C D(3) 2 by (auto simp: remove1_append remove1_idem)
    have "blocked_list_head s' = blocked_list_head s" using s'(5) [of BlockedHead] by simp
    moreover have "seg (timers s') (blocked_list_head s) B None"
    proof (rule seg_cong [OF D(1)])
      fix x assume "x \<in> set B"
      then have "x \<notin> set xs \<and> x \<noteq> t" using D(3) C by auto
      then show "tm_next (timers s' x) = tm_next (timers s x)" by (simp add: s'(3))
    qed
    ultimately have "timers_but t s' B (xs @ ys)"
      by (intro timers_butI) (use s'(2) D(3-5) C 2 in \<open>auto simp: e\<close>)
    then show ?thesis using s' D(5) [of t] 2 by (intro that [of s']) (simp_all add: unlink_by_id_def r)
  next
    case 3
    then show ?thesis using D(5) [of t] timers_ok_but [OF ok 3]
      by (intro that [of s]) (simp_all add: unlink_by_id_def remove1_idem)
  qed
qed

lemma pop_to_active_ok:
  assumes ok: "timers_ok s (t # B) C"
  obtains s' where "software_timer_pop_to_active t s = Some s'" and "timers_ok s' B (t # C)"
    and "\<And>x. expiry_tick (timers s' x) = expiry_tick (timers s x)" and "only_timers s s'"
proof -
  note D = timers_okD [OF ok]
  let ?s1 = "upd_timer t (\<lambda>b. b\<lparr>tm_next := None\<rparr>) (s\<lparr>blocked_list_head := tm_next (timers s t)\<rparr>)"
  let ?s = "upd_timer t (\<lambda>b. b\<lparr>list_id := TIMER_LIST_ACTIVE\<rparr>)
    ((upd_timer t (\<lambda>b. b\<lparr>tm_next := active_list_head ?s1\<rparr>) ?s1)\<lparr>active_list_head := Some t\<rparr>)"
  have "software_timer_pop_to_active t s = Some ?s"
    using D(1) by (simp add: software_timer_pop_to_active_def software_timer_unlink_def)
  moreover have "timers_ok ?s B (t # C)"
    unfolding timers_ok_def using D by (auto intro: seg_cong sorted_map_cong)
  ultimately show ?thesis by (intro that [of ?s]) simp_all
qed


subsection \<open>The tick\<close>

definition timer_state :: "kernel \<Rightarrow> (tmptr \<Rightarrow> SoftwareTimer) \<times> tmptr option \<times> tmptr option" where
  "timer_state s = (timers s, blocked_list_head s, active_list_head s)"

lemma timer_state_frame [simp]:
  "timer_state (upd_item x f s) = timer_state s" "timer_state (upd_list L g s) = timer_state s"
  "timer_state (upd_tcb t h s) = timer_state s" "timer_state (upd_sem m k s) = timer_state s"
  "timer_state (detach L x s) = timer_state s" "timer_state (stitch L x s) = timer_state s"
  by (simp_all add: timer_state_def)

lemma timer_state_sched [simp]:
  "timer_state (snd (scheduler_remove_from_blocked_list p s)) = timer_state s"
  "timer_state (snd (scheduler_add_to_ready_list p s)) = timer_state s"
  by (auto simp: scheduler_remove_from_blocked_list_def scheduler_add_to_ready_list_def Let_def split: option.splits)

lemma semaphore_give_timers:
  assumes "semaphore_give m s = Some (r, s')"
  shows "timers s' = timers s \<and> blocked_list_head s' = blocked_list_head s \<and> active_list_head s' = active_list_head s"
proof -
  have "timer_state s' = timer_state s"
    using assms by (auto simp: semaphore_give_def Let_def bind_Some_iff split: if_splits option.splits)
  then show ?thesis by (simp add: timer_state_def)
qed

lemma timers_ok_cong:
  "timers_ok s B C \<Longrightarrow> timers s' = timers s \<Longrightarrow> blocked_list_head s' = blocked_list_head s \<Longrightarrow>
     active_list_head s' = active_list_head s \<Longrightarrow> timers_ok s' B C"
  by (simp add: timers_ok_def)

definition post_give :: "sem_spec \<Rightarrow> sem_spec" where
  "post_give a = snd (snd (give_spec a))"

lemma sem_abs_cong: "semaphores s' = semaphores s \<Longrightarrow> sem_abs s' A m = sem_abs s A m"
  by (simp add: sem_abs_def)

definition expired_by :: "u64 \<Rightarrow> kernel \<Rightarrow> tmptr \<Rightarrow> bool" where
  "expired_by now s t \<longleftrightarrow> expiry_tick (timers s t) \<le> now"

lemma software_timer_tick_ok:
  "timers_ok s B C \<Longrightarrow> sinv {} s A \<Longrightarrow>
   \<exists>s' A'. software_timer_tick now s = Some s' \<and> sinv {} s' A' \<and>
     timers_ok s' (filter (\<lambda>t. \<not> expired_by now s t) B) (rev (filter (expired_by now s) B) @ C) \<and>
     sem_abs s' A' SoftwareTimerSem = (post_give ^^ length (filter (expired_by now s) B)) (sem_abs s A SoftwareTimerSem)"
proof (induction B arbitrary: s A C)
  case Nil
  then have "software_timer_tick now s = Some s" by (subst software_timer_tick.simps) (simp add: timers_ok_def)
  with Nil show ?case by auto
next
  case (Cons t B)
  note D = timers_okD [OF Cons.prems(1)]
  have hd: "blocked_list_head s = Some t" using D(1) by simp
  show ?case
  proof (cases "expired_by now s t")
    case False
    then have "software_timer_tick now s = Some s" using hd by (subst software_timer_tick.simps) (simp add: expired_by_def)
    moreover have "\<not> expired_by now s u" if "u \<in> set B" for u
      using D(4) that False by (auto simp: expired_by_def)
    then have "filter (expired_by now s) (t # B) = []" "filter (\<lambda>t. \<not> expired_by now s t) (t # B) = t # B"
      using False by (auto simp: filter_empty_conv)
    ultimately show ?thesis using Cons.prems by auto
  next
    case True
    obtain s1 where s1: "software_timer_pop_to_active t s = Some s1" "timers_ok s1 B (t # C)"
      "\<And>x. expiry_tick (timers s1 x) = expiry_tick (timers s x)" "only_timers s s1"
      by (rule pop_to_active_ok [OF Cons.prems(1)]) (rule that)
    have i1: "sinv {} s1 A" by (rule sinv_only_timers [OF Cons.prems(2) s1(4)])
    have a1: "sem_abs s1 A SoftwareTimerSem = sem_abs s A SoftwareTimerSem" using s1(4) by (intro sem_abs_cong) (simp add: only_timers_def)
    from semaphore_give_abs [OF i1, of SoftwareTimerSem] obtain r s2 A2 where
      s2: "semaphore_give SoftwareTimerSem s1 = Some (r, s2)" "sinv {} s2 A2"
        "sem_abs s2 A2 SoftwareTimerSem = post_give (sem_abs s A SoftwareTimerSem)"
      by (cases "give_spec (sem_abs s A SoftwareTimerSem)") (auto simp: post_give_def a1 Let_def)
    note F = semaphore_give_timers [OF s2(1)]
    have ok2: "timers_ok s2 B (t # C)" by (rule timers_ok_cong [OF s1(2)]) (use F in simp_all)
    have e: "expired_by now s2 = expired_by now s" using F s1(3) by (simp add: expired_by_def fun_eq_iff)
    have step: "software_timer_tick now s = software_timer_tick now s2"
      using hd True s1(1) s2(1) by (subst software_timer_tick.simps) (simp add: expired_by_def)
    show ?thesis
      using Cons.IH [OF ok2 s2(2)] True s2(3) by (auto simp: e step funpow_swap1)
  qed
qed

text \<open>Claim C12 (functional). \<open>software_timer_tick\<close> returns, moves exactly the timers whose expiry tick has come from the sorted
  blocked list to the active list, leaves the others in order, and gives the service task's semaphore once per moved timer;
  every timer's tag then names its list, and the scheduler invariant holds.\<close>

theorem timer_tick_expires:
  assumes "timers_ok s B C" and "sinv {} s A"
  shows "\<exists>s' A'. software_timer_tick now s = Some s' \<and> sinv {} s' A' \<and>
    timers_ok s' (filter (\<lambda>t. \<not> expiry_tick (timers s t) \<le> now) B) (rev (filter (\<lambda>t. expiry_tick (timers s t) \<le> now) B) @ C) \<and>
    sem_abs s' A' SoftwareTimerSem =
      (post_give ^^ length (filter (\<lambda>t. expiry_tick (timers s t) \<le> now) B)) (sem_abs s A SoftwareTimerSem)"
  using software_timer_tick_ok [OF assms, of now] unfolding expired_by_def by blast

subsection \<open>Stopping and restarting\<close>

text \<open>\<open>software_timer_stop\<close> takes a timer out of whichever list it is in, and
  \<open>software_timer_reset\<close> re-arms it at its period from now, in its place in the sorted blocked list; both return
  \<open>E_OK\<close> and disturb no other timer.\<close>

theorem timer_stop_reset:
  assumes "timers_ok s B C"
  shows "(\<exists>s'. software_timer_stop (Some t) s = Some (E_OK, s') \<and> timers_ok s' (remove1 t B) (remove1 t C) \<and> only_timers s s') \<and>
    (\<exists>s'. software_timer_reset (Some t) c s = Some (E_OK, s') \<and> only_timers s s' \<and>
       expiry_tick (timers s' t) = tick_count s c + period (timers s t) \<and>
       timers_ok s' (timer_insert (\<lambda>x. if x = t then tick_count s c + period (timers s t) else expiry_tick (timers s x)) t (remove1 t B)) (remove1 t C))"
proof -
  obtain s1 where s1: "unlink_by_id t s = Some s1" "timers_but t s1 (remove1 t B) (remove1 t C)"
    "\<And>x. timers s1 x = (timers s x)\<lparr>tm_next := tm_next (timers s1 x)\<rparr>" "only_timers s s1"
    by (rule unlink_by_id_ok [OF assms, of t]) (rule that)
  have e: "expiry_tick (timers s1 x) = expiry_tick (timers s x)" "period (timers s1 x) = period (timers s x)" for x
    by (subst s1(3), simp)+
  have k: "tick_count s1 = tick_count s" using s1(4) by (simp add: only_timers_def)
  let ?s2 = "upd_timer t (\<lambda>b. b\<lparr>expiry_tick := scheduler_get_tick_count c s1 + period b\<rparr>) s1"
  have f: "(\<lambda>x. expiry_tick (timers ?s2 x)) =
      (\<lambda>x. if x = t then tick_count s c + period (timers s t) else expiry_tick (timers s x))"
    by (simp add: fun_eq_iff e k scheduler_get_tick_count_def)
  obtain s3 where s3: "software_timer_add_to_blocked_list t ?s2 = Some s3"
    "timers_ok s3 (timer_insert (\<lambda>x. expiry_tick (timers ?s2 x)) t (remove1 t B)) (remove1 t C)"
    "\<And>x. timers s3 x = (timers ?s2 x)\<lparr>tm_next := tm_next (timers s3 x), list_id := if x = t then TIMER_LIST_BLOCKED else list_id (timers ?s2 x)\<rparr>"
    "only_timers ?s2 s3"
    by (rule add_to_blocked_list_ok [OF timers_but_upd [OF s1(2)]]) (rule that)
  have "expiry_tick (timers s3 t) = tick_count s c + period (timers s t)"
    by (subst s3(3)) (simp add: e k scheduler_get_tick_count_def)
  moreover have "only_timers s s3" by (rule only_timers_trans [OF s1(4)]) (use s3(4) in \<open>simp add: only_timers_def\<close>)
  moreover have "software_timer_reset (Some t) c s = Some (E_OK, s3)"
    by (simp add: software_timer_reset_def s1(1) s3(1))
  moreover have "software_timer_stop (Some t) s = Some (E_OK, upd_timer t (\<lambda>b. b\<lparr>list_id := TIMER_LIST_NONE\<rparr>) s1)"
    by (simp add: software_timer_stop_def s1(1))
  ultimately show ?thesis
    using timers_but_stop [OF s1(2)] s1(4) s3(2) [unfolded f] by auto
qed

subsection \<open>The service task\<close>

lemma service_pop_ok:
  assumes "timers_ok s B (t # C)"
  obtains s' where "service_pop s = (Some t, s')" and "timers_ok s' B C" and "t \<notin> set B" and "t \<notin> set C"
    and "\<And>x. expiry_tick (timers s' x) = expiry_tick (timers s x) \<and> period (timers s' x) = period (timers s x) \<and>
      timer_mode (timers s' x) = timer_mode (timers s x) \<and> tm_callback (timers s' x) = tm_callback (timers s x)"
proof -
  note D = timers_okD [OF assms]
  let ?s = "upd_timer t (\<lambda>b. b\<lparr>tm_next := None, list_id := TIMER_LIST_NONE\<rparr>) (s\<lparr>active_list_head := tm_next (timers s t)\<rparr>)"
  have "service_pop s = (Some t, ?s)" using D(2) by (simp add: service_pop_def)
  moreover have "timers_ok ?s B C" unfolding timers_ok_def using D by (auto intro: seg_cong sorted_map_cong)
  ultimately show ?thesis using D(3) by (intro that [of ?s]) auto
qed

text \<open>What a callback must leave alone for its own timer to be re-armed: \<open>u\<close> is in no list and keeps its expiry, period and mode. Other timers it may
  start, stop or reset; \<open>B\<close> and \<open>C\<close> are the lists it leaves.\<close>

definition leaves_alone :: "tmptr \<Rightarrow> tmptr list \<Rightarrow> tmptr list \<Rightarrow> kernel \<Rightarrow> kernel \<Rightarrow> bool" where
  "leaves_alone t B C s s' \<longleftrightarrow> timers_ok s' B C \<and> t \<notin> set B \<and> t \<notin> set C \<and> expiry_tick (timers s' t) = expiry_tick (timers s t) \<and>
     period (timers s' t) = period (timers s t) \<and> timer_mode (timers s' t) = timer_mode (timers s t)"

text \<open>Claim C13 (functional). One round of the service task takes the first active timer \<open>t\<close>, runs its callback if it has one, and re-arms \<open>t\<close> if it
  is periodic: its next expiry is exactly one period after the expiry that fired, however late the service task ran, and it is back in its
  place in the sorted blocked list. A one-shot timer is then in no list. This holds for every callback that leaves \<open>t\<close> itself alone and the two lists
  well formed; other timers it may start, stop or reset.\<close>

theorem timer_service_drift_free:
  assumes "timers_ok s B (t # C)"
    and "case tm_callback (timers s t) of None \<Rightarrow> B' = B \<and> C' = C
      | Some f \<Rightarrow> \<exists>s2. callback f t (snd (service_pop s)) = Some s2 \<and> leaves_alone t B' C' s s2"
  shows "\<exists>s'. software_timer_service callback s = Some s' \<and>
    (if timer_mode (timers s t) = TIMER_MODE_PERIODIC
     then expiry_tick (timers s' t) = expiry_tick (timers s t) + period (timers s t) \<and>
       timers_ok s' (timer_insert (\<lambda>x. expiry_tick (timers s' x)) t B') C'
     else timers_ok s' B' C')"
proof -
  obtain s1 where s1: "service_pop s = (Some t, s1)" "timers_ok s1 B C" "t \<notin> set B" "t \<notin> set C"
    "\<And>x. expiry_tick (timers s1 x) = expiry_tick (timers s x) \<and> period (timers s1 x) = period (timers s x) \<and>
      timer_mode (timers s1 x) = timer_mode (timers s x) \<and> tm_callback (timers s1 x) = tm_callback (timers s x)"
    by (rule service_pop_ok [OF assms(1)]) (rule that)
  obtain s2 where s2: "(case tm_callback (timers s1 t) of None \<Rightarrow> Some s1 | Some f \<Rightarrow> callback f t s1) = Some s2" "leaves_alone t B' C' s s2"
    using assms(2) s1 by (cases "tm_callback (timers s t)") (auto simp: leaves_alone_def)
  have sv: "software_timer_service callback s = service_rearm t s2" by (simp add: software_timer_service_def s1(1) s2(1))
  note L = s2(2) [unfolded leaves_alone_def]
  show ?thesis
  proof (cases "timer_mode (timers s t) = TIMER_MODE_PERIODIC")
    case True
    let ?s3 = "upd_timer t (\<lambda>b. b\<lparr>expiry_tick := expiry_tick b + period b\<rparr>) s2"
    let ?e = "\<lambda>x. expiry_tick (timers ?s3 x)"
    obtain s4 where s4: "software_timer_add_to_blocked_list t ?s3 = Some s4" "timers_ok s4 (timer_insert ?e t B') C'"
      "\<And>x. timers s4 x = (timers ?s3 x)\<lparr>tm_next := tm_next (timers s4 x), list_id := if x = t then TIMER_LIST_BLOCKED else list_id (timers ?s3 x)\<rparr>"
      by (rule add_to_blocked_list_ok [OF timers_but_upd [OF timers_ok_but]]) (use L that in blast)+
    have "expiry_tick (timers s4 x) = ?e x" for x by (subst s4(3)) simp
    then have e: "(\<lambda>x. expiry_tick (timers s4 x)) = ?e" by (rule ext)
    have "expiry_tick (timers s4 t) = expiry_tick (timers s t) + period (timers s t)" using fun_cong [OF e, of t] L by simp
    moreover have "timers_ok s4 (timer_insert (\<lambda>x. expiry_tick (timers s4 x)) t B') C'" unfolding e by (rule s4(2))
    moreover have "service_rearm t s2 = Some s4" using True L s4(1) by (simp add: service_rearm_def)
    ultimately show ?thesis using True sv by simp
  next
    case False
    then have "service_rearm t s2 = Some s2" using L by (simp add: service_rearm_def)
    then show ?thesis using False sv L by simp
  qed
qed

text \<open>A periodic timer whose callback resets it is armed twice: the second insertion finds the timer already in the list and
  links it to itself.\<close>

lemma reset_in_callback_cycles:
  assumes "timers_ok s [] [t]" "timer_mode (timers s t) = TIMER_MODE_PERIODIC" "tm_callback (timers s t) = Some f"
    and "tick_count s c + period (timers s t) + period (timers s t) \<ge> tick_count s c + period (timers s t)"
  shows "\<exists>s'. software_timer_service (\<lambda>_ t s. map_option snd (software_timer_reset (Some t) c s)) s = Some s' \<and>
    blocked_list_head s' = Some t \<and> tm_next (timers s' t) = Some t"
proof -
  have h: "active_list_head s = Some t" "blocked_list_head s = None" "tm_next (timers s t) = None"
    using assms(1) by (auto simp: timers_ok_def)
  show ?thesis
    using assms(2-4) h
    by (simp add: software_timer_service_def service_pop_def software_timer_reset_def unlink_by_id_def
        software_timer_add_to_blocked_list_def Let_def service_rearm_def scheduler_get_tick_count_def insert_walk.simps not_less [symmetric])
qed


subsection \<open>Two timers on the demonstration kernel\<close>

definition demo_timer :: "TimerListId \<Rightarrow> u64 \<Rightarrow> tmptr option \<Rightarrow> SoftwareTimer" where
  "demo_timer l e n = \<lparr>expiry_tick = e, period = 5, timer_mode = TIMER_MODE_PERIODIC, tm_callback = None, list_id = l, tm_next = n\<rparr>"

definition demo_timers :: kernel where
  "demo_timers = demo_kernel\<lparr>blocked_list_head := Some 0, active_list_head := None,
     timers := (\<lambda>_. demo_timer TIMER_LIST_NONE 0 None)(0 := demo_timer TIMER_LIST_BLOCKED 3 (Some 2), 2 := demo_timer TIMER_LIST_BLOCKED 9 None)\<rparr>"

definition demo_fired :: kernel where
  "demo_fired = demo_kernel\<lparr>blocked_list_head := Some 2, active_list_head := Some 0,
     timers := (\<lambda>_. demo_timer TIMER_LIST_NONE 0 None)(0 := demo_timer TIMER_LIST_ACTIVE 3 None, 2 := demo_timer TIMER_LIST_BLOCKED 9 None)\<rparr>"

lemma demo_timers_ok: "timers_ok demo_timers [0, 2] []" "timers_ok demo_fired [2] [0]"
  by (simp_all add: timers_ok_def demo_timers_def demo_fired_def demo_timer_def)

lemma demo_timers_sinv: "sinv {} demo_timers demo_lists"
  by (rule sinv_cong [OF demo_kernel_facts(2)]) (simp_all add: demo_timers_def)

theorem timer_tick_expires_witness:
  "\<exists>s'. software_timer_tick 4 demo_timers = Some s' \<and> timers_ok s' [2] [0]"
  using timer_tick_expires [OF demo_timers_ok(1) demo_timers_sinv, of 4] by (auto simp: demo_timers_def demo_timer_def)

theorem timer_stop_reset_witness:
  "\<exists>s'. software_timer_stop (Some 0) demo_timers = Some (E_OK, s') \<and> timers_ok s' [2] []"
  using timer_stop_reset [OF demo_timers_ok(1), of 0 2] by auto

text \<open>On \<open>stopping\<close>, timer 0 is active and its callback stops timer 2.\<close>

definition stopping :: kernel where
  "stopping = upd_timer 0 (\<lambda>b. b\<lparr>tm_callback := Some 7\<rparr>) demo_fired"

definition stop_other :: "nat \<Rightarrow> tmptr \<Rightarrow> kernel \<Rightarrow> kernel option" where
  "stop_other f t s = map_option snd (software_timer_stop (Some 2) s)"

theorem timer_service_drift_free_witness:
  "\<exists>s'. software_timer_service stop_other stopping = Some s' \<and> expiry_tick (timers s' 0) = 8 \<and> timers_ok s' [0] []"
proof -
  have ok: "timers_ok stopping [2] [0]"
    by (simp add: timers_ok_def stopping_def demo_fired_def demo_timer_def)
  have st: "expiry_tick (timers stopping 0) = 3" "period (timers stopping 0) = 5" "timer_mode (timers stopping 0) = TIMER_MODE_PERIODIC"
    "tm_callback (timers stopping 0) = Some 7" by (simp_all add: stopping_def demo_fired_def demo_timer_def)
  obtain s1 where s1: "service_pop stopping = (Some 0, s1)" "timers_ok s1 [2] []" "expiry_tick (timers s1 0) = 3" "period (timers s1 0) = 5"
    "timer_mode (timers s1 0) = TIMER_MODE_PERIODIC"
    by (rule service_pop_ok [OF ok]) (simp add: st)
  obtain s2 where s2: "unlink_by_id 2 s1 = Some s2" "timers_but 2 s2 [] []" "timers s2 0 = (timers s1 0)\<lparr>tm_next := tm_next (timers s2 0)\<rparr>"
    by (rule unlink_by_id_ok [OF s1(2), of 2]) auto
  let ?s = "upd_timer 2 (\<lambda>b. b\<lparr>list_id := TIMER_LIST_NONE\<rparr>) s2"
  have "stop_other 7 0 s1 = Some ?s" by (simp add: stop_other_def software_timer_stop_def s2(1))
  moreover have keep: "expiry_tick (timers ?s 0) = 3" "period (timers ?s 0) = 5" "timer_mode (timers ?s 0) = TIMER_MODE_PERIODIC"
    using s1(3-5) by (simp, subst s2(3), simp)+
  then have "leaves_alone 0 [] [] stopping ?s"
    using timers_but_stop [OF s2(2)] st by (simp only: leaves_alone_def) simp
  ultimately have "\<exists>s2. stop_other 7 0 (snd (service_pop stopping)) = Some s2 \<and> leaves_alone 0 [] [] stopping s2" using s1(1) by auto
  then show ?thesis using timer_service_drift_free [OF ok, of "[]" "[]" stop_other] st by (auto simp: timer_insert_def)
qed

end
