(* ===== verification/Crc.thy ===== *)
theory Crc
  imports Prelude
begin

unbundle bit_operations_syntax

text \<open>
  \<^verbatim>\<open>drivers/crc/crc.c\<close>: CRC-32 over the instructions \<open>crc32b\<close>, \<open>crc32h\<close>, \<open>crc32w\<close>. Their meaning is the architecture's:
  the accumulator is xored with the operand and divided by the reflected polynomial \<open>0xEDB88320\<close>, one bit at a
  time. The driver feeds words, then a half-word, then a byte; the theorems say that this is the bytewise checksum, and
  what it detects.
\<close>

definition crc_step :: "u32 \<Rightarrow> u32" where
  "crc_step c = (if bit c 0 then drop_bit 1 c XOR 0xEDB88320 else drop_bit 1 c)"

definition crc32b :: "u32 \<Rightarrow> u32 \<Rightarrow> u32" where
  "crc32b crc val = (crc_step ^^ 8) (crc XOR (val AND 0xFF))"

definition crc32h :: "u32 \<Rightarrow> u32 \<Rightarrow> u32" where
  "crc32h crc val = (crc_step ^^ 16) (crc XOR (val AND 0xFFFF))"

definition crc32w :: "u32 \<Rightarrow> u32 \<Rightarrow> u32" where
  "crc32w crc val = (crc_step ^^ 32) (crc XOR val)"

record CRC32 =
  crc :: u32

definition crc32_init :: "u32 \<Rightarrow> StatusCode" where
  "crc32_init isar5 = (if drop_bit 16 isar5 AND 0xF \<noteq> 0 then E_OK else E_NOTSUPP)"

definition le16 :: "u8 \<Rightarrow> u8 \<Rightarrow> u16" where
  "le16 a b = ucast a OR push_bit 8 (ucast b)"

definition le32 :: "u8 \<Rightarrow> u8 \<Rightarrow> u8 \<Rightarrow> u8 \<Rightarrow> u32" where
  "le32 a b c d = ucast a OR push_bit 8 (ucast b) OR push_bit 16 (ucast c) OR push_bit 24 (ucast d)"

text \<open>The three parts of the function: the loop over words, the half-word, the last byte.\<close>

fun crc32_hw_update :: "u32 \<Rightarrow> u8 list \<Rightarrow> u32" where
  "crc32_hw_update c (d0 # d1 # d2 # d3 # ds) = crc32_hw_update (crc32w c (le32 d0 d1 d2 d3)) ds"
| "crc32_hw_update c [d0, d1, d2] = crc32b (crc32h c (ucast (le16 d0 d1))) (ucast d2)"
| "crc32_hw_update c [d0, d1] = crc32h c (ucast (le16 d0 d1))"
| "crc32_hw_update c [d0] = crc32b c (ucast d0)"
| "crc32_hw_update c [] = c"

definition crc32_start :: CRC32 where
  "crc32_start = \<lparr>crc = 0xFFFFFFFF\<rparr>"

definition crc32_update :: "u8 list \<Rightarrow> CRC32 \<Rightarrow> CRC32" where
  "crc32_update data ctx = ctx\<lparr>crc := crc32_hw_update (crc ctx) data\<rparr>"

definition crc32_update_byte :: "u8 \<Rightarrow> CRC32 \<Rightarrow> CRC32" where
  "crc32_update_byte byte ctx = crc32_update [byte] ctx"

definition crc32_finish :: "CRC32 \<Rightarrow> u32" where
  "crc32_finish ctx = crc ctx XOR 0xFFFFFFFF"

definition crc32_verify :: "CRC32 \<Rightarrow> u32 \<Rightarrow> bool" where
  "crc32_verify ctx expected \<longleftrightarrow> crc32_finish ctx = expected"

subsection \<open>The division step\<close>

lemma crc_step_xor: "crc_step (a XOR b) = crc_step a XOR crc_step b"
  by (simp add: crc_step_def bit_xor_iff drop_bit_xor ac_simps)

lemma crc_steps_xor: "(crc_step ^^ n) (a XOR b) = (crc_step ^^ n) a XOR (crc_step ^^ n) b"
  by (induction n) (simp_all add: crc_step_xor)

lemma bit_u32_high: "32 \<le> i \<Longrightarrow> \<not> bit (c :: u32) i"
  using bit_imp_le_length [of c i] by auto

lemma drop_push_bit: "(\<And>i. 32 \<le> i + n \<Longrightarrow> \<not> bit c i) \<Longrightarrow> drop_bit n (push_bit n (c :: u32)) = c"
proof (rule bit_word_eqI)
  fix i assume "\<And>i. 32 \<le> i + n \<Longrightarrow> \<not> bit c i"
  from this [of i] show "bit (drop_bit n (push_bit n c)) i = bit c i"
    by (cases "32 \<le> i + n") (simp_all add: bit_simps ac_simps)
qed

lemma crc_step_push: "\<not> bit c (31::nat) \<Longrightarrow> crc_step (push_bit 1 c) = c"
proof -
  assume h: "\<not> bit c (31::nat)"
  have "\<not> bit c i" if "32 \<le> i + 1" for i using h that bit_u32_high [of i c] by (cases "i = 31") auto
  then have "drop_bit 1 (push_bit 1 c) = c" by (rule drop_push_bit)
  moreover have "\<not> bit (push_bit 1 c) 0" by (simp only: bit_push_bit_iff) simp
  ultimately show ?thesis by (simp only: crc_step_def if_False)
qed

lemma crc_steps_push:
  "(\<And>i. 32 \<le> i + n \<Longrightarrow> \<not> bit c i) \<Longrightarrow> (crc_step ^^ n) (push_bit n c) = c"
proof (induction n)
  case (Suc n)
  have p: "push_bit (Suc n) c = push_bit 1 (push_bit n c)" by simp
  have "\<not> bit (push_bit n c) 31" using Suc.prems [of "31 - n"] by (auto simp: bit_simps)
  then have "crc_step (push_bit (Suc n) c) = push_bit n c" unfolding p by (rule crc_step_push)
  moreover have "(crc_step ^^ n) (push_bit n c) = c" by (rule Suc.IH) (rule Suc.prems, simp)
  ultimately show ?case by (simp only: funpow_Suc_right o_apply)
qed simp

lemma xor_cancel: "a XOR k = b XOR k \<Longrightarrow> a = (b :: u32)"
  by (auto simp: bit_eq_iff bit_xor_iff)

lemma crc_step_inj: "inj crc_step"
proof (rule injI)
  fix a b :: u32 assume e: "crc_step a = crc_step b"
  have top: "bit (crc_step c) 31 = bit c 0" for c using bit_u32_high [of 32 c] by (simp add: crc_step_def bit_simps)
  have b0: "bit a 0 = bit b 0" using arg_cong [OF e, of "\<lambda>c. bit c 31"] by (simp only: top)
  have "drop_bit 1 a = drop_bit 1 b" using e b0 by (auto simp: crc_step_def split: if_splits dest: xor_cancel)
  show "a = b"
  proof (rule bit_word_eqI)
    fix n assume "n < LENGTH(32)"
    show "bit a n = bit b n"
    proof (cases n)
      case (Suc m)
      then show ?thesis using arg_cong [OF \<open>drop_bit 1 a = drop_bit 1 b\<close>, of "\<lambda>c. bit c m"] by (simp add: bit_simps)
    qed (simp add: b0)
  qed
qed

lemma crc_steps_inj: "inj (crc_step ^^ n)"
  by (rule inj_fn [OF crc_step_inj])

subsection \<open>Bytewise reference\<close>

definition crc_byte :: "u32 \<Rightarrow> u8 \<Rightarrow> u32" where
  "crc_byte c b = (crc_step ^^ 8) (c XOR ucast b)"

definition crc_bytes :: "u32 \<Rightarrow> u8 list \<Rightarrow> u32" where
  "crc_bytes = foldl crc_byte"

lemma crc_byte_eq: "crc32b c (ucast b) = crc_byte c b"
proof -
  have m: "(0xFF :: u32) = mask 8" by (simp add: mask_eq_exp_minus_1)
  have "ucast b AND 0xFF = (ucast b :: u32)"
    unfolding m by (rule bit_word_eqI) (auto simp: bit_simps dest: bit_imp_le_length)
  then show ?thesis by (simp only: crc32b_def crc_byte_def)
qed

text \<open>A value above a byte is not touched by the eight steps that consume the byte.\<close>

lemma crc_steps_split:
  assumes "\<And>i. 32 \<le> i + 8 \<Longrightarrow> \<not> bit v i"
  shows "(crc_step ^^ (n + 8)) (c XOR (ucast (b :: u8) OR push_bit 8 v)) = (crc_step ^^ n) (crc_byte c b XOR v)"
proof -
  have o: "ucast b OR push_bit 8 v = ucast b XOR push_bit 8 v"
    by (rule bit_word_eqI) (auto simp: bit_simps dest: bit_imp_le_length)
  have "(crc_step ^^ 8) (c XOR (ucast b OR push_bit 8 v)) = crc_byte c b XOR v"
    unfolding o crc_byte_def xor.assoc [symmetric]
    by (simp only: crc_steps_xor [of 8 _ "push_bit 8 v"] crc_steps_push [OF assms])
  then show ?thesis by (simp only: funpow_add o_apply)
qed

lemma high_ucast: "32 \<le> i + 8 \<Longrightarrow> \<not> bit (ucast (d :: u8) :: u32) i"
  by (auto simp: bit_simps dest: bit_imp_le_length)

lemma high_pair: "32 \<le> i + 8 \<Longrightarrow> \<not> bit (ucast (c :: u8) OR push_bit 8 (ucast (d :: u8)) :: u32) i"
  by (auto simp: bit_simps dest: bit_imp_le_length)

lemma high_triple:
  "32 \<le> i + 8 \<Longrightarrow> \<not> bit (ucast (b :: u8) OR push_bit 8 (ucast (c :: u8) OR push_bit 8 (ucast (d :: u8))) :: u32) i"
  by (auto simp: bit_simps dest: bit_imp_le_length)

lemma le32_nested: "le32 a b c d = ucast a OR push_bit 8 (ucast b OR push_bit 8 (ucast c OR push_bit 8 (ucast d)))"
  by (simp add: le32_def push_bit_or ac_simps)

lemma crc32w_bytes: "crc32w e (le32 a b c d) = crc_byte (crc_byte (crc_byte (crc_byte e a) b) c) d"
proof -
  have "crc32w e (le32 a b c d) = (crc_step ^^ (24 + 8)) (e XOR (ucast a OR push_bit 8 (ucast b OR push_bit 8 (ucast c OR push_bit 8 (ucast d)))))"
    by (simp only: crc32w_def le32_nested) simp
  also have "\<dots> = (crc_step ^^ (16 + 8)) (crc_byte e a XOR (ucast b OR push_bit 8 (ucast c OR push_bit 8 (ucast d))))"
    by (subst crc_steps_split [OF high_triple]) simp_all
  also have "\<dots> = (crc_step ^^ (8 + 8)) (crc_byte (crc_byte e a) b XOR (ucast c OR push_bit 8 (ucast d)))"
    by (subst crc_steps_split [OF high_pair]) simp_all
  also have "\<dots> = crc_byte (crc_byte (crc_byte (crc_byte e a) b) c) d"
    by (subst crc_steps_split [OF high_ucast]) (simp_all only: crc_byte_def)
  finally show ?thesis .
qed

lemma crc32h_bytes: "crc32h e (ucast (le16 a b)) = crc_byte (crc_byte e a) b"
proof -
  have m: "(0xFFFF :: u32) = mask 16" by (simp add: mask_eq_exp_minus_1)
  have v: "ucast (le16 a b) AND 0xFFFF = (ucast a OR push_bit 8 (ucast b) :: u32)"
    unfolding m le16_def by (rule bit_word_eqI) (auto simp: bit_simps dest: bit_imp_le_length)
  have "crc32h e (ucast (le16 a b)) = (crc_step ^^ (8 + 8)) (e XOR (ucast a OR push_bit 8 (ucast b)))"
    by (simp only: crc32h_def v) simp
  also have "\<dots> = crc_byte (crc_byte e a) b"
    by (subst crc_steps_split [OF high_ucast]) (simp_all only: crc_byte_def)
  finally show ?thesis .
qed

lemma crc32_hw_update_bytes: "crc32_hw_update c ds = crc_bytes c ds"
  by (induction c ds rule: crc32_hw_update.induct)
    (simp_all add: crc_bytes_def crc32w_bytes crc32h_bytes crc_byte_eq)

lemma crc_bytes_append: "crc_bytes c (xs @ ys) = crc_bytes (crc_bytes c xs) ys"
  by (simp add: crc_bytes_def)

subsection \<open>What the checksum detects\<close>

lemma crc_byte_inj: "crc_byte c b = crc_byte c' b \<Longrightarrow> c = c'"
  unfolding crc_byte_def by (rule xor_cancel) (rule injD [OF crc_steps_inj])

lemma crc_bytes_inj: "crc_bytes c bs = crc_bytes c' bs \<Longrightarrow> c = c'"
  by (induction bs arbitrary: c c') (auto simp: crc_bytes_def dest: crc_byte_inj)

text \<open>Four bytes: the checksum is a bijection of the word they form.\<close>

lemma bit_le32:
  "bit (le32 a b c d) i =
     (if i < 8 then bit a i else if i < 16 then bit b (i - 8) else if i < 24 then bit c (i - 16) else i < 32 \<and> bit d (i - 24))"
  by (auto simp: le32_def bit_simps dest: bit_imp_le_length)

lemma le32_inj: "le32 a b c d = le32 a' b' c' d' \<Longrightarrow> a = a' \<and> b = b' \<and> c = c' \<and> d = d'"
proof -
  assume "le32 a b c d = le32 a' b' c' d'"
  then have e: "bit (le32 a b c d) i = bit (le32 a' b' c' d') i" for i by simp
  have "bit a i = bit a' i \<and> bit b i = bit b' i \<and> bit c i = bit c' i \<and> bit d i = bit d' i" if "i < 8" for i
    using e [of i] e [of "i + 8"] e [of "i + 16"] e [of "i + 24"] that by (simp add: bit_le32)
  then show ?thesis by (intro conjI bit_word_eqI) simp_all
qed

lemma crc_word_inj:
  assumes "crc_bytes e [a, b, c, d] = crc_bytes e [a', b', c', d']"
  shows "[a, b, c, d] = [a', b', c', d']"
proof -
  have "(crc_step ^^ 32) (e XOR le32 a b c d) = (crc_step ^^ 32) (e XOR le32 a' b' c' d')"
    using assms crc32w_bytes [of e a b c d] crc32w_bytes [of e a' b' c' d'] by (simp add: crc_bytes_def crc32w_def)
  then have "le32 a b c d XOR e = le32 a' b' c' d' XOR e" using injD [OF crc_steps_inj] by (simp add: ac_simps)
  then show ?thesis using xor_cancel le32_inj by blast
qed

lemma length4E:
  assumes "length xs = 4" obtains a b c d where "xs = [a, b, c, d]"
  using assms that by (auto simp: numeral_eq_Suc length_Suc_conv)

lemma crc_burst_inj:
  assumes "crc_bytes c m = crc_bytes c m'" "length m = length m'" "length m \<le> 4"
  shows "m = m'"
proof -
  define z where "z = replicate (4 - length m) (0 :: u8)"
  have "length (m @ z) = 4" "length (m' @ z) = 4" using assms(2,3) by (simp_all add: z_def)
  then obtain a0 a1 a2 a3 b0 b1 b2 b3 where l: "m @ z = [a0, a1, a2, a3]" "m' @ z = [b0, b1, b2, b3]" by (metis length4E)
  have "crc_bytes c (m @ z) = crc_bytes c (m' @ z)" using assms(1) by (simp add: crc_bytes_append)
  then have "m @ z = m' @ z" unfolding l by (rule crc_word_inj)
  then show ?thesis using assms(2) by simp
qed

definition crc32 :: "u8 list \<Rightarrow> u32" where
  "crc32 data = crc32_finish (crc32_update data crc32_start)"

lemma crc32_eq: "crc32 data = crc_bytes 0xFFFFFFFF data XOR 0xFFFFFFFF"
  by (simp add: crc32_def crc32_finish_def crc32_update_def crc32_start_def crc32_hw_update_bytes)

lemma crc32_update_append: "crc32_update (xs @ ys) ctx = crc32_update ys (crc32_update xs ctx)"
  by (simp add: crc32_update_def crc32_hw_update_bytes crc_bytes_append)

lemma crc32_burst_inj:
  assumes "crc32 (p @ m @ q) = crc32 (p @ m' @ q)" "length m = length m'" "length m \<le> 4"
  shows "m = m'"
proof -
  have "crc_bytes 0xFFFFFFFF (p @ m @ q) = crc_bytes 0xFFFFFFFF (p @ m' @ q)" using assms(1) unfolding crc32_eq by (rule xor_cancel)
  then have "crc_bytes (crc_bytes 0xFFFFFFFF p) m = crc_bytes (crc_bytes 0xFFFFFFFF p) m'"
    unfolding crc_bytes_append by (rule crc_bytes_inj)
  with assms(2,3) show ?thesis using crc_burst_inj by blast
qed

subsection \<open>The properties\<close>

text \<open>Claim C14 (equivalence). The word-wise update of the driver is the byte-at-a-time checksum, so feeding a message in
  any pieces, whatever their lengths and alignment, down to single bytes, gives the same result.\<close>

theorem crc32_update_chunks:
  "fold crc32_update chunks ctx = ctx\<lparr>crc := crc_bytes (crc ctx) (concat chunks)\<rparr> \<and>
   fold crc32_update_byte (concat chunks) ctx = fold crc32_update chunks ctx"
proof -
  have 1: "fold crc32_update cs ctx = ctx\<lparr>crc := crc_bytes (crc ctx) (concat cs)\<rparr>" for cs ctx
    by (induction cs arbitrary: ctx) (simp_all add: crc32_update_def crc32_hw_update_bytes crc_bytes_append, simp add: crc_bytes_def)
  have "fold crc32_update_byte bs ctx = fold crc32_update (map (\<lambda>b. [b]) bs) ctx" for bs ctx
    by (induction bs arbitrary: ctx) (simp_all add: crc32_update_byte_def)
  then show ?thesis by (simp add: 1)
qed

text \<open>Claim C15 (safety). The checksum detects every corruption confined to four consecutive bytes: two messages that differ,
  but only inside such a window, have different checksums, so \<open>crc32_verify\<close> rejects the one against the other.\<close>

theorem crc32_detects_burst:
  assumes "m \<noteq> m'" and "length m = length m'" and "length m \<le> 4"
  shows "\<not> crc32_verify (crc32_update (p @ m @ q) crc32_start) (crc32 (p @ m' @ q))"
proof
  assume "crc32_verify (crc32_update (p @ m @ q) crc32_start) (crc32 (p @ m' @ q))"
  then have "crc32 (p @ m @ q) = crc32 (p @ m' @ q)" by (simp add: crc32_verify_def crc32_def)
  with assms show False using crc32_burst_inj by blast
qed

theorem crc32_detects_burst_witness:
  "\<not> crc32_verify (crc32_update ([1] @ [2, 3] @ [4]) crc32_start) (crc32 ([1] @ [2, 5] @ [4]))"
  by (rule crc32_detects_burst) simp_all

end
