(* ===== verification/Telemetry.thy ===== *)
theory Telemetry
  imports Crc Queue
begin

unbundle bit_operations_syntax

text \<open>
  \<^verbatim>\<open>telemetry/telemetry_frame.c\<close>, \<^verbatim>\<open>telemetry.c\<close> and \<^verbatim>\<open>telemetry_boot.c\<close>: packets from the device to the host. \<open>tx\<close> is
  the sequence of bytes given to \<open>uart_channel_tx_raw (UART_CHANNEL_TELEMETRY, \<dots>)\<close>. The locks that make a frame and a ring
  update atomic are those of \<open>Spinlock\<close>; every operation here is one such section or a sequence of them. A C string is
  the list of its bytes before the terminator, \<^const>\<open>None\<close> for \<open>NULL\<close>.
\<close>

subsection \<open>Packet types and state\<close>

datatype TelemetryPacketType =
    PKT_HEARTBEAT | PKT_TASK_CREATED | PKT_TICK_STATE | PKT_TASK_BLOCKED | PKT_TASK_UNBLOCKED | PKT_BOOT_STAGE_ENTER
  | PKT_BOOT_MILESTONE | PKT_BOOT_INFO | PKT_DFU_EVENT | PKT_SYNC_CREATED | PKT_MUTEX_OWNER_CHANGED

fun pkt_num :: "TelemetryPacketType \<Rightarrow> nat" where
  "pkt_num PKT_HEARTBEAT = 0" | "pkt_num PKT_TASK_CREATED = 1" | "pkt_num PKT_TICK_STATE = 2" | "pkt_num PKT_TASK_BLOCKED = 3"
| "pkt_num PKT_TASK_UNBLOCKED = 4" | "pkt_num PKT_BOOT_STAGE_ENTER = 5" | "pkt_num PKT_BOOT_MILESTONE = 6"
| "pkt_num PKT_BOOT_INFO = 7" | "pkt_num PKT_DFU_EVENT = 8" | "pkt_num PKT_SYNC_CREATED = 9" | "pkt_num PKT_MUTEX_OWNER_CHANGED = 10"

definition NUM_TELEMETRY_PACKET_TYPES :: nat where "NUM_TELEMETRY_PACKET_TYPES = 11"
definition TELEMETRY_MAGIC :: u8 where "TELEMETRY_MAGIC = 0xA5"
definition TELEMETRY_TRAILER :: u8 where "TELEMETRY_TRAILER = 0x5A"
definition TELEMETRY_TASK_NAME_MAX :: nat where "TELEMETRY_TASK_NAME_MAX = 16"
definition TELEMETRY_SYNC_NAME_MAX :: nat where "TELEMETRY_SYNC_NAME_MAX = 16"
definition TELEMETRY_MAX_SYNC_OBJECTS :: nat where "TELEMETRY_MAX_SYNC_OBJECTS = 16"
definition TELEMETRY_TICK_RING_DEPTH :: u8 where "TELEMETRY_TICK_RING_DEPTH = 8"

record TelemetrySyncRegistryEntry =
  sr_kind :: u8
  sr_sync_id :: u16
  sr_parent_sync_id :: u16
  sr_name :: "u8 list"

record TelemetryTickRecord =
  tr_core_id :: u8
  tr_task_id :: u16
  tr_state :: u8

record TelemetryTickRing =
  records :: "TelemetryTickRecord list"
  ring_head :: u8
  ring_tail :: u8
  ring_count :: u8
  overflow_count :: u8

record telemetry =
  seq_counters :: "nat \<Rightarrow> u8"
  next_sync_id :: u16
  sync_registry :: "TelemetrySyncRegistryEntry list"
  g_tick_rings :: "nat \<Rightarrow> TelemetryTickRing"
  tx :: "u8 list"

subsection \<open>Framing\<close>

definition be16 :: "u16 \<Rightarrow> u8 list" where
  "be16 x = [ucast (drop_bit 8 x), ucast (x AND 0xFF)]"

definition be32 :: "u32 \<Rightarrow> u8 list" where
  "be32 x = [ucast (drop_bit 24 x), ucast (drop_bit 16 x), ucast (drop_bit 8 x), ucast x]"

definition crc_le :: "u32 \<Rightarrow> u8 list" where
  "crc_le c = [ucast (c AND 0xFF), ucast (drop_bit 8 c AND 0xFF), ucast (drop_bit 16 c AND 0xFF), ucast (drop_bit 24 c AND 0xFF)]"

text \<open>\<open>len\<close> is the length of \<open>payload\<close>; every caller passes at most 255 bytes, as \<open>len\<close> is a \<open>uint8_t\<close>.\<close>

definition telemetry_send_framed :: "nat \<Rightarrow> u8 list \<Rightarrow> telemetry \<Rightarrow> telemetry" where
  "telemetry_send_framed type payload s =
     (if type \<ge> NUM_TELEMETRY_PACKET_TYPES then s
      else
        let header = [TELEMETRY_MAGIC, of_nat type, seq_counters s type, 0, of_nat (length payload)];
            s1 = s\<lparr>seq_counters := (seq_counters s)(type := seq_counters s type + 1)\<rparr>;
            ctx = crc32_update header crc32_start;
            ctx' = (if length payload > 0 then crc32_update payload ctx else ctx);
            c = crc32_finish ctx'
        in s1\<lparr>tx := tx s1 @ header @ payload @ crc_le c @ [TELEMETRY_TRAILER]\<rparr>)"

definition telemetry_send :: "nat \<Rightarrow> u8 list \<Rightarrow> telemetry \<Rightarrow> telemetry" where
  "telemetry_send type payload s = telemetry_send_framed type payload s"

subsection \<open>Reports\<close>

text \<open>The loop that copies a name into the payload.\<close>

fun copy_name :: "nat \<Rightarrow> u8 list \<Rightarrow> u8 list" where
  "copy_name room [] = []"
| "copy_name room (ch # name) = (if ch \<noteq> 0 \<and> room > 0 then ch # copy_name (room - 1) name else [])"

definition name_bytes :: "nat \<Rightarrow> u8 list option \<Rightarrow> u8 list" where
  "name_bytes room name = (case name of None \<Rightarrow> [] | Some n \<Rightarrow> copy_name room n)"

definition telemetry_report_task_created :: "u16 \<Rightarrow> u32 \<Rightarrow> u8 \<Rightarrow> u8 list option \<Rightarrow> telemetry \<Rightarrow> telemetry" where
  "telemetry_report_task_created tid cid prio name s =
     telemetry_send_framed (pkt_num PKT_TASK_CREATED)
       (be16 tid @ [ucast cid, prio] @ name_bytes TELEMETRY_TASK_NAME_MAX name) s"

definition telemetry_report_task_blocked :: "u16 \<Rightarrow> u32 \<Rightarrow> u8 \<Rightarrow> u16 \<Rightarrow> telemetry \<Rightarrow> telemetry" where
  "telemetry_report_task_blocked tid cid sync_kind sync_id s =
     telemetry_send_framed (pkt_num PKT_TASK_BLOCKED) (be16 tid @ [ucast cid, sync_kind] @ be16 sync_id) s"

definition telemetry_report_task_unblocked :: "u16 \<Rightarrow> u32 \<Rightarrow> telemetry \<Rightarrow> telemetry" where
  "telemetry_report_task_unblocked tid cid s =
     telemetry_send_framed (pkt_num PKT_TASK_UNBLOCKED) (be16 tid @ [ucast cid]) s"

definition telemetry_register_sync :: "u8 \<Rightarrow> u16 \<Rightarrow> u8 list option \<Rightarrow> telemetry \<Rightarrow> u16 \<times> telemetry" where
  "telemetry_register_sync kind parent_sync_id name s =
     (let sync_id = next_sync_id s;
          s1 = s\<lparr>next_sync_id := next_sync_id s + 1\<rparr>;
          nm = name_bytes TELEMETRY_SYNC_NAME_MAX name;
          payload = [kind] @ be16 sync_id @ be16 parent_sync_id @ nm;
          s2 = (if length (sync_registry s1) < TELEMETRY_MAX_SYNC_OBJECTS
                then s1\<lparr>sync_registry := sync_registry s1 @
                          [\<lparr>sr_kind = kind, sr_sync_id = sync_id, sr_parent_sync_id = parent_sync_id, sr_name = nm\<rparr>]\<rparr>
                else s1)
      in (sync_id, telemetry_send_framed (pkt_num PKT_SYNC_CREATED) payload s2))"

definition telemetry_report_mutex_owner_changed :: "u16 \<Rightarrow> u8 \<Rightarrow> u16 \<Rightarrow> u32 \<Rightarrow> telemetry \<Rightarrow> telemetry" where
  "telemetry_report_mutex_owner_changed sync_id has_owner owner_task_id owner_core_id s =
     telemetry_send_framed (pkt_num PKT_MUTEX_OWNER_CHANGED)
       (be16 sync_id @ [has_owner] @ be16 owner_task_id @ [ucast owner_core_id]) s"

definition telemetry_report_boot_stage_enter :: "u8 \<Rightarrow> telemetry \<Rightarrow> telemetry" where
  "telemetry_report_boot_stage_enter stage s = telemetry_send_framed (pkt_num PKT_BOOT_STAGE_ENTER) [stage, 0, 0, 0, 0] s"

definition telemetry_report_boot_milestone :: "u8 \<Rightarrow> u8 \<Rightarrow> u32 \<Rightarrow> telemetry \<Rightarrow> telemetry" where
  "telemetry_report_boot_milestone ms stage counter s =
     telemetry_send_framed (pkt_num PKT_BOOT_MILESTONE) ([ms, stage] @ be32 counter) s"

definition BOOT_INFO_IMAGE_HEADER :: u8 where "BOOT_INFO_IMAGE_HEADER = 0"
definition BOOT_INFO_SLOT_STATE :: u8 where "BOOT_INFO_SLOT_STATE = 1"
definition BOOT_INFO_BOOT_FLAGS :: u8 where "BOOT_INFO_BOOT_FLAGS = 2"

definition telemetry_report_boot_info_image_header ::
    "u8 \<Rightarrow> u32 \<Rightarrow> u32 \<Rightarrow> u32 \<Rightarrow> u32 \<Rightarrow> u8 \<Rightarrow> telemetry \<Rightarrow> telemetry" where
  "telemetry_report_boot_info_image_header stage version_num fw_length expected_crc actual_crc crc_ok s =
     telemetry_send_framed (pkt_num PKT_BOOT_INFO)
       ([BOOT_INFO_IMAGE_HEADER, stage] @ be32 version_num @ be32 fw_length @ be32 expected_crc @ be32 actual_crc @ [crc_ok]) s"

definition telemetry_report_boot_info_slot_state ::
    "u8 \<Rightarrow> u8 \<Rightarrow> u32 \<Rightarrow> u32 \<Rightarrow> u32 \<Rightarrow> u8 \<Rightarrow> u8 \<Rightarrow> telemetry \<Rightarrow> telemetry" where
  "telemetry_report_boot_info_slot_state active_app_slot app_slot_trial trial_boot_count wdt_reset_count wdt_reset_tolerance
     wdt_reset_policy wdt_reset_reason s =
     telemetry_send_framed (pkt_num PKT_BOOT_INFO)
       ([BOOT_INFO_SLOT_STATE, active_app_slot, app_slot_trial] @ be32 trial_boot_count @ be32 wdt_reset_count @
        be32 wdt_reset_tolerance @ [wdt_reset_policy, wdt_reset_reason]) s"

definition telemetry_report_boot_info_boot_flags :: "u8 \<Rightarrow> u8 \<Rightarrow> u8 \<Rightarrow> telemetry \<Rightarrow> telemetry" where
  "telemetry_report_boot_info_boot_flags reset_reason dfu_requested fw_crc_ok s =
     telemetry_send_framed (pkt_num PKT_BOOT_INFO) [BOOT_INFO_BOOT_FLAGS, reset_reason, dfu_requested, fw_crc_ok] s"

definition telemetry_report_dfu_event :: "u8 \<Rightarrow> u8 \<Rightarrow> u32 \<Rightarrow> telemetry \<Rightarrow> telemetry" where
  "telemetry_report_dfu_event phase target extra s =
     telemetry_send_framed (pkt_num PKT_DFU_EVENT) ([phase, target] @ be32 extra) s"

subsection \<open>The unlocked senders of the boot images\<close>

definition boot_report_stage_enter :: "u8 \<Rightarrow> telemetry \<Rightarrow> telemetry" where
  "boot_report_stage_enter stage s = telemetry_send_framed (pkt_num PKT_BOOT_STAGE_ENTER) [stage, 0, 0, 0, 0] s"

definition boot_report_milestone :: "u8 \<Rightarrow> u8 \<Rightarrow> u32 \<Rightarrow> telemetry \<Rightarrow> telemetry" where
  "boot_report_milestone ms stage counter s = telemetry_send_framed (pkt_num PKT_BOOT_MILESTONE) ([ms, stage] @ be32 counter) s"

definition boot_report_image_header :: "u8 \<Rightarrow> u32 \<Rightarrow> u32 \<Rightarrow> u32 \<Rightarrow> u32 \<Rightarrow> u8 \<Rightarrow> telemetry \<Rightarrow> telemetry" where
  "boot_report_image_header stage version_num fw_length expected_crc actual_crc crc_ok s =
     telemetry_send_framed (pkt_num PKT_BOOT_INFO)
       ([BOOT_INFO_IMAGE_HEADER, stage] @ be32 version_num @ be32 fw_length @ be32 expected_crc @ be32 actual_crc @ [crc_ok]) s"

definition boot_report_slot_state :: "u8 \<Rightarrow> u8 \<Rightarrow> u32 \<Rightarrow> u32 \<Rightarrow> u32 \<Rightarrow> u8 \<Rightarrow> u8 \<Rightarrow> telemetry \<Rightarrow> telemetry" where
  "boot_report_slot_state active_app_slot app_slot_trial trial_boot_count wdt_reset_count wdt_reset_tolerance
     wdt_reset_policy wdt_reset_reason s =
     telemetry_send_framed (pkt_num PKT_BOOT_INFO)
       ([BOOT_INFO_SLOT_STATE, active_app_slot, app_slot_trial] @ be32 trial_boot_count @ be32 wdt_reset_count @
        be32 wdt_reset_tolerance @ [wdt_reset_policy, wdt_reset_reason]) s"

definition boot_report_boot_flags :: "u8 \<Rightarrow> u8 \<Rightarrow> u8 \<Rightarrow> telemetry \<Rightarrow> telemetry" where
  "boot_report_boot_flags reset_reason dfu_requested fw_crc_ok s =
     telemetry_send_framed (pkt_num PKT_BOOT_INFO) [BOOT_INFO_BOOT_FLAGS, reset_reason, dfu_requested, fw_crc_ok] s"

definition boot_report_dfu_event :: "u8 \<Rightarrow> u8 \<Rightarrow> u32 \<Rightarrow> telemetry \<Rightarrow> telemetry" where
  "boot_report_dfu_event phase target extra s = telemetry_send_framed (pkt_num PKT_DFU_EVENT) ([phase, target] @ be32 extra) s"

subsection \<open>Tick-state rings\<close>

definition ring_push :: "TelemetryTickRecord \<Rightarrow> TelemetryTickRing \<Rightarrow> TelemetryTickRing" where
  "ring_push r ring =
     (if ring_count ring = TELEMETRY_TICK_RING_DEPTH
      then ring\<lparr>overflow_count := overflow_count ring + 1\<rparr>
      else ring\<lparr>records := (records ring)[unat (ring_head ring) := r],
                ring_head := (ring_head ring + 1) mod TELEMETRY_TICK_RING_DEPTH,
                ring_count := ring_count ring + 1\<rparr>)"

definition telemetry_report_tick_state :: "nat \<Rightarrow> u16 \<Rightarrow> u8 \<Rightarrow> telemetry \<Rightarrow> telemetry" where
  "telemetry_report_tick_state cid tid state s =
     (if cid \<ge> COMPANION_CORE_MAX_CORES then s
      else s\<lparr>g_tick_rings := (g_tick_rings s)(cid :=
               ring_push \<lparr>tr_core_id = of_nat cid, tr_task_id = tid, tr_state = state\<rparr> (g_tick_rings s cid))\<rparr>)"

definition ring_pop :: "TelemetryTickRing \<Rightarrow> TelemetryTickRecord option \<times> TelemetryTickRing" where
  "ring_pop ring =
     (if ring_count ring > 0
      then (Some (records ring ! unat (ring_tail ring)),
            ring\<lparr>ring_tail := (ring_tail ring + 1) mod TELEMETRY_TICK_RING_DEPTH, ring_count := ring_count ring - 1\<rparr>)
      else (None, ring))"

definition tick_payload :: "TelemetryTickRecord \<Rightarrow> u8 \<Rightarrow> u8 list" where
  "tick_payload r overflow = [tr_core_id r] @ be16 (tr_task_id r) @ [tr_state r, overflow]"

lemma tx_send_frame [simp]: "g_tick_rings (telemetry_send_framed t p s) = g_tick_rings s"
  "sync_registry (telemetry_send_framed t p s) = sync_registry s" "next_sync_id (telemetry_send_framed t p s) = next_sync_id s"
  by (simp_all add: telemetry_send_framed_def Let_def)

lemma unat_pred_less: "0 < x \<Longrightarrow> unat (x - 1 :: 'a::len word) < unat x"
  by (cases "x = 0") (simp_all add: unat_minus_one unat_gt_0)

function drain_ring :: "nat \<Rightarrow> telemetry \<Rightarrow> telemetry" where
  "drain_ring cid s =
     (case ring_pop (g_tick_rings s cid) of
        (None, ring) \<Rightarrow> s\<lparr>g_tick_rings := (g_tick_rings s)(cid := ring)\<rparr>
      | (Some r, ring) \<Rightarrow>
          drain_ring cid
            (telemetry_send (pkt_num PKT_TICK_STATE) (tick_payload r (overflow_count ring))
              (s\<lparr>g_tick_rings := (g_tick_rings s)(cid := ring)\<rparr>)))"
  by pat_completeness auto

termination
  by (relation "measure (\<lambda>(c, s). unat (ring_count (g_tick_rings s c)))")
    (auto simp: ring_pop_def telemetry_send_def intro: unat_pred_less split: if_splits)

definition telemetry_drain_tick_rings :: "telemetry \<Rightarrow> telemetry" where
  "telemetry_drain_tick_rings s = fold drain_ring [0..<COMPANION_CORE_MAX_CORES] s"

subsection \<open>The roster and the publisher\<close>

definition entry_payload :: "TelemetrySyncRegistryEntry \<Rightarrow> u8 list" where
  "entry_payload e = [sr_kind e] @ be16 (sr_sync_id e) @ be16 (sr_parent_sync_id e) @ sr_name e"

definition telemetry_rebroadcast_sync_roster :: "telemetry \<Rightarrow> telemetry" where
  "telemetry_rebroadcast_sync_roster s =
     fold (\<lambda>e s. telemetry_drain_tick_rings (telemetry_send_framed (pkt_num PKT_SYNC_CREATED) (entry_payload e) s))
       (sync_registry s) s"

text \<open>One iteration of the publisher's loop, up to \<open>task_delay_ms(1)\<close>.\<close>

definition telemetry_publisher_task :: "u32 \<times> u32 \<times> telemetry \<Rightarrow> u32 \<times> u32 \<times> telemetry" where
  "telemetry_publisher_task st =
     (case st of (heartbeat_counter, loop_counter, s) \<Rightarrow>
      let s1 = telemetry_drain_tick_rings s;
          (hb, s2) = (if loop_counter mod 100 = 0
                      then (heartbeat_counter + 1, telemetry_send (pkt_num PKT_HEARTBEAT) (be32 heartbeat_counter) s1)
                      else (heartbeat_counter, s1));
          s3 = (if loop_counter mod 2000 = 0 then telemetry_rebroadcast_sync_roster s2 else s2)
      in (hb, loop_counter + 1, s3))"

declare drain_ring.simps [simp del]


subsection \<open>The host's view of a frame\<close>

text \<open>The framing of \<^verbatim>\<open>telemetry.h\<close>, read back: magic, type, sequence number, length, payload, checksum of everything
  before it, trailer.\<close>

definition frame :: "nat \<Rightarrow> u8 \<Rightarrow> u8 list \<Rightarrow> u8 list" where
  "frame type sq payload =
     (let header = [TELEMETRY_MAGIC, of_nat type, sq, 0, of_nat (length payload)]
      in header @ payload @ crc_le (crc32 (header @ payload)) @ [TELEMETRY_TRAILER])"

definition parse_frame :: "u8 list \<Rightarrow> ((nat \<times> u8 \<times> u8 list) \<times> u8 list) option" where
  "parse_frame bs =
     (case bs of
        m # ty # sq # l1 # l0 # rest \<Rightarrow>
          let n = 256 * unat l1 + unat l0
          in if m = TELEMETRY_MAGIC \<and> n + 5 \<le> length rest \<and>
                take 4 (drop n rest) = crc_le (crc32 ([m, ty, sq, l1, l0] @ take n rest)) \<and> rest ! (n + 4) = TELEMETRY_TRAILER
             then Some ((unat ty, sq, take n rest), drop (n + 5) rest) else None
      | _ \<Rightarrow> None)"

fun parse_frames :: "nat \<Rightarrow> u8 list \<Rightarrow> ((nat \<times> u8 \<times> u8 list) list \<times> u8 list) option" where
  "parse_frames 0 bs = Some ([], bs)"
| "parse_frames (Suc n) bs =
     (case parse_frame bs of
        None \<Rightarrow> None
      | Some (f, r) \<Rightarrow> map_option (\<lambda>(fs, r'). (f # fs, r')) (parse_frames n r))"

text \<open>Per type, packets are numbered consecutively modulo 256.\<close>

fun numbered :: "(nat \<Rightarrow> u8) \<Rightarrow> (nat \<times> u8 list) list \<Rightarrow> (nat \<times> u8 \<times> u8 list) list" where
  "numbered c [] = []"
| "numbered c ((t, p) # ps) = (t, c t, p) # numbered (c(t := c t + 1)) ps"

lemma send_framed_frame:
  "t < NUM_TELEMETRY_PACKET_TYPES \<Longrightarrow> telemetry_send_framed t p s =
     s\<lparr>seq_counters := (seq_counters s)(t := seq_counters s t + 1), tx := tx s @ frame t (seq_counters s t) p\<rparr>"
  by (cases p) (simp_all add: telemetry_send_framed_def frame_def crc32_def Let_def crc32_update_append [symmetric])

lemma length_crc_le [simp]: "length (crc_le c) = 4"
  by (simp add: crc_le_def)

lemma parse_frame_frame:
  assumes "t < 256" "length p < 256"
  shows "parse_frame (frame t sq p @ rest) = Some ((t, sq, p), rest)"
proof -
  have u: "unat (of_nat t :: u8) = t" "unat (of_nat (length p) :: u8) = length p"
    using assms by (simp_all add: unat_of_nat)
  have n: "(p @ crc_le c @ TELEMETRY_TRAILER # rest) ! (length p + 4) = TELEMETRY_TRAILER" for c
    by (simp add: nth_append)
  show ?thesis
    by (simp add: parse_frame_def frame_def Let_def u n nth_append)
qed

lemma sends_parse:
  assumes "\<forall>(t, p)\<in>set ps. t < NUM_TELEMETRY_PACKET_TYPES \<and> length p < 256"
  shows "\<exists>bs. tx (fold (\<lambda>(t, p). telemetry_send_framed t p) ps s) = tx s @ bs \<and>
    parse_frames (length ps) (bs @ rest) = Some (numbered (seq_counters s) ps, rest)"
  using assms
proof (induction ps arbitrary: s)
  case (Cons x ps)
  obtain t p where x: "x = (t, p)" by (cases x)
  have t: "t < NUM_TELEMETRY_PACKET_TYPES" "length p < 256" using Cons.prems x by simp_all
  then have t': "t < 256" by (simp add: NUM_TELEMETRY_PACKET_TYPES_def)
  let ?s = "s\<lparr>seq_counters := (seq_counters s)(t := seq_counters s t + 1), tx := tx s @ frame t (seq_counters s t) p\<rparr>"
  have "\<forall>(t, p)\<in>set ps. t < NUM_TELEMETRY_PACKET_TYPES \<and> length p < 256" using Cons.prems by simp
  from Cons.IH [OF this, of ?s] obtain bs where
    bs: "tx (fold (\<lambda>(t, p). telemetry_send_framed t p) ps ?s) = tx ?s @ bs"
      "parse_frames (length ps) (bs @ rest) = Some (numbered (seq_counters ?s) ps, rest)" by blast
  show ?case
    by (rule exI [of _ "frame t (seq_counters s t) p @ bs"])
      (use bs parse_frame_frame [OF t' t(2)] in \<open>simp add: x send_framed_frame [OF t(1)]\<close>)
qed simp

text \<open>Claim C16 (roundtrip). What \<open>telemetry_send_framed\<close> puts on the wire for any sequence of packets parses back, whatever
  follows, into the same packets in the same order, numbered consecutively per packet type from the current counters, with
  every checksum and trailer accepted.\<close>

theorem telemetry_stream_roundtrip:
  assumes "\<forall>(t, p)\<in>set ps. t < NUM_TELEMETRY_PACKET_TYPES \<and> length p < 256"
  shows "\<exists>bs. tx (fold (\<lambda>(t, p). telemetry_send_framed t p) ps s) = tx s @ bs \<and>
    parse_frames (length ps) (bs @ rest) = Some (numbered (seq_counters s) ps, rest)"
  by (rule sends_parse [OF assms])

definition demo_telemetry :: telemetry where
  "demo_telemetry = \<lparr>seq_counters = (\<lambda>_. 255), next_sync_id = 0, sync_registry = [],
     g_tick_rings = (\<lambda>_. \<lparr>records = replicate 8 \<lparr>tr_core_id = 0, tr_task_id = 0, tr_state = 0\<rparr>, ring_head = 0, ring_tail = 0,
       ring_count = 0, overflow_count = 0\<rparr>), tx = []\<rparr>"

theorem telemetry_stream_roundtrip_witness:
  "\<exists>bs. tx (fold (\<lambda>(t, p). telemetry_send_framed t p) [(2, [7]), (4, []), (2, [8, 9])] demo_telemetry) = bs \<and>
     parse_frames (length [2, 4, 2 :: nat]) (bs @ []) = Some ([(2, 255, [7]), (4, 255, []), (2, 0, [8, 9])], [])"
proof -
  let ?ps = "[(2, [7]), (4, []), (2, [8, 9])]"
  have n: "numbered (seq_counters demo_telemetry) ?ps = [(2, 255, [7]), (4, 255, []), (2, 0, [8, 9])]"
    and e: "tx demo_telemetry = []" by (simp_all add: demo_telemetry_def)
  have "\<forall>(t, p)\<in>set ?ps. t < NUM_TELEMETRY_PACKET_TYPES \<and> length p < 256" by (simp add: NUM_TELEMETRY_PACKET_TYPES_def)
  from telemetry_stream_roundtrip [OF this, of demo_telemetry "[]"] show ?thesis
    unfolding n e append_Nil by (simp only: list.size)
qed

text \<open>No report is longer than a \<open>uint8_t\<close> length can say.\<close>

lemma length_copy_name: "length (copy_name n xs) \<le> n"
  by (induction n xs rule: copy_name.induct) auto

lemma length_name_bytes: "length (name_bytes n x) \<le> n"
  by (simp add: name_bytes_def length_copy_name split: option.splits)

text \<open>The boot images and the application send the same packets.\<close>

lemma boot_reports_agree:
  "boot_report_stage_enter = telemetry_report_boot_stage_enter" "boot_report_milestone = telemetry_report_boot_milestone"
  "boot_report_image_header = telemetry_report_boot_info_image_header" "boot_report_slot_state = telemetry_report_boot_info_slot_state"
  "boot_report_boot_flags = telemetry_report_boot_info_boot_flags" "boot_report_dfu_event = telemetry_report_dfu_event"
  by (simp_all add: fun_eq_iff boot_report_stage_enter_def telemetry_report_boot_stage_enter_def boot_report_milestone_def
      telemetry_report_boot_milestone_def boot_report_image_header_def telemetry_report_boot_info_image_header_def
      boot_report_slot_state_def telemetry_report_boot_info_slot_state_def boot_report_boot_flags_def
      telemetry_report_boot_info_boot_flags_def boot_report_dfu_event_def telemetry_report_dfu_event_def)

subsection \<open>The rings\<close>

definition ring_holds :: "TelemetryTickRing \<Rightarrow> TelemetryTickRecord list \<Rightarrow> bool" where
  "ring_holds ring xs \<longleftrightarrow> length (records ring) = 8 \<and> length xs \<le> 8 \<and> ring_count ring = of_nat (length xs) \<and>
     unat (ring_tail ring) < 8 \<and> unat (ring_head ring) = (unat (ring_tail ring) + length xs) mod 8 \<and>
     (\<forall>i < length xs. records ring ! ((unat (ring_tail ring) + i) mod 8) = xs ! i)"

lemma unat_ring_next: "unat (x :: u8) < 8 \<Longrightarrow> unat ((x + 1) mod 8) = Suc (unat x) mod 8"
proof -
  assume "unat x < 8"
  then have "unat (x + 1) = Suc (unat x)" by (simp add: unat_word_ariths)
  then show ?thesis by (simp add: unat_mod_distrib)
qed

lemma ring_count_full:
  assumes "ring_holds ring xs" shows "ring_count ring = 8 \<longleftrightarrow> length xs = 8" "ring_count ring > 0 \<longleftrightarrow> xs \<noteq> []"
proof -
  have u: "unat (ring_count ring) = length xs" using assms by (simp add: ring_holds_def unat_of_nat)
  show "ring_count ring = 8 \<longleftrightarrow> length xs = 8" using u by (simp add: word_unat_eq_iff)
  show "ring_count ring > 0 \<longleftrightarrow> xs \<noteq> []" using u by (simp add: word_less_nat_alt)
qed

lemma ring_push_holds:
  assumes h: "ring_holds ring xs" and l: "length xs < 8"
  shows "ring_holds (ring_push r ring) (xs @ [r])" "overflow_count (ring_push r ring) = overflow_count ring"
proof -
  let ?t = "unat (ring_tail ring)" and ?h = "unat (ring_head ring)"
  have nf: "ring_count ring \<noteq> 8" using ring_count_full(1) [OF h] l by simp
  have hd: "?h = (?t + length xs) mod 8" "?h < 8" using h by (simp_all add: ring_holds_def)
  have p: "ring_push r ring = ring\<lparr>records := (records ring)[?h := r], ring_head := (ring_head ring + 1) mod 8, ring_count := ring_count ring + 1\<rparr>"
    using nf by (simp add: ring_push_def TELEMETRY_TICK_RING_DEPTH_def)
  have ne: "?h \<noteq> (?t + i) mod 8" if "i < length xs" for i using mod_add_ne [OF that l, of ?t] hd(1) by simp
  have "(records ring)[?h := r] ! ((?t + i) mod 8) = (xs @ [r]) ! i" if "i < Suc (length xs)" for i
  proof (cases "i < length xs")
    case True
    then show ?thesis using h ne [OF True] by (simp add: ring_holds_def nth_append)
  next
    case False
    with that have "i = length xs" by simp
    then show ?thesis using h hd by (simp add: ring_holds_def)
  qed
  then show "ring_holds (ring_push r ring) (xs @ [r])"
    using h l unat_ring_next [OF hd(2)] hd(1) by (simp add: p ring_holds_def mod_Suc_eq add.commute)
  show "overflow_count (ring_push r ring) = overflow_count ring" by (simp add: p)
qed

lemma ring_push_full:
  "ring_holds ring xs \<Longrightarrow> length xs = 8 \<Longrightarrow> ring_push r ring = ring\<lparr>overflow_count := overflow_count ring + 1\<rparr>"
  using ring_count_full(1) by (simp add: ring_push_def TELEMETRY_TICK_RING_DEPTH_def)

lemma ring_pop_holds:
  assumes h: "ring_holds ring (x # xs)"
  obtains ring' where "ring_pop ring = (Some x, ring')" "ring_holds ring' xs" "overflow_count ring' = overflow_count ring"
proof -
  let ?t = "unat (ring_tail ring)"
  let ?r = "ring\<lparr>ring_tail := (ring_tail ring + 1) mod 8, ring_count := ring_count ring - 1\<rparr>"
  have t: "?t < 8" using h by (simp add: ring_holds_def)
  have all: "records ring ! ((?t + i) mod 8) = (x # xs) ! i" if "i < Suc (length xs)" for i using h that by (simp add: ring_holds_def)
  have "records ring ! ?t = x" using all [of 0] t by simp
  then have "ring_pop ring = (Some x, ?r)"
    using ring_count_full(2) [OF h] by (simp add: ring_pop_def TELEMETRY_TICK_RING_DEPTH_def)
  moreover have m: "(Suc ?t mod 8 + i) mod 8 = (?t + Suc i) mod 8" for i by (simp add: mod_add_left_eq)
  have "ring_holds ?r xs"
    using h all [of "Suc _"] unat_ring_next [OF t] by (simp add: ring_holds_def m)
  ultimately show ?thesis using that by simp
qed

text \<open>The ring keeps the contract of a bounded first-in first-out buffer.\<close>

interpretation tick_ring: bounded_fifo
  "\<lambda>r ring. if ring_count ring = TELEMETRY_TICK_RING_DEPTH then None else Some (ring_push r ring)"
  "\<lambda>_ ring. case ring_pop ring of (Some r, ring') \<Rightarrow> Some (r, ring') | (None, _) \<Rightarrow> None"
  ring_holds "\<lambda>_. 8" "\<lambda>_ _. True"
proof (unfold_locales, goal_cases)
  case (1 b xs x)
  then show ?case using ring_push_holds [of b xs x] ring_count_full(1) [OF 1(1)] by (simp add: TELEMETRY_TICK_RING_DEPTH_def)
next
  case (2 b x xs d)
  obtain b' where "ring_pop b = (Some x, b')" "ring_holds b' xs" by (rule ring_pop_holds [OF 2(1)]) (rule that)
  then show ?case by simp
qed

definition report_ticks :: "nat \<Rightarrow> (u16 \<times> u8) list \<Rightarrow> telemetry \<Rightarrow> telemetry" where
  "report_ticks c rs s = fold (\<lambda>(t, st). telemetry_report_tick_state c t st) rs s"

lemma reports_hold:
  "ring_holds (g_tick_rings s c) xs \<Longrightarrow> c < COMPANION_CORE_MAX_CORES \<Longrightarrow>
   let s' = fold (\<lambda>(t, st). telemetry_report_tick_state c t st) rs s;
       all = xs @ map (\<lambda>(t, st). \<lparr>tr_core_id = of_nat c, tr_task_id = t, tr_state = st\<rparr>) rs
   in ring_holds (g_tick_rings s' c) (take 8 all) \<and>
      overflow_count (g_tick_rings s' c) = overflow_count (g_tick_rings s c) + of_nat (length all - 8) \<and>
      tx s' = tx s \<and> seq_counters s' = seq_counters s"
proof (induction rs arbitrary: s xs)
  case Nil
  then have "length xs \<le> 8" by (simp add: ring_holds_def)
  with Nil show ?case by simp
next
  case (Cons a rs)
  obtain t st where a: "a = (t, st)" by (cases a)
  let ?r = "\<lparr>tr_core_id = of_nat c, tr_task_id = t, tr_state = st\<rparr>"
  let ?s = "telemetry_report_tick_state c t st s"
  have g: "g_tick_rings ?s c = ring_push ?r (g_tick_rings s c)" "tx ?s = tx s" "seq_counters ?s = seq_counters s"
    using Cons.prems(2) by (simp_all add: telemetry_report_tick_state_def)
  show ?case
  proof (cases "length xs < 8")
    case True
    note P = ring_push_holds [OF Cons.prems(1) True, of ?r]
    from Cons.IH [of ?s "xs @ [?r]"] P g Cons.prems(2) show ?thesis by (simp add: a Let_def)
  next
    case False
    then have l: "length xs = 8" using Cons.prems(1) by (simp add: ring_holds_def)
    note P = ring_push_full [OF Cons.prems(1) l, of ?r]
    have h: "ring_holds (g_tick_rings ?s c) xs" using Cons.prems(1) g(1) P by (simp add: ring_holds_def)
    from Cons.IH [OF h Cons.prems(2)] g P l show ?thesis by (simp add: a Let_def algebra_simps)
  qed
qed

lemma tx_rings: "tx (s\<lparr>g_tick_rings := g\<rparr>) = tx s"
  by simp

lemma send_framed_rings: "telemetry_send_framed t p (s\<lparr>g_tick_rings := g\<rparr>) = (telemetry_send_framed t p s)\<lparr>g_tick_rings := g\<rparr>"
  by (cases s) (simp add: telemetry_send_framed_def Let_def)

lemma drain_ring_sends:
  assumes "ring_holds (g_tick_rings s c) xs"
  shows "\<exists>ring'. drain_ring c s =
      (fold (\<lambda>r. telemetry_send_framed (pkt_num PKT_TICK_STATE) (tick_payload r (overflow_count (g_tick_rings s c)))) xs s)
        \<lparr>g_tick_rings := (g_tick_rings s)(c := ring')\<rparr> \<and>
    ring_holds ring' [] \<and> overflow_count ring' = overflow_count (g_tick_rings s c)"
  using assms
proof (induction xs arbitrary: s)
  case Nil
  then have "ring_pop (g_tick_rings s c) = (None, g_tick_rings s c)"
    using ring_count_full(2) [OF Nil] by (simp add: ring_pop_def)
  then show ?case using Nil by (subst drain_ring.simps) (auto intro!: exI [of _ "g_tick_rings s c"])
next
  case (Cons x xs)
  obtain ring' where r: "ring_pop (g_tick_rings s c) = (Some x, ring')" "ring_holds ring' xs"
    "overflow_count ring' = overflow_count (g_tick_rings s c)"
    by (rule ring_pop_holds [OF Cons.prems]) (rule that)
  let ?f = "\<lambda>r. telemetry_send_framed (pkt_num PKT_TICK_STATE) (tick_payload r (overflow_count (g_tick_rings s c)))"
  let ?s = "s\<lparr>g_tick_rings := (g_tick_rings s)(c := ring')\<rparr>"
  have step: "drain_ring c s = drain_ring c (?f x ?s)"
    using r by (subst drain_ring.simps) (simp add: telemetry_send_def)
  have comm: "fold ?f ys (s0\<lparr>g_tick_rings := g\<rparr>) = (fold ?f ys s0)\<lparr>g_tick_rings := g\<rparr>" for ys s0 g
    by (induction ys arbitrary: s0) (simp_all add: send_framed_rings)
  have one: "?f x ?s = (?f x s)\<lparr>g_tick_rings := (g_tick_rings s)(c := ring')\<rparr>" using comm [of "[x]"] by simp
  have u: "(g_tick_rings (?f x ?s))(c := a) = (g_tick_rings s)(c := a)"
    "overflow_count (g_tick_rings (?f x ?s) c) = overflow_count (g_tick_rings s c)" for a using r(3) by simp_all
  have "ring_holds (g_tick_rings (?f x ?s) c) xs" using r by simp
  from Cons.IH [OF this, unfolded u] obtain ring'' where
    d: "drain_ring c (?f x ?s) = (fold ?f xs (?f x ?s))\<lparr>g_tick_rings := (g_tick_rings s)(c := ring'')\<rparr>"
    "ring_holds ring'' []" "overflow_count ring'' = overflow_count (g_tick_rings s c)" by blast
  have "drain_ring c s = (fold ?f xs (?f x ?s))\<lparr>g_tick_rings := (g_tick_rings s)(c := ring'')\<rparr>"
    using step d(1) by (rule trans)
  also have "\<dots> = (fold ?f (x # xs) s)\<lparr>g_tick_rings := (g_tick_rings s)(c := ring'')\<rparr>"
    unfolding one comm by simp
  finally show ?case using d(2,3) by blast
qed

lemma tx_send_framed:
  "tx (telemetry_send_framed k p s) = (if k < NUM_TELEMETRY_PACKET_TYPES then tx s @ frame k (seq_counters s k) p else tx s)"
  "seq_counters (telemetry_send_framed k p s) =
     (if k < NUM_TELEMETRY_PACKET_TYPES then (seq_counters s)(k := seq_counters s k + 1) else seq_counters s)"
proof -
  have "telemetry_send_framed k p s = s" if "\<not> k < NUM_TELEMETRY_PACKET_TYPES" using that by (simp add: telemetry_send_framed_def)
  then show "tx (telemetry_send_framed k p s) = (if k < NUM_TELEMETRY_PACKET_TYPES then tx s @ frame k (seq_counters s k) p else tx s)"
    "seq_counters (telemetry_send_framed k p s) =
      (if k < NUM_TELEMETRY_PACKET_TYPES then (seq_counters s)(k := seq_counters s k + 1) else seq_counters s)"
    using send_framed_frame [of k p s] by simp_all
qed

lemma sends_tx_cong:
  "tx a = tx b \<Longrightarrow> seq_counters a = seq_counters b \<Longrightarrow>
     tx (fold (\<lambda>r. telemetry_send_framed k (q r)) xs a) = tx (fold (\<lambda>r. telemetry_send_framed k (q r)) xs b)"
proof (induction xs arbitrary: a b)
  case (Cons x xs)
  show ?case unfolding fold_Cons o_apply
    by (rule Cons.IH) (simp_all only: tx_send_framed Cons.prems)
qed simp

text \<open>The ring of a core keeps the oldest eight tick records reported since it was last drained and counts the
  rest as overflow (modulo 256); draining it terminates, sends one packet per kept record in the order of the reports, each
  carrying the overflow count, and leaves the ring empty.\<close>

theorem tick_reports_delivered:
  assumes "cid < COMPANION_CORE_MAX_CORES" and "ring_holds (g_tick_rings s cid) []"
  shows "tx (drain_ring cid (report_ticks cid rs s)) =
      tx (fold (\<lambda>(t, st). telemetry_send_framed (pkt_num PKT_TICK_STATE)
            ([of_nat cid] @ be16 t @ [st, overflow_count (g_tick_rings s cid) + of_nat (length rs - 8)])) (take 8 rs) s) \<and>
    ring_holds (g_tick_rings (drain_ring cid (report_ticks cid rs s)) cid) []"
proof -
  define s1 where "s1 = report_ticks cid rs s"
  let ?mk = "\<lambda>(t, st). \<lparr>tr_core_id = of_nat cid, tr_task_id = t, tr_state = st\<rparr>"
  let ?ov = "overflow_count (g_tick_rings s cid) + of_nat (length rs - 8)"
  have R: "ring_holds (g_tick_rings s1 cid) (take 8 (map ?mk rs))" "overflow_count (g_tick_rings s1 cid) = ?ov"
    "tx s1 = tx s" "seq_counters s1 = seq_counters s"
    using reports_hold [OF assms(2,1), of rs] by (simp_all add: Let_def s1_def report_ticks_def)
  from drain_ring_sends [OF R(1)] obtain ring' where
    d: "drain_ring cid s1 = (fold (\<lambda>r. telemetry_send_framed (pkt_num PKT_TICK_STATE) (tick_payload r ?ov)) (take 8 (map ?mk rs)) s1)
      \<lparr>g_tick_rings := (g_tick_rings s1)(cid := ring')\<rparr>" "ring_holds ring' []" unfolding R(2) by blast
  have f: "(\<lambda>x. telemetry_send_framed (pkt_num PKT_TICK_STATE) (tick_payload (?mk x) ?ov)) =
      (\<lambda>(t, st). telemetry_send_framed (pkt_num PKT_TICK_STATE) ([of_nat cid] @ be16 t @ [st, ?ov]))"
    by (auto simp: fun_eq_iff tick_payload_def)
  have "tx (drain_ring cid s1) = tx (fold (\<lambda>r. telemetry_send_framed (pkt_num PKT_TICK_STATE) (tick_payload r ?ov)) (map ?mk (take 8 rs)) s)"
    unfolding d(1) take_map tx_rings by (rule sends_tx_cong [OF R(3,4)])
  also have "\<dots> = tx (fold (\<lambda>(t, st). telemetry_send_framed (pkt_num PKT_TICK_STATE) ([of_nat cid] @ be16 t @ [st, ?ov])) (take 8 rs) s)"
    unfolding fold_map o_def f ..
  finally show ?thesis using d by (simp add: s1_def [symmetric])
qed

theorem tick_reports_delivered_witness:
  "ring_holds (g_tick_rings (drain_ring 3 (report_ticks 3 [(5, 1), (6, 2)] demo_telemetry)) 3) []"
  using tick_reports_delivered [of 3 demo_telemetry "[(5, 1), (6, 2)]"]
  by (simp add: task_consts demo_telemetry_def ring_holds_def)

end
