(* ===== verification/Mmio.thy ===== *)
theory Mmio
  imports Prelude "HOL-Library.State_Monad"
begin

unbundle bit_operations_syntax

text \<open>
  Memory-mapped devices. A register access is an event; the value a read returns is a function of all earlier
  events and of the address, so \<open>dev\<close> is an arbitrary deterministic device, free to depend on everything the program has
  done. Theorems over the drivers hold for every \<open>dev\<close>. The trace is kept newest first.

  Drivers whose loops are all bounded are written in the state monad of \<^verbatim>\<open>HOL-Library.State_Monad\<close>; the ones that
  may spin forever pass the state explicitly and return an option.

  The theory also has the two rule sets the driver proofs use: \<open>post\<close>, what holds of the result and the final state, and
  the locale \<open>io_rel\<close>, for reflexive and transitive relations between the states before and after.
\<close>

subsection \<open>The machine\<close>

datatype access = Rd u32 u32 | Wr u32 u32

record machine =
  dev :: "access list \<Rightarrow> u32 \<Rightarrow> u32"
  trace :: "access list"

definition rd :: "u32 \<Rightarrow> ('z machine_scheme, u32) state" where
  "rd a = State (\<lambda>s. let v = dev s (trace s) a in (v, s\<lparr>trace := Rd a v # trace s\<rparr>))"

definition wr :: "u32 \<Rightarrow> u32 \<Rightarrow> ('z machine_scheme, unit) state" where
  "wr a v = State (\<lambda>s. ((), s\<lparr>trace := Wr a v # trace s\<rparr>))"

definition set_bits :: "u32 \<Rightarrow> u32 \<Rightarrow> ('z machine_scheme, unit) state" where
  "set_bits a m = do { v \<leftarrow> rd a; wr a (v OR m) }"

definition clear_bits :: "u32 \<Rightarrow> u32 \<Rightarrow> ('z machine_scheme, unit) state" where
  "clear_bits a m = do { v \<leftarrow> rd a; wr a (v AND NOT m) }"

abbreviation return where "return \<equiv> State_Monad.return"

definition upd :: "('s \<Rightarrow> 's) \<Rightarrow> ('s, unit) state" where
  "upd f = State (\<lambda>s. ((), f s))"

definition gets :: "('s \<Rightarrow> 'a) \<Rightarrow> ('s, 'a) state" where
  "gets f = State (\<lambda>s. (f s, s))"

lemma run_rd [simp]: "run_state (rd a) s = (dev s (trace s) a, s\<lparr>trace := Rd a (dev s (trace s) a) # trace s\<rparr>)"
  by (simp add: rd_def Let_def)

lemma run_wr [simp]: "run_state (wr a v) s = ((), s\<lparr>trace := Wr a v # trace s\<rparr>)"
  by (simp add: wr_def)

lemma run_upd [simp]: "run_state (upd f) s = ((), f s)"
  by (simp add: upd_def)

lemma run_gets [simp]: "run_state (gets f) s = (f s, s)"
  by (simp add: gets_def)

text \<open>A C loop \<open>for (i = 0; i < n; i++)\<close> over a list, whose body may return early with an error.\<close>

fun each :: "('a \<Rightarrow> ('s, StatusCode) state) \<Rightarrow> 'a list \<Rightarrow> ('s, StatusCode) state" where
  "each f [] = return E_OK"
| "each f (x # xs) = do { r \<leftarrow> f x; if r \<noteq> E_OK then return r else each f xs }"

subsection \<open>Results and final states\<close>

definition post :: "('a \<Rightarrow> 's \<Rightarrow> bool) \<Rightarrow> ('s, 'a) state \<Rightarrow> 's \<Rightarrow> bool" where
  "post Q m s = (case run_state m s of (x, s') \<Rightarrow> Q x s')"

named_theorems post_rules \<open>weakest preconditions of the monad's operations\<close>

lemma post_bind [post_rules]: "post (\<lambda>x. post Q (f x)) m s \<Longrightarrow> post Q (m \<bind> f) s"
  by (simp add: post_def split: prod.splits)

lemma post_return [post_rules]: "Q x s \<Longrightarrow> post Q (return x) s"
  by (simp add: post_def)

lemma post_rd [post_rules]: "(\<And>v. v = dev s (trace s) a \<Longrightarrow> Q v (s\<lparr>trace := Rd a v # trace s\<rparr>)) \<Longrightarrow> post Q (rd a) s"
  by (simp add: post_def)

lemma post_wr [post_rules]: "Q () (s\<lparr>trace := Wr a v # trace s\<rparr>) \<Longrightarrow> post Q (wr a v) s"
  by (simp add: post_def)

lemma post_upd [post_rules]: "Q () (f s) \<Longrightarrow> post Q (upd f) s"
  by (simp add: post_def)

lemma post_gets [post_rules]: "Q (f s) s \<Longrightarrow> post Q (gets f) s"
  by (simp add: post_def)

lemma post_if [post_rules]: "(b \<Longrightarrow> post Q m s) \<Longrightarrow> (\<not> b \<Longrightarrow> post Q n s) \<Longrightarrow> post Q (if b then m else n) s"
  by simp

lemma post_weaken: "post Q m s \<Longrightarrow> (\<And>x s'. Q x s' \<Longrightarrow> Q' x s') \<Longrightarrow> post Q' m s"
  by (simp add: post_def split: prod.splits)

lemma postD: "post Q m s \<Longrightarrow> run_state m s = (x, s') \<Longrightarrow> Q x s'"
  by (simp add: post_def)

lemma postI: "(\<And>x s'. run_state m s = (x, s') \<Longrightarrow> Q x s') \<Longrightarrow> post Q m s"
  by (simp add: post_def split: prod.splits)

subsection \<open>Relations between the states before and after\<close>

locale io_rel =
  fixes R :: "'s \<Rightarrow> 's \<Rightarrow> bool"
  assumes R_refl: "R s s"
    and R_trans: "R s t \<Longrightarrow> R t u \<Longrightarrow> R s u"
begin

lemma io_return: "state_io_rel R (return x)"
  by (simp add: state_io_rel_def R_refl)

lemma io_gets: "state_io_rel R (gets f)"
  by (simp add: state_io_rel_def R_refl)

lemma io_bind: "state_io_rel R m \<Longrightarrow> (\<And>x. state_io_rel R (f x)) \<Longrightarrow> state_io_rel R (m \<bind> f)"
  by (auto simp: state_io_rel_def split: prod.splits intro: R_trans)

lemma io_if: "(b \<Longrightarrow> state_io_rel R m) \<Longrightarrow> (\<not> b \<Longrightarrow> state_io_rel R n) \<Longrightarrow> state_io_rel R (if b then m else n)"
  by simp

lemma io_each: "(\<And>x. state_io_rel R (f x)) \<Longrightarrow> state_io_rel R (each f xs)"
  by (induction xs) (auto intro: io_return io_bind io_if)

lemmas io_rules = io_return io_gets io_bind io_if io_each

end

end
