(* ===== verification/Uart.thy ===== *)
theory Uart
  imports Gpio
begin

unbundle bit_operations_syntax

text \<open>
  \<^verbatim>\<open>drivers/uart/uart.c\<close>, the part shared by all builds: the channel table, initialisation and the blocking, polled and
  timed byte operations of the PL011, at register level. A wait on a FIFO flag may never end, so these return an option.
  The generic timer's count and frequency are CPU registers; reading them is a read at an address no device has.
\<close>

subsection \<open>Registers and configuration\<close>

definition UART0_BASE :: u32 where "UART0_BASE = 0xFE201000"
definition UART2_BASE :: u32 where "UART2_BASE = 0xFE201400"
definition UART3_BASE :: u32 where "UART3_BASE = 0xFE201600"
definition UART4_BASE :: u32 where "UART4_BASE = 0xFE201800"
definition UART5_BASE :: u32 where "UART5_BASE = 0xFE201A00"

text \<open>Offsets in \<open>PL011Regs\<close>.\<close>

definition DR :: u32 where "DR = 0x00"
definition FR :: u32 where "FR = 0x18"
definition IBRD :: u32 where "IBRD = 0x24"
definition FBRD :: u32 where "FBRD = 0x28"
definition LCRH :: u32 where "LCRH = 0x2C"
definition CR :: u32 where "CR = 0x30"
definition IMSC :: u32 where "IMSC = 0x38"
definition ICR :: u32 where "ICR = 0x44"

definition FR_TXFF :: u32 where "FR_TXFF = push_bit 5 1"
definition FR_RXFE :: u32 where "FR_RXFE = push_bit 4 1"
definition FR_BUSY :: u32 where "FR_BUSY = push_bit 3 1"
definition LCRH_WLEN_8 :: u32 where "LCRH_WLEN_8 = push_bit 5 3"
definition LCRH_FEN :: u32 where "LCRH_FEN = push_bit 4 1"
definition CR_RXE :: u32 where "CR_RXE = push_bit 9 1"
definition CR_TXE :: u32 where "CR_TXE = push_bit 8 1"
definition CR_UARTEN :: u32 where "CR_UARTEN = push_bit 0 1"
definition ICR_ALL :: u32 where "ICR_ALL = 0x7FF"
definition UART_PIN_NONE :: u8 where "UART_PIN_NONE = 0xFF"
definition UART_NUM_CHANNELS :: u8 where "UART_NUM_CHANNELS = 6"
definition UART_CHANNEL_PRINT :: u8 where "UART_CHANNEL_PRINT = 0"

definition CNTFRQ :: u32 where "CNTFRQ = 0xFFFFFFF0"
definition CNTPCT_LO :: u32 where "CNTPCT_LO = 0xFFFFFFF4"
definition CNTPCT_HI :: u32 where "CNTPCT_HI = 0xFFFFFFF8"

lemmas uart_defs = UART0_BASE_def UART2_BASE_def UART3_BASE_def UART4_BASE_def UART5_BASE_def DR_def FR_def IBRD_def FBRD_def LCRH_def
  CR_def IMSC_def ICR_def CNTFRQ_def CNTPCT_LO_def CNTPCT_HI_def

datatype UartBaudrate = UART_BAUDRATE_115200 | UART_BAUDRATE_921600
datatype UartMode = UART_MODE_BLOCKING | UART_MODE_BUFFERED_TASK

record UartConfig =
  tx_pin :: u8
  rx_pin :: u8
  alt_func :: GPIOFunc
  baudrate :: UartBaudrate
  uart_mode :: UartMode
  is_dma_enabled :: bool
  dma_channel :: u8
  task_stack_words :: u16
  task_priority :: u8

record uart = machine +
  s_uart_configs :: "nat \<Rightarrow> UartConfig option"

fun uart_baud_divisors :: "UartBaudrate \<Rightarrow> u32 \<times> u32" where
  "uart_baud_divisors UART_BAUDRATE_115200 = (26, 3)"
| "uart_baud_divisors UART_BAUDRATE_921600 = (3, 16)"

text \<open>\<open>uart_hw_table\<close>; the mini-UART has no PL011 registers.\<close>

definition uart_hw_table :: "nat \<Rightarrow> u32 option" where
  "uart_hw_table = (\<lambda>_. None)(0 \<mapsto> UART0_BASE, 2 \<mapsto> UART2_BASE, 3 \<mapsto> UART3_BASE, 4 \<mapsto> UART4_BASE, 5 \<mapsto> UART5_BASE)"

definition uart_channel_regs :: "u8 \<Rightarrow> u32 option" where
  "uart_channel_regs channel = (if channel \<ge> UART_NUM_CHANNELS \<or> uart_hw_table (unat channel) = None then None
     else uart_hw_table (unat channel))"

subsection \<open>Initialisation\<close>

function busy_loop :: "u32 \<Rightarrow> u32 \<Rightarrow> ('z uart_scheme, u32) state" where
  "busy_loop regs timeout = do {
     v \<leftarrow> rd (regs + FR);
     if v AND FR_BUSY \<noteq> 0 \<and> timeout > 0 then busy_loop regs (timeout - 1) else return timeout }"
  by pat_completeness auto

termination
  by (relation "measure (\<lambda>(a, c). unat c)") (auto simp: measure_unat word_neq_0_conv)

declare busy_loop.simps [simp del]

definition uart_channel_init :: "u8 \<Rightarrow> UartConfig option \<Rightarrow> ('z uart_scheme, StatusCode) state" where
  "uart_channel_init channel config = (case config of
     None \<Rightarrow> return E_INVALID_ARGS
   | Some config \<Rightarrow> (case uart_channel_regs channel of
       None \<Rightarrow> return E_NOTSUPP
     | Some regs \<Rightarrow> do {
         (if tx_pin config \<noteq> UART_PIN_NONE
          then do { gpio_set_function (ucast (tx_pin config)) (alt_func config); gpio_set_pull (tx_pin config) GPIO_PULL_NONE }
          else return ());
         (if rx_pin config \<noteq> UART_PIN_NONE
          then do { gpio_set_function (ucast (rx_pin config)) (alt_func config); gpio_set_pull (rx_pin config) GPIO_PULL_NONE }
          else return ());
         clear_bits (regs + CR) 1;
         timeout \<leftarrow> busy_loop regs 10000;
         if timeout = 0 then return E_TIMED_OUT
         else do {
           clear_bits (regs + LCRH) LCRH_FEN;
           wr (regs + ICR) ICR_ALL;
           let (ibrd, fbrd) = uart_baud_divisors (baudrate config);
           wr (regs + IBRD) ibrd;
           wr (regs + FBRD) fbrd;
           wr (regs + LCRH) (LCRH_WLEN_8 OR LCRH_FEN);
           wr (regs + CR) (CR_UARTEN OR CR_TXE OR (if rx_pin config \<noteq> UART_PIN_NONE then CR_RXE else 0));
           upd (\<lambda>s. s\<lparr>s_uart_configs := (s_uart_configs s)(unat channel \<mapsto> config)\<rparr>);
           return E_OK } }))"

definition uart_init :: "UartConfig option \<Rightarrow> ('z uart_scheme, StatusCode) state" where
  "uart_init config = uart_channel_init UART_CHANNEL_PRINT config"

subsection \<open>Bytes\<close>

partial_function (option) spin_while :: "u32 \<Rightarrow> u32 \<Rightarrow> 'z machine_scheme \<Rightarrow> 'z machine_scheme option" where
  "spin_while a flag s =
     (case run_state (rd a) s of (v, s) \<Rightarrow> if v AND flag \<noteq> 0 then spin_while a flag s else Some s)"

definition uart_channel_tx_raw :: "u8 \<Rightarrow> u8 \<Rightarrow> 'z uart_scheme \<Rightarrow> 'z uart_scheme option" where
  "uart_channel_tx_raw channel byte s = (case uart_channel_regs channel of
     None \<Rightarrow> Some s
   | Some regs \<Rightarrow> do {
       s \<leftarrow> spin_while (regs + FR) FR_TXFF s;
       Some (snd (run_state (wr (regs + DR) (ucast byte)) s)) })"

definition uart_tx_raw :: "u8 \<Rightarrow> 'z uart_scheme \<Rightarrow> 'z uart_scheme option" where
  "uart_tx_raw byte s = uart_channel_tx_raw UART_CHANNEL_PRINT byte s"

definition rx_byte :: "u32 \<Rightarrow> ('z uart_scheme, u8) state" where
  "rx_byte regs = do { v \<leftarrow> rd (regs + DR); return (ucast (v AND 0xFF)) }"

definition uart_channel_rx :: "u8 \<Rightarrow> 'z uart_scheme \<Rightarrow> (u8 \<times> 'z uart_scheme) option" where
  "uart_channel_rx channel s = (case uart_channel_regs channel of
     None \<Rightarrow> Some (0, s)
   | Some regs \<Rightarrow> do {
       s \<leftarrow> spin_while (regs + FR) FR_RXFE s;
       Some (run_state (rx_byte regs) s) })"

definition uart_rx :: "'z uart_scheme \<Rightarrow> (u8 \<times> 'z uart_scheme) option" where
  "uart_rx s = uart_channel_rx UART_CHANNEL_PRINT s"

definition uart_channel_rx_nonblocking :: "u8 \<Rightarrow> ('z uart_scheme, StatusCode + u8) state" where
  "uart_channel_rx_nonblocking channel = (case uart_channel_regs channel of
     None \<Rightarrow> return (Inl E_NOTSUPP)
   | Some regs \<Rightarrow> do {
       v \<leftarrow> rd (regs + FR);
       if v AND FR_RXFE \<noteq> 0 then return (Inl E_EMPTY)
       else do { b \<leftarrow> rx_byte regs; return (Inr b) } })"

definition uart_rx_nonblocking :: "('z uart_scheme, StatusCode + u8) state" where
  "uart_rx_nonblocking = uart_channel_rx_nonblocking UART_CHANNEL_PRINT"

definition cntpct :: "('z machine_scheme, u64) state" where
  "cntpct = do { lo \<leftarrow> rd CNTPCT_LO; hi \<leftarrow> rd CNTPCT_HI; return (push_bit 32 (ucast hi) OR ucast lo) }"

text \<open>The wait ends when a byte is there or when the counter has advanced by \<open>ticks\<close>; \<open>True\<close> is a timeout.\<close>

partial_function (option) timed_wait :: "u32 \<Rightarrow> u64 \<Rightarrow> u64 \<Rightarrow> 'z machine_scheme \<Rightarrow> (bool \<times> 'z machine_scheme) option" where
  "timed_wait a start ticks s =
     (case run_state (rd a) s of (v, s) \<Rightarrow>
        if v AND FR_RXFE \<noteq> 0 then
          (case run_state cntpct s of (now, s) \<Rightarrow>
             if now - start \<ge> ticks then Some (True, s) else timed_wait a start ticks s)
        else Some (False, s))"

definition uart_channel_rx_timed :: "u8 \<Rightarrow> u32 \<Rightarrow> 'z uart_scheme \<Rightarrow> ((StatusCode + u8) \<times> 'z uart_scheme) option" where
  "uart_channel_rx_timed channel timeout_ms s = (case uart_channel_regs channel of
     None \<Rightarrow> Some (Inl E_NOTSUPP, s)
   | Some regs \<Rightarrow>
       (case run_state (rd CNTFRQ) s of (frq, s) \<Rightarrow>
        case run_state cntpct s of (start, s) \<Rightarrow> do {
          (timeout, s) \<leftarrow> timed_wait (regs + FR) start (ucast (frq div 1000) * ucast timeout_ms) s;
          if timeout then Some (Inl E_TIMED_OUT, s)
          else (case run_state (rx_byte regs) s of (b, s) \<Rightarrow> Some (Inr b, s)) }))"

definition uart_rx_timed :: "u32 \<Rightarrow> 'z uart_scheme \<Rightarrow> ((StatusCode + u8) \<times> 'z uart_scheme) option" where
  "uart_rx_timed timeout_ms s = uart_channel_rx_timed UART_CHANNEL_PRINT timeout_ms s"

definition uart_channel_drain :: "u8 \<Rightarrow> 'z uart_scheme \<Rightarrow> 'z uart_scheme option" where
  "uart_channel_drain channel s = (case uart_channel_regs channel of
     None \<Rightarrow> Some s
   | Some regs \<Rightarrow> spin_while (regs + FR) FR_BUSY s)"

definition uart_drain :: "'z uart_scheme \<Rightarrow> 'z uart_scheme option" where
  "uart_drain s = uart_channel_drain UART_CHANNEL_PRINT s"

definition release_pins :: "u8 \<Rightarrow> ('z uart_scheme, unit) state" where
  "release_pins channel = do {
     cs \<leftarrow> gets s_uart_configs;
     case cs (unat channel) of
       None \<Rightarrow> return ()
     | Some config \<Rightarrow> do {
         gpio_set_function (ucast (tx_pin config)) GPIO_FUNC_INPUT;
         if rx_pin config \<noteq> UART_PIN_NONE then gpio_set_function (ucast (rx_pin config)) GPIO_FUNC_INPUT else return () } }"

definition uart_channel_deinit :: "u8 \<Rightarrow> 'z uart_scheme \<Rightarrow> 'z uart_scheme option" where
  "uart_channel_deinit channel s = (case uart_channel_regs channel of
     None \<Rightarrow> Some s
   | Some regs \<Rightarrow> do {
       s \<leftarrow> uart_channel_drain channel s;
       Some (snd (run_state (do {
         clear_bits (regs + CR) (CR_UARTEN OR CR_TXE OR CR_RXE);
         clear_bits (regs + LCRH) LCRH_FEN;
         wr (regs + IMSC) 0;
         wr (regs + ICR) ICR_ALL;
         release_pins channel }) s)) })"

definition uart_deinit :: "'z uart_scheme \<Rightarrow> 'z uart_scheme option" where
  "uart_deinit s = uart_channel_deinit UART_CHANNEL_PRINT s"

end
