(* ===== verification/Emmc.thy ===== *)
theory Emmc
  imports Uart Crc
begin

unbundle bit_operations_syntax

text \<open>
  \<^verbatim>\<open>drivers/emmc/emmc.c\<close> and \<^verbatim>\<open>emmc.h\<close>: the EMMC2 host controller at register level. Every volatile access of the driver is
  one \<open>rd\<close> or \<open>wr\<close>, also the reads made only to print a diagnostic; the text printed and the pure delays \<open>emmc_delay_us\<close>
  are left out. A buffer is the list of its 32-bit words, passed in and returned; \<open>dma\<close> is what the controller leaves in a
  read buffer after a transfer it runs by itself. The state monad makes every operation total: the polling loops count
  their timeout down as in the code, with 32-bit wrap-around, and their termination is proved here.
\<close>

subsection \<open>Layout of the card\<close>

definition SECTOR_SIZE :: u32 where "SECTOR_SIZE = 512"
definition BYTES_TO_SECTORS :: "u32 \<Rightarrow> u32" where "BYTES_TO_SECTORS x = (x + SECTOR_SIZE - 1) div SECTOR_SIZE"
definition EMMC_FW_BASE :: u32 where "EMMC_FW_BASE = 1064960"
definition EMMC_SECTOR_BOOTLOADER :: u32 where "EMMC_SECTOR_BOOTLOADER = EMMC_FW_BASE + 0"
definition EMMC_SECTOR_METADATA :: u32 where "EMMC_SECTOR_METADATA = EMMC_FW_BASE + 1024"
definition EMMC_SECTOR_APP_A :: u32 where "EMMC_SECTOR_APP_A = EMMC_FW_BASE + 2048"
definition EMMC_SECTOR_APP_B :: u32 where "EMMC_SECTOR_APP_B = EMMC_FW_BASE + 18432"
definition EMMC_FIRMWARE_FLOOR :: u32 where "EMMC_FIRMWARE_FLOOR = EMMC_SECTOR_BOOTLOADER"
definition EMMC_SECTOR_SIZE_APP :: u32 where "EMMC_SECTOR_SIZE_APP = 16384"
definition APP_SLOT_A :: u32 where "APP_SLOT_A = 0xAAAAAAAA"
definition APP_SLOT_B :: u32 where "APP_SLOT_B = 0xBBBBBBBB"

definition APP_SLOT_TO_SECTOR :: "u32 \<Rightarrow> u32" where
  "APP_SLOT_TO_SECTOR slot = (if slot = APP_SLOT_B then EMMC_SECTOR_APP_B else EMMC_SECTOR_APP_A)"

definition APP_SLOT_OTHER :: "u32 \<Rightarrow> u32" where
  "APP_SLOT_OTHER slot = (if slot = APP_SLOT_B then APP_SLOT_A else APP_SLOT_B)"

lemmas layout_defs = SECTOR_SIZE_def EMMC_FW_BASE_def EMMC_SECTOR_BOOTLOADER_def EMMC_SECTOR_METADATA_def EMMC_SECTOR_APP_A_def
  EMMC_SECTOR_APP_B_def EMMC_FIRMWARE_FLOOR_def EMMC_SECTOR_SIZE_APP_def APP_SLOT_A_def APP_SLOT_B_def

subsection \<open>Registers\<close>

definition EMMC2_BASE :: u32 where "EMMC2_BASE = 0xFE340000"
definition BLKSIZECNT :: u32 where "BLKSIZECNT = EMMC2_BASE + 0x04"
definition ARG1 :: u32 where "ARG1 = EMMC2_BASE + 0x08"
definition CMDTM :: u32 where "CMDTM = EMMC2_BASE + 0x0C"
definition RESP0 :: u32 where "RESP0 = EMMC2_BASE + 0x10"
definition DATA :: u32 where "DATA = EMMC2_BASE + 0x20"
definition STATUS :: u32 where "STATUS = EMMC2_BASE + 0x24"
definition CONTROL0 :: u32 where "CONTROL0 = EMMC2_BASE + 0x28"
definition CONTROL1 :: u32 where "CONTROL1 = EMMC2_BASE + 0x2C"
definition INTERRUPT :: u32 where "INTERRUPT = EMMC2_BASE + 0x30"
definition IRPT_MASK :: u32 where "IRPT_MASK = EMMC2_BASE + 0x34"
definition IRPT_EN :: u32 where "IRPT_EN = EMMC2_BASE + 0x38"
definition CAPABILITIES0 :: u32 where "CAPABILITIES0 = EMMC2_BASE + 0x40"
definition ADMA_ERROR :: u32 where "ADMA_ERROR = EMMC2_BASE + 0x54"
definition ADMA_ADDRESS :: u32 where "ADMA_ADDRESS = EMMC2_BASE + 0x58"

lemmas reg_defs = EMMC2_BASE_def BLKSIZECNT_def ARG1_def CMDTM_def RESP0_def DATA_def STATUS_def CONTROL0_def CONTROL1_def
  INTERRUPT_def IRPT_MASK_def IRPT_EN_def CAPABILITIES0_def ADMA_ERROR_def ADMA_ADDRESS_def

definition CTRL1_CLK_INTLEN :: u32 where "CTRL1_CLK_INTLEN = push_bit 0 1"
definition CTRL1_CLK_STABLE :: u32 where "CTRL1_CLK_STABLE = push_bit 1 1"
definition CTRL1_CLK_EN :: u32 where "CTRL1_CLK_EN = push_bit 2 1"
definition CTRL1_DATA_TOUNIT :: u32 where "CTRL1_DATA_TOUNIT = push_bit 16 0xF"
definition CTRL1_SRST_HC :: u32 where "CTRL1_SRST_HC = push_bit 24 1"
definition CTRL1_SRST_CMD :: u32 where "CTRL1_SRST_CMD = push_bit 25 1"
definition CTRL1_SRST_DATA :: u32 where "CTRL1_SRST_DATA = push_bit 26 1"
definition STATUS_CMD_INHIBIT :: u32 where "STATUS_CMD_INHIBIT = push_bit 0 1"
definition STATUS_DAT_INHIBIT :: u32 where "STATUS_DAT_INHIBIT = push_bit 1 1"
definition STATUS_DAT_ACTIVE :: u32 where "STATUS_DAT_ACTIVE = push_bit 2 1"
definition INT_CMD_DONE :: u32 where "INT_CMD_DONE = push_bit 0 1"
definition INT_DATA_DONE :: u32 where "INT_DATA_DONE = push_bit 1 1"
definition INT_WRITE_RDY :: u32 where "INT_WRITE_RDY = push_bit 4 1"
definition INT_READ_RDY :: u32 where "INT_READ_RDY = push_bit 5 1"
definition INT_ERR :: u32 where "INT_ERR = push_bit 15 1"
definition INT_CTO_ERR :: u32 where "INT_CTO_ERR = push_bit 16 1"
definition INT_CCRC_ERR :: u32 where "INT_CCRC_ERR = push_bit 17 1"
definition INT_CEND_ERR :: u32 where "INT_CEND_ERR = push_bit 18 1"
definition INT_CBAD_ERR :: u32 where "INT_CBAD_ERR = push_bit 19 1"
definition INT_DTO_ERR :: u32 where "INT_DTO_ERR = push_bit 20 1"
definition INT_DCRC_ERR :: u32 where "INT_DCRC_ERR = push_bit 21 1"
definition INT_DEND_ERR :: u32 where "INT_DEND_ERR = push_bit 22 1"
definition INT_ACMD_ERR :: u32 where "INT_ACMD_ERR = push_bit 24 1"
definition INT_ADMA_ERR :: u32 where "INT_ADMA_ERR = push_bit 25 1"

definition INT_ERROR_MASK :: u32 where
  "INT_ERROR_MASK = INT_CTO_ERR OR INT_CCRC_ERR OR INT_CEND_ERR OR INT_CBAD_ERR OR INT_DTO_ERR OR INT_DCRC_ERR OR
     INT_DEND_ERR OR INT_ACMD_ERR OR INT_ADMA_ERR OR INT_ERR"

definition CMD_INDEX :: "u32 \<Rightarrow> u32" where "CMD_INDEX x = push_bit 24 x"
definition CMD_ISDATA :: u32 where "CMD_ISDATA = push_bit 21 1"
definition CMD_IXCHK_EN :: u32 where "CMD_IXCHK_EN = push_bit 20 1"
definition CMD_CRCCHK_EN :: u32 where "CMD_CRCCHK_EN = push_bit 19 1"
definition CMD_RESP_NONE :: u32 where "CMD_RESP_NONE = push_bit 16 0"
definition CMD_RESP_136 :: u32 where "CMD_RESP_136 = push_bit 16 1"
definition CMD_RESP_48 :: u32 where "CMD_RESP_48 = push_bit 16 2"
definition CMD_RESP_48B :: u32 where "CMD_RESP_48B = push_bit 16 3"
definition TM_MULTI_BLOCK :: u32 where "TM_MULTI_BLOCK = push_bit 5 1"
definition TM_DAT_DIR_RD :: u32 where "TM_DAT_DIR_RD = push_bit 4 1"
definition TM_AUTO_CMD12 :: u32 where "TM_AUTO_CMD12 = push_bit 2 1"
definition TM_BLKCNT_EN :: u32 where "TM_BLKCNT_EN = push_bit 1 1"
definition TM_DMA_EN :: u32 where "TM_DMA_EN = push_bit 0 1"
definition CTRL0_4BIT :: u32 where "CTRL0_4BIT = push_bit 1 1"
definition CTRL0_HS_EN :: u32 where "CTRL0_HS_EN = push_bit 2 1"
definition CTRL0_8BIT :: u32 where "CTRL0_8BIT = push_bit 5 1"
definition CTRL0_DMA_SELECT_MASK :: u32 where "CTRL0_DMA_SELECT_MASK = push_bit 3 3"
definition CTRL0_DMA_SELECT_ADMA2 :: u32 where "CTRL0_DMA_SELECT_ADMA2 = push_bit 3 2"
definition CAP0_ADMA2_SUPPORT :: u32 where "CAP0_ADMA2_SUPPORT = push_bit 19 1"
definition ADMA2_DESC_VALID :: u32 where "ADMA2_DESC_VALID = push_bit 0 1"
definition ADMA2_DESC_END :: u32 where "ADMA2_DESC_END = push_bit 1 1"
definition ADMA2_DESC_INT :: u32 where "ADMA2_DESC_INT = push_bit 2 1"
definition ADMA2_DESC_ACT_TRAN :: u32 where "ADMA2_DESC_ACT_TRAN = push_bit 4 2"

definition CMD0 :: u32 where "CMD0 = CMD_INDEX 0 OR CMD_RESP_NONE"
definition CMD1 :: u32 where "CMD1 = CMD_INDEX 1 OR CMD_RESP_48"
definition CMD2 :: u32 where "CMD2 = CMD_INDEX 2 OR CMD_RESP_136 OR CMD_CRCCHK_EN"
definition CMD3 :: u32 where "CMD3 = CMD_INDEX 3 OR CMD_RESP_48 OR CMD_CRCCHK_EN OR CMD_IXCHK_EN"
definition CMD6_SWITCH :: u32 where "CMD6_SWITCH = CMD_INDEX 6 OR CMD_RESP_48B OR CMD_CRCCHK_EN OR CMD_IXCHK_EN"
definition CMD7 :: u32 where "CMD7 = CMD_INDEX 7 OR CMD_RESP_48B OR CMD_CRCCHK_EN OR CMD_IXCHK_EN"

definition CMD8 :: u32 where
  "CMD8 = CMD_INDEX 8 OR CMD_RESP_48 OR CMD_CRCCHK_EN OR CMD_IXCHK_EN OR CMD_ISDATA OR TM_DAT_DIR_RD"

definition CMD17 :: u32 where
  "CMD17 = CMD_INDEX 17 OR CMD_RESP_48 OR CMD_CRCCHK_EN OR CMD_IXCHK_EN OR CMD_ISDATA OR TM_DAT_DIR_RD"

definition CMD18 :: u32 where
  "CMD18 = CMD_INDEX 18 OR CMD_RESP_48 OR CMD_CRCCHK_EN OR CMD_IXCHK_EN OR CMD_ISDATA OR TM_DAT_DIR_RD OR TM_MULTI_BLOCK OR
     TM_BLKCNT_EN OR TM_AUTO_CMD12"

definition CMD24 :: u32 where
  "CMD24 = CMD_INDEX 24 OR CMD_RESP_48 OR CMD_CRCCHK_EN OR CMD_IXCHK_EN OR CMD_ISDATA"

definition CMD25 :: u32 where
  "CMD25 = CMD_INDEX 25 OR CMD_RESP_48 OR CMD_CRCCHK_EN OR CMD_IXCHK_EN OR CMD_ISDATA OR TM_MULTI_BLOCK OR TM_BLKCNT_EN OR
     TM_AUTO_CMD12"

lemmas cmd_defs = CMD0_def CMD1_def CMD2_def CMD3_def CMD6_SWITCH_def CMD7_def CMD8_def CMD17_def CMD18_def CMD24_def CMD25_def
  CMD_INDEX_def CMD_ISDATA_def CMD_IXCHK_EN_def CMD_CRCCHK_EN_def CMD_RESP_NONE_def CMD_RESP_136_def CMD_RESP_48_def
  CMD_RESP_48B_def TM_MULTI_BLOCK_def TM_DAT_DIR_RD_def TM_AUTO_CMD12_def TM_BLKCNT_EN_def TM_DMA_EN_def

definition EXT_CSD_BUS_WIDTH :: u32 where "EXT_CSD_BUS_WIDTH = 183"
definition EXT_CSD_BUS_WIDTH_4BIT :: u32 where "EXT_CSD_BUS_WIDTH_4BIT = 1"
definition EXT_CSD_BUS_WIDTH_8BIT :: u32 where "EXT_CSD_BUS_WIDTH_8BIT = 2"
definition EXT_CSD_HS_TIMING :: u32 where "EXT_CSD_HS_TIMING = 185"
definition EXT_CSD_HS_TIMING_HS :: u32 where "EXT_CSD_HS_TIMING_HS = 1"
definition EXT_CSD_DEVICE_TYPE :: nat where "EXT_CSD_DEVICE_TYPE = 196"
definition EXT_CSD_SEC_COUNT :: nat where "EXT_CSD_SEC_COUNT = 212"
definition DEVICE_TYPE_HS52 :: u8 where "DEVICE_TYPE_HS52 = push_bit 1 1"

definition SWITCH_ARG :: "u32 \<Rightarrow> u32 \<Rightarrow> u32" where
  "SWITCH_ARG index val = push_bit 24 3 OR push_bit 16 index OR push_bit 8 val"

definition EMMC2_BASE_CLOCK :: u32 where "EMMC2_BASE_CLOCK = 200000000"
definition ADMA2_MAX_CHUNK :: u32 where "ADMA2_MAX_CHUNK = 65536"
definition ADMA2_MAX_XFER_BYTES :: u32 where "ADMA2_MAX_XFER_BYTES = EMMC_SECTOR_SIZE_APP * SECTOR_SIZE"
definition ADMA2_MAX_DESCRIPTORS :: u32 where "ADMA2_MAX_DESCRIPTORS = ADMA2_MAX_XFER_BYTES div ADMA2_MAX_CHUNK + 2"

subsection \<open>State\<close>

record Adma2Desc =
  attr_len :: u32
  address :: u32

record emmc = uart +
  dma :: "access list \<Rightarrow> u32 list \<Rightarrow> u32 list"
  rca :: u32
  is_high_capacity :: bool
  s_emmc_initialized :: bool
  s_adma2_supported :: bool
  s_device_type :: u8
  s_sec_count :: u32
  s_adma2_table :: "Adma2Desc list"
  s_adma2_table_addr :: u32

subsection \<open>Waiting and commands\<close>

lemma unat_pred_pred: "c \<noteq> (1 :: u32) \<Longrightarrow> unat (c - 2) < unat (c - 1)"
proof -
  assume "c \<noteq> 1"
  then have "c - 1 \<noteq> 0" by simp
  then have "unat (c - 1 - 1) < unat (c - 1)" by (metis measure_unat word_neq_0_conv)
  then show ?thesis by simp
qed

function wait_interrupt_loop :: "u32 \<Rightarrow> u32 \<Rightarrow> ('z emmc_scheme, StatusCode) state" where
  "wait_interrupt_loop msk count = do {
     v \<leftarrow> rd INTERRUPT;
     if v AND msk = 0 then do {
       e \<leftarrow> rd INTERRUPT;
       if e AND INT_ERROR_MASK \<noteq> 0 then do { _ \<leftarrow> rd INTERRUPT; wr INTERRUPT 0xFFFFFFFF; return E_CMD }
       else if count - 1 = 0 then do { _ \<leftarrow> rd INTERRUPT; _ \<leftarrow> rd STATUS; return E_TIMED_OUT }
       else wait_interrupt_loop msk (count - 1) }
     else do {
       e \<leftarrow> rd INTERRUPT;
       if e AND INT_ERROR_MASK \<noteq> 0 then do { _ \<leftarrow> rd INTERRUPT; wr INTERRUPT 0xFFFFFFFF; return E_CMD }
       else do { wr INTERRUPT msk; return E_OK } } }"
  by pat_completeness auto

termination
  by (relation "measure (\<lambda>(m, c). unat (c - 1))") (simp_all add: unat_pred_pred)

definition emmc_wait_interrupt :: "u32 \<Rightarrow> u32 \<Rightarrow> ('z emmc_scheme, StatusCode) state" where
  "emmc_wait_interrupt msk timeout_ms = wait_interrupt_loop msk (timeout_ms * 1000)"

text \<open>\<open>poll_clear a mask count\<close> is the loop \<open>while (reg & mask) if (--count == 0) return E_TIMED_OUT\<close>.\<close>

function poll_clear :: "u32 \<Rightarrow> u32 \<Rightarrow> u32 \<Rightarrow> ('z emmc_scheme, StatusCode) state" where
  "poll_clear a msk count = do {
     v \<leftarrow> rd a;
     if v AND msk = 0 then return E_OK
     else if count - 1 = 0 then return E_TIMED_OUT
     else poll_clear a msk (count - 1) }"
  by pat_completeness auto

termination
  by (relation "measure (\<lambda>(a, m, c). unat (c - 1))") (simp_all add: unat_pred_pred)

function poll_set :: "u32 \<Rightarrow> u32 \<Rightarrow> u32 \<Rightarrow> ('z emmc_scheme, StatusCode) state" where
  "poll_set a msk count = do {
     v \<leftarrow> rd a;
     if v AND msk \<noteq> 0 then return E_OK
     else if count - 1 = 0 then return E_TIMED_OUT
     else poll_set a msk (count - 1) }"
  by pat_completeness auto

termination
  by (relation "measure (\<lambda>(a, m, c). unat (c - 1))") (simp_all add: unat_pred_pred)

declare wait_interrupt_loop.simps [simp del] poll_clear.simps [simp del] poll_set.simps [simp del]

definition emmc_wait_status :: "u32 \<Rightarrow> u32 \<Rightarrow> ('z emmc_scheme, StatusCode) state" where
  "emmc_wait_status msk timeout_ms = poll_clear STATUS msk (timeout_ms * 1000)"

definition emmc_send_command :: "u32 \<Rightarrow> u32 \<Rightarrow> ('z emmc_scheme, StatusCode) state" where
  "emmc_send_command cmd arg = do {
     r \<leftarrow> emmc_wait_status STATUS_CMD_INHIBIT 2000;
     if r \<noteq> E_OK then do { _ \<leftarrow> rd STATUS; return E_TIMED_OUT }
     else do {
       r \<leftarrow> (if cmd AND push_bit 16 3 = CMD_RESP_48B then emmc_wait_status STATUS_DAT_INHIBIT 2000 else return E_OK);
       if r \<noteq> E_OK then do { _ \<leftarrow> rd STATUS; return E_TIMED_OUT }
       else do {
         wr INTERRUPT 0xFFFFFFFF;
         wr ARG1 arg;
         wr CMDTM cmd;
         if cmd AND push_bit 16 3 = CMD_RESP_NONE then do {
           wr INTERRUPT 0xFFFFFFFF;
           emmc_wait_status STATUS_CMD_INHIBIT 100 }
         else do {
           ret \<leftarrow> emmc_wait_interrupt INT_CMD_DONE 2000;
           if ret \<noteq> E_OK then return ret
           else if cmd AND push_bit 16 3 = CMD_RESP_48B then do {
             r \<leftarrow> emmc_wait_status STATUS_DAT_ACTIVE 5000;
             if r \<noteq> E_OK then do { _ \<leftarrow> rd STATUS; return E_TIMED_OUT } else return E_OK }
           else return E_OK } } } }"

definition emmc_set_clock :: "u32 \<Rightarrow> ('z emmc_scheme, StatusCode) state" where
  "emmc_set_clock freq = do {
     r \<leftarrow> emmc_wait_status (STATUS_CMD_INHIBIT OR STATUS_DAT_INHIBIT) 2000;
     if r \<noteq> E_OK then return E_TIMED_OUT
     else do {
       clear_bits CONTROL1 CTRL1_CLK_EN;
       let d0 = EMMC2_BASE_CLOCK div (2 * freq);
       let d1 = (if d0 < 1 then 1 else d0);
       let d = (if d1 > 0x3FF then 0x3FF else d1);
       ctrl1 \<leftarrow> rd CONTROL1;
       let ctrl1 = ctrl1 AND NOT 0xFFE0;
       let ctrl1 = ctrl1 OR push_bit 8 (d AND 0xFF) OR push_bit 6 (drop_bit 8 d AND 0x3) OR CTRL1_CLK_INTLEN;
       wr CONTROL1 ctrl1;
       r \<leftarrow> poll_set CONTROL1 CTRL1_CLK_STABLE 10000;
       if r \<noteq> E_OK then return E_TIMED_OUT
       else do { set_bits CONTROL1 CTRL1_CLK_EN; return E_OK } } }"

fun read_words :: "nat \<Rightarrow> ('z emmc_scheme, u32 list) state" where
  "read_words 0 = return []"
| "read_words (Suc n) = do { w \<leftarrow> rd DATA; ws \<leftarrow> read_words n; return (w # ws) }"

fun write_words :: "u32 list \<Rightarrow> ('z emmc_scheme, unit) state" where
  "write_words [] = return ()"
| "write_words (w # ws) = do { wr DATA w; write_words ws }"

text \<open>The words of a buffer in memory order, as bytes.\<close>

definition word_bytes :: "u32 \<Rightarrow> u8 list" where
  "word_bytes w = [ucast w, ucast (drop_bit 8 w), ucast (drop_bit 16 w), ucast (drop_bit 24 w)]"

definition bytes_of :: "u32 list \<Rightarrow> u8 list" where
  "bytes_of ws = concat (map word_bytes ws)"

definition emmc_read_ext_csd :: "('z emmc_scheme, StatusCode \<times> u32 list) state" where
  "emmc_read_ext_csd = do {
     wr BLKSIZECNT (push_bit 16 1 OR SECTOR_SIZE);
     r \<leftarrow> emmc_send_command CMD8 0;
     if r \<noteq> E_OK then return (E_CMD, [])
     else do {
       r \<leftarrow> emmc_wait_interrupt INT_READ_RDY 2000;
       if r \<noteq> E_OK then return (E_TIMED_OUT, [])
       else do {
         ws \<leftarrow> read_words (unat (SECTOR_SIZE div 4));
         r \<leftarrow> emmc_wait_interrupt INT_DATA_DONE 2000;
         return (r, ws) } } }"

definition sec_count_of :: "u8 list \<Rightarrow> u32" where
  "sec_count_of ext_csd = ucast (ext_csd ! EXT_CSD_SEC_COUNT) OR push_bit 8 (ucast (ext_csd ! (EXT_CSD_SEC_COUNT + 1))) OR
     push_bit 16 (ucast (ext_csd ! (EXT_CSD_SEC_COUNT + 2))) OR push_bit 24 (ucast (ext_csd ! (EXT_CSD_SEC_COUNT + 3)))"

definition emmc_probe_capabilities :: "('z emmc_scheme, unit) state" where
  "emmc_probe_capabilities = do {
     cap0 \<leftarrow> rd CAPABILITIES0;
     upd (s_adma2_supported_update (\<lambda>_. cap0 AND CAP0_ADMA2_SUPPORT \<noteq> 0));
     (r, ws) \<leftarrow> emmc_read_ext_csd;
     if r = E_OK then do {
       upd (s_device_type_update (\<lambda>_. bytes_of ws ! EXT_CSD_DEVICE_TYPE));
       upd (s_sec_count_update (\<lambda>_. sec_count_of (bytes_of ws))) }
     else return () }"

definition emmc_bus_ok :: "('z emmc_scheme, bool) state" where
  "emmc_bus_ok = do {
     (r, ws) \<leftarrow> emmc_read_ext_csd;
     if r \<noteq> E_OK then return False
     else do {
       n \<leftarrow> gets s_sec_count;
       return (n \<noteq> 0 \<and> sec_count_of (bytes_of ws) = n) } }"

definition emmc_negotiate_speed :: "('z emmc_scheme, unit) state" where
  "emmc_negotiate_speed = do {
     dt \<leftarrow> gets s_device_type;
     (if dt AND DEVICE_TYPE_HS52 \<noteq> 0 then do {
        r \<leftarrow> emmc_send_command CMD6_SWITCH (SWITCH_ARG EXT_CSD_HS_TIMING EXT_CSD_HS_TIMING_HS);
        if r = E_OK then do {
          set_bits CONTROL0 CTRL0_HS_EN;
          r \<leftarrow> emmc_set_clock 50000000;
          ok \<leftarrow> (if r = E_OK then emmc_bus_ok else return False);
          if ok then return ()
          else do {
            _ \<leftarrow> emmc_set_clock 25000000;
            clear_bits CONTROL0 CTRL0_HS_EN;
            _ \<leftarrow> emmc_send_command CMD6_SWITCH (SWITCH_ARG EXT_CSD_HS_TIMING 0);
            return () } }
        else return () }
      else return ());
     r \<leftarrow> emmc_send_command CMD6_SWITCH (SWITCH_ARG EXT_CSD_BUS_WIDTH EXT_CSD_BUS_WIDTH_8BIT);
     if r = E_OK then do {
       c \<leftarrow> rd CONTROL0;
       wr CONTROL0 (c AND NOT CTRL0_4BIT OR CTRL0_8BIT);
       ok \<leftarrow> emmc_bus_ok;
       if ok then return ()
       else do {
         c \<leftarrow> rd CONTROL0;
         wr CONTROL0 (c AND NOT CTRL0_8BIT OR CTRL0_4BIT);
         _ \<leftarrow> emmc_send_command CMD6_SWITCH (SWITCH_ARG EXT_CSD_BUS_WIDTH EXT_CSD_BUS_WIDTH_4BIT);
         return () } }
     else return () }"

subsection \<open>Initialisation\<close>

definition emmc_already_running :: "('z emmc_scheme, bool) state" where
  "emmc_already_running = do {
     c \<leftarrow> rd CONTROL1;
     return (c AND (CTRL1_CLK_EN OR CTRL1_CLK_STABLE) = (CTRL1_CLK_EN OR CTRL1_CLK_STABLE)) }"

definition emmc_host_reset :: "('z emmc_scheme, StatusCode) state" where
  "emmc_host_reset = do {
     wr CONTROL0 0;
     wr CONTROL1 0;
     set_bits CONTROL1 (CTRL1_SRST_HC OR CTRL1_SRST_CMD OR CTRL1_SRST_DATA);
     r \<leftarrow> poll_clear CONTROL1 (CTRL1_SRST_HC OR CTRL1_SRST_CMD OR CTRL1_SRST_DATA) 10000;
     if r \<noteq> E_OK then return E_TIMED_OUT
     else do {
       c \<leftarrow> rd CONTROL1;
       wr CONTROL1 (c AND NOT CTRL1_DATA_TOUNIT OR push_bit 16 0xE);
       wr IRPT_MASK 0xFFFFFFFF;
       wr IRPT_EN 0;
       return E_OK } }"

definition emmc_power_on :: "('z emmc_scheme, StatusCode) state" where
  "emmc_power_on = do {
     r \<leftarrow> emmc_set_clock 400000;
     if r \<noteq> E_OK then return E_TIMED_OUT
     else do { set_bits CONTROL0 (push_bit 9 7 OR push_bit 8 1); return E_OK } }"

text \<open>The \<open>do \<dots> while\<close> loop of CMD1; the operating conditions register when the card is ready.\<close>

function cmd1_loop :: "u32 \<Rightarrow> ('z emmc_scheme, StatusCode + u32) state" where
  "cmd1_loop count = do {
     r \<leftarrow> emmc_send_command CMD1 0x40FF8080;
     if r \<noteq> E_OK then do { _ \<leftarrow> rd INTERRUPT; return (Inl E_CMD) }
     else do {
       ocr \<leftarrow> rd RESP0;
       if count - 1 = 0 then return (Inl E_TIMED_OUT)
       else if ocr AND push_bit 31 1 = 0 then cmd1_loop (count - 1)
       else return (Inr ocr) } }"
  by pat_completeness auto

termination
  by (relation "measure (\<lambda>c. unat (c - 1))") (simp_all add: unat_pred_pred)

declare cmd1_loop.simps [simp del]

definition emmc_card_identify :: "('z emmc_scheme, StatusCode) state" where
  "emmc_card_identify = do {
     _ \<leftarrow> emmc_send_command CMD0 0;
     o1 \<leftarrow> cmd1_loop 1000;
     case o1 of
       Inl e \<Rightarrow> return e
     | Inr ocr \<Rightarrow> do {
         upd (is_high_capacity_update (\<lambda>_. ocr AND push_bit 30 1 \<noteq> 0));
         r \<leftarrow> emmc_send_command CMD2 0;
         if r \<noteq> E_OK then return E_CMD
         else do {
           upd (rca_update (\<lambda>_. 1));
           n \<leftarrow> gets rca;
           r \<leftarrow> emmc_send_command CMD3 (push_bit 16 n);
           if r \<noteq> E_OK then return E_CMD
           else do {
             r \<leftarrow> emmc_send_command CMD7 (push_bit 16 n);
             if r \<noteq> E_OK then return E_CMD else return E_OK } } } }"

definition emmc_bus_baseline :: "('z emmc_scheme, StatusCode) state" where
  "emmc_bus_baseline = do {
     r \<leftarrow> emmc_send_command CMD6_SWITCH (SWITCH_ARG EXT_CSD_BUS_WIDTH EXT_CSD_BUS_WIDTH_4BIT);
     if r \<noteq> E_OK then return E_CMD
     else do {
       set_bits CONTROL0 CTRL0_4BIT;
       r \<leftarrow> emmc_set_clock 25000000;
       if r \<noteq> E_OK then return E_TIMED_OUT else return E_OK } }"

definition emmc_init :: "('z emmc_scheme, StatusCode) state" where
  "emmc_init = do {
     done \<leftarrow> gets s_emmc_initialized;
     if done then return E_OK
     else do {
       running \<leftarrow> emmc_already_running;
       if running then do {
         emmc_probe_capabilities;
         upd (s_emmc_initialized_update (\<lambda>_. True));
         return E_OK }
       else do {
         ret \<leftarrow> emmc_host_reset;
         if ret \<noteq> E_OK then return ret
         else do {
           ret \<leftarrow> emmc_power_on;
           if ret \<noteq> E_OK then return ret
           else do {
             ret \<leftarrow> emmc_card_identify;
             if ret \<noteq> E_OK then return ret
             else do {
               ret \<leftarrow> emmc_bus_baseline;
               if ret \<noteq> E_OK then return ret
               else do {
                 emmc_probe_capabilities;
                 emmc_negotiate_speed;
                 upd (s_emmc_initialized_update (\<lambda>_. True));
                 return E_OK } } } } } } }"

subsection \<open>Transfers\<close>

text \<open>The reset gives up silently after 10000 polls.\<close>

definition emmc_reset_cmd_data :: "('z emmc_scheme, unit) state" where
  "emmc_reset_cmd_data = do {
     set_bits CONTROL1 (CTRL1_SRST_CMD OR CTRL1_SRST_DATA);
     _ \<leftarrow> poll_clear CONTROL1 (CTRL1_SRST_CMD OR CTRL1_SRST_DATA) 10000;
     return () }"

definition adma2_chunk :: "u32 \<Rightarrow> u32" where
  "adma2_chunk remaining = (if remaining > ADMA2_MAX_CHUNK then ADMA2_MAX_CHUNK else remaining)"

definition adma2_len16 :: "u32 \<Rightarrow> u32" where
  "adma2_len16 chunk = (if chunk = ADMA2_MAX_CHUNK then 0 else chunk)"

lemma adma2_chunk_pos: "0 < remaining \<Longrightarrow> 0 < adma2_chunk remaining" "adma2_chunk remaining \<le> remaining"
  by (auto simp: adma2_chunk_def ADMA2_MAX_CHUNK_def)

lemma adma2_chunk_less: "0 < r \<Longrightarrow> unat (r - adma2_chunk r) < unat r"
  using adma2_chunk_pos [of r] by (simp add: unat_sub word_le_nat_alt word_less_nat_alt)

text \<open>The descriptors are numbered by \<open>n\<close>, an index into the static table; 0 is returned when the table is too small.\<close>

function adma2_loop :: "u32 \<Rightarrow> u32 \<Rightarrow> u32 \<Rightarrow> Adma2Desc list \<Rightarrow> u32 \<times> Adma2Desc list" where
  "adma2_loop addr remaining n table =
     (if remaining > 0 then
        if n \<ge> ADMA2_MAX_DESCRIPTORS then (0, table)
        else
          let chunk = adma2_chunk remaining
          in adma2_loop (addr + chunk) (remaining - chunk) (n + 1)
               (table[unat n := \<lparr>attr_len = push_bit 16 (adma2_len16 chunk) OR ADMA2_DESC_VALID OR ADMA2_DESC_ACT_TRAN,
                                 address = addr\<rparr>])
      else
        (n, table[unat (n - 1) := (table ! unat (n - 1))\<lparr>attr_len := attr_len (table ! unat (n - 1)) OR ADMA2_DESC_END OR
                                    ADMA2_DESC_INT\<rparr>]))"
  by pat_completeness auto

termination
  by (relation "measure (\<lambda>(a, r, n, t). unat r)") (simp_all add: adma2_chunk_less)

declare adma2_loop.simps [simp del]

definition emmc_build_adma2_table :: "u32 \<Rightarrow> u32 \<Rightarrow> ('z emmc_scheme, u32) state" where
  "emmc_build_adma2_table addr total_bytes = do {
     table \<leftarrow> gets s_adma2_table;
     let (n, table') = adma2_loop addr total_bytes 0 table;
     upd (s_adma2_table_update (\<lambda>_. table'));
     return n }"

definition emmc_xfer_adma2 :: "u32 \<Rightarrow> u32 \<Rightarrow> u32 \<Rightarrow> u32 list \<Rightarrow> u32 \<Rightarrow> bool \<Rightarrow> ('z emmc_scheme, StatusCode \<times> u32 list) state" where
  "emmc_xfer_adma2 cmd sector addr buf count is_write = do {
     n \<leftarrow> emmc_build_adma2_table addr (count * SECTOR_SIZE);
     if n = 0 then return (E_INVALID_ARGS, buf)
     else do {
       c \<leftarrow> rd CONTROL0;
       wr CONTROL0 (c AND NOT CTRL0_DMA_SELECT_MASK OR CTRL0_DMA_SELECT_ADMA2);
       ta \<leftarrow> gets s_adma2_table_addr;
       wr ADMA_ADDRESS ta;
       hc \<leftarrow> gets is_high_capacity;
       let arg = (if hc then sector else sector * SECTOR_SIZE);
       wr BLKSIZECNT (push_bit 16 count OR SECTOR_SIZE);
       r \<leftarrow> emmc_send_command (cmd OR TM_DMA_EN) arg;
       if r \<noteq> E_OK then do { b \<leftarrow> gets (\<lambda>s. if is_write then buf else dma s (trace s) buf); return (E_CMD, b) }
       else do {
         st \<leftarrow> emmc_wait_interrupt INT_DATA_DONE (2000 + count * 2);
         b \<leftarrow> gets (\<lambda>s. if is_write then buf else dma s (trace s) buf);
         if st \<noteq> E_OK then do { _ \<leftarrow> rd ADMA_ERROR; return (st, b) }
         else if is_write then do {
           r \<leftarrow> emmc_wait_status STATUS_DAT_ACTIVE 5000;
           if r \<noteq> E_OK then return (E_TIMED_OUT, b) else return (E_OK, b) }
         else return (E_OK, b) } } }"

text \<open>The programmed-I/O loops over the blocks.\<close>

fun pio_read :: "nat \<Rightarrow> ('z emmc_scheme, StatusCode \<times> u32 list) state" where
  "pio_read 0 = return (E_OK, [])"
| "pio_read (Suc n) = do {
     r \<leftarrow> emmc_wait_interrupt INT_READ_RDY 2000;
     if r \<noteq> E_OK then return (E_TIMED_OUT, [])
     else do {
       ws \<leftarrow> read_words (unat (SECTOR_SIZE div 4));
       (r, rest) \<leftarrow> pio_read n;
       return (r, ws @ rest) } }"

fun pio_write :: "nat \<Rightarrow> u32 list \<Rightarrow> ('z emmc_scheme, StatusCode) state" where
  "pio_write 0 words = return E_OK"
| "pio_write (Suc n) words = do {
     r \<leftarrow> emmc_wait_interrupt INT_WRITE_RDY 2000;
     if r \<noteq> E_OK then return E_TIMED_OUT
     else do {
       write_words (take (unat (SECTOR_SIZE div 4)) words);
       pio_write n (drop (unat (SECTOR_SIZE div 4)) words) } }"

definition emmc_read_blocks :: "u32 \<Rightarrow> u32 \<Rightarrow> u32 list \<Rightarrow> u32 \<Rightarrow> ('z emmc_scheme, StatusCode \<times> u32 list) state" where
  "emmc_read_blocks sector addr buf count = (
     if count = 0 then return (E_OK, buf)
     else do {
       adma \<leftarrow> gets s_adma2_supported;
       (r, buf) \<leftarrow> (if adma \<and> count > 1 then do {
                      (r, buf) \<leftarrow> emmc_xfer_adma2 CMD18 sector addr buf count False;
                      if r = E_OK then return (r, buf) else do { emmc_reset_cmd_data; return (r, buf) } }
                    else return (E_CMD, buf));
       if r = E_OK then return (E_OK, buf)
       else do {
         hc \<leftarrow> gets is_high_capacity;
         let arg = (if hc then sector else sector * SECTOR_SIZE);
         wr BLKSIZECNT (if count = 1 then push_bit 16 1 OR SECTOR_SIZE else push_bit 16 count OR SECTOR_SIZE);
         r \<leftarrow> emmc_send_command (if count = 1 then CMD17 else CMD18) arg;
         if r \<noteq> E_OK then return (E_CMD, buf)
         else do {
           (r, ws) \<leftarrow> pio_read (unat count);
           let buf = ws @ drop (length ws) buf;
           if r \<noteq> E_OK then return (E_TIMED_OUT, buf)
           else do {
             r \<leftarrow> emmc_wait_interrupt INT_DATA_DONE 2000;
             return (if r \<noteq> E_OK then E_TIMED_OUT else E_OK, buf) } } } })"

definition emmc_write_blocks :: "u32 \<Rightarrow> u32 \<Rightarrow> u32 list \<Rightarrow> u32 \<Rightarrow> ('z emmc_scheme, StatusCode) state" where
  "emmc_write_blocks sector addr buf count = (
     if count = 0 then return E_OK
     else if sector < EMMC_FIRMWARE_FLOOR then return E_INVALID_ARGS
     else do {
       adma \<leftarrow> gets s_adma2_supported;
       r \<leftarrow> (if adma \<and> count > 1 then do {
               (r, _) \<leftarrow> emmc_xfer_adma2 CMD25 sector addr buf count True;
               if r = E_OK then return r else do { emmc_reset_cmd_data; return r } }
             else return E_CMD);
       if r = E_OK then return E_OK
       else do {
         hc \<leftarrow> gets is_high_capacity;
         let arg = (if hc then sector else sector * SECTOR_SIZE);
         wr BLKSIZECNT (if count = 1 then push_bit 16 1 OR SECTOR_SIZE else push_bit 16 count OR SECTOR_SIZE);
         r \<leftarrow> emmc_send_command (if count = 1 then CMD24 else CMD25) arg;
         if r \<noteq> E_OK then return E_CMD
         else do {
           r \<leftarrow> pio_write (unat count) buf;
           if r \<noteq> E_OK then return E_TIMED_OUT
           else do {
             r \<leftarrow> emmc_wait_interrupt INT_DATA_DONE 5000;
             if r \<noteq> E_OK then return E_TIMED_OUT
             else do {
               r \<leftarrow> emmc_wait_status STATUS_DAT_ACTIVE 5000;
               if r \<noteq> E_OK then return E_TIMED_OUT else return E_OK } } } } })"

end
