(* ===== verification/Emmc_Props.thy ===== *)
theory Emmc_Props
  imports Emmc
begin

unbundle bit_operations_syntax

text \<open>
  What the card sees of the driver, and what follows for its operations. \<open>xfers\<close> reads a trace as a sequence of
  commands, newest first, each with its argument and the words moved over the data port since. The theorems hold for
  every controller and every card, also for one that answers arbitrarily.
\<close>

subsection \<open>Commands and data on the bus\<close>

fun arg_of :: "access list \<Rightarrow> u32" where
  "arg_of [] = 0"
| "arg_of (Wr a v # l) = (if a = ARG1 then v else arg_of l)"
| "arg_of (Rd a v # l) = arg_of l"

text \<open>A store is a command with the index of CMD24 or CMD25. A word written to the data port belongs to a store, a word read from it to
  any other command.\<close>

definition is_store :: "u32 \<Rightarrow> bool" where
  "is_store c \<longleftrightarrow> drop_bit 24 c = 24 \<or> drop_bit 24 c = 25"

fun moved :: "bool \<Rightarrow> u32 \<Rightarrow> (u32 \<times> u32 \<times> u32 list) list \<Rightarrow> (u32 \<times> u32 \<times> u32 list) list" where
  "moved w v [] = []"
| "moved w v ((c, a, d) # r) = (c, a, if w = is_store c then d @ [v] else d) # r"

fun xfers :: "access list \<Rightarrow> (u32 \<times> u32 \<times> u32 list) list" where
  "xfers [] = []"
| "xfers (Wr a v # l) =
     (if a = CMDTM then (v, arg_of l, []) # xfers l else if a = DATA then moved True v (xfers l) else xfers l)"
| "xfers (Rd a v # l) = (if a = DATA then moved False v (xfers l) else xfers l)"

definition stores :: "access list \<Rightarrow> (u32 \<times> u32 \<times> u32 list) list" where
  "stores t = filter (\<lambda>(c, a, d). is_store c) (xfers t)"

lemma is_store_cmds [simp]:
  "is_store CMD24" "is_store CMD25" "is_store (CMD25 OR TM_DMA_EN)" "\<not> is_store CMD17" "\<not> is_store CMD18"
  "\<not> is_store (CMD18 OR TM_DMA_EN)" "\<not> is_store CMD0" "\<not> is_store CMD1" "\<not> is_store CMD2" "\<not> is_store CMD3"
  "\<not> is_store CMD6_SWITCH" "\<not> is_store CMD7" "\<not> is_store CMD8"
  by (simp_all add: is_store_def cmd_defs push_bit_eq_mult drop_bit_eq_div)

lemma stores_moved [simp]: "filter (\<lambda>(c, a, d). is_store c) (moved False v x) = filter (\<lambda>(c, a, d). is_store c) x"
  by (cases "(False, v, x)" rule: moved.cases) simp_all

definition commands :: "access list \<Rightarrow> (u32 \<times> u32) list" where
  "commands t = map (\<lambda>(c, a, d). (c, a)) (xfers t)"

lemma reg_neq [simp]:
  "INTERRUPT \<noteq> CMDTM" "INTERRUPT \<noteq> DATA" "STATUS \<noteq> DATA" "STATUS \<noteq> CMDTM" "ARG1 \<noteq> CMDTM" "ARG1 \<noteq> DATA" "CMDTM \<noteq> ARG1"
  "CMDTM \<noteq> DATA" "DATA \<noteq> CMDTM" "BLKSIZECNT \<noteq> CMDTM" "BLKSIZECNT \<noteq> DATA" "CONTROL0 \<noteq> CMDTM" "CONTROL0 \<noteq> DATA"
  "CONTROL1 \<noteq> CMDTM" "CONTROL1 \<noteq> DATA" "ADMA_ADDRESS \<noteq> CMDTM" "ADMA_ADDRESS \<noteq> DATA" "ADMA_ERROR \<noteq> DATA"
  "RESP0 \<noteq> DATA" "CAPABILITIES0 \<noteq> DATA" "IRPT_MASK \<noteq> CMDTM" "IRPT_MASK \<noteq> DATA" "IRPT_EN \<noteq> CMDTM" "IRPT_EN \<noteq> DATA"
  "ADMA_ERROR \<noteq> CMDTM" "RESP0 \<noteq> CMDTM" "CAPABILITIES0 \<noteq> CMDTM"
  by (simp_all add: reg_defs)

lemma map_moved [simp]: "map (\<lambda>(c, a, d). (c, a)) (moved w v x) = map (\<lambda>(c, a, d). (c, a)) x"
  by (cases "(w, v, x)" rule: moved.cases) simp_all

subsection \<open>Two relations between the states before and after\<close>

text \<open>\<open>quiet\<close>: only register accesses, no command and no data. \<open>issues P\<close>: only register accesses and the descriptor table,
  and every command satisfies \<open>P\<close>, which may depend on the addressing mode of the card.\<close>

definition quiet :: "'z emmc_scheme \<Rightarrow> 'z emmc_scheme \<Rightarrow> bool" where
  "quiet s s' \<longleftrightarrow> (\<exists>t. s' = s\<lparr>trace := t @ trace s\<rparr> \<and> xfers (t @ trace s) = xfers (trace s))"

definition issues :: "(bool \<Rightarrow> u32 \<Rightarrow> u32 \<Rightarrow> bool) \<Rightarrow> 'z emmc_scheme \<Rightarrow> 'z emmc_scheme \<Rightarrow> bool" where
  "issues P s s' \<longleftrightarrow> (\<exists>t tb new. s' = s\<lparr>trace := t @ trace s, s_adma2_table := tb\<rparr> \<and>
     commands (t @ trace s) = new @ commands (trace s) \<and> (\<forall>(c, a)\<in>set new. P (is_high_capacity s) c a))"

lemma quiet_trans: "quiet s t \<Longrightarrow> quiet t u \<Longrightarrow> quiet s u"
  unfolding quiet_def by (elim exE conjE, rule exI [of _ "_ @ _"]) auto

lemma issues_trans: "issues P s t \<Longrightarrow> issues P t u \<Longrightarrow> issues P s u"
  unfolding issues_def
proof (elim exE conjE)
  fix t1 tb1 new1 t2 tb2 new2
  assume "t = s\<lparr>trace := t1 @ trace s, s_adma2_table := tb1\<rparr>"
    "commands (t1 @ trace s) = new1 @ commands (trace s)" "\<forall>(c, a)\<in>set new1. P (is_high_capacity s) c a"
    "u = t\<lparr>trace := t2 @ trace t, s_adma2_table := tb2\<rparr>"
    "commands (t2 @ trace t) = new2 @ commands (trace t)" "\<forall>(c, a)\<in>set new2. P (is_high_capacity t) c a"
  then show "\<exists>t tb new. u = s\<lparr>trace := t @ trace s, s_adma2_table := tb\<rparr> \<and>
      commands (t @ trace s) = new @ commands (trace s) \<and> (\<forall>(c, a)\<in>set new. P (is_high_capacity s) c a)"
    by (intro exI [of _ "t2 @ t1"] exI [of _ tb2] exI [of _ "new2 @ new1"]) auto
qed

lemma issuesI:
  "s' = s\<lparr>trace := t @ trace s, s_adma2_table := tb\<rparr> \<Longrightarrow> commands (t @ trace s) = new @ commands (trace s) \<Longrightarrow>
   (\<And>c a. (c, a) \<in> set new \<Longrightarrow> P (is_high_capacity s) c a) \<Longrightarrow> issues P s s'"
  unfolding issues_def by blast

interpretation quiet: io_rel quiet
  by unfold_locales (auto simp: quiet_def intro: exI [of _ "[]"] quiet_trans [unfolded quiet_def])

interpretation issues: io_rel "issues P" for P
proof
  fix s :: "'a emmc_scheme"
  show "issues P s s" by (rule issuesI [where t = "[]" and tb = "s_adma2_table s" and new = "[]"]) simp_all
qed (rule issues_trans)

lemma quiet_issues: "state_io_rel quiet m \<Longrightarrow> state_io_rel (issues P) m"
  unfolding state_io_rel_def
proof
  fix s :: "'a emmc_scheme"
  assume "\<forall>s. quiet s (snd (run_state m s))"
  then obtain t where "snd (run_state m s) = s\<lparr>trace := t @ trace s\<rparr>" "xfers (t @ trace s) = xfers (trace s)"
    unfolding quiet_def by blast
  then show "issues P s (snd (run_state m s))"
    unfolding issues_def
    by (intro exI [of _ t] exI [of _ "s_adma2_table s"] exI [of _ "[]"]) (simp add: commands_def)
qed

lemma quiet_rd: "a \<noteq> DATA \<Longrightarrow> state_io_rel quiet (rd a)"
  by (auto simp: state_io_rel_def quiet_def intro: exI [of _ "[_]"])

lemma quiet_wr: "a \<noteq> DATA \<Longrightarrow> a \<noteq> CMDTM \<Longrightarrow> state_io_rel quiet (wr a v)"
  by (auto simp: state_io_rel_def quiet_def intro: exI [of _ "[_]"])

lemma issues_rd: "state_io_rel (issues P) (rd a)"
proof -
  have "issues P s (snd (run_state (rd a) s))" for s :: "'a emmc_scheme"
    by (rule issuesI [where t = "[Rd a (dev s (trace s) a)]" and tb = "s_adma2_table s" and new = "[]"]) (simp_all add: commands_def)
  then show ?thesis by (simp add: state_io_rel_def)
qed

lemma issues_wr: "a \<noteq> CMDTM \<Longrightarrow> state_io_rel (issues P) (wr a v)"
proof -
  assume a: "a \<noteq> CMDTM"
  have "issues P s (snd (run_state (wr a v) s))" for s :: "'a emmc_scheme"
    by (rule issuesI [where t = "[Wr a v]" and tb = "s_adma2_table s" and new = "[]"]) (simp_all add: commands_def a)
  then show ?thesis by (simp add: state_io_rel_def)
qed

lemma quiet_set_bits: "a \<noteq> DATA \<Longrightarrow> a \<noteq> CMDTM \<Longrightarrow> state_io_rel quiet (set_bits a m)"
  "a \<noteq> DATA \<Longrightarrow> a \<noteq> CMDTM \<Longrightarrow> state_io_rel quiet (clear_bits a m)"
  by (auto simp: set_bits_def clear_bits_def intro!: quiet.io_bind quiet_rd quiet_wr)

lemma quiet_wait_interrupt_loop: "state_io_rel quiet (wait_interrupt_loop m c)"
proof (induction m c rule: wait_interrupt_loop.induct)
  case (1 m c)
  show ?case
    by (subst wait_interrupt_loop.simps) (intro quiet.io_rules quiet_rd quiet_wr 1; simp)
qed

lemma quiet_poll_clear: "a \<noteq> DATA \<Longrightarrow> state_io_rel quiet (poll_clear a m c)"
proof (induction a m c rule: poll_clear.induct)
  case (1 a m c)
  show ?case
    by (subst poll_clear.simps) (intro quiet.io_rules quiet_rd 1; simp add: 1)
qed

lemma quiet_poll_set: "a \<noteq> DATA \<Longrightarrow> state_io_rel quiet (poll_set a m c)"
proof (induction a m c rule: poll_set.induct)
  case (1 a m c)
  show ?case
    by (subst poll_set.simps) (intro quiet.io_rules quiet_rd 1; simp add: 1)
qed

lemma quiet_wait: "state_io_rel quiet (emmc_wait_interrupt m t)" "state_io_rel quiet (emmc_wait_status m t)"
  by (simp_all add: emmc_wait_interrupt_def emmc_wait_status_def quiet_wait_interrupt_loop quiet_poll_clear)

lemma quiet_set_clock: "state_io_rel quiet (emmc_set_clock f)"
  unfolding emmc_set_clock_def Let_def
  by (intro quiet.io_rules quiet_wait quiet_set_bits quiet_rd quiet_wr quiet_poll_set; simp)

lemmas quiet_rules = quiet_rd quiet_wr quiet_set_bits quiet_wait quiet_poll_clear quiet_poll_set quiet_set_clock

lemma issues_command:
  assumes "\<And>h. P h cmd arg"
  shows "state_io_rel (issues P) (do { wr ARG1 arg; wr CMDTM cmd })"
proof -
  have "issues P s (snd (run_state (do { wr ARG1 arg; wr CMDTM cmd }) s))" for s :: "'a emmc_scheme"
    by (rule issuesI [where t = "[Wr CMDTM cmd, Wr ARG1 arg]" and tb = "s_adma2_table s" and new = "[(cmd, arg)]"])
      (simp_all add: commands_def assms)
  then show ?thesis by (simp add: state_io_rel_def)
qed

lemma issues_command_bind:
  "(\<And>h. P h cmd arg) \<Longrightarrow> state_io_rel (issues P) m \<Longrightarrow>
   state_io_rel (issues P) (do { wr ARG1 arg; wr CMDTM cmd; m })"
  using issues.io_bind [OF issues_command, of P cmd arg "\<lambda>_. m"] by simp

lemma issues_send_command:
  assumes "\<And>h. P h cmd arg"
  shows "state_io_rel (issues P) (emmc_send_command cmd arg)"
  unfolding emmc_send_command_def
  by (intro issues.io_rules issues_command_bind assms issues_rd quiet_issues [OF quiet_wait(1)] quiet_issues [OF quiet_wait(2)]
      issues_wr; simp)

lemma issues_gets_hc:
  assumes "\<And>hc. state_io_rel (issues (\<lambda>h c a. h = hc \<longrightarrow> P h c a)) (g hc)"
  shows "state_io_rel (issues P) (gets is_high_capacity \<bind> g)"
  using assms unfolding state_io_rel_def issues_def by (fastforce split: prod.splits)

lemma issues_gets_frame:
  "state_io_rel (issues P) (upd (s_adma2_table_update f))"
proof -
  have "issues P s (snd (run_state (upd (s_adma2_table_update f)) s))" for s :: "'a emmc_scheme"
    by (rule issuesI [where t = "[]" and tb = "f (s_adma2_table s)" and new = "[]"]) simp_all
  then show ?thesis by (simp add: state_io_rel_def)
qed

lemma issues_read_words: "state_io_rel (issues P) (read_words n)"
  by (induction n) (auto intro!: issues.io_rules issues_rd)

lemma issues_write_words: "state_io_rel (issues P) (write_words ws)"
  by (induction ws) (auto intro!: issues.io_rules issues_wr)

lemma issues_pio_write: "state_io_rel (issues P) (pio_write n ws)"
  by (induction n ws rule: pio_write.induct)
    (auto intro!: issues.io_rules issues_write_words quiet_issues [OF quiet_wait(1)])

lemma issues_pio_read: "state_io_rel (issues P) (pio_read n)"
  by (induction n) (auto intro!: issues.io_rules issues_read_words quiet_issues [OF quiet_wait(1)] split: prod.splits)

lemma issues_build: "state_io_rel (issues P) (emmc_build_adma2_table a n)"
  unfolding emmc_build_adma2_table_def Let_def case_prod_beta
  by (intro issues.io_rules issues_gets_frame)

lemma issues_xfer_adma2:
  assumes "\<And>h. P h (cmd OR TM_DMA_EN) (if h then sector else sector * SECTOR_SIZE)"
  shows "state_io_rel (issues P) (emmc_xfer_adma2 cmd sector addr buf count w)"
  unfolding emmc_xfer_adma2_def Let_def
  by (intro issues_gets_hc issues.io_rules issues_send_command issues_build issues_rd issues_wr quiet_issues [OF quiet_wait(1)]
      quiet_issues [OF quiet_wait(2)]; use assms in simp)

lemma issues_reset: "state_io_rel (issues P) emmc_reset_cmd_data"
  unfolding emmc_reset_cmd_data_def
  by (intro issues.io_rules quiet_issues quiet_set_bits quiet_poll_clear; simp)

lemma issues_read_blocks:
  assumes "\<And>h c. c \<in> {CMD17, CMD18, CMD18 OR TM_DMA_EN} \<Longrightarrow> P h c (if h then sector else sector * SECTOR_SIZE)"
  shows "state_io_rel (issues P) (emmc_read_blocks sector addr buf count)"
  unfolding emmc_read_blocks_def Let_def case_prod_beta
  by (intro issues_gets_hc issues.io_rules issues_xfer_adma2 issues_send_command issues_pio_read issues_reset issues_wr
      quiet_issues [OF quiet_wait(1)]; use assms [of _ True] assms [of _ False] assms in simp)

lemma issues_write_blocks:
  assumes "\<And>h c. EMMC_FIRMWARE_FLOOR \<le> sector \<Longrightarrow> c \<in> {CMD24, CMD25, CMD25 OR TM_DMA_EN} \<Longrightarrow>
    P h c (if h then sector else sector * SECTOR_SIZE)"
  shows "state_io_rel (issues P) (emmc_write_blocks sector addr buf count)"
  unfolding emmc_write_blocks_def Let_def case_prod_beta
  by (intro issues_gets_hc issues.io_rules issues_xfer_adma2 issues_send_command issues_pio_write issues_reset issues_wr
      quiet_issues [OF quiet_wait(1)] quiet_issues [OF quiet_wait(2)];
      use assms [of _ True] assms [of _ False] assms in \<open>simp add: not_less\<close>)

text \<open>Claim C17 (safety). Whatever the controller and the card answer, also across a failed DMA transfer and its fallback, every
  command of \<open>emmc_write_blocks\<close> is a write to exactly the sector the caller named, and none is issued when that sector is
  below the firmware region, where the partition table and the boot partition live.\<close>

theorem emmc_write_floor:
  assumes "is_high_capacity s" "run_state (emmc_write_blocks sector addr buf count) s = (r, s')"
  shows "\<exists>new. commands (trace s') = new @ commands (trace s) \<and>
    list_all (\<lambda>(c, a). c \<in> {CMD24, CMD25, CMD25 OR TM_DMA_EN} \<and> a = sector \<and> EMMC_FIRMWARE_FLOOR \<le> a) new"
proof -
  have "state_io_rel (issues (\<lambda>h c a. h \<longrightarrow> c \<in> {CMD24, CMD25, CMD25 OR TM_DMA_EN} \<and> a = sector \<and> EMMC_FIRMWARE_FLOOR \<le> a))
    (emmc_write_blocks sector addr buf count)"
    by (rule issues_write_blocks) simp
  from state_io_relD [OF this assms(2)] assms(1) show ?thesis
    unfolding issues_def by (auto simp: list_all_iff)
qed


subsection \<open>Transfers, exactly\<close>

text \<open>\<open>bus s0 x s\<close>: since \<open>s0\<close> only register accesses were made, and the bus now shows \<open>x\<close>.\<close>

definition bus :: "'z emmc_scheme \<Rightarrow> (u32 \<times> u32 \<times> u32 list) list \<Rightarrow> 'z emmc_scheme \<Rightarrow> bool" where
  "bus s0 x s \<longleftrightarrow> (\<exists>t. s = s0\<lparr>trace := t @ trace s0\<rparr>) \<and> xfers (trace s) = x"

lemma bus_refl: "bus s (xfers (trace s)) s"
  by (auto simp: bus_def intro: exI [of _ "[]"])

lemma bus_quiet: "bus s0 x s \<Longrightarrow> quiet s s' \<Longrightarrow> bus s0 x s'"
  by (auto simp: quiet_def bus_def intro: exI [of _ "_ @ _"])

lemma bus_trace: "bus s0 x s \<Longrightarrow> xfers (t @ trace s) = y \<Longrightarrow> bus s0 y (s\<lparr>trace := t @ trace s\<rparr>)"
  by (auto simp: bus_def intro: exI [of _ "t @ _"])

lemma post_quiet: "bus s0 x s \<Longrightarrow> state_io_rel quiet m \<Longrightarrow> (\<And>r s'. bus s0 x s' \<Longrightarrow> Q r s') \<Longrightarrow> post Q m s"
  by (auto intro!: postI bus_quiet)

lemma post_command:
  assumes "bus s0 x s" "\<And>s'. bus s0 ((cmd, arg, []) # x) s' \<Longrightarrow> post Q m s'"
  shows "post Q (do { wr ARG1 arg; wr CMDTM cmd; m }) s"
proof -
  have "bus s0 ((cmd, arg, []) # x) (s\<lparr>trace := [Wr CMDTM cmd, Wr ARG1 arg] @ trace s\<rparr>)"
    using assms(1) by (intro bus_trace) (simp_all add: bus_def)
  from assms(2) [OF this] show ?thesis by (simp add: post_def)
qed

lemma post_data_wr:
  assumes "is_store cmd" "bus s0 ((cmd, arg, d) # x) s" "\<And>s'. bus s0 ((cmd, arg, d @ [w]) # x) s' \<Longrightarrow> Q () s'"
  shows "post Q (wr DATA w) s"
proof -
  have "bus s0 ((cmd, arg, d @ [w]) # x) (s\<lparr>trace := [Wr DATA w] @ trace s\<rparr>)"
    using assms(1,2) by (intro bus_trace) (simp_all add: bus_def)
  from assms(3) [OF this] show ?thesis by (simp add: post_def)
qed

lemma post_data_rd:
  assumes "\<not> is_store cmd" "bus s0 ((cmd, arg, d) # x) s" "\<And>w s'. bus s0 ((cmd, arg, d @ [w]) # x) s' \<Longrightarrow> Q w s'"
  shows "post Q (rd DATA) s"
proof -
  have "bus s0 ((cmd, arg, d @ [w]) # x) (s\<lparr>trace := [Rd DATA w] @ trace s\<rparr>)" for w
    using assms(1,2) by (intro bus_trace) (simp_all add: bus_def)
  from assms(3) [OF this] show ?thesis by (simp add: post_def)
qed

lemmas post_wait = post_quiet [OF _ quiet_wait(1)] post_quiet [OF _ quiet_wait(2)] post_quiet [OF _ quiet_rd]
  post_quiet [OF _ quiet_wr]
lemmas post_basic = post_bind post_return post_if

lemma post_send_command:
  assumes "bus s0 x s" "\<And>r s'. bus s0 ((cmd, arg, []) # x) s' \<Longrightarrow> Q r s'" "\<And>r s'. r \<noteq> E_OK \<Longrightarrow> bus s0 x s' \<Longrightarrow> Q r s'"
  shows "post Q (emmc_send_command cmd arg) s"
  unfolding emmc_send_command_def
  by (rule post_command post_basic post_wait assms(1) | assumption | rule reg_neq | rule assms(2,3), (simp; fail)?)+

lemma post_write_words:
  assumes "is_store cmd" "bus s0 ((cmd, arg, d) # x) s" "\<And>s'. bus s0 ((cmd, arg, d @ ws) # x) s' \<Longrightarrow> Q () s'"
  shows "post Q (write_words ws) s"
  using assms
proof (induction ws arbitrary: d s)
  case (Cons w ws)
  have "post Q (write_words ws) s'" if "bus s0 ((cmd, arg, d @ [w]) # x) s'" for s'
    by (rule Cons.IH [OF Cons.prems(1) that]) (use Cons.prems(3) in simp)
  with Cons.prems(1,2) show ?case by (auto intro!: post_bind post_data_wr)
qed (simp add: post_return)

lemma post_read_words:
  assumes "\<not> is_store cmd" "bus s0 ((cmd, arg, d) # x) s" "\<And>ws s'. length ws = n \<Longrightarrow> bus s0 ((cmd, arg, d @ ws) # x) s' \<Longrightarrow> Q ws s'"
  shows "post Q (read_words n) s"
  using assms
proof (induction n arbitrary: d s Q)
  case (Suc n)
  have "post (\<lambda>ws. post Q (return (w # ws))) (read_words n) s'" if "bus s0 ((cmd, arg, d @ [w]) # x) s'" for w s'
    by (rule Suc.IH [OF Suc.prems(1) that]) (use Suc.prems(3) in \<open>auto intro!: post_return\<close>)
  with Suc.prems(1,2) show ?case by (auto intro!: post_bind post_data_rd)
qed (simp add: post_return)

lemma bus_fields:
  "bus s0 x s \<Longrightarrow> is_high_capacity s = is_high_capacity s0"
  "bus s0 x s \<Longrightarrow> s_adma2_supported s = s_adma2_supported s0"
  by (auto simp: bus_def)

lemma post_pio_write:
  assumes "is_store cmd" "bus s0 ((cmd, arg, d) # x) s"
    "\<And>s'. bus s0 ((cmd, arg, d @ take (128 * n) ws) # x) s' \<Longrightarrow> Q E_OK s'"
    "\<And>r k s'. r \<noteq> E_OK \<Longrightarrow> bus s0 ((cmd, arg, d @ take k ws) # x) s' \<Longrightarrow> Q r s'"
  shows "post Q (pio_write n ws) s"
  using assms
proof (induction n ws arbitrary: d s rule: pio_write.induct)
  case (1 ws)
  then show ?case by (simp add: post_return)
next
  case (2 n ws)
  have sz: "unat (SECTOR_SIZE div 4) = 128" by (simp add: SECTOR_SIZE_def)
  have stp: "post Q (pio_write n (drop 128 ws)) s'" if b: "bus s0 ((cmd, arg, d @ take 128 ws) # x) s'" for s'
    apply (rule "2.IH" [of E_OK, unfolded sz, OF _ "2.prems"(1) b])
    subgoal by simp
    subgoal for s'' by (rule "2.prems"(3)) (simp add: take_add)
    subgoal for r k s'' by (rule "2.prems"(4) [of r "128 + k"]) (simp_all add: take_add)
    done
  show ?case
    unfolding pio_write.simps sz
    by (rule post_basic post_wait "2.prems"(1,2) post_write_words stp | assumption |
        (use "2.prems"(4) [of E_TIMED_OUT 0] in \<open>simp; fail\<close>))+
qed

lemma post_pio_read:
  assumes "\<not> is_store cmd" "bus s0 ((cmd, arg, d) # x) s"
    "\<And>r ws s'. length ws \<le> 128 * n \<Longrightarrow> (r = E_OK \<Longrightarrow> length ws = 128 * n) \<Longrightarrow> bus s0 ((cmd, arg, d @ ws) # x) s' \<Longrightarrow> Q (r, ws) s'"
  shows "post Q (pio_read n) s"
  using assms
proof (induction n arbitrary: d s Q)
  case 0
  then show ?case by (simp add: post_return)
next
  case (Suc n)
  have sz: "unat (SECTOR_SIZE div 4) = 128" by (simp add: SECTOR_SIZE_def)
  have stp: "post (\<lambda>p. post Q (case p of (r, rest) \<Rightarrow> return (r, ws @ rest))) (pio_read n) s'"
    if "length ws = 128" "bus s0 ((cmd, arg, d @ ws) # x) s'" for ws s'
    by (rule Suc.IH [OF Suc.prems(1) that(2)]) (use that(1) Suc.prems(3) in \<open>auto intro!: post_return\<close>)
  show ?case
    unfolding pio_read.simps sz
    by (rule post_basic post_wait Suc.prems(1,2) post_read_words stp | assumption |
        (use Suc.prems(3) [of "[]" E_TIMED_OUT] in \<open>simp; fail\<close>))+
qed

definition card_arg :: "'z emmc_scheme \<Rightarrow> u32 \<Rightarrow> u32" where
  "card_arg s sector = (if is_high_capacity s then sector else sector * SECTOR_SIZE)"

lemma post_write_blocks:
  assumes "bus s0 x s" "count = 1 \<or> \<not> s_adma2_supported s0" "count \<noteq> 0" "EMMC_FIRMWARE_FLOOR \<le> sector" "length buf = 128 * unat count"
    "\<And>s'. bus s0 ((if count = 1 then CMD24 else CMD25, card_arg s0 sector, buf) # x) s' \<Longrightarrow> Q E_OK s'"
    "\<And>r k s'. r \<noteq> E_OK \<Longrightarrow> bus s0 ((if count = 1 then CMD24 else CMD25, card_arg s0 sector, take k buf) # x) s' \<Longrightarrow> Q r s'"
    "\<And>r s'. r \<noteq> E_OK \<Longrightarrow> bus s0 x s' \<Longrightarrow> Q r s'"
  shows "post Q (emmc_write_blocks sector addr buf count) s"
proof -
  have f: "\<not> (s_adma2_supported s \<and> 1 < count)" "\<not> sector < EMMC_FIRMWARE_FLOOR" "count \<noteq> 0"
    using assms(2-4) bus_fields [OF assms(1)] by auto
  let ?c = "if count = 1 then CMD24 else CMD25"
  have "card_arg s0 sector = (if is_high_capacity s then sector else sector * SECTOR_SIZE)" (is "_ = ?a")
    using bus_fields [OF assms(1)] by (simp add: card_arg_def)
  note A = assms(6-8) [unfolded this]
  have fin: "post Q (do { r \<leftarrow> pio_write (unat count) buf; if r \<noteq> E_OK then return E_TIMED_OUT else do {
      r \<leftarrow> emmc_wait_interrupt INT_DATA_DONE 5000; if r \<noteq> E_OK then return E_TIMED_OUT else do {
      r \<leftarrow> emmc_wait_status STATUS_DAT_ACTIVE 5000; if r \<noteq> E_OK then return E_TIMED_OUT else return E_OK }} }) s1"
    if "bus s0 ((?c, ?a, []) # x) s1" for s1
    apply (rule post_bind, rule post_pio_write [OF _ that], simp)
    subgoal for s2
      by (rule post_basic post_wait | assumption |
          (use assms(5) A(1) A(2) [of E_TIMED_OUT "128 * unat count"] in \<open>simp; fail\<close>))+
    subgoal for r k s2 using A(2) [of E_TIMED_OUT k s2] by (simp add: post_return)
    done
  show ?thesis
    unfolding emmc_write_blocks_def Let_def
    by (rule post_basic post_gets post_wait post_send_command assms(1) fin | assumption |
        (use f A(3) A(2) [of E_CMD 0] in \<open>simp; fail\<close>))+
qed

lemma post_read_blocks:
  assumes "bus s0 x s" "count = 1 \<or> \<not> s_adma2_supported s0" "count \<noteq> 0" "length buf = 128 * unat count"
    "\<And>ws s'. length ws = 128 * unat count \<Longrightarrow>
      bus s0 ((if count = 1 then CMD17 else CMD18, card_arg s0 sector, ws) # x) s' \<Longrightarrow> Q (E_OK, ws) s'"
    "\<And>r ws s'. r \<noteq> E_OK \<Longrightarrow> length ws \<le> 128 * unat count \<Longrightarrow>
      bus s0 ((if count = 1 then CMD17 else CMD18, card_arg s0 sector, ws) # x) s' \<Longrightarrow> Q (r, ws @ drop (length ws) buf) s'"
    "\<And>r s'. r \<noteq> E_OK \<Longrightarrow> bus s0 x s' \<Longrightarrow> Q (r, buf) s'"
  shows "post Q (emmc_read_blocks sector addr buf count) s"
proof -
  have f: "\<not> (s_adma2_supported s \<and> 1 < count)" "count \<noteq> 0"
    using assms(2,3) bus_fields [OF assms(1)] by auto
  let ?c = "if count = 1 then CMD17 else CMD18"
  have "card_arg s0 sector = (if is_high_capacity s then sector else sector * SECTOR_SIZE)" (is "_ = ?a")
    using bus_fields [OF assms(1)] by (simp add: card_arg_def)
  note A = assms(5-7) [unfolded this]
  have fin: "post Q (do { p \<leftarrow> pio_read (unat count); case p of (r, ws) \<Rightarrow>
      if r \<noteq> E_OK then return (E_TIMED_OUT, ws @ drop (length ws) buf) else do {
      r \<leftarrow> emmc_wait_interrupt INT_DATA_DONE 2000; return (if r \<noteq> E_OK then E_TIMED_OUT else E_OK, ws @ drop (length ws) buf) } }) s1"
    if "bus s0 ((?c, ?a, []) # x) s1" for s1
    apply (rule post_bind, rule post_pio_read [OF _ that], simp)
    subgoal for r ws s2 unfolding prod.case
      by (rule post_basic post_wait | assumption |
          (use assms(4) A(1) [of ws] A(2) [of E_TIMED_OUT ws] in \<open>simp; fail\<close>))+
    done
  show ?thesis
    unfolding emmc_read_blocks_def Let_def
    by (rule post_basic post_gets post_wait post_send_command assms(1) fin | assumption |
        (use f A(3) A(2) [of E_CMD "[]"] in \<open>simp; fail\<close>) | simp only: prod.case)+
qed


subsection \<open>A controller that is always ready\<close>

text \<open>Every wait ends at once and every transfer succeeds.\<close>

definition ready_dev :: "access list \<Rightarrow> u32 \<Rightarrow> u32" where
  "ready_dev t a = (if a = INTERRUPT then 0x33 else 0)"

definition ready_emmc :: emmc where
  "ready_emmc = \<lparr>dev = ready_dev, trace = [], s_uart_configs = (\<lambda>_. None), dma = (\<lambda>_ b. b), rca = 1, is_high_capacity = True, s_emmc_initialized = True,
     s_adma2_supported = False, s_device_type = 0, s_sec_count = 0, s_adma2_table = [], s_adma2_table_addr = 0\<rparr>"

definition ready :: "'z emmc_scheme \<Rightarrow> bool" where
  "ready s \<longleftrightarrow> (\<forall>t. dev s t INTERRUPT = 0x33 \<and> dev s t STATUS = 0)"

lemma ready_trace [simp]: "ready (s\<lparr>trace := t\<rparr>) = ready s"
  by (simp add: ready_def)

lemma ready_err [simp]: "(51 :: u32) AND INT_ERROR_MASK = 0"
  by (simp add: INT_ERROR_MASK_def INT_CTO_ERR_def INT_CCRC_ERR_def INT_CEND_ERR_def INT_CBAD_ERR_def INT_DTO_ERR_def INT_DCRC_ERR_def
      INT_DEND_ERR_def INT_ACMD_ERR_def INT_ADMA_ERR_def INT_ERR_def push_bit_eq_mult)

lemma ready_wait_interrupt:
  "ready s \<Longrightarrow> 0x33 AND m \<noteq> 0 \<Longrightarrow> (\<And>s'. ready s' \<Longrightarrow> Q E_OK s') \<Longrightarrow> post Q (emmc_wait_interrupt m t) s"
  unfolding emmc_wait_interrupt_def by (subst wait_interrupt_loop.simps) (simp add: post_def ready_def)

lemma ready_wait_status: "ready s \<Longrightarrow> (\<And>s'. ready s' \<Longrightarrow> Q E_OK s') \<Longrightarrow> post Q (emmc_wait_status m t) s"
  unfolding emmc_wait_status_def by (subst poll_clear.simps) (simp add: post_def ready_def)

lemma ready_wr: "ready s \<Longrightarrow> (\<And>s'. ready s' \<Longrightarrow> Q () s') \<Longrightarrow> post Q (wr a v) s"
  by (simp add: post_def)

lemma ready_masks [simp]: "(51 :: u32) AND INT_CMD_DONE \<noteq> 0" "(51 :: u32) AND INT_DATA_DONE \<noteq> 0" "(51 :: u32) AND INT_WRITE_RDY \<noteq> 0"
  "(51 :: u32) AND INT_READ_RDY \<noteq> 0"
  by (simp_all add: INT_CMD_DONE_def INT_DATA_DONE_def INT_WRITE_RDY_def INT_READ_RDY_def push_bit_eq_mult)

lemma ready_send_command:
  "ready s \<Longrightarrow> (\<And>s'. ready s' \<Longrightarrow> Q E_OK s') \<Longrightarrow> post Q (emmc_send_command cmd arg) s"
  unfolding emmc_send_command_def
  by (rule post_basic ready_wait_interrupt ready_wait_status ready_wr ready_masks | assumption | (simp; fail))+

lemma ready_write_words: "ready s \<Longrightarrow> (\<And>s'. ready s' \<Longrightarrow> Q () s') \<Longrightarrow> post Q (write_words ws) s"
  by (induction ws arbitrary: s) (auto intro!: post_return post_bind ready_wr)

lemma ready_pio_write: "ready s \<Longrightarrow> (\<And>s'. ready s' \<Longrightarrow> Q E_OK s') \<Longrightarrow> post Q (pio_write n ws) s"
  by (induction n ws arbitrary: s rule: pio_write.induct)
    (auto intro!: post_return post_bind ready_wait_interrupt ready_write_words)

lemma ready_write_blocks:
  assumes "ready s" "EMMC_FIRMWARE_FLOOR \<le> sector" "count = 1 \<or> \<not> s_adma2_supported s"
  shows "fst (run_state (emmc_write_blocks sector addr buf count) s) = E_OK"
proof -
  have "post (\<lambda>r s'. r = E_OK) (emmc_write_blocks sector addr buf count) s"
    unfolding emmc_write_blocks_def Let_def
    by (rule post_basic post_gets ready_wr ready_send_command ready_pio_write ready_wait_interrupt ready_wait_status assms(1)
        ready_masks | assumption | (use assms in \<open>force simp: not_less\<close>))+
  then show ?thesis by (simp add: post_def split: prod.splits)
qed

lemma ready_emmc: "ready ready_emmc" "is_high_capacity ready_emmc" "\<not> s_adma2_supported ready_emmc" "trace ready_emmc = []"
  by (simp_all add: ready_emmc_def ready_def ready_dev_def reg_defs)

text \<open>Claim C18 (functional). A block write that reports success has given the card one write command for the sector with exactly
  the words of the buffer as its data; one that fails has given it no command, or that command with a prefix of them. In
  particular a write through the PIO path never interleaves data of another transfer and never drops a word.\<close>

theorem emmc_write_exact:
  assumes "count = 1 \<or> \<not> s_adma2_supported s" "count \<noteq> 0" "EMMC_FIRMWARE_FLOOR \<le> sector" "length buf = 128 * unat count"
    "run_state (emmc_write_blocks sector addr buf count) s = (r, s')"
  shows "if r = E_OK
    then xfers (trace s') = (if count = 1 then CMD24 else CMD25, card_arg s sector, buf) # xfers (trace s)
    else xfers (trace s') = xfers (trace s) \<or>
      (\<exists>k. xfers (trace s') = (if count = 1 then CMD24 else CMD25, card_arg s sector, take k buf) # xfers (trace s))"
proof -
  have "post (\<lambda>r s'. if r = E_OK
    then xfers (trace s') = (if count = 1 then CMD24 else CMD25, card_arg s sector, buf) # xfers (trace s)
    else xfers (trace s') = xfers (trace s) \<or>
      (\<exists>k. xfers (trace s') = (if count = 1 then CMD24 else CMD25, card_arg s sector, take k buf) # xfers (trace s)))
    (emmc_write_blocks sector addr buf count) s"
    by (rule post_write_blocks [OF bus_refl assms(1-4)]) (auto simp: bus_def)
  from postD [OF this assms(5)] show ?thesis .
qed

theorem emmc_write_exact_witness:
  "xfers (trace (snd (run_state (emmc_write_blocks EMMC_SECTOR_METADATA 0 (replicate 128 7) 1) ready_emmc))) =
     [(CMD24, EMMC_SECTOR_METADATA, replicate 128 7)]"
  using emmc_write_exact [of 1 ready_emmc EMMC_SECTOR_METADATA "replicate 128 7" 0 _
      "snd (run_state (emmc_write_blocks EMMC_SECTOR_METADATA 0 (replicate 128 7) 1) ready_emmc)"]
    ready_write_blocks [OF ready_emmc(1), of EMMC_SECTOR_METADATA 1]
  by (simp add: prod_eq_iff card_arg_def ready_emmc layout_defs)

theorem emmc_write_floor_witness:
  "is_high_capacity ready_emmc \<and>
   list_all (\<lambda>(c, a). c \<in> {CMD24, CMD25, CMD25 OR TM_DMA_EN} \<and> a = EMMC_SECTOR_METADATA \<and> EMMC_FIRMWARE_FLOOR \<le> a)
     (commands (trace (snd (run_state (emmc_write_blocks EMMC_SECTOR_METADATA 0 (replicate 128 7) 1) ready_emmc))))"
  using emmc_write_floor [OF ready_emmc(2), of EMMC_SECTOR_METADATA 0 "replicate 128 7" 1 _
      "snd (run_state (emmc_write_blocks EMMC_SECTOR_METADATA 0 (replicate 128 7) 1) ready_emmc)"]
  by (auto simp: ready_emmc prod_eq_iff commands_def)

subsection \<open>The DMA descriptor table\<close>

text \<open>The controller's reading of a descriptor list: consecutive chunks of a buffer of \<open>n\<close> bytes at \<open>a\<close>, where a length field of
  zero means 65536 bytes, every line is a valid transfer line and only the last one ends the transfer.\<close>

definition desc_len :: "Adma2Desc \<Rightarrow> nat" where
  "desc_len d = (if drop_bit 16 (attr_len d) = 0 then 65536 else unat (drop_bit 16 (attr_len d)))"

fun covers :: "u32 \<Rightarrow> nat \<Rightarrow> Adma2Desc list \<Rightarrow> bool" where
  "covers a n [] = (n = 0)"
| "covers a n (d # ds) =
     (address d = a \<and> desc_len d \<le> n \<and>
      attr_len d AND 0xFFFF =
        ADMA2_DESC_VALID OR ADMA2_DESC_ACT_TRAN OR (if ds = [] then ADMA2_DESC_END OR ADMA2_DESC_INT else 0) \<and>
      covers (a + of_nat (desc_len d)) (n - desc_len d) ds)"

lemma drop_push_16: "drop_bit 16 (push_bit 16 (x :: u32)) = take_bit 16 x"
  by (rule bit_eqI) (auto simp: bit_simps)

lemma adma2_attr:
  assumes "0 < chunk" "chunk \<le> ADMA2_MAX_CHUNK" "f \<in> {0, 6}"
  shows "desc_len \<lparr>attr_len = push_bit 16 (adma2_len16 chunk) OR 33 OR f, address = a\<rparr> = unat chunk"
    "(push_bit 16 (adma2_len16 chunk) OR 33 OR f) AND 0xFFFF = 33 OR f"
proof -
  have m: "w AND 0xFFFF = take_bit 16 w" for w :: u32 by (simp add: take_bit_eq_mask mask_eq_exp_minus_1)
  have t: "take_bit 16 (adma2_len16 chunk) = adma2_len16 chunk"
  proof -
    have "adma2_len16 chunk < 65536"
      using assms(2) by (auto simp: adma2_len16_def ADMA2_MAX_CHUNK_def order.not_eq_order_implies_strict)
    then show ?thesis by (simp add: word_unat_eq_iff unsigned_take_bit_eq take_bit_nat_eq_self word_less_nat_alt)
  qed
  have d: "drop_bit 16 (push_bit 16 (adma2_len16 chunk) OR 33 OR f) = adma2_len16 chunk"
    using assms(3) t by (auto simp: drop_bit_or drop_push_16)
  show "desc_len \<lparr>attr_len = push_bit 16 (adma2_len16 chunk) OR 33 OR f, address = a\<rparr> = unat chunk"
    unfolding desc_len_def Adma2Desc.select_convs d
    using assms(1) by (auto simp: adma2_len16_def ADMA2_MAX_CHUNK_def)
  show "(push_bit 16 (adma2_len16 chunk) OR 33 OR f) AND 0xFFFF = 33 OR f"
    unfolding m using assms(3) by (auto simp: take_bit_or take_bit_push_bit)
qed

lemma adma2_flags: "ADMA2_DESC_VALID OR ADMA2_DESC_ACT_TRAN = 33" "ADMA2_DESC_END OR ADMA2_DESC_INT = 6"
  "ADMA2_DESC_VALID OR ADMA2_DESC_ACT_TRAN OR 6 = 39"
  by (simp_all add: ADMA2_DESC_VALID_def ADMA2_DESC_ACT_TRAN_def ADMA2_DESC_END_def ADMA2_DESC_INT_def push_bit_eq_mult)

definition adma2_desc :: "u32 \<Rightarrow> u32 \<Rightarrow> u32 \<Rightarrow> Adma2Desc" where
  "adma2_desc a chunk f = \<lparr>attr_len = push_bit 16 (adma2_len16 chunk) OR 33 OR f, address = a\<rparr>"

lemma covers_last:
  "0 < c \<Longrightarrow> c \<le> ADMA2_MAX_CHUNK \<Longrightarrow> covers a (unat c) [adma2_desc a c 6]"
  using adma2_attr(1) [of c 6 a] adma2_attr(2) [of c 6] adma2_flags by (simp add: adma2_desc_def or.assoc)

lemma covers_more:
  "0 < c \<Longrightarrow> c \<le> ADMA2_MAX_CHUNK \<Longrightarrow> unat c \<le> n \<Longrightarrow> covers (a + c) (n - unat c) ds \<Longrightarrow> ds \<noteq> [] \<Longrightarrow>
   covers a n (adma2_desc a c 0 # ds)"
  using adma2_attr(1) [of c 0 a] adma2_attr(2) [of c 0] adma2_flags by (simp add: adma2_desc_def)

lemma adma2_loop_step:
  "0 < r \<Longrightarrow> n < ADMA2_MAX_DESCRIPTORS \<Longrightarrow> adma2_loop a r n t =
     adma2_loop (a + adma2_chunk r) (r - adma2_chunk r) (n + 1) (t[unat n := adma2_desc a (adma2_chunk r) 0])"
  by (subst adma2_loop.simps) (simp add: Let_def adma2_desc_def adma2_flags not_le [symmetric] or.assoc)

lemma adma2_loop_end:
  "unat n < length t \<Longrightarrow> unat n < 200 \<Longrightarrow>
   adma2_loop a 0 (n + 1) (t[unat n := adma2_desc b c 0]) = (n + 1, t[unat n := adma2_desc b c 6])"
  by (subst adma2_loop.simps)
    (simp add: adma2_desc_def or.assoc adma2_flags)

lemma max_desc: "ADMA2_MAX_DESCRIPTORS = 130"
  by (simp add: ADMA2_MAX_DESCRIPTORS_def ADMA2_MAX_XFER_BYTES_def layout_defs ADMA2_MAX_CHUNK_def)

lemma adma2_loop_covers:
  assumes "0 < r" "length t = 130" "unat n < 130" "unat r \<le> (130 - unat n) * 65536"
  shows "\<exists>n' t'. adma2_loop a r n t = (n', t') \<and> length t' = 130 \<and> unat n < unat n' \<and> unat n' \<le> 130 \<and>
    take (unat n) t' = take (unat n) t \<and> covers a (unat r) (drop (unat n) (take (unat n') t'))"
  using assms
proof (induction a r n t rule: adma2_loop.induct)
  case (1 a r n t)
  let ?c = "adma2_chunk r" and ?t = "t[unat n := adma2_desc a (adma2_chunk r) 0]"
  have c: "0 < ?c" "?c \<le> r" "?c \<le> ADMA2_MAX_CHUNK" using adma2_chunk_pos [of r] "1.prems"(1)
    by (auto simp: adma2_chunk_def)
  have n1: "unat (n + 1) = unat n + 1" using "1.prems"(3) by (simp add: unat_word_ariths)
  have n: "n < ADMA2_MAX_DESCRIPTORS" using "1.prems"(3) by (simp add: max_desc word_less_nat_alt)
  have st: "adma2_loop a r n t = adma2_loop (a + ?c) (r - ?c) (n + 1) ?t"
    by (rule adma2_loop_step [OF "1.prems"(1) n])
  show ?case
  proof (cases "r = ?c")
    case True
    have "adma2_loop a r n t = (n + 1, t[unat n := adma2_desc a ?c 6])"
      using st True adma2_loop_end [of n t "a + ?c" a ?c] "1.prems" by simp
    moreover have "drop (unat n) (take (unat (n + 1)) (t[unat n := adma2_desc a ?c 6])) = [adma2_desc a ?c 6]"
      using "1.prems" by (simp add: n1 take_Suc_conv_app_nth)
    ultimately show ?thesis
      using True covers_last [OF c(1,3), of a] "1.prems" n1 by auto
  next
    case False
    then have r: "0 < r - ?c" "?c < r" using c(2) by (auto simp: word_gt_0)
    then have rc: "?c = ADMA2_MAX_CHUNK" by (auto simp: adma2_chunk_def split: if_splits)
    then have u: "unat (r - ?c) = unat r - 65536" "65536 < unat r"
      using c(2) r(2) by (simp_all add: unat_sub ADMA2_MAX_CHUNK_def word_less_nat_alt)
    have n2: "unat (n + 1) < 130"
      using u(2) "1.prems"(3,4) by (cases "unat n = 129") (simp_all add: n1)
    obtain n' t' where IH: "adma2_loop (a + ?c) (r - ?c) (n + 1) ?t = (n', t')" "length t' = 130" "unat (n + 1) < unat n'"
      "unat n' \<le> 130" "take (unat (n + 1)) t' = take (unat (n + 1)) ?t"
      "covers (a + ?c) (unat (r - ?c)) (drop (unat (n + 1)) (take (unat n') t'))"
      using "1.IH" [of ?c] "1.prems" n n2 r(1) u n1 by (fastforce simp: adma2_desc_def adma2_flags not_le [symmetric])
    have tn: "t' ! unat n = adma2_desc a ?c 0"
      using arg_cong [OF IH(5), of "\<lambda>l. l ! unat n"] "1.prems"(2,3) n1 by simp
    have "drop (unat n) (take (unat n') t') = t' ! unat n # drop (unat (n + 1)) (take (unat n') t')"
      using IH(2,3,4) n1 by (simp add: Cons_nth_drop_Suc [symmetric])
    moreover have "drop (unat (n + 1)) (take (unat n') t') \<noteq> []" using IH(2,3,4) by simp
    ultimately have "covers a (unat r) (drop (unat n) (take (unat n') t'))"
      using covers_more [OF c(1,3) _ IH(6) [unfolded unat_sub [OF c(2)]]] c(2) tn by (simp add: word_le_nat_alt)
    moreover have "take (unat n) t' = take (unat n) t"
      using arg_cong [OF IH(5), of "take (unat n)"] n1 by (simp add: min_def)
    ultimately show ?thesis using st IH n1 by auto
  qed
qed

text \<open>For a transfer of at most the 8 MB of an app slot, the table that \<open>emmc_build_adma2_table\<close> fills is
  accepted, its used part describes exactly the buffer, every line is a valid transfer line of at most 64 KB and only the last one
  ends the transfer; nothing of the table beyond its size is touched.\<close>

theorem adma2_table_covers:
  assumes "0 < total_bytes" "total_bytes \<le> ADMA2_MAX_XFER_BYTES" "length (s_adma2_table s) = unat ADMA2_MAX_DESCRIPTORS"
    "run_state (emmc_build_adma2_table addr total_bytes) s = (n, s')"
  shows "n \<noteq> 0 \<and> n \<le> ADMA2_MAX_DESCRIPTORS \<and> length (s_adma2_table s') = unat ADMA2_MAX_DESCRIPTORS \<and>
    covers addr (unat total_bytes) (take (unat n) (s_adma2_table s'))"
proof -
  have "unat total_bytes \<le> unat ADMA2_MAX_XFER_BYTES" using assms(2) by (simp add: word_le_nat_alt)
  then have "unat total_bytes \<le> (130 - unat (0 :: u32)) * 65536"
    by (simp add: ADMA2_MAX_XFER_BYTES_def layout_defs)
  from adma2_loop_covers [OF assms(1) _ _ this, of "s_adma2_table s" addr] assms(3)
  obtain n' t' where l: "adma2_loop addr total_bytes 0 (s_adma2_table s) = (n', t')" "length t' = 130" "0 < unat n'" "unat n' \<le> 130"
      "covers addr (unat total_bytes) (take (unat n') t')"
    by (auto simp: max_desc)
  then show ?thesis using assms(4)
    by (auto simp: emmc_build_adma2_table_def max_desc word_le_nat_alt)
qed

theorem adma2_table_covers_witness:
  "\<exists>n s'. run_state (emmc_build_adma2_table 0x88400 0x30200) (ready_emmc\<lparr>s_adma2_table := replicate 130 \<lparr>attr_len = 0, address = 0\<rparr>\<rparr>) = (n, s') \<and>
     covers 0x88400 0x30200 (take (unat n) (s_adma2_table s'))"
proof -
  let ?s = "ready_emmc\<lparr>s_adma2_table := replicate 130 \<lparr>attr_len = 0, address = 0\<rparr>\<rparr>"
  obtain n s' where r: "run_state (emmc_build_adma2_table 0x88400 0x30200) ?s = (n, s')" by (cases "run_state (emmc_build_adma2_table 0x88400 0x30200) ?s")
  have "covers 0x88400 (unat (0x30200 :: u32)) (take (unat n) (s_adma2_table s'))"
    using adma2_table_covers [OF _ _ _ r] by (simp add: max_desc ADMA2_MAX_XFER_BYTES_def layout_defs)
  with r show ?thesis by auto
qed

subsection \<open>Operations that store nothing\<close>

definition reads_only :: "'z emmc_scheme \<Rightarrow> 'z emmc_scheme \<Rightarrow> bool" where
  "reads_only s s' \<longleftrightarrow> stores (trace s') = stores (trace s) \<and> (\<exists>t. trace s' = t @ trace s) \<and> dev s' = dev s \<and> dma s' = dma s \<and>
     emmc.more s' = emmc.more s"

interpretation reads_only: io_rel reads_only
  by unfold_locales (auto simp: reads_only_def)

lemma ro_quiet: "state_io_rel quiet m \<Longrightarrow> state_io_rel reads_only m"
  unfolding state_io_rel_def
proof
  fix s :: "'a emmc_scheme"
  assume "\<forall>s. quiet s (snd (run_state m s))"
  then have "quiet s (snd (run_state m s))" by blast
  then show "reads_only s (snd (run_state m s))"
    unfolding quiet_def reads_only_def by (auto simp: stores_def)
qed

lemma ro_rd: "state_io_rel reads_only (rd a)"
  by (simp add: state_io_rel_def reads_only_def stores_def)

lemma ro_upd:
  "(\<And>s. trace (f s) = trace s \<and> dev (f s) = dev s \<and> dma (f s) = dma s \<and> emmc.more (f s) = emmc.more s) \<Longrightarrow>
   state_io_rel reads_only (upd f)"
  by (simp add: state_io_rel_def reads_only_def)

lemma ro_command:
  "\<not> is_store cmd \<Longrightarrow> state_io_rel reads_only m \<Longrightarrow> state_io_rel reads_only (do { wr ARG1 arg; wr CMDTM cmd; m })"
  using reads_only.io_bind [of "do { wr ARG1 arg; wr CMDTM cmd }" "\<lambda>_. m"]
  by (simp add: state_io_rel_def reads_only_def stores_def)

lemma ro_sum: "(\<And>a. state_io_rel R (f a)) \<Longrightarrow> (\<And>b. state_io_rel R (g b)) \<Longrightarrow>
   state_io_rel R (case x of Inl a \<Rightarrow> f a | Inr b \<Rightarrow> g b)"
  by (cases x) simp_all

lemmas ro_quiets = quiet_rules [THEN ro_quiet]

lemma ro_send_command: "\<not> is_store cmd \<Longrightarrow> state_io_rel reads_only (emmc_send_command cmd arg)"
  unfolding emmc_send_command_def
  by (intro ro_command reads_only.io_rules ro_rd ro_quiets; simp)

lemma ro_read_words: "state_io_rel reads_only (read_words n)"
  by (induction n) (auto intro!: reads_only.io_rules ro_rd)

lemma ro_ext_csd: "state_io_rel reads_only emmc_read_ext_csd"
  unfolding emmc_read_ext_csd_def by (intro reads_only.io_rules ro_send_command ro_read_words ro_quiets; simp)

lemma ro_cmd1_loop: "state_io_rel reads_only (cmd1_loop c)"
proof (induction c rule: cmd1_loop.induct)
  case (1 c)
  show ?case
    by (subst cmd1_loop.simps) (intro reads_only.io_rules ro_send_command ro_rd 1; simp)
qed

lemma ro_init_parts:
  "state_io_rel reads_only emmc_probe_capabilities" "state_io_rel reads_only emmc_bus_ok"
  "state_io_rel reads_only emmc_already_running" "state_io_rel reads_only emmc_host_reset"
  "state_io_rel reads_only emmc_power_on" "state_io_rel reads_only emmc_bus_baseline" "state_io_rel reads_only emmc_card_identify"
  unfolding emmc_probe_capabilities_def emmc_bus_ok_def emmc_already_running_def emmc_host_reset_def emmc_power_on_def
    emmc_bus_baseline_def emmc_card_identify_def case_prod_beta
  by (intro ro_sum reads_only.io_rules ro_send_command ro_ext_csd ro_cmd1_loop ro_rd ro_quiets ro_upd; simp)+

lemma ro_init: "state_io_rel reads_only emmc_init"
  unfolding emmc_init_def emmc_negotiate_speed_def
  by (intro reads_only.io_rules ro_init_parts ro_send_command ro_rd ro_quiets ro_upd; simp)

lemma ro_pio_read: "state_io_rel reads_only (pio_read n)"
  by (induction n) (auto intro!: reads_only.io_rules ro_read_words ro_quiets split: prod.splits)

lemma ro_read_blocks: "state_io_rel reads_only (emmc_read_blocks sector addr buf count)"
  unfolding emmc_read_blocks_def emmc_xfer_adma2_def emmc_build_adma2_table_def emmc_reset_cmd_data_def Let_def case_prod_beta
  by (intro reads_only.io_rules ro_send_command ro_pio_read ro_rd ro_quiets ro_upd; simp)

subsection \<open>One sector\<close>

text \<open>The contract of the driver for its clients: a sector write is one store of the sector's words, whole if it reports success, and a
  sector read returns the words the card gave for that sector.\<close>

lemma write_sector:
  assumes "run_state (emmc_write_blocks sector addr buf 1) s = (r, s')" "length buf = 128"
  shows "(\<exists>t. s' = s\<lparr>trace := t @ trace s\<rparr>) \<and>
    (r \<noteq> E_OK \<and> stores (trace s') = stores (trace s) \<or>
     EMMC_FIRMWARE_FLOOR \<le> sector \<and>
       (\<exists>d. stores (trace s') = (CMD24, card_arg s sector, d) # stores (trace s) \<and> d = take (length d) buf \<and> (r = E_OK \<longrightarrow> d = buf)))"
proof (cases "EMMC_FIRMWARE_FLOOR \<le> sector")
  case True
  let ?Q = "\<lambda>r s'. (\<exists>t. s' = s\<lparr>trace := t @ trace s\<rparr>) \<and>
    (r \<noteq> E_OK \<and> stores (trace s') = stores (trace s) \<or>
     EMMC_FIRMWARE_FLOOR \<le> sector \<and>
       (\<exists>d. stores (trace s') = (CMD24, card_arg s sector, d) # stores (trace s) \<and> d = take (length d) buf \<and> (r = E_OK \<longrightarrow> d = buf)))"
  have "post ?Q (emmc_write_blocks sector addr buf 1) s"
    by (rule post_write_blocks [OF bus_refl _ _ True])
      (use assms(2) True in \<open>auto simp: bus_def stores_def min_def\<close>)
  from postD [OF this assms(1)] show ?thesis .
next
  case False
  with assms(1) show ?thesis by (auto simp: emmc_write_blocks_def not_le intro: exI [of _ "[]"])
qed

lemma read_sector:
  assumes "run_state (emmc_read_blocks sector addr buf 1) s = ((r, ws), s')" "length buf = 128"
  shows "(\<exists>t. s' = s\<lparr>trace := t @ trace s\<rparr>) \<and> stores (trace s') = stores (trace s) \<and> length ws = 128 \<and>
    (r = E_OK \<longrightarrow> xfers (trace s') = (CMD17, card_arg s sector, ws) # xfers (trace s))"
proof -
  let ?Q = "\<lambda>p s'. (\<exists>t. s' = s\<lparr>trace := t @ trace s\<rparr>) \<and> stores (trace s') = stores (trace s) \<and> length (snd p) = 128 \<and>
    (fst p = E_OK \<longrightarrow> xfers (trace s') = (CMD17, card_arg s sector, snd p) # xfers (trace s))"
  have "post ?Q (emmc_read_blocks sector addr buf 1) s"
    by (rule post_read_blocks [OF bus_refl]) (use assms(2) in \<open>auto simp: bus_def stores_def\<close>)
  from postD [OF this assms(1)] show ?thesis by simp
qed

subsection \<open>A card that serves given sectors\<close>

text \<open>\<open>serves W s\<close>: the controller is ready and, until the next store, the k-th word read after a command with argument \<open>a\<close> is word
  \<open>k\<close> of \<open>W a\<close>.\<close>

definition serves :: "(u32 \<Rightarrow> u32 list) \<Rightarrow> 'z emmc_scheme \<Rightarrow> bool" where
  "serves W s \<longleftrightarrow> ready s \<and>
     (\<forall>t c a d r. xfers t = (c, a, d) # r \<and> \<not> is_store c \<and> stores t = stores (trace s) \<longrightarrow> dev s t DATA = W a ! length d)"

definition serving_dev :: "(u32 \<Rightarrow> u32 list) \<Rightarrow> access list \<Rightarrow> u32 \<Rightarrow> u32" where
  "serving_dev W t a = (if a = INTERRUPT then 0x33 else if a = DATA then
     (case xfers t of [] \<Rightarrow> 0 | (c, b, d) # _ \<Rightarrow> W b ! length d) else 0)"

lemma serves_serving: "dev s = serving_dev W \<Longrightarrow> serves W s"
  by (auto simp: serves_def ready_def serving_dev_def reg_defs)

lemma ready_bus: "serves W s0 \<Longrightarrow> bus s0 x s \<Longrightarrow> ready s"
  by (auto simp: serves_def ready_def bus_def)

lemma serves_wait_interrupt:
  assumes "serves W s0" "bus s0 x s" "0x33 AND m \<noteq> 0" "\<And>s'. bus s0 x s' \<Longrightarrow> Q E_OK s'"
  shows "post Q (emmc_wait_interrupt m t) s"
proof -
  have "ready s" using ready_bus [OF assms(1,2)] .
  then have "post (\<lambda>r s'. r = E_OK) (emmc_wait_interrupt m t) s" by (rule ready_wait_interrupt [OF _ assms(3)]) simp
  moreover have "post (\<lambda>r s'. bus s0 x s') (emmc_wait_interrupt m t) s" by (rule post_quiet [OF assms(2) quiet_wait(1)])
  ultimately show ?thesis using assms(4) by (auto simp: post_def split: prod.splits)
qed

lemma serves_send_command:
  assumes "serves W s0" "bus s0 x s" "\<And>s'. bus s0 ((cmd, arg, []) # x) s' \<Longrightarrow> Q E_OK s'"
  shows "post Q (emmc_send_command cmd arg) s"
proof -
  have "ready s" using ready_bus [OF assms(1,2)] .
  then have "post (\<lambda>r s'. r = E_OK) (emmc_send_command cmd arg) s" by (rule ready_send_command) simp
  moreover have "post (\<lambda>r s'. r = E_OK \<longrightarrow> bus s0 ((cmd, arg, []) # x) s') (emmc_send_command cmd arg) s"
    by (rule post_send_command [OF assms(2)]) simp_all
  ultimately show ?thesis using assms(3) by (auto simp: post_def split: prod.splits)
qed

lemma serves_read_words:
  assumes "serves W s0" "bus s0 ((c, a, d) # x) s" "\<not> is_store c" "length d + n \<le> length (W a)"
    "filter (\<lambda>(c, a, d). is_store c) x = stores (trace s0)"
    "\<And>s'. bus s0 ((c, a, d @ take n (drop (length d) (W a))) # x) s' \<Longrightarrow> Q (take n (drop (length d) (W a))) s'"
  shows "post Q (read_words n) s"
  using assms(2,4,6)
proof (induction n arbitrary: d s Q)
  case (Suc n)
  let ?w = "W a ! length d"
  have w: "take (Suc n) (drop (length d) (W a)) = ?w # take n (drop (length (d @ [?w])) (W a))"
    using Suc.prems(2) by (simp add: take_Suc_conv_app_nth Cons_nth_drop_Suc [symmetric])
  have v: "dev s (trace s) DATA = ?w"
    using assms(1,3,5) Suc.prems(1) by (auto simp: serves_def bus_def stores_def)
  have b: "bus s0 ((c, a, d @ [?w]) # x) (s\<lparr>trace := [Rd DATA ?w] @ trace s\<rparr>)"
    using Suc.prems(1) assms(3) by (intro bus_trace [OF Suc.prems(1)]) (simp add: bus_def)
  have "post (\<lambda>ws. post Q (return (?w # ws))) (read_words n) (s\<lparr>trace := [Rd DATA ?w] @ trace s\<rparr>)"
    by (rule Suc.IH [OF b]) (use Suc.prems(2) Suc.prems(3) [unfolded w] in \<open>auto intro!: post_return\<close>)
  then show ?case by (auto intro!: post_bind simp: post_def v)
qed (simp add: post_return)

lemma serves_read_sector:
  assumes "serves W s" "length (W (card_arg s sector)) = 128" "length buf = 128"
  shows "\<exists>s'. run_state (emmc_read_blocks sector addr buf 1) s = ((E_OK, W (card_arg s sector)), s')"
proof -
  have sz: "unat (SECTOR_SIZE div 4) = 128" by (simp add: SECTOR_SIZE_def)
  have a: "card_arg s sector = (if is_high_capacity s then sector else sector * SECTOR_SIZE)" by (simp add: card_arg_def)
  note A = assms(2) [unfolded a]
  have "post (\<lambda>p s'. p = (E_OK, W (card_arg s sector))) (emmc_read_blocks sector addr buf 1) s"
    unfolding emmc_read_blocks_def Let_def a
    apply (simp only: one_neq_zero if_False less_irrefl simp_thms if_True unat_1 One_nat_def pio_read.simps sz)
    by (rule post_basic post_gets serves_send_command [OF assms(1)] serves_wait_interrupt [OF assms(1)] serves_read_words [OF assms(1)]
        bus_refl post_quiet [OF bus_refl quiet_wr] ready_masks | assumption | (use assms A in \<open>simp add: stores_def; fail\<close>) | simp only: prod.case)+
  then show ?thesis by (auto simp: post_def split: prod.splits)
qed

end
