(* ===== verification/Watchdog.thy ===== *)
theory Watchdog
  imports Emmc_Props Task_Types
begin

unbundle bit_operations_syntax

text \<open>
  \<^verbatim>\<open>drivers/watchdog/watchdog.c\<close> and \<^verbatim>\<open>watchdog.h\<close>: the PM watchdog, the multicore kick gate and the metadata sector that carries the A/B slot
  state across resets, with \<^verbatim>\<open>kernel/companion_core/companion_core.c\<close>, whose context the gate reads. A signed field keeps its bits in a
  word and is read with \<open>sint\<close>. The pointer \<open>s_config\<close> is the configuration it points to; the contexts live in a store
  indexed by their address. Here a call of \<open>watchdog_core_kick\<close> runs to its end; \<^verbatim>\<open>Watchdog_Gate\<close> takes it apart into the accesses
  at which the cores really interleave.
\<close>

subsection \<open>Registers and state\<close>

definition PM_BASE :: u32 where "PM_BASE = 0xFE100000"
definition PM_PASSWORD :: u32 where "PM_PASSWORD = 0x5A000000"
definition PM_RSTC :: u32 where "PM_RSTC = PM_BASE + 0x1C"
definition PM_WDOG :: u32 where "PM_WDOG = PM_BASE + 0x24"
definition PM_RSTS :: u32 where "PM_RSTS = PM_BASE + 0x28"
definition PM_RSTC_WRCFG_FULL_RESET :: u32 where "PM_RSTC_WRCFG_FULL_RESET = 0x020"
definition PM_RSTC_WRCFG_MASK :: u32 where "PM_RSTC_WRCFG_MASK = 0x030"
definition PM_RSTS_HADWRQ :: u32 where "PM_RSTS_HADWRQ = push_bit 6 1"
definition PM_WDOG_COUNT_MASK :: u32 where "PM_WDOG_COUNT_MASK = 0x000FFFFF"
definition PM_WDOG_TICKS_PER_S :: u32 where "PM_WDOG_TICKS_PER_S = 65536"
definition PM_WDOG_MAX_TIMEOUT :: u32 where "PM_WDOG_MAX_TIMEOUT = 15"

lemmas pm_defs = PM_BASE_def PM_PASSWORD_def PM_RSTC_def PM_WDOG_def PM_RSTS_def PM_RSTC_WRCFG_FULL_RESET_def PM_RSTC_WRCFG_MASK_def
  PM_RSTS_HADWRQ_def PM_WDOG_COUNT_MASK_def PM_WDOG_TICKS_PER_S_def PM_WDOG_MAX_TIMEOUT_def

datatype WatchdogResetPolicy =
    WATCHDOG_RESET_POLICY_FORCE_UPDATE | WATCHDOG_RESET_POLICY_JUMP_SLOT_B | WATCHDOG_RESET_POLICY_ROLLBACK

fun policy_num :: "WatchdogResetPolicy \<Rightarrow> u32" where
  "policy_num WATCHDOG_RESET_POLICY_FORCE_UPDATE = 0"
| "policy_num WATCHDOG_RESET_POLICY_JUMP_SLOT_B = 1"
| "policy_num WATCHDOG_RESET_POLICY_ROLLBACK = 2"

definition WDT_META_MAGIC :: u32 where "WDT_META_MAGIC = 0xB007DA7A"
definition APP_SLOT_TRIAL_MAX_ATTEMPTS :: u32 where "APP_SLOT_TRIAL_MAX_ATTEMPTS = 3"
definition WATCHDOG_RESET_TOLERANCE_INFINITE :: u32 where "WATCHDOG_RESET_TOLERANCE_INFINITE = -1"

record CompanionCoreContext =
  expected_mask :: u32
  core_kicked :: "nat \<Rightarrow> u8"

record WatchdogConfig =
  timeout_s :: u32
  reset_policy :: WatchdogResetPolicy
  tolerance :: u32
  confirm_delay_ms :: u64
  multicore_mode :: bool
  companion_core_ctx :: "nat option"

record WdtMeta =
  meta_magic :: u32
  wdt_reset_count :: u32
  wdt_reset_tolerance :: u32
  wdt_reset_policy :: u32
  wdt_reset_reason :: u32
  active_app_slot :: u32
  app_slot_trial :: u32
  trial_boot_count :: u32
  meta_crc :: u32

record watchdog = emmc +
  s_timeout_ticks :: u32
  s_config :: "WatchdogConfig option"
  wdt_meta :: WdtMeta
  s_sector_buf :: "u32 list"
  core_ctx :: "nat \<Rightarrow> CompanionCoreContext"
  s_context :: "nat option"
  g_core_alive_mask :: u32
  g_core_mailbox :: "nat \<Rightarrow> u32"

subsection \<open>The metadata sector\<close>

text \<open>The struct as the words of the sector it is written to, and back.\<close>

definition meta_words :: "WdtMeta \<Rightarrow> u32 list" where
  "meta_words m = [meta_magic m, wdt_reset_count m, wdt_reset_tolerance m, wdt_reset_policy m, wdt_reset_reason m,
     active_app_slot m, app_slot_trial m, trial_boot_count m, meta_crc m]"

definition meta_of :: "u32 list \<Rightarrow> WdtMeta" where
  "meta_of ws = \<lparr>meta_magic = ws ! 0, wdt_reset_count = ws ! 1, wdt_reset_tolerance = ws ! 2, wdt_reset_policy = ws ! 3,
     wdt_reset_reason = ws ! 4, active_app_slot = ws ! 5, app_slot_trial = ws ! 6, trial_boot_count = ws ! 7, meta_crc = ws ! 8\<rparr>"

definition wdt_meta_compute_crc :: "WdtMeta \<Rightarrow> u32" where
  "wdt_meta_compute_crc m = crc32_finish (crc32_update (bytes_of (take 8 (meta_words m))) crc32_start)"

definition default_meta :: WdtMeta where
  "default_meta = \<lparr>meta_magic = WDT_META_MAGIC, wdt_reset_count = 0, wdt_reset_tolerance = WATCHDOG_RESET_TOLERANCE_INFINITE,
     wdt_reset_policy = 0, wdt_reset_reason = 0, active_app_slot = APP_SLOT_A, app_slot_trial = 0, trial_boot_count = 0,
     meta_crc = 0\<rparr>"

definition wdt_meta_set_defaults :: "('z watchdog_scheme, unit) state" where
  "wdt_meta_set_defaults = upd (\<lambda>s. s\<lparr>wdt_meta := default_meta\<rparr>)"

definition wdt_meta_read :: "('z watchdog_scheme, StatusCode) state" where
  "wdt_meta_read = do {
     buf \<leftarrow> gets s_sector_buf;
     (ret, buf) \<leftarrow> emmc_read_blocks EMMC_SECTOR_METADATA 0 buf 1;
     upd (s_sector_buf_update (\<lambda>_. buf));
     if ret \<noteq> E_OK then return ret
     else do {
       (if meta_magic (meta_of buf) \<noteq> WDT_META_MAGIC \<or> meta_crc (meta_of buf) \<noteq> wdt_meta_compute_crc (meta_of buf)
        then wdt_meta_set_defaults
        else upd (\<lambda>s. s\<lparr>wdt_meta := meta_of buf\<rparr>));
       return E_OK } }"

definition wdt_meta_write :: "('z watchdog_scheme, StatusCode) state" where
  "wdt_meta_write = do {
     upd (\<lambda>s. s\<lparr>wdt_meta := (wdt_meta s)\<lparr>meta_magic := WDT_META_MAGIC\<rparr>\<rparr>);
     upd (\<lambda>s. s\<lparr>wdt_meta := (wdt_meta s)\<lparr>meta_crc := wdt_meta_compute_crc (wdt_meta s)\<rparr>\<rparr>);
     m \<leftarrow> gets wdt_meta;
     let buf = meta_words m @ replicate (unat (SECTOR_SIZE div 4) - length (meta_words m)) 0;
     upd (s_sector_buf_update (\<lambda>_. buf));
     emmc_write_blocks EMMC_SECTOR_METADATA 0 buf 1 }"

definition wdt_meta_confirm_slot :: "('z watchdog_scheme, StatusCode) state" where
  "wdt_meta_confirm_slot = do {
     ret \<leftarrow> wdt_meta_read;
     if ret \<noteq> E_OK then return ret
     else do {
       upd (\<lambda>s. s\<lparr>wdt_meta := (wdt_meta s)\<lparr>app_slot_trial := 0, trial_boot_count := 0, wdt_reset_count := 0\<rparr>\<rparr>);
       wdt_meta_write } }"

subsection \<open>The watchdog\<close>

definition watchdog_was_wdt_reset :: "('z watchdog_scheme, bool) state" where
  "watchdog_was_wdt_reset = do { v \<leftarrow> rd PM_RSTS; return (v AND PM_RSTS_HADWRQ \<noteq> 0) }"

definition watchdog_init :: "WatchdogConfig option \<Rightarrow> ('z watchdog_scheme, StatusCode) state" where
  "watchdog_init config = (case config of
     None \<Rightarrow> return E_INVALID_ARGS
   | Some config \<Rightarrow>
       if timeout_s config = 0 then return E_INVALID_ARGS
       else do {
         let config = (if timeout_s config > PM_WDOG_MAX_TIMEOUT then config\<lparr>timeout_s := PM_WDOG_MAX_TIMEOUT\<rparr> else config);
         let ticks = (timeout_s config * PM_WDOG_TICKS_PER_S) AND PM_WDOG_COUNT_MASK;
         upd (s_timeout_ticks_update (\<lambda>_. ticks));
         upd (s_config_update (\<lambda>_. Some config));
         wr PM_WDOG (PM_PASSWORD OR ticks);
         wr PM_RSTC (PM_PASSWORD OR PM_RSTC_WRCFG_FULL_RESET);
         _ \<leftarrow> emmc_init;
         r \<leftarrow> wdt_meta_read;
         (if r = E_OK then do {
            upd (\<lambda>s. s\<lparr>wdt_meta := (wdt_meta s)\<lparr>wdt_reset_tolerance := tolerance config, wdt_reset_policy := policy_num (reset_policy config)\<rparr>\<rparr>);
            _ \<leftarrow> wdt_meta_write;
            return () }
          else return ());
         return E_OK })"

definition watchdog_kick :: "('z watchdog_scheme, unit) state" where
  "watchdog_kick = do { ticks \<leftarrow> gets s_timeout_ticks; wr PM_WDOG (PM_PASSWORD OR ticks) }"

text \<open>The version of \<open>WATCHDOG_MINIMAL\<close> builds, and the one with the gate; \<open>cid\<close> is the calling core.\<close>

definition watchdog_core_kick_minimal :: "('z watchdog_scheme, StatusCode) state" where
  "watchdog_core_kick_minimal = do {
     c \<leftarrow> gets s_config;
     if c = None then return E_NOT_INITIALIZED else do { watchdog_kick; return E_OK } }"

definition all_reported :: "CompanionCoreContext \<Rightarrow> bool" where
  "all_reported ctx = list_all (\<lambda>i. \<not> (expected_mask ctx AND push_bit i 1 \<noteq> 0 \<and> core_kicked ctx i = 0)) [0..<COMPANION_CORE_MAX_CORES]"

definition watchdog_core_kick :: "nat \<Rightarrow> ('z watchdog_scheme, StatusCode) state" where
  "watchdog_core_kick cid = do {
     c \<leftarrow> gets s_config;
     case c of
       None \<Rightarrow> return E_NOT_INITIALIZED
     | Some config \<Rightarrow>
         if \<not> multicore_mode config \<or> companion_core_ctx config = None then do { watchdog_kick; return E_OK }
         else do {
           let p = the (companion_core_ctx config);
           upd (core_ctx_update (\<lambda>h. h(p := (h p)\<lparr>core_kicked := (core_kicked (h p))(cid := 1)\<rparr>)));
           ctx \<leftarrow> gets (\<lambda>s. core_ctx s p);
           if \<not> all_reported ctx then return E_OK
           else do {
             upd (core_ctx_update (\<lambda>h. h(p := (h p)\<lparr>core_kicked := (\<lambda>i. if i < COMPANION_CORE_MAX_CORES then 0 else core_kicked (h p) i)\<rparr>)));
             watchdog_kick;
             return E_OK } } }"

definition watchdog_disable :: "('z watchdog_scheme, unit) state" where
  "watchdog_disable = do {
     v \<leftarrow> rd PM_RSTC;
     let rstc = v AND NOT PM_RSTC_WRCFG_MASK;
     wr PM_RSTC (PM_PASSWORD OR rstc) }"

text \<open>After the two writes the function spins until the reset: a caller does not continue.\<close>

definition watchdog_trigger_reset :: "('z watchdog_scheme, unit) state" where
  "watchdog_trigger_reset = do {
     wr PM_WDOG (PM_PASSWORD OR 10);
     wr PM_RSTC (PM_PASSWORD OR PM_RSTC_WRCFG_FULL_RESET) }"

subsection \<open>Companion cores\<close>

definition companion_core_id :: "u32 \<Rightarrow> u32" where
  "companion_core_id mpidr = mpidr AND 0x3"

definition companion_core_start :: "u32 \<Rightarrow> u32 \<Rightarrow> ('z watchdog_scheme, StatusCode) state" where
  "companion_core_start cid entry = (
     if cid = 0 \<or> cid \<ge> of_nat COMPANION_CORE_MAX_CORES then return E_INVALID_ARGS
     else do {
       upd (g_core_mailbox_update (\<lambda>m. m(unat cid := entry)));
       upd (g_core_alive_mask_update (\<lambda>m. m OR push_bit (unat cid) 1));
       c \<leftarrow> gets s_context;
       (case c of
          None \<Rightarrow> return ()
        | Some p \<Rightarrow> upd (core_ctx_update (\<lambda>h. h(p := (h p)\<lparr>expected_mask := expected_mask (h p) OR push_bit (unat cid) 1\<rparr>))));
       return E_OK })"

definition companion_core_init :: "nat option \<Rightarrow> ('z watchdog_scheme, StatusCode) state" where
  "companion_core_init context = (case context of
     None \<Rightarrow> return E_INVALID_ARGS
   | Some p \<Rightarrow> do {
       upd (core_ctx_update (\<lambda>h. h(p := (h p)\<lparr>expected_mask := push_bit 0 1,
              core_kicked := (\<lambda>i. if i < COMPANION_CORE_MAX_CORES then 0 else core_kicked (h p) i)\<rparr>)));
       upd (s_context_update (\<lambda>_. Some p));
       return E_OK })"

end
