(* ===== verification/Watchdog_Props.thy ===== *)
theory Watchdog_Props
  imports Watchdog
begin

unbundle bit_operations_syntax

text \<open>
  What the metadata sector promises to the boot stages, for every card: what is written is read back, and a damaged
  sector is replaced by the defaults; and that the multicore gate of the watchdog opens while all cores report.
\<close>

subsection \<open>The metadata sector survives or falls back\<close>

lemma meta_of_words [simp]: "meta_of (meta_words m @ z) = m"
  by (cases m) (simp add: meta_of_def meta_words_def)

lemma meta_words_of:
  assumes "length xs = 9" shows "meta_words (meta_of (xs @ z)) = xs"
proof -
  from assms obtain a b c d e f g h i where "xs = [a, b, c, d, e, f, g, h, i]"
    by (auto simp: numeral_eq_Suc length_Suc_conv)
  then show ?thesis by (simp add: meta_words_def meta_of_def)
qed

lemma length_meta_words [simp]: "length (meta_words m) = 9"
  by (simp add: meta_words_def)

lemma word_bytes_le32: "word_bytes w = [a, b, c, d] \<Longrightarrow> w = le32 a b c d"
  by (rule bit_word_eqI) (auto simp: word_bytes_def bit_le32 bit_simps)

lemma word_bytes_inj: "word_bytes w = word_bytes w' \<Longrightarrow> w = w'"
  using word_bytes_le32 [of w] word_bytes_le32 [of w'] by (simp add: word_bytes_def)

lemma length_word_bytes [simp]: "length (word_bytes w) = 4"
  by (simp add: word_bytes_def)

lemma meta_crc_eq: "wdt_meta_compute_crc m = crc32 (bytes_of (take 8 (meta_words m)))"
  by (simp add: wdt_meta_compute_crc_def crc32_def)

lemma meta_crc_nth: "meta_crc m = meta_words m ! 8"
  by (simp add: meta_words_def)

text \<open>One changed word of the hashed part changes the checksum.\<close>

lemma crc_one_word:
  assumes "i < length ws" "crc32 (bytes_of (ws[i := v])) = crc32 (bytes_of ws)"
  shows "v = ws ! i"
proof -
  have s: "bytes_of (ws[i := x]) = bytes_of (take i ws) @ word_bytes x @ bytes_of (drop (Suc i) ws)" for x
    using assms(1) by (simp add: bytes_of_def upd_conv_take_nth_drop)
  have "word_bytes v = word_bytes (ws ! i)"
    using assms(2) s [of v] s [of "ws ! i"] by (intro crc32_burst_inj [of "bytes_of (take i ws)"]) simp_all
  then show ?thesis by (rule word_bytes_inj)
qed

definition sealed :: "WdtMeta \<Rightarrow> WdtMeta" where
  "sealed m = m\<lparr>meta_magic := WDT_META_MAGIC, meta_crc := wdt_meta_compute_crc (m\<lparr>meta_magic := WDT_META_MAGIC\<rparr>)\<rparr>"

definition meta_sector :: "WdtMeta \<Rightarrow> u32 list" where
  "meta_sector m = meta_words (sealed m) @ replicate 119 0"

lemma sealed_facts: "meta_magic (sealed m) = WDT_META_MAGIC" "meta_crc (sealed m) = wdt_meta_compute_crc (sealed m)"
  by (simp_all add: sealed_def wdt_meta_compute_crc_def meta_words_def)

lemma sealed_crc: "meta_words (sealed m) ! 8 = crc32 (bytes_of (take 8 (meta_words (sealed m))))"
  using sealed_facts(2) [of m] unfolding meta_crc_eq meta_crc_nth .

lemma length_meta_sector [simp]: "length (meta_sector m) = 128"
  by (simp add: meta_sector_def)

lemma wdt_meta_write_eq:
  "run_state wdt_meta_write s =
     run_state (emmc_write_blocks EMMC_SECTOR_METADATA 0 (meta_sector (wdt_meta s)) 1)
       (s\<lparr>wdt_meta := sealed (wdt_meta s), s_sector_buf := meta_sector (wdt_meta s)\<rparr>)"
  by (simp add: wdt_meta_write_def sealed_def meta_sector_def Let_def SECTOR_SIZE_def)

lemma wdt_meta_write_spec:
  assumes "run_state wdt_meta_write s = (r, s')"
  shows "\<exists>t. s' = s\<lparr>wdt_meta := sealed (wdt_meta s), s_sector_buf := meta_sector (wdt_meta s), trace := t @ trace s\<rparr> \<and>
    (r \<noteq> E_OK \<and> stores (trace s') = stores (trace s) \<or>
     (\<exists>d. stores (trace s') = (CMD24, card_arg s EMMC_SECTOR_METADATA, d) # stores (trace s) \<and>
        d = take (length d) (meta_sector (wdt_meta s)) \<and> (r = E_OK \<longrightarrow> d = meta_sector (wdt_meta s))))"
  using write_sector [OF assms [unfolded wdt_meta_write_eq]] by (auto simp: card_arg_def)

lemma wdt_meta_read_spec:
  assumes "run_state wdt_meta_read s = (r, s')" "length (s_sector_buf s) = 128"
  shows "\<exists>t ws. trace s' = t @ trace s \<and> stores (trace s') = stores (trace s) \<and> length ws = 128 \<and>
    s' = s\<lparr>trace := trace s', s_sector_buf := ws, wdt_meta := if r \<noteq> E_OK then wdt_meta s
           else if meta_magic (meta_of ws) = WDT_META_MAGIC \<and> meta_crc (meta_of ws) = wdt_meta_compute_crc (meta_of ws)
           then meta_of ws else default_meta\<rparr> \<and>
    (r = E_OK \<longrightarrow> xfers (trace s') = (CMD17, card_arg s EMMC_SECTOR_METADATA, ws) # xfers (trace s))"
proof -
  obtain r0 ws s1 where rd: "run_state (emmc_read_blocks EMMC_SECTOR_METADATA 0 (s_sector_buf s) 1) s = ((r0, ws), s1)"
    by (metis prod.exhaust)
  from read_sector [OF rd assms(2)] obtain t where t: "s1 = s\<lparr>trace := t @ trace s\<rparr>" "stores (trace s1) = stores (trace s)"
    "length ws = 128" "r0 = E_OK \<longrightarrow> xfers (trace s1) = (CMD17, card_arg s EMMC_SECTOR_METADATA, ws) # xfers (trace s)" by blast
  show ?thesis
    using assms(1) rd t
    by (intro exI [of _ t] exI [of _ ws])
      (auto simp: wdt_meta_read_def wdt_meta_set_defaults_def split: if_splits)
qed

text \<open>Claim C19 (roundtrip). What \<open>wdt_meta_write\<close> stores, when it reports success, is one whole sector at \<open>EMMC_SECTOR_METADATA\<close>, and a
  later \<open>wdt_meta_read\<close>, of this or of another boot stage, to which the card returns those words gives back the same metadata.\<close>

theorem wdt_meta_roundtrip:
  assumes "run_state wdt_meta_write s = (E_OK, s1)" "run_state wdt_meta_read s2 = (E_OK, s3)" "length (s_sector_buf s2) = 128"
    "stores (trace s1) = (c, a, ws) # old" "xfers (trace s3) = (c', a', ws) # old'"
  shows "c = CMD24 \<and> a = card_arg s EMMC_SECTOR_METADATA \<and> c' = CMD17 \<and> a' = card_arg s2 EMMC_SECTOR_METADATA \<and> length ws = 128 \<and>
    wdt_meta s3 = wdt_meta s1 \<and> wdt_meta s1 = sealed (wdt_meta s)"
proof -
  from wdt_meta_write_spec [OF assms(1)] assms(4)
  have w: "c = CMD24" "a = card_arg s EMMC_SECTOR_METADATA" "ws = meta_sector (wdt_meta s)" "wdt_meta s1 = sealed (wdt_meta s)"
    by auto
  from wdt_meta_read_spec [OF assms(2,3)] assms(5)
  have r: "c' = CMD17" "a' = card_arg s2 EMMC_SECTOR_METADATA" "length ws = 128" "wdt_meta s3 = (if meta_magic (meta_of ws) = WDT_META_MAGIC \<and>
      meta_crc (meta_of ws) = wdt_meta_compute_crc (meta_of ws) then meta_of ws else default_meta)"
    by (auto dest!: arg_cong [of _ _ wdt_meta])
  then show ?thesis using w sealed_facts by (simp add: meta_sector_def)
qed

text \<open>A torn or decayed metadata sector is never believed: if the words the card returns are those of a valid sector with
  any one of the nine metadata words changed, the shadow falls back to the defaults, slot A without a trial.\<close>

theorem wdt_meta_corruption:
  assumes "run_state wdt_meta_read s = (E_OK, s')" "length (s_sector_buf s) = 128"
    "xfers (trace s') = (c, a, (meta_sector m)[i := v]) # old" "i < 9" "v \<noteq> meta_sector m ! i"
  shows "wdt_meta s' = default_meta"
proof -
  define ws where "ws = (meta_sector m)[i := v]"
  from wdt_meta_read_spec [OF assms(1,2)] assms(3) [folded ws_def]
  have r: "wdt_meta s' = (if meta_magic (meta_of ws) = WDT_META_MAGIC \<and>
      meta_crc (meta_of ws) = wdt_meta_compute_crc (meta_of ws) then meta_of ws else default_meta)"
    by (auto dest!: arg_cong [of _ _ wdt_meta])
  have ws: "ws = (meta_words (sealed m))[i := v] @ replicate 119 0"
    using assms(4) by (simp add: ws_def meta_sector_def list_update_append)
  have mw: "meta_words (meta_of ws) = (meta_words (sealed m))[i := v]"
    unfolding ws by (rule meta_words_of) simp
  have v: "v \<noteq> meta_words (sealed m) ! i" using assms(4,5) by (simp add: meta_sector_def nth_append)
  have "(meta_words (sealed m))[i := v] ! 8 \<noteq> crc32 (bytes_of (take 8 ((meta_words (sealed m))[i := v])))"
  proof (cases "i = 8")
    case True
    then show ?thesis using v sealed_crc [of m] by simp
  next
    case False
    then have i: "i < 8" using assms(4) by simp
    have "crc32 (bytes_of ((take 8 (meta_words (sealed m)))[i := v])) \<noteq> crc32 (bytes_of (take 8 (meta_words (sealed m))))"
      using crc_one_word [of i "take 8 (meta_words (sealed m))" v] v i by auto
    then show ?thesis using False sealed_crc [of m] by (simp add: take_update_swap)
  qed
  then have "meta_crc (meta_of ws) \<noteq> wdt_meta_compute_crc (meta_of ws)"
    unfolding meta_crc_eq meta_crc_nth mw .
  then show ?thesis using r by simp
qed

subsection \<open>Concrete boards\<close>

definition board :: "(u32 \<Rightarrow> u32 list) \<Rightarrow> WdtMeta \<Rightarrow> watchdog" where
  "board W m = \<lparr>dev = serving_dev W, trace = [], s_uart_configs = (\<lambda>_. None), dma = (\<lambda>_ b. b), rca = 1, is_high_capacity = True, s_emmc_initialized = True,
     s_adma2_supported = False, s_device_type = 0, s_sec_count = 0, s_adma2_table = [], s_adma2_table_addr = 0, s_timeout_ticks = 0,
     s_config = None, wdt_meta = m, s_sector_buf = replicate 128 0, core_ctx = (\<lambda>_. \<lparr>expected_mask = 1, core_kicked = (\<lambda>_. 0)\<rparr>),
     s_context = None, g_core_alive_mask = 0, g_core_mailbox = (\<lambda>_. 0)\<rparr>"

definition trial_meta :: WdtMeta where
  "trial_meta = default_meta\<lparr>active_app_slot := APP_SLOT_B, app_slot_trial := 1, trial_boot_count := 2\<rparr>"

lemma board_facts [simp]: "serves W (board W m)" "length (s_sector_buf (board W m)) = 128" "wdt_meta (board W m) = m"
  "is_high_capacity (board W m)" "trace (board W m) = []" "card_arg (board W m) sec = sec"
  by (simp_all add: serves_serving board_def card_arg_def)

lemma ready_more: "ready s \<Longrightarrow> ready (s\<lparr>wdt_meta := m, s_sector_buf := b\<rparr>)"
  by (simp add: ready_def)

lemma ready_meta_write: "ready s \<Longrightarrow> \<exists>s'. run_state wdt_meta_write s = (E_OK, s')"
proof -
  assume "ready s"
  then have "ready (s\<lparr>wdt_meta := sealed (wdt_meta s), s_sector_buf := meta_sector (wdt_meta s)\<rparr>)" by (rule ready_more)
  from ready_write_blocks [OF this, of EMMC_SECTOR_METADATA 1] show ?thesis
    unfolding wdt_meta_write_eq by (auto simp: layout_defs prod_eq_iff)
qed

lemma serves_meta_read:
  assumes "serves W s" "length (s_sector_buf s) = 128" "length (W (card_arg s EMMC_SECTOR_METADATA)) = 128"
  shows "\<exists>s'. run_state wdt_meta_read s = (E_OK, s') \<and>
    xfers (trace s') = (CMD17, card_arg s EMMC_SECTOR_METADATA, W (card_arg s EMMC_SECTOR_METADATA)) # xfers (trace s)"
proof -
  from serves_read_sector [OF assms(1,3,2), of 0]
  obtain s1 where r: "run_state (emmc_read_blocks EMMC_SECTOR_METADATA 0 (s_sector_buf s) 1) s = ((E_OK, W (card_arg s EMMC_SECTOR_METADATA)), s1)"
    by blast
  from read_sector [OF r assms(2)] r show ?thesis
    by (auto simp: wdt_meta_read_def wdt_meta_set_defaults_def)
qed

theorem wdt_meta_roundtrip_witness:
  "\<exists>s1 s3. run_state wdt_meta_write (board (\<lambda>_. []) trial_meta) = (E_OK, s1) \<and>
     run_state wdt_meta_read (board (\<lambda>_. meta_sector trial_meta) default_meta) = (E_OK, s3) \<and>
     wdt_meta s3 = wdt_meta s1 \<and> active_app_slot (wdt_meta s3) = APP_SLOT_B"
proof -
  let ?s = "board (\<lambda>_. []) trial_meta" and ?s2 = "board (\<lambda>_. meta_sector trial_meta) default_meta"
  have "ready ?s" using board_facts(1) by (simp add: serves_def)
  from ready_meta_write [OF this] obtain s1 where w: "run_state wdt_meta_write ?s = (E_OK, s1)" by blast
  from wdt_meta_write_spec [OF this] have st: "stores (trace s1) = [(CMD24, EMMC_SECTOR_METADATA, meta_sector trial_meta)]"
    by (auto simp: stores_def)
  from serves_meta_read [OF board_facts(1), of "\<lambda>_. meta_sector trial_meta" default_meta]
  obtain s3 where r: "run_state wdt_meta_read ?s2 = (E_OK, s3)"
    "xfers (trace s3) = [(CMD17, EMMC_SECTOR_METADATA, meta_sector trial_meta)]" by auto
  from wdt_meta_roundtrip [OF w r(1) _ st r(2)] w r show ?thesis
    by (auto simp: sealed_def trial_meta_def)
qed

theorem wdt_meta_corruption_witness:
  "\<exists>s'. run_state wdt_meta_read (board (\<lambda>_. (meta_sector trial_meta)[5 := 0]) trial_meta) = (E_OK, s') \<and> wdt_meta s' = default_meta"
proof -
  let ?s = "board (\<lambda>_. (meta_sector trial_meta)[5 := 0]) trial_meta"
  from serves_meta_read [OF board_facts(1), of "\<lambda>_. (meta_sector trial_meta)[5 := 0]" trial_meta]
  obtain s' where r: "run_state wdt_meta_read ?s = (E_OK, s')"
    "xfers (trace s') = [(CMD17, EMMC_SECTOR_METADATA, (meta_sector trial_meta)[5 := 0])]" by auto
  have "0 \<noteq> meta_sector trial_meta ! 5"
    by (simp add: meta_sector_def meta_words_def sealed_def trial_meta_def APP_SLOT_B_def)
  from wdt_meta_corruption [OF r(1) _ r(2) _ this] r(1) show ?thesis by auto
qed

subsection \<open>The multicore kick gate\<close>

text \<open>\<open>kicks t\<close> is the number of times the hardware counter was reloaded.\<close>

definition kicks :: "access list \<Rightarrow> nat" where
  "kicks t = length (filter (\<lambda>x. case x of Wr a v \<Rightarrow> a = PM_WDOG | Rd a v \<Rightarrow> False) t)"

definition core_kicks :: "nat list \<Rightarrow> 'z watchdog_scheme \<Rightarrow> 'z watchdog_scheme" where
  "core_kicks cids s = fold (\<lambda>cid s. snd (run_state (watchdog_core_kick cid) s)) cids s"

lemma core_kick_step:
  assumes "s_config s = Some c" "multicore_mode c" "companion_core_ctx c = Some p"
    "run_state (watchdog_core_kick cid) s = (r, s')"
  shows "s_config s' = Some c \<and> expected_mask (core_ctx s' p) = expected_mask (core_ctx s p) \<and>
    (let k = (core_kicked (core_ctx s p))(cid := 1) in
     if all_reported ((core_ctx s p)\<lparr>core_kicked := k\<rparr>)
     then kicks (trace s') = kicks (trace s) + 1 \<and> (\<forall>i<COMPANION_CORE_MAX_CORES. core_kicked (core_ctx s' p) i = 0)
     else kicks (trace s') = kicks (trace s) \<and> core_kicked (core_ctx s' p) = k)"
  using assms by (auto simp: watchdog_core_kick_def watchdog_kick_def Let_def kicks_def split: if_splits)

definition gated_board :: watchdog where
  "gated_board = (board (\<lambda>_. []) default_meta)\<lparr>s_config := Some \<lparr>timeout_s = 5, reset_policy = WATCHDOG_RESET_POLICY_ROLLBACK, tolerance = 3,
     confirm_delay_ms = 0, multicore_mode = True, companion_core_ctx = Some 7\<rparr>,
     core_ctx := (\<lambda>_. \<lparr>expected_mask = 5, core_kicked = (\<lambda>_. 0)\<rparr>)\<rparr>"

definition expects :: "CompanionCoreContext \<Rightarrow> nat \<Rightarrow> bool" where
  "expects ctx i \<longleftrightarrow> i < COMPANION_CORE_MAX_CORES \<and> expected_mask ctx AND push_bit i 1 \<noteq> 0"

lemma core_kicks_append: "core_kicks (xs @ ys) s = core_kicks ys (core_kicks xs s)"
  by (simp add: core_kicks_def)

lemma core_kicks_keep:
  assumes "s_config s = Some c" "multicore_mode c" "companion_core_ctx c = Some p"
  shows "s_config (core_kicks cids s) = Some c \<and> expected_mask (core_ctx (core_kicks cids s) p) = expected_mask (core_ctx s p) \<and>
    kicks (trace s) \<le> kicks (trace (core_kicks cids s))"
  using assms(1)
proof (induction cids arbitrary: s)
  case (Cons cid cids)
  obtain r s' where st: "run_state (watchdog_core_kick cid) s = (r, s')" by (cases "run_state (watchdog_core_kick cid) s")
  note S = core_kick_step [OF Cons.prems assms(2,3) st]
  have "core_kicks (cid # cids) s = core_kicks cids s'" by (simp add: core_kicks_def st)
  then show ?case using S Cons.IH [of s'] by (auto simp: Let_def split: if_splits)
qed (simp add: core_kicks_def)

lemma core_kicks_round:
  assumes "s_config s = Some c" "multicore_mode c" "companion_core_ctx c = Some p" "cids \<noteq> []"
    and "\<And>i. expects (core_ctx s p) i \<Longrightarrow> core_kicked (core_ctx s p) i \<noteq> 0 \<or> i \<in> set cids"
  shows "kicks (trace s) < kicks (trace (core_kicks cids s))"
  using assms(1,4,5)
proof (induction cids arbitrary: s)
  case (Cons cid cids)
  obtain r s' where st: "run_state (watchdog_core_kick cid) s = (r, s')" by (cases "run_state (watchdog_core_kick cid) s")
  note S = core_kick_step [OF Cons.prems(1) assms(2,3) st]
  have u: "core_kicks (cid # cids) s = core_kicks cids s'" by (simp add: core_kicks_def st)
  let ?k = "(core_kicked (core_ctx s p))(cid := 1)"
  show ?case
  proof (cases "all_reported ((core_ctx s p)\<lparr>core_kicked := ?k\<rparr>)")
    case True
    then have "kicks (trace s') = kicks (trace s) + 1" "s_config s' = Some c" using S by (simp_all add: Let_def)
    then show ?thesis using core_kicks_keep [of s' c p cids] assms(2,3) unfolding u by simp
  next
    case False
    then have s': "kicks (trace s') = kicks (trace s)" "core_kicked (core_ctx s' p) = ?k" "s_config s' = Some c"
      "expects (core_ctx s' p) = expects (core_ctx s p)" using S by (auto simp: Let_def expects_def)
    have rest: "?k i \<noteq> 0 \<or> i \<in> set cids" if "expects (core_ctx s p) i" for i using Cons.prems(3) [OF that] by auto
    have "cids \<noteq> []"
    proof
      assume "cids = []"
      then have "\<forall>i. expects (core_ctx s p) i \<longrightarrow> ?k i \<noteq> 0" using rest by auto
      then have "all_reported ((core_ctx s p)\<lparr>core_kicked := ?k\<rparr>)"
        by (auto simp: all_reported_def expects_def list_all_iff simp del: fun_upd_apply)
      with False show False by simp
    qed
    then show ?thesis using Cons.IH [of s'] s' rest unfolding u by simp
  qed
qed simp

text \<open>Claim C34 (liveness). In multicore mode the watchdog is fed as long as all expected cores are alive: in every round in which each of them reports at least
  once, in whatever order and however often, the hardware counter is reloaded, whichever reports were pending before; over any number of rounds it is
  reloaded at least once per round.\<close>

theorem watchdog_gate_opens:
  assumes "s_config s = Some c" "multicore_mode c" "companion_core_ctx c = Some p"
    and "list_all (\<lambda>cids. cids \<noteq> [] \<and> list_all (\<lambda>i. expected_mask (core_ctx s p) AND push_bit i 1 = 0 \<or> i \<in> set cids) [0..<COMPANION_CORE_MAX_CORES]) rounds"
  shows "kicks (trace s) + length rounds \<le> kicks (trace (core_kicks (concat rounds) s))"
  using assms(1,4)
proof (induction rounds arbitrary: s)
  case (Cons cids rounds)
  let ?s = "core_kicks cids s"
  note K = core_kicks_keep [OF Cons.prems(1) assms(2,3), of cids]
  have "kicks (trace s) < kicks (trace ?s)"
    by (rule core_kicks_round [OF Cons.prems(1) assms(2,3)]) (use Cons.prems(2) in \<open>auto simp: expects_def list_all_iff\<close>)
  moreover have "kicks (trace ?s) + length rounds \<le> kicks (trace (core_kicks (concat rounds) ?s))"
    by (rule Cons.IH) (use K Cons.prems(2) in simp_all)
  ultimately show ?case by (simp add: core_kicks_append)
qed (simp add: core_kicks_def)

theorem watchdog_gate_opens_witness:
  "2 \<le> kicks (trace (core_kicks [0, 2, 2, 0, 2, 0] gated_board))"
  using watchdog_gate_opens [of gated_board _ 7 "[[0, 2, 2], [0, 2, 0]]"]
  by (simp add: gated_board_def board_def task_consts upt_rec)

end
