(* ===== verification/Dfu_Trigger.thy ===== *)
theory Dfu_Trigger
  imports Software_Timer
begin

unbundle bit_operations_syntax

text \<open>
  \<^verbatim>\<open>boot/boot_flags/boot_flags.c\<close> and \<^verbatim>\<open>boot/dfu_trigger/dfu_trigger.c\<close>: the RAM flags that survive a warm reset, the
  four-byte trigger matcher shared by app and bootloader, and the app's path from the matcher to the reboot: the
  interrupt signals a semaphore, a task takes it and requests the bootloader.
\<close>

subsection \<open>Boot flags\<close>

definition BOOT_FLAGS_MAGIC :: u32 where "BOOT_FLAGS_MAGIC = 0xB007F1A6"
definition DFU_REQUEST :: u32 where "DFU_REQUEST = 0xB007AB1E"
definition RESET_REASON_COLD :: u32 where "RESET_REASON_COLD = 0"
definition RESET_REASON_WATCHDOG :: u32 where "RESET_REASON_WATCHDOG = 1"
definition RESET_REASON_SOFTWARE :: u32 where "RESET_REASON_SOFTWARE = 2"

record BootFlags =
  bf_magic :: u32
  reset_reason :: u32
  dfu_requested :: u32
  fw_crc_ok :: u32

definition boot_flags_valid :: "BootFlags \<Rightarrow> bool" where
  "boot_flags_valid f \<longleftrightarrow> bf_magic f = BOOT_FLAGS_MAGIC"

definition boot_flags_init :: "BootFlags \<Rightarrow> BootFlags" where
  "boot_flags_init f =
     (if \<not> boot_flags_valid f
      then f\<lparr>reset_reason := RESET_REASON_COLD, dfu_requested := 0, fw_crc_ok := 0, bf_magic := BOOT_FLAGS_MAGIC\<rparr>
      else f)"

subsection \<open>The matcher\<close>

definition DFU_TRIGGER_KEY :: u32 where "DFU_TRIGGER_KEY = 0xDF00DF00"

definition dfu_trigger_reset :: u32 where "dfu_trigger_reset = 0"

definition dfu_trigger_feed :: "u8 \<Rightarrow> u32 \<Rightarrow> bool \<times> u32" where
  "dfu_trigger_feed byte shift_reg = (let r = push_bit 8 shift_reg OR ucast byte in (r = DFU_TRIGGER_KEY, r))"

definition feed_all :: "u8 list \<Rightarrow> u32" where
  "feed_all bs = fold (\<lambda>b r. snd (dfu_trigger_feed b r)) bs dfu_trigger_reset"

definition key_of :: "u8 \<Rightarrow> u8 \<Rightarrow> u8 \<Rightarrow> u8 \<Rightarrow> u32" where
  "key_of a b c d = push_bit 24 (ucast a) OR push_bit 16 (ucast b) OR push_bit 8 (ucast c) OR ucast d"

lemma feed_four:
  "snd (dfu_trigger_feed d (snd (dfu_trigger_feed c (snd (dfu_trigger_feed b (snd (dfu_trigger_feed a r))))))) =
     key_of a b c d"
  by (rule bit_word_eqI) (auto simp: key_of_def dfu_trigger_feed_def Let_def bit_simps dest: bit_imp_le_length)

lemma key_of_proj: "ucast (drop_bit 24 (key_of a b c d)) = a" "ucast (drop_bit 16 (key_of a b c d)) = b"
  "ucast (drop_bit 8 (key_of a b c d)) = c" "ucast (key_of a b c d) = d"
  unfolding key_of_def by (rule bit_word_eqI, auto simp: bit_simps dest: bit_imp_le_length)+

lemma key_of_inj: "key_of a b c d = key_of a' b' c' d' \<longleftrightarrow> a = a' \<and> b = b' \<and> c = c' \<and> d = d'"
  using key_of_proj by metis

lemma key_of_trigger: "DFU_TRIGGER_KEY = key_of 0xDF 0 0xDF 0"
  by (simp add: DFU_TRIGGER_KEY_def key_of_def push_bit_eq_mult)

lemma feed_all_zeros: "feed_all bs = feed_all (replicate n 0 @ bs)"
proof -
  have "feed_all (replicate n 0) = 0"
    by (induction n) (simp_all add: feed_all_def dfu_trigger_reset_def dfu_trigger_feed_def replicate_append_same [symmetric] del: replicate.simps)
  then show ?thesis by (simp add: feed_all_def dfu_trigger_reset_def)
qed

lemma zeros_key:
  assumes "(k :: u8) \<noteq> 0" "replicate 3 0 @ bs = p @ [k, 0, k]"
  shows "\<exists>q. bs = q @ [k, 0, k]"
proof -
  have "0 # 0 # 0 # bs = p @ [k, 0, k]" using assms(2) by (simp add: numeral_3_eq_3)
  then show ?thesis using assms(1) by (auto simp: Cons_eq_append_conv)
qed

text \<open>After a reset of the matcher, \<open>dfu_trigger_feed\<close> reports a match on a byte exactly when that byte and the
  three before it are the trigger key, however many bytes came before, overlapping partial matches included.\<close>

theorem dfu_trigger_exact:
  "fst (dfu_trigger_feed b (feed_all bs)) \<longleftrightarrow> (\<exists>p. bs @ [b] = p @ [0xDF, 0, 0xDF, 0])"
proof -
  define z where "z = replicate 3 (0 :: u8) @ bs"
  obtain q x y w where z: "z = q @ [x, y, w]"
  proof -
    define v where "v = drop (length z - 3) z"
    have "length v = 3" by (simp add: v_def z_def)
    then obtain x y w where "v = [x, y, w]" by (auto simp: numeral_eq_Suc length_Suc_conv)
    then show ?thesis using that [of "take (length z - 3) z" x y w] unfolding v_def by (metis append_take_drop_id)
  qed
  have "snd (dfu_trigger_feed b (feed_all bs)) = feed_all (z @ [b])"
    using feed_all_zeros [of bs 3] by (simp add: feed_all_def z_def)
  also have "\<dots> = key_of x y w b"
    unfolding z using feed_four [of b w y x "feed_all q"] by (simp add: feed_all_def)
  finally have "fst (dfu_trigger_feed b (feed_all bs)) \<longleftrightarrow> x = 0xDF \<and> y = 0 \<and> w = 0xDF \<and> b = 0"
    by (simp add: dfu_trigger_feed_def Let_def key_of_trigger key_of_inj)
  also have "\<dots> \<longleftrightarrow> (\<exists>p. z @ [b] = p @ [0xDF, 0, 0xDF, 0])"
    unfolding z by auto
  also have "\<dots> \<longleftrightarrow> (\<exists>p. bs @ [b] = p @ [0xDF, 0, 0xDF, 0])"
  proof
    assume "\<exists>p. z @ [b] = p @ [0xDF, 0, 0xDF, 0]"
    then obtain p where p: "replicate 3 0 @ bs = p @ [0xDF, 0, 0xDF]" "b = 0" by (auto simp: z_def)
    show "\<exists>p. bs @ [b] = p @ [0xDF, 0, 0xDF, 0]"
      using p zeros_key [of "0xDF" bs p] by auto
  qed (auto simp: z_def)
  finally show ?thesis .
qed

subsection \<open>The app's reboot path\<close>

text \<open>\<open>dfu_sem\<close> is the static semaphore \<open>dfu_semaphore\<close>; the matcher's register is passed beside the kernel.\<close>

definition dfu_trigger_feed_isr :: "sptr \<Rightarrow> u8 \<Rightarrow> u32 \<times> kernel \<Rightarrow> (u32 \<times> kernel) option" where
  "dfu_trigger_feed_isr dfu_sem byte st = (case st of (shift_reg, s) \<Rightarrow>
     (case dfu_trigger_feed byte shift_reg of (hit, shift_reg) \<Rightarrow>
        if hit then do { (_, s) \<leftarrow> semaphore_give dfu_sem s; Some (shift_reg, s) } else Some (shift_reg, s)))"

text \<open>What the reboot task leaves for the bootloader once it has taken the semaphore.\<close>

definition dfu_reboot_task :: "BootFlags \<Rightarrow> BootFlags" where
  "dfu_reboot_task f = f\<lparr>dfu_requested := DFU_REQUEST, reset_reason := RESET_REASON_SOFTWARE, bf_magic := BOOT_FLAGS_MAGIC\<rparr>"

definition dfu_trigger_task_start :: "sptr \<Rightarrow> u32 \<Rightarrow> u32 \<Rightarrow> core \<Rightarrow> u32 \<times> kernel \<Rightarrow> StatusCode \<times> u32 \<times> kernel" where
  "dfu_trigger_task_start dfu_sem task_exit_trap dfu_reboot_entry c st = (case st of (_, s) \<Rightarrow>
     let s1 = semaphore_init dfu_sem 1 0 s
     in case task_create task_exit_trap c dfu_reboot_entry 1024 5 0 s1 of (ret, _, s2) \<Rightarrow> (ret, dfu_trigger_reset, s2))"

end
