(* ===== verification/Boot.thy ===== *)
theory Boot
  imports Watchdog_Props Dfu_Trigger
begin

unbundle bit_operations_syntax

text \<open>
  \<^verbatim>\<open>boot/boot/boot.c\<close>: validating, loading and starting the app image of a slot. \<open>ram\<close> is memory by word address. A stage
  that hands control over for good ends in an \<open>outcome\<close> other than \<open>Returns\<close>; a wait that may never end makes a
  function return an option.
\<close>

datatype 'a outcome = Returns 'a | Jumps u32 | Resets | Hangs

definition APP_START_ADDR :: u32 where "APP_START_ADDR = 0x88400"
definition BOOTLOADER_START_ADDR :: u32 where "BOOTLOADER_START_ADDR = 0x10000"

record StartPacket =
  version_num :: u32
  fw_length :: u32
  sp_crc :: u32

definition start_packet :: "u32 list \<Rightarrow> StartPacket" where
  "start_packet ws = \<lparr>version_num = ws ! 0, fw_length = ws ! 1, sp_crc = ws ! 2\<rparr>"

record boot = watchdog +
  boot_flags :: BootFlags
  shift_reg :: u32
  current_sector :: "u32 list"
  current_sector_counter :: u32
  app_ram_offset :: u32
  ram :: "u32 \<Rightarrow> u32"

definition load_words :: "u32 \<Rightarrow> nat \<Rightarrow> (u32 \<Rightarrow> u32) \<Rightarrow> u32 list" where
  "load_words a n m = map (\<lambda>i. m (a + 4 * of_nat i)) [0..<n]"

fun store_words :: "u32 \<Rightarrow> u32 list \<Rightarrow> (u32 \<Rightarrow> u32) \<Rightarrow> u32 \<Rightarrow> u32" where
  "store_words a [] m = m"
| "store_words a (w # ws) m = store_words (a + 4) ws (m(a := w))"

definition boot_init :: "('z boot_scheme, StatusCode) state" where
  "boot_init = do {
     upd (\<lambda>s. s\<lparr>current_sector_counter := 0\<rparr>);
     upd (\<lambda>s. s\<lparr>app_ram_offset := 0\<rparr>);
     return E_OK }"

text \<open>Reading a sector into the static buffer; the status is not looked at.\<close>

definition read_current :: "u32 \<Rightarrow> ('z boot_scheme, u32 list) state" where
  "read_current sector = do {
     buf \<leftarrow> gets current_sector;
     (_, buf) \<leftarrow> emmc_read_blocks sector 0 buf 1;
     upd (\<lambda>s. s\<lparr>current_sector := buf\<rparr>);
     return buf }"

definition chunk_of :: "u32 \<Rightarrow> u32" where
  "chunk_of remaining = (if remaining < SECTOR_SIZE then remaining else SECTOR_SIZE)"

lemma chunk_of_less: "0 < r \<Longrightarrow> unat (r - chunk_of r) < unat r"
  by (auto simp: chunk_of_def SECTOR_SIZE_def unat_sub word_le_nat_alt word_less_nat_alt not_less)

function validate_loop :: "u32 \<Rightarrow> u32 \<Rightarrow> CRC32 \<Rightarrow> ('z boot_scheme, CRC32) state" where
  "validate_loop remaining sector ctx = (
     if remaining > 0 then do {
       buf \<leftarrow> read_current sector;
       let chunk = chunk_of remaining;
       validate_loop (remaining - chunk) (sector + 1) (crc32_update (take (unat chunk) (bytes_of buf)) ctx) }
     else return ctx)"
  by pat_completeness auto

termination
  by (relation "measure (\<lambda>(r, s, c). unat r)") (simp_all add: chunk_of_less)

declare validate_loop.simps [simp del]

definition boot_validate_app :: "u32 \<Rightarrow> ('z boot_scheme, StatusCode) state" where
  "boot_validate_app app_sector = do {
     buf \<leftarrow> read_current app_sector;
     let pkt = start_packet buf;
     if version_num pkt \<noteq> 1 \<or> fw_length pkt = 0 then return E_CORRUPTED
     else do {
       ctx \<leftarrow> validate_loop (fw_length pkt) (app_sector + 1) crc32_start;
       return (if crc32_finish ctx = sp_crc pkt then E_OK else E_CORRUPTED) } }"

definition boot_load_app :: "u32 \<Rightarrow> ('z boot_scheme, StatusCode) state" where
  "boot_load_app app_sector = do {
     buf \<leftarrow> read_current app_sector;
     let sectors = BYTES_TO_SECTORS (fw_length (start_packet buf));
     _ \<leftarrow> rd CNTFRQ;
     _ \<leftarrow> cntpct;
     mem \<leftarrow> gets (\<lambda>s. load_words APP_START_ADDR (unat sectors * 128) (ram s));
     (_, mem) \<leftarrow> emmc_read_blocks (app_sector + 1) APP_START_ADDR mem sectors;
     upd (\<lambda>s. s\<lparr>ram := store_words APP_START_ADDR mem (ram s)\<rparr>);
     _ \<leftarrow> cntpct;
     return E_OK }"

definition boot_jump_to_app :: "'z boot_scheme \<Rightarrow> ('a outcome \<times> 'z boot_scheme) option" where
  "boot_jump_to_app s = do {
     s \<leftarrow> uart_drain s;
     Some (Jumps APP_START_ADDR, s) }"

subsection \<open>Validation, for every card\<close>

text \<open>The image a card presents: the words read for each sector in turn. \<open>read_current\<close> in terms of the bus.\<close>

lemma read_current_spec:
  assumes "run_state (read_current sector) s = (ws, s')" "length (current_sector s) = 128"
  shows "length ws = 128 \<and> stores (trace s') = stores (trace s) \<and> (\<exists>t. trace s' = t @ trace s) \<and>
    s' = s\<lparr>trace := trace s', current_sector := ws\<rparr>"
proof -
  obtain r ws' s1 where rd: "run_state (emmc_read_blocks sector 0 (current_sector s) 1) s = ((r, ws'), s1)"
    by (metis prod.exhaust)
  from read_sector [OF rd assms(2)] assms(1) rd show ?thesis
    by (auto simp: read_current_def)
qed

text \<open>The bytes of \<open>n\<close> consecutive sectors.\<close>

fun slot_bytes :: "(u32 \<Rightarrow> u32 list) \<Rightarrow> u32 \<Rightarrow> nat \<Rightarrow> u8 list" where
  "slot_bytes W sector 0 = []"
| "slot_bytes W sector (Suc n) = bytes_of (W sector) @ slot_bytes W (sector + 1) n"

definition image_bytes :: "(u32 \<Rightarrow> u32 list) \<Rightarrow> u32 \<Rightarrow> u32 \<Rightarrow> u8 list" where
  "image_bytes W sector len = take (unat len) (slot_bytes W sector ((unat len + 511) div 512))"

definition valid_image :: "(u32 \<Rightarrow> u32 list) \<Rightarrow> u32 \<Rightarrow> bool" where
  "valid_image W sector \<longleftrightarrow> (let pkt = start_packet (W sector) in
     version_num pkt = 1 \<and> fw_length pkt \<noteq> 0 \<and> crc32 (image_bytes W (sector + 1) (fw_length pkt)) = sp_crc pkt)"

lemma length_bytes_of [simp]: "length (bytes_of ws) = 4 * length ws"
  by (induction ws) (simp_all add: bytes_of_def word_bytes_def)

lemma serves_current:
  assumes "serves W s" "is_high_capacity s" "length (W sector) = 128" "length (current_sector s) = 128"
    "run_state (read_current sector) s = (ws, s')"
  shows "ws = W sector \<and> serves W s' \<and> is_high_capacity s' \<and> length (current_sector s') = 128"
proof -
  have c: "card_arg s sector = sector" using assms(2) by (simp add: card_arg_def)
  from serves_read_sector [OF assms(1), of sector "current_sector s" 0] assms(3,4)
  obtain s1 where "run_state (emmc_read_blocks sector 0 (current_sector s) 1) s = ((E_OK, W sector), s1)" by (auto simp: c)
  then have ws: "ws = W sector" using assms(5) by (simp add: read_current_def)
  have s: "s' = s\<lparr>trace := trace s', current_sector := ws\<rparr>" using read_current_spec [OF assms(5,4)] by blast
  have "dev s' = dev s" "is_high_capacity s' = is_high_capacity s" "current_sector s' = ws"
    by (subst s, simp)+
  moreover have "stores (trace s') = stores (trace s)" using read_current_spec [OF assms(5,4)] by blast
  ultimately show ?thesis using assms(1,2,3) ws by (auto simp: serves_def ready_def)
qed

lemma image_bytes_step:
  assumes "0 < r" "length (W sector) = 128"
  shows "image_bytes W sector r = take (unat (chunk_of r)) (bytes_of (W sector)) @ image_bytes W (sector + 1) (r - chunk_of r)"
proof (cases "r < SECTOR_SIZE")
  case True
  then have r: "unat r < 512" "0 < unat r" using assms(1) by (simp_all add: SECTOR_SIZE_def word_less_nat_alt)
  then have "(unat r + 511) div 512 = Suc 0" by simp
  then show ?thesis using True r assms(2) by (simp add: image_bytes_def chunk_of_def)
next
  case False
  then have r: "512 \<le> unat r" "unat (r - 512) = unat r - 512"
    by (simp_all add: SECTOR_SIZE_def not_less word_le_nat_alt unat_sub)
  then have "(unat r + 511) div 512 = Suc ((unat r - 512 + 511) div 512)" by simp
  then show ?thesis using False r assms(2) by (simp add: image_bytes_def chunk_of_def SECTOR_SIZE_def)
qed

lemma serves_validate_loop:
  assumes "serves W s" "is_high_capacity s" "\<And>a. length (W a) = 128" "length (current_sector s) = 128"
    "run_state (validate_loop remaining sector ctx) s = (ctx', s')"
  shows "ctx' = crc32_update (image_bytes W sector remaining) ctx"
  using assms(1,2,4,5)
proof (induction remaining sector ctx arbitrary: s rule: validate_loop.induct)
  case (1 r sector ctx)
  show ?case
  proof (cases "0 < r")
    case True
    obtain ws s1 where rc: "run_state (read_current sector) s = (ws, s1)" by (cases "run_state (read_current sector) s")
    note S = serves_current [OF "1.prems"(1,2) assms(3) "1.prems"(3) rc]
    have "run_state (validate_loop (r - chunk_of r) (sector + 1) (crc32_update (take (unat (chunk_of r)) (bytes_of ws)) ctx)) s1 = (ctx', s')"
      using "1.prems"(4) True rc by (subst (asm) validate_loop.simps) (simp add: Let_def)
    from "1.IH" [OF True refl _ _ _ this] S
    have "ctx' = crc32_update (image_bytes W (sector + 1) (r - chunk_of r)) (crc32_update (take (unat (chunk_of r)) (bytes_of ws)) ctx)"
      by blast
    then show ?thesis using S image_bytes_step [of r W sector] True assms(3) [of sector] by (simp add: crc32_update_append)
  next
    case False
    then have "r = 0" by (simp add: word_neq_0_conv [symmetric])
    then show ?thesis using "1.prems"(4)
      by (subst (asm) validate_loop.simps) (simp add: image_bytes_def crc32_update_def crc32_hw_update_bytes crc_bytes_def)
  qed
qed

lemma boot_validate_app_serves:
  assumes "serves W s" "is_high_capacity s" "\<And>a. length (W a) = 128" "length (current_sector s) = 128"
  shows "fst (run_state (boot_validate_app sector) s) = (if valid_image W sector then E_OK else E_CORRUPTED)"
proof -
  obtain ws s1 where rc: "run_state (read_current sector) s = (ws, s1)" by (cases "run_state (read_current sector) s")
  note S = serves_current [OF assms(1,2,3,4) rc]
  obtain ctx s2 where vl: "run_state (validate_loop (fw_length (start_packet ws)) (sector + 1) crc32_start) s1 = (ctx, s2)"
    by (cases "run_state (validate_loop (fw_length (start_packet ws)) (sector + 1) crc32_start) s1")
  have "ctx = crc32_update (image_bytes W (sector + 1) (fw_length (start_packet ws))) crc32_start"
    using serves_validate_loop [where W = W, OF _ _ assms(3) _ vl] S by blast
  then show ?thesis
    using rc vl S by (auto simp: boot_validate_app_def Let_def valid_image_def crc32_def)
qed

text \<open>What the buffer holds after each of \<open>n\<close> reads in a row: the sectors, or what a failed read has left there.\<close>

fun read_run :: "u32 \<Rightarrow> nat \<Rightarrow> ('z boot_scheme, u32 list list) state" where
  "read_run sector 0 = return []"
| "read_run sector (Suc n) = do {
     buf \<leftarrow> read_current sector;
     bufs \<leftarrow> read_run (sector + 1) n;
     return (buf # bufs) }"

lemma read_current_keeps:
  assumes "run_state (read_current sector) s = (ws, s')" "length (current_sector s) = 128"
  shows "length ws = 128" "current_sector s' = ws"
proof -
  have s: "length ws = 128" "s' = s\<lparr>trace := trace s', current_sector := ws\<rparr>" using read_current_spec [OF assms] by blast+
  show "length ws = 128" by (rule s(1))
  show "current_sector s' = ws" by (subst s(2)) simp
qed

lemma chunk_cases:
  assumes "0 < r"
  shows "(unat r + 511) div 512 = Suc ((unat (r - chunk_of r) + 511) div 512) \<and> unat r = unat (chunk_of r) + unat (r - chunk_of r) \<and>
    unat (chunk_of r) \<le> 512 \<and> (unat (chunk_of r) = 512 \<or> unat (r - chunk_of r) = 0)"
proof (cases "r < SECTOR_SIZE")
  case True
  then have r: "unat r < 512" "0 < unat r" using assms by (simp_all add: SECTOR_SIZE_def word_less_nat_alt)
  then have "(unat r + 511) div 512 = Suc 0" by simp
  then show ?thesis using True r by (simp add: chunk_of_def)
next
  case False
  then have r: "512 \<le> unat r" "unat (r - 512) = unat r - 512"
    by (simp_all add: SECTOR_SIZE_def not_less word_le_nat_alt unat_sub)
  then have "(unat r + 511) div 512 = Suc ((unat r - 512 + 511) div 512)" by simp
  then show ?thesis using False r by (simp add: chunk_of_def SECTOR_SIZE_def)
qed

lemma validate_loop_run:
  assumes "length (current_sector s) = 128" and "run_state (read_run sector ((unat r + 511) div 512)) s = (bufs, s')"
  shows "run_state (validate_loop r sector ctx) s = (crc32_update (take (unat r) (concat (map bytes_of bufs))) ctx, s')"
  using assms
proof (induction r sector ctx arbitrary: s bufs rule: validate_loop.induct)
  case (1 r sector ctx)
  show ?case
  proof (cases "0 < r")
    case True
    note C = chunk_cases [OF True, THEN conjunct1] chunk_cases [OF True, THEN conjunct2, THEN conjunct1]
      chunk_cases [OF True, THEN conjunct2, THEN conjunct2]
    obtain ws s1 where rc: "run_state (read_current sector) s = (ws, s1)" by (cases "run_state (read_current sector) s")
    obtain rest s2 where rr: "run_state (read_run (sector + 1) ((unat (r - chunk_of r) + 511) div 512)) s1 = (rest, s2)"
      by (cases "run_state (read_run (sector + 1) ((unat (r - chunk_of r) + 511) div 512)) s1")
    have b: "bufs = ws # rest" "s' = s2" using "1.prems"(2) rc rr unfolding C(1) by simp_all
    have l: "length ws = 128" "length (current_sector s1) = 128" using read_current_keeps [OF rc "1.prems"(1)] by simp_all
    have t: "take (unat r) (concat (map bytes_of bufs)) = take (unat (chunk_of r)) (bytes_of ws) @ take (unat (r - chunk_of r)) (concat (map bytes_of rest))"
      using C(3) l(1) unfolding b(1) by (auto simp: C(2))
    show ?thesis
      using "1.IH" [OF True refl l(2) rr [folded b(2)]] True rc by (subst validate_loop.simps) (simp add: Let_def t crc32_update_append)
  next
    case False
    then have "r = 0" by (simp add: word_neq_0_conv [symmetric])
    then show ?thesis using "1.prems"(2)
      by (subst validate_loop.simps) (simp add: crc32_update_def crc32_hw_update_bytes crc_bytes_def)
  qed
qed

text \<open>Claim C21 (functional). For every card and controller, \<open>boot_validate_app\<close> accepts a slot exactly when what the buffer holds after the header is read has
  version 1 and a length, and the CRC-32 of exactly that many bytes of what it holds after each further read is the one in the header: a
  read that fails is not noticed, and the bytes it leaves are hashed. On a high-capacity card that serves every read, that is the card's own
  header and the card's own firmware bytes, across the sector boundaries.\<close>

theorem boot_validate_app_correct:
  assumes "length (current_sector s) = 128" "run_state (read_current sector) s = (h, s1)"
    "run_state (read_run (sector + 1) ((unat (fw_length (start_packet h)) + 511) div 512)) s1 = (bufs, s2)"
  shows "fst (run_state (boot_validate_app sector) s) =
      (if version_num (start_packet h) = 1 \<and> fw_length (start_packet h) \<noteq> 0 \<and>
          crc32 (take (unat (fw_length (start_packet h))) (concat (map bytes_of bufs))) = sp_crc (start_packet h) then E_OK else E_CORRUPTED) \<and>
    (serves W s \<and> is_high_capacity s \<and> (\<forall>a. length (W a) = 128) \<longrightarrow>
      fst (run_state (boot_validate_app sector) s) = (if valid_image W sector then E_OK else E_CORRUPTED))"
proof -
  have "length (current_sector s1) = 128" using read_current_keeps [OF assms(2,1)] by simp
  from validate_loop_run [OF this assms(3), of crc32_start] assms(2)
  have "fst (run_state (boot_validate_app sector) s) =
      (if version_num (start_packet h) = 1 \<and> fw_length (start_packet h) \<noteq> 0 \<and>
          crc32 (take (unat (fw_length (start_packet h))) (concat (map bytes_of bufs))) = sp_crc (start_packet h) then E_OK else E_CORRUPTED)"
    by (simp add: boot_validate_app_def Let_def crc32_def)
  then show ?thesis using boot_validate_app_serves [of W s sector] assms(1) by blast
qed

definition boot_board :: "(u32 \<Rightarrow> u32 list) \<Rightarrow> WdtMeta \<Rightarrow> boot" where
  "boot_board W m = watchdog.extend (board W m)
     \<lparr>boot_flags = \<lparr>bf_magic = 0, reset_reason = 0, dfu_requested = 0, fw_crc_ok = 0\<rparr>, shift_reg = 0,
       current_sector = replicate 128 0, current_sector_counter = 0, app_ram_offset = 0, ram = (\<lambda>_. 0)\<rparr>"


lemma boot_board_facts [simp]: "serves W (boot_board W m)" "is_high_capacity (boot_board W m)" "length (current_sector (boot_board W m)) = 128"
  by (simp_all add: serves_serving boot_board_def board_def watchdog.defs)

text \<open>A card whose sectors are zero but for a header, in both app slots, of a four-byte image.\<close>

definition demo_card :: "u32 \<Rightarrow> u32 list" where
  "demo_card a = (if a = EMMC_SECTOR_APP_A \<or> a = EMMC_SECTOR_APP_B then [1, 4, crc32 (replicate 4 0)] @ replicate 125 0 else replicate 128 0)"

lemma demo_card_facts: "length (demo_card a) = 128" "valid_image demo_card EMMC_SECTOR_APP_A"
proof -
  have f: "demo_card EMMC_SECTOR_APP_A = [1, 4, crc32 (replicate 4 0)] @ replicate 125 0"
    "demo_card (EMMC_SECTOR_APP_A + 1) = replicate 128 0"
    by (simp_all add: demo_card_def layout_defs)
  have "take 4 (bytes_of (replicate 128 0)) = replicate 4 0"
    by (simp add: bytes_of_def word_bytes_def numeral_eq_Suc)
  then show "valid_image demo_card EMMC_SECTOR_APP_A"
    by (simp add: valid_image_def image_bytes_def f start_packet_def Let_def)
qed (simp add: demo_card_def)

theorem boot_validate_app_correct_witness:
  "fst (run_state (boot_validate_app EMMC_SECTOR_APP_A) (boot_board demo_card default_meta)) = E_OK"
proof -
  let ?s = "boot_board demo_card default_meta"
  obtain h s1 where h: "run_state (read_current EMMC_SECTOR_APP_A) ?s = (h, s1)" by (metis prod.exhaust)
  obtain bufs s2 where b: "run_state (read_run (EMMC_SECTOR_APP_A + 1) ((unat (fw_length (start_packet h)) + 511) div 512)) s1 = (bufs, s2)"
    by (metis prod.exhaust)
  from boot_validate_app_correct [OF _ h b, of demo_card, THEN conjunct2] show ?thesis using demo_card_facts by simp
qed

end
