(* ===== verification/Dfu_Receive.thy ===== *)
theory Dfu_Receive
  imports Boot
begin

unbundle bit_operations_syntax

text \<open>
  \<^verbatim>\<open>boot/dfu_receive/dfu_receive.c\<close>: the packet parser and the update session of the bootloader, on the UART, the card and
  the metadata below it. Console text and telemetry are left out. A byte may never come, so every function that listens returns
  an option. What C leaves uninitialised is a parameter: the packet on the stack, the expected checksum and the checksum context.
  A byte stored behind the end of \<open>DATA\<close> is out of bounds in C; the model drops it and sets \<open>overrun\<close>.
\<close>

definition DFU_ACK :: u8 where "DFU_ACK = 0x06"
definition DFU_NACK :: u8 where "DFU_NACK = 0x15"
definition DFU_PACKET_TIMEOUT_MS :: u32 where "DFU_PACKET_TIMEOUT_MS = 500"
definition MAX_DATA_SIZE_BYTES :: nat where "MAX_DATA_SIZE_BYTES = 256"
definition DFU_APP_MAGIC :: u32 where "DFU_APP_MAGIC = 0x44465521"
definition DFU_APP_MARKER_OFFSET :: nat where "DFU_APP_MARKER_OFFSET = 0x20"
definition sizeof_StartPacket :: nat where "sizeof_StartPacket = 12"

definition CMD_REQ :: u8 where "CMD_REQ = 1"
definition CMD_START :: u8 where "CMD_START = 2"
definition CMD_START_SELF_UPDATE :: u8 where "CMD_START_SELF_UPDATE = 3"
definition CMD_DATA :: u8 where "CMD_DATA = 4"
definition CMD_FINISH :: u8 where "CMD_FINISH = 5"
definition CMD_ABORT :: u8 where "CMD_ABORT = 6"
definition NUM_CMDS :: u8 where "NUM_CMDS = 9"

lemmas dfu_cmd_defs = CMD_REQ_def CMD_START_def CMD_START_SELF_UPDATE_def CMD_DATA_def CMD_FINISH_def CMD_ABORT_def NUM_CMDS_def

datatype PacketState = PACKET_STATE_START | PACKET_STATE_CMD | PACKET_STATE_LENGTH | PACKET_STATE_PAYLOAD | PACKET_STATE_CRC |
  PACKET_STATE_END | PACKET_STATE_SUCCESS | PACKET_STATE_ERROR

datatype DfuState = DFU_STATE_START | DFU_STATE_RECIEVE_DATA | DFU_STATE_DONE | DFU_STATE_ABORT

record DFU_Packet =
  pk_CMD :: u8
  pk_LEN :: u16
  pk_DATA :: "u8 list"
  pk_CRC :: u32

record dfu = boot +
  sectors_written :: u32
  dfu_current_sector :: "u8 list"
  dfu_current_sector_counter :: u32
  unwritten_sector :: bool
  started :: bool
  is_self_update :: bool
  dfu_base_sector :: u32
  overrun :: bool

text \<open>The locals of \<open>dfu_receive\<close>.\<close>

record session =
  dfu_state :: DfuState
  img_expected_crc :: u32
  img_length :: u32
  bytes_hashed :: u32
  crc_ctx :: CRC32

subsection \<open>Packets\<close>

definition put_data :: "nat \<Rightarrow> u8 \<Rightarrow> DFU_Packet \<Rightarrow> 'z dfu_scheme \<Rightarrow> DFU_Packet \<times> 'z dfu_scheme" where
  "put_data i b packet s = (if i < MAX_DATA_SIZE_BYTES then (packet\<lparr>pk_DATA := (pk_DATA packet)[i := b]\<rparr>, s)
     else (packet, s\<lparr>overrun := True\<rparr>))"

lemma unat_less_Suc: "r < (l :: u16) \<Longrightarrow> unat (l - (r + 1)) < unat (l - r)"
proof -
  assume "r < l"
  then have "l - r \<noteq> 0" by auto
  then have "unat (l - r - 1) < unat (l - r)" by (simp add: measure_unat)
  then show ?thesis by (simp add: algebra_simps)
qed

function payload_loop :: "u16 \<Rightarrow> u16 \<Rightarrow> DFU_Packet \<Rightarrow> 'z dfu_scheme \<Rightarrow> ((StatusCode \<times> DFU_Packet) \<times> 'z dfu_scheme) option" where
  "payload_loop remaining len packet s = (
     if remaining < len then do {
       (r, s) \<leftarrow> uart_rx_timed DFU_PACKET_TIMEOUT_MS s;
       case r of
         Inl e \<Rightarrow> Some ((E_TIMED_OUT, packet), s)
       | Inr b \<Rightarrow> (case put_data (unat remaining) b packet s of (packet, s) \<Rightarrow> payload_loop (remaining + 1) len packet s) }
     else Some ((E_OK, packet), s))"
  by pat_completeness auto

termination
  by (relation "measure (\<lambda>(r, l, p, s). unat (l - r))") (auto simp: unat_less_Suc)

declare payload_loop.simps [simp del]

text \<open>One iteration of the parser on the byte it has read; \<open>Inl\<close> when a byte inside a packet did not come in time.\<close>

definition crc_bytes_received :: "u8 \<Rightarrow> u8 \<Rightarrow> u8 \<Rightarrow> u8 \<Rightarrow> u32" where
  "crc_bytes_received b crc_b2 crc_b3 crc_b4 =
     push_bit 24 (ucast b) OR push_bit 16 (ucast crc_b2) OR push_bit 8 (ucast crc_b3) OR ucast crc_b4"

definition packet_step :: "PacketState \<Rightarrow> u8 \<Rightarrow> DFU_Packet \<Rightarrow> 'z dfu_scheme \<Rightarrow>
    ((StatusCode + PacketState \<times> DFU_Packet) \<times> 'z dfu_scheme) option" where
  "packet_step state byte packet s = (case state of
     PACKET_STATE_START \<Rightarrow> Some (Inr (if byte = 0xAA then PACKET_STATE_CMD else PACKET_STATE_START, packet), s)
   | PACKET_STATE_CMD \<Rightarrow>
       if byte \<ge> CMD_REQ \<and> byte < NUM_CMDS then Some (Inr (PACKET_STATE_LENGTH, packet\<lparr>pk_CMD := byte\<rparr>), s)
       else Some (Inr (PACKET_STATE_ERROR, packet), s)
   | PACKET_STATE_LENGTH \<Rightarrow> do {
       (r, s) \<leftarrow> uart_rx_timed DFU_PACKET_TIMEOUT_MS s;
       case r of
         Inl e \<Rightarrow> Some (Inl E_TIMED_OUT, s)
       | Inr byte_lsb \<Rightarrow>
           Some (Inr (PACKET_STATE_PAYLOAD, packet\<lparr>pk_LEN := push_bit 8 (ucast byte) OR ucast byte_lsb\<rparr>), s) }
   | PACKET_STATE_PAYLOAD \<Rightarrow>
       (case put_data 0 byte packet s of (packet, s) \<Rightarrow> do {
          ((r, packet), s) \<leftarrow> payload_loop 1 (pk_LEN packet) packet s;
          if r \<noteq> E_OK then Some (Inl E_TIMED_OUT, s) else Some (Inr (PACKET_STATE_CRC, packet), s) })
   | PACKET_STATE_CRC \<Rightarrow> do {
       (r2, s) \<leftarrow> uart_rx_timed DFU_PACKET_TIMEOUT_MS s;
       case r2 of Inl e \<Rightarrow> Some (Inl E_TIMED_OUT, s) | Inr crc_b2 \<Rightarrow> do {
       (r3, s) \<leftarrow> uart_rx_timed DFU_PACKET_TIMEOUT_MS s;
       case r3 of Inl e \<Rightarrow> Some (Inl E_TIMED_OUT, s) | Inr crc_b3 \<Rightarrow> do {
       (r4, s) \<leftarrow> uart_rx_timed DFU_PACKET_TIMEOUT_MS s;
       case r4 of Inl e \<Rightarrow> Some (Inl E_TIMED_OUT, s) | Inr crc_b4 \<Rightarrow>
         Some (Inr (PACKET_STATE_END, packet\<lparr>pk_CRC := crc_bytes_received byte crc_b2 crc_b3 crc_b4\<rparr>), s) } } }
   | PACKET_STATE_END \<Rightarrow> Some (Inr (if byte = 0xBB then PACKET_STATE_SUCCESS else PACKET_STATE_END, packet), s)
   | PACKET_STATE_ERROR \<Rightarrow> Some (Inr (PACKET_STATE_START, packet\<lparr>pk_CMD := 0, pk_CRC := 0, pk_LEN := 0\<rparr>), s)
   | PACKET_STATE_SUCCESS \<Rightarrow> Some (Inr (PACKET_STATE_SUCCESS, packet), s))"

partial_function (option) packet_loop ::
    "PacketState \<Rightarrow> DFU_Packet \<Rightarrow> 'z dfu_scheme \<Rightarrow> ((StatusCode \<times> DFU_Packet) \<times> 'z dfu_scheme) option" where
  "packet_loop state packet s = (
     if state = PACKET_STATE_SUCCESS then Some ((E_OK, packet), s)
     else do {
       (byte, s) \<leftarrow> uart_rx s;
       (r, s) \<leftarrow> packet_step state byte packet s;
       case r of
         Inl e \<Rightarrow> Some ((e, packet), s)
       | Inr (state, packet) \<Rightarrow> packet_loop state packet s })"

definition dfu_packet_receive :: "DFU_Packet \<Rightarrow> 'z dfu_scheme \<Rightarrow> ((StatusCode \<times> DFU_Packet) \<times> 'z dfu_scheme) option" where
  "dfu_packet_receive packet s = packet_loop PACKET_STATE_START packet s"

subsection \<open>The session\<close>

definition dfu_init :: "'z dfu_scheme \<Rightarrow> 'z dfu_scheme" where
  "dfu_init s = s\<lparr>sectors_written := 0, dfu_current_sector_counter := 0, unwritten_sector := False, started := False,
     is_self_update := False, dfu_base_sector := 0\<rparr>"

partial_function (option) trigger_loop :: "'z dfu_scheme \<Rightarrow> 'z dfu_scheme option" where
  "trigger_loop s = do {
     (byte, s) \<leftarrow> uart_rx s;
     case dfu_trigger_feed byte (shift_reg s) of (hit, r) \<Rightarrow>
       let s = s\<lparr>shift_reg := r\<rparr>
       in if hit then do {
            s \<leftarrow> uart_tx_raw DFU_ACK s;
            Some (s\<lparr>shift_reg := dfu_trigger_reset\<rparr>) }
          else trigger_loop s }"

text \<open>\<open>copy_at\<close> is the loop \<open>for (i = 0; i < n; i++) buf[off + i] = bs[i]\<close>.\<close>

fun copy_at :: "u8 list \<Rightarrow> nat \<Rightarrow> u8 list \<Rightarrow> u8 list" where
  "copy_at buf off [] = buf"
| "copy_at buf off (b # bs) = copy_at (buf[off := b]) (Suc off) bs"

fun words_of :: "u8 list \<Rightarrow> u32 list" where
  "words_of (a # b # c # d # bs) = le32 a b c d # words_of bs"
| "words_of bs = []"

definition write_sector_bytes :: "u32 \<Rightarrow> 'z dfu_scheme \<Rightarrow> 'z dfu_scheme" where
  "write_sector_bytes sector s = snd (run_state (emmc_write_blocks sector 0 (words_of (dfu_current_sector s)) 1) s)"

definition reply :: "u8 \<Rightarrow> session \<Rightarrow> 'z dfu_scheme \<Rightarrow> (session outcome \<times> 'z dfu_scheme) option" where
  "reply b l s = do { s \<leftarrow> uart_tx_raw b s; Some (Returns l, s) }"

definition nack_abort :: "session \<Rightarrow> 'z dfu_scheme \<Rightarrow> (session outcome \<times> 'z dfu_scheme) option" where
  "nack_abort l s = reply DFU_NACK (l\<lparr>dfu_state := DFU_STATE_ABORT\<rparr>) s"

definition start_with :: "u32 \<Rightarrow> bool \<Rightarrow> DFU_Packet \<Rightarrow> session \<Rightarrow> 'z dfu_scheme \<Rightarrow> (session outcome \<times> 'z dfu_scheme) option" where
  "start_with base self packet l s = (
     if \<not> started s then
       if unat (pk_LEN packet) \<noteq> sizeof_StartPacket then nack_abort l s
       else
         let start_pkt = start_packet (words_of (pk_DATA packet));
             l = l\<lparr>dfu_state := DFU_STATE_RECIEVE_DATA, img_expected_crc := sp_crc start_pkt, img_length := fw_length start_pkt,
                   crc_ctx := crc32_start\<rparr>;
             s = s\<lparr>dfu_current_sector := copy_at (dfu_current_sector s) 0 (take sizeof_StartPacket (pk_DATA packet))\<rparr>;
             s = s\<lparr>dfu_base_sector := base\<rparr>;
             s = write_sector_bytes base s;
             s = s\<lparr>sectors_written := 1, is_self_update := self, started := True\<rparr>
         in reply DFU_ACK l s
     else nack_abort l s)"

definition dfu_cmd_start :: "DFU_Packet \<Rightarrow> session \<Rightarrow> 'z dfu_scheme \<Rightarrow> (session outcome \<times> 'z dfu_scheme) option" where
  "dfu_cmd_start packet l s =
     start_with (APP_SLOT_TO_SECTOR (APP_SLOT_OTHER (active_app_slot (wdt_meta s)))) False packet l s"

definition dfu_cmd_start_self_update :: "DFU_Packet \<Rightarrow> session \<Rightarrow> 'z dfu_scheme \<Rightarrow> (session outcome \<times> 'z dfu_scheme) option" where
  "dfu_cmd_start_self_update packet l s = start_with EMMC_SECTOR_BOOTLOADER True packet l s"

text \<open>\<open>fill\<close> collects the payload into the sector buffer and writes the sector when it is full; \<open>hash\<close> runs the checksum over at
  most \<open>img_length\<close> bytes in all.\<close>

definition fill :: "DFU_Packet \<Rightarrow> 'z dfu_scheme \<Rightarrow> 'z dfu_scheme" where
  "fill packet s = (
     let counter = dfu_current_sector_counter s; len = ucast (pk_LEN packet) :: u32
     in if counter + len \<ge> SECTOR_SIZE then
          let diff = counter + len - SECTOR_SIZE;
              s = s\<lparr>dfu_current_sector := copy_at (dfu_current_sector s) (unat counter) (take (unat (len - diff)) (pk_DATA packet))\<rparr>;
              s = write_sector_bytes (dfu_base_sector s + sectors_written s) s;
              s = s\<lparr>dfu_current_sector :=
                    copy_at (dfu_current_sector s) 0 (take (unat diff) (drop (unat (len - diff)) (pk_DATA packet)))\<rparr>
          in s\<lparr>sectors_written := sectors_written s + 1, unwritten_sector := (diff \<noteq> 0), dfu_current_sector_counter := diff\<rparr>
        else
          s\<lparr>unwritten_sector := True,
            dfu_current_sector := copy_at (dfu_current_sector s) (unat counter) (take (unat len) (pk_DATA packet)),
            dfu_current_sector_counter := counter + len\<rparr>)"

definition to_hash :: "DFU_Packet \<Rightarrow> session \<Rightarrow> u32" where
  "to_hash packet l = (
     let n = ucast (pk_LEN packet)
     in if bytes_hashed l + n > img_length l then if img_length l > bytes_hashed l then img_length l - bytes_hashed l else 0
        else n)"

definition hash :: "DFU_Packet \<Rightarrow> session \<Rightarrow> session" where
  "hash packet l = (
     let n = to_hash packet l
     in if n > 0 then l\<lparr>crc_ctx := crc32_update (take (unat n) (pk_DATA packet)) (crc_ctx l), bytes_hashed := bytes_hashed l + n\<rparr>
        else l)"

definition dfu_cmd_data :: "DFU_Packet \<Rightarrow> session \<Rightarrow> 'z dfu_scheme \<Rightarrow> (session outcome \<times> 'z dfu_scheme) option" where
  "dfu_cmd_data packet l s = (
     if pk_LEN packet mod 4 \<noteq> 0 then nack_abort l s
     else if dfu_state l = DFU_STATE_RECIEVE_DATA then reply DFU_ACK (hash packet l) (fill packet s)
     else Some (Returns l, s))"

definition flush :: "'z dfu_scheme \<Rightarrow> 'z dfu_scheme" where
  "flush s = (
     if unwritten_sector s then
       let n = unat (dfu_current_sector_counter s);
           s = s\<lparr>dfu_current_sector := copy_at (dfu_current_sector s) n (replicate (unat SECTOR_SIZE - n) 0)\<rparr>
       in write_sector_bytes (dfu_base_sector s + sectors_written s) s
     else s)"

text \<open>The marker word of the first firmware sector, read back from the card; the buffer is looked at only after a successful
  read, which fills all of it.\<close>

definition marker_ok :: "u32 \<Rightarrow> ('z dfu_scheme, bool) state" where
  "marker_ok new_slot = do {
     (r, ws) \<leftarrow> emmc_read_blocks (APP_SLOT_TO_SECTOR new_slot + 1) 0 (replicate (unat (SECTOR_SIZE div 4)) 0) 1;
     return (r = E_OK \<and> ws ! (DFU_APP_MARKER_OFFSET div 4) = DFU_APP_MAGIC) }"

definition commit :: "u32 \<Rightarrow> ('z dfu_scheme, unit) state" where
  "commit new_slot = do {
     upd (\<lambda>s. s\<lparr>wdt_meta := (wdt_meta s)\<lparr>active_app_slot := new_slot, app_slot_trial := 1, trial_boot_count := 0\<rparr>\<rparr>);
     _ \<leftarrow> wdt_meta_write;
     upd (\<lambda>s. s\<lparr>boot_flags := (boot_flags s)\<lparr>fw_crc_ok := 1\<rparr>\<rparr>) }"

definition finish_app :: "session \<Rightarrow> 'z dfu_scheme \<Rightarrow> (session outcome \<times> 'z dfu_scheme) option" where
  "finish_app l s = (
     let new_slot = APP_SLOT_OTHER (active_app_slot (wdt_meta s))
     in case run_state (boot_validate_app (APP_SLOT_TO_SECTOR new_slot)) s of (r, s) \<Rightarrow>
        if r \<noteq> E_OK then nack_abort l s
        else (case run_state (marker_ok new_slot) s of (ok, s) \<Rightarrow>
          if \<not> ok then nack_abort l s
          else reply DFU_ACK (l\<lparr>dfu_state := DFU_STATE_DONE\<rparr>) (snd (run_state (commit new_slot) s))))"

definition dfu_cmd_finish :: "session \<Rightarrow> 'z dfu_scheme \<Rightarrow> (session outcome \<times> 'z dfu_scheme) option" where
  "dfu_cmd_finish l s = (
     if crc32_finish (crc_ctx l) \<noteq> img_expected_crc l then nack_abort l s
     else
       let s = flush s
       in if is_self_update s then do {
            s \<leftarrow> uart_tx_raw DFU_ACK s;
            s \<leftarrow> uart_deinit s;
            Some (Resets, snd (run_state watchdog_trigger_reset s)) }
          else finish_app l s)"

text \<open>\<open>CMD_REQ\<close>, \<open>CMD_GET_STATUS\<close> and \<open>CMD_RECOVER\<close> are accepted and do nothing.\<close>

definition dfu_command :: "DFU_Packet \<Rightarrow> session \<Rightarrow> 'z dfu_scheme \<Rightarrow> (session outcome \<times> 'z dfu_scheme) option" where
  "dfu_command packet l s = (
     if pk_CMD packet = CMD_START then dfu_cmd_start packet l s
     else if pk_CMD packet = CMD_START_SELF_UPDATE then dfu_cmd_start_self_update packet l s
     else if pk_CMD packet = CMD_DATA then dfu_cmd_data packet l s
     else if pk_CMD packet = CMD_ABORT then nack_abort l s
     else if pk_CMD packet = CMD_FINISH then dfu_cmd_finish l s
     else Some (Returns l, s))"

partial_function (option) dfu_loop :: "DFU_Packet \<Rightarrow> session \<Rightarrow> 'z dfu_scheme \<Rightarrow> (StatusCode outcome \<times> 'z dfu_scheme) option" where
  "dfu_loop packet0 l s = (
     if dfu_state l = DFU_STATE_DONE then Some (Returns E_OK, s)
     else if dfu_state l = DFU_STATE_ABORT then Some (Returns E_ABORTED, s)
     else do {
       ((r, packet), s) \<leftarrow> dfu_packet_receive packet0 s;
       if r \<noteq> E_OK then Some (Returns E_TIMED_OUT, s)
       else do {
         (out, s) \<leftarrow> dfu_command packet l s;
         case out of
           Returns l \<Rightarrow> dfu_loop packet0 l s
         | Jumps a \<Rightarrow> Some (Jumps a, s)
         | Resets \<Rightarrow> Some (Resets, s)
         | Hangs \<Rightarrow> Some (Hangs, s) } })"

definition new_session :: "u32 \<Rightarrow> CRC32 \<Rightarrow> session" where
  "new_session expected0 ctx0 = \<lparr>dfu_state = DFU_STATE_START, img_expected_crc = expected0, img_length = 0, bytes_hashed = 0, crc_ctx = ctx0\<rparr>"

definition dfu_receive :: "DFU_Packet \<Rightarrow> u32 \<Rightarrow> CRC32 \<Rightarrow> 'z dfu_scheme \<Rightarrow> (StatusCode outcome \<times> 'z dfu_scheme) option" where
  "dfu_receive packet0 expected0 ctx0 s = do {
     let s = (dfu_init s)\<lparr>shift_reg := dfu_trigger_reset\<rparr>;
     s \<leftarrow> trigger_loop s;
     dfu_loop packet0 (new_session expected0 ctx0) s }"

end
