(* ===== verification/Dfu_Safety.thy ===== *)
theory Dfu_Safety
  imports Dfu_Receive
begin

unbundle bit_operations_syntax

text \<open>
  What an update session may do to the card, for every device and every byte stream. \<open>hears n\<close> relates the states before and after
  an operation that only listens and talks on the UART: \<open>n\<close> bytes were read, the card saw nothing.
\<close>

subsection \<open>Listening\<close>

fun is_rx :: "access \<Rightarrow> bool" where
  "is_rx (Rd a v) = (a = UART0_BASE + DR)"
| "is_rx (Wr a v) = False"

definition rx_count :: "access list \<Rightarrow> nat" where
  "rx_count t = length (filter is_rx t)"

lemma rx_count_simps [simp]: "rx_count [] = 0" "rx_count (x # t) = (if is_rx x then Suc (rx_count t) else rx_count t)"
  "rx_count (t @ u) = rx_count t + rx_count u"
  by (simp_all add: rx_count_def)

definition hears :: "nat \<Rightarrow> 'z dfu_scheme \<Rightarrow> 'z dfu_scheme \<Rightarrow> bool" where
  "hears n s s' \<longleftrightarrow> (\<exists>t v. s' = s\<lparr>trace := t @ trace s, overrun := v\<rparr> \<and> (overrun s \<longrightarrow> v) \<and>
     xfers (t @ trace s) = xfers (trace s) \<and> rx_count t = n)"

lemma hearsI:
  "s' = s\<lparr>trace := t @ trace s, overrun := v\<rparr> \<Longrightarrow> (overrun s \<Longrightarrow> v) \<Longrightarrow> xfers (t @ trace s) = xfers (trace s) \<Longrightarrow> rx_count t = n \<Longrightarrow>
   hears n s s'"
  unfolding hears_def by blast

lemma hears_refl: "hears 0 s s"
  by (rule hearsI [where t = "[]" and v = "overrun s"]) simp_all

lemma hears_trans: "hears m s t \<Longrightarrow> hears n t u \<Longrightarrow> hears (m + n) s u"
proof -
  assume "hears m s t" "hears n t u"
  then obtain t1 v1 t2 v2 where "t = s\<lparr>trace := t1 @ trace s, overrun := v1\<rparr>" "overrun s \<longrightarrow> v1" "xfers (t1 @ trace s) = xfers (trace s)"
    "rx_count t1 = m" "u = t\<lparr>trace := t2 @ trace t, overrun := v2\<rparr>" "overrun t \<longrightarrow> v2" "xfers (t2 @ trace t) = xfers (trace t)" "rx_count t2 = n"
    unfolding hears_def by blast
  then show ?thesis by (intro hearsI [where t = "t2 @ t1" and v = v2]) auto
qed

lemma hears_step: "hears 0 s t \<Longrightarrow> hears n t u \<Longrightarrow> hears n s u"
  using hears_trans [of 0 s t n u] by simp

lemma uart_addr [simp]: "UART0_BASE + FR \<noteq> DATA" "UART0_BASE + DR \<noteq> DATA" "UART0_BASE + DR \<noteq> CMDTM" "FR \<noteq> DR"
  "UART0_BASE + CR \<noteq> CMDTM" "UART0_BASE + CR \<noteq> DATA" "UART0_BASE + LCRH \<noteq> CMDTM" "UART0_BASE + LCRH \<noteq> DATA"
  "UART0_BASE + IMSC \<noteq> CMDTM" "UART0_BASE + IMSC \<noteq> DATA" "UART0_BASE + ICR \<noteq> CMDTM" "UART0_BASE + ICR \<noteq> DATA"
  "CR \<noteq> DR" "LCRH \<noteq> DR"
  "CNTFRQ \<noteq> DATA" "CNTPCT_LO \<noteq> DATA" "CNTPCT_HI \<noteq> DATA" "CNTFRQ \<noteq> UART0_BASE + DR" "CNTPCT_LO \<noteq> UART0_BASE + DR"
  "CNTPCT_HI \<noteq> UART0_BASE + DR"
  by (simp_all add: uart_defs reg_defs)

lemma hears_rd: "a \<noteq> DATA \<Longrightarrow> hears (if a = UART0_BASE + DR then 1 else 0) s (s\<lparr>trace := Rd a v # trace s\<rparr>)"
  by (rule hearsI [where t = "[Rd a v]" and v = "overrun s"]) simp_all

lemma hears_wr: "a \<noteq> DATA \<Longrightarrow> a \<noteq> CMDTM \<Longrightarrow> hears 0 s (s\<lparr>trace := Wr a v # trace s\<rparr>)"
  by (rule hearsI [where t = "[Wr a v]" and v = "overrun s"]) simp_all

lemma hears_reg: "a \<noteq> DATA \<Longrightarrow> a \<noteq> UART0_BASE + DR \<Longrightarrow> hears 0 s (s\<lparr>trace := Rd a v # trace s\<rparr>)"
  using hears_rd [of a s v] by simp

lemma hears_spin:
  fixes s :: "'z dfu_scheme"
  assumes "spin_while a flag s = Some s'" "a \<noteq> DATA" "a \<noteq> UART0_BASE + DR"
  shows "hears 0 s s'"
proof -
  have "a \<noteq> DATA \<longrightarrow> a \<noteq> UART0_BASE + DR \<longrightarrow> hears 0 s s'"
  proof (rule spin_while.raw_induct [OF _ assms(1)], intro impI)
    fix sw a flag and s s' :: "'z dfu_scheme"
    assume IH: "\<And>a flag s s'. sw a flag s = Some s' \<Longrightarrow> a \<noteq> DATA \<longrightarrow> a \<noteq> UART0_BASE + DR \<longrightarrow> hears 0 s s'"
      and "(case run_state (rd a) s of (v, s) \<Rightarrow> if v AND flag \<noteq> 0 then sw a flag s else Some s) = Some s'" "a \<noteq> DATA" "a \<noteq> UART0_BASE + DR"
    then show "hears 0 s s'"
      using hears_reg [of a s "dev s (trace s) a"] hears_step [of s "s\<lparr>trace := Rd a (dev s (trace s) a) # trace s\<rparr>" 0 s']
      by (simp split: if_splits)
  qed
  with assms(2,3) show ?thesis by blast
qed

lemma hears_cntpct: "run_state cntpct s = (now, s') \<Longrightarrow> hears 0 s s'"
  unfolding cntpct_def
  by (simp, elim conjE, hypsubst, rule hears_step [OF hears_reg hears_reg [where s = "s\<lparr>trace := _ # trace s\<rparr>", simplified]]) simp_all

lemma hears_timed_wait:
  fixes s :: "'z dfu_scheme"
  assumes "timed_wait a start ticks s = Some (r, s')" "a \<noteq> DATA" "a \<noteq> UART0_BASE + DR"
  shows "hears 0 s s'"
proof -
  have "a \<noteq> DATA \<longrightarrow> a \<noteq> UART0_BASE + DR \<longrightarrow> hears 0 s (snd (r, s'))"
  proof (rule timed_wait.raw_induct [OF _ assms(1), where P = "\<lambda>a start ticks s y. a \<noteq> DATA \<longrightarrow> a \<noteq> UART0_BASE + DR \<longrightarrow> hears 0 s (snd y)"],
      intro impI)
    fix tw a start ticks y and s :: "'z dfu_scheme"
    assume IH: "\<And>a start ticks s y. tw a start ticks s = Some y \<Longrightarrow> a \<noteq> DATA \<longrightarrow> a \<noteq> UART0_BASE + DR \<longrightarrow> hears 0 s (snd y)"
      and st: "(case run_state (rd a) s of (v, s) \<Rightarrow>
        if v AND FR_RXFE \<noteq> 0 then
          (case run_state cntpct s of (now, s) \<Rightarrow>
             if now - start \<ge> ticks then Some (True, s) else tw a start ticks s)
        else Some (False, s)) = Some y" and a: "a \<noteq> DATA" "a \<noteq> UART0_BASE + DR"
    let ?s = "s\<lparr>trace := Rd a (dev s (trace s) a) # trace s\<rparr>"
    obtain now s2 where c: "run_state cntpct ?s = (now, s2)" by (cases "run_state cntpct ?s")
    have h: "hears 0 s ?s" using a by (rule hears_reg)
    have h2: "hears 0 s s2" by (rule hears_step [OF h hears_cntpct [OF c]])
    have t: "hears 0 s (snd y)" if "tw a start ticks s2 = Some y"
      proof -
      from IH [OF that] a have "hears 0 s2 (snd y)" by (elim impE)
      with h2 show ?thesis by (rule hears_step)
    qed
    have "y = (False, ?s) \<or> y = (True, s2) \<or> tw a start ticks s2 = Some y"
      using st unfolding run_rd prod.case c by (auto split: if_splits)
    then show "hears 0 s (snd y)" using h h2 t by (elim disjE) simp_all
  qed
  with assms(2,3) show ?thesis by simp
qed

lemma regs0 [simp]: "uart_channel_regs UART_CHANNEL_PRINT = Some UART0_BASE"
  by (simp add: uart_channel_regs_def uart_hw_table_def UART_CHANNEL_PRINT_def UART_NUM_CHANNELS_def)

lemma hears_rx_byte: "run_state (rx_byte UART0_BASE) s = (b, s') \<Longrightarrow> hears (Suc 0) s s'"
  using hears_rd [of "UART0_BASE + DR" s] by (auto simp: rx_byte_def)

lemma hears_rx: "uart_rx s = Some (b, s') \<Longrightarrow> hears (Suc 0) s s'"
  by (auto simp: uart_rx_def uart_channel_rx_def bind_eq_Some_conv intro: hears_step [OF hears_spin] hears_rx_byte)

lemma hears_tx: "uart_tx_raw b s = Some s' \<Longrightarrow> hears 0 s s'"
  using hears_step [OF hears_spin [of "UART0_BASE + FR" FR_TXFF s] hears_wr [of "UART0_BASE + DR"]]
  by (auto simp: uart_tx_raw_def uart_channel_tx_raw_def bind_eq_Some_conv)

lemma hears_rx_timed:
  assumes "uart_rx_timed ms s = Some (r, s')"
  shows "hears (case r of Inl e \<Rightarrow> 0 | Inr b \<Rightarrow> Suc 0) s s'"
proof -
  let ?s = "s\<lparr>trace := Rd CNTFRQ (dev s (trace s) CNTFRQ) # trace s\<rparr>"
  obtain start s1 where c: "run_state cntpct ?s = (start, s1)" by (cases "run_state cntpct ?s")
  have "hears 0 s ?s" by (rule hears_reg) simp_all
  then have h1: "hears 0 s s1" using hears_cntpct [OF c] by (rule hears_step)
  from assms c obtain q s2 where w: "timed_wait (UART0_BASE + FR) start (ucast (dev s (trace s) CNTFRQ div 1000) * ucast ms) s1 = Some (q, s2)"
    and r: "if q then r = Inl E_TIMED_OUT \<and> s' = s2 else (\<exists>b. run_state (rx_byte UART0_BASE) s2 = (b, s') \<and> r = Inr b)"
    by (cases "timed_wait (UART0_BASE + FR) start (ucast (dev s (trace s) CNTFRQ div 1000) * ucast ms) s1")
      (fastforce simp: uart_rx_timed_def uart_channel_rx_timed_def split: prod.splits if_splits)+
  have "hears 0 s s2" by (rule hears_step [OF h1 hears_timed_wait [OF w]]) simp_all
  with r show ?thesis using hears_step [OF _ hears_rx_byte] by (auto split: if_splits)
qed

subsection \<open>Packets\<close>

lemma hears_put_data:
  "put_data i b p s = (p', s') \<Longrightarrow> hears 0 s s' \<and> length (pk_DATA p') = length (pk_DATA p) \<and> pk_LEN p' = pk_LEN p \<and>
    (\<not> overrun s' \<longrightarrow> i < 256)"
  by (auto simp: put_data_def MAX_DATA_SIZE_BYTES_def split: if_splits intro: hears_refl hearsI [where t = "[]" and v = True])

lemma hears_overrun: "hears n s s' \<Longrightarrow> \<not> overrun s' \<Longrightarrow> \<not> overrun s"
  by (auto simp: hears_def)

lemma unat_Suc_less: "r < (l :: u16) \<Longrightarrow> unat (r + 1) = unat r + 1"
  using unat_lt2p [of l] by (auto simp: unat_word_ariths word_less_nat_alt)

lemma hears_payload:
  assumes "payload_loop rem len p s = Some ((r, p'), s')" "rem \<le> len"
  shows "length (pk_DATA p') = length (pk_DATA p) \<and> pk_LEN p' = pk_LEN p \<and>
    (\<exists>n. hears n s s' \<and> (r = E_OK \<longrightarrow> n = unat len - unat rem \<and> (\<not> overrun s' \<longrightarrow> rem = len \<or> len \<le> 256)))"
  using assms
proof (induction rem len p s arbitrary: r p' s' rule: payload_loop.induct)
  case (1 rem len p s)
  show ?case
  proof (cases "rem < len")
    case True
    from "1.prems"(1) True obtain q s1 where q: "uart_rx_timed DFU_PACKET_TIMEOUT_MS s = Some (q, s1)"
      by (subst (asm) payload_loop.simps) (auto simp: bind_eq_Some_conv)
    note h1 = hears_rx_timed [OF q]
    show ?thesis
    proof (cases q)
      case (Inl e)
      with "1.prems"(1) True q have "r = E_TIMED_OUT" "p' = p" "s' = s1" by (subst (asm) payload_loop.simps, simp)+
      with h1 Inl show ?thesis by auto
    next
      case (Inr b)
      obtain p1 s2 where pd: "put_data (unat rem) b p s1 = (p1, s2)" by (cases "put_data (unat rem) b p s1")
      note h2 = hears_put_data [OF pd]
      from "1.prems"(1) True q Inr pd have st: "payload_loop (rem + 1) len p1 s2 = Some ((r, p'), s')"
        by (subst (asm) payload_loop.simps) simp
      have u: "unat (rem + 1) = unat rem + 1" by (rule unat_Suc_less [OF True])
      have "rem + 1 \<le> len" using True u by (simp add: word_le_nat_alt word_less_nat_alt)
      from "1.IH" [OF True q refl Inr pd [symmetric] st this] h2
      obtain n where n: "length (pk_DATA p') = length (pk_DATA p)" "pk_LEN p' = pk_LEN p" "hears n s2 s'"
        "r = E_OK \<longrightarrow> n = unat len - unat (rem + 1) \<and> (\<not> overrun s' \<longrightarrow> rem + 1 = len \<or> len \<le> 256)" by auto
      have "hears (Suc n) s s'" using hears_trans [OF h1 hears_step [OF _ n(3)]] h2 Inr by simp
      moreover have "len \<le> 256" if "rem + 1 = len" "\<not> overrun s'"
        using h2 hears_overrun [OF n(3) that(2)] that(1) u by (auto simp: word_le_nat_alt)
      ultimately show ?thesis using n(1,2,4) True u by (intro conjI exI [of _ "Suc n"]) (auto simp: word_less_nat_alt)
    qed
  next
    case False
    then show ?thesis using "1.prems" by (subst (asm) payload_loop.simps) (auto intro: hears_refl exI [of _ 0])
  qed
qed

text \<open>What the parser knows of the packet when \<open>n\<close> bytes have come: from the payload on, its length is at most \<open>n\<close>, and at most 256 unless
  the payload ran over the end of \<open>DATA\<close>.\<close>

definition pk_ok :: "nat \<Rightarrow> PacketState \<Rightarrow> bool \<Rightarrow> DFU_Packet \<Rightarrow> bool" where
  "pk_ok n state over p \<longleftrightarrow> length (pk_DATA p) = 256 \<and>
     (state \<in> {PACKET_STATE_CRC, PACKET_STATE_END, PACKET_STATE_SUCCESS} \<longrightarrow>
       unat (pk_LEN p) \<le> n \<and> (\<not> over \<longrightarrow> unat (pk_LEN p) \<le> 256))"

lemma pk_ok_mono: "pk_ok n st v p \<Longrightarrow> n \<le> n' \<Longrightarrow> (v \<Longrightarrow> v') \<Longrightarrow> pk_ok n' st v' p"
  by (auto simp: pk_ok_def)

lemma hears_payload_state:
  assumes "payload_loop 1 (pk_LEN p) p s = Some ((r, p'), s')" "length (pk_DATA p) = 256"
  shows "\<exists>n. hears n s s' \<and> (r = E_OK \<longrightarrow> pk_ok (Suc n) PACKET_STATE_CRC (overrun s') p')"
proof (cases "pk_LEN p = 0")
  case True
  then show ?thesis using assms by (subst (asm) payload_loop.simps) (auto simp: pk_ok_def intro: hears_refl exI [of _ 0])
next
  case False
  then have "1 \<le> pk_LEN p" by (simp add: word_le_nat_alt Suc_le_eq unat_gt_0)
  from hears_payload [OF assms(1) this] assms(2) show ?thesis
    by (auto simp: pk_ok_def word_le_nat_alt)
qed

lemma hears_some_rx_timed: "uart_rx_timed ms s = Some (r, s') \<Longrightarrow> hears n s0 s \<Longrightarrow> \<exists>n. hears n s0 s'"
  using hears_trans [OF _ hears_rx_timed] by blast

lemma hears_packet_crc:
  assumes "packet_step PACKET_STATE_CRC b p s = Some (r, s')"
  shows "\<exists>n. hears n s s' \<and> (r = Inl E_TIMED_OUT \<or> (\<exists>c. r = Inr (PACKET_STATE_END, p\<lparr>pk_CRC := c\<rparr>)))"
proof -
  from assms obtain q2 s2 where q2: "uart_rx_timed DFU_PACKET_TIMEOUT_MS s = Some (q2, s2)"
    by (auto simp: packet_step_def bind_eq_Some_conv)
  from hears_some_rx_timed [OF this hears_refl] obtain n2 where h2: "hears n2 s s2" by blast
  show ?thesis
  proof (cases q2)
    case b2: (Inr b2)
    from assms q2 b2 obtain q3 s3 where q3: "uart_rx_timed DFU_PACKET_TIMEOUT_MS s2 = Some (q3, s3)"
      by (auto simp: packet_step_def bind_eq_Some_conv)
    from hears_some_rx_timed [OF this h2] obtain n3 where h3: "hears n3 s s3" by blast
    show ?thesis
    proof (cases q3)
      case b3: (Inr b3)
      from assms q2 b2 q3 b3 obtain q4 s4 where q4: "uart_rx_timed DFU_PACKET_TIMEOUT_MS s3 = Some (q4, s4)"
        by (auto simp: packet_step_def bind_eq_Some_conv)
      from hears_some_rx_timed [OF this h3] obtain n4 where "hears n4 s s4" by blast
      then show ?thesis using assms q2 b2 q3 b3 q4 by (auto simp: packet_step_def split: sum.splits)
    qed (use assms q2 b2 q3 h3 in \<open>auto simp: packet_step_def\<close>)
  qed (use assms q2 h2 in \<open>auto simp: packet_step_def\<close>)
qed

lemma hears_packet_step:
  assumes "packet_step st b p s = Some (r, s')" "pk_ok m st (overrun s) p" "0 < m"
  shows "\<exists>n. hears n s s' \<and> (\<forall>st' p'. r = Inr (st', p') \<longrightarrow> pk_ok (m + n) st' (overrun s') p')"
proof (cases st)
  case PACKET_STATE_LENGTH
  from assms(1) PACKET_STATE_LENGTH obtain q s1 where q: "uart_rx_timed DFU_PACKET_TIMEOUT_MS s = Some (q, s1)"
    by (auto simp: packet_step_def bind_eq_Some_conv)
  from hears_rx_timed [OF q] assms q PACKET_STATE_LENGTH show ?thesis
    by (auto simp: packet_step_def pk_ok_def split: sum.splits)
next
  case PACKET_STATE_PAYLOAD
  obtain p1 s1 where pd: "put_data 0 b p s = (p1, s1)" by (cases "put_data 0 b p s")
  from assms(1) PACKET_STATE_PAYLOAD pd obtain q p2 s2 where q: "payload_loop 1 (pk_LEN p1) p1 s1 = Some ((q, p2), s2)"
    and r: "s' = s2" "r = (if q \<noteq> E_OK then Inl E_TIMED_OUT else Inr (PACKET_STATE_CRC, p2))"
    by (auto simp: packet_step_def bind_eq_Some_conv split: if_splits)
  note h1 = hears_put_data [OF pd]
  from hears_payload_state [OF q] h1 assms(2) obtain n where n: "hears n s1 s2" "q = E_OK \<longrightarrow> pk_ok (Suc n) PACKET_STATE_CRC (overrun s2) p2"
    by (auto simp: pk_ok_def)
  have "hears n s s'" using h1 n(1) r(1) hears_step by blast
  moreover have "q = E_OK \<longrightarrow> pk_ok (m + n) PACKET_STATE_CRC (overrun s2) p2" using n(2) assms(3) pk_ok_mono by fastforce
  ultimately show ?thesis using r by auto
next
  case PACKET_STATE_CRC
  from hears_packet_crc [OF assms(1) [unfolded PACKET_STATE_CRC]] obtain n where n: "hears n s s'"
    "r = Inl E_TIMED_OUT \<or> (\<exists>c. r = Inr (PACKET_STATE_END, p\<lparr>pk_CRC := c\<rparr>))" by blast
  then show ?thesis using assms(2) PACKET_STATE_CRC hears_overrun [OF n(1)] by (auto simp: pk_ok_def)
qed (use assms in \<open>auto simp: packet_step_def pk_ok_def split: if_splits intro!: exI [of _ 0] hears_refl\<close>)

lemma packet_step_error: "packet_step st b p s = Some (Inl e, s') \<Longrightarrow> e = E_TIMED_OUT"
  by (cases st) (auto simp: packet_step_def split: bind_splits sum.split_asm if_split_asm prod.split_asm)

lemma hears_packet_loop:
  fixes s :: "'z dfu_scheme"
  assumes "packet_loop st p s = Some y" "pk_ok m st (overrun s) p"
  shows "\<exists>n. hears n s (snd y) \<and> (fst (fst y) = E_OK \<longrightarrow> pk_ok (m + n) PACKET_STATE_SUCCESS (overrun (snd y)) (snd (fst y)))"
proof -
  let ?P = "\<lambda>st p s y. \<forall>m. pk_ok m st (overrun s) p \<longrightarrow>
    (\<exists>n. hears n s (snd y) \<and> (fst (fst y) = E_OK \<longrightarrow> pk_ok (m + n) PACKET_STATE_SUCCESS (overrun (snd y)) (snd (fst y))))"
  have "?P st p s y"
  proof (rule packet_loop.raw_induct [OF _ assms(1), where P = ?P], intro allI impI)
    fix loop st p y m and s :: "'z dfu_scheme"
    assume IH: "\<And>st p s y. loop st p s = Some y \<Longrightarrow> ?P st p s y" and ok: "pk_ok m st (overrun s) p"
      and stp: "(if st = PACKET_STATE_SUCCESS then Some ((E_OK, p), s)
        else uart_rx s \<bind> (\<lambda>(byte, s). packet_step st byte p s \<bind> (\<lambda>(r, s). case r of
          Inl e \<Rightarrow> Some ((e, p), s) | Inr (st, p) \<Rightarrow> loop st p s))) = Some y"
    show "\<exists>n. hears n s (snd y) \<and> (fst (fst y) = E_OK \<longrightarrow> pk_ok (m + n) PACKET_STATE_SUCCESS (overrun (snd y)) (snd (fst y)))"
    proof (cases "st = PACKET_STATE_SUCCESS")
      case True
      then show ?thesis using stp ok by (auto intro!: exI [of _ 0] hears_refl)
    next
      case False
      with stp obtain bs rs where "uart_rx s = Some bs" "packet_step st (fst bs) p (snd bs) = Some rs"
        "(case fst rs of Inl e \<Rightarrow> Some ((e, p), snd rs) | Inr (st, p) \<Rightarrow> loop st p (snd rs)) = Some y"
        unfolding if_not_P [OF False] bind_eq_Some_conv case_prod_beta by blast
      then obtain b s1 r s2 where b: "uart_rx s = Some (b, s1)" and r: "packet_step st b p s1 = Some (r, s2)"
        and y: "(case r of Inl e \<Rightarrow> Some ((e, p), s2) | Inr (st, p) \<Rightarrow> loop st p s2) = Some y"
        by (intro that [of "fst bs" "snd bs" "fst rs" "snd rs"]) (simp_all only: prod.collapse)
      note h1 = hears_rx [OF b]
      have ok1: "pk_ok (Suc m) st (overrun s1) p" by (rule pk_ok_mono [OF ok]) (use hears_overrun [OF h1] in auto)
      from hears_packet_step [OF r this] obtain n where n: "hears n s1 s2"
        "\<And>st' p'. r = Inr (st', p') \<Longrightarrow> pk_ok (Suc m + n) st' (overrun s2) p'" by auto
      note h2 = hears_trans [OF h1 n(1)]
      show ?thesis
      proof (cases r)
        case (Inl e)
        then have "y = ((E_TIMED_OUT, p), s2)" using r y packet_step_error [of st b p s1 e s2] by simp
        then show ?thesis using h2 by (intro exI [of _ "Suc 0 + n"]) simp
      next
        case (Inr q)
        obtain st' p' where q: "q = (st', p')" by (cases q)
        have "loop st' p' s2 = Some y" using y Inr q by simp
        from IH [OF this, rule_format, OF n(2)] Inr q obtain k where k: "hears k s2 (snd y)"
          "fst (fst y) = E_OK \<longrightarrow> pk_ok (Suc m + n + k) PACKET_STATE_SUCCESS (overrun (snd y)) (snd (fst y))" by blast
        show ?thesis using hears_trans [OF h2 k(1)] k(2) by (intro exI [of _ "Suc 0 + n + k"]) (simp add: ac_simps)
      qed
    qed
  qed
  with assms(2) show ?thesis by blast
qed

lemma hears_packet_receive:
  assumes "dfu_packet_receive p s = Some ((r, p'), s')" "length (pk_DATA p) = 256"
  shows "\<exists>n. hears n s s' \<and> (r = E_OK \<longrightarrow> length (pk_DATA p') = 256 \<and> unat (pk_LEN p') \<le> n \<and> (\<not> overrun s' \<longrightarrow> unat (pk_LEN p') \<le> 256))"
  using hears_packet_loop [OF assms(1) [unfolded dfu_packet_receive_def], of 0] assms(2) by (auto simp: pk_ok_def)

lemma hears_shift:
  assumes "hears n s s'"
  shows "hears n (s\<lparr>shift_reg := v\<rparr>) (s'\<lparr>shift_reg := v\<rparr>)"
proof -
  from assms obtain t w where "s' = s\<lparr>trace := t @ trace s, overrun := w\<rparr>" "overrun s \<longrightarrow> w" "xfers (t @ trace s) = xfers (trace s)"
    "rx_count t = n" unfolding hears_def by blast
  then show ?thesis by (intro hearsI [where t = t and v = w]) simp_all
qed

lemma hears_trigger_loop:
  fixes s :: "'z dfu_scheme"
  assumes "trigger_loop s = Some s'"
  shows "\<exists>n v. hears n (s\<lparr>shift_reg := v\<rparr>) s'"
proof -
  let ?P = "\<lambda>s s'. \<exists>n v. hears n (s\<lparr>shift_reg := v\<rparr>) s'"
  have "?P s s'"
  proof (rule trigger_loop.raw_induct [OF _ assms, where P = ?P])
    fix loop and s s' :: "'z dfu_scheme"
    assume IH: "\<And>s s'. loop s = Some s' \<Longrightarrow> ?P s s'"
      and st: "uart_rx s \<bind> (\<lambda>(byte, s). case dfu_trigger_feed byte (shift_reg s) of (hit, r) \<Rightarrow>
       let s = s\<lparr>shift_reg := r\<rparr>
       in if hit then uart_tx_raw DFU_ACK s \<bind> (\<lambda>s. Some (s\<lparr>shift_reg := dfu_trigger_reset\<rparr>)) else loop s) = Some s'"
    from st obtain b s1 where b: "uart_rx s = Some (b, s1)" by (auto simp: bind_eq_Some_conv)
    obtain hit r where f: "dfu_trigger_feed b (shift_reg s1) = (hit, r)" by (cases "dfu_trigger_feed b (shift_reg s1)")
    have h: "hears (Suc 0) (s\<lparr>shift_reg := v\<rparr>) (s1\<lparr>shift_reg := v\<rparr>)" for v by (rule hears_shift [OF hears_rx [OF b]])
    show "?P s s'"
    proof (cases hit)
      case True
      with st b f obtain s2 where s2: "uart_tx_raw DFU_ACK (s1\<lparr>shift_reg := r\<rparr>) = Some s2" "s' = s2\<lparr>shift_reg := dfu_trigger_reset\<rparr>"
        by (auto simp: bind_eq_Some_conv Let_def)
      from hears_shift [OF hears_tx [OF s2(1)], of dfu_trigger_reset] s2(2) hears_trans [OF h]
      show ?thesis by fastforce
    next
      case False
      with st b f have "loop (s1\<lparr>shift_reg := r\<rparr>) = Some s'" by (simp add: Let_def)
      from IH [OF this] obtain n v where "hears n (s1\<lparr>shift_reg := v\<rparr>) s'" by auto
      from hears_trans [OF h this] show ?thesis by blast
    qed
  qed
  then show ?thesis by blast
qed

subsection \<open>The card\<close>

text \<open>\<open>stored_in base n t t'\<close>: since \<open>t\<close> the card got only whole-sector stores, each at \<open>base + k\<close> for a \<open>k\<close> that \<open>n\<close> bytes of payload account
  for.\<close>

definition stored_in :: "u32 \<Rightarrow> nat \<Rightarrow> access list \<Rightarrow> access list \<Rightarrow> bool" where
  "stored_in base n t t' \<longleftrightarrow> (\<exists>u. t' = u @ t) \<and> (\<exists>new. stores t' = new @ stores t \<and>
     list_all (\<lambda>(c, a, d). c = CMD24 \<and> (\<exists>k. a = base + of_nat k \<and> 512 * k \<le> n + 512)) new)"

lemma stored_in_refl: "stored_in base n t t"
  by (auto simp: stored_in_def)

lemma stored_in_mono: "stored_in base n t t' \<Longrightarrow> n \<le> n' \<Longrightarrow> stored_in base n' t t'"
  by (fastforce simp: stored_in_def list_all_iff intro: order_trans)

lemma stored_in_same: "stored_in base n t t' \<Longrightarrow> \<exists>u. t'' = u @ t' \<Longrightarrow> stores t'' = stores t' \<Longrightarrow> stored_in base n t t''"
  by (auto simp: stored_in_def)

lemma stored_in_one:
  "stored_in base n t t' \<Longrightarrow> \<exists>u. t'' = u @ t' \<Longrightarrow> stores t'' = (CMD24, base + of_nat k, d) # stores t' \<Longrightarrow> 512 * k \<le> n + 512 \<Longrightarrow>
   stored_in base n t t''"
  by (auto simp: stored_in_def)

lemma length_copy_at [simp]: "length (copy_at buf off bs) = length buf"
  by (induction buf off bs rule: copy_at.induct) simp_all

lemma length_words_of [simp]: "length (words_of bs) = length bs div 4"
  by (induction bs rule: words_of.induct) simp_all

lemma write_sector_bytes_spec:
  assumes "length (dfu_current_sector s) = 512" "is_high_capacity s"
  shows "\<exists>t. write_sector_bytes sector s = s\<lparr>trace := t @ trace s\<rparr> \<and>
    (stores (t @ trace s) = stores (trace s) \<or> (\<exists>d. stores (t @ trace s) = (CMD24, sector, d) # stores (trace s)))"
proof -
  obtain r s' where w: "run_state (emmc_write_blocks sector 0 (words_of (dfu_current_sector s)) 1) s = (r, s')"
    by (cases "run_state (emmc_write_blocks sector 0 (words_of (dfu_current_sector s)) 1) s")
  from write_sector [OF w] assms obtain t where "s' = s\<lparr>trace := t @ trace s\<rparr>"
    "stores (trace s') = stores (trace s) \<or> (\<exists>d. stores (trace s') = (CMD24, sector, d) # stores (trace s))"
    by (auto simp: card_arg_def)
  then show ?thesis using w by (auto simp: write_sector_bytes_def)
qed

definition region :: "WdtMeta \<Rightarrow> bool \<Rightarrow> u32" where
  "region m self = (if self then EMMC_SECTOR_BOOTLOADER else APP_SLOT_TO_SECTOR (APP_SLOT_OTHER (active_app_slot m)))"

text \<open>The invariant of a session that began in \<open>s0\<close> and has heard at least \<open>n\<close> bytes.\<close>

definition card_ok :: "'z dfu_scheme \<Rightarrow> nat \<Rightarrow> 'z dfu_scheme \<Rightarrow> bool" where
  "card_ok s0 n s \<longleftrightarrow> is_high_capacity s \<and> length (dfu_current_sector s) = 512 \<and> length (current_sector s) = 128 \<and>
     unat (dfu_current_sector_counter s) < 512 \<and> wdt_meta s = wdt_meta s0 \<and> rx_count (trace s0) + n \<le> rx_count (trace s) \<and>
     stored_in (dfu_base_sector s) n (trace s0) (trace s) \<and>
     (if started s then dfu_base_sector s = region (wdt_meta s0) (is_self_update s) \<and>
        (\<exists>N. sectors_written s = of_nat N \<and> 512 * N + unat (dfu_current_sector_counter s) \<le> n + 512)
      else \<not> unwritten_sector s \<and> \<not> is_self_update s \<and> dfu_current_sector_counter s = 0 \<and> stores (trace s) = stores (trace s0))"

lemma card_ok_hears:
  assumes "card_ok s0 n s" "hears m s s'"
  shows "card_ok s0 (n + m) s'"
proof -
  from assms(2) obtain t v where s': "s' = s\<lparr>trace := t @ trace s, overrun := v\<rparr>" "xfers (t @ trace s) = xfers (trace s)" "rx_count t = m"
    unfolding hears_def by blast
  have "stores (trace s') = stores (trace s)" using s' by (simp add: stores_def)
  moreover have "stored_in (dfu_base_sector s) (n + m) (trace s0) (trace s')"
    using stored_in_same [OF stored_in_mono, of _ n "trace s0" "trace s" "n + m"] assms(1) calculation s'(1) by (simp add: card_ok_def)
  moreover have "512 * N + c \<le> n + 512 \<Longrightarrow> 512 * N + c \<le> n + m + 512" for N c by linarith
  ultimately show ?thesis using assms(1) s'(1,3) unfolding card_ok_def by (auto split: if_splits)
qed

lemma card_ok_rx: "card_ok s0 n s \<Longrightarrow> rx_count (trace s0) + n' \<le> rx_count (trace s) \<Longrightarrow> n \<le> n' \<Longrightarrow> card_ok s0 n' s"
  by (auto simp: card_ok_def intro: stored_in_mono) (rule exI, rule conjI, rule refl, linarith)

lemma card_ok_write:
  assumes "card_ok s0 n s" "started s" "512 * k \<le> n + 512"
  shows "\<exists>t. write_sector_bytes (dfu_base_sector s + of_nat k) s = s\<lparr>trace := t @ trace s\<rparr> \<and> card_ok s0 n (s\<lparr>trace := t @ trace s\<rparr>)"
proof -
  let ?b = "dfu_base_sector s + of_nat k"
  have "length (dfu_current_sector s) = 512" "is_high_capacity s" using assms(1) by (simp_all add: card_ok_def)
  from write_sector_bytes_spec [OF this, of ?b] obtain t where t: "write_sector_bytes ?b s = s\<lparr>trace := t @ trace s\<rparr>"
    "stores (t @ trace s) = stores (trace s) \<or> (\<exists>d. stores (t @ trace s) = (CMD24, ?b, d) # stores (trace s))"
    by blast
  have "stored_in (dfu_base_sector s) n (trace s0) (t @ trace s)"
    using t(2)
  proof
    assume "stores (t @ trace s) = stores (trace s)"
    then show ?thesis using assms(1) by - (rule stored_in_same [of _ _ _ "trace s"], simp_all add: card_ok_def)
  next
    assume "\<exists>d. stores (t @ trace s) = (CMD24, ?b, d) # stores (trace s)"
    then obtain d where "stores (t @ trace s) = (CMD24, ?b, d) # stores (trace s)" by blast
    then show ?thesis using assms(1,3) by - (rule stored_in_one [of _ _ _ "trace s" _ k], simp_all add: card_ok_def)
  qed
  then have "card_ok s0 n (s\<lparr>trace := t @ trace s\<rparr>)" using assms(1,2) by (simp add: card_ok_def)
  with t(1) show ?thesis by blast
qed

lemma card_ok_start:
  assumes "card_ok s0 n s" "\<not> started s" "base = region (wdt_meta s0) self" "length buf = 512"
    "s' = write_sector_bytes base (s\<lparr>dfu_current_sector := buf, dfu_base_sector := base\<rparr>)"
  shows "card_ok s0 n (s'\<lparr>sectors_written := 1, is_self_update := self, started := True\<rparr>)"
proof -
  let ?s = "s\<lparr>dfu_current_sector := buf, dfu_base_sector := base\<rparr>"
  from write_sector_bytes_spec [of ?s base] assms(1,4) obtain t where t: "s' = ?s\<lparr>trace := t @ trace s\<rparr>"
    "stores (t @ trace s) = stores (trace s) \<or> (\<exists>d. stores (t @ trace s) = (CMD24, base, d) # stores (trace s))"
    by (auto simp: card_ok_def assms(5))
  have "stored_in base n (trace s0) (trace s)" using assms(1,2) by (auto simp: card_ok_def stored_in_def)
  then have "stored_in base n (trace s0) (t @ trace s)"
    using t(2) stored_in_same [of base n "trace s0" "trace s" "t @ trace s"] stored_in_one [where k = 0, of base n "trace s0" "trace s" "t @ trace s"]
    by auto
  then show ?thesis using t(1) assms by (auto simp: card_ok_def intro!: exI [of _ 1])
qed

lemma unat_ucast_len: "unat (ucast (x :: u16) :: u32) = unat x"
  by (simp add: unsigned_ucast_eq take_bit_nat_eq_self unat_lt2p [THEN order_less_le_trans])

lemma card_ok_fill:
  assumes "card_ok s0 n s" "started s" "unat (pk_LEN p) \<le> m" "unat (pk_LEN p) \<le> 256" "rx_count (trace s0) + (n + m) \<le> rx_count (trace s)"
  shows "card_ok s0 (n + m) (fill p s) \<and> started (fill p s)"
proof -
  let ?c = "dfu_current_sector_counter s" and ?l = "ucast (pk_LEN p) :: u32"
  have ok: "card_ok s0 (n + m) s" by (rule card_ok_rx [OF assms(1,5)]) simp
  from assms(1,2) obtain N where N: "sectors_written s = of_nat N" "512 * N + unat ?c \<le> n + 512" by (auto simp: card_ok_def)
  have c: "unat ?c < 512" using assms(1) by (simp add: card_ok_def)
  have l: "unat ?l \<le> 256" "unat ?l \<le> m" using assms(3,4) by (simp_all add: unat_ucast_len)
  have cl: "unat (?c + ?l) = unat ?c + unat ?l" using c l by (subst unat_add_lem [THEN iffD1]) simp_all
  show ?thesis
  proof (cases "?c + ?l \<ge> SECTOR_SIZE")
    case True
    let ?d = "?c + ?l - SECTOR_SIZE"
    have d: "unat ?d = unat ?c + unat ?l - 512" "512 \<le> unat ?c + unat ?l"
      using True cl by (simp_all add: SECTOR_SIZE_def unat_sub word_le_nat_alt)
    define s1 where "s1 = s\<lparr>dfu_current_sector := copy_at (dfu_current_sector s) (unat ?c) (take (unat (?l - ?d)) (pk_DATA p))\<rparr>"
    have "card_ok s0 (n + m) s1" using ok by (simp add: card_ok_def s1_def)
    from card_ok_write [OF this, of N] assms(2) N obtain t where
      t: "write_sector_bytes (dfu_base_sector s1 + of_nat N) s1 = s1\<lparr>trace := t @ trace s1\<rparr>" "card_ok s0 (n + m) (s1\<lparr>trace := t @ trace s1\<rparr>)"
      by (auto simp: s1_def)
    define b where "b = copy_at (dfu_current_sector s1) 0 (take (unat ?d) (drop (unat (?l - ?d)) (pk_DATA p)))"
    have f: "fill p s = s1\<lparr>trace := t @ trace s1, dfu_current_sector := b, sectors_written := of_nat (Suc N), unwritten_sector := (?d \<noteq> 0),
        dfu_current_sector_counter := ?d\<rparr>"
      using True t(1) N(1) unfolding fill_def Let_def b_def by (simp add: s1_def)
    have "length b = 512" using ok by (simp add: b_def s1_def card_ok_def)
    moreover have "512 * Suc N + unat ?d \<le> n + m + 512" "unat ?d < 512" using d c l N(2) by simp_all
    ultimately show ?thesis using t(2) assms(2) unfolding f by (auto simp: card_ok_def s1_def intro!: exI [of _ "Suc N"])
  next
    case False
    then have "unat ?c + unat ?l < 512" using cl by (simp add: SECTOR_SIZE_def word_less_nat_alt not_le)
    then show ?thesis using ok N l False assms(2) cl
      by (auto simp: fill_def Let_def card_ok_def intro!: exI [of _ N])
  qed
qed

lemma card_ok_flush:
  assumes "card_ok s0 n s"
  shows "card_ok s0 n (flush s) \<and> is_self_update (flush s) = is_self_update s \<and> started (flush s) = started s"
proof (cases "unwritten_sector s")
  case True
  then have st: "started s" using assms by (auto simp: card_ok_def split: if_splits)
  then obtain N where N: "sectors_written s = of_nat N" "512 * N \<le> n + 512" using assms by (auto simp: card_ok_def)
  define s1 where "s1 = s\<lparr>dfu_current_sector := copy_at (dfu_current_sector s) (unat (dfu_current_sector_counter s))
    (replicate (unat SECTOR_SIZE - unat (dfu_current_sector_counter s)) 0)\<rparr>"
  have "card_ok s0 n s1" "started s1" using assms st by (auto simp: card_ok_def s1_def)
  from card_ok_write [OF this N(2)] show ?thesis
    using True N(1) by (auto simp: flush_def Let_def s1_def)
qed (use assms in \<open>simp add: flush_def\<close>)

subsection \<open>Commands\<close>

text \<open>\<open>looks s s'\<close>: only reads of the card into the validation buffer.\<close>

definition looks :: "'z dfu_scheme \<Rightarrow> 'z dfu_scheme \<Rightarrow> bool" where
  "looks s s' \<longleftrightarrow> (\<exists>t ws. s' = s\<lparr>trace := t @ trace s, current_sector := ws\<rparr> \<and> length ws = length (current_sector s) \<and>
     stores (t @ trace s) = stores (trace s))"

lemma looks_refl: "looks s s"
  unfolding looks_def by (intro exI [of _ "[]"] exI [of _ "current_sector s"]) simp

lemma looks_trans: "looks s t \<Longrightarrow> looks t u \<Longrightarrow> looks s u"
  unfolding looks_def
proof (elim exE conjE)
  fix t1 w1 t2 w2
  assume "t = s\<lparr>trace := t1 @ trace s, current_sector := w1\<rparr>" "length w1 = length (current_sector s)" "stores (t1 @ trace s) = stores (trace s)"
    "u = t\<lparr>trace := t2 @ trace t, current_sector := w2\<rparr>" "length w2 = length (current_sector t)" "stores (t2 @ trace t) = stores (trace t)"
  then show "\<exists>t ws. u = s\<lparr>trace := t @ trace s, current_sector := ws\<rparr> \<and> length ws = length (current_sector s) \<and> stores (t @ trace s) = stores (trace s)"
    by (intro exI [of _ "t2 @ t1"] exI [of _ w2]) auto
qed

lemma looks_current:
  assumes "run_state (read_current sector) s = (ws, s')" "length (current_sector s) = 128"
  shows "looks s s'"
proof -
  from read_current_spec [OF assms] obtain t where "trace s' = t @ trace s" "stores (trace s') = stores (trace s)" "length ws = 128"
    "s' = s\<lparr>trace := trace s', current_sector := ws\<rparr>" by blast
  then show ?thesis using assms(2) unfolding looks_def by (intro exI [of _ t] exI [of _ ws]) simp
qed

lemma looks_length: "looks s s' \<Longrightarrow> length (current_sector s') = length (current_sector s)"
  by (auto simp: looks_def)

lemma looks_validate_loop:
  "run_state (validate_loop r sector ctx) s = (ctx', s') \<Longrightarrow> length (current_sector s) = 128 \<Longrightarrow> looks s s'"
proof (induction r sector ctx arbitrary: s rule: validate_loop.induct)
  case (1 r sector ctx)
  show ?case
  proof (cases "0 < r")
    case True
    obtain ws s1 where rc: "run_state (read_current sector) s = (ws, s1)" by (cases "run_state (read_current sector) s")
    note l = looks_current [OF rc "1.prems"(2)]
    have "run_state (validate_loop (r - chunk_of r) (sector + 1) (crc32_update (take (unat (chunk_of r)) (bytes_of ws)) ctx)) s1 = (ctx', s')"
      using "1.prems"(1) True rc by (subst (asm) validate_loop.simps) (simp add: Let_def)
    from "1.IH" [OF True refl this] looks_length [OF l] "1.prems"(2) have "looks s1 s'" by simp
    with l show ?thesis by (rule looks_trans)
  next
    case False
    with "1.prems" show ?thesis by (subst (asm) validate_loop.simps) (simp add: looks_refl)
  qed
qed

lemma looks_validate:
  assumes "run_state (boot_validate_app sector) s = (r, s')" "length (current_sector s) = 128"
  shows "looks s s'"
proof -
  obtain ws s1 where rc: "run_state (read_current sector) s = (ws, s1)" by (cases "run_state (read_current sector) s")
  note l = looks_current [OF rc assms(2)]
  obtain c s2 where vl: "run_state (validate_loop (fw_length (start_packet ws)) (sector + 1) crc32_start) s1 = (c, s2)"
    by (cases "run_state (validate_loop (fw_length (start_packet ws)) (sector + 1) crc32_start) s1")
  have "looks s1 s2" using looks_validate_loop [OF vl] looks_length [OF l] assms(2) by simp
  with l assms(1) rc vl show ?thesis by (auto simp: boot_validate_app_def Let_def split: if_splits intro: looks_trans)
qed

lemma looks_marker:
  assumes "run_state (marker_ok slot) s = (ok, s')"
  shows "looks s s'"
proof -
  obtain r ws s1 where rd: "run_state (emmc_read_blocks (APP_SLOT_TO_SECTOR slot + 1) 0 (replicate 128 0) 1) s = ((r, ws), s1)"
    by (metis prod.exhaust)
  from read_sector [OF rd] obtain t where t: "s1 = s\<lparr>trace := t @ trace s\<rparr>" "stores (trace s1) = stores (trace s)" by auto
  moreover have "s' = s1" using assms rd by (simp add: marker_ok_def SECTOR_SIZE_def)
  ultimately show ?thesis unfolding looks_def by (intro exI [of _ t] exI [of _ "current_sector s"]) simp
qed

lemma card_ok_looks: "card_ok s0 n s \<Longrightarrow> looks s s' \<Longrightarrow> card_ok s0 n s'"
  unfolding looks_def
proof (elim exE conjE)
  fix t ws
  assume a: "card_ok s0 n s" "s' = s\<lparr>trace := t @ trace s, current_sector := ws\<rparr>" "length ws = length (current_sector s)"
    "stores (t @ trace s) = stores (trace s)"
  have "stored_in (dfu_base_sector s) n (trace s0) (t @ trace s)"
    by (rule stored_in_same [of _ _ _ "trace s"]) (use a in \<open>simp_all add: card_ok_def\<close>)
  with a show "card_ok s0 n s'" by (auto simp: card_ok_def split: if_splits)
qed

text \<open>How a session can have ended: the new slot read back valid, its marker was there, and then, only then, the metadata was written.\<close>

definition committed :: "'z dfu_scheme \<Rightarrow> nat \<Rightarrow> 'z dfu_scheme \<Rightarrow> bool" where
  "committed s0 n s' \<longleftrightarrow> (let slot = APP_SLOT_OTHER (active_app_slot (wdt_meta s0)) in
     \<exists>s1 s2 s3. card_ok s0 n s1 \<and> \<not> is_self_update s1 \<and> run_state (boot_validate_app (APP_SLOT_TO_SECTOR slot)) s1 = (E_OK, s2) \<and>
       run_state (marker_ok slot) s2 = (True, s3) \<and> card_ok s0 n s3 \<and> \<not> is_self_update s3 \<and> hears 0 (snd (run_state (commit slot) s3)) s')"

definition session_ok :: "'z dfu_scheme \<Rightarrow> nat \<Rightarrow> session \<Rightarrow> 'z dfu_scheme \<Rightarrow> bool" where
  "session_ok s0 n l s \<longleftrightarrow> (if dfu_state l = DFU_STATE_DONE then committed s0 n s
     else card_ok s0 n s \<and> (dfu_state l = DFU_STATE_RECIEVE_DATA \<longrightarrow> started s))"

definition outcome_ok :: "'z dfu_scheme \<Rightarrow> nat \<Rightarrow> session outcome \<Rightarrow> 'z dfu_scheme \<Rightarrow> bool" where
  "outcome_ok s0 n out s = (case out of
     Returns l \<Rightarrow> session_ok s0 n l s
   | Resets \<Rightarrow> is_self_update s \<and> wdt_meta s = wdt_meta s0 \<and> rx_count (trace s0) + n \<le> rx_count (trace s) \<and>
       stored_in EMMC_SECTOR_BOOTLOADER n (trace s0) (trace s)
   | _ \<Rightarrow> False)"

lemma outcome_reply:
  assumes "reply b l s = Some (out, s')" "session_ok s0 n l s" "dfu_state l \<noteq> DFU_STATE_DONE"
  shows "outcome_ok s0 n out s'"
proof -
  from assms(1) obtain h: "hears 0 s s'" "out = Returns l" by (auto simp: reply_def bind_eq_Some_conv dest: hears_tx)
  then have "started s' = started s" by (auto simp: hears_def)
  with h card_ok_hears [of s0 n s 0 s'] assms(2,3) show ?thesis by (auto simp: outcome_ok_def session_ok_def)
qed

lemma outcome_nack:
  "nack_abort l s = Some (out, s') \<Longrightarrow> card_ok s0 n s \<Longrightarrow> outcome_ok s0 n out s'"
  unfolding nack_abort_def by (erule outcome_reply) (simp_all add: session_ok_def)

lemma outcome_start:
  assumes "start_with base self p l s = Some (out, s')" "card_ok s0 n s" "base = region (wdt_meta s0) self"
  shows "outcome_ok s0 n out s'"
proof (cases "\<not> started s \<and> unat (pk_LEN p) = sizeof_StartPacket")
  case True
  let ?b = "copy_at (dfu_current_sector s) 0 (take sizeof_StartPacket (pk_DATA p))"
  let ?s = "write_sector_bytes base (s\<lparr>dfu_current_sector := ?b, dfu_base_sector := base\<rparr>)
    \<lparr>sectors_written := 1, is_self_update := self, started := True\<rparr>"
  have "card_ok s0 n ?s" using True assms(2,3) by (intro card_ok_start) (simp_all add: card_ok_def)
  then have s: "session_ok s0 n l' ?s" if "dfu_state l' = DFU_STATE_RECIEVE_DATA" for l' using that by (simp add: session_ok_def)
  from assms(1) True show ?thesis unfolding start_with_def Let_def
    by (simp split del: if_split) (erule outcome_reply, rule s, simp_all)
next
  case False
  then show ?thesis using assms by (auto simp: start_with_def intro: outcome_nack split: if_splits)
qed

lemma outcome_data:
  assumes "dfu_cmd_data p l s = Some (out, s')" "session_ok s0 n l s" "dfu_state l \<noteq> DFU_STATE_DONE" "unat (pk_LEN p) \<le> m" "unat (pk_LEN p) \<le> 256"
    "rx_count (trace s0) + (n + m) \<le> rx_count (trace s)"
  shows "outcome_ok s0 (n + m) out s'"
proof -
  have c: "card_ok s0 n s" using assms(2,3) by (simp add: session_ok_def)
  have c': "card_ok s0 (n + m) s" by (rule card_ok_rx [OF c assms(6)]) simp
  show ?thesis
  proof (cases "pk_LEN p mod 4 = 0 \<and> dfu_state l = DFU_STATE_RECIEVE_DATA")
    case True
    then have "started s" using assms(2) by (simp add: session_ok_def)
    from card_ok_fill [OF c this assms(4-6)] have f: "session_ok s0 (n + m) (hash p l) (fill p s)"
      using True by (simp add: session_ok_def hash_def Let_def)
    have "reply DFU_ACK (hash p l) (fill p s) = Some (out, s')" using assms(1) True by (simp add: dfu_cmd_data_def)
    then show ?thesis using f by (rule outcome_reply) (use True in \<open>simp add: hash_def Let_def\<close>)
  next
    case False
    then have "nack_abort l s = Some (out, s') \<or> out = Returns l \<and> s' = s" using assms(1) by (auto simp: dfu_cmd_data_def split: if_splits)
    then show ?thesis
    proof
      assume "nack_abort l s = Some (out, s')"
      then show ?thesis using c' by (rule outcome_nack)
    qed (use c' assms(2,3) in \<open>simp add: outcome_ok_def session_ok_def\<close>)
  qed
qed

interpretation hears: io_rel "hears 0"
  by unfold_locales (rule hears_refl, rule hears_step)

lemma hears_io:
  "a \<noteq> DATA \<Longrightarrow> a \<noteq> UART0_BASE + DR \<Longrightarrow> state_io_rel (hears 0) (rd a)" "a \<noteq> DATA \<Longrightarrow> a \<noteq> CMDTM \<Longrightarrow> state_io_rel (hears 0) (wr a v)"
  by (simp_all add: state_io_rel_def hears_reg hears_wr)

lemma hears_clear_bits: "a \<noteq> DATA \<Longrightarrow> a \<noteq> CMDTM \<Longrightarrow> a \<noteq> UART0_BASE + DR \<Longrightarrow> state_io_rel (hears 0) (clear_bits a m)"
  unfolding clear_bits_def by (intro hears.io_bind hears_io)

lemma GPFSEL_neq: "i < 256 \<Longrightarrow> GPFSEL i \<noteq> DATA" "i < 256 \<Longrightarrow> GPFSEL i \<noteq> CMDTM" "i < 256 \<Longrightarrow> GPFSEL i \<noteq> UART0_BASE + DR"
proof -
  assume "i < 256"
  then have "unat (4 * of_nat i :: u32) = 4 * i" by (simp add: unat_word_ariths unat_of_nat)
  with \<open>i < 256\<close> have "unat (GPFSEL i) = 0xFE200000 + 4 * i"
    by (subst GPFSEL_def, subst unat_add_lem [THEN iffD1]) (simp_all add: GPIO_BASE_def)
  with \<open>i < 256\<close> show "GPFSEL i \<noteq> DATA" "GPFSEL i \<noteq> CMDTM" "GPFSEL i \<noteq> UART0_BASE + DR"
    by (auto simp: reg_defs uart_defs dest!: arg_cong [of _ _ unat])
qed

lemma hears_set_function: "state_io_rel (hears 0) (gpio_set_function (ucast (pin :: u8)) f)"
proof -
  have "unat (ucast pin div 10 :: u32) < 256"
    using unat_lt2p [of pin] by (simp add: unat_div unsigned_ucast_eq take_bit_nat_eq_self)
  then show ?thesis unfolding gpio_set_function_def Let_def by (intro hears.io_bind hears_io GPFSEL_neq)
qed

lemma hears_release_pins: "state_io_rel (hears 0) (release_pins channel)"
proof -
  have "state_io_rel (hears 0) (case c of None \<Rightarrow> return () | Some config \<Rightarrow> do {
         gpio_set_function (ucast (tx_pin config)) GPIO_FUNC_INPUT;
         if rx_pin config \<noteq> UART_PIN_NONE then gpio_set_function (ucast (rx_pin config)) GPIO_FUNC_INPUT else return () })" for c
    by (cases c) (auto intro!: hears.io_rules hears_set_function)
  then show ?thesis unfolding release_pins_def by (intro hears.io_bind hears.io_gets)
qed

lemma hears_deinit:
  assumes "uart_deinit s = Some s'"
  shows "hears 0 s s'"
proof -
  let ?m = "do { clear_bits (UART0_BASE + CR) (CR_UARTEN OR CR_TXE OR CR_RXE); clear_bits (UART0_BASE + LCRH) LCRH_FEN;
    wr (UART0_BASE + IMSC) 0; wr (UART0_BASE + ICR) ICR_ALL; release_pins UART_CHANNEL_PRINT }"
  from assms obtain s1 where s1: "spin_while (UART0_BASE + FR) FR_BUSY s = Some s1" "s' = snd (run_state ?m s1)"
    by (auto simp: uart_deinit_def uart_channel_deinit_def uart_channel_drain_def bind_eq_Some_conv)
  have "state_io_rel (hears 0) ?m" by (intro hears.io_bind hears_clear_bits hears_io hears_release_pins) simp_all
  then have "hears 0 s1 s'" using s1(2) unfolding state_io_rel_def by blast
  with hears_spin [OF s1(1)] show ?thesis by (auto intro: hears_step)
qed

lemma outcome_finish:
  assumes "dfu_cmd_finish l s = Some (out, s')" "session_ok s0 n l s" "dfu_state l \<noteq> DFU_STATE_DONE"
  shows "outcome_ok s0 n out s'"
proof -
  have c: "card_ok s0 n s" using assms(2,3) by (simp add: session_ok_def)
  note f = card_ok_flush [OF c]
  consider (crc) "nack_abort l s = Some (out, s')"
    | (self) s1 s2 where "is_self_update s" "uart_tx_raw DFU_ACK (flush s) = Some s1" "uart_deinit s1 = Some s2" "out = Resets"
        "s' = snd (run_state watchdog_trigger_reset s2)"
    | (app) "\<not> is_self_update s" "finish_app l (flush s) = Some (out, s')"
    using assms(1) f by (auto simp: dfu_cmd_finish_def Let_def bind_eq_Some_conv split: if_splits)
  then show ?thesis
  proof cases
    case crc
    then show ?thesis using c by (rule outcome_nack)
  next
    case self
    have "hears 0 (flush s) s2" by (rule hears_step [OF hears_tx hears_deinit]) (use self in simp_all)
    from card_ok_hears [OF conjunct1 [OF f] this] have c2: "card_ok s0 n s2" by simp
    have i: "is_self_update s2" using \<open>hears 0 (flush s) s2\<close> f self(1) by (auto simp: hears_def)
    have t: "trace s' = [Wr PM_RSTC (PM_PASSWORD OR PM_RSTC_WRCFG_FULL_RESET), Wr PM_WDOG (PM_PASSWORD OR 10)] @ trace s2"
      "is_self_update s' = is_self_update s2" "wdt_meta s' = wdt_meta s2"
      using self by (simp_all add: watchdog_trigger_reset_def)
    have st: "stores (trace s') = stores (trace s2)" unfolding t(1) by (simp add: stores_def pm_defs reg_defs)
    have b: "dfu_base_sector s2 = EMMC_SECTOR_BOOTLOADER" using c2 i by (auto simp: card_ok_def region_def split: if_splits)
    have "stored_in EMMC_SECTOR_BOOTLOADER n (trace s0) (trace s')"
      by (rule stored_in_same [of _ _ _ "trace s2"]) (use c2 b t(1) st in \<open>simp_all add: card_ok_def\<close>)
    then show ?thesis using c2 self(4) i t by (auto simp: outcome_ok_def card_ok_def)
  next
    case app
    let ?slot = "APP_SLOT_OTHER (active_app_slot (wdt_meta s0))"
    have m: "wdt_meta (flush s) = wdt_meta s0" "length (current_sector (flush s)) = 128" using f by (simp_all add: card_ok_def)
    obtain r s2 where v: "run_state (boot_validate_app (APP_SLOT_TO_SECTOR ?slot)) (flush s) = (r, s2)"
      by (cases "run_state (boot_validate_app (APP_SLOT_TO_SECTOR ?slot)) (flush s)")
    obtain ok s3 where k: "run_state (marker_ok ?slot) s2 = (ok, s3)" by (cases "run_state (marker_ok ?slot) s2")
    have c2: "card_ok s0 n s2" by (rule card_ok_looks [OF conjunct1 [OF f] looks_validate [OF v m(2)]])
    have c3: "card_ok s0 n s3" by (rule card_ok_looks [OF c2 looks_marker [OF k]])
    have i3: "\<not> is_self_update s3" using looks_validate [OF v m(2)] looks_marker [OF k] f app(1) by (auto simp: looks_def)
    consider "nack_abort l s2 = Some (out, s')" | "nack_abort l s3 = Some (out, s')"
      | "r = E_OK" "ok" "reply DFU_ACK (l\<lparr>dfu_state := DFU_STATE_DONE\<rparr>) (snd (run_state (commit ?slot) s3)) = Some (out, s')"
      using app(2) v k m(1) by (auto simp: finish_app_def Let_def split: if_splits)
    then show ?thesis
    proof cases
      case 1 then show ?thesis using c2 by (rule outcome_nack)
    next
      case 2 then show ?thesis using c3 by (rule outcome_nack)
    next
      case 3
      then have h: "hears 0 (snd (run_state (commit ?slot) s3)) s'" "out = Returns (l\<lparr>dfu_state := DFU_STATE_DONE\<rparr>)"
        by (auto simp: reply_def bind_eq_Some_conv dest: hears_tx)
      have "committed s0 n s'" unfolding committed_def Let_def
        by (intro exI [of _ "flush s"] exI [of _ s2] exI [of _ s3] conjI) (use f app(1) v k c3 i3 h(1) 3(1,2) in simp_all)
      then show ?thesis using h(2) by (simp add: outcome_ok_def session_ok_def)
    qed
  qed
qed

lemma ifE: "(if b then x else y) = z \<Longrightarrow> (x = z \<Longrightarrow> P) \<Longrightarrow> (y = z \<Longrightarrow> P) \<Longrightarrow> P"
  by (cases b) simp_all

lemma outcome_command:
  assumes "dfu_command p l s = Some (out, s')" "session_ok s0 n l s" "dfu_state l \<noteq> DFU_STATE_DONE" "unat (pk_LEN p) \<le> m" "unat (pk_LEN p) \<le> 256"
    "rx_count (trace s0) + (n + m) \<le> rx_count (trace s)"
  shows "outcome_ok s0 (n + m) out s'"
proof -
  have c0: "card_ok s0 n s" using assms(2,3) by (simp add: session_ok_def)
  have c: "card_ok s0 (n + m) s" by (rule card_ok_rx [OF c0 assms(6)]) simp
  then have k: "session_ok s0 (n + m) l s" using assms(2,3) by (simp add: session_ok_def)
  have m: "wdt_meta s = wdt_meta s0" using c by (simp add: card_ok_def)
  note d = assms(1) [unfolded dfu_command_def]
  have "dfu_cmd_start p l s = Some (out, s') \<or> dfu_cmd_start_self_update p l s = Some (out, s') \<or> dfu_cmd_data p l s = Some (out, s') \<or>
      nack_abort l s = Some (out, s') \<or> dfu_cmd_finish l s = Some (out, s') \<or> Some (Returns l, s) = Some (out, s')"
    by (rule ifE [OF d], erule disjI1, rule disjI2, (erule ifE, erule disjI1, rule disjI2)+)
  then show ?thesis
  proof (elim disjE)
    assume "dfu_cmd_start p l s = Some (out, s')"
    then show ?thesis using c unfolding dfu_cmd_start_def by (rule outcome_start) (simp add: region_def m)
  next
    assume "dfu_cmd_start_self_update p l s = Some (out, s')"
    then show ?thesis using c unfolding dfu_cmd_start_self_update_def by (rule outcome_start) (simp add: region_def)
  next
    assume "dfu_cmd_data p l s = Some (out, s')"
    from this assms(2-6) show ?thesis by (rule outcome_data)
  next
    assume "nack_abort l s = Some (out, s')"
    then show ?thesis using c by (rule outcome_nack)
  next
    assume "dfu_cmd_finish l s = Some (out, s')"
    then show ?thesis using k assms(3) by (rule outcome_finish)
  qed (use k in \<open>auto simp: outcome_ok_def\<close>)
qed

subsection \<open>Sessions\<close>

lemma session_ok_hears:
  assumes "session_ok s0 n l s" "dfu_state l \<noteq> DFU_STATE_DONE" "hears m s s'"
  shows "session_ok s0 n l s' \<and> rx_count (trace s0) + (n + m) \<le> rx_count (trace s')"
proof -
  have c: "card_ok s0 n s" using assms(1,2) by (simp add: session_ok_def)
  from card_ok_hears [OF this assms(3)] have c': "card_ok s0 (n + m) s'" .
  from assms(3) obtain t v where s': "s' = s\<lparr>trace := t @ trace s, overrun := v\<rparr>" "xfers (t @ trace s) = xfers (trace s)"
    unfolding hears_def by blast
  have "stored_in (dfu_base_sector s) n (trace s0) (trace s')"
    by (rule stored_in_same [of _ _ _ "trace s"]) (use c s' in \<open>simp_all add: card_ok_def stores_def\<close>)
  then have "card_ok s0 n s'" using c s' by (auto simp: card_ok_def stores_def split: if_splits)
  with c' assms(1,2) s'(1) show ?thesis by (auto simp: session_ok_def card_ok_def)
qed

text \<open>What every session that ends has done.\<close>

definition ended :: "'z dfu_scheme \<Rightarrow> nat \<Rightarrow> StatusCode outcome \<Rightarrow> 'z dfu_scheme \<Rightarrow> bool" where
  "ended s0 n out s' \<longleftrightarrow>
     (case out of Returns r \<Rightarrow> if r = E_OK then committed s0 n s' else r \<in> {E_ABORTED, E_TIMED_OUT} \<and> card_ok s0 n s'
      | Resets \<Rightarrow> outcome_ok s0 n Resets s' | _ \<Rightarrow> False)"

definition keeps :: "'z dfu_scheme \<Rightarrow> 'z dfu_scheme \<Rightarrow> bool" where
  "keeps s s' \<longleftrightarrow> (overrun s \<longrightarrow> overrun s') \<and> length (current_sector s') = length (current_sector s)"

lemma keeps_trans: "keeps s t \<Longrightarrow> keeps t u \<Longrightarrow> keeps s u"
  by (simp add: keeps_def)

lemma keeps_hears: "hears n s s' \<Longrightarrow> keeps s s'"
  by (auto simp: hears_def keeps_def)

lemma keeps_looks: "looks s s' \<Longrightarrow> keeps s s'"
  by (auto simp: looks_def keeps_def)

lemma keeps_write: "overrun (write_sector_bytes sector s) = overrun s" "current_sector (write_sector_bytes sector s) = current_sector s"
proof -
  let ?w = "emmc_write_blocks sector 0 (words_of (dfu_current_sector s)) 1"
  have "state_io_rel (issues (\<lambda>_ _ _. True)) ?w" by (rule issues_write_blocks) simp
  then have "issues (\<lambda>_ _ _. True) s (snd (run_state ?w s))" unfolding state_io_rel_def by blast
  then show "overrun (write_sector_bytes sector s) = overrun s" "current_sector (write_sector_bytes sector s) = current_sector s"
    by (auto simp: issues_def write_sector_bytes_def)
qed

lemma keeps_parts: "keeps s (fill p s)" "keeps s (flush s)" "keeps s (snd (run_state (commit slot) s))"
proof -
  show "keeps s (fill p s)" "keeps s (flush s)" by (simp_all add: fill_def flush_def Let_def keeps_def keeps_write)
  let ?s = "s\<lparr>wdt_meta := (wdt_meta s)\<lparr>active_app_slot := slot, app_slot_trial := 1, trial_boot_count := 0\<rparr>\<rparr>"
  obtain r s' where w: "run_state wdt_meta_write ?s = (r, s')" by (cases "run_state wdt_meta_write ?s")
  from wdt_meta_write_spec [OF w] w show "keeps s (snd (run_state (commit slot) s))" by (auto simp: commit_def keeps_def)
qed

lemma keeps_reply: "reply b l s = Some (out, s') \<Longrightarrow> keeps s s'" "nack_abort l s = Some (out, s') \<Longrightarrow> keeps s s'"
  by (auto simp: nack_abort_def reply_def bind_eq_Some_conv dest!: hears_tx keeps_hears)

lemma keeps_finish:
  assumes "finish_app l s = Some (out, s')" "length (current_sector s) = 128"
  shows "keeps s s'"
proof -
  let ?slot = "APP_SLOT_OTHER (active_app_slot (wdt_meta s))"
  obtain r s2 where v: "run_state (boot_validate_app (APP_SLOT_TO_SECTOR ?slot)) s = (r, s2)"
    by (cases "run_state (boot_validate_app (APP_SLOT_TO_SECTOR ?slot)) s")
  obtain ok s3 where k: "run_state (marker_ok ?slot) s2 = (ok, s3)" by (cases "run_state (marker_ok ?slot) s2")
  have l2: "keeps s s2" by (rule keeps_looks [OF looks_validate [OF v assms(2)]])
  have l3: "keeps s s3" by (rule keeps_trans [OF l2 keeps_looks [OF looks_marker [OF k]]])
  show ?thesis using assms(1) v k keeps_trans [OF l2 keeps_reply(2)] keeps_trans [OF l3 keeps_reply(2)]
      keeps_trans [OF keeps_trans [OF l3 keeps_parts(3)] keeps_reply(1)]
    by (auto simp: finish_app_def Let_def split: if_splits)
qed

lemma keeps_start:
  assumes "start_with base self p l s = Some (out, s')"
  shows "keeps s s'"
proof (cases "\<not> started s \<and> unat (pk_LEN p) = sizeof_StartPacket")
  case True
  let ?b = "copy_at (dfu_current_sector s) 0 (take sizeof_StartPacket (pk_DATA p))"
  let ?s = "write_sector_bytes base (s\<lparr>dfu_current_sector := ?b, dfu_base_sector := base\<rparr>)
    \<lparr>sectors_written := 1, is_self_update := self, started := True\<rparr>"
  have "\<exists>l'. reply DFU_ACK l' ?s = Some (out, s')" using assms True by (auto simp: start_with_def Let_def)
  then have "keeps ?s s'" using keeps_reply(1) by blast
  then show ?thesis by (simp add: keeps_def keeps_write)
next
  case False
  then have "nack_abort l s = Some (out, s')" using assms by (auto simp: start_with_def split: if_splits)
  then show ?thesis by (rule keeps_reply)
qed

lemma keeps_data:
  assumes "dfu_cmd_data p l s = Some (out, s')"
  shows "keeps s s'"
  using assms unfolding dfu_cmd_data_def
proof (elim ifE)
  assume "reply DFU_ACK (hash p l) (fill p s) = Some (out, s')"
  then show ?thesis by (rule keeps_trans [OF keeps_parts(1) keeps_reply(1)])
qed (simp_all add: keeps_reply(2), simp add: keeps_def)

lemma keeps_cmd_finish:
  assumes "dfu_cmd_finish l s = Some (out, s')" "length (current_sector s) = 128"
  shows "keeps s s'"
  using assms(1) unfolding dfu_cmd_finish_def Let_def
proof (elim ifE)
  assume "uart_tx_raw DFU_ACK (flush s) \<bind> (\<lambda>s. uart_deinit s \<bind> (\<lambda>s. Some (Resets, snd (run_state watchdog_trigger_reset s)))) = Some (out, s')"
  then obtain u v where u: "uart_tx_raw DFU_ACK (flush s) = Some u" "uart_deinit u = Some v" "s' = snd (run_state watchdog_trigger_reset v)"
    by (auto simp: bind_eq_Some_conv)
  have "keeps s u" by (rule keeps_trans [OF keeps_parts(2) keeps_hears [OF hears_tx [OF u(1)]]])
  from keeps_trans [OF this keeps_hears [OF hears_deinit [OF u(2)]]] show ?thesis using u(3) by (simp add: keeps_def watchdog_trigger_reset_def)
next
  assume f: "finish_app l (flush s) = Some (out, s')"
  have "length (current_sector (flush s)) = 128" using keeps_parts(2) [of s] assms(2) by (simp add: keeps_def)
  from keeps_trans [OF keeps_parts(2) keeps_finish [OF f this]] show ?thesis .
qed (rule keeps_reply(2))

lemma keeps_command:
  assumes "dfu_command p l s = Some (out, s')" "length (current_sector s) = 128"
  shows "keeps s s'"
  using assms(1) unfolding dfu_command_def dfu_cmd_start_def dfu_cmd_start_self_update_def
  by (elim ifE) (erule keeps_start keeps_data keeps_reply(2) keeps_cmd_finish [OF _ assms(2)] | simp add: keeps_def)+

text \<open>Induction along the packets of a session.\<close>

lemma dfu_loop_packets [consumes 1, case_names end_done end_abort timeout reset step]:
  fixes s :: "'z dfu_scheme"
  assumes "dfu_loop p0 l s = Some y"
    and end_done: "\<And>l s. dfu_state l = DFU_STATE_DONE \<Longrightarrow> P l s (Returns E_OK, s)"
    and end_abort: "\<And>l s. dfu_state l = DFU_STATE_ABORT \<Longrightarrow> P l s (Returns E_ABORTED, s)"
    and timeout: "\<And>l s r p s1. dfu_state l \<noteq> DFU_STATE_DONE \<Longrightarrow> dfu_packet_receive p0 s = Some ((r, p), s1) \<Longrightarrow> r \<noteq> E_OK \<Longrightarrow>
      P l s (Returns E_TIMED_OUT, s1)"
    and reset: "\<And>l s p s1 out s2 out'. dfu_state l \<noteq> DFU_STATE_DONE \<Longrightarrow> dfu_packet_receive p0 s = Some ((E_OK, p), s1) \<Longrightarrow>
      dfu_command p l s1 = Some (out, s2) \<Longrightarrow> (\<And>l'. out \<noteq> Returns l') \<Longrightarrow> (out = Resets \<Longrightarrow> out' = Resets) \<Longrightarrow> P l s (out', s2)"
    and stp: "\<And>l s p s1 l' s2 y. dfu_state l \<noteq> DFU_STATE_DONE \<Longrightarrow> dfu_packet_receive p0 s = Some ((E_OK, p), s1) \<Longrightarrow>
      dfu_command p l s1 = Some (Returns l', s2) \<Longrightarrow> dfu_loop p0 l' s2 = Some y \<Longrightarrow> P l' s2 y \<Longrightarrow> P l s y"
  shows "P l s y"
proof -
  let ?P = "\<lambda>q l s y. dfu_loop q l s = Some y \<and> (q = p0 \<longrightarrow> P l s y)"
  have "?P p0 l s y"
  proof (rule dfu_loop.raw_induct [OF _ assms(1), where P = ?P])
    fix loop q l y and s :: "'z dfu_scheme"
    assume IH: "\<And>q l s y. loop q l s = Some y \<Longrightarrow> ?P q l s y"
      and body: "(if dfu_state l = DFU_STATE_DONE then Some (Returns E_OK, s)
        else if dfu_state l = DFU_STATE_ABORT then Some (Returns E_ABORTED, s)
        else dfu_packet_receive q s \<bind> (\<lambda>((r, packet), s).
          if r \<noteq> E_OK then Some (Returns E_TIMED_OUT, s)
          else dfu_command packet l s \<bind> (\<lambda>(out, s). case out of
            Returns l \<Rightarrow> loop q l s | Jumps a \<Rightarrow> Some (Jumps a, s) | Resets \<Rightarrow> Some (Resets, s) | Hangs \<Rightarrow> Some (Hangs, s)))) = Some y"
    show "?P q l s y"
    proof (cases "dfu_state l = DFU_STATE_DONE \<or> dfu_state l = DFU_STATE_ABORT")
      case True
      then show ?thesis using body end_done end_abort by (subst dfu_loop.simps) auto
    next
      case False
      then obtain r p s1 where rc: "dfu_packet_receive q s = Some ((r, p), s1)" using body
        by (cases "dfu_packet_receive q s") auto
      show ?thesis
      proof (cases "r = E_OK")
        case True
        then obtain out s2 where cm: "dfu_command p l s1 = Some (out, s2)" using body False rc
          by (cases "dfu_command p l s1") auto
        show ?thesis
        proof (cases out)
          case (Returns l')
          then have "loop q l' s2 = Some y" using body False rc True cm by simp
          from IH [OF this] have i: "dfu_loop q l' s2 = Some y" "q = p0 \<Longrightarrow> P l' s2 y" by simp_all
          then have "dfu_loop q l s = Some y" using False rc True cm Returns by (subst dfu_loop.simps) simp
          then show ?thesis using stp [of l s p s1 l' s2 y] False rc True cm Returns i by blast
        next
          case (Jumps a)
          then show ?thesis using body False rc True cm reset [of l s p s1 out s2 "Jumps a"] by (subst dfu_loop.simps) auto
        next
          case Resets
          then show ?thesis using body False rc True cm reset [of l s p s1 out s2 Resets] by (subst dfu_loop.simps) auto
        next
          case Hangs
          then show ?thesis using body False rc True cm reset [of l s p s1 out s2 Hangs] by (subst dfu_loop.simps) auto
        qed
      next
        case r: False
        then show ?thesis using body False rc timeout [of l s r p s1] by (subst dfu_loop.simps) auto
      qed
    qed
  qed
  then show ?thesis by blast
qed

lemma keeps_loop:
  assumes "dfu_loop p0 l s = Some y" "length (pk_DATA p0) = 256" "length (current_sector s) = 128"
  shows "keeps s (snd y)"
  using assms(1,3)
proof (induction rule: dfu_loop_packets)
  case (timeout l s r p s1)
  then show ?case using hears_packet_receive [OF _ assms(2)] keeps_hears by fastforce
next
  case (reset l s p s1 out s2 out')
  from hears_packet_receive [OF reset(2) assms(2)] have k1: "keeps s s1" by (auto intro: keeps_hears)
  then show ?case using keeps_trans [OF k1 keeps_command [OF reset(3)]] reset.prems by (simp add: keeps_def)
next
  case (step l s p s1 l' s2 y)
  from hears_packet_receive [OF step(2) assms(2)] have k1: "keeps s s1" by (auto intro: keeps_hears)
  then have k2: "keeps s s2" using keeps_trans [OF k1 keeps_command [OF step(3)]] step.prems by (simp add: keeps_def)
  then show ?case using step.IH step.prems keeps_trans by (simp add: keeps_def)
qed (simp_all add: keeps_def)

lemma dfu_loop_ended:
  assumes "dfu_loop p0 l s = Some y" "length (pk_DATA p0) = 256" "session_ok s0 n l s" "\<not> overrun (snd y)"
  shows "\<exists>n'. ended s0 n' (fst y) (snd y)"
  using assms(1,3,4)
proof (induction arbitrary: n rule: dfu_loop_packets)
  case (timeout l s r p s1)
  from hears_packet_receive [OF timeout(2) assms(2)] obtain m where "hears m s s1" by blast
  from session_ok_hears [OF timeout(4,1) this] timeout(1) show ?case by (intro exI [of _ n]) (simp add: ended_def session_ok_def)
next
  case (reset l s p s1 out s2 out')
  from hears_packet_receive [OF reset(2) assms(2)] obtain m where m: "hears m s s1" "unat (pk_LEN p) \<le> m"
    "\<not> overrun s1 \<Longrightarrow> unat (pk_LEN p) \<le> 256" by blast
  note k = session_ok_hears [OF reset(6,1) m(1)]
  then have "keeps s1 s2" using reset(1) by (intro keeps_command [OF reset(3)]) (simp add: session_ok_def card_ok_def)
  then have "\<not> overrun s1" using reset(7) by (auto simp: keeps_def)
  from outcome_command [OF reset(3) _ reset(1) m(2,3), OF _ this] k have "outcome_ok s0 (n + m) out s2" by blast
  then have "out = Resets" using reset(4) unfolding outcome_ok_def by (cases out) (blast, simp_all)
  with \<open>outcome_ok s0 (n + m) out s2\<close> reset(5) show ?case by (intro exI [of _ "n + m"]) (simp add: ended_def)
next
  case (step l s p s1 l' s2 y)
  from hears_packet_receive [OF step(2) assms(2)] obtain m where m: "hears m s s1" "unat (pk_LEN p) \<le> m"
    "\<not> overrun s1 \<Longrightarrow> unat (pk_LEN p) \<le> 256" by blast
  note k = session_ok_hears [OF step.prems(1) step(1) m(1)]
  then have l1: "length (current_sector s1) = 128" using step(1) by (simp add: session_ok_def card_ok_def)
  note k1 = keeps_command [OF step(3) l1]
  have "keeps s1 (snd y)" by (rule keeps_trans [OF k1 keeps_loop [OF step(4) assms(2)]]) (use k1 l1 in \<open>simp add: keeps_def\<close>)
  then have "\<not> overrun s1" using step.prems(2) by (auto simp: keeps_def)
  from outcome_command [OF step(3) _ step(1) m(2,3), OF _ this] k have "session_ok s0 (n + m) l' s2" by (simp add: outcome_ok_def)
  then show ?case using step.prems(2) by (rule step.IH)
qed (auto simp: ended_def session_ok_def)

lemma dfu_receive_ended:
  assumes "dfu_receive p0 e0 c0 s = Some (out, s')" "is_high_capacity s" "length (pk_DATA p0) = 256" "length (dfu_current_sector s) = 512"
    "length (current_sector s) = 128" "\<not> overrun s'"
  shows "\<exists>n s0. ended s0 n out s' \<and> trace s0 = trace s \<and> wdt_meta s0 = wdt_meta s"
proof -
  let ?s0 = "(dfu_init s)\<lparr>shift_reg := dfu_trigger_reset\<rparr>"
  from assms(1) obtain s1 where s1: "trigger_loop ?s0 = Some s1" "dfu_loop p0 (new_session e0 c0) s1 = Some (out, s')"
    by (auto simp: dfu_receive_def Let_def bind_eq_Some_conv)
  from hears_trigger_loop [OF s1(1)] obtain n v where h: "hears n (?s0\<lparr>shift_reg := v\<rparr>) s1" by blast
  have "card_ok ?s0 0 (?s0\<lparr>shift_reg := v\<rparr>)"
    using assms(2,4,5) by (simp add: card_ok_def dfu_init_def stored_in_refl)
  from card_ok_hears [OF this h] have "session_ok ?s0 n (new_session e0 c0) s1" by (simp add: session_ok_def new_session_def)
  from dfu_loop_ended [OF s1(2) assms(3) this] assms(6) obtain n' where "ended ?s0 n' out s'" by auto
  then show ?thesis by (intro exI [of _ n'] exI [of _ ?s0]) (simp add: dfu_init_def)
qed

text \<open>The sectors of an app slot.\<close>

definition in_slot :: "u32 \<Rightarrow> u32 \<Rightarrow> bool" where
  "in_slot slot a \<longleftrightarrow> APP_SLOT_TO_SECTOR slot \<le> a \<and> a < APP_SLOT_TO_SECTOR slot + EMMC_SECTOR_SIZE_APP"

text \<open>The sectors a session writes an image to: those of the other slot or, for a bootloader update, of the bootloader's region.\<close>

definition session_store :: "WdtMeta \<Rightarrow> bool \<Rightarrow> u32 \<Rightarrow> bool" where
  "session_store m self a \<longleftrightarrow>
     (if self then EMMC_SECTOR_BOOTLOADER \<le> a \<and> a < EMMC_SECTOR_METADATA else in_slot (APP_SLOT_OTHER (active_app_slot m)) a)"

definition session_limit :: "bool \<Rightarrow> nat" where
  "session_limit self = (if self then 1023 else 16383) * 512"

lemma slot_bounds: "in_slot slot a \<longleftrightarrow>
  (if slot = APP_SLOT_B then 1083392 \<le> unat a \<and> unat a < 1099776 else 1067008 \<le> unat a \<and> unat a < 1083392)"
  by (simp add: in_slot_def APP_SLOT_TO_SECTOR_def layout_defs word_le_nat_alt word_less_nat_alt)

lemma session_store_bounds: "session_store m self a \<longleftrightarrow>
  (if self then 1064960 \<le> unat a \<and> unat a < 1065984 else in_slot (APP_SLOT_OTHER (active_app_slot m)) a)"
  by (simp add: session_store_def layout_defs word_le_nat_alt word_less_nat_alt)

lemma session_store_active:
  assumes "session_store m self a \<or> a = EMMC_SECTOR_METADATA"
  shows "\<not> in_slot (active_app_slot m) a"
proof -
  have "APP_SLOT_OTHER (active_app_slot m) = APP_SLOT_B \<longleftrightarrow> active_app_slot m \<noteq> APP_SLOT_B" by (simp add: APP_SLOT_OTHER_def APP_SLOT_A_def APP_SLOT_B_def)
  moreover have "unat EMMC_SECTOR_METADATA = 1065984" by (simp add: layout_defs)
  ultimately show ?thesis using assms unfolding session_store_bounds slot_bounds by (auto split: if_splits)
qed

lemma store_at_session:
  assumes "512 * k < session_limit self + 512" "a = region m self + of_nat k"
  shows "session_store m self a"
proof -
  have r: "unat (region m self) = (if self then 1064960 else if APP_SLOT_OTHER (active_app_slot m) = APP_SLOT_B then 1083392 else 1067008)"
    by (simp add: region_def APP_SLOT_TO_SECTOR_def layout_defs)
  have k: "k < (if self then 1024 else 16384)" using assms(1) by (simp add: session_limit_def split: if_splits)
  have "unat (of_nat k :: u32) = k" using k by (simp add: unat_of_nat split: if_splits)
  then have "unat a = unat (region m self) + k" unfolding assms(2)
    by (subst unat_add_lem [THEN iffD1]) (use k r in \<open>simp_all split: if_splits\<close>)
  then show ?thesis using r k unfolding session_store_bounds slot_bounds by (simp split: if_splits)
qed

lemma stored_in_session:
  assumes "stored_in (region m self) n t t'" "n < session_limit self"
  shows "\<exists>new. stores t' = new @ stores t \<and> list_all (\<lambda>(c, a, d). c = CMD24 \<and> session_store m self a) new"
proof -
  have "session_store m self (region m self + of_nat k)" if "512 * k \<le> n + 512" for k
    by (rule store_at_session [of k]) (use that assms(2) in simp_all)
  with assms(1) show ?thesis by (fastforce simp: stored_in_def list_all_iff)
qed

lemma card_ok_session:
  assumes "card_ok s0 n s" "n < session_limit (is_self_update s)"
  shows "\<exists>new. stores (trace s) = new @ stores (trace s0) \<and>
    list_all (\<lambda>(c, a, d). c = CMD24 \<and> session_store (wdt_meta s0) (is_self_update s) a) new"
proof (cases "started s")
  case True
  then show ?thesis using assms by (intro stored_in_session [OF _ assms(2)]) (auto simp: card_ok_def)
qed (use assms in \<open>auto simp: card_ok_def\<close>)

lemma commit_spec:
  "\<exists>t d. snd (run_state (commit slot) s) = s\<lparr>wdt_meta := sealed ((wdt_meta s)\<lparr>active_app_slot := slot, app_slot_trial := 1, trial_boot_count := 0\<rparr>),
      s_sector_buf := meta_sector ((wdt_meta s)\<lparr>active_app_slot := slot, app_slot_trial := 1, trial_boot_count := 0\<rparr>), trace := t @ trace s,
      boot_flags := (boot_flags s)\<lparr>fw_crc_ok := 1\<rparr>\<rparr> \<and>
    (stores (t @ trace s) = stores (trace s) \<or> stores (t @ trace s) = (CMD24, card_arg s EMMC_SECTOR_METADATA, d) # stores (trace s))"
proof -
  let ?s = "s\<lparr>wdt_meta := (wdt_meta s)\<lparr>active_app_slot := slot, app_slot_trial := 1, trial_boot_count := 0\<rparr>\<rparr>"
  obtain r s' where w: "run_state wdt_meta_write ?s = (r, s')" by (cases "run_state wdt_meta_write ?s")
  from wdt_meta_write_spec [OF w] obtain t d where t: "s' = ?s\<lparr>wdt_meta := sealed (wdt_meta ?s), s_sector_buf := meta_sector (wdt_meta ?s), trace := t @ trace ?s\<rparr>"
    "stores (trace s') = stores (trace s) \<or> stores (trace s') = (CMD24, card_arg s EMMC_SECTOR_METADATA, d) # stores (trace s)"
    by (auto simp: card_arg_def)
  have "snd (run_state (commit slot) s) = s'\<lparr>boot_flags := (boot_flags s')\<lparr>fw_crc_ok := 1\<rparr>\<rparr>" using w by (simp add: commit_def)
  then show ?thesis using t by (intro exI [of _ t] exI [of _ d]) simp
qed

lemma committed_stores:
  assumes "committed s0 n s'" "rx_count (trace s') - rx_count (trace s0) < session_limit (is_self_update s')"
  shows "\<exists>new. stores (trace s') = new @ stores (trace s0) \<and>
    list_all (\<lambda>(c, a, d). c = CMD24 \<and> (session_store (wdt_meta s0) (is_self_update s') a \<or> a = EMMC_SECTOR_METADATA)) new"
proof -
  let ?slot = "APP_SLOT_OTHER (active_app_slot (wdt_meta s0))"
  from assms(1) obtain s3 where c: "card_ok s0 n s3" "\<not> is_self_update s3" "hears 0 (snd (run_state (commit ?slot) s3)) s'"
    unfolding committed_def Let_def by blast
  from commit_spec [of ?slot s3] obtain t d where t: "trace (snd (run_state (commit ?slot) s3)) = t @ trace s3"
    "is_self_update (snd (run_state (commit ?slot) s3)) = is_self_update s3"
    "stores (t @ trace s3) = stores (trace s3) \<or> stores (t @ trace s3) = (CMD24, card_arg s3 EMMC_SECTOR_METADATA, d) # stores (trace s3)"
    by auto
  from c(3) t(1,2) obtain u where u: "trace s' = u @ t @ trace s3" "xfers (trace s') = xfers (t @ trace s3)" "is_self_update s' = is_self_update s3"
    by (auto simp: hears_def)
  have "rx_count (trace s0) + n \<le> rx_count (trace s3)" "card_arg s3 EMMC_SECTOR_METADATA = EMMC_SECTOR_METADATA"
    using c(1) by (simp_all add: card_ok_def card_arg_def)
  then have n: "n < session_limit (is_self_update s3)" using assms(2) u by simp
  from card_ok_session [OF c(1) n] t(3) u(2,3) \<open>card_arg s3 _ = _\<close> show ?thesis
    unfolding stores_def by (fastforce simp: list_all_iff)
qed

end
