(* ===== verification/Dfu_Session.thy ===== *)
theory Dfu_Session
  imports Dfu_Safety
begin

unbundle bit_operations_syntax

text \<open>
  A whole update, from the key that starts it to the flip of the active slot: a host that sends what \<^verbatim>\<open>scripts/dfu_flash.py\<close> sends, and a
  card that returns what was last stored.
\<close>

subsection \<open>A host on the line\<close>

text \<open>\<open>host bs s\<close>: the UART is always ready and the bytes still to come are \<open>bs\<close>.\<close>

definition host :: "u8 list \<Rightarrow> 'z dfu_scheme \<Rightarrow> bool" where
  "host bs s \<longleftrightarrow> (\<forall>t. dev s t (UART0_BASE + FR) = 0) \<and>
     (\<forall>t i. i < length bs \<and> rx_count t = rx_count (trace s) + i \<longrightarrow> dev s t (UART0_BASE + DR) = ucast (bs ! i))"

definition talk :: "nat \<Rightarrow> 'z dfu_scheme \<Rightarrow> 'z dfu_scheme \<Rightarrow> bool" where
  "talk n s s' \<longleftrightarrow> (\<exists>t. s' = s\<lparr>trace := t @ trace s\<rparr> \<and> xfers (t @ trace s) = xfers (trace s) \<and> rx_count t = n)"

lemma talk_refl: "talk 0 s s"
  unfolding talk_def by (intro exI [of _ "[]"]) simp

lemma talk_trans: "talk m s t \<Longrightarrow> talk n t u \<Longrightarrow> talk (m + n) s u"
  unfolding talk_def
proof (elim exE conjE)
  fix t1 t2
  assume "t = s\<lparr>trace := t1 @ trace s\<rparr>" "xfers (t1 @ trace s) = xfers (trace s)" "rx_count t1 = m"
    "u = t\<lparr>trace := t2 @ trace t\<rparr>" "xfers (t2 @ trace t) = xfers (trace t)" "rx_count t2 = n"
  then show "\<exists>t. u = s\<lparr>trace := t @ trace s\<rparr> \<and> xfers (t @ trace s) = xfers (trace s) \<and> rx_count t = m + n"
    by (intro exI [of _ "t2 @ t1"]) auto
qed

lemma host_talk: "host bs s \<Longrightarrow> talk n s s' \<Longrightarrow> host (drop n bs) s'"
  unfolding talk_def host_def by (force simp: nth_drop)

lemma host_first: "host (b # bs) s \<Longrightarrow> dev s (u @ trace s) (UART0_BASE + DR) = ucast b" if "rx_count u = 0"
  using that unfolding host_def by (metis add_0 length_Cons nth_Cons_0 rx_count_simps(3) zero_less_Suc add.right_neutral)

lemma host_rx_byte:
  assumes "host (b # bs) s" "talk 0 s s1"
  shows "\<exists>s'. run_state (rx_byte UART0_BASE) s1 = (b, s') \<and> talk (Suc 0) s s'"
proof -
  from assms(2) obtain t where t: "s1 = s\<lparr>trace := t @ trace s\<rparr>" "xfers (t @ trace s) = xfers (trace s)" "rx_count t = 0"
    unfolding talk_def by blast
  have b: "dev s (t @ trace s) (UART0_BASE + DR) = ucast b" by (rule host_first [OF t(3) assms(1)])
  have "(ucast b :: u32) AND 0xFF = ucast b"
  proof -
    have m: "(0xFF :: u32) = mask 8" by (simp add: mask_eq_exp_minus_1)
    show ?thesis unfolding m by (rule bit_word_eqI) (auto simp: bit_simps dest: bit_imp_le_length)
  qed
  then have "run_state (rx_byte UART0_BASE) s1 = (b, s\<lparr>trace := (Rd (UART0_BASE + DR) (ucast b) # t) @ trace s\<rparr>)"
    by (simp add: rx_byte_def t(1) b ucast_ucast_u8)
  then show ?thesis using t(2,3) unfolding talk_def by fastforce
qed

lemma talk_reg: "a \<noteq> DATA \<Longrightarrow> a \<noteq> UART0_BASE + DR \<Longrightarrow> talk 0 s (s\<lparr>trace := Rd a v # trace s\<rparr>)"
  unfolding talk_def by (intro exI [of _ "[Rd a v]"]) simp

lemma talk_wr: "a \<noteq> DATA \<Longrightarrow> a \<noteq> CMDTM \<Longrightarrow> talk 0 s (s\<lparr>trace := Wr a v # trace s\<rparr>)"
  unfolding talk_def by (intro exI [of _ "[Wr a v]"]) simp

lemma host_spin:
  assumes "host bs s" "talk n s s1"
  shows "spin_while (UART0_BASE + FR) f s1 = Some (s1\<lparr>trace := Rd (UART0_BASE + FR) 0 # trace s1\<rparr>)"
proof -
  have "dev s1 = dev s" using assms(2) by (auto simp: talk_def)
  then show ?thesis using assms(1) by (subst spin_while.simps) (simp add: host_def)
qed

lemma host_rx:
  assumes "host (b # bs) s"
  shows "\<exists>s'. uart_rx s = Some (b, s') \<and> talk (Suc 0) s s' \<and> host bs s'"
proof -
  let ?s = "s\<lparr>trace := Rd (UART0_BASE + FR) 0 # trace s\<rparr>"
  from host_rx_byte [OF assms talk_reg [of "UART0_BASE + FR" s 0]] obtain s' where s': "run_state (rx_byte UART0_BASE) ?s = (b, s')" "talk (Suc 0) s s'"
    by auto
  with host_spin [OF assms talk_refl, of FR_RXFE] host_talk [OF assms s'(2)] show ?thesis
    by (auto simp: uart_rx_def uart_channel_rx_def)
qed

lemma host_rx_timed:
  assumes "host (b # bs) s"
  shows "\<exists>s'. uart_rx_timed ms s = Some (Inr b, s') \<and> talk (Suc 0) s s' \<and> host bs s'"
proof -
  let ?s1 = "s\<lparr>trace := Rd CNTFRQ (dev s (trace s) CNTFRQ) # trace s\<rparr>"
  obtain start s2 where c: "run_state cntpct ?s1 = (start, s2)" by (cases "run_state cntpct ?s1")
  let ?s3 = "s2\<lparr>trace := Rd (UART0_BASE + FR) 0 # trace s2\<rparr>"
  have t1: "talk 0 s ?s1" by (rule talk_reg) simp_all
  have t2: "talk 0 ?s1 s2" using c talk_trans [OF talk_reg [of CNTPCT_LO ?s1] talk_reg [of CNTPCT_HI]] by (auto simp: cntpct_def)
  have t3: "talk 0 s2 ?s3" by (rule talk_reg) simp_all
  have t: "talk 0 s ?s3" using talk_trans [OF talk_trans [OF t1 t2] t3] by simp
  have "dev s2 = dev s" using talk_trans [OF t1 t2] by (auto simp: talk_def)
  then have "timed_wait (UART0_BASE + FR) start x s2 = Some (False, ?s3)" for x
    using assms by (subst timed_wait.simps) (simp add: host_def)
  moreover from host_rx_byte [OF assms t] obtain s' where s': "run_state (rx_byte UART0_BASE) ?s3 = (b, s')" "talk (Suc 0) s s'" by blast
  ultimately show ?thesis using c host_talk [OF assms s'(2)]
    by (auto simp: uart_rx_timed_def uart_channel_rx_timed_def)
qed

lemma host_tx:
  assumes "host bs s"
  shows "\<exists>s'. uart_tx_raw b s = Some s' \<and> talk 0 s s' \<and> host bs s'"
proof -
  let ?s = "s\<lparr>trace := Rd (UART0_BASE + FR) 0 # trace s\<rparr>"
  let ?s' = "?s\<lparr>trace := Wr (UART0_BASE + DR) (ucast b) # trace ?s\<rparr>"
  have "talk 0 s ?s" by (rule talk_reg) simp_all
  moreover have "talk 0 ?s ?s'" by (rule talk_wr) simp_all
  ultimately have t: "talk 0 s ?s'" using talk_trans by fastforce
  then show ?thesis using host_spin [OF assms talk_refl, of FR_TXFF] host_talk [OF assms t]
    by (auto simp: uart_tx_raw_def uart_channel_tx_raw_def)
qed

subsection \<open>Packets on the line\<close>

text \<open>\<open>build_packet\<close> of the flashing script, for at least one byte of payload; the checksum field is always zero.\<close>

definition build_packet :: "u8 \<Rightarrow> u8 list \<Rightarrow> u8 list" where
  "build_packet cmd data = [0xAA, cmd, of_nat (length data div 256), of_nat (length data)] @ data @ [0, 0, 0, 0] @ [0xBB]"

lemma host_payload:
  assumes "host (drop i data @ rest) s" "i \<le> length data" "length data \<le> 256" "length (pk_DATA p) = 256" "take i (pk_DATA p) = take i data"
  shows "\<exists>p' s'. payload_loop (of_nat i) (of_nat (length data)) p s = Some ((E_OK, p'), s') \<and> length (pk_DATA p') = 256 \<and>
    pk_CMD p' = pk_CMD p \<and> pk_LEN p' = pk_LEN p \<and> take (length data) (pk_DATA p') = data \<and>
    talk (length data - i) s s' \<and> host rest s'"
  using assms
proof (induction "length data - i" arbitrary: i p s)
  case 0
  then have "i = length data" by simp
  then show ?case using 0 by (subst payload_loop.simps) (auto intro: talk_refl)
next
  case (Suc k)
  then have i: "i < length data" by simp
  have u: "unat (of_nat i :: u16) = i" "unat (of_nat (length data) :: u16) = length data" using i Suc.prems(3) by (simp_all add: unat_of_nat)
  have lt: "(of_nat i :: u16) < of_nat (length data)" using i by (simp add: word_less_nat_alt u)
  have d: "drop i data = data ! i # drop (Suc i) data" using i by (simp add: Cons_nth_drop_Suc)
  from host_rx_timed [of "data ! i" "drop (Suc i) data @ rest" s DFU_PACKET_TIMEOUT_MS] Suc.prems(1) d
  obtain s1 where s1: "uart_rx_timed DFU_PACKET_TIMEOUT_MS s = Some (Inr (data ! i), s1)" "talk (Suc 0) s s1" "host (drop (Suc i) data @ rest) s1" by auto
  let ?p = "p\<lparr>pk_DATA := (pk_DATA p)[i := data ! i]\<rparr>"
  have "take (Suc i) (pk_DATA ?p) = take (Suc i) data"
    using Suc.prems(3-5) i by (simp add: take_Suc_conv_app_nth take_update_cancel)
  from Suc.hyps(1) [of "Suc i" s1 ?p] Suc.hyps(2) s1(3) i Suc.prems(3,4) this
  obtain p' s' where r: "payload_loop (of_nat (Suc i)) (of_nat (length data)) ?p s1 = Some ((E_OK, p'), s')" "length (pk_DATA p') = 256"
    "pk_CMD p' = pk_CMD p" "pk_LEN p' = pk_LEN p" "take (length data) (pk_DATA p') = data" "talk (length data - Suc i) s1 s'" "host rest s'"
    by fastforce
  have "payload_loop (of_nat i) (of_nat (length data)) p s = Some ((E_OK, p'), s')"
    using r(1) lt s1(1) u i Suc.prems(3) by (subst payload_loop.simps) (simp add: put_data_def MAX_DATA_SIZE_BYTES_def add.commute)
  moreover have "talk (length data - i) s s'" using talk_trans [OF s1(2) r(6)] i by (simp add: Suc_diff_Suc)
  ultimately show ?case using r by blast
qed

lemma host_packet_step:
  assumes "host (b # bs) s" "st \<noteq> PACKET_STATE_SUCCESS"
  shows "\<exists>s1. packet_loop st p s = packet_step st b p s1 \<bind> (\<lambda>(r, s). case r of Inl e \<Rightarrow> Some ((e, p), s) | Inr (st, p) \<Rightarrow> packet_loop st p s) \<and>
    talk (Suc 0) s s1 \<and> host bs s1"
  using host_rx [OF assms(1)] assms(2) by (subst packet_loop.simps) auto

lemma packet_len:
  assumes "n \<le> 256"
  shows "push_bit 8 (ucast (of_nat (n div 256) :: u8)) OR ucast (of_nat n :: u8) = (of_nat n :: u16)"
proof (cases "n = 256")
  case False
  then have "n < 256" using assms by simp
  then have "ucast (of_nat n :: u8) = (of_nat n :: u16)" by (simp add: word_unat_eq_iff unat_of_nat unsigned_ucast_eq take_bit_nat_eq_self)
  then show ?thesis using \<open>n < 256\<close> by simp
qed simp

lemma host_length:
  assumes "host (of_nat (n div 256) # of_nat n # bs) s" "n \<le> 256"
  shows "\<exists>s'. packet_loop PACKET_STATE_LENGTH p s = packet_loop PACKET_STATE_PAYLOAD (p\<lparr>pk_LEN := of_nat n\<rparr>) s' \<and> talk 2 s s' \<and> host bs s'"
proof -
  from host_packet_step [OF assms(1), of PACKET_STATE_LENGTH p] obtain s1 where
    s1: "packet_loop PACKET_STATE_LENGTH p s = packet_step PACKET_STATE_LENGTH (of_nat (n div 256)) p s1 \<bind>
      (\<lambda>(r, s). case r of Inl e \<Rightarrow> Some ((e, p), s) | Inr (st, p) \<Rightarrow> packet_loop st p s)" "talk (Suc 0) s s1" "host (of_nat n # bs) s1"
    by auto
  from host_rx_timed [OF s1(3)] obtain s2 where s2: "uart_rx_timed DFU_PACKET_TIMEOUT_MS s1 = Some (Inr (of_nat n), s2)" "talk (Suc 0) s1 s2" "host bs s2"
    by blast
  have "packet_loop PACKET_STATE_LENGTH p s = packet_loop PACKET_STATE_PAYLOAD (p\<lparr>pk_LEN := of_nat n\<rparr>) s2"
    using s1(1) s2(1) packet_len [OF assms(2)] by (simp add: packet_step_def)
  then show ?thesis using s2 talk_trans [OF s1(2) s2(2)] by (auto simp: numeral_2_eq_2)
qed

lemma host_data:
  assumes "host (data @ bs) s" "0 < length data" "length data \<le> 256" "length (pk_DATA p) = 256" "pk_LEN p = of_nat (length data)"
  shows "\<exists>p' s'. packet_loop PACKET_STATE_PAYLOAD p s = packet_loop PACKET_STATE_CRC p' s' \<and> length (pk_DATA p') = 256 \<and> pk_CMD p' = pk_CMD p \<and>
    pk_LEN p' = pk_LEN p \<and> take (length data) (pk_DATA p') = data \<and> talk (length data) s s' \<and> host bs s'"
proof -
  obtain b ds where d: "data = b # ds" using assms(2) by (cases data) auto
  from host_packet_step [of b "ds @ bs" s PACKET_STATE_PAYLOAD p] assms(1) d obtain s1 where
    s1: "packet_loop PACKET_STATE_PAYLOAD p s = packet_step PACKET_STATE_PAYLOAD b p s1 \<bind>
      (\<lambda>(r, s). case r of Inl e \<Rightarrow> Some ((e, p), s) | Inr (st, p) \<Rightarrow> packet_loop st p s)" "talk (Suc 0) s s1" "host (ds @ bs) s1"
    by auto
  let ?p = "p\<lparr>pk_DATA := (pk_DATA p)[0 := b]\<rparr>"
  have "take 1 (pk_DATA ?p) = take 1 data" using assms(4) d by (cases "pk_DATA p") simp_all
  from host_payload [of 1 data bs s1 ?p] s1(3) d assms(3,4) this obtain p' s' where
    r: "payload_loop 1 (of_nat (length data)) ?p s1 = Some ((E_OK, p'), s')" "length (pk_DATA p') = 256" "pk_CMD p' = pk_CMD p" "pk_LEN p' = pk_LEN p"
      "take (length data) (pk_DATA p') = data" "talk (length data - 1) s1 s'" "host bs s'" by auto
  have "packet_loop PACKET_STATE_PAYLOAD p s = packet_loop PACKET_STATE_CRC p' s'"
    using s1(1) r(1) assms(5) by (simp add: packet_step_def put_data_def MAX_DATA_SIZE_BYTES_def)
  moreover have "talk (length data) s s'" using talk_trans [OF s1(2) r(6)] d by simp
  ultimately show ?thesis using r by blast
qed

lemma host_crc:
  assumes "host (b1 # b2 # b3 # b4 # 0xBB # bs) s"
  shows "\<exists>s'. packet_loop PACKET_STATE_CRC p s = Some ((E_OK, p\<lparr>pk_CRC := crc_bytes_received b1 b2 b3 b4\<rparr>), s') \<and> talk 5 s s' \<and> host bs s'"
proof -
  from host_packet_step [OF assms, of PACKET_STATE_CRC p] obtain s1 where
    s1: "packet_loop PACKET_STATE_CRC p s = packet_step PACKET_STATE_CRC b1 p s1 \<bind>
      (\<lambda>(r, s). case r of Inl e \<Rightarrow> Some ((e, p), s) | Inr (st, p) \<Rightarrow> packet_loop st p s)" "talk (Suc 0) s s1" "host (b2 # b3 # b4 # 0xBB # bs) s1"
    by auto
  from host_rx_timed [OF s1(3)] obtain s2 where s2: "uart_rx_timed DFU_PACKET_TIMEOUT_MS s1 = Some (Inr b2, s2)" "talk (Suc 0) s1 s2" "host (b3 # b4 # 0xBB # bs) s2" by blast
  from host_rx_timed [OF s2(3)] obtain s3 where s3: "uart_rx_timed DFU_PACKET_TIMEOUT_MS s2 = Some (Inr b3, s3)" "talk (Suc 0) s2 s3" "host (b4 # 0xBB # bs) s3" by blast
  from host_rx_timed [OF s3(3)] obtain s4 where s4: "uart_rx_timed DFU_PACKET_TIMEOUT_MS s3 = Some (Inr b4, s4)" "talk (Suc 0) s3 s4" "host (0xBB # bs) s4" by blast
  let ?p = "p\<lparr>pk_CRC := crc_bytes_received b1 b2 b3 b4\<rparr>"
  from host_packet_step [OF s4(3), of PACKET_STATE_END ?p] obtain s5 where
    s5: "packet_loop PACKET_STATE_END ?p s4 = packet_loop PACKET_STATE_SUCCESS ?p s5" "talk (Suc 0) s4 s5" "host bs s5"
    by (auto simp: packet_step_def)
  have "packet_loop PACKET_STATE_CRC p s = packet_loop PACKET_STATE_END ?p s4"
    using s1(1) s2(1) s3(1) s4(1) by (simp add: packet_step_def)
  also have "\<dots> = Some ((E_OK, ?p), s5)" unfolding s5(1) by (subst packet_loop.simps) simp
  finally show ?thesis using talk_trans [OF talk_trans [OF talk_trans [OF talk_trans [OF s1(2) s2(2)] s3(2)] s4(2)] s5(2)] s5(3)
    by (auto simp: eval_nat_numeral)
qed

lemma host_packet:
  assumes "host (build_packet cmd data @ rest) s" "0 < length data" "length data \<le> 256" "CMD_REQ \<le> cmd" "cmd < NUM_CMDS" "length (pk_DATA p) = 256"
  shows "\<exists>p' s'. dfu_packet_receive p s = Some ((E_OK, p'), s') \<and> length (pk_DATA p') = 256 \<and> pk_CMD p' = cmd \<and>
    unat (pk_LEN p') = length data \<and> take (length data) (pk_DATA p') = data \<and> talk (length data + 9) s s' \<and> host rest s'"
proof -
  let ?t = "0 # 0 # 0 # 0 # 0xBB # rest" and ?n = "length data"
  have h: "host (0xAA # cmd # of_nat (?n div 256) # of_nat ?n # data @ ?t) s" using assms(1) by (simp add: build_packet_def)
  from host_packet_step [OF h, of PACKET_STATE_START p] obtain s1 where
    s1: "packet_loop PACKET_STATE_START p s = packet_loop PACKET_STATE_CMD p s1" "talk (Suc 0) s s1" "host (cmd # of_nat (?n div 256) # of_nat ?n # data @ ?t) s1"
    by (auto simp: packet_step_def)
  from host_packet_step [OF s1(3), of PACKET_STATE_CMD p] assms(4,5) obtain s2 where
    s2: "packet_loop PACKET_STATE_CMD p s1 = packet_loop PACKET_STATE_LENGTH (p\<lparr>pk_CMD := cmd\<rparr>) s2" "talk (Suc 0) s1 s2"
      "host (of_nat (?n div 256) # of_nat ?n # data @ ?t) s2"
    by (auto simp: packet_step_def)
  from host_length [OF s2(3) assms(3), of "p\<lparr>pk_CMD := cmd\<rparr>"] obtain s3 where
    s3: "packet_loop PACKET_STATE_LENGTH (p\<lparr>pk_CMD := cmd\<rparr>) s2 = packet_loop PACKET_STATE_PAYLOAD (p\<lparr>pk_CMD := cmd, pk_LEN := of_nat ?n\<rparr>) s3"
      "talk 2 s2 s3" "host (data @ ?t) s3" by auto
  from host_data [OF s3(3) assms(2,3), of "p\<lparr>pk_CMD := cmd, pk_LEN := of_nat ?n\<rparr>"] assms(6) obtain p' s4 where
    s4: "packet_loop PACKET_STATE_PAYLOAD (p\<lparr>pk_CMD := cmd, pk_LEN := of_nat ?n\<rparr>) s3 = packet_loop PACKET_STATE_CRC p' s4" "length (pk_DATA p') = 256"
      "pk_CMD p' = cmd" "pk_LEN p' = of_nat ?n" "take ?n (pk_DATA p') = data" "talk ?n s3 s4" "host ?t s4" by auto
  from host_crc [OF s4(7), of p'] obtain s5 where
    s5: "packet_loop PACKET_STATE_CRC p' s4 = Some ((E_OK, p'\<lparr>pk_CRC := crc_bytes_received 0 0 0 0\<rparr>), s5)" "talk 5 s4 s5" "host rest s5" by blast
  have "dfu_packet_receive p s = Some ((E_OK, p'\<lparr>pk_CRC := crc_bytes_received 0 0 0 0\<rparr>), s5)"
    unfolding dfu_packet_receive_def s1(1) s2(1) s3(1) s4(1) by (rule s5(1))
  moreover have "talk (?n + 9) s s5" using talk_trans [OF talk_trans [OF talk_trans [OF talk_trans [OF s1(2) s2(2)] s3(2)] s4(6)] s5(2)]
    by (simp add: ac_simps)
  ultimately show ?thesis using s4 s5(3) assms(3) by (fastforce simp: unat_of_nat)
qed

subsection \<open>A card that keeps what is stored\<close>

fun contents :: "(u32 \<Rightarrow> u32 list) \<Rightarrow> (u32 \<times> u32 \<times> u32 list) list \<Rightarrow> u32 \<Rightarrow> u32 list" where
  "contents W [] = W"
| "contents W ((c, a, d) # st) = (contents W st)(a := d)"

definition storing :: "(u32 \<Rightarrow> u32 list) \<Rightarrow> 'z dfu_scheme \<Rightarrow> bool" where
  "storing W s \<longleftrightarrow> ready s \<and> (\<forall>t c a d r. xfers t = (c, a, d) # r \<and> \<not> is_store c \<longrightarrow> dev s t DATA = contents W (stores t) a ! length d)"

definition card :: "(u32 \<Rightarrow> u32 list) \<Rightarrow> 'z dfu_scheme \<Rightarrow> u32 \<Rightarrow> u32 list" where
  "card W s = contents W (stores (trace s))"

lemma storing_serves: "storing W s \<Longrightarrow> serves (card W s) s"
  by (auto simp: storing_def serves_def card_def)

lemma storing_cong: "dev s' = dev s \<Longrightarrow> storing W s' = storing W s"
  by (simp add: storing_def ready_def)

lemma talk_facts: "talk n s s' \<Longrightarrow> card W s' = card W s" "talk n s s' \<Longrightarrow> storing W s' = storing W s"
  by (auto simp: talk_def card_def stores_def storing_def ready_def)

lemma host_cong: "dev s' = dev s \<Longrightarrow> rx_count (trace s') = rx_count (trace s) \<Longrightarrow> host bs s' = host bs s"
  by (simp add: host_def)

text \<open>Driver operations take no byte from the UART.\<close>

definition same_rx :: "'z emmc_scheme \<Rightarrow> 'z emmc_scheme \<Rightarrow> bool" where
  "same_rx s s' \<longleftrightarrow> rx_count (trace s') = rx_count (trace s)"

interpretation same_rx: io_rel same_rx
  by unfold_locales (simp_all add: same_rx_def)

lemma emmc_not_uart [simp]: "INTERRUPT \<noteq> UART0_BASE + DR" "STATUS \<noteq> UART0_BASE + DR"
  by (simp_all add: reg_defs uart_defs)

lemma same_rx_rd: "a \<noteq> UART0_BASE + DR \<Longrightarrow> state_io_rel same_rx (rd a)"
  by (simp add: state_io_rel_def same_rx_def)

lemma same_rx_wr: "state_io_rel same_rx (wr a v)"
  by (simp add: state_io_rel_def same_rx_def)

lemma same_rx_wait_loop: "state_io_rel same_rx (wait_interrupt_loop m c)"
proof (induction m c rule: wait_interrupt_loop.induct)
  case (1 m c)
  show ?case
    by (subst wait_interrupt_loop.simps) (intro same_rx.io_rules same_rx_rd same_rx_wr 1; simp)
qed

lemma same_rx_poll: "a \<noteq> UART0_BASE + DR \<Longrightarrow> state_io_rel same_rx (poll_clear a m c)"
proof (induction a m c rule: poll_clear.induct)
  case (1 a m c)
  show ?case
    by (subst poll_clear.simps) (intro same_rx.io_rules same_rx_rd 1; simp add: 1)
qed

lemma same_rx_wait: "state_io_rel same_rx (emmc_wait_interrupt m t)" "state_io_rel same_rx (emmc_wait_status m t)"
  by (simp_all add: emmc_wait_interrupt_def emmc_wait_status_def same_rx_wait_loop same_rx_poll)

lemma same_rx_command: "state_io_rel same_rx (emmc_send_command cmd arg)"
  unfolding emmc_send_command_def
  by (intro same_rx.io_rules same_rx_wait same_rx_rd same_rx_wr; simp)

lemma same_rx_write_words: "state_io_rel same_rx (write_words ws)"
  by (induction ws) (auto intro!: same_rx.io_rules same_rx_wr)

lemma same_rx_pio_write: "state_io_rel same_rx (pio_write n ws)"
  by (induction n ws rule: pio_write.induct) (auto intro!: same_rx.io_rules same_rx_write_words same_rx_wait)

lemma same_rx_write_sector: "state_io_rel same_rx (emmc_write_blocks sector addr buf 1)"
  unfolding emmc_write_blocks_def Let_def
  apply (simp only: one_neq_zero if_False less_irrefl simp_thms if_True)
  by (intro same_rx.io_rules same_rx_command same_rx_pio_write same_rx_wait same_rx_wr; simp)

lemma store_sector:
  assumes "storing W s" "is_high_capacity s" "EMMC_FIRMWARE_FLOOR \<le> sector" "length (dfu_current_sector s) = 512"
  shows "\<exists>t. write_sector_bytes sector s = s\<lparr>trace := t @ trace s\<rparr> \<and> rx_count t = 0 \<and>
    card W (s\<lparr>trace := t @ trace s\<rparr>) = (card W s)(sector := words_of (dfu_current_sector s))"
proof -
  let ?w = "emmc_write_blocks sector 0 (words_of (dfu_current_sector s)) 1"
  obtain r s' where w: "run_state ?w s = (r, s')" by (cases "run_state ?w s")
  have r: "r = E_OK" using ready_write_blocks [of s sector 1 0 "words_of (dfu_current_sector s)"] w assms(1,3) by (simp add: storing_def)
  have "same_rx s s'" using same_rx_write_sector [of sector 0 "words_of (dfu_current_sector s)"] w unfolding state_io_rel_def
    by (metis snd_conv)
  moreover from write_sector [OF w] assms(2,4) r obtain t where t: "s' = s\<lparr>trace := t @ trace s\<rparr>"
    "stores (trace s') = (CMD24, sector, words_of (dfu_current_sector s)) # stores (trace s)"
    by (auto simp: card_arg_def)
  ultimately have "rx_count t = 0" by (simp add: same_rx_def)
  then show ?thesis using w t by (auto simp: write_sector_bytes_def card_def)
qed

subsection \<open>An image in transit\<close>

text \<open>\<open>streamed W old B h acc s\<close>: the session has received \<open>acc\<close>, its whole sectors are behind the header \<open>h\<close> at \<open>B\<close>, the rest is in the sector buffer,
  and every other sector of the card is as in \<open>old\<close>.\<close>

definition block :: "u8 list \<Rightarrow> nat \<Rightarrow> u8 list" where
  "block bs j = take 512 (drop (512 * j) bs)"

definition at_sector :: "u32 \<Rightarrow> nat \<Rightarrow> u32" where
  "at_sector B j = B + of_nat j"

definition streamed :: "(u32 \<Rightarrow> u32 list) \<Rightarrow> (u32 \<Rightarrow> u32 list) \<Rightarrow> u32 \<Rightarrow> u32 list \<Rightarrow> u8 list \<Rightarrow> 'z dfu_scheme \<Rightarrow> bool" where
  "streamed W old B h acc s \<longleftrightarrow> (let q = length acc div 512; c = length acc mod 512 in
     storing W s \<and> is_high_capacity s \<and> started s \<and> \<not> is_self_update s \<and> dfu_base_sector s = B \<and>
     length (dfu_current_sector s) = 512 \<and> sectors_written s = of_nat (Suc q) \<and> dfu_current_sector_counter s = of_nat c \<and>
     (unwritten_sector s \<longleftrightarrow> c \<noteq> 0) \<and> take c (dfu_current_sector s) = drop (512 * q) acc \<and>
     card W s B = h \<and> (\<forall>j<q. card W s (at_sector B (Suc j)) = words_of (block acc j)) \<and>
     (\<forall>a. (\<forall>j\<le>q. a \<noteq> at_sector B j) \<longrightarrow> card W s a = old a))"

lemma of_nat_small: "i < 16384 \<Longrightarrow> j < 16384 \<Longrightarrow> (of_nat i :: u32) = of_nat j \<longleftrightarrow> i = j"
  by (simp add: word_unat_eq_iff unat_of_nat)

lemma at_sector_inj: "i < 16384 \<Longrightarrow> j < 16384 \<Longrightarrow> at_sector B i = at_sector B j \<longleftrightarrow> i = j"
  by (simp add: at_sector_def of_nat_small del: of_nat_eq_iff)

lemma divmod_512: "a = 512 * q + c \<Longrightarrow> c < 512 \<Longrightarrow> a div 512 = q \<and> a mod 512 = c" for a q c :: nat
  by simp

lemma at_sector_0 [simp]: "at_sector B 0 = B"
  by (simp add: at_sector_def)

lemma copy_at_eq: "off + length bs \<le> length buf \<Longrightarrow> copy_at buf off bs = take off buf @ bs @ drop (off + length bs) buf"
proof (induction buf off bs rule: copy_at.induct)
  case (2 buf off b bs)
  then have "copy_at (buf[off := b]) (Suc off) bs = take (Suc off) (buf[off := b]) @ bs @ drop (Suc off + length bs) (buf[off := b])" by simp
  then show ?case using 2(2) by (simp add: take_Suc_conv_app_nth take_update_cancel)
qed simp

lemma block_append: "512 * Suc j \<le> length acc \<Longrightarrow> block (acc @ data) j = block acc j"
  by (simp add: block_def)

text \<open>The definition with quotient and remainder named.\<close>

lemma streamedI:
  assumes "length acc = 512 * q + c" "c < 512" "storing W s" "is_high_capacity s" "started s" "\<not> is_self_update s" "dfu_base_sector s = B"
    "length (dfu_current_sector s) = 512" "sectors_written s = of_nat (Suc q)" "dfu_current_sector_counter s = of_nat c"
    "unwritten_sector s \<longleftrightarrow> c \<noteq> 0" "take c (dfu_current_sector s) = drop (512 * q) acc" "card W s B = h"
    "\<And>j. j < q \<Longrightarrow> card W s (at_sector B (Suc j)) = words_of (block acc j)"
    "\<And>a. (\<And>j. j \<le> q \<Longrightarrow> a \<noteq> at_sector B j) \<Longrightarrow> card W s a = old a"
  shows "streamed W old B h acc s"
  using divmod_512 [OF assms(1,2)] assms unfolding streamed_def Let_def by simp

lemma streamedE:
  assumes "streamed W old B h acc s"
  obtains q c where "length acc = 512 * q + c" "c < 512" "storing W s" "is_high_capacity s" "started s" "\<not> is_self_update s" "dfu_base_sector s = B"
    "length (dfu_current_sector s) = 512" "sectors_written s = of_nat (Suc q)" "dfu_current_sector_counter s = of_nat c"
    "unwritten_sector s \<longleftrightarrow> c \<noteq> 0" "take c (dfu_current_sector s) = drop (512 * q) acc" "card W s B = h"
    "\<And>j. j < q \<Longrightarrow> card W s (at_sector B (Suc j)) = words_of (block acc j)"
    "\<And>a. (\<And>j. j \<le> q \<Longrightarrow> a \<noteq> at_sector B j) \<Longrightarrow> card W s a = old a"
proof (rule that [of "length acc div 512" "length acc mod 512"])
  show "length acc = 512 * (length acc div 512) + length acc mod 512" by simp
qed (use assms in \<open>auto simp: streamed_def Let_def\<close>)

lemma streamed_fill_part:
  assumes st: "streamed W old B h acc s" and n: "0 < length data" "length data \<le> 256" "unat (pk_LEN p) = length data" "take (length data) (pk_DATA p) = data"
    and part: "length acc mod 512 + length data < 512"
  shows "streamed W old B h (acc @ data) (fill p s)"
  using st
proof (rule streamedE)
  fix q c
  assume a: "length acc = 512 * q + c" "c < 512" "storing W s" "is_high_capacity s" "started s" "\<not> is_self_update s" "dfu_base_sector s = B"
    "length (dfu_current_sector s) = 512" "sectors_written s = of_nat (Suc q)" "dfu_current_sector_counter s = of_nat c"
    "unwritten_sector s \<longleftrightarrow> c \<noteq> 0" "take c (dfu_current_sector s) = drop (512 * q) acc" "card W s B = h"
    "\<And>j. j < q \<Longrightarrow> card W s (at_sector B (Suc j)) = words_of (block acc j)"
    "\<And>a. (\<And>j. j \<le> q \<Longrightarrow> a \<noteq> at_sector B j) \<Longrightarrow> card W s a = old a"
  have cn: "c + length data < 512" using part a(1,2) by simp
  have l: "ucast (pk_LEN p) = (of_nat (length data) :: u32)" using n(2,3) by (simp add: word_unat_eq_iff unat_ucast_len unat_of_nat)
  have u: "unat (of_nat c :: u32) = c" "unat (of_nat (length data) :: u32) = length data" using a(2) n(2) by (simp_all add: unat_of_nat)
  have "\<not> (of_nat c + of_nat (length data) :: u32) \<ge> SECTOR_SIZE"
    using cn by (simp add: of_nat_add [symmetric] SECTOR_SIZE_def word_le_nat_alt unat_of_nat del: of_nat_add)
  then have f: "fill p s = s\<lparr>unwritten_sector := True, dfu_current_sector := copy_at (dfu_current_sector s) c data,
      dfu_current_sector_counter := of_nat (c + length data)\<rparr>"
    using n(4) u unfolding fill_def Let_def a(10) l by simp
  have b: "copy_at (dfu_current_sector s) c data = take c (dfu_current_sector s) @ data @ drop (c + length data) (dfu_current_sector s)"
    using cn a(8) by (intro copy_at_eq) simp
  let ?s = "s\<lparr>unwritten_sector := True, dfu_current_sector := copy_at (dfu_current_sector s) c data,
      dfu_current_sector_counter := of_nat (c + length data)\<rparr>"
  have w: "card W ?s = card W s" by (simp add: card_def)
  show ?thesis unfolding f
  proof (rule streamedI [where q = q and c = "c + length data"])
    show "card W ?s (at_sector B (Suc j)) = words_of (block (acc @ data) j)" if "j < q" for j
      unfolding w a(14) [OF that] using that a(1) by (simp add: block_append)
    show "card W ?s a' = old a'" if "\<And>j. j \<le> q \<Longrightarrow> a' \<noteq> at_sector B j" for a'
      unfolding w by (rule a(15)) (rule that)
    show "take (c + length data) (dfu_current_sector ?s) = drop (512 * q) (acc @ data)" using a(1,12) by (simp add: b)
    show "card W ?s B = h" unfolding w by (rule a(13))
    show "length (acc @ data) = 512 * q + (c + length data)" using a(1) by simp
  qed (use a(3-9) cn n(1) storing_cong [of ?s s W] in simp_all)
qed

lemma unat_small: "i \<le> 1024 \<Longrightarrow> unat (of_nat i :: u32) = i"
  by (simp add: unat_of_nat)

lemma streamed_fill_full:
  assumes st: "streamed W old B h acc s" and n: "length data \<le> 256" "unat (pk_LEN p) = length data" "take (length data) (pk_DATA p) = data"
    and B: "\<And>j. j < 16384 \<Longrightarrow> EMMC_FIRMWARE_FLOOR \<le> at_sector B j" and small: "length acc + length data < 16383 * 512"
    and full: "512 \<le> length acc mod 512 + length data"
  shows "streamed W old B h (acc @ data) (fill p s)"
  using st
proof (rule streamedE)
  fix q c
  assume a: "length acc = 512 * q + c" "c < 512" "storing W s" "is_high_capacity s" "started s" "\<not> is_self_update s" "dfu_base_sector s = B"
    "length (dfu_current_sector s) = 512" "sectors_written s = of_nat (Suc q)" "dfu_current_sector_counter s = of_nat c"
    "unwritten_sector s \<longleftrightarrow> c \<noteq> 0" "take c (dfu_current_sector s) = drop (512 * q) acc" "card W s B = h"
    "\<And>j. j < q \<Longrightarrow> card W s (at_sector B (Suc j)) = words_of (block acc j)"
    "\<And>a. (\<And>j. j \<le> q \<Longrightarrow> a \<noteq> at_sector B j) \<Longrightarrow> card W s a = old a"
  let ?n = "length data" and ?k = "512 - c"
  have cn: "512 \<le> c + ?n" "?k \<le> ?n" using full a(1,2) by simp_all
  have q: "Suc q < 16384" using small a(1) by simp
  have l: "ucast (pk_LEN p) = (of_nat ?n :: u32)" using n by (simp add: word_unat_eq_iff unat_ucast_len unat_of_nat)
  have ge: "(of_nat c + of_nat ?n :: u32) \<ge> SECTOR_SIZE"
    using cn a(2) n(1) by (simp add: of_nat_add [symmetric] SECTOR_SIZE_def word_le_nat_alt unat_of_nat del: of_nat_add)
  have d: "of_nat c + of_nat ?n - SECTOR_SIZE = (of_nat (c + ?n - 512) :: u32)"
    using cn by (simp add: SECTOR_SIZE_def of_nat_diff)
  have k: "of_nat ?n - (of_nat (c + ?n - 512) :: u32) = of_nat ?k" using cn a(2) by (simp add: of_nat_diff)
  define s1 where "s1 = s\<lparr>dfu_current_sector := copy_at (dfu_current_sector s) c (take ?k data)\<rparr>"
  have "dfu_current_sector s1 = take c (dfu_current_sector s) @ take ?k data"
    using cn a(2,8) unfolding s1_def by (simp add: copy_at_eq)
  moreover have "take 512 (drop (512 * q) acc) = drop (512 * q) acc" using a(1,2) by simp
  ultimately have b1: "dfu_current_sector s1 = block (acc @ data) q" using a(1,12) by (simp add: block_def)
  have s1: "storing W s1" "is_high_capacity s1" "EMMC_FIRMWARE_FLOOR \<le> at_sector B (Suc q)" "length (dfu_current_sector s1) = 512"
    using a(3,4,8) B [OF q] storing_cong [of s1 s W] by (simp_all add: s1_def)
  from store_sector [OF s1] obtain t where t: "write_sector_bytes (at_sector B (Suc q)) s1 = s1\<lparr>trace := t @ trace s1\<rparr>"
    "card W (s1\<lparr>trace := t @ trace s1\<rparr>) = (card W s1)(at_sector B (Suc q) := words_of (block (acc @ data) q))" unfolding b1 by blast
  let ?b = "copy_at (dfu_current_sector s1) 0 (drop ?k data)"
  have u: "unat (of_nat ?k :: u32) = ?k" "unat (of_nat c :: u32) = c" "unat (of_nat (c + ?n - 512) :: u32) = c + ?n - 512"
    using a(2) n(1) by (intro unat_small; simp)+
  have x: "take ?k (pk_DATA p) = take ?k data" "take (c + ?n - 512) (drop ?k (pk_DATA p)) = drop ?k data"
    using arg_cong [OF n(3), of "take ?k"] arg_cong [OF n(3), of "drop ?k"] cn a(2) by (simp_all add: min_def drop_take add.commute)
  have f: "fill p s = s1\<lparr>trace := t @ trace s1, dfu_current_sector := ?b, sectors_written := of_nat (Suc (Suc q)),
      unwritten_sector := (of_nat (c + ?n - 512) \<noteq> (0 :: u32)), dfu_current_sector_counter := of_nat (c + ?n - 512)\<rparr>"
    using ge t(1) a(7,9) unfolding fill_def Let_def a(10) l d k u x s1_def [symmetric]
    by (simp add: s1_def at_sector_def algebra_simps)
  have nz: "of_nat (c + ?n - 512) \<noteq> (0 :: u32) \<longleftrightarrow> c + ?n - 512 \<noteq> 0" using u(3) by (metis unat_eq_zero of_nat_0)
  have b2: "?b = drop ?k data @ drop (?n - ?k) (dfu_current_sector s1)" using s1(4) n(1) by (subst copy_at_eq) simp_all
  have old: "card W s1 = card W s" by (simp add: s1_def card_def)
  let ?s = "s1\<lparr>trace := t @ trace s1, dfu_current_sector := ?b, sectors_written := of_nat (Suc (Suc q)),
      unwritten_sector := (of_nat (c + ?n - 512) \<noteq> (0 :: u32)), dfu_current_sector_counter := of_nat (c + ?n - 512)\<rparr>"
  have w: "card W ?s = (card W s)(at_sector B (Suc q) := words_of (block (acc @ data) q))" using t(2) by (simp add: card_def s1_def)
  show ?thesis unfolding f
  proof (rule streamedI [where q = "Suc q" and c = "c + ?n - 512"])
    show "card W ?s (at_sector B (Suc j)) = words_of (block (acc @ data) j)" if j: "j < Suc q" for j
    proof (cases "j = q")
      case True
      show ?thesis unfolding w True by simp
    next
      case False
      then have "j < q" using j by simp
      then show ?thesis unfolding w using q a(1) a(14) [of j] at_sector_inj [of "Suc j" "Suc q" B] by (simp add: block_append)
    qed
    show "card W ?s a' = old a'" if "\<And>j. j \<le> Suc q \<Longrightarrow> a' \<noteq> at_sector B j" for a'
    proof -
      have "card W s a' = old a'" by (rule a(15)) (rule that, simp)
      then show ?thesis unfolding w using that [of "Suc q"] by simp
    qed
    show "card W ?s B = h" unfolding w using a(13) at_sector_inj [of 0 "Suc q" B] q by simp
    show "take (c + ?n - 512) (dfu_current_sector ?s) = drop (512 * Suc q) (acc @ data)" using a(1,2) cn by (simp add: b2)
    show "length (acc @ data) = 512 * Suc q + (c + ?n - 512)" using a(1) cn by simp
    show "length (dfu_current_sector ?s) = 512" using s1(4) by simp
    show "unwritten_sector ?s \<longleftrightarrow> c + ?n - 512 \<noteq> 0" using nz by simp
  qed (use a(2-7) n(1) storing_cong [of ?s s W] in \<open>simp_all add: s1_def\<close>)
qed

lemma streamed_fill:
  assumes "streamed W old B h acc s" "0 < length data" "length data \<le> 256" "unat (pk_LEN p) = length data" "take (length data) (pk_DATA p) = data"
    "\<And>j. j < 16384 \<Longrightarrow> EMMC_FIRMWARE_FLOOR \<le> at_sector B j" "length acc + length data < 16383 * 512"
  shows "streamed W old B h (acc @ data) (fill p s)"
  using streamed_fill_part [OF assms(1-5)] streamed_fill_full [OF assms(1,3-7)] by fastforce

lemma streamed_talk: "streamed W old B h acc s \<Longrightarrow> talk n s s' \<Longrightarrow> streamed W old B h acc s'"
proof -
  assume a: "streamed W old B h acc s" "talk n s s'"
  then obtain t where t: "s' = s\<lparr>trace := t @ trace s\<rparr>" unfolding talk_def by blast
  show ?thesis using a(1) talk_facts [OF a(2), of W] unfolding t streamed_def Let_def by simp
qed

lemma streamed_acked:
  assumes "streamed W old B h acc s" "host bs s"
  shows "\<exists>s'. reply DFU_ACK l s = Some (Returns l, s') \<and> streamed W old B h acc s' \<and> host bs s' \<and> talk 0 s s'"
  using host_tx [OF assms(2), of DFU_ACK] streamed_talk [OF assms(1)] by (auto simp: reply_def)

subsection \<open>The running checksum\<close>

definition hashing :: "nat \<Rightarrow> u32 \<Rightarrow> u8 list \<Rightarrow> session \<Rightarrow> bool" where
  "hashing len e acc l \<longleftrightarrow> dfu_state l = DFU_STATE_RECIEVE_DATA \<and> img_expected_crc l = e \<and> img_length l = of_nat len \<and>
     bytes_hashed l = of_nat (min len (length acc)) \<and> crc_ctx l = crc32_update (take len acc) crc32_start"

lemma crc32_update_Nil [simp]: "crc32_update [] c = c"
  by (simp add: crc32_update_def)

lemma hashing_hash:
  assumes "hashing len e acc l" "unat (pk_LEN p) = length data" "take (length data) (pk_DATA p) = data" "len < 16384 * 512"
    "length acc + length data < 16384 * 512"
  shows "hashing len e (acc @ data) (hash p l)"
proof -
  let ?m = "min len (length acc)" and ?n = "length data"
  have u: "unat (of_nat i :: u32) = i" if "i < 16384 * 512" for i using that by (simp add: unat_of_nat)
  have l: "ucast (pk_LEN p) = (of_nat ?n :: u32)" using assms(2) assms(5) u [of ?n] by (simp add: word_unat_eq_iff unat_ucast_len)
  have "of_nat ?m + of_nat ?n > (of_nat len :: u32) \<longleftrightarrow> ?m + ?n > len"
    using assms(4,5) u [of "?m + ?n"] u [of len] by (simp add: word_less_nat_alt of_nat_add [symmetric] del: of_nat_add)
  moreover have "(of_nat len :: u32) > of_nat ?m \<longleftrightarrow> len > ?m" using assms(4) u [of len] u [of ?m] by (simp add: word_less_nat_alt)
  ultimately have th: "to_hash p l = of_nat (min ?n (len - ?m))"
    using assms(1,4,5) by (auto simp: to_hash_def hashing_def l min_def of_nat_diff)
  define k where "k = min ?n (len - ?m)"
  have k: "unat (of_nat k :: u32) = k" "of_nat k > (0 :: u32) \<longleftrightarrow> k > 0" using u [of k] assms(5) by (simp_all add: k_def word_less_nat_alt)
  have tk: "take k (pk_DATA p) = take (len - length acc) data"
    using arg_cong [OF assms(3), of "take k"] by (cases "length acc \<le> len") (auto simp: k_def min_def split: if_splits)
  have c: "crc32_update (take k (pk_DATA p)) (crc_ctx l) = crc32_update (take len (acc @ data)) crc32_start"
    using assms(1) by (simp add: tk hashing_def crc32_update_append)
  have b: "bytes_hashed l + of_nat k = of_nat (min len (length (acc @ data)))" 
  proof -
    have "min len (length (acc @ data)) = ?m + k" by (auto simp: k_def min_def)
    then show ?thesis using assms(1) by (simp add: hashing_def)
  qed
  show ?thesis
  proof (cases "k = 0")
    case True
    then show ?thesis using assms(1) c b by (simp add: hash_def th k_def [symmetric] hashing_def)
  next
    case False
    then show ?thesis using assms(1) c b k by (simp add: hash_def th k_def [symmetric] hashing_def Let_def)
  qed
qed

subsection \<open>Packets of a session\<close>

definition got :: "u8 \<Rightarrow> u8 list \<Rightarrow> DFU_Packet \<Rightarrow> bool" where
  "got cmd data p \<longleftrightarrow> pk_CMD p = cmd \<and> unat (pk_LEN p) = length data \<and> take (length data) (pk_DATA p) = data"

lemma host_session:
  assumes "host (build_packet cmd data @ rest) s" "0 < length data" "length data \<le> 256" "CMD_REQ \<le> cmd" "cmd < NUM_CMDS" "length (pk_DATA p0) = 256"
    "dfu_state l \<noteq> DFU_STATE_DONE" "dfu_state l \<noteq> DFU_STATE_ABORT"
  shows "\<exists>p s1. got cmd data p \<and> talk (length data + 9) s s1 \<and> host rest s1 \<and>
    (\<forall>l' s2. dfu_command p l s1 = Some (Returns l', s2) \<longrightarrow> dfu_loop p0 l s = dfu_loop p0 l' s2)"
proof -
  from host_packet [OF assms(1-6)] obtain p s1 where p: "dfu_packet_receive p0 s = Some ((E_OK, p), s1)" "pk_CMD p = cmd"
    "unat (pk_LEN p) = length data" "take (length data) (pk_DATA p) = data" "talk (length data + 9) s s1" "host rest s1" by blast
  have "dfu_loop p0 l s = dfu_loop p0 l' s2" if "dfu_command p l s1 = Some (Returns l', s2)" for l' s2
    using p(1) that assms(7,8) by (subst dfu_loop.simps) simp
  with p show ?thesis unfolding got_def by blast
qed

lemma le32_word_bytes: "le32 (ucast w) (ucast (drop_bit 8 w)) (ucast (drop_bit 16 w)) (ucast (drop_bit 24 w)) = (w :: u32)"
  using word_bytes_le32 [of w] by (simp add: word_bytes_def)

lemma words_of_bytes_of: "words_of (bytes_of ws @ bs) = ws @ words_of bs"
proof (induction ws)
  case Nil
  then show ?case by (simp add: bytes_of_def)
next
  case (Cons w ws)
  have "bytes_of (w # ws) = word_bytes w @ bytes_of ws" by (simp add: bytes_of_def)
  then show ?case using Cons by (simp add: word_bytes_def le32_word_bytes)
qed

definition header :: "nat \<Rightarrow> u32 \<Rightarrow> u8 list" where
  "header len e = bytes_of [1, of_nat len, e]"

lemma length_header [simp]: "length (header len e) = 12"
  by (simp add: header_def)

lemma start_packet_header: "take 12 d = header len e \<Longrightarrow> start_packet (words_of d) = \<lparr>version_num = 1, fw_length = of_nat len, sp_crc = e\<rparr>"
  using words_of_bytes_of [of "[1, of_nat len, e]" "drop 12 d"] append_take_drop_id [of 12 d] by (simp add: header_def start_packet_def)

definition fresh :: "'z dfu_scheme \<Rightarrow> bool" where
  "fresh s \<longleftrightarrow> \<not> started s \<and> \<not> unwritten_sector s \<and> dfu_current_sector_counter s = 0 \<and> length (dfu_current_sector s) = 512 \<and> is_high_capacity s"

text \<open>What a session leaves alone until it commits.\<close>

definition calm :: "'z dfu_scheme \<Rightarrow> 'z dfu_scheme \<Rightarrow> bool" where
  "calm s s' \<longleftrightarrow> wdt_meta s' = wdt_meta s \<and> current_sector s' = current_sector s \<and> overrun s' = overrun s"

lemma calm_trans: "calm s t \<Longrightarrow> calm t u \<Longrightarrow> calm s u"
  by (simp add: calm_def)

lemma calm_talk: "talk n s s' \<Longrightarrow> calm s s'"
  by (auto simp: talk_def calm_def)

lemma write_sector_frame:
  "calm s (write_sector_bytes sector s)" "dev (write_sector_bytes sector s) = dev s"
  "rx_count (trace (write_sector_bytes sector s)) = rx_count (trace s)"
proof -
  let ?w = "emmc_write_blocks sector 0 (words_of (dfu_current_sector s)) 1"
  have "state_io_rel (issues (\<lambda>_ _ _. True)) ?w" by (rule issues_write_blocks) simp
  then have "issues (\<lambda>_ _ _. True) s (snd (run_state ?w s))" unfolding state_io_rel_def by blast
  then show "calm s (write_sector_bytes sector s)" "dev (write_sector_bytes sector s) = dev s"
    by (auto simp: issues_def write_sector_bytes_def calm_def)
  have "same_rx s (snd (run_state ?w s))" using same_rx_write_sector unfolding state_io_rel_def by blast
  then show "rx_count (trace (write_sector_bytes sector s)) = rx_count (trace s)" by (simp add: same_rx_def write_sector_bytes_def)
qed

lemma fill_frame: "calm s (fill p s)" "host bs s \<Longrightarrow> host bs (fill p s)" "rx_count (trace (fill p s)) = rx_count (trace s)"
proof -
  have f: "calm s (fill p s)" "dev (fill p s) = dev s" "rx_count (trace (fill p s)) = rx_count (trace s)"
    by (simp_all add: fill_def Let_def calm_def write_sector_frame(1) [unfolded calm_def] write_sector_frame(2,3))
  then show "calm s (fill p s)" "host bs s \<Longrightarrow> host bs (fill p s)" "rx_count (trace (fill p s)) = rx_count (trace s)" by (simp_all add: host_def)
qed

lemma start_command:
  assumes "got CMD_START (header len e) p" "fresh s" "storing W s" "host bs s" "B = APP_SLOT_TO_SECTOR (APP_SLOT_OTHER (active_app_slot (wdt_meta s)))"
    "bytes_hashed l = 0"
  shows "\<exists>l' s' h. dfu_command p l s = Some (Returns l', s') \<and> streamed W (card W s) B h [] s' \<and> start_packet h = \<lparr>version_num = 1, fw_length = of_nat len, sp_crc = e\<rparr> \<and>
    length h = 128 \<and> hashing len e [] l' \<and> host bs s' \<and> calm s s' \<and> rx_count (trace s') = rx_count (trace s)"
proof -
  have p: "unat (pk_LEN p) = 12" "take 12 (pk_DATA p) = header len e" "pk_CMD p = CMD_START" using assms(1) by (simp_all add: got_def)
  define b where "b = copy_at (dfu_current_sector s) 0 (header len e)"
  have b: "b = header len e @ drop 12 (dfu_current_sector s)" "length b = 512" using assms(2) by (simp_all add: b_def copy_at_eq fresh_def)
  let ?s1 = "s\<lparr>dfu_current_sector := b, dfu_base_sector := B\<rparr>"
  have "storing W ?s1" "is_high_capacity ?s1" "EMMC_FIRMWARE_FLOOR \<le> B" "length (dfu_current_sector ?s1) = 512"
    using assms(2,3,5) b storing_cong [of ?s1 s W] by (simp_all add: fresh_def APP_SLOT_TO_SECTOR_def layout_defs)
  from store_sector [OF this] obtain t where t: "write_sector_bytes B ?s1 = ?s1\<lparr>trace := t @ trace s\<rparr>" "rx_count t = 0"
    "card W (?s1\<lparr>trace := t @ trace s\<rparr>) = (card W ?s1)(B := words_of b)" by auto
  let ?l = "l\<lparr>dfu_state := DFU_STATE_RECIEVE_DATA, img_expected_crc := e, img_length := of_nat len, crc_ctx := crc32_start\<rparr>"
  let ?s2 = "?s1\<lparr>trace := t @ trace s, sectors_written := 1, is_self_update := False, started := True\<rparr>"
  have c: "dfu_command p l s = reply DFU_ACK ?l ?s2"
    using assms(2) p t(1) by (simp add: dfu_command_def dfu_cmd_start_def start_with_def sizeof_StartPacket_def start_packet_header Let_def
        assms(5) [symmetric] b_def [symmetric] fresh_def)
  have w: "card W ?s2 = (card W s)(B := words_of b)" using t(3) by (simp add: card_def)
  have s2: "streamed W (card W s) B (words_of b) [] ?s2"
  proof (rule streamedI [where q = 0 and c = 0])
    show "card W ?s2 a = card W s a" if "\<And>j. j \<le> 0 \<Longrightarrow> a \<noteq> at_sector B j" for a
      unfolding w using that [of 0] by simp
    show "card W ?s2 B = words_of b" unfolding w by simp
  qed (use assms(2,3) b storing_cong [of ?s2 s W] in \<open>simp_all add: fresh_def\<close>)
  have "host bs ?s2" using host_cong [of ?s2 s bs] assms(4) t(2) by simp
  from streamed_acked [OF s2 this, of ?l] obtain s' where s': "reply DFU_ACK ?l ?s2 = Some (Returns ?l, s')" "streamed W (card W s) B (words_of b) [] s'"
    "host bs s'" "talk 0 ?s2 s'" by blast
  have h: "start_packet (words_of b) = \<lparr>version_num = 1, fw_length = of_nat len, sp_crc = e\<rparr>" "length (words_of b) = 128"
    using b by (simp_all add: start_packet_header)
  have "hashing len e [] ?l" using assms(6) by (simp add: hashing_def)
  then show ?thesis using c s' h by (intro exI [of _ ?l] exI [of _ s'] exI [of _ "words_of b"]) (use t(2) in \<open>auto simp: talk_def calm_def\<close>)
qed

lemma data_command:
  assumes "got CMD_DATA data p" "length data mod 4 = 0" "0 < length data" "length data \<le> 256" "streamed W old B h acc s" "hashing len e acc l" "host bs s"
    "\<And>j. j < 16384 \<Longrightarrow> EMMC_FIRMWARE_FLOOR \<le> at_sector B j" "length acc + length data < 16383 * 512" "len < 16384 * 512"
  shows "\<exists>s'. dfu_command p l s = Some (Returns (hash p l), s') \<and> streamed W old B h (acc @ data) s' \<and> hashing len e (acc @ data) (hash p l) \<and>
    host bs s' \<and> calm s s' \<and> rx_count (trace s') = rx_count (trace s)"
proof -
  have p: "pk_CMD p = CMD_DATA" "unat (pk_LEN p) = length data" "take (length data) (pk_DATA p) = data" using assms(1) by (simp_all add: got_def)
  have "pk_LEN p mod 4 = 0" using assms(2) p(2) by (simp add: word_unat_eq_iff unat_mod)
  then have c: "dfu_command p l s = reply DFU_ACK (hash p l) (fill p s)"
    using p(1) assms(6) by (simp add: dfu_command_def dfu_cmd_defs dfu_cmd_data_def hashing_def)
  have f: "streamed W old B h (acc @ data) (fill p s)" by (rule streamed_fill [OF assms(5,3,4) p(2,3) assms(8,9)])
  from streamed_acked [OF f fill_frame(2) [OF assms(7)], of "hash p l"] obtain s' where
    s': "reply DFU_ACK (hash p l) (fill p s) = Some (Returns (hash p l), s')" "streamed W old B h (acc @ data) s'" "host bs s'" "talk 0 (fill p s) s'" by blast
  have "hashing len e (acc @ data) (hash p l)" by (rule hashing_hash [OF assms(6) p(2,3) assms(10)]) (use assms(9) in simp)
  moreover have "rx_count (trace s') = rx_count (trace s)" using s'(4) fill_frame(3) [of p s] by (auto simp: talk_def)
  ultimately show ?thesis using c s' calm_trans [OF fill_frame(1) calm_talk [OF s'(4)]] by auto
qed

definition chunk_ok :: "u8 list \<Rightarrow> bool" where
  "chunk_ok data \<longleftrightarrow> 0 < length data \<and> length data \<le> 256 \<and> length data mod 4 = 0"

lemma session_chunks:
  assumes "host (concat (map (build_packet CMD_DATA) chunks) @ rest) s" "streamed W old B h acc s" "hashing len e acc l" "list_all chunk_ok chunks"
    "length (pk_DATA p0) = 256" "\<And>j. j < 16384 \<Longrightarrow> EMMC_FIRMWARE_FLOOR \<le> at_sector B j" "length acc + length (concat chunks) < 16383 * 512" "len < 16384 * 512"
  shows "\<exists>l' s'. dfu_loop p0 l s = dfu_loop p0 l' s' \<and> streamed W old B h (acc @ concat chunks) s' \<and> hashing len e (acc @ concat chunks) l' \<and>
    host rest s' \<and> calm s s' \<and> rx_count (trace s') = rx_count (trace s) + length (concat (map (build_packet CMD_DATA) chunks))"
  using assms(1-4,7)
proof (induction chunks arbitrary: acc l s)
  case Nil
  then show ?case by (auto simp: calm_def)
next
  case (Cons data chunks)
  let ?bs = "concat (map (build_packet CMD_DATA) chunks) @ rest"
  have ck: "0 < length data" "length data \<le> 256" "length data mod 4 = 0" using Cons.prems(4) by (simp_all add: chunk_ok_def)
  have l: "dfu_state l = DFU_STATE_RECIEVE_DATA" using Cons.prems(3) by (simp add: hashing_def)
  have hs: "host (build_packet CMD_DATA data @ ?bs) s" using Cons.prems(1) by simp
  from host_session [OF hs ck(1,2) _ _ assms(5), of l] l obtain p s1 where p: "got CMD_DATA data p" "talk (length data + 9) s s1" "host ?bs s1"
    "\<And>l' s2. dfu_command p l s1 = Some (Returns l', s2) \<Longrightarrow> dfu_loop p0 l s = dfu_loop p0 l' s2" by (auto simp: dfu_cmd_defs)
  from data_command [OF p(1) ck(3,1,2) streamed_talk [OF Cons.prems(2) p(2)] Cons.prems(3) p(3) assms(6) _ assms(8)] Cons.prems(5)
  obtain s2 where s2: "dfu_command p l s1 = Some (Returns (hash p l), s2)" "streamed W old B h (acc @ data) s2" "hashing len e (acc @ data) (hash p l)"
    "host ?bs s2" "calm s1 s2" "rx_count (trace s2) = rx_count (trace s1)" by auto
  from Cons.IH [OF s2(4,2,3)] Cons.prems(4,5) obtain l' s' where
    r: "dfu_loop p0 (hash p l) s2 = dfu_loop p0 l' s'" "streamed W old B h ((acc @ data) @ concat chunks) s'" "hashing len e ((acc @ data) @ concat chunks) l'"
      "host rest s'" "calm s2 s'" "rx_count (trace s') = rx_count (trace s2) + length (concat (map (build_packet CMD_DATA) chunks))" by auto
  have "rx_count (trace s1) = rx_count (trace s) + length (build_packet CMD_DATA data)" using p(2) by (auto simp: talk_def build_packet_def)
  then show ?case using p(4) [OF s2(1)] r s2(6) calm_trans [OF calm_talk [OF p(2)] calm_trans [OF s2(5) r(5)]] by (intro exI [of _ l'] exI [of _ s']) auto
qed

subsection \<open>The image on the card\<close>

definition holds_image :: "(u32 \<Rightarrow> u32 list) \<Rightarrow> u32 \<Rightarrow> u32 list \<Rightarrow> u8 list \<Rightarrow> bool" where
  "holds_image C B h img \<longleftrightarrow> C B = h \<and>
     (\<forall>j<(length img + 511) div 512. C (at_sector B (Suc j)) = words_of (block (img @ replicate 512 0) j))"

lemma bytes_of_words_of: "length bs mod 4 = 0 \<Longrightarrow> bytes_of (words_of bs) = bs"
proof (induction bs rule: words_of.induct)
  case (1 a b c d bs)
  have "word_bytes (le32 a b c d) = [a, b, c, d]" using le32_inj [OF le32_word_bytes [of "le32 a b c d"]] by (simp add: word_bytes_def)
  then show ?case using 1 by (simp add: bytes_of_def)
qed (simp_all add: bytes_of_def)

lemma words_of_nth: "4 * k + 3 < length bs \<Longrightarrow> words_of bs ! k = le32 (bs ! (4 * k)) (bs ! (4 * k + 1)) (bs ! (4 * k + 2)) (bs ! (4 * k + 3))"
proof (induction bs arbitrary: k rule: words_of.induct)
  case (1 a b c d bs)
  then show ?case by (cases k) (simp_all add: eval_nat_numeral)
qed simp_all

lemma length_block: "512 * j + 512 \<le> length bs \<Longrightarrow> length (block bs j) = 512"
  by (simp add: block_def)

lemma at_sector_Suc: "at_sector B j + 1 = at_sector B (Suc j)"
  by (simp add: at_sector_def)

lemma slot_bytes_image:
  assumes "holds_image C B h img" "i + n \<le> (length img + 511) div 512"
  shows "slot_bytes C (at_sector B (Suc i)) n = take (512 * n) (drop (512 * i) (img @ replicate 512 0))"
  using assms(2)
proof (induction n arbitrary: i)
  case (Suc n)
  define p where "p = img @ replicate 512 (0 :: u8)"
  have i: "i < (length img + 511) div 512" using Suc.prems by simp
  then have l: "512 * i + 512 \<le> length p" by (simp add: p_def)
  have "bytes_of (C (at_sector B (Suc i))) = block p i"
    using assms(1) i length_block [OF l] by (simp add: holds_image_def bytes_of_words_of p_def)
  moreover have "slot_bytes C (at_sector B (Suc (Suc i))) n = take (512 * n) (drop (512 * Suc i) p)"
    unfolding p_def by (rule Suc.IH) (use Suc.prems in simp)
  ultimately have "slot_bytes C (at_sector B (Suc i)) (Suc n) = take 512 (drop (512 * i) p) @ take (512 * n) (drop 512 (drop (512 * i) p))"
    by (simp add: at_sector_Suc block_def)
  also have "\<dots> = take (512 * Suc n) (drop (512 * i) p)" by (simp only: mult_Suc_right take_add)
  finally show ?case unfolding p_def .
qed simp

lemma image_bytes_image:
  assumes "holds_image C B h img" "len \<le> length img" "length img < 16384 * 512"
  shows "image_bytes C (B + 1) (of_nat len) = take len img"
proof -
  have u: "unat (of_nat len :: u32) = len" using assms(2,3) by (simp add: unat_of_nat)
  let ?n = "(len + 511) div 512"
  have n: "?n \<le> (length img + 511) div 512" using assms(2) by (intro div_le_mono) simp
  have "slot_bytes C (at_sector B (Suc 0)) ?n = take (512 * ?n) (img @ replicate 512 0)"
    using slot_bytes_image [OF assms(1), of 0 ?n] n by simp
  moreover have "len \<le> 512 * ?n" by simp
  ultimately show ?thesis using assms(2) at_sector_Suc [of B 0] by (simp add: image_bytes_def u min_def)
qed

lemma valid_image_image:
  assumes "holds_image C B h img" "start_packet h = \<lparr>version_num = 1, fw_length = of_nat len, sp_crc = crc32 (take len img)\<rparr>"
    "0 < len" "len \<le> length img" "length img < 16384 * 512"
  shows "valid_image C B"
proof -
  have "unat (of_nat len :: u32) = len" using assms(4,5) by (simp add: unat_of_nat)
  then have "of_nat len \<noteq> (0 :: u32)" using assms(3) by (metis unat_0 less_numeral_extra(3))
  then show ?thesis using assms(1,2) image_bytes_image [OF assms(1,4,5)] by (simp add: valid_image_def holds_image_def)
qed

lemma marker_image:
  assumes "holds_image C B h img" "36 \<le> length img"
  shows "C (B + 1) ! 8 = words_of img ! 8"
proof -
  have "0 < (length img + 511) div 512" using assms(2) by simp
  then have "C (at_sector B (Suc 0)) = words_of (block (img @ replicate 512 0) 0)" using assms(1) unfolding holds_image_def by blast
  moreover have "length (block (img @ replicate 512 0) 0) = 512" by (rule length_block) simp
  ultimately show ?thesis using assms(2) at_sector_Suc [of B 0] by (simp add: words_of_nth block_def nth_append)
qed

text \<open>The state once the last sector is out: the image is on the card and nothing else has changed.\<close>

definition landed :: "(u32 \<Rightarrow> u32 list) \<Rightarrow> (u32 \<Rightarrow> u32 list) \<Rightarrow> u32 \<Rightarrow> u32 list \<Rightarrow> u8 list \<Rightarrow> 'z dfu_scheme \<Rightarrow> bool" where
  "landed W old B h img s \<longleftrightarrow> storing W s \<and> is_high_capacity s \<and> \<not> is_self_update s \<and> holds_image (card W s) B h img \<and>
     (\<forall>a. card W s a = old a \<or> (\<exists>j<16384. a = at_sector B j)) \<and> (\<forall>a. length (card W s a) = 128)"

lemma landedI:
  assumes "storing W s" "is_high_capacity s" "\<not> is_self_update s" "length img = 512 * q + c" "c < 512" "q < 16383" "length h = 128" "card W s B = h"
    "\<And>j. j < q \<Longrightarrow> card W s (at_sector B (Suc j)) = words_of (block img j)" "c \<noteq> 0 \<Longrightarrow> card W s (at_sector B (Suc q)) = words_of (block (img @ replicate 512 0) q)"
    "\<And>a. (\<And>j. j \<le> q \<Longrightarrow> a \<noteq> at_sector B j) \<Longrightarrow> (c \<noteq> 0 \<Longrightarrow> a \<noteq> at_sector B (Suc q)) \<Longrightarrow> card W s a = old a" "\<And>a. length (old a) = 128"
  shows "landed W old B h img s"
proof -
  have bl: "card W s (at_sector B (Suc j)) = words_of (block (img @ replicate 512 0) j)" if "j < q \<or> j = q \<and> c \<noteq> 0" for j
  proof (cases "j < q")
    case True
    then have "512 * Suc j \<le> length img" using assms(4) by simp
    then show ?thesis using assms(9) [OF True] by (simp add: block_append)
  next
    case False
    then show ?thesis using that assms(10) by blast
  qed
  have n: "j < q \<or> j = q \<and> c \<noteq> 0" if "j < (length img + 511) div 512" for j
    using that assms(4,5) by (cases "c = 0") auto
  have len: "length (words_of (block (img @ replicate 512 0) j)) = 128" if "j < q \<or> j = q \<and> c \<noteq> 0" for j
  proof -
    have "512 * j + 512 \<le> length (img @ replicate 512 (0 :: u8))" using that assms(4) by auto
    then show ?thesis by (simp add: length_block)
  qed
  have cases: "card W s a = old a \<or> (\<exists>j<16384. a = at_sector B j) \<and> length (card W s a) = 128" for a
  proof (cases "(\<forall>j\<le>q. a \<noteq> at_sector B j) \<and> (c \<noteq> 0 \<longrightarrow> a \<noteq> at_sector B (Suc q))")
    case True
    then show ?thesis using assms(11) [of a] by blast
  next
    case False
    then obtain j where j: "a = at_sector B j" "j = 0 \<or> (\<exists>i. j = Suc i \<and> (i < q \<or> i = q \<and> c \<noteq> 0))"
      by (metis Suc_le_eq not0_implies_Suc)
    then have "length (card W s a) = 128" using bl len assms(7,8) by auto
    moreover have "j < 16384" using j(2) assms(6) by auto
    ultimately show ?thesis using j(1) by blast
  qed
  then have "\<forall>a. card W s a = old a \<or> (\<exists>j<16384. a = at_sector B j)" "\<forall>a. length (card W s a) = 128"
    using assms(12) by metis+
  moreover have "holds_image (card W s) B h img" unfolding holds_image_def using assms(8) bl n by blast
  ultimately show ?thesis unfolding landed_def using assms(1-3) by blast
qed

lemma flush_landed:
  assumes "streamed W old B h acc s" "\<And>j. j < 16384 \<Longrightarrow> EMMC_FIRMWARE_FLOOR \<le> at_sector B j" "length acc < 16383 * 512" "length h = 128"
    "\<And>a. length (old a) = 128"
  shows "landed W old B h acc (flush s)"
  using assms(1)
proof (rule streamedE)
  fix q c
  assume a: "length acc = 512 * q + c" "c < 512" "storing W s" "is_high_capacity s" "started s" "\<not> is_self_update s" "dfu_base_sector s = B"
    "length (dfu_current_sector s) = 512" "sectors_written s = of_nat (Suc q)" "dfu_current_sector_counter s = of_nat c"
    "unwritten_sector s \<longleftrightarrow> c \<noteq> 0" "take c (dfu_current_sector s) = drop (512 * q) acc" "card W s B = h"
    "\<And>j. j < q \<Longrightarrow> card W s (at_sector B (Suc j)) = words_of (block acc j)"
    "\<And>a. (\<And>j. j \<le> q \<Longrightarrow> a \<noteq> at_sector B j) \<Longrightarrow> card W s a = old a"
  have q: "q < 16383" using assms(3) a(1) by simp
  show ?thesis
  proof (cases "c = 0")
    case True
    then have f: "flush s = s" using a(11) by (simp add: flush_def)
    show ?thesis unfolding f
      by (rule landedI [OF a(3,4,6,1,2) q assms(4) a(13,14)]) (use True assms(5) in \<open>auto intro: a(15)\<close>)
  next
    case False
    define b where "b = copy_at (dfu_current_sector s) c (replicate (512 - c) 0)"
    let ?s1 = "s\<lparr>dfu_current_sector := b\<rparr>"
    have "b = take c (dfu_current_sector s) @ replicate (512 - c) 0" using a(2,8) by (simp add: b_def copy_at_eq)
    moreover have "take 512 (drop (512 * q) acc) = drop (512 * q) acc" using a(1,2) by simp
    ultimately have b: "b = block (acc @ replicate 512 0) q" using a(1,2,12) by (simp add: block_def min_def)
    have "storing W ?s1" "is_high_capacity ?s1" "EMMC_FIRMWARE_FLOOR \<le> at_sector B (Suc q)" "length (dfu_current_sector ?s1) = 512"
      using a(3,4,8) assms(2) [of "Suc q"] q storing_cong [of ?s1 s W] by (simp_all add: b_def)
    from store_sector [OF this] obtain t where t: "write_sector_bytes (at_sector B (Suc q)) ?s1 = ?s1\<lparr>trace := t @ trace s\<rparr>"
      "card W (?s1\<lparr>trace := t @ trace s\<rparr>) = (card W ?s1)(at_sector B (Suc q) := words_of b)" by auto
    have u: "unat (of_nat c :: u32) = c" using a(2) by (intro unat_small) simp
    have f: "flush s = ?s1\<lparr>trace := t @ trace s\<rparr>"
    proof -
      have sz: "unat SECTOR_SIZE = 512" by (simp add: SECTOR_SIZE_def)
      show ?thesis using False a(7,9,11) t(1) unfolding flush_def Let_def a(10) u sz b_def [symmetric] by (simp add: at_sector_def algebra_simps)
    qed
    have w: "card W (flush s) = (card W s)(at_sector B (Suc q) := words_of (block (acc @ replicate 512 0) q))"
      using t(2) b unfolding f by (simp add: card_def)
    have st: "storing W (flush s)" "is_high_capacity (flush s)" "\<not> is_self_update (flush s)"
      using a(3,4,6) storing_cong [of "flush s" s W] by (simp_all add: f)
    show ?thesis
    proof (rule landedI [OF st a(1,2) q assms(4)])
      show "card W (flush s) B = h" unfolding w using a(13) at_sector_inj [of 0 "Suc q" B] q by simp
      show "card W (flush s) (at_sector B (Suc j)) = words_of (block acc j)" if "j < q" for j
        unfolding w using a(14) [OF that] at_sector_inj [of "Suc j" "Suc q" B] that q by simp
      show "card W (flush s) a' = old a'" if "\<And>j. j \<le> q \<Longrightarrow> a' \<noteq> at_sector B j" "c \<noteq> 0 \<Longrightarrow> a' \<noteq> at_sector B (Suc q)" for a'
        unfolding w using a(15) [of a', OF that(1)] that(2) [OF False] by simp
    qed (simp_all add: w assms(5))
  qed
qed

subsection \<open>Commit\<close>

definition on_trial :: "WdtMeta \<Rightarrow> WdtMeta" where
  "on_trial m = m\<lparr>active_app_slot := APP_SLOT_OTHER (active_app_slot m), app_slot_trial := 1, trial_boot_count := 0\<rparr>"

lemma flush_frame: "calm s (flush s)" "dev (flush s) = dev s"
  by (simp_all add: flush_def Let_def calm_def write_sector_frame(1) [unfolded calm_def] write_sector_frame(2))

lemma looks_card: "looks s s' \<Longrightarrow> card W s' = card W s" "looks s s' \<Longrightarrow> storing W s' = storing W s" "looks s s' \<Longrightarrow> dev s' = dev s"
  by (auto simp: looks_def card_def storing_def ready_def)

lemma host_idle: "host bs s \<Longrightarrow> dev s' = dev s \<Longrightarrow> host [] s'"
  by (simp add: host_def)

lemma commit_stores:
  assumes "storing W s" "is_high_capacity s"
  shows "\<exists>t. snd (run_state (commit slot) s) = s\<lparr>wdt_meta := sealed ((wdt_meta s)\<lparr>active_app_slot := slot, app_slot_trial := 1, trial_boot_count := 0\<rparr>),
      s_sector_buf := meta_sector ((wdt_meta s)\<lparr>active_app_slot := slot, app_slot_trial := 1, trial_boot_count := 0\<rparr>), trace := t @ trace s,
      boot_flags := (boot_flags s)\<lparr>fw_crc_ok := 1\<rparr>\<rparr> \<and>
    card W (snd (run_state (commit slot) s)) = (card W s)(EMMC_SECTOR_METADATA :=
      meta_sector ((wdt_meta s)\<lparr>active_app_slot := slot, app_slot_trial := 1, trial_boot_count := 0\<rparr>))"
proof -
  let ?s = "s\<lparr>wdt_meta := (wdt_meta s)\<lparr>active_app_slot := slot, app_slot_trial := 1, trial_boot_count := 0\<rparr>\<rparr>"
  have "ready ?s" using assms(1) by (simp add: storing_def ready_def)
  from ready_meta_write [OF this] obtain s' where w: "run_state wdt_meta_write ?s = (E_OK, s')" by blast
  from wdt_meta_write_spec [OF w] assms(2) obtain t where
    t: "s' = ?s\<lparr>wdt_meta := sealed (wdt_meta ?s), s_sector_buf := meta_sector (wdt_meta ?s), trace := t @ trace ?s\<rparr>"
      "stores (trace s') = (CMD24, EMMC_SECTOR_METADATA, meta_sector (wdt_meta ?s)) # stores (trace s)"
    by (auto simp: card_arg_def)
  have r: "snd (run_state (commit slot) s) = s'\<lparr>boot_flags := (boot_flags s')\<lparr>fw_crc_ok := 1\<rparr>\<rparr>" using w by (simp add: commit_def)
  show ?thesis unfolding r using t by (intro exI [of _ t]) (simp add: card_def)
qed

text \<open>A board that can go on: the card keeps what is stored and the line is never busy.\<close>

definition idle_board :: "(u32 \<Rightarrow> u32 list) \<Rightarrow> 'z dfu_scheme \<Rightarrow> bool" where
  "idle_board W s \<longleftrightarrow> storing W s \<and> is_high_capacity s \<and> host [] s"

text \<open>What the update has achieved when it reports success.\<close>

definition installed :: "(u32 \<Rightarrow> u32 list) \<Rightarrow> 'z dfu_scheme \<Rightarrow> nat \<Rightarrow> u8 list \<Rightarrow> 'z dfu_scheme \<Rightarrow> bool" where
  "installed W s len img s' \<longleftrightarrow> (let B = APP_SLOT_TO_SECTOR (APP_SLOT_OTHER (active_app_slot (wdt_meta s))) in
     valid_image (card W s') B \<and> image_bytes (card W s') (B + 1) (of_nat len) = take len img \<and>
     wdt_meta s' = sealed (on_trial (wdt_meta s)) \<and> card W s' EMMC_SECTOR_METADATA = meta_sector (on_trial (wdt_meta s)) \<and>
     (\<forall>a. in_slot (active_app_slot (wdt_meta s)) a \<longrightarrow> card W s' a = card W s a) \<and> overrun s' = overrun s)"

lemma slot_sectors:
  assumes "j < 16384"
  shows "EMMC_FIRMWARE_FLOOR \<le> at_sector (APP_SLOT_TO_SECTOR slot) j" "at_sector (APP_SLOT_TO_SECTOR slot) j \<noteq> EMMC_SECTOR_METADATA"
    "in_slot slot (at_sector (APP_SLOT_TO_SECTOR slot) j)"
proof -
  have u: "unat (at_sector (APP_SLOT_TO_SECTOR slot) j) = (if slot = APP_SLOT_B then 1083392 else 1067008) + j"
    using assms unfolding at_sector_def
    by (subst unat_add_lem [THEN iffD1]) (simp_all add: unat_of_nat APP_SLOT_TO_SECTOR_def layout_defs)
  then show "EMMC_FIRMWARE_FLOOR \<le> at_sector (APP_SLOT_TO_SECTOR slot) j" "at_sector (APP_SLOT_TO_SECTOR slot) j \<noteq> EMMC_SECTOR_METADATA"
    by (auto simp: word_le_nat_alt layout_defs word_unat_eq_iff split: if_splits)
  show "in_slot slot (at_sector (APP_SLOT_TO_SECTOR slot) j)" unfolding slot_bounds u using assms by simp
qed

lemma other_slot: "in_slot slot a \<Longrightarrow> \<not> in_slot (APP_SLOT_OTHER slot) a" "in_slot slot a \<Longrightarrow> a \<noteq> EMMC_SECTOR_METADATA"
  unfolding slot_bounds by (auto simp: APP_SLOT_OTHER_def APP_SLOT_A_def APP_SLOT_B_def layout_defs split: if_splits)

lemma finish_landed:
  assumes "landed W old B h img s" "B = APP_SLOT_TO_SECTOR slot" "slot = APP_SLOT_OTHER (active_app_slot (wdt_meta s))"
    "start_packet h = \<lparr>version_num = 1, fw_length = of_nat len, sp_crc = crc32 (take len img)\<rparr>" "0 < len" "len \<le> length img" "length img < 16383 * 512"
    "36 \<le> length img" "words_of img ! 8 = DFU_APP_MAGIC" "length (current_sector s) = 128" "host bs s"
  shows "\<exists>s'. finish_app l s = Some (Returns (l\<lparr>dfu_state := DFU_STATE_DONE\<rparr>), s') \<and> holds_image (card W s') B h img \<and>
    (\<forall>a. a \<noteq> EMMC_SECTOR_METADATA \<longrightarrow> card W s' a = card W s a) \<and> card W s' EMMC_SECTOR_METADATA = meta_sector (on_trial (wdt_meta s)) \<and>
    wdt_meta s' = sealed (on_trial (wdt_meta s)) \<and> overrun s' = overrun s \<and> idle_board W s'"
proof -
  have st: "storing W s" "is_high_capacity s" "holds_image (card W s) B h img" "\<And>a. length (card W s a) = 128"
    using assms(1) by (simp_all add: landed_def)
  obtain r s2 where v: "run_state (boot_validate_app B) s = (r, s2)" by (cases "run_state (boot_validate_app B) s")
  have "valid_image (card W s) B" by (rule valid_image_image [OF st(3) assms(4-6)]) (use assms(7) in simp)
  then have r: "r = E_OK" using boot_validate_app_serves [OF storing_serves [OF st(1)] st(2,4) assms(10), of B] v by simp
  note l2 = looks_validate [OF v assms(10)]
  have s2: "storing W s2" "card W s2 = card W s" "is_high_capacity s2" "wdt_meta s2 = wdt_meta s" "overrun s2 = overrun s"
    using st(1,2) looks_card(1,2) [OF l2, of W] l2 by (auto simp: looks_def)
  have "card_arg s2 (B + 1) = B + 1" using s2(3) by (simp add: card_arg_def)
  with serves_read_sector [OF storing_serves [OF s2(1)], of "B + 1" "replicate 128 0" 0] st(4) s2(2)
  obtain s3 where rd: "run_state (emmc_read_blocks (B + 1) 0 (replicate 128 0) 1) s2 = ((E_OK, card W s (B + 1)), s3)" by auto
  have k: "run_state (marker_ok slot) s2 = (True, s3)"
    using rd marker_image [OF st(3) assms(8)] assms(9) by (simp add: marker_ok_def SECTOR_SIZE_def assms(2) DFU_APP_MARKER_OFFSET_def)
  note l3 = looks_marker [OF k]
  have s3: "storing W s3" "card W s3 = card W s" "is_high_capacity s3" "wdt_meta s3 = wdt_meta s" "overrun s3 = overrun s"
    using s2 looks_card(1,2) [OF l3, of W] l3 by (auto simp: looks_def)
  let ?s4 = "snd (run_state (commit slot) s3)"
  from commit_stores [OF s3(1,3), of slot] s3(2,4) obtain t where
    t: "?s4 = s3\<lparr>wdt_meta := sealed (on_trial (wdt_meta s)), s_sector_buf := meta_sector (on_trial (wdt_meta s)), trace := t @ trace s3,
      boot_flags := (boot_flags s3)\<lparr>fw_crc_ok := 1\<rparr>\<rparr>" "card W ?s4 = (card W s)(EMMC_SECTOR_METADATA := meta_sector (on_trial (wdt_meta s)))"
    by (auto simp: on_trial_def assms(3) [symmetric])
  have "dev ?s4 = dev s" using t(1) looks_card(3) [OF l2] looks_card(3) [OF l3] by simp
  from host_tx [OF host_idle [OF assms(11) this], of DFU_ACK] obtain s' where
    s': "uart_tx_raw DFU_ACK ?s4 = Some s'" "talk 0 ?s4 s'" by blast
  have c: "card W s' = (card W s)(EMMC_SECTOR_METADATA := meta_sector (on_trial (wdt_meta s)))" using talk_facts(1) [OF s'(2), of W] t(2) by simp
  have "finish_app l s = Some (Returns (l\<lparr>dfu_state := DFU_STATE_DONE\<rparr>), s')"
    using v r k s'(1) by (simp add: finish_app_def Let_def assms(2) reply_def flip: assms(3))
  moreover have "holds_image (card W s') B h img"
  proof -
    have "card W s' (at_sector B j) = card W s (at_sector B j)" if "j < 16384" for j
      unfolding c using slot_sectors(2) [OF that, of slot] assms(2) by simp
    moreover have "Suc j < 16384" if "j < (length img + 511) div 512" for j using that assms(7) by simp
    ultimately show ?thesis using st(3) at_sector_0 [of B] unfolding holds_image_def by (metis zero_less_numeral)
  qed
  moreover have "wdt_meta s' = wdt_meta ?s4" "overrun s' = overrun ?s4" "is_high_capacity s' = is_high_capacity ?s4" "dev s' = dev ?s4"
    using s'(2) by (auto simp: talk_def)
  moreover have "dev ?s4 = dev s" "is_high_capacity ?s4" using \<open>dev ?s4 = dev s\<close> t(1) s3(3) by simp_all
  ultimately show ?thesis using c t(1) s3(5) st(1) storing_cong [of s' s W] host_idle [OF assms(11), of s'] unfolding idle_board_def by (intro exI [of _ s']) simp
qed

subsection \<open>The whole update\<close>

definition trigger_key :: "u8 list" where
  "trigger_key = [0xDF, 0, 0xDF, 0]"

lemma host_trigger_step:
  assumes "host (b # bs) s" "dfu_trigger_feed b (shift_reg s) = (False, r)"
  shows "\<exists>s'. trigger_loop s = trigger_loop s' \<and> shift_reg s' = r \<and> host bs s' \<and> (\<exists>s1. talk 1 s s1 \<and> s' = s1\<lparr>shift_reg := r\<rparr>)"
proof -
  from host_rx [OF assms(1)] obtain s1 where s1: "uart_rx s = Some (b, s1)" "talk (Suc 0) s s1" "host bs s1" by blast
  moreover from s1(2) have "shift_reg s1 = shift_reg s" by (auto simp: talk_def)
  ultimately have "trigger_loop s = trigger_loop (s1\<lparr>shift_reg := r\<rparr>)" using assms(2) by (subst trigger_loop.simps) simp
  then show ?thesis using s1 host_cong [of "s1\<lparr>shift_reg := r\<rparr>" s1 bs] by auto
qed

text \<open>\<open>same_but_shift s s'\<close>: the matcher's register and the trace aside.\<close>

definition listened :: "nat \<Rightarrow> 'z dfu_scheme \<Rightarrow> 'z dfu_scheme \<Rightarrow> bool" where
  "listened n s s' \<longleftrightarrow> (\<exists>t r. s' = s\<lparr>trace := t @ trace s, shift_reg := r\<rparr> \<and> xfers (t @ trace s) = xfers (trace s) \<and> rx_count t = n)"

lemma listened_talk: "talk n s s1 \<Longrightarrow> listened n s (s1\<lparr>shift_reg := r\<rparr>)"
  by (auto simp: talk_def listened_def)

lemma listened_trans: "listened m s t \<Longrightarrow> listened n t u \<Longrightarrow> listened (m + n) s u"
  unfolding listened_def
proof (elim exE conjE)
  fix t1 r1 t2 r2
  assume "t = s\<lparr>trace := t1 @ trace s, shift_reg := r1\<rparr>" "xfers (t1 @ trace s) = xfers (trace s)" "rx_count t1 = m"
    "u = t\<lparr>trace := t2 @ trace t, shift_reg := r2\<rparr>" "xfers (t2 @ trace t) = xfers (trace t)" "rx_count t2 = n"
  then show "\<exists>t r. u = s\<lparr>trace := t @ trace s, shift_reg := r\<rparr> \<and> xfers (t @ trace s) = xfers (trace s) \<and> rx_count t = m + n"
    by (intro exI [of _ "t2 @ t1"] exI [of _ r2]) auto
qed

lemma host_trigger:
  assumes "host (trigger_key @ bs) s" "shift_reg s = 0"
  shows "\<exists>s'. trigger_loop s = Some s' \<and> listened 4 s s' \<and> host bs s'"
proof -
  have f: "dfu_trigger_feed 0xDF 0 = (False, 0xDF)" "dfu_trigger_feed 0 0xDF = (False, 0xDF00)" "dfu_trigger_feed 0xDF 0xDF00 = (False, 0xDF00DF)"
    "dfu_trigger_feed 0 0xDF00DF = (True, 0xDF00DF00)"
    by (simp_all add: dfu_trigger_feed_def DFU_TRIGGER_KEY_def push_bit_eq_mult)
  from host_trigger_step [of "0xDF" "0 # 0xDF # 0 # bs" s "0xDF"] assms f obtain s1 a1 where
    s1: "trigger_loop s = trigger_loop s1" "shift_reg s1 = 0xDF" "host (0 # 0xDF # 0 # bs) s1" "talk 1 s a1" "s1 = a1\<lparr>shift_reg := 0xDF\<rparr>"
    by (auto simp: trigger_key_def)
  from host_trigger_step [OF s1(3), of "0xDF00"] s1(2) f obtain s2 a2 where
    s2: "trigger_loop s1 = trigger_loop s2" "shift_reg s2 = 0xDF00" "host (0xDF # 0 # bs) s2" "talk 1 s1 a2" "s2 = a2\<lparr>shift_reg := 0xDF00\<rparr>" by auto
  from host_trigger_step [OF s2(3), of "0xDF00DF"] s2(2) f obtain s3 a3 where
    s3: "trigger_loop s2 = trigger_loop s3" "shift_reg s3 = 0xDF00DF" "host (0 # bs) s3" "talk 1 s2 a3" "s3 = a3\<lparr>shift_reg := 0xDF00DF\<rparr>" by auto
  from host_rx [OF s3(3)] obtain s4 where s4: "uart_rx s3 = Some (0, s4)" "talk (Suc 0) s3 s4" "host bs s4" by blast
  let ?s4 = "s4\<lparr>shift_reg := 0xDF00DF00\<rparr>"
  have "host bs ?s4" using s4(3) host_cong [of ?s4 s4 bs] by simp
  from host_tx [OF this, of DFU_ACK] obtain s5 where s5: "uart_tx_raw DFU_ACK ?s4 = Some s5" "talk 0 ?s4 s5" "host bs s5" by blast
  have "shift_reg s4 = 0xDF00DF" using s4(2) s3(2) by (auto simp: talk_def)
  then have "trigger_loop s3 = Some (s5\<lparr>shift_reg := dfu_trigger_reset\<rparr>)" using s4(1) s5(1) f by (subst trigger_loop.simps) (simp add: Let_def)
  moreover have "listened (1 + 1 + 1 + Suc 0 + 0) s (s5\<lparr>shift_reg := dfu_trigger_reset\<rparr>)"
    using listened_talk [OF s1(4), of "0xDF"] listened_talk [OF s2(4), of "0xDF00"] listened_talk [OF s3(4), of "0xDF00DF"]
      listened_talk [OF s4(2), of "0xDF00DF00"] listened_talk [OF s5(2), of dfu_trigger_reset] unfolding s1(5) s2(5) s3(5)
    by (blast intro: listened_trans)
  moreover have "host bs (s5\<lparr>shift_reg := dfu_trigger_reset\<rparr>)" using s5(3) host_cong [of "s5\<lparr>shift_reg := dfu_trigger_reset\<rparr>" s5 bs] by simp
  ultimately show ?thesis using s1(1) s2(1) s3(1) by (intro exI [of _ "s5\<lparr>shift_reg := dfu_trigger_reset\<rparr>"]) (simp add: eval_nat_numeral)
qed

text \<open>The stream of an update: the key, the header, the image in chunks, the end.\<close>

definition update_stream :: "nat \<Rightarrow> u8 list list \<Rightarrow> u8 list" where
  "update_stream len chunks = trigger_key @ build_packet CMD_START (header len (crc32 (take len (concat chunks)))) @
     concat (map (build_packet CMD_DATA) chunks) @ build_packet CMD_FINISH [0]"

lemma installed_landed:
  assumes "holds_image (card W s') B h img" "B = APP_SLOT_TO_SECTOR (APP_SLOT_OTHER (active_app_slot (wdt_meta s)))"
    "start_packet h = \<lparr>version_num = 1, fw_length = of_nat len, sp_crc = crc32 (take len img)\<rparr>" "0 < len" "len \<le> length img" "length img < 16383 * 512"
    "\<And>a. a \<noteq> EMMC_SECTOR_METADATA \<Longrightarrow> card W s' a = card W s a \<or> (\<exists>j<16384. a = at_sector B j)"
    "card W s' EMMC_SECTOR_METADATA = meta_sector (on_trial (wdt_meta s))" "wdt_meta s' = sealed (on_trial (wdt_meta s))" "overrun s' = overrun s"
  shows "installed W s len img s'"
proof -
  have l: "length img < 16384 * 512" using assms(6) by simp
  have "card W s' a = card W s a" if "in_slot (active_app_slot (wdt_meta s)) a" for a
    using assms(7) [OF other_slot(2) [OF that]] other_slot(1) [OF that] slot_sectors(3) assms(2) by blast
  then show ?thesis unfolding installed_def Let_def assms(2) [symmetric]
    using valid_image_image [OF assms(1,3,4,5) l] image_bytes_image [OF assms(1,5) l] assms(8-10) by blast
qed

lemma finish_session:
  assumes "host (build_packet CMD_FINISH [0]) s" "streamed W old B h img s" "hashing len (crc32 (take len img)) img l" "length (pk_DATA p0) = 256"
    "B = APP_SLOT_TO_SECTOR (APP_SLOT_OTHER (active_app_slot (wdt_meta s)))" "length h = 128" "\<And>a. length (old a) = 128"
    "start_packet h = \<lparr>version_num = 1, fw_length = of_nat len, sp_crc = crc32 (take len img)\<rparr>" "0 < len" "len \<le> length img" "length img < 16383 * 512"
    "36 \<le> length img" "words_of img ! 8 = DFU_APP_MAGIC" "length (current_sector s) = 128"
  shows "\<exists>s'. dfu_loop p0 l s = Some (Returns E_OK, s') \<and> holds_image (card W s') B h img \<and>
    (\<forall>a. a \<noteq> EMMC_SECTOR_METADATA \<longrightarrow> card W s' a = old a \<or> (\<exists>j<16384. a = at_sector B j)) \<and>
    card W s' EMMC_SECTOR_METADATA = meta_sector (on_trial (wdt_meta s)) \<and> wdt_meta s' = sealed (on_trial (wdt_meta s)) \<and> overrun s' = overrun s \<and>
    idle_board W s'"
proof -
  have hs: "host (build_packet CMD_FINISH [0] @ []) s" using assms(1) by simp
  have dl: "dfu_state l = DFU_STATE_RECIEVE_DATA" using assms(3) by (simp add: hashing_def)
  from host_session [OF hs _ _ _ _ assms(4), of l] dl obtain p s1 where p: "got CMD_FINISH [0] p" "talk 10 s s1" "host [] s1"
    "\<And>l' s2. dfu_command p l s1 = Some (Returns l', s2) \<Longrightarrow> dfu_loop p0 l s = dfu_loop p0 l' s2" by (auto simp: dfu_cmd_defs)
  have st: "streamed W old B h img s1" by (rule streamed_talk [OF assms(2) p(2)])
  have f: "landed W old B h img (flush s1)"
    by (rule flush_landed [OF st _ assms(11,6,7)]) (use slot_sectors(1) assms(5) in blast)
  have m: "wdt_meta (flush s1) = wdt_meta s" "current_sector (flush s1) = current_sector s" "overrun (flush s1) = overrun s"
    using calm_trans [OF calm_talk [OF p(2)] flush_frame(1)] by (simp_all add: calm_def)
  have h: "host [] (flush s1)" by (rule host_idle [OF p(3) flush_frame(2)])
  have slot: "APP_SLOT_OTHER (active_app_slot (wdt_meta s)) = APP_SLOT_OTHER (active_app_slot (wdt_meta (flush s1)))" using m by simp
  from finish_landed [OF f assms(5) slot assms(8-13) _ h, of l] assms(14) m(2) obtain s' where
    s': "finish_app l (flush s1) = Some (Returns (l\<lparr>dfu_state := DFU_STATE_DONE\<rparr>), s')" "holds_image (card W s') B h img"
      "\<And>a. a \<noteq> EMMC_SECTOR_METADATA \<Longrightarrow> card W s' a = card W (flush s1) a" "card W s' EMMC_SECTOR_METADATA = meta_sector (on_trial (wdt_meta s))"
      "wdt_meta s' = sealed (on_trial (wdt_meta s))" "overrun s' = overrun s" "idle_board W s'" unfolding m by auto
  have "crc32_finish (crc_ctx l) = img_expected_crc l" using assms(3) by (simp add: hashing_def crc32_def)
  moreover have "\<not> is_self_update (flush s1)" using f by (simp add: landed_def)
  ultimately have "dfu_cmd_finish l s1 = finish_app l (flush s1)" by (simp add: dfu_cmd_finish_def Let_def)
  then have "dfu_command p l s1 = finish_app l (flush s1)" using p(1) by (simp add: dfu_command_def got_def dfu_cmd_defs)
  from p(4) [of "l\<lparr>dfu_state := DFU_STATE_DONE\<rparr>" s'] this s'(1) have "dfu_loop p0 l s = Some (Returns E_OK, s')" by (simp add: dfu_loop.simps)
  moreover have "card W s' a = old a \<or> (\<exists>j<16384. a = at_sector B j)" if "a \<noteq> EMMC_SECTOR_METADATA" for a
    using s'(3) [OF that] f by (auto simp: landed_def)
  ultimately show ?thesis using s' by blast
qed

text \<open>The state when the key has been heard.\<close>

lemma host_began:
  assumes "host (trigger_key @ bs) s" "storing W s" "is_high_capacity s" "length (dfu_current_sector s) = 512"
  shows "\<exists>s1. (\<forall>p0 e0 c0. dfu_receive p0 e0 c0 s = dfu_loop p0 (new_session e0 c0) s1) \<and> host bs s1 \<and> fresh s1 \<and> storing W s1 \<and> card W s1 = card W s \<and>
    calm s s1 \<and> rx_count (trace s1) = rx_count (trace s) + 4"
proof -
  let ?s0 = "(dfu_init s)\<lparr>shift_reg := dfu_trigger_reset\<rparr>"
  have "host (trigger_key @ bs) ?s0" using host_cong [of ?s0 s] assms(1) by (simp add: dfu_init_def)
  from host_trigger [OF this] obtain s1 where s1: "trigger_loop ?s0 = Some s1" "listened 4 ?s0 s1" "host bs s1" by (auto simp: dfu_trigger_reset_def)
  from s1(2) obtain t r where t: "s1 = ?s0\<lparr>trace := t @ trace s, shift_reg := r\<rparr>" "xfers (t @ trace s) = xfers (trace s)" "rx_count t = 4"
    by (auto simp: listened_def dfu_init_def)
  have "dfu_receive p0 e0 c0 s = dfu_loop p0 (new_session e0 c0) s1" for p0 e0 c0 using s1(1) by (simp add: dfu_receive_def Let_def)
  moreover have "fresh s1" using t(1) assms(3,4) by (simp add: fresh_def dfu_init_def)
  moreover have "storing W s1" using assms(2) storing_cong [of s1 s W] t(1) by (simp add: dfu_init_def)
  moreover have "card W s1 = card W s" "calm s s1" using t by (simp_all add: card_def stores_def calm_def dfu_init_def)
  ultimately show ?thesis using s1(3) t(1,3) by (intro exI [of _ s1]) (simp add: dfu_init_def)
qed

lemma host_start:
  assumes "host (trigger_key @ build_packet CMD_START (header len e) @ bs) s" "storing W s" "is_high_capacity s" "length (dfu_current_sector s) = 512"
    "length (pk_DATA p0) = 256" "B = APP_SLOT_TO_SECTOR (APP_SLOT_OTHER (active_app_slot (wdt_meta s)))"
  shows "\<exists>l s1 h. dfu_receive p0 e0 c0 s = dfu_loop p0 l s1 \<and> streamed W (card W s) B h [] s1 \<and>
    start_packet h = \<lparr>version_num = 1, fw_length = of_nat len, sp_crc = e\<rparr> \<and> length h = 128 \<and> hashing len e [] l \<and> host bs s1 \<and> calm s s1 \<and>
    rx_count (trace s1) = rx_count (trace s) + 25"
proof -
  from host_began [OF assms(1-4)] obtain s1 where s1: "dfu_receive p0 e0 c0 s = dfu_loop p0 (new_session e0 c0) s1"
    "host (build_packet CMD_START (header len e) @ bs) s1" "fresh s1" "storing W s1" "card W s1 = card W s" "calm s s1"
    "rx_count (trace s1) = rx_count (trace s) + 4" by blast
  from host_session [OF s1(2) _ _ _ _ assms(5), of "new_session e0 c0"] obtain p s2 where p: "got CMD_START (header len e) p" "talk 21 s1 s2" "host bs s2"
    "\<And>l' s'. dfu_command p (new_session e0 c0) s2 = Some (Returns l', s') \<Longrightarrow> dfu_loop p0 (new_session e0 c0) s1 = dfu_loop p0 l' s'"
    by (auto simp: dfu_cmd_defs new_session_def)
  have m: "wdt_meta s2 = wdt_meta s" using s1(6) calm_talk [OF p(2)] by (simp add: calm_def)
  have "fresh s2" using s1(3) p(2) by (auto simp: fresh_def talk_def)
  from start_command [OF p(1) this _ p(3) refl, of W "new_session e0 c0"] s1(4) talk_facts [OF p(2), of W] s1(5) m assms(6)
  obtain l s3 h where s3: "dfu_command p (new_session e0 c0) s2 = Some (Returns l, s3)" "streamed W (card W s) B h [] s3"
    "start_packet h = \<lparr>version_num = 1, fw_length = of_nat len, sp_crc = e\<rparr>" "length h = 128" "hashing len e [] l" "host bs s3" "calm s2 s3"
    "rx_count (trace s3) = rx_count (trace s2)" by (auto simp: new_session_def)
  have "rx_count (trace s2) = rx_count (trace s1) + 21" using p(2) by (auto simp: talk_def)
  then show ?thesis using s1(1,7) p(4) [OF s3(1)] s3 calm_trans [OF s1(6) calm_trans [OF calm_talk [OF p(2)] s3(7)]]
    by (intro exI [of _ l] exI [of _ s3] exI [of _ h]) simp
qed

lemma update_session:
  assumes "host (update_stream len chunks) s" "storing W s" "is_high_capacity s" "length (dfu_current_sector s) = 512" "length (current_sector s) = 128"
    "length (pk_DATA p0) = 256" "\<And>a. length (card W s a) = 128" "list_all chunk_ok chunks" "0 < len" "len \<le> length (concat chunks)"
    "36 \<le> length (concat chunks)" "length (concat chunks) < 16383 * 512" "words_of (concat chunks) ! 8 = DFU_APP_MAGIC"
  shows "\<exists>s' h. dfu_receive p0 e0 c0 s = Some (Returns E_OK, s') \<and> installed W s len (concat chunks) s' \<and> idle_board W s' \<and>
    holds_image (card W s') (APP_SLOT_TO_SECTOR (APP_SLOT_OTHER (active_app_slot (wdt_meta s)))) h (concat chunks) \<and>
    start_packet h = \<lparr>version_num = 1, fw_length = of_nat len, sp_crc = crc32 (take len (concat chunks))\<rparr>"
proof -
  let ?img = "concat chunks" and ?e = "crc32 (take len (concat chunks))"
  define B where "B = APP_SLOT_TO_SECTOR (APP_SLOT_OTHER (active_app_slot (wdt_meta s)))"
  from host_start [OF assms(1) [unfolded update_stream_def] assms(2-4,6) B_def, of e0 c0] obtain l s1 h where
    s1: "dfu_receive p0 e0 c0 s = dfu_loop p0 l s1" "streamed W (card W s) B h [] s1"
      "start_packet h = \<lparr>version_num = 1, fw_length = of_nat len, sp_crc = ?e\<rparr>" "length h = 128" "hashing len ?e [] l"
      "host (concat (map (build_packet CMD_DATA) chunks) @ build_packet CMD_FINISH [0]) s1" "calm s s1" by blast
  have fl: "EMMC_FIRMWARE_FLOOR \<le> at_sector B j" if "j < 16384" for j unfolding B_def by (rule slot_sectors(1) [OF that])
  from session_chunks [OF s1(6,2,5) assms(8,6) fl] assms(10,12) obtain l2 s2 where
    s2: "dfu_loop p0 l s1 = dfu_loop p0 l2 s2" "streamed W (card W s) B h ?img s2" "hashing len ?e ?img l2" "host (build_packet CMD_FINISH [0]) s2" "calm s1 s2"
    by auto
  have c: "wdt_meta s2 = wdt_meta s" "current_sector s2 = current_sector s" "overrun s2 = overrun s"
    using calm_trans [OF s1(7) s2(5)] by (simp_all add: calm_def)
  have B2: "B = APP_SLOT_TO_SECTOR (APP_SLOT_OTHER (active_app_slot (wdt_meta s2)))" by (simp add: B_def c)
  from finish_session [OF s2(4,2,3) assms(6) B2 s1(4) assms(7) s1(3) assms(9,10,12,11,13)] assms(5) c(2) obtain s' where
    s': "dfu_loop p0 l2 s2 = Some (Returns E_OK, s')" "holds_image (card W s') B h ?img"
      "\<And>a. a \<noteq> EMMC_SECTOR_METADATA \<Longrightarrow> card W s' a = card W s a \<or> (\<exists>j<16384. a = at_sector B j)"
      "card W s' EMMC_SECTOR_METADATA = meta_sector (on_trial (wdt_meta s))" "wdt_meta s' = sealed (on_trial (wdt_meta s))" "overrun s' = overrun s"
      "idle_board W s'"
    unfolding c by auto
  have "installed W s len ?img s'" by (rule installed_landed [OF s'(2) B_def s1(3) assms(9,10,12) s'(3-6)])
  then show ?thesis using s1(1,3) s2(1) s'(1,2,7) unfolding B_def by (intro exI [of _ s'] exI [of _ h]) simp
qed

text \<open>Claim C22 (refinement). From the bytes on the wire to the active slot: a host that sends the key and then the packets of the flashing script, in any division
  of the image into packets, on a card that keeps what is stored, ends in success; the other slot then holds a valid image whose bytes are
  exactly those sent, the metadata on the card and in memory makes that slot active, on trial, and no sector of the slot that was active has changed.\<close>

theorem dfu_update_installs:
  assumes "host (update_stream len chunks) s" "storing W s" "is_high_capacity s" "length (dfu_current_sector s) = 512" "length (current_sector s) = 128"
    "length (pk_DATA p0) = 256" "\<And>a. length (card W s a) = 128" "list_all chunk_ok chunks" "0 < len" "len \<le> length (concat chunks)"
    "36 \<le> length (concat chunks)" "length (concat chunks) < 16383 * 512" "words_of (concat chunks) ! 8 = DFU_APP_MAGIC"
  shows "\<exists>s'. dfu_receive p0 e0 c0 s = Some (Returns E_OK, s') \<and> installed W s len (concat chunks) s'"
  using update_session [OF assms] by blast

text \<open>Claim C23 (safety). An update session never stores into the active app slot, however it ends and however a high-capacity card and its controller
  behave, as long as the host stays within two bounds, which the code does not check: no packet it announces is longer than the packet buffer, and fewer bytes
  arrive in the session than \<open>session_limit\<close>, which is what a slot, or for a bootloader update the bootloader's region, holds. Each of its stores is a single sector of the other slot, or of the bootloader's region when
  it is a bootloader update, or the metadata sector, and the metadata only when the session reports success.\<close>

theorem dfu_active_slot_untouched:
  assumes "dfu_receive packet0 expected0 ctx0 s = Some (out, s')" "is_high_capacity s" "length (pk_DATA packet0) = 256"
    "length (dfu_current_sector s) = 512" "length (current_sector s) = 128" "\<not> overrun s'"
    "rx_count (trace s') - rx_count (trace s) < session_limit (is_self_update s')"
  shows "\<exists>new. stores (trace s') = new @ stores (trace s) \<and>
    list_all (\<lambda>(c, a, d). c = CMD24 \<and> (session_store (wdt_meta s) (is_self_update s') a \<or> a = EMMC_SECTOR_METADATA \<and> out = Returns E_OK) \<and>
      \<not> in_slot (active_app_slot (wdt_meta s)) a) new"
proof -
  from dfu_receive_ended [OF assms(1-6)] obtain n s0 where e: "ended s0 n out s'" "trace s0 = trace s" "wdt_meta s0 = wdt_meta s" by blast
  note lim = assms(7) [folded e(2)]
  have "\<exists>new. stores (trace s') = new @ stores (trace s0) \<and>
    list_all (\<lambda>(c, a, d). c = CMD24 \<and> (session_store (wdt_meta s0) (is_self_update s') a \<or> a = EMMC_SECTOR_METADATA \<and> out = Returns E_OK)) new"
  proof (cases "out = Returns E_OK")
    case True
    then show ?thesis using committed_stores [OF _ lim] e(1) by (simp add: ended_def)
  next
    case False
    then consider "card_ok s0 n s'" | "outcome_ok s0 n Resets s'" using e(1) by (auto simp: ended_def split: outcome.splits if_splits)
    then have "\<exists>new. stores (trace s') = new @ stores (trace s0) \<and> list_all (\<lambda>(c, a, d). c = CMD24 \<and> session_store (wdt_meta s0) (is_self_update s') a) new"
    proof cases
      case 1
      then have "rx_count (trace s0) + n \<le> rx_count (trace s')" by (simp add: card_ok_def)
      then show ?thesis using lim by (intro card_ok_session [OF 1]) linarith
    next
      case 2
      then have "rx_count (trace s0) + n \<le> rx_count (trace s')" by (simp add: outcome_ok_def)
      then have "n < session_limit (is_self_update s')" using lim by linarith
      with 2 show ?thesis by (intro stored_in_session [where n = n]) (simp_all add: outcome_ok_def region_def)
    qed
    then show ?thesis using False by simp
  qed
  then show ?thesis unfolding e(2,3) using session_store_active by (fastforce simp: list_all_iff)
qed

subsection \<open>A board with a host and a card\<close>

definition host_dev :: "(u32 \<Rightarrow> u32 list) \<Rightarrow> u8 list \<Rightarrow> access list \<Rightarrow> u32 \<Rightarrow> u32" where
  "host_dev W bs t a = (if a = INTERRUPT then 0x33
     else if a = DATA then (case xfers t of [] \<Rightarrow> 0 | (c, b, d) # r \<Rightarrow> contents W (stores t) b ! length d)
     else if a = UART0_BASE + DR \<and> rx_count t < length bs then ucast (bs ! rx_count t) else 0)"

definition dfu_board :: "(u32 \<Rightarrow> u32 list) \<Rightarrow> u8 list \<Rightarrow> dfu" where
  "dfu_board W bs = boot.extend ((boot_board W default_meta)\<lparr>dev := host_dev W bs\<rparr>)
     \<lparr>sectors_written = 0, dfu_current_sector = replicate 512 0, dfu_current_sector_counter = 0, unwritten_sector = False, started = False,
       is_self_update = False, dfu_base_sector = 0, overrun = False\<rparr>"

definition zero_packet :: DFU_Packet where
  "zero_packet = \<lparr>pk_CMD = 0, pk_LEN = 0, pk_DATA = replicate 256 0, pk_CRC = 0\<rparr>"

lemma dfu_board_facts [simp]: "host bs (dfu_board W bs)" "storing W (dfu_board W bs)" "is_high_capacity (dfu_board W bs)"
  "length (dfu_current_sector (dfu_board W bs)) = 512" "length (current_sector (dfu_board W bs)) = 128" "card W (dfu_board W bs) = W"
  "wdt_meta (dfu_board W bs) = default_meta" "trace (dfu_board W bs) = []" "overrun (dfu_board W bs) = False" "length (pk_DATA zero_packet) = 256"
proof -
  have d: "dev (dfu_board W bs) = host_dev W bs" "trace (dfu_board W bs) = []" by (simp_all add: dfu_board_def boot.defs boot_board_def board_def watchdog.defs)
  have n: "UART0_BASE + FR \<noteq> INTERRUPT" "UART0_BASE + DR \<noteq> INTERRUPT" "DATA \<noteq> INTERRUPT" "STATUS \<noteq> INTERRUPT" by (simp_all add: reg_defs uart_defs)
  show "host bs (dfu_board W bs)" using n by (simp add: host_def d host_dev_def)
  show "storing W (dfu_board W bs)" using n by (auto simp: storing_def ready_def d host_dev_def)
  show "card W (dfu_board W bs) = W" by (simp add: card_def d stores_def)
qed (simp_all add: dfu_board_def boot.defs boot_board_def board_def watchdog.defs zero_packet_def)

definition demo_image :: "u8 list" where
  "demo_image = replicate 32 7 @ word_bytes DFU_APP_MAGIC"

theorem dfu_update_installs_witness:
  "\<exists>s'. dfu_receive zero_packet 0 crc32_start (dfu_board (\<lambda>_. replicate 128 0) (update_stream 34 [demo_image])) = Some (Returns E_OK, s') \<and>
     installed (\<lambda>_. replicate 128 0) (dfu_board (\<lambda>_. replicate 128 0) (update_stream 34 [demo_image])) 34 demo_image s' \<and>
     active_app_slot (wdt_meta s') = APP_SLOT_B"
proof -
  let ?W = "\<lambda>_. replicate 128 0 :: u32 list"
  let ?s = "dfu_board ?W (update_stream 34 [demo_image])"
  have l: "length demo_image = 36" by (simp add: demo_image_def)
  have "words_of demo_image ! 8 = DFU_APP_MAGIC"
    by (simp add: words_of_nth l) (simp add: demo_image_def nth_append word_bytes_def le32_word_bytes)
  then obtain s' where s': "dfu_receive zero_packet 0 crc32_start ?s = Some (Returns E_OK, s')" "installed ?W ?s 34 demo_image s'"
    using dfu_update_installs [of 34 "[demo_image]" ?s ?W zero_packet 0 crc32_start] l by (auto simp: chunk_ok_def)
  then have "active_app_slot (wdt_meta s') = APP_SLOT_B"
    by (simp add: installed_def Let_def sealed_def on_trial_def default_meta_def APP_SLOT_OTHER_def APP_SLOT_A_def APP_SLOT_B_def)
  with s' show ?thesis by blast
qed

text \<open>A session that is aborted after its header.\<close>

lemma aborted_session:
  fixes W :: "u32 \<Rightarrow> u32 list"
  defines "bs \<equiv> trigger_key @ build_packet CMD_START (header 4 0) @ build_packet CMD_ABORT [0]"
  shows "\<exists>s'. dfu_receive zero_packet 0 crc32_start (dfu_board W bs) = Some (Returns E_ABORTED, s') \<and> rx_count (trace s') = 35 \<and> \<not> overrun s' \<and> \<not> is_self_update s'"
proof -
  let ?s = "dfu_board W bs"
  define B where "B = APP_SLOT_TO_SECTOR (APP_SLOT_OTHER (active_app_slot (wdt_meta ?s)))"
  have "host (trigger_key @ build_packet CMD_START (header 4 0) @ build_packet CMD_ABORT [0]) ?s" using dfu_board_facts(1) [of bs W] by (simp add: bs_def)
  from host_start [OF this dfu_board_facts(2-4,10) B_def, of 0 crc32_start] obtain l s1 h where
    s1: "dfu_receive zero_packet 0 crc32_start ?s = dfu_loop zero_packet l s1" "streamed W (card W ?s) B h [] s1" "hashing 4 0 [] l"
      "host (build_packet CMD_ABORT [0] @ []) s1" "calm ?s s1" "rx_count (trace s1) = 25" by auto
  from host_session [OF s1(4) _ _ _ _ dfu_board_facts(10), of l] s1(3) obtain p s2 where p: "got CMD_ABORT [0] p" "talk 10 s1 s2" "host [] s2"
    "\<And>l' s'. dfu_command p l s2 = Some (Returns l', s') \<Longrightarrow> dfu_loop zero_packet l s1 = dfu_loop zero_packet l' s'"
    by (auto simp: dfu_cmd_defs hashing_def)
  from host_tx [OF p(3), of DFU_NACK] obtain s3 where s3: "uart_tx_raw DFU_NACK s2 = Some s3" "talk 0 s2 s3" by blast
  have "dfu_command p l s2 = Some (Returns (l\<lparr>dfu_state := DFU_STATE_ABORT\<rparr>), s3)"
    using p(1) s3(1) by (simp add: dfu_command_def got_def dfu_cmd_defs nack_abort_def reply_def)
  from p(4) [OF this] have "dfu_loop zero_packet l s1 = Some (Returns E_ABORTED, s3)" by (simp add: dfu_loop.simps)
  moreover have t: "talk 10 s1 s3" using talk_trans [OF p(2) s3(2)] by simp
  moreover have "rx_count (trace s3) = 35" using t s1(6) by (auto simp: talk_def)
  moreover have "\<not> overrun s3" using s1(5) calm_talk [OF t] by (simp add: calm_def)
  moreover have "\<not> is_self_update s3" using streamed_talk [OF s1(2) t] by (simp add: streamed_def Let_def)
  ultimately show ?thesis using s1(1) by simp
qed

theorem dfu_active_slot_untouched_witness:
  "\<exists>s'. dfu_receive zero_packet 0 crc32_start (dfu_board (\<lambda>_. []) (trigger_key @ build_packet CMD_START (header 4 0) @ build_packet CMD_ABORT [0])) =
       Some (Returns E_ABORTED, s') \<and>
     list_all (\<lambda>(c, a, d). c = CMD24 \<and> in_slot APP_SLOT_B a \<and> \<not> in_slot APP_SLOT_A a) (stores (trace s'))"
proof -
  let ?s = "dfu_board (\<lambda>_. []) (trigger_key @ build_packet CMD_START (header 4 0) @ build_packet CMD_ABORT [0])"
  from aborted_session [of "\<lambda>_. []"] obtain s' where s': "dfu_receive zero_packet 0 crc32_start ?s = Some (Returns E_ABORTED, s')"
    "rx_count (trace s') = 35" "\<not> overrun s'" "\<not> is_self_update s'" by blast
  from dfu_active_slot_untouched [OF s'(1)] s'(2-4)
  have "list_all (\<lambda>(c, a, d). c = CMD24 \<and> session_store default_meta False a \<and> \<not> in_slot (active_app_slot default_meta) a) (stores (trace s'))"
    by (simp add: session_limit_def stores_def)
  moreover have "active_app_slot default_meta = APP_SLOT_A" "APP_SLOT_OTHER APP_SLOT_A = APP_SLOT_B" by (simp_all add: default_meta_def APP_SLOT_OTHER_def APP_SLOT_A_def APP_SLOT_B_def)
  ultimately show ?thesis using s'(1) by (simp add: session_store_def)
qed

end
