(* ===== verification/Bootloader.thy ===== *)
theory Bootloader
  imports Dfu_Session
begin

unbundle bit_operations_syntax

text \<open>
  \<^verbatim>\<open>samples/boot/bootloader/main.c\<close>: the second boot stage, composed of the modules below it. Console text and telemetry reports are left out.
  What C leaves uninitialised in a DFU session is the parameter \<open>junk\<close>, one value per session.
\<close>

subsection \<open>Initialisation\<close>

definition uart_config :: UartConfig where
  "uart_config = \<lparr>tx_pin = 14, rx_pin = 15, alt_func = GPIO_FUNC_ALT0, baudrate = UART_BAUDRATE_115200, uart_mode = UART_MODE_BLOCKING,
     is_dma_enabled = False, dma_channel = 0, task_stack_words = 0, task_priority = 0\<rparr>"

definition NUM_RETRIES :: nat where "NUM_RETRIES = 10"

text \<open>The judgement of the slot the previous boot left on trial, and the reset-tolerance policy; the flag asks for a new validation.\<close>

definition switch_back :: "WdtMeta \<Rightarrow> WdtMeta" where
  "switch_back m = m\<lparr>active_app_slot := APP_SLOT_OTHER (active_app_slot m), app_slot_trial := 0, trial_boot_count := 0\<rparr>"

definition trial_resolution :: "WdtMeta \<Rightarrow> bool \<Rightarrow> WdtMeta \<times> bool" where
  "trial_resolution m revalidate = (
     if app_slot_trial m \<noteq> 0 then
       let m = m\<lparr>trial_boot_count := trial_boot_count m + 1\<rparr>
       in if trial_boot_count m \<ge> APP_SLOT_TRIAL_MAX_ATTEMPTS then (switch_back m, True) else (m, revalidate)
     else (m, revalidate))"

definition tolerance_policy :: "WdtMeta \<Rightarrow> BootFlags \<Rightarrow> bool \<Rightarrow> WdtMeta \<times> BootFlags \<times> bool" where
  "tolerance_policy m f revalidate = (
     let m = m\<lparr>wdt_reset_count := wdt_reset_count m + 1\<rparr>
     in if sint (wdt_reset_tolerance m) \<ge> 0 \<and> sint (wdt_reset_count m) > sint (wdt_reset_tolerance m) then
          if wdt_reset_policy m = policy_num WATCHDOG_RESET_POLICY_FORCE_UPDATE then
            (m\<lparr>wdt_reset_count := 0\<rparr>, f\<lparr>dfu_requested := DFU_REQUEST, reset_reason := RESET_REASON_SOFTWARE\<rparr>, revalidate)
          else if wdt_reset_policy m = policy_num WATCHDOG_RESET_POLICY_ROLLBACK then
            ((switch_back m)\<lparr>wdt_reset_count := 0\<rparr>, f, True)
          else (m, f, revalidate)
        else (m, f, revalidate))"

definition check_metadata :: "('z boot_scheme, bool) state" where
  "check_metadata = do {
     m \<leftarrow> gets wdt_meta;
     f \<leftarrow> gets boot_flags;
     let (m, revalidate) = trial_resolution m (reset_reason f = RESET_REASON_COLD);
     let (m, f, revalidate) = tolerance_policy m f revalidate;
     upd (\<lambda>s. s\<lparr>wdt_meta := m, boot_flags := f\<rparr>);
     return revalidate }"

definition revalidate_slot :: "('z boot_scheme, unit) state" where
  "revalidate_slot = do {
     slot \<leftarrow> gets (active_app_slot \<circ> wdt_meta);
     r \<leftarrow> boot_validate_app (APP_SLOT_TO_SECTOR slot);
     upd (\<lambda>s. s\<lparr>boot_flags := (boot_flags s)\<lparr>fw_crc_ok := if r = E_OK then 1 else 0\<rparr>\<rparr>) }"

definition init_components :: "('z dfu_scheme, unit) state" where
  "init_components = do {
     _ \<leftarrow> uart_init (Some uart_config);
     jtag_gpio_init;
     upd (\<lambda>s. s\<lparr>boot_flags := boot_flags_init (boot_flags s)\<rparr>);
     _ \<leftarrow> emmc_init;
     _ \<leftarrow> boot_init;
     upd dfu_init }"

definition bootloader_init :: "('z dfu_scheme, unit) state" where
  "bootloader_init = do {
     init_components;
     _ \<leftarrow> wdt_meta_read;
     revalidate \<leftarrow> check_metadata;
     (if revalidate then revalidate_slot else return ());
     _ \<leftarrow> wdt_meta_write;
     return () }"

subsection \<open>The recovery window\<close>

text \<open>The call in \<open>kmain\<close> is commented out.\<close>

partial_function (option) window_loop :: "u64 \<Rightarrow> u64 \<Rightarrow> 'z boot_scheme \<Rightarrow> 'z boot_scheme option" where
  "window_loop start ticks s =
     (case run_state cntpct s of (now, s) \<Rightarrow>
        if now - start \<ge> ticks then Some (s\<lparr>boot_flags := (boot_flags s)\<lparr>dfu_requested := DFU_REQUEST\<rparr>\<rparr>)
        else (case run_state uart_rx_nonblocking s of (r, s) \<Rightarrow>
          case r of
            Inl e \<Rightarrow> window_loop start ticks s
          | Inr byte \<Rightarrow> (case dfu_trigger_feed byte (shift_reg s) of (hit, reg) \<Rightarrow>
              let s = s\<lparr>shift_reg := reg\<rparr>
              in if hit then Some (s\<lparr>boot_flags := (boot_flags s)\<lparr>dfu_requested := DFU_REQUEST, reset_reason := RESET_REASON_SOFTWARE\<rparr>,
                     shift_reg := dfu_trigger_reset\<rparr>)
                 else window_loop start ticks s)))"

definition bootloader_recovery_window :: "'z boot_scheme \<Rightarrow> 'z boot_scheme option" where
  "bootloader_recovery_window s = (
     if dfu_requested (boot_flags s) = DFU_REQUEST then Some s
     else (case run_state (rd CNTFRQ) s of (frq, s) \<Rightarrow>
       case run_state cntpct s of (start, s) \<Rightarrow>
         window_loop start (ucast frq * 1000 div 1000) (s\<lparr>shift_reg := dfu_trigger_reset\<rparr>)))"

subsection \<open>Execution\<close>

type_synonym junk = "DFU_Packet \<times> u32 \<times> CRC32"

definition session_with :: "junk \<Rightarrow> 'z dfu_scheme \<Rightarrow> (StatusCode outcome \<times> 'z dfu_scheme) option" where
  "session_with j = (case j of (packet0, expected0, ctx0) \<Rightarrow> dfu_receive packet0 expected0 ctx0)"

definition clear_resets :: "'z dfu_scheme \<Rightarrow> 'z dfu_scheme" where
  "clear_resets s = snd (run_state (do {
     upd (\<lambda>s. s\<lparr>wdt_meta := (wdt_meta s)\<lparr>wdt_reset_count := 0\<rparr>\<rparr>);
     _ \<leftarrow> wdt_meta_write;
     return () }) s)"

definition load_active :: "('z boot_scheme, StatusCode) state" where
  "load_active = do {
     slot \<leftarrow> gets (active_app_slot \<circ> wdt_meta);
     boot_load_app (APP_SLOT_TO_SECTOR slot) }"

definition boot_active :: "bool \<Rightarrow> 'z dfu_scheme \<Rightarrow> (StatusCode outcome \<times> 'z dfu_scheme) option" where
  "boot_active did_dfu s = (
     let s = (if did_dfu then clear_resets s else s)
     in case run_state load_active s of (ret, s) \<Rightarrow>
          if ret \<noteq> E_OK then Some (Returns ret, s) else boot_jump_to_app s)"

definition update_then_boot :: "junk \<Rightarrow> 'z dfu_scheme \<Rightarrow> (StatusCode outcome \<times> 'z dfu_scheme) option" where
  "update_then_boot j s = do {
     (out, s) \<leftarrow> session_with j s;
     case out of
       Returns r \<Rightarrow> if r \<noteq> E_OK then Some (Returns E_ABORTED, s) else boot_active True s
     | Jumps a \<Rightarrow> Some (Jumps a, s)
     | Resets \<Rightarrow> Some (Resets, s)
     | Hangs \<Rightarrow> Some (Hangs, s) }"

definition bootloader_execute :: "junk \<Rightarrow> 'z dfu_scheme \<Rightarrow> (StatusCode outcome \<times> 'z dfu_scheme) option" where
  "bootloader_execute j s = (
     if dfu_requested (boot_flags s) = DFU_REQUEST then update_then_boot j s
     else if fw_crc_ok (boot_flags s) = 0 then update_then_boot j s
     else boot_active False s)"

fun retry_loop :: "nat \<Rightarrow> (nat \<Rightarrow> junk) \<Rightarrow> 'z dfu_scheme \<Rightarrow> (unit outcome \<times> 'z dfu_scheme) option" where
  "retry_loop 0 j s = Some (Returns (), s)"
| "retry_loop (Suc retries) j s = do {
     (out, s) \<leftarrow> bootloader_execute (j (Suc retries)) s;
     case out of
       Returns r \<Rightarrow> retry_loop retries j s
     | Jumps a \<Rightarrow> Some (Jumps a, s)
     | Resets \<Rightarrow> Some (Resets, s)
     | Hangs \<Rightarrow> Some (Hangs, s) }"

partial_function (option) recovery_loop :: "nat \<Rightarrow> (nat \<Rightarrow> junk) \<Rightarrow> 'z dfu_scheme \<Rightarrow> (unit outcome \<times> 'z dfu_scheme) option" where
  "recovery_loop n j s = do {
     (out, s) \<leftarrow> session_with (j n) s;
     case out of
       Returns r \<Rightarrow>
         if r = E_OK then boot_jump_to_app (snd (run_state load_active (clear_resets s)))
         else recovery_loop (Suc n) j s
     | Jumps a \<Rightarrow> Some (Jumps a, s)
     | Resets \<Rightarrow> Some (Resets, s)
     | Hangs \<Rightarrow> Some (Hangs, s) }"

definition kmain :: "(nat \<Rightarrow> junk) \<Rightarrow> 'z dfu_scheme \<Rightarrow> (unit outcome \<times> 'z dfu_scheme) option" where
  "kmain j s = do {
     let s = snd (run_state bootloader_init s);
     (out, s) \<leftarrow> retry_loop NUM_RETRIES j s;
     case out of
       Returns _ \<Rightarrow> recovery_loop (Suc NUM_RETRIES) j s
     | Jumps a \<Rightarrow> Some (Jumps a, s)
     | Resets \<Rightarrow> Some (Resets, s)
     | Hangs \<Rightarrow> Some (Hangs, s) }"

end
