(* ===== verification/Bootloader_Props.thy ===== *)
theory Bootloader_Props
  imports Bootloader
begin

unbundle bit_operations_syntax

text \<open>
  What the bootloader promises: initialisation reads the card and changes only the metadata sector, and a flashing host gets a board to run the image it sent.
\<close>

subsection \<open>Initialisation reads the card and nothing else\<close>

definition probing :: "'z emmc_scheme \<Rightarrow> 'z emmc_scheme \<Rightarrow> bool" where
  "probing s s' \<longleftrightarrow> reads_only s s' \<and> is_high_capacity s' = is_high_capacity s \<and> same_rx s s'"

interpretation probing: io_rel probing
  by unfold_locales (auto simp: probing_def reads_only_def same_rx_def)

lemma probing_issues:
  "state_io_rel reads_only m \<Longrightarrow> state_io_rel (issues (\<lambda>_ _ _. True)) m \<Longrightarrow> state_io_rel same_rx m \<Longrightarrow> state_io_rel probing m"
  unfolding state_io_rel_def
proof
  fix s :: "'a emmc_scheme"
  assume "\<forall>s. reads_only s (snd (run_state m s))" "\<forall>s. issues (\<lambda>_ _ _. True) s (snd (run_state m s))" "\<forall>s. same_rx s (snd (run_state m s))"
  then have "reads_only s (snd (run_state m s))" "issues (\<lambda>_ _ _. True) s (snd (run_state m s))" "same_rx s (snd (run_state m s))" by blast+
  then show "probing s (snd (run_state m s))" by (auto simp: probing_def issues_def)
qed

lemma probing_quiet: "state_io_rel quiet m \<Longrightarrow> state_io_rel same_rx m \<Longrightarrow> state_io_rel probing m"
  by (intro probing_issues ro_quiet quiet_issues)

lemma probing_upd:
  "(\<And>s. trace (f s) = trace s \<and> dev (f s) = dev s \<and> dma (f s) = dma s \<and> emmc.more (f s) = emmc.more s \<and> is_high_capacity (f s) = is_high_capacity s) \<Longrightarrow>
   state_io_rel probing (upd f)"
  by (simp add: state_io_rel_def reads_only_def probing_def same_rx_def)

lemma probing_send_command: "\<not> is_store cmd \<Longrightarrow> state_io_rel probing (emmc_send_command cmd arg)"
  by (intro probing_issues ro_send_command issues_send_command same_rx_command; simp)

lemma probing_rd: "a \<noteq> UART0_BASE + DR \<Longrightarrow> state_io_rel probing (rd a)"
  by (intro probing_issues ro_rd issues_rd same_rx_rd)

lemma probing_wr: "a \<noteq> DATA \<Longrightarrow> a \<noteq> CMDTM \<Longrightarrow> state_io_rel probing (wr a v)"
  by (intro probing_quiet quiet_wr same_rx_wr)

lemma probing_bits:
  "a \<noteq> DATA \<Longrightarrow> a \<noteq> CMDTM \<Longrightarrow> a \<noteq> UART0_BASE + DR \<Longrightarrow> state_io_rel probing (set_bits a m)"
  "a \<noteq> DATA \<Longrightarrow> a \<noteq> CMDTM \<Longrightarrow> a \<noteq> UART0_BASE + DR \<Longrightarrow> state_io_rel probing (clear_bits a m)"
  unfolding set_bits_def clear_bits_def by (intro probing.io_rules probing_rd probing_wr; simp)+

lemma same_rx_read_words: "state_io_rel same_rx (read_words n)"
  by (induction n) (auto intro!: same_rx.io_rules same_rx_rd simp: reg_defs uart_defs)

lemma probing_ext_csd: "state_io_rel probing emmc_read_ext_csd"
  unfolding emmc_read_ext_csd_def
  by (intro probing.io_rules probing_send_command probing_issues [OF ro_read_words issues_read_words same_rx_read_words]
      probing_wr probing_quiet [OF quiet_wait(1) same_rx_wait(1)]; simp)

lemma probing_capabilities: "state_io_rel probing emmc_probe_capabilities"
  unfolding emmc_probe_capabilities_def case_prod_beta
  by (intro probing.io_rules probing_rd probing_ext_csd probing_upd; simp add: reg_defs uart_defs)

text \<open>The controller the bootstrap has left running.\<close>

definition running :: "'z machine_scheme \<Rightarrow> bool" where
  "running s \<longleftrightarrow> (\<forall>t. dev s t CONTROL1 AND (CTRL1_CLK_EN OR CTRL1_CLK_STABLE) = CTRL1_CLK_EN OR CTRL1_CLK_STABLE)"

lemma probing_init: "running s \<Longrightarrow> probing s (snd (run_state emmc_init s))"
proof -
  assume "running s"
  then have "run_state emmc_already_running s = (True, s\<lparr>trace := Rd CONTROL1 (dev s (trace s) CONTROL1) # trace s\<rparr>)"
    by (simp add: emmc_already_running_def running_def)
  then have r: "snd (run_state emmc_init s) = (if s_emmc_initialized s then s else snd (run_state (do { _ \<leftarrow> rd CONTROL1; emmc_probe_capabilities;
      upd (s_emmc_initialized_update (\<lambda>_. True)) }) s))"
    by (simp add: emmc_init_def split: prod.splits)
  have "state_io_rel probing (do { _ \<leftarrow> rd CONTROL1; emmc_probe_capabilities; upd (s_emmc_initialized_update (\<lambda>_. True)) })"
    by (intro probing.io_rules probing_rd probing_capabilities probing_upd; simp add: reg_defs uart_defs)
  then have "probing s (snd (run_state (do { _ \<leftarrow> rd CONTROL1; emmc_probe_capabilities; upd (s_emmc_initialized_update (\<lambda>_. True)) }) s))"
    unfolding state_io_rel_def by blast
  then show ?thesis unfolding r by (simp add: probing.R_refl [of s])
qed

lemma probing_busy_loop: "regs = UART0_BASE \<Longrightarrow> state_io_rel probing (busy_loop regs c)"
proof (induction regs c rule: busy_loop.induct)
  case (1 regs c)
  show ?case
    by (subst busy_loop.simps) (intro probing.io_bind probing.io_if probing.io_return probing_rd; use 1 in \<open>auto simp: uart_defs\<close>)
qed

lemma probing_uart: "state_io_rel probing (uart_init (Some uart_config))"
  unfolding uart_init_def uart_channel_init_def uart_config_def option.case UART_CHANNEL_PRINT_def [symmetric] regs0
    gpio_set_function_def gpio_set_pull_def UART_PIN_NONE_def Let_def split_def UartConfig.simps uart_baud_divisors.simps
  by (intro probing.io_rules probing_rd probing_busy_loop probing_wr probing_upd probing_bits;
     simp add: GPFSEL_def GPPUPPDN_def GPIO_BASE_def reg_defs uart_defs)

lemma probing_jtag: "state_io_rel probing jtag_gpio_init"
  unfolding jtag_gpio_init_def gpio_set_function_def gpio_set_pull_def Let_def
  by (intro probing.io_rules probing_rd probing_wr probing_bits;
     simp add: GPFSEL_def GPPUPPDN_def GPIO_BASE_def CHIPCTL_A_def reg_defs uart_defs)

subsection \<open>One pass through the initialisation\<close>

lemma same_rx_pio_read: "state_io_rel same_rx (pio_read n)"
  by (induction n) (auto intro!: same_rx.io_rules same_rx_read_words same_rx_wait split: prod.splits)

lemma same_rx_read_sector: "state_io_rel same_rx (emmc_read_blocks sector addr buf 1)"
  unfolding emmc_read_blocks_def Let_def case_prod_beta
  apply (simp only: one_neq_zero if_False less_irrefl simp_thms if_True)
  by (intro same_rx.io_rules same_rx_command same_rx_pio_read same_rx_wait same_rx_wr; simp)

lemma same_rx_write: "state_io_rel same_rx wdt_meta_write"
proof -
  have "same_rx s (snd (run_state wdt_meta_write s))" for s :: "'a watchdog_scheme"
  proof -
    let ?s = "s\<lparr>wdt_meta := sealed (wdt_meta s), s_sector_buf := meta_sector (wdt_meta s)\<rparr>"
    have "same_rx ?s (snd (run_state (emmc_write_blocks EMMC_SECTOR_METADATA 0 (meta_sector (wdt_meta s)) 1) ?s))"
      using same_rx_write_sector unfolding state_io_rel_def by blast
    then show ?thesis unfolding wdt_meta_write_eq by (simp add: same_rx_def)
  qed
  then show ?thesis by (simp add: state_io_rel_def)
qed

lemma same_rx_upd: "(\<And>s. trace (f s) = trace s) \<Longrightarrow> state_io_rel same_rx (upd f)"
  by (simp add: state_io_rel_def same_rx_def)

lemma same_rx_current: "state_io_rel same_rx (read_current sector)"
  unfolding read_current_def case_prod_beta by (intro same_rx.io_rules same_rx_read_sector same_rx_upd; simp)

lemma same_rx_validate_loop: "state_io_rel same_rx (validate_loop r sector ctx)"
proof (induction r sector ctx rule: validate_loop.induct)
  case (1 r sector ctx)
  show ?case by (subst validate_loop.simps) (auto simp: Let_def intro!: same_rx.io_rules same_rx_current 1)
qed

lemma same_rx_validate: "state_io_rel same_rx (boot_validate_app sector)"
  unfolding boot_validate_app_def Let_def by (intro same_rx.io_rules same_rx_current same_rx_validate_loop)

lemma probing_dfu:
  fixes s s' :: "'z dfu_scheme"
  assumes "probing s s'"
  shows "wdt_meta s' = wdt_meta s" "s_sector_buf s' = s_sector_buf s" "boot_flags s' = boot_flags s" "current_sector s' = current_sector s"
    "dfu_current_sector s' = dfu_current_sector s" "dev s' = dev s" "card W s' = card W s" "storing W s' = storing W s"
    "is_high_capacity s' = is_high_capacity s" "rx_count (trace s') = rx_count (trace s)" "overrun s' = overrun s"
  using assms by (cases s, cases s', simp add: probing_def reads_only_def card_def storing_def ready_def same_rx_def)+

text \<open>A board at the start of a boot stage: its card keeps what is stored and its controller runs; \<open>C\<close> is what the card holds.\<close>

definition starts :: "(u32 \<Rightarrow> u32 list) \<Rightarrow> 'z dfu_scheme \<Rightarrow> bool" where
  "starts C s \<longleftrightarrow> (\<exists>W. storing W s \<and> card W s = C) \<and> is_high_capacity s \<and> running s \<and> length (s_sector_buf s) = 128 \<and>
     length (current_sector s) = 128"

lemma init_components_spec:
  assumes "is_high_capacity s" "running s"
  defines "s' \<equiv> snd (run_state init_components s)"
  shows "wdt_meta s' = wdt_meta s \<and> s_sector_buf s' = s_sector_buf s \<and> boot_flags s' = boot_flags_init (boot_flags s) \<and>
    current_sector s' = current_sector s \<and> dfu_current_sector s' = dfu_current_sector s \<and> dev s' = dev s \<and> card W s' = card W s \<and>
    storing W s' = storing W s \<and> is_high_capacity s' = is_high_capacity s \<and> rx_count (trace s') = rx_count (trace s) \<and> overrun s' = overrun s"
proof -
  obtain r1 s1 where u: "run_state (uart_init (Some uart_config)) s = (r1, s1)" by (cases "run_state (uart_init (Some uart_config)) s")
  obtain s2 where j: "run_state jtag_gpio_init s1 = ((), s2)" by (cases "run_state jtag_gpio_init s1") auto
  let ?s3 = "s2\<lparr>boot_flags := boot_flags_init (boot_flags s2)\<rparr>"
  obtain r4 s4 where e: "run_state emmc_init ?s3 = (r4, s4)" by (cases "run_state emmc_init ?s3")
  have p1: "probing s s1" using probing_uart u unfolding state_io_rel_def by (metis snd_conv)
  have p2: "probing s1 s2" using probing_jtag j unfolding state_io_rel_def by (metis snd_conv)
  have "running ?s3" using assms(2) probing_dfu(6) [OF p1] probing_dfu(6) [OF p2] by (simp add: running_def)
  then have p4: "probing ?s3 s4" using probing_init [of ?s3] e by simp
  have s': "s' = dfu_init (s4\<lparr>current_sector_counter := 0, app_ram_offset := 0\<rparr>)"
    using u j e by (simp add: s'_def init_components_def boot_init_def)
  have 3: "card W ?s3 = card W s2" "storing W ?s3 = storing W s2" by (simp_all add: card_def storing_def ready_def)
  have 5: "card W s' = card W s4" "storing W s' = storing W s4" by (simp_all add: s' dfu_init_def card_def storing_def ready_def)
  show ?thesis unfolding 5 unfolding s' dfu_init_def
    using probing_dfu [OF p1] probing_dfu [OF p2] probing_dfu [OF p4] 3 by simp
qed

definition stored_meta :: "(u32 \<Rightarrow> u32 list) \<Rightarrow> WdtMeta" where
  "stored_meta C = (let m = meta_of (C EMMC_SECTOR_METADATA)
     in if meta_magic m = WDT_META_MAGIC \<and> meta_crc m = wdt_meta_compute_crc m then m else default_meta)"

text \<open>\<open>judged m f\<close>: the metadata and flags after the checks, and whether the slot is validated again.\<close>

definition judged :: "WdtMeta \<Rightarrow> BootFlags \<Rightarrow> WdtMeta \<times> BootFlags \<times> bool" where
  "judged m f = (case trial_resolution m (reset_reason f = RESET_REASON_COLD) of (m, v) \<Rightarrow> tolerance_policy m f v)"

lemma check_metadata_judged:
  "run_state check_metadata s = (case judged (wdt_meta s) (boot_flags s) of (m, f, v) \<Rightarrow> (v, s\<lparr>wdt_meta := m, boot_flags := f\<rparr>))"
  by (simp add: check_metadata_def judged_def Let_def split: prod.splits)

text \<open>Reading the metadata.\<close>

lemma meta_read_stored:
  assumes "storing W s" "is_high_capacity s" "length (s_sector_buf s) = 128" "length (card W s EMMC_SECTOR_METADATA) = 128"
  shows "\<exists>t. snd (run_state wdt_meta_read s) = s\<lparr>trace := t @ trace s, s_sector_buf := card W s EMMC_SECTOR_METADATA, wdt_meta := stored_meta (card W s)\<rparr> \<and>
    stores (t @ trace s) = stores (trace s) \<and> rx_count t = 0"
proof -
  have a: "card_arg s EMMC_SECTOR_METADATA = EMMC_SECTOR_METADATA" using assms(2) by (simp add: card_arg_def)
  from serves_read_sector [OF storing_serves [OF assms(1)], of EMMC_SECTOR_METADATA "s_sector_buf s" 0] assms(3,4) a obtain s1 where
    rd: "run_state (emmc_read_blocks EMMC_SECTOR_METADATA 0 (s_sector_buf s) 1) s = ((E_OK, card W s EMMC_SECTOR_METADATA), s1)" by auto
  from read_sector [OF rd assms(3)] obtain t where t: "s1 = s\<lparr>trace := t @ trace s\<rparr>" "stores (trace s1) = stores (trace s)" by blast
  have "same_rx s s1" using same_rx_read_sector rd unfolding state_io_rel_def by (metis snd_conv)
  then have "rx_count t = 0" using t(1) by (simp add: same_rx_def)
  then show ?thesis using rd t
    by (intro exI [of _ t]) (auto simp: wdt_meta_read_def wdt_meta_set_defaults_def stored_meta_def Let_def)
qed

text \<open>Writing it.\<close>

lemma meta_write_stores:
  assumes "storing W s" "is_high_capacity s"
  shows "\<exists>t. snd (run_state wdt_meta_write s) = s\<lparr>wdt_meta := sealed (wdt_meta s), s_sector_buf := meta_sector (wdt_meta s), trace := t @ trace s\<rparr> \<and>
    card W (snd (run_state wdt_meta_write s)) = (card W s)(EMMC_SECTOR_METADATA := meta_sector (wdt_meta s)) \<and> rx_count t = 0"
proof -
  have "ready s" using assms(1) by (simp add: storing_def)
  from ready_meta_write [OF this] obtain s' where w: "run_state wdt_meta_write s = (E_OK, s')" by blast
  from wdt_meta_write_spec [OF w] assms(2) obtain t where
    t: "s' = s\<lparr>wdt_meta := sealed (wdt_meta s), s_sector_buf := meta_sector (wdt_meta s), trace := t @ trace s\<rparr>"
      "stores (trace s') = (CMD24, EMMC_SECTOR_METADATA, meta_sector (wdt_meta s)) # stores (trace s)"
    by (auto simp: card_arg_def)
  have "same_rx s s'" using same_rx_write w unfolding state_io_rel_def by (metis snd_conv)
  then have "rx_count t = 0" using t(1) by (simp add: same_rx_def)
  with w t show ?thesis by (intro exI [of _ t]) (simp add: card_def)
qed

lemma revalidate_stores:
  assumes "storing W s" "is_high_capacity s" "length (current_sector s) = 128" "\<And>a. length (card W s a) = 128"
  shows "\<exists>t ws. snd (run_state revalidate_slot s) = s\<lparr>trace := t @ trace s, current_sector := ws, boot_flags := (boot_flags s)\<lparr>fw_crc_ok :=
      if valid_image (card W s) (APP_SLOT_TO_SECTOR (active_app_slot (wdt_meta s))) then 1 else 0\<rparr>\<rparr> \<and>
    length ws = 128 \<and> stores (t @ trace s) = stores (trace s) \<and> rx_count t = 0"
proof -
  let ?sec = "APP_SLOT_TO_SECTOR (active_app_slot (wdt_meta s))"
  obtain r s1 where v: "run_state (boot_validate_app ?sec) s = (r, s1)" by (cases "run_state (boot_validate_app ?sec) s")
  have r: "r = (if valid_image (card W s) ?sec then E_OK else E_CORRUPTED)"
    using boot_validate_app_serves [OF storing_serves [OF assms(1)] assms(2,4,3), of ?sec] v by simp
  from looks_validate [OF v assms(3)] assms(3) obtain t ws where t: "s1 = s\<lparr>trace := t @ trace s, current_sector := ws\<rparr>" "length ws = 128"
    "stores (t @ trace s) = stores (trace s)" by (auto simp: looks_def)
  have "same_rx s s1" using same_rx_validate v unfolding state_io_rel_def by (metis snd_conv)
  then have "rx_count t = 0" using t(1) by (simp add: same_rx_def)
  then show ?thesis using v r t by (intro exI [of _ t] exI [of _ ws]) (simp add: revalidate_slot_def)
qed

definition after_checks :: "(u32 \<Rightarrow> u32 list) \<Rightarrow> WdtMeta \<Rightarrow> BootFlags \<Rightarrow> bool \<Rightarrow> BootFlags" where
  "after_checks C m f v = (if v then f\<lparr>fw_crc_ok := if valid_image C (APP_SLOT_TO_SECTOR (active_app_slot m)) then 1 else 0\<rparr> else f)"

lemma bootloader_init_spec:
  assumes "storing W s" "card W s = C" "is_high_capacity s" "running s" "length (s_sector_buf s) = 128" "length (current_sector s) = 128"
    "\<And>a. length (C a) = 128" "judged (stored_meta C) (boot_flags_init (boot_flags s)) = (m, f, v)"
  defines "s' \<equiv> snd (run_state bootloader_init s)"
  shows "wdt_meta s' = sealed m \<and> card W s' = C(EMMC_SECTOR_METADATA := meta_sector m) \<and> boot_flags s' = after_checks C m f v \<and>
    storing W s' \<and> is_high_capacity s' \<and> dev s' = dev s \<and> rx_count (trace s') = rx_count (trace s) \<and> length (current_sector s') = 128 \<and>
    dfu_current_sector s' = dfu_current_sector s \<and> overrun s' = overrun s"
proof -
  define s1 where "s1 = snd (run_state init_components s)"
  note I = init_components_spec [OF assms(3,4), folded s1_def, of W]
  have b1: "length (s_sector_buf s1) = 128" "length (card W s1 EMMC_SECTOR_METADATA) = 128" "storing W s1" "is_high_capacity s1"
    using I assms by simp_all
  from meta_read_stored [OF b1(3,4,1,2)] I assms(2) obtain t2 where
    t2: "snd (run_state wdt_meta_read s1) = s1\<lparr>trace := t2 @ trace s1, s_sector_buf := C EMMC_SECTOR_METADATA, wdt_meta := stored_meta C\<rparr>"
      "stores (t2 @ trace s1) = stores (trace s1)" "rx_count t2 = 0" by auto
  define s3 where "s3 = s1\<lparr>trace := t2 @ trace s1, s_sector_buf := C EMMC_SECTOR_METADATA, wdt_meta := m, boot_flags := f\<rparr>"
  have ck: "run_state check_metadata (snd (run_state wdt_meta_read s1)) = (v, s3)"
    using assms(8) I unfolding check_metadata_judged t2(1) s3_def by simp
  have b3: "storing W s3" "card W s3 = C" "is_high_capacity s3" "length (current_sector s3) = 128" "wdt_meta s3 = m" "boot_flags s3 = f"
    "dev s3 = dev s" "rx_count (trace s3) = rx_count (trace s)" "dfu_current_sector s3 = dfu_current_sector s" "overrun s3 = overrun s"
    using I assms(1-6) t2(2,3) storing_cong [of s3 s W] by (simp_all add: s3_def card_def)
  obtain t ws where t: "snd (run_state (if v then revalidate_slot else return ()) s3) = s3\<lparr>trace := t @ trace s3, current_sector := ws,
      boot_flags := after_checks C m f v\<rparr>" "length ws = 128" "stores (t @ trace s3) = stores (trace s3)" "rx_count t = 0"
  proof (cases v)
    case True
    with revalidate_stores [OF b3(1,3,4)] assms(7) b3 that show ?thesis by (auto simp: after_checks_def)
  next
    case False
    show ?thesis by (rule that [of "current_sector s3" "[]"]) (use False b3 in \<open>simp_all add: after_checks_def\<close>)
  qed
  define s4 where "s4 = s3\<lparr>trace := t @ trace s3, current_sector := ws, boot_flags := after_checks C m f v\<rparr>"
  have b4: "storing W s4" "card W s4 = C" "is_high_capacity s4" using b3 t storing_cong [of s4 s3 W] by (simp_all add: s4_def card_def)
  from meta_write_stores [OF b4(1,3)] b4(2) b3(5) obtain t5 where
    t5: "snd (run_state wdt_meta_write s4) = s4\<lparr>wdt_meta := sealed m, s_sector_buf := meta_sector m, trace := t5 @ trace s4\<rparr>"
      "card W (snd (run_state wdt_meta_write s4)) = C(EMMC_SECTOR_METADATA := meta_sector m)" "rx_count t5 = 0"
    by (auto simp: s4_def)
  have s': "s' = snd (run_state wdt_meta_write s4)"
    using ck t(1) by (simp add: s'_def bootloader_init_def s1_def s4_def split_def)
  have "storing W s'" using b4(1) storing_cong [of s' s4 W] unfolding s' t5(1) by simp
  then show ?thesis unfolding s' using t5(2) b3 t(2,4) t5(3) unfolding t5(1) by (simp add: s4_def)
qed

subsection \<open>Power cycles\<close>

text \<open>\<open>boots C0 n C s\<close>: the card held \<open>C0\<close>, then the board was reset \<open>n\<close> times without an update or a confirmation; each time RAM may have been lost
  or kept, and every device may behave differently. \<open>s\<close> is the state after the last initialisation and \<open>C\<close> what the card holds then.\<close>

inductive boots :: "(u32 \<Rightarrow> u32 list) \<Rightarrow> nat \<Rightarrow> (u32 \<Rightarrow> u32 list) \<Rightarrow> 'z dfu_scheme \<Rightarrow> bool" for C0 where
  off: "boots C0 0 C0 s"
| reset: "boots C0 n C s0 \<Longrightarrow> storing W s \<Longrightarrow> card W s = C \<Longrightarrow> is_high_capacity s \<Longrightarrow> running s \<Longrightarrow> length (s_sector_buf s) = 128 \<Longrightarrow>
    length (current_sector s) = 128 \<Longrightarrow> s' = snd (run_state bootloader_init s) \<Longrightarrow> boots C0 (Suc n) (card W s') s'"

text \<open>The reset tolerance does not trip during \<open>n\<close> resets: it is infinite, or large enough for the resets counted so far and \<open>n\<close> more.\<close>

definition tolerates :: "WdtMeta \<Rightarrow> nat \<Rightarrow> bool" where
  "tolerates m n \<longleftrightarrow> sint (wdt_reset_tolerance m) < 0 \<or>
     0 \<le> sint (wdt_reset_count m) \<and> sint (wdt_reset_count m) + int n \<le> sint (wdt_reset_tolerance m)"

lemma tolerates_mono: "tolerates m n \<Longrightarrow> n' \<le> n \<Longrightarrow> tolerates m n'"
  by (auto simp: tolerates_def)

lemma tolerates_count:
  assumes "tolerates m n" "0 \<le> sint (wdt_reset_tolerance m)"
  shows "sint (wdt_reset_count m + of_nat n) \<le> sint (wdt_reset_tolerance m)"
proof -
  have b: "0 \<le> sint (wdt_reset_count m)" "sint (wdt_reset_count m) + int n \<le> sint (wdt_reset_tolerance m)" using assms by (auto simp: tolerates_def)
  have "sint (wdt_reset_tolerance m) < 2 ^ 31" using sint_lt [of "wdt_reset_tolerance m"] by simp
  then have "signed_take_bit 31 (int n) = int n" using b by (intro signed_take_bit_int_eq_self) simp_all
  then have "sint (of_nat n :: u32) = int n" using sint_sbintrunc' [of "int n", where 'a = 32] by simp
  moreover have "signed_take_bit 31 (sint (wdt_reset_count m) + int n) = sint (wdt_reset_count m) + int n"
    using b \<open>sint (wdt_reset_tolerance m) < 2 ^ 31\<close> by (intro signed_take_bit_int_eq_self) simp_all
  ultimately show ?thesis using b by (simp add: sint_word_ariths)
qed

lemma stored_meta_sector: "C EMMC_SECTOR_METADATA = meta_sector m \<Longrightarrow> stored_meta C = sealed m"
  by (simp add: stored_meta_def meta_sector_def sealed_facts [symmetric] Let_def) (simp add: sealed_facts)

definition a_slot :: "u32 \<Rightarrow> bool" where
  "a_slot x \<longleftrightarrow> x = APP_SLOT_A \<or> x = APP_SLOT_B"

lemma other_other: "a_slot x \<Longrightarrow> APP_SLOT_OTHER (APP_SLOT_OTHER x) = x"
  by (auto simp: a_slot_def APP_SLOT_OTHER_def APP_SLOT_A_def APP_SLOT_B_def)

lemma sealed_sealed [simp]: "sealed (sealed m) = sealed m" "meta_sector (sealed m) = meta_sector m"
  by (simp_all add: sealed_def meta_sector_def wdt_meta_compute_crc_def meta_words_def)

subsection \<open>From reset to a running image\<close>

definition loads :: "'z boot_scheme \<Rightarrow> 'z boot_scheme \<Rightarrow> bool" where
  "loads s s' \<longleftrightarrow> stores (trace s') = stores (trace s) \<and> dev s' = dev s \<and> wdt_meta s' = wdt_meta s"

interpretation loads: io_rel loads
  by unfold_locales (simp_all add: loads_def)

lemma loads_reads: "state_io_rel reads_only m \<Longrightarrow> state_io_rel loads m"
proof -
  have "reads_only s s' \<Longrightarrow> loads s s'" for s s' :: "'a boot_scheme"
    by (cases s, cases s') (simp add: reads_only_def loads_def)
  then show "state_io_rel reads_only m \<Longrightarrow> state_io_rel loads m" unfolding state_io_rel_def by blast
qed

lemma loads_upd: "(\<And>s. trace (f s) = trace s \<and> dev (f s) = dev s \<and> wdt_meta (f s) = wdt_meta s) \<Longrightarrow> state_io_rel loads (upd f)"
  by (simp add: state_io_rel_def loads_def)

lemma loads_load: "state_io_rel loads (boot_load_app sector)"
  unfolding boot_load_app_def read_current_def cntpct_def Let_def split_def
  by (intro loads.io_rules loads_reads [OF ro_read_blocks] loads_reads [OF ro_rd] loads_upd; simp)

lemma load_active_spec:
  "\<exists>s'. run_state load_active s = (E_OK, s') \<and> loads s s'"
proof -
  have "fst (run_state load_active s) = E_OK" by (simp add: load_active_def boot_load_app_def split_def Let_def)
  moreover have "state_io_rel loads load_active" unfolding load_active_def by (intro loads.io_rules loads_load)
  then have "loads s (snd (run_state load_active s))" unfolding state_io_rel_def by blast
  ultimately show ?thesis by (metis prod.collapse)
qed

lemma jump_idle:
  assumes "host bs s"
  shows "\<exists>s'. boot_jump_to_app s = Some (Jumps APP_START_ADDR, s') \<and> talk 0 s s'"
proof -
  have "talk 0 s (s\<lparr>trace := Rd (UART0_BASE + FR) 0 # trace s\<rparr>)" by (rule talk_reg) simp_all
  then show ?thesis using host_spin [OF assms talk_refl, of FR_BUSY]
    by (auto simp: boot_jump_to_app_def uart_drain_def uart_channel_drain_def)
qed

text \<open>Once the session is over, the bootloader stores the metadata once more, loads the slot that is now active and jumps.\<close>

lemma boot_active_idle:
  assumes "idle_board W s"
  shows "\<exists>s'. boot_active True s = Some (Jumps APP_START_ADDR, s') \<and> wdt_meta s' = sealed ((wdt_meta s)\<lparr>wdt_reset_count := 0\<rparr>) \<and>
    card W s' = (card W s)(EMMC_SECTOR_METADATA := meta_sector ((wdt_meta s)\<lparr>wdt_reset_count := 0\<rparr>))"
proof -
  let ?s = "s\<lparr>wdt_meta := (wdt_meta s)\<lparr>wdt_reset_count := 0\<rparr>\<rparr>"
  have st: "storing W ?s" "is_high_capacity ?s" using assms by (simp_all add: idle_board_def storing_def ready_def)
  from meta_write_stores [OF st] obtain t where
    w: "snd (run_state wdt_meta_write ?s) = ?s\<lparr>wdt_meta := sealed (wdt_meta ?s), s_sector_buf := meta_sector (wdt_meta ?s), trace := t @ trace ?s\<rparr>"
      "card W (snd (run_state wdt_meta_write ?s)) = (card W s)(EMMC_SECTOR_METADATA := meta_sector (wdt_meta ?s))" by (auto simp: card_def)
  define s1 where "s1 = clear_resets s"
  have s1: "s1 = snd (run_state wdt_meta_write ?s)" by (simp add: s1_def clear_resets_def split_def)
  from load_active_spec [of s1] obtain s2 where s2: "run_state load_active s1 = (E_OK, s2)" "loads s1 s2" by blast
  have d: "dev s2 = dev s" using s2(2) unfolding loads_def s1 w(1) by simp
  from jump_idle [OF host_idle [OF _ d]] assms obtain s' where s': "boot_jump_to_app s2 = Some (Jumps APP_START_ADDR :: StatusCode outcome, s')" "talk 0 s2 s'"
    unfolding idle_board_def by blast
  have "boot_active True s = Some (Jumps APP_START_ADDR, s')" using s2(1) s'(1) by (simp add: boot_active_def s1_def)
  moreover have "wdt_meta s' = wdt_meta s1" "card W s' = card W s1"
    using s'(2) s2(2) talk_facts(1) [OF s'(2), of W] by (auto simp: talk_def loads_def card_def)
  ultimately show ?thesis using w unfolding s1 by simp
qed

lemma holds_image_cong:
  assumes "holds_image C B h img" "length img < 16383 * 512" "\<And>j. j < 16384 \<Longrightarrow> C' (at_sector B j) = C (at_sector B j)"
  shows "holds_image C' B h img"
proof -
  have "Suc j < 16384" if "j < (length img + 511) div 512" for j using that assms(2) by simp
  then show ?thesis using assms(1,3) at_sector_0 [of B] unfolding holds_image_def by (metis zero_less_numeral)
qed

definition wants_update :: "BootFlags \<Rightarrow> bool" where
  "wants_update f \<longleftrightarrow> dfu_requested f = DFU_REQUEST \<or> fw_crc_ok f = 0"

text \<open>What has been achieved when the app starts: \<open>m\<close> is the metadata before the session, \<open>C\<close> the card before it.\<close>

definition flashed :: "(u32 \<Rightarrow> u32 list) \<Rightarrow> WdtMeta \<Rightarrow> (u32 \<Rightarrow> u32 list) \<Rightarrow> nat \<Rightarrow> u8 list \<Rightarrow> 'z dfu_scheme \<Rightarrow> bool" where
  "flashed W m C len img s' \<longleftrightarrow> (let B = APP_SLOT_TO_SECTOR (APP_SLOT_OTHER (active_app_slot m)) in
     valid_image (card W s') B \<and> image_bytes (card W s') (B + 1) (of_nat len) = take len img \<and>
     wdt_meta s' = sealed ((on_trial m)\<lparr>wdt_reset_count := 0\<rparr>) \<and> card W s' EMMC_SECTOR_METADATA = meta_sector (wdt_meta s') \<and>
     (\<forall>a. in_slot (active_app_slot m) a \<longrightarrow> card W s' a = C a))"

lemma update_then_boot_flashed:
  assumes "host (update_stream len chunks) s" "storing W s" "is_high_capacity s" "length (dfu_current_sector s) = 512" "length (current_sector s) = 128"
    "length (pk_DATA p0) = 256" "\<And>a. length (card W s a) = 128" "list_all chunk_ok chunks" "0 < len" "len \<le> length (concat chunks)"
    "36 \<le> length (concat chunks)" "length (concat chunks) < 16383 * 512" "words_of (concat chunks) ! 8 = DFU_APP_MAGIC"
  shows "\<exists>s'. update_then_boot (p0, e0, c0) s = Some (Jumps APP_START_ADDR, s') \<and> flashed W (wdt_meta s) (card W s) len (concat chunks) s'"
proof -
  let ?img = "concat chunks" and ?m = "(on_trial (wdt_meta s))\<lparr>wdt_reset_count := 0\<rparr>"
  define B where "B = APP_SLOT_TO_SECTOR (APP_SLOT_OTHER (active_app_slot (wdt_meta s)))"
  from update_session [OF assms, folded B_def, of e0 c0] obtain s1 h where
    s1: "dfu_receive p0 e0 c0 s = Some (Returns E_OK, s1)" "installed W s len ?img s1" "idle_board W s1" "holds_image (card W s1) B h ?img"
      "start_packet h = \<lparr>version_num = 1, fw_length = of_nat len, sp_crc = crc32 (take len ?img)\<rparr>" by blast
  from boot_active_idle [OF s1(3)] obtain s' where
    s': "boot_active True s1 = Some (Jumps APP_START_ADDR, s')" "wdt_meta s' = sealed ((wdt_meta s1)\<lparr>wdt_reset_count := 0\<rparr>)"
      "card W s' = (card W s1)(EMMC_SECTOR_METADATA := meta_sector ((wdt_meta s1)\<lparr>wdt_reset_count := 0\<rparr>))" by blast
  have m: "sealed ((wdt_meta s1)\<lparr>wdt_reset_count := 0\<rparr>) = sealed ?m"
    using s1(2) by (simp add: installed_def Let_def sealed_def on_trial_def wdt_meta_compute_crc_def meta_words_def)
  have "holds_image (card W s') B h ?img"
    by (rule holds_image_cong [OF s1(4) assms(12)]) (use slot_sectors(2) in \<open>simp add: s'(3) B_def\<close>)
  then have "valid_image (card W s') B" "image_bytes (card W s') (B + 1) (of_nat len) = take len ?img"
    using valid_image_image [OF _ s1(5) assms(9,10)] image_bytes_image [OF _ assms(10)] assms(12) by simp_all
  moreover have "card W s' a = card W s a" if "in_slot (active_app_slot (wdt_meta s)) a" for a
    using s1(2) that other_slot(2) [OF that] by (simp add: s'(3) installed_def Let_def)
  moreover have "card W s' EMMC_SECTOR_METADATA = meta_sector (wdt_meta s')" unfolding s'(2) by (simp add: s'(3))
  ultimately have "flashed W (wdt_meta s) (card W s) len ?img s'"
    unfolding flashed_def Let_def B_def [symmetric] using s'(2) m by simp
  then show ?thesis using s1(1) s'(1) by (intro exI [of _ s']) (simp add: update_then_boot_def session_with_def)
qed

lemma flashed_from:
  assumes "flashed W (sealed m) C len img s'" "\<And>a. a \<noteq> EMMC_SECTOR_METADATA \<Longrightarrow> C a = C' a"
  shows "flashed W m C' len img s'"
proof -
  have "sealed ((on_trial (sealed m))\<lparr>wdt_reset_count := 0\<rparr>) = sealed ((on_trial m)\<lparr>wdt_reset_count := 0\<rparr>)"
    "active_app_slot (sealed m) = active_app_slot m"
    by (simp_all add: sealed_def on_trial_def wdt_meta_compute_crc_def meta_words_def)
  with assms other_slot(2) show ?thesis unfolding flashed_def Let_def by metis
qed

text \<open>Claim C25 (liveness). From reset to the new app: when the checks leave an update wanted, because the flags ask for it or the active slot does
  not validate, a host that sends the flashing script's stream makes \<open>kmain\<close> jump to the app; the slot that was not active then holds a valid
  image with exactly the bytes sent and is active, on trial, with the reset count cleared, on the card as in memory; the other slot is unchanged.\<close>

theorem kmain_flashes:
  assumes "host (update_stream len chunks) s" "storing W s" "is_high_capacity s" "running s" "length (s_sector_buf s) = 128"
    "length (current_sector s) = 128" "length (dfu_current_sector s) = 512" "j NUM_RETRIES = (p0, e0, c0)" "length (pk_DATA p0) = 256"
    "\<And>a. length (card W s a) = 128" "judged (stored_meta (card W s)) (boot_flags_init (boot_flags s)) = (m, f, v)"
    "wants_update (after_checks (card W s) m f v)" "list_all chunk_ok chunks" "0 < len" "len \<le> length (concat chunks)"
    "36 \<le> length (concat chunks)" "length (concat chunks) < 16383 * 512" "words_of (concat chunks) ! 8 = DFU_APP_MAGIC"
  shows "\<exists>s'. kmain j s = Some (Jumps APP_START_ADDR, s') \<and> flashed W m (card W s) len (concat chunks) s'"
proof -
  define s1 where "s1 = snd (run_state bootloader_init s)"
  note I = bootloader_init_spec [OF assms(2) refl assms(3-6,10,11), folded s1_def]
  have h: "host (update_stream len chunks) s1" using assms(1) I host_cong [of s1 s] by simp
  have len: "length (card W s1 a) = 128" for a using I assms(10) by simp
  from update_then_boot_flashed [OF h _ _ _ _ assms(9) len assms(13-18), of e0 c0] I assms(7) obtain s' where
    s': "update_then_boot (p0, e0, c0) s1 = Some (Jumps APP_START_ADDR, s')" "flashed W (wdt_meta s1) (card W s1) len (concat chunks) s'" by auto
  have "bootloader_execute (p0, e0, c0) s1 = update_then_boot (p0, e0, c0) s1"
    using assms(12) I by (auto simp: bootloader_execute_def wants_update_def)
  then have x: "bootloader_execute (j NUM_RETRIES) s1 = Some (Jumps APP_START_ADDR, s')" using s'(1) assms(8) by simp
  have n: "Suc 9 = NUM_RETRIES" by (simp add: NUM_RETRIES_def)
  have "retry_loop NUM_RETRIES j s1 = Some (Jumps APP_START_ADDR, s')"
    by (simp add: retry_loop.simps(2) [of 9 j s1, unfolded n] x)
  then have "kmain j s = Some (Jumps APP_START_ADDR, s')" by (simp add: kmain_def s1_def [symmetric])
  moreover have "flashed W m (card W s) len (concat chunks) s'"
    by (rule flashed_from [of _ _ "card W s1"]) (use s'(2) I in auto)
  ultimately show ?thesis by blast
qed

subsection \<open>Concrete boards\<close>

definition stage_dev :: "(u32 \<Rightarrow> u32 list) \<Rightarrow> u8 list \<Rightarrow> access list \<Rightarrow> u32 \<Rightarrow> u32" where
  "stage_dev W bs t a = (if a = CONTROL1 then CTRL1_CLK_EN OR CTRL1_CLK_STABLE else host_dev W bs t a)"

definition stage_board :: "(u32 \<Rightarrow> u32 list) \<Rightarrow> u8 list \<Rightarrow> dfu" where
  "stage_board W bs = (dfu_board W bs)\<lparr>dev := stage_dev W bs, s_emmc_initialized := False\<rparr>"

lemma stage_board_facts: "host bs (stage_board W bs)" "storing W (stage_board W bs)" "is_high_capacity (stage_board W bs)" "running (stage_board W bs)"
  "length (s_sector_buf (stage_board W bs)) = 128" "length (current_sector (stage_board W bs)) = 128"
  "length (dfu_current_sector (stage_board W bs)) = 512" "card W (stage_board W bs) = W"
  "boot_flags (stage_board W bs) = \<lparr>bf_magic = 0, reset_reason = 0, dfu_requested = 0, fw_crc_ok = 0\<rparr>"
proof -
  have d: "dev (stage_board W bs) = stage_dev W bs" "trace (stage_board W bs) = []" by (simp_all add: stage_board_def)
  have n: "UART0_BASE + FR \<noteq> INTERRUPT" "UART0_BASE + DR \<noteq> INTERRUPT" "DATA \<noteq> INTERRUPT" "STATUS \<noteq> INTERRUPT"
    "UART0_BASE + FR \<noteq> CONTROL1" "UART0_BASE + DR \<noteq> CONTROL1" "DATA \<noteq> CONTROL1" "STATUS \<noteq> CONTROL1" "INTERRUPT \<noteq> CONTROL1"
    by (simp_all add: reg_defs uart_defs)
  show "host bs (stage_board W bs)" using n by (simp add: host_def d stage_dev_def host_dev_def)
  show "storing W (stage_board W bs)" using n by (auto simp: storing_def ready_def d stage_dev_def host_dev_def)
  show "card W (stage_board W bs) = W" by (simp add: card_def d stores_def)
  show "running (stage_board W bs)" by (simp add: running_def d stage_dev_def)
qed (simp_all add: stage_board_def dfu_board_def boot.defs boot_board_def board_def watchdog.defs)

text \<open>Any number of resets is possible.\<close>

lemma boots_possible:
  assumes "\<And>a. length (C0 a) = 128"
  shows "\<exists>C (s :: dfu). boots C0 n C s \<and> (\<forall>a. length (C a) = 128)"
proof (induction n)
  case 0
  show ?case using boots.off assms by blast
next
  case (Suc n)
  then obtain C and s0 :: dfu where c: "boots C0 n C s0" "\<And>a. length (C a) = 128" by blast
  let ?s = "stage_board C []"
  obtain m f v where j: "judged (stored_meta C) (boot_flags_init (boot_flags ?s)) = (m, f, v)" by (metis prod.exhaust)
  note S = bootloader_init_spec [OF stage_board_facts(2,8,3-6) c(2) j]
  have "boots C0 (Suc n) (card C (snd (run_state bootloader_init ?s))) (snd (run_state bootloader_init ?s))"
    by (rule boots.reset [OF c(1) stage_board_facts(2,8,3-6) refl])
  then show ?case using S c(2) by (intro exI conjI) auto
qed

theorem kmain_flashes_witness:
  "\<exists>s'. kmain (\<lambda>_. (zero_packet, 0, crc32_start)) (stage_board (\<lambda>_. replicate 128 0) (update_stream 34 [demo_image])) = Some (Jumps APP_START_ADDR, s') \<and>
     active_app_slot (wdt_meta s') = APP_SLOT_B"
proof -
  let ?W = "\<lambda>_. replicate 128 0 :: u32 list"
  let ?s = "stage_board ?W (update_stream 34 [demo_image])"
  have l: "length demo_image = 36" by (simp add: demo_image_def)
  have mk: "words_of demo_image ! 8 = DFU_APP_MAGIC"
    by (simp add: words_of_nth l) (simp add: demo_image_def nth_append word_bytes_def le32_word_bytes)
  have m: "stored_meta ?W = default_meta"
    by (simp add: stored_meta_def meta_of_def WDT_META_MAGIC_def Let_def)
  obtain f v where j: "judged (stored_meta ?W) (boot_flags_init (boot_flags ?s)) = (default_meta\<lparr>wdt_reset_count := 1\<rparr>, f, v)" "v"
    unfolding m stage_board_facts(9)
    by (simp add: judged_def trial_resolution_def tolerance_policy_def default_meta_def WATCHDOG_RESET_TOLERANCE_INFINITE_def boot_flags_init_def
        boot_flags_valid_def BOOT_FLAGS_MAGIC_def RESET_REASON_COLD_def)
  have "\<not> valid_image ?W sec" for sec by (simp add: valid_image_def start_packet_def)
  then have w: "wants_update (after_checks ?W (default_meta\<lparr>wdt_reset_count := 1\<rparr>) f v)" using j(2) by (simp add: after_checks_def wants_update_def)
  from kmain_flashes [of 34 "[demo_image]" ?s ?W "\<lambda>_. (zero_packet, 0, crc32_start)" zero_packet 0 crc32_start] stage_board_facts j(1) w l mk
  obtain s' where s': "kmain (\<lambda>_. (zero_packet, 0, crc32_start)) ?s = Some (Jumps APP_START_ADDR, s')"
    "flashed ?W (default_meta\<lparr>wdt_reset_count := 1\<rparr>) ?W 34 demo_image s'" by (auto simp: chunk_ok_def)
  then have "active_app_slot (wdt_meta s') = APP_SLOT_B"
    by (simp add: flashed_def Let_def sealed_def on_trial_def default_meta_def APP_SLOT_OTHER_def APP_SLOT_A_def APP_SLOT_B_def)
  with s' show ?thesis by blast
qed

end
