(* ===== verification/Bootstrap.thy ===== *)
theory Bootstrap
  imports Bootloader_Props
begin

unbundle bit_operations_syntax

text \<open>
  \<^verbatim>\<open>samples/boot/bootstrap/main.c\<close> and \<^verbatim>\<open>samples/boot/wiper/main.c\<close>: the first boot stage, which loads the bootloader into RAM, checks it and jumps to it,
  and its variant that first erases what the bootloader would boot. An endless loop on an error is the outcome \<open>Hangs\<close>. The header buffer on the
  stack is a parameter, as C leaves it uninitialised. The registers and RAM are those of \<^verbatim>\<open>Boot\<close>. The linker scripts keep this stage below the load
  address and the bootloader below the boot flags at \<^verbatim>\<open>0x88000\<close>, but the code does not check the length in the header: a larger one takes the load, or the
  checksum, over the flags, whatever else is in RAM and in the end the device registers and this stage itself. What the machine does from there on is a parameter,
  \<open>wild\<close>, about which nothing is assumed.
\<close>

definition bootstrap_uart_config :: UartConfig where
  "bootstrap_uart_config = \<lparr>tx_pin = 14, rx_pin = 15, alt_func = GPIO_FUNC_ALT0, baudrate = UART_BAUDRATE_115200, uart_mode = UART_MODE_BLOCKING,
     is_dma_enabled = False, dma_channel = 0, task_stack_words = 0, task_priority = 0\<rparr>"

definition BOOTLOADER_LOAD_ADDR :: u32 where "BOOTLOADER_LOAD_ADDR = 0x10000"
definition BOOT_FLAGS_START_ADDR :: u32 where "BOOT_FLAGS_START_ADDR = 0x88000"

text \<open>The bytes of RAM from an address on.\<close>

definition ram_bytes :: "u32 \<Rightarrow> nat \<Rightarrow> (u32 \<Rightarrow> u32) \<Rightarrow> u8 list" where
  "ram_bytes a n m = take n (bytes_of (load_words a ((n + 3) div 4) m))"

definition read_to_ram :: "u32 \<Rightarrow> u32 \<Rightarrow> u32 \<Rightarrow> ('z boot_scheme, StatusCode) state" where
  "read_to_ram sector addr count = do {
     mem \<leftarrow> gets (\<lambda>s. load_words addr (unat count * 128) (ram s));
     (r, mem) \<leftarrow> emmc_read_blocks sector addr mem count;
     upd (\<lambda>s. s\<lparr>ram := store_words addr mem (ram s)\<rparr>);
     return r }"

text \<open>The load and the checksum stay between the load address and the boot flags.\<close>

definition load_fits :: "u32 \<Rightarrow> bool" where
  "load_fits len \<longleftrightarrow> unat (BYTES_TO_SECTORS len) * 512 \<le> unat (BOOT_FLAGS_START_ADDR - BOOTLOADER_LOAD_ADDR) \<and>
     unat len \<le> unat (BOOT_FLAGS_START_ADDR - BOOTLOADER_LOAD_ADDR)"

text \<open>The part the two stages share, up to the comparison of the checksums: \<open>Stuck\<close> stands for one of the endless loops, \<open>Strays\<close> for a load that does not fit.\<close>

datatype load_result = Stuck | Strays | Checked StartPacket

definition load_bootloader :: "u32 list \<Rightarrow> ('z boot_scheme, load_result) state" where
  "load_bootloader header0 = do {
     (r, header_buf) \<leftarrow> emmc_read_blocks EMMC_SECTOR_BOOTLOADER 0 header0 1;
     if r \<noteq> E_OK then return Stuck
     else do {
       let hdr = start_packet header_buf;
       if fw_length hdr = 0 then return Stuck
       else if \<not> load_fits (fw_length hdr) then return Strays
       else do {
         r \<leftarrow> read_to_ram (EMMC_SECTOR_BOOTLOADER + 1) BOOTLOADER_LOAD_ADDR (BYTES_TO_SECTORS (fw_length hdr));
         if r \<noteq> E_OK then return Stuck
         else do {
           m \<leftarrow> gets ram;
           let actual_crc = crc32_finish (crc32_update (ram_bytes BOOTLOADER_LOAD_ADDR (unat (fw_length hdr)) m) crc32_start);
           return (if actual_crc \<noteq> sp_crc hdr then Stuck else Checked hdr) } } } }"

definition jump_to_bootloader ::
    "('z boot_scheme \<Rightarrow> (unit outcome \<times> 'z boot_scheme) option) \<Rightarrow> load_result \<Rightarrow> 'z boot_scheme \<Rightarrow> (unit outcome \<times> 'z boot_scheme) option" where
  "jump_to_bootloader wild res s = (case res of
     Stuck \<Rightarrow> Some (Hangs, s)
   | Strays \<Rightarrow> wild s
   | Checked _ \<Rightarrow> do { s \<leftarrow> uart_drain s; Some (Jumps BOOTLOADER_LOAD_ADDR, s) })"

definition bootstrap_kmain ::
    "('z boot_scheme \<Rightarrow> (unit outcome \<times> 'z boot_scheme) option) \<Rightarrow> u32 list \<Rightarrow> 'z boot_scheme \<Rightarrow> (unit outcome \<times> 'z boot_scheme) option" where
  "bootstrap_kmain wild header0 s = (case run_state (do {
       _ \<leftarrow> uart_init (Some bootstrap_uart_config);
       ret \<leftarrow> emmc_init;
       if ret \<noteq> E_OK then return Stuck else load_bootloader header0 }) s of
     (res, s) \<Rightarrow> jump_to_bootloader wild res s)"

subsection \<open>The wiper\<close>

definition wipe_sectors :: "u32 list" where
  "wipe_sectors = [EMMC_SECTOR_APP_A, EMMC_SECTOR_APP_B, EMMC_SECTOR_METADATA]"

definition wipe :: "('z boot_scheme, StatusCode) state" where
  "wipe = each (\<lambda>sector. emmc_write_blocks sector 0 (replicate (unat (SECTOR_SIZE div 4)) 0) 1) wipe_sectors"

text \<open>The 64 words from the start of the flags; the flags are the first four of them.\<close>

definition clear_flags :: "('z boot_scheme, unit) state" where
  "clear_flags = upd (\<lambda>s. s\<lparr>ram := store_words BOOT_FLAGS_START_ADDR (replicate 64 0) (ram s),
     boot_flags := \<lparr>bf_magic = 0, reset_reason = 0, dfu_requested = 0, fw_crc_ok = 0\<rparr>\<rparr>)"

definition wiper_kmain ::
    "('z boot_scheme \<Rightarrow> (unit outcome \<times> 'z boot_scheme) option) \<Rightarrow> u32 list \<Rightarrow> 'z boot_scheme \<Rightarrow> (unit outcome \<times> 'z boot_scheme) option" where
  "wiper_kmain wild header0 s = (case run_state (do {
       _ \<leftarrow> uart_init (Some bootstrap_uart_config);
       ret \<leftarrow> emmc_init;
       if ret \<noteq> E_OK then return Stuck
       else do {
         ret \<leftarrow> wipe;
         if ret \<noteq> E_OK then return Stuck
         else do { clear_flags; load_bootloader header0 } } }) s of
     (res, s) \<Rightarrow> jump_to_bootloader wild res s)"

subsection \<open>What a jump to the bootloader means\<close>

text \<open>\<open>later s s'\<close>: further accesses to the same devices, none of them a store.\<close>

definition later :: "'z machine_scheme \<Rightarrow> 'z machine_scheme \<Rightarrow> bool" where
  "later s s' \<longleftrightarrow> dev s' = dev s \<and> (\<exists>t. trace s' = t @ trace s) \<and> stores (trace s') = stores (trace s)"

interpretation later: io_rel later
  by unfold_locales (auto simp: later_def)

lemma later_reads: "state_io_rel reads_only m \<Longrightarrow> state_io_rel later m"
  by (auto simp: state_io_rel_def reads_only_def later_def)

lemma later_run: "state_io_rel later m \<Longrightarrow> run_state m s = (x, s') \<Longrightarrow> later s s'"
  unfolding state_io_rel_def by (metis snd_conv)

lemma later_upd: "(\<And>s. trace (f s) = trace s \<and> dev (f s) = dev s) \<Longrightarrow> state_io_rel later (upd f)"
  by (simp add: state_io_rel_def later_def)

lemma later_read_to_ram: "state_io_rel later (read_to_ram sector addr count)"
  unfolding read_to_ram_def split_def by (intro later.io_rules later_reads [OF ro_read_blocks] later_upd; simp)

text \<open>\<open>header_read h0 s hdr s'\<close>: between the two states the header was read, successfully, from the bootloader's first sector, and after it nothing was stored.\<close>

definition header_read :: "u32 list \<Rightarrow> 'z boot_scheme \<Rightarrow> StartPacket \<Rightarrow> 'z boot_scheme \<Rightarrow> bool" where
  "header_read h0 s hdr s' \<longleftrightarrow> (\<exists>s1 ws s2. later s s1 \<and> run_state (emmc_read_blocks EMMC_SECTOR_BOOTLOADER 0 h0 1) s1 = ((E_OK, ws), s2) \<and>
     hdr = start_packet ws \<and> later s2 s')"

lemma load_bootloader_spec:
  assumes "run_state (load_bootloader h0) s = (res, s')"
  shows "case res of Stuck \<Rightarrow> True
    | Strays \<Rightarrow> \<exists>hdr. header_read h0 s hdr s' \<and> \<not> load_fits (fw_length hdr)
    | Checked hdr \<Rightarrow> header_read h0 s hdr s' \<and> fw_length hdr \<noteq> 0 \<and> load_fits (fw_length hdr) \<and>
        crc32 (ram_bytes BOOTLOADER_LOAD_ADDR (unat (fw_length hdr)) (ram s')) = sp_crc hdr"
proof -
  obtain r ws s2 where rd: "run_state (emmc_read_blocks EMMC_SECTOR_BOOTLOADER 0 h0 1) s = ((r, ws), s2)" by (metis prod.exhaust)
  define h where "h = start_packet ws"
  obtain r3 s3 where ld: "run_state (read_to_ram (EMMC_SECTOR_BOOTLOADER + 1) BOOTLOADER_LOAD_ADDR (BYTES_TO_SECTORS (fw_length h))) s2 = (r3, s3)"
    by (metis prod.exhaust)
  have l: "later s2 s3" by (rule later_run [OF later_read_to_ram ld])
  have hr: "header_read h0 s h t" if "later s2 t" "r = E_OK" for t
    unfolding header_read_def using rd that later.R_refl [of s] h_def by blast
  show ?thesis
    using assms rd ld hr [OF l] hr [OF later.R_refl] unfolding load_bootloader_def
    by (auto simp: Let_def h_def [symmetric] crc32_def split: if_splits load_result.splits)
qed

lemma later_uart: "state_io_rel later (uart_init (Some bootstrap_uart_config) :: ('z emmc_scheme, StatusCode) state)"
proof -
  have "bootstrap_uart_config = uart_config" by (simp add: bootstrap_uart_config_def uart_config_def)
  then show ?thesis using probing_uart by (auto simp: state_io_rel_def probing_def reads_only_def later_def)
qed

lemma later_drain:
  fixes s :: "'z dfu_scheme"
  shows "uart_drain s = Some s' \<Longrightarrow> later s s' \<and> ram s' = ram s"
  using hears_spin [of "UART0_BASE + FR" FR_BUSY s s']
  by (auto simp: uart_drain_def uart_channel_drain_def hears_def later_def stores_def)

lemma header_read_mono: "later s0 s \<Longrightarrow> header_read h0 s hdr s' \<Longrightarrow> later s' s'' \<Longrightarrow> header_read h0 s0 hdr s''"
  unfolding header_read_def using later.R_trans by blast

text \<open>\<open>verified h0 s out s'\<close>: a jump is to the bootloader, whose header was read and whose bytes in RAM have the header's checksum.\<close>

definition verified :: "u32 list \<Rightarrow> 'z boot_scheme \<Rightarrow> unit outcome \<Rightarrow> 'z boot_scheme \<Rightarrow> bool" where
  "verified h0 s out s' \<longleftrightarrow> out = Hangs \<or> out = Jumps BOOTLOADER_LOAD_ADDR \<and> (\<exists>hdr. header_read h0 s hdr s' \<and> fw_length hdr \<noteq> 0 \<and>
     load_fits (fw_length hdr) \<and> crc32 (ram_bytes BOOTLOADER_LOAD_ADDR (unat (fw_length hdr)) (ram s')) = sp_crc hdr)"

text \<open>\<open>strayed wild h0 s out s'\<close>: the header that was read has a length that does not fit, and the rest is up to \<open>wild\<close>.\<close>

definition strayed :: "('z boot_scheme \<Rightarrow> (unit outcome \<times> 'z boot_scheme) option) \<Rightarrow> u32 list \<Rightarrow> 'z boot_scheme \<Rightarrow> unit outcome \<Rightarrow> 'z boot_scheme \<Rightarrow> bool" where
  "strayed wild h0 s out s' \<longleftrightarrow> (\<exists>hdr s2. header_read h0 s hdr s2 \<and> \<not> load_fits (fw_length hdr) \<and> wild s2 = Some (out, s'))"

lemma verified_jump:
  fixes s :: "'z dfu_scheme"
  assumes "later s s1" "later s s2" "res \<noteq> Stuck \<Longrightarrow> run_state (load_bootloader h0) s1 = (res, s2)" "jump_to_bootloader wild res s2 = Some (out, s')"
  shows "later s s' \<and> verified h0 s out s' \<or> strayed wild h0 s out s'"
proof (cases res)
  case Stuck
  then show ?thesis using assms(2,4) by (simp add: jump_to_bootloader_def verified_def)
next
  case Strays
  with assms(3) load_bootloader_spec [of h0 s1 res s2] obtain hdr where h: "header_read h0 s1 hdr s2" "\<not> load_fits (fw_length hdr)" by auto
  have "header_read h0 s hdr s2" by (rule header_read_mono [OF assms(1) h(1) later.R_refl])
  moreover have "wild s2 = Some (out, s')" using assms(4) Strays by (simp add: jump_to_bootloader_def)
  ultimately show ?thesis using h(2) unfolding strayed_def by blast
next
  case (Checked h)
  with assms(3) load_bootloader_spec [of h0 s1 res s2] have l: "header_read h0 s1 h s2" "fw_length h \<noteq> 0" "load_fits (fw_length h)"
    "crc32 (ram_bytes BOOTLOADER_LOAD_ADDR (unat (fw_length h)) (ram s2)) = sp_crc h" by simp_all
  have j: "uart_drain s2 = Some s'" "out = Jumps BOOTLOADER_LOAD_ADDR"
    using assms(4) Checked by (auto simp: jump_to_bootloader_def bind_eq_Some_conv)
  note d = later_drain [OF j(1)]
  then show ?thesis using later.R_trans [OF assms(2)] header_read_mono [OF assms(1) l(1)] l j(2) unfolding verified_def by auto
qed

lemma later_load: "state_io_rel later (load_bootloader h0)"
  unfolding load_bootloader_def split_def Let_def
  by (intro later.io_rules later_reads [OF ro_read_blocks] later_read_to_ram)

lemma bootstrap_jump:
  fixes s :: "'z dfu_scheme"
  assumes "bootstrap_kmain wild h0 s = Some (out, s')"
  shows "later s s' \<and> verified h0 s out s' \<or> strayed wild h0 s out s'"
proof -
  obtain r1 s1 where u: "run_state (uart_init (Some bootstrap_uart_config)) s = (r1, s1)" by (metis prod.exhaust)
  obtain ret s2 where e: "run_state emmc_init s1 = (ret, s2)" by (metis prod.exhaust)
  obtain res s3 where l: "run_state (load_bootloader h0) s2 = (res, s3)" by (metis prod.exhaust)
  have l2: "later s s2" using later.R_trans [OF later_run [OF later_uart u] later_run [OF later_reads [OF ro_init] e]] .
  show ?thesis
  proof (cases "ret = E_OK")
    case True
    then have j: "jump_to_bootloader wild res s3 = Some (out, s')" using assms u e l by (simp add: bootstrap_kmain_def)
    have "later s s3" by (rule later.R_trans [OF l2 later_run [OF later_load l]])
    then show ?thesis using verified_jump [OF l2 _ _ j] l by blast
  next
    case False
    then have j: "jump_to_bootloader wild Stuck s2 = Some (out, s')" using assms u e by (simp add: bootstrap_kmain_def)
    then show ?thesis using l2 by (simp add: jump_to_bootloader_def verified_def)
  qed
qed

text \<open>Claim C26 (safety). However the card, the controller and the line behave, the first stage, if it ends, has read a header whose length does not fit between
  the load address and the boot flags, about which nothing is said; or it has stored nothing and ends in an endless loop or in a jump to the start of the
  bootloader; and it jumps only after a successful read of the header sector, when the header has a length that fits and the CRC-32 of
  exactly that many bytes now in RAM at the bootloader's address is the one in the header.\<close>

theorem bootstrap_verified_jump:
  fixes s :: "'z dfu_scheme"
  assumes "bootstrap_kmain wild h0 s = Some (out, s')"
  shows "strayed wild h0 s out s' \<or> stores (trace s') = stores (trace s) \<and> verified h0 s out s'"
  using bootstrap_jump [OF assms] by (auto simp: later_def)

subsection \<open>What the wiper erases\<close>

text \<open>On a card that keeps what is stored, the two header sectors and the metadata are zero afterwards, whatever was there, and nothing else changed.\<close>

definition wiped :: "(u32 \<Rightarrow> u32 list) \<Rightarrow> u32 \<Rightarrow> u32 list" where
  "wiped C = C(EMMC_SECTOR_APP_A := replicate 128 0, EMMC_SECTOR_APP_B := replicate 128 0, EMMC_SECTOR_METADATA := replicate 128 0)"

lemma zero_sector:
  assumes "storing W s" "is_high_capacity s" "EMMC_FIRMWARE_FLOOR \<le> sector"
  shows "\<exists>t. run_state (emmc_write_blocks sector 0 (replicate 128 0) 1) s = (E_OK, s\<lparr>trace := t @ trace s\<rparr>) \<and>
    card W (s\<lparr>trace := t @ trace s\<rparr>) = (card W s)(sector := replicate 128 0) \<and> storing W (s\<lparr>trace := t @ trace s\<rparr>)"
proof -
  let ?w = "emmc_write_blocks sector 0 (replicate 128 0) 1"
  obtain r s' where w: "run_state ?w s = (r, s')" by (cases "run_state ?w s")
  have r: "r = E_OK" using ready_write_blocks [of s sector 1 0 "replicate 128 0"] w assms(1,3) by (simp add: storing_def)
  from write_sector [OF w] r assms(2) obtain t where t: "s' = s\<lparr>trace := t @ trace s\<rparr>"
    "stores (trace s') = (CMD24, sector, replicate 128 0) # stores (trace s)" by (auto simp: card_arg_def)
  then show ?thesis using w r assms(1) storing_cong [of s' s W] by (intro exI [of _ t]) (simp add: card_def)
qed

lemma wipe_wipes:
  assumes "storing W s" "is_high_capacity s"
  shows "\<exists>t. run_state wipe s = (E_OK, s\<lparr>trace := t @ trace s\<rparr>) \<and> card W (s\<lparr>trace := t @ trace s\<rparr>) = wiped (card W s)"
proof -
  have fl: "EMMC_FIRMWARE_FLOOR \<le> EMMC_SECTOR_APP_A" "EMMC_FIRMWARE_FLOOR \<le> EMMC_SECTOR_APP_B" "EMMC_FIRMWARE_FLOOR \<le> EMMC_SECTOR_METADATA"
    by (simp_all add: layout_defs)
  from zero_sector [OF assms fl(1)] obtain t1 where 1: "run_state (emmc_write_blocks EMMC_SECTOR_APP_A 0 (replicate 128 0) 1) s = (E_OK, s\<lparr>trace := t1 @ trace s\<rparr>)"
    "card W (s\<lparr>trace := t1 @ trace s\<rparr>) = (card W s)(EMMC_SECTOR_APP_A := replicate 128 0)" "storing W (s\<lparr>trace := t1 @ trace s\<rparr>)" by blast
  from zero_sector [OF 1(3) _ fl(2)] assms(2) obtain t2 where 2: "run_state (emmc_write_blocks EMMC_SECTOR_APP_B 0 (replicate 128 0) 1) (s\<lparr>trace := t1 @ trace s\<rparr>) =
      (E_OK, s\<lparr>trace := t2 @ t1 @ trace s\<rparr>)"
    "card W (s\<lparr>trace := t2 @ t1 @ trace s\<rparr>) = (card W s)(EMMC_SECTOR_APP_A := replicate 128 0, EMMC_SECTOR_APP_B := replicate 128 0)"
    "storing W (s\<lparr>trace := t2 @ t1 @ trace s\<rparr>)" unfolding 1(2) by auto
  from zero_sector [OF 2(3) _ fl(3)] assms(2) obtain t3 where 3: "run_state (emmc_write_blocks EMMC_SECTOR_METADATA 0 (replicate 128 0) 1) (s\<lparr>trace := t2 @ t1 @ trace s\<rparr>) =
      (E_OK, s\<lparr>trace := t3 @ t2 @ t1 @ trace s\<rparr>)"
    "card W (s\<lparr>trace := t3 @ t2 @ t1 @ trace s\<rparr>) = wiped (card W s)" unfolding 2(2) wiped_def by auto
  show ?thesis using 1(1) 2(1) 3
    by (intro exI [of _ "t3 @ t2 @ t1"]) (simp add: wipe_def wipe_sectors_def SECTOR_SIZE_def)
qed

text \<open>What the bootloader makes of a wiped card after the flags are cleared: it asks for an update, and slot A is the active one.\<close>

lemma wiped_wants_update:
  assumes "bf_magic f = 0" "judged (stored_meta (wiped C)) (boot_flags_init f) = (m, f2, v)"
  shows "wants_update (after_checks (wiped C) m f2 v) \<and> active_app_slot m = APP_SLOT_A"
proof -
  have "wiped C EMMC_SECTOR_METADATA = replicate 128 0" by (simp add: wiped_def)
  then have m: "stored_meta (wiped C) = default_meta" by (simp add: stored_meta_def meta_of_def WDT_META_MAGIC_def Let_def)
  have j: "m = default_meta\<lparr>wdt_reset_count := 1\<rparr>" "v"
    using assms unfolding m
    by (auto simp: judged_def trial_resolution_def tolerance_policy_def default_meta_def WATCHDOG_RESET_TOLERANCE_INFINITE_def boot_flags_init_def
        boot_flags_valid_def BOOT_FLAGS_MAGIC_def RESET_REASON_COLD_def)
  have a: "active_app_slot m = APP_SLOT_A" by (simp add: j default_meta_def)
  have "wiped C (APP_SLOT_TO_SECTOR APP_SLOT_A) = replicate 128 0" by (simp add: wiped_def layout_defs APP_SLOT_TO_SECTOR_def APP_SLOT_A_def APP_SLOT_B_def)
  then have "\<not> valid_image (wiped C) (APP_SLOT_TO_SECTOR (active_app_slot m))" by (simp add: valid_image_def start_packet_def a)
  then show ?thesis using j(2) a by (simp add: after_checks_def wants_update_def)
qed

subsection \<open>A board with a bootloader of four bytes\<close>

definition loader_card :: "u32 \<Rightarrow> u32 list" where
  "loader_card a = (if a = EMMC_SECTOR_BOOTLOADER then [1, 4, crc32 (replicate 4 0)] @ replicate 125 0 else replicate 128 0)"

lemma store_zeros: "store_words a (replicate n 0) (\<lambda>_. 0) = (\<lambda>_. 0)"
  by (induction n arbitrary: a) (simp_all add: fun_upd_idem)

lemma running_init: "running s \<Longrightarrow> fst (run_state emmc_init s) = E_OK"
  by (auto simp: emmc_init_def emmc_already_running_def running_def split_def)

lemma probing_ram: "probing s s' \<Longrightarrow> ram s' = ram s" for s :: "'z boot_scheme"
  by (cases s, cases s') (simp add: probing_def reads_only_def)

lemma read_stored:
  assumes "storing W s" "is_high_capacity s" "length (card W s sector) = 128" "length buf = 128"
  shows "\<exists>t. run_state (emmc_read_blocks sector addr buf 1) s = ((E_OK, card W s sector), s\<lparr>trace := t @ trace s\<rparr>) \<and>
    storing W (s\<lparr>trace := t @ trace s\<rparr>) \<and> card W (s\<lparr>trace := t @ trace s\<rparr>) = card W s"
proof -
  have "card_arg s sector = sector" using assms(2) by (simp add: card_arg_def)
  with serves_read_sector [OF storing_serves [OF assms(1)], of sector buf addr] assms(3,4) obtain s' where
    r: "run_state (emmc_read_blocks sector addr buf 1) s = ((E_OK, card W s sector), s')" by auto
  from read_sector [OF r assms(4)] obtain t where t: "s' = s\<lparr>trace := t @ trace s\<rparr>" "stores (trace s') = stores (trace s)" by blast
  then show ?thesis using r assms(1) storing_cong [of s' s W] by (intro exI [of _ t]) (simp add: card_def)
qed

lemma zero_bytes: "ram_bytes a 4 (\<lambda>_. 0) = replicate 4 0"
proof -
  have "word_bytes 0 = replicate 4 0" by (simp add: word_bytes_def numeral_eq_Suc)
  then show ?thesis by (simp add: ram_bytes_def load_words_def bytes_of_def)
qed

theorem bootstrap_verified_jump_witness:
  "\<exists>s'. bootstrap_kmain (\<lambda>_. None) (replicate 128 0) (stage_board loader_card []) = Some (Jumps BOOTLOADER_LOAD_ADDR, s') \<and> stores (trace s') = [] \<and>
     verified (replicate 128 0) (stage_board loader_card []) (Jumps BOOTLOADER_LOAD_ADDR) s'"
proof -
  let ?s = "stage_board loader_card []" and ?h = "\<lparr>version_num = 1, fw_length = 4, sp_crc = crc32 (replicate 4 0)\<rparr>"
  let ?z = "replicate 128 0 :: u32 list"
  have bc: "bootstrap_uart_config = uart_config" by (simp add: bootstrap_uart_config_def uart_config_def)
  obtain r1 s1 where u: "run_state (uart_init (Some bootstrap_uart_config)) ?s = (r1, s1)" by (metis prod.exhaust)
  have p1: "probing ?s s1" using probing_uart u unfolding bc state_io_rel_def by (metis snd_conv)
  have run1: "running s1" using stage_board_facts(4) [of loader_card "[]"] probing_dfu(6) [OF p1] by (simp add: running_def)
  obtain ret s2 where e: "run_state emmc_init s1 = (ret, s2)" by (metis prod.exhaust)
  have ret: "ret = E_OK" using running_init [OF run1] e by simp
  have p2: "probing ?s s2" using probing.R_trans [OF p1] probing_init [OF run1] e by simp
  have r0: "ram ?s = (\<lambda>_. 0)" by (simp add: stage_board_def dfu_board_def boot.defs boot_board_def watchdog.defs board_def)
  have c2: "storing loader_card s2" "is_high_capacity s2" "card loader_card s2 = loader_card" "ram s2 = (\<lambda>_. 0)" "dev s2 = dev ?s"
    using probing_dfu [OF p2] probing_ram [OF p2] stage_board_facts(2-4,8) [of loader_card "[]"] r0 by simp_all
  have l: "loader_card EMMC_SECTOR_BOOTLOADER = [1, 4, crc32 (replicate 4 0)] @ replicate 125 0" "loader_card (EMMC_SECTOR_BOOTLOADER + 1) = ?z"
    by (simp_all add: loader_card_def layout_defs)
  from read_stored [OF c2(1,2), of EMMC_SECTOR_BOOTLOADER ?z 0] c2(3) l(1) obtain t3 where
    r3: "run_state (emmc_read_blocks EMMC_SECTOR_BOOTLOADER 0 ?z 1) s2 = ((E_OK, [1, 4, crc32 (replicate 4 0)] @ replicate 125 0), s2\<lparr>trace := t3 @ trace s2\<rparr>)"
      "storing loader_card (s2\<lparr>trace := t3 @ trace s2\<rparr>)" "card loader_card (s2\<lparr>trace := t3 @ trace s2\<rparr>) = loader_card" by auto
  let ?s3 = "s2\<lparr>trace := t3 @ trace s2\<rparr>"
  from read_stored [OF r3(2), of "EMMC_SECTOR_BOOTLOADER + 1" "load_words BOOTLOADER_LOAD_ADDR 128 (\<lambda>_. 0)" BOOTLOADER_LOAD_ADDR] c2(2) r3(3) l(2)
  obtain t4 where r4: "run_state (emmc_read_blocks (EMMC_SECTOR_BOOTLOADER + 1) BOOTLOADER_LOAD_ADDR (load_words BOOTLOADER_LOAD_ADDR 128 (\<lambda>_. 0)) 1) ?s3 =
    ((E_OK, ?z), s2\<lparr>trace := t4 @ t3 @ trace s2\<rparr>)" by (auto simp: load_words_def)
  let ?s4 = "s2\<lparr>trace := t4 @ t3 @ trace s2, ram := \<lambda>_. 0\<rparr>"
  have sec: "BYTES_TO_SECTORS 4 = 1" by (simp add: BYTES_TO_SECTORS_def SECTOR_SIZE_def)
  have ld: "run_state (read_to_ram (EMMC_SECTOR_BOOTLOADER + 1) BOOTLOADER_LOAD_ADDR (BYTES_TO_SECTORS 4)) ?s3 = (E_OK, ?s4)"
    using r4 c2(4) by (simp add: read_to_ram_def sec store_zeros)
  have "load_fits 4" by (simp add: load_fits_def sec BOOT_FLAGS_START_ADDR_def BOOTLOADER_LOAD_ADDR_def)
  then have "run_state (load_bootloader ?z) s2 = (Checked ?h, ?s4)"
    using r3(1) ld zero_bytes by (simp add: load_bootloader_def start_packet_def Let_def crc32_def)
  moreover have "host [] ?s4" using stage_board_facts(1) [of "[]" loader_card] c2(5) by (simp add: host_def)
  ultimately have k: "bootstrap_kmain (\<lambda>_. None) ?z ?s = jump_to_bootloader (\<lambda>_. None) (Checked ?h) ?s4" "host [] ?s4"
    using u e ret by (simp_all add: bootstrap_kmain_def)
  have "uart_drain ?s4 = Some (?s4\<lparr>trace := Rd (UART0_BASE + FR) 0 # trace ?s4\<rparr>)"
    using host_spin [OF k(2) talk_refl, of FR_BUSY] by (simp add: uart_drain_def uart_channel_drain_def)
  then obtain s' where s': "bootstrap_kmain (\<lambda>_. None) ?z ?s = Some (Jumps BOOTLOADER_LOAD_ADDR, s')"
    unfolding k(1) by (simp add: jump_to_bootloader_def)
  from bootstrap_verified_jump [OF s'] s' show ?thesis by (auto simp: stage_board_def stores_def strayed_def)
qed

end
