(* ===== verification/Irq.thy ===== *)
theory Irq
  imports Uart
begin

unbundle bit_operations_syntax

text \<open>
  \<^verbatim>\<open>drivers/gic/gic.c\<close>, \<^verbatim>\<open>drivers/interrupts/interrupts.c\<close> and \<^verbatim>\<open>drivers/gentimer/gentimer.c\<close>: the interrupt controller and the ARM local
  routing at register level, the table of handlers, and the tick timer. A core that calls passes its number. Registers of the CPU are at
  addresses no device has. Barriers have no effect at this level.
\<close>

subsection \<open>Interrupt controller\<close>

definition GICD_BASE :: u32 where "GICD_BASE = 0xFF841000"
definition GICC_BASE :: u32 where "GICC_BASE = 0xFF842000"
definition ARM_LOCAL_BASE :: u32 where "ARM_LOCAL_BASE = 0xFF800000"
definition GICD_CTLR :: u32 where "GICD_CTLR = GICD_BASE + 0x000"
definition GICD_ISENABLER :: "u32 \<Rightarrow> u32" where "GICD_ISENABLER n = GICD_BASE + 0x100 + n * 4"
definition GICD_IPRIORITYR :: "u32 \<Rightarrow> u32" where "GICD_IPRIORITYR n = GICD_BASE + 0x400 + n * 4"
definition GICD_ITARGETSR :: "u32 \<Rightarrow> u32" where "GICD_ITARGETSR n = GICD_BASE + 0x800 + n * 4"
definition GICD_ICFGR :: "u32 \<Rightarrow> u32" where "GICD_ICFGR n = GICD_BASE + 0xC00 + n * 4"
definition GICC_CTLR :: u32 where "GICC_CTLR = GICC_BASE + 0x000"
definition GICC_PMR :: u32 where "GICC_PMR = GICC_BASE + 0x004"
definition CORE_TIMER_IRQCNTL :: "u32 \<Rightarrow> u32" where "CORE_TIMER_IRQCNTL n = ARM_LOCAL_BASE + 0x40 + n * 4"
definition CORE_MBOX_IRQCNTL :: "u32 \<Rightarrow> u32" where "CORE_MBOX_IRQCNTL n = ARM_LOCAL_BASE + 0x50 + n * 4"
definition CORE_MBOX0_SET :: "u32 \<Rightarrow> u32" where "CORE_MBOX0_SET n = ARM_LOCAL_BASE + 0x80 + n * 0x10"

lemmas gic_regs = GICD_BASE_def GICC_BASE_def ARM_LOCAL_BASE_def GICD_CTLR_def GICD_ISENABLER_def GICD_IPRIORITYR_def GICD_ITARGETSR_def
  GICD_ICFGR_def GICC_CTLR_def GICC_PMR_def CORE_TIMER_IRQCNTL_def CORE_MBOX_IRQCNTL_def CORE_MBOX0_SET_def

definition gic_distributor_init :: "('z machine_scheme, unit) state" where
  "gic_distributor_init = do { wr GICD_CTLR 0; wr GICD_CTLR 1 }"

text \<open>One byte per interrupt.\<close>

definition put_byte :: "u32 \<Rightarrow> u32 \<Rightarrow> u32 \<Rightarrow> ('z machine_scheme, unit) state" where
  "put_byte reg intid v = do {
     x \<leftarrow> rd reg;
     wr reg (put_field 0xFF (unat (intid mod 4) * 8) v x) }"

definition gic_percore_init :: "u32 \<Rightarrow> ('z machine_scheme, unit) state" where
  "gic_percore_init cid = do {
     set_bits (GICD_ISENABLER 0) (push_bit 30 1);
     put_byte (GICD_IPRIORITYR (30 div 4)) 30 0x80;
     wr GICC_PMR 0xFF;
     wr GICC_CTLR 1;
     set_bits (CORE_TIMER_IRQCNTL cid) (push_bit 1 1);
     set_bits (CORE_MBOX_IRQCNTL cid) (push_bit 0 1) }"

definition gic_enable_spi :: "u32 \<Rightarrow> u8 \<Rightarrow> ('z machine_scheme, unit) state" where
  "gic_enable_spi intid priority = do {
     put_byte (GICD_IPRIORITYR (intid div 4)) intid (ucast priority);
     put_byte (GICD_ITARGETSR (intid div 4)) intid 0x01;
     clear_bits (GICD_ICFGR (intid div 16)) (push_bit (unat (intid mod 16) * 2) 0x3);
     wr (GICD_ISENABLER (intid div 32)) (push_bit (unat (intid mod 32)) 1) }"

definition gic_send_mailbox_ipi :: "u32 \<Rightarrow> ('z machine_scheme, unit) state" where
  "gic_send_mailbox_ipi target_core = wr (CORE_MBOX0_SET target_core) 1"

definition gic_disable :: "u32 \<Rightarrow> ('z machine_scheme, unit) state" where
  "gic_disable cid = do {
     wr GICC_CTLR 0;
     clear_bits (CORE_TIMER_IRQCNTL cid) (push_bit 1 1);
     clear_bits (CORE_MBOX_IRQCNTL cid) (push_bit 0 1) }"

subsection \<open>Handlers\<close>

text \<open>The table by interrupt number; \<open>run\<close> calls a handler.\<close>

definition IRQ_MAX_INTID :: u32 where "IRQ_MAX_INTID = 256"

definition irq_register :: "u32 \<Rightarrow> 'h option \<Rightarrow> (u32 \<Rightarrow> 'h option) \<Rightarrow> StatusCode \<times> (u32 \<Rightarrow> 'h option)" where
  "irq_register intid handler g_handlers = (
     if intid \<ge> IRQ_MAX_INTID then (E_INVALID_ARGS, g_handlers) else (E_OK, g_handlers(intid := handler)))"

definition irq_dispatch :: "('h \<Rightarrow> 's \<Rightarrow> 's) \<Rightarrow> (u32 \<Rightarrow> 'h option) \<Rightarrow> u32 \<Rightarrow> 's \<Rightarrow> 's" where
  "irq_dispatch run g_handlers intid s = (
     if intid < IRQ_MAX_INTID \<and> g_handlers intid \<noteq> None then run (the (g_handlers intid)) s else s)"

lemma irq_dispatch_registered:
  assumes "irq_register intid handler g = (r, g')"
  shows "irq_dispatch run g' i s = (if r = E_OK \<and> i = intid then (case handler of Some h \<Rightarrow> run h s | None \<Rightarrow> s) else irq_dispatch run g i s)"
  using assms by (auto simp: irq_register_def irq_dispatch_def split: if_splits option.splits)

subsection \<open>Tick timer\<close>

definition CNTP_CTL :: u32 where "CNTP_CTL = 0xFFFFFFE0"
definition CNTP_CVAL_LO :: u32 where "CNTP_CVAL_LO = 0xFFFFFFE4"
definition CNTP_CVAL_HI :: u32 where "CNTP_CVAL_HI = 0xFFFFFFE8"

text \<open>\<open>clk_freq\<close> tells whether the pointer is there; its value afterwards is in the result. A rate of zero divides by zero, the \<open>None\<close> inside.\<close>

definition gentimer_init :: "bool \<Rightarrow> u32 \<Rightarrow> ('z machine_scheme, (StatusCode \<times> u32 option) option) state" where
  "gentimer_init clk_freq hz = (
     if \<not> clk_freq then return (Some (E_INVALID_ARGS, None))
     else do {
       _ \<leftarrow> rd CNTFRQ;
       let p_freq = (54000000 :: u32);
       wr CNTP_CTL 0;
       current \<leftarrow> cntpct;
       if hz = 0 then return None
       else do {
         let cval = current + ucast (p_freq div hz);
         wr CNTP_CVAL_LO (ucast cval);
         wr CNTP_CVAL_HI (ucast (drop_bit 32 cval));
         wr CNTP_CTL 1;
         return (Some (E_OK, Some p_freq)) } })"

definition gentimer_disable :: "('z machine_scheme, unit) state" where
  "gentimer_disable = wr CNTP_CTL 0"

end
