(* ===== verification/App_Runtime.thy ===== *)
theory App_Runtime
  imports Boot Software_Timer Irq
begin

unbundle bit_operations_syntax

text \<open>
  What the application runs beside its own tasks: the tasks and timers that feed the watchdog and confirm a slot (end of \<^verbatim>\<open>drivers/watchdog/watchdog.c\<close>),
  parking the companion cores (\<^verbatim>\<open>kernel/companion_core/companion_core.c\<close>), the way back to the bootloader (\<^verbatim>\<open>drivers/reset/reset.c\<close>) and the delays of
  \<^verbatim>\<open>libraries/delay/delay.c\<close>. Addresses of code, of the static timers and of linker symbols are arguments.
\<close>

subsection \<open>Watchdog tasks\<close>

definition WDT_KICK_PERIOD :: u64 where "WDT_KICK_PERIOD = 2000"
definition WDT_CORE_KICK_PERIOD :: u64 where "WDT_CORE_KICK_PERIOD = 1000"
definition s_confirm_semaphore :: sptr where "s_confirm_semaphore = Sem 102"

text \<open>The timer's callback counts its calls in \<open>s_watchdog_kick_count\<close>.\<close>

definition watchdog_kick_cb :: "nat \<Rightarrow> u32 \<times> 'z watchdog_scheme \<Rightarrow> u32 \<times> 'z watchdog_scheme" where
  "watchdog_kick_cb cid st = (case st of (s_watchdog_kick_count, s) \<Rightarrow>
     (s_watchdog_kick_count + 1, snd (run_state (watchdog_core_kick cid) s)))"

definition watchdog_confirm_timer_cb :: "kernel \<Rightarrow> kernel option" where
  "watchdog_confirm_timer_cb k = do { (_, k) \<leftarrow> semaphore_give s_confirm_semaphore k; Some k }"

text \<open>\<open>watchdog_confirm_task\<close> in three parts: up to where it blocks, the work once it has the semaphore, and a round of the endless sleep after it.\<close>

definition watchdog_confirm_wait :: "core \<Rightarrow> tptr \<Rightarrow> kernel \<Rightarrow> (take_result \<times> kernel) option" where
  "watchdog_confirm_wait c t k = semaphore_take_try s_confirm_semaphore c t (-1) (take_deadline c (-1) k) k"

definition watchdog_confirm_work :: "'z watchdog_scheme \<Rightarrow> 'z watchdog_scheme" where
  "watchdog_confirm_work s = snd (run_state wdt_meta_confirm_slot s)"

definition watchdog_confirm_sleep :: "core \<Rightarrow> kernel \<Rightarrow> kernel option" where
  "watchdog_confirm_sleep c k = task_delay_ms c 60000 k"

definition start_timer :: "tmptr \<Rightarrow> u64 \<Rightarrow> nat \<Rightarrow> TimerMode \<Rightarrow> core \<Rightarrow> kernel \<Rightarrow> (StatusCode \<times> kernel) option" where
  "start_timer tm prd callback mode c k = do {
     (ret, k) \<leftarrow> software_timer_create (Some tm) prd (Some callback) mode c k;
     if ret \<noteq> E_OK then Some (ret, k) else software_timer_reset (Some tm) c k }"

definition watchdog_task_start ::
    "u32 \<Rightarrow> u32 \<Rightarrow> tmptr \<Rightarrow> nat \<Rightarrow> tmptr \<Rightarrow> nat \<Rightarrow> core \<Rightarrow> WatchdogConfig option \<Rightarrow> kernel \<Rightarrow> (StatusCode \<times> kernel) option" where
  "watchdog_task_start task_exit_trap confirm_entry kick_timer kick_cb confirm_timer confirm_cb c cfg k = (case cfg of
     None \<Rightarrow> Some (E_NOT_INITIALIZED, k)
   | Some config \<Rightarrow> do {
       (ret, k) \<leftarrow> start_timer kick_timer WDT_KICK_PERIOD kick_cb TIMER_MODE_PERIODIC c k;
       if ret \<noteq> E_OK then Some (ret, k)
       else if sint (confirm_delay_ms config) \<ge> 0 then
         let delay = (if sint (confirm_delay_ms config) > 0 then confirm_delay_ms config else 1);
             k = semaphore_init s_confirm_semaphore 1 0 k
         in (case task_create task_exit_trap c confirm_entry 512 1 0 k of
              (ret, _, k) \<Rightarrow> if ret \<noteq> E_OK then Some (ret, k) else start_timer confirm_timer delay confirm_cb TIMER_MODE_ONE_SHOT c k)
       else Some (E_OK, k) })"

text \<open>The reporting task of a companion core, one round, and its start.\<close>

definition watchdog_core_kick_round :: "core \<Rightarrow> kernel \<times> 'z watchdog_scheme \<Rightarrow> (kernel \<times> 'z watchdog_scheme) option" where
  "watchdog_core_kick_round c st = (case st of (k, s) \<Rightarrow> do {
     let s = snd (run_state (watchdog_core_kick c) s);
     k \<leftarrow> task_delay_ms c WDT_CORE_KICK_PERIOD k;
     Some (k, s) })"

definition watchdog_core_task_start :: "u32 \<Rightarrow> u32 \<Rightarrow> core \<Rightarrow> WatchdogConfig option \<Rightarrow> kernel \<Rightarrow> StatusCode \<times> kernel" where
  "watchdog_core_task_start task_exit_trap entry c cfg k = (case cfg of
     None \<Rightarrow> (E_NOT_INITIALIZED, k)
   | Some config \<Rightarrow>
       if \<not> multicore_mode config \<or> companion_core_ctx config = None then (E_INVALID_ARGS, k)
       else (case task_create task_exit_trap c entry 512 1 0 k of (ret, _, k) \<Rightarrow> (ret, k)))"

subsection \<open>Parking the companion cores\<close>

text \<open>The loop over the core numbers from \<open>core_id\<close> on.\<close>

fun signal_alive :: "u32 \<Rightarrow> nat list \<Rightarrow> ('z machine_scheme, unit) state" where
  "signal_alive alive [] = return ()"
| "signal_alive alive (i # is) = do {
     (if alive AND push_bit i 1 \<noteq> 0 then gic_send_mailbox_ipi (of_nat i) else return ());
     signal_alive alive is }"

definition companion_core_reset_active :: "('z watchdog_scheme, unit) state" where
  "companion_core_reset_active = do {
     alive \<leftarrow> gets g_core_alive_mask;
     signal_alive alive [1..<COMPANION_CORE_MAX_CORES];
     upd (g_core_alive_mask_update (\<lambda>_. 0)) }"

lemma signal_alive_writes:
  "run_state (signal_alive alive is) s =
     ((), s\<lparr>trace := rev (map (\<lambda>i. Wr (CORE_MBOX0_SET (of_nat i)) 1) (filter (\<lambda>i. alive AND push_bit i 1 \<noteq> 0) is)) @ trace s\<rparr>)"
  by (induction "is" arbitrary: s) (simp_all add: gic_send_mailbox_ipi_def)

text \<open>Every core that is running gets one signal, the caller's core none, and no core counts as running afterwards.\<close>

lemma companion_core_reset_active_signals:
  assumes "run_state companion_core_reset_active s = ((), s')"
  shows "g_core_alive_mask s' = 0" "trace s' = rev (map (\<lambda>i. Wr (CORE_MBOX0_SET (of_nat i)) 1)
    (filter (\<lambda>i. g_core_alive_mask s AND push_bit i 1 \<noteq> 0) [1..<COMPANION_CORE_MAX_CORES])) @ trace s"
  using assms by (auto simp: companion_core_reset_active_def signal_alive_writes)

subsection \<open>Back to the bootloader\<close>

partial_function (option) zero_loop :: "u32 \<Rightarrow> u32 \<Rightarrow> (u32 \<Rightarrow> u32) \<Rightarrow> (u32 \<Rightarrow> u32) option" where
  "zero_loop p hi m = (if p < hi then zero_loop (p + 4) hi (m(p := 0)) else Some m)"

text \<open>The result is the address jumped to. Interrupts are masked first, which keeps every other task of the core from running in between.\<close>

definition quiesce :: "u32 \<Rightarrow> ('z boot_scheme, unit) state" where
  "quiesce cid = do { companion_core_reset_active; gentimer_disable; gic_disable cid; gpio_off 16 }"

definition enter_bootloader :: "u32 \<Rightarrow> u32 \<Rightarrow> u32 \<Rightarrow> 'z boot_scheme \<Rightarrow> (u32 \<times> 'z boot_scheme) option" where
  "enter_bootloader fiq_stack_bottom svc_stack_top cid s = do {
     let s = snd (run_state (quiesce cid) s);
     m \<leftarrow> zero_loop fiq_stack_bottom svc_stack_top (ram s);
     s \<leftarrow> uart_deinit (s\<lparr>ram := m\<rparr>);
     Some (BOOTLOADER_START_ADDR, s) }"

text \<open>It spins after the two writes; nothing runs after it.\<close>

definition system_hard_reset :: "('z watchdog_scheme, unit) state" where
  "system_hard_reset = watchdog_trigger_reset"

subsection \<open>Delays\<close>

text \<open>The counter is read through a pointer; \<open>f n\<close> is what the \<open>n\<close>-th read of it gives.\<close>

definition delay_init :: "'a option \<Rightarrow> 'a option \<Rightarrow> StatusCode \<times> 'a option" where
  "delay_init p_tick_count s_tick_count = (case p_tick_count of None \<Rightarrow> (E_INVALID_ARGS, s_tick_count) | Some p \<Rightarrow> (E_OK, Some p))"

partial_function (option) delay_loop :: "(nat \<Rightarrow> u64) \<Rightarrow> u64 \<Rightarrow> u64 \<Rightarrow> nat \<Rightarrow> nat option" where
  "delay_loop f start ticks n = (if f n - start < ticks then delay_loop f start ticks (n + 1) else Some n)"

definition delay_ms :: "(nat \<Rightarrow> u64) \<Rightarrow> u64 \<Rightarrow> nat option" where
  "delay_ms f ticks = delay_loop f (f 0) ticks 1"

end
