(* ===== verification/Trial_Props.thy ===== *)
theory Trial_Props
  imports Bootloader_Props App_Runtime
begin

unbundle bit_operations_syntax

text \<open>
  The metadata over a life of boots: how the two counters of the bootloader work together; a slot on trial that never confirms is given up at the third
  reset; one that confirms stays.
\<close>

subsection \<open>The metadata after any number of boots\<close>

text \<open>What one pass of the checks makes of the metadata; the boot flags play no part in it.\<close>

definition next_meta :: "WdtMeta \<Rightarrow> WdtMeta" where
  "next_meta m = fst (tolerance_policy (fst (trial_resolution m False)) \<lparr>bf_magic = 0, reset_reason = 0, dfu_requested = 0, fw_crc_ok = 0\<rparr> False)"

lemma judged_next: "fst (judged m f) = next_meta m"
proof -
  have "fst (tolerance_policy m' f v) = fst (tolerance_policy m' f' v')" for m' f' v v' by (simp add: tolerance_policy_def Let_def)
  moreover have "fst (trial_resolution m v) = fst (trial_resolution m v')" for v v' by (simp add: trial_resolution_def Let_def)
  ultimately show ?thesis unfolding judged_def next_meta_def case_prod_beta by metis
qed

lemma sealed_fields [simp]:
  "active_app_slot (sealed m) = active_app_slot m" "app_slot_trial (sealed m) = app_slot_trial m" "trial_boot_count (sealed m) = trial_boot_count m"
  "wdt_reset_count (sealed m) = wdt_reset_count m" "wdt_reset_tolerance (sealed m) = wdt_reset_tolerance m" "wdt_reset_policy (sealed m) = wdt_reset_policy m"
  by (simp_all add: sealed_def)

lemma boot_pass:
  assumes "storing W s" "is_high_capacity s" "running s" "length (s_sector_buf s) = 128" "length (current_sector s) = 128"
    and "\<And>a. length (card W s a) = 128" and "card W s EMMC_SECTOR_METADATA = meta_sector m"
  defines "s' \<equiv> snd (run_state bootloader_init s)"
  shows "wdt_meta s' = sealed (next_meta (sealed m))" "card W s' = (card W s)(EMMC_SECTOR_METADATA := meta_sector (next_meta (sealed m)))"
    "storing W s'" "is_high_capacity s'"
proof -
  obtain m2 f v where j: "judged (stored_meta (card W s)) (boot_flags_init (boot_flags s)) = (m2, f, v)" by (metis prod.exhaust)
  have "m2 = next_meta (sealed m)" using judged_next [of "sealed m"] j stored_meta_sector [of "card W s", OF assms(7)] by (metis fst_conv)
  then show "wdt_meta s' = sealed (next_meta (sealed m))" "card W s' = (card W s)(EMMC_SECTOR_METADATA := meta_sector (next_meta (sealed m)))"
    "storing W s'" "is_high_capacity s'"
    using bootloader_init_spec [OF assms(1) refl assms(2-6) j] by (simp_all add: s'_def)
qed

definition pass :: "WdtMeta \<Rightarrow> WdtMeta" where "pass m = sealed (next_meta m)"

lemma pass_sector: "meta_sector (pass m) = meta_sector (next_meta m)" by (simp add: pass_def)

lemma boots_meta:
  assumes "boots C0 n C s" "C0 EMMC_SECTOR_METADATA = meta_sector m0" "\<And>a. length (C0 a) = 128"
  shows "C EMMC_SECTOR_METADATA = meta_sector ((pass ^^ n) (sealed m0)) \<and> (\<forall>a. a \<noteq> EMMC_SECTOR_METADATA \<longrightarrow> C a = C0 a) \<and>
    (0 < n \<longrightarrow> wdt_meta s = (pass ^^ n) (sealed m0))"
  using assms(1)
proof (induction rule: boots.induct)
  case (off s)
  then show ?case using assms(2) by simp
next
  case (reset n C s0 W s s')
  have len: "length (card W s a) = 128" for a
    using reset.IH reset.hyps(3) assms(3) [of a] by (cases "a = EMMC_SECTOR_METADATA") simp_all
  have m: "card W s EMMC_SECTOR_METADATA = meta_sector ((pass ^^ n) (sealed m0))" using reset.IH reset.hyps(3) by simp
  have se: "sealed ((pass ^^ n) (sealed m0)) = (pass ^^ n) (sealed m0)" by (cases n) (simp_all add: pass_def)
  note P = boot_pass [OF reset.hyps(2,4-7) len m, folded reset.hyps(8), unfolded se, folded pass_def]
  then show ?case using reset.IH reset.hyps(3) by (simp add: pass_sector)
qed

text \<open>Claim C33 (error). The two counters work against each other. With the reset tolerance at 2 and the policy \<open>ROLLBACK\<close>, at the third reset of an update that
  never confirms, the trial gives the slot up and the tolerance policy, in the same pass, switches away once more: the failed update is
  active again, no longer on trial, so the trial never judges it again.\<close>

theorem trial_rollback_undone:
  assumes "boots C0 3 C s" "C0 EMMC_SECTOR_METADATA = meta_sector (on_trial m)" "\<And>a. length (C0 a) = 128" "a_slot (active_app_slot m)"
    and "wdt_reset_tolerance m = 2" "wdt_reset_policy m = policy_num WATCHDOG_RESET_POLICY_ROLLBACK" "wdt_reset_count m = 0"
  shows "active_app_slot (wdt_meta s) = APP_SLOT_OTHER (active_app_slot m) \<and> app_slot_trial (wdt_meta s) = 0 \<and> trial_boot_count (wdt_meta s) = 0"
proof -
  have "wdt_meta s = pass (pass (pass (sealed (on_trial m))))" using boots_meta [OF assms(1-3)] by (simp add: numeral_3_eq_3)
  moreover have "\<not> 3 \<le> (1 :: u32)" "\<not> 3 \<le> (2 :: u32)" by (simp_all add: word_le_nat_alt)
  ultimately show ?thesis
    using assms(4-7)
    by (simp add: pass_def next_meta_def trial_resolution_def tolerance_policy_def switch_back_def on_trial_def Let_def APP_SLOT_TRIAL_MAX_ATTEMPTS_def other_other)
qed

subsection \<open>What the application stores\<close>

definition confirmed :: "WdtMeta \<Rightarrow> WdtMeta" where
  "confirmed m = m\<lparr>app_slot_trial := 0, trial_boot_count := 0, wdt_reset_count := 0\<rparr>"

lemma meta_read_ok:
  assumes "storing W s" "is_high_capacity s" "length (s_sector_buf s) = 128" "length (card W s EMMC_SECTOR_METADATA) = 128"
  shows "fst (run_state wdt_meta_read s) = E_OK"
proof -
  have a: "card_arg s EMMC_SECTOR_METADATA = EMMC_SECTOR_METADATA" using assms(2) by (simp add: card_arg_def)
  from serves_read_sector [OF storing_serves [OF assms(1)], of EMMC_SECTOR_METADATA "s_sector_buf s" 0] assms(3,4) a
  show ?thesis by (auto simp: wdt_meta_read_def split_def)
qed

lemma confirm_pass:
  assumes "storing W u" "is_high_capacity u" "length (s_sector_buf u) = 128" "card W u EMMC_SECTOR_METADATA = meta_sector m"
  shows "card W (watchdog_confirm_work u) = (card W u)(EMMC_SECTOR_METADATA := meta_sector (confirmed (sealed m)))"
proof -
  have len: "length (card W u EMMC_SECTOR_METADATA) = 128" using assms(4) by simp
  have m: "stored_meta (card W u) = sealed m" using stored_meta_sector [of "card W u", OF assms(4)] .
  obtain t where t: "snd (run_state wdt_meta_read u) = u\<lparr>trace := t @ trace u, s_sector_buf := card W u EMMC_SECTOR_METADATA, wdt_meta := sealed m\<rparr>"
    "stores (t @ trace u) = stores (trace u)" using meta_read_stored [OF assms(1-3) len] m by auto
  define u1 where "u1 = u\<lparr>trace := t @ trace u, s_sector_buf := card W u EMMC_SECTOR_METADATA, wdt_meta := confirmed (sealed m)\<rparr>"
  have u1: "storing W u1" "is_high_capacity u1" "card W u1 = card W u" "wdt_meta u1 = confirmed (sealed m)"
    using assms(1,2) t(2) storing_cong [of u1 u W] by (simp_all add: u1_def card_def)
  have "watchdog_confirm_work u = snd (run_state wdt_meta_write u1)"
    using meta_read_ok [OF assms(1-3) len] t(1)
    by (simp add: watchdog_confirm_work_def wdt_meta_confirm_slot_def u1_def confirmed_def split_def)
  then show ?thesis using meta_write_stores [OF u1(1,2)] u1(3,4) by auto
qed

text \<open>What \<open>watchdog_init\<close> makes of the metadata when the application starts.\<close>

definition configured :: "WatchdogConfig \<Rightarrow> WdtMeta \<Rightarrow> WdtMeta" where
  "configured cfg m = (if timeout_s cfg = 0 then m
     else (sealed m)\<lparr>wdt_reset_tolerance := tolerance cfg, wdt_reset_policy := policy_num (reset_policy cfg)\<rparr>)"

lemma init_pass:
  fixes u :: dfu
  assumes "storing V u" "is_high_capacity u" "running u" "length (s_sector_buf u) = 128" "card V u EMMC_SECTOR_METADATA = meta_sector m"
  shows "card V (snd (run_state (watchdog_init (Some cfg)) u)) = (card V u)(EMMC_SECTOR_METADATA := meta_sector (configured cfg m))"
proof (cases "timeout_s cfg = 0")
  case True
  then show ?thesis using assms(5) by (simp add: watchdog_init_def configured_def fun_upd_idem)
next
  case False
  define cf where "cf = (if timeout_s cfg > PM_WDOG_MAX_TIMEOUT then cfg\<lparr>timeout_s := PM_WDOG_MAX_TIMEOUT\<rparr> else cfg)"
  have cf: "tolerance cf = tolerance cfg" "reset_policy cf = reset_policy cfg" by (simp_all add: cf_def)
  define ticks where "ticks = (timeout_s cf * PM_WDOG_TICKS_PER_S) AND PM_WDOG_COUNT_MASK"
  define u0 where "u0 = u\<lparr>s_timeout_ticks := ticks, s_config := Some cf\<rparr>"
  have 0: "storing V u0" "is_high_capacity u0" "running u0" "length (s_sector_buf u0) = 128" "card V u0 = card V u"
    using assms storing_cong [of u0 u V] by (simp_all add: u0_def running_def card_def)
  define u1 where "u1 = snd (run_state (do { wr PM_WDOG (PM_PASSWORD OR ticks); wr PM_RSTC (PM_PASSWORD OR PM_RSTC_WRCFG_FULL_RESET) }) u0)"
  have "state_io_rel probing (do { wr PM_WDOG (PM_PASSWORD OR ticks); wr PM_RSTC (PM_PASSWORD OR PM_RSTC_WRCFG_FULL_RESET) } :: (dfu, unit) state)"
    by (intro probing.io_rules probing_wr; simp add: PM_WDOG_def PM_RSTC_def PM_BASE_def reg_defs)
  then have p1: "probing u0 u1" by (simp add: state_io_rel_def u1_def)
  define u2 where "u2 = snd (run_state emmc_init u1)"
  have "running u1" using 0(3) probing_dfu(6) [OF p1] by (simp add: running_def)
  then have p2: "probing u0 u2" using probing.R_trans [OF p1 probing_init] by (simp add: u2_def)
  have 2: "storing V u2" "is_high_capacity u2" "length (s_sector_buf u2) = 128" "card V u2 = card V u"
    using 0 probing_dfu [OF p2] by simp_all
  have len: "length (card V u2 EMMC_SECTOR_METADATA) = 128" using assms(5) 2(4) by simp
  have m: "stored_meta (card V u2) = sealed m" using stored_meta_sector [of "card V u2"] assms(5) 2(4) by simp
  obtain t where t: "snd (run_state wdt_meta_read u2) = u2\<lparr>trace := t @ trace u2, s_sector_buf := card V u2 EMMC_SECTOR_METADATA, wdt_meta := sealed m\<rparr>"
    "stores (t @ trace u2) = stores (trace u2)" using meta_read_stored [OF 2(1-3) len] m by auto
  define u3 where "u3 = u2\<lparr>trace := t @ trace u2, s_sector_buf := card V u2 EMMC_SECTOR_METADATA, wdt_meta := configured cfg m\<rparr>"
  have u3: "storing V u3" "is_high_capacity u3" "card V u3 = card V u" "wdt_meta u3 = configured cfg m"
    using 2 t(2) storing_cong [of u3 u2 V] by (simp_all add: u3_def card_def)
  have "snd (run_state (watchdog_init (Some cfg)) u) = snd (run_state wdt_meta_write u3)"
    using meta_read_ok [OF 2(1-3) len] t(1) False
    by (simp add: watchdog_init_def Let_def cf_def [symmetric] ticks_def [symmetric] u0_def [symmetric] split_def u3_def configured_def cf)
       (simp add: u1_def u2_def u0_def split_def)
  then show ?thesis using meta_write_stores [OF u3(1,2)] u3(3,4) by auto
qed

subsection \<open>An update that is never confirmed\<close>

text \<open>\<open>unconfirmed P C0 n C s\<close>: the card held \<open>C0\<close>, then the board was reset \<open>n\<close> times without an update or a confirmation. After a reset the application
  may come as far as \<open>watchdog_init\<close>, with a configuration that \<open>P\<close> allows, which rewrites tolerance and policy in the metadata. RAM may be lost or
  kept each time, and every device may behave differently; the card keeps what is stored. \<open>s\<close> is the state after the last bootloader initialisation and
  \<open>C\<close> what the card holds in the end.\<close>

inductive unconfirmed :: "(WatchdogConfig \<Rightarrow> bool) \<Rightarrow> (u32 \<Rightarrow> u32 list) \<Rightarrow> nat \<Rightarrow> (u32 \<Rightarrow> u32 list) \<Rightarrow> dfu \<Rightarrow> bool" for P C0 where
  fresh_card: "unconfirmed P C0 0 C0 s"
| reset: "unconfirmed P C0 n C s0 \<Longrightarrow> storing W s \<Longrightarrow> card W s = C \<Longrightarrow> is_high_capacity s \<Longrightarrow> running s \<Longrightarrow> length (s_sector_buf s) = 128 \<Longrightarrow>
    length (current_sector s) = 128 \<Longrightarrow> s' = snd (run_state bootloader_init s) \<Longrightarrow> unconfirmed P C0 (Suc n) (card W s') s'"
| app: "unconfirmed P C0 n C s \<Longrightarrow> P cfg \<Longrightarrow> storing V u \<Longrightarrow> card V (u :: dfu) = C \<Longrightarrow> is_high_capacity u \<Longrightarrow> running u \<Longrightarrow> length (s_sector_buf u) = 128 \<Longrightarrow>
    unconfirmed P C0 n (card V (snd (run_state (watchdog_init (Some cfg)) u))) s"

definition trial_state :: "WdtMeta \<Rightarrow> nat \<Rightarrow> WdtMeta \<Rightarrow> bool" where
  "trial_state m n m' \<longleftrightarrow> wdt_reset_count m' = wdt_reset_count m + of_nat n \<and>
     (if n < 3 then active_app_slot m' = APP_SLOT_OTHER (active_app_slot m) \<and> app_slot_trial m' = 1 \<and> trial_boot_count m' = of_nat n
      else active_app_slot m' = active_app_slot m \<and> app_slot_trial m' = 0 \<and> trial_boot_count m' = 0)"

text \<open>The tolerance \<open>m'\<close> has now lets \<open>n\<close> resets pass that are counted from \<open>m\<close> on.\<close>

definition lets_pass :: "WdtMeta \<Rightarrow> nat \<Rightarrow> u32 \<Rightarrow> bool" where
  "lets_pass m n tol \<longleftrightarrow> tolerates (m\<lparr>wdt_reset_tolerance := tol\<rparr>) n"

lemma trial_state_sealed [simp]: "trial_state m n (sealed m') = trial_state m n m'"
  by (simp add: trial_state_def sealed_def)

lemma judged_trial:
  assumes "trial_state m n m'" "lets_pass m N (wdt_reset_tolerance m')" "Suc n \<le> N" "a_slot (active_app_slot m)"
  shows "\<exists>m2 v. judged m' f = (m2, f, v) \<and> trial_state m (Suc n) m2 \<and> wdt_reset_tolerance m2 = wdt_reset_tolerance m' \<and> (n = 2 \<longrightarrow> v)"
proof -
  have c: "wdt_reset_count m' + 1 = wdt_reset_count m + of_nat (Suc n)" using assms(1) by (simp add: trial_state_def)
  have "tolerates (m\<lparr>wdt_reset_tolerance := wdt_reset_tolerance m'\<rparr>) (Suc n)" using assms(2,3) tolerates_mono unfolding lets_pass_def by blast
  from tolerates_count [OF this] have t: "\<not> (0 \<le> sint (wdt_reset_tolerance m') \<and> sint (wdt_reset_tolerance m') < sint (wdt_reset_count m' + 1))"
    unfolding c by (auto simp del: of_nat_Suc)
  have j: "judged m' f = (case trial_resolution m' (reset_reason f = RESET_REASON_COLD) of (m2, v) \<Rightarrow> (m2\<lparr>wdt_reset_count := wdt_reset_count m2 + 1\<rparr>, f, v))"
    using t by (auto simp: judged_def tolerance_policy_def Let_def trial_resolution_def switch_back_def)
  have w: "\<not> 3 \<le> (1 :: u32)" "\<not> 3 \<le> (2 :: u32)" by (simp_all add: word_le_nat_alt)
  consider "n = 0" | "n = 1" | "n = 2" | "3 \<le> n" by linarith
  then show ?thesis
    using assms(1,4) w unfolding j
    by cases (auto simp: trial_resolution_def Let_def trial_state_def switch_back_def APP_SLOT_TRIAL_MAX_ATTEMPTS_def other_other split: prod.splits)
qed

definition revalidated :: "(u32 \<Rightarrow> u32 list) \<Rightarrow> WdtMeta \<Rightarrow> dfu \<Rightarrow> bool" where
  "revalidated C0 m s \<longleftrightarrow> (\<exists>C'. (\<forall>a. a \<noteq> EMMC_SECTOR_METADATA \<longrightarrow> C' a = C0 a) \<and>
     fw_crc_ok (boot_flags s) = (if valid_image C' (APP_SLOT_TO_SECTOR (active_app_slot m)) then 1 else 0))"

lemma unconfirmed_trial:
  assumes "unconfirmed (\<lambda>cfg. lets_pass m N (tolerance cfg)) C0 n C s" "C0 EMMC_SECTOR_METADATA = meta_sector (on_trial m)" "tolerates m N"
    "a_slot (active_app_slot m)" "\<And>a. length (C0 a) = 128" "n \<le> N"
  shows "(\<exists>m'. C EMMC_SECTOR_METADATA = meta_sector m' \<and> trial_state m n m' \<and> lets_pass m N (wdt_reset_tolerance m')) \<and>
    (0 < n \<longrightarrow> trial_state m n (wdt_meta s)) \<and> (\<forall>a. a \<noteq> EMMC_SECTOR_METADATA \<longrightarrow> C a = C0 a) \<and> (n = 3 \<longrightarrow> revalidated C0 m s)"
  using assms(1,6)
proof (induction rule: unconfirmed.induct)
  case (fresh_card s)
  have "lets_pass m N (wdt_reset_tolerance (on_trial m))" using assms(3) by (simp add: lets_pass_def tolerates_def on_trial_def)
  then show ?case using assms(2) by (auto simp: trial_state_def on_trial_def)
next
  case (reset n C s0 W s s')
  from reset.IH reset.prems obtain m' where m': "C EMMC_SECTOR_METADATA = meta_sector m'" "trial_state m n m'" "lets_pass m N (wdt_reset_tolerance m')"
    "\<And>a. a \<noteq> EMMC_SECTOR_METADATA \<Longrightarrow> C a = C0 a" by auto
  have len: "length (C a) = 128" for a using m'(1) m'(4) [of a] assms(5) [of a] by (cases "a = EMMC_SECTOR_METADATA") simp_all
  let ?f = "boot_flags_init (boot_flags s)"
  from judged_trial [of m n "sealed m'" N ?f] m'(2,3) reset.prems assms(4) obtain m2 v where
    j: "judged (stored_meta C) ?f = (m2, ?f, v)" "trial_state m (Suc n) m2" "wdt_reset_tolerance m2 = wdt_reset_tolerance m'" "n = 2 \<longrightarrow> v"
    using stored_meta_sector [of C m'] m'(1) by auto
  note S = bootloader_init_spec [OF reset.hyps(2-7) len j(1), folded reset.hyps(8)]
  have "revalidated C0 m s'" if "Suc n = 3"
    unfolding revalidated_def using S that j(2,4) m'(4) by (intro exI [of _ C]) (auto simp: after_checks_def trial_state_def)
  then show ?case using S j(2,3) m'(3,4) by auto
next
  case (app n C s cfg V u)
  from app.IH app.prems obtain m' where m': "C EMMC_SECTOR_METADATA = meta_sector m'" "trial_state m n m'" "lets_pass m N (wdt_reset_tolerance m')" by blast
  have "card V (snd (run_state (watchdog_init (Some cfg)) u)) = C(EMMC_SECTOR_METADATA := meta_sector (configured cfg m'))"
    using init_pass [OF app.hyps(3,5-7), of m' cfg] m'(1) app.hyps(4) by simp
  moreover have "trial_state m n (configured cfg m') \<and> lets_pass m N (wdt_reset_tolerance (configured cfg m'))"
    using m'(2,3) app.hyps(2) by (simp add: configured_def trial_state_def)
  ultimately show ?case using app.IH app.prems by auto
qed

text \<open>Claim C24 (safety). An update that never confirms itself is undone: a slot that an update session has put on trial stays active for two resets, each
  counted, and at the third the slot that was active before is active again, not on trial, freshly validated, and stays so over any number of further
  resets; whatever the boot flags in RAM were and whether or not the application gets as far as initialising its watchdog, and without a store to any sector
  but the metadata. This needs a reset tolerance that does not trip before, in the metadata when the update is installed and in every configuration
  the application uses: infinite, or at least the resets counted before plus \<open>n\<close>; with tolerance 2 the property above shows the opposite. At every stage
  the card is a high-capacity card that keeps what is stored, and the controller is running when it is initialised.\<close>

theorem trial_rollback:
  assumes "unconfirmed (\<lambda>cfg. lets_pass m n (tolerance cfg)) C0 n C s" "0 < n" "C0 EMMC_SECTOR_METADATA = meta_sector (on_trial m)" "tolerates m n"
    "a_slot (active_app_slot m)" "\<And>a. length (C0 a) = 128"
  shows "trial_state m n (stored_meta C) \<and> trial_state m n (wdt_meta s) \<and> (\<forall>a. a \<noteq> EMMC_SECTOR_METADATA \<longrightarrow> C a = C0 a) \<and>
    (n = 3 \<longrightarrow> revalidated C0 m s)"
  using unconfirmed_trial [OF assms(1,3-6) order_refl] assms(2) stored_meta_sector by fastforce

subsection \<open>An update that is confirmed\<close>

text \<open>\<open>lives cfg C0 n C\<close>: the card held \<open>C0\<close>, then the board was reset \<open>n\<close> times. After each reset the bootloader ran, then the application called
  \<open>watchdog_init\<close> with its configuration \<open>cfg\<close>, which rewrites the tolerance and the policy in the metadata, and came as far as confirming its slot.
  Between these RAM and devices may change in any way; the card keeps what is stored.\<close>

inductive lives :: "WatchdogConfig \<Rightarrow> (u32 \<Rightarrow> u32 list) \<Rightarrow> nat \<Rightarrow> (u32 \<Rightarrow> u32 list) \<Rightarrow> bool" for cfg C0 where
  new: "lives cfg C0 0 C0"
| life: "lives cfg C0 n C \<Longrightarrow> storing W s \<Longrightarrow> card W s = C \<Longrightarrow> is_high_capacity s \<Longrightarrow> running s \<Longrightarrow> length (s_sector_buf s) = 128 \<Longrightarrow>
    length (current_sector s) = 128 \<Longrightarrow> s' = snd (run_state bootloader_init (s :: dfu)) \<Longrightarrow>
    storing V u \<Longrightarrow> card V (u :: dfu) = card W s' \<Longrightarrow> is_high_capacity u \<Longrightarrow> running u \<Longrightarrow> length (s_sector_buf u) = 128 \<Longrightarrow>
    u' = snd (run_state (watchdog_init (Some cfg)) u) \<Longrightarrow>
    storing X w \<Longrightarrow> card X (w :: dfu) = card V u' \<Longrightarrow> is_high_capacity w \<Longrightarrow> length (s_sector_buf w) = 128 \<Longrightarrow>
    lives cfg C0 (Suc n) (card X (watchdog_confirm_work w))"

definition kept :: "WdtMeta \<Rightarrow> WdtMeta \<Rightarrow> bool" where
  "kept m0 m \<longleftrightarrow> active_app_slot m = active_app_slot m0 \<and> app_slot_trial m = 0 \<and> trial_boot_count m = 0 \<and> wdt_reset_count m = 0"

definition fresh :: "WdtMeta \<Rightarrow> bool" where
  "fresh m \<longleftrightarrow> unat (trial_boot_count m) < 2 \<and> tolerates m 1"

lemma next_meta_fresh: "fresh m \<Longrightarrow> active_app_slot (next_meta m) = active_app_slot m \<and> wdt_reset_tolerance (next_meta m) = wdt_reset_tolerance m"
proof -
  assume f: "fresh m"
  then have "\<not> (0 \<le> sint (wdt_reset_tolerance m) \<and> sint (wdt_reset_tolerance m) < sint (wdt_reset_count m + 1))"
    using tolerates_count [of m 1] by (auto simp: fresh_def)
  then show ?thesis using f
    by (auto simp: fresh_def next_meta_def trial_resolution_def tolerance_policy_def Let_def APP_SLOT_TRIAL_MAX_ATTEMPTS_def word_le_nat_alt unat_word_ariths)
qed

lemma lives_kept:
  assumes "lives cfg C0 n C" "C0 EMMC_SECTOR_METADATA = meta_sector m0" "fresh m0" "\<And>a. length (C0 a) = 128"
    and "sint (tolerance cfg) < 0 \<or> 1 \<le> sint (tolerance cfg)"
  shows "\<exists>m. C EMMC_SECTOR_METADATA = meta_sector m \<and> fresh m \<and> active_app_slot m = active_app_slot m0 \<and> (0 < n \<longrightarrow> kept m0 m) \<and>
    (\<forall>a. a \<noteq> EMMC_SECTOR_METADATA \<longrightarrow> C a = C0 a)"
  using assms(1)
proof (induction rule: lives.induct)
  case new
  then show ?case using assms(2,3) by (intro exI [of _ m0]) simp
next
  case (life n C W s s' V u u' X w)
  from life.IH obtain m where m: "C EMMC_SECTOR_METADATA = meta_sector m" "fresh m" "active_app_slot m = active_app_slot m0"
    "\<And>a. a \<noteq> EMMC_SECTOR_METADATA \<Longrightarrow> C a = C0 a" by blast
  have len: "length (card W s a) = 128" for a
    using m(1) m(4) [of a] life.hyps(3) assms(4) [of a] by (cases "a = EMMC_SECTOR_METADATA") simp_all
  have cs: "card W s EMMC_SECTOR_METADATA = meta_sector m" using m(1) life.hyps(3) by simp
  note P = boot_pass [OF life.hyps(2,4-7) len cs, folded life.hyps(8)]
  have cu: "card V u EMMC_SECTOR_METADATA = meta_sector (next_meta (sealed m))" using P(2) life.hyps(10) by simp
  note I = init_pass [OF life.hyps(9,11,12,13) cu, of cfg, folded life.hyps(14)]
  have cw: "card X w EMMC_SECTOR_METADATA = meta_sector (configured cfg (next_meta (sealed m)))" using I life.hyps(16) by simp
  note Q = confirm_pass [OF life.hyps(15,17,18) cw]
  let ?m = "confirmed (sealed (configured cfg (next_meta (sealed m))))"
  have f: "fresh (sealed m)" using m(2) by (simp add: fresh_def tolerates_def)
  have k: "kept m0 ?m" using next_meta_fresh [OF f] m(3) by (simp add: kept_def confirmed_def configured_def)
  moreover have "fresh ?m" using next_meta_fresh [OF f] m(2) assms(5)
    by (auto simp: kept_def fresh_def confirmed_def configured_def tolerates_def)
  ultimately show ?case
    using Q I P(2) life.hyps(3,10,16) m(4) by (intro exI [of _ ?m]) (simp add: kept_def)
qed

text \<open>Claim C32 (safety). An update whose application reaches its confirmation after every reset is never taken away: through any number of resets the slot stays
  active and off trial, with its counters at zero, and nothing but the metadata sector is stored to, although every start of the application rewrites tolerance
  and policy. That needs a reset tolerance that is infinite or at least one, both in the application's configuration and, above the
  resets counted so far, in the metadata when the update is installed. At every stage the card is a high-capacity card that keeps what is stored, and the controller
  is running when the bootloader and the application initialise it.\<close>

theorem confirmed_slot_stays:
  assumes "lives cfg C0 n C" "0 < n" "C0 EMMC_SECTOR_METADATA = meta_sector (on_trial m)" "tolerates m 1"
    "sint (tolerance cfg) < 0 \<or> 1 \<le> sint (tolerance cfg)" "\<And>a. length (C0 a) = 128"
  shows "active_app_slot (stored_meta C) = APP_SLOT_OTHER (active_app_slot m) \<and> app_slot_trial (stored_meta C) = 0 \<and>
    trial_boot_count (stored_meta C) = 0 \<and> wdt_reset_count (stored_meta C) = 0 \<and> (\<forall>a. a \<noteq> EMMC_SECTOR_METADATA \<longrightarrow> C a = C0 a)"
proof -
  have "fresh (on_trial m)" using assms(4) by (simp add: fresh_def on_trial_def tolerates_def)
  from lives_kept [OF assms(1,3) this assms(6,5)] assms(2) obtain m' where "C EMMC_SECTOR_METADATA = meta_sector m'" "kept (on_trial m) m'"
    "\<forall>a. a \<noteq> EMMC_SECTOR_METADATA \<longrightarrow> C a = C0 a" by auto
  then show ?thesis using stored_meta_sector [of C m'] by (simp add: kept_def on_trial_def)
qed

subsection \<open>Concrete lives\<close>

definition new_update :: WdtMeta where
  "new_update = default_meta\<lparr>wdt_reset_tolerance := 2, wdt_reset_policy := policy_num WATCHDOG_RESET_POLICY_ROLLBACK\<rparr>"

definition update_card :: "u32 \<Rightarrow> u32 list" where
  "update_card = (\<lambda>_. replicate 128 0)(EMMC_SECTOR_METADATA := meta_sector (on_trial new_update))"

lemma update_card_facts:
  "update_card EMMC_SECTOR_METADATA = meta_sector (on_trial new_update)" "length (update_card a) = 128" "a_slot (active_app_slot new_update)"
  "active_app_slot new_update = APP_SLOT_A" "wdt_reset_tolerance new_update = 2" "wdt_reset_count new_update = 0"
  "wdt_reset_policy new_update = policy_num WATCHDOG_RESET_POLICY_ROLLBACK"
  by (simp_all add: update_card_def new_update_def default_meta_def a_slot_def)

theorem trial_rollback_undone_witness:
  "\<exists>C (s :: dfu). boots update_card 3 C s \<and> active_app_slot (wdt_meta s) = APP_SLOT_B \<and> app_slot_trial (wdt_meta s) = 0"
proof -
  from boots_possible [of update_card 3, OF update_card_facts(2)] obtain C and s :: dfu where b: "boots update_card 3 C s" by blast
  from trial_rollback_undone [OF b update_card_facts(1-3,5,7,6)] b show ?thesis
    by (intro exI [of _ C] exI [of _ s]) (simp add: update_card_facts(4) APP_SLOT_OTHER_def APP_SLOT_A_def APP_SLOT_B_def)
qed

lemma lives_possible: "\<exists>C. lives cfg update_card n C \<and> (\<forall>a. length (C a) = 128)"
proof (induction n)
  case 0
  show ?case using lives.new update_card_facts(2) by blast
next
  case (Suc n)
  then obtain C where c: "lives cfg update_card n C" "\<And>a. length (C a) = 128" by blast
  let ?s = "stage_board C []"
  let ?C = "card C (snd (run_state bootloader_init ?s))"
  let ?u = "stage_board ?C []"
  let ?D = "card ?C (snd (run_state (watchdog_init (Some cfg)) ?u))"
  let ?w = "stage_board ?D []"
  note F = stage_board_facts(2,8,3-6)
  obtain m f v where j: "judged (stored_meta C) (boot_flags_init (boot_flags ?s)) = (m, f, v)" by (metis prod.exhaust)
  have C: "?C = C(EMMC_SECTOR_METADATA := meta_sector m)" using bootloader_init_spec [OF F c(2) j] by simp
  have cu: "card ?C ?u EMMC_SECTOR_METADATA = meta_sector m" unfolding stage_board_facts by (simp add: C)
  have D: "?D = ?C(EMMC_SECTOR_METADATA := meta_sector (configured cfg m))"
    using init_pass [OF _ _ _ _ cu, of cfg] by (simp add: stage_board_facts)
  have "lives cfg update_card (Suc n) (card ?D (watchdog_confirm_work ?w))"
    by (rule lives.life [OF c(1) F refl _ _ _ _ _ refl]) (simp_all add: stage_board_facts)
  moreover have "length (card ?D (watchdog_confirm_work ?w) a) = 128" for a
  proof -
    have "card ?D ?w EMMC_SECTOR_METADATA = meta_sector (configured cfg m)" unfolding stage_board_facts by (simp add: D)
    from confirm_pass [OF _ _ _ this] show ?thesis using c(2) C D by (simp add: stage_board_facts)
  qed
  ultimately show ?case by blast
qed

text \<open>The application is configured as \<^verbatim>\<open>samples/rtos/multicore_full_demo\<close> is.\<close>

definition strict_config :: WatchdogConfig where
  "strict_config = \<lparr>timeout_s = 5, reset_policy = WATCHDOG_RESET_POLICY_FORCE_UPDATE, tolerance = 1, confirm_delay_ms = 1000,
     multicore_mode = True, companion_core_ctx = Some 0\<rparr>"

theorem confirmed_slot_stays_witness:
  "\<exists>C. lives strict_config update_card 5 C \<and> active_app_slot (stored_meta C) = APP_SLOT_B"
proof -
  from lives_possible obtain C where l: "lives strict_config update_card 5 C" by blast
  have "tolerates new_update 1" "sint (tolerance strict_config) < 0 \<or> 1 \<le> sint (tolerance strict_config)"
    by (simp_all add: tolerates_def update_card_facts strict_config_def)
  from confirmed_slot_stays [OF l _ update_card_facts(1) this update_card_facts(2)] l show ?thesis
    by (intro exI [of _ C]) (simp add: update_card_facts(4) APP_SLOT_OTHER_def APP_SLOT_A_def APP_SLOT_B_def)
qed

text \<open>Three resets, after each of which the application initialises the watchdog with tolerance 3 and then hangs.\<close>

definition patient_config :: WatchdogConfig where
  "patient_config = strict_config\<lparr>tolerance := 3\<rparr>"

lemma unconfirmed_possible:
  assumes "P cfg" "\<And>a. length (C0 a) = 128"
  shows "\<exists>C s. unconfirmed P C0 n C s \<and> (\<forall>a. length (C a) = 128)"
proof (induction n)
  case 0
  show ?case using fresh_card assms(2) by blast
next
  case (Suc n)
  then obtain C s0 where c: "unconfirmed P C0 n C s0" "\<And>a. length (C a) = 128" by blast
  let ?s = "stage_board C []"
  let ?C = "card C (snd (run_state bootloader_init ?s))"
  let ?u = "stage_board ?C []"
  note F = stage_board_facts(2,8,3-6)
  obtain m f v where j: "judged (stored_meta C) (boot_flags_init (boot_flags ?s)) = (m, f, v)" by (metis prod.exhaust)
  have C: "?C = C(EMMC_SECTOR_METADATA := meta_sector m)" using bootloader_init_spec [OF F c(2) j] by simp
  have cu: "card ?C ?u EMMC_SECTOR_METADATA = meta_sector m" unfolding stage_board_facts by (simp add: C)
  have "unconfirmed P C0 (Suc n) ?C (snd (run_state bootloader_init ?s))" by (rule unconfirmed.reset [OF c(1) F refl])
  from unconfirmed.app [OF this assms(1) stage_board_facts(2,8,3-5)]
  have "unconfirmed P C0 (Suc n) (card ?C (snd (run_state (watchdog_init (Some cfg)) ?u))) (snd (run_state bootloader_init ?s))" .
  moreover have "card ?C (snd (run_state (watchdog_init (Some cfg)) ?u)) = ?C(EMMC_SECTOR_METADATA := meta_sector (configured cfg m))"
    using init_pass [OF _ _ _ _ cu, of cfg] by (simp add: stage_board_facts)
  ultimately have "unconfirmed P C0 (Suc n) (C(EMMC_SECTOR_METADATA := meta_sector (configured cfg m))) (snd (run_state bootloader_init ?s))"
    using C by simp
  then show ?case using c(2) by fastforce
qed

theorem trial_rollback_witness:
  "\<exists>C s. unconfirmed (\<lambda>cfg. lets_pass (new_update\<lparr>wdt_reset_tolerance := 3\<rparr>) 3 (tolerance cfg))
       (update_card(EMMC_SECTOR_METADATA := meta_sector (on_trial (new_update\<lparr>wdt_reset_tolerance := 3\<rparr>)))) 3 C s \<and>
     active_app_slot (stored_meta C) = APP_SLOT_A \<and> app_slot_trial (stored_meta C) = 0"
proof -
  let ?m = "new_update\<lparr>wdt_reset_tolerance := 3\<rparr>"
  let ?C0 = "update_card(EMMC_SECTOR_METADATA := meta_sector (on_trial ?m))"
  have c0: "length (?C0 a) = 128" "?C0 EMMC_SECTOR_METADATA = meta_sector (on_trial ?m)" for a using update_card_facts(2) by simp_all
  have t: "tolerates ?m 3" "lets_pass ?m 3 (tolerance patient_config)" "a_slot (active_app_slot ?m)"
    using update_card_facts by (simp_all add: lets_pass_def tolerates_def patient_config_def strict_config_def)
  from unconfirmed_possible [where P = "\<lambda>cfg. lets_pass ?m 3 (tolerance cfg)" and cfg = patient_config and n = 3 and ?C0.0 = ?C0, OF t(2) c0(1)]
  obtain C s where u: "unconfirmed (\<lambda>cfg. lets_pass ?m 3 (tolerance cfg)) ?C0 3 C s" by blast
  from trial_rollback [OF u _ c0(2) t(1,3) c0(1)] have "trial_state ?m 3 (stored_meta C)" by simp
  with u show ?thesis using update_card_facts(4) by (intro exI [of _ C] exI [of _ s]) (simp add: trial_state_def)
qed

end
