(* ===== verification/Uart_Print.thy ===== *)
theory Uart_Print
  imports Uart
begin

text \<open>
  \<^verbatim>\<open>drivers/uart/uart.c\<close>, formatted printing: \<open>uart_printf\<close> and what it is made of, against a specification that parses the format string first and
  then renders it. A C string is a HOL string without its terminator. The variable arguments are a list; \<open>None\<close> is what C leaves undefined:
  an argument that is missing or of the wrong kind, a width that overflows an \<open>int\<close>, the negation of the smallest \<open>int32_t\<close>, and a format string that ends
  inside a conversion, which makes the loop step over the terminator.
\<close>

subsection \<open>Numbers\<close>

definition PRINTF_CHUNK_SIZE :: nat where "PRINTF_CHUNK_SIZE = 32"
definition PRINTF_NUM_BUF_SIZE :: nat where "PRINTF_NUM_BUF_SIZE = 16"

lemma div_less: "0 < n \<Longrightarrow> 1 < base \<Longrightarrow> unat (n div base) < unat (n :: u32)"
  by (simp add: unat_div word_less_nat_alt)

text \<open>The loop that fills \<open>tmp\<close>, lowest digit first. Every caller passes base 10 or 16; a base below 2 has no meaning.\<close>

function digit_loop :: "u32 \<Rightarrow> u32 \<Rightarrow> string \<Rightarrow> string \<Rightarrow> string" where
  "digit_loop n base digits tmp = (
     if n > 0 \<and> base > 1 then digit_loop (n div base) base digits (tmp @ [digits ! unat (n mod base)]) else tmp)"
  by pat_completeness auto

termination
  by (relation "measure (\<lambda>(n, b, d, t). unat n)") (simp_all add: div_less)

declare digit_loop.simps [simp del]

definition format_uint :: "u32 \<Rightarrow> u32 \<Rightarrow> string \<Rightarrow> nat \<Rightarrow> char \<Rightarrow> string" where
  "format_uint n base digits width pad = (
     let tmp = (if n = 0 then ''0'' else digit_loop n base digits [])
     in replicate (width - length tmp) pad @ rev tmp)"

subsection \<open>The sink\<close>

record PrintfSink =
  sink_channel :: u8
  sink_buf :: string
  sink_pos :: nat
  sent :: "string list"

text \<open>\<open>sent\<close> collects what is handed to \<open>uart_channel_print\<close>, which stops at the first zero byte.\<close>

definition sink_flush :: "PrintfSink \<Rightarrow> PrintfSink" where
  "sink_flush sink = (
     if sink_pos sink > 0 then
       let buf = (sink_buf sink)[sink_pos sink := CHR 0x00]
       in sink\<lparr>sink_buf := buf, sent := sent sink @ [takeWhile (\<lambda>c. c \<noteq> CHR 0x00) buf], sink_pos := 0\<rparr>
     else sink)"

definition sink_putc :: "PrintfSink \<Rightarrow> char \<Rightarrow> PrintfSink" where
  "sink_putc sink c = (
     let sink = (if sink_pos sink \<ge> PRINTF_CHUNK_SIZE - 1 then sink_flush sink else sink)
     in sink\<lparr>sink_buf := (sink_buf sink)[sink_pos sink := c], sink_pos := sink_pos sink + 1\<rparr>)"

definition sink_puts :: "PrintfSink \<Rightarrow> string \<Rightarrow> PrintfSink" where
  "sink_puts sink s = fold (\<lambda>c sink. sink_putc sink c) s sink"

definition sink_put_uint :: "PrintfSink \<Rightarrow> u32 \<Rightarrow> u32 \<Rightarrow> string \<Rightarrow> nat \<Rightarrow> char \<Rightarrow> PrintfSink" where
  "sink_put_uint sink n base digits width pad = (
     let width = (if width > PRINTF_NUM_BUF_SIZE then PRINTF_NUM_BUF_SIZE else width)
     in sink_puts sink (format_uint n base digits width pad))"

subsection \<open>The format string\<close>

datatype va = Word_Arg u32 | Str_Arg "string option"

fun va_int :: "va list \<Rightarrow> (u32 \<times> va list) option" where
  "va_int (Word_Arg n # args) = Some (n, args)"
| "va_int args = None"

fun va_str :: "va list \<Rightarrow> (string option \<times> va list) option" where
  "va_str (Str_Arg s # args) = Some (s, args)"
| "va_str args = None"

definition decimal_digits :: string where "decimal_digits = ''0123456789''"
definition lower_digits :: string where "lower_digits = ''0123456789abcdef''"
definition upper_digits :: string where "upper_digits = ''0123456789ABCDEF''"

definition is_digit :: "char \<Rightarrow> bool" where
  "is_digit c \<longleftrightarrow> of_char (CHR ''0'') \<le> (of_char c :: nat) \<and> (of_char c :: nat) \<le> of_char (CHR ''9'')"

fun width_loop :: "string \<Rightarrow> nat \<Rightarrow> (nat \<times> string) option" where
  "width_loop [] width = Some (width, [])"
| "width_loop (c # fmt) width = (
     if is_digit c then
       let width = width * 10 + (of_char c - of_char (CHR ''0''))
       in if width \<ge> 2 ^ 31 then None else width_loop fmt width
     else Some (width, c # fmt))"

definition pad_of :: "string \<Rightarrow> char \<times> string" where
  "pad_of fmt = (case fmt of c # r \<Rightarrow> if c = CHR ''0'' then (CHR ''0'', r) else (CHR '' '', fmt) | [] \<Rightarrow> (CHR '' '', fmt))"

text \<open>The \<open>switch\<close>; the sink and the remaining arguments.\<close>

definition convert :: "char \<Rightarrow> nat \<Rightarrow> char \<Rightarrow> va list \<Rightarrow> PrintfSink \<Rightarrow> (va list \<times> PrintfSink) option" where
  "convert d width pad args sink = (
     if d = CHR ''c'' then do { (n, args) \<leftarrow> va_int args; Some (args, sink_putc sink (char_of (unat n))) }
     else if d = CHR ''s'' then do {
       (s, args) \<leftarrow> va_str args;
       Some (args, sink_puts sink (case s of Some s \<Rightarrow> s | None \<Rightarrow> ''(null)'')) }
     else if d = CHR ''d'' then do {
       (n, args) \<leftarrow> va_int args;
       if sint n < 0 then
         if n = 0x80000000 then None
         else Some (args, sink_put_uint (sink_putc sink (CHR ''-'')) (- n) 10 decimal_digits (if width > 0 then width - 1 else 0) pad)
       else Some (args, sink_put_uint sink n 10 decimal_digits width pad) }
     else if d = CHR ''u'' then do { (n, args) \<leftarrow> va_int args; Some (args, sink_put_uint sink n 10 decimal_digits width pad) }
     else if d = CHR ''x'' then do { (n, args) \<leftarrow> va_int args; Some (args, sink_put_uint sink n 16 lower_digits width pad) }
     else if d = CHR ''X'' then do { (n, args) \<leftarrow> va_int args; Some (args, sink_put_uint sink n 16 upper_digits width pad) }
     else if d = CHR ''%'' then Some (args, sink_putc sink (CHR ''%''))
     else Some (args, sink_putc (sink_putc sink (CHR ''%'')) d))"

lemma length_width_loop: "width_loop fmt w = Some (w', r) \<Longrightarrow> length r \<le> length fmt"
  by (induction fmt w rule: width_loop.induct) (auto simp: Let_def split: if_splits)

lemma length_pad_of: "length (snd (pad_of fmt)) \<le> length fmt"
  by (cases fmt) (auto simp: pad_of_def)

function format_loop :: "string \<Rightarrow> va list \<Rightarrow> PrintfSink \<Rightarrow> PrintfSink option" where
  "format_loop fmt args sink = (case fmt of
     [] \<Rightarrow> Some sink
   | c # fmt \<Rightarrow>
       if c \<noteq> CHR ''%'' then format_loop fmt args (sink_putc sink c)
       else
         let (pad, fmt) = pad_of fmt
         in case width_loop fmt 0 of
              None \<Rightarrow> None
            | Some (width, []) \<Rightarrow> None
            | Some (width, d # fmt) \<Rightarrow> (case convert d width pad args sink of
                None \<Rightarrow> None
              | Some (args, sink) \<Rightarrow> format_loop fmt args sink))"
  by pat_completeness auto

termination
proof (relation "measure (\<lambda>(fmt, a, s). length fmt)", goal_cases)
  case (3 fmt args sink c cs pf pad f x w ys d r y as k)
  then have "length (d # r) \<le> length f" using length_width_loop [of f 0 w "d # r"] by simp
  moreover have "length f \<le> length cs" using 3 length_pad_of [of cs] by (metis snd_conv)
  ultimately show ?case using 3 by simp
qed simp_all

declare format_loop.simps [simp del]

definition uart_vprintf :: "u8 \<Rightarrow> string \<Rightarrow> va list \<Rightarrow> string list option" where
  "uart_vprintf channel fmt args = do {
     sink \<leftarrow> format_loop fmt args \<lparr>sink_channel = channel, sink_buf = replicate PRINTF_CHUNK_SIZE (CHR 0x00), sink_pos = 0, sent = []\<rparr>;
     Some (sent (sink_flush sink)) }"

text \<open>A string sent byte by byte: what \<open>uart_channel_print\<close> is in a \<open>UART_MINIMAL\<close> build and on a channel without a task. The fault report sends its
  bytes this way in every build.\<close>

fun uart_channel_print :: "u8 \<Rightarrow> string \<Rightarrow> 'z uart_scheme \<Rightarrow> 'z uart_scheme option" where
  "uart_channel_print channel [] s = Some s"
| "uart_channel_print channel (c # str) s = do { s \<leftarrow> uart_channel_tx_raw channel (of_nat (of_char c)) s; uart_channel_print channel str s }"

definition uart_print :: "string \<Rightarrow> 'z uart_scheme \<Rightarrow> 'z uart_scheme option" where
  "uart_print str s = uart_channel_print UART_CHANNEL_PRINT str s"

fun print_all :: "u8 \<Rightarrow> string list \<Rightarrow> 'z uart_scheme \<Rightarrow> 'z uart_scheme option" where
  "print_all channel [] s = Some s"
| "print_all channel (c # chunks) s = do { s \<leftarrow> uart_channel_print channel c s; print_all channel chunks s }"

definition uart_channel_printf :: "u8 \<Rightarrow> string \<Rightarrow> va list \<Rightarrow> 'z uart_scheme \<Rightarrow> 'z uart_scheme option" where
  "uart_channel_printf channel fmt args s = do { chunks \<leftarrow> uart_vprintf channel fmt args; print_all channel chunks s }"

definition uart_printf :: "string \<Rightarrow> va list \<Rightarrow> 'z uart_scheme \<Rightarrow> 'z uart_scheme option" where
  "uart_printf fmt args s = uart_channel_printf UART_CHANNEL_PRINT fmt args s"

definition fault_puthex :: "u32 \<Rightarrow> 'z uart_scheme \<Rightarrow> 'z uart_scheme option" where
  "fault_puthex v s = do {
     s \<leftarrow> uart_print ''0x'' s;
     uart_print (take 8 (format_uint v 16 upper_digits 8 (CHR ''0''))) s }"

definition uart_fault_report :: "u32 \<Rightarrow> u32 \<Rightarrow> u32 \<Rightarrow> u32 \<Rightarrow> 'z uart_scheme \<Rightarrow> 'z uart_scheme option" where
  "uart_fault_report kind pc addr status s = do {
     s \<leftarrow> uart_print [CHR 0x0D, CHR 0x0A] s;
     s \<leftarrow> uart_print ''PC='' s;
     s \<leftarrow> fault_puthex pc s;
     s \<leftarrow> uart_print '' A='' s;
     s \<leftarrow> fault_puthex addr s;
     s \<leftarrow> uart_print '' S='' s;
     s \<leftarrow> fault_puthex status s;
     s \<leftarrow> uart_print '' K='' s;
     s \<leftarrow> fault_puthex kind s;
     uart_print [CHR 0x0D, CHR 0x0A] s }"

subsection \<open>Numbers read back\<close>

fun from_digits :: "nat \<Rightarrow> string \<Rightarrow> string \<Rightarrow> nat" where
  "from_digits base digits s = foldl (\<lambda>a c. a * base + length (takeWhile (\<lambda>d. d \<noteq> c) digits)) 0 s"

declare from_digits.simps [simp del]

lemma index_nth: "distinct ds \<Longrightarrow> i < length ds \<Longrightarrow> length (takeWhile (\<lambda>d. d \<noteq> ds ! i) ds) = i"
proof (induction ds arbitrary: i)
  case (Cons d ds)
  then show ?case by (cases i) auto
qed simp

lemma digit_loop_step:
  "0 < n \<Longrightarrow> 1 < base \<Longrightarrow> digit_loop n base digits tmp = digit_loop (n div base) base digits (tmp @ [digits ! unat (n mod base)])"
  by (subst digit_loop.simps) simp

lemma digit_loop_0: "digit_loop 0 base digits tmp = tmp"
  by (subst digit_loop.simps) simp

lemma from_digits_snoc: "from_digits b ds (xs @ [c]) = from_digits b ds xs * b + length (takeWhile (\<lambda>d. d \<noteq> c) ds)" "from_digits b ds [] = 0"
  by (simp_all add: from_digits.simps)

lemma digit_loop_rev:
  assumes "1 < base" "unat base = length digits" "distinct digits" "0 < n"
  shows "\<exists>ds. digit_loop n base digits tmp = tmp @ rev ds \<and> ds \<noteq> [] \<and> from_digits (unat base) digits ds = unat n \<and> hd ds \<noteq> digits ! 0 \<and>
    unat base ^ (length ds - 1) \<le> unat n"
  using assms(4)
proof (induction "unat n" arbitrary: n tmp rule: less_induct)
  case less
  let ?b = "unat base" and ?d = "digits ! unat (n mod base)"
  have b: "1 < ?b" using assms(1) by (simp add: word_less_nat_alt)
  have m: "unat (n mod base) = unat n mod ?b" "unat (n div base) = unat n div ?b" by (simp_all add: unat_mod unat_div)
  have i: "unat n mod ?b < length digits" unfolding assms(2) [symmetric] by (rule mod_less_divisor) (use b in linarith)
  note ix = index_nth [OF assms(3) i]
  show ?case
  proof (cases "n div base = 0")
    case True
    then have lt: "unat n < ?b" using m(2) b unfolding True by (simp add: div_eq_0_iff)
    have "digit_loop n base digits tmp = tmp @ rev [?d]"
      unfolding digit_loop_step [OF less.prems assms(1)] True digit_loop_0 by simp
    moreover have n0: "0 < unat n" using less.prems by (simp add: word_less_nat_alt)
    moreover have "?d \<noteq> digits ! 0"
    proof
      assume "?d = digits ! 0"
      then have "unat n mod ?b = 0" using nth_eq_iff_index_eq [OF assms(3) i] i unfolding m(1) by (metis gr_zeroI not_less_zero)
      then show False using lt n0 by simp
    qed
    moreover have "from_digits ?b digits [?d] = unat n"
      using from_digits_snoc(1) [of ?b digits "[]" ?d] ix lt unfolding m(1) from_digits_snoc(2) by simp
    ultimately show ?thesis by (intro exI [of _ "[?d]"]) simp
  next
    case False
    then have pos: "0 < n div base" by (simp add: word_neq_0_conv)
    from less.hyps [OF div_less [OF less.prems assms(1)] pos, of "tmp @ [?d]"] obtain ds where
      ds: "digit_loop (n div base) base digits (tmp @ [?d]) = tmp @ [?d] @ rev ds" "ds \<noteq> []" "from_digits ?b digits ds = unat n div ?b"
        "hd ds \<noteq> digits ! 0" "?b ^ (length ds - 1) \<le> unat n div ?b" unfolding m(2) append_assoc by blast
    have "digit_loop n base digits tmp = tmp @ rev (ds @ [?d])"
      unfolding digit_loop_step [OF less.prems assms(1)] ds(1) by simp
    moreover have "from_digits ?b digits (ds @ [?d]) = unat n"
      unfolding from_digits_snoc(1) ds(3) m(1) ix by simp
    moreover have "?b ^ (length (ds @ [?d]) - 1) \<le> unat n"
    proof -
      have "?b ^ (length (ds @ [?d]) - 1) = ?b ^ (length ds - 1) * ?b" using ds(2) by (cases ds) (simp_all add: mult.commute)
      also have "\<dots> \<le> unat n div ?b * ?b" using ds(5) by (rule mult_le_mono1)
      also have "\<dots> \<le> unat n" by simp
      finally show ?thesis .
    qed
    moreover have "hd (ds @ [?d]) \<noteq> digits ! 0" using ds(2,4) by simp
    ultimately show ?thesis by (intro exI [of _ "ds @ [?d]"] conjI) simp_all
  qed
qed

text \<open>The three number formats of \<open>uart_vprintf\<close>.\<close>

definition number_format :: "u32 \<Rightarrow> string \<Rightarrow> bool" where
  "number_format base digits \<longleftrightarrow> base = 10 \<and> digits = decimal_digits \<or> base = 16 \<and> (digits = lower_digits \<or> digits = upper_digits)"

lemma number_format_digits:
  "number_format base digits \<Longrightarrow> 10 \<le> unat base \<and> 1 < base \<and> unat base = length digits \<and> distinct digits \<and> digits ! 0 = CHR ''0''"
  by (auto simp: number_format_def decimal_digits_def lower_digits_def upper_digits_def word_less_nat_alt)

lemma format_uint_shape:
  assumes "number_format base digits"
  shows "\<exists>ds. format_uint n base digits width pad = replicate (width - length ds) pad @ ds \<and> from_digits (unat base) digits ds = unat n \<and>
    0 < length ds \<and> length ds \<le> 10 \<and> (hd ds = CHR ''0'' \<longrightarrow> n = 0) \<and> (n = 0 \<longrightarrow> ds = ''0'')"
proof (cases "n = 0")
  case True
  have "from_digits (unat base) digits ''0'' = 0"
    using assms by (auto simp: number_format_def decimal_digits_def lower_digits_def upper_digits_def from_digits.simps)
  then show ?thesis using True by (intro exI [of _ "''0''"]) (simp add: format_uint_def)
next
  case False
  note B = number_format_digits [OF assms]
  have "0 < n" using False by (simp add: word_neq_0_conv)
  from digit_loop_rev [OF _ _ _ this, of base digits "[]"] B obtain ds where
    ds: "digit_loop n base digits [] = rev ds" "ds \<noteq> []" "from_digits (unat base) digits ds = unat n" "hd ds \<noteq> CHR ''0''"
      "unat base ^ (length ds - 1) \<le> unat n" by auto
  have "length ds \<le> 10"
  proof (rule ccontr)
    assume "\<not> length ds \<le> 10"
    then have "10 \<le> length ds - 1" by simp
    then have "(10 :: nat) ^ 10 \<le> 10 ^ (length ds - 1)" by (rule power_increasing) simp
    also have "\<dots> \<le> unat base ^ (length ds - 1)" using B by (intro power_mono) simp_all
    also have "\<dots> \<le> unat n" by (rule ds(5))
    also have "\<dots> < 2 ^ 32" using unat_lt2p [of n] by simp
    finally show False by simp
  qed
  then show ?thesis using False ds B by (intro exI [of _ ds]) (simp add: format_uint_def)
qed

text \<open>Claim C28 (roundtrip). A number printed by \<open>%d\<close>, \<open>%u\<close>, \<open>%x\<close> or \<open>%X\<close> reads back: the text is padding up to the width followed by the digits of exactly
  that number, without a leading zero, and neither the ten bytes of \<open>tmp\<close> nor, with the width cut at 16, the sixteen of the caller's buffer overflow.\<close>

theorem format_uint_reads_back:
  assumes "number_format base digits"
  shows "\<exists>ds. format_uint n base digits width pad = replicate (width - length ds) pad @ ds \<and> from_digits (unat base) digits ds = unat n \<and>
    length ds \<le> 10 \<and> (hd ds = CHR ''0'' \<longrightarrow> n = 0 \<and> ds = ''0'') \<and>
    length (format_uint n base digits (min width PRINTF_NUM_BUF_SIZE) pad) \<le> PRINTF_NUM_BUF_SIZE"
proof -
  from format_uint_shape [OF assms, of n width pad] obtain ds where
    ds: "format_uint n base digits width pad = replicate (width - length ds) pad @ ds" "from_digits (unat base) digits ds = unat n"
      "length ds \<le> 10" "hd ds = CHR ''0'' \<longrightarrow> n = 0" "n = 0 \<longrightarrow> ds = ''0''" by blast
  from format_uint_shape [OF assms, of n "min width PRINTF_NUM_BUF_SIZE" pad] obtain ds' where
    "format_uint n base digits (min width PRINTF_NUM_BUF_SIZE) pad = replicate (min width PRINTF_NUM_BUF_SIZE - length ds') pad @ ds'" "length ds' \<le> 10" by blast
  then have "length (format_uint n base digits (min width PRINTF_NUM_BUF_SIZE) pad) \<le> PRINTF_NUM_BUF_SIZE" by (simp add: PRINTF_NUM_BUF_SIZE_def)
  with ds show ?thesis by blast
qed

theorem format_uint_reads_back_witness:
  "\<exists>ds. format_uint 0xB007 16 upper_digits 8 (CHR ''0'') = replicate (8 - length ds) (CHR ''0'') @ ds \<and> from_digits 16 upper_digits ds = 0xB007"
  using format_uint_reads_back [of 16 upper_digits "0xB007" 8 "CHR ''0''"] by (auto simp: number_format_def)


subsection \<open>What a format string means\<close>

text \<open>
  The specification knows neither sink nor buffers nor the loops above: \<open>parse\<close> splits a format string into directives, \<open>render\<close> gives the text that the C
  standard's \<open>printf\<close> prints for them, with the conversions, zero flag and width that \<^verbatim>\<open>uart.h\<close> documents. A number is written by \<open>nat_digits\<close>, independently of
  \<open>format_uint\<close>; padding goes before the sign when it is blanks and after it when it is zeros.
\<close>

datatype directive = Literal char | Conversion bool nat char

definition zero_flag :: "string \<Rightarrow> bool" where
  "zero_flag fmt \<longleftrightarrow> fmt \<noteq> [] \<and> hd fmt = CHR ''0''"

definition after_flag :: "string \<Rightarrow> string" where
  "after_flag fmt = (if zero_flag fmt then tl fmt else fmt)"

definition width_value :: "string \<Rightarrow> nat" where
  "width_value ds = foldl (\<lambda>w c. w * 10 + (of_char c - of_char (CHR ''0''))) 0 ds"

lemma length_after_flag: "length (after_flag fmt) \<le> length fmt"
  by (simp add: after_flag_def)

function parse :: "string \<Rightarrow> directive list option" where
  "parse [] = Some []"
| "parse (c # cs) = (
     if c \<noteq> CHR ''%'' then map_option (Cons (Literal c)) (parse cs)
     else case dropWhile is_digit (after_flag cs) of
         [] \<Rightarrow> None
       | d # r \<Rightarrow> map_option (Cons (Conversion (zero_flag cs) (width_value (takeWhile is_digit (after_flag cs))) d)) (parse r))"
  by pat_completeness auto

termination
proof (relation "measure length", goal_cases)
  case (3 c cs d r)
  then have "length (d # r) \<le> length cs"
    using length_dropWhile_le [of is_digit "after_flag cs"] length_after_flag [of cs] by (metis le_trans)
  then show ?case by simp
qed simp_all

function nat_digits :: "nat \<Rightarrow> string \<Rightarrow> nat \<Rightarrow> string" where
  "nat_digits b digits n = (if b < 2 \<or> n < b then [digits ! n] else nat_digits b digits (n div b) @ [digits ! (n mod b)])"
  by pat_completeness auto

termination
  by (relation "measure (\<lambda>(b, d, n). n)") (auto intro: div_less_dividend)

declare nat_digits.simps [simp del]

definition justify :: "bool \<Rightarrow> nat \<Rightarrow> string \<Rightarrow> string \<Rightarrow> string" where
  "justify zero width sign body = (
     let fill = width - length (sign @ body)
     in if zero then sign @ replicate fill (CHR ''0'') @ body else replicate fill (CHR '' '') @ sign @ body)"

definition word_text :: "bool \<Rightarrow> nat \<Rightarrow> char \<Rightarrow> u32 \<Rightarrow> string option" where
  "word_text zero width d n = (
     if d = CHR ''c'' then Some (justify False width [] [char_of (unat n)])
     else if d = CHR ''d'' then Some (justify zero width (if sint n < 0 then ''-'' else []) (nat_digits 10 decimal_digits (nat \<bar>sint n\<bar>)))
     else if d = CHR ''u'' then Some (justify zero width [] (nat_digits 10 decimal_digits (unat n)))
     else if d = CHR ''x'' then Some (justify zero width [] (nat_digits 16 lower_digits (unat n)))
     else if d = CHR ''X'' then Some (justify zero width [] (nat_digits 16 upper_digits (unat n)))
     else None)"

definition conversion :: "bool \<Rightarrow> nat \<Rightarrow> char \<Rightarrow> va list \<Rightarrow> (string \<times> va list) option" where
  "conversion zero width d args = (
     if d = CHR ''%'' then (if zero \<or> width \<noteq> 0 then None else Some (''%'', args))
     else case args of
         [] \<Rightarrow> None
       | Word_Arg n # rest \<Rightarrow> map_option (\<lambda>t. (t, rest)) (word_text zero width d n)
       | Str_Arg s # rest \<Rightarrow>
           if d = CHR ''s'' then Some (justify False width [] (case s of Some s \<Rightarrow> s | None \<Rightarrow> ''(null)''), rest) else None)"

fun render :: "directive list \<Rightarrow> va list \<Rightarrow> string option" where
  "render [] args = Some []"
| "render (Literal c # ds) args = map_option (Cons c) (render ds args)"
| "render (Conversion zero width d # ds) args = (case conversion zero width d args of
     None \<Rightarrow> None
   | Some (t, args) \<Rightarrow> map_option (\<lambda>u. t @ u) (render ds args))"

text \<open>The conversions for which the printer keeps to the standard: a width of at most 16 and only on numbers; not the smallest \<open>int32_t\<close>; and no negative
  number that is to be padded with blanks.\<close>

definition plain_conversion :: "bool \<Rightarrow> nat \<Rightarrow> char \<Rightarrow> va list \<Rightarrow> bool" where
  "plain_conversion zero width d args \<longleftrightarrow> width \<le> PRINTF_NUM_BUF_SIZE \<and> (d \<in> set ''cs'' \<longrightarrow> width = 0) \<and>
     (case args of
        Word_Arg n # rest \<Rightarrow> d = CHR ''d'' \<and> sint n < 0 \<longrightarrow>
          n \<noteq> 0x80000000 \<and> (zero \<or> width \<le> Suc (length (nat_digits 10 decimal_digits (nat \<bar>sint n\<bar>))))
      | _ \<Rightarrow> True)"

fun plain :: "directive list \<Rightarrow> va list \<Rightarrow> bool" where
  "plain [] args \<longleftrightarrow> True"
| "plain (Literal c # ds) args \<longleftrightarrow> plain ds args"
| "plain (Conversion zero width d # ds) args \<longleftrightarrow> plain_conversion zero width d args \<and> plain ds (if d = CHR ''%'' then args else tl args)"

text \<open>What the sink has taken: the chunks sent and what is still in the buffer. Chunks are short, not empty and free of zero bytes.\<close>

definition taken :: "PrintfSink \<Rightarrow> string" where
  "taken k = concat (sent k) @ take (sink_pos k) (sink_buf k)"

definition sink_ok :: "PrintfSink \<Rightarrow> bool" where
  "sink_ok k \<longleftrightarrow> length (sink_buf k) = 32 \<and> sink_pos k \<le> 31 \<and> CHR 0x00 \<notin> set (take (sink_pos k) (sink_buf k)) \<and>
     list_all (\<lambda>c. c \<noteq> [] \<and> length c \<le> 31) (sent k)"

lemma flush_ok:
  assumes "sink_ok k"
  shows "sink_ok (sink_flush k) \<and> taken (sink_flush k) = taken k \<and> sink_pos (sink_flush k) = 0"
proof (cases "sink_pos k = 0")
  case True
  then show ?thesis using assms by (simp add: sink_flush_def)
next
  case False
  let ?p = "take (sink_pos k) (sink_buf k)"
  have "takeWhile (\<lambda>c. c \<noteq> CHR 0x00) ((sink_buf k)[sink_pos k := CHR 0x00]) = ?p"
  proof -
    have "(sink_buf k)[sink_pos k := CHR 0x00] = ?p @ CHR 0x00 # drop (Suc (sink_pos k)) (sink_buf k)"
      using assms by (simp add: sink_ok_def upd_conv_take_nth_drop)
    moreover have "takeWhile (\<lambda>c. c \<noteq> CHR 0x00) (?p @ CHR 0x00 # drop (Suc (sink_pos k)) (sink_buf k)) = ?p"
      using assms by (subst takeWhile_append2) (auto simp: sink_ok_def)
    ultimately show ?thesis by simp
  qed
  moreover have "?p \<noteq> []" "length ?p \<le> 31" using assms False by (auto simp: sink_ok_def)
  ultimately show ?thesis using assms False by (simp add: sink_flush_def taken_def sink_ok_def)
qed

lemma putc_ok:
  assumes "sink_ok k" "c \<noteq> CHR 0x00"
  shows "sink_ok (sink_putc k c) \<and> taken (sink_putc k c) = taken k @ [c]"
proof -
  define k1 where "k1 = (if sink_pos k \<ge> PRINTF_CHUNK_SIZE - 1 then sink_flush k else k)"
  have k1: "sink_ok k1" "taken k1 = taken k" "sink_pos k1 < 31"
    using assms(1) flush_ok [OF assms(1)] by (auto simp: k1_def PRINTF_CHUNK_SIZE_def)
  have p: "sink_putc k c = k1\<lparr>sink_buf := (sink_buf k1)[sink_pos k1 := c], sink_pos := sink_pos k1 + 1\<rparr>"
    unfolding sink_putc_def Let_def k1_def by (rule refl)
  have "take (Suc (sink_pos k1)) ((sink_buf k1)[sink_pos k1 := c]) = take (sink_pos k1) (sink_buf k1) @ [c]"
    using k1(1,3) by (simp add: sink_ok_def take_Suc_conv_app_nth take_update_cancel)
  then show ?thesis using k1 assms(2) by (simp add: p sink_ok_def taken_def)
qed

lemma puts_ok:
  "sink_ok k \<Longrightarrow> CHR 0x00 \<notin> set t \<Longrightarrow> sink_ok (sink_puts k t) \<and> taken (sink_puts k t) = taken k @ t"
proof (induction t arbitrary: k)
  case (Cons c t)
  then have "c \<noteq> CHR 0x00" "CHR 0x00 \<notin> set t" by auto
  with putc_ok [OF Cons.prems(1)] Cons.IH [of "sink_putc k c"] show ?case by (simp add: sink_puts_def)
qed (simp add: sink_puts_def)

text \<open>The two ways of writing a number agree.\<close>

lemma nat_digits_pos: "2 \<le> b \<Longrightarrow> b \<le> n \<Longrightarrow> nat_digits b ds n = nat_digits b ds (n div b) @ [ds ! (n mod b)]"
  by (subst nat_digits.simps) simp

lemma digit_loop_digits:
  assumes "1 < base" "0 < n"
  shows "digit_loop n base digits tmp = tmp @ rev (nat_digits (unat base) digits (unat n))"
  using assms(2)
proof (induction "unat n" arbitrary: n tmp rule: less_induct)
  case less
  have b: "1 < unat base" using assms(1) by (simp add: word_less_nat_alt)
  have m: "unat (n mod base) = unat n mod unat base" "unat (n div base) = unat n div unat base" by (simp_all add: unat_mod unat_div)
  show ?case
  proof (cases "n div base = 0")
    case True
    then have "unat n < unat base" using m(2) b by (simp add: div_eq_0_iff)
    then show ?thesis unfolding digit_loop_step [OF less.prems assms(1)] True digit_loop_0 by (subst nat_digits.simps) (simp add: m(1))
  next
    case False
    then have "unat n div unat base \<noteq> 0" unfolding m(2) [symmetric] by (simp add: unat_eq_0)
    then have le: "unat base \<le> unat n" by (simp add: div_eq_0_iff)
    have pos: "0 < n div base" using False by (simp add: word_neq_0_conv)
    show ?thesis
      unfolding digit_loop_step [OF less.prems assms(1)] less.hyps [OF div_less [OF less.prems assms(1)] pos]
      using nat_digits_pos [of "unat base" "unat n" digits] b le by (simp add: m)
  qed
qed

lemma format_uint_digits:
  assumes "1 < base" "digits ! 0 = CHR ''0''"
  shows "format_uint n base digits width pad =
    replicate (width - length (nat_digits (unat base) digits (unat n))) pad @ nat_digits (unat base) digits (unat n)"
proof (cases "n = 0")
  case True
  have "nat_digits (unat base) digits 0 = ''0''" using assms by (subst nat_digits.simps) (simp add: word_less_nat_alt)
  then show ?thesis using True by (simp add: format_uint_def)
next
  case False
  then have "0 < n" by (simp add: word_neq_0_conv)
  then show ?thesis using False digit_loop_digits [OF assms(1), of n digits "[]"] by (simp add: format_uint_def)
qed

lemma put_uint_puts:
  assumes "width \<le> PRINTF_NUM_BUF_SIZE" "1 < base" "digits ! 0 = CHR ''0''"
  shows "sink_put_uint k n base digits width pad =
    sink_puts k (replicate (width - length (nat_digits (unat base) digits (unat n))) pad @ nat_digits (unat base) digits (unat n))"
  using assms by (simp add: sink_put_uint_def format_uint_digits)

lemma putc_puts: "sink_putc k c = sink_puts k [c]" "sink_puts (sink_puts k t) u = sink_puts k (t @ u)"
  by (simp_all add: sink_puts_def)

lemma digits_0: "decimal_digits ! 0 = CHR ''0''" "lower_digits ! 0 = CHR ''0''" "upper_digits ! 0 = CHR ''0''"
  by (simp_all add: decimal_digits_def lower_digits_def upper_digits_def)

lemma bases: "1 < (10 :: u32)" "1 < (16 :: u32)" by (simp_all add: word_less_nat_alt)

lemma signed_magnitude: "nat \<bar>sint n\<bar> = (if sint n < 0 then unat (- n) else unat (n :: u32))"
proof -
  have r: "sint n < 2 ^ 31" "- (2 ^ 31) \<le> sint n" using sint_lt [of n] sint_ge [of n] by simp_all
  have "uint n = sint n mod 2 ^ 32" "uint (- n) = (- sint n) mod 2 ^ 32"
    using uint_word_of_int [of "sint n", where 'a = 32] uint_word_of_int [of "- sint n", where 'a = 32] by simp_all
  moreover have "(- sint n) mod 2 ^ 32 = - sint n" if "sint n < 0" using r that by (intro mod_pos_pos_trivial) simp_all
  moreover have "sint n mod 2 ^ 32 = sint n" if "\<not> sint n < 0" using r that by (intro mod_pos_pos_trivial) simp_all
  ultimately show ?thesis by (simp add: unat_eq_nat_uint)
qed

lemma convert_plain:
  assumes "conversion zero width d args = Some (t, rest)" "plain_conversion zero width d args"
  shows "convert d width (if zero then CHR ''0'' else CHR '' '') args k = Some (rest, sink_puts k t)"
proof -
  have w: "width \<le> PRINTF_NUM_BUF_SIZE" using assms(2) by (simp add: plain_conversion_def)
  note P = put_uint_puts [OF w bases(1) digits_0(1)] put_uint_puts [OF w bases(2) digits_0(2)] put_uint_puts [OF w bases(2) digits_0(3)]
  show ?thesis
  proof (cases "d = CHR ''%''")
    case True
    then show ?thesis using assms(1) by (auto simp: conversion_def convert_def putc_puts split: if_splits)
  next
    case False
    then obtain a where args: "args = a # rest" using assms(1) by (auto simp: conversion_def split: list.splits va.splits if_splits)
    show ?thesis
    proof (cases a)
      case (Str_Arg s)
      then show ?thesis using assms False args
        by (auto simp: conversion_def convert_def plain_conversion_def justify_def split: if_splits)
    next
      case (Word_Arg n)
      then have t: "word_text zero width d n = Some t" using assms(1) False args by (simp add: conversion_def)
      show ?thesis
      proof (cases "d = CHR ''d'' \<and> sint n < 0")
        case True
        let ?ds = "nat_digits 10 decimal_digits (unat (- n))"
        have m: "nat (- sint n) = unat (- n)" using signed_magnitude [of n] True by simp
        have n: "n \<noteq> 0x80000000" "zero \<or> width \<le> Suc (length ?ds)" using assms(2) True args Word_Arg
          by (simp_all add: plain_conversion_def m)
        have "width - 1 \<le> PRINTF_NUM_BUF_SIZE" using w by simp
        note Q = put_uint_puts [OF this bases(1) digits_0(1)]
        have "t = CHR ''-'' # replicate (width - Suc (length ?ds)) (CHR ''0'') @ ?ds"
          using t True n(2) by (auto simp: word_text_def m justify_def Let_def)
        moreover have "(if 0 < width then width - 1 else 0) = width - 1" by simp
        ultimately show ?thesis using True args Word_Arg n
          by (auto simp: convert_def Q [unfolded One_nat_def] putc_puts)
      next
        case False
        have m: "nat (sint n) = unat n" if "\<not> sint n < 0" using signed_magnitude [of n] that by simp
        show ?thesis using False t args Word_Arg P assms(2)
          by (auto simp: word_text_def convert_def justify_def Let_def plain_conversion_def putc_puts m split: if_splits)
      qed
    qed
  qed
qed

lemma conversion_rest: "conversion zero width d args = Some (t, rest) \<Longrightarrow> rest = (if d = CHR ''%'' then args else tl args)"
  by (auto simp: conversion_def split: list.splits va.splits if_splits)

lemma foldl_digits_le: "w \<le> foldl (\<lambda>w c. w * 10 + (of_char c - of_char (CHR ''0''))) (w :: nat) ds"
proof (induction ds arbitrary: w)
  case (Cons c ds)
  have "w \<le> w * 10 + (of_char c - of_char (CHR ''0''))" by simp
  with Cons show ?case by (simp only: foldl_Cons) (meson le_trans)
qed simp

lemma width_loop_digits:
  assumes "foldl (\<lambda>w c. w * 10 + (of_char c - of_char (CHR ''0''))) w (takeWhile is_digit fmt) < 2 ^ 31"
  shows "width_loop fmt w = Some (foldl (\<lambda>w c. w * 10 + (of_char c - of_char (CHR ''0''))) w (takeWhile is_digit fmt), dropWhile is_digit fmt)"
  using assms
proof (induction fmt w rule: width_loop.induct)
  case (2 c fmt w)
  then show ?case
    using foldl_digits_le [of "w * 10 + (of_char c - of_char (CHR ''0''))" "takeWhile is_digit fmt"] by (auto simp: Let_def)
qed simp

lemma pad_of_flag: "pad_of fmt = (if zero_flag fmt then CHR ''0'' else CHR '' '', after_flag fmt)"
  by (cases fmt) (auto simp: pad_of_def zero_flag_def after_flag_def)

lemma format_loop_render:
  assumes "parse fmt = Some ds" "render ds args = Some t" "plain ds args" "CHR 0x00 \<notin> set t" "sink_ok k"
  shows "format_loop fmt args k = Some (sink_puts k t)"
  using assms
proof (induction fmt arbitrary: ds args k t rule: parse.induct)
  case 1
  then show ?case by (simp add: format_loop.simps sink_puts_def)
next
  case (2 c cs)
  show ?case
  proof (cases "c = CHR ''%''")
    case False
    with "2.prems"(1) obtain es where ds: "parse cs = Some es" "ds = Literal c # es" by auto
    with "2.prems"(2) obtain u where u: "render es args = Some u" "t = c # u" by auto
    have n: "c \<noteq> CHR 0x00" "CHR 0x00 \<notin> set u" using "2.prems"(4) u(2) by auto
    have "format_loop cs args (sink_putc k c) = Some (sink_puts (sink_putc k c) u)"
      using "2.IH"(1) [OF False ds(1) u(1) _ n(2)] "2.prems"(3) ds(2) putc_ok [OF "2.prems"(5) n(1)] by simp
    then show ?thesis using False u(2) by (subst format_loop.simps) (simp add: putc_puts)
  next
    case True
    let ?z = "zero_flag cs" and ?w = "width_value (takeWhile is_digit (after_flag cs))"
    from "2.prems"(1) True obtain d r es where
      d: "dropWhile is_digit (after_flag cs) = d # r" and ds: "parse r = Some es" "ds = Conversion ?z ?w d # es"
      by (auto split: list.splits)
    with "2.prems"(2) obtain v as u where r: "conversion ?z ?w d args = Some (v, as)" "render es as = Some u" "t = v @ u"
      by (auto split: option.splits)
    have p: "plain_conversion ?z ?w d args" "plain es as" using "2.prems"(3) ds(2) conversion_rest [OF r(1)] by auto
    have "?w < 2 ^ 31" using p(1) by (simp add: plain_conversion_def PRINTF_NUM_BUF_SIZE_def)
    then have w: "width_loop (after_flag cs) 0 = Some (?w, d # r)"
      using width_loop_digits [of 0 "after_flag cs"] d by (simp add: width_value_def)
    have n: "CHR 0x00 \<notin> set v" "CHR 0x00 \<notin> set u" using "2.prems"(4) r(3) by auto
    have "format_loop r as (sink_puts k v) = Some (sink_puts (sink_puts k v) u)"
      using "2.IH"(2) [OF _ d ds(1) r(2) p(2) n(2)] True puts_ok [OF "2.prems"(5) n(1)] by simp
    then show ?thesis using True w r(3) convert_plain [OF r(1) p(1)]
      by (subst format_loop.simps) (simp add: pad_of_flag putc_puts)
  qed
qed

text \<open>Claim C29 (equivalence). \<open>uart_vprintf\<close> prints what the format string means. Let the format string parse, let the arguments match its conversions, and let
  every conversion be plain: a width of at most 16 and only on numbers, the smallest \<open>int32_t\<close> not printed with \<open>%d\<close>, and no negative number that is to be padded with blanks
  (\<open>blank_padded_negative\<close> below is what happens then). Let the rendered text contain no zero byte. Then the calls of \<open>uart_channel_print\<close> concatenate to
  exactly the rendered text, in order, none of them empty and none longer than 31 characters.\<close>

theorem uart_vprintf_renders:
  assumes "parse fmt = Some ds" "render ds args = Some t" "plain ds args" "CHR 0x00 \<notin> set t"
  shows "\<exists>chunks. uart_vprintf channel fmt args = Some chunks \<and> concat chunks = t \<and> list_all (\<lambda>c. c \<noteq> [] \<and> length c \<le> 31) chunks"
proof -
  let ?k = "\<lparr>sink_channel = channel, sink_buf = replicate PRINTF_CHUNK_SIZE (CHR 0x00), sink_pos = 0, sent = []\<rparr>"
  have k: "sink_ok ?k" "taken ?k = []" by (simp_all add: sink_ok_def taken_def PRINTF_CHUNK_SIZE_def)
  note P = puts_ok [OF k(1) assms(4)]
  note F = flush_ok [OF conjunct1 [OF P]]
  have "uart_vprintf channel fmt args = Some (sent (sink_flush (sink_puts ?k t)))"
    using format_loop_render [OF assms k(1)] by (simp add: uart_vprintf_def)
  moreover have "taken (sink_flush (sink_puts ?k t)) = t" "sink_pos (sink_flush (sink_puts ?k t)) = 0" "sink_ok (sink_flush (sink_puts ?k t))"
    using F P k(2) by simp_all
  then have "concat (sent (sink_flush (sink_puts ?k t))) = t" "list_all (\<lambda>c. c \<noteq> [] \<and> length c \<le> 31) (sent (sink_flush (sink_puts ?k t)))"
    unfolding taken_def sink_ok_def by simp_all
  ultimately show ?thesis by blast
qed

text \<open>The witness: a string, a zero-padded hexadecimal address and a zero-padded negative number.\<close>

lemmas render_simps = word_text_def conversion_def justify_def nat_digits.simps decimal_digits_def upper_digits_def zero_flag_def after_flag_def width_value_def
  is_digit_def PRINTF_NUM_BUF_SIZE_def plain_conversion_def

definition boot_args :: "va list" where
  "boot_args = [Str_Arg (Some ''A''), Word_Arg 0x88000, Word_Arg 0xFFFFFFF9]"

definition boot_directives :: "directive list" where
  "boot_directives = map Literal ''slot '' @ [Conversion False 0 (CHR ''s'')] @ map Literal '' at '' @ [Conversion True 8 (CHR ''X'')] @ map Literal '': '' @
     [Conversion True 4 (CHR ''d'')]"

lemma replicate_few: "replicate 2 x = [x, x]" "replicate 3 x = [x, x, x]" "replicate 32 x = x # x # x # x # x # x # replicate 26 x"
  by (simp_all add: eval_nat_numeral)

lemma boot_example:
  "parse ''slot %s at %08X: %04d'' = Some boot_directives"
  "render boot_directives boot_args = Some ''slot A at 00088000: -007''"
  "plain boot_directives boot_args"
  by (simp_all add: boot_directives_def boot_args_def render_simps replicate_few)

theorem uart_vprintf_renders_witness:
  "\<exists>chunks. uart_vprintf 0 ''slot %s at %08X: %04d'' boot_args = Some chunks \<and> concat chunks = ''slot A at 00088000: -007''"
  using uart_vprintf_renders [OF boot_example, of 0] by auto

text \<open>A negative number padded with blanks is the exception: the standard puts the blanks before the sign, the code after it.\<close>

lemma blank_padded_negative:
  "parse ''%5d'' = Some [Conversion False 5 (CHR ''d'')]"
  "render [Conversion False 5 (CHR ''d'')] [Word_Arg 0xFFFFFFF9] = Some ''   -7''"
  "uart_vprintf channel ''%5d'' [Word_Arg 0xFFFFFFF9] = Some [''-   7'']"
proof -
  have n: "- 4294967289 = (7 :: u32)" by code_simp
  show "parse ''%5d'' = Some [Conversion False 5 (CHR ''d'')]" by (simp add: render_simps)
  show "render [Conversion False 5 (CHR ''d'')] [Word_Arg 0xFFFFFFF9] = Some ''   -7''" by (simp add: render_simps replicate_few)
  show "uart_vprintf channel ''%5d'' [Word_Arg 0xFFFFFFF9] = Some [''-   7'']"
    by (simp add: render_simps uart_vprintf_def format_loop.simps pad_of_def convert_def sink_put_uint_def format_uint_def digit_loop_step digit_loop_0
        sink_puts_def sink_putc_def sink_flush_def PRINTF_CHUNK_SIZE_def n numeral_3_eq_3 Let_def replicate_few(3))
qed

end
