(* ===== verification/Dma.thy ===== *)
theory Dma
  imports Uart
begin

unbundle bit_operations_syntax

text \<open>
  \<^verbatim>\<open>drivers/dma/dma.c\<close>: the legacy DMA controller at register level. A control block is known to the engine by its address; what a transfer leaves in
  memory is a parameter of the self-test.
\<close>

definition DMA_BASE :: u32 where "DMA_BASE = 0xFE007000"
definition DMA_CHANNEL :: "u8 \<Rightarrow> u32" where "DMA_CHANNEL n = DMA_BASE + ucast n * 0x100"
definition DMA_ENABLE :: u32 where "DMA_ENABLE = DMA_BASE + 0xFF0"
definition DMA_CS :: u32 where "DMA_CS = 0x00"
definition DMA_CONBLK_AD :: u32 where "DMA_CONBLK_AD = 0x04"
definition DMA_DEBUG :: u32 where "DMA_DEBUG = 0x20"
definition DMA_CS_ACTIVE :: u32 where "DMA_CS_ACTIVE = push_bit 0 1"
definition DMA_CS_END :: u32 where "DMA_CS_END = push_bit 1 1"
definition DMA_CS_INT :: u32 where "DMA_CS_INT = push_bit 2 1"
definition DMA_CS_ERROR :: u32 where "DMA_CS_ERROR = push_bit 8 1"
definition DMA_CS_RESET :: u32 where "DMA_CS_RESET = push_bit 31 1"
definition DMA_DEBUG_FIFO_ERROR :: u32 where "DMA_DEBUG_FIFO_ERROR = push_bit 1 1"
definition DMA_DEBUG_READ_ERROR :: u32 where "DMA_DEBUG_READ_ERROR = push_bit 2 1"
definition DMA_DEBUG_ERROR_MASK :: u32 where "DMA_DEBUG_ERROR_MASK = DMA_DEBUG_FIFO_ERROR OR DMA_DEBUG_READ_ERROR"
definition DMA_TI_INTEN :: u32 where "DMA_TI_INTEN = push_bit 0 1"
definition DMA_TI_WAIT_RESP :: u32 where "DMA_TI_WAIT_RESP = push_bit 3 1"
definition DMA_TI_DEST_INC :: u32 where "DMA_TI_DEST_INC = push_bit 4 1"
definition DMA_TI_DEST_DREQ :: u32 where "DMA_TI_DEST_DREQ = push_bit 6 1"
definition DMA_TI_SRC_INC :: u32 where "DMA_TI_SRC_INC = push_bit 8 1"
definition DMA_TI_PERMAP :: "u32 \<Rightarrow> u32" where "DMA_TI_PERMAP dreq = push_bit 16 (dreq AND 0x1F)"
definition DMA_DREQ_UART_TX :: u32 where "DMA_DREQ_UART_TX = 12"
definition DMA_IRQ_INTID :: "u8 \<Rightarrow> u32" where "DMA_IRQ_INTID ch = 112 + ucast ch"
definition DMA_BUS_ALIAS :: u32 where "DMA_BUS_ALIAS = 0xC0000000"
definition BUS_ADDRESS :: "u32 \<Rightarrow> u32" where "BUS_ADDRESS a = a AND NOT 0xC0000000 OR DMA_BUS_ALIAS"
definition PERIPHERAL_BUS_ADDRESS :: "u32 \<Rightarrow> u32" where "PERIPHERAL_BUS_ADDRESS a = a AND 0x00FFFFFF OR 0x7E000000"
definition DMA_RESET_SPINS :: u32 where "DMA_RESET_SPINS = 100000"
definition DMA_SELFTEST_LEN :: u32 where "DMA_SELFTEST_LEN = 256"

record DmaControlBlock =
  ti :: u32
  source_ad :: u32
  dest_ad :: u32
  txfr_len :: u32
  stride :: u32
  nextconbk :: u32

text \<open>\<open>while ((reg & mask) && spins) spins--\<close>; what is left of the spins.\<close>

function spin_down :: "u32 \<Rightarrow> u32 \<Rightarrow> u32 \<Rightarrow> ('z machine_scheme, u32) state" where
  "spin_down reg msk spins = do {
     v \<leftarrow> rd reg;
     if v AND msk \<noteq> 0 \<and> spins > 0 then spin_down reg msk (spins - 1) else return spins }"
  by pat_completeness auto

termination
  by (relation "measure (\<lambda>(a, m, c). unat c)") (auto simp: measure_unat word_neq_0_conv)

declare spin_down.simps [simp del]

definition dma_channel_init :: "u8 \<Rightarrow> ('z machine_scheme, unit) state" where
  "dma_channel_init channel = do {
     set_bits DMA_ENABLE (push_bit (unat channel) 1);
     let ch = DMA_CHANNEL channel;
     wr (ch + DMA_CS) DMA_CS_RESET;
     _ \<leftarrow> spin_down (ch + DMA_CS) DMA_CS_RESET DMA_RESET_SPINS;
     wr (ch + DMA_CS) (DMA_CS_END OR DMA_CS_INT) }"

definition dma_start :: "u8 \<Rightarrow> u32 \<Rightarrow> ('z machine_scheme, unit) state" where
  "dma_start channel cb = do {
     let ch = DMA_CHANNEL channel;
     wr (ch + DMA_CS) (DMA_CS_END OR DMA_CS_INT);
     wr (ch + DMA_CONBLK_AD) (BUS_ADDRESS cb);
     wr (ch + DMA_CS) DMA_CS_ACTIVE }"

definition dma_wait :: "u8 \<Rightarrow> u32 \<Rightarrow> ('z machine_scheme, StatusCode) state" where
  "dma_wait channel spin_limit = do {
     let ch = DMA_CHANNEL channel;
     _ \<leftarrow> spin_down (ch + DMA_CS) DMA_CS_ACTIVE spin_limit;
     cs \<leftarrow> rd (ch + DMA_CS);
     if cs AND DMA_CS_ACTIVE \<noteq> 0 then return E_TIMED_OUT
     else do {
       cs \<leftarrow> rd (ch + DMA_CS);
       if cs AND DMA_CS_ERROR \<noteq> 0 then return E_CORRUPTED
       else do {
         d \<leftarrow> rd (ch + DMA_DEBUG);
         return (if d AND DMA_DEBUG_ERROR_MASK \<noteq> 0 then E_CORRUPTED else E_OK) } } }"

definition selftest_src :: "u8 list" where
  "selftest_src = map (\<lambda>i. of_nat i XOR 0xA5) [0..<unat DMA_SELFTEST_LEN]"

definition selftest_cb :: "u32 \<Rightarrow> u32 \<Rightarrow> DmaControlBlock" where
  "selftest_cb src dst = \<lparr>ti = DMA_TI_SRC_INC OR DMA_TI_DEST_INC OR DMA_TI_WAIT_RESP, source_ad = BUS_ADDRESS src, dest_ad = BUS_ADDRESS dst,
     txfr_len = DMA_SELFTEST_LEN, stride = 0, nextconbk = 0\<rparr>"

text \<open>\<open>engine cb src\<close> is what a transfer described by \<open>cb\<close> with the source bytes \<open>src\<close> leaves at the destination.\<close>

definition dma_selftest :: "(DmaControlBlock \<Rightarrow> u8 list \<Rightarrow> u8 list) \<Rightarrow> u32 \<Rightarrow> u32 \<Rightarrow> u32 \<Rightarrow> u8 \<Rightarrow> ('z machine_scheme, StatusCode) state" where
  "dma_selftest engine cb src dst channel = do {
     dma_channel_init channel;
     dma_start channel cb;
     st \<leftarrow> dma_wait channel 1000000;
     _ \<leftarrow> rd (DMA_CHANNEL channel + DMA_CS);
     _ \<leftarrow> rd (DMA_CHANNEL channel + DMA_DEBUG);
     if st \<noteq> E_OK then return st
     else return (if engine (selftest_cb src dst) selftest_src \<noteq> selftest_src then E_CORRUPTED else E_OK) }"

end
