(* ===== verification/Uart_Tx.thy ===== *)
theory Uart_Tx
  imports Irq Dma Dfu_Trigger
begin

unbundle bit_operations_syntax

text \<open>
  \<^verbatim>\<open>drivers/uart/uart.c\<close>, the full build: the ring buffer, the task that drains it by DMA or byte by byte, and the two interrupt handlers. The
  kernel's state and the driver's are a pair; \<open>uart_dma_done\<close> and \<open>uart_data_ready\<close> name the two semaphores. The definitions here
  are those of a core alone; \<^verbatim>\<open>Uart_Tx_Props\<close> interleaves producers and task access by access, as the task does not take \<open>uart_buf_lock\<close>.
\<close>

subsection \<open>The ring\<close>

definition UART_BUFFER_SIZE :: nat where "UART_BUFFER_SIZE = 2056"
definition UART_IRQ_INTID :: u32 where "UART_IRQ_INTID = 153"
definition DMACR :: u32 where "DMACR = 0x48"
definition DMACR_TXDMAE :: u32 where "DMACR_TXDMAE = push_bit 1 1"
definition IMSC_RXIM :: u32 where "IMSC_RXIM = push_bit 4 1"
definition IMSC_RTIM :: u32 where "IMSC_RTIM = push_bit 6 1"
definition ICR_RXIC :: u32 where "ICR_RXIC = push_bit 4 1"
definition ICR_RTIC :: u32 where "ICR_RTIC = push_bit 6 1"

text \<open>\<open>p_uart_buf_left\<close> is the slot consumed last, \<open>p_uart_buf_right\<close> the one produced last. The index arithmetic is C's, on \<open>int\<close>.\<close>

record uart_ring =
  uart_buf :: "nat \<Rightarrow> u32"
  p_uart_buf_left :: u16
  p_uart_buf_right :: u16

definition ring_put :: "u8 \<Rightarrow> uart_ring \<Rightarrow> uart_ring" where
  "ring_put byte r = (
     let nxt = of_nat ((unat (p_uart_buf_right r) + 1) mod UART_BUFFER_SIZE)
     in if nxt = p_uart_buf_left r then r
        else r\<lparr>uart_buf := (uart_buf r)(unat nxt := ucast byte), p_uart_buf_right := nxt\<rparr>)"

fun ring_puts :: "u8 list \<Rightarrow> uart_ring \<Rightarrow> uart_ring" where
  "ring_puts [] r = r"
| "ring_puts (b # bs) r = ring_puts bs (ring_put b r)"

definition tx_extent :: "uart_ring \<Rightarrow> u16 \<times> u16 \<times> u16" where
  "tx_extent r = (
     let left = p_uart_buf_left r;
         start = of_nat ((unat left + 1) mod UART_BUFFER_SIZE);
         avail = of_int ((uint (p_uart_buf_right r) - uint left + int UART_BUFFER_SIZE) mod int UART_BUFFER_SIZE);
         run = (if (ucast start :: u32) + ucast avail > of_nat UART_BUFFER_SIZE then of_nat (UART_BUFFER_SIZE - unat start) else avail)
     in (left, start, run))"

definition tx_advance :: "u16 \<Rightarrow> u16 \<Rightarrow> uart_ring \<Rightarrow> uart_ring" where
  "tx_advance left run r = r\<lparr>p_uart_buf_left := of_nat ((unat left + unat run) mod UART_BUFFER_SIZE)\<rparr>"

definition pio_advance :: "uart_ring \<Rightarrow> uart_ring" where
  "pio_advance r = r\<lparr>p_uart_buf_left := of_nat ((unat (p_uart_buf_left r) + 1) mod UART_BUFFER_SIZE)\<rparr>"

definition pio_byte :: "uart_ring \<Rightarrow> u8" where
  "pio_byte r = ucast (uart_buf r (unat (p_uart_buf_left r)))"

definition ring_empty :: "uart_ring \<Rightarrow> bool" where
  "ring_empty r \<longleftrightarrow> p_uart_buf_right r = p_uart_buf_left r"

subsection \<open>The driver\<close>

record uart_tx = uart +
  tx_ring :: uart_ring
  uart_task_started :: bool
  s_buffered_channel :: u8
  uart_tx_cb :: DmaControlBlock

definition uart_data_ready :: sptr where "uart_data_ready = Sem 100"
definition uart_dma_done :: sptr where "uart_dma_done = Sem 101"

definition uart_irq_intid :: "nat \<Rightarrow> u32" where
  "uart_irq_intid channel = (if channel = 0 then UART_IRQ_INTID else 0)"

text \<open>Initialisation in this build also forgets a running task. The configuration of the buffered channel is read where the code reads it; \<open>the\<close> of
  nothing is the code's access through a null pointer, which the checks of \<open>uart_channel_task_start\<close> rule out.\<close>

definition uart_channel_init_full :: "u8 \<Rightarrow> UartConfig option \<Rightarrow> ('z uart_tx_scheme, StatusCode) state" where
  "uart_channel_init_full channel config = do {
     ret \<leftarrow> uart_channel_init channel config;
     if ret \<noteq> E_OK then return ret
     else do {
       b \<leftarrow> gets s_buffered_channel;
       (if channel = b then upd (\<lambda>s. s\<lparr>uart_task_started := False\<rparr>) else return ());
       return E_OK } }"

definition tx_control_block :: "u32 \<Rightarrow> u8 \<Rightarrow> u16 \<Rightarrow> u16 \<Rightarrow> DmaControlBlock" where
  "tx_control_block buf_addr channel start len =
     \<lparr>ti = DMA_TI_INTEN OR DMA_TI_WAIT_RESP OR DMA_TI_DEST_DREQ OR DMA_TI_SRC_INC OR DMA_TI_PERMAP DMA_DREQ_UART_TX,
      source_ad = BUS_ADDRESS (buf_addr + 4 * ucast start),
      dest_ad = PERIPHERAL_BUS_ADDRESS (the (uart_hw_table (unat channel)) + DR),
      txfr_len = ucast len * 4, stride = 0, nextconbk = 0\<rparr>"

definition uart_dma_tx_run :: "u32 \<Rightarrow> u32 \<Rightarrow> u8 \<Rightarrow> u16 \<Rightarrow> u16 \<Rightarrow> ('z uart_tx_scheme, unit) state" where
  "uart_dma_tx_run buf_addr cb_addr channel start len = do {
     cs \<leftarrow> gets s_uart_configs;
     upd (\<lambda>s. s\<lparr>uart_tx_cb := tx_control_block buf_addr channel start len\<rparr>);
     dma_start (dma_channel (the (cs (unat channel)))) cb_addr }"

definition uart_dma_irq_handler :: "kernel \<times> 'z uart_tx_scheme \<Rightarrow> (kernel \<times> 'z uart_tx_scheme) option" where
  "uart_dma_irq_handler st = (case st of (k, s) \<Rightarrow>
     let config = the (s_uart_configs s (unat (s_buffered_channel s)));
         s = snd (run_state (wr (DMA_CHANNEL (dma_channel config) + DMA_CS) DMA_CS_INT) s)
     in do { (_, k) \<leftarrow> semaphore_give uart_dma_done k; Some (k, s) })"

text \<open>Receiving: every byte goes to the update-key watch, then to the application's handler if there is one.\<close>

partial_function (option) rx_irq_loop :: "u32 \<Rightarrow> (u8 \<Rightarrow> 'k \<Rightarrow> 'k option) \<Rightarrow> 'k \<Rightarrow> 'z machine_scheme \<Rightarrow> ('k \<times> 'z machine_scheme) option" where
  "rx_irq_loop regs deliver k s =
     (case run_state (rd (regs + FR)) s of (v, s) \<Rightarrow>
        if v AND FR_RXFE \<noteq> 0 then Some (k, s)
        else (case run_state (rd (regs + DR)) s of (d, s) \<Rightarrow>
          (case deliver (ucast (d AND 0xFF)) k of None \<Rightarrow> None | Some k \<Rightarrow> rx_irq_loop regs deliver k s)))"

definition deliver_byte :: "sptr \<Rightarrow> (u8 \<Rightarrow> kernel \<Rightarrow> kernel) option \<Rightarrow> u8 \<Rightarrow> u32 \<times> kernel \<Rightarrow> (u32 \<times> kernel) option" where
  "deliver_byte dfu_sem uart_rx_handler b st = do {
     (shift_reg, k) \<leftarrow> dfu_trigger_feed_isr dfu_sem b st;
     Some (shift_reg, case uart_rx_handler of Some h \<Rightarrow> h b k | None \<Rightarrow> k) }"

definition uart_rx_irq_handler ::
    "sptr \<Rightarrow> (u8 \<Rightarrow> kernel \<Rightarrow> kernel) option \<Rightarrow> u32 \<times> kernel \<Rightarrow> 'z uart_tx_scheme \<Rightarrow> ((u32 \<times> kernel) \<times> 'z uart_tx_scheme) option" where
  "uart_rx_irq_handler dfu_sem uart_rx_handler st s = (
     let regs = the (uart_hw_table (unat (s_buffered_channel s)))
     in do {
       (st, s) \<leftarrow> rx_irq_loop regs (deliver_byte dfu_sem uart_rx_handler) st s;
       Some (st, snd (run_state (wr (regs + ICR) (ICR_RXIC OR ICR_RTIC)) s)) })"

datatype irq_fn = UartDmaIrq | UartRxIrq

text \<open>Starting the task. The number \<open>c\<close> of the calling core, the entry point and the exit trap are arguments, as for \<open>task_create\<close>.\<close>

definition uart_channel_task_start ::
    "u32 \<Rightarrow> core \<Rightarrow> u32 \<Rightarrow> u8 \<Rightarrow> kernel \<times> (u32 \<Rightarrow> irq_fn option) \<times> 'z uart_tx_scheme \<Rightarrow>
     StatusCode \<times> kernel \<times> (u32 \<Rightarrow> irq_fn option) \<times> 'z uart_tx_scheme" where
  "uart_channel_task_start task_exit_trap c uart_tx_task_entry channel st = (case st of (k, g_handlers, s) \<Rightarrow>
     if channel \<ge> UART_NUM_CHANNELS \<or> s_uart_configs s (unat channel) = None then (E_NOT_INITIALIZED, st)
     else
       let config = the (s_uart_configs s (unat channel)); regs = the (uart_hw_table (unat channel)); intid = uart_irq_intid (unat channel)
       in if uart_mode config \<noteq> UART_MODE_BUFFERED_TASK then (E_INVALID_ARGS, st)
          else if uart_task_started s \<and> s_buffered_channel s \<noteq> channel then (E_RESOURCE_EXHAUSTED, st)
          else if rx_pin config \<noteq> UART_PIN_NONE \<and> intid = 0 then (E_NOTSUPP, st)
          else
            let s = s\<lparr>s_buffered_channel := channel\<rparr>;
                k = semaphore_init uart_data_ready 1 0 k;
                dma = is_dma_enabled config; dma_intid = DMA_IRQ_INTID (dma_channel config);
                k = (if dma then semaphore_init uart_dma_done 1 0 k else k);
                s = (if dma then snd (run_state (do { wr (regs + DMACR) DMACR_TXDMAE; dma_channel_init (dma_channel config) }) s) else s);
                g_handlers = (if dma then snd (irq_register dma_intid (Some UartDmaIrq) g_handlers) else g_handlers);
                s = (if dma then snd (run_state (gic_enable_spi dma_intid 0x80) s) else s);
                rx = (rx_pin config \<noteq> UART_PIN_NONE);
                s = (if rx then snd (run_state (do { wr (regs + ICR) ICR_ALL; set_bits (regs + IMSC) (IMSC_RXIM OR IMSC_RTIM) }) s) else s);
                g_handlers = (if rx then snd (irq_register intid (Some UartRxIrq) g_handlers) else g_handlers);
                s = (if rx then snd (run_state (gic_enable_spi intid 0x80) s) else s)
            in (case task_create task_exit_trap c uart_tx_task_entry (task_stack_words config) (unat (task_priority config)) 0 k of
                 (ret, _, k) \<Rightarrow> (ret, k, g_handlers, if ret = E_OK then s\<lparr>uart_task_started := True\<rparr> else s)))"

definition uart_task_start where
  "uart_task_start task_exit_trap c uart_tx_task_entry st = uart_channel_task_start task_exit_trap c uart_tx_task_entry UART_CHANNEL_PRINT st"

text \<open>The producers.\<close>

definition uart_channel_tx :: "u8 \<Rightarrow> u8 \<Rightarrow> 'z uart_tx_scheme \<Rightarrow> 'z uart_tx_scheme option" where
  "uart_channel_tx channel byte s = (
     if \<not> uart_task_started s \<or> channel \<noteq> s_buffered_channel s then uart_channel_tx_raw channel byte s
     else Some (s\<lparr>tx_ring := ring_put byte (tx_ring s)\<rparr>))"

fun tx_each :: "(u8 \<Rightarrow> 's \<Rightarrow> 's option) \<Rightarrow> u8 list \<Rightarrow> 's \<Rightarrow> 's option" where
  "tx_each f [] s = Some s"
| "tx_each f (b # bs) s = do { s \<leftarrow> f b s; tx_each f bs s }"

definition uart_channel_send_byte :: "u8 \<Rightarrow> u8 \<Rightarrow> kernel \<times> 'z uart_tx_scheme \<Rightarrow> (kernel \<times> 'z uart_tx_scheme) option" where
  "uart_channel_send_byte channel byte st = (case st of (k, s) \<Rightarrow>
     if uart_task_started s \<and> channel = s_buffered_channel s then do {
       s \<leftarrow> uart_channel_tx channel byte s;
       (_, k) \<leftarrow> semaphore_give uart_data_ready k;
       Some (k, s) }
     else do { s \<leftarrow> uart_channel_tx_raw channel byte s; Some (k, s) })"

definition uart_send_byte :: "u8 \<Rightarrow> kernel \<times> 'z uart_tx_scheme \<Rightarrow> (kernel \<times> 'z uart_tx_scheme) option" where
  "uart_send_byte byte st = uart_channel_send_byte UART_CHANNEL_PRINT byte st"

definition uart_channel_print_full :: "u8 \<Rightarrow> u8 list \<Rightarrow> kernel \<times> 'z uart_tx_scheme \<Rightarrow> (kernel \<times> 'z uart_tx_scheme) option" where
  "uart_channel_print_full channel str st = (case st of (k, s) \<Rightarrow>
     if uart_task_started s \<and> channel = s_buffered_channel s then do {
       s \<leftarrow> tx_each (uart_channel_tx channel) str s;
       (_, k) \<leftarrow> semaphore_give uart_data_ready k;
       Some (k, s) }
     else do { s \<leftarrow> tx_each (uart_channel_tx_raw channel) str s; Some (k, s) })"

lemma tx_each_buffered:
  "uart_task_started s \<Longrightarrow> s_buffered_channel s = channel \<Longrightarrow>
   tx_each (uart_channel_tx channel) bs s = Some (s\<lparr>tx_ring := ring_puts bs (tx_ring s)\<rparr>)"
  by (induction bs arbitrary: s) (simp_all add: uart_channel_tx_def)

end
