(* ===== verification/Uart_Tx_Props.thy ===== *)
theory Uart_Tx_Props
  imports Uart_Tx Semaphore_Props
begin

unbundle bit_operations_syntax

text \<open>
  The buffered transmit path of \<^verbatim>\<open>drivers/uart/uart.c\<close> is correct: the ring is a bounded list, and for every interleaving of producers, task, DMA engine and
  interrupt the bytes leave in order. Draining ends with everything sent.
\<close>

subsection \<open>The ring as a bounded list\<close>

definition ring_ok :: "uart_ring \<Rightarrow> bool" where
  "ring_ok r \<longleftrightarrow> unat (p_uart_buf_left r) < UART_BUFFER_SIZE \<and> unat (p_uart_buf_right r) < UART_BUFFER_SIZE"

definition ring_count :: "uart_ring \<Rightarrow> nat" where
  "ring_count r = (unat (p_uart_buf_right r) + UART_BUFFER_SIZE - unat (p_uart_buf_left r)) mod UART_BUFFER_SIZE"

definition slot :: "uart_ring \<Rightarrow> nat \<Rightarrow> nat" where
  "slot r i = (unat (p_uart_buf_left r) + 1 + i) mod UART_BUFFER_SIZE"

definition pending :: "uart_ring \<Rightarrow> u8 list" where
  "pending r = map (\<lambda>i. ucast (uart_buf r (slot r i))) [0..<ring_count r]"

lemma length_pending [simp]: "length (pending r) = ring_count r"
  by (simp add: pending_def)

lemma unat_of_nat16: "n < 65536 \<Longrightarrow> unat (of_nat n :: u16) = n"
  by (simp add: unat_of_nat take_bit_nat_eq_self)

lemma mod_size_small [simp]: "unat (of_nat (n mod UART_BUFFER_SIZE) :: u16) = n mod UART_BUFFER_SIZE"
  by (rule unat_of_nat16) (simp add: UART_BUFFER_SIZE_def less_trans [OF mod_less_divisor])

lemma ring_count_less: "ring_count r < UART_BUFFER_SIZE"
  by (simp add: ring_count_def UART_BUFFER_SIZE_def)

lemma mod_size_if: "n < 2 * UART_BUFFER_SIZE \<Longrightarrow> n mod UART_BUFFER_SIZE = (if n < UART_BUFFER_SIZE then n else n - UART_BUFFER_SIZE)"
  by (simp add: mod_if)

lemma ring_count_if:
  "ring_ok r \<Longrightarrow> ring_count r = (if unat (p_uart_buf_left r) \<le> unat (p_uart_buf_right r) then unat (p_uart_buf_right r) - unat (p_uart_buf_left r)
     else unat (p_uart_buf_right r) + UART_BUFFER_SIZE - unat (p_uart_buf_left r))"
  by (auto simp: ring_count_def ring_ok_def mod_size_if)

lemma ring_empty_count: "ring_ok r \<Longrightarrow> ring_empty r \<longleftrightarrow> ring_count r = 0"
  by (auto simp: ring_count_if ring_empty_def ring_ok_def word_unat_eq_iff)

lemma pending_empty: "ring_ok r \<Longrightarrow> ring_empty r \<longleftrightarrow> pending r = []"
  by (simp add: ring_empty_count pending_def)

text \<open>A byte goes to the end of the list, unless 2055 bytes are pending: then it is dropped.\<close>

lemma ring_put_full:
  assumes "ring_ok r"
  shows "of_nat ((unat (p_uart_buf_right r) + 1) mod UART_BUFFER_SIZE) = p_uart_buf_left r \<longleftrightarrow> ring_count r = UART_BUFFER_SIZE - 1"
proof -
  have "of_nat ((unat (p_uart_buf_right r) + 1) mod UART_BUFFER_SIZE) = p_uart_buf_left r \<longleftrightarrow>
      (unat (p_uart_buf_right r) + 1) mod UART_BUFFER_SIZE = unat (p_uart_buf_left r)"
    by (simp only: word_unat_eq_iff mod_size_small)
  also have "\<dots> \<longleftrightarrow> ring_count r = UART_BUFFER_SIZE - 1"
    using assms by (auto simp: ring_count_if [OF assms] ring_ok_def mod_size_if split: if_splits)
  finally show ?thesis .
qed

lemma ring_put_spec:
  assumes "ring_ok r"
  shows "ring_ok (ring_put b r)" "pending (ring_put b r) = (if ring_count r < UART_BUFFER_SIZE - 1 then pending r @ [b] else pending r)"
    "p_uart_buf_left (ring_put b r) = p_uart_buf_left r"
    "\<And>i. i < ring_count r \<or> ring_count r = UART_BUFFER_SIZE - 1 \<Longrightarrow> uart_buf (ring_put b r) (slot r i) = uart_buf r (slot r i)"
    "uart_buf (ring_put b r) (unat (p_uart_buf_left r)) = uart_buf r (unat (p_uart_buf_left r))"
proof -
  let ?R = "unat (p_uart_buf_right r)" and ?L = "unat (p_uart_buf_left r)"
  define n :: u16 where "n = of_nat ((?R + 1) mod UART_BUFFER_SIZE)"
  have put: "ring_put b r = (if n = p_uart_buf_left r then r else r\<lparr>uart_buf := (uart_buf r)(unat n := ucast b), p_uart_buf_right := n\<rparr>)"
    by (simp add: ring_put_def n_def Let_def)
  have lr: "?L < UART_BUFFER_SIZE" "?R < UART_BUFFER_SIZE" using assms by (simp_all add: ring_ok_def)
  have n: "unat n = (?R + 1) mod UART_BUFFER_SIZE" unfolding n_def by (rule mod_size_small)
  note full = ring_put_full [OF assms, folded n_def]
  show ok: "ring_ok (ring_put b r)" using assms n by (auto simp: put ring_ok_def UART_BUFFER_SIZE_def)
  show l: "p_uart_buf_left (ring_put b r) = p_uart_buf_left r" by (simp add: put)
  have sl: "slot (ring_put b r) i = slot r i" for i by (simp add: slot_def l)
  have ne: "slot r i \<noteq> unat n" if "i < ring_count r" "ring_count r < UART_BUFFER_SIZE - 1" for i
    using that lr unfolding n slot_def by (auto simp: ring_count_if [OF assms] mod_size_if split: if_splits)
  show keep: "uart_buf (ring_put b r) (slot r i) = uart_buf r (slot r i)" if "i < ring_count r \<or> ring_count r = UART_BUFFER_SIZE - 1" for i
  proof (cases "ring_count r = UART_BUFFER_SIZE - 1")
    case True
    then show ?thesis using full by (simp add: put)
  next
    case False
    then have "slot r i \<noteq> unat n" using ne [of i] that ring_count_less [of r] by auto
    then show ?thesis by (simp add: put)
  qed
  have "?L \<noteq> unat n" if "ring_count r < UART_BUFFER_SIZE - 1"
    using that full by (metis (no_types) less_irrefl word_unat_eq_iff)
  moreover have "ring_put b r = r" if "\<not> ring_count r < UART_BUFFER_SIZE - 1"
    using that full ring_count_less [of r] by (simp add: put)
  ultimately show "uart_buf (ring_put b r) ?L = uart_buf r ?L"
    by (cases "ring_count r < UART_BUFFER_SIZE - 1") (simp_all add: put)
  show "pending (ring_put b r) = (if ring_count r < UART_BUFFER_SIZE - 1 then pending r @ [b] else pending r)"
  proof (cases "ring_count r < UART_BUFFER_SIZE - 1")
    case True
    then have nf: "n \<noteq> p_uart_buf_left r" using full by auto
    then have r': "ring_put b r = r\<lparr>uart_buf := (uart_buf r)(unat n := ucast b), p_uart_buf_right := n\<rparr>"
      by (simp add: put)
    have c: "ring_count (ring_put b r) = Suc (ring_count r)"
      unfolding ring_count_if [OF ok] using True lr by (auto simp: r' n ring_count_if [OF assms] mod_size_if split: if_splits)
    have last: "slot r (ring_count r) = unat n"
      unfolding n slot_def using True lr by (auto simp: ring_count_if [OF assms] mod_size_if split: if_splits)
    have "pending (ring_put b r) = map (\<lambda>i. ucast (uart_buf (ring_put b r) (slot r i))) [0..<ring_count r] @ [b]"
      by (simp add: pending_def c sl) (simp add: last r' ucast_ucast_u8)
    then show ?thesis using True keep by (simp add: pending_def cong: map_cong)
  next
    case False
    then have "ring_put b r = r" using full ring_count_less [of r] by (simp add: put)
    then show ?thesis using False by simp
  qed
qed

text \<open>The bytes of \<open>bs\<close> that a section takes.\<close>

definition kept :: "u8 list \<Rightarrow> uart_ring \<Rightarrow> u8 list" where
  "kept bs r = take (UART_BUFFER_SIZE - 1 - ring_count r) bs"

lemma ring_puts_spec:
  assumes "ring_ok r"
  shows "ring_ok (ring_puts bs r) \<and> pending (ring_puts bs r) = pending r @ kept bs r \<and> p_uart_buf_left (ring_puts bs r) = p_uart_buf_left r \<and>
    (\<forall>i < ring_count r. uart_buf (ring_puts bs r) (slot r i) = uart_buf r (slot r i)) \<and>
    uart_buf (ring_puts bs r) (unat (p_uart_buf_left r)) = uart_buf r (unat (p_uart_buf_left r))"
  using assms
proof (induction bs arbitrary: r)
  case Nil
  then show ?case by (simp add: kept_def)
next
  case (Cons b bs)
  note P = ring_put_spec [OF Cons.prems, where b = b]
  note I = Cons.IH [OF P(1)]
  have sl: "slot (ring_put b r) = slot r" by (rule ext) (simp add: slot_def P(3))
  have c: "ring_count (ring_put b r) = (if ring_count r < UART_BUFFER_SIZE - 1 then Suc (ring_count r) else ring_count r)"
    using arg_cong [OF P(2), of length] by (auto split: if_splits)
  have "pending (ring_puts (b # bs) r) = pending r @ kept (b # bs) r"
    using I P(2) c ring_count_less [of r] by (auto simp: kept_def take_Cons' split: if_splits)
  moreover have "uart_buf (ring_puts (b # bs) r) (slot r i) = uart_buf r (slot r i)" if "i < ring_count r" for i
    using I P(4) [of i] that c by (auto simp: sl split: if_splits)
  ultimately show ?case using I P(3,5) by simp
qed

text \<open>The accesses of \<open>ring_put\<close> one by one: the index, the store, the new right end. Up to the last the list is what it was.\<close>

definition ring_next :: "uart_ring \<Rightarrow> u16" where
  "ring_next r = of_nat ((unat (p_uart_buf_right r) + 1) mod UART_BUFFER_SIZE)"

definition ring_store :: "u16 \<Rightarrow> u8 \<Rightarrow> uart_ring \<Rightarrow> uart_ring" where
  "ring_store n b r = r\<lparr>uart_buf := (uart_buf r)(unat n := ucast b)\<rparr>"

definition ring_publish :: "u16 \<Rightarrow> uart_ring \<Rightarrow> uart_ring" where
  "ring_publish n r = r\<lparr>p_uart_buf_right := n\<rparr>"

lemma ring_put_steps:
  "ring_put b r = (if ring_next r = p_uart_buf_left r then r else ring_publish (ring_next r) (ring_store (ring_next r) b r))"
  by (simp add: ring_put_def ring_next_def ring_store_def ring_publish_def Let_def)

definition free_slot :: "u16 \<Rightarrow> uart_ring \<Rightarrow> bool" where
  "free_slot n r \<longleftrightarrow> n = ring_next r \<and> ring_count r < UART_BUFFER_SIZE - 1"

lemma free_slot_next: "ring_ok r \<Longrightarrow> ring_next r \<noteq> p_uart_buf_left r \<Longrightarrow> free_slot (ring_next r) r"
  using ring_put_full [of r] ring_count_less [of r] by (auto simp: free_slot_def ring_next_def)

lemma free_slot_place:
  assumes "ring_ok r" and "free_slot n r"
  shows "unat n = slot r (ring_count r)" "i < ring_count r \<Longrightarrow> slot r i \<noteq> unat n" "unat n \<noteq> unat (p_uart_buf_left r)"
proof -
  have lr: "unat (p_uart_buf_left r) < UART_BUFFER_SIZE" "unat (p_uart_buf_right r) < UART_BUFFER_SIZE" "ring_count r < UART_BUFFER_SIZE - 1"
    and n: "unat n = (unat (p_uart_buf_right r) + 1) mod UART_BUFFER_SIZE"
    using assms by (simp_all add: ring_ok_def free_slot_def ring_next_def)
  show "unat n = slot r (ring_count r)" "i < ring_count r \<Longrightarrow> slot r i \<noteq> unat n" "unat n \<noteq> unat (p_uart_buf_left r)"
    using lr unfolding n slot_def by (auto simp: ring_count_if [OF assms(1)] mod_size_if split: if_splits)
qed

lemma ring_store_spec:
  assumes "ring_ok r" and "free_slot n r"
  shows "ring_ok (ring_store n b r)" "ring_count (ring_store n b r) = ring_count r" "slot (ring_store n b r) = slot r"
    "pending (ring_store n b r) = pending r" "p_uart_buf_left (ring_store n b r) = p_uart_buf_left r" "free_slot n (ring_store n b r)"
    "pio_byte (ring_store n b r) = pio_byte r" "uart_buf (ring_store n b r) (unat n) = ucast b" "ring_empty (ring_store n b r) = ring_empty r"
proof -
  let ?r = "ring_store n b r"
  note F = free_slot_place [OF assms]
  show c: "ring_count ?r = ring_count r" and sl: "slot ?r = slot r" by (simp_all add: ring_store_def ring_count_def slot_def fun_eq_iff)
  show "ring_ok ?r" "p_uart_buf_left ?r = p_uart_buf_left r" "free_slot n ?r" "uart_buf ?r (unat n) = ucast b" "ring_empty ?r = ring_empty r"
    using assms c by (simp_all add: ring_store_def ring_ok_def free_slot_def ring_next_def ring_empty_def)
  show "pio_byte ?r = pio_byte r" using F(3) by (simp add: ring_store_def pio_byte_def)
  show "pending ?r = pending r" using F(2) unfolding pending_def c sl by (intro map_cong) (auto simp: ring_store_def)
qed

lemma ring_publish_spec:
  assumes "ring_ok r" and "free_slot n r" and "uart_buf r (unat n) = ucast b"
  shows "ring_ok (ring_publish n r)" "ring_count (ring_publish n r) = Suc (ring_count r)" "slot (ring_publish n r) = slot r"
    "pending (ring_publish n r) = pending r @ [b]" "p_uart_buf_left (ring_publish n r) = p_uart_buf_left r" "pio_byte (ring_publish n r) = pio_byte r"
proof -
  let ?r = "ring_publish n r"
  note F = free_slot_place [OF assms(1,2)]
  have lr: "unat (p_uart_buf_left r) < UART_BUFFER_SIZE" "unat (p_uart_buf_right r) < UART_BUFFER_SIZE" "ring_count r < UART_BUFFER_SIZE - 1"
    and n: "unat n = (unat (p_uart_buf_right r) + 1) mod UART_BUFFER_SIZE"
    using assms by (simp_all add: ring_ok_def free_slot_def ring_next_def)
  show ok: "ring_ok ?r" using lr n by (simp add: ring_ok_def ring_publish_def UART_BUFFER_SIZE_def)
  show c: "ring_count ?r = Suc (ring_count r)"
    unfolding ring_count_if [OF ok] using lr by (auto simp: ring_publish_def n ring_count_if [OF assms(1)] mod_size_if split: if_splits)
  show sl: "slot ?r = slot r" "p_uart_buf_left ?r = p_uart_buf_left r" "pio_byte ?r = pio_byte r"
    by (simp_all add: ring_publish_def slot_def pio_byte_def fun_eq_iff)
  show "pending ?r = pending r @ [b]"
    unfolding pending_def c sl using F(1) assms(3) by (simp add: ring_publish_def ucast_ucast_u8)
qed

text \<open>A run of the task: it lies inside the buffer, and consuming it takes it from the front of the list.\<close>

lemma ring_avail:
  assumes "ring_ok r"
  shows "(uint (p_uart_buf_right r) - uint (p_uart_buf_left r) + int UART_BUFFER_SIZE) mod int UART_BUFFER_SIZE = int (ring_count r)"
proof -
  have "unat (p_uart_buf_left r) \<le> unat (p_uart_buf_right r) + UART_BUFFER_SIZE" using assms by (simp add: ring_ok_def)
  then have "uint (p_uart_buf_right r) - uint (p_uart_buf_left r) + int UART_BUFFER_SIZE =
      int (unat (p_uart_buf_right r) + UART_BUFFER_SIZE - unat (p_uart_buf_left r))" by (simp add: of_nat_diff)
  then show ?thesis by (simp only: ring_count_def zmod_int)
qed

lemma tx_extent_eq:
  assumes "ring_ok r" and "tx_extent r = (left, start, run)"
  shows "left = p_uart_buf_left r" "unat start = (unat (p_uart_buf_left r) + 1) mod UART_BUFFER_SIZE"
    "unat run = min (ring_count r) (UART_BUFFER_SIZE - unat start)"
proof -
  define a :: u16 where "a = of_nat (ring_count r)"
  have a: "unat a = ring_count r" using ring_count_less [of r] unfolding a_def by (intro unat_of_nat16) (simp add: UART_BUFFER_SIZE_def)
  show st: "left = p_uart_buf_left r" "unat start = (unat (p_uart_buf_left r) + 1) mod UART_BUFFER_SIZE"
    using assms(2) by (auto simp: tx_extent_def Let_def)
  have s: "unat start < 2056" "unat a < 2056" using st a ring_count_less [of r] by (simp_all add: UART_BUFFER_SIZE_def)
  have "unat ((ucast start :: u32) + ucast a) = unat start + unat a"
    using s by (simp add: unat_word_ariths unsigned_ucast_eq take_bit_nat_eq_self)
  then have big: "(ucast start :: u32) + ucast a > of_nat UART_BUFFER_SIZE \<longleftrightarrow> unat start + unat a > UART_BUFFER_SIZE"
    by (simp add: word_less_nat_alt UART_BUFFER_SIZE_def)
  have "run = (if (ucast start :: u32) + ucast a > of_nat UART_BUFFER_SIZE then of_nat (UART_BUFFER_SIZE - unat start) else a)"
    using assms(2) unfolding tx_extent_def Let_def ring_avail [OF assms(1)] a_def by auto
  moreover have "unat (of_nat (UART_BUFFER_SIZE - unat start) :: u16) = UART_BUFFER_SIZE - unat start"
    by (rule unat_of_nat16) (simp add: UART_BUFFER_SIZE_def)
  ultimately show "unat run = min (ring_count r) (UART_BUFFER_SIZE - unat start)"
    using big a by (cases "unat start + unat a > UART_BUFFER_SIZE") simp_all
qed

lemma tx_extent_spec:
  assumes "ring_ok r" and "tx_extent r = (left, start, run)"
  shows "left = p_uart_buf_left r" "unat run \<le> ring_count r" "\<not> ring_empty r \<Longrightarrow> unat run > 0" "unat start + unat run \<le> UART_BUFFER_SIZE"
    "\<And>i. i < unat run \<Longrightarrow> slot r i = unat start + i"
proof -
  note E = tx_extent_eq [OF assms]
  have st: "unat start < UART_BUFFER_SIZE" unfolding E(2) by (simp add: UART_BUFFER_SIZE_def)
  show "left = p_uart_buf_left r" "unat run \<le> ring_count r" "unat start + unat run \<le> UART_BUFFER_SIZE" using E(1,3) st by simp_all
  show "\<not> ring_empty r \<Longrightarrow> unat run > 0" using E(3) st by (simp add: ring_empty_count [OF assms(1)])
  show "slot r i = unat start + i" if "i < unat run" for i
  proof -
    have "i < UART_BUFFER_SIZE - unat start" using that E(3) by simp
    then have "unat start + i < UART_BUFFER_SIZE" by arith
    moreover have "slot r i = (unat start + i) mod UART_BUFFER_SIZE"
      using mod_add_left_eq [of "unat (p_uart_buf_left r) + 1" UART_BUFFER_SIZE i] unfolding slot_def E(2) by simp
    ultimately show ?thesis by simp
  qed
qed

lemma advance_by:
  assumes ok: "ring_ok r" and n: "n \<le> ring_count r" and r': "r' = r\<lparr>p_uart_buf_left := of_nat ((unat (p_uart_buf_left r) + n) mod UART_BUFFER_SIZE)\<rparr>"
  shows "ring_ok r'" "pending r' = drop n (pending r)"
proof -
  let ?R = "unat (p_uart_buf_right r)" and ?L = "unat (p_uart_buf_left r)"
  have lr: "?L < UART_BUFFER_SIZE" "?R < UART_BUFFER_SIZE" using ok by (simp_all add: ring_ok_def)
  have l: "unat (p_uart_buf_left r') = (?L + n) mod UART_BUFFER_SIZE" by (simp add: r')
  show ok': "ring_ok r'" using ok l by (simp add: ring_ok_def r' UART_BUFFER_SIZE_def)
  have n2: "?L + n < 2 * UART_BUFFER_SIZE" using n lr ring_count_less [of r] by simp
  have c: "ring_count r' = ring_count r - n"
    unfolding ring_count_if [OF ok'] l using n lr n2 by (auto simp: r' ring_count_if [OF ok] mod_size_if split: if_splits)
  have s: "slot r' i = slot r (n + i)" for i
    using mod_add_left_eq [of "?L + n" UART_BUFFER_SIZE "1 + i"] unfolding slot_def l by (simp add: algebra_simps)
  have b: "uart_buf r' = uart_buf r" by (simp add: r')
  show "pending r' = drop n (pending r)"
    unfolding pending_def c s using n b by (intro nth_equalityI) auto
qed

subsection \<open>Producers, task, engine and interrupt\<close>

text \<open>
  The system around the ring, at the grain of its atomic actions. The semaphores are the abstract ones that \<open>semaphore_give_refines\<close> and
  \<open>semaphore_take_refines\<close> show the kernel's code to be. \<open>tx_pc\<close> is where \<open>uart_tx_task\<close> is; \<open>engine\<close> the slot the DMA engine reads next and the number
  of words left, as \<open>tx_control_block\<close> gives them to it: it reads one word at a time, in order, hands its low byte to the UART, and interrupts at the
  end. \<open>uart_buf_lock\<close> lets one producer at a time into its section (\<^verbatim>\<open>Spinlock\<close>), but the task reads and writes the two indices without it: \<open>inside\<close>
  is where the producer inside is, and each of its accesses to the ring is a step. \<open>due\<close> counts the producers from the start of their section
  to their \<open>semaphore_give\<close>; a round of the task reads the right index twice, the second time for the extent, and is one step at that read, as the index
  only moves away from the left one in between; \<open>accepted\<close> and \<open>wire\<close> record the bytes taken and the bytes handed to the UART.
\<close>

datatype put_pc = AtByte "u8 list" | AtStore u16 u8 "u8 list" | AtPublish u16 u8 "u8 list"

datatype tx_pc = TakeData | BlockedData | Loop | TakeDone u16 u16 | BlockedDone u16 u16 | Advance u16 u16 | Send

record tx_system =
  ring :: uart_ring
  data_ready :: sem_spec
  dma_done :: sem_spec
  pc :: tx_pc
  engine :: "(nat \<times> nat) option"
  inside :: "put_pc option"
  due :: nat
  accepted :: "u8 list"
  wire :: "u8 list"

definition tx_start :: "uart_ring \<Rightarrow> tx_system" where
  "tx_start r = \<lparr>ring = r, data_ready = \<lparr>sp_max = 1, sp_count = 0, sp_waiters = []\<rparr>, dma_done = \<lparr>sp_max = 1, sp_count = 0, sp_waiters = []\<rparr>,
     pc = TakeData, engine = None, inside = None, due = 0, accepted = [], wire = []\<rparr>"

text \<open>\<open>produce\<close>: a producer starts, with the bytes it wants to print. \<open>put_step\<close>: what it does inside its section. \<open>drain\<close>: every step but the start of a producer.\<close>

inductive produce :: "tx_system \<Rightarrow> tx_system \<Rightarrow> bool" where
  Enter: "inside s = None \<Longrightarrow> produce s (s\<lparr>inside := Some (AtByte bs), due := Suc (due s)\<rparr>)"

inductive put_step :: "tx_system \<Rightarrow> tx_system \<Rightarrow> bool" where
  Drop: "inside s = Some (AtByte (b # bs)) \<Longrightarrow> ring_next (ring s) = p_uart_buf_left (ring s) \<Longrightarrow> put_step s (s\<lparr>inside := Some (AtByte bs)\<rparr>)"
| Room: "inside s = Some (AtByte (b # bs)) \<Longrightarrow> ring_next (ring s) \<noteq> p_uart_buf_left (ring s) \<Longrightarrow>
    put_step s (s\<lparr>inside := Some (AtStore (ring_next (ring s)) b bs)\<rparr>)"
| Store: "inside s = Some (AtStore n b bs) \<Longrightarrow> put_step s (s\<lparr>ring := ring_store n b (ring s), inside := Some (AtPublish n b bs)\<rparr>)"
| Publish: "inside s = Some (AtPublish n b bs) \<Longrightarrow>
    put_step s (s\<lparr>ring := ring_publish n (ring s), accepted := accepted s @ [b], inside := Some (AtByte bs)\<rparr>)"
| Leave: "inside s = Some (AtByte []) \<Longrightarrow> put_step s (s\<lparr>inside := None\<rparr>)"

inductive drain :: "tptr \<Rightarrow> bool \<Rightarrow> tx_system \<Rightarrow> tx_system \<Rightarrow> bool" for t :: tptr and dma :: bool where
  Put: "put_step s s' \<Longrightarrow> drain t dma s s'"
| Give: "due s = Suc n \<Longrightarrow> inside s = None \<or> 0 < n \<Longrightarrow> give_spec (data_ready s) = (r, w, m) \<Longrightarrow>
    drain t dma s (s\<lparr>due := n, data_ready := m, pc := (if w = Some t then Loop else pc s)\<rparr>)"
| Take: "pc s = TakeData \<Longrightarrow> take_spec t True (data_ready s) = (r, m) \<Longrightarrow>
    drain t dma s (s\<lparr>data_ready := m, pc := (if r = TakeReturns E_OK then Loop else BlockedData)\<rparr>)"
| Empty: "pc s = Loop \<Longrightarrow> ring_empty (ring s) \<Longrightarrow> drain t dma s (s\<lparr>pc := TakeData\<rparr>)"
| Kick: "dma \<Longrightarrow> pc s = Loop \<Longrightarrow> \<not> ring_empty (ring s) \<Longrightarrow> tx_extent (ring s) = (left, start, run) \<Longrightarrow>
    drain t dma s (s\<lparr>engine := Some (unat start, unat run), pc := TakeDone left run\<rparr>)"
| Word: "engine s = Some (p, Suc n) \<Longrightarrow>
    drain t dma s (s\<lparr>engine := Some (Suc p, n), wire := wire s @ [ucast (uart_buf (ring s) p)]\<rparr>)"
| Irq: "engine s = Some (p, 0) \<Longrightarrow> give_spec (dma_done s) = (r, w, m) \<Longrightarrow>
    drain t dma s (s\<lparr>engine := None, dma_done := m,
      pc := (case pc s of BlockedDone left run \<Rightarrow> if w = Some t then Advance left run else pc s | _ \<Rightarrow> pc s)\<rparr>)"
| TakeD: "pc s = TakeDone left run \<Longrightarrow> take_spec t True (dma_done s) = (r, m) \<Longrightarrow>
    drain t dma s (s\<lparr>dma_done := m, pc := (if r = TakeReturns E_OK then Advance left run else BlockedDone left run)\<rparr>)"
| Adv: "pc s = Advance left run \<Longrightarrow> drain t dma s (s\<lparr>ring := tx_advance left run (ring s), pc := Loop\<rparr>)"
| Pio: "\<not> dma \<Longrightarrow> pc s = Loop \<Longrightarrow> \<not> ring_empty (ring s) \<Longrightarrow> drain t dma s (s\<lparr>ring := pio_advance (ring s), pc := Send\<rparr>)"
| Raw: "pc s = Send \<Longrightarrow> drain t dma s (s\<lparr>wire := wire s @ [pio_byte (ring s)], pc := Loop\<rparr>)"

inductive tx_reach :: "tptr \<Rightarrow> bool \<Rightarrow> tx_system \<Rightarrow> bool" for t :: tptr and dma :: bool where
  Init: "ring_ok r \<Longrightarrow> ring_empty r \<Longrightarrow> tx_reach t dma (tx_start r)"
| Produce: "tx_reach t dma s \<Longrightarrow> produce s s' \<Longrightarrow> tx_reach t dma s'"
| Drain: "tx_reach t dma s \<Longrightarrow> drain t dma s s' \<Longrightarrow> tx_reach t dma s'"

subsection \<open>The invariant\<close>

text \<open>What has been taken and not yet handed on: from where the engine is, or with the byte in the hand of the task.\<close>

definition transfer :: "tx_pc \<Rightarrow> (u16 \<times> u16) option" where
  "transfer p = (case p of TakeDone l n \<Rightarrow> Some (l, n) | BlockedDone l n \<Rightarrow> Some (l, n) | Advance l n \<Rightarrow> Some (l, n) | _ \<Rightarrow> None)"

definition unsent :: "tx_system \<Rightarrow> u8 list" where
  "unsent s = (case transfer (pc s) of
     Some (l, n) \<Rightarrow> drop (case engine s of Some (p, k) \<Rightarrow> unat n - k | None \<Rightarrow> unat n) (pending (ring s))
   | None \<Rightarrow> if pc s = Send then pio_byte (ring s) # pending (ring s) else pending (ring s))"

definition engine_ok :: "tptr \<Rightarrow> tx_system \<Rightarrow> bool" where
  "engine_ok t s \<longleftrightarrow> sp_max (dma_done s) = 1 \<and> (case transfer (pc s) of
     None \<Rightarrow> engine s = None \<and> sp_count (dma_done s) = 0 \<and> sp_waiters (dma_done s) = []
   | Some (l, n) \<Rightarrow> l = p_uart_buf_left (ring s) \<and> unat n \<le> ring_count (ring s) \<and>
       sp_waiters (dma_done s) = (if pc s = BlockedDone l n then [t] else []) \<and>
       (case engine s of
          Some (p, k) \<Rightarrow> k \<le> unat n \<and> p + k \<le> UART_BUFFER_SIZE \<and> sp_count (dma_done s) = 0 \<and> pc s \<noteq> Advance l n \<and>
            (\<forall>i < k. slot (ring s) (unat n + i - k) = p + i)
        | None \<Rightarrow> pc s \<noteq> BlockedDone l n \<and> sp_count (dma_done s) = (if pc s = TakeDone l n then 1 else 0)))"

definition ready_ok :: "tptr \<Rightarrow> tx_system \<Rightarrow> bool" where
  "ready_ok t s \<longleftrightarrow> sp_max (data_ready s) = 1 \<and> sp_count (data_ready s) \<le> 1 \<and>
     sp_waiters (data_ready s) = (if pc s = BlockedData then [t] else []) \<and> (pc s = BlockedData \<longrightarrow> sp_count (data_ready s) = 0) \<and>
     (pc s \<in> {TakeData, BlockedData} \<and> sp_count (data_ready s) = 0 \<and> due s = 0 \<longrightarrow> ring_empty (ring s))"

definition section_ok :: "tx_system \<Rightarrow> bool" where
  "section_ok s \<longleftrightarrow> (inside s \<noteq> None \<longrightarrow> 0 < due s) \<and> (case inside s of
     Some (AtStore n b bs) \<Rightarrow> free_slot n (ring s)
   | Some (AtPublish n b bs) \<Rightarrow> free_slot n (ring s) \<and> uart_buf (ring s) (unat n) = ucast b
   | _ \<Rightarrow> True)"

definition tx_core :: "tptr \<Rightarrow> tx_system \<Rightarrow> bool" where
  "tx_core t s \<longleftrightarrow> ring_ok (ring s) \<and> accepted s = wire s @ unsent s \<and> engine_ok t s \<and> ready_ok t s"

definition tx_inv :: "tptr \<Rightarrow> tx_system \<Rightarrow> bool" where
  "tx_inv t s \<longleftrightarrow> tx_core t s \<and> section_ok s"

lemma tx_invD:
  assumes "tx_inv t s"
  shows "ring_ok (ring s)" "accepted s = wire s @ unsent s" "engine_ok t s" "ready_ok t s" "section_ok s"
  using assms by (simp_all add: tx_inv_def tx_core_def)

lemma pending_drop: "i < ring_count r \<Longrightarrow> drop i (pending r) = ucast (uart_buf r (slot r i)) # drop (Suc i) (pending r)"
  by (simp add: pending_def Cons_nth_drop_Suc [symmetric])

lemma transfer_simps [simp]:
  "transfer TakeData = None" "transfer BlockedData = None" "transfer Loop = None" "transfer Send = None"
  "transfer (TakeDone l n) = Some (l, n)" "transfer (BlockedDone l n) = Some (l, n)" "transfer (Advance l n) = Some (l, n)"
  by (simp_all add: transfer_def)

lemma transfer_Some: "transfer p = Some (l, n) \<longleftrightarrow> p = TakeDone l n \<or> p = BlockedDone l n \<or> p = Advance l n"
  by (auto simp: transfer_def split: tx_pc.splits)

lemma produce_inv:
  assumes "tx_inv t s" and "produce s s'"
  shows "tx_inv t s'"
  using assms(2)
proof cases
  case (Enter bs)
  then have same: "ring s' = ring s" "engine s' = engine s" "dma_done s' = dma_done s" "data_ready s' = data_ready s" "pc s' = pc s"
    "accepted s' = accepted s" "wire s' = wire s" and new: "inside s' = Some (AtByte bs)" "0 < due s'" by simp_all
  have "unsent s' = unsent s" "engine_ok t s' = engine_ok t s" unfolding unsent_def engine_ok_def same by (rule refl)+
  moreover have "section_ok s'" by (simp add: section_ok_def new)
  moreover have "ready_ok t s'" using tx_invD(4) [OF assms(1)] new(2) by (simp add: ready_ok_def same)
  ultimately show ?thesis using assms(1) by (simp add: tx_inv_def tx_core_def same)
qed

text \<open>A change of the ring that only may append to the list.\<close>

lemma ring_change_inv:
  assumes I: "tx_inv t s" and same: "engine s' = engine s" "dma_done s' = dma_done s" "data_ready s' = data_ready s" "pc s' = pc s" "wire s' = wire s" "due s' = due s"
    and a: "accepted s' = accepted s @ bs" and d: "0 < due s"
    and r: "ring_ok (ring s')" "pending (ring s') = pending (ring s) @ bs" "slot (ring s') = slot (ring s)"
      "p_uart_buf_left (ring s') = p_uart_buf_left (ring s)" "pio_byte (ring s') = pio_byte (ring s)"
    and ok: "section_ok s'"
  shows "tx_inv t s'"
proof -
  have c: "ring_count (ring s') = ring_count (ring s) + length bs" using arg_cong [OF r(2), of length] by simp
  note I' = I [unfolded tx_inv_def tx_core_def engine_ok_def]
  have "unsent s' = unsent s @ bs"
    using I' unfolding unsent_def same r(2,5) by (auto split: option.splits prod.splits)
  moreover have "engine_ok t s'"
    using I' unfolding engine_ok_def same r(3,4) c by (auto split: option.splits prod.splits)
  moreover have "ready_ok t s'" using tx_invD(4) [OF I] d by (simp add: ready_ok_def same)
  ultimately show ?thesis using I r(1) ok a by (simp add: tx_inv_def tx_core_def same)
qed

lemma put_inv:
  assumes I: "tx_inv t s" and "put_step s s'"
  shows "tx_inv t s'"
proof -
  note ok = tx_invD(1) [OF I] and so = tx_invD(5) [OF I]
  show ?thesis
    using assms(2)
  proof cases
    case (Drop b bs)
    show ?thesis by (rule ring_change_inv [OF I, where bs = "[]"]) (use Drop ok so in \<open>simp_all add: section_ok_def\<close>)
  next
    case (Room b bs)
    show ?thesis
      by (rule ring_change_inv [OF I, where bs = "[]"]) (use Room ok so free_slot_next [OF ok] in \<open>simp_all add: section_ok_def\<close>)
  next
    case (Store n b bs)
    have f: "free_slot n (ring s)" "0 < due s" using so Store by (simp_all add: section_ok_def)
    note S = ring_store_spec [OF ok f(1), of b]
    show ?thesis
      by (rule ring_change_inv [OF I, where bs = "[]"]) (use Store f(2) S in \<open>simp_all add: section_ok_def\<close>)
  next
    case (Publish n b bs)
    have f: "free_slot n (ring s)" "uart_buf (ring s) (unat n) = ucast b" "0 < due s" using so Publish by (simp_all add: section_ok_def)
    note S = ring_publish_spec [OF ok f(1,2)]
    show ?thesis
      by (rule ring_change_inv [OF I, where bs = "[b]"]) (use Publish f(3) S in \<open>simp_all add: section_ok_def\<close>)
  next
    case Leave
    show ?thesis by (rule ring_change_inv [OF I, where bs = "[]"]) (use Leave ok so in \<open>simp_all add: section_ok_def\<close>)
  qed
qed

lemma section_cong: "section_ok s \<Longrightarrow> inside s' = inside s \<Longrightarrow> ring s' = ring s \<Longrightarrow> due s' = due s \<Longrightarrow> section_ok s'"
  by (simp add: section_ok_def split: option.splits put_pc.splits)

lemma section_advance:
  assumes "section_ok s" and "ring_ok (ring s)" and "n \<le> ring_count (ring s)" and "inside s' = inside s" and "due s' = due s"
    and "ring s' = (ring s)\<lparr>p_uart_buf_left := of_nat ((unat (p_uart_buf_left (ring s)) + n) mod UART_BUFFER_SIZE)\<rparr>"
  shows "section_ok s'"
proof -
  have "ring_count (ring s') \<le> ring_count (ring s)"
    using arg_cong [OF advance_by(2) [OF assms(2,3,6)], of length] by simp
  then have "free_slot m (ring s) \<Longrightarrow> free_slot m (ring s')" for m using assms(6) by (simp add: free_slot_def ring_next_def)
  then show ?thesis using assms(1,4,5,6) by (auto simp: section_ok_def split: option.splits put_pc.splits)
qed

lemma ready_cong:
  "ready_ok t s \<Longrightarrow> data_ready s' = data_ready s \<Longrightarrow> ring s' = ring s \<Longrightarrow> due s' = due s \<Longrightarrow> (pc s' = BlockedData \<longleftrightarrow> pc s = BlockedData) \<Longrightarrow>
   (pc s' = TakeData \<longleftrightarrow> pc s = TakeData) \<Longrightarrow> ready_ok t s'"
  by (simp add: ready_ok_def)

lemma drain_core:
  assumes "tx_inv t s" and "drain t dma s s'"
  shows "tx_core t s'"
proof -
  have ok: "ring_ok (ring s)" and acc: "accepted s = wire s @ unsent s" and eo: "engine_ok t s" and ro: "ready_ok t s"
    using tx_invD [OF assms(1)] by simp_all
  note eo' = eo [unfolded engine_ok_def] and ro' = ro [unfolded ready_ok_def]
  show ?thesis
    using assms(2)
  proof cases
    case Put
    then show ?thesis using put_inv [OF assms(1)] by (simp add: tx_inv_def)
  next
    case (Give n r w m)
    have "ready_ok t s'" using ro' Give by (auto simp: ready_ok_def give_spec_def split: if_splits list.splits)
    moreover have same: "ring s' = ring s" "engine s' = engine s" "dma_done s' = dma_done s" "accepted s' = accepted s" "wire s' = wire s"
      using Give by simp_all
    moreover consider "pc s' = pc s" | "pc s = BlockedData" "pc s' = Loop"
      using ro' Give by (auto simp: give_spec_def split: if_splits list.splits)
    then have "unsent s' = unsent s \<and> engine_ok t s'"
    proof cases
      case 1
      show ?thesis using eo unfolding unsent_def engine_ok_def same 1 by simp
    next
      case 2
      show ?thesis using eo unfolding unsent_def engine_ok_def same 2 by simp
    qed
    ultimately show ?thesis using ok acc by (simp add: tx_core_def)
  next
    case (Take r m)
    then show ?thesis using ok acc eo' ro'
      by (auto simp: tx_core_def unsent_def engine_ok_def ready_ok_def take_spec_def split: if_splits)
  next
    case Empty
    then show ?thesis using ok acc eo' ro' by (auto simp: tx_core_def unsent_def engine_ok_def ready_ok_def)
  next
    case (Kick left start run)
    note E = tx_extent_spec [OF ok Kick(5)]
    then show ?thesis using Kick ok acc eo' ro'
      by (auto simp: tx_core_def unsent_def engine_ok_def ready_ok_def)
  next
    case (Word p n)
    obtain l m where tr: "transfer (pc s) = Some (l, m)" using eo' Word by (auto split: option.splits)
    have w3: "\<forall>i < Suc n. slot (ring s) (unat m + i - Suc n) = p + i" using eo' Word tr by simp
    have w: "Suc n \<le> unat m" "unat m \<le> ring_count (ring s)" "\<And>i. i < Suc n \<Longrightarrow> slot (ring s) (unat m + i - Suc n) = p + i"
      using eo' Word tr w3 [rule_format] by simp_all
    have "unsent s = ucast (uart_buf (ring s) p) # drop (unat m - n) (pending (ring s))"
      using pending_drop [of "unat m - Suc n" "ring s"] w(1,2) w(3) [of 0] Word tr by (simp add: unsent_def Suc_diff_Suc)
    moreover have "unsent s' = drop (unat m - n) (pending (ring s))" using Word tr by (simp add: unsent_def)
    moreover have "slot (ring s) (unat m + i - n) = Suc (p + i)" if "i < n" for i
      using w(3) [of "Suc i"] w(1) that by (simp add: Suc_diff_Suc)
    then have "engine_ok t s'" using eo' Word tr by (auto simp: engine_ok_def)
    ultimately show ?thesis using Word ok acc ro' by (simp add: tx_core_def ready_ok_def)
  next
    case (Irq p r w m)
    obtain l n where tr: "transfer (pc s) = Some (l, n)" using eo' Irq by (auto split: option.splits)
    then consider "pc s = TakeDone l n" | "pc s = BlockedDone l n" using eo' Irq by (auto simp: transfer_Some)
    then show ?thesis
    proof cases
      case 1
      have m: "m = (dma_done s)\<lparr>sp_count := 1\<rparr>" using Irq eo' 1 by (simp add: give_spec_def)
      show ?thesis using Irq(1,2) 1 ok acc eo' by (simp add: tx_core_def unsent_def engine_ok_def ready_cong [OF ro] m)
    next
      case 2
      have m: "w = Some t" "m = (dma_done s)\<lparr>sp_waiters := []\<rparr>" using Irq eo' 2 by (simp_all add: give_spec_def)
      show ?thesis using Irq(1,2) 2 ok acc eo' by (simp add: tx_core_def unsent_def engine_ok_def ready_cong [OF ro] m)
    qed
  next
    case (TakeD left run r m)
    show ?thesis
    proof (cases "engine s")
      case None
      have m: "r = TakeReturns E_OK" "m = (dma_done s)\<lparr>sp_count := 0\<rparr>" using TakeD None eo' by (simp_all add: take_spec_def)
      show ?thesis using TakeD(1,2) None ok acc eo' by (simp add: tx_core_def unsent_def engine_ok_def ready_cong [OF ro] m)
    next
      case (Some e)
      have m: "r = TakeBlocked" "m = (dma_done s)\<lparr>sp_waiters := [t]\<rparr>" using TakeD Some eo' by (auto simp: take_spec_def)
      show ?thesis using TakeD(1,2) Some ok acc eo' by (cases e) (simp add: tx_core_def unsent_def engine_ok_def ready_cong [OF ro] m)
    qed
  next
    case (Adv left run)
    have r: "engine s = None" "left = p_uart_buf_left (ring s)" "unat run \<le> ring_count (ring s)"
      using eo' Adv by (auto split: option.splits)
    note A = advance_by [OF ok r(3), of "tx_advance left run (ring s)"]
    then show ?thesis using Adv r acc eo' ro'
      by (auto simp: tx_core_def unsent_def engine_ok_def ready_ok_def tx_advance_def)
  next
    case Pio
    have c: "1 \<le> ring_count (ring s)" using Pio ring_empty_count [OF ok] by simp
    note A = advance_by [OF ok c, of "pio_advance (ring s)"]
    have "pending (ring s) = pio_byte (pio_advance (ring s)) # drop 1 (pending (ring s))"
      using pending_drop [of 0 "ring s"] c by (simp add: pio_byte_def pio_advance_def slot_def)
    then show ?thesis using Pio A acc eo' ro'
      by (auto simp: tx_core_def unsent_def engine_ok_def ready_ok_def pio_advance_def)
  next
    case Raw
    then show ?thesis using ok acc eo' ro' by (auto simp: tx_core_def unsent_def engine_ok_def ready_ok_def)
  qed
qed

lemma drain_inv:
  assumes "tx_inv t s" and "drain t dma s s'"
  shows "tx_inv t s'"
proof -
  note I = tx_invD [OF assms(1)]
  have "section_ok s'"
    using assms(2)
  proof cases
    case Put
    then show ?thesis using put_inv [OF assms(1)] by (simp add: tx_inv_def)
  next
    case (Give n r w m)
    then show ?thesis using I(5) by (auto simp: section_ok_def split: option.splits put_pc.splits)
  next
    case (Adv left run)
    have "left = p_uart_buf_left (ring s)" "unat run \<le> ring_count (ring s)" using I(3) Adv by (simp_all add: engine_ok_def)
    then show ?thesis using Adv section_advance [OF I(5,1), of "unat run" s'] by (simp add: tx_advance_def)
  next
    case Pio
    then show ?thesis using section_advance [OF I(5,1), of 1 s'] ring_empty_count [OF I(1)] by (simp add: pio_advance_def)
  qed (rule section_cong [OF I(5)]; simp)+
  then show ?thesis using drain_core [OF assms] by (simp add: tx_inv_def)
qed

lemma tx_reach_inv: "tx_reach t dma s \<Longrightarrow> tx_inv t s"
proof (induction rule: tx_reach.induct)
  case (Init r)
  then show ?case
    by (simp add: tx_inv_def tx_core_def section_ok_def tx_start_def unsent_def engine_ok_def ready_ok_def pending_empty)
qed (blast intro: produce_inv drain_inv)+

lemma take_map_drop:
  "i + k \<le> ring_count r \<Longrightarrow> take k (drop i (pending r)) = map (\<lambda>j. ucast (uart_buf r (slot r (i + j)))) [0..<k]"
  by (rule nth_equalityI) (simp_all add: pending_def)

lemma asleep_sent: "tx_inv t s \<Longrightarrow> pc s = BlockedData \<Longrightarrow> due s = 0 \<Longrightarrow> unsent s = []"
  using pending_empty [of "ring s"] by (simp add: tx_inv_def tx_core_def ready_ok_def unsent_def)

lemma unsent_length: "length (unsent s) \<le> UART_BUFFER_SIZE"
  using ring_count_less [of "ring s"] by (auto simp: unsent_def split: option.splits prod.splits)

lemma engine_reads:
  assumes "tx_inv t s" and "engine s = Some (p, k)"
  shows "p + k \<le> UART_BUFFER_SIZE" "map (\<lambda>i. ucast (uart_buf (ring s) (p + i))) [0..<k] = take k (unsent s)"
proof -
  note I = assms(1) [unfolded tx_inv_def tx_core_def engine_ok_def]
  obtain l n where tr: "transfer (pc s) = Some (l, n)" using I assms(2) by (auto split: option.splits)
  have e: "k \<le> unat n" "unat n \<le> ring_count (ring s)" "\<forall>i < k. slot (ring s) (unat n + i - k) = p + i" and b: "p + k \<le> UART_BUFFER_SIZE"
    using I assms(2) tr by simp_all
  show "p + k \<le> UART_BUFFER_SIZE" by (rule b)
  have "take k (unsent s) = map (\<lambda>j. ucast (uart_buf (ring s) (slot (ring s) (unat n - k + j)))) [0..<k]"
    using take_map_drop [of "unat n - k" k "ring s"] e assms(2) tr by (simp add: unsent_def)
  also have "\<dots> = map (\<lambda>i. ucast (uart_buf (ring s) (p + i))) [0..<k]"
    using e by (intro map_cong) auto
  finally show "map (\<lambda>i. ucast (uart_buf (ring s) (p + i))) [0..<k] = take k (unsent s)" by simp
qed

text \<open>Claim C30 (safety). However producers on all cores, the task, the DMA engine and its interrupt interleave: the bytes handed to the UART are a prefix of
  the bytes taken, in order, none lost, doubled or overwritten; at most a buffer's worth is missing. The words the engine has still to read are exactly
  the next bytes, inside the buffer, whatever producers store meanwhile. And when the task sleeps on its semaphore and no producer is
  about to give it, everything has been sent.\<close>

theorem uart_tx_in_order:
  assumes "tx_reach t dma s"
  shows "\<exists>rest. accepted s = wire s @ rest \<and> length rest \<le> UART_BUFFER_SIZE \<and> (pc s = BlockedData \<and> due s = 0 \<longrightarrow> rest = []) \<and>
    (case engine s of None \<Rightarrow> True
     | Some (p, k) \<Rightarrow> p + k \<le> UART_BUFFER_SIZE \<and> map (\<lambda>i. ucast (uart_buf (ring s) (p + i))) [0..<k] = take k rest)"
proof (intro exI [of _ "unsent s"] conjI impI)
  note I = tx_reach_inv [OF assms]
  show "accepted s = wire s @ unsent s" using tx_invD(2) [OF I] by simp
  show "length (unsent s) \<le> UART_BUFFER_SIZE" by (rule unsent_length)
  show "unsent s = []" if "pc s = BlockedData \<and> due s = 0"
    using that asleep_sent [OF I] by simp
  show "case engine s of None \<Rightarrow> True
     | Some (p, k) \<Rightarrow> p + k \<le> UART_BUFFER_SIZE \<and> map (\<lambda>i. ucast (uart_buf (ring s) (p + i))) [0..<k] = take k (unsent s)"
    using engine_reads [OF I] by (auto split: option.splits)
qed

subsection \<open>Draining ends\<close>

definition moved :: "tx_system \<Rightarrow> nat" where
  "moved s = (case transfer (pc s) of Some (l, n) \<Rightarrow> unat n | None \<Rightarrow> 0)"

fun pc_weight :: "tx_pc \<Rightarrow> nat" where
  "pc_weight BlockedData = 0" | "pc_weight TakeData = 1" | "pc_weight Loop = 2" | "pc_weight Send = 3"
| "pc_weight (Advance l n) = 3" | "pc_weight (BlockedDone l n) = 4" | "pc_weight (TakeDone l n) = 5"

fun put_weight :: "put_pc \<Rightarrow> nat" where
  "put_weight (AtByte bs) = 1 + 9 * length bs"
| "put_weight (AtStore n b bs) = 9 + 9 * length bs"
| "put_weight (AtPublish n b bs) = 8 + 9 * length bs"

definition weight :: "tx_system \<Rightarrow> nat" where
  "weight s = 3 * due s + 2 * sp_count (data_ready s) + pc_weight (pc s) + 6 * (ring_count (ring s) - moved s) +
     (case engine s of Some (p, k) \<Rightarrow> Suc k | None \<Rightarrow> 0) + (case inside s of Some p \<Rightarrow> put_weight p | None \<Rightarrow> 0)"

lemma put_weight_less:
  assumes "tx_inv t s" and "put_step s s'"
  shows "weight s' < weight s"
  using assms(2)
proof cases
  case (Store n b bs)
  have "free_slot n (ring s)" using tx_invD(5) [OF assms(1)] Store by (simp add: section_ok_def)
  note S = ring_store_spec [OF tx_invD(1) [OF assms(1)] this, of b]
  then show ?thesis using Store by (simp add: weight_def moved_def)
next
  case (Publish n b bs)
  have f: "free_slot n (ring s)" "uart_buf (ring s) (unat n) = ucast b" using tx_invD(5) [OF assms(1)] Publish by (simp_all add: section_ok_def)
  note S = ring_publish_spec [OF tx_invD(1) [OF assms(1)] f]
  have "Suc c - m \<le> Suc (c - m)" for c m :: nat by simp
  from this [of "ring_count (ring s)" "moved s"] S(2) Publish show ?thesis by (simp add: weight_def moved_def)
qed (auto simp: weight_def moved_def)

lemma drain_weight:
  assumes "tx_inv t s" and "drain t dma s s'"
  shows "weight s' < weight s"
proof -
  have ok: "ring_ok (ring s)" and eo: "engine_ok t s" and ro: "ready_ok t s"
    using tx_invD [OF assms(1)] by simp_all
  note eo' = eo [unfolded engine_ok_def] and ro' = ro [unfolded ready_ok_def]
  show ?thesis
    using assms(2)
  proof cases
    case Put
    then show ?thesis by (rule put_weight_less [OF assms(1)])
  next
    case (Give n r w m)
    then show ?thesis using ro' by (auto simp: weight_def moved_def give_spec_def split: if_splits list.splits)
  next
    case (Take r m)
    then show ?thesis using ro' by (auto simp: weight_def moved_def take_spec_def split: if_splits)
  next
    case (Kick left start run)
    note E = tx_extent_spec(2) [OF ok Kick(5)] tx_extent_spec(3) [OF ok Kick(5)]
    then show ?thesis using Kick eo' by (auto simp: weight_def moved_def)
  next
    case (Irq p r w m)
    obtain l n where tr: "transfer (pc s) = Some (l, n)" using eo' Irq by (auto split: option.splits)
    then show ?thesis using Irq eo' by (auto simp: weight_def moved_def give_spec_def transfer_Some)
  next
    case (TakeD left run r m)
    then show ?thesis using eo' by (auto simp: weight_def moved_def take_spec_def split: if_splits option.splits)
  next
    case (Adv left run)
    have r: "engine s = None" "left = p_uart_buf_left (ring s)" "unat run \<le> ring_count (ring s)"
      using eo' Adv by (auto split: option.splits)
    have "ring_count (tx_advance left run (ring s)) = ring_count (ring s) - unat run"
      using arg_cong [OF advance_by(2) [OF ok r(3), of "tx_advance left run (ring s)"], of length] r(2) by (simp add: tx_advance_def)
    then show ?thesis using Adv r by (simp add: weight_def moved_def)
  next
    case Pio
    have c: "1 \<le> ring_count (ring s)" using Pio ring_empty_count [OF ok] by simp
    have "ring_count (pio_advance (ring s)) = ring_count (ring s) - 1"
      using arg_cong [OF advance_by(2) [OF ok c, of "pio_advance (ring s)"], of length] by (simp add: pio_advance_def)
    then show ?thesis using Pio c by (auto simp: weight_def moved_def split: option.splits)
  qed (auto simp: weight_def moved_def)
qed

lemma put_accepted: "put_step s s' \<Longrightarrow> inside s \<noteq> None \<and> (\<exists>bs. accepted s' = accepted s @ bs)"
  by (erule put_step.cases) auto

lemma drain_accepted:
  assumes "drain t dma s s'"
  shows "(\<exists>bs. accepted s' = accepted s @ bs) \<and> (inside s = None \<longrightarrow> inside s' = None \<and> accepted s' = accepted s)"
  using assms
proof cases
  case Put
  then show ?thesis using put_accepted by blast
qed simp_all

lemma drain_power:
  assumes "tx_inv t s" and "(drain t dma ^^ n) s s'"
  shows "tx_inv t s' \<and> (\<exists>bs. accepted s' = accepted s @ bs) \<and> (inside s = None \<longrightarrow> inside s' = None \<and> accepted s' = accepted s) \<and>
    n + weight s' \<le> weight s"
  using assms(2)
proof (induction n arbitrary: s')
  case 0
  then show ?case using assms(1) by simp
next
  case (Suc n)
  then obtain u where u: "(drain t dma ^^ n) s u" "drain t dma u s'" by auto
  note I = Suc.IH [OF u(1)]
  then show ?case using drain_accepted [OF u(2)] drain_inv [OF _ u(2)] drain_weight [OF _ u(2)] by auto
qed

lemma put_enabled: "inside s = Some p \<Longrightarrow> \<exists>u. put_step s u"
proof (cases p)
  case (AtByte bs)
  then show "inside s = Some p \<Longrightarrow> \<exists>u. put_step s u" by (cases bs) (blast intro: put_step.intros)+
qed (blast intro: put_step.intros)+

lemma stuck_sent:
  assumes I: "tx_inv t s" and stuck: "\<nexists>u. drain t dma s u"
  shows "wire s = accepted s"
proof -
  note eo = I [unfolded tx_inv_def tx_core_def engine_ok_def]
  have no: "\<And>u. \<not> drain t dma s u" using stuck by blast
  have out: "inside s = None"
  proof (cases "inside s")
    case (Some p)
    then show ?thesis using no drain.Put put_enabled by blast
  qed
  have "pc s = BlockedData"
  proof (cases "pc s")
    case TakeData
    then show ?thesis using no drain.Take [OF TakeData surjective_pairing] by blast
  next
    case Loop
    show ?thesis
      using no drain.Empty [OF Loop, of t dma] drain.Pio [OF _ Loop, of dma t] drain.Kick [OF _ Loop, of dma, OF _ _ prod_cases3 ]
      by (metis drain.Kick Loop prod_cases3)
  next
    case (TakeDone l n)
    then show ?thesis using no drain.TakeD [OF TakeDone surjective_pairing] by blast
  next
    case (BlockedDone l n)
    then obtain p k where e: "engine s = Some (p, k)" using eo by (auto split: option.splits)
    show ?thesis
    proof (cases k)
      case 0
      then show ?thesis using no drain.Irq [of s p _ _ _ t dma] e by (metis prod_cases3)
    next
      case (Suc j)
      then show ?thesis using no drain.Word [of s p j t dma] e by blast
    qed
  next
    case (Advance l n)
    then show ?thesis using no drain.Adv [OF Advance] by blast
  next
    case Send
    then show ?thesis using no drain.Raw [OF Send] by blast
  qed
  moreover have "due s = 0"
  proof (rule ccontr)
    assume "due s \<noteq> 0"
    then obtain n where "due s = Suc n" by (cases "due s") auto
    then show False using no drain.Give [of s n _ _ _ t dma] out by (metis prod_cases3)
  qed
  ultimately have "unsent s = []" by (rule asleep_sent [OF I])
  then show ?thesis using tx_invD(2) [OF I] by simp
qed

text \<open>Claim C31 (termination). Once no further producer starts, at most \<open>bound\<close> steps of task, engine, interrupt and the producers that have started
  follow, in whatever order, and they end only with everything sent that was ever accepted: no wakeup is lost between the ring and its two semaphores, and the drain
  loop cannot spin. What is accepted along the way comes from the one producer that may be inside its section; without one, nothing is.\<close>

theorem uart_tx_drains:
  assumes "tx_reach t dma s"
  shows "\<exists>bound. \<forall>n s'. (drain t dma ^^ n) s s' \<longrightarrow> n \<le> bound \<and> ((\<exists>u. drain t dma s' u) \<or> wire s' = accepted s') \<and>
    (\<exists>bs. accepted s' = accepted s @ bs \<and> (inside s = None \<longrightarrow> bs = []))"
proof (intro exI [of _ "weight s"] allI impI)
  fix n s'
  assume "(drain t dma ^^ n) s s'"
  note P = drain_power [OF tx_reach_inv [OF assms] this]
  then show "n \<le> weight s \<and> ((\<exists>u. drain t dma s' u) \<or> wire s' = accepted s') \<and> (\<exists>bs. accepted s' = accepted s @ bs \<and> (inside s = None \<longrightarrow> bs = []))"
    using stuck_sent [of t s' dma] by auto
qed

text \<open>A section that nothing interrupts is \<open>uart_channel_print\<close>'s.\<close>

lemma put_id: "s\<lparr>ring := ring s, accepted := accepted s, inside := p\<rparr> = s\<lparr>inside := p\<rparr>"
  by (cases s) simp

lemma section_alone:
  assumes "ring_ok (ring s)" and "inside s = Some (AtByte bs)"
  shows "put_step\<^sup>*\<^sup>* s (s\<lparr>ring := ring_puts bs (ring s), accepted := accepted s @ kept bs (ring s), inside := None\<rparr>)"
  using assms
proof (induction bs arbitrary: s)
  case Nil
  then have "put_step s (s\<lparr>inside := None\<rparr>)" by (intro put_step.Leave)
  then show ?case by (simp add: kept_def put_id)
next
  case (Cons b bs)
  let ?n = "ring_next (ring s)"
  show ?case
  proof (cases "?n = p_uart_buf_left (ring s)")
    case True
    have full: "ring_count (ring s) = UART_BUFFER_SIZE - 1" using True ring_put_full [OF Cons.prems(1)] by (simp add: ring_next_def)
    have "put_step s (s\<lparr>inside := Some (AtByte bs)\<rparr>)" by (rule put_step.Drop [OF Cons.prems(2) True])
    also have "put_step\<^sup>*\<^sup>* (s\<lparr>inside := Some (AtByte bs)\<rparr>) (s\<lparr>ring := ring_puts bs (ring s), accepted := accepted s @ kept bs (ring s), inside := None\<rparr>)"
      using Cons.IH [of "s\<lparr>inside := Some (AtByte bs)\<rparr>"] Cons.prems(1) by simp
    finally show ?thesis using True by (simp add: ring_put_steps kept_def full)
  next
    case False
    let ?r = "ring_put b (ring s)"
    note f = free_slot_next [OF Cons.prems(1) False]
    have r: "?r = ring_publish ?n (ring_store ?n b (ring s))" using False by (simp add: ring_put_steps)
    note P = ring_put_spec [OF Cons.prems(1), where b = b]
    have less: "ring_count (ring s) < UART_BUFFER_SIZE - 1" using f by (simp add: free_slot_def)
    then have "ring_count ?r = Suc (ring_count (ring s))" using arg_cong [OF P(2), of length] by simp
    then have k: "kept (b # bs) (ring s) = b # kept bs ?r" using less by (simp add: kept_def take_Cons')
    let ?s3 = "s\<lparr>ring := ?r, accepted := accepted s @ [b], inside := Some (AtByte bs)\<rparr>"
    have "put_step s (s\<lparr>inside := Some (AtStore ?n b bs)\<rparr>)" by (rule put_step.Room [OF Cons.prems(2) False])
    also have "put_step\<^sup>*\<^sup>* (s\<lparr>inside := Some (AtStore ?n b bs)\<rparr>) ?s3"
    proof -
      have "put_step (s\<lparr>inside := Some (AtStore ?n b bs)\<rparr>) (s\<lparr>ring := ring_store ?n b (ring s), inside := Some (AtPublish ?n b bs)\<rparr>)"
        using put_step.Store [of "s\<lparr>inside := Some (AtStore ?n b bs)\<rparr>" ?n b bs] by simp
      moreover have "put_step (s\<lparr>ring := ring_store ?n b (ring s), inside := Some (AtPublish ?n b bs)\<rparr>) ?s3"
        using put_step.Publish [of "s\<lparr>ring := ring_store ?n b (ring s), inside := Some (AtPublish ?n b bs)\<rparr>" ?n b bs] r by simp
      ultimately show ?thesis by simp
    qed
    also have "put_step\<^sup>*\<^sup>* ?s3 (s\<lparr>ring := ring_puts (b # bs) (ring s), accepted := accepted s @ kept (b # bs) (ring s), inside := None\<rparr>)"
      using Cons.IH [of ?s3] P(1) by (simp add: k)
    finally show ?thesis .
  qed
qed

text \<open>Three bytes printed on a fresh driver.\<close>

definition demo_ring :: uart_ring where
  "demo_ring = \<lparr>uart_buf = (\<lambda>_. 0), p_uart_buf_left = 2054, p_uart_buf_right = 2054\<rparr>"

definition demo_tx :: tx_system where
  "demo_tx = (tx_start demo_ring)\<lparr>ring := ring_puts [0x52, 0x54, 0x4F] demo_ring, accepted := [0x52, 0x54, 0x4F], due := 1\<rparr>"

lemma tx_reach_put: "put_step\<^sup>*\<^sup>* s s' \<Longrightarrow> tx_reach t dma s \<Longrightarrow> tx_reach t dma s'"
  by (induction rule: rtranclp_induct) (auto intro: Drain drain.Put)

lemma demo_tx_reach: "tx_reach t dma demo_tx"
proof -
  have ok: "ring_ok demo_ring" "ring_empty demo_ring" by (simp_all add: demo_ring_def ring_ok_def ring_empty_def UART_BUFFER_SIZE_def)
  let ?s = "(tx_start demo_ring)\<lparr>inside := Some (AtByte [0x52, 0x54, 0x4F]), due := 1\<rparr>"
  have "produce (tx_start demo_ring) ?s" using produce.Enter [of "tx_start demo_ring" "[0x52, 0x54, 0x4F]"] by (simp add: tx_start_def)
  then have "tx_reach t dma ?s" by (rule Produce [OF Init [OF ok]])
  moreover have "kept [0x52, 0x54, 0x4F] demo_ring = [0x52, 0x54, 0x4F]"
    by (simp add: kept_def demo_ring_def ring_count_def UART_BUFFER_SIZE_def)
  then have "put_step\<^sup>*\<^sup>* ?s demo_tx" using section_alone [of ?s "[0x52, 0x54, 0x4F]"] ok(1) by (simp add: demo_tx_def tx_start_def)
  ultimately show ?thesis by (rule tx_reach_put [rotated])
qed

theorem uart_tx_in_order_witness:
  "\<exists>rest. [0x52, 0x54, 0x4F] = wire demo_tx @ rest \<and> length rest \<le> 2056"
  using uart_tx_in_order [OF demo_tx_reach [of "TcbPool 0 0" True]] by (auto simp: demo_tx_def UART_BUFFER_SIZE_def)

theorem uart_tx_drains_witness:
  "\<exists>u. drain (TcbPool 0 0) True demo_tx u"
proof -
  have "(drain (TcbPool 0 0) True ^^ 0) demo_tx demo_tx" by simp
  moreover have "wire demo_tx \<noteq> accepted demo_tx" by (simp add: demo_tx_def tx_start_def)
  ultimately show ?thesis using uart_tx_drains [OF demo_tx_reach [of "TcbPool 0 0" True]] by blast
qed

end
