(* ===== verification/Mailbox.thy ===== *)
theory Mailbox
  imports Dma
begin

unbundle bit_operations_syntax

text \<open>
  \<^verbatim>\<open>drivers/mailbox/mailbox.c\<close>: property calls to the VideoCore. The message buffer is volatile memory the VideoCore writes too, so its words are
  read and written like registers, at \<open>s_mbox_buf\<close>. Waiting for the mailbox is bounded, but a mailbox that always has a response for somebody else
  keeps the outer loop going for ever, so a call returns an option.
\<close>

definition MBOX_BASE :: u32 where "MBOX_BASE = 0xFE00B880"
definition MBOX_READ :: u32 where "MBOX_READ = MBOX_BASE + 0x00"
definition MBOX_STATUS :: u32 where "MBOX_STATUS = MBOX_BASE + 0x18"
definition MBOX_WRITE :: u32 where "MBOX_WRITE = MBOX_BASE + 0x20"
definition MBOX_STATUS_FULL :: u32 where "MBOX_STATUS_FULL = push_bit 31 1"
definition MBOX_STATUS_EMPTY :: u32 where "MBOX_STATUS_EMPTY = push_bit 30 1"
definition MBOX_TAG_RESP_BIT :: u32 where "MBOX_TAG_RESP_BIT = push_bit 31 1"
definition MBOX_SPIN_LIMIT :: u32 where "MBOX_SPIN_LIMIT = 1000000"
definition MBOX_CH_PROPERTY :: u32 where "MBOX_CH_PROPERTY = 8"
definition MBOX_TAG_GET_FIRMWARE_REVISION :: u32 where "MBOX_TAG_GET_FIRMWARE_REVISION = 0x00000001"
definition MBOX_TAG_GET_BOARD_SERIAL :: u32 where "MBOX_TAG_GET_BOARD_SERIAL = 0x00010004"
definition MBOX_TAG_GET_ARM_MEMORY :: u32 where "MBOX_TAG_GET_ARM_MEMORY = 0x00010005"
definition MBOX_TAG_GET_CLOCK_RATE :: u32 where "MBOX_TAG_GET_CLOCK_RATE = 0x00030002"
definition MBOX_CLOCK_ID_CORE :: u32 where "MBOX_CLOCK_ID_CORE = 4"

text \<open>The \<open>do \<dots> while\<close> loop; the spins are shared by all its rounds.\<close>

partial_function (option) response_loop :: "u32 \<Rightarrow> u32 \<Rightarrow> 'z machine_scheme \<Rightarrow> (StatusCode \<times> 'z machine_scheme) option" where
  "response_loop addr spins s =
     (case run_state (spin_down MBOX_STATUS MBOX_STATUS_EMPTY spins) s of (spins, s) \<Rightarrow>
        if spins = 0 then Some (E_TIMED_OUT, s)
        else (case run_state (rd MBOX_READ) s of (resp, s) \<Rightarrow>
          if resp \<noteq> addr then response_loop addr spins s else Some (E_OK, s)))"

definition mbox_property_call :: "u32 \<Rightarrow> 'z machine_scheme \<Rightarrow> (StatusCode \<times> 'z machine_scheme) option" where
  "mbox_property_call buf s = (
     let addr = BUS_ADDRESS buf OR MBOX_CH_PROPERTY
     in case run_state (spin_down MBOX_STATUS MBOX_STATUS_FULL MBOX_SPIN_LIMIT) s of (spins, s) \<Rightarrow>
        if spins = 0 then Some (E_TIMED_OUT, s)
        else do {
          let s = snd (run_state (wr MBOX_WRITE addr) s);
          (r, s) \<leftarrow> response_loop addr MBOX_SPIN_LIMIT s;
          if r \<noteq> E_OK then Some (r, s)
          else (case run_state (rd (buf + 4)) s of (code, s) \<Rightarrow>
            Some (if code \<noteq> MBOX_TAG_RESP_BIT then E_CORRUPTED else E_OK, s)) })"

fun put_words :: "u32 \<Rightarrow> u32 list \<Rightarrow> ('z machine_scheme, unit) state" where
  "put_words a [] = return ()"
| "put_words a (w # ws) = do { wr a w; put_words (a + 4) ws }"

text \<open>A request with one tag and a value of two words, and the two words of the response.\<close>

definition mbox_request :: "u32 \<Rightarrow> u32 \<Rightarrow> u32 \<Rightarrow> 'z machine_scheme \<Rightarrow> ((StatusCode + u32 \<times> u32) \<times> 'z machine_scheme) option" where
  "mbox_request s_mbox_buf tag value s = do {
     let s = snd (run_state (put_words s_mbox_buf [8 * 4, 0, tag, 8, 0, value, 0, 0]) s);
     (ret, s) \<leftarrow> mbox_property_call s_mbox_buf s;
     if ret \<noteq> E_OK then Some (Inl ret, s)
     else (case run_state (rd (s_mbox_buf + 4 * 4)) s of (ind, s) \<Rightarrow>
       if ind AND MBOX_TAG_RESP_BIT = 0 then Some (Inl E_CORRUPTED, s)
       else (case run_state (do { a \<leftarrow> rd (s_mbox_buf + 4 * 5); b \<leftarrow> rd (s_mbox_buf + 4 * 6); return (a, b) }) s of (ab, s) \<Rightarrow> Some (Inr ab, s))) }"

definition mbox_get_clock_rate :: "u32 \<Rightarrow> u32 \<Rightarrow> 'z machine_scheme \<Rightarrow> ((StatusCode + u32) \<times> 'z machine_scheme) option" where
  "mbox_get_clock_rate s_mbox_buf clock_id s = do {
     let s = snd (run_state (put_words s_mbox_buf [8 * 4, 0, MBOX_TAG_GET_CLOCK_RATE, 8, 0, clock_id, 0, 0]) s);
     (ret, s) \<leftarrow> mbox_property_call s_mbox_buf s;
     if ret \<noteq> E_OK then Some (Inl ret, s)
     else (case run_state (rd (s_mbox_buf + 4 * 4)) s of (ind, s) \<Rightarrow>
       if ind AND MBOX_TAG_RESP_BIT = 0 then Some (Inl E_CORRUPTED, s)
       else (case run_state (rd (s_mbox_buf + 4 * 6)) s of (hz, s) \<Rightarrow> Some (Inr hz, s))) }"

definition mbox_get_board_serial :: "u32 \<Rightarrow> 'z machine_scheme \<Rightarrow> ((StatusCode + u32 \<times> u32) \<times> 'z machine_scheme) option" where
  "mbox_get_board_serial s_mbox_buf s = mbox_request s_mbox_buf MBOX_TAG_GET_BOARD_SERIAL 0 s"

definition mbox_get_arm_memory :: "u32 \<Rightarrow> 'z machine_scheme \<Rightarrow> ((StatusCode + u32 \<times> u32) \<times> 'z machine_scheme) option" where
  "mbox_get_arm_memory s_mbox_buf s = mbox_request s_mbox_buf MBOX_TAG_GET_ARM_MEMORY 0 s"

definition mbox_selftest :: "u32 \<Rightarrow> 'z machine_scheme \<Rightarrow> (StatusCode \<times> 'z machine_scheme) option" where
  "mbox_selftest s_mbox_buf s = do {
     let s = snd (run_state (put_words s_mbox_buf [7 * 4, 0, MBOX_TAG_GET_FIRMWARE_REVISION, 4, 0, 0, 0]) s);
     (ret, s) \<leftarrow> mbox_property_call s_mbox_buf s;
     case run_state (rd (s_mbox_buf + 4 * 5)) s of (_, s) \<Rightarrow> Some (ret, s) }"

end
