(* ===== verification/I2c.thy ===== *)
theory I2c
  imports Mailbox
begin

unbundle bit_operations_syntax

text \<open>
  \<^verbatim>\<open>drivers/i2c/i2c.c\<close>: the BSC controller at register level. The arrays indexed by channel are functions; the source reads \<open>s_i2c_configs\<close> before it
  checks the channel, and behind the array the function has some value. A receive operation returns the bytes it has put at the start of the caller's
  buffer, which keeps its other bytes.
\<close>

subsection \<open>Registers and state\<close>

definition I2C0_BASE :: u32 where "I2C0_BASE = 0xFE205000"
definition I2C1_BASE :: u32 where "I2C1_BASE = 0xFE804000"
definition I2C3_BASE :: u32 where "I2C3_BASE = 0xFE205600"
definition I2C4_BASE :: u32 where "I2C4_BASE = 0xFE205800"
definition I2C5_BASE :: u32 where "I2C5_BASE = 0xFE205A00"
definition I2C6_BASE :: u32 where "I2C6_BASE = 0xFE205C00"

definition BSC_C :: u32 where "BSC_C = 0x00"
definition BSC_S :: u32 where "BSC_S = 0x04"
definition BSC_DLEN :: u32 where "BSC_DLEN = 0x08"
definition BSC_A :: u32 where "BSC_A = 0x0C"
definition BSC_FIFO :: u32 where "BSC_FIFO = 0x10"
definition BSC_DIV :: u32 where "BSC_DIV = 0x14"

definition C_I2CEN :: u32 where "C_I2CEN = push_bit 15 1"
definition C_ST :: u32 where "C_ST = push_bit 7 1"
definition C_CLEAR :: u32 where "C_CLEAR = push_bit 4 1"
definition C_READ :: u32 where "C_READ = push_bit 0 1"
definition C_WRITE :: u32 where "C_WRITE = push_bit 0 0"
definition S_CLKT :: u32 where "S_CLKT = push_bit 9 1"
definition S_ERR :: u32 where "S_ERR = push_bit 8 1"
definition S_RXD :: u32 where "S_RXD = push_bit 5 1"
definition S_TXD :: u32 where "S_TXD = push_bit 4 1"
definition S_DONE :: u32 where "S_DONE = push_bit 1 1"
definition S_TA :: u32 where "S_TA = push_bit 0 1"
definition S_CLEAR_ALL :: u32 where "S_CLEAR_ALL = S_CLKT OR S_ERR OR S_DONE"
definition I2C_FIFO_DEPTH :: nat where "I2C_FIFO_DEPTH = 16"
definition I2C_NUM_CHANNELS :: nat where "I2C_NUM_CHANNELS = 7"

lemmas bsc_regs = BSC_C_def BSC_S_def BSC_DLEN_def BSC_A_def BSC_FIFO_def BSC_DIV_def
lemmas bsc_flags = S_CLKT_def S_ERR_def S_RXD_def S_TXD_def S_DONE_def S_TA_def S_CLEAR_ALL_def

datatype I2cBaudrate = I2C_BAUDRATE_STANDARD_100K | I2C_BAUDRATE_FAST_400K

definition I2C_BAUDRATE_STANDARD_100K_HZ :: u32 where "I2C_BAUDRATE_STANDARD_100K_HZ = 100000"
definition I2C_BAUDRATE_FAST_400K_HZ :: u32 where "I2C_BAUDRATE_FAST_400K_HZ = 400000"

record I2cConfig =
  sda_pin :: u8
  scl_pin :: u8
  i2c_alt_func :: GPIOFunc
  i2c_baudrate :: I2cBaudrate

record i2c = machine +
  s_i2c_core_clock_hz :: u32
  s_i2c_configs :: "nat \<Rightarrow> I2cConfig option"
  s_i2c_last_status :: "nat \<Rightarrow> u32"

definition i2c_hw_table :: "nat \<Rightarrow> u32 option" where
  "i2c_hw_table = (\<lambda>_. None)(0 \<mapsto> I2C0_BASE, 1 \<mapsto> I2C1_BASE, 3 \<mapsto> I2C3_BASE, 4 \<mapsto> I2C4_BASE, 5 \<mapsto> I2C5_BASE, 6 \<mapsto> I2C6_BASE)"

definition i2c_channel_regs :: "u8 \<Rightarrow> u32 option" where
  "i2c_channel_regs channel = (if unat channel \<ge> I2C_NUM_CHANNELS \<or> i2c_hw_table (unat channel) = None then None
     else i2c_hw_table (unat channel))"

definition i2c_channel_last_status :: "u8 \<Rightarrow> 'z i2c_scheme \<Rightarrow> u32" where
  "i2c_channel_last_status channel s = (if unat channel \<ge> I2C_NUM_CHANNELS then 0 else s_i2c_last_status s (unat channel))"

subsection \<open>Set-up\<close>

definition i2c_core_clock_hz :: "u32 \<Rightarrow> 'z i2c_scheme \<Rightarrow> ((StatusCode + u32) \<times> 'z i2c_scheme) option" where
  "i2c_core_clock_hz s_mbox_buf s = (
     if s_i2c_core_clock_hz s \<noteq> 0 then Some (Inr (s_i2c_core_clock_hz s), s)
     else do {
       (r, s) \<leftarrow> mbox_get_clock_rate s_mbox_buf MBOX_CLOCK_ID_CORE s;
       case r of Inl ret \<Rightarrow> Some (Inl ret, s) | Inr hz \<Rightarrow> Some (Inr hz, s\<lparr>s_i2c_core_clock_hz := hz\<rparr>) })"

definition clock_div :: "u32 \<Rightarrow> u32 \<Rightarrow> u32" where
  "clock_div core_hz target_hz = (
     let d = (core_hz + target_hz - 1) div target_hz;
         d = (if d AND 1 \<noteq> 0 then d + 1 else d);
         d = (if d < 2 then 2 else d)
     in if d > 0xFFFE then 0xFFFE else d)"

definition i2c_channel_init :: "u32 \<Rightarrow> u8 \<Rightarrow> I2cConfig option \<Rightarrow> 'z i2c_scheme \<Rightarrow> (StatusCode \<times> 'z i2c_scheme) option" where
  "i2c_channel_init s_mbox_buf channel config s = (case config of
     None \<Rightarrow> Some (E_INVALID_ARGS, s)
   | Some config \<Rightarrow> (case i2c_channel_regs channel of
       None \<Rightarrow> Some (E_NOTSUPP, s)
     | Some regs \<Rightarrow> do {
         let s = snd (run_state (do {
           _ \<leftarrow> spin_down (regs + BSC_S) S_TA 10000;
           wr (regs + BSC_C) 0;
           gpio_set_function (ucast (sda_pin config)) (i2c_alt_func config);
           gpio_set_pull (sda_pin config) GPIO_PULL_UP;
           gpio_set_function (ucast (scl_pin config)) (i2c_alt_func config);
           gpio_set_pull (scl_pin config) GPIO_PULL_UP }) s);
         (r, s) \<leftarrow> i2c_core_clock_hz s_mbox_buf s;
         case r of
           Inl ret \<Rightarrow> Some (ret, s)
         | Inr core_hz \<Rightarrow>
             let target_hz = (if i2c_baudrate config = I2C_BAUDRATE_FAST_400K then I2C_BAUDRATE_FAST_400K_HZ else I2C_BAUDRATE_STANDARD_100K_HZ);
                 s = snd (run_state (do {
                   wr (regs + BSC_DIV) (clock_div core_hz target_hz);
                   wr (regs + BSC_S) S_CLEAR_ALL;
                   wr (regs + BSC_C) C_I2CEN }) s)
             in Some (E_OK, s\<lparr>s_i2c_configs := (s_i2c_configs s)(unat channel \<mapsto> config)\<rparr>) }))"

definition i2c_channel_deinit :: "u8 \<Rightarrow> ('z i2c_scheme, unit) state" where
  "i2c_channel_deinit channel = (case i2c_channel_regs channel of
     None \<Rightarrow> return ()
   | Some regs \<Rightarrow> do {
       _ \<leftarrow> spin_down (regs + BSC_S) S_TA 10000;
       wr (regs + BSC_C) 0;
       wr (regs + BSC_S) S_CLEAR_ALL;
       cs \<leftarrow> gets s_i2c_configs;
       case cs (unat channel) of
         None \<Rightarrow> return ()
       | Some config \<Rightarrow> do {
           gpio_set_function (ucast (sda_pin config)) GPIO_FUNC_INPUT;
           gpio_set_function (ucast (scl_pin config)) GPIO_FUNC_INPUT } })"

subsection \<open>Transfers\<close>

text \<open>Feeding and draining the FIFO; the lists are what is still to be sent, and what has been received.\<close>

function feed_loop :: "u32 \<Rightarrow> u8 list \<Rightarrow> u32 \<Rightarrow> ('z i2c_scheme, unit) state" where
  "feed_loop regs bs timeout = (
     if bs \<noteq> [] \<and> timeout > 0 then do {
       status \<leftarrow> rd (regs + BSC_S);
       if status AND (S_ERR OR S_CLKT) \<noteq> 0 then return ()
       else if status AND S_TXD \<noteq> 0 then do { wr (regs + BSC_FIFO) (ucast (hd bs)); feed_loop regs (tl bs) (timeout - 1) }
       else feed_loop regs bs (timeout - 1) }
     else return ())"
  by pat_completeness auto

termination
  by (relation "measure (\<lambda>(a, b, c). unat c)") (auto simp: measure_unat word_neq_0_conv)

declare feed_loop.simps [simp del]

function fetch_loop :: "u32 \<Rightarrow> nat \<Rightarrow> u32 \<Rightarrow> u8 list \<Rightarrow> ('z i2c_scheme, u8 list) state" where
  "fetch_loop regs len timeout got = (
     if length got < len \<and> timeout > 0 then do {
       status \<leftarrow> rd (regs + BSC_S);
       if status AND (S_ERR OR S_CLKT) \<noteq> 0 then return got
       else if status AND S_RXD \<noteq> 0 then do { v \<leftarrow> rd (regs + BSC_FIFO); fetch_loop regs len (timeout - 1) (got @ [ucast v]) }
       else fetch_loop regs len (timeout - 1) got }
     else return got)"
  by pat_completeness auto

termination
  by (relation "measure (\<lambda>(a, b, c, d). unat c)") (auto simp: measure_unat word_neq_0_conv)

declare fetch_loop.simps [simp del]

function until_loop :: "u32 \<Rightarrow> u32 \<Rightarrow> u32 \<Rightarrow> ('z i2c_scheme, u32) state" where
  "until_loop regs flags timeout = do {
     v \<leftarrow> rd (regs + BSC_S);
     if v AND flags = 0 \<and> timeout > 0 then until_loop regs flags (timeout - 1) else return timeout }"
  by pat_completeness auto

termination
  by (relation "measure (\<lambda>(a, m, c). unat c)") (auto simp: measure_unat word_neq_0_conv)

declare until_loop.simps [simp del]

text \<open>The end every transfer shares: wait for an end flag, keep the status, and judge it.\<close>

definition transfer_end :: "u32 \<Rightarrow> u8 \<Rightarrow> ('z i2c_scheme, StatusCode) state" where
  "transfer_end regs channel = do {
     _ \<leftarrow> until_loop regs (S_DONE OR S_ERR OR S_CLKT) 10000;
     status \<leftarrow> rd (regs + BSC_S);
     upd (\<lambda>s. s\<lparr>s_i2c_last_status := (s_i2c_last_status s)(unat channel := status)\<rparr>);
     if status AND S_CLKT \<noteq> 0 then do { wr (regs + BSC_C) 0; return E_TIMED_OUT }
     else if status AND S_ERR \<noteq> 0 then return E_DATA
     else if status AND S_DONE = 0 then do { wr (regs + BSC_C) 0; return E_TIMED_OUT }
     else return E_OK }"

definition i2c_channel_write :: "u8 \<Rightarrow> u8 \<Rightarrow> u8 list \<Rightarrow> u16 \<Rightarrow> ('z i2c_scheme, StatusCode) state" where
  "i2c_channel_write channel addr buf len = (
     if len = 0 then return E_INVALID_ARGS
     else do {
       cs \<leftarrow> gets s_i2c_configs;
       if cs (unat channel) = None then return E_NOT_INITIALIZED
       else (case i2c_channel_regs channel of
         None \<Rightarrow> return E_NOTSUPP
       | Some regs \<Rightarrow> do {
           wr (regs + BSC_S) S_CLEAR_ALL;
           wr (regs + BSC_A) (ucast addr);
           wr (regs + BSC_DLEN) (ucast len);
           wr (regs + BSC_C) (C_I2CEN OR C_ST OR C_WRITE);
           feed_loop regs (take (unat len) buf) 1000000;
           transfer_end regs channel }) })"

definition i2c_channel_read :: "u8 \<Rightarrow> u8 \<Rightarrow> u16 \<Rightarrow> ('z i2c_scheme, StatusCode \<times> u8 list) state" where
  "i2c_channel_read channel addr len = (
     if len = 0 then return (E_INVALID_ARGS, [])
     else do {
       cs \<leftarrow> gets s_i2c_configs;
       if cs (unat channel) = None then return (E_NOT_INITIALIZED, [])
       else (case i2c_channel_regs channel of
         None \<Rightarrow> return (E_NOTSUPP, [])
       | Some regs \<Rightarrow> do {
           wr (regs + BSC_S) S_CLEAR_ALL;
           wr (regs + BSC_A) (ucast addr);
           wr (regs + BSC_DLEN) (ucast len);
           wr (regs + BSC_C) (C_I2CEN OR C_ST OR C_READ);
           got \<leftarrow> fetch_loop regs (unat len) 1000000 [];
           ret \<leftarrow> transfer_end regs channel;
           return (ret, got) }) })"

fun preload :: "u32 \<Rightarrow> u8 list \<Rightarrow> ('z i2c_scheme, unit) state" where
  "preload regs [] = return ()"
| "preload regs (b # bs) = do { wr (regs + BSC_FIFO) (ucast b); preload regs bs }"

definition i2c_channel_write_read :: "u8 \<Rightarrow> u8 \<Rightarrow> u8 list \<Rightarrow> u16 \<Rightarrow> u16 \<Rightarrow> ('z i2c_scheme, StatusCode \<times> u8 list) state" where
  "i2c_channel_write_read channel addr tx_buf tx_len rx_len = do {
     cs \<leftarrow> gets s_i2c_configs;
     if cs (unat channel) = None then return (E_NOT_INITIALIZED, [])
     else (case i2c_channel_regs channel of
       None \<Rightarrow> return (E_NOTSUPP, [])
     | Some regs \<Rightarrow>
         if unat tx_len > I2C_FIFO_DEPTH then return (E_INVALID_ARGS, [])
         else do {
           wr (regs + BSC_C) C_CLEAR;
           wr (regs + BSC_S) S_CLEAR_ALL;
           wr (regs + BSC_A) (ucast addr);
           wr (regs + BSC_DLEN) (ucast tx_len);
           wr (regs + BSC_C) C_I2CEN;
           preload regs (take (unat tx_len) tx_buf);
           wr (regs + BSC_C) (C_I2CEN OR C_ST);
           timeout \<leftarrow> until_loop regs (S_TA OR S_DONE OR S_ERR OR S_CLKT) 10000;
           status \<leftarrow> rd (regs + BSC_S);
           upd (\<lambda>s. s\<lparr>s_i2c_last_status := (s_i2c_last_status s)(unat channel := status)\<rparr>);
           if timeout = 0 then do { wr (regs + BSC_C) 0; return (E_TIMED_OUT, []) }
           else if status AND S_CLKT \<noteq> 0 then do { wr (regs + BSC_C) 0; return (E_TIMED_OUT, []) }
           else if status AND S_ERR \<noteq> 0 then return (E_DATA, [])
           else do {
             wr (regs + BSC_DLEN) (ucast rx_len);
             wr (regs + BSC_C) (C_I2CEN OR C_ST OR C_READ);
             got \<leftarrow> fetch_loop regs (unat rx_len) 1000000 [];
             ret \<leftarrow> transfer_end regs channel;
             return (ret, got) } }) }"

end
