(* ===== verification/Pca9685.thy ===== *)
theory Pca9685
  imports I2c
begin

unbundle bit_operations_syntax

text \<open>
  \<^verbatim>\<open>drivers/pwm_pca9685/pwm_pca9685.c\<close>: the PWM chip behind the I2C bus. The pause between waking the chip and restarting it is a call of \<open>task_delay_ms\<close>,
  which has no effect on this state (\<^verbatim>\<open>Scheduler\<close> has its model); the debug text is left out.
\<close>

definition PCA9685_MODE1 :: u8 where "PCA9685_MODE1 = 0x00"
definition PCA9685_MODE2 :: u8 where "PCA9685_MODE2 = 0x01"
definition PCA9685_PRE_SCALE :: u8 where "PCA9685_PRE_SCALE = 0xFE"
definition PCA9685_LED0_ON_L :: u8 where "PCA9685_LED0_ON_L = 0x06"
definition PCA9685_MODE1_RESTART :: u8 where "PCA9685_MODE1_RESTART = push_bit 7 1"
definition PCA9685_MODE1_AI :: u8 where "PCA9685_MODE1_AI = push_bit 5 1"
definition PCA9685_MODE1_SLEEP :: u8 where "PCA9685_MODE1_SLEEP = push_bit 4 1"
definition PCA9685_MODE2_OUTDRV :: u8 where "PCA9685_MODE2_OUTDRV = push_bit 2 1"
definition PCA9685_LED_FULL_BIT :: u8 where "PCA9685_LED_FULL_BIT = push_bit 4 1"
definition PCA9685_NUM_CHANNELS :: u8 where "PCA9685_NUM_CHANNELS = 16"
definition PCA9685_TICK_MAX :: u32 where "PCA9685_TICK_MAX = 4096"
definition PCA9685_OSC_CLOCK_HZ :: u32 where "PCA9685_OSC_CLOCK_HZ = 25000000"
definition PCA9685_FREQ_HZ_MIN :: u32 where "PCA9685_FREQ_HZ_MIN = 24"
definition PCA9685_FREQ_HZ_MAX :: u32 where "PCA9685_FREQ_HZ_MAX = 1526"

record Pca9685Config =
  pca_channel :: u8
  i2c_addr :: u8
  pwm_freq_hz :: u32

record pca = i2c +
  s_pca_config :: "Pca9685Config option"

definition pca9685_write_reg :: "u8 \<Rightarrow> u8 \<Rightarrow> u8 \<Rightarrow> u8 \<Rightarrow> ('z i2c_scheme, StatusCode) state" where
  "pca9685_write_reg channel addr reg value = i2c_channel_write channel addr [reg, value] 2"

text \<open>The register's value; without a byte the variable it goes to keeps what it had.\<close>

definition pca9685_read_reg :: "u8 \<Rightarrow> u8 \<Rightarrow> u8 \<Rightarrow> u8 \<Rightarrow> ('z i2c_scheme, StatusCode \<times> u8) state" where
  "pca9685_read_reg channel addr reg old = do {
     ret \<leftarrow> i2c_channel_write channel addr [reg] 1;
     if ret \<noteq> E_OK then return (ret, old)
     else do {
       (ret, got) \<leftarrow> i2c_channel_read channel addr 1;
       return (ret, case got of [] \<Rightarrow> old | v # _ \<Rightarrow> v) } }"

definition pwm_pca9685_is_initialized :: "('z pca_scheme, StatusCode) state" where
  "pwm_pca9685_is_initialized = do { c \<leftarrow> gets s_pca_config; return (if c \<noteq> None then E_OK else E_NOT_INITIALIZED) }"

definition prescale_of :: "u32 \<Rightarrow> u8" where
  "prescale_of freq = (
     let denom = PCA9685_TICK_MAX * freq;
         prescale = (PCA9685_OSC_CLOCK_HZ + denom div 2) div denom
     in ucast (prescale - 1))"

text \<open>\<open>mode10\<close> is what the uninitialised \<open>mode1\<close> holds.\<close>

definition pwm_pca9685_init :: "u8 \<Rightarrow> Pca9685Config option \<Rightarrow> ('z pca_scheme, StatusCode) state" where
  "pwm_pca9685_init mode10 config = (case config of
     None \<Rightarrow> return E_INVALID_ARGS
   | Some config \<Rightarrow>
       if pwm_freq_hz config < PCA9685_FREQ_HZ_MIN \<or> pwm_freq_hz config > PCA9685_FREQ_HZ_MAX then return E_INVALID_ARGS
       else do {
         let channel = pca_channel config;
         let addr = i2c_addr config;
         (ret, mode1) \<leftarrow> pca9685_read_reg channel addr PCA9685_MODE1 mode10;
         if ret \<noteq> E_OK then return ret
         else do {
           let mode1_sleep = mode1 AND NOT PCA9685_MODE1_RESTART OR PCA9685_MODE1_SLEEP;
           ret \<leftarrow> pca9685_write_reg channel addr PCA9685_MODE1 mode1_sleep;
           if ret \<noteq> E_OK then return ret
           else do {
             ret \<leftarrow> pca9685_write_reg channel addr PCA9685_PRE_SCALE (prescale_of (pwm_freq_hz config));
             if ret \<noteq> E_OK then return ret
             else do {
               ret \<leftarrow> pca9685_write_reg channel addr PCA9685_MODE1 (mode1_sleep AND NOT PCA9685_MODE1_SLEEP);
               if ret \<noteq> E_OK then return ret
               else do {
                 ret \<leftarrow> pca9685_write_reg channel addr PCA9685_MODE1
                   (mode1_sleep AND NOT PCA9685_MODE1_SLEEP OR PCA9685_MODE1_RESTART OR PCA9685_MODE1_AI);
                 if ret \<noteq> E_OK then return ret
                 else do {
                   ret \<leftarrow> pca9685_write_reg channel addr PCA9685_MODE2 PCA9685_MODE2_OUTDRV;
                   if ret \<noteq> E_OK then return ret
                   else do {
                     upd (\<lambda>s. s\<lparr>s_pca_config := Some config\<rparr>);
                     return E_OK } } } } } } })"

definition on_tick_of :: "u32 \<Rightarrow> u16" where
  "on_tick_of delay = ucast ((ucast delay :: u64) * ucast (PCA9685_TICK_MAX - 1) div ucast (0xFFFFFFFF :: u32))"

definition channel_reg :: "u8 \<Rightarrow> u8" where
  "channel_reg pwm_channel = PCA9685_LED0_ON_L + 4 * pwm_channel"

definition channel_bytes :: "u8 \<Rightarrow> u16 \<Rightarrow> u16 \<Rightarrow> u8 list" where
  "channel_bytes pwm_channel on_tick off_tick =
     [channel_reg pwm_channel, ucast (on_tick AND 0xFF), ucast (drop_bit 8 on_tick AND 0x0F), ucast (off_tick AND 0xFF),
      ucast (drop_bit 8 off_tick AND 0x0F)]"

definition pwm_pca9685_set_channel :: "u8 \<Rightarrow> u32 \<Rightarrow> u32 \<Rightarrow> ('z pca_scheme, StatusCode) state" where
  "pwm_pca9685_set_channel pwm_channel delay duty_cycle = do {
     c \<leftarrow> gets s_pca_config;
     case c of
       None \<Rightarrow> return E_NOT_INITIALIZED
     | Some config \<Rightarrow>
         if pwm_channel \<ge> PCA9685_NUM_CHANNELS then return E_INVALID_ARGS
         else if 0xFFFFFFFF - delay < duty_cycle then return E_INVALID_ARGS
         else i2c_channel_write (pca_channel config) (i2c_addr config)
           (channel_bytes pwm_channel (on_tick_of delay) (on_tick_of (delay + duty_cycle))) 5 }"

definition pwm_pca9685_set_channel_full_off :: "u8 \<Rightarrow> ('z pca_scheme, StatusCode) state" where
  "pwm_pca9685_set_channel_full_off pwm_channel = do {
     c \<leftarrow> gets s_pca_config;
     case c of
       None \<Rightarrow> return E_NOT_INITIALIZED
     | Some config \<Rightarrow>
         if pwm_channel \<ge> PCA9685_NUM_CHANNELS then return E_INVALID_ARGS
         else do {
           ret \<leftarrow> pca9685_write_reg (pca_channel config) (i2c_addr config) (channel_reg pwm_channel + 1) 0x00;
           if ret \<noteq> E_OK then return ret
           else pca9685_write_reg (pca_channel config) (i2c_addr config) (channel_reg pwm_channel + 3) PCA9685_LED_FULL_BIT } }"

definition pwm_pca9685_set_channel_full_on :: "u8 \<Rightarrow> ('z pca_scheme, StatusCode) state" where
  "pwm_pca9685_set_channel_full_on pwm_channel = do {
     c \<leftarrow> gets s_pca_config;
     case c of
       None \<Rightarrow> return E_NOT_INITIALIZED
     | Some config \<Rightarrow>
         if pwm_channel \<ge> PCA9685_NUM_CHANNELS then return E_INVALID_ARGS
         else do {
           ret \<leftarrow> pca9685_write_reg (pca_channel config) (i2c_addr config) (channel_reg pwm_channel + 3) 0x00;
           if ret \<noteq> E_OK then return ret
           else pca9685_write_reg (pca_channel config) (i2c_addr config) (channel_reg pwm_channel + 1) PCA9685_LED_FULL_BIT } }"

fun all_off :: "u8 list \<Rightarrow> ('z pca_scheme, unit) state" where
  "all_off [] = return ()"
| "all_off (ch # chs) = do { _ \<leftarrow> pwm_pca9685_set_channel_full_off ch; all_off chs }"

definition pwm_pca9685_deinit :: "('z pca_scheme, StatusCode) state" where
  "pwm_pca9685_deinit = do {
     c \<leftarrow> gets s_pca_config;
     case c of
       None \<Rightarrow> return E_NOT_INITIALIZED
     | Some config \<Rightarrow> do {
         all_off (map of_nat [0..<unat PCA9685_NUM_CHANNELS]);
         ret \<leftarrow> pca9685_write_reg (pca_channel config) (i2c_addr config) PCA9685_MODE1 PCA9685_MODE1_SLEEP;
         upd (\<lambda>s. s\<lparr>s_pca_config := None\<rparr>);
         return ret } }"

end
