(* ===== verification/Pca9685_Props.thy ===== *)
theory Pca9685_Props
  imports Pca9685
begin

unbundle bit_operations_syntax

text \<open>
  What a transfer does on the bus, for every device: the writes of a call, oldest first, and the verdict on the last status it read.
\<close>

fun reg_writes :: "access list \<Rightarrow> (u32 \<times> u32) list" where
  "reg_writes [] = []"
| "reg_writes (Rd a v # tr) = reg_writes tr"
| "reg_writes (Wr a v # tr) = reg_writes tr @ [(a, v)]"

lemma reg_writes_append [simp]: "reg_writes (xs @ ys) = reg_writes ys @ reg_writes xs"
  by (induction xs rule: reg_writes.induct) simp_all

text \<open>\<open>did ws s s'\<close>: between the two states the writes were \<open>ws\<close>; the device and the configurations are the same.\<close>

definition did :: "(u32 \<times> u32) list \<Rightarrow> 'z i2c_scheme \<Rightarrow> 'z i2c_scheme \<Rightarrow> bool" where
  "did ws s s' \<longleftrightarrow> (\<exists>evs. trace s' = evs @ trace s \<and> reg_writes evs = ws) \<and> dev s' = dev s \<and> s_i2c_configs s' = s_i2c_configs s"

lemma did_trans: "did ws s t \<Longrightarrow> did vs t u \<Longrightarrow> did (ws @ vs) s u"
  unfolding did_def by (metis append.assoc reg_writes_append)

lemma did_refl: "did [] s s"
  unfolding did_def by (intro conjI exI [of _ "[]"]) simp_all

lemma did_rd: "did [] s (s\<lparr>trace := Rd a v # trace s\<rparr>)"
  unfolding did_def by (intro conjI exI [of _ "[Rd a v]"]) simp_all

lemma did_wr: "did [(a, v)] s (s\<lparr>trace := Wr a v # trace s\<rparr>)"
  unfolding did_def by (intro conjI exI [of _ "[Wr a v]"]) simp_all

lemma did_status: "did [] s (s\<lparr>s_i2c_last_status := f\<rparr>)"
  unfolding did_def by (intro conjI exI [of _ "[]"]) simp_all

lemma did_rd_then: "did ws (s\<lparr>trace := Rd a v # trace s\<rparr>) u \<Longrightarrow> did ws s u"
  using did_trans [OF did_rd] by fastforce

lemma did_wr_then: "did ws (s\<lparr>trace := Wr a v # trace s\<rparr>) u \<Longrightarrow> did ((a, v) # ws) s u"
  using did_trans [OF did_wr] by fastforce

abbreviation to_fifo :: "u32 \<Rightarrow> u8 list \<Rightarrow> (u32 \<times> u32) list" where
  "to_fifo regs bs \<equiv> map (\<lambda>b. (regs + BSC_FIFO, ucast b)) bs"

text \<open>A device that answers: no error, room in the FIFO at every poll, and done once it has as many bytes as the transfer asked for.\<close>

definition all_fed :: "u32 \<Rightarrow> (u32 \<times> u32) list \<Rightarrow> bool" where
  "all_fed regs ws \<longleftrightarrow> (\<exists>pre n bs. ws = pre @ [(regs + BSC_DLEN, n), (regs + BSC_C, C_I2CEN OR C_ST OR C_WRITE)] @ to_fifo regs bs \<and> unat n = length bs)"

definition answers :: "'z i2c_scheme \<Rightarrow> u32 \<Rightarrow> bool" where
  "answers s regs \<longleftrightarrow> (\<forall>tr. dev s tr (regs + BSC_S) AND (S_ERR OR S_CLKT) = 0 \<and> dev s tr (regs + BSC_S) AND S_TXD \<noteq> 0 \<and>
     (all_fed regs (reg_writes tr) \<longrightarrow> dev s tr (regs + BSC_S) AND S_DONE \<noteq> 0))"

lemma feed_loop_did:
  "\<exists>k \<le> length bs. did (to_fifo regs (take k bs)) s (snd (run_state (feed_loop regs bs timeout) s)) \<and>
     (answers s regs \<and> length bs \<le> unat timeout \<longrightarrow> k = length bs)"
proof (induction regs bs timeout arbitrary: s rule: feed_loop.induct)
  case (1 regs bs timeout)
  let ?st = "dev s (trace s) (regs + BSC_S)"
  define s1 where "s1 = s\<lparr>trace := Rd (regs + BSC_S) ?st # trace s\<rparr>"
  have r1: "answers s1 regs = answers s regs" by (simp add: answers_def s1_def)
  show ?case
  proof (cases "bs \<noteq> [] \<and> timeout > 0")
    case False
    then have "snd (run_state (feed_loop regs bs timeout) s) = s" by (subst feed_loop.simps) (simp only: if_False run_state_return snd_conv)
    then show ?thesis using False did_refl [of s] by (intro exI [of _ 0]) (auto simp: word_gt_0)
  next
    case True
    then obtain b bs' where bs: "bs = b # bs'" by (cases bs) auto
    have t: "unat (timeout - 1) = unat timeout - 1" using True by (simp add: unat_minus_one word_neq_0_conv)
    consider "?st AND (S_ERR OR S_CLKT) \<noteq> 0" | "?st AND (S_ERR OR S_CLKT) = 0" "?st AND S_TXD \<noteq> 0" | "?st AND (S_ERR OR S_CLKT) = 0" "?st AND S_TXD = 0"
      by blast
    then show ?thesis
    proof cases
      case 1
      then have "snd (run_state (feed_loop regs bs timeout) s) = s1" using True by (subst feed_loop.simps) (simp add: s1_def)
      moreover have "\<not> answers s regs" using 1 by (auto simp: answers_def)
      ultimately show ?thesis using did_rd [where s = s] by (intro exI [of _ 0]) (auto simp: s1_def)
    next
      case 2
      define s2 where "s2 = s1\<lparr>trace := Wr (regs + BSC_FIFO) (ucast b) # trace s1\<rparr>"
      have run: "snd (run_state (feed_loop regs bs timeout) s) = snd (run_state (feed_loop regs bs' (timeout - 1)) s2)"
        using 2 bs True by (subst feed_loop.simps) (simp add: s1_def s2_def)
      have r2: "answers s2 regs = answers s regs" by (simp add: answers_def s1_def s2_def)
      have "\<exists>k \<le> length bs'. did (to_fifo regs (take k bs')) s2 (snd (run_state (feed_loop regs bs' (timeout - 1)) s2)) \<and>
          (answers s2 regs \<and> length bs' \<le> unat (timeout - 1) \<longrightarrow> k = length bs')"
        using "1.IH"(1) [of ?st s2] True 2 by (simp add: bs)
      then obtain k where k: "k \<le> length bs'" "did (to_fifo regs (take k bs')) s2 (snd (run_state (feed_loop regs bs' (timeout - 1)) s2))"
          "answers s2 regs \<and> length bs' \<le> unat (timeout - 1) \<longrightarrow> k = length bs'" by blast
      have "did (to_fifo regs (take (Suc k) bs)) s (snd (run_state (feed_loop regs bs timeout) s))"
        using did_rd_then [OF did_wr_then [OF k(2) [unfolded s2_def], unfolded s1_def]] unfolding run unfolding bs s2_def s1_def by simp
      then show ?thesis using k(1,3) r2 t True by (intro exI [of _ "Suc k"]) (auto simp: bs)
    next
      case 3
      have run: "snd (run_state (feed_loop regs bs timeout) s) = snd (run_state (feed_loop regs bs (timeout - 1)) s1)"
        using 3 True by (subst feed_loop.simps) (simp add: s1_def)
      have nr: "\<not> answers s regs" using 3 by (auto simp: answers_def)
      obtain k where k: "k \<le> length bs" "did (to_fifo regs (take k bs)) s1 (snd (run_state (feed_loop regs bs (timeout - 1)) s1))"
        using "1.IH"(2) [of ?st s1] True 3 by blast
      then show ?thesis using nr did_rd_then [OF k(2) [unfolded s1_def]] unfolding run by (intro exI [of _ k]) (auto simp: s1_def)
    qed
  qed
qed

lemma until_loop_did: "did [] s (snd (run_state (until_loop regs flags timeout) s))"
proof (induction regs flags timeout arbitrary: s rule: until_loop.induct)
  case (1 regs flags timeout)
  define s1 where "s1 = s\<lparr>trace := Rd (regs + BSC_S) (dev s (trace s) (regs + BSC_S)) # trace s\<rparr>"
  have run: "snd (run_state (until_loop regs flags timeout) s) =
      (if dev s (trace s) (regs + BSC_S) AND flags = 0 \<and> timeout > 0 then snd (run_state (until_loop regs flags (timeout - 1)) s1) else s1)"
    by (subst until_loop.simps) (simp add: s1_def)
  show ?case unfolding run using 1 [of _ s1] did_rd_then [where ws = "[]" and s = s] did_rd [where s = s] by (auto simp: s1_def)
qed

definition verdict :: "u32 \<Rightarrow> StatusCode" where
  "verdict status = (if status AND S_CLKT \<noteq> 0 then E_TIMED_OUT else if status AND S_ERR \<noteq> 0 then E_DATA
     else if status AND S_DONE = 0 then E_TIMED_OUT else E_OK)"

lemma transfer_end_did:
  assumes "run_state (transfer_end regs channel) s = (ret, s')"
  shows "did (if ret = E_TIMED_OUT then [(regs + BSC_C, 0)] else []) s s'" "ret = verdict (s_i2c_last_status s' (unat channel))"
    "answers s regs \<Longrightarrow> all_fed regs (reg_writes (trace s)) \<Longrightarrow> ret = E_OK"
proof -
  define s1 where "s1 = snd (run_state (until_loop regs (S_DONE OR S_ERR OR S_CLKT) 10000) s)"
  define st where "st = dev s1 (trace s1) (regs + BSC_S)"
  define s2 where "s2 = (s1\<lparr>trace := Rd (regs + BSC_S) st # trace s1\<rparr>)\<lparr>s_i2c_last_status := (s_i2c_last_status s1)(unat channel := st)\<rparr>"
  have run: "ret = verdict st" "s' = (if ret = E_TIMED_OUT then s2\<lparr>trace := Wr (regs + BSC_C) 0 # trace s2\<rparr> else s2)"
    using assms by (auto simp: transfer_end_def s1_def [symmetric] st_def [symmetric] s2_def verdict_def case_prod_beta Let_def split: if_splits)
  have d: "did [] s s1" unfolding s1_def by (rule until_loop_did)
  have d2: "did [] s s2"
    using did_trans [OF d did_trans [OF did_rd did_status]] unfolding s2_def by simp
  show "did (if ret = E_TIMED_OUT then [(regs + BSC_C, 0)] else []) s s'"
    using d2 did_trans [OF d2 did_wr] unfolding run(2) by simp
  show "ret = verdict (s_i2c_last_status s' (unat channel))" using run by (simp add: s2_def)
  show "ret = E_OK" if "answers s regs" "all_fed regs (reg_writes (trace s))"
  proof -
    have "dev s1 = dev s" "reg_writes (trace s1) = reg_writes (trace s)" using d by (auto simp: did_def)
    then have r: "st AND (S_ERR OR S_CLKT) = 0" "st AND S_DONE \<noteq> 0" using that by (simp_all add: answers_def st_def)
    have "st AND S_ERR = 0" "st AND S_CLKT = 0" using r(1) by (simp_all add: bit.conj_disj_distrib or_eq_0_iff)
    then show ?thesis using r(2) by (simp add: run(1) verdict_def)
  qed
qed

lemma write_did:
  assumes "len \<noteq> 0" "length buf = unat len" and "s_i2c_configs s (unat channel) \<noteq> None" and "i2c_channel_regs channel = Some regs"
    and "run_state (i2c_channel_write channel addr buf len) s = (ret, s')"
  shows "\<exists>k \<le> unat len. did ([(regs + BSC_S, S_CLEAR_ALL), (regs + BSC_A, ucast addr), (regs + BSC_DLEN, ucast len), (regs + BSC_C, C_I2CEN OR C_ST OR C_WRITE)] @
      to_fifo regs (take k buf) @ (if ret = E_TIMED_OUT then [(regs + BSC_C, 0)] else [])) s s' \<and>
    ret = verdict (s_i2c_last_status s' (unat channel)) \<and> (answers s regs \<longrightarrow> ret = E_OK \<and> k = unat len)"
proof -
  define tr where "tr = [Wr (regs + BSC_C) (C_I2CEN OR C_ST OR C_WRITE), Wr (regs + BSC_DLEN) (ucast len), Wr (regs + BSC_A) (ucast addr), Wr (regs + BSC_S) S_CLEAR_ALL]"
  define s1 where "s1 = s\<lparr>trace := tr @ trace s\<rparr>"
  define s2 where "s2 = snd (run_state (feed_loop regs buf 1000000) s1)"
  obtain c where cfg: "s_i2c_configs s (unat channel) = Some c" using assms(3) by auto
  have run: "run_state (transfer_end regs channel) s2 = (ret, s')"
    using assms(1,2,4,5) cfg by (simp add: i2c_channel_write_def s1_def s2_def tr_def case_prod_beta)
  have d1: "did [(regs + BSC_S, S_CLEAR_ALL), (regs + BSC_A, ucast addr), (regs + BSC_DLEN, ucast len), (regs + BSC_C, C_I2CEN OR C_ST OR C_WRITE)] s s1"
    unfolding did_def by (intro conjI exI [of _ tr]) (simp_all add: s1_def tr_def)
  obtain k where k: "k \<le> unat len" "did (to_fifo regs (take k buf)) s1 s2" "answers s1 regs \<longrightarrow> k = unat len"
  proof -
    have "length buf \<le> unat (1000000 :: u32)" using assms(2) unat_lt2p [of len] by simp
    then show ?thesis using feed_loop_did [of buf regs s1 1000000] that assms(2) unfolding s2_def by auto
  qed
  have r: "answers s1 regs = answers s regs" "answers s2 regs = answers s regs"
    using d1 k(2) by (simp_all add: answers_def did_def)
  have "all_fed regs (reg_writes (trace s2))" if "k = unat len"
  proof -
    obtain evs where e: "trace s2 = evs @ trace s1" "reg_writes evs = to_fifo regs buf" using k(2) assms(2) \<open>k = unat len\<close> by (auto simp: did_def)
    have "reg_writes (trace s2) = (reg_writes (trace s) @ [(regs + BSC_S, S_CLEAR_ALL), (regs + BSC_A, ucast addr)]) @
        [(regs + BSC_DLEN, ucast len), (regs + BSC_C, C_I2CEN OR C_ST OR C_WRITE)] @ to_fifo regs buf"
      using e by (simp add: s1_def tr_def)
    moreover have "unat (ucast len :: u32) = length buf" using assms(2) unat_lt2p [of len] by (simp add: unsigned_ucast_eq take_bit_nat_eq_self)
    ultimately show ?thesis unfolding all_fed_def by blast
  qed
  note E = transfer_end_did [OF run] and A = this
  show ?thesis
    using k(1,3) did_trans [OF d1 did_trans [OF k(2) E(1)]] E(2,3) A r by (intro exI [of _ k]) simp
qed

text \<open>A write on an initialised channel, for every device: it clears the status, sets address and length, starts, and then puts bytes of the
  message into the FIFO in order, from the first on, never more than the message; the controller is switched off exactly if the call times out, and
  nothing else is written. The result is the verdict on the last status, which is kept. A device that answers gets the whole message, and the result is E_OK.\<close>

theorem i2c_write_on_bus:
  assumes "len \<noteq> 0" "length buf = unat len" and "s_i2c_configs s (unat channel) \<noteq> None" and "i2c_channel_regs channel = Some regs"
    and "run_state (i2c_channel_write channel addr buf len) s = (ret, s')"
  shows "\<exists>k \<le> unat len. did ([(regs + BSC_S, S_CLEAR_ALL), (regs + BSC_A, ucast addr), (regs + BSC_DLEN, ucast len), (regs + BSC_C, C_I2CEN OR C_ST OR C_WRITE)] @
      to_fifo regs (take k buf) @ (if ret = E_TIMED_OUT then [(regs + BSC_C, 0)] else [])) s s' \<and>
    ret = verdict (s_i2c_last_status s' (unat channel)) \<and> (answers s regs \<longrightarrow> ret = E_OK \<and> k = unat len)"
  by (rule write_did [OF assms])

subsection \<open>The PWM chip\<close>

text \<open>For every rate the driver accepts the prescaler fits its register and the chip's range, and it is the best one: the rate it gives is
  off by at most half a step. Rates outside are refused.\<close>

theorem prescale_accurate:
  assumes "PCA9685_FREQ_HZ_MIN \<le> freq" and "freq \<le> PCA9685_FREQ_HZ_MAX"
  shows "3 \<le> unat (prescale_of freq) \<and> unat (prescale_of freq) \<le> 253 \<and>
    2 * \<bar>25000000 - int (unat (prescale_of freq) + 1) * (4096 * uint freq)\<bar> \<le> 4096 * uint freq"
proof -
  define f where "f = unat freq"
  have f: "24 \<le> f" "f \<le> 1526" using assms by (simp_all add: f_def PCA9685_FREQ_HZ_MIN_def PCA9685_FREQ_HZ_MAX_def word_le_nat_alt)
  define d where "d = 4096 * f"
  define q where "q = (25000000 + d div 2) div d"
  have d: "98304 \<le> d" "d \<le> 6250496" using f by (simp_all add: d_def)
  have lo: "q * d \<le> 25000000 + d div 2" by (simp add: q_def)
  have hi: "25000000 + d div 2 < (q + 1) * d"
    using div_less_iff_less_mult [of d "25000000 + d div 2" "q + 1"] d by (simp add: q_def)
  have q4: "4 \<le> q"
  proof (rule ccontr)
    assume "\<not> 4 \<le> q"
    then have "(q + 1) * d \<le> 4 * d" by simp
    then show False using hi d by linarith
  qed
  have q254: "q \<le> 254"
  proof (rule ccontr)
    assume "\<not> q \<le> 254"
    then have "255 * d \<le> q * d" by simp
    then show False using lo d by linarith
  qed
  define w where "w = PCA9685_TICK_MAX * freq"
  have den: "unat w = d"
    using f by (simp add: unat_word_ariths PCA9685_TICK_MAX_def d_def f_def w_def)
  have num: "unat (PCA9685_OSC_CLOCK_HZ + w div 2) = 25000000 + d div 2"
    using d by (simp add: unat_word_ariths unat_div den PCA9685_OSC_CLOCK_HZ_def)
  have quo: "unat ((PCA9685_OSC_CLOCK_HZ + w div 2) div w) = q" unfolding unat_div num den by (simp add: q_def)
  then have "(PCA9685_OSC_CLOCK_HZ + w div 2) div w \<noteq> 0" using q4 by auto
  then have "unat ((PCA9685_OSC_CLOCK_HZ + w div 2) div w - 1) = q - 1" by (simp add: unat_minus_one quo)
  then have p: "unat (prescale_of freq) = q - 1"
    using q254 by (simp add: prescale_of_def Let_def w_def [symmetric] unsigned_ucast_eq take_bit_nat_eq_self)
  have "2 * \<bar>25000000 - int q * int d\<bar> \<le> int d"
  proof -
    have h: "2 * (d div 2) \<le> d" "d \<le> 2 * (d div 2) + 1" by simp_all
    have "2 * (q * d) \<le> 50000000 + d" using lo h by linarith
    moreover have "50000000 \<le> 2 * (q * d) + d"
    proof -
      have "(q + 1) * d = q * d + d" by simp
      then show ?thesis using hi h by linarith
    qed
    ultimately have "2 * int (q * d) \<le> 50000000 + int d" "50000000 \<le> 2 * int (q * d) + int d" by linarith+
    moreover define P where "P = int (q * d)"
    ultimately have "2 * P \<le> 50000000 + int d" "50000000 \<le> 2 * P + int d" by simp_all
    then have "2 * \<bar>25000000 - P\<bar> \<le> int d" by arith
    then show ?thesis by (simp add: P_def)
  qed
  moreover have "3 \<le> q - 1 \<and> q - 1 \<le> 253 \<and> q - 1 + 1 = q" using q4 q254 by arith
  ultimately show ?thesis unfolding p by (simp add: d_def f_def)
qed

text \<open>Ticks: the fraction of the full scale, rounded down, always a 12-bit number.\<close>

lemma on_tick_of_eq: "unat (on_tick_of x) = unat x * 4095 div 4294967295"
proof -
  have x: "unat x \<le> 4294967295" using unat_lt2p [of x] by simp
  then have "unat x * 4095 div 4294967295 \<le> 4095" using div_le_mono [of "unat x * 4095" "4294967295 * 4095" 4294967295] by simp
  moreover have "unat ((ucast x :: u64) * ucast (PCA9685_TICK_MAX - 1) div ucast (0xFFFFFFFF :: u32)) = unat x * 4095 div 4294967295"
    using x by (simp add: unat_div unat_word_ariths unsigned_ucast_eq take_bit_nat_eq_self PCA9685_TICK_MAX_def)
  ultimately show ?thesis by (simp add: on_tick_of_def unsigned_ucast_eq take_bit_nat_eq_self)
qed

lemma tick_max: "unat (on_tick_of x) \<le> 4095"
proof -
  have "unat x \<le> 4294967295" using unat_lt2p [of x] by simp
  then show ?thesis using div_le_mono [of "unat x * 4095" "4294967295 * 4095" 4294967295] by (simp add: on_tick_of_eq)
qed

lemma tick_mono: "x \<le> y \<Longrightarrow> unat (on_tick_of x) \<le> unat (on_tick_of y)"
  by (simp add: on_tick_of_eq word_le_nat_alt div_le_mono)

lemma and_255: "(n :: nat) AND 255 = n mod 256"
  using take_bit_eq_mask [of 8 n] by (simp add: take_bit_eq_mod mask_eq_exp_minus_1)

lemma and_15: "(n :: nat) AND 15 = n mod 16"
  using take_bit_eq_mask [of 4 n] by (simp add: take_bit_eq_mod mask_eq_exp_minus_1)

lemma tick_byte_lo: "unat (ucast ((v :: u16) AND 0xFF) :: u8) = unat v mod 256"
  by (simp add: unsigned_ucast_eq unsigned_and_eq and_255 take_bit_eq_mod)

lemma tick_byte_hi:
  assumes "unat (v :: u16) \<le> 4095"
  shows "unat (ucast (drop_bit 8 v AND 0x0F) :: u8) = unat v div 256"
proof -
  have "unat (drop_bit 8 v AND 0x0F) = (unat v div 256) mod 16"
    by (simp add: unsigned_and_eq and_15 unat_drop_bit_eq drop_bit_eq_div unat_div)
  moreover have "unat v div 256 < 16" using assms by simp
  ultimately show ?thesis by (simp add: unsigned_ucast_eq take_bit_eq_mod)
qed

text \<open>Claim C27 (functional). Setting a channel of the PWM chip, on a bus that answers: one transfer to the configured address, of the channel's first
  register (\<open>LEDn_ON_L\<close>) and two ticks, each low byte first. The ticks are the fractions \<open>delay\<close> and \<open>delay + duty_cycle\<close> of the full scale of 4095, the
  channel goes off no earlier than on, and neither tick needs more than the 12 bits it has.\<close>

theorem pca_set_channel_on_bus:
  assumes "s_pca_config s = Some config" and "pwm_channel < PCA9685_NUM_CHANNELS" and "unat delay + unat duty_cycle \<le> 4294967295"
    and "s_i2c_configs s (unat (pca_channel config)) \<noteq> None" and "i2c_channel_regs (pca_channel config) = Some regs" and "answers s regs"
  shows "\<exists>s' bs on_t off_t. run_state (pwm_pca9685_set_channel pwm_channel delay duty_cycle) s = (E_OK, s') \<and>
    did ([(regs + BSC_S, S_CLEAR_ALL), (regs + BSC_A, ucast (i2c_addr config)), (regs + BSC_DLEN, 5), (regs + BSC_C, C_I2CEN OR C_ST OR C_WRITE)] @
      to_fifo regs bs) s s' \<and>
    map unat bs = [6 + 4 * unat pwm_channel, on_t mod 256, on_t div 256, off_t mod 256, off_t div 256] \<and>
    on_t = unat delay * 4095 div 4294967295 \<and> off_t = (unat delay + unat duty_cycle) * 4095 div 4294967295 \<and> on_t \<le> off_t \<and> off_t \<le> 4095"
proof -
  have sum: "unat (delay + duty_cycle) = unat delay + unat duty_cycle" using assms(3) by (simp add: unat_word_ariths)
  have "\<not> 0xFFFFFFFF - delay < duty_cycle"
  proof -
    have "unat (0xFFFFFFFF - delay) = 4294967295 - unat delay" using assms(3) by (simp add: unat_sub_if_size)
    then show ?thesis using assms(3) by (simp add: word_less_nat_alt)
  qed
  moreover have "\<not> pwm_channel \<ge> PCA9685_NUM_CHANNELS" using assms(2) by simp
  ultimately have call: "run_state (pwm_pca9685_set_channel pwm_channel delay duty_cycle) s =
      run_state (i2c_channel_write (pca_channel config) (i2c_addr config) (channel_bytes pwm_channel (on_tick_of delay) (on_tick_of (delay + duty_cycle))) 5) s"
    using assms(1) by (simp add: pwm_pca9685_set_channel_def)
  let ?bs = "channel_bytes pwm_channel (on_tick_of delay) (on_tick_of (delay + duty_cycle))"
  obtain ret s' where w: "run_state (i2c_channel_write (pca_channel config) (i2c_addr config) ?bs 5) s = (ret, s')" by fastforce
  have len: "(5 :: u16) \<noteq> 0" "length ?bs = unat (5 :: u16)" by (simp_all add: channel_bytes_def)
  note D = write_did [OF len assms(4,5) w]
  have "unat (channel_reg pwm_channel) = 6 + 4 * unat pwm_channel"
    using assms(2) by (simp add: channel_reg_def PCA9685_LED0_ON_L_def PCA9685_NUM_CHANNELS_def unat_word_ariths word_less_nat_alt)
  then have "map unat ?bs = [6 + 4 * unat pwm_channel, unat (on_tick_of delay) mod 256, unat (on_tick_of delay) div 256,
      unat (on_tick_of (delay + duty_cycle)) mod 256, unat (on_tick_of (delay + duty_cycle)) div 256]"
    by (simp add: channel_bytes_def tick_byte_lo tick_byte_hi [OF tick_max])
  moreover have "unat (on_tick_of delay) \<le> unat (on_tick_of (delay + duty_cycle))"
    by (rule tick_mono) (simp add: word_le_nat_alt sum)
  ultimately show ?thesis
    using D assms(6) tick_max [of "delay + duty_cycle"] unfolding call w
    by (intro exI [of _ s'] exI [of _ ?bs] exI [of _ "unat (on_tick_of delay)"] exI [of _ "unat (on_tick_of (delay + duty_cycle))"])
      (auto simp: on_tick_of_eq sum len(2))
qed

subsection \<open>On a concrete board\<close>

definition demo_pca :: pca where
  "demo_pca = \<lparr>dev = (\<lambda>_ _. 0x12), trace = [], s_i2c_core_clock_hz = 0,
     s_i2c_configs = (\<lambda>_. None)(1 \<mapsto> \<lparr>sda_pin = 2, scl_pin = 3, i2c_alt_func = GPIO_FUNC_ALT0, i2c_baudrate = I2C_BAUDRATE_FAST_400K\<rparr>),
     s_i2c_last_status = (\<lambda>_. 0), s_pca_config = Some \<lparr>pca_channel = 1, i2c_addr = 0x47, pwm_freq_hz = 50\<rparr>\<rparr>"

lemma demo_pca_facts:
  "s_pca_config demo_pca = Some \<lparr>pca_channel = 1, i2c_addr = 0x47, pwm_freq_hz = 50\<rparr>"
  "s_i2c_configs demo_pca (unat (1 :: u8)) \<noteq> None" "i2c_channel_regs 1 = Some I2C1_BASE" "answers demo_pca I2C1_BASE"
  by (simp_all add: demo_pca_def i2c_channel_regs_def i2c_hw_table_def I2C_NUM_CHANNELS_def answers_def bsc_flags)

theorem i2c_write_on_bus_witness:
  "\<exists>s'. run_state (i2c_channel_write 1 0x47 [0xFE, 0x79] 2) demo_pca = (E_OK, s') \<and>
     did [(I2C1_BASE + BSC_S, S_CLEAR_ALL), (I2C1_BASE + BSC_A, 0x47), (I2C1_BASE + BSC_DLEN, 2), (I2C1_BASE + BSC_C, C_I2CEN OR C_ST OR C_WRITE),
       (I2C1_BASE + BSC_FIFO, 0xFE), (I2C1_BASE + BSC_FIFO, 0x79)] demo_pca s'"
proof -
  obtain ret s' where r: "run_state (i2c_channel_write 1 0x47 [0xFE, 0x79] 2) demo_pca = (ret, s')" by fastforce
  from i2c_write_on_bus [OF _ _ demo_pca_facts(2,3) r] demo_pca_facts(4) r show ?thesis by auto
qed

lemma prescale_accurate_example:
  "3 \<le> unat (prescale_of 50) \<and> unat (prescale_of 50) \<le> 253"
  using prescale_accurate [of 50] by (simp add: PCA9685_FREQ_HZ_MIN_def PCA9685_FREQ_HZ_MAX_def)

theorem pca_set_channel_on_bus_witness:
  "\<exists>s' bs. run_state (pwm_pca9685_set_channel 2 0 0x80000000) demo_pca = (E_OK, s') \<and> map unat bs = [14, 0, 0, 255, 7] \<and>
     did ([(I2C1_BASE + BSC_S, S_CLEAR_ALL), (I2C1_BASE + BSC_A, 0x47), (I2C1_BASE + BSC_DLEN, 5), (I2C1_BASE + BSC_C, C_I2CEN OR C_ST OR C_WRITE)] @
       to_fifo I2C1_BASE bs) demo_pca s'"
proof -
  have pre: "(2 :: u8) < PCA9685_NUM_CHANNELS" "unat (0 :: u32) + unat (0x80000000 :: u32) \<le> 4294967295" by (simp_all add: PCA9685_NUM_CHANNELS_def)
  obtain s' bs on_t off_t where "run_state (pwm_pca9685_set_channel 2 0 0x80000000) demo_pca = (E_OK, s')"
    and "did ([(I2C1_BASE + BSC_S, S_CLEAR_ALL), (I2C1_BASE + BSC_A, ucast (0x47 :: u8)), (I2C1_BASE + BSC_DLEN, 5), (I2C1_BASE + BSC_C, C_I2CEN OR C_ST OR C_WRITE)] @
       to_fifo I2C1_BASE bs) demo_pca s'"
    and "map unat bs = [6 + 4 * unat (2 :: u8), on_t mod 256, on_t div 256, off_t mod 256, off_t div 256]"
    and "on_t = unat (0 :: u32) * 4095 div 4294967295" and "off_t = (unat (0 :: u32) + unat (0x80000000 :: u32)) * 4095 div 4294967295"
    using pca_set_channel_on_bus [OF demo_pca_facts(1) pre, unfolded Pca9685Config.select_convs, OF demo_pca_facts(2-4)] by (elim exE conjE) (rule that)
  then show ?thesis by (intro exI [of _ s'] exI [of _ bs]) simp
qed

end
