(* ===== verification/Watchdog_Gate.thy ===== *)
theory Watchdog_Gate
  imports Watchdog_Props
begin

unbundle bit_operations_syntax

text \<open>
  \<open>watchdog_core_kick\<close> of \<^verbatim>\<open>drivers/watchdog/watchdog.c\<close> on several cores at once. It takes no lock, so the cores interleave at every access to the
  shared \<open>CompanionCoreContext\<close>, whose fields are volatile: here a core's position inside the function is a value of \<open>kick_pc\<close>, a step of a core
  makes at most one access, and a schedule, any list of core numbers, says whose step is next. Several cores may then pass the check
  on the same reports and each reload the counter; the property says how often at most.
\<close>

subsection \<open>One access at a time\<close>

datatype kick_pc = Outside | Report nat | LoadMask nat | Check nat u32 nat | Clear nat nat | Reload

abbreviation upd_kicked :: "nat \<Rightarrow> ((nat \<Rightarrow> u8) \<Rightarrow> nat \<Rightarrow> u8) \<Rightarrow> 'z watchdog_scheme \<Rightarrow> 'z watchdog_scheme" where
  "upd_kicked p f s \<equiv> core_ctx_update (\<lambda>h. h(p := (h p)\<lparr>core_kicked := f (core_kicked (h p))\<rparr>)) s"

definition kick_step :: "nat \<Rightarrow> kick_pc \<Rightarrow> 'z watchdog_scheme \<Rightarrow> kick_pc \<times> 'z watchdog_scheme" where
  "kick_step cid l s = (case l of
     Outside \<Rightarrow> (case s_config s of
         None \<Rightarrow> (Outside, s)
       | Some config \<Rightarrow>
           if \<not> multicore_mode config \<or> companion_core_ctx config = None then (Reload, s) else (Report (the (companion_core_ctx config)), s))
   | Report p \<Rightarrow> (LoadMask p, upd_kicked p (\<lambda>k. k(cid := 1)) s)
   | LoadMask p \<Rightarrow> (Check p (expected_mask (core_ctx s p)) 0, s)
   | Check p m i \<Rightarrow>
       if i < COMPANION_CORE_MAX_CORES then
         if m AND push_bit i 1 \<noteq> 0 \<and> core_kicked (core_ctx s p) i = 0 then (Outside, s) else (Check p m (Suc i), s)
       else (Clear p 0, s)
   | Clear p i \<Rightarrow>
       if i < COMPANION_CORE_MAX_CORES
       then (Clear p (Suc i), upd_kicked p (\<lambda>k. k(i := 0)) s)
       else (Reload, s)
   | Reload \<Rightarrow> (Outside, snd (run_state watchdog_kick s)))"

fun gate_run :: "nat list \<Rightarrow> (nat \<Rightarrow> kick_pc) \<times> 'z watchdog_scheme \<Rightarrow> (nat \<Rightarrow> kick_pc) \<times> 'z watchdog_scheme" where
  "gate_run [] g = g"
| "gate_run (c # cs) (l, s) = (case kick_step c (l c) s of (l', s') \<Rightarrow> gate_run cs (l(c := l'), s'))"

text \<open>How often core \<open>j\<close> makes a step from a place where \<open>P\<close> holds.\<close>

fun visits :: "(kick_pc \<Rightarrow> bool) \<Rightarrow> nat \<Rightarrow> nat list \<Rightarrow> (nat \<Rightarrow> kick_pc) \<times> 'z watchdog_scheme \<Rightarrow> nat" where
  "visits P j [] g = 0"
| "visits P j (c # cs) g = (if c = j \<and> P (fst g c) then 1 else 0) + visits P j cs (gate_run [c] g)"

fun is_report :: "kick_pc \<Rightarrow> bool" where
  "is_report (Report p) \<longleftrightarrow> True"
| "is_report _ \<longleftrightarrow> False"

definition reports :: "nat \<Rightarrow> nat list \<Rightarrow> (nat \<Rightarrow> kick_pc) \<times> 'z watchdog_scheme \<Rightarrow> nat" where
  "reports = visits is_report"

definition reloads :: "nat \<Rightarrow> nat list \<Rightarrow> (nat \<Rightarrow> kick_pc) \<times> 'z watchdog_scheme \<Rightarrow> nat" where
  "reloads = visits (\<lambda>l. l = Reload)"

subsection \<open>A core alone runs \<open>watchdog_core_kick\<close>\<close>

text \<open>\<open>goes cid k v x s y s'\<close>: \<open>k\<close> steps of core \<open>cid\<close> lead from \<open>x\<close> to \<open>y\<close> and begin \<open>v\<close> calls.\<close>

definition goes :: "nat \<Rightarrow> nat \<Rightarrow> nat \<Rightarrow> kick_pc \<Rightarrow> 'z watchdog_scheme \<Rightarrow> kick_pc \<Rightarrow> 'z watchdog_scheme \<Rightarrow> bool" where
  "goes cid k v x s y s' \<longleftrightarrow> (\<forall>n l. gate_run (replicate (k + n) cid) (l(cid := x), s) = gate_run (replicate n cid) (l(cid := y), s') \<and>
     visits (\<lambda>l. l = Outside) cid (replicate (k + n) cid) (l(cid := x), s) = v + visits (\<lambda>l. l = Outside) cid (replicate n cid) (l(cid := y), s'))"

lemma goes_step: "kick_step cid x s = (y, s') \<Longrightarrow> goes cid 1 (if x = Outside then 1 else 0) x s y s'"
  by (simp add: goes_def)

lemma goes_trans: "goes cid k v x s y s' \<Longrightarrow> goes cid k' v' y s' z s'' \<Longrightarrow> goes cid (k + k') (v + v') x s z s''"
  by (simp add: goes_def add.assoc)

lemma goes_report:
  assumes "s_config s = Some c" "multicore_mode c" "companion_core_ctx c = Some p"
    and "s1 = upd_kicked p (\<lambda>k. k(cid := 1)) s"
  shows "goes cid 3 1 Outside s (Check p (expected_mask (core_ctx s1 p)) 0) s1"
proof -
  have "goes cid 1 1 Outside s (Report p) s" using goes_step [of cid Outside s "Report p" s] assms(1-3) by (simp add: kick_step_def)
  moreover have "goes cid 1 0 (Report p) s (LoadMask p) s1" using goes_step [of cid "Report p" s] assms(4) by (simp add: kick_step_def)
  moreover have "goes cid 1 0 (LoadMask p) s1 (Check p (expected_mask (core_ctx s1 p)) 0) s1"
    using goes_step [of cid "LoadMask p" s1] by (simp add: kick_step_def)
  ultimately have "goes cid (1 + (1 + 1)) (1 + (0 + 0)) Outside s (Check p (expected_mask (core_ctx s1 p)) 0) s1" by (intro goes_trans)
  then show ?thesis by (simp add: numeral_3_eq_3)
qed

definition holds_up :: "u32 \<Rightarrow> CompanionCoreContext \<Rightarrow> nat \<Rightarrow> bool" where
  "holds_up m ctx i \<longleftrightarrow> m AND push_bit i 1 \<noteq> 0 \<and> core_kicked ctx i = 0"

lemma goes_check:
  assumes "i \<le> COMPANION_CORE_MAX_CORES"
  shows "\<exists>k. goes cid k 0 (Check p m i) s (if list_ex (holds_up m (core_ctx s p)) [i..<COMPANION_CORE_MAX_CORES] then Outside else Clear p 0) s"
  using assms
proof (induction i rule: inc_induct)
  case base
  show ?case using goes_step [of cid "Check p m COMPANION_CORE_MAX_CORES" s] by (intro exI [of _ 1]) (simp add: kick_step_def)
next
  case (step i)
  then have up: "[i..<COMPANION_CORE_MAX_CORES] = i # [Suc i..<COMPANION_CORE_MAX_CORES]" by (simp add: upt_conv_Cons)
  have st: "kick_step cid (Check p m i) s = (if holds_up m (core_ctx s p) i then Outside else Check p m (Suc i), s)"
    using step.hyps by (simp add: kick_step_def holds_up_def)
  show ?case
  proof (cases "holds_up m (core_ctx s p) i")
    case True
    then show ?thesis using goes_step [OF st] by (intro exI [of _ 1]) (simp add: up)
  next
    case False
    then have "goes cid 1 0 (Check p m i) s (Check p m (Suc i)) s" using goes_step [OF st] by simp
    then show ?thesis using False step.IH goes_trans [of cid 1 0 "Check p m i" s "Check p m (Suc i)" s] by (fastforce simp: up)
  qed
qed

lemma upd_kicked_twice: "f \<circ> g = h \<Longrightarrow> upd_kicked p f (upd_kicked p g s) = upd_kicked p h s" "core_ctx_update (\<lambda>h. h) s = s"
  by (cases s; auto simp: comp_def)+

definition cleared :: "nat \<Rightarrow> (nat \<Rightarrow> u8) \<Rightarrow> nat \<Rightarrow> u8" where
  "cleared i k = (\<lambda>j. if i \<le> j \<and> j < COMPANION_CORE_MAX_CORES then 0 else k j)"

lemma goes_clear:
  assumes "i \<le> COMPANION_CORE_MAX_CORES"
  shows "\<exists>k. goes cid k 0 (Clear p i) s Reload (upd_kicked p (cleared i) s)"
  using assms
proof (induction i arbitrary: s rule: inc_induct)
  case base
  have "cleared COMPANION_CORE_MAX_CORES = (\<lambda>k. k)" by (auto simp: cleared_def fun_eq_iff)
  then show ?case using goes_step [of cid "Clear p COMPANION_CORE_MAX_CORES" s]
    by (intro exI [of _ 1]) (simp add: kick_step_def upd_kicked_twice(2))
next
  case (step i)
  let ?s = "upd_kicked p (\<lambda>k. k(i := 0)) s"
  have "goes cid 1 0 (Clear p i) s (Clear p (Suc i)) ?s" using goes_step [of cid "Clear p i" s] step.hyps by (simp add: kick_step_def)
  moreover obtain k where "goes cid k 0 (Clear p (Suc i)) ?s Reload (upd_kicked p (cleared (Suc i)) ?s)" using step.IH by blast
  ultimately have "goes cid (1 + k) (0 + 0) (Clear p i) s Reload (upd_kicked p (cleared (Suc i)) ?s)" by (rule goes_trans)
  moreover have "cleared (Suc i) \<circ> (\<lambda>k. k(i := 0)) = cleared i" using step.hyps(2) by (auto simp: cleared_def fun_eq_iff)
  from upd_kicked_twice(1) [OF this, of p s] have "upd_kicked p (cleared (Suc i)) ?s = upd_kicked p (cleared i) s" .
  ultimately have "goes cid (1 + k) 0 (Clear p i) s Reload (upd_kicked p (cleared i) s)" by (simp only: add_0)
  then show ?case by blast
qed

lemma kick_alone:
  "\<exists>k. goes cid (Suc k) 1 Outside s Outside (snd (run_state (watchdog_core_kick cid) s))"
proof (cases "s_config s")
  case None
  then show ?thesis using goes_step [of cid Outside s] by (intro exI [of _ 0]) (simp add: kick_step_def watchdog_core_kick_def)
next
  case (Some c)
  have rl: "goes cid 1 0 Reload s' Outside (snd (run_state watchdog_kick s'))" for s' :: "'a watchdog_scheme"
    using goes_step [of cid Reload s'] by (simp add: kick_step_def)
  show ?thesis
  proof (cases "multicore_mode c \<and> companion_core_ctx c \<noteq> None")
    case False
    then have "goes cid 1 1 Outside s Reload s" using goes_step [of cid Outside s] Some by (simp add: kick_step_def)
    from goes_trans [OF this rl] show ?thesis using False Some by (intro exI [of _ 1]) (simp add: watchdog_core_kick_def split_def)
  next
    case True
    then obtain p where c: "multicore_mode c" "companion_core_ctx c = Some p" by auto
    define s1 where "s1 = upd_kicked p (\<lambda>k. k(cid := 1)) s"
    define s2 where "s2 = upd_kicked p (\<lambda>k i. if i < COMPANION_CORE_MAX_CORES then 0 else k i) s1"
    note R = goes_report [OF Some c s1_def]
    have rep: "all_reported ctx \<longleftrightarrow> \<not> list_ex (holds_up (expected_mask ctx) ctx) [0..<COMPANION_CORE_MAX_CORES]" for ctx
      by (auto simp: all_reported_def holds_up_def list_all_iff list_ex_iff)
    obtain k where k: "goes cid k 0 (Check p (expected_mask (core_ctx s1 p)) 0) s1 (if all_reported (core_ctx s1 p) then Clear p 0 else Outside) s1"
      using goes_check [of 0 cid p "expected_mask (core_ctx s1 p)" s1] unfolding rep by (auto split: if_splits)
    have w: "snd (run_state (watchdog_core_kick cid) s) = (if all_reported (core_ctx s1 p) then snd (run_state watchdog_kick s2) else s1)"
      by (simp add: watchdog_core_kick_def Some c s1_def s2_def split_def)
    show ?thesis
    proof (cases "all_reported (core_ctx s1 p)")
      case True
      obtain k2 where k2: "goes cid k2 0 (Clear p 0) s1 Reload s2" using goes_clear [of 0 cid p s1] by (auto simp: s2_def cleared_def)
      from goes_trans [OF R goes_trans [OF k [unfolded if_P [OF True]] goes_trans [OF k2 rl]]] True show ?thesis
        by (intro exI [of _ "Suc (Suc (k + (k2 + 1)))"]) (simp add: w numeral_3_eq_3)
    next
      case False
      from goes_trans [OF R k] False show ?thesis by (intro exI [of _ "Suc (Suc k)"]) (simp add: w numeral_3_eq_3)
    qed
  qed
qed

subsection \<open>The invariant\<close>

text \<open>For an expected core \<open>i\<close> and any core \<open>j\<close>: the reload \<open>j\<close> may be about to make, and the report of \<open>i\<close> that is waiting. \<open>credit\<close> bounds the reloads of
  \<open>j\<close> that are still possible without a new report.\<close>

definition flag :: "nat \<Rightarrow> nat \<Rightarrow> 'z watchdog_scheme \<Rightarrow> nat" where
  "flag p i s = (if core_kicked (core_ctx s p) i = 0 then 0 else 1)"

fun credit :: "nat \<Rightarrow> kick_pc \<Rightarrow> nat \<Rightarrow> nat" where
  "credit i (Check p m k) f = (if i < k then 1 else f)"
| "credit i (Clear p k) f = (if i < k then 1 + f else 1)"
| "credit i Reload f = 1 + f"
| "credit i _ f = f"

fun pc_ok :: "nat \<Rightarrow> u32 \<Rightarrow> kick_pc \<Rightarrow> bool" where
  "pc_ok p m Outside \<longleftrightarrow> True"
| "pc_ok p m Reload \<longleftrightarrow> True"
| "pc_ok p m (Report q) \<longleftrightarrow> q = p"
| "pc_ok p m (LoadMask q) \<longleftrightarrow> q = p"
| "pc_ok p m (Check q m' k) \<longleftrightarrow> q = p \<and> m' = m"
| "pc_ok p m (Clear q k) \<longleftrightarrow> q = p"

fun own :: "kick_pc \<Rightarrow> nat" where
  "own Outside = 0" | "own (Report p) = 0" | "own _ = 1"

definition gated :: "nat \<Rightarrow> u32 \<Rightarrow> (nat \<Rightarrow> kick_pc) \<times> 'z watchdog_scheme \<Rightarrow> bool" where
  "gated p m g \<longleftrightarrow> (\<exists>c. s_config (snd g) = Some c \<and> multicore_mode c \<and> companion_core_ctx c = Some p) \<and>
     expected_mask (core_ctx (snd g) p) = m \<and> (\<forall>j. pc_ok p m (fst g j))"

lemma kick_step_gated:
  assumes "gated p m (l, s)" and "kick_step c (l c) s = (x, s')"
  shows "gated p m (l(c := x), s')" "kicks (trace s') = kicks (trace s) + (if l c = Reload then 1 else 0)"
    "i < COMPANION_CORE_MAX_CORES \<Longrightarrow> m AND push_bit i 1 \<noteq> 0 \<Longrightarrow>
      (if l c = Reload then 1 else 0) + credit i x (flag p i s') \<le> credit i (l c) (flag p i s) + (if c = i \<and> is_report (l c) then 1 else 0)"
    "flag p i s' \<le> flag p i s + (if c = i \<and> is_report (l c) then 1 else 0)"
    "(if l c = Reload then 1 else 0) + own x \<le> own (l c) + (if is_report (l c) then 1 else 0)"
proof -
  have pc: "pc_ok p m (l c)" and cf: "\<exists>cf. s_config s = Some cf \<and> multicore_mode cf \<and> companion_core_ctx cf = Some p"
    and m: "expected_mask (core_ctx s p) = m" using assms(1) by (auto simp: gated_def)
  show "gated p m (l(c := x), s')"
    using assms pc by (cases "l c") (auto simp: gated_def kick_step_def watchdog_kick_def split: if_splits)
  show "kicks (trace s') = kicks (trace s) + (if l c = Reload then 1 else 0)"
    using assms(2) pc cf by (cases "l c") (auto simp: kick_step_def watchdog_kick_def kicks_def split: if_splits)
  show "(if l c = Reload then 1 else 0) + credit i x (flag p i s') \<le> credit i (l c) (flag p i s) + (if c = i \<and> is_report (l c) then 1 else 0)"
    if "i < COMPANION_CORE_MAX_CORES" "m AND push_bit i 1 \<noteq> 0"
    using assms(2) pc cf m that
    by (cases "l c") (auto simp: kick_step_def watchdog_kick_def flag_def less_Suc_eq split: if_splits)
  show "flag p i s' \<le> flag p i s + (if c = i \<and> is_report (l c) then 1 else 0)"
    using assms(2) pc cf by (cases "l c") (auto simp: kick_step_def watchdog_kick_def flag_def split: if_splits)
  show "(if l c = Reload then 1 else 0) + own x \<le> own (l c) + (if is_report (l c) then 1 else 0)"
    using assms(2) pc cf by (cases "l c") (auto simp: kick_step_def split: if_splits)
qed


lemma gate_run_Cons:
  "gate_run (c # cs) g = gate_run cs (gate_run [c] g)" "gate_run [c] g = ((fst g)(c := fst (kick_step c (fst g c) (snd g))), snd (kick_step c (fst g c) (snd g)))"
  by (cases g; simp split: prod.split)+

declare gate_run.simps(2) [simp del]

lemma credit_mono: "f' \<le> f + r \<Longrightarrow> credit i x f' \<le> credit i x f + r"
  by (cases x) auto

lemma gate_step:
  assumes "gated p m g" "g' = gate_run [c] g"
  shows "gated p m g'" "kicks (trace (snd g')) = kicks (trace (snd g)) + (if fst g c = Reload then 1 else 0)"
    "i < COMPANION_CORE_MAX_CORES \<Longrightarrow> m AND push_bit i 1 \<noteq> 0 \<Longrightarrow>
      (if c = j \<and> fst g c = Reload then 1 else 0) + credit i (fst g' j) (flag p i (snd g')) \<le>
      credit i (fst g j) (flag p i (snd g)) + (if c = i \<and> is_report (fst g c) then 1 else 0)"
    "(if c = j \<and> fst g c = Reload then 1 else 0) + own (fst g' j) \<le> own (fst g j) + (if c = j \<and> is_report (fst g c) then 1 else 0)"
proof -
  obtain l s where g: "g = (l, s)" by (cases g)
  obtain x s' where st: "kick_step c (l c) s = (x, s')" by (cases "kick_step c (l c) s")
  have g': "g' = (l(c := x), s')" using st by (simp add: assms(2) g gate_run_Cons(2))
  note K = kick_step_gated [OF assms(1) [unfolded g] st]
  show "gated p m g'" "kicks (trace (snd g')) = kicks (trace (snd g)) + (if fst g c = Reload then 1 else 0)" using K(1,2) by (simp_all add: g g')
  show "(if c = j \<and> fst g c = Reload then 1 else 0) + credit i (fst g' j) (flag p i (snd g')) \<le>
      credit i (fst g j) (flag p i (snd g)) + (if c = i \<and> is_report (fst g c) then 1 else 0)"
    if "i < COMPANION_CORE_MAX_CORES" "m AND push_bit i 1 \<noteq> 0"
    using K(3) [OF that] credit_mono [OF K(4), of i "l j" i] by (cases "c = j") (auto simp: g g')
  show "(if c = j \<and> fst g c = Reload then 1 else 0) + own (fst g' j) \<le> own (fst g j) + (if c = j \<and> is_report (fst g c) then 1 else 0)"
    using K(5) by (cases "c = j") (simp_all add: g g')
qed

lemma gate_bound:
  assumes "gated p m g" "i < COMPANION_CORE_MAX_CORES" "m AND push_bit i 1 \<noteq> 0"
  shows "reloads j cs g + credit i (fst (gate_run cs g) j) (flag p i (snd (gate_run cs g))) \<le>
      reports i cs g + credit i (fst g j) (flag p i (snd g)) \<and>
    reloads j cs g + own (fst (gate_run cs g) j) \<le> reports j cs g + own (fst g j)"
  using assms(1)
proof (induction cs arbitrary: g)
  case (Cons c cs)
  note S = gate_step(1,4) [OF Cons.prems refl, of c] gate_step(3) [where i = i, OF Cons.prems refl, of c j, OF assms(2,3)] and V = visits.simps(2) [of _ _ c cs g] gate_run_Cons(1) [of c cs g]
  show ?case using Cons.IH [OF S(1)] S(2) [of j] S(3) unfolding reloads_def reports_def V by simp
qed (simp add: reloads_def reports_def)

lemma gate_kicks:
  assumes "gated p m g" "list_all (\<lambda>c. c < n) cs"
  shows "kicks (trace (snd (gate_run cs g))) = kicks (trace (snd g)) + (\<Sum>j<n. reloads j cs g)"
  using assms
proof (induction cs arbitrary: g)
  case (Cons c cs)
  note S = gate_step [OF Cons.prems(1) refl, of c]
  have "(\<Sum>j<n. reloads j (c # cs) g) = (\<Sum>j<n. if j = c then (if fst g c = Reload then 1 else 0) else 0) + (\<Sum>j<n. reloads j cs (gate_run [c] g))"
    unfolding reloads_def visits.simps sum.distrib [symmetric] by (rule sum.cong) auto
  moreover have "c < n" using Cons.prems(2) by simp
  ultimately show ?case using Cons.IH [OF S(1)] Cons.prems(2) S(2) by (simp add: gate_run_Cons(1) [of c cs])
qed (simp add: reloads_def)

text \<open>Claim C20 (safety). In multicore mode one silent core is enough for the board to reset. Let \<open>i\<close> be an expected core, and let the cores start outside
  \<open>watchdog_core_kick\<close> and then interleave in any way, access by access. No core reloads the hardware watchdog more often than \<open>i\<close> reports,
  plus once if a report of \<open>i\<close> was pending at the start; \<open>i\<close> itself not even that. So in all there are at most four reloads for each report of \<open>i\<close>
  and three for the pending one, and if \<open>i\<close> stops reporting, at most three more reloads follow, ever.\<close>

theorem watchdog_gate:
  assumes "s_config s = Some c" "multicore_mode c" "companion_core_ctx c = Some p"
    "i < COMPANION_CORE_MAX_CORES" "expected_mask (core_ctx s p) AND push_bit i 1 \<noteq> 0" "list_all (\<lambda>cid. cid < COMPANION_CORE_MAX_CORES) schedule"
  defines "g \<equiv> (\<lambda>_. Outside, s)" and "pending \<equiv> if core_kicked (core_ctx s p) i = 0 then 0 else 1"
  shows "reloads i schedule g \<le> reports i schedule g \<and> (\<forall>j. reloads j schedule g \<le> reports i schedule g + pending) \<and>
    kicks (trace (snd (gate_run schedule g))) \<le> kicks (trace s) + 4 * reports i schedule g + 3 * pending"
proof -
  have g: "gated p (expected_mask (core_ctx s p)) g" using assms(1-3) by (simp add: gated_def g_def)
  have own: "reloads i schedule g \<le> reports i schedule g" using conjunct2 [OF gate_bound [OF g assms(4,5), of i schedule]] by (simp add: g_def)
  have each: "reloads j schedule g \<le> reports i schedule g + pending" for j
    using conjunct1 [OF gate_bound [OF g assms(4,5), of j schedule]] by (simp add: g_def flag_def pending_def)
  have "(\<Sum>j<4. reloads j schedule g) \<le> (\<Sum>j<(4::nat). reports i schedule g + (if j = i then 0 else pending))"
    by (rule sum_mono) (use own each in auto)
  also have "\<dots> = 4 * reports i schedule g + 3 * pending"
  proof -
    have "i \<in> {0, 1, 2, 3}" using assms(4) by (auto simp: task_consts)
    then show ?thesis by (auto simp: eval_nat_numeral lessThan_Suc)
  qed
  finally have "kicks (trace (snd (gate_run schedule g))) \<le> kicks (trace s) + 4 * reports i schedule g + 3 * pending"
    using gate_kicks [OF g, of 4 schedule] assms(6) by (simp add: task_consts g_def)
  then show ?thesis using own each by blast
qed

text \<open>Cores 0 and 2 report once each; both pass the check before either clears a flag, and both reload.\<close>

definition overlap :: "nat list" where
  "overlap = [0, 0] @ replicate 8 2 @ replicate 12 0 @ replicate 6 2"

lemma overlap_reloads_twice: "kicks (trace (snd (gate_run overlap (\<lambda>_. Outside, gated_board)))) = 2"
  by (simp add: overlap_def kick_step_def gated_board_def board_def task_consts watchdog_kick_def kicks_def eval_nat_numeral gate_run.simps PM_WDOG_def PM_BASE_def)

lemma overlap_reports: "reports 2 overlap (\<lambda>_. Outside, gated_board) = 1"
  by (simp add: reports_def overlap_def kick_step_def gated_board_def board_def task_consts watchdog_kick_def eval_nat_numeral gate_run.simps)

theorem watchdog_gate_witness:
  "kicks (trace (snd (gate_run overlap (\<lambda>_. Outside, gated_board)))) = 2 \<and> reloads 0 overlap (\<lambda>_. Outside, gated_board) \<le> 1 \<and>
   reloads 2 overlap (\<lambda>_. Outside, gated_board) \<le> 1"
proof -
  have g: "s_config gated_board = Some \<lparr>timeout_s = 5, reset_policy = WATCHDOG_RESET_POLICY_ROLLBACK, tolerance = 3,
     confirm_delay_ms = 0, multicore_mode = True, companion_core_ctx = Some 7\<rparr>"
    "expected_mask (core_ctx gated_board 7) = 5" "core_kicked (core_ctx gated_board 7) 2 = 0" by (simp_all add: gated_board_def)
  have "list_all (\<lambda>cid. cid < COMPANION_CORE_MAX_CORES) overlap" "(2 :: nat) < COMPANION_CORE_MAX_CORES"
    by (simp_all add: overlap_def task_consts list_all_iff)
  from watchdog_gate [OF g(1) _ _ this(2) _ this(1), of 7] g overlap_reports overlap_reloads_twice show ?thesis by simp
qed

end
