(* ===== verification/Task_Places.thy ===== *)
theory Task_Places
  imports Mutex
begin

text \<open>
  Where a task is: on a ready list, in a delay list, in the wait list of an object. Every kernel operation is described
  elsewhere by what it does to the contents of all lists; here each is described by what it does to the place of one task,
  which is the view that the correctness of a program made of several tasks needs.
\<close>

subsection \<open>Places\<close>

definition runs :: "(lptr \<Rightarrow> iptr list) \<Rightarrow> tptr \<Rightarrow> bool" where
  "runs A u \<longleftrightarrow> (\<exists>c p. StateItem u \<in> set (A (ReadyList c p)))"

definition timed :: "(lptr \<Rightarrow> iptr list) \<Rightarrow> tptr \<Rightarrow> bool" where
  "timed A u \<longleftrightarrow> (\<exists>c. StateItem u \<in> set (A (BlockedTaskList c)))"

definition waits :: "(lptr \<Rightarrow> iptr list) \<Rightarrow> lptr \<Rightarrow> tptr \<Rightarrow> bool" where
  "waits A L u \<longleftrightarrow> EventItem u \<in> set (A L)"

definition undisturbed :: "(lptr \<Rightarrow> iptr list) \<Rightarrow> (lptr \<Rightarrow> iptr list) \<Rightarrow> tptr \<Rightarrow> bool" where
  "undisturbed A A' u \<longleftrightarrow> runs A' u = runs A u \<and> timed A' u = timed A u \<and> (\<forall>L. waits A' L u = waits A L u)"

text \<open>What may happen to a task that does nothing itself: nothing, or its time-out.\<close>

definition let_alone :: "(lptr \<Rightarrow> iptr list) \<Rightarrow> (lptr \<Rightarrow> iptr list) \<Rightarrow> tptr \<Rightarrow> bool" where
  "let_alone A A' u \<longleftrightarrow> undisturbed A A' u \<or>
     timed A u \<and> runs A' u \<and> \<not> timed A' u \<and> (\<forall>L. \<not> waits A' L u)"

lemma undisturbed_refl [simp]: "undisturbed A A u"
  by (simp add: undisturbed_def)

lemma undisturbed_let_alone: "undisturbed A A' u \<Longrightarrow> let_alone A A' u"
  by (simp add: let_alone_def)

lemma undisturbedI:
  "(\<And>L. StateItem u \<in> set (A' L) \<longleftrightarrow> StateItem u \<in> set (A L)) \<Longrightarrow>
   (\<And>L. EventItem u \<in> set (A' L) \<longleftrightarrow> EventItem u \<in> set (A L)) \<Longrightarrow> undisturbed A A' u"
  by (simp add: undisturbed_def runs_def timed_def waits_def)

text \<open>A task is in one place only, and its state says which.\<close>

lemma waits_event:
  assumes "sinv X s A" and "waits A L u" shows "event_list L"
  using typed_event_list [OF sinvD(2) [OF assms(1)], of "EventItem u" L] assms(2) by (auto simp: waits_def)

lemma runsD:
  assumes i: "sinv {} s A" and r: "runs A u"
  shows "created s u" "current_state (tcb s u) \<in> {TASK_STATE_READY, TASK_STATE_RUNNING}" "\<not> timed A u" "\<not> waits A L u"
    "StateItem u \<in> set (A (ready_list_of s u))"
proof -
  note D = sinvD [OF i]
  obtain c p where m: "StateItem u \<in> set (A (ReadyList c p))" using r by (auto simp: runs_def)
  show cr: "created s u" using typedD [OF D(2) m] by simp
  show t: "\<not> timed A u" using wfl_disjoint [OF D(1) m] by (auto simp: timed_def)
  have sy: "synced s u" using D(6) cr by (simp add: all_synced_def)
  have ct: "li_container (items s (StateItem u)) = Some (ReadyList c p)" using m by (simp add: wfl_container [OF D(1)])
  with sy show st: "current_state (tcb s u) \<in> {TASK_STATE_READY, TASK_STATE_RUNNING}"
    by (auto simp: synced_def split: TaskState.splits)
  have "li_container (items s (EventItem u)) = None" "li_container (items s (StateItem u)) = Some (ready_list_of s u)"
    using sy st by (auto simp: synced_def)
  then show "\<not> waits A L u" "StateItem u \<in> set (A (ready_list_of s u))"
    by (simp_all add: waits_def wfl_container [OF D(1)])
qed

lemma ready_runs:
  assumes "sinv {} s A" and "created s u" and "current_state (tcb s u) \<in> {TASK_STATE_READY, TASK_STATE_RUNNING}"
  shows "runs A u"
proof -
  note D = sinvD [OF assms(1)]
  have "synced s u" using D(6) assms(2) by (simp add: all_synced_def)
  with assms(3) have "StateItem u \<in> set (A (ready_list_of s u))" by (auto simp: synced_def wfl_container [OF D(1)])
  then show ?thesis by (auto simp: runs_def ready_list_of_def)
qed

lemma not_runs:
  assumes i: "sinv {} s A" and w: "waits A L u \<or> timed A u"
  shows "\<not> runs A u" "created s u" "current_state (tcb s u) = TASK_STATE_BLOCKED"
proof -
  note D = sinvD [OF i]
  show nr: "\<not> runs A u" using runsD(3,4) [OF i] w by blast
  show cr: "created s u" using w typedD [OF D(2)] by (fastforce simp: waits_def timed_def)
  have "synced s u" using D(6) cr by (simp add: all_synced_def)
  then show "current_state (tcb s u) = TASK_STATE_BLOCKED"
    using ready_runs [OF i cr] nr by (auto simp: synced_def split: TaskState.splits)
qed

lemma runs_can_run: "sinv {} s A \<Longrightarrow> runs A t \<Longrightarrow> p_task_control_block s c = Some t \<Longrightarrow> can_run s c t"
  using runsD(2) by (simp add: can_run_def)

lemma can_run_runs: "sinv {} s A \<Longrightarrow> can_run s c t \<Longrightarrow> runs A t"
  using ready_runs can_runD(1) by (fastforce simp: can_run_def)

lemma switch_watermark: "scheduler_switch_context c s = Some s' \<Longrightarrow> watermark_ok c s"
  by (cases "p_task_control_block s c") (auto simp: scheduler_switch_context_def watermark_ok_def)

subsection \<open>What most operations leave alone\<close>

text \<open>The semaphores, the stacks and where they are, the cores of the tasks, and the reasons they were woken for.\<close>

definition steady :: "kernel \<Rightarrow> kernel \<Rightarrow> bool" where
  "steady s s' \<longleftrightarrow> stack_mem s' = stack_mem s \<and> semaphores s' = semaphores s \<and>
     (\<forall>u. stack_base (tcb s' u) = stack_base (tcb s u) \<and> core_id (tcb s' u) = core_id (tcb s u) \<and>
     wakeup_reason (tcb s' u) = wakeup_reason (tcb s u))"

lemma steady_refl: "steady s s"
  by (simp add: steady_def)

lemma steady_trans [trans]: "steady s s1 \<Longrightarrow> steady s1 s2 \<Longrightarrow> steady s s2"
  by (simp add: steady_def)

lemma steady_remove_ready: "steady s (snd (scheduler_remove_from_ready_list p s))"
  by (auto simp: steady_def scheduler_remove_from_ready_list_def Let_def split: option.splits)

lemma steady_add_ready: "steady s (snd (scheduler_add_to_ready_list p s))"
  by (auto simp: steady_def scheduler_add_to_ready_list_def Let_def split: option.splits)

lemma steady_add_blocked: "scheduler_add_to_blocked_list p w s = Some (r, s') \<Longrightarrow> steady s s'"
  by (auto simp: steady_def scheduler_add_to_blocked_list_def Let_def bind_Some_iff split: option.splits if_splits)

lemma steady_change_priority: "steady s (scheduler_change_task_priority t p s)"
  using steady_add_ready [of _ "Some t"]
  by (auto simp: steady_def scheduler_change_task_priority_def Let_def split: option.splits)

lemma steady_upd_tcb:
  "(\<And>b. stack_base (f b) = stack_base b \<and> core_id (f b) = core_id b \<and> wakeup_reason (f b) = wakeup_reason b) \<Longrightarrow> steady s (upd_tcb t f s)"
  by (simp add: steady_def)

lemma steady_upd_mutex: "steady s (upd_mutex m f s)"
  by (simp add: steady_def)

lemma steady_block_on: "block_on E t d s = Some s' \<Longrightarrow> steady s s'"
proof -
  assume b: "block_on E t d s = Some s'"
  let ?s2 = "snd (scheduler_remove_from_ready_list (Some t) (link_tail E (EventItem t) t s))"
  have l: "steady s (link_tail E (EventItem t) t s)" by (simp add: steady_def)
  have 2: "steady s ?s2" by (rule steady_trans [OF l steady_remove_ready])
  obtain s3 where s3: "steady ?s2 s3" "s' = upd_tcb t (\<lambda>b. b\<lparr>current_state := TASK_STATE_BLOCKED\<rparr>) s3"
  proof (cases d)
    case None
    with b show ?thesis by (intro that [of ?s2]) (simp_all add: block_on_def Let_def steady_refl)
  next
    case (Some w)
    with b show ?thesis by (auto simp: block_on_def Let_def bind_Some_iff dest: steady_add_blocked intro: that)
  qed
  show ?thesis unfolding s3(2) by (rule steady_trans [OF steady_trans [OF 2 s3(1)] steady_upd_tcb]) simp
qed

lemma steady_created: "steady s s' \<Longrightarrow> created s' u = created s u"
  by (simp add: steady_def created_def)

lemma steady_intact: "intact s \<Longrightarrow> steady s s' \<Longrightarrow> intact s'"
  by (rule intact_cong) (simp_all add: steady_def)

lemma mutex_lock_enter_steady:
  assumes i: "sinv {} s A" and can: "can_run s c t" and l: "m_state (mutexes s m) = MUTEX_STATE_LOCKED" and w: "timeout_ms \<noteq> 0"
    and e: "mutex_lock_enter m c timeout_ms s = Some (r, s')"
  shows "steady s s'"
proof -
  note C = can_runD [OF i can, simplified]
  have cur: "p_task_control_block s c = Some t" using can by (simp add: can_run_def)
  obtain s1 where b: "block_on (MutexBlockedList m) t (lock_wait c timeout_ms s) s = Some s1"
    by (rule sinv_block_on [OF i C(1) _ C(3,4), of "MutexBlockedList m" "lock_wait c timeout_ms s"]) (simp_all add: that)
  have "steady s1 s'"
    using e unfolding mutex_lock_enter_eq [OF cur l w b]
    by (auto simp: Let_def bind_Some_iff steady_refl split: if_splits
        intro: steady_upd_mutex steady_change_priority steady_trans)
  then show ?thesis by (rule steady_trans [OF steady_block_on [OF b]])
qed

lemma task_delay_steady: "task_delay_ms c n s = Some s' \<Longrightarrow> steady s s'"
proof -
  assume d: "task_delay_ms c n s = Some s'"
  let ?s1 = "snd (scheduler_remove_from_ready_list (p_task_control_block s c) s)"
  obtain r s2 t where s2: "scheduler_add_to_blocked_list (p_task_control_block ?s1 c) (scheduler_get_tick_count c s + n) ?s1 = Some (r, s2)"
    "s' = upd_tcb t (\<lambda>b. b\<lparr>current_state := TASK_STATE_BLOCKED\<rparr>) s2"
    using d by (auto simp: task_delay_ms_def block_until_def Let_def bind_Some_iff)
  show ?thesis unfolding s2(2)
    by (rule steady_trans [OF steady_trans [OF steady_remove_ready steady_add_blocked [OF s2(1)]] steady_upd_tcb]) simp
qed

lemma steady_remove_blocked: "steady s (snd (scheduler_remove_from_blocked_list p s))"
  by (auto simp: steady_def scheduler_remove_from_blocked_list_def Let_def split: option.splits)

lemma steady_release_holder: "steady s (release_holder m h s)"
proof (cases h)
  case None
  then show ?thesis by (simp add: release_holder_def steady_refl)
next
  case (Some u)
  have "steady s (upd_tcb u (\<lambda>b. b\<lparr>mutexes_held := mutexes_held b - 1\<rparr>) s)" by (rule steady_upd_tcb) simp
  with steady_change_priority show ?thesis
    by (auto simp: Some release_holder_def Let_def steady_refl intro: steady_trans)
qed

lemma mutex_unlock_steady: "mutex_unlock m s = Some s' \<Longrightarrow> steady s s'"
proof -
  assume u: "mutex_unlock m s = Some s'"
  let ?E = "MutexBlockedList m" and ?h = "mutex_owner (mutexes s m)"
  show ?thesis
  proof (cases "m_state (mutexes s m) = MUTEX_STATE_LOCKED \<and> l_num_items (list_at s ?E) \<noteq> 0")
    case False
    with u have "s' = s \<or> (\<exists>f. s' = release_holder m ?h (upd_mutex m f s))"
      by (auto simp: mutex_unlock_def Let_def split: if_splits)
    then show ?thesis by (auto intro: steady_refl steady_trans [OF steady_upd_mutex steady_release_holder])
  next
    case True
    obtain hd b k where sc: "l_head (list_at s ?E) = Some hd" "mutex_scan s (li_next (items s hd)) hd TASK_PRIORITY_IDLE = Some (b, k)"
      using u True by (auto simp: mutex_unlock_def Let_def bind_Some_iff)
    define n where "n = li_owner (items s b)"
    define s2 where "s2 = upd_mutex m (\<lambda>m. m\<lparr>inherited_priority := k\<rparr>) (detach ?E b (stitch ?E b s))"
    define s4 where "s4 = upd_mutex m (\<lambda>m. m\<lparr>mutex_owner := Some n\<rparr>) (release_holder m ?h s2)"
    define held where "held = upd_tcb n (\<lambda>b. b\<lparr>mutexes_held := mutexes_held b + 1\<rparr>) s4"
    define s5 where "s5 = (if inheritance_enabled (mutexes s4 m)
      then if inherited_priority (mutexes held m) > priority (tcb held n)
           then scheduler_change_task_priority n (inherited_priority (mutexes held m)) held else held
      else s4)"
    have s': "s' = snd (scheduler_add_to_ready_list (Some n) (snd (scheduler_remove_from_blocked_list (Some n) s5)))"
      using u True sc unfolding mutex_unlock_def Let_def s5_def held_def s4_def s2_def n_def by simp
    have 2: "steady s s2" by (simp add: steady_def s2_def)
    have 4: "steady s s4" unfolding s4_def by (rule steady_trans [OF steady_trans [OF 2 steady_release_holder] steady_upd_mutex])
    have h: "steady s held" unfolding held_def by (rule steady_trans [OF 4 steady_upd_tcb]) simp
    have "steady s s5" using 4 h steady_trans [OF h steady_change_priority] by (simp add: s5_def)
    then show ?thesis unfolding s' by (rule steady_trans [OF steady_trans [OF _ steady_remove_blocked] steady_add_ready])
  qed
qed

subsection \<open>Blocking\<close>

lemma blocked_on_mem:
  "event_list E \<Longrightarrow> x \<noteq> StateItem t \<Longrightarrow> x \<noteq> EventItem t \<Longrightarrow> x \<in> set (blocked_on s E t d A L) \<longleftrightarrow> x \<in> set (A L)"
  by (auto simp: blocked_on_def Let_def ready_list_of_def split: option.splits)

lemma blocked_on_other: "event_list E \<Longrightarrow> u \<noteq> t \<Longrightarrow> undisturbed A (blocked_on s E t d A) u"
  by (rule undisturbedI) (simp_all add: blocked_on_mem)

lemma blocked_on_self:
  assumes i: "sinv {} s A" and r: "runs A t" and E: "event_list E"
  shows "\<not> runs (blocked_on s E t d A) t" "timed (blocked_on s E t d A) t = (d \<noteq> None)"
    "waits (blocked_on s E t d A) L t = (L = E)"
proof -
  note D = sinvD [OF i] and R = runsD [OF i r]
  have E': "E \<noteq> ReadyList c p" "E \<noteq> BlockedTaskList c" for c p using E by auto
  have one: "StateItem t \<in> set (A L) \<Longrightarrow> L = ready_list_of s t" for L using wfl_disjoint [OF D(1) R(5)] by blast
  have rem: "StateItem t \<notin> set (remove1 (StateItem t) (A L))" for L by (simp add: wfl_distinct [OF D(1)])
  have ev: "EventItem t \<notin> set (A L)" for L using R(4) by (simp add: waits_def)
  show "\<not> runs (blocked_on s E t d A) t" "timed (blocked_on s E t d A) t = (d \<noteq> None)"
    "waits (blocked_on s E t d A) L t = (L = E)"
    using E' one rem ev
    by (auto simp: runs_def timed_def waits_def blocked_on_def Let_def ready_list_of_def dest: notin_set_remove1 split: option.splits if_splits)
qed

lemma delayed_places:
  fixes w :: u64
  assumes i: "sinv {} s A" and r: "runs A t" and c: "core_id (tcb s t) = c"
  defines "A' \<equiv> A(ready_list_of s t := remove1 (StateItem t) (A (ready_list_of s t)),
                  BlockedTaskList c := delay_insert (waketime s) w (StateItem t) (A (BlockedTaskList c)))"
  shows "u \<noteq> t \<Longrightarrow> undisturbed A A' u" "\<not> runs A' t" "timed A' t" "\<not> waits A' L t"
proof -
  note D = sinvD [OF i] and R = runsD [OF i r]
  have one: "StateItem t \<in> set (A L) \<Longrightarrow> L = ready_list_of s t" for L using wfl_disjoint [OF D(1) R(5)] by blast
  have rem: "StateItem t \<notin> set (remove1 (StateItem t) (A L))" for L by (simp add: wfl_distinct [OF D(1)])
  have ev: "EventItem t \<notin> set (A L)" for L using R(4) by (simp add: waits_def)
  show "undisturbed A A' u" if "u \<noteq> t"
    by (rule undisturbedI) (use that in \<open>auto simp: A'_def ready_list_of_def\<close>)
  show "\<not> runs A' t" "timed A' t" "\<not> waits A' L t"
    using one rem ev by (auto simp: A'_def runs_def timed_def waits_def ready_list_of_def dest: notin_set_remove1)
qed

lemma task_delay_objects:
  "task_delay_ms c n k = Some k' \<Longrightarrow> mutexes k' = mutexes k \<and> semaphores k' = semaphores k"
  by (auto simp: task_delay_ms_def block_until_def scheduler_remove_from_ready_list_def scheduler_add_to_blocked_list_def
      Let_def bind_Some_iff split: if_splits option.splits)

lemma task_delay_places:
  assumes i: "sinv {} s A" and can: "can_run s c t"
  obtains s' A' where "task_delay_ms c ms s = Some s'" and "sinv {} s' A'" and "mutexes s' = mutexes s" and "semaphores s' = semaphores s"
    and "\<And>u. u \<noteq> t \<Longrightarrow> tcb s' u = tcb s u" and "\<And>u. u \<noteq> t \<Longrightarrow> undisturbed A A' u"
    and "timed A' t" and "\<And>L. \<not> waits A' L t" and "\<And>u. rank (tcb s' u) = rank (tcb s u)"
proof -
  note R = can_runD [OF i can, simplified] and r = can_run_runs [OF i can]
  have cur: "p_task_control_block s c = Some t" using can by (simp add: can_run_def)
  obtain s' where s': "task_delay_ms c ms s = Some s'"
    "sinv {} s' (A(ready_list_of s t := remove1 (StateItem t) (A (ready_list_of s t)),
       BlockedTaskList c := delay_insert (waketime s) (tick_count s c + ms) (StateItem t) (A (BlockedTaskList c))))"
    "tcb s' = (tcb s)(t := (tcb s t)\<lparr>wakeup_time := tick_count s c + ms, current_state := TASK_STATE_BLOCKED\<rparr>)"
    unfolding task_delay_ms_def scheduler_get_tick_count_def
    by (rule sinv_block_until [OF i cur R(3), of "tick_count s c + ms"]) (simp_all add: that)
  show ?thesis
    by (rule that [OF s'(1,2) _ _ _ delayed_places(1,3,4) [OF i r R(2)]])
      (use task_delay_objects [OF s'(1)] in \<open>simp_all add: s'(3) rank_def\<close>)
qed

subsection \<open>Waking\<close>

lemma woken_other: "u \<noteq> t \<Longrightarrow> undisturbed A (woken s t A) u"
  by (rule undisturbedI) (auto simp: woken_def)

lemma woken_self:
  assumes "\<And>L. distinct (A L)"
  shows "runs (woken s t A) t" "\<not> timed (woken s t A) t" "\<not> waits (woken s t A) L t"
  using assms by (auto simp: runs_def timed_def waits_def woken_def ready_list_of_def dest: notin_set_remove1)

lemma reprioritised_places:
  assumes i: "sinv {} s A" and cr: "created s h" shows "undisturbed A (reprioritised s h p A) u"
proof (cases "u = h \<and> current_state (tcb s h) \<in> {TASK_STATE_READY, TASK_STATE_RUNNING}")
  case False
  then show ?thesis by (intro undisturbedI) (auto simp: reprioritised_def)
next
  case True
  have rem: "StateItem h \<notin> set (remove1 (StateItem h) (A L))" for L by (simp add: wfl_distinct [OF sinvD(1) [OF i]])
  have r: "runs A h" using ready_runs [OF i cr] True by blast
  with runsD(3) [OF i] have "\<not> timed A h" by blast
  with True r rem show ?thesis
    by (auto simp: undisturbed_def runs_def timed_def waits_def reprioritised_def)
qed

subsection \<open>The tick\<close>

lemma after_tick_places:
  assumes i: "sinv {} s A"
  shows "\<not> timed A u \<Longrightarrow> undisturbed A (after_tick s c A) u" "let_alone A (after_tick s c A) u"
proof -
  note D = sinvD [OF i]
  have evL: "waits (after_tick s c A) L u \<longleftrightarrow>
      waits A L u \<and> \<not> (StateItem u \<in> set (A (BlockedTaskList c)) \<and> expired s c (StateItem u))" for L
    using waits_event [OF i, of L u]
    by (cases L) (auto simp: waits_def expired_def waketime_def dest: typed_event_list [OF D(2)])
  let ?x = "StateItem u"
  have x: "runs (after_tick s c A) u \<longleftrightarrow> runs A u \<or> ?x \<in> set (A (BlockedTaskList c)) \<and> expired s c ?x"
    "timed (after_tick s c A) u \<longleftrightarrow> (\<exists>d. ?x \<in> set (A (BlockedTaskList d)) \<and> \<not> (d = c \<and> expired s c ?x))"
    by (auto simp: runs_def timed_def)
  show nt: "undisturbed A (after_tick s c A) u" if "\<not> timed A u"
    using that evL x by (auto simp: undisturbed_def timed_def)
  show "let_alone A (after_tick s c A) u"
  proof (cases "?x \<in> set (A (BlockedTaskList c)) \<and> expired s c ?x")
    case True
    then have "\<not> timed (after_tick s c A) u" using wfl_disjoint [OF D(1), of ?x] unfolding x by blast
    with True show ?thesis unfolding let_alone_def using evL x(1) by (auto simp: timed_def)
  next
    case False
    then have "undisturbed A (after_tick s c A) u" using evL x by (auto simp: undisturbed_def timed_def)
    then show ?thesis by (rule undisturbed_let_alone)
  qed
qed

subsection \<open>The mutex\<close>

lemma mutex_lock_places:
  assumes i: "sinv {} s A" and can: "can_run s c t" and l: "m_state (mutexes s m) = MUTEX_STATE_LOCKED"
    and own: "mutex_owner (mutexes s m) = Some h" and crh: "created s h" and ht: "h \<noteq> t"
    and inh: "inherited_priority (mutexes s m) < NUM_TASK_PRIORITIES" and w: "timeout_ms \<noteq> 0"
  obtains s' A' where "mutex_lock_enter m c timeout_ms s = Some (LockBlocked, s')" and "sinv {} s' A'"
    and "\<And>u. u \<noteq> t \<Longrightarrow> undisturbed A A' u"
    and "\<And>L. waits A' L t = (L = MutexBlockedList m)" and "timed A' t = (sint timeout_ms > 0)" and "\<not> runs A' t"
    and "mutexes s' = (mutexes s)(m := (mutexes s m)\<lparr>inherited_priority :=
           (if inheritance_enabled (mutexes s m) then passed_on m t s else inherited_priority (mutexes s m))\<rparr>)"
    and "priority (tcb s' h) = (if lock_boosts m t h s then passed_on m t s else priority (tcb s h))"
    and "passed_on m t s < NUM_TASK_PRIORITIES" and "\<And>u. u \<noteq> t \<Longrightarrow> u \<noteq> h \<Longrightarrow> tcb s' u = tcb s u"
    and "\<And>u. rank (tcb s' u) = (if u = h \<and> lock_boosts m t h s then passed_on m t s else priority (tcb s u), base_priority (tcb s u), mutexes_held (tcb s u))"
proof -
  let ?E = "MutexBlockedList m" and ?w = "lock_wait c timeout_ms s"
  let ?A1 = "blocked_on s ?E t ?w A"
  have run: "runs A t" by (rule can_run_runs [OF i can])
  note C = can_runD [OF i can, simplified]
  obtain s1 s' where s': "mutex_lock_enter m c timeout_ms s = Some (LockBlocked, s')"
    and s1: "block_on ?E t ?w s = Some s1"
    and i': "sinv {} s' (if lock_boosts m t h s then reprioritised s1 h (passed_on m t s) ?A1 else ?A1)"
    and pr: "priority (tcb s' h) = (if lock_boosts m t h s then passed_on m t s else priority (tcb s h))"
    and ms: "mutexes s' = (mutexes s)(m := (mutexes s m)\<lparr>inherited_priority :=
         (if inheritance_enabled (mutexes s m) then passed_on m t s else inherited_priority (mutexes s m))\<rparr>)"
    and fr: "\<And>u. u \<noteq> t \<Longrightarrow> u \<noteq> h \<Longrightarrow> tcb s' u = tcb s u"
    and rk: "\<And>u. rank (tcb s' u) = (if u = h \<and> lock_boosts m t h s then passed_on m t s else priority (tcb s u), base_priority (tcb s u), mutexes_held (tcb s u))"
    by (rule mutex_lock_blocks [OF i can l own crh inh w]) (rule that)
  define A2 where "A2 = (if lock_boosts m t h s then reprioritised s1 h (passed_on m t s) ?A1 else ?A1)"
  obtain s1' where s1': "block_on ?E t ?w s = Some s1'" "sinv {} s1' ?A1" "\<And>u. u \<noteq> t \<Longrightarrow> tcb s1' u = tcb s u"
    by (rule sinv_block_on [OF i C(1) _ C(3,4), of ?E ?w]) (simp_all add: that)
  have "created s1 h" using s1 s1' crh ht by (simp add: created_def)
  then have re: "undisturbed ?A1 A2 u" for u using reprioritised_places s1 s1' by (simp add: A2_def)
  have q: "passed_on m t s < NUM_TASK_PRIORITIES"
    using inh tcbs_okD(3) [OF sinvD(5) [OF i] C(1)] by (simp add: passed_on_def)
  show ?thesis
  proof (rule that [OF s' i' [folded A2_def] _ _ _ _ ms pr q fr rk])
    show "undisturbed A A2 u" if "u \<noteq> t" for u
      using blocked_on_other [OF _ that, of ?E] re [of u] by (simp add: undisturbed_def)
    show "waits A2 L t = (L = ?E)" "timed A2 t = (sint timeout_ms > 0)" "\<not> runs A2 t" for L
      using blocked_on_self [OF i run, of ?E] re [of t] by (simp_all add: undisturbed_def lock_wait_def)
  qed
qed

lemma mutex_unlock_free_places:
  assumes "sinv {} s A" and "m_state (mutexes s m) = MUTEX_STATE_LOCKED" and "mutex_owner (mutexes s m) = Some h"
    and "created s h" and none: "A (MutexBlockedList m) = []"
  obtains s' A' where "mutex_unlock m s = Some s'" and "sinv {} s' A'" and "\<And>u. undisturbed A A' u"
    and "mutexes s' = (mutexes s)(m := (mutexes s m)\<lparr>mutex_owner := None, m_state := MUTEX_STATE_UNLOCKED, inherited_priority := TASK_PRIORITY_IDLE\<rparr>)"
    and "A' (MutexBlockedList m) = []"
    and "\<And>u. rank (tcb s' u) = (if u = h \<and> falls_back m h s then base_priority (tcb s u) else priority (tcb s u), base_priority (tcb s u),
           if u = h \<and> inheritance_enabled (mutexes s m) then mutexes_held (tcb s u) - 1 else mutexes_held (tcb s u))"
proof (rule mutex_unlock_free [OF assms], goal_cases)
  case (1 s')
  define A' where "A' = (if falls_back m h s then reprioritised s h (base_priority (tcb s h)) A else A)"
  have "undisturbed A A' u" for u using reprioritised_places [OF assms(1,4)] by (simp add: A'_def)
  moreover have "A' (MutexBlockedList m) = []" using none by (simp add: A'_def reprioritised_def)
  ultimately show ?case using 1 by (intro that [of s' A']) (simp_all add: A'_def)
qed

lemma mutex_unlock_handoff_places:
  assumes i: "sinv {} s A" and l: "m_state (mutexes s m) = MUTEX_STATE_LOCKED" and own: "mutex_owner (mutexes s m) = Some h"
    and run: "runs A h" and W: "A (MutexBlockedList m) \<noteq> []"
  obtains n s' A' where "mutex_unlock m s = Some s'" and "is_next_owner s (A (MutexBlockedList m)) n" and "sinv {} s' A'"
    and "waits A (MutexBlockedList m) n" and "n \<noteq> h" and "\<And>u. u \<noteq> n \<Longrightarrow> undisturbed A A' u"
    and "runs A' n"
    and "mutexes s' = (mutexes s)(m := (mutexes s m)\<lparr>
           inherited_priority := Max (insert 0 (item_prio s ` (set (A (MutexBlockedList m)) - {EventItem n}))), mutex_owner := Some n\<rparr>)"
    and "inherited_priority (mutexes s' m) < NUM_TASK_PRIORITIES"
    and "\<And>u. rank (tcb s' u) = (if u = h \<and> falls_back m h s then base_priority (tcb s u) else priority (tcb s u), base_priority (tcb s u),
           if inheritance_enabled (mutexes s m)
           then if u = h then mutexes_held (tcb s u) - 1 else if u = n then mutexes_held (tcb s u) + 1 else mutexes_held (tcb s u)
           else mutexes_held (tcb s u))"
proof -
  let ?E = "MutexBlockedList m"
  note R = runsD [OF i run] and D = sinvD [OF i]
  have hW: "EventItem h \<notin> set (A ?E)" using R(4) by (simp add: waits_def)
  show ?thesis
  proof (rule mutex_unlock_handoff [OF i l own R(1) hW W], goal_cases)
    case (1 n s')
    define B where "B = (if falls_back m h s then reprioritised s h (base_priority (tcb s h)) A else A)"
    have wn: "EventItem n \<in> set (A ?E)" using 1(2) by (auto simp: is_next_owner_def)
    have dist: "distinct (B L)" for L using wfl_distinct [OF D(1)] by (simp add: B_def reprioritised_distinct)
    have B: "undisturbed A B u" for u using reprioritised_places [OF i R(1)] by (simp add: B_def)
    have prio: "item_prio s x < NUM_TASK_PRIORITIES" if "x \<in> set (A ?E)" for x
      using tcbs_okD(3) [OF D(5)] typedD [OF D(2) that] by (simp add: item_prio_def)
    have "Max (insert 0 (item_prio s ` (set (A ?E) - {EventItem n}))) < NUM_TASK_PRIORITIES"
      by (subst Max_less_iff) (use prio in \<open>auto simp: task_consts\<close>)
    then show ?case
    proof (intro that [OF 1(1,2) 1(3) [folded B_def] _ _ _ _ 1(4) _ 1(9)])
      show "undisturbed A (woken s n B) u" if "u \<noteq> n" for u
        using B [of u] woken_other [OF that, of B] by (simp add: undisturbed_def)
      show "runs (woken s n B) n" by (rule woken_self(1) [OF dist])
    qed (use wn hW 1(4) in \<open>auto simp: waits_def\<close>)
  qed
qed

lemma owner_created:
  "sinv {} k A \<Longrightarrow> runs A h \<Longrightarrow> m_state (mutexes k m) = MUTEX_STATE_LOCKED \<Longrightarrow> mutex_owner (mutexes k m) = Some h \<Longrightarrow>
   inherited_priority (mutexes k m) < NUM_TASK_PRIORITIES \<Longrightarrow> mutex_ok k A m"
  using runsD(1) by (auto simp: mutex_ok_def)

lemma mutex_ok_kept:
  assumes "mutex_ok k A m" and i: "sinv {} k' A'" and "mutexes k' m = mutexes k m"
    and w: "\<And>u. waits A' (MutexBlockedList m) u \<Longrightarrow> waits A (MutexBlockedList m) u"
    and "\<And>h. mutex_owner (mutexes k m) = Some h \<Longrightarrow> created k' h"
  shows "mutex_ok k' A' m"
proof -
  have "A' (MutexBlockedList m) = []" if "A (MutexBlockedList m) = []"
  proof (rule ccontr)
    assume "A' (MutexBlockedList m) \<noteq> []"
    then obtain x where x: "x \<in> set (A' (MutexBlockedList m))" by (meson last_in_set)
    then obtain u where "x = EventItem u" using typed_event(1) [OF sinvD(2) [OF i]] by blast
    with x w [of u] that show False by (simp add: waits_def)
  qed
  with assms(1,3,5) show ?thesis by (auto simp: mutex_ok_def split: MutexState.splits)
qed

end
