(* ===== verification/Environment.thy ===== *)
theory Environment
  imports Task_Places Queue
begin

text \<open>
  The rest of the system as a group of tasks \<open>T\<close> that share a few objects sees it: the tick and the context switch on every core,
  and whatever the other tasks and the interrupt handlers do to the kernel without touching those objects. What they may do to the
  group is a contract, and the locale is for programs that rely on nothing else.
\<close>

subsection \<open>The contract\<close>

text \<open>The group has mutexes \<open>M\<close> and semaphores \<open>S\<close> of its own; the others use mutexes \<open>U\<close>.\<close>

definition own_list :: "mptr set \<Rightarrow> sptr set \<Rightarrow> lptr \<Rightarrow> bool" where
  "own_list M S L \<longleftrightarrow> (\<exists>m\<in>M. L = MutexBlockedList m) \<or> (\<exists>x\<in>S. L = SemaphoreBlockedList x)"

definition at_home :: "tptr set \<Rightarrow> mptr set \<Rightarrow> sptr set \<Rightarrow> (lptr \<Rightarrow> iptr list) \<Rightarrow> bool" where
  "at_home T M S A \<longleftrightarrow> (\<forall>u\<in>T. \<forall>L. waits A L u \<longrightarrow> own_list M S L)"

definition foreign_ok :: "mptr set \<Rightarrow> kernel \<Rightarrow> (lptr \<Rightarrow> iptr list) \<Rightarrow> bool" where
  "foreign_ok U k A \<longleftrightarrow> (\<forall>m\<in>U. mutex_ok k A m)"

definition harmless :: "tptr set \<Rightarrow> mptr set \<Rightarrow> sptr set \<Rightarrow> kernel \<Rightarrow> (lptr \<Rightarrow> iptr list) \<Rightarrow> kernel \<Rightarrow> (lptr \<Rightarrow> iptr list) \<Rightarrow> bool" where
  "harmless T M S k A k' A' \<longleftrightarrow>
     (\<forall>m\<in>M. mutexes k' m = mutexes k m) \<and> (\<forall>x\<in>S. semaphores k' x = semaphores k x) \<and>
     (\<forall>u\<in>T. let_alone A A' u \<and> wakeup_reason (tcb k' u) = wakeup_reason (tcb k u)) \<and>
     (\<forall>L u. own_list M S L \<and> waits A' L u \<longrightarrow> waits A L u)"

locale environment =
  fixes env :: "kernel \<Rightarrow> kernel \<Rightarrow> bool" and T :: "tptr set" and M :: "mptr set" and S :: "sptr set" and U :: "mptr set"
  assumes env_step: "env k k' \<Longrightarrow> sinv {} k A \<Longrightarrow> at_home T M S A \<Longrightarrow> foreign_ok U k A \<Longrightarrow>
    \<exists>A'. sinv {} k' A' \<and> harmless T M S k A k' A' \<and> foreign_ok U k' A'"

text \<open>Where the others do not lock mutexes either, nothing changes the group's priorities.\<close>

definition ranks_kept :: "tptr set \<Rightarrow> kernel \<Rightarrow> kernel \<Rightarrow> bool" where
  "ranks_kept T k k' \<longleftrightarrow> (\<forall>u\<in>T. rank (tcb k' u) = rank (tcb k u) \<and> core_id (tcb k' u) = core_id (tcb k u))"

locale calm_environment = environment +
  assumes calm_step: "env k k' \<Longrightarrow> sinv {} k A \<Longrightarrow> at_home T M S A \<Longrightarrow> ranks_kept T k k'"

subsection \<open>The steps of the others\<close>

text \<open>Software timers expire in a step of their own, so the tick handler is given a \<open>software_timer_tick\<close> that does nothing;
  what the service task and the console driver then do to the kernel are the semaphore, delay and queue steps below. The others
  unlock a mutex only when they own it, as the comment in \<open>mutex_unlock\<close> asks, and do not lock one they own.\<close>

inductive other_step :: "tptr set \<Rightarrow> mptr set \<Rightarrow> sptr set \<Rightarrow> mptr set \<Rightarrow> kernel \<Rightarrow> kernel \<Rightarrow> bool" for T M S U where
  tick: "timer_tick_handler (\<lambda>_ s. Some s) c v k = Some k' \<Longrightarrow> other_step T M S U k k'"
| switch: "scheduler_switch_context c k = Some k' \<Longrightarrow> other_step T M S U k k'"
| give: "x \<notin> S \<Longrightarrow> semaphore_give x k = Some (r, k') \<Longrightarrow> other_step T M S U k k'"
| take: "x \<notin> S \<Longrightarrow> t \<notin> T \<Longrightarrow> can_run k c t \<Longrightarrow> semaphore_take_try x c t w d k = Some (r, k') \<Longrightarrow> other_step T M S U k k'"
| retake: "t \<notin> T \<Longrightarrow> semaphore_take_wake t k = (r, k') \<Longrightarrow> other_step T M S U k k'"
| delay: "t \<notin> T \<Longrightarrow> can_run k c t \<Longrightarrow> task_delay_ms c n k = Some k' \<Longrightarrow> other_step T M S U k k'"
| lock: "m \<in> U \<Longrightarrow> m \<notin> M \<Longrightarrow> t \<notin> T \<Longrightarrow> can_run k c t \<Longrightarrow> mutex_owner (mutexes k m) \<noteq> Some t \<Longrightarrow>
    mutex_lock_enter m c w k = Some (r, k') \<Longrightarrow> other_step T M S U k k'"
| unlock: "m \<in> U \<Longrightarrow> m \<notin> M \<Longrightarrow> t \<notin> T \<Longrightarrow> can_run k c t \<Longrightarrow> mutex_owner (mutexes k m) = Some t \<Longrightarrow>
    mutex_unlock m k = Some k' \<Longrightarrow> other_step T M S U k k'"
| queue: "other_step T M S U k (upd_queue q f k)"

lemma foreign_ok_kept:
  assumes "foreign_ok U k A" and "sinv {} k' A'" and "\<And>m. m \<in> U \<Longrightarrow> mutexes k' m = mutexes k m"
    and "\<And>m u. m \<in> U \<Longrightarrow> waits A' (MutexBlockedList m) u \<Longrightarrow> waits A (MutexBlockedList m) u"
    and "\<And>u. created k u \<Longrightarrow> created k' u"
  shows "foreign_ok U k' A'"
  unfolding foreign_ok_def
proof
  fix m assume m: "m \<in> U"
  then have ok: "mutex_ok k A m" using assms(1) by (simp add: foreign_ok_def)
  show "mutex_ok k' A' m"
    by (rule mutex_ok_kept [OF ok assms(2) assms(3) [OF m] assms(4) [OF m]])
      (use ok assms(5) in \<open>auto simp: mutex_ok_def split: MutexState.splits\<close>)
qed

text \<open>The usual case: one task \<open>t\<close> moves, and no mutex changes.\<close>

lemma foreign_ok_one:
  assumes "foreign_ok U k A" and "sinv {} k' A'" and "mutexes k' = mutexes k" and "\<And>u. created k' u = created k u"
    and "\<And>u. u \<noteq> t \<Longrightarrow> undisturbed A A' u" and "\<And>m. m \<in> U \<Longrightarrow> \<not> waits A' (MutexBlockedList m) t"
  shows "foreign_ok U k' A'"
proof (rule foreign_ok_kept [OF assms(1,2)])
  fix m u assume "m \<in> U" "waits A' (MutexBlockedList m) u"
  with assms(5,6) show "waits A (MutexBlockedList m) u" by (cases "u = t") (auto simp: undisturbed_def)
qed (simp_all add: assms(3,4))

text \<open>A mutex step of \<open>t\<close> on \<open>m\<close>.\<close>

lemma foreign_ok_mutex:
  assumes "foreign_ok U k A" and i: "sinv {} k' A'" and mk: "mutexes k' = (mutexes k)(m := b)" and "\<And>u. created k' u = created k u"
    and "\<And>u. u \<noteq> t \<Longrightarrow> undisturbed A A' u" and w: "\<And>n. n \<noteq> m \<Longrightarrow> \<not> waits A' (MutexBlockedList n) t"
    and ok: "m \<in> U \<Longrightarrow> mutex_ok k' A' m"
  shows "foreign_ok U k' A'"
proof -
  have "foreign_ok (U - {m}) k' A'"
  proof (rule foreign_ok_kept [OF _ i])
    show "foreign_ok (U - {m}) k A" using assms(1) by (simp add: foreign_ok_def)
    fix n u assume "n \<in> U - {m}" "waits A' (MutexBlockedList n) u"
    with assms(5) w show "waits A (MutexBlockedList n) u" by (cases "u = t") (auto simp: undisturbed_def)
  qed (simp_all add: mk assms(4))
  with ok show ?thesis by (auto simp: foreign_ok_def)
qed

lemma harmless_undisturbed:
  assumes "\<And>m. m \<in> M \<Longrightarrow> mutexes k' m = mutexes k m" "\<And>x. x \<in> S \<Longrightarrow> semaphores k' x = semaphores k x"
    and "\<And>u. u \<in> T \<Longrightarrow> wakeup_reason (tcb k' u) = wakeup_reason (tcb k u)"
    and "\<And>u. u \<noteq> t \<Longrightarrow> undisturbed A A' u" and "t \<notin> T" and "\<And>L. own_list M S L \<Longrightarrow> waits A' L t \<Longrightarrow> waits A L t"
  shows "harmless T M S k A k' A'"
proof -
  have "let_alone A A' u" if "u \<in> T" for u by (rule undisturbed_let_alone [OF assms(4)]) (use that assms(5) in auto)
  moreover have "waits A L u" if "own_list M S L" "waits A' L u" for L u
    using assms(4) [of u] assms(6) [of L] that by (cases "u = t") (auto simp: undisturbed_def)
  ultimately show ?thesis using assms(1-3) by (simp add: harmless_def)
qed

lemma harmless_same:
  assumes "\<And>m. m \<in> M \<Longrightarrow> mutexes k' m = mutexes k m" "\<And>x. x \<in> S \<Longrightarrow> semaphores k' x = semaphores k x"
    and "\<And>u. u \<in> T \<Longrightarrow> wakeup_reason (tcb k' u) = wakeup_reason (tcb k u)"
  shows "harmless T M S k A k' A"
  using assms by (simp add: harmless_def let_alone_def)

lemma tick_wake_one_objects:
  "mutexes (tick_wake_one t s) = mutexes s" "semaphores (tick_wake_one t s) = semaphores s"
  by (simp_all add: tick_wake_one_def scheduler_remove_from_blocked_list_def Let_def split: option.splits)

lemma tick_wake_loop_objects:
  "tick_wake_loop c s = Some s' \<Longrightarrow> mutexes s' = mutexes s \<and> semaphores s' = semaphores s"
proof (rule tick_wake_loop.raw_induct [where P = "\<lambda>_ s s'. mutexes s' = mutexes s \<and> semaphores s' = semaphores s"])
  fix loop c s s'
  assume IH: "\<And>c s s'. loop c s = Some s' \<Longrightarrow> mutexes s' = mutexes s \<and> semaphores s' = semaphores s"
    and "(case l_head (list_at s (BlockedTaskList c)) of None \<Rightarrow> Some s
      | Some h \<Rightarrow> if wakeup_time (tcb s (li_owner (items s h))) \<le> tick_count s c
                  then loop c (tick_wake_one (li_owner (items s h)) s) else Some s) = Some s'"
  then show "mutexes s' = mutexes s \<and> semaphores s' = semaphores s"
    by (auto simp: tick_wake_one_objects dest!: IH split: option.splits if_splits)
qed

lemma tick_ok:
  assumes i: "sinv {} k A" and f: "foreign_ok U k A" and st: "timer_tick_handler (\<lambda>_ s. Some s) c v k = Some k'"
  shows "\<exists>A'. sinv {} k' A' \<and> harmless T M S k A k' A' \<and> foreign_ok U k' A'"
proof -
  define s0 where "s0 = k\<lparr>cntp_cval := (cntp_cval k)(c := v + ucast (clk_freq k c div hz k c)),
                   tick_count := (tick_count k)(c := tick_count k c + 1)\<rparr>"
  have i0: "sinv {} s0 A" by (rule sinv_cong [OF i]) (simp_all add: s0_def)
  obtain s2 where s2: "tick_wake_loop c s0 = Some s2" "sinv {} s2 (after_tick s0 c A)"
     "\<And>u. tcb s2 u = (if StateItem u \<in> set (A (BlockedTaskList c)) \<and> expired s0 c (StateItem u)
                      then (tcb s0 u)\<lparr>current_state := TASK_STATE_READY\<rparr> else tcb s0 u)"
    using tick_wake_loop_sinv [OF i0, of c] by blast
  have k': "k' = s2" using st s2(1) by (auto simp: timer_tick_handler_def Let_def s0_def split: if_splits)
  have w: "waits A L u" if "waits (after_tick s0 c A) L u" for L u
    using after_tick_places(2) [OF i0, of c u] that by (auto simp: let_alone_def undisturbed_def)
  have o: "mutexes s2 = mutexes k" "semaphores s2 = semaphores k" using tick_wake_loop_objects [OF s2(1)] by (simp_all add: s0_def)
  have "harmless T M S k A k' (after_tick s0 c A)"
    using after_tick_places(2) [OF i0] s2(3) w o by (simp add: harmless_def k' s0_def)
  moreover have "foreign_ok U k' (after_tick s0 c A)"
    by (rule foreign_ok_kept [OF f]) (use s2 w o in \<open>auto simp: k' created_def s0_def\<close>)
  ultimately show ?thesis using s2(2) unfolding k' by blast
qed

lemma semaphore_give_places:
  assumes i: "sinv {} k A" and g: "semaphore_give x k = Some (r, k')"
  obtains "A (SemaphoreBlockedList x) = []" and "sinv {} k' A" and "tcb k' = tcb k" and "mutexes k' = mutexes k"
      and "\<And>y. y \<noteq> x \<Longrightarrow> semaphores k' y = semaphores k y"
    | t ys where "A (SemaphoreBlockedList x) = EventItem t # ys" and "r = E_OK" and "sinv {} k' (woken k t A)"
      and "tcb k' = (tcb k)(t := (tcb k t)\<lparr>wakeup_reason := WAKEUP_REASON_RESOURCE_ACQUIRED, current_state := TASK_STATE_READY\<rparr>)"
      and "mutexes k' = mutexes k" and "semaphores k' = semaphores k"
proof (cases "A (SemaphoreBlockedList x)")
  case Nil
  then have "l_num_items (list_at k (SemaphoreBlockedList x)) = 0" using wfl_num_items_0 [OF sinvD(1) [OF i]] by simp
  with g have "k' = k \<or> k' = upd_sem x (\<lambda>m. m\<lparr>sem_count := sem_count m + 1\<rparr>) k"
    by (auto simp: semaphore_give_def Let_def split: if_splits)
  with i show ?thesis by (intro that(1) [OF Nil]) (auto intro: sinv_upd_sem)
next
  case (Cons h ys)
  then obtain t where h: "A (SemaphoreBlockedList x) = EventItem t # ys"
    using typed_event(2) [OF sinvD(2) [OF i], of h x] by auto
  show ?thesis
    by (rule semaphore_give_sinv [OF i h]) (use g in \<open>auto intro: that(2) [OF h]\<close>)
qed

lemma mutex_step_ok:
  assumes i: "sinv {} k A" and f: "foreign_ok U k A" and m: "m \<in> U" "m \<notin> M" and t: "t \<notin> T" and can: "can_run k c t"
    and own: "mutex_owner (mutexes k m) \<noteq> Some t" and st: "mutex_lock_enter m c w k = Some (r, k')"
  shows "\<exists>A'. sinv {} k' A' \<and> harmless T M S k A k' A' \<and> foreign_ok U k' A'"
proof -
  have run: "runs A t" by (rule can_run_runs [OF i can])
  have cur: "p_task_control_block k c = Some t" using can by (simp add: can_run_def)
  have ok: "mutex_ok k A m" using f m(1) by (simp add: foreign_ok_def)
  have ne: "n \<noteq> m" if "n \<in> M" for n using that m(2) by auto
  show ?thesis
  proof (cases "m_state (mutexes k m)")
    case MUTEX_STATE_UNLOCKED
    obtain k1 where k1: "mutex_lock_enter m c w k = Some (LockReturns E_OK, k1)" "sinv {} k1 A"
      and mk: "mutexes k1 = (mutexes k)(m := (mutexes k m)\<lparr>m_state := MUTEX_STATE_LOCKED, mutex_owner := Some t\<rparr>)"
      and tk: "\<And>u. tcb k1 u = (if u = t \<and> inheritance_enabled (mutexes k m)
                 then (tcb k u)\<lparr>mutexes_held := mutexes_held (tcb k u) + 1\<rparr> else tcb k u)"
      by (rule mutex_lock_free [OF i cur MUTEX_STATE_UNLOCKED]) (rule that)
    have k': "k' = k1" using st k1(1) by simp
    have "semaphores k1 = semaphores k"
      using k1(1) MUTEX_STATE_UNLOCKED cur by (auto simp: mutex_lock_enter_def scheduler_get_current_task_def Let_def)
    then have "harmless T M S k A k' A" unfolding k' by (intro harmless_same) (use ne in \<open>simp_all add: mk tk\<close>)
    moreover have "foreign_ok U k' A" unfolding k'
    proof (rule foreign_ok_mutex [OF f k1(2) mk])
      show "mutex_ok k1 A m" by (rule owner_created [OF k1(2) run]) (use MUTEX_STATE_UNLOCKED ok in \<open>simp_all add: mk mutex_ok_def\<close>)
    qed (use runsD(4) [OF i run] in \<open>auto simp: created_def tk\<close>)
    ultimately show ?thesis using k1(2) unfolding k' by blast
  next
    case MUTEX_STATE_LOCKED
    then obtain h where h: "mutex_owner (mutexes k m) = Some h" "created k h" and inh: "inherited_priority (mutexes k m) < NUM_TASK_PRIORITIES"
      using ok by (auto simp: mutex_ok_def)
    have ht: "h \<noteq> t" using own h by auto
    show ?thesis
    proof (cases "w = 0")
      case True
      then have "k' = k" using st cur MUTEX_STATE_LOCKED by (simp add: mutex_lock_enter_def scheduler_get_current_task_def)
      then show ?thesis using i f harmless_same [of M k k S T A] by auto
    next
      case False
      obtain k1 A' where k1: "mutex_lock_enter m c w k = Some (LockBlocked, k1)" and i': "sinv {} k1 A'"
        and other: "\<And>u. u \<noteq> t \<Longrightarrow> undisturbed A A' u" and self: "\<And>L. waits A' L t = (L = MutexBlockedList m)"
        and mk: "mutexes k1 = (mutexes k)(m := (mutexes k m)\<lparr>inherited_priority :=
           (if inheritance_enabled (mutexes k m) then passed_on m t k else inherited_priority (mutexes k m))\<rparr>)"
        and q: "passed_on m t k < NUM_TASK_PRIORITIES"
        by (rule mutex_lock_places [OF i can MUTEX_STATE_LOCKED h ht inh False]) (rule that)
      have k': "k' = k1" using st k1 by simp
      have sd: "steady k k1" by (rule mutex_lock_enter_steady [OF i can MUTEX_STATE_LOCKED False k1])
      have "harmless T M S k A k' A'" unfolding k'
        by (rule harmless_undisturbed [OF _ _ _ other t])
          (use ne sd m(2) in \<open>auto simp: mk steady_def self own_list_def\<close>)
      moreover have "foreign_ok U k' A'" unfolding k'
        by (rule foreign_ok_mutex [OF f i' mk steady_created [OF sd] other])
          (use h q inh MUTEX_STATE_LOCKED in \<open>auto simp: self mutex_ok_def mk steady_created [OF sd]\<close>)
      ultimately show ?thesis using i' unfolding k' by blast
    qed
  qed
qed

lemma mutex_unlock_step_ok:
  assumes i: "sinv {} k A" and f: "foreign_ok U k A" and home: "at_home T M S A" and m: "m \<in> U" "m \<notin> M" and t: "t \<notin> T"
    and can: "can_run k c t" and own: "mutex_owner (mutexes k m) = Some t" and st: "mutex_unlock m k = Some k'"
  shows "\<exists>A'. sinv {} k' A' \<and> harmless T M S k A k' A' \<and> foreign_ok U k' A'"
proof -
  let ?E = "MutexBlockedList m"
  have run: "runs A t" by (rule can_run_runs [OF i can])
  have ok: "mutex_ok k A m" using f m(1) by (simp add: foreign_ok_def)
  have ne: "n \<noteq> m" if "n \<in> M" for n using that m(2) by auto
  have l: "m_state (mutexes k m) = MUTEX_STATE_LOCKED" using ok own by (auto simp: mutex_ok_def split: MutexState.splits)
  have sd: "steady k k'" by (rule mutex_unlock_steady [OF st])
  show ?thesis
  proof (cases "A ?E = []")
    case True
    obtain k1 A' where k1: "mutex_unlock m k = Some k1" and i': "sinv {} k1 A'" and same: "\<And>u. undisturbed A A' u"
      and mk: "mutexes k1 = (mutexes k)(m := (mutexes k m)\<lparr>mutex_owner := None, m_state := MUTEX_STATE_UNLOCKED, inherited_priority := TASK_PRIORITY_IDLE\<rparr>)"
      and no: "A' ?E = []"
      by (rule mutex_unlock_free_places [OF i l own runsD(1) [OF i run] True]) (rule that)
    have k': "k1 = k'" using st k1 by simp
    have w: "\<not> waits A' L t" for L using same [of t] runsD(4) [OF i run] by (simp add: undisturbed_def)
    have "harmless T M S k A k' A'"
      by (rule harmless_undisturbed [OF _ _ _ same t]) (use ne sd w in \<open>auto simp: mk [unfolded k'] steady_def\<close>)
    moreover have "foreign_ok U k' A'"
      by (rule foreign_ok_mutex [OF f i' [unfolded k'] mk [unfolded k'] steady_created [OF sd] same w])
        (use no in \<open>simp add: mutex_ok_def mk [unfolded k'] task_consts\<close>)
    ultimately show ?thesis using i' unfolding k' by blast
  next
    case False
    obtain n k1 A' where k1: "mutex_unlock m k = Some k1" and i': "sinv {} k1 A'"
      and n: "waits A ?E n" "n \<noteq> t" and other: "\<And>u. u \<noteq> n \<Longrightarrow> undisturbed A A' u" and rn: "runs A' n"
      and mk: "mutexes k1 = (mutexes k)(m := (mutexes k m)\<lparr>
           inherited_priority := Max (insert 0 (item_prio k ` (set (A ?E) - {EventItem n}))), mutex_owner := Some n\<rparr>)"
      and q: "inherited_priority (mutexes k1 m) < NUM_TASK_PRIORITIES"
      by (rule mutex_unlock_handoff_places [OF i l own run False]) (rule that)
    have k': "k1 = k'" using st k1 by simp
    have nT: "n \<notin> T" using home n(1) m(2) by (auto simp: at_home_def own_list_def)
    note w = runsD(4) [OF i' rn]
    have "harmless T M S k A k' A'"
      by (rule harmless_undisturbed [OF _ _ _ other nT]) (use ne sd w in \<open>auto simp: mk [unfolded k'] steady_def\<close>)
    moreover have "foreign_ok U k' A'"
      by (rule foreign_ok_mutex [OF f i' [unfolded k'] mk [unfolded k'] steady_created [OF sd] other w])
        (use owner_created [OF i' rn _ _ q] l in \<open>simp_all add: mk k' [symmetric]\<close>)
    ultimately show ?thesis using i' unfolding k' by blast
  qed
qed

lemma other_step_ok:
  assumes "other_step T M S U k k'" and i: "sinv {} k A" and home: "at_home T M S A" and f: "foreign_ok U k A"
  shows "\<exists>A'. sinv {} k' A' \<and> harmless T M S k A k' A' \<and> foreign_ok U k' A'"
  using assms(1)
proof cases
  case (tick c v)
  then show ?thesis by (rule tick_ok [OF i f])
next
  case (switch c)
  obtain k1 where k1: "scheduler_switch_context c k = Some k1" "sinv {} k1 A"
    "\<And>u. tcb k1 u = (tcb k u)\<lparr>current_state := current_state (tcb k1 u)\<rparr>"
    by (rule switch_context_sinv [OF i switch_watermark [OF switch]]) (rule that)
  have t: "wakeup_reason (tcb k1 u) = wakeup_reason (tcb k u)" "created k1 u = created k u" for u
    unfolding created_def by (subst k1(3), simp)+
  have "harmless T M S k A k1 A" using switch_context_objects [OF k1(1)] t by (intro harmless_same) auto
  moreover have "foreign_ok U k1 A"
    by (rule foreign_ok_kept [OF f k1(2)]) (use switch_context_objects [OF k1(1)] t in auto)
  ultimately show ?thesis using k1 switch by auto
next
  case (give x r)
  from i give(2) show ?thesis
  proof (cases rule: semaphore_give_places)
    case 1
    then have "semaphores k' y = semaphores k y" if "y \<in> S" for y using that give(1) by metis
    with 1 have "harmless T M S k A k' A" by (intro harmless_same) simp_all
    moreover have "foreign_ok U k' A" by (rule foreign_ok_kept [OF f 1(2)]) (use 1 in \<open>auto simp: created_def\<close>)
    ultimately show ?thesis using 1(2) by blast
  next
    case (2 t ys)
    have w: "waits A (SemaphoreBlockedList x) t" by (simp add: waits_def 2(1))
    have t: "t \<notin> T" using home w give(1) by (auto simp: at_home_def own_list_def)
    note no = woken_self(3) [OF wfl_distinct [OF sinvD(1) [OF i]]]
    have "harmless T M S k A k' (woken k t A)"
      by (rule harmless_undisturbed [OF _ _ _ woken_other t]) (use 2(4-6) t no in auto)
    moreover have "foreign_ok U k' (woken k t A)"
      by (rule foreign_ok_one [OF f 2(3,5) _ woken_other no]) (simp add: created_def 2(4))
    ultimately show ?thesis using 2(3) by blast
  qed
next
  case (take x t c w d r)
  have run: "runs A t" by (rule can_run_runs [OF i take(3)])
  show ?thesis
  proof (cases "r = TakeBlocked")
    case False
    with take(4) have "k' = k \<or> k' = upd_sem x (\<lambda>m. m\<lparr>sem_count := sem_count m - 1\<rparr>) k"
      by (auto simp: semaphore_take_try_def Let_def bind_Some_iff split: if_splits option.splits)
    with i take(1) have "sinv {} k' A" "harmless T M S k A k' A" "mutexes k' = mutexes k" "tcb k' = tcb k"
      by (auto intro: sinv_upd_sem harmless_same)
    moreover from this have "foreign_ok U k' A" by (intro foreign_ok_kept [OF f]) (auto simp: created_def)
    ultimately show ?thesis by blast
  next
    case True
    note R = can_runD [OF i take(3), simplified]
    let ?E = "SemaphoreBlockedList x"
    have "sem_count (semaphores k x) = 0" "w \<noteq> 0" "\<not> (sint w > 0 \<and> tick_count k c \<ge> d)"
      using take(4) True by (auto simp: semaphore_take_try_def scheduler_get_tick_count_def word_gt_0 split: if_splits)
    note eq = take_try_blocks [OF this]
    obtain k1 where k1: "block_on ?E t (take_wait w d) k = Some k1" "sinv {} k1 (blocked_on k ?E t (take_wait w d) A)"
      "mutexes k1 = mutexes k" "semaphores k1 = semaphores k"
      by (rule sinv_block_on [OF i R(1) _ R(3,4), of ?E "take_wait w d"]) (simp_all add: that)
    have k': "k' = k1" using take(4) eq k1(1) by simp
    note sd = steady_block_on [OF k1(1)]
    have self: "waits (blocked_on k ?E t (take_wait w d) A) L t = (L = ?E)" for L by (rule blocked_on_self(3) [OF i run]) simp
    have other: "u \<noteq> t \<Longrightarrow> undisturbed A (blocked_on k ?E t (take_wait w d) A) u" for u by (rule blocked_on_other) simp_all
    have "harmless T M S k A k1 (blocked_on k ?E t (take_wait w d) A)"
      by (rule harmless_undisturbed [OF _ _ _ other take(2)]) (use sd k1(3,4) take(1) self in \<open>auto simp: own_list_def steady_def\<close>)
    moreover have "foreign_ok U k1 (blocked_on k ?E t (take_wait w d) A)"
      by (rule foreign_ok_one [where t = t, OF f k1(2,3) steady_created [OF sd] other]) (simp_all add: self)
    ultimately show ?thesis using k1(2) unfolding k' by blast
  qed
next
  case (retake t r)
  then have k': "k' = k \<or> k' = upd_tcb t (\<lambda>b. b\<lparr>wakeup_reason := WAKEUP_REASON_NONE\<rparr>) k"
    by (auto simp: semaphore_take_wake_def split: if_splits)
  have "sinv {} (upd_tcb t (\<lambda>b. b\<lparr>wakeup_reason := WAKEUP_REASON_NONE\<rparr>) k) A" by (rule sinv_upd_other [OF i]) simp_all
  with k' i have "sinv {} k' A" by auto
  moreover have "harmless T M S k A k' A" by (rule harmless_same) (use k' retake(1) in auto)
  moreover have "foreign_ok U k' A" by (rule foreign_ok_kept [OF f \<open>sinv {} k' A\<close>]) (use k' in \<open>auto simp: created_def\<close>)
  ultimately show ?thesis by blast
next
  case (delay t c n)
  obtain k1 A1 where k1: "task_delay_ms c n k = Some k1" "sinv {} k1 A1" "mutexes k1 = mutexes k" "semaphores k1 = semaphores k"
    "\<And>u. u \<noteq> t \<Longrightarrow> undisturbed A A1 u" "\<And>L. \<not> waits A1 L t"
    by (rule task_delay_places [OF i delay(2), of n]) (rule that)
  note sd = task_delay_steady [OF k1(1)]
  have "harmless T M S k A k1 A1"
    by (rule harmless_undisturbed [OF _ _ _ k1(5) delay(1)]) (use sd k1(3,4,6) in \<open>auto simp: steady_def\<close>)
  moreover have "foreign_ok U k1 A1" by (rule foreign_ok_one [OF f k1(2,3) steady_created [OF sd] k1(5,6)])
  ultimately show ?thesis using k1(1,2) delay(3) by auto
next
  case (lock m t c w r)
  then show ?thesis by (intro mutex_step_ok [OF i f])
next
  case (unlock m t c)
  then show ?thesis by (intro mutex_unlock_step_ok [OF i f home])
next
  case (queue q f')
  have s: "mutexes k' = mutexes k" "semaphores k' = semaphores k" "tcb k' = tcb k" by (simp_all add: queue upd_queue_def)
  have "sinv {} k' A" unfolding queue by (rule sinv_upd_queue [OF i])
  moreover from this have "foreign_ok U k' A" by (intro foreign_ok_kept [OF f]) (auto simp: s created_def)
  moreover have "harmless T M S k A k' A" by (rule harmless_same) (simp_all add: s)
  ultimately show ?thesis by blast
qed

interpretation others: environment "other_step T M S U" T M S U for T M S U
  by unfold_locales (rule other_step_ok)

lemma other_step_calm:
  assumes "other_step T M S {} k k'" and i: "sinv {} k A" and home: "at_home T M S A"
  shows "ranks_kept T k k'"
  using assms(1)
proof cases
  case (tick c v)
  define s0 where "s0 = k\<lparr>cntp_cval := (cntp_cval k)(c := v + ucast (clk_freq k c div hz k c)),
                   tick_count := (tick_count k)(c := tick_count k c + 1)\<rparr>"
  have i0: "sinv {} s0 A" by (rule sinv_cong [OF i]) (simp_all add: s0_def)
  obtain s2 where s2: "tick_wake_loop c s0 = Some s2"
     "\<And>u. tcb s2 u = (if StateItem u \<in> set (A (BlockedTaskList c)) \<and> expired s0 c (StateItem u)
                      then (tcb s0 u)\<lparr>current_state := TASK_STATE_READY\<rparr> else tcb s0 u)"
    using tick_wake_loop_sinv [OF i0, of c] by blast
  have "k' = s2" using tick s2(1) by (auto simp: timer_tick_handler_def Let_def s0_def split: if_splits)
  then show ?thesis by (simp add: ranks_kept_def rank_def s2(2) s0_def)
next
  case (switch c)
  obtain k1 where k1: "scheduler_switch_context c k = Some k1"
    "\<And>u. tcb k1 u = (tcb k u)\<lparr>current_state := current_state (tcb k1 u)\<rparr>"
    by (rule switch_context_sinv [OF i switch_watermark [OF switch]]) (rule that)
  have "rank (tcb k1 u) = rank (tcb k u)" "core_id (tcb k1 u) = core_id (tcb k u)" for u
    unfolding rank_def by (subst k1(2), simp)+
  with k1(1) switch show ?thesis by (simp add: ranks_kept_def)
next
  case (give x r)
  from i give(2) show ?thesis
    by (cases rule: semaphore_give_places) (simp_all add: ranks_kept_def rank_def)
next
  case (take x t c w d r)
  note R = can_runD [OF i take(3), simplified]
  let ?E = "SemaphoreBlockedList x"
  have "tcb k' u = tcb k u" if "u \<noteq> t" for u
  proof (cases "r = TakeBlocked")
    case False
    with take(4) have "k' = k \<or> k' = upd_sem x (\<lambda>m. m\<lparr>sem_count := sem_count m - 1\<rparr>) k"
      by (auto simp: semaphore_take_try_def Let_def bind_Some_iff split: if_splits option.splits)
    then show ?thesis by auto
  next
    case True
    have "sem_count (semaphores k x) = 0" "w \<noteq> 0" "\<not> (sint w > 0 \<and> tick_count k c \<ge> d)"
      using take(4) True by (auto simp: semaphore_take_try_def scheduler_get_tick_count_def word_gt_0 split: if_splits)
    note eq = take_try_blocks [OF this]
    obtain k1 where "block_on ?E t (take_wait w d) k = Some k1" "\<And>u. u \<noteq> t \<Longrightarrow> tcb k1 u = tcb k u"
      by (rule sinv_block_on [OF i R(1) _ R(3,4), of ?E "take_wait w d"]) (simp_all add: that)
    then show ?thesis using that take(4) eq by simp
  qed
  with take(2) show ?thesis by (metis ranks_kept_def)
next
  case (retake t r)
  then have "k' = k \<or> k' = upd_tcb t (\<lambda>b. b\<lparr>wakeup_reason := WAKEUP_REASON_NONE\<rparr>) k"
    by (auto simp: semaphore_take_wake_def split: if_splits)
  then show ?thesis by (auto simp: ranks_kept_def rank_def)
next
  case (delay t c n)
  obtain k1 where k1: "task_delay_ms c n k = Some k1" "\<And>u. rank (tcb k1 u) = rank (tcb k u)"
    by (rule task_delay_places [OF i delay(2), of n]) (rule that)
  with task_delay_steady [OF k1(1)] delay(3) show ?thesis by (simp add: ranks_kept_def steady_def)
next
  case (queue q f)
  then show ?thesis by (simp add: ranks_kept_def upd_queue_def)
qed simp_all

interpretation quiet: calm_environment "other_step T M S {}" T M S "{}" for T M S
  by unfold_locales (rule other_step_calm)

end
