(* ===== verification/Lock_Clients.thy ===== *)
theory Lock_Clients
  imports Environment
begin

text \<open>
  Tasks that share one mutex. Whatever such a task does, with respect to the mutex it is in one of four places: outside, inside
  \<open>mutex_lock\<close>, in the section, or delayed outside the section. The lemmas say that every kernel call a client makes in such a place
  is defined, where it leads to, and what it does to the mutex and to the priorities.
\<close>

datatype place = Outside | Entering | Inside | Sleeping

fun place_ok :: "mptr \<Rightarrow> tptr option \<Rightarrow> (lptr \<Rightarrow> iptr list) \<Rightarrow> tptr \<Rightarrow> place \<Rightarrow> bool" where
  "place_ok m own A t Outside = (own \<noteq> Some t \<and> runs A t)"
| "place_ok m own A t Entering = (if own = Some t then runs A t else waits A (MutexBlockedList m) t \<and> \<not> timed A t)"
| "place_ok m own A t Inside = (own = Some t \<and> runs A t)"
| "place_ok m own A t Sleeping = (own \<noteq> Some t \<and> (runs A t \<or> timed A t \<and> (\<forall>L. \<not> waits A L t)))"

definition clients_ok :: "mptr \<Rightarrow> tptr set \<Rightarrow> mptr set \<Rightarrow> kernel \<Rightarrow> (lptr \<Rightarrow> iptr list) \<Rightarrow> (tptr \<Rightarrow> place) \<Rightarrow> bool" where
  "clients_ok m T U k A pl \<longleftrightarrow>
     sinv {} k A \<and> mutex_ok k A m \<and> m \<notin> U \<and> foreign_ok U k A \<and>
     (\<forall>u. mutex_owner (mutexes k m) = Some u \<or> waits A (MutexBlockedList m) u \<longrightarrow> u \<in> T) \<and>
     (\<forall>t\<in>T. place_ok m (mutex_owner (mutexes k m)) A t (pl t))"

lemma clientsD:
  assumes "clients_ok m T U k A pl"
  shows "sinv {} k A" "mutex_ok k A m" "m \<notin> U" "foreign_ok U k A"
    "\<And>u. mutex_owner (mutexes k m) = Some u \<Longrightarrow> u \<in> T" "\<And>u. waits A (MutexBlockedList m) u \<Longrightarrow> u \<in> T"
    "\<And>t. t \<in> T \<Longrightarrow> place_ok m (mutex_owner (mutexes k m)) A t (pl t)"
  using assms by (auto simp: clients_ok_def)

text \<open>A place stays right for a task that is not touched, as long as it keeps or does not get the mutex.\<close>

lemma place_ok_undisturbed:
  "undisturbed A A' t \<Longrightarrow> (own' = Some t) = (own = Some t) \<Longrightarrow> place_ok m own' A' t p = place_ok m own A t p"
  by (cases p) (simp_all add: undisturbed_def)

lemma place_ok_let_alone:
  assumes "sinv {} k A" and "let_alone A A' t" and "place_ok m own A t p" shows "place_ok m own A' t p"
proof (cases "undisturbed A A' t")
  case True
  then show ?thesis using place_ok_undisturbed [of A A' t own own m p] assms(3) by simp
next
  case False
  with assms(2) have l: "timed A t" "runs A' t" "\<not> timed A' t" "\<And>L. \<not> waits A' L t" by (auto simp: let_alone_def)
  have "\<not> runs A t" by (rule not_runs(1) [OF assms(1)]) (use l in blast)
  with l assms(3) show ?thesis by (cases p) (auto split: if_splits)
qed

lemma placed_created: "sinv {} k A \<Longrightarrow> place_ok m own A t p \<Longrightarrow> created k t"
  using runsD(1) not_runs(2) by (cases p) (auto split: if_splits)

lemma inside_owner: "clients_ok m T U k A pl \<Longrightarrow> t \<in> T \<Longrightarrow> pl t = Inside \<Longrightarrow> mutex_owner (mutexes k m) = Some t"
  by (drule (1) clientsD(7)) simp

lemma owner_runs:
  assumes "clients_ok m T U k A pl" and "mutex_owner (mutexes k m) = Some h"
  shows "h \<in> T" "runs A h" "pl h = Inside \<or> pl h = Entering"
proof -
  show h: "h \<in> T" by (rule clientsD(5) [OF assms])
  show "runs A h" "pl h = Inside \<or> pl h = Entering"
    using clientsD(7) [OF assms(1) h] assms(2) by (cases "pl h"; simp)+
qed

lemma waiter_entering:
  assumes "clients_ok m T U k A pl" and "t \<in> T" and "waits A L t"
  shows "L = MutexBlockedList m" "pl t = Entering" "\<not> timed A t"
proof -
  note C = clientsD [OF assms(1)]
  have "\<not> runs A t" by (rule not_runs(1) [OF C(1)]) (use assms(3) in blast)
  with assms(3) C(7) [OF assms(2)] show "pl t = Entering" "\<not> timed A t" by (cases "pl t"; auto split: if_splits)+
  with \<open>\<not> runs A t\<close> C(7) [OF assms(2)] have "waits A (MutexBlockedList m) t" by (auto split: if_splits)
  with assms(3) wfl_disjoint [OF sinvD(1) [OF C(1)], of "EventItem t" L] show "L = MutexBlockedList m" by (auto simp: waits_def)
qed

lemma clients_home: "clients_ok m T U k A pl \<Longrightarrow> at_home T {m} S A"
  using waiter_entering(1) by (fastforce simp: at_home_def own_list_def)

lemma clients_move:
  assumes "clients_ok m T U k A pl" and "place_ok m (mutex_owner (mutexes k m)) A t p"
  shows "clients_ok m T U k A (pl(t := p))"
  using assms by (auto simp: clients_ok_def)

text \<open>Before anybody locks.\<close>

lemma clients_start:
  assumes i: "sinv {} k A" and e: "A (MutexBlockedList m) = []" and r: "\<forall>t\<in>T. runs A t" and m: "m \<notin> U" and f: "foreign_ok U k A"
  shows "clients_ok m T U (mutex_init m k) A (\<lambda>_. Outside)"
proof -
  note init = mutex_init_ok [OF i e]
  have "mutex_owner (mutexes (mutex_init m k) m) = None" by (simp add: mutex_init_def)
  moreover have "foreign_ok U (mutex_init m k) A"
    by (rule foreign_ok_kept [OF f]) (use init m in \<open>auto simp: mutex_init_def created_def\<close>)
  ultimately show ?thesis using init e r m by (simp add: clients_ok_def waits_def)
qed

subsection \<open>Locking\<close>

lemma clients_lock:
  assumes inv: "clients_ok m T U k A pl" and t: "t \<in> T" and cur: "p_task_control_block k c = Some t" and pc: "pl t = Outside"
  obtains (free) k' where "mutex_lock_enter m c (- 1) k = Some (LockReturns E_OK, k')" and "clients_ok m T U k' A (pl(t := Inside))"
      and "mutex_owner (mutexes k m) = None" and "\<And>u. \<not> waits A (MutexBlockedList m) u"
      and "mutexes k' = (mutexes k)(m := (mutexes k m)\<lparr>m_state := MUTEX_STATE_LOCKED, mutex_owner := Some t\<rparr>)"
      and "\<And>u. tcb k' u = (if u = t \<and> inheritance_enabled (mutexes k m)
             then (tcb k u)\<lparr>mutexes_held := mutexes_held (tcb k u) + 1\<rparr> else tcb k u)"
    | (busy) h k' A' where "mutex_lock_enter m c (- 1) k = Some (LockBlocked, k')" and "clients_ok m T U k' A' (pl(t := Entering))"
      and "mutex_owner (mutexes k m) = Some h" and "h \<in> T" and "h \<noteq> t"
      and "mutexes k' = (mutexes k)(m := (mutexes k m)\<lparr>inherited_priority :=
             (if inheritance_enabled (mutexes k m) then passed_on m t k else inherited_priority (mutexes k m))\<rparr>)"
      and "\<And>u. rank (tcb k' u) = (if u = h \<and> lock_boosts m t h k then passed_on m t k else priority (tcb k u), base_priority (tcb k u), mutexes_held (tcb k u))"
      and "steady k k'" and "\<And>u. u \<noteq> t \<Longrightarrow> undisturbed A A' u" and "waits A' (MutexBlockedList m) t"
proof -
  let ?E = "MutexBlockedList m"
  note I = clientsD [OF inv]
  have run: "runs A t" and no: "mutex_owner (mutexes k m) \<noteq> Some t" using I(7) [OF t] pc by simp_all
  have can: "can_run k c t" by (rule runs_can_run [OF I(1) run cur])
  show ?thesis
  proof (cases "m_state (mutexes k m)")
    case MUTEX_STATE_UNLOCKED
    then have fr: "mutex_owner (mutexes k m) = None" "inherited_priority (mutexes k m) < NUM_TASK_PRIORITIES" "A ?E = []"
      using I(2) by (simp_all add: mutex_ok_def)
    obtain k' where k: "mutex_lock_enter m c (- 1) k = Some (LockReturns E_OK, k')" and i: "sinv {} k' A"
      and mk: "mutexes k' = (mutexes k)(m := (mutexes k m)\<lparr>m_state := MUTEX_STATE_LOCKED, mutex_owner := Some t\<rparr>)"
      and tk: "\<And>u. tcb k' u = (if u = t \<and> inheritance_enabled (mutexes k m)
             then (tcb k u)\<lparr>mutexes_held := mutexes_held (tcb k u) + 1\<rparr> else tcb k u)"
      by (rule mutex_lock_free [OF I(1) cur MUTEX_STATE_UNLOCKED]) (rule that)
    have pl: "place_ok m (Some t) A u (pl u)" if "u \<in> T" "u \<noteq> t" for u
      using I(7) [OF that(1)] that(2) fr(1) place_ok_undisturbed [of A A u "Some t" None m "pl u"] by simp
    have f: "foreign_ok U k' A"
      by (rule foreign_ok_mutex [OF I(4) i mk, of t]) (use runsD(4) [OF I(1) run] I(3) in \<open>auto simp: created_def tk\<close>)
    have "mutex_ok k' A m" by (rule owner_created [OF i run]) (use fr(2) in \<open>simp_all add: mk\<close>)
    then have "clients_ok m T U k' A (pl(t := Inside))"
      using i f I(3,6) t run pl by (auto simp: clients_ok_def mk)
    then show ?thesis by (rule free [OF k _ fr(1) _ mk tk]) (simp add: waits_def fr(3))
  next
    case MUTEX_STATE_LOCKED
    then obtain h where h: "mutex_owner (mutexes k m) = Some h" "created k h" and inh: "inherited_priority (mutexes k m) < NUM_TASK_PRIORITIES"
      using I(2) by (auto simp: mutex_ok_def)
    have ht: "h \<noteq> t" using no h by auto
    note H = owner_runs [OF inv h(1)]
    obtain k' A' where k: "mutex_lock_enter m c (- 1) k = Some (LockBlocked, k')" and i: "sinv {} k' A'"
      and other: "\<And>u. u \<noteq> t \<Longrightarrow> undisturbed A A' u"
      and self: "\<And>L. waits A' L t = (L = ?E)" "\<not> timed A' t"
      and mk: "mutexes k' = (mutexes k)(m := (mutexes k m)\<lparr>inherited_priority :=
           (if inheritance_enabled (mutexes k m) then passed_on m t k else inherited_priority (mutexes k m))\<rparr>)"
      and q: "passed_on m t k < NUM_TASK_PRIORITIES"
      and rk: "\<And>u. rank (tcb k' u) = (if u = h \<and> lock_boosts m t h k then passed_on m t k else priority (tcb k u), base_priority (tcb k u), mutexes_held (tcb k u))"
      by (rule mutex_lock_places [OF I(1) can MUTEX_STATE_LOCKED h ht inh, of "- 1"]) (simp_all add: that)
    have sd: "steady k k'" by (rule mutex_lock_enter_steady [OF I(1) can MUTEX_STATE_LOCKED _ k]) simp
    have "runs A' h" using other [OF ht] H(2) by (simp add: undisturbed_def)
    then have ok: "mutex_ok k' A' m" by (intro owner_created [OF i]) (use MUTEX_STATE_LOCKED h q inh in \<open>simp_all add: mk\<close>)
    have f: "foreign_ok U k' A'"
      by (rule foreign_ok_mutex [where t = t, OF I(4) i mk steady_created [OF sd] other]) (use I(3) in \<open>simp_all add: self(1)\<close>)
    have pl: "place_ok m (Some h) A' u (pl u)" if "u \<in> T" "u \<noteq> t" for u
      using I(7) [OF that(1)] place_ok_undisturbed [OF other [OF that(2)], of "Some h" "Some h"] h(1) by simp
    have w: "u \<in> T" if "waits A' ?E u" for u
      using that t I(6) [of u] other [of u] by (cases "u = t") (simp_all add: undisturbed_def)
    have "clients_ok m T U k' A' (pl(t := Entering))"
      using i ok f I(3) w H(1) pl self ht h(1) by (simp add: clients_ok_def mk)
    then show ?thesis by (rule busy [OF k _ h(1) H(1) ht mk rk sd other]) (simp_all add: self(1))
  qed
qed

subsection \<open>Unlocking\<close>

lemma clients_unlock:
  assumes inv: "clients_ok m T U k A pl" and t: "t \<in> T" and pc: "pl t = Inside"
  obtains (free) k' A' where "mutex_unlock m k = Some k'" and "clients_ok m T U k' A' (pl(t := Outside))"
      and "\<And>u. \<not> waits A (MutexBlockedList m) u" and "\<And>u. \<not> waits A' (MutexBlockedList m) u" and "steady k k'"
      and "mutexes k' = (mutexes k)(m := (mutexes k m)\<lparr>mutex_owner := None, m_state := MUTEX_STATE_UNLOCKED, inherited_priority := TASK_PRIORITY_IDLE\<rparr>)"
      and "\<And>u. rank (tcb k' u) = (if u = t \<and> falls_back m t k then base_priority (tcb k u) else priority (tcb k u), base_priority (tcb k u),
             if u = t \<and> inheritance_enabled (mutexes k m) then mutexes_held (tcb k u) - 1 else mutexes_held (tcb k u))"
    | (handoff) n k' A' where "mutex_unlock m k = Some k'" and "clients_ok m T U k' A' (pl(t := Outside))"
      and "waits A (MutexBlockedList m) n" and "n \<in> T" and "n \<noteq> t" and "\<And>u. u \<noteq> n \<Longrightarrow> undisturbed A A' u"
      and "\<not> waits A' (MutexBlockedList m) n" and "steady k k'"
      and "mutexes k' = (mutexes k)(m := (mutexes k m)\<lparr>
             inherited_priority := Max (insert 0 (item_prio k ` (set (A (MutexBlockedList m)) - {EventItem n}))), mutex_owner := Some n\<rparr>)"
      and "\<And>u. rank (tcb k' u) = (if u = t \<and> falls_back m t k then base_priority (tcb k u) else priority (tcb k u), base_priority (tcb k u),
             if inheritance_enabled (mutexes k m)
             then if u = t then mutexes_held (tcb k u) - 1 else if u = n then mutexes_held (tcb k u) + 1 else mutexes_held (tcb k u)
             else mutexes_held (tcb k u))"
proof -
  let ?E = "MutexBlockedList m"
  note I = clientsD [OF inv]
  have own: "mutex_owner (mutexes k m) = Some t" and run: "runs A t" using I(7) [OF t] pc by simp_all
  have l: "m_state (mutexes k m) = MUTEX_STATE_LOCKED"
    using I(2) own by (auto simp: mutex_ok_def split: MutexState.splits)
  note R = runsD [OF I(1) run]
  show ?thesis
  proof (cases "A ?E = []")
    case True
    obtain k' A' where k: "mutex_unlock m k = Some k'" and i: "sinv {} k' A'" and same: "\<And>u. undisturbed A A' u"
      and mk: "mutexes k' = (mutexes k)(m := (mutexes k m)\<lparr>mutex_owner := None, m_state := MUTEX_STATE_UNLOCKED, inherited_priority := TASK_PRIORITY_IDLE\<rparr>)"
      and no: "A' ?E = []"
      and rk: "\<And>u. rank (tcb k' u) = (if u = t \<and> falls_back m t k then base_priority (tcb k u) else priority (tcb k u), base_priority (tcb k u),
             if u = t \<and> inheritance_enabled (mutexes k m) then mutexes_held (tcb k u) - 1 else mutexes_held (tcb k u))"
      by (rule mutex_unlock_free_places [OF I(1) l own R(1) True]) (rule that)
    have sd: "steady k k'" by (rule mutex_unlock_steady [OF k])
    have pl: "place_ok m None A' u (pl u)" if "u \<in> T" "u \<noteq> t" for u
      using I(7) [OF that(1)] place_ok_undisturbed [OF same, of None u "Some t"] own that(2) by simp
    have w: "runs A' t" "\<And>L. \<not> waits A' L t" using same [of t] run R(4) by (simp_all add: undisturbed_def)
    have f: "foreign_ok U k' A'"
      by (rule foreign_ok_mutex [where t = t, OF I(4) i mk steady_created [OF sd] same]) (use w I(3) in simp_all)
    have "mutex_ok k' A' m" using no by (simp add: mutex_ok_def mk task_consts)
    then have "clients_ok m T U k' A' (pl(t := Outside))"
      using i f I(3) w pl no by (simp add: clients_ok_def mk waits_def)
    then show ?thesis by (rule free [OF k _ _ _ sd mk rk]) (simp_all add: waits_def True no)
  next
    case False
    obtain n k' A' where k: "mutex_unlock m k = Some k'" and i: "sinv {} k' A'"
      and n: "waits A ?E n" "n \<noteq> t" and other: "\<And>u. u \<noteq> n \<Longrightarrow> undisturbed A A' u" and rn: "runs A' n"
      and mk: "mutexes k' = (mutexes k)(m := (mutexes k m)\<lparr>
           inherited_priority := Max (insert 0 (item_prio k ` (set (A ?E) - {EventItem n}))), mutex_owner := Some n\<rparr>)"
      and q: "inherited_priority (mutexes k' m) < NUM_TASK_PRIORITIES"
      and rk: "\<And>u. rank (tcb k' u) = (if u = t \<and> falls_back m t k then base_priority (tcb k u) else priority (tcb k u), base_priority (tcb k u),
             if inheritance_enabled (mutexes k m)
             then if u = t then mutexes_held (tcb k u) - 1 else if u = n then mutexes_held (tcb k u) + 1 else mutexes_held (tcb k u)
             else mutexes_held (tcb k u))"
      by (rule mutex_unlock_handoff_places [OF I(1) l own run False]) (rule that)
    have nT: "n \<in> T" by (rule I(6) [OF n(1)])
    have sd: "steady k k'" by (rule mutex_unlock_steady [OF k])
    note wn = runsD(4) [OF i rn]
    have ok: "mutex_ok k' A' m" by (rule owner_created [OF i rn _ _ q]) (simp_all add: mk l)
    have f: "foreign_ok U k' A'"
      by (rule foreign_ok_mutex [where t = n, OF I(4) i mk steady_created [OF sd] other]) (use wn I(3) in simp_all)
    have pl: "place_ok m (Some n) A' u (pl u)" if "u \<in> T" "u \<noteq> t" for u
      using I(7) [OF that(1)] place_ok_undisturbed [OF other, of u "Some n" "Some t"] own that(2) waiter_entering(2) [OF inv nT n(1)] rn
      by (cases "u = n") auto
    have w: "u \<in> T" if "waits A' ?E u" for u
      using that other [of u] wn I(6) by (cases "u = n") (auto simp: undisturbed_def)
    have rt: "runs A' t" using other [of t] n(2) run by (simp add: undisturbed_def)
    have "clients_ok m T U k' A' (pl(t := Outside))"
      using i ok f I(3) w nT pl rt n(2) by (auto simp: clients_ok_def mk)
    then show ?thesis by (rule handoff [OF k _ n(1) nT n(2) other wn sd mk rk])
  qed
qed

subsection \<open>Delays and waking up\<close>

lemma clients_delay:
  assumes inv: "clients_ok m T U k A pl" and t: "t \<in> T" and cur: "p_task_control_block k c = Some t" and pc: "pl t = Outside"
  obtains k' A' where "task_delay_ms c ms k = Some k'" and "clients_ok m T U k' A' (pl(t := Sleeping))"
    and "mutexes k' = mutexes k" and "steady k k'" and "\<And>u. rank (tcb k' u) = rank (tcb k u)"
    and "\<And>u. waits A' (MutexBlockedList m) u = waits A (MutexBlockedList m) u"
proof -
  let ?E = "MutexBlockedList m"
  note I = clientsD [OF inv]
  have run: "runs A t" and no: "mutex_owner (mutexes k m) \<noteq> Some t" using I(7) [OF t] pc by simp_all
  obtain k' A' where k: "task_delay_ms c ms k = Some k'" and i: "sinv {} k' A'" and mk: "mutexes k' = mutexes k"
    and other: "\<And>u. u \<noteq> t \<Longrightarrow> undisturbed A A' u" and self: "timed A' t" "\<And>L. \<not> waits A' L t"
    and rk: "\<And>u. rank (tcb k' u) = rank (tcb k u)"
    by (rule task_delay_places [OF I(1) runs_can_run [OF I(1) run cur], of ms]) (rule that)
  have sd: "steady k k'" by (rule task_delay_steady [OF k])
  have pl: "place_ok m (mutex_owner (mutexes k m)) A' u (pl u)" if "u \<in> T" "u \<noteq> t" for u
    using I(7) [OF that(1)] place_ok_undisturbed [OF other [OF that(2)], of "mutex_owner (mutexes k m)" "mutex_owner (mutexes k m)"]
    by simp
  have w: "waits A' ?E u = waits A ?E u" for u
    using other [of u] self(2) runsD(4) [OF I(1) run] by (cases "u = t") (auto simp: undisturbed_def)
  have cr: "created k' h" if h: "mutex_owner (mutexes k m) = Some h" for h
    by (rule placed_created [OF i pl]) (use I(5) [OF h] h no in auto)
  have ok: "mutex_ok k' A' m" by (rule mutex_ok_kept [OF I(2) i _ _ cr]) (simp_all add: mk w)
  have f: "foreign_ok U k' A'" by (rule foreign_ok_one [OF I(4) i mk steady_created [OF sd] other self(2)])
  have "clients_ok m T U k' A' (pl(t := Sleeping))"
    using i ok f I(3,5,6) pl no self by (auto simp: clients_ok_def mk w)
  then show ?thesis by (rule that [OF k _ mk sd rk w])
qed

text \<open>A client that is not blocked runs, and then it has got what it waited for.\<close>

lemma client_ready:
  assumes inv: "clients_ok m T U k A pl" and t: "t \<in> T" and r: "current_state (tcb k t) \<noteq> TASK_STATE_BLOCKED"
  shows "runs A t"
proof (rule ccontr)
  note I = clientsD [OF inv]
  assume "\<not> runs A t"
  with I(7) [OF t] have "waits A (MutexBlockedList m) t \<or> timed A t" by (cases "pl t") (auto split: if_splits)
  with not_runs(3) [OF I(1)] r show False by blast
qed

lemma clients_entered:
  assumes inv: "clients_ok m T U k A pl" and t: "t \<in> T" and "pl t = Entering" and "current_state (tcb k t) \<noteq> TASK_STATE_BLOCKED"
  shows "clients_ok m T U k A (pl(t := Inside))"
  by (rule clients_move [OF inv])
    (use clientsD(7) [OF inv t] client_ready [OF inv t] not_runs(1) [OF clientsD(1) [OF inv]] assms(3,4) in \<open>auto split: if_splits\<close>)

lemma clients_awoken:
  assumes inv: "clients_ok m T U k A pl" and t: "t \<in> T" and "pl t = Sleeping" and "current_state (tcb k t) \<noteq> TASK_STATE_BLOCKED"
  shows "clients_ok m T U k A (pl(t := Outside))"
  by (rule clients_move [OF inv]) (use clientsD(7) [OF inv t] client_ready [OF inv t] assms(3,4) in auto)

text \<open>A client that is blocked in \<open>mutex_lock\<close> waits for another one, which is ready.\<close>

lemma clients_blocked:
  assumes inv: "clients_ok m T U k A pl" and t: "t \<in> T" and pc: "pl t = Entering" and b: "current_state (tcb k t) = TASK_STATE_BLOCKED"
  obtains h where "waits A (MutexBlockedList m) t" and "mutex_owner (mutexes k m) = Some h" and "h \<noteq> t" and "h \<in> T" and "runs A h"
    and "pl h = Inside \<or> pl h = Entering"
proof -
  note I = clientsD [OF inv]
  have nr: "\<not> runs A t" using runsD(2) [OF I(1), of t] b by auto
  with I(7) [OF t] pc have w: "waits A (MutexBlockedList m) t" "mutex_owner (mutexes k m) \<noteq> Some t" by (auto split: if_splits)
  then obtain h where h: "mutex_owner (mutexes k m) = Some h"
    using I(2) by (auto simp: mutex_ok_def waits_def split: MutexState.splits)
  with w(2) have "h \<noteq> t" by auto
  with w(1) h owner_runs [OF inv h] show ?thesis by (intro that)
qed

subsection \<open>The others\<close>

lemma clients_env:
  assumes inv: "clients_ok m T U k A pl" and i: "sinv {} k' A'" and h: "harmless T {m} S k A k' A'" and f: "foreign_ok U k' A'"
  shows "clients_ok m T U k' A' pl" "mutexes k' m = mutexes k m"
    "t \<in> T \<Longrightarrow> waits A' (MutexBlockedList m) t = waits A (MutexBlockedList m) t"
proof -
  note I = clientsD [OF inv]
  have e: "mutexes k' m = mutexes k m" "\<And>u. u \<in> T \<Longrightarrow> let_alone A A' u"
    "\<And>u. waits A' (MutexBlockedList m) u \<Longrightarrow> waits A (MutexBlockedList m) u"
    using h by (auto simp: harmless_def own_list_def)
  have p: "place_ok m (mutex_owner (mutexes k m)) A' t (pl t)" if "t \<in> T" for t
    by (rule place_ok_let_alone [OF I(1) e(2) [OF that] I(7) [OF that]])
  have "mutex_ok k' A' m"
    by (rule mutex_ok_kept [OF I(2) i e(1,3)]) (use p I(5) placed_created [OF i] in blast)+
  then show "clients_ok m T U k' A' pl" using i p e(1,3) I(3,5,6) f by (simp add: clients_ok_def)
  show "mutexes k' m = mutexes k m" by (rule e(1))
  show "waits A' (MutexBlockedList m) t = waits A (MutexBlockedList m) t" if t: "t \<in> T"
    using e(2) [OF t] e(3) [of t] waiter_entering(3) [OF inv t, of "MutexBlockedList m"] by (auto simp: let_alone_def undisturbed_def)
qed

context environment
begin

lemma clients_step:
  assumes "env k k'" and inv: "clients_ok m T U k A pl" and M: "M = {m}"
  obtains A' where "clients_ok m T U k' A' pl" and "mutexes k' m = mutexes k m"
    and "\<And>t. t \<in> T \<Longrightarrow> waits A' (MutexBlockedList m) t = waits A (MutexBlockedList m) t"
proof -
  obtain A' where "sinv {} k' A'" "harmless T {m} S k A k' A'" "foreign_ok U k' A'"
    using env_step [OF assms(1) clientsD(1) [OF inv]] clients_home [OF inv] clientsD(4) [OF inv] unfolding M by blast
  from clients_env [OF inv this] show ?thesis by (rule that)
qed

end

end
