(* ===== verification/Inheritance_Props.thy ===== *)
theory Inheritance_Props
  imports Task_Places
begin

text \<open>
  What priority inheritance is for: mutex and scheduler together. While a task waits for an inheritance mutex, its owner runs at
  least at the waiter's priority, so nothing less urgent than the waiter gets the owner's core.
\<close>

lemma top_ready_ex:
  assumes "A (ReadyList c p) \<noteq> []" and "p < NUM_TASK_PRIORITIES"
  obtains q where "top_ready A c q" and "p \<le> q"
proof -
  let ?S = "{q. q < NUM_TASK_PRIORITIES \<and> A (ReadyList c q) \<noteq> []}"
  have f: "finite ?S" and p: "p \<in> ?S" using assms by simp_all
  have "Max ?S \<in> ?S" by (rule Max_in [OF f]) (use p in blast)
  moreover have "q \<le> Max ?S" if "q \<in> ?S" for q by (rule Max_ge [OF f that])
  ultimately show ?thesis by (intro that [of "Max ?S"]) (use p in \<open>auto simp: top_ready_def not_le [symmetric]\<close>)
qed

lemma switch_picks_urgent:
  assumes i: "sinv {} s A" and sw: "scheduler_switch_context c s = Some s'" and "A (ReadyList c p) \<noteq> []" and "p < NUM_TASK_PRIORITIES"
  obtains u where "p_task_control_block s' c = Some u" and "p \<le> priority (tcb s' u)"
    and "StateItem u \<in> set (A (ReadyList c (priority (tcb s' u))))"
proof -
  obtain q where top: "top_ready A c q" "p \<le> q" by (rule top_ready_ex [of A c p]) (use assms(3,4) in auto)
  obtain s1 where s1: "scheduler_switch_context c s = Some s1" "sinv {} s1 A"
    and pick: "if \<forall>p<NUM_TASK_PRIORITIES. A (ReadyList c p) = [] then p_task_control_block s1 c = None
         else \<exists>p t. top_ready A c p \<and> idx_after s A c (ReadyList c p) = Some (StateItem t) \<and>
                p_task_control_block s1 c = Some t \<and> current_state (tcb s1 t) = TASK_STATE_RUNNING"
    by (rule switch_context_sinv [OF i switch_watermark [OF sw]]) (rule that)
  from pick top obtain r u where u: "top_ready A c r" "idx_after s A c (ReadyList c r) = Some (StateItem u)"
    "p_task_control_block s1 c = Some u" by (auto simp: top_ready_def split: if_splits)
  have m: "StateItem u \<in> set (A (ReadyList c r))" using idx_after_mem [OF sinvD(4) [OF i], of c r c] u(2) by simp
  then have "priority (tcb s1 u) = r" using typed_ready [OF sinvD(2) [OF s1(2)]] by blast
  with top_ready_unique [OF u(1) top(1)] top(2) u(3) s1(1) sw show ?thesis by (intro that [of u]) (use m in simp_all)
qed

text \<open>As long as the lists do not change, every context switch picks a task of the top ready list.\<close>

lemma switches_top:
  assumes "sinv {} s A" and "intact s" and top: "top_ready A c p"
  shows "\<exists>s' u. switches c (Suc n) s = Some s' \<and> p_task_control_block s' c = Some u \<and> StateItem u \<in> set (A (ReadyList c p)) \<and>
     (\<forall>v. priority (tcb s' v) = priority (tcb s v))"
  using assms(1,2)
proof (induction n arbitrary: s)
  case (0 s)
  obtain s' where s': "scheduler_switch_context c s = Some s'" "sinv {} s' A"
    and frame: "\<And>u. tcb s' u = (tcb s u)\<lparr>current_state := current_state (tcb s' u)\<rparr>"
    and pick: "if \<forall>p<NUM_TASK_PRIORITIES. A (ReadyList c p) = [] then p_task_control_block s' c = None
         else \<exists>p t. top_ready A c p \<and> idx_after s A c (ReadyList c p) = Some (StateItem t) \<and>
                p_task_control_block s' c = Some t \<and> current_state (tcb s' t) = TASK_STATE_RUNNING"
    by (rule switch_context_sinv [OF 0(1) intact_watermark [OF 0]]) (rule that)
  from pick top obtain q u where u: "top_ready A c q" "idx_after s A c (ReadyList c q) = Some (StateItem u)"
    "p_task_control_block s' c = Some u" by (auto simp: top_ready_def split: if_splits)
  have "StateItem u \<in> set (A (ReadyList c p))"
    using idx_after_mem [OF sinvD(4) [OF 0(1)], of c q c] u(2) top_ready_unique [OF u(1) top] by auto
  moreover have "priority (tcb s' v) = priority (tcb s v)" for v by (subst frame, simp)
  ultimately show ?case using s'(1) u(3) by simp
next
  case (Suc n s)
  obtain s1 where s1: "scheduler_switch_context c s = Some s1" "sinv {} s1 A" "stack_mem s1 = stack_mem s"
    and frame: "\<And>u. tcb s1 u = (tcb s u)\<lparr>current_state := current_state (tcb s1 u)\<rparr>"
    by (rule switch_context_sinv [OF Suc.prems(1) intact_watermark [OF Suc.prems]]) (rule that)
  have fr: "stack_base (tcb s1 v) = stack_base (tcb s v)" "priority (tcb s1 v) = priority (tcb s v)" for v by (subst frame, simp)+
  have "intact s1" by (rule intact_cong [OF Suc.prems(2) s1(3) fr(1)])
  from Suc.IH [OF s1(2) this] show ?case by (simp add: s1(1) fr(2))
qed

text \<open>Claim C37 (safety). No priority inversion. Take a state that satisfies the kernel invariant, with intact stacks, in which a running task is about to
  call \<open>mutex_lock\<close>, with a timeout other than 0, on a locked inheritance mutex whose owner is another task that is ready, not asleep. The call blocks the
  task. Over the consecutive context switches of the owner's core that follow, with nothing that changes the ready lists in between, each runs a task at
  least as urgent as the waiter, and the owner itself unless another ready task of that core was that urgent already. When the owner sleeps
  or blocks elsewhere nothing is claimed.\<close>

theorem no_priority_inversion:
  assumes "sinv {} s A" and "intact s" and "can_run s c t" and "m_state (mutexes s m) = MUTEX_STATE_LOCKED"
    and "mutex_owner (mutexes s m) = Some h" and "runs A h" and "h \<noteq> t" and "inheritance_enabled (mutexes s m)"
    and "inherited_priority (mutexes s m) < NUM_TASK_PRIORITIES" and "timeout_ms \<noteq> 0"
  shows "\<exists>s1 s2 u. mutex_lock_enter m c timeout_ms s = Some (LockBlocked, s1) \<and>
    switches (core_id (tcb s h)) (Suc n) s1 = Some s2 \<and> p_task_control_block s2 (core_id (tcb s h)) = Some u \<and>
    priority (tcb s t) \<le> priority (tcb s2 u) \<and>
    ((\<forall>v. runs A v \<and> core_id (tcb s v) = core_id (tcb s h) \<and> priority (tcb s t) \<le> priority (tcb s v) \<longrightarrow> v = t \<or> v = h) \<longrightarrow> u = h)"
proof -
  let ?d = "core_id (tcb s h)"
  note R = runsD [OF assms(1,6)]
  obtain s1 A' where s1: "mutex_lock_enter m c timeout_ms s = Some (LockBlocked, s1)" and i1: "sinv {} s1 A'"
    and other: "\<And>u. u \<noteq> t \<Longrightarrow> undisturbed A A' u" and self: "\<not> runs A' t"
    and ph: "priority (tcb s1 h) = (if lock_boosts m t h s then passed_on m t s else priority (tcb s h))"
    and fr: "\<And>u. u \<noteq> t \<Longrightarrow> u \<noteq> h \<Longrightarrow> tcb s1 u = tcb s u"
    by (rule mutex_lock_places [OF assms(1,3,4,5) R(1) assms(7,9,10)]) (rule that)
  have st: "stack_mem s1 = stack_mem s" "\<And>u. stack_base (tcb s1 u) = stack_base (tcb s u)" "\<And>u. core_id (tcb s1 u) = core_id (tcb s u)"
    using mutex_lock_enter_steady [OF assms(1,3,4,10) s1] by (simp_all add: steady_def)
  have in1: "intact s1" by (rule intact_cong [OF assms(2) st(1,2)])
  have r1: "runs A' h" using other [OF assms(7)] assms(6) by (simp add: undisturbed_def)
  note R1 = runsD [OF i1 r1]
  have mem: "StateItem h \<in> set (A' (ReadyList ?d (priority (tcb s1 h))))" using R1(5) st(3) by (simp add: ready_list_of_def)
  have le: "priority (tcb s t) \<le> priority (tcb s1 h)" using assms(8) by (auto simp: ph lock_boosts_def passed_on_def)
  obtain p where p: "top_ready A' ?d p" "priority (tcb s1 h) \<le> p"
    by (rule top_ready_ex [of A' ?d "priority (tcb s1 h)"]) (use mem tcbs_okD(3) [OF sinvD(5) [OF i1] R1(1)] in auto)
  obtain s2 u where s2: "switches ?d (Suc n) s1 = Some s2" "p_task_control_block s2 ?d = Some u"
    "StateItem u \<in> set (A' (ReadyList ?d p))" "\<And>v. priority (tcb s2 v) = priority (tcb s1 v)"
    using switches_top [OF i1 in1 p(1), of n] by blast
  have u: "priority (tcb s1 u) = p" "core_id (tcb s1 u) = ?d" using typed_ready [OF sinvD(2) [OF i1] s2(3)] by auto
  have ru: "runs A' u" using s2(3) by (auto simp: runs_def)
  have ut: "u \<noteq> t" using ru self by auto
  have "u = h" if only: "\<forall>v. runs A v \<and> core_id (tcb s v) = ?d \<and> priority (tcb s t) \<le> priority (tcb s v) \<longrightarrow> v = t \<or> v = h"
  proof (rule ccontr)
    assume "u \<noteq> h"
    then have "tcb s1 u = tcb s u" "runs A u" using fr ut other [OF ut] ru by (simp_all add: undisturbed_def)
    with only u p(2) le ut \<open>u \<noteq> h\<close> show False by auto
  qed
  moreover have "priority (tcb s t) \<le> priority (tcb s2 u)" using s2(4) u(1) p(2) le by simp
  ultimately show ?thesis using s1 s2(1,2) by blast
qed

text \<open>On core 2 the first task holds the mutex and the second, more urgent, is about to lock it.\<close>

definition demo_urgent :: kernel where
  "demo_urgent = scheduler_change_task_priority (TcbPool 2 (Suc 0)) 4
     (upd_mutex 0 (\<lambda>m. m\<lparr>inheritance_enabled := True\<rparr>) demo_locked)"

lemma demo_urgent_facts:
  obtains A where "sinv {} demo_urgent A" and "intact demo_urgent" and "can_run demo_urgent 2 (TcbPool 2 (Suc 0))"
    and "m_state (mutexes demo_urgent 0) = MUTEX_STATE_LOCKED" and "mutex_owner (mutexes demo_urgent 0) = Some (TcbPool 2 0)"
    and "runs A (TcbPool 2 0)" and "inheritance_enabled (mutexes demo_urgent 0)"
    and "inherited_priority (mutexes demo_urgent 0) = 0" and "core_id (tcb demo_urgent (TcbPool 2 0)) = 2"
    and "priority (tcb demo_urgent (TcbPool 2 (Suc 0))) = 4"
proof -
  let ?t = "TcbPool 2 (Suc 0)" and ?h = "TcbPool 2 0"
  let ?s = "upd_mutex 0 (\<lambda>m. m\<lparr>inheritance_enabled := True\<rparr>) demo_locked"
  note L = demo_locked_facts
  have i: "sinv {} ?s demo_lists" by (rule sinv_upd_mutex [OF L(1)])
  have run: "runs demo_lists ?t" "runs demo_lists ?h" by (auto simp: runs_def demo_lists_def)
  have cr: "created ?s ?t" by (rule runsD(1) [OF i run(1)])
  note C = change_priority_sinv [OF i cr synced_cong_X [OF i cr], of 4, simplified, folded demo_urgent_def]
  have "undisturbed demo_lists (reprioritised ?s ?t 4 demo_lists) ?h" by (rule reprioritised_places [OF i cr])
  then have rh: "runs (reprioritised ?s ?t 4 demo_lists) ?h" using run(2) by (simp add: undisturbed_def)
  have st: "steady ?s demo_urgent" unfolding demo_urgent_def by (rule steady_change_priority)
  have "intact ?s" by (rule intact_cong [OF L(9)]) simp_all
  then have "intact demo_urgent" by (rule intact_cong) (use st in \<open>simp_all add: steady_def\<close>)
  moreover have "core_id (tcb demo_urgent ?h) = 2"
    using tcbs_okD(2) [OF sinvD(5) [OF i] runsD(1) [OF i run(2)]] st by (simp add: steady_def)
  ultimately show ?thesis
    using C L(2-5) rh by (intro that [of "reprioritised ?s ?t 4 demo_lists"]) (simp_all add: task_consts can_run_def)
qed

theorem no_priority_inversion_witness:
  "\<exists>s1 s2 u. mutex_lock_enter 0 2 (- 1) demo_urgent = Some (LockBlocked, s1) \<and> switches 2 (Suc 5) s1 = Some s2 \<and>
     p_task_control_block s2 2 = Some u \<and> 4 \<le> priority (tcb s2 u)"
proof (rule demo_urgent_facts)
  fix A
  assume a: "sinv {} demo_urgent A" "intact demo_urgent" "can_run demo_urgent 2 (TcbPool 2 (Suc 0))"
    "m_state (mutexes demo_urgent 0) = MUTEX_STATE_LOCKED" "mutex_owner (mutexes demo_urgent 0) = Some (TcbPool 2 0)"
    "runs A (TcbPool 2 0)" "inheritance_enabled (mutexes demo_urgent 0)" "inherited_priority (mutexes demo_urgent 0) = 0"
    and c: "core_id (tcb demo_urgent (TcbPool 2 0)) = 2" "priority (tcb demo_urgent (TcbPool 2 (Suc 0))) = 4"
  show ?thesis
    using no_priority_inversion [OF a(1-6) _ a(7), of "- 1" 5] a(8) c by (auto simp: task_consts)
qed

end
