(* ===== verification/Task_Boot.thy ===== *)
theory Task_Boot
  imports Inheritance_Props
begin

text \<open>Several \<open>task_create\<close> calls in a row, as every start-up function makes them: what the kernel looks like afterwards.\<close>

fun create_all :: "u32 \<Rightarrow> core \<Rightarrow> (u32 \<times> u16 \<times> TaskPriorityLevel) list \<Rightarrow> kernel \<Rightarrow> kernel" where
  "create_all trap c [] s = s"
| "create_all trap c ((f, d, p) # ts) s = create_all trap c ts (snd (snd (task_create trap c f d p 0 s)))"

fun stack_total :: "(u32 \<times> u16 \<times> TaskPriorityLevel) list \<Rightarrow> nat" where
  "stack_total [] = 0"
| "stack_total ((f, d, p) # ts) = unat d + stack_total ts"

text \<open>Core \<open>c\<close> has room for \<open>ts\<close>.\<close>

definition has_room :: "core \<Rightarrow> (u32 \<times> u16 \<times> TaskPriorityLevel) list \<Rightarrow> kernel \<Rightarrow> bool" where
  "has_room c ts s \<longleftrightarrow> c < COMPANION_CORE_MAX_CORES \<and> unat (task_counter s c) + length ts \<le> MAX_NUM_TASKS \<and>
     unat (heap_offset s) + 4 * stack_total ts \<le> unat HEAP_SIZE_BYTES \<and> (\<forall>(f, d, p)\<in>set ts. 16 < unat d)"

definition system_ok :: "kernel \<Rightarrow> (lptr \<Rightarrow> iptr list) \<Rightarrow> bool" where
  "system_ok s A \<longleftrightarrow> sinv {} s A \<and> tinv s \<and> intact s \<and>
     (\<forall>d b. stack_base (tcb s (IdleTcb d)) = Some b \<longrightarrow> fst b = IdleStack d)"

definition nth_task :: "core \<Rightarrow> kernel \<Rightarrow> nat \<Rightarrow> tptr" where
  "nth_task c s i = TcbPool c (unat (task_counter s c) + i)"

text \<open>Task \<open>t\<close> has the stack frame that enters \<open>f\<close> and returns to \<open>trap\<close>, inside the allocated part of the heap.\<close>

definition starts_at :: "u32 \<Rightarrow> kernel \<Rightarrow> tptr \<Rightarrow> u32 \<Rightarrow> bool" where
  "starts_at trap s t f \<longleftrightarrow> created s t \<and> fst (current_sp (tcb s t)) = HeapWords \<and>
     snd (current_sp (tcb s t)) + 16 \<le> int (unat (heap_offset s)) div 4 \<and>
     map (\<lambda>i. stack_mem s (HeapWords, snd (current_sp (tcb s t)) + int i)) [0..<16] = [0] @ replicate 12 0 @ [trap, f, 0x13]"

lemma starts_at_keep:
  assumes "starts_at trap s t f" and "created s' t" and "current_sp (tcb s' t) = current_sp (tcb s t)"
    and "unat (heap_offset s) \<le> unat (heap_offset s')" and "\<And>j. j < int (unat (heap_offset s)) div 4 \<Longrightarrow> stack_mem s' (HeapWords, j) = stack_mem s (HeapWords, j)"
  shows "starts_at trap s' t f"
proof -
  let ?p = "snd (current_sp (tcb s t))"
  have p: "?p + 16 \<le> int (unat (heap_offset s)) div 4" using assms(1) by (simp add: starts_at_def)
  have "map (\<lambda>i. stack_mem s' (HeapWords, ?p + int i)) [0..<16] = map (\<lambda>i. stack_mem s (HeapWords, ?p + int i)) [0..<16]"
    using p by (intro map_cong refl assms(5)) (auto simp del: of_nat_unat)
  moreover have "int (unat (heap_offset s)) div 4 \<le> int (unat (heap_offset s')) div 4" using assms(4) by (intro zdiv_mono1) (simp_all del: of_nat_unat)
  then have "?p + 16 \<le> int (unat (heap_offset s')) div 4" using p by linarith
  ultimately show ?thesis using assms(1-3) unfolding starts_at_def by (simp only:)
qed

definition tasks_added :: "u32 \<Rightarrow> core \<Rightarrow> (u32 \<times> u16 \<times> TaskPriorityLevel) list \<Rightarrow> kernel \<Rightarrow> (lptr \<Rightarrow> iptr list) \<Rightarrow> kernel \<Rightarrow> (lptr \<Rightarrow> iptr list) \<Rightarrow> bool" where
  "tasks_added trap c ts s A s' A' \<longleftrightarrow> system_ok s' A' \<and>
     (\<forall>i<length ts. runs A' (nth_task c s i) \<and> created s' (nth_task c s i) \<and>
        rank (tcb s' (nth_task c s i)) = (clamp_prio (snd (snd (ts ! i))), clamp_prio (snd (snd (ts ! i))), 0) \<and>
        starts_at trap s' (nth_task c s i) (fst (ts ! i))) \<and>
     (\<forall>j < int (unat (heap_offset s)) div 4. stack_mem s' (HeapWords, j) = stack_mem s (HeapWords, j)) \<and>
     (\<forall>u. created s u \<longrightarrow> created s' u \<and> tcb s' u = tcb s u) \<and> (\<forall>u. runs A u \<longrightarrow> runs A' u) \<and>
     (\<forall>u. created s' u \<longrightarrow> created s u \<or> (\<exists>i<length ts. u = nth_task c s i)) \<and>
     (\<forall>L. (\<forall>q. L \<noteq> ReadyList c q) \<longrightarrow> A' L = A L) \<and>
     p_task_control_block s' = p_task_control_block s \<and> mutexes s' = mutexes s \<and> semaphores s' = semaphores s \<and>
     unat (task_counter s' c) = unat (task_counter s c) + length ts \<and> (\<forall>d. d \<noteq> c \<longrightarrow> task_counter s' d = task_counter s d) \<and>
     unat (heap_offset s') = unat (heap_offset s) + 4 * stack_total ts"

lemma task_create_one:
  assumes ok: "system_ok s A" and room: "has_room c ((f, d, p) # ts) s"
  obtains s' A' where "snd (snd (task_create trap c f d p 0 s)) = s'" and "fst (task_create trap c f d p 0 s) = E_OK"
    and "tasks_added trap c [(f, d, p)] s A s' A'" and "has_room c ts s'" and "\<not> created s (nth_task c s 0)"
proof -
  have i: "sinv {} s A" and ti: "tinv s" and it: "intact s" using ok by (simp_all add: system_ok_def)
  have c: "c < COMPANION_CORE_MAX_CORES" and n: "unat (task_counter s c) \<noteq> MAX_NUM_TASKS"
    and h: "unat (heap_offset s) + 4 * unat d \<le> unat HEAP_SIZE_BYTES" and d: "16 < unat d"
    using room by (auto simp: has_room_def)
  let ?t = "nth_task c s 0" and ?q = "clamp_prio p" and ?base = "int (unat (heap_offset s)) div 4"
  have t: "?t = TcbPool c (unat (task_counter s c))" by (simp add: nth_task_def)
  obtain s' where s': "task_create trap c f d p 0 s = (E_OK, Some ?t, s')" "\<not> created s ?t"
    "sinv ({} - {?t}) s' (A(ReadyList c ?q := A (ReadyList c ?q) @ [StateItem ?t]))" (is "sinv _ s' ?A")
    "tinv s'" "\<And>u. created s' u \<longleftrightarrow> created s u \<or> u = ?t" "\<And>u. u \<noteq> ?t \<Longrightarrow> tcb s' u = tcb s u"
    "priority (tcb s' ?t) = ?q" "base_priority (tcb s' ?t) = ?q" "mutexes_held (tcb s' ?t) = 0"
    "p_task_control_block s' = p_task_control_block s" "mutexes s' = mutexes s" "semaphores s' = semaphores s"
    "task_counter s' = (task_counter s)(c := task_counter s c + 1)"
    "heap_offset s' = of_nat (unat (heap_offset s) + 4 * unat d)"
    and sp: "current_sp (tcb s' ?t) = (HeapWords, ?base + int (unat d) - 16)"
    and m: "stack_mem s' = snd (task_init_stack trap (HeapWords, ?base + int (unat d) - 1) f 0
                          (fill_words (HeapWords, ?base) (unat d) TASK_WATERMARK (stack_mem s)))"
    by (rule task_create_ok [OF i ti c n h, of trap f p 0, folded t]) (rule that)
  have "intact s'" using task_create_intact [OF i ti c it n h d, of trap f p 0] s'(1) by simp
  then have ok': "system_ok s' ?A" using s'(3,4,6) ok by (simp add: system_ok_def t)
  have cnt: "unat (task_counter s' c) = unat (task_counter s c) + 1"
    using tinvD(2) [OF ti, of c] n by (simp add: s'(13) unat_word_ariths task_consts)
  have hp: "unat (heap_offset s') = unat (heap_offset s) + 4 * unat d"
    using h by (simp add: s'(14) unat_of_nat HEAP_SIZE_BYTES_def del: of_nat_add)
  let ?I = "task_init_stack trap (HeapWords, ?base + int (unat d) - 1) f 0
              (fill_words (HeapWords, ?base) (unat d) TASK_WATERMARK (stack_mem s))"
  note F = task_init_stack_frame [OF surjective_pairing [of ?I]]
  have I: "fst ?I = (HeapWords, ?base + int (unat d) - 16)" using F(1) by simp
  have old: "stack_mem s' (HeapWords, j) = stack_mem s (HeapWords, j)" if "j < ?base" for j
    using F(3) [of HeapWords j] that d unfolding m I by (simp add: fill_words_def del: of_nat_unat)
  have dv: "4 dvd unat (heap_offset s)" using tinvD(1) [OF ti] by (simp add: heap_inv_def)
  then have "int (unat (heap_offset s')) div 4 = ?base + int (unat d)" unfolding hp by (auto elim!: dvdE)
  moreover have "map (\<lambda>i. stack_mem s' (HeapWords, snd (current_sp (tcb s' ?t)) + int i)) [0..<16] = [0] @ replicate 12 0 @ [trap, f, 0x13]"
    using F(2) unfolding m sp I by (simp only: fst_conv snd_conv)
  ultimately have start: "starts_at trap s' ?t f" using s'(5) sp unfolding starts_at_def by simp
  have "x \<in> set (A L) \<Longrightarrow> x \<in> set (?A L)" for x L by auto
  then have ro: "runs A u \<Longrightarrow> runs ?A u" for u unfolding runs_def by blast
  have rt: "runs ?A ?t" by (auto simp: runs_def)
  have keep: "created s u \<Longrightarrow> tcb s' u = tcb s u" for u using s'(2,6) by metis
  have "tasks_added trap c [(f, d, p)] s A s' ?A"
    unfolding tasks_added_def using ok' rt ro keep s'(5,7-13) cnt hp start old by (auto simp: rank_def nth_task_def)
  moreover have "has_room c ts s'" using room cnt hp by (auto simp: has_room_def)
  ultimately show ?thesis using s'(1,2) by (intro that) simp_all
qed

lemma tasks_added_step:
  assumes "tasks_added trap c [x] s A s1 A1" and "tasks_added trap c ts s1 A1 s' A'"
  shows "tasks_added trap c (x # ts) s A s' A'"
proof -
  have h: "unat (heap_offset s) \<le> unat (heap_offset s1)" "unat (heap_offset s1) \<le> unat (heap_offset s')"
    using assms by (simp_all add: tasks_added_def)
  have hd: "int (unat (heap_offset s)) div 4 \<le> int (unat (heap_offset s1)) div 4" using h(1) by (intro zdiv_mono1) (simp_all del: of_nat_unat)
  have m: "j < int (unat (heap_offset s)) div 4 \<Longrightarrow> stack_mem s' (HeapWords, j) = stack_mem s (HeapWords, j)" for j
    using assms hd by (auto simp: tasks_added_def simp del: of_nat_unat)
  have st: "starts_at trap s' u f" if "starts_at trap s1 u f" for u f
    by (rule starts_at_keep [OF that _ _ h(2)]) (use assms(2) that in \<open>auto simp: tasks_added_def starts_at_def simp del: of_nat_unat\<close>)
  have cnt: "unat (task_counter s1 c) = Suc (unat (task_counter s c))" using assms(1) by (simp add: tasks_added_def)
  then have n: "nth_task c s (Suc i) = nth_task c s1 i" for i by (simp add: nth_task_def)
  have 0: "runs A1 (nth_task c s 0)" "created s1 (nth_task c s 0)"
    "rank (tcb s1 (nth_task c s 0)) = (clamp_prio (snd (snd x)), clamp_prio (snd (snd x)), 0)" "starts_at trap s1 (nth_task c s 0) (fst x)"
    using assms(1) by (simp_all add: tasks_added_def)
  have "runs A' (nth_task c s i) \<and> created s' (nth_task c s i) \<and>
     rank (tcb s' (nth_task c s i)) = (clamp_prio (snd (snd ((x # ts) ! i))), clamp_prio (snd (snd ((x # ts) ! i))), 0) \<and>
     starts_at trap s' (nth_task c s i) (fst ((x # ts) ! i))"
    if "i < length (x # ts)" for i
  proof (cases i)
    case 0
    with \<open>runs A1 _\<close> \<open>created s1 _\<close> \<open>rank (tcb s1 _) = _\<close> st [OF \<open>starts_at trap s1 _ _\<close>] assms(2) show ?thesis by (simp add: tasks_added_def)
  next
    case (Suc j)
    with assms(2) that show ?thesis by (simp add: tasks_added_def n)
  qed
  moreover note m
  moreover have "created s u \<or> (\<exists>i<length (x # ts). u = nth_task c s i)" if "created s' u" for u
  proof (cases "created s1 u")
    case True
    with assms(1) show ?thesis by (auto simp: tasks_added_def)
  next
    case False
    with assms(2) that obtain i where "i < length ts" "u = nth_task c s (Suc i)" by (auto simp: tasks_added_def n)
    then show ?thesis by (intro disjI2 exI [of _ "Suc i"]) simp
  qed
  moreover have "stack_total (x # ts) = stack_total [x] + stack_total ts" by (cases x) simp
  moreover have "\<forall>u. (runs A u \<longrightarrow> runs A' u) \<and> (created s u \<longrightarrow> created s' u \<and> tcb s' u = tcb s u)"
    "\<forall>L. (\<forall>q. L \<noteq> ReadyList c q) \<longrightarrow> A' L = A L" using assms by (simp_all add: tasks_added_def)
  ultimately show ?thesis using assms unfolding tasks_added_def [of trap c "x # ts"] by (simp add: tasks_added_def cnt)
qed

lemma create_all_ok:
  "system_ok s A \<Longrightarrow> has_room c ts s \<Longrightarrow> \<exists>A'. tasks_added trap c ts s A (create_all trap c ts s) A'"
proof (induction ts arbitrary: s A)
  case Nil
  then show ?case by (auto simp: tasks_added_def)
next
  case (Cons x ts)
  obtain f d p where x: "x = (f, d, p)" by (cases x)
  obtain s1 A1 where s1: "snd (snd (task_create trap c f d p 0 s)) = s1" "tasks_added trap c [(f, d, p)] s A s1 A1" "has_room c ts s1"
    by (rule task_create_one [OF Cons.prems(1) Cons.prems(2) [unfolded x], of trap]) (rule that)
  have "system_ok s1 A1" using s1(2) by (simp add: tasks_added_def)
  from Cons.IH [OF this s1(3)] obtain A' where "tasks_added trap c ts s1 A1 (create_all trap c ts s1) A'" by blast
  with tasks_added_step [OF s1(2)] show ?case by (auto simp: x s1(1))
qed

subsection \<open>Starting a core\<close>

lemma scheduler_init_ok:
  assumes ok: "system_ok s A" and c: "c < COMPANION_CORE_MAX_CORES" and idle: "idle_core c s"
  obtains s' where "scheduler_init f dfu c (Some clk) h True s = (if c = 0 then dfu s' else Some (E_OK, s'))"
    and "system_ok s' (A(ReadyList c TASK_PRIORITY_IDLE := [StateItem (IdleTcb c)]))"
    and "\<And>u. created s' u \<longleftrightarrow> created s u \<or> u = IdleTcb c" and "\<And>u. u \<noteq> IdleTcb c \<Longrightarrow> tcb s' u = tcb s u"
    and "p_task_control_block s' = p_task_control_block s" and "task_counter s' = task_counter s" and "heap_offset s' = heap_offset s"
    and "mutexes s' = mutexes s" and "semaphores s' = semaphores s" and "\<And>j. stack_mem s' (HeapWords, j) = stack_mem s (HeapWords, j)"
proof -
  have i: "sinv {} s A" and ti: "tinv s" and it: "intact s"
    and hm: "\<And>d b. stack_base (tcb s (IdleTcb d)) = Some b \<Longrightarrow> fst b = IdleStack d" using ok unfolding system_ok_def by blast+
  obtain s' where s': "scheduler_init f dfu c (Some clk) h True s = (if c = 0 then dfu s' else Some (E_OK, s'))"
    "sinv {} s' (A(ReadyList c TASK_PRIORITY_IDLE := [StateItem (IdleTcb c)]))"
    "\<And>t. created s' t \<longleftrightarrow> created s t \<or> t = IdleTcb c"
    "stack_mem s' (IdleStack c, 0) = TASK_WATERMARK" "stack_base (tcb s' (IdleTcb c)) = Some (IdleStack c, 0)"
    "p_task_control_block s' = p_task_control_block s" "heap_offset s' = heap_offset s" "task_counter s' = task_counter s"
    "\<And>u. u \<noteq> IdleTcb c \<Longrightarrow> tcb s' u = tcb s u" "mutexes s' = mutexes s" "semaphores s' = semaphores s"
    "\<And>q. fst q \<noteq> IdleStack c \<Longrightarrow> stack_mem s' q = stack_mem s q"
    by (rule scheduler_init_sinv [OF i c idle, of f dfu clk h]) (rule that)
  have pool: "pool_tcb t \<Longrightarrow> tcb s' t = tcb s t" for t by (rule s'(9)) auto
  have sb: "stack_base (tcb s' t) = Some b \<Longrightarrow>
      if pool_tcb t then fst b = HeapWords \<and> snd b \<le> int (unat (heap_offset s')) div 4 else fst b \<noteq> HeapWords" for t b
    using tinvD(6) [OF ti, of t b] s'(5,7,9) by (cases "t = IdleTcb c") auto
  have "tinv s'"
    unfolding tinv_def
  proof (intro conjI allI impI)
    show "heap_inv s'" using tinvD(1) [OF ti] by (simp add: heap_inv_def s'(7))
    show "unat (task_counter s' d) \<le> MAX_NUM_TASKS" for d using tinvD(2) [OF ti] by (simp add: s'(8))
    show "j < unat (task_counter s' d)" if "created s' (TcbPool d j)" for d j
      using tinvD(3) [OF ti, of d j] that by (simp add: s'(3,8))
    show "stack_words (tcb s' t) \<subseteq> {0 ..< int (unat (heap_offset s')) div 4}" if "pool_tcb t" for t
      using tinvD(4) [OF ti that] by (simp add: pool [OF that] s'(7))
    show "stack_words (tcb s' t) \<inter> stack_words (tcb s' u) = {}" if "pool_tcb t \<and> pool_tcb u \<and> t \<noteq> u" for t u
      using tinvD(5) [OF ti, of t u] that by (simp add: pool)
  qed (rule sb)
  moreover have "\<not> stack_overflowed t s'" if cr: "created s' t" for t
  proof (cases "t = IdleTcb c")
    case True
    then show ?thesis using s'(4,5) by (simp add: stack_overflowed_def)
  next
    case False
    then have "created s t" "tcb s' t = tcb s t" using cr s'(3,9) by auto
    moreover have "fst b \<noteq> IdleStack c" if b: "stack_base (tcb s t) = Some b" for b
      using tinvD(6) [OF ti b] hm False b by (cases t) auto
    ultimately show ?thesis using it s'(12) by (auto simp: intact_def stack_overflowed_def split: option.splits)
  qed
  moreover have "fst b = IdleStack d" if "stack_base (tcb s' (IdleTcb d)) = Some b" for d b
    using that s'(5) s'(9) [of "IdleTcb d"] hm [of d b] by (cases "d = c") auto
  ultimately have "system_ok s' (A(ReadyList c TASK_PRIORITY_IDLE := [StateItem (IdleTcb c)]))"
    using s'(2) unfolding system_ok_def intact_def by blast
  then show ?thesis using s' by (intro that [of s']) simp_all
qed

text \<open>\<open>scheduler_start\<close> runs the most urgent task.\<close>

lemma tinv_cong:
  assumes "tinv s" and "heap_offset s' = heap_offset s" and "task_counter s' = task_counter s"
    and "\<And>t. \<exists>st. tcb s' t = (tcb s t)\<lparr>current_state := st\<rparr>"
  shows "tinv s'"
proof -
  have eq: "stack_base (tcb s' t) = stack_base (tcb s t) \<and> stack_words (tcb s' t) = stack_words (tcb s t)" for t
  proof -
    obtain st where "tcb s' t = (tcb s t)\<lparr>current_state := st\<rparr>" using assms(4) by blast
    then show ?thesis by (simp add: stack_words_def split: option.split)
  qed
  show ?thesis using assms(1)
    unfolding tinv_def heap_inv_def created_def assms(2,3) eq [THEN conjunct1] eq [THEN conjunct2] .
qed

lemma switch_context_counters:
  "scheduler_switch_context c s = Some s' \<Longrightarrow> task_counter s' = task_counter s \<and> heap_offset s' = heap_offset s"
  by (auto simp: scheduler_switch_context_def retire_current_def Let_def bind_Some_iff split: if_splits option.splits)

lemma scheduler_start_ok:
  assumes ok: "system_ok s A" and r: "A (ReadyList c p) \<noteq> []" "p < NUM_TASK_PRIORITIES"
  obtains s' u where "scheduler_start c s = Some (E_OK, s')" and "system_ok s' A" and "p_task_control_block s' c = Some u"
    and "p \<le> priority (tcb s' u)" and "StateItem u \<in> set (A (ReadyList c (priority (tcb s' u))))"
    and "\<And>d. d \<noteq> c \<Longrightarrow> p_task_control_block s' d = p_task_control_block s d"
    and "\<And>u. \<exists>st. tcb s' u = (tcb s u)\<lparr>current_state := st\<rparr>" and "task_counter s' = task_counter s" and "heap_offset s' = heap_offset s"
    and "mutexes s' = mutexes s" and "semaphores s' = semaphores s" and "stack_mem s' = stack_mem s"
proof -
  have i: "sinv {} s A" and ti: "tinv s" and it: "intact s"
    and hm: "\<And>d b. stack_base (tcb s (IdleTcb d)) = Some b \<Longrightarrow> fst b = IdleStack d" using ok unfolding system_ok_def by blast+
  obtain s' where sw: "scheduler_switch_context c s = Some s'" and i': "sinv {} s' A" and sm: "stack_mem s' = stack_mem s"
    and other: "\<And>d. d \<noteq> c \<Longrightarrow> p_task_control_block s' d = p_task_control_block s d"
    and frame: "\<And>u. tcb s' u = (tcb s u)\<lparr>current_state := current_state (tcb s' u)\<rparr>"
    by (rule switch_context_sinv [OF i intact_watermark [OF i it, of c]]) (rule that)
  obtain u where u: "p_task_control_block s' c = Some u" "p \<le> priority (tcb s' u)"
    "StateItem u \<in> set (A (ReadyList c (priority (tcb s' u))))"
    by (rule switch_picks_urgent [OF i sw r]) (rule that)
  note cnt = switch_context_counters [OF sw] and obj = switch_context_objects [OF sw]
  have fr: "\<exists>st. tcb s' v = (tcb s v)\<lparr>current_state := st\<rparr>" for v using frame by blast
  have sb: "stack_base (tcb s' v) = stack_base (tcb s v)" for v using fr [of v] by auto
  have "system_ok s' A"
    unfolding system_ok_def using i' tinv_cong [OF ti _ _ fr] cnt intact_cong [OF it sm sb] hm by (simp add: sb)
  moreover have "scheduler_start c s = Some (E_OK, s')" by (simp add: scheduler_start_def sw u(1))
  ultimately show ?thesis using u other fr cnt obj sm by (intro that [of s' u]) simp_all
qed

text \<open>A companion core from \<open>scheduler_init\<close> to \<open>scheduler_start\<close>, with \<open>ts\<close> as its tasks.\<close>

definition core_started :: "u32 \<Rightarrow> core \<Rightarrow> (u32 \<times> u16 \<times> TaskPriorityLevel) list \<Rightarrow> kernel \<Rightarrow> (lptr \<Rightarrow> iptr list) \<Rightarrow> kernel \<Rightarrow> (lptr \<Rightarrow> iptr list) \<Rightarrow> bool" where
  "core_started trap c ts k A k' A' \<longleftrightarrow> system_ok k' A' \<and>
     (\<forall>i<length ts. runs A' (nth_task c k i) \<and>
        rank (tcb k' (nth_task c k i)) = (clamp_prio (snd (snd (ts ! i))), clamp_prio (snd (snd (ts ! i))), 0) \<and>
        starts_at trap k' (nth_task c k i) (fst (ts ! i))) \<and>
     unat (task_counter k' c) = unat (task_counter k c) + length ts \<and>
     (\<forall>u f. starts_at trap k u f \<longrightarrow> starts_at trap k' u f) \<and>
     (\<forall>u. created k' u \<longrightarrow> created k u \<or> u = IdleTcb c \<or> (\<exists>i<length ts. u = nth_task c k i)) \<and>
     priority (tcb k' (IdleTcb c)) = TASK_PRIORITY_IDLE \<and>
     (\<exists>u. p_task_control_block k' c = Some u \<and> StateItem u \<in> set (A' (ReadyList c (priority (tcb k' u)))) \<and>
        (\<forall>i<length ts. clamp_prio (snd (snd (ts ! i))) \<le> priority (tcb k' u))) \<and>
     (\<forall>u. created k u \<longrightarrow> created k' u \<and> rank (tcb k' u) = rank (tcb k u)) \<and> (\<forall>u. runs A u \<longrightarrow> runs A' u) \<and>
     (\<forall>L. (\<forall>q. L \<noteq> ReadyList c q) \<longrightarrow> A' L = A L) \<and>
     (\<forall>d. d \<noteq> c \<longrightarrow> p_task_control_block k' d = p_task_control_block k d \<and> task_counter k' d = task_counter k d \<and>
        (idle_core d k \<longrightarrow> idle_core d k')) \<and>
     mutexes k' = mutexes k \<and> semaphores k' = semaphores k \<and>
     unat (heap_offset k') = unat (heap_offset k) + 4 * stack_total ts"

lemma core_startedD:
  assumes "core_started trap c ts k A k' A'"
  shows "system_ok k' A'" "i < length ts \<Longrightarrow> runs A' (nth_task c k i)"
    "runs A u \<Longrightarrow> runs A' u" "(\<And>q. L \<noteq> ReadyList c q) \<Longrightarrow> A' L = A L"
    "d \<noteq> c \<Longrightarrow> p_task_control_block k' d = p_task_control_block k d" "d \<noteq> c \<Longrightarrow> task_counter k' d = task_counter k d"
    "d \<noteq> c \<Longrightarrow> idle_core d k \<Longrightarrow> idle_core d k'" "mutexes k' = mutexes k" "semaphores k' = semaphores k"
    "unat (heap_offset k') = unat (heap_offset k) + 4 * stack_total ts"
    "i < length ts \<Longrightarrow> rank (tcb k' (nth_task c k i)) = (clamp_prio (snd (snd (ts ! i))), clamp_prio (snd (snd (ts ! i))), 0)"
    "i < length ts \<Longrightarrow> starts_at trap k' (nth_task c k i) (fst (ts ! i))" "unat (task_counter k' c) = unat (task_counter k c) + length ts"
    "starts_at trap k v f \<Longrightarrow> starts_at trap k' v f" "created k v \<Longrightarrow> rank (tcb k' v) = rank (tcb k v)"
  using assms unfolding core_started_def by blast+

lemma core_started_ok:
  assumes ok: "system_ok k A" and c: "c \<noteq> 0" and idle: "idle_core c k" and room: "has_room c ts k"
  obtains k1 k' A' where "scheduler_init f dfu c (Some clk) h True k = Some (E_OK, k1)"
    and "scheduler_start c (create_all trap c ts k1) = Some (E_OK, k')" and "core_started trap c ts k A k' A'"
proof -
  have cm: "c < COMPANION_CORE_MAX_CORES" using room by (simp add: has_room_def)
  obtain k1 where k1: "scheduler_init f dfu c (Some clk) h True k = (if c = 0 then dfu k1 else Some (E_OK, k1))"
    "system_ok k1 (A(ReadyList c TASK_PRIORITY_IDLE := [StateItem (IdleTcb c)]))" (is "system_ok k1 ?A1")
    "\<And>u. created k1 u \<longleftrightarrow> created k u \<or> u = IdleTcb c" "\<And>u. u \<noteq> IdleTcb c \<Longrightarrow> tcb k1 u = tcb k u"
    "p_task_control_block k1 = p_task_control_block k" "task_counter k1 = task_counter k" "heap_offset k1 = heap_offset k"
    "mutexes k1 = mutexes k" "semaphores k1 = semaphores k" "\<And>j. stack_mem k1 (HeapWords, j) = stack_mem k (HeapWords, j)"
    by (rule scheduler_init_ok [OF ok cm idle, of f dfu clk h]) (rule that)
  have room1: "has_room c ts k1" using room by (simp add: has_room_def k1(6,7))
  define k2 where "k2 = create_all trap c ts k1"
  obtain A2 where A2: "tasks_added trap c ts k1 ?A1 k2 A2" using create_all_ok [OF k1(2) room1] unfolding k2_def by blast
  have n: "nth_task c k1 i = nth_task c k i" for i by (simp add: nth_task_def k1(6))
  have new: "\<not> created k (IdleTcb c)" using idle by (simp add: idle_core_def)
  have "sinv {} k A" using ok by (simp add: system_ok_def)
  note none = idle_core_lists(1) [OF this idle]
  have "x \<in> set (?A1 L)" if "x \<in> set (A L)" for x L using that none [of TASK_PRIORITY_IDLE] by auto
  then have ri: "runs A u \<Longrightarrow> runs ?A1 u" for u unfolding runs_def by blast
  note T = A2 [unfolded tasks_added_def]
  have ok2: "system_ok k2 A2" using T by blast
  have i2: "sinv {} k2 A2" using ok2 by (simp add: system_ok_def)
  let ?S = "{p. p < NUM_TASK_PRIORITIES \<and> A2 (ReadyList c p) \<noteq> []}"
  have mem: "priority (tcb k2 v) \<in> ?S" if "runs A2 v" "tcb_core v = c" for v
    using runsD(1,5) [OF i2 that(1)] tcbs_okD(2,3) [OF sinvD(5) [OF i2] runsD(1) [OF i2 that(1)]] that(2)
    by (auto simp: ready_list_of_def)
  have "runs ?A1 (IdleTcb c)" by (auto simp: runs_def)
  then have "runs A2 (IdleTcb c)" using T by blast
  from mem [OF this] have ne: "?S \<noteq> {}" by auto
  have fin: "finite ?S" by simp
  define M where "M = Max ?S"
  have M: "A2 (ReadyList c M) \<noteq> []" "M < NUM_TASK_PRIORITIES" using Max_in [OF fin ne] by (simp_all add: M_def)
  have Mi: "clamp_prio (snd (snd (ts ! i))) \<le> M" if "i < length ts" for i
    unfolding M_def
  proof (rule Max_ge [OF fin])
    have "runs A2 (nth_task c k1 i)" "priority (tcb k2 (nth_task c k1 i)) = clamp_prio (snd (snd (ts ! i)))"
      using T that by (simp_all add: rank_def)
    then show "clamp_prio (snd (snd (ts ! i))) \<in> ?S" using mem [of "nth_task c k1 i"] by (simp add: nth_task_def)
  qed
  obtain k' u where k': "scheduler_start c k2 = Some (E_OK, k')" "system_ok k' A2" "p_task_control_block k' c = Some u"
    "M \<le> priority (tcb k' u)" "StateItem u \<in> set (A2 (ReadyList c (priority (tcb k' u))))"
    "\<And>d. d \<noteq> c \<Longrightarrow> p_task_control_block k' d = p_task_control_block k2 d"
    "\<And>u. \<exists>st. tcb k' u = (tcb k2 u)\<lparr>current_state := st\<rparr>" "task_counter k' = task_counter k2" "heap_offset k' = heap_offset k2"
    "mutexes k' = mutexes k2" "semaphores k' = semaphores k2" "stack_mem k' = stack_mem k2"
    by (rule scheduler_start_ok [OF ok2 M(1,2)]) (rule that)
  have rk: "rank (tcb k' v) = rank (tcb k2 v)" "created k' v = created k2 v" "current_sp (tcb k' v) = current_sp (tcb k2 v)" for v
    using k'(7) [of v] by (auto simp: rank_def created_def)
  have s2: "starts_at trap k' v f" if "starts_at trap k2 v f" for v f
    by (rule starts_at_keep [OF that]) (use that in \<open>simp_all add: starts_at_def rk k'(9,12)\<close>)
  have s1: "starts_at trap k' v f" if s: "starts_at trap k v f" for v f
  proof (rule s2, rule starts_at_keep [OF s])
    have v: "created k v" "v \<noteq> IdleTcb c" using s new by (auto simp: starts_at_def)
    then have "created k1 v" "tcb k1 v = tcb k v" by (simp_all add: k1(3,4))
    moreover from this T have "created k2 v \<and> tcb k2 v = tcb k1 v" by blast
    ultimately show "created k2 v" "current_sp (tcb k2 v) = current_sp (tcb k v)" by simp_all
    show "unat (heap_offset k) \<le> unat (heap_offset k2)" using T by (simp add: k1(7))
    show "stack_mem k2 (HeapWords, j) = stack_mem k (HeapWords, j)" if "j < int (unat (heap_offset k)) div 4" for j
      using T that by (simp add: k1(7,10) del: of_nat_unat)
  qed
  have "core_started trap c ts k A k' A2"
    unfolding core_started_def
  proof (intro conjI allI impI)
    fix i assume i: "i < length ts"
    show "runs A2 (nth_task c k i)" "rank (tcb k' (nth_task c k i)) = (clamp_prio (snd (snd (ts ! i))), clamp_prio (snd (snd (ts ! i))), 0)"
      "starts_at trap k' (nth_task c k i) (fst (ts ! i))"
      using T i s2 by (simp_all add: n rk)
  next
    fix v assume "created k' v"
    then show "created k v \<or> v = IdleTcb c \<or> (\<exists>i<length ts. v = nth_task c k i)" using T k1(3) by (auto simp: rk(2) n)
  next
    have "sinv {} k1 ?A1" using k1(2) by (simp add: system_ok_def)
    then have "priority (tcb k1 (IdleTcb c)) = TASK_PRIORITY_IDLE"
      using typed_ready [OF sinvD(2), where x = "StateItem (IdleTcb c)" and c = c and p = TASK_PRIORITY_IDLE] by fastforce
    moreover have "tcb k2 (IdleTcb c) = tcb k1 (IdleTcb c)" using T k1(3) by blast
    ultimately show "priority (tcb k' (IdleTcb c)) = TASK_PRIORITY_IDLE" using rk(1) [of "IdleTcb c"] by (simp add: rank_def)
  next
    show "\<exists>u. p_task_control_block k' c = Some u \<and> StateItem u \<in> set (A2 (ReadyList c (priority (tcb k' u)))) \<and>
        (\<forall>i<length ts. clamp_prio (snd (snd (ts ! i))) \<le> priority (tcb k' u))"
      using k'(3-5) Mi by (meson le_trans)
  next
    fix v assume v: "created k v"
    then have "v \<noteq> IdleTcb c" using new by auto
    moreover have "tcb k2 v = tcb k1 v" using T v k1(3) by blast
    ultimately show "rank (tcb k' v) = rank (tcb k v)" by (simp add: rk k1(4))
    show "created k' v" using T v k1(3) rk(2) by blast
  next
    fix v assume "runs A v" then show "runs A2 v" using T ri by blast
  next
    fix L assume "\<forall>q. L \<noteq> ReadyList c q" then show "A2 L = A L" using T by (simp add: fun_upd_def)
  next
    fix d assume d: "d \<noteq> c"
    show "p_task_control_block k' d = p_task_control_block k d" "task_counter k' d = task_counter k d"
      using T d by (simp_all add: k'(6,8) k1(5,6))
    assume "idle_core d k"
    moreover have "created k' v \<Longrightarrow> created k v \<or> tcb_core v = c" for v using T k1(3) rk(2) by (auto simp: nth_task_def)
    ultimately show "idle_core d k'" using d by (auto simp: idle_core_def)
  next
    show "starts_at trap k v f \<Longrightarrow> starts_at trap k' v f" for v f by (rule s1)
  qed (use T k'(2) in \<open>simp_all add: k'(8-11) k1(6-9)\<close>)
  with k1(1) k'(1) c show ?thesis by (intro that) (simp_all add: k2_def)
qed

lemma core_running:
  assumes "core_started trap c ts k A k' A'" and "i < length ts"
  obtains u where "p_task_control_block k' c = Some u" and "created k' u" and "clamp_prio (snd (snd (ts ! i))) \<le> priority (tcb k' u)"
proof -
  obtain u where u: "p_task_control_block k' c = Some u" "StateItem u \<in> set (A' (ReadyList c (priority (tcb k' u))))"
    "clamp_prio (snd (snd (ts ! i))) \<le> priority (tcb k' u)"
    using assms unfolding core_started_def by blast
  have "runs A' u" using u(2) by (auto simp: runs_def)
  moreover have "sinv {} k' A'" using core_startedD(1) [OF assms(1)] by (simp add: system_ok_def)
  ultimately show ?thesis using u runsD(1) by (intro that)
qed

text \<open>The store at reset.\<close>

lemma bss_system_ok: "system_ok bss_kernel (\<lambda>_. [])"
  using sinv_bss tinv_bss by (simp add: system_ok_def intact_def created_def bss_kernel_def bss_tcb_def)

end
