(* ===== verification/Inheritance_Demo.thy ===== *)
theory Inheritance_Demo
  imports Lock_Clients Task_Boot
begin

text \<open>
  \<^verbatim>\<open>samples/rtos/mutex_inheritance/main.c\<close>: LOW (priority 1) works while it holds the mutex, HIGH (priority 3) locks it now and then, MID
  (priority 2) never does. LOW and HIGH are control points that interleave with each other, with ticks and context switches, and
  with MID and everything else as the environment; only LOW and HIGH lock mutexes. Printing has no step of its own.
\<close>

subsection \<open>The program\<close>

definition HOLD_MS :: u64 where "HOLD_MS = 2000"

definition PRINT_MS :: u64 where "PRINT_MS = 50"

datatype inherit_pc = LockShared | LockSpin | ReadStart | CheckDeadline u64 u64 | CheckPrint u64 u64 | UnlockShared | SleepFor u64 | SleepSpin

record inherit_demo =
  ikern :: kernel
  ipcs :: "tptr \<Rightarrow> inherit_pc"

definition at_pc :: "tptr \<Rightarrow> inherit_pc \<Rightarrow> inherit_demo \<Rightarrow> inherit_demo" where
  "at_pc t p d = d\<lparr>ipcs := (ipcs d)(t := p)\<rparr>"

text \<open>In \<open>CheckDeadline\<close> and \<open>CheckPrint\<close> the locals are \<open>next_print\<close> and \<open>deadline\<close>.\<close>

definition low_task :: "mptr \<Rightarrow> core \<Rightarrow> tptr \<Rightarrow> inherit_demo \<Rightarrow> inherit_demo option" where
  "low_task shared_mtx c t d =
     (case ipcs d t of
        LockShared \<Rightarrow> do {
          (r, k) \<leftarrow> mutex_lock_enter shared_mtx c (- 1) (ikern d);
          Some (at_pc t (case r of LockReturns _ \<Rightarrow> ReadStart | LockBlocked \<Rightarrow> LockSpin) (d\<lparr>ikern := k\<rparr>))
        }
      | LockSpin \<Rightarrow>
          Some (if current_state (tcb (ikern d) t) = TASK_STATE_BLOCKED then d
                else (case mutex_lock_wake shared_mtx t (ikern d) of _ \<Rightarrow> at_pc t ReadStart d))
      | ReadStart \<Rightarrow>
          let start = scheduler_get_tick_count c (ikern d)
          in Some (at_pc t (CheckDeadline (start + PRINT_MS) (start + HOLD_MS)) d)
      | CheckDeadline next_print deadline \<Rightarrow>
          Some (at_pc t (if scheduler_get_tick_count c (ikern d) < deadline then CheckPrint next_print deadline else UnlockShared) d)
      | CheckPrint next_print deadline \<Rightarrow>
          Some (at_pc t (if scheduler_get_tick_count c (ikern d) \<ge> next_print then CheckDeadline (next_print + PRINT_MS) deadline
                         else CheckDeadline next_print deadline) d)
      | UnlockShared \<Rightarrow> do {
          k \<leftarrow> mutex_unlock shared_mtx (ikern d);
          Some (at_pc t (SleepFor 1000) (d\<lparr>ikern := k\<rparr>))
        }
      | SleepFor ms \<Rightarrow> do {
          k \<leftarrow> task_delay_ms c ms (ikern d);
          Some (at_pc t SleepSpin (d\<lparr>ikern := k\<rparr>))
        }
      | SleepSpin \<Rightarrow> Some (if current_state (tcb (ikern d) t) = TASK_STATE_BLOCKED then d else at_pc t LockShared d))"

definition high_task :: "mptr \<Rightarrow> core \<Rightarrow> tptr \<Rightarrow> inherit_demo \<Rightarrow> inherit_demo option" where
  "high_task shared_mtx c t d =
     (case ipcs d t of
        LockShared \<Rightarrow> do {
          (r, k) \<leftarrow> mutex_lock_enter shared_mtx c (- 1) (ikern d);
          Some (at_pc t (case r of LockReturns _ \<Rightarrow> UnlockShared | LockBlocked \<Rightarrow> LockSpin) (d\<lparr>ikern := k\<rparr>))
        }
      | LockSpin \<Rightarrow>
          Some (if current_state (tcb (ikern d) t) = TASK_STATE_BLOCKED then d
                else (case mutex_lock_wake shared_mtx t (ikern d) of _ \<Rightarrow> at_pc t UnlockShared d))
      | UnlockShared \<Rightarrow> do {
          k \<leftarrow> mutex_unlock shared_mtx (ikern d);
          Some (at_pc t (SleepFor 1300) (d\<lparr>ikern := k\<rparr>))
        }
      | SleepFor ms \<Rightarrow> do {
          k \<leftarrow> task_delay_ms c ms (ikern d);
          Some (at_pc t SleepSpin (d\<lparr>ikern := k\<rparr>))
        }
      | SleepSpin \<Rightarrow> Some (if current_state (tcb (ikern d) t) = TASK_STATE_BLOCKED then d else at_pc t LockShared d)
      | _ \<Rightarrow> Some d)"

inductive inherit_step :: "(kernel \<Rightarrow> kernel \<Rightarrow> bool) \<Rightarrow> mptr \<Rightarrow> tptr \<Rightarrow> tptr \<Rightarrow> inherit_demo \<Rightarrow> inherit_demo \<Rightarrow> bool" for env m L H where
  low: "p_task_control_block (ikern d) c = Some L \<Longrightarrow> low_task m c L d = Some d' \<Longrightarrow> inherit_step env m L H d d'"
| high: "p_task_control_block (ikern d) c = Some H \<Longrightarrow> high_task m c H d = Some d' \<Longrightarrow> inherit_step env m L H d d'"
| other: "env (ikern d) k \<Longrightarrow> inherit_step env m L H d (d\<lparr>ikern := k\<rparr>)"

text \<open>\<open>kmain\<close> initialises the mutex and switches inheritance on; HIGH first sleeps for 100 ms.\<close>

definition inherit_start :: "mptr \<Rightarrow> tptr \<Rightarrow> kernel \<Rightarrow> inherit_demo" where
  "inherit_start m H k = \<lparr>ikern = snd (mutex_set_inheritance m True (mutex_init m k)), ipcs = (\<lambda>_. LockShared)(H := SleepFor 100)\<rparr>"

abbreviation inherit_reach :: "mptr \<Rightarrow> tptr \<Rightarrow> tptr \<Rightarrow> sptr set \<Rightarrow> kernel \<Rightarrow> inherit_demo \<Rightarrow> bool" where
  "inherit_reach m L H S k d \<equiv> rtranclp (inherit_step (other_step {L, H} {m} S {}) m L H) (inherit_start m H k) d"

subsection \<open>Who has which priority\<close>

definition ranks_ok :: "mptr \<Rightarrow> tptr \<Rightarrow> tptr \<Rightarrow> kernel \<Rightarrow> (lptr \<Rightarrow> iptr list) \<Rightarrow> bool" where
  "ranks_ok m L H k A \<longleftrightarrow>
     inheritance_enabled (mutexes k m) \<and>
     inherited_priority (mutexes k m) =
       (if waits A (MutexBlockedList m) H then 3 else if waits A (MutexBlockedList m) L then 1 else 0) \<and>
     rank (tcb k L) = (if waits A (MutexBlockedList m) H then 3 else 1, 1, if mutex_owner (mutexes k m) = Some L then 1 else 0) \<and>
     rank (tcb k H) = (3, 3, if mutex_owner (mutexes k m) = Some H then 1 else 0)"

lemma ranks_ok_cong:
  assumes "ranks_ok m L H k A" and "mutexes k' m = mutexes k m" and "\<And>u. u \<in> {L, H} \<Longrightarrow> rank (tcb k' u) = rank (tcb k u)"
    and "\<And>u. u \<in> {L, H} \<Longrightarrow> waits A' (MutexBlockedList m) u = waits A (MutexBlockedList m) u"
  shows "ranks_ok m L H k' A'"
  using assms by (simp add: ranks_ok_def)

lemma rank_eq: "rank b = (p, q, n) \<longleftrightarrow> priority b = p \<and> base_priority b = q \<and> mutexes_held b = n"
  by (auto simp: rank_def)

lemma ranks_lock_free:
  assumes "ranks_ok m L H k A" and "t \<in> {L, H}" and "L \<noteq> H" and "mutex_owner (mutexes k m) = None"
    and "\<And>u. \<not> waits A (MutexBlockedList m) u"
    and "mutexes k' = (mutexes k)(m := (mutexes k m)\<lparr>m_state := MUTEX_STATE_LOCKED, mutex_owner := Some t\<rparr>)"
    and "\<And>u. tcb k' u = (if u = t \<and> inheritance_enabled (mutexes k m)
             then (tcb k u)\<lparr>mutexes_held := mutexes_held (tcb k u) + 1\<rparr> else tcb k u)"
  shows "ranks_ok m L H k' A"
  using assms by (auto simp: ranks_ok_def rank_eq)

lemma ranks_lock_busy:
  assumes r: "ranks_ok m L H k A" and t: "t \<in> {L, H}" "h \<in> {L, H}" "h \<noteq> t" and ne: "L \<noteq> H"
    and own: "mutex_owner (mutexes k m) = Some h" and no: "\<not> waits A (MutexBlockedList m) h" "\<not> waits A (MutexBlockedList m) t"
    and mk: "mutexes k' = (mutexes k)(m := (mutexes k m)\<lparr>inherited_priority :=
             (if inheritance_enabled (mutexes k m) then passed_on m t k else inherited_priority (mutexes k m))\<rparr>)"
    and rk: "\<And>u. rank (tcb k' u) = (if u = h \<and> lock_boosts m t h k then passed_on m t k else priority (tcb k u), base_priority (tcb k u), mutexes_held (tcb k u))"
    and w: "\<And>u. u \<noteq> t \<Longrightarrow> undisturbed A A' u" "waits A' (MutexBlockedList m) t"
  shows "ranks_ok m L H k' A'"
proof -
  have w': "waits A' (MutexBlockedList m) h = False" using w(1) [OF t(3)] no by (simp add: undisturbed_def)
  consider "t = L" "h = H" | "t = H" "h = L" using t by auto
  then show ?thesis
    by cases (use r own no w(2) w' ne in \<open>auto simp: ranks_ok_def rk rank_eq mk passed_on_def lock_boosts_def\<close>)
qed

lemma ranks_unlock_free:
  assumes "ranks_ok m L H k A" and "t \<in> {L, H}" and "L \<noteq> H" and "mutex_owner (mutexes k m) = Some t"
    and "\<And>u. \<not> waits A (MutexBlockedList m) u" and "\<And>u. \<not> waits A' (MutexBlockedList m) u"
    and "mutexes k' = (mutexes k)(m := (mutexes k m)\<lparr>mutex_owner := None, m_state := MUTEX_STATE_UNLOCKED, inherited_priority := TASK_PRIORITY_IDLE\<rparr>)"
    and "\<And>u. rank (tcb k' u) = (if u = t \<and> falls_back m t k then base_priority (tcb k u) else priority (tcb k u), base_priority (tcb k u),
             if u = t \<and> inheritance_enabled (mutexes k m) then mutexes_held (tcb k u) - 1 else mutexes_held (tcb k u))"
  shows "ranks_ok m L H k' A'"
  using assms by (auto simp: ranks_ok_def rank_eq task_consts)

lemma ranks_unlock_handoff:
  assumes r: "ranks_ok m L H k A" and t: "t \<in> {L, H}" "n \<in> {L, H}" "n \<noteq> t" and ne: "L \<noteq> H"
    and own: "mutex_owner (mutexes k m) = Some t" and wn: "waits A (MutexBlockedList m) n" and no: "\<not> waits A (MutexBlockedList m) t"
    and w: "\<And>u. u \<noteq> n \<Longrightarrow> undisturbed A A' u" "\<not> waits A' (MutexBlockedList m) n"
    and alone: "set (A (MutexBlockedList m)) = {EventItem n}"
    and mk: "mutexes k' = (mutexes k)(m := (mutexes k m)\<lparr>
             inherited_priority := Max (insert 0 (item_prio k ` (set (A (MutexBlockedList m)) - {EventItem n}))), mutex_owner := Some n\<rparr>)"
    and rk: "\<And>u. rank (tcb k' u) = (if u = t \<and> falls_back m t k then base_priority (tcb k u) else priority (tcb k u), base_priority (tcb k u),
             if inheritance_enabled (mutexes k m)
             then if u = t then mutexes_held (tcb k u) - 1 else if u = n then mutexes_held (tcb k u) + 1 else mutexes_held (tcb k u)
             else mutexes_held (tcb k u))"
  shows "ranks_ok m L H k' A'"
proof -
  have w': "waits A' (MutexBlockedList m) t = False" using w(1) [OF t(3) [symmetric]] no by (simp add: undisturbed_def)
  have mk': "mutexes k' m = (mutexes k m)\<lparr>inherited_priority := 0, mutex_owner := Some n\<rparr>" by (simp add: mk alone)
  consider "t = L" "n = H" | "t = H" "n = L" using t by auto
  then show ?thesis
    by cases (use r own no wn w(2) w' ne in \<open>auto simp: ranks_ok_def rk rank_eq mk' falls_back_def\<close>)
qed

subsection \<open>The invariant\<close>

fun ipc_place :: "inherit_pc \<Rightarrow> place" where
  "ipc_place LockShared = Outside"
| "ipc_place LockSpin = Entering"
| "ipc_place ReadStart = Inside"
| "ipc_place (CheckDeadline n l) = Inside"
| "ipc_place (CheckPrint n l) = Inside"
| "ipc_place UnlockShared = Inside"
| "ipc_place (SleepFor ms) = Outside"
| "ipc_place SleepSpin = Sleeping"

definition inherit_inv :: "mptr \<Rightarrow> tptr \<Rightarrow> tptr \<Rightarrow> inherit_demo \<Rightarrow> (lptr \<Rightarrow> iptr list) \<Rightarrow> bool" where
  "inherit_inv m L H d A \<longleftrightarrow> clients_ok m {L, H} {} (ikern d) A (ipc_place \<circ> ipcs d) \<and> ranks_ok m L H (ikern d) A"

lemma inherit_inv_to:
  "clients_ok m {L, H} {} k A ((ipc_place \<circ> ipcs d)(t := ipc_place p)) \<Longrightarrow> ranks_ok m L H k A \<Longrightarrow>
   inherit_inv m L H (at_pc t p (d\<lparr>ikern := k\<rparr>)) A"
  by (simp add: inherit_inv_def at_pc_def fun_upd_comp)

lemma inherit_inv_stay:
  assumes "inherit_inv m L H d A" and "ipc_place p = ipc_place (ipcs d t)" shows "inherit_inv m L H (at_pc t p d) A"
proof -
  have "(ipc_place \<circ> ipcs d)(t := ipc_place p) = ipc_place \<circ> ipcs d" using assms(2) by auto
  with assms(1) show ?thesis by (simp add: inherit_inv_def at_pc_def fun_upd_comp)
qed

lemma runs_not_waits: "clients_ok m T U k A pl \<Longrightarrow> runs A t \<Longrightarrow> \<not> waits A L t"
  by (rule runsD(4) [OF clientsD(1)])

lemma inherit_lock:
  assumes inv: "inherit_inv m L H d A" and t: "t \<in> {L, H}" and ne: "L \<noteq> H" and cur: "p_task_control_block (ikern d) c = Some t"
    and pc: "ipc_place (ipcs d t) = Outside" and p: "ipc_place p = Inside"
  obtains r k A' where "mutex_lock_enter m c (- 1) (ikern d) = Some (r, k)"
    and "inherit_inv m L H (at_pc t (case r of LockReturns _ \<Rightarrow> p | LockBlocked \<Rightarrow> LockSpin) (d\<lparr>ikern := k\<rparr>)) A'"
proof -
  have C: "clients_ok m {L, H} {} (ikern d) A (ipc_place \<circ> ipcs d)" and R: "ranks_ok m L H (ikern d) A"
    using inv by (simp_all add: inherit_inv_def)
  have pl: "(ipc_place \<circ> ipcs d) t = Outside" using pc by simp
  have run: "runs A t" using clientsD(7) [OF C t] pl by simp
  from C t cur pl show ?thesis
  proof (cases rule: clients_lock)
    case (free k)
    have "ranks_ok m L H k A" by (rule ranks_lock_free [OF R t ne free(3-6)])
    with free(2) p show ?thesis by (intro that [OF free(1), of A]) (simp add: inherit_inv_to comp_def)
  next
    case (busy h k A')
    have "ranks_ok m L H k A'"
      by (rule ranks_lock_busy [OF R t busy(4,5) ne busy(3) _ _ busy(6,7,9,10)])
        (use runs_not_waits [OF C] run owner_runs(2) [OF C busy(3)] in auto)
    with busy(2) show ?thesis by (intro that [OF busy(1), of A']) (simp add: inherit_inv_to comp_def)
  qed
qed

text \<open>The wait list has at most the other task in it.\<close>

lemma only_waiter:
  assumes C: "clients_ok m {L, H} U k A pl" and wn: "waits A (MutexBlockedList m) n" and t: "t \<in> {L, H}" "n \<in> {L, H}" "n \<noteq> t"
    and no: "\<not> waits A (MutexBlockedList m) t"
  shows "set (A (MutexBlockedList m)) = {EventItem n}"
proof -
  have "x = EventItem n" if x: "x \<in> set (A (MutexBlockedList m))" for x
  proof -
    obtain u where u: "x = EventItem u" using typed_event(1) [OF sinvD(2) [OF clientsD(1) [OF C]] x] by blast
    then have w: "waits A (MutexBlockedList m) u" using x by (simp add: waits_def)
    have "u \<noteq> t" using w no by auto
    with clientsD(6) [OF C w] t have "u = n" by blast
    with u show ?thesis by simp
  qed
  with wn show ?thesis unfolding waits_def by blast
qed

lemma inherit_unlock:
  assumes inv: "inherit_inv m L H d A" and t: "t \<in> {L, H}" and ne: "L \<noteq> H" and pc: "ipc_place (ipcs d t) = Inside"
    and p: "ipc_place p = Outside"
  obtains k A' where "mutex_unlock m (ikern d) = Some k" and "inherit_inv m L H (at_pc t p (d\<lparr>ikern := k\<rparr>)) A'"
proof -
  have C: "clients_ok m {L, H} {} (ikern d) A (ipc_place \<circ> ipcs d)" and R: "ranks_ok m L H (ikern d) A"
    using inv by (simp_all add: inherit_inv_def)
  have pl: "(ipc_place \<circ> ipcs d) t = Inside" using pc by simp
  have own: "mutex_owner (mutexes (ikern d) m) = Some t" and no: "\<not> waits A (MutexBlockedList m) t"
    using clientsD(7) [OF C t] pl runs_not_waits [OF C] by simp_all
  from C t pl show ?thesis
  proof (cases rule: clients_unlock)
    case (free k A')
    have "ranks_ok m L H k A'" by (rule ranks_unlock_free [OF R t ne own free(3,4,6,7)])
    with free(2) p show ?thesis by (intro that [OF free(1), of A']) (simp add: inherit_inv_to comp_def)
  next
    case (handoff n k A')
    have "ranks_ok m L H k A'"
      by (rule ranks_unlock_handoff [OF R t handoff(4,5) ne own handoff(3) no handoff(6,7) only_waiter [OF C handoff(3) t handoff(4,5) no] handoff(9,10)])
    with handoff(2) p show ?thesis by (intro that [OF handoff(1), of A']) (simp add: inherit_inv_to comp_def)
  qed
qed

lemma inherit_sleep:
  assumes inv: "inherit_inv m L H d A" and t: "t \<in> {L, H}" and cur: "p_task_control_block (ikern d) c = Some t"
    and pc: "ipc_place (ipcs d t) = Outside"
  obtains k A' where "task_delay_ms c ms (ikern d) = Some k" and "inherit_inv m L H (at_pc t SleepSpin (d\<lparr>ikern := k\<rparr>)) A'"
proof -
  have C: "clients_ok m {L, H} {} (ikern d) A (ipc_place \<circ> ipcs d)" and R: "ranks_ok m L H (ikern d) A"
    using inv by (simp_all add: inherit_inv_def)
  have pl: "(ipc_place \<circ> ipcs d) t = Outside" using pc by simp
  obtain k A' where k: "task_delay_ms c ms (ikern d) = Some k" "clients_ok m {L, H} {} k A' ((ipc_place \<circ> ipcs d)(t := Sleeping))"
    "mutexes k = mutexes (ikern d)" "\<And>u. rank (tcb k u) = rank (tcb (ikern d) u)"
    "\<And>u. waits A' (MutexBlockedList m) u = waits A (MutexBlockedList m) u"
    by (rule clients_delay [OF C t cur pl, of ms]) (rule that)
  have "ranks_ok m L H k A'" by (rule ranks_ok_cong [OF R]) (simp_all add: k(3-5))
  with k(2) show ?thesis by (intro that [OF k(1), of A']) (simp add: inherit_inv_to comp_def)
qed

lemma inherit_wake:
  assumes inv: "inherit_inv m L H d A" and t: "t \<in> {L, H}" and r: "current_state (tcb (ikern d) t) \<noteq> TASK_STATE_BLOCKED"
  shows "ipcs d t = LockSpin \<Longrightarrow> ipc_place p = Inside \<Longrightarrow> inherit_inv m L H (at_pc t p d) A"
    and "ipcs d t = SleepSpin \<Longrightarrow> ipc_place p = Outside \<Longrightarrow> inherit_inv m L H (at_pc t p d) A"
  using inv clients_entered [OF _ t _ r] clients_awoken [OF _ t _ r] inherit_inv_to [of m L H "ikern d" A d t p]
  by (simp_all add: inherit_inv_def)

lemma low_task_ok:
  assumes inv: "inherit_inv m L H d A" and cur: "p_task_control_block (ikern d) c = Some L" and ne: "L \<noteq> H"
  obtains d' A' where "low_task m c L d = Some d'" and "inherit_inv m L H d' A'"
proof -
  have t: "L \<in> {L, H}" by simp
  note wake = inherit_wake [OF inv t] and stay = inherit_inv_stay [OF inv, of _ L]
  show ?thesis
  proof (cases "ipcs d L")
    case LockShared
    show ?thesis
      by (rule inherit_lock [OF inv t ne cur, of ReadStart]) (simp_all add: LockShared, rule that, simp_all add: low_task_def LockShared)
  next
    case LockSpin
    with wake(1) [of ReadStart] inv show ?thesis
      by (cases "current_state (tcb (ikern d) L) = TASK_STATE_BLOCKED") (auto simp: low_task_def intro: that)
  next
    case ReadStart
    with stay show ?thesis by (intro that [OF _ stay]) (auto simp: low_task_def Let_def)
  next
    case (CheckDeadline n l)
    with stay show ?thesis by (intro that [OF _ stay]) (auto simp: low_task_def)
  next
    case (CheckPrint n l)
    with stay show ?thesis by (intro that [OF _ stay]) (auto simp: low_task_def)
  next
    case UnlockShared
    show ?thesis
      by (rule inherit_unlock [OF inv t ne, of "SleepFor 1000"]) (simp_all add: UnlockShared, rule that, simp_all add: low_task_def UnlockShared)
  next
    case (SleepFor ms)
    show ?thesis
      by (rule inherit_sleep [OF inv t cur, of ms]) (simp_all add: SleepFor, rule that, simp_all add: low_task_def SleepFor)
  next
    case SleepSpin
    with wake(2) [of LockShared] inv show ?thesis
      by (cases "current_state (tcb (ikern d) L) = TASK_STATE_BLOCKED") (auto simp: low_task_def intro: that)
  qed
qed

lemma high_task_ok:
  assumes inv: "inherit_inv m L H d A" and cur: "p_task_control_block (ikern d) c = Some H" and ne: "L \<noteq> H"
  obtains d' A' where "high_task m c H d = Some d'" and "inherit_inv m L H d' A'"
proof -
  have t: "H \<in> {L, H}" by simp
  note wake = inherit_wake [OF inv t]
  show ?thesis
  proof (cases "ipcs d H")
    case LockShared
    show ?thesis
      by (rule inherit_lock [OF inv t ne cur, of UnlockShared]) (simp_all add: LockShared, rule that, simp_all add: high_task_def LockShared)
  next
    case LockSpin
    with wake(1) [of UnlockShared] inv show ?thesis
      by (cases "current_state (tcb (ikern d) H) = TASK_STATE_BLOCKED") (auto simp: high_task_def intro: that)
  next
    case UnlockShared
    show ?thesis
      by (rule inherit_unlock [OF inv t ne, of "SleepFor 1300"]) (simp_all add: UnlockShared, rule that, simp_all add: high_task_def UnlockShared)
  next
    case (SleepFor ms)
    show ?thesis
      by (rule inherit_sleep [OF inv t cur, of ms]) (simp_all add: SleepFor, rule that, simp_all add: high_task_def SleepFor)
  next
    case SleepSpin
    with wake(2) [of LockShared] inv show ?thesis
      by (cases "current_state (tcb (ikern d) H) = TASK_STATE_BLOCKED") (auto simp: high_task_def intro: that)
  qed (use inv in \<open>auto simp: high_task_def intro: that\<close>)
qed

subsection \<open>Every reachable state\<close>

lemma inherit_inv_start:
  assumes i: "sinv {} k A" and e: "A (MutexBlockedList m) = []" and r: "runs A L" "runs A H"
    and rk: "rank (tcb k L) = (1, 1, 0)" "rank (tcb k H) = (3, 3, 0)"
  shows "inherit_inv m L H (inherit_start m H k) A"
proof -
  let ?k = "mutex_init m k" and ?f = "\<lambda>b. b\<lparr>inheritance_enabled := True\<rparr>"
  have C: "clients_ok m {L, H} {} ?k A (\<lambda>_. Outside)" by (rule clients_start [OF i e]) (use r in \<open>auto simp: foreign_ok_def\<close>)
  have k: "snd (mutex_set_inheritance m True ?k) = upd_mutex m ?f ?k"
    by (simp add: mutex_set_inheritance_def mutex_init_def empty_list_def)
  have "clients_ok m {L, H} {} (upd_mutex m ?f ?k) A (\<lambda>_. Outside)"
    using C sinv_upd_mutex [OF clientsD(1) [OF C]]
    by (auto simp: clients_ok_def mutex_ok_def foreign_ok_def mutex_init_def created_def)
  moreover have "ranks_ok m L H (upd_mutex m ?f ?k) A" using rk e by (simp add: ranks_ok_def mutex_init_def waits_def task_consts)
  moreover have "ipc_place \<circ> ipcs (inherit_start m H k) = (\<lambda>_. Outside)" by (auto simp: inherit_start_def)
  ultimately show ?thesis by (simp add: inherit_inv_def inherit_start_def k)
qed

context calm_environment
begin

lemma inherit_step_inv:
  assumes "inherit_step env m L H d d'" and inv: "inherit_inv m L H d A" and ne: "L \<noteq> H"
    and P: "T = {L, H}" "M = {m}" "U = {}"
  shows "\<exists>A'. inherit_inv m L H d' A'"
  using assms(1)
proof cases
  case (low c)
  then show ?thesis by (metis low_task_ok [OF inv _ ne] option.inject)
next
  case (high c)
  then show ?thesis by (metis high_task_ok [OF inv _ ne] option.inject)
next
  case (other k)
  have C: "clients_ok m T U (ikern d) A (ipc_place \<circ> ipcs d)" and R: "ranks_ok m L H (ikern d) A"
    using inv by (simp_all add: inherit_inv_def P)
  obtain A' where A': "clients_ok m T U k A' (ipc_place \<circ> ipcs d)" "mutexes k m = mutexes (ikern d) m"
    "\<And>t. t \<in> T \<Longrightarrow> waits A' (MutexBlockedList m) t = waits A (MutexBlockedList m) t"
    by (rule clients_step [OF other(2) C P(2)]) (rule that)
  have "at_home T M S A" using clients_home [OF C] by (simp add: P(2))
  then have "ranks_kept T (ikern d) k" by (rule calm_step [OF other(2) clientsD(1) [OF C]])
  then have "ranks_ok m L H k A'" by (intro ranks_ok_cong [OF R]) (use A' in \<open>auto simp: P ranks_kept_def\<close>)
  with A'(1) other(1) show ?thesis by (auto simp: inherit_inv_def P)
qed

end

lemma inherit_reach_inv:
  assumes "inherit_reach m L H S k d" and "sinv {} k A" and "A (MutexBlockedList m) = []" and "runs A L" and "runs A H"
    and "rank (tcb k L) = (1, 1, 0)" and "rank (tcb k H) = (3, 3, 0)" and ne: "L \<noteq> H"
  shows "\<exists>A'. inherit_inv m L H d A'"
  using assms(1)
proof (induction rule: rtranclp_induct)
  case base
  show ?case using inherit_inv_start [OF assms(2-7)] by blast
next
  case (step d d')
  then show ?case using quiet.inherit_step_inv [OF step(2) _ ne refl refl refl] by blast
qed

text \<open>Claim C35 (safety). The inheritance demo does what it announces: in every reachable state HIGH has priority 3 and LOW has priority 3
  if HIGH is blocked in \<open>mutex_lock\<close> and 1 otherwise, and while HIGH is blocked every context switch on LOW's core runs a task of
  priority at least 3, so MID, with priority 2, is silent until LOW releases the mutex.\<close>

theorem mid_goes_silent:
  assumes "sinv {} k A" and "A (MutexBlockedList m) = []" and "runs A L" and "runs A H"
    and "rank (tcb k L) = (1, 1, 0)" and "rank (tcb k H) = (3, 3, 0)" and "L \<noteq> H" and "inherit_reach m L H S k d"
  shows "priority (tcb (ikern d) H) = 3 \<and>
    priority (tcb (ikern d) L) =
      (if ipcs d H = LockSpin \<and> current_state (tcb (ikern d) H) = TASK_STATE_BLOCKED then 3 else 1) \<and>
    (ipcs d H = LockSpin \<and> current_state (tcb (ikern d) H) = TASK_STATE_BLOCKED \<longrightarrow>
      (\<forall>k'. scheduler_switch_context (core_id (tcb (ikern d) L)) (ikern d) = Some k' \<longrightarrow>
        (\<exists>u. p_task_control_block k' (core_id (tcb (ikern d) L)) = Some u \<and> 3 \<le> priority (tcb k' u))))"
proof -
  let ?k = "ikern d" and ?E = "MutexBlockedList m"
  let ?b = "ipcs d H = LockSpin \<and> current_state (tcb ?k H) = TASK_STATE_BLOCKED"
  obtain A' where inv: "inherit_inv m L H d A'" using inherit_reach_inv [OF assms(8,1-7)] by blast
  then have C: "clients_ok m {L, H} {} ?k A' (ipc_place \<circ> ipcs d)" and R: "ranks_ok m L H ?k A'" by (simp_all add: inherit_inv_def)
  note i = clientsD(1) [OF C]
  have wb: "waits A' ?E H \<longleftrightarrow> ?b"
  proof
    assume w: "waits A' ?E H"
    have "ipc_place (ipcs d H) = Entering" using waiter_entering(2) [OF C _ w] by simp
    then have "ipcs d H = LockSpin" by (cases "ipcs d H") simp_all
    with not_runs(3) [OF i] w show ?b by blast
  next
    assume b: ?b
    show "waits A' ?E H" by (rule clients_blocked [OF C, of H]) (use b in simp_all)
  qed
  have "\<exists>u. p_task_control_block k' (core_id (tcb ?k L)) = Some u \<and> 3 \<le> priority (tcb k' u)"
    if b: ?b and sw: "scheduler_switch_context (core_id (tcb ?k L)) ?k = Some k'" for k'
  proof -
    obtain h where h: "h \<noteq> H" "h \<in> {L, H}" "runs A' h" by (rule clients_blocked [OF C, of H]) (use b in simp_all)
    then have "StateItem L \<in> set (A' (ReadyList (core_id (tcb ?k L)) 3))"
      using runsD(5) [OF i h(3)] R wb b by (auto simp: ranks_ok_def rank_eq ready_list_of_def)
    then have "A' (ReadyList (core_id (tcb ?k L)) 3) \<noteq> []" by auto
    then show ?thesis by (rule switch_picks_urgent [OF i sw]) (auto simp: task_consts)
  qed
  with R wb show ?thesis by (auto simp: ranks_ok_def rank_eq)
qed

text \<open>LOW, MID and HIGH as the demo creates them, on a core that has just started.\<close>

definition inherit_tasks :: "(u32 \<times> u16 \<times> TaskPriorityLevel) list" where
  "inherit_tasks = [(0x9000, 4096, 1), (0xA000, 2048, 2), (0xB000, 2048, 3)]"

theorem mid_goes_silent_witness:
  "\<exists>k d. inherit_reach 0 (TcbPool 2 0) (TcbPool 2 2) {} k d \<and> ipcs d (TcbPool 2 2) = SleepSpin \<and>
     priority (tcb (ikern d) (TcbPool 2 0)) = 1 \<and> priority (tcb (ikern d) (TcbPool 2 2)) = 3"
proof -
  let ?L = "TcbPool 2 0" and ?H = "TcbPool 2 2" and ?A = "\<lambda>_. []"
  have ok: "system_ok bss_kernel ?A" by (rule bss_system_ok)
  have room: "has_room 2 inherit_tasks bss_kernel"
    by (simp add: has_room_def inherit_tasks_def task_consts HEAP_SIZE_BYTES_def bss_kernel_def)
  obtain k A where S: "core_started 0xF000 2 inherit_tasks bss_kernel ?A k A"
    by (rule core_started_ok [OF ok _ idle_core_bss room, where trap = "0xF000"]) simp_all
  note D = core_startedD [OF S]
  have n: "nth_task 2 bss_kernel i = TcbPool 2 i" for i by (simp add: nth_task_def bss_kernel_def)
  have i: "sinv {} k A" and e: "A (MutexBlockedList 0) = []" using D(1) D(4) [of "MutexBlockedList 0"] by (simp_all add: system_ok_def)
  have r: "runs A ?L" "runs A ?H" using D(2) [of 0] D(2) [of 2] by (simp_all add: n inherit_tasks_def)
  have rk: "rank (tcb k (nth_task 2 bss_kernel j)) = (clamp_prio (snd (snd (inherit_tasks ! j))), clamp_prio (snd (snd (inherit_tasks ! j))), 0)"
    if "j < length inherit_tasks" for j using D(11) [OF that] .
  have rank: "rank (tcb k ?L) = (1, 1, 0)" "rank (tcb k ?H) = (3, 3, 0)"
    using rk [of 0] rk [of 2] by (simp_all add: n inherit_tasks_def clamp_prio_def task_consts)
  have inv: "inherit_inv 0 ?L ?H (inherit_start 0 ?H k) A" by (rule inherit_inv_start [OF i e r rank])
  obtain u where u: "p_task_control_block k 2 = Some u" "created k u" "3 \<le> priority (tcb k u)"
    by (rule core_running [OF S, of 2]) (simp_all add: inherit_tasks_def clamp_prio_def task_consts that)
  have "u = ?H"
  proof -
    have "created bss_kernel u \<or> u = IdleTcb 2 \<or> (\<exists>j<length inherit_tasks. u = nth_task 2 bss_kernel j)"
      using S u(2) unfolding core_started_def by blast
    then have "u = IdleTcb 2 \<or> (\<exists>j<3. u = TcbPool 2 j)"
      by (simp add: n) (simp add: inherit_tasks_def created_def bss_kernel_def bss_tcb_def numeral_3_eq_3)
    then have "u \<in> {IdleTcb 2, ?L, TcbPool 2 1, ?H}" by (auto simp: less_Suc_eq numeral_3_eq_3 numeral_2_eq_2)
    moreover have "priority (tcb k (IdleTcb 2)) = 0" using S by (simp add: core_started_def task_consts)
    moreover have "priority (tcb k (TcbPool 2 1)) = 2"
      using rk [of 1] by (simp add: rank_eq n inherit_tasks_def clamp_prio_def task_consts)
    ultimately show ?thesis using u(3) rank(1) by (auto simp: rank_eq)
  qed
  then have cur: "p_task_control_block (ikern (inherit_start 0 ?H k)) 2 = Some ?H"
    using u(1) by (simp add: inherit_start_def mutex_set_inheritance_def mutex_init_def)
  obtain k' where k': "task_delay_ms 2 100 (ikern (inherit_start 0 ?H k)) = Some k'"
    by (rule inherit_sleep [OF inv _ cur, of 100]) (simp_all add: inherit_start_def that)
  let ?d = "at_pc ?H SleepSpin (inherit_start 0 ?H k\<lparr>ikern := k'\<rparr>)"
  have "high_task 0 2 ?H (inherit_start 0 ?H k) = Some ?d"
    using k' by (simp add: high_task_def inherit_start_def)
  then have reach: "inherit_reach 0 ?L ?H {} k ?d" by (intro r_into_rtranclp inherit_step.high [OF cur])
  from mid_goes_silent [OF i e r rank _ reach] reach show ?thesis
    by (intro exI [of _ k] exI [of _ ?d]) (simp add: at_pc_def)
qed

end
