(* ===== verification/Shared_Counter.thy ===== *)
theory Shared_Counter
  imports Lock_Clients
begin

text \<open>
  The shared counter of \<^verbatim>\<open>samples/rtos/multicore_full_demo/main.c\<close>: any number of tasks on any cores run \<open>mutex_counter_task\<close>,
  which increments \<open>g_shared_counter\<close> under \<open>g_counter_mutex\<close>. A task is a control point; the increment is a load and a store, so
  that two tasks inside the section at once could lose one. The tasks interleave with each other, with ticks and context
  switches on every core and with the steps of all other tasks. Console output has no step of its own: what it does to the kernel is
  the \<open>semaphore_give\<close> of an \<open>other_step\<close>.
\<close>

subsection \<open>The task\<close>

datatype counter_pc = CallLock | SpinLock | LoadCounter | StoreCounter u32 | StartWork | Work u64 | CallUnlock | CallDelay | SpinDelay

text \<open>\<open>increments\<close> is not a variable of the program: it counts the stores.\<close>

record shared =
  kern :: kernel
  pcs :: "tptr \<Rightarrow> counter_pc"
  g_shared_counter :: u32
  increments :: nat

definition goto :: "tptr \<Rightarrow> counter_pc \<Rightarrow> shared \<Rightarrow> shared" where
  "goto t p a = a\<lparr>pcs := (pcs a)(t := p)\<rparr>"

text \<open>\<open>busy_work_ms\<close> reads the tick once and then loops as long as this holds.\<close>

definition busy_work_ms :: "core \<Rightarrow> u64 \<Rightarrow> u64 \<Rightarrow> kernel \<Rightarrow> bool" where
  "busy_work_ms c start ms k \<longleftrightarrow> scheduler_get_tick_count c k - start < ms"

definition mutex_counter_task :: "mptr \<Rightarrow> core \<Rightarrow> tptr \<Rightarrow> shared \<Rightarrow> shared option" where
  "mutex_counter_task g_counter_mutex c t a =
     (case pcs a t of
        CallLock \<Rightarrow> do {
          (r, k) \<leftarrow> mutex_lock_enter g_counter_mutex c (- 1) (kern a);
          Some (goto t (case r of LockReturns _ \<Rightarrow> LoadCounter | LockBlocked \<Rightarrow> SpinLock) (a\<lparr>kern := k\<rparr>))
        }
      | SpinLock \<Rightarrow>
          Some (if current_state (tcb (kern a) t) = TASK_STATE_BLOCKED then a
                else (case mutex_lock_wake g_counter_mutex t (kern a) of _ \<Rightarrow> goto t LoadCounter a))
      | LoadCounter \<Rightarrow> Some (goto t (StoreCounter (g_shared_counter a)) a)
      | StoreCounter v \<Rightarrow> Some (goto t StartWork (a\<lparr>g_shared_counter := v + 1, increments := increments a + 1\<rparr>))
      | StartWork \<Rightarrow> Some (goto t (Work (scheduler_get_tick_count c (kern a))) a)
      | Work start \<Rightarrow> Some (if busy_work_ms c start 30 (kern a) then a else goto t CallUnlock a)
      | CallUnlock \<Rightarrow> do {
          k \<leftarrow> mutex_unlock g_counter_mutex (kern a);
          Some (goto t CallDelay (a\<lparr>kern := k\<rparr>))
        }
      | CallDelay \<Rightarrow> do {
          k \<leftarrow> task_delay_ms c 300 (kern a);
          Some (goto t SpinDelay (a\<lparr>kern := k\<rparr>))
        }
      | SpinDelay \<Rightarrow> Some (if current_state (tcb (kern a) t) = TASK_STATE_BLOCKED then a else goto t CallLock a))"

inductive counter_step :: "(kernel \<Rightarrow> kernel \<Rightarrow> bool) \<Rightarrow> mptr \<Rightarrow> tptr set \<Rightarrow> shared \<Rightarrow> shared \<Rightarrow> bool" for env m T where
  task: "t \<in> T \<Longrightarrow> p_task_control_block (kern a) c = Some t \<Longrightarrow> mutex_counter_task m c t a = Some a' \<Longrightarrow> counter_step env m T a a'"
| other: "env (kern a) k \<Longrightarrow> counter_step env m T a (a\<lparr>kern := k\<rparr>)"

text \<open>\<open>kmain\<close> initialises the mutex, and the tasks start at the top of their loops.\<close>

definition counter_start :: "mptr \<Rightarrow> kernel \<Rightarrow> shared" where
  "counter_start m k = \<lparr>kern = mutex_init m k, pcs = (\<lambda>_. CallLock), g_shared_counter = 0, increments = 0\<rparr>"

abbreviation counter_reach :: "(kernel \<Rightarrow> kernel \<Rightarrow> bool) \<Rightarrow> mptr \<Rightarrow> tptr set \<Rightarrow> kernel \<Rightarrow> shared \<Rightarrow> bool" where
  "counter_reach env m T k a \<equiv> rtranclp (counter_step env m T) (counter_start m k) a"

fun place_of :: "counter_pc \<Rightarrow> place" where
  "place_of CallLock = Outside"
| "place_of SpinLock = Entering"
| "place_of LoadCounter = Inside"
| "place_of (StoreCounter v) = Inside"
| "place_of StartWork = Inside"
| "place_of (Work start) = Inside"
| "place_of CallUnlock = Inside"
| "place_of CallDelay = Outside"
| "place_of SpinDelay = Sleeping"

definition in_section :: "counter_pc \<Rightarrow> bool" where
  "in_section p \<longleftrightarrow> place_of p = Inside"

subsection \<open>The invariant\<close>

definition counter_inv :: "mptr \<Rightarrow> tptr set \<Rightarrow> mptr set \<Rightarrow> shared \<Rightarrow> (lptr \<Rightarrow> iptr list) \<Rightarrow> bool" where
  "counter_inv m T U a A \<longleftrightarrow>
     clients_ok m T U (kern a) A (place_of \<circ> pcs a) \<and> g_shared_counter a = of_nat (increments a) \<and>
     (\<forall>t\<in>T. \<forall>v. pcs a t = StoreCounter v \<longrightarrow> v = g_shared_counter a)"

lemma counter_invD:
  assumes "counter_inv m T U a A"
  shows "clients_ok m T U (kern a) A (place_of \<circ> pcs a)" "g_shared_counter a = of_nat (increments a)"
    "\<And>t v. t \<in> T \<Longrightarrow> pcs a t = StoreCounter v \<Longrightarrow> v = g_shared_counter a"
  using assms by (auto simp: counter_inv_def)

lemma in_section_owner:
  "counter_inv m T U a A \<Longrightarrow> t \<in> T \<Longrightarrow> in_section (pcs a t) \<Longrightarrow> mutex_owner (mutexes (kern a) m) = Some t"
  using inside_owner [OF counter_invD(1)] by (simp add: in_section_def)

text \<open>A step that leaves the counter alone.\<close>

lemma counter_inv_to:
  assumes "counter_inv m T U a A" and "clients_ok m T U k A' ((place_of \<circ> pcs a)(t := place_of p))" and "\<And>v. p \<noteq> StoreCounter v"
  shows "counter_inv m T U (goto t p (a\<lparr>kern := k\<rparr>)) A'"
  using assms by (auto simp: counter_inv_def goto_def fun_upd_comp)

lemma counter_inv_goto:
  assumes "counter_inv m T U a A" and "place_of p = place_of (pcs a t)" and "\<And>v. p = StoreCounter v \<Longrightarrow> v = g_shared_counter a"
  shows "counter_inv m T U (goto t p a) A"
proof -
  have "(place_of \<circ> pcs a)(t := place_of p) = place_of \<circ> pcs a" using assms(2) by auto
  with assms(1,3) show ?thesis by (auto simp: counter_inv_def goto_def fun_upd_comp)
qed

text \<open>Every step of a task of the group is defined and keeps the invariant.\<close>

lemma counter_task_ok:
  assumes inv: "counter_inv m T U a A" and t: "t \<in> T" and cur: "p_task_control_block (kern a) c = Some t"
  obtains a' A' where "mutex_counter_task m c t a = Some a'" and "counter_inv m T U a' A'"
proof -
  note I = counter_invD [OF inv] and to = counter_inv_to [OF inv, where t = t]
  have k: "a\<lparr>kern := kern a\<rparr> = a" by simp
  show ?thesis
  proof (cases "pcs a t")
    case CallLock
    then have "(place_of \<circ> pcs a) t = Outside" by simp
    from I(1) t cur this show ?thesis
    proof (cases rule: clients_lock)
      case (free k)
      then show ?thesis by (intro that [OF _ to [of k A LoadCounter]]) (simp_all add: mutex_counter_task_def CallLock comp_def)
    next
      case (busy h k A')
      then show ?thesis by (intro that [OF _ to [of k A' SpinLock]]) (simp_all add: mutex_counter_task_def CallLock comp_def)
    qed
  next
    case CallUnlock
    then have "(place_of \<circ> pcs a) t = Inside" by simp
    from I(1) t this show ?thesis
    proof (cases rule: clients_unlock)
      case (free k A')
      then show ?thesis by (intro that [OF _ to [of k A' CallDelay]]) (simp_all add: mutex_counter_task_def CallUnlock comp_def)
    next
      case (handoff n k A')
      then show ?thesis by (intro that [OF _ to [of k A' CallDelay]]) (simp_all add: mutex_counter_task_def CallUnlock comp_def)
    qed
  next
    case CallDelay
    then have "(place_of \<circ> pcs a) t = Outside" by simp
    then obtain k A' where "task_delay_ms c 300 (kern a) = Some k" "clients_ok m T U k A' ((place_of \<circ> pcs a)(t := Sleeping))"
      by (rule clients_delay [OF I(1) t cur, of 300]) (rule that)
    then show ?thesis by (intro that [OF _ to [of k A' SpinDelay]]) (simp_all add: mutex_counter_task_def CallDelay comp_def)
  next
    case SpinLock
    have "counter_inv m T U (goto t LoadCounter a) A" if "current_state (tcb (kern a) t) \<noteq> TASK_STATE_BLOCKED"
      using to [of "kern a" A LoadCounter] clients_entered [OF I(1) t _ that] SpinLock by (simp add: k)
    with SpinLock inv show ?thesis
      by (cases "current_state (tcb (kern a) t) = TASK_STATE_BLOCKED") (auto simp: mutex_counter_task_def intro: that)
  next
    case SpinDelay
    have "counter_inv m T U (goto t CallLock a) A" if "current_state (tcb (kern a) t) \<noteq> TASK_STATE_BLOCKED"
      using to [of "kern a" A CallLock] clients_awoken [OF I(1) t _ that] SpinDelay by (simp add: k)
    with SpinDelay inv show ?thesis
      by (cases "current_state (tcb (kern a) t) = TASK_STATE_BLOCKED") (auto simp: mutex_counter_task_def intro: that)
  next
    case LoadCounter
    show ?thesis
      by (rule that [OF _ counter_inv_goto [OF inv, of "StoreCounter (g_shared_counter a)" t]]) (simp_all add: mutex_counter_task_def LoadCounter)
  next
    case (StoreCounter v)
    let ?a = "a\<lparr>g_shared_counter := v + 1, increments := increments a + 1\<rparr>"
    have own: "mutex_owner (mutexes (kern a) m) = Some t" by (rule in_section_owner [OF inv t]) (simp add: StoreCounter in_section_def)
    have v: "v = g_shared_counter a" by (rule I(3) [OF t StoreCounter])
    have none: "pcs a u \<noteq> StoreCounter w" if "u \<in> T" "u \<noteq> t" for u w
      using in_section_owner [OF inv that(1)] own that(2) by (fastforce simp: in_section_def)
    have "(place_of \<circ> pcs a)(t := Inside) = place_of \<circ> pcs a" using StoreCounter by auto
    then have "counter_inv m T U (goto t StartWork ?a) A"
      using I(1,2) none v by (auto simp: counter_inv_def goto_def fun_upd_comp)
    with StoreCounter show ?thesis by (intro that) (simp_all add: mutex_counter_task_def)
  next
    case StartWork
    show ?thesis
      by (rule that [OF _ counter_inv_goto [OF inv, of "Work (scheduler_get_tick_count c (kern a))" t]])
        (simp_all add: mutex_counter_task_def StartWork)
  next
    case (Work start)
    have "counter_inv m T U (goto t CallUnlock a) A" by (rule counter_inv_goto [OF inv]) (simp_all add: Work)
    with Work inv show ?thesis
      by (cases "busy_work_ms c start 30 (kern a)") (auto simp: mutex_counter_task_def intro: that)
  qed
qed

text \<open>In an environment that keeps the contract every reachable state satisfies the invariant.\<close>

lemma counter_inv_start:
  assumes "sinv {} k A" and "A (MutexBlockedList m) = []" and "\<forall>t\<in>T. runs A t" and "m \<notin> U" and "foreign_ok U k A"
  shows "counter_inv m T U (counter_start m k) A"
  using clients_start [OF assms] by (simp add: counter_inv_def counter_start_def comp_def)

context environment
begin

lemma counter_step_inv:
  assumes "counter_step env m T a a'" and inv: "counter_inv m T U a A" and M: "M = {m}"
  shows "\<exists>A'. counter_inv m T U a' A'"
  using assms(1)
proof cases
  case (task t c)
  then show ?thesis by (metis counter_task_ok [OF inv] option.inject)
next
  case (other k)
  obtain A' where "clients_ok m T U k A' (place_of \<circ> pcs a)" by (rule clients_step [OF other(2) counter_invD(1) [OF inv] M])
  with inv other(1) show ?thesis by (auto simp: counter_inv_def)
qed

lemma counter_reach_inv:
  assumes "counter_reach env m T k a" and "sinv {} k A" and "A (MutexBlockedList m) = []" and "\<forall>t\<in>T. runs A t"
    and "m \<notin> U" and "foreign_ok U k A" and M: "M = {m}"
  shows "\<exists>A'. counter_inv m T U a A'"
  using assms(1)
proof (induction rule: rtranclp_induct)
  case base
  show ?case using counter_inv_start [OF assms(2-6)] by blast
next
  case (step a a')
  then show ?case using counter_step_inv [OF _ _ M] by blast
qed

end

subsection \<open>The properties\<close>

text \<open>Claim C38 (invariant). The counter of the multicore demo is exact: however the tasks that run \<open>mutex_counter_task\<close> interleave with each
  other, on any cores, with ticks, context switches and the other tasks' kernel calls, at most one of them is between \<open>mutex_lock\<close> and
  \<open>mutex_unlock\<close>, and no increment of \<open>g_shared_counter\<close> is lost, although the program ignores the result of \<open>mutex_lock\<close>.\<close>

theorem counter_no_lost_update:
  assumes "sinv {} k A" and "A (MutexBlockedList m) = []" and "\<forall>t\<in>T. runs A t" and "m \<notin> U" and "foreign_ok U k A"
    and "counter_reach (other_step T {m} S U) m T k a"
  shows "g_shared_counter a = of_nat (increments a) \<and>
    (\<forall>t\<in>T. \<forall>u\<in>T. in_section (pcs a t) \<and> in_section (pcs a u) \<longrightarrow> t = u)"
proof (intro conjI ballI impI)
  obtain A' where inv: "counter_inv m T U a A'" using others.counter_reach_inv [OF assms(6,1-5) refl] by blast
  show "g_shared_counter a = of_nat (increments a)" by (rule counter_invD(2) [OF inv])
  show "t = u" if "t \<in> T" "u \<in> T" "in_section (pcs a t) \<and> in_section (pcs a u)" for t u
    using in_section_owner [OF inv that(1)] in_section_owner [OF inv that(2)] that(3) by simp
qed

text \<open>Two tasks on core 2: the first increments the counter, and when it still holds the mutex the second tries to get it.\<close>

definition demo_group :: "tptr set" where
  "demo_group = {TcbPool 2 0, TcbPool 2 (Suc 0)}"

lemma demo_group_facts:
  shows "demo_lists (MutexBlockedList 0) = []" and "\<forall>t\<in>demo_group. runs demo_lists t"
  by (auto simp: demo_lists_def demo_group_def runs_def)

lemma demo_group_alone: "0 \<notin> {}" "foreign_ok {} k A"
  by (simp_all add: foreign_ok_def)

lemma demo_lock:
  obtains k where "mutex_lock_enter 0 2 (- 1) (mutex_init 0 demo_kernel) = Some (LockReturns E_OK, k)"
    and "p_task_control_block k 2 = Some (TcbPool 2 0)" and "scheduler_switch_context 2 k = Some demo_locked"
proof -
  have "p_task_control_block (mutex_init 0 demo_kernel) 2 = Some (TcbPool 2 0)" by (simp add: mutex_init_def demo_kernel_facts)
  then show ?thesis
    using demo_locked_facts(8)
    by (intro that [of "snd (the (mutex_lock_enter 0 2 0 (mutex_init 0 demo_kernel)))"])
      (simp_all add: mutex_lock_enter_def scheduler_get_current_task_def mutex_init_def Let_def)
qed

lemma demo_first_lock:
  obtains a where "counter_reach env 0 demo_group demo_kernel a" and "p_task_control_block (kern a) 2 = Some (TcbPool 2 0)"
    and "scheduler_switch_context 2 (kern a) = Some demo_locked" and "increments a = 0" and "pcs a (TcbPool 2 0) = LoadCounter"
    and "pcs a (TcbPool 2 (Suc 0)) = CallLock"
proof -
  let ?a0 = "counter_start 0 demo_kernel" and ?t = "TcbPool 2 0"
  obtain k where k: "mutex_lock_enter 0 2 (- 1) (mutex_init 0 demo_kernel) = Some (LockReturns E_OK, k)"
    "p_task_control_block k 2 = Some ?t" "scheduler_switch_context 2 k = Some demo_locked" by (rule demo_lock)
  have "p_task_control_block (kern ?a0) 2 = Some ?t" by (simp add: counter_start_def mutex_init_def demo_kernel_facts)
  moreover have "mutex_counter_task 0 2 ?t ?a0 = Some (goto ?t LoadCounter (?a0\<lparr>kern := k\<rparr>))"
    by (simp add: mutex_counter_task_def counter_start_def k(1))
  moreover have "?t \<in> demo_group" by (simp add: demo_group_def)
  ultimately have "counter_step env 0 demo_group ?a0 (goto ?t LoadCounter (?a0\<lparr>kern := k\<rparr>))" by (intro counter_step.task)
  then show ?thesis
    by (intro that [of "goto ?t LoadCounter (?a0\<lparr>kern := k\<rparr>)"] r_into_rtranclp) (simp_all add: goto_def counter_start_def k(2,3))
qed

theorem counter_no_lost_update_witness:
  "\<exists>a. counter_reach (other_step demo_group {0} {} {}) 0 demo_group demo_kernel a \<and> increments a = 1 \<and> g_shared_counter a = 1"
proof -
  let ?t = "TcbPool 2 0" and ?step = "counter_step (other_step demo_group {0} {} {}) 0 demo_group"
  obtain a where a: "counter_reach (other_step demo_group {0} {} {}) 0 demo_group demo_kernel a"
    "p_task_control_block (kern a) 2 = Some ?t" "increments a = 0" "pcs a ?t = LoadCounter"
    by (rule demo_first_lock)
  have t: "?t \<in> demo_group" by (simp add: demo_group_def)
  define b where "b = goto ?t (StoreCounter (g_shared_counter a)) a"
  define d where "d = goto ?t StartWork (b\<lparr>g_shared_counter := g_shared_counter a + 1, increments := increments b + 1\<rparr>)"
  have "?step a b" by (rule counter_step.task [OF t a(2)]) (simp add: mutex_counter_task_def a(4) b_def)
  moreover have "?step b d" by (rule counter_step.task [OF t, of _ 2]) (simp_all add: mutex_counter_task_def a(2) d_def, simp_all add: b_def goto_def a(2))
  ultimately have "counter_reach (other_step demo_group {0} {} {}) 0 demo_group demo_kernel d" using a(1) by (meson rtranclp.rtrancl_into_rtrancl)
  moreover have "increments d = 1" by (simp add: d_def b_def goto_def a(3))
  ultimately show ?thesis
    using counter_no_lost_update [OF demo_kernel_facts(2) demo_group_facts demo_group_alone] by fastforce
qed

text \<open>Claim C39 (liveness). The demo cannot get stuck: the step of a task that a core runs is always defined, and while a task waits in
  \<open>mutex_lock\<close> some task of the group owns the mutex, is in the section or about to enter it, and is ready to run.\<close>

theorem counter_not_stuck:
  assumes "sinv {} k A" and "A (MutexBlockedList m) = []" and "\<forall>t\<in>T. runs A t" and "m \<notin> U" and "foreign_ok U k A"
    and "counter_reach (other_step T {m} S U) m T k a"
    and "t \<in> T"
  shows "(p_task_control_block (kern a) c = Some t \<longrightarrow> mutex_counter_task m c t a \<noteq> None) \<and>
    (pcs a t = SpinLock \<longrightarrow> current_state (tcb (kern a) t) = TASK_STATE_BLOCKED \<longrightarrow>
      (\<exists>h\<in>T. mutex_owner (mutexes (kern a) m) = Some h \<and> (in_section (pcs a h) \<or> pcs a h = SpinLock) \<and>
             current_state (tcb (kern a) h) \<in> {TASK_STATE_READY, TASK_STATE_RUNNING}))"
proof (rule conjI)
  obtain A' where inv: "counter_inv m T U a A'" using others.counter_reach_inv [OF assms(6,1-5) refl] by blast
  note I = counter_invD [OF inv]
  show "p_task_control_block (kern a) c = Some t \<longrightarrow> mutex_counter_task m c t a \<noteq> None"
    using counter_task_ok [OF inv assms(7), of c] by auto
  show "pcs a t = SpinLock \<longrightarrow> current_state (tcb (kern a) t) = TASK_STATE_BLOCKED \<longrightarrow>
      (\<exists>h\<in>T. mutex_owner (mutexes (kern a) m) = Some h \<and> (in_section (pcs a h) \<or> pcs a h = SpinLock) \<and>
             current_state (tcb (kern a) h) \<in> {TASK_STATE_READY, TASK_STATE_RUNNING})"
  proof (intro impI)
    assume pc: "pcs a t = SpinLock" and b: "current_state (tcb (kern a) t) = TASK_STATE_BLOCKED"
    obtain h where h: "mutex_owner (mutexes (kern a) m) = Some h" "h \<in> T" "runs A' h"
      "(place_of \<circ> pcs a) h = Inside \<or> (place_of \<circ> pcs a) h = Entering"
      by (rule clients_blocked [OF I(1) assms(7) _ b]) (simp_all add: pc that)
    have "in_section (pcs a h) \<or> pcs a h = SpinLock" using h(4) by (cases "pcs a h") (simp_all add: in_section_def)
    with h(1,2) runsD(2) [OF clientsD(1) [OF I(1)] h(3)] show "\<exists>h\<in>T. mutex_owner (mutexes (kern a) m) = Some h \<and>
        (in_section (pcs a h) \<or> pcs a h = SpinLock) \<and> current_state (tcb (kern a) h) \<in> {TASK_STATE_READY, TASK_STATE_RUNNING}"
      by blast
  qed
qed

theorem counter_not_stuck_witness:
  "\<exists>a. counter_reach (other_step demo_group {0} {} {}) 0 demo_group demo_kernel a \<and> pcs a (TcbPool 2 (Suc 0)) = SpinLock \<and>
     (\<exists>h\<in>demo_group. in_section (pcs a h) \<or> pcs a h = SpinLock)"
proof -
  let ?t = "TcbPool 2 0" and ?u = "TcbPool 2 (Suc 0)" and ?step = "counter_step (other_step demo_group {0} {} {}) 0 demo_group"
  note L = demo_locked_facts
  obtain a where a: "counter_reach (other_step demo_group {0} {} {}) 0 demo_group demo_kernel a"
    "p_task_control_block (kern a) 2 = Some ?t" "scheduler_switch_context 2 (kern a) = Some demo_locked" "pcs a ?u = CallLock"
    by (rule demo_first_lock)
  obtain s' where s': "mutex_lock_enter 0 2 (- 1) demo_locked = Some (LockBlocked, s')"
    "current_state (tcb s' ?u) = TASK_STATE_BLOCKED"
    by (rule mutex_lock_blocks [OF L(1,2,3,4,6), of "- 1"]) (simp_all add: L task_consts that)
  have "?step a (a\<lparr>kern := demo_locked\<rparr>)" by (rule counter_step.other) (rule other_step.switch [OF a(3)])
  moreover have "?step (a\<lparr>kern := demo_locked\<rparr>) (goto ?u SpinLock (a\<lparr>kern := s'\<rparr>))"
    by (rule counter_step.task [of ?u _ _ 2]) (use L(2) in \<open>simp_all add: demo_group_def can_run_def mutex_counter_task_def a(4) s'(1)\<close>)
  ultimately have reach: "counter_reach (other_step demo_group {0} {} {}) 0 demo_group demo_kernel (goto ?u SpinLock (a\<lparr>kern := s'\<rparr>))"
    using a(1) by (meson rtranclp.rtrancl_into_rtrancl)
  have u: "?u \<in> demo_group" by (simp add: demo_group_def)
  let ?b = "goto ?u SpinLock (a\<lparr>kern := s'\<rparr>)"
  have pc: "pcs ?b ?u = SpinLock" "current_state (tcb (kern ?b) ?u) = TASK_STATE_BLOCKED" using s'(2) by (simp_all add: goto_def)
  then have "\<exists>h\<in>demo_group. in_section (pcs ?b h) \<or> pcs ?b h = SpinLock"
    using counter_not_stuck [OF demo_kernel_facts(2) demo_group_facts demo_group_alone reach u] by blast
  with reach pc(1) show ?thesis by blast
qed

end
