(* ===== verification/Handshake.thy ===== *)
theory Handshake
  imports Shared_Counter
begin

text \<open>
  The producer and the consumer of \<^verbatim>\<open>samples/rtos/multicore_full_demo/main.c\<close>, on two cores: the producer works on a batch, gives
  \<open>g_data_ready_sem\<close> and waits for \<open>g_processing_done_sem\<close>; the consumer waits for the first, works on the batch, gives the second.
  Each is a control point, a batch number and the calls it makes; the calls are the critical sections of \<^verbatim>\<open>Semaphore\<close>.
\<close>

subsection \<open>The two tasks\<close>

datatype batch_pc = StartBatch | BusyBatch u64 | CallGive | CallTake | SpinTake | NextBatch

record handshake =
  hkern :: kernel
  producer_pc :: batch_pc
  producer_batch :: u32
  consumer_pc :: batch_pc
  consumer_batch :: u32

definition SEMAPHORE_TAKE_BLOCKING :: u64 where
  "SEMAPHORE_TAKE_BLOCKING = - 1"

text \<open>The two halves of \<open>semaphore_take (.., SEMAPHORE_TAKE_BLOCKING)\<close>, with the control point each leads to; \<open>done\<close> is where the call returns to.\<close>

definition take_section :: "sptr \<Rightarrow> core \<Rightarrow> tptr \<Rightarrow> batch_pc \<Rightarrow> kernel \<Rightarrow> (batch_pc \<times> kernel) option" where
  "take_section x c t done k = do {
     (r, k') \<leftarrow> semaphore_take_try x c t SEMAPHORE_TAKE_BLOCKING (take_deadline c SEMAPHORE_TAKE_BLOCKING k) k;
     Some (case r of TakeReturns _ \<Rightarrow> done | TakeBlocked \<Rightarrow> SpinTake | TakeRetries \<Rightarrow> CallTake, k')
   }"

definition spin_section :: "tptr \<Rightarrow> batch_pc \<Rightarrow> kernel \<Rightarrow> batch_pc \<times> kernel" where
  "spin_section t done k =
     (if current_state (tcb k t) = TASK_STATE_BLOCKED then (SpinTake, k)
      else (case semaphore_take_wake t k of
              (TakeRetries, k') \<Rightarrow> (CallTake, k')
            | (_, k') \<Rightarrow> (done, k')))"

definition handshake_producer_task :: "sptr \<Rightarrow> sptr \<Rightarrow> core \<Rightarrow> tptr \<Rightarrow> handshake \<Rightarrow> handshake option" where
  "handshake_producer_task data_ready processing_done c t h =
     (case producer_pc h of
        StartBatch \<Rightarrow> Some (h\<lparr>producer_pc := BusyBatch (scheduler_get_tick_count c (hkern h))\<rparr>)
      | BusyBatch start \<Rightarrow> Some (if busy_work_ms c start 700 (hkern h) then h else h\<lparr>producer_pc := CallGive\<rparr>)
      | CallGive \<Rightarrow> do { (_, k) \<leftarrow> semaphore_give data_ready (hkern h); Some (h\<lparr>producer_pc := CallTake, hkern := k\<rparr>) }
      | CallTake \<Rightarrow> do { (p, k) \<leftarrow> take_section processing_done c t NextBatch (hkern h); Some (h\<lparr>producer_pc := p, hkern := k\<rparr>) }
      | SpinTake \<Rightarrow> (let (p, k) = spin_section t NextBatch (hkern h) in Some (h\<lparr>producer_pc := p, hkern := k\<rparr>))
      | NextBatch \<Rightarrow> Some (h\<lparr>producer_pc := StartBatch, producer_batch := producer_batch h + 1\<rparr>))"

definition handshake_consumer_task :: "sptr \<Rightarrow> sptr \<Rightarrow> core \<Rightarrow> tptr \<Rightarrow> handshake \<Rightarrow> handshake option" where
  "handshake_consumer_task data_ready processing_done c t h =
     (case consumer_pc h of
        CallTake \<Rightarrow> do { (p, k) \<leftarrow> take_section data_ready c t StartBatch (hkern h); Some (h\<lparr>consumer_pc := p, hkern := k\<rparr>) }
      | SpinTake \<Rightarrow> (let (p, k) = spin_section t StartBatch (hkern h) in Some (h\<lparr>consumer_pc := p, hkern := k\<rparr>))
      | StartBatch \<Rightarrow> Some (h\<lparr>consumer_pc := BusyBatch (scheduler_get_tick_count c (hkern h))\<rparr>)
      | BusyBatch start \<Rightarrow> Some (if busy_work_ms c start 1800 (hkern h) then h else h\<lparr>consumer_pc := CallGive\<rparr>)
      | CallGive \<Rightarrow> do { (_, k) \<leftarrow> semaphore_give processing_done (hkern h); Some (h\<lparr>consumer_pc := NextBatch, hkern := k\<rparr>) }
      | NextBatch \<Rightarrow> Some (h\<lparr>consumer_pc := CallTake, consumer_batch := consumer_batch h + 1\<rparr>))"

inductive handshake_step :: "(kernel \<Rightarrow> kernel \<Rightarrow> bool) \<Rightarrow> sptr \<Rightarrow> sptr \<Rightarrow> tptr \<Rightarrow> tptr \<Rightarrow> handshake \<Rightarrow> handshake \<Rightarrow> bool"
  for env R D P C where
  producer: "p_task_control_block (hkern h) c = Some P \<Longrightarrow> handshake_producer_task R D c P h = Some h' \<Longrightarrow> handshake_step env R D P C h h'"
| consumer: "p_task_control_block (hkern h) c = Some C \<Longrightarrow> handshake_consumer_task R D c C h = Some h' \<Longrightarrow> handshake_step env R D P C h h'"
| other: "env (hkern h) k \<Longrightarrow> handshake_step env R D P C h (h\<lparr>hkern := k\<rparr>)"

text \<open>\<open>kmain\<close> creates both semaphores empty, with room for one token.\<close>

definition handshake_start :: "sptr \<Rightarrow> sptr \<Rightarrow> kernel \<Rightarrow> handshake" where
  "handshake_start R D k = \<lparr>hkern = semaphore_init D 1 0 (semaphore_init R 1 0 k),
     producer_pc = StartBatch, producer_batch = 0, consumer_pc = CallTake, consumer_batch = 0\<rparr>"

subsection \<open>The invariant\<close>

text \<open>A token goes round: a side has it in its hands while it works, finds it in the semaphore it takes from, or is woken with it.
  \<open>turn\<close> says whether it is on this side.\<close>

definition side_ok :: "bool \<Rightarrow> bool \<Rightarrow> batch_pc \<Rightarrow> sptr \<Rightarrow> kernel \<Rightarrow> (lptr \<Rightarrow> iptr list) \<Rightarrow> tptr \<Rightarrow> bool" where
  "side_ok turn working p x k A t \<longleftrightarrow>
     (if working then turn \<and> runs A t \<and> sem_count (semaphores k x) = 0
      else if p = SpinTake
      then sem_count (semaphores k x) = 0 \<and>
           (if turn then runs A t \<and> wakeup_reason (tcb k t) = WAKEUP_REASON_RESOURCE_ACQUIRED
            else waits A (SemaphoreBlockedList x) t \<and> \<not> timed A t)
      else runs A t \<and> sem_count (semaphores k x) = (if turn then 1 else 0)) \<and>
     max_count (semaphores k x) = 1 \<and> (\<forall>u. waits A (SemaphoreBlockedList x) u \<longrightarrow> u = t)"

fun producer_works :: "batch_pc \<Rightarrow> bool" where
  "producer_works CallTake = False"
| "producer_works SpinTake = False"
| "producer_works _ = True"

fun consumer_works :: "batch_pc \<Rightarrow> bool" where
  "consumer_works StartBatch = True"
| "consumer_works (BusyBatch start) = True"
| "consumer_works CallGive = True"
| "consumer_works _ = False"

text \<open>The batch numbers differ by the increments that are still to be made.\<close>

definition batches_ok :: "bool \<Rightarrow> handshake \<Rightarrow> bool" where
  "batches_ok turn h \<longleftrightarrow>
     producer_batch h + of_bool (turn \<and> producer_pc h \<in> {CallTake, SpinTake, NextBatch}) =
     consumer_batch h + of_bool (consumer_pc h = NextBatch)"

definition handshake_inv :: "sptr \<Rightarrow> sptr \<Rightarrow> tptr \<Rightarrow> tptr \<Rightarrow> mptr set \<Rightarrow> handshake \<Rightarrow> (lptr \<Rightarrow> iptr list) \<Rightarrow> bool \<Rightarrow> bool" where
  "handshake_inv R D P C U h A turn \<longleftrightarrow>
     sinv {} (hkern h) A \<and> foreign_ok U (hkern h) A \<and> batches_ok turn h \<and>
     side_ok turn (producer_works (producer_pc h)) (producer_pc h) D (hkern h) A P \<and>
     side_ok (\<not> turn) (consumer_works (consumer_pc h)) (consumer_pc h) R (hkern h) A C"

lemma side_ok_frame:
  assumes "side_ok turn w p x k A t" and "undisturbed A A' t" and "semaphores k' x = semaphores k x"
    and "wakeup_reason (tcb k' t) = wakeup_reason (tcb k t)"
    and "\<And>u. waits A' (SemaphoreBlockedList x) u \<Longrightarrow> waits A (SemaphoreBlockedList x) u"
  shows "side_ok turn w p x k' A' t"
  using assms by (auto simp: side_ok_def undisturbed_def)

lemma side_ok_not_timed: "sinv {} k A \<Longrightarrow> side_ok turn w p x k A t \<Longrightarrow> \<not> timed A t"
  using runsD(3) by (auto simp: side_ok_def split: if_splits)

lemma side_ok_waits:
  assumes "sinv {} k A" and "side_ok turn w p x k A t" and "waits A L t"
  shows "L = SemaphoreBlockedList x" "\<not> w" "p = SpinTake" "\<not> turn"
proof -
  have "\<not> runs A t" by (rule not_runs(1) [OF assms(1)]) (use assms(3) in blast)
  with assms(2) show w: "\<not> w" "p = SpinTake" "\<not> turn" by (auto simp: side_ok_def split: if_splits)
  have "waits A (SemaphoreBlockedList x) t" using assms(2) w by (simp add: side_ok_def)
  with assms(3) wfl_disjoint [OF sinvD(1) [OF assms(1)], of "EventItem t" L] show "L = SemaphoreBlockedList x"
    by (auto simp: waits_def)
qed

subsection \<open>The calls\<close>

text \<open>What a call of one side leaves alone: every other task, the other semaphore, and the mutexes of the other tasks.\<close>

definition only_touches :: "sptr \<Rightarrow> tptr \<Rightarrow> kernel \<Rightarrow> (lptr \<Rightarrow> iptr list) \<Rightarrow> kernel \<Rightarrow> (lptr \<Rightarrow> iptr list) \<Rightarrow> bool" where
  "only_touches x t k A k' A' \<longleftrightarrow>
     (\<forall>u. u \<noteq> t \<longrightarrow> undisturbed A A' u \<and> wakeup_reason (tcb k' u) = wakeup_reason (tcb k u)) \<and>
     (\<forall>y. y \<noteq> x \<longrightarrow> semaphores k' y = semaphores k y \<and> \<not> waits A' (SemaphoreBlockedList y) t) \<and>
     (\<forall>U. foreign_ok U k A \<longrightarrow> foreign_ok U k' A')"

lemma foreign_ok_touched: "only_touches x t k A k' A' \<Longrightarrow> foreign_ok U k A \<Longrightarrow> foreign_ok U k' A'"
  by (simp add: only_touches_def)

text \<open>A step that moves no task.\<close>

lemma foreign_ok_same:
  "foreign_ok U k A \<Longrightarrow> sinv {} k' A \<Longrightarrow> mutexes k' = mutexes k \<Longrightarrow> (\<And>u. created k' u = created k u) \<Longrightarrow> foreign_ok U k' A"
  by (rule foreign_ok_kept) simp_all

lemma side_ok_other:
  assumes "only_touches x t k A k' A'" and "side_ok turn w p y k A u" and "u \<noteq> t" and "y \<noteq> x"
  shows "side_ok turn w p y k' A' u"
proof (rule side_ok_frame [OF assms(2)])
  fix v assume "waits A' (SemaphoreBlockedList y) v"
  then show "waits A (SemaphoreBlockedList y) v"
    using assms(1,4) by (cases "v = t") (auto simp: only_touches_def undisturbed_def)
qed (use assms(1,3,4) in \<open>auto simp: only_touches_def\<close>)

lemma give_call:
  assumes i: "sinv {} k A" and s: "side_ok False w p x k A t"
  obtains k' A' where "semaphore_give x k = Some (E_OK, k')" and "sinv {} k' A'" and "side_ok True w p x k' A' t"
    and "only_touches x t k A k' A'"
proof (cases "A (SemaphoreBlockedList x)")
  case Nil
  let ?k = "upd_sem x (\<lambda>m. m\<lparr>sem_count := sem_count m + 1\<rparr>) k"
  have p: "\<not> w" "p \<noteq> SpinTake" "runs A t" "sem_count (semaphores k x) = 0" "max_count (semaphores k x) = 1"
    using s Nil by (auto simp: side_ok_def waits_def split: if_splits)
  have "semaphore_give x k = Some (E_OK, ?k)"
    using wfl_num_items_0 [OF sinvD(1) [OF i], of "SemaphoreBlockedList x"] Nil p by (simp add: semaphore_give_def)
  moreover have "side_ok True w p x ?k A t" using s p by (simp add: side_ok_def)
  moreover have "only_touches x t k A ?k A"
    using runsD(4) [OF i p(3)] foreign_ok_same [OF _ sinv_upd_sem [OF i]] by (auto simp: only_touches_def created_def)
  ultimately show ?thesis using sinv_upd_sem [OF i] by (intro that)
next
  case (Cons h ys)
  then obtain u where u: "A (SemaphoreBlockedList x) = EventItem u # ys"
    using typed_event(2) [OF sinvD(2) [OF i], of h x] by auto
  then have w: "waits A (SemaphoreBlockedList x) u" by (simp add: waits_def)
  then have ut: "u = t" using s by (simp add: side_ok_def)
  note W = side_ok_waits [OF i s w [unfolded ut]]
  note dist = wfl_distinct [OF sinvD(1) [OF i]]
  obtain k' where k': "semaphore_give x k = Some (E_OK, k')" "sinv {} k' (woken k t A)"
    "tcb k' = (tcb k)(t := (tcb k t)\<lparr>wakeup_reason := WAKEUP_REASON_RESOURCE_ACQUIRED, current_state := TASK_STATE_READY\<rparr>)"
    "semaphores k' = semaphores k" "mutexes k' = mutexes k"
    by (rule semaphore_give_sinv [OF i u [unfolded ut]]) (rule that)
  have wt: "waits A (SemaphoreBlockedList x) v" if "waits (woken k t A) (SemaphoreBlockedList x) v" for v
    using that woken_other [of v t A k] woken_self(3) [OF dist] by (cases "v = t") (auto simp: undisturbed_def)
  have "side_ok True w p x k' (woken k t A) t"
    using s W wt woken_self(1) [OF dist] by (auto simp: side_ok_def k'(3,4))
  moreover have "only_touches x t k A k' (woken k t A)"
    using woken_other woken_self(3) [OF dist] foreign_ok_one [where t = t, OF _ k'(2,5) _ woken_other]
    by (auto simp: only_touches_def created_def k'(3,4))
  ultimately show ?thesis using k'(1,2) by (intro that)
qed

lemma take_call:
  assumes i: "sinv {} k A" and cur: "p_task_control_block k c = Some t" and s: "side_ok turn False CallTake x k A t"
  obtains p k' A' where "take_section x c t done k = Some (p, k')" and "sinv {} k' A'"
    and "p = (if turn then done else SpinTake)" and "side_ok turn turn p x k' A' t" and "only_touches x t k A k' A'"
proof -
  have p: "runs A t" "sem_count (semaphores k x) = (if turn then 1 else 0)" "max_count (semaphores k x) = 1"
    and w: "\<And>u. waits A (SemaphoreBlockedList x) u \<Longrightarrow> u = t"
    using s by (auto simp: side_ok_def split: if_splits)
  have can: "can_run k c t" by (rule runs_can_run [OF i p(1) cur])
  note C = can_runD [OF i can, simplified]
  let ?E = "SemaphoreBlockedList x"
  have bl: "SEMAPHORE_TAKE_BLOCKING \<noteq> 0" "\<not> sint SEMAPHORE_TAKE_BLOCKING > 0" by (simp_all add: SEMAPHORE_TAKE_BLOCKING_def)
  show ?thesis
  proof (cases turn)
    case True
    let ?k = "upd_sem x (\<lambda>m. m\<lparr>sem_count := sem_count m - 1\<rparr>) k"
    have "take_section x c t done k = Some (done, ?k)" using p True by (simp add: take_section_def semaphore_take_try_def)
    moreover have "side_ok True True done x ?k A t" using p w True by (simp add: side_ok_def)
    moreover have "only_touches x t k A ?k A"
      using runsD(4) [OF i p(1)] foreign_ok_same [OF _ sinv_upd_sem [OF i]] by (auto simp: only_touches_def created_def)
    ultimately show ?thesis using sinv_upd_sem [OF i] True by (intro that) auto
  next
    case False
    let ?d = "take_deadline c SEMAPHORE_TAKE_BLOCKING k"
    have none: "take_wait SEMAPHORE_TAKE_BLOCKING ?d = None" using bl by (simp add: take_wait_def)
    obtain k' where k': "block_on ?E t None k = Some k'" "sinv {} k' (blocked_on k ?E t None A)" (is "sinv {} k' ?A")
      "\<And>u. u \<noteq> t \<Longrightarrow> tcb k' u = tcb k u" "semaphores k' = semaphores k" "mutexes k' = mutexes k"
      by (rule sinv_block_on [OF i C(1) _ C(3,4), of ?E None]) (simp_all add: that)
    have "take_section x c t done k = Some (SpinTake, k')"
      using take_try_blocks [where s = k and m = x and timeout_ms = SEMAPHORE_TAKE_BLOCKING and c = c and deadline = ?d and t = t] p False bl k'(1) none by (simp add: take_section_def)
    moreover have "side_ok False False SpinTake x k' ?A t"
      using blocked_on_self [OF i p(1), of ?E None] blocked_on_other [of ?E _ t A k None] w p False
      by (auto simp: side_ok_def k'(4) undisturbed_def)
    moreover have "only_touches x t k A k' ?A"
      using blocked_on_self(3) [OF i p(1), of ?E None] blocked_on_other [of ?E _ t A k None]
        foreign_ok_one [where t = t, OF _ k'(2,5) steady_created [OF steady_block_on [OF k'(1)]] blocked_on_other]
      by (auto simp: only_touches_def k'(3,4))
    ultimately show ?thesis using k'(2) False by (intro that) auto
  qed
qed

lemma spin_call:
  assumes i: "sinv {} k A" and s: "side_ok turn False SpinTake x k A t"
  obtains p k' where "spin_section t done k = (p, k')" and "sinv {} k' A"
    and "p = (if turn then done else SpinTake)" and "side_ok turn turn p x k' A t" and "only_touches x t k A k' A"
proof (cases turn)
  case True
  then have p: "runs A t" "wakeup_reason (tcb k t) = WAKEUP_REASON_RESOURCE_ACQUIRED" using s by (simp_all add: side_ok_def)
  let ?k = "upd_tcb t (\<lambda>b. b\<lparr>wakeup_reason := WAKEUP_REASON_NONE\<rparr>) k"
  have i': "sinv {} ?k A" by (rule sinv_upd_other [OF i]) simp_all
  moreover have "spin_section t done k = (done, ?k)"
    using runsD(2) [OF i p(1)] p(2) by (auto simp: spin_section_def semaphore_take_wake_def)
  moreover have "side_ok True True done x ?k A t" using s True by (simp add: side_ok_def)
  moreover have "only_touches x t k A ?k A"
    using runsD(4) [OF i p(1)] foreign_ok_same [OF _ i'] by (auto simp: only_touches_def created_def)
  ultimately show ?thesis using True by (intro that) auto
next
  case False
  then have w: "waits A (SemaphoreBlockedList x) t" using s by (simp add: side_ok_def)
  have "spin_section t done k = (SpinTake, k)" using not_runs(3) [OF i, of "SemaphoreBlockedList x" t] w by (simp add: spin_section_def)
  moreover have "only_touches x t k A k A" using side_ok_waits(1) [OF i s] by (auto simp: only_touches_def)
  ultimately show ?thesis using i s False by (intro that) auto
qed

subsection \<open>The steps\<close>

lemma handshake_invD:
  assumes "handshake_inv R D P C U h A turn"
  shows "sinv {} (hkern h) A" "batches_ok turn h"
    "side_ok turn (producer_works (producer_pc h)) (producer_pc h) D (hkern h) A P"
    "side_ok (\<not> turn) (consumer_works (consumer_pc h)) (consumer_pc h) R (hkern h) A C" "foreign_ok U (hkern h) A"
  using assms by (simp_all add: handshake_inv_def)

lemma side_working: "side_ok turn True p x k A t \<Longrightarrow> turn"
  by (simp add: side_ok_def)

lemma side_moves: "side_ok turn w p x k A t \<Longrightarrow> p \<noteq> SpinTake \<Longrightarrow> p' \<noteq> SpinTake \<Longrightarrow> side_ok turn w p' x k A t"
  by (simp add: side_ok_def split: if_splits)

text \<open>Working without the token is impossible, so a side that hands it on ends up at the top of its \<open>semaphore_take\<close>.\<close>

lemma side_gives: "side_ok True True p x k A t \<Longrightarrow> p' \<noteq> SpinTake \<Longrightarrow> side_ok False False p' x k A t"
  by (simp add: side_ok_def)

lemma producer_step_ok:
  assumes inv: "handshake_inv R D P C U h A turn" and cur: "p_task_control_block (hkern h) c = Some P"
    and ne: "P \<noteq> C" "R \<noteq> D"
  obtains h' A' turn' where "handshake_producer_task R D c P h = Some h'" and "handshake_inv R D P C U h' A' turn'"
proof -
  note I = handshake_invD [OF inv]
  have working: "turn" if "producer_works (producer_pc h)" using I(3) that by (simp add: side_ok_def)
  show ?thesis
  proof (cases "producer_pc h")
    case StartBatch
    then have "handshake_inv R D P C U (h\<lparr>producer_pc := BusyBatch (scheduler_get_tick_count c (hkern h))\<rparr>) A turn"
      using I side_moves [of turn True StartBatch D "hkern h" A P] by (simp add: handshake_inv_def batches_ok_def)
    with StartBatch show ?thesis by (intro that) (simp_all add: handshake_producer_task_def)
  next
    case (BusyBatch start)
    then have "handshake_inv R D P C U (h\<lparr>producer_pc := CallGive\<rparr>) A turn"
      using I side_moves [of turn True "BusyBatch start" D "hkern h" A P] by (simp add: handshake_inv_def batches_ok_def)
    with BusyBatch inv show ?thesis
      by (cases "busy_work_ms c start 700 (hkern h)") (auto simp: handshake_producer_task_def intro: that)
  next
    case CallGive
    then have turn using working by simp
    then have s: "side_ok False (consumer_works (consumer_pc h)) (consumer_pc h) R (hkern h) A C" using I(4) by simp
    obtain k A' where k: "semaphore_give R (hkern h) = Some (E_OK, k)" "sinv {} k A'"
      "side_ok True (consumer_works (consumer_pc h)) (consumer_pc h) R k A' C" "only_touches R C (hkern h) A k A'"
      by (rule give_call [OF I(1) s])
    have "side_ok False False CallTake D k A' P"
      using side_gives [OF side_ok_other [OF k(4) _ ne(1)], of CallGive D CallTake] I(3) CallGive \<open>turn\<close> ne(2) by simp
    then have "handshake_inv R D P C U (h\<lparr>producer_pc := CallTake, hkern := k\<rparr>) A' False"
      using I(2) k(2,3) foreign_ok_touched [OF k(4) I(5)] CallGive by (simp add: handshake_inv_def batches_ok_def)
    with CallGive k(1) show ?thesis by (intro that) (simp_all add: handshake_producer_task_def)
  next
    case CallTake
    then have s: "side_ok turn False CallTake D (hkern h) A P" using I(3) by simp
    obtain p k A' where k: "take_section D c P NextBatch (hkern h) = Some (p, k)" "sinv {} k A'"
      "p = (if turn then NextBatch else SpinTake)" "side_ok turn turn p D k A' P" "only_touches D P (hkern h) A k A'"
      by (rule take_call [OF I(1) cur s])
    have "side_ok (\<not> turn) (consumer_works (consumer_pc h)) (consumer_pc h) R k A' C"
      by (rule side_ok_other [OF k(5) I(4)]) (use ne in auto)
    then have "handshake_inv R D P C U (h\<lparr>producer_pc := p, hkern := k\<rparr>) A' turn"
      using I(2) k(2-4) foreign_ok_touched [OF k(5) I(5)] CallTake by (cases turn) (simp_all add: handshake_inv_def batches_ok_def)
    with CallTake k(1) show ?thesis by (intro that) (simp_all add: handshake_producer_task_def)
  next
    case SpinTake
    then have s: "side_ok turn False SpinTake D (hkern h) A P" using I(3) by simp
    obtain p k where k: "spin_section P NextBatch (hkern h) = (p, k)" "sinv {} k A"
      "p = (if turn then NextBatch else SpinTake)" "side_ok turn turn p D k A P" "only_touches D P (hkern h) A k A"
      by (rule spin_call [OF I(1) s])
    have "side_ok (\<not> turn) (consumer_works (consumer_pc h)) (consumer_pc h) R k A C"
      by (rule side_ok_other [OF k(5) I(4)]) (use ne in auto)
    then have "handshake_inv R D P C U (h\<lparr>producer_pc := p, hkern := k\<rparr>) A turn"
      using I(2) k(2-4) foreign_ok_touched [OF k(5) I(5)] SpinTake by (cases turn) (simp_all add: handshake_inv_def batches_ok_def)
    with SpinTake k(1) show ?thesis by (intro that) (simp_all add: handshake_producer_task_def)
  next
    case NextBatch
    then have turn using working by simp
    then have "handshake_inv R D P C U (h\<lparr>producer_pc := StartBatch, producer_batch := producer_batch h + 1\<rparr>) A turn"
      using I NextBatch side_moves [of turn True NextBatch D "hkern h" A P StartBatch] by (simp add: handshake_inv_def batches_ok_def)
    with NextBatch show ?thesis by (intro that) (simp_all add: handshake_producer_task_def)
  qed
qed

lemma consumer_step_ok:
  assumes inv: "handshake_inv R D P C U h A turn" and cur: "p_task_control_block (hkern h) c = Some C"
    and ne: "P \<noteq> C" "R \<noteq> D"
  obtains h' A' turn' where "handshake_consumer_task R D c C h = Some h'" and "handshake_inv R D P C U h' A' turn'"
proof -
  note I = handshake_invD [OF inv]
  have working: "\<not> turn" if "consumer_works (consumer_pc h)" using I(4) that by (simp add: side_ok_def)
  show ?thesis
  proof (cases "consumer_pc h")
    case StartBatch
    then have "handshake_inv R D P C U (h\<lparr>consumer_pc := BusyBatch (scheduler_get_tick_count c (hkern h))\<rparr>) A turn"
      using I side_moves [of "\<not> turn" True StartBatch R "hkern h" A C] by (simp add: handshake_inv_def batches_ok_def)
    with StartBatch show ?thesis by (intro that) (simp_all add: handshake_consumer_task_def)
  next
    case (BusyBatch start)
    then have "handshake_inv R D P C U (h\<lparr>consumer_pc := CallGive\<rparr>) A turn"
      using I side_moves [of "\<not> turn" True "BusyBatch start" R "hkern h" A C] by (simp add: handshake_inv_def batches_ok_def)
    with BusyBatch inv show ?thesis
      by (cases "busy_work_ms c start 1800 (hkern h)") (auto simp: handshake_consumer_task_def intro: that)
  next
    case CallGive
    then have nt: "\<not> turn" using working by simp
    then have s: "side_ok False (producer_works (producer_pc h)) (producer_pc h) D (hkern h) A P" using I(3) by simp
    obtain k A' where k: "semaphore_give D (hkern h) = Some (E_OK, k)" "sinv {} k A'"
      "side_ok True (producer_works (producer_pc h)) (producer_pc h) D k A' P" "only_touches D P (hkern h) A k A'"
      by (rule give_call [OF I(1) s])
    have "\<not> producer_works (producer_pc h)" using s side_working by fastforce
    then have "producer_pc h \<in> {CallTake, SpinTake, NextBatch}" by (cases "producer_pc h") simp_all
    moreover have "side_ok False False NextBatch R k A' C"
      using side_gives [OF side_ok_other [OF k(4) _ ne(1) [symmetric]], of CallGive R NextBatch] I(4) CallGive nt ne(2)
      by simp
    ultimately have "handshake_inv R D P C U (h\<lparr>consumer_pc := NextBatch, hkern := k\<rparr>) A' True"
      using I(2) k(2,3) foreign_ok_touched [OF k(4) I(5)] CallGive nt by (simp add: handshake_inv_def batches_ok_def)
    with CallGive k(1) show ?thesis by (intro that) (simp_all add: handshake_consumer_task_def)
  next
    case CallTake
    then have s: "side_ok (\<not> turn) False CallTake R (hkern h) A C" using I(4) by simp
    obtain p k A' where k: "take_section R c C StartBatch (hkern h) = Some (p, k)" "sinv {} k A'"
      "p = (if \<not> turn then StartBatch else SpinTake)" "side_ok (\<not> turn) (\<not> turn) p R k A' C" "only_touches R C (hkern h) A k A'"
      by (rule take_call [OF I(1) cur s])
    have "side_ok turn (producer_works (producer_pc h)) (producer_pc h) D k A' P"
      by (rule side_ok_other [OF k(5) I(3)]) (use ne in auto)
    then have "handshake_inv R D P C U (h\<lparr>consumer_pc := p, hkern := k\<rparr>) A' turn"
      using I(2) k(2-4) foreign_ok_touched [OF k(5) I(5)] CallTake by (cases turn) (simp_all add: handshake_inv_def batches_ok_def)
    with CallTake k(1) show ?thesis by (intro that) (simp_all add: handshake_consumer_task_def)
  next
    case SpinTake
    then have s: "side_ok (\<not> turn) False SpinTake R (hkern h) A C" using I(4) by simp
    obtain p k where k: "spin_section C StartBatch (hkern h) = (p, k)" "sinv {} k A"
      "p = (if \<not> turn then StartBatch else SpinTake)" "side_ok (\<not> turn) (\<not> turn) p R k A C" "only_touches R C (hkern h) A k A"
      by (rule spin_call [OF I(1) s])
    have "side_ok turn (producer_works (producer_pc h)) (producer_pc h) D k A P"
      by (rule side_ok_other [OF k(5) I(3)]) (use ne in auto)
    then have "handshake_inv R D P C U (h\<lparr>consumer_pc := p, hkern := k\<rparr>) A turn"
      using I(2) k(2-4) foreign_ok_touched [OF k(5) I(5)] SpinTake by (cases turn) (simp_all add: handshake_inv_def batches_ok_def)
    with SpinTake k(1) show ?thesis by (intro that) (simp_all add: handshake_consumer_task_def)
  next
    case NextBatch
    then have "handshake_inv R D P C U (h\<lparr>consumer_pc := CallTake, consumer_batch := consumer_batch h + 1\<rparr>) A turn"
      using I side_moves [of "\<not> turn" False NextBatch R "hkern h" A C CallTake] by (simp add: handshake_inv_def batches_ok_def)
    with NextBatch show ?thesis by (intro that) (simp_all add: handshake_consumer_task_def)
  qed
qed

subsection \<open>Every reachable state\<close>

lemma sinv_semaphore_init:
  assumes "sinv X s A" and "A (SemaphoreBlockedList x) = []" shows "sinv X (semaphore_init x n v s) A"
  unfolding semaphore_init_def by (rule sinv_reset_list [OF sinv_upd_sem [OF assms(1)]]) (simp_all add: assms(2))

lemma handshake_inv_start:
  assumes "sinv {} k A" and "A (SemaphoreBlockedList R) = []" and "A (SemaphoreBlockedList D) = []"
    and "runs A P" and "runs A C" and "R \<noteq> D" and "foreign_ok U k A"
  shows "handshake_inv R D P C U (handshake_start R D k) A True"
proof -
  have i: "sinv {} (semaphore_init D 1 0 (semaphore_init R 1 0 k)) A" using assms(1-3) by (intro sinv_semaphore_init)
  moreover have "foreign_ok U (semaphore_init D 1 0 (semaphore_init R 1 0 k)) A"
    by (rule foreign_ok_same [OF assms(7) i]) (simp_all add: semaphore_init_def created_def)
  moreover have "semaphores (semaphore_init D 1 0 (semaphore_init R 1 0 k)) x = \<lparr>max_count = 1, sem_count = 0\<rparr>" if "x = D \<or> x = R" for x
    using that assms(6) by (auto simp: semaphore_init_def)
  ultimately show ?thesis
    using assms by (simp add: handshake_inv_def handshake_start_def batches_ok_def side_ok_def waits_def)
qed

context environment
begin

lemma handshake_env_inv:
  assumes inv: "handshake_inv R D P C U h A turn" and st: "env (hkern h) k" and P: "P \<in> T" "C \<in> T" and R: "R \<in> S" "D \<in> S"
    and home: "at_home T M S A"
  shows "\<exists>A'. handshake_inv R D P C U (h\<lparr>hkern := k\<rparr>) A' turn"
proof -
  note I = handshake_invD [OF inv]
  obtain A' where A': "sinv {} k A'" "harmless T M S (hkern h) A k A'" "foreign_ok U k A'" using env_step [OF st I(1) home I(5)] by blast
  have u: "undisturbed A A' t" "wakeup_reason (tcb k t) = wakeup_reason (tcb (hkern h) t)" if "t \<in> T" "\<not> timed A t" for t
    using A'(2) that by (auto simp: harmless_def let_alone_def)
  have s: "semaphores k x = semaphores (hkern h) x" "waits A' (SemaphoreBlockedList x) v \<Longrightarrow> waits A (SemaphoreBlockedList x) v"
    if "x \<in> S" for x v using A'(2) that by (auto simp: harmless_def own_list_def)
  note f = side_ok_frame [OF _ u(1) s(1) u(2) s(2)] and nt = side_ok_not_timed [OF I(1)]
  have "side_ok turn (producer_works (producer_pc h)) (producer_pc h) D k A' P"
    by (rule f [OF I(3) P(1) nt [OF I(3)] R(2) P(1) nt [OF I(3)] R(2)])
  moreover have "side_ok (\<not> turn) (consumer_works (consumer_pc h)) (consumer_pc h) R k A' C"
    by (rule f [OF I(4) P(2) nt [OF I(4)] R(1) P(2) nt [OF I(4)] R(1)])
  ultimately have "handshake_inv R D P C U (h\<lparr>hkern := k\<rparr>) A' turn"
    using A'(1,3) I(2) by (simp add: handshake_inv_def batches_ok_def)
  then show ?thesis by blast
qed

end

lemma handshake_home:
  assumes "handshake_inv R D P C U h A turn" shows "at_home {P, C} {} {R, D} A"
  using side_ok_waits(1) [OF handshake_invD(1) [OF assms] handshake_invD(3) [OF assms]]
    side_ok_waits(1) [OF handshake_invD(1) [OF assms] handshake_invD(4) [OF assms]]
  by (auto simp: at_home_def own_list_def)

abbreviation handshake_reach :: "sptr \<Rightarrow> sptr \<Rightarrow> tptr \<Rightarrow> tptr \<Rightarrow> mptr set \<Rightarrow> kernel \<Rightarrow> handshake \<Rightarrow> bool" where
  "handshake_reach R D P C U k h \<equiv>
     rtranclp (handshake_step (other_step {P, C} {} {R, D} U) R D P C) (handshake_start R D k) h"

lemma handshake_reach_inv:
  assumes "handshake_reach R D P C U k h" and "sinv {} k A"
    and "A (SemaphoreBlockedList R) = []" and "A (SemaphoreBlockedList D) = []"
    and "runs A P" and "runs A C" and ne: "R \<noteq> D" "P \<noteq> C"
    and f: "foreign_ok U k A"
  shows "\<exists>A' turn. handshake_inv R D P C U h A' turn"
  using assms(1)
proof (induction rule: rtranclp_induct)
  case base
  show ?case using handshake_inv_start [OF assms(2-7) f] by blast
next
  case (step h h')
  then obtain A' turn where inv: "handshake_inv R D P C U h A' turn" by blast
  from step(2) show ?case
  proof cases
    case (producer c)
    then show ?thesis by (metis producer_step_ok [OF inv _ ne(2,1)] option.inject)
  next
    case (consumer c)
    then show ?thesis by (metis consumer_step_ok [OF inv _ ne(2,1)] option.inject)
  next
    case (other k')
    then show ?thesis using others.handshake_env_inv [OF inv other(2) _ _ _ _ handshake_home [OF inv]] by auto
  qed
qed

text \<open>Claim C40 (safety). The producer and the consumer of the multicore demo stay in step under every interleaving with each other, the tick and
  all other tasks: they never work at the same time, the consumer works on the batch the producer has just handed over, a hand-over
  never fails, neither call dereferences null, and they never both wait.\<close>

theorem handshake_in_step:
  assumes "sinv {} k A" and "A (SemaphoreBlockedList R) = []" and "A (SemaphoreBlockedList D) = []"
    and "runs A P" and "runs A C" and "R \<noteq> D" and "P \<noteq> C" and "foreign_ok U k A"
    and "handshake_reach R D P C U k h"
  shows "\<not> (producer_works (producer_pc h) \<and> consumer_works (consumer_pc h)) \<and>
    (consumer_works (consumer_pc h) \<longrightarrow> consumer_batch h = producer_batch h) \<and>
    (producer_pc h = CallGive \<longrightarrow> (\<exists>k'. semaphore_give R (hkern h) = Some (E_OK, k'))) \<and>
    (consumer_pc h = CallGive \<longrightarrow> (\<exists>k'. semaphore_give D (hkern h) = Some (E_OK, k'))) \<and>
    (p_task_control_block (hkern h) c = Some P \<longrightarrow> handshake_producer_task R D c P h \<noteq> None) \<and>
    (p_task_control_block (hkern h) c = Some C \<longrightarrow> handshake_consumer_task R D c C h \<noteq> None) \<and>
    \<not> (current_state (tcb (hkern h) P) = TASK_STATE_BLOCKED \<and> current_state (tcb (hkern h) C) = TASK_STATE_BLOCKED)"
proof -
  obtain A' turn where inv: "handshake_inv R D P C U h A' turn" using handshake_reach_inv [OF assms(9,1-8)] by blast
  note I = handshake_invD [OF inv]
  have w: "producer_works (producer_pc h) \<Longrightarrow> turn" "consumer_works (consumer_pc h) \<Longrightarrow> \<not> turn"
    using I(3,4) by (auto simp: side_ok_def)
  have "consumer_batch h = producer_batch h" if c: "consumer_works (consumer_pc h)"
    using I(2) w(2) [OF c] c by (cases "consumer_pc h") (simp_all add: batches_ok_def)
  moreover have "\<exists>k'. semaphore_give R (hkern h) = Some (E_OK, k')" if "producer_pc h = CallGive"
    using give_call [OF I(1), of "consumer_works (consumer_pc h)" "consumer_pc h" R C] I(4) w(1) that by auto
  moreover have "\<exists>k'. semaphore_give D (hkern h) = Some (E_OK, k')" if "consumer_pc h = CallGive"
    using give_call [OF I(1), of "producer_works (producer_pc h)" "producer_pc h" D P] I(3) w(2) that by auto
  moreover have "handshake_producer_task R D c P h \<noteq> None" if "p_task_control_block (hkern h) c = Some P"
    using producer_step_ok [OF inv that assms(7,6)] by auto
  moreover have "handshake_consumer_task R D c C h \<noteq> None" if "p_task_control_block (hkern h) c = Some C"
    using consumer_step_ok [OF inv that assms(7,6)] by auto
  moreover have "runs A' P \<or> runs A' C" using I(3,4) by (auto simp: side_ok_def split: if_splits)
  ultimately show ?thesis using w runsD(2) [OF I(1), of P] runsD(2) [OF I(1), of C] by auto
qed

text \<open>The consumer of a freshly started system blocks, and the producer does not.\<close>

theorem handshake_in_step_witness:
  "\<exists>h. handshake_reach (Sem 0) (Sem (Suc 0)) (TcbPool 2 (Suc 0)) (TcbPool 2 0) {} demo_kernel h \<and> consumer_pc h = SpinTake \<and>
     current_state (tcb (hkern h) (TcbPool 2 0)) = TASK_STATE_BLOCKED \<and>
     current_state (tcb (hkern h) (TcbPool 2 (Suc 0))) \<noteq> TASK_STATE_BLOCKED"
proof -
  let ?P = "TcbPool 2 (Suc 0)" and ?C = "TcbPool 2 0" and ?h = "handshake_start (Sem 0) (Sem (Suc 0)) demo_kernel"
  note K = demo_kernel_facts
  have e: "demo_lists (SemaphoreBlockedList x) = []" and r: "runs demo_lists ?P" "runs demo_lists ?C" for x
    by (auto simp: demo_lists_def runs_def)
  have inv: "handshake_inv (Sem 0) (Sem (Suc 0)) ?P ?C {} ?h demo_lists True"
    by (rule handshake_inv_start [OF K(2) e e r]) (simp_all add: foreign_ok_def)
  have cur: "p_task_control_block (hkern ?h) 2 = Some ?C" by (simp add: handshake_start_def semaphore_init_def K(4))
  have pc: "consumer_pc ?h = CallTake" by (simp add: handshake_start_def)
  have s: "side_ok False False CallTake (Sem 0) (hkern ?h) demo_lists ?C" using handshake_invD(4) [OF inv] pc by simp
  obtain p k A' where k: "take_section (Sem 0) 2 ?C StartBatch (hkern ?h) = Some (p, k)" "sinv {} k A'"
    "p = (if False then StartBatch else SpinTake)" "side_ok False False p (Sem 0) k A' ?C"
    by (rule take_call [OF handshake_invD(1) [OF inv] cur s]) (rule that)
  let ?h' = "?h\<lparr>consumer_pc := p, hkern := k\<rparr>"
  have "handshake_consumer_task (Sem 0) (Sem (Suc 0)) 2 ?C ?h = Some ?h'" by (simp add: handshake_consumer_task_def pc k(1))
  then have reach: "handshake_reach (Sem 0) (Sem (Suc 0)) ?P ?C {} demo_kernel ?h'" by (intro r_into_rtranclp handshake_step.consumer [OF cur])
  have "waits A' (SemaphoreBlockedList (Sem 0)) ?C" using k(3,4) by (simp add: side_ok_def)
  then have b: "current_state (tcb k ?C) = TASK_STATE_BLOCKED" using not_runs(3) [OF k(2)] by blast
  with handshake_in_step [OF K(2) e e r _ _ _ reach, of 2] have "current_state (tcb k ?P) \<noteq> TASK_STATE_BLOCKED" by (simp add: foreign_ok_def)
  with reach b k(3) show ?thesis by (intro exI [of _ ?h']) simp
qed

end
