(* ===== verification/Demo_Boot.thy ===== *)
theory Demo_Boot
  imports Task_Boot App_Runtime
begin

text \<open>
  How the companion cores of \<^verbatim>\<open>samples/rtos/multicore_full_demo/main.c\<close> start: each initialises its own scheduler, starts the task that
  reports to the watchdog, creates its tasks and enters the scheduler. Entry points are addresses the linker chooses, given by name;
  the interrupt controller and the timer are set up in \<^verbatim>\<open>Irq\<close>'s state, and \<open>clk\<close> is the frequency that \<open>gentimer_init\<close> found.
\<close>

definition hz_1000 :: u32 where "hz_1000 = 1000"

type_synonym boot_params = "(string \<Rightarrow> u32) \<times> (kernel \<Rightarrow> (StatusCode \<times> kernel) option) \<times> u32 \<times> WatchdogConfig option"

definition core1_kmain :: "boot_params \<Rightarrow> kernel \<Rightarrow> (StatusCode \<times> kernel) option" where
  "core1_kmain b k = (case b of (addr, dfu, clk, cfg) \<Rightarrow> do {
     (_, k) \<leftarrow> scheduler_init (addr ''idle_task_func'') dfu 1 (Some clk) hz_1000 True k;
     let trap = addr ''task_exit_trap'';
     let k = snd (watchdog_core_task_start trap (addr ''watchdog_core_kick_task'') 1 cfg k);
     let k = snd (snd (task_create trap 1 (addr ''mutex_counter_task'') 2048 1 0 k));
     let k = snd (snd (task_create trap 1 (addr ''pong_task'') 2048 2 0 k));
     let k = snd (snd (task_create trap 1 (addr ''handshake_producer_task'') 2048 2 0 k));
     let k = snd (snd (task_create trap 1 (addr ''grind_task'') 2048 1 0 k));
     scheduler_start 1 k })"

definition core2_kmain :: "boot_params \<Rightarrow> kernel \<Rightarrow> (StatusCode \<times> kernel) option" where
  "core2_kmain b k = (case b of (addr, dfu, clk, cfg) \<Rightarrow> do {
     (_, k) \<leftarrow> scheduler_init (addr ''idle_task_func'') dfu 2 (Some clk) hz_1000 True k;
     let trap = addr ''task_exit_trap'';
     let k = snd (watchdog_core_task_start trap (addr ''watchdog_core_kick_task'') 2 cfg k);
     let k = snd (snd (task_create trap 2 (addr ''mutex_counter_task'') 2048 1 0 k));
     let k = snd (snd (task_create trap 2 (addr ''queue_send_task'') 2048 2 0 k));
     let k = snd (snd (task_create trap 2 (addr ''handshake_consumer_task'') 2048 2 0 k));
     let k = snd (snd (task_create trap 2 (addr ''grind_task'') 2048 1 0 k));
     scheduler_start 2 k })"

definition core3_kmain :: "boot_params \<Rightarrow> kernel \<Rightarrow> (StatusCode \<times> kernel) option" where
  "core3_kmain b k = (case b of (addr, dfu, clk, cfg) \<Rightarrow> do {
     (_, k) \<leftarrow> scheduler_init (addr ''idle_task_func'') dfu 3 (Some clk) hz_1000 True k;
     let trap = addr ''task_exit_trap'';
     let k = snd (watchdog_core_task_start trap (addr ''watchdog_core_kick_task'') 3 cfg k);
     let k = snd (snd (task_create trap 3 (addr ''telemetry_publisher_task'') 2048 1 0 k));
     scheduler_start 3 k })"

text \<open>The tasks of each core as a list.\<close>

definition core_tasks :: "core \<Rightarrow> (string \<Rightarrow> u32) \<Rightarrow> (u32 \<times> u16 \<times> TaskPriorityLevel) list" where
  "core_tasks c addr = (addr ''watchdog_core_kick_task'', 512, 1) #
     (if c = 1 then [(addr ''mutex_counter_task'', 2048, 1), (addr ''pong_task'', 2048, 2), (addr ''handshake_producer_task'', 2048, 2),
                     (addr ''grind_task'', 2048, 1)]
      else if c = 2 then [(addr ''mutex_counter_task'', 2048, 1), (addr ''queue_send_task'', 2048, 2),
                          (addr ''handshake_consumer_task'', 2048, 2), (addr ''grind_task'', 2048, 1)]
      else [(addr ''telemetry_publisher_task'', 2048, 1)])"

definition kmain_of :: "core \<Rightarrow> boot_params \<Rightarrow> kernel \<Rightarrow> (StatusCode \<times> kernel) option" where
  "kmain_of c = (if c = 1 then core1_kmain else if c = 2 then core2_kmain else core3_kmain)"

definition multicore_config :: "WatchdogConfig option \<Rightarrow> bool" where
  "multicore_config cfg \<longleftrightarrow> (case cfg of None \<Rightarrow> False | Some c \<Rightarrow> multicore_mode c \<and> companion_core_ctx c \<noteq> None)"

lemma kmain_of_eq:
  assumes "multicore_config cfg" and "c \<in> {1, 2, 3}"
  shows "kmain_of c (addr, dfu, clk, cfg) k = do {
     (_, k) \<leftarrow> scheduler_init (addr ''idle_task_func'') dfu c (Some clk) hz_1000 True k;
     scheduler_start c (create_all (addr ''task_exit_trap'') c (core_tasks c addr) k) }"
proof -
  have w: "snd (watchdog_core_task_start trap e d cfg s) = snd (snd (task_create trap d e 512 1 0 s))" for trap e d s
    using assms(1) by (auto simp: watchdog_core_task_start_def multicore_config_def split: option.splits prod.splits)
  show ?thesis
    using assms(2) by (auto simp: kmain_of_def core_tasks_def core1_kmain_def core2_kmain_def core3_kmain_def w Let_def)
qed

lemma stack_total_core: "stack_total (core_tasks c addr) = (if c \<in> {1, 2} then 8704 else 2560)"
  by (simp add: core_tasks_def)

lemma core_boots:
  assumes "system_ok k A" and "multicore_config cfg" and c: "c \<in> {1, 2, 3}" and "idle_core c k" and "task_counter k c = 0"
    and "unat (heap_offset k) + 4 * stack_total (core_tasks c addr) \<le> 262144"
  obtains k' A' where "kmain_of c (addr, dfu, clk, cfg) k = Some (E_OK, k')"
    and "core_started (addr ''task_exit_trap'') c (core_tasks c addr) k A k' A'"
proof -
  have c0: "c \<noteq> 0" using c by auto
  have room: "has_room c (core_tasks c addr) k"
    using assms(3,5,6) by (auto simp: has_room_def core_tasks_def task_consts HEAP_SIZE_BYTES_def)
  obtain k1 k' A' where "scheduler_init (addr ''idle_task_func'') dfu c (Some clk) hz_1000 True k = Some (E_OK, k1)"
    "scheduler_start c (create_all (addr ''task_exit_trap'') c (core_tasks c addr) k1) = Some (E_OK, k')"
    "core_started (addr ''task_exit_trap'') c (core_tasks c addr) k A k' A'"
    by (rule core_started_ok [OF assms(1) c0 assms(4) room, of "addr ''idle_task_func''" dfu clk hz_1000 "addr ''task_exit_trap''"]) (rule that)
  then show ?thesis by (intro that) (simp_all add: kmain_of_eq [OF assms(2) c])
qed

lemma core_keeps:
  assumes "core_started trap c ts k A k' A'" and "d \<noteq> c" and "p_task_control_block k d = Some u" and "created k u"
  shows "p_task_control_block k' d = Some u" "created k' u" "priority (tcb k' u) = priority (tcb k u)"
  using assms unfolding core_started_def rank_def by auto

text \<open>The tasks of core \<open>c\<close> exist: exactly as many as \<open>main.c\<close> creates there, each ready, at its priority, holding no mutex, and with the stack frame that enters
  its function.\<close>

definition core_populated :: "core \<Rightarrow> (string \<Rightarrow> u32) \<Rightarrow> kernel \<Rightarrow> (lptr \<Rightarrow> iptr list) \<Rightarrow> bool" where
  "core_populated c addr k A \<longleftrightarrow> unat (task_counter k c) = length (core_tasks c addr) \<and>
     (\<forall>i<length (core_tasks c addr). case core_tasks c addr ! i of (f, d, p) \<Rightarrow>
        runs A (TcbPool c i) \<and> rank (tcb k (TcbPool c i)) = (p, p, 0) \<and> starts_at (addr ''task_exit_trap'') k (TcbPool c i) f)"

lemma core_tasks_clamp: "i < length (core_tasks c addr) \<Longrightarrow> core_tasks c addr ! i = (f, d, p) \<Longrightarrow> clamp_prio p = p"
proof -
  have "\<forall>(f, d, p)\<in>set (core_tasks c addr). clamp_prio p = p" by (simp add: core_tasks_def clamp_prio_def task_consts)
  then show "i < length (core_tasks c addr) \<Longrightarrow> core_tasks c addr ! i = (f, d, p) \<Longrightarrow> clamp_prio p = p" using nth_mem by fastforce
qed

lemma core_populates:
  assumes "core_started (addr ''task_exit_trap'') c (core_tasks c addr) k A k' A'" and "task_counter k c = 0"
  shows "core_populated c addr k' A'"
  unfolding core_populated_def
proof (intro conjI allI impI)
  note D = core_startedD [OF assms(1)]
  have n: "nth_task c k i = TcbPool c i" for i by (simp add: nth_task_def assms(2))
  show "unat (task_counter k' c) = length (core_tasks c addr)" using D(13) assms(2) by simp
  fix i assume i: "i < length (core_tasks c addr)"
  then show "case core_tasks c addr ! i of (f, d, p) \<Rightarrow>
      runs A' (TcbPool c i) \<and> rank (tcb k' (TcbPool c i)) = (p, p, 0) \<and> starts_at (addr ''task_exit_trap'') k' (TcbPool c i) f"
    using D(2,11,12) [OF i, unfolded n] core_tasks_clamp [OF i] by (auto split: prod.splits)
qed

lemma core_populated_keep:
  assumes "core_populated d addr k A" and "core_started (addr ''task_exit_trap'') c ts k A k' A'" and "d \<noteq> c"
  shows "core_populated d addr k' A'"
  using assms(1) core_startedD(3,6,14,15) [OF assms(2)] assms(3) unfolding core_populated_def
  by (auto simp: starts_at_def split: prod.splits)

text \<open>Claim C36 (functional). The three companion cores of the multicore demo start. Take any state that satisfies the kernel invariants with intact stacks, in
  which cores 1 to 3 have no tasks yet and at most 182272 bytes of the heap are in use, and release the cores one after the other with a
  multi-core watchdog configuration. No null is dereferenced, the three \<open>scheduler_start\<close> calls return \<open>E_OK\<close>, and each core then has exactly the tasks that its
  \<open>kmain\<close> creates (five, five and two): every one is ready, at its priority, with the stack frame that enters its function, although the code discards what
  \<open>task_create\<close> returns. Each core runs a task of the highest priority it has. The kernel invariants hold, everything that was ready stays ready, and the
  mutexes, the semaphores and their wait lists are as core 0 left them.\<close>

theorem multicore_boots:
  assumes "system_ok k A" and "multicore_config cfg" and "\<forall>c\<in>{1, 2, 3}. idle_core c k \<and> task_counter k c = 0"
    and "unat (heap_offset k) \<le> 182272"
  shows "\<exists>k1 k2 k3 A3. core1_kmain (addr, dfu, clk1, cfg) k = Some (E_OK, k1) \<and> core2_kmain (addr, dfu, clk2, cfg) k1 = Some (E_OK, k2) \<and>
    core3_kmain (addr, dfu, clk3, cfg) k2 = Some (E_OK, k3) \<and> system_ok k3 A3 \<and>
    (\<forall>c\<in>{1, 2, 3}. core_populated c addr k3 A3) \<and> (\<forall>u. runs A u \<longrightarrow> runs A3 u) \<and>
    (\<forall>m. A3 (MutexBlockedList m) = A (MutexBlockedList m)) \<and> (\<forall>x. A3 (SemaphoreBlockedList x) = A (SemaphoreBlockedList x)) \<and>
    mutexes k3 = mutexes k \<and> semaphores k3 = semaphores k \<and>
    (\<forall>c\<in>{1, 2}. \<exists>u. p_task_control_block k3 c = Some u \<and> 2 \<le> priority (tcb k3 u)) \<and>
    (\<exists>u. p_task_control_block k3 3 = Some u \<and> 1 \<le> priority (tcb k3 u))"
proof -
  have idle: "idle_core 1 k" "idle_core 2 k" "idle_core 3 k" "task_counter k 1 = 0" "task_counter k 2 = 0" "task_counter k 3 = 0"
    using assms(3) by simp_all
  let ?trap = "addr ''task_exit_trap''"
  obtain k1 A1 where k1: "core1_kmain (addr, dfu, clk1, cfg) k = Some (E_OK, k1)" and S1: "core_started ?trap 1 (core_tasks 1 addr) k A k1 A1"
    by (rule core_boots [OF assms(1,2), of 1 addr dfu clk1]) (use idle assms(4) in \<open>auto simp: stack_total_core kmain_of_def\<close>)
  note D1 = core_startedD [OF S1]
  have hp1: "unat (heap_offset k1) = unat (heap_offset k) + 34816" using D1(10) by (simp add: stack_total_core)
  obtain k2 A2 where k2: "core2_kmain (addr, dfu, clk2, cfg) k1 = Some (E_OK, k2)" and S2: "core_started ?trap 2 (core_tasks 2 addr) k1 A1 k2 A2"
    by (rule core_boots [OF D1(1) assms(2), of 2 addr dfu clk2])
      (use idle assms(4) D1(6,7) hp1 in \<open>auto simp: stack_total_core kmain_of_def\<close>)
  note D2 = core_startedD [OF S2]
  have hp2: "unat (heap_offset k2) = unat (heap_offset k1) + 34816" using D2(10) by (simp add: stack_total_core)
  obtain k3 A3 where k3: "core3_kmain (addr, dfu, clk3, cfg) k2 = Some (E_OK, k3)" and S3: "core_started ?trap 3 (core_tasks 3 addr) k2 A2 k3 A3"
    by (rule core_boots [OF D2(1) assms(2), of 3 addr dfu clk3])
      (use idle assms(4) D1(6,7) D2(6,7) hp1 hp2 in \<open>auto simp: stack_total_core kmain_of_def\<close>)
  note D3 = core_startedD [OF S3]
  have keep: "runs A3 u" if "runs A u" for u using D1(3) D2(3) D3(3) that by blast
  have "core_populated 1 addr k3 A3" "core_populated 2 addr k3 A3" "core_populated 3 addr k3 A3"
    using core_populates [OF S1] core_populates [OF S2] core_populates [OF S3] core_populated_keep [where addr = addr, OF _ S2]
      core_populated_keep [where addr = addr, OF _ S3] idle D1(6) D2(6) by simp_all
  then have pop: "\<forall>c\<in>{1, 2, 3}. core_populated c addr k3 A3" by simp
  obtain u1 where u1: "p_task_control_block k1 1 = Some u1" "created k1 u1" "2 \<le> priority (tcb k1 u1)"
    by (rule core_running [OF S1, of 2]) (simp_all add: core_tasks_def clamp_prio_def task_consts that)
  note u1' = core_keeps [OF S2 _ u1(1,2), simplified]
  note u1'' = core_keeps [OF S3 _ u1'(1,2), simplified]
  obtain u2 where u2: "p_task_control_block k2 2 = Some u2" "created k2 u2" "2 \<le> priority (tcb k2 u2)"
    by (rule core_running [OF S2, of 2]) (simp_all add: core_tasks_def clamp_prio_def task_consts that)
  note u2' = core_keeps [OF S3 _ u2(1,2), simplified]
  obtain u3 where u3: "p_task_control_block k3 3 = Some u3" "1 \<le> priority (tcb k3 u3)"
    by (rule core_running [OF S3, of 0]) (simp_all add: core_tasks_def clamp_prio_def task_consts that)
  have cur: "\<forall>c\<in>{1, 2}. \<exists>u. p_task_control_block k3 c = Some u \<and> 2 \<le> priority (tcb k3 u)"
    using u1'' u1'(3) u1(3) u2' u2(3) by auto
  have lists: "A3 (MutexBlockedList m) = A (MutexBlockedList m)" "A3 (SemaphoreBlockedList x) = A (SemaphoreBlockedList x)" for m x
    using D1(4) D2(4) D3(4) by simp_all
  have obj: "mutexes k3 = mutexes k" "semaphores k3 = semaphores k" using D1(8,9) D2(8,9) D3(8,9) by simp_all
  show ?thesis
    by (intro exI [of _ k1] exI [of _ k2] exI [of _ k3] exI [of _ A3] conjI k1 k2 k3 D3(1) pop cur)
      (use keep lists obj u3 in auto)
qed

text \<open>From the store at reset.\<close>

definition demo_config :: WatchdogConfig where
  "demo_config = \<lparr>timeout_s = 5, reset_policy = WATCHDOG_RESET_POLICY_FORCE_UPDATE, tolerance = 1, confirm_delay_ms = 1000,
     multicore_mode = True, companion_core_ctx = Some 0\<rparr>"

theorem multicore_boots_witness:
  "\<exists>k1 k2 k3 A3. core1_kmain (\<lambda>_. 0, \<lambda>s. None, 54000000, Some demo_config) bss_kernel = Some (E_OK, k1) \<and>
     core2_kmain (\<lambda>_. 0, \<lambda>s. None, 54000000, Some demo_config) k1 = Some (E_OK, k2) \<and>
     core3_kmain (\<lambda>_. 0, \<lambda>s. None, 54000000, Some demo_config) k2 = Some (E_OK, k3) \<and>
     (\<forall>c\<in>{1, 2, 3}. core_populated c (\<lambda>_. 0) k3 A3)"
proof -
  have "multicore_config (Some demo_config)" by (simp add: multicore_config_def demo_config_def)
  moreover have "\<forall>c\<in>{1, 2, 3}. idle_core c bss_kernel \<and> task_counter bss_kernel c = 0"
    by (simp add: idle_core_bss) (simp add: bss_kernel_def)
  moreover have "unat (heap_offset bss_kernel) \<le> 182272" by (simp add: bss_kernel_def)
  ultimately show ?thesis
    using multicore_boots [OF bss_system_ok, of "Some demo_config" "\<lambda>_. 0" "\<lambda>s. None" 54000000 54000000 54000000] by blast
qed

end
