(* ===== verification/Spec2Isabelle.thy ===== *)
theory Spec2Isabelle
  imports Scheduler_Props Heap Spinlock Mutex Queue Software_Timer Crc Telemetry Bootstrap Trial_Props Uart_Print Uart_Tx_Props Pca9685_Props
    Watchdog_Gate Inheritance_Demo Handshake Demo_Boot
begin

text \<open>
  A verification development for RPITOS, a bare-metal real-time operating system and A/B boot chain for the Raspberry Pi CM4. File names
  below are relative to \<^verbatim>\<open>src/source\<close>.

  \<^bold>\<open>The program.\<close> A first-stage bootstrap loads a bootloader from the eMMC; the bootloader receives firmware updates over a UART into the app slot
  that is not active, validates images, and starts the active one, on trial until it confirms itself. The app is a kernel with a priority
  round-robin scheduler per core, blocking synchronisation with priority inheritance, queues and software timers, and a telemetry stream. A
  hardware watchdog, gated on the reports of all cores, resets the board when the app stops.

  \<^bold>\<open>Kernel\<close> (\<^verbatim>\<open>kernel/\<close>). One \<open>kernel\<close> record holds what the C code keeps in statics and in the heap: task control blocks by address, the ready, blocked
  and delay lists of each core as intrusive doubly linked lists, the current tasks, ticks, and the objects the tasks share.
  \<^item> \<^verbatim>\<open>Prelude\<close>, \<^verbatim>\<open>Task_Types\<close>: machine integers, status codes, shared lemmas; task control blocks, lists and the kernel state (\<^verbatim>\<open>task_types.h\<close>).
  \<^item> \<^verbatim>\<open>Intrusive_List\<close>: the list operations on linked cells, with the abstraction to HOL lists that the other theories use.
  \<^item> \<^verbatim>\<open>Scheduler\<close>, \<^verbatim>\<open>Scheduler_Inv\<close>, \<^verbatim>\<open>Scheduler_Props\<close>: picking, preemption, ticking, delaying, blocking and priority changes; the well-formedness
    invariant and its preservation; highest priority first, round robin, wake-up of delayed tasks.
  \<^item> \<^verbatim>\<open>Heap\<close>, \<^verbatim>\<open>Task\<close>, \<^verbatim>\<open>Boot_Image\<close>: the kernel's allocator, task creation with its initial stack frame, and the state after start-up.
  \<^item> \<^verbatim>\<open>Spinlock\<close>: Lamport's bakery lock between the cores, as a step relation with mutual exclusion by rule induction; a section inside it
    is one atomic step of the objects it guards.
  \<^item> \<^verbatim>\<open>Waiting\<close>, \<^verbatim>\<open>Semaphore\<close>, \<^verbatim>\<open>Semaphore_Props\<close>, \<^verbatim>\<open>Mutex\<close>, \<^verbatim>\<open>Queue\<close>, \<^verbatim>\<open>Software_Timer\<close>: the blocking objects, priority inheritance, the ring buffer as a
    refinement of a bounded list, and the timer list.

  \<^bold>\<open>Telemetry\<close>. \<^verbatim>\<open>Crc\<close> is \<^verbatim>\<open>drivers/crc\<close>, with the equality of the word-wise routine and the bytewise checksum and its error detection;
  \<^verbatim>\<open>Telemetry\<close> is \<^verbatim>\<open>telemetry/\<close>: packets, their framing, and that a receiver decodes what was sent.

  \<^bold>\<open>Drivers\<close> (\<^verbatim>\<open>drivers/\<close>). \<^verbatim>\<open>Mmio\<close> makes every volatile access an event; a device is any function from the events so far to the value of the
  next read, so the theorems hold for every device. \<^verbatim>\<open>Gpio\<close>, \<^verbatim>\<open>Uart\<close>, \<^verbatim>\<open>Emmc\<close>, \<^verbatim>\<open>Watchdog\<close> translate the drivers at this level. \<^verbatim>\<open>Emmc_Props\<close> reads the trace
  as commands with their data: which sectors a write can reach, that it writes exactly the buffer, and the contract of single-sector reads
  and writes that the boot chain rests on. \<^verbatim>\<open>Watchdog_Props\<close> has the metadata sector and the multi-core gate for complete calls, \<^verbatim>\<open>Watchdog_Gate\<close> the gate with the
  cores interleaved access by access, as it takes no lock. \<^verbatim>\<open>Uart_Print\<close> is the formatted printer, against a specification that parses and renders a format string
  independently of the code; \<^verbatim>\<open>Uart_Tx\<close> and \<^verbatim>\<open>Uart_Tx_Props\<close> are the buffered transmit path, with all interleavings of the accesses of producers, drain
  task, DMA engine and interrupt. \<^verbatim>\<open>Irq\<close> has the interrupt controller, the handler table and the tick timer, \<^verbatim>\<open>Dma\<close>, \<^verbatim>\<open>Mailbox\<close>
  and \<^verbatim>\<open>I2c\<close> the controllers, \<^verbatim>\<open>Pca9685\<close> the PWM chip behind I2C, and \<^verbatim>\<open>Pca9685_Props\<close> what a call does on the bus.

  \<^bold>\<open>Boot chain\<close> (\<^verbatim>\<open>boot/\<close>). \<^verbatim>\<open>Dfu_Trigger\<close> and \<^verbatim>\<open>Boot\<close> have the boot flags, the update key and image validation; \<^verbatim>\<open>Dfu_Receive\<close> the packet parser and the
  update session. \<^verbatim>\<open>Dfu_Safety\<close> shows what a session can do to the card for every stream of bytes, \<^verbatim>\<open>Dfu_Session\<close> that the flashing script's
  stream ends in an installed image. \<^verbatim>\<open>Bootloader\<close> (\<^verbatim>\<open>samples/boot/bootloader\<close>) composes them into the second stage; \<^verbatim>\<open>Bootloader_Props\<close> has what one pass of
  its checks does to the metadata, and follows a flashing host from reset to the jump. \<^verbatim>\<open>Bootstrap\<close> has the first stage and the wiper; what the machine does once a
  header's length takes the load out of its region is the parameter \<open>wild\<close> there. \<^verbatim>\<open>App_Runtime\<close> is what the application runs for the boot chain: watchdog
  tasks, parking of the cores, the way back to the bootloader; \<^verbatim>\<open>Trial_Props\<close> follows the metadata over any number of resets and starts of the application, which
  rewrite tolerance and policy: an update that never confirms is rolled back, one that does stays, each for the tolerances stated, and with others trial and
  reset tolerance undo each other.

  \<^bold>\<open>Programs on the kernel\<close>. \<^verbatim>\<open>Task_Places\<close> restates the kernel operations as what they do to the place of one task (ready, delayed, waiting), and
  \<^verbatim>\<open>Inheritance_Props\<close> puts mutex and scheduler together: no priority inversion. \<^verbatim>\<open>Environment\<close> is the rest of the system as a group of tasks sees it, a
  step relation and the contract it keeps; \<^verbatim>\<open>Lock_Clients\<close> is the proof about a mutex that every program with one needs. The programs are control
  points that interleave with each other and with that environment: \<^verbatim>\<open>Shared_Counter\<close> and \<^verbatim>\<open>Handshake\<close> are the tasks of
  \<^verbatim>\<open>samples/rtos/multicore_full_demo\<close> that share state across cores (mutual exclusion and no lost update; a producer and a consumer that stay in
  step), \<^verbatim>\<open>Inheritance_Demo\<close> is \<^verbatim>\<open>samples/rtos/mutex_inheritance\<close> (who has which priority when). \<^verbatim>\<open>Task_Boot\<close> and \<^verbatim>\<open>Demo_Boot\<close> start the companion
  cores of the multicore demo from any sound state of core 0, one after the other: the states those theorems start from.

  \<^bold>\<open>Bounds and loops.\<close> Integers are words of their C width. A loop that counts down is a \<open>function\<close> with its termination proof; a wait that may never
  end is a \<open>partial_function\<close> into an option, and \<open>None\<close> is not returning. No fuel is used.

  \<^bold>\<open>Interfaces.\<close> Five locales, each interpreted on the definitions of the code: \<open>io_rel\<close> (\<^verbatim>\<open>Mmio\<close>), relations that driver operations keep;
  \<open>exclusive_lock\<close> (\<^verbatim>\<open>Spinlock\<close>), what a lock promises to the code it guards; \<open>bounded_fifo\<close> (\<^verbatim>\<open>Queue\<close>), what the ring promises to sender and receiver; \<open>environment\<close>
  (\<^verbatim>\<open>Environment\<close>), what the other tasks and the interrupts promise to a group of tasks, and
  \<open>calm_environment\<close>, which extends it where they leave the group's priorities alone.

  \<^bold>\<open>Not modelled.\<close> Start-up assembly and linker scripts; the text that drivers and boot code print on the console; the busy delays inside the drivers; the calls that report telemetry from inside kernel
  and boot functions; the other demo programs and tasks under \<^verbatim>\<open>samples/rtos\<close>, and
  \<open>kmain\<close> on core 0 of the two that are modelled; caches and weak memory. A section
  of the kernel's tick handler is one step, although it unlinks an event item under the scheduler's lock only.
\<close>

end
